(* ===== verification/Prelude.thy ===== *)
theory Prelude
  imports Main "HOL-Library.Word"
begin

text \<open>
  Shared ground of the development: the machine integer types of the two C
  programs, the list operations that stand for C array accesses, and the lemma
  collections the component theories add to.

  A C array is a list; \<open>modify i f xs\<close> is the read-modify-write of element
  \<open>i\<close>, and \<open>find_idx\<close> is the loop that walks an array from index 0 and stops
  at the first element that passes a test.
\<close>

section \<open>Machine integers\<close>

type_synonym uint8 = "8 word"
type_synonym uint16 = "16 word"
type_synonym uint32 = "32 word"
type_synonym uint64 = "64 word"

section \<open>Lemma collections\<close>

named_theorems frame \<open>fields that an operation leaves alone\<close>
named_theorems opdefs \<open>definitions of the operations of a component\<close>

section \<open>Array update\<close>

definition modify :: "nat \<Rightarrow> ('a \<Rightarrow> 'a) \<Rightarrow> 'a list \<Rightarrow> 'a list" where
  "modify i f xs = xs[i := f (xs ! i)]"

lemma length_modify [simp]: "length (modify i f xs) = length xs"
  by (simp add: modify_def)

lemma nth_modify [simp]:
  "j < length xs \<Longrightarrow> modify i f xs ! j = (if j = i then f (xs ! j) else xs ! j)"
  by (auto simp: modify_def nth_list_update)

lemma nth_modify_any:
  "modify i f xs ! j = (if j = i \<and> j < length xs then f (xs ! j) else xs ! j)"
  by (cases "i < length xs") (auto simp: modify_def nth_list_update list_update_beyond)

lemma modify_same: "i < length xs \<Longrightarrow> modify i f xs ! i = f (xs ! i)"
  by simp

lemma modify_beyond [simp]: "length xs \<le> i \<Longrightarrow> modify i f xs = xs"
  by (simp add: modify_def list_update_beyond)

lemma map_modify_frame:
  assumes "\<And>x. g (f x) = g x"
  shows "map g (modify i f xs) = map g xs"
  by (rule nth_equalityI) (auto simp: assms)

section \<open>The first element that passes a test\<close>

primrec find_idx :: "('a \<Rightarrow> bool) \<Rightarrow> 'a list \<Rightarrow> nat option" where
  "find_idx P [] = None"
| "find_idx P (x # xs) = (if P x then Some 0 else map_option Suc (find_idx P xs))"

lemma find_idx_None: "find_idx P xs = None \<longleftrightarrow> (\<forall>x \<in> set xs. \<not> P x)"
  by (induction xs) auto

lemma find_idx_SomeD:
  assumes "find_idx P xs = Some i"
  shows "i < length xs" and "P (xs ! i)" and "\<forall>j < i. \<not> P (xs ! j)"
  using assms
proof (induction xs arbitrary: i)
  case (Cons x xs)
  {
    case 1
    with Cons.IH(1) show ?case by (cases i) (auto split: if_splits)
  next
    case 2
    with Cons.IH(2) show ?case by (cases i) (auto split: if_splits)
  next
    case 3
    with Cons.IH(3) show ?case
      by (auto split: if_splits simp: nth_Cons' less_Suc_eq_0_disj)
  }
qed simp_all

lemma find_idx_SomeI:
  assumes "i < length xs" "P (xs ! i)" "\<forall>j < i. \<not> P (xs ! j)"
  shows "find_idx P xs = Some i"
proof (cases "find_idx P xs")
  case None
  with assms(1,2) show ?thesis by (auto simp: find_idx_None)
next
  case (Some k)
  have "k = i"
    using find_idx_SomeD [OF Some] assms by (metis linorder_neqE_nat)
  with Some show ?thesis by simp
qed

lemma find_idx_ex: "x \<in> set xs \<Longrightarrow> P x \<Longrightarrow> \<exists>i. find_idx P xs = Some i"
  by (metis find_idx_None not_None_eq)

section \<open>Results with a failure value\<close>

text \<open>
  \<open>bindR\<close> continues with the value of a successful result and passes a
  failure on, which is what an early return or a panic does.
\<close>

definition bindR :: "'e + 'a \<Rightarrow> ('a \<Rightarrow> 'e + 'b) \<Rightarrow> 'e + 'b" where
  "bindR r f = (case r of Inl e \<Rightarrow> Inl e | Inr a \<Rightarrow> f a)"

lemma bindR_simps [simp]:
  "bindR (Inl e) f = Inl e"
  "bindR (Inr a) f = f a"
  by (simp_all add: bindR_def)

lemma bindR_cong:
  "r = r' \<Longrightarrow> (\<And>a. r' = Inr a \<Longrightarrow> f a = g a) \<Longrightarrow> bindR r f = bindR r' g"
  by (auto simp: bindR_def split: sum.split)

lemma bindR_Inr: "bindR r f = Inr b \<longleftrightarrow> (\<exists>a. r = Inr a \<and> f a = Inr b)"
  by (cases r) auto

end
