(* ===== verification/Ftable.thy ===== *)
theory Ftable
  imports Prelude
begin

text \<open>
  The open-file table of the kernel (\<open>xv6-riscv/kernel/file.c\<close>): the array
  \<open>ftable.file\<close> of reference-counted \<open>struct file\<close>, with \<open>filealloc\<close>,
  \<open>filedup\<close> and \<open>fileclose\<close>.  A file pointer is an index of the array.
  What \<open>fileclose\<close> does to the object behind the last reference (a pipe end
  or an inode) is returned as the operation to perform; the caller hands it to
  the pipe and the file system.  Panics are the left summand of the result.
\<close>

section \<open>struct file\<close>

datatype ftype = FD_NONE | FD_PIPE | FD_INODE | FD_DEVICE

record struct_file =
  f_type :: ftype
  f_ref :: int
  f_readable :: bool
  f_writable :: bool
  f_pipe :: nat
  f_ip :: nat
  f_off :: uint32
  f_major :: int

definition NFILE :: nat where "NFILE = 100"

text \<open>What the layers below have to do after a file structure is closed.\<close>

datatype kop =
    OpPipeClose nat bool
  | OpBegin
  | OpIput nat
  | OpEnd
  | OpIdup nat
  | OpNamei string
  | OpCreate string
  | OpIlock nat
  | OpIunlock nat
  | OpIunlockput nat
  | OpItrunc nat
  | OpFreeTrapframe
  | OpFreePagetable uint64 uint64

section \<open>Operations\<close>

definition filealloc :: "struct_file list \<Rightarrow> (struct_file list \<times> nat) option" where
  "filealloc ft =
     (case find_idx (\<lambda>f. f_ref f = 0) ft of
        None \<Rightarrow> None
      | Some i \<Rightarrow> Some (modify i (\<lambda>f. f\<lparr>f_ref := 1\<rparr>) ft, i))"

definition filedup :: "nat \<Rightarrow> struct_file list \<Rightarrow> string + struct_file list" where
  "filedup i ft =
     (if f_ref (ft ! i) < 1 then Inl ''filedup''
      else Inr (modify i (\<lambda>f. f\<lparr>f_ref := f_ref f + 1\<rparr>) ft))"

definition fileclose :: "nat \<Rightarrow> struct_file list \<Rightarrow> string + struct_file list \<times> kop list" where
  "fileclose i ft =
     (let ff = ft ! i in
      if f_ref ff < 1 then Inl ''fileclose''
      else if f_ref ff - 1 > 0 then
        Inr (modify i (\<lambda>f. f\<lparr>f_ref := f_ref f - 1\<rparr>) ft, [])
      else
        Inr (modify i (\<lambda>f. f\<lparr>f_ref := 0, f_type := FD_NONE\<rparr>) ft,
             case f_type ff of
               FD_PIPE \<Rightarrow> [OpPipeClose (f_pipe ff) (f_writable ff)]
             | FD_INODE \<Rightarrow> [OpBegin, OpIput (f_ip ff), OpEnd]
             | FD_DEVICE \<Rightarrow> [OpBegin, OpIput (f_ip ff), OpEnd]
             | FD_NONE \<Rightarrow> []))"

section \<open>Reference counts\<close>

definition refs :: "struct_file list \<Rightarrow> nat \<Rightarrow> int" where
  "refs ft i = (if i < length ft then f_ref (ft ! i) else 0)"

lemma refs_pos_less: "1 \<le> refs ft f \<Longrightarrow> f < length ft"
  by (rule ccontr) (simp add: refs_def)

lemma filealloc_length [simp]:
  "filealloc ft = Some (ft', i) \<Longrightarrow> length ft' = length ft"
  by (auto simp: filealloc_def split: option.splits)

lemma filealloc_refs:
  assumes "filealloc ft = Some (ft', i)"
  shows "i < length ft" and "refs ft i = 0" and "refs ft' = (refs ft)(i := 1)"
proof -
  from assms have f: "find_idx (\<lambda>f. f_ref f = 0) ft = Some i"
    and ft': "ft' = modify i (\<lambda>f. f\<lparr>f_ref := 1\<rparr>) ft"
    by (auto simp: filealloc_def split: option.splits)
  show i: "i < length ft" and "refs ft i = 0"
    using find_idx_SomeD [OF f] by (auto simp: refs_def)
  show "refs ft' = (refs ft)(i := 1)"
    using i by (auto simp: ft' refs_def fun_eq_iff)
qed

lemma filealloc_None: "filealloc ft = None \<longleftrightarrow> (\<forall>i < length ft. refs ft i \<noteq> 0)"
proof -
  have "filealloc ft = None \<longleftrightarrow> find_idx (\<lambda>f. f_ref f = 0) ft = None"
    by (simp add: filealloc_def split: option.split)
  then show ?thesis
    by (simp add: find_idx_None all_set_conv_all_nth refs_def)
qed

lemma filedup_refs:
  assumes "filedup i ft = Inr ft'" "i < length ft"
  shows "length ft' = length ft" and "refs ft' = (refs ft)(i := refs ft i + 1)"
  using assms by (auto simp: filedup_def refs_def fun_eq_iff split: if_splits)

lemma fileclose_refs:
  assumes "fileclose i ft = Inr (ft', ops)" "i < length ft"
  shows "length ft' = length ft" and "refs ft' = (refs ft)(i := refs ft i - 1)"
  using assms by (auto simp: fileclose_def refs_def fun_eq_iff Let_def split: if_splits)

lemma filedup_ok: "i < length ft \<Longrightarrow> 1 \<le> refs ft i \<Longrightarrow> \<exists>ft'. filedup i ft = Inr ft'"
  by (auto simp: filedup_def refs_def)

lemma fileclose_ok:
  "i < length ft \<Longrightarrow> 1 \<le> refs ft i \<Longrightarrow> \<exists>ft' ops. fileclose i ft = Inr (ft', ops)"
  by (auto simp: fileclose_def refs_def Let_def)

end
