(* ===== verification/Proc.thy ===== *)
theory Proc
  imports Ftable
begin

text \<open>
  The process table of the kernel and the operations on it
  (\<open>xv6-riscv/kernel/proc.c\<close>, \<open>proc.h\<close>, and the timer part of \<open>trap.c\<close>),
  for the three scheduler builds.  The compile-time macros \<open>USE_MLFQ\<close>,
  \<open>USE_FCFS\<close> and \<open>USE_RR\<close> are the argument \<open>cfg\<close>.

  A \<open>struct proc *\<close> is an index of the table.  An operation that the code
  runs while it holds the locks it needs is one function on the state.
  Results of the page allocator and of the virtual memory code that an
  operation asks for (\<open>kalloc\<close>, \<open>proc_pagetable\<close>, \<open>uvmcopy\<close>, \<open>copyout\<close>)
  are arguments; requests to the layers below (freeing pages, closing pipe
  ends, inode references) are appended to the log \<open>kops\<close>.  The saved
  registers of \<open>struct context\<close> and the locks themselves are not part of the
  state; \<open>swtch\<close> is the change of \<open>cproc\<close>.  Panics are \<open>Inl\<close> with the
  message.
\<close>

section \<open>State\<close>

definition NPROC :: nat where "NPROC = 64"
definition NCPU :: nat where "NCPU = 8"
definition NOFILE :: nat where "NOFILE = 16"

datatype sched_cfg = USE_RR | USE_FCFS | USE_MLFQ

datatype procstate = UNUSED | USED | SLEEPING | RUNNABLE | RUNNING | ZOMBIE

text \<open>Sleep channels: the address of a process slot, of \<open>ticks\<close>, or any other.\<close>

datatype channel = ChanProc nat | ChanTicks | ChanAddr uint64

record trapframe =
  tf_epc :: uint64
  tf_sp :: uint64
  tf_a0 :: uint64
  tf_a1 :: uint64
  tf_a2 :: uint64
  tf_a7 :: uint64
  tf_rest :: "uint64 list"

record proc =
  state :: procstate
  chan :: "channel option"
  killed :: int
  xstate :: int
  pid :: int
  parent :: "nat option"
  sz :: uint64
  pagetable :: uint64
  p_trapframe :: "trapframe option"
  ofile :: "nat option list"
  cwd :: "nat option"
  pname :: string
  queue :: int
  enq_time :: uint64
  ticks_used :: int
  ctime :: int
  first_run_time :: int
  etime :: int
  rtime :: int
  wtime :: int

text \<open>
  Where a CPU is in the loop of \<open>scheduler()\<close>: about to look at slot \<open>i\<close> with
  the best candidate so far, about to dispatch the winner, or switched to a
  process it found at slot \<open>i\<close>.
\<close>

datatype sched_pc =
    SScan nat "(nat \<times> int \<times> uint64) option"
  | SDispatch nat
  | SRun nat

record cpu =
  cproc :: "nat option"
  spc :: sched_pc

record kernel =
  ptable :: "proc list"
  nextpid :: int
  mlfq_seq :: uint64
  ticks :: uint32
  initproc :: "nat option"
  cpus :: "cpu list"
  ftable :: "struct_file list"
  kops :: "kop list"

type_synonym 'a res = "string + 'a"

abbreviation proc_at :: "kernel \<Rightarrow> nat \<Rightarrow> proc" where
  "proc_at k i \<equiv> ptable k ! i"

definition upd :: "nat \<Rightarrow> (proc \<Rightarrow> proc) \<Rightarrow> kernel \<Rightarrow> kernel" where
  "upd i f k = k\<lparr>ptable := modify i f (ptable k)\<rparr>"

definition log_kops :: "kop list \<Rightarrow> kernel \<Rightarrow> kernel" where
  "log_kops ops k = k\<lparr>kops := kops k @ ops\<rparr>"

section \<open>Allocation, MLFQ queues\<close>

text \<open>The time slice of each queue, in ticks.\<close>

definition time_slice :: "int list" where
  "time_slice = [1, 4, 8, 16]"

definition slice_of :: "int \<Rightarrow> int" where
  "slice_of q = time_slice ! nat q"

definition mlfq_enqueue :: "nat \<Rightarrow> kernel \<Rightarrow> kernel" where
  "mlfq_enqueue i k =
     (upd i (\<lambda>p. p\<lparr>enq_time := mlfq_seq k\<rparr>) k)\<lparr>mlfq_seq := mlfq_seq k + 1\<rparr>"

text \<open>The calls of \<open>mlfq_enqueue\<close> stand under \<open>#ifdef USE_MLFQ\<close>.\<close>

definition enqueue :: "sched_cfg \<Rightarrow> nat \<Rightarrow> kernel \<Rightarrow> kernel" where
  "enqueue cfg i k = (if cfg = USE_MLFQ then mlfq_enqueue i k else k)"

definition free_proc :: proc where
  "free_proc = \<lparr>state = UNUSED, chan = None, killed = 0, xstate = 0, pid = 0, parent = None,
     sz = 0, pagetable = 0, p_trapframe = None, ofile = replicate NOFILE None, cwd = None,
     pname = [], queue = 0, enq_time = 0, ticks_used = 0, ctime = 0, first_run_time = 0,
     etime = 0, rtime = 0, wtime = 0\<rparr>"

definition procinit :: kernel where
  "procinit = \<lparr>ptable = replicate NPROC free_proc, nextpid = 1, mlfq_seq = 0, ticks = 0,
     initproc = None, cpus = replicate NCPU \<lparr>cproc = None, spc = SScan 0 None\<rparr>,
     ftable = replicate NFILE \<lparr>f_type = FD_NONE, f_ref = 0, f_readable = False,
       f_writable = False, f_pipe = 0, f_ip = 0, f_off = 0, f_major = 0\<rparr>,
     kops = []\<rparr>"

definition allocpid :: "kernel \<Rightarrow> int \<times> kernel" where
  "allocpid k = (nextpid k, k\<lparr>nextpid := nextpid k + 1\<rparr>)"

definition freeproc_fields :: "sched_cfg \<Rightarrow> proc \<Rightarrow> proc" where
  "freeproc_fields cfg p =
     (let p' = p\<lparr>p_trapframe := None, pagetable := 0, sz := 0, pid := 0, parent := None,
                 pname := [], chan := None, killed := 0, xstate := 0, state := UNUSED\<rparr>
      in if cfg = USE_MLFQ then p'\<lparr>queue := 0, ticks_used := 0, enq_time := 0\<rparr> else p')"

definition freeproc :: "sched_cfg \<Rightarrow> nat \<Rightarrow> kernel \<Rightarrow> kernel" where
  "freeproc cfg i k =
     (let p = proc_at k i in
      upd i (freeproc_fields cfg)
        (log_kops ((if p_trapframe p \<noteq> None then [OpFreeTrapframe] else [])
                 @ (if pagetable p \<noteq> 0 then [OpFreePagetable (pagetable p) (sz p)] else [])) k))"

definition fresh_fields :: "sched_cfg \<Rightarrow> uint32 \<Rightarrow> proc \<Rightarrow> proc" where
  "fresh_fields cfg t p =
     (let p' = p\<lparr>ctime := sint t, first_run_time := -1, etime := -1, rtime := 0, wtime := 0\<rparr>
      in if cfg = USE_MLFQ then p'\<lparr>queue := 0, ticks_used := 0\<rparr> else p')"

text \<open>
  \<open>tf\<close> is what \<open>kalloc()\<close> returns for the trapframe page and \<open>pt\<close> what
  \<open>proc_pagetable\<close> returns, 0 on failure.
\<close>

definition allocproc ::
  "sched_cfg \<Rightarrow> trapframe option \<Rightarrow> uint64 \<Rightarrow> kernel \<Rightarrow> kernel \<times> nat option" where
  "allocproc cfg tf pt k =
     (case find_idx (\<lambda>p. state p = UNUSED) (ptable k) of
        None \<Rightarrow> (k, None)
      | Some i \<Rightarrow>
          let (newpid, k1) = allocpid k;
              k2 = upd i (\<lambda>p. p\<lparr>pid := newpid, state := USED, p_trapframe := tf\<rparr>) k1
          in if tf = None then (freeproc cfg i k2, None)
             else
               let k3 = upd i (\<lambda>p. p\<lparr>pagetable := pt\<rparr>) k2
               in if pt = 0 then (freeproc cfg i k3, None)
                  else (upd i (fresh_fields cfg (ticks k)) k3, Some i))"

text \<open>The first process; \<open>root\<close> is the inode \<open>namei("/")\<close> returns.\<close>

definition userinit ::
  "sched_cfg \<Rightarrow> trapframe \<Rightarrow> uint64 \<Rightarrow> nat \<Rightarrow> kernel \<Rightarrow> kernel option" where
  "userinit cfg tf pt root k =
     (case allocproc cfg (Some tf) pt k of
        (k1, None) \<Rightarrow> None
      | (k1, Some i) \<Rightarrow>
          Some (enqueue cfg i
            (upd i (\<lambda>p. p\<lparr>cwd := Some root, state := RUNNABLE\<rparr>) (k1\<lparr>initproc := Some i\<rparr>))))"

section \<open>Sleep, wakeup, kill\<close>

definition wakeup_slot ::
  "sched_cfg \<Rightarrow> nat option \<Rightarrow> channel option \<Rightarrow> nat \<Rightarrow> kernel \<Rightarrow> kernel" where
  "wakeup_slot cfg me ch i k =
     (if me \<noteq> Some i \<and> state (proc_at k i) = SLEEPING \<and> chan (proc_at k i) = ch
      then enqueue cfg i (upd i (\<lambda>p. p\<lparr>state := RUNNABLE\<rparr>) k)
      else k)"

definition wakeup :: "sched_cfg \<Rightarrow> nat option \<Rightarrow> channel option \<Rightarrow> kernel \<Rightarrow> kernel" where
  "wakeup cfg me ch k = fold (wakeup_slot cfg me ch) [0..<length (ptable k)] k"

definition kkill :: "sched_cfg \<Rightarrow> int \<Rightarrow> kernel \<Rightarrow> kernel \<times> int" where
  "kkill cfg n k =
     (case find_idx (\<lambda>p. pid p = n) (ptable k) of
        None \<Rightarrow> (k, -1)
      | Some i \<Rightarrow>
          let k1 = upd i (\<lambda>p. p\<lparr>killed := 1\<rparr>) k
          in if state (proc_at k i) = SLEEPING
             then (enqueue cfg i (upd i (\<lambda>p. p\<lparr>state := RUNNABLE\<rparr>) k1), 0)
             else (k1, 0))"

definition setkilled :: "nat \<Rightarrow> kernel \<Rightarrow> kernel" where
  "setkilled i k = upd i (\<lambda>p. p\<lparr>killed := 1\<rparr>) k"

section \<open>The scheduler\<close>

definition note_dispatch :: "nat \<Rightarrow> kernel \<Rightarrow> kernel" where
  "note_dispatch i k =
     (if first_run_time (proc_at k i) = -1
      then upd i (\<lambda>p. p\<lparr>first_run_time := sint (ticks k)\<rparr>) k else k)"

definition set_cpu :: "nat \<Rightarrow> cpu \<Rightarrow> kernel \<Rightarrow> kernel" where
  "set_cpu c s k = k\<lparr>cpus := (cpus k)[c := s]\<rparr>"

text \<open>Switch CPU \<open>c\<close> to the process in slot \<open>i\<close>, which it found RUNNABLE.\<close>

definition dispatch :: "nat \<Rightarrow> nat \<Rightarrow> kernel \<Rightarrow> kernel" where
  "dispatch c i k =
     set_cpu c \<lparr>cproc = Some i, spc = SRun i\<rparr>
       (note_dispatch i (upd i (\<lambda>p. p\<lparr>state := RUNNING\<rparr>) k))"

text \<open>
  One look at slot \<open>i\<close> in the two scanning builds: the new best candidate.
  The MLFQ scan compares with the queue and stamp it remembered; the FCFS
  scan reads the pid of the remembered process again.
\<close>

definition mlfq_better :: "proc \<Rightarrow> (nat \<times> int \<times> uint64) option \<Rightarrow> bool" where
  "mlfq_better p best =
     (state p = RUNNABLE \<and>
       (case best of None \<Rightarrow> True
        | Some (b, bq, bt) \<Rightarrow> queue p < bq \<or> (queue p = bq \<and> enq_time p < bt)))"

definition fcfs_better :: "kernel \<Rightarrow> proc \<Rightarrow> (nat \<times> int \<times> uint64) option \<Rightarrow> bool" where
  "fcfs_better k p best =
     (state p = RUNNABLE \<and>
       (case best of None \<Rightarrow> True | Some (b, _, _) \<Rightarrow> pid p < pid (proc_at k b)))"

definition scan_slot ::
  "sched_cfg \<Rightarrow> kernel \<Rightarrow> nat \<Rightarrow> (nat \<times> int \<times> uint64) option \<Rightarrow> (nat \<times> int \<times> uint64) option" where
  "scan_slot cfg k i best =
     (let p = proc_at k i in
      if (if cfg = USE_MLFQ then mlfq_better p best else fcfs_better k p best)
      then Some (i, queue p, enq_time p) else best)"

text \<open>
  One critical section of \<open>scheduler()\<close> on CPU \<open>c\<close>.  The RR build dispatches
  a RUNNABLE slot where it stands; the other two finish the scan and then
  check the winner again, because they do not hold its lock in between.
\<close>

definition sched_step :: "sched_cfg \<Rightarrow> nat \<Rightarrow> kernel \<Rightarrow> kernel" where
  "sched_step cfg c k =
     (case spc (cpus k ! c) of
        SScan i best \<Rightarrow>
          if i < length (ptable k) then
            if cfg = USE_RR then
              if state (proc_at k i) = RUNNABLE then dispatch c i k
              else set_cpu c \<lparr>cproc = None, spc = SScan (Suc i) None\<rparr> k
            else set_cpu c \<lparr>cproc = None, spc = SScan (Suc i) (scan_slot cfg k i best)\<rparr> k
          else
            (case best of
               None \<Rightarrow> set_cpu c \<lparr>cproc = None, spc = SScan 0 None\<rparr> k
             | Some (b, _, _) \<Rightarrow> set_cpu c \<lparr>cproc = None, spc = SDispatch b\<rparr> k)
      | SDispatch b \<Rightarrow>
          if state (proc_at k b) = RUNNABLE then dispatch c b k
          else set_cpu c \<lparr>cproc = None, spc = SScan 0 None\<rparr> k
      | SRun i \<Rightarrow> k)"

text \<open>
  \<open>sched()\<close> switches from the process on CPU \<open>c\<close> back to the scheduler loop,
  which clears \<open>c->proc\<close> and goes on: the RR loop with the next slot, the
  other two with a new scan.  \<open>holding\<close>, \<open>noff\<close> and \<open>intr\<close> are what the
  checks at its start read from the lock and the CPU.
\<close>

definition sched :: "bool \<Rightarrow> int \<Rightarrow> bool \<Rightarrow> sched_cfg \<Rightarrow> nat \<Rightarrow> nat \<Rightarrow> kernel \<Rightarrow> kernel res" where
  "sched holding noff intr cfg c i k =
     (if \<not> holding then Inl ''sched p->lock''
      else if noff \<noteq> 1 then Inl ''sched locks''
      else if state (proc_at k i) = RUNNING then Inl ''sched RUNNING''
      else if intr then Inl ''sched interruptible''
      else Inr (set_cpu c \<lparr>cproc = None,
                  spc = (case spc (cpus k ! c) of
                           SRun j \<Rightarrow> (if cfg = USE_RR then SScan (Suc j) None else SScan 0 None)
                         | pc \<Rightarrow> pc)\<rparr> k))"

text \<open>The callers below hold exactly \<open>p->lock\<close>, acquired with interrupts off.\<close>

abbreviation sched_locked :: "sched_cfg \<Rightarrow> nat \<Rightarrow> nat \<Rightarrow> kernel \<Rightarrow> kernel res" where
  "sched_locked \<equiv> sched True 1 False"

definition yield :: "sched_cfg \<Rightarrow> nat \<Rightarrow> nat \<Rightarrow> kernel \<Rightarrow> kernel res" where
  "yield cfg c i k =
     sched_locked cfg c i (enqueue cfg i (upd i (\<lambda>p. p\<lparr>state := RUNNABLE\<rparr>) k))"

definition sleep :: "sched_cfg \<Rightarrow> nat \<Rightarrow> nat \<Rightarrow> channel \<Rightarrow> kernel \<Rightarrow> kernel res" where
  "sleep cfg c i ch k =
     sched_locked cfg c i
       (upd i (\<lambda>p. let p' = p\<lparr>chan := Some ch, state := SLEEPING\<rparr>
                   in if cfg = USE_MLFQ then p'\<lparr>ticks_used := 0\<rparr> else p') k)"

text \<open>What \<open>sleep()\<close> does when the process runs again.\<close>

definition sleep_resume :: "nat \<Rightarrow> kernel \<Rightarrow> kernel" where
  "sleep_resume i k = upd i (\<lambda>p. p\<lparr>chan := None\<rparr>) k"

section \<open>The timer tick\<close>

definition mlfq_charge :: "proc \<Rightarrow> proc" where
  "mlfq_charge p =
     (let t = ticks_used p + 1 in
      if t \<ge> slice_of (queue p)
      then p\<lparr>queue := (if queue p < 3 then queue p + 1 else queue p), ticks_used := 0\<rparr>
      else p\<lparr>ticks_used := t\<rparr>)"

definition slice_used_up :: "proc \<Rightarrow> bool" where
  "slice_used_up p = (ticks_used p + 1 \<ge> slice_of (queue p))"

definition higher_waiting :: "nat \<Rightarrow> kernel \<Rightarrow> bool" where
  "higher_waiting i k =
     list_ex (\<lambda>j. j \<noteq> i \<and> state (proc_at k j) = RUNNABLE
                  \<and> queue (proc_at k j) < queue (proc_at k i)) [0..<length (ptable k)]"

definition mlfq_tick :: "nat \<Rightarrow> nat \<Rightarrow> kernel \<Rightarrow> kernel res" where
  "mlfq_tick c i k =
     (let k1 = upd i mlfq_charge k in
      if slice_used_up (proc_at k i) then yield USE_MLFQ c i k1
      else if higher_waiting i k1 then yield USE_MLFQ c i k1
      else Inr k1)"

definition mlfq_boost :: "kernel \<Rightarrow> kernel" where
  "mlfq_boost k =
     k\<lparr>ptable := map (\<lambda>p. if state p \<noteq> UNUSED then p\<lparr>queue := 0, ticks_used := 0\<rparr> else p)
        (ptable k)\<rparr>"

definition update_times :: "kernel \<Rightarrow> kernel" where
  "update_times k =
     k\<lparr>ptable := map (\<lambda>p. if state p = RUNNING then p\<lparr>rtime := rtime p + 1\<rparr>
                          else if state p = RUNNABLE then p\<lparr>wtime := wtime p + 1\<rparr> else p)
        (ptable k)\<rparr>"

definition clockintr :: "sched_cfg \<Rightarrow> nat \<Rightarrow> kernel \<Rightarrow> kernel" where
  "clockintr cfg c k =
     (if c = 0 then
        let k1 = wakeup cfg (cproc (cpus k ! c)) (Some ChanTicks) (k\<lparr>ticks := ticks k + 1\<rparr>);
            k2 = (if cfg = USE_MLFQ \<and> ticks k1 mod 48 = 0 then mlfq_boost k1 else k1)
        in update_times k2
      else k)"

text \<open>
  The end of \<open>usertrap\<close> and \<open>kerneltrap\<close> for a timer interrupt on CPU \<open>c\<close>:
  \<open>devintr\<close> has run \<open>clockintr\<close>; then the running process, if there is one,
  is charged or made to yield.
\<close>

definition timer_trap :: "sched_cfg \<Rightarrow> nat \<Rightarrow> kernel \<Rightarrow> kernel res" where
  "timer_trap cfg c k =
     (let k1 = clockintr cfg c k in
      case cproc (cpus k1 ! c) of
        None \<Rightarrow> Inr k1
      | Some i \<Rightarrow> if cfg = USE_MLFQ then mlfq_tick c i k1 else yield cfg c i k1)"

section \<open>fork, exit, wait\<close>

definition safestrcpy_name :: "string \<Rightarrow> string" where
  "safestrcpy_name s = take 15 s"

fun dup_files :: "nat option list \<Rightarrow> struct_file list \<Rightarrow> struct_file list res" where
  "dup_files [] ft = Inr ft"
| "dup_files (None # fs) ft = dup_files fs ft"
| "dup_files (Some f # fs) ft = bindR (filedup f ft) (dup_files fs)"

text \<open>
  The child's slot \<open>j\<close> gets the parent's open files where the parent has one
  (the loop leaves the other entries of the child's table as they are).
\<close>

definition merge_ofile :: "nat option list \<Rightarrow> nat option list \<Rightarrow> nat option list" where
  "merge_ofile pf cf = map2 (\<lambda>a b. if a \<noteq> None then a else b) pf cf"

definition child_trapframe :: "proc \<Rightarrow> trapframe option" where
  "child_trapframe p = map_option (\<lambda>t. t\<lparr>tf_a0 := 0\<rparr>) (p_trapframe p)"

definition fork_fields :: "proc \<Rightarrow> nat \<Rightarrow> proc \<Rightarrow> proc" where
  "fork_fields p i np = np\<lparr>sz := sz p, p_trapframe := child_trapframe p,
     ofile := merge_ofile (ofile p) (ofile np), cwd := cwd p,
     pname := safestrcpy_name (pname p), parent := Some i, state := RUNNABLE\<rparr>"

definition kfork ::
  "sched_cfg \<Rightarrow> trapframe option \<Rightarrow> uint64 \<Rightarrow> int \<Rightarrow> nat \<Rightarrow> kernel \<Rightarrow> (kernel \<times> int) res" where
  "kfork cfg tf pt uvm i k =
     (case allocproc cfg tf pt k of
        (k1, None) \<Rightarrow> Inr (k1, -1)
      | (k1, Some j) \<Rightarrow>
          if uvm < 0 then Inr (freeproc cfg j k1, -1)
          else
            let p = proc_at k1 i in
            bindR (dup_files (ofile p) (ftable k1)) (\<lambda>ft.
              let k2 = upd j (fork_fields p i)
                         (k1\<lparr>ftable := ft,
                             kops := kops k1 @ (case cwd p of None \<Rightarrow> [] | Some d \<Rightarrow> [OpIdup d])\<rparr>)
              in Inr (enqueue cfg j k2, pid (proc_at k1 j))))"

definition reparent_slot :: "sched_cfg \<Rightarrow> nat \<Rightarrow> nat \<Rightarrow> kernel \<Rightarrow> kernel" where
  "reparent_slot cfg i j k =
     (if parent (proc_at k j) = Some i
      then wakeup cfg (Some i) (map_option ChanProc (initproc k))
             (upd j (\<lambda>p. p\<lparr>parent := initproc k\<rparr>) k)
      else k)"

definition reparent :: "sched_cfg \<Rightarrow> nat \<Rightarrow> kernel \<Rightarrow> kernel" where
  "reparent cfg i k = fold (reparent_slot cfg i) [0..<length (ptable k)] k"

fun close_files ::
  "nat option list \<Rightarrow> struct_file list \<Rightarrow> (struct_file list \<times> kop list) res" where
  "close_files [] ft = Inr (ft, [])"
| "close_files (None # fs) ft = close_files fs ft"
| "close_files (Some f # fs) ft =
     bindR (fileclose f ft) (\<lambda>(ft', ops).
       bindR (close_files fs ft') (\<lambda>(ft'', ops'). Inr (ft'', ops @ ops')))"

text \<open>
  \<open>kexit\<close> in three parts: the files and the directory are given up, then the
  children are passed on, the parent is woken and the slot becomes a ZOMBIE,
  then the process leaves the CPU for good.
\<close>

definition exit_release :: "nat \<Rightarrow> struct_file list \<Rightarrow> kop list \<Rightarrow> kernel \<Rightarrow> kernel" where
  "exit_release i ft ops k =
     (let k1 = upd i (\<lambda>p. p\<lparr>ofile := map (\<lambda>_. None) (ofile p)\<rparr>) (log_kops ops (k\<lparr>ftable := ft\<rparr>))
      in upd i (\<lambda>p. p\<lparr>cwd := None\<rparr>)
           (log_kops ([OpBegin] @ (case cwd (proc_at k i) of None \<Rightarrow> [] | Some d \<Rightarrow> [OpIput d])
                      @ [OpEnd]) k1))"

definition exit_zombie :: "sched_cfg \<Rightarrow> nat \<Rightarrow> int \<Rightarrow> kernel \<Rightarrow> kernel" where
  "exit_zombie cfg i status k =
     (let k3 = reparent cfg i k;
          k4 = wakeup cfg (Some i) (map_option ChanProc (parent (proc_at k3 i))) k3
      in upd i (\<lambda>p. p\<lparr>xstate := status, state := ZOMBIE, etime := sint (ticks k4)\<rparr>) k4)"

definition kexit :: "sched_cfg \<Rightarrow> nat \<Rightarrow> nat \<Rightarrow> int \<Rightarrow> kernel \<Rightarrow> kernel res" where
  "kexit cfg c i status k =
     (if initproc k = Some i then Inl ''init exiting''
      else
        bindR (close_files (ofile (proc_at k i)) (ftable k)) (\<lambda>(ft, ops).
          sched_locked cfg c i (exit_zombie cfg i status (exit_release i ft ops k))))"

text \<open>
  One pass of the loop of \<open>kwait\<close>: it returns with a pid or \<open>-1\<close>, or the
  caller goes to sleep and scans again.  \<open>copyout_ok\<close> says whether the exit
  status could be stored at \<open>addr\<close>.
\<close>

datatype wait_result = WaitRet int | WaitSleep

definition kwait ::
  "sched_cfg \<Rightarrow> nat \<Rightarrow> nat \<Rightarrow> uint64 \<Rightarrow> bool \<Rightarrow> kernel \<Rightarrow> (kernel \<times> wait_result) res" where
  "kwait cfg c i addr copyout_ok k =
     (case find_idx (\<lambda>p. parent p = Some i \<and> state p = ZOMBIE) (ptable k) of
        Some j \<Rightarrow>
          if addr \<noteq> 0 \<and> \<not> copyout_ok then Inr (k, WaitRet (-1))
          else Inr (freeproc cfg j k, WaitRet (pid (proc_at k j)))
      | None \<Rightarrow>
          if \<not> list_ex (\<lambda>p. parent p = Some i) (ptable k) \<or> killed (proc_at k i) \<noteq> 0
          then Inr (k, WaitRet (-1))
          else bindR (sleep cfg c i (ChanProc i) k) (\<lambda>k'. Inr (k', WaitSleep)))"

lemmas proc_defs [opdefs] =
  upd_def log_kops_def mlfq_enqueue_def enqueue_def freeproc_def set_cpu_def

end
