(* ===== verification/Proc_Facts.thy ===== *)
theory Proc_Facts
  imports Proc
begin

text \<open>
  The lemma library over the operations of \<open>Proc\<close>: which fields of the state
  each operation reads and writes, and what \<open>wakeup\<close> and \<open>reparent\<close>, which
  walk the whole table, do to each slot.
\<close>

section \<open>Frame facts\<close>

lemma upd_fields [simp]:
  "ptable (upd i f k) = modify i f (ptable k)"
  "nextpid (upd i f k) = nextpid k"
  "mlfq_seq (upd i f k) = mlfq_seq k"
  "ticks (upd i f k) = ticks k"
  "initproc (upd i f k) = initproc k"
  "cpus (upd i f k) = cpus k"
  "ftable (upd i f k) = ftable k"
  "kops (upd i f k) = kops k"
  by (simp_all add: upd_def)

lemma log_kops_fields [simp]:
  "ptable (log_kops ops k) = ptable k"
  "nextpid (log_kops ops k) = nextpid k"
  "mlfq_seq (log_kops ops k) = mlfq_seq k"
  "ticks (log_kops ops k) = ticks k"
  "initproc (log_kops ops k) = initproc k"
  "cpus (log_kops ops k) = cpus k"
  "ftable (log_kops ops k) = ftable k"
  by (simp_all add: log_kops_def)

lemma set_cpu_fields [simp]:
  "ptable (set_cpu c s k) = ptable k"
  "nextpid (set_cpu c s k) = nextpid k"
  "mlfq_seq (set_cpu c s k) = mlfq_seq k"
  "ticks (set_cpu c s k) = ticks k"
  "initproc (set_cpu c s k) = initproc k"
  "cpus (set_cpu c s k) = (cpus k)[c := s]"
  "ftable (set_cpu c s k) = ftable k"
  by (simp_all add: set_cpu_def)

lemma enqueue_fields [simp]:
  "nextpid (enqueue cfg i k) = nextpid k"
  "ticks (enqueue cfg i k) = ticks k"
  "initproc (enqueue cfg i k) = initproc k"
  "cpus (enqueue cfg i k) = cpus k"
  "ftable (enqueue cfg i k) = ftable k"
  "length (ptable (enqueue cfg i k)) = length (ptable k)"
  by (simp_all add: enqueue_def mlfq_enqueue_def)

lemma enqueue_slot:
  "proc_at (enqueue cfg i k) j =
     (if cfg = USE_MLFQ \<and> j = i \<and> j < length (ptable k)
      then (proc_at k j)\<lparr>enq_time := mlfq_seq k\<rparr> else proc_at k j)"
  by (simp add: enqueue_def mlfq_enqueue_def nth_modify_any)

lemma note_dispatch_fields [simp]:
  "nextpid (note_dispatch i k) = nextpid k"
  "mlfq_seq (note_dispatch i k) = mlfq_seq k"
  "ticks (note_dispatch i k) = ticks k"
  "initproc (note_dispatch i k) = initproc k"
  "cpus (note_dispatch i k) = cpus k"
  "ftable (note_dispatch i k) = ftable k"
  "length (ptable (note_dispatch i k)) = length (ptable k)"
  by (simp_all add: note_dispatch_def)

lemma note_dispatch_slot:
  "proc_at (note_dispatch i k) j =
     (if j = i \<and> j < length (ptable k) \<and> first_run_time (proc_at k i) = -1
      then (proc_at k j)\<lparr>first_run_time := sint (ticks k)\<rparr> else proc_at k j)"
  by (simp add: note_dispatch_def nth_modify_any)

lemma freeproc_fields_of [simp]:
  "nextpid (freeproc cfg i k) = nextpid k"
  "mlfq_seq (freeproc cfg i k) = mlfq_seq k"
  "ticks (freeproc cfg i k) = ticks k"
  "initproc (freeproc cfg i k) = initproc k"
  "cpus (freeproc cfg i k) = cpus k"
  "ftable (freeproc cfg i k) = ftable k"
  "ptable (freeproc cfg i k) = modify i (freeproc_fields cfg) (ptable k)"
  by (simp_all add: freeproc_def Let_def)

lemma freeproc_fields_state [simp]:
  "state (freeproc_fields cfg p) = UNUSED"
  "pid (freeproc_fields cfg p) = 0"
  "killed (freeproc_fields cfg p) = 0"
  "parent (freeproc_fields cfg p) = None"
  "ofile (freeproc_fields cfg p) = ofile p"
  by (simp_all add: freeproc_fields_def Let_def)

lemma fresh_fields_of [simp]:
  "state (fresh_fields cfg t p) = state p"
  "pid (fresh_fields cfg t p) = pid p"
  "killed (fresh_fields cfg t p) = killed p"
  "parent (fresh_fields cfg t p) = parent p"
  "ofile (fresh_fields cfg t p) = ofile p"
  "enq_time (fresh_fields cfg t p) = enq_time p"
  by (simp_all add: fresh_fields_def Let_def)

lemma mlfq_charge_fields [simp]:
  "state (mlfq_charge p) = state p"
  "pid (mlfq_charge p) = pid p"
  "parent (mlfq_charge p) = parent p"
  "enq_time (mlfq_charge p) = enq_time p"
  "ofile (mlfq_charge p) = ofile p"
  "killed (mlfq_charge p) = killed p"
  by (simp_all add: mlfq_charge_def Let_def)

section \<open>Operations that walk the table\<close>

text \<open>\<open>wakeup\<close> touches only the slots that sleep on the channel.\<close>

definition sleeps_on :: "nat option \<Rightarrow> channel option \<Rightarrow> kernel \<Rightarrow> nat \<Rightarrow> bool" where
  "sleeps_on me ch k j =
     (me \<noteq> Some j \<and> state (proc_at k j) = SLEEPING \<and> chan (proc_at k j) = ch)"

lemma wakeup_slot_fields [simp]:
  "nextpid (wakeup_slot cfg me ch i k) = nextpid k"
  "ticks (wakeup_slot cfg me ch i k) = ticks k"
  "initproc (wakeup_slot cfg me ch i k) = initproc k"
  "cpus (wakeup_slot cfg me ch i k) = cpus k"
  "ftable (wakeup_slot cfg me ch i k) = ftable k"
  "length (ptable (wakeup_slot cfg me ch i k)) = length (ptable k)"
  by (simp_all add: wakeup_slot_def)

lemma wakeup_slot_at:
  "\<exists>e. proc_at (wakeup_slot cfg me ch i k) j =
     (if j = i \<and> j < length (ptable k) \<and> sleeps_on me ch k j
      then (proc_at k j)\<lparr>state := RUNNABLE, enq_time := e\<rparr> else proc_at k j)"
  by (rule exI [of _ "if cfg = USE_MLFQ then mlfq_seq k else enq_time (proc_at k j)"])
    (auto simp: wakeup_slot_def sleeps_on_def enqueue_slot nth_modify_any)

lemma fold_wakeup:
  assumes "n \<le> length (ptable k)"
  shows "let k' = fold (wakeup_slot cfg me ch) [0..<n] k in
       nextpid k' = nextpid k \<and> ticks k' = ticks k \<and> initproc k' = initproc k
       \<and> cpus k' = cpus k \<and> ftable k' = ftable k \<and> length (ptable k') = length (ptable k)
       \<and> (\<forall>j. \<exists>e. proc_at k' j =
            (if j < n \<and> sleeps_on me ch k j
             then (proc_at k j)\<lparr>state := RUNNABLE, enq_time := e\<rparr> else proc_at k j))"
  unfolding Let_def using assms
proof (induction n)
  case 0
  then show ?case by simp
next
  case (Suc n)
  let ?k = "fold (wakeup_slot cfg me ch) [0..<n] k"
  from Suc have IH: "cpus ?k = cpus k" "length (ptable ?k) = length (ptable k)"
    and slots: "\<And>j. \<exists>e. proc_at ?k j = (if j < n \<and> sleeps_on me ch k j
             then (proc_at k j)\<lparr>state := RUNNABLE, enq_time := e\<rparr> else proc_at k j)"
    by auto
  from slots [of n] have n: "proc_at ?k n = proc_at k n" by auto
  have "\<exists>e. proc_at (wakeup_slot cfg me ch n ?k) j = (if j < Suc n \<and> sleeps_on me ch k j
             then (proc_at k j)\<lparr>state := RUNNABLE, enq_time := e\<rparr> else proc_at k j)" for j
  proof (cases "j = n")
    case True
    with wakeup_slot_at [of cfg me ch n ?k n] n IH Suc.prems show ?thesis
      by (auto simp: sleeps_on_def)
  next
    case False
    with wakeup_slot_at [of cfg me ch n ?k j] slots [of j] show ?thesis
      by (auto simp: less_Suc_eq)
  qed
  with Suc show ?case by simp
qed

lemma wakeup_fields [simp]:
  "nextpid (wakeup cfg me ch k) = nextpid k"
  "ticks (wakeup cfg me ch k) = ticks k"
  "initproc (wakeup cfg me ch k) = initproc k"
  "cpus (wakeup cfg me ch k) = cpus k"
  "ftable (wakeup cfg me ch k) = ftable k"
  "length (ptable (wakeup cfg me ch k)) = length (ptable k)"
  using fold_wakeup [of "length (ptable k)" k cfg me ch] by (simp_all add: wakeup_def Let_def)

lemma wakeup_at:
  obtains e where "proc_at (wakeup cfg me ch k) j =
     (if j < length (ptable k) \<and> sleeps_on me ch k j
      then (proc_at k j)\<lparr>state := RUNNABLE, enq_time := e\<rparr> else proc_at k j)"
  using fold_wakeup [of "length (ptable k)" k cfg me ch] by (auto simp: wakeup_def Let_def)

lemma wakeup_state:
  "state (proc_at (wakeup cfg me ch k) j) =
     (if j < length (ptable k) \<and> sleeps_on me ch k j then RUNNABLE else state (proc_at k j))"
  by (rule wakeup_at [of cfg me ch k j]) simp

text \<open>Everything but the state and the stamp of a slot survives \<open>wakeup\<close>.\<close>

lemma wakeup_other [simp]:
  "pid (proc_at (wakeup cfg me ch k) j) = pid (proc_at k j)"
  "parent (proc_at (wakeup cfg me ch k) j) = parent (proc_at k j)"
  "queue (proc_at (wakeup cfg me ch k) j) = queue (proc_at k j)"
  "ticks_used (proc_at (wakeup cfg me ch k) j) = ticks_used (proc_at k j)"
  "killed (proc_at (wakeup cfg me ch k) j) = killed (proc_at k j)"
  "ofile (proc_at (wakeup cfg me ch k) j) = ofile (proc_at k j)"
  "chan (proc_at (wakeup cfg me ch k) j) = chan (proc_at k j)"
  "ctime (proc_at (wakeup cfg me ch k) j) = ctime (proc_at k j)"
  "rtime (proc_at (wakeup cfg me ch k) j) = rtime (proc_at k j)"
  "wtime (proc_at (wakeup cfg me ch k) j) = wtime (proc_at k j)"
  "etime (proc_at (wakeup cfg me ch k) j) = etime (proc_at k j)"
  by (rule wakeup_at [of cfg me ch k j]; simp)+

lemma wakeup_state_neq:
  "state (proc_at k j) \<noteq> SLEEPING \<Longrightarrow> state (proc_at (wakeup cfg me ch k) j) = state (proc_at k j)"
  by (simp add: wakeup_state sleeps_on_def)

text \<open>
  \<open>reparent\<close> gives every child of slot \<open>i\<close> to init, and may wake init.
\<close>

lemma reparent_slot_fields [simp]:
  "nextpid (reparent_slot cfg i j k) = nextpid k"
  "ticks (reparent_slot cfg i j k) = ticks k"
  "initproc (reparent_slot cfg i j k) = initproc k"
  "cpus (reparent_slot cfg i j k) = cpus k"
  "ftable (reparent_slot cfg i j k) = ftable k"
  "length (ptable (reparent_slot cfg i j k)) = length (ptable k)"
  by (simp_all add: reparent_slot_def)

lemma reparent_slot_parent:
  "j < length (ptable k) \<Longrightarrow>
   parent (proc_at (reparent_slot cfg i j k) l) =
     (if l = j \<and> parent (proc_at k l) = Some i then initproc k else parent (proc_at k l))"
  by (auto simp: reparent_slot_def nth_modify_any)

lemma reparent_slot_other [simp]:
  "pid (proc_at (reparent_slot cfg i j k) l) = pid (proc_at k l)"
  "queue (proc_at (reparent_slot cfg i j k) l) = queue (proc_at k l)"
  "ticks_used (proc_at (reparent_slot cfg i j k) l) = ticks_used (proc_at k l)"
  "killed (proc_at (reparent_slot cfg i j k) l) = killed (proc_at k l)"
  "ofile (proc_at (reparent_slot cfg i j k) l) = ofile (proc_at k l)"
  "ctime (proc_at (reparent_slot cfg i j k) l) = ctime (proc_at k l)"
  "rtime (proc_at (reparent_slot cfg i j k) l) = rtime (proc_at k l)"
  "wtime (proc_at (reparent_slot cfg i j k) l) = wtime (proc_at k l)"
  "etime (proc_at (reparent_slot cfg i j k) l) = etime (proc_at k l)"
  by (simp_all add: reparent_slot_def nth_modify_any)

lemma reparent_slot_state:
  "state (proc_at (reparent_slot cfg i j k) l) = state (proc_at k l)
   \<or> (state (proc_at k l) = SLEEPING \<and> state (proc_at (reparent_slot cfg i j k) l) = RUNNABLE
      \<and> l < length (ptable k) \<and> l \<noteq> i)"
  by (auto simp: reparent_slot_def wakeup_state sleeps_on_def nth_modify_any)

lemma fold_reparent:
  assumes "n \<le> length (ptable k)"
  shows "let k' = fold (reparent_slot cfg i) [0..<n] k in
       nextpid k' = nextpid k \<and> ticks k' = ticks k \<and> initproc k' = initproc k
       \<and> cpus k' = cpus k \<and> ftable k' = ftable k \<and> length (ptable k') = length (ptable k)
       \<and> (\<forall>l. parent (proc_at k' l) =
            (if l < n \<and> parent (proc_at k l) = Some i then initproc k else parent (proc_at k l)))"
  unfolding Let_def using assms
proof (induction n)
  case 0
  then show ?case by simp
next
  case (Suc n)
  let ?k = "fold (reparent_slot cfg i) [0..<n] k"
  from Suc have *: "length (ptable ?k) = length (ptable k)" "initproc ?k = initproc k"
    and par: "\<And>l. parent (proc_at ?k l) =
        (if l < n \<and> parent (proc_at k l) = Some i then initproc k else parent (proc_at k l))"
    by auto
  from * Suc.prems have n: "n < length (ptable ?k)" by simp
  have "parent (proc_at (reparent_slot cfg i n ?k) l) =
     (if l < Suc n \<and> parent (proc_at k l) = Some i then initproc k else parent (proc_at k l))" for l
    using reparent_slot_parent [OF n, of cfg i l] par [of l] * by (auto simp: less_Suc_eq)
  with Suc show ?case by simp
qed

lemma fold_reparent_other:
  "pid (proc_at (fold (reparent_slot cfg i) xs k) l) = pid (proc_at k l)"
  "queue (proc_at (fold (reparent_slot cfg i) xs k) l) = queue (proc_at k l)"
  "ticks_used (proc_at (fold (reparent_slot cfg i) xs k) l) = ticks_used (proc_at k l)"
  "killed (proc_at (fold (reparent_slot cfg i) xs k) l) = killed (proc_at k l)"
  "ofile (proc_at (fold (reparent_slot cfg i) xs k) l) = ofile (proc_at k l)"
  "ctime (proc_at (fold (reparent_slot cfg i) xs k) l) = ctime (proc_at k l)"
  "rtime (proc_at (fold (reparent_slot cfg i) xs k) l) = rtime (proc_at k l)"
  "wtime (proc_at (fold (reparent_slot cfg i) xs k) l) = wtime (proc_at k l)"
  "etime (proc_at (fold (reparent_slot cfg i) xs k) l) = etime (proc_at k l)"
  by (induction xs arbitrary: k) simp_all

lemma fold_reparent_state:
  "state (proc_at (fold (reparent_slot cfg i) xs k) l) = state (proc_at k l)
   \<or> (state (proc_at k l) = SLEEPING \<and> state (proc_at (fold (reparent_slot cfg i) xs k) l) = RUNNABLE
      \<and> l < length (ptable k) \<and> l \<noteq> i)"
proof (induction xs arbitrary: k)
  case (Cons j xs)
  from reparent_slot_state [of cfg i j k l] Cons.IH [of "reparent_slot cfg i j k"]
  show ?case by auto
qed simp

lemma reparent_fields [simp]:
  "nextpid (reparent cfg i k) = nextpid k"
  "ticks (reparent cfg i k) = ticks k"
  "initproc (reparent cfg i k) = initproc k"
  "cpus (reparent cfg i k) = cpus k"
  "ftable (reparent cfg i k) = ftable k"
  "length (ptable (reparent cfg i k)) = length (ptable k)"
  using fold_reparent [of "length (ptable k)" k cfg i] by (simp_all add: reparent_def Let_def)

lemma reparent_parent:
  "l < length (ptable k) \<Longrightarrow> parent (proc_at (reparent cfg i k) l) =
     (if parent (proc_at k l) = Some i then initproc k else parent (proc_at k l))"
  using fold_reparent [of "length (ptable k)" k cfg i] by (simp add: reparent_def Let_def)

lemmas reparent_other [simp] =
  fold_reparent_other [where xs = "[0..<length (ptable k)]" and k = k for k, folded reparent_def]

lemmas reparent_state =
  fold_reparent_state [where xs = "[0..<length (ptable k)]" and k = k for k, folded reparent_def]

lemma reparent_state_neq:
  "state (proc_at k j) \<noteq> SLEEPING \<Longrightarrow> state (proc_at (reparent cfg i k) j) = state (proc_at k j)"
  using reparent_state [of cfg i k j] by auto

lemma fold_reparent_chan: "chan (proc_at (fold (reparent_slot cfg i) xs k) l) = chan (proc_at k l)"
  by (induction xs arbitrary: k) (simp_all add: reparent_slot_def nth_modify_any)

lemma reparent_chan: "chan (proc_at (reparent cfg i k) l) = chan (proc_at k l)"
  by (simp add: reparent_def fold_reparent_chan)

section \<open>exit\<close>

lemma exit_release_fields [simp]:
  "nextpid (exit_release i ft ops k) = nextpid k"
  "mlfq_seq (exit_release i ft ops k) = mlfq_seq k"
  "ticks (exit_release i ft ops k) = ticks k"
  "initproc (exit_release i ft ops k) = initproc k"
  "cpus (exit_release i ft ops k) = cpus k"
  "ftable (exit_release i ft ops k) = ft"
  "length (ptable (exit_release i ft ops k)) = length (ptable k)"
  by (simp_all add: exit_release_def Let_def)

lemma exit_release_slot:
  "proc_at (exit_release i ft ops k) j =
     (if j = i \<and> j < length (ptable k)
      then (proc_at k j)\<lparr>ofile := map (\<lambda>_. None) (ofile (proc_at k j)), cwd := None\<rparr> else proc_at k j)"
  by (auto simp: exit_release_def Let_def nth_modify_any)

lemma exit_release_other [simp]:
  "state (proc_at (exit_release i ft ops k) j) = state (proc_at k j)"
  "pid (proc_at (exit_release i ft ops k) j) = pid (proc_at k j)"
  "parent (proc_at (exit_release i ft ops k) j) = parent (proc_at k j)"
  "killed (proc_at (exit_release i ft ops k) j) = killed (proc_at k j)"
  "queue (proc_at (exit_release i ft ops k) j) = queue (proc_at k j)"
  by (simp_all add: exit_release_slot)

lemma exit_zombie_fields [simp]:
  "nextpid (exit_zombie cfg i st k) = nextpid k"
  "ticks (exit_zombie cfg i st k) = ticks k"
  "initproc (exit_zombie cfg i st k) = initproc k"
  "cpus (exit_zombie cfg i st k) = cpus k"
  "ftable (exit_zombie cfg i st k) = ftable k"
  "length (ptable (exit_zombie cfg i st k)) = length (ptable k)"
  by (simp_all add: exit_zombie_def Let_def)

lemma exit_zombie_other [simp]:
  "pid (proc_at (exit_zombie cfg i st k) j) = pid (proc_at k j)"
  "ofile (proc_at (exit_zombie cfg i st k) j) = ofile (proc_at k j)"
  "killed (proc_at (exit_zombie cfg i st k) j) = killed (proc_at k j)"
  "queue (proc_at (exit_zombie cfg i st k) j) = queue (proc_at k j)"
  by (simp_all add: exit_zombie_def Let_def nth_modify_any)

lemma exit_zombie_parent:
  "j < length (ptable k) \<Longrightarrow> parent (proc_at (exit_zombie cfg i st k) j) =
     (if parent (proc_at k j) = Some i then initproc k else parent (proc_at k j))"
  by (auto simp: exit_zombie_def Let_def nth_modify_any reparent_parent)

lemma exit_zombie_state:
  assumes "i < length (ptable k)"
  shows "state (proc_at (exit_zombie cfg i st k) i) = ZOMBIE"
    and "j \<noteq> i \<Longrightarrow> state (proc_at (exit_zombie cfg i st k) j) = state (proc_at k j)
      \<or> (state (proc_at k j) = SLEEPING \<and> state (proc_at (exit_zombie cfg i st k) j) = RUNNABLE)"
  using assms reparent_state [of cfg i k j]
  by (auto simp: exit_zombie_def Let_def nth_modify_any wakeup_state sleeps_on_def)

end
