(* ===== verification/Sched.thy ===== *)
theory Sched
  imports Proc_Facts "HOL-Library.Product_Lexorder"
begin

text \<open>
  What the scan of \<open>scheduler()\<close> picks.  Both scanning builds walk the table
  once, keep the best candidate seen so far and dispatch it: the interface
  \<open>scan_min\<close> states the step they share, and its lemma says that the walk ends
  with the first slot whose key is least.  The interpretations at the end are
  the MLFQ scan (key: queue, then stamp) and the FCFS scan (key: pid).
\<close>

section \<open>A scan for the first least element\<close>

locale scan_min =
  fixes elig :: "nat \<Rightarrow> bool"
    and key :: "nat \<Rightarrow> 'k :: linorder"
    and entry :: "nat \<Rightarrow> 'e"
    and look :: "nat \<Rightarrow> 'e option \<Rightarrow> 'e option"
  assumes look_first: "look i None = (if elig i then Some (entry i) else None)"
    and look_next: "look i (Some (entry b)) =
      (if elig i \<and> key i < key b then Some (entry i) else Some (entry b))"
begin

definition first_least :: "nat \<Rightarrow> nat \<Rightarrow> bool" where
  "first_least n b \<longleftrightarrow>
     b < n \<and> elig b \<and> (\<forall>j < n. elig j \<longrightarrow> key b \<le> key j) \<and> (\<forall>j < b. elig j \<longrightarrow> key b < key j)"

lemma scan_prefix:
  "(fold look [0..<n] None = None \<and> (\<forall>j < n. \<not> elig j))
   \<or> (\<exists>b. fold look [0..<n] None = Some (entry b) \<and> first_least n b)"
proof (induction n)
  case (Suc n)
  then show ?case
  proof (elim disjE exE conjE)
    assume "fold look [0..<n] None = None" "\<forall>j < n. \<not> elig j"
    then show ?thesis
      by (auto simp: look_first first_least_def less_Suc_eq)
  next
    fix b
    assume b: "fold look [0..<n] None = Some (entry b)" "first_least n b"
    show ?thesis
    proof (cases "elig n \<and> key n < key b")
      case True
      with b have "first_least (Suc n) n"
        by (auto simp: first_least_def less_Suc_eq intro: less_imp_le order_less_le_trans)
      with True b show ?thesis by (auto simp: look_next)
    next
      case False
      with b have "first_least (Suc n) b"
        by (auto simp: first_least_def less_Suc_eq)
      with False b show ?thesis by (auto simp: look_next)
    qed
  qed
qed simp

lemma scan_none: "fold look [0..<n] None = None \<longleftrightarrow> (\<forall>j < n. \<not> elig j)"
  using scan_prefix [of n] by (auto simp: first_least_def)

lemma scan_picks:
  assumes "j < n" "elig j"
  obtains b where "fold look [0..<n] None = Some (entry b)" "first_least n b"
  using scan_prefix [of n] assms by auto

end

section \<open>The two scans of the kernel\<close>

definition runnable :: "kernel \<Rightarrow> nat \<Rightarrow> bool" where
  "runnable k i = (state (proc_at k i) = RUNNABLE)"

definition mlfq_key :: "kernel \<Rightarrow> nat \<Rightarrow> int \<times> uint64" where
  "mlfq_key k i = (queue (proc_at k i), enq_time (proc_at k i))"

definition fcfs_key :: "kernel \<Rightarrow> nat \<Rightarrow> int" where
  "fcfs_key k i = pid (proc_at k i)"

definition candidate :: "kernel \<Rightarrow> nat \<Rightarrow> nat \<times> int \<times> uint64" where
  "candidate k i = (i, queue (proc_at k i), enq_time (proc_at k i))"

lemmas scan_defs = runnable_def mlfq_key_def fcfs_key_def candidate_def

interpretation mlfq_scan: scan_min "runnable k" "mlfq_key k" "candidate k" "scan_slot USE_MLFQ k" for k
  by unfold_locales (auto simp: scan_defs scan_slot_def mlfq_better_def Let_def)

interpretation fcfs_scan: scan_min "runnable k" "fcfs_key k" "candidate k" "scan_slot USE_FCFS k" for k
  by unfold_locales (auto simp: scan_defs scan_slot_def fcfs_better_def Let_def)

section \<open>The scheduler loop on an undisturbed table\<close>

text \<open>
  CPU \<open>c\<close> at the top of its loop reaches slot \<open>n\<close> with the candidate of the
  first \<open>n\<close> slots, when nobody changes the table in between.
\<close>

lemma scan_slot_set_cpu [simp]: "scan_slot cfg (set_cpu c s k) = scan_slot cfg k"
proof -
  have "fcfs_better (set_cpu c s k) = fcfs_better k"
    by (intro ext) (simp add: fcfs_better_def split: option.split prod.split)
  then show ?thesis by (intro ext) (simp add: scan_slot_def Let_def)
qed

lemma set_cpu_set_cpu [simp]: "set_cpu c s (set_cpu c t k) = set_cpu c s k"
  by (simp add: set_cpu_def)

lemma sched_scan_prefix:
  assumes "cfg \<noteq> USE_RR" "c < length (cpus k)" "spc (cpus k ! c) = SScan 0 None"
    "cproc (cpus k ! c) = None" "n \<le> length (ptable k)"
  shows "(sched_step cfg c ^^ n) k =
    set_cpu c \<lparr>cproc = None, spc = SScan n (fold (scan_slot cfg k) [0..<n] None)\<rparr> k"
  using \<open>n \<le> length (ptable k)\<close>
proof (induction n)
  case 0
  have "cpus k ! c = \<lparr>cproc = None, spc = SScan 0 None\<rparr>"
    using assms(3,4) by (cases "cpus k ! c") simp
  then have "(cpus k)[c := \<lparr>cproc = None, spc = SScan 0 None\<rparr>] = cpus k"
    by (metis list_update_id)
  then show ?case by (simp add: set_cpu_def)
next
  case (Suc n)
  let ?best = "fold (scan_slot cfg k) [0..<n] None"
  have "(sched_step cfg c ^^ Suc n) k =
    sched_step cfg c (set_cpu c \<lparr>cproc = None, spc = SScan n ?best\<rparr> k)"
    using Suc by simp
  also have "\<dots> = set_cpu c \<lparr>cproc = None, spc = SScan (Suc n) (scan_slot cfg k n ?best)\<rparr> k"
    using Suc.prems assms(1,2) by (simp add: sched_step_def)
  finally show ?case by simp
qed

lemma dispatch_set_cpu [simp]: "dispatch c b (set_cpu c s k) = dispatch c b k"
  by (simp add: dispatch_def set_cpu_def note_dispatch_def upd_def)

lemma sched_scan_dispatch:
  assumes "cfg \<noteq> USE_RR" "c < length (cpus k)" "spc (cpus k ! c) = SScan 0 None"
    "cproc (cpus k ! c) = None"
    and best: "fold (scan_slot cfg k) [0..<length (ptable k)] None = Some (b, x, y)"
    and run: "runnable k b"
  shows "(sched_step cfg c ^^ (length (ptable k) + 2)) k = dispatch c b k"
proof -
  let ?n = "length (ptable k)"
  have "(sched_step cfg c ^^ (?n + 2)) k =
      sched_step cfg c (sched_step cfg c ((sched_step cfg c ^^ ?n) k))"
    by simp
  also have "(sched_step cfg c ^^ ?n) k =
      set_cpu c \<lparr>cproc = None, spc = SScan ?n (Some (b, x, y))\<rparr> k"
    using sched_scan_prefix [OF assms(1-4) order_refl] best by simp
  also have "sched_step cfg c (set_cpu c \<lparr>cproc = None, spc = SScan ?n (Some (b, x, y))\<rparr> k) =
      set_cpu c \<lparr>cproc = None, spc = SDispatch b\<rparr> k"
    using assms(2) by (simp add: sched_step_def)
  also have "sched_step cfg c (set_cpu c \<lparr>cproc = None, spc = SDispatch b\<rparr> k) = dispatch c b k"
    using assms(2) run by (simp add: sched_step_def runnable_def)
  finally show ?thesis .
qed

lemma dispatch_fields [simp]:
  "nextpid (dispatch c b k) = nextpid k"
  "mlfq_seq (dispatch c b k) = mlfq_seq k"
  "ticks (dispatch c b k) = ticks k"
  "initproc (dispatch c b k) = initproc k"
  "ftable (dispatch c b k) = ftable k"
  "cpus (dispatch c b k) = (cpus k)[c := \<lparr>cproc = Some b, spc = SRun b\<rparr>]"
  "length (ptable (dispatch c b k)) = length (ptable k)"
  by (simp_all add: dispatch_def)

lemma dispatch_slot:
  "proc_at (dispatch c b k) j =
     (if j = b \<and> j < length (ptable k)
      then (if first_run_time (proc_at k b) = -1
            then (proc_at k j)\<lparr>state := RUNNING, first_run_time := sint (ticks k)\<rparr>
            else (proc_at k j)\<lparr>state := RUNNING\<rparr>)
      else proc_at k j)"
  by (auto simp: dispatch_def note_dispatch_slot nth_modify_any)

text \<open>The kernel after boot: one process, RUNNABLE, and every CPU at the top of its loop.\<close>

definition boot_kernel :: "sched_cfg \<Rightarrow> kernel" where
  "boot_kernel cfg =
     (case userinit cfg \<lparr>tf_epc = 0, tf_sp = 4096, tf_a0 = 0, tf_a1 = 0, tf_a2 = 0, tf_a7 = 0,
                          tf_rest = []\<rparr> 1 0 procinit of
        Some k \<Rightarrow> k | None \<Rightarrow> procinit)"

lemma find_idx_replicate: "0 < n \<Longrightarrow> P x \<Longrightarrow> find_idx P (replicate n x) = Some 0"
  by (cases n) simp_all

lemma allocproc_procinit:
  "allocproc cfg (Some tf) 1 procinit =
     (procinit\<lparr>nextpid := 2,
        ptable := modify 0 (\<lambda>p. fresh_fields cfg 0
          (p\<lparr>pid := 1, state := USED, p_trapframe := Some tf, pagetable := 1\<rparr>)) (ptable procinit)\<rparr>, Some 0)"
  by (simp add: allocproc_def procinit_def NPROC_def find_idx_replicate free_proc_def allocpid_def
      upd_def Let_def modify_def)

lemma boot_kernel_state:
  "length (cpus (boot_kernel cfg)) = 8" "length (ptable (boot_kernel cfg)) = 64"
  "cpus (boot_kernel cfg) ! 0 = \<lparr>cproc = None, spc = SScan 0 None\<rparr>"
  "state (proc_at (boot_kernel cfg) 0) = RUNNABLE"
  by (simp_all add: boot_kernel_def userinit_def allocproc_procinit enqueue_slot)
    (simp_all add: procinit_def NPROC_def NCPU_def)

text \<open>
  C1: from the top of the loop, an undisturbed CPU of the MLFQ build ends its
  scan on a RUNNABLE process of the highest non-empty priority, the one that
  was enqueued first in it, and runs it; no other slot changes.
\<close>

theorem mlfq_scheduler_picks_first_of_best_queue:
  assumes "c < length (cpus k)" "cproc (cpus k ! c) = None" "spc (cpus k ! c) = SScan 0 None"
    and "j < length (ptable k)" "state (proc_at k j) = RUNNABLE"
  shows "\<exists>b < length (ptable k). state (proc_at k b) = RUNNABLE
    \<and> (\<forall>i < length (ptable k). state (proc_at k i) = RUNNABLE \<longrightarrow>
         queue (proc_at k b) < queue (proc_at k i)
         \<or> (queue (proc_at k b) = queue (proc_at k i) \<and> enq_time (proc_at k b) \<le> enq_time (proc_at k i)))
    \<and> (let k' = (sched_step USE_MLFQ c ^^ (length (ptable k) + 2)) k in
         cproc (cpus k' ! c) = Some b \<and> state (proc_at k' b) = RUNNING
         \<and> (\<forall>i. i \<noteq> b \<longrightarrow> proc_at k' i = proc_at k i))"
proof -
  from assms(5) have "runnable k j" by (simp add: runnable_def)
  with assms(4) obtain b
    where scan: "fold (scan_slot USE_MLFQ k) [0..<length (ptable k)] None = Some (candidate k b)"
      and b: "mlfq_scan.first_least k (length (ptable k)) b"
    by (rule mlfq_scan.scan_picks)
  from b have least: "b < length (ptable k)" "runnable k b"
    "\<forall>i < length (ptable k). runnable k i \<longrightarrow> mlfq_key k b \<le> mlfq_key k i"
    by (auto simp: mlfq_scan.first_least_def)
  have "(sched_step USE_MLFQ c ^^ (length (ptable k) + 2)) k = dispatch c b k"
    using assms(1-3) scan least(2) by (intro sched_scan_dispatch) (auto simp: candidate_def)
  with least assms(1) show ?thesis
    by (intro exI [of _ b])
      (auto simp: dispatch_slot runnable_def mlfq_key_def less_eq_prod_def Let_def)
qed

theorem mlfq_scheduler_picks_first_of_best_queue_witness:
  "0 < length (cpus (boot_kernel USE_MLFQ)) \<and> cproc (cpus (boot_kernel USE_MLFQ) ! 0) = None
    \<and> spc (cpus (boot_kernel USE_MLFQ) ! 0) = SScan 0 None
    \<and> 0 < length (ptable (boot_kernel USE_MLFQ)) \<and> state (proc_at (boot_kernel USE_MLFQ) 0) = RUNNABLE
    \<and> (\<exists>b < length (ptable (boot_kernel USE_MLFQ)). state (proc_at (boot_kernel USE_MLFQ) b) = RUNNABLE
        \<and> cproc (cpus ((sched_step USE_MLFQ 0 ^^ (length (ptable (boot_kernel USE_MLFQ)) + 2)) (boot_kernel USE_MLFQ)) ! 0) = Some b)"
  using mlfq_scheduler_picks_first_of_best_queue [of 0 "boot_kernel USE_MLFQ" 0]
  by (auto simp: boot_kernel_state Let_def)

text \<open>
  the same for the FCFS build, which runs the RUNNABLE process with the
  smallest pid, the oldest one.
\<close>

theorem fcfs_scheduler_picks_least_pid:
  assumes "c < length (cpus k)" "cproc (cpus k ! c) = None" "spc (cpus k ! c) = SScan 0 None"
    and "j < length (ptable k)" "state (proc_at k j) = RUNNABLE"
  shows "\<exists>b < length (ptable k). state (proc_at k b) = RUNNABLE
    \<and> (\<forall>i < length (ptable k). state (proc_at k i) = RUNNABLE \<longrightarrow>
         pid (proc_at k b) \<le> pid (proc_at k i))
    \<and> (let k' = (sched_step USE_FCFS c ^^ (length (ptable k) + 2)) k in
         cproc (cpus k' ! c) = Some b \<and> state (proc_at k' b) = RUNNING
         \<and> (\<forall>i. i \<noteq> b \<longrightarrow> proc_at k' i = proc_at k i))"
proof -
  from assms(5) have "runnable k j" by (simp add: runnable_def)
  with assms(4) obtain b
    where scan: "fold (scan_slot USE_FCFS k) [0..<length (ptable k)] None = Some (candidate k b)"
      and b: "fcfs_scan.first_least k (length (ptable k)) b"
    by (rule fcfs_scan.scan_picks)
  from b have least: "b < length (ptable k)" "runnable k b"
    "\<forall>i < length (ptable k). runnable k i \<longrightarrow> fcfs_key k b \<le> fcfs_key k i"
    by (auto simp: fcfs_scan.first_least_def)
  have "(sched_step USE_FCFS c ^^ (length (ptable k) + 2)) k = dispatch c b k"
    using assms(1-3) scan least(2) by (intro sched_scan_dispatch) (auto simp: candidate_def)
  with least assms(1) show ?thesis
    by (intro exI [of _ b]) (auto simp: dispatch_slot runnable_def fcfs_key_def Let_def)
qed

theorem fcfs_scheduler_picks_least_pid_witness:
  "0 < length (cpus (boot_kernel USE_FCFS)) \<and> cproc (cpus (boot_kernel USE_FCFS) ! 0) = None
    \<and> spc (cpus (boot_kernel USE_FCFS) ! 0) = SScan 0 None
    \<and> 0 < length (ptable (boot_kernel USE_FCFS)) \<and> state (proc_at (boot_kernel USE_FCFS) 0) = RUNNABLE
    \<and> (\<exists>b < length (ptable (boot_kernel USE_FCFS)). state (proc_at (boot_kernel USE_FCFS) b) = RUNNABLE
        \<and> cproc (cpus ((sched_step USE_FCFS 0 ^^ (length (ptable (boot_kernel USE_FCFS)) + 2)) (boot_kernel USE_FCFS)) ! 0) = Some b)"
  using fcfs_scheduler_picks_least_pid [of 0 "boot_kernel USE_FCFS" 0]
  by (auto simp: boot_kernel_state Let_def)

end
