(* ===== verification/Sysfile.thy ===== *)
theory Sysfile
  imports Proc_Facts
begin

text \<open>
  The system calls that change a process's table of open files
  (\<open>xv6-riscv/kernel/sysfile.c\<close>: \<open>argfd\<close>, \<open>fdalloc\<close>, \<open>sys_dup\<close>,
  \<open>sys_close\<close>, \<open>sys_open\<close>, \<open>sys_pipe\<close>, \<open>sys_chdir\<close>; \<open>pipe.c\<close>:
  \<open>pipealloc\<close>).
  A call made by the process in slot \<open>i\<close> is a function on the kernel state with
  the result the call returns.  System call arguments are arguments, as are the
  answers of the inode layer (\<open>namei\<close>, \<open>create\<close>), of \<open>kalloc\<close> and of
  \<open>copyout\<close>; the requests made to the inode layer are logged in order.
\<close>

section \<open>Descriptors\<close>

definition argfd :: "nat \<Rightarrow> int \<Rightarrow> kernel \<Rightarrow> (nat \<times> nat) option" where
  "argfd i fd k =
     (if fd < 0 \<or> fd \<ge> int NOFILE then None
      else case ofile (proc_at k i) ! nat fd of
             None \<Rightarrow> None | Some f \<Rightarrow> Some (nat fd, f))"

definition fdalloc :: "nat \<Rightarrow> nat \<Rightarrow> kernel \<Rightarrow> (kernel \<times> nat) option" where
  "fdalloc i f k =
     (case find_idx (\<lambda>e. e = None) (ofile (proc_at k i)) of
        None \<Rightarrow> None
      | Some fd \<Rightarrow> Some (upd i (\<lambda>p. p\<lparr>ofile := (ofile p)[fd := Some f]\<rparr>) k, fd))"

definition clear_fd :: "nat \<Rightarrow> nat \<Rightarrow> kernel \<Rightarrow> kernel" where
  "clear_fd i fd k = upd i (\<lambda>p. p\<lparr>ofile := (ofile p)[fd := None]\<rparr>) k"

definition kfiledup :: "nat \<Rightarrow> kernel \<Rightarrow> kernel res" where
  "kfiledup f k = bindR (filedup f (ftable k)) (\<lambda>ft. Inr (k\<lparr>ftable := ft\<rparr>))"

definition kfileclose :: "nat \<Rightarrow> kernel \<Rightarrow> kernel res" where
  "kfileclose f k =
     bindR (fileclose f (ftable k)) (\<lambda>(ft, ops). Inr (log_kops ops (k\<lparr>ftable := ft\<rparr>)))"

section \<open>System calls\<close>

definition sys_dup :: "nat \<Rightarrow> int \<Rightarrow> kernel \<Rightarrow> (kernel \<times> int) res" where
  "sys_dup i fd k =
     (case argfd i fd k of
        None \<Rightarrow> Inr (k, -1)
      | Some (_, f) \<Rightarrow>
          (case fdalloc i f k of
             None \<Rightarrow> Inr (k, -1)
           | Some (k1, fd') \<Rightarrow> bindR (kfiledup f k1) (\<lambda>k2. Inr (k2, int fd'))))"

definition sys_close :: "nat \<Rightarrow> int \<Rightarrow> kernel \<Rightarrow> (kernel \<times> int) res" where
  "sys_close i fd k =
     (case argfd i fd k of
        None \<Rightarrow> Inr (k, -1)
      | Some (fd', f) \<Rightarrow> bindR (kfileclose f (clear_fd i fd' k)) (\<lambda>k1. Inr (k1, 0)))"

text \<open>
  \<open>pipealloc\<close> with the answer of \<open>kalloc\<close>; the pipe itself starts empty with
  both ends open.
\<close>

definition set_pipe_end :: "nat \<Rightarrow> bool \<Rightarrow> struct_file \<Rightarrow> struct_file" where
  "set_pipe_end pi wr f = f\<lparr>f_type := FD_PIPE, f_readable := \<not> wr, f_writable := wr, f_pipe := pi\<rparr>"

definition pipealloc :: "nat option \<Rightarrow> kernel \<Rightarrow> (kernel \<times> (nat \<times> nat) option) res" where
  "pipealloc page k =
     (case filealloc (ftable k) of
        None \<Rightarrow> Inr (k, None)
      | Some (ft0, f0) \<Rightarrow>
          (case filealloc ft0 of
             None \<Rightarrow> bindR (kfileclose f0 (k\<lparr>ftable := ft0\<rparr>)) (\<lambda>k'. Inr (k', None))
           | Some (ft1, f1) \<Rightarrow>
               (case page of
                  None \<Rightarrow> bindR (kfileclose f0 (k\<lparr>ftable := ft1\<rparr>))
                            (\<lambda>k'. bindR (kfileclose f1 k') (\<lambda>k''. Inr (k'', None)))
                | Some pi \<Rightarrow>
                    Inr (k\<lparr>ftable := modify f1 (set_pipe_end pi True)
                                      (modify f0 (set_pipe_end pi False) ft1)\<rparr>,
                         Some (f0, f1)))))"

text \<open>\<open>copied\<close> says whether both descriptors could be stored in user memory.\<close>

definition close_both :: "nat \<Rightarrow> nat \<Rightarrow> kernel \<Rightarrow> (kernel \<times> int) res" where
  "close_both rfile wfile k =
     bindR (kfileclose rfile k) (\<lambda>k1. bindR (kfileclose wfile k1) (\<lambda>k2. Inr (k2, -1)))"

definition sys_pipe :: "nat \<Rightarrow> nat option \<Rightarrow> bool \<Rightarrow> kernel \<Rightarrow> (kernel \<times> int) res" where
  "sys_pipe i page copied k =
     bindR (pipealloc page k) (\<lambda>(k1, ends).
       case ends of
         None \<Rightarrow> Inr (k1, -1)
       | Some (rfile, wfile) \<Rightarrow>
           (case fdalloc i rfile k1 of
              None \<Rightarrow> close_both rfile wfile k1
            | Some (k2, fd0) \<Rightarrow>
                (case fdalloc i wfile k2 of
                   None \<Rightarrow> close_both rfile wfile (clear_fd i fd0 k2)
                 | Some (k3, fd1) \<Rightarrow>
                     if copied then Inr (k3, 0)
                     else close_both rfile wfile (clear_fd i fd1 (clear_fd i fd0 k3)))))"

datatype itype = T_DIR | T_FILE | T_DEVICE

definition NDEV :: int where "NDEV = 10"

definition O_RDONLY :: uint32 where "O_RDONLY = 0x000"
definition O_WRONLY :: uint32 where "O_WRONLY = 0x001"
definition O_RDWR :: uint32 where "O_RDWR = 0x002"
definition O_CREATE :: uint32 where "O_CREATE = 0x200"
definition O_TRUNC :: uint32 where "O_TRUNC = 0x400"

unbundle bit_operations_syntax

definition flag :: "uint32 \<Rightarrow> uint32 \<Rightarrow> bool" where
  "flag omode m = (omode AND m \<noteq> 0)"

definition set_open :: "uint32 \<Rightarrow> nat \<Rightarrow> itype \<Rightarrow> int \<Rightarrow> struct_file \<Rightarrow> struct_file" where
  "set_open omode ip ty mj f =
     (let f1 = (if ty = T_DEVICE then f\<lparr>f_type := FD_DEVICE, f_major := mj\<rparr>
                else f\<lparr>f_type := FD_INODE, f_off := 0\<rparr>)
      in f1\<lparr>f_ip := ip, f_readable := \<not> flag omode O_WRONLY,
            f_writable := flag omode O_WRONLY \<or> flag omode O_RDWR\<rparr>)"

text \<open>
  \<open>ino\<close> is what \<open>create\<close> or \<open>namei\<close>, whichever the mode asks for, returns: the
  inode with its type and major number.  \<open>path\<close> is \<open>None\<close> when \<open>argstr\<close> fails.
\<close>

definition open_fail :: "nat \<Rightarrow> kernel \<Rightarrow> (kernel \<times> int) res" where
  "open_fail ip k = Inr (log_kops [OpIunlockput ip, OpEnd] k, -1)"

definition sys_open ::
  "nat \<Rightarrow> string option \<Rightarrow> uint32 \<Rightarrow> (nat \<times> itype \<times> int) option \<Rightarrow> kernel \<Rightarrow> (kernel \<times> int) res" where
  "sys_open i path omode ino k =
     (case path of None \<Rightarrow> Inr (k, -1) | Some s \<Rightarrow>
        let cr = flag omode O_CREATE;
            k0 = log_kops [OpBegin, (if cr then OpCreate s else OpNamei s)] k
        in case ino of
             None \<Rightarrow> Inr (log_kops [OpEnd] k0, -1)
           | Some (ip, ty, mj) \<Rightarrow>
               let k1 = (if cr then k0 else log_kops [OpIlock ip] k0)
               in if \<not> cr \<and> ty = T_DIR \<and> omode \<noteq> O_RDONLY then open_fail ip k1
                  else if ty = T_DEVICE \<and> (mj < 0 \<or> mj \<ge> NDEV) then open_fail ip k1
                  else (case filealloc (ftable k1) of
                          None \<Rightarrow> open_fail ip k1
                        | Some (ft, f) \<Rightarrow>
                            let k2 = k1\<lparr>ftable := ft\<rparr> in
                            (case fdalloc i f k2 of
                               None \<Rightarrow> bindR (kfileclose f k2) (open_fail ip)
                             | Some (k3, fd) \<Rightarrow>
                                 let k4 = k3\<lparr>ftable := modify f (set_open omode ip ty mj) (ftable k3)\<rparr>
                                 in Inr (log_kops ((if flag omode O_TRUNC \<and> ty = T_FILE then [OpItrunc ip] else [])
                                                   @ [OpIunlock ip, OpEnd]) k4, int fd))))"

definition sys_chdir :: "nat \<Rightarrow> string option \<Rightarrow> (nat \<times> itype) option \<Rightarrow> kernel \<Rightarrow> kernel \<times> int" where
  "sys_chdir i path ino k =
     (let k0 = log_kops [OpBegin] k in
      case path of None \<Rightarrow> (log_kops [OpEnd] k0, -1) | Some s \<Rightarrow>
        let k1 = log_kops [OpNamei s] k0 in
        case ino of None \<Rightarrow> (log_kops [OpEnd] k1, -1) | Some (ip, ty) \<Rightarrow>
          if ty \<noteq> T_DIR then (log_kops [OpIlock ip, OpIunlockput ip, OpEnd] k1, -1)
          else (upd i (\<lambda>p. p\<lparr>cwd := Some ip\<rparr>)
                  (log_kops ([OpIlock ip, OpIunlock ip]
                     @ (case cwd (proc_at k i) of None \<Rightarrow> [] | Some d \<Rightarrow> [OpIput d]) @ [OpEnd]) k1), 0))"

end
