(* ===== verification/Kernel_Steps.thy ===== *)
theory Kernel_Steps
  imports Sched Sysfile
begin

text \<open>
  The kernel as a transition system.  A step is one operation of one CPU: an
  iteration of the scheduler loop on an idle CPU, a timer interrupt, a wakeup
  by a process or a device interrupt, or a system call of the process that
  runs on the CPU.  Operations of different CPUs interleave in any order.  A
  system call is one step here although \<open>exit\<close>, \<open>fork\<close>, \<open>open\<close>, \<open>pipe\<close>, \<open>dup\<close>
  and the timer trap take and release several locks; \<open>File_Steps\<close> splits the calls on
  descriptors into the sections between their locks.
  \<open>reachable\<close> are the states after \<open>procinit\<close> and \<open>userinit\<close>.

  The interface \<open>slot_contract\<close> collects what each operation does to a single
  \<open>struct proc\<close>; a property of single slots that survives these updates holds
  for every slot of every reachable state.
\<close>

section \<open>Steps\<close>

definition running :: "kernel \<Rightarrow> nat \<Rightarrow> nat \<Rightarrow> bool" where
  "running k c i \<longleftrightarrow> c < length (cpus k) \<and> cproc (cpus k ! c) = Some i"

inductive kstep :: "sched_cfg \<Rightarrow> kernel \<Rightarrow> kernel \<Rightarrow> bool" for cfg where
  k_sched: "c < length (cpus k) \<Longrightarrow> cproc (cpus k ! c) = None \<Longrightarrow> kstep cfg k (sched_step cfg c k)"
| k_timer: "c < length (cpus k) \<Longrightarrow> timer_trap cfg c k = Inr k' \<Longrightarrow> kstep cfg k k'"
| k_wakeup: "c < length (cpus k) \<Longrightarrow> kstep cfg k (wakeup cfg (cproc (cpus k ! c)) (Some ch) k)"
| k_sleep: "running k c i \<Longrightarrow> sleep cfg c i ch k = Inr k' \<Longrightarrow> kstep cfg k k'"
| k_resume: "running k c i \<Longrightarrow> kstep cfg k (sleep_resume i k)"
| k_kill: "running k c i \<Longrightarrow> kkill cfg n k = (k', r) \<Longrightarrow> kstep cfg k k'"
| k_setkilled: "running k c i \<Longrightarrow> kstep cfg k (setkilled i k)"
| k_fork: "running k c i \<Longrightarrow> kfork cfg tf pt uvm i k = Inr (k', r) \<Longrightarrow> kstep cfg k k'"
| k_exit: "running k c i \<Longrightarrow> kexit cfg c i st k = Inr k' \<Longrightarrow> kstep cfg k k'"
| k_wait: "running k c i \<Longrightarrow> kwait cfg c i addr ok k = Inr (k', w) \<Longrightarrow> kstep cfg k k'"
| k_dup: "running k c i \<Longrightarrow> sys_dup i fd k = Inr (k', r) \<Longrightarrow> kstep cfg k k'"
| k_close: "running k c i \<Longrightarrow> sys_close i fd k = Inr (k', r) \<Longrightarrow> kstep cfg k k'"
| k_open: "running k c i \<Longrightarrow> sys_open i path omode ino k = Inr (k', r) \<Longrightarrow> kstep cfg k k'"
| k_pipe: "running k c i \<Longrightarrow> sys_pipe i page copied k = Inr (k', r) \<Longrightarrow> kstep cfg k k'"
| k_chdir: "running k c i \<Longrightarrow> sys_chdir i path dir k = (k', r) \<Longrightarrow> kstep cfg k k'"

inductive reachable :: "sched_cfg \<Rightarrow> kernel \<Rightarrow> bool" for cfg where
  r_boot: "userinit cfg tf pt root procinit = Some k \<Longrightarrow> reachable cfg k"
| r_step: "reachable cfg k \<Longrightarrow> kstep cfg k k' \<Longrightarrow> reachable cfg k'"

section \<open>Properties of single slots\<close>

definition all_slots :: "(proc \<Rightarrow> bool) \<Rightarrow> kernel \<Rightarrow> bool" where
  "all_slots I k = list_all I (ptable k)"

lemma all_slots_nth: "all_slots I k \<Longrightarrow> i < length (ptable k) \<Longrightarrow> I (proc_at k i)"
  by (simp add: all_slots_def list_all_length)

lemma all_slotsI: "(\<And>i. i < length (ptable k) \<Longrightarrow> I (proc_at k i)) \<Longrightarrow> all_slots I k"
  by (simp add: all_slots_def list_all_length)

lemma all_slots_same: "ptable k' = ptable k \<Longrightarrow> all_slots I k \<Longrightarrow> all_slots I k'"
  by (simp add: all_slots_def)

lemma all_slots_upd:
  assumes "all_slots I k" "\<And>p. I p \<Longrightarrow> I (f p)"
  shows "all_slots I (upd i f k)"
  using all_slots_nth [OF assms(1)] assms(2) by (intro all_slotsI) simp

locale slot_contract =
  fixes cfg :: sched_cfg and I :: "proc \<Rightarrow> bool"
  assumes free: "I free_proc"
    and alloc: "I p \<Longrightarrow> I (p\<lparr>pid := n, state := USED, p_trapframe := tf\<rparr>)"
    and pagetable: "I p \<Longrightarrow> I (p\<lparr>pagetable := pt\<rparr>)"
    and fresh: "I p \<Longrightarrow> I (fresh_fields cfg t p)"
    and freed: "I p \<Longrightarrow> I (freeproc_fields cfg p)"
    and rootcwd: "I p \<Longrightarrow> I (p\<lparr>cwd := d, state := RUNNABLE\<rparr>)"
    and state: "I p \<Longrightarrow> I (p\<lparr>state := s\<rparr>)"
    and stamp: "cfg = USE_MLFQ \<Longrightarrow> I p \<Longrightarrow> I (p\<lparr>enq_time := e\<rparr>)"
    and first_run: "I p \<Longrightarrow> I (p\<lparr>first_run_time := sint (u :: uint32)\<rparr>)"
    and asleep: "I p \<Longrightarrow> I (p\<lparr>chan := ch, state := SLEEPING\<rparr>)"
    and reset: "cfg = USE_MLFQ \<Longrightarrow> I p \<Longrightarrow> I (p\<lparr>ticks_used := 0\<rparr>)"
    and awake: "I p \<Longrightarrow> I (p\<lparr>chan := None\<rparr>)"
    and kill: "I p \<Longrightarrow> I (p\<lparr>killed := 1\<rparr>)"
    and charge: "cfg = USE_MLFQ \<Longrightarrow> I p \<Longrightarrow> I (mlfq_charge p)"
    and boost: "cfg = USE_MLFQ \<Longrightarrow> I p \<Longrightarrow> I (p\<lparr>queue := 0, ticks_used := 0\<rparr>)"
    and rtick: "I p \<Longrightarrow> I (p\<lparr>rtime := rtime p + 1\<rparr>)"
    and wtick: "I p \<Longrightarrow> I (p\<lparr>wtime := wtime p + 1\<rparr>)"
    and forked: "I p \<Longrightarrow> I np \<Longrightarrow> I (fork_fields p i np)"
    and orphan: "I p \<Longrightarrow> I (p\<lparr>parent := q\<rparr>)"
    and nofiles: "I p \<Longrightarrow> I (p\<lparr>ofile := map (\<lambda>_. None) (ofile p)\<rparr>)"
    and setfile: "I p \<Longrightarrow> I (p\<lparr>ofile := (ofile p)[fd := e']\<rparr>)"
    and setcwd: "I p \<Longrightarrow> I (p\<lparr>cwd := d\<rparr>)"
    and zombie: "I p \<Longrightarrow> I (p\<lparr>xstate := x, state := ZOMBIE, etime := y\<rparr>)"
begin

named_theorems keeps

lemma keeps_frame [keeps]:
  "all_slots I (log_kops ops k) = all_slots I k"
  "all_slots I (set_cpu c s k) = all_slots I k"
  "all_slots I (k\<lparr>ftable := ft\<rparr>) = all_slots I k"
  "all_slots I (k\<lparr>kops := ops\<rparr>) = all_slots I k"
  "all_slots I (k\<lparr>nextpid := n\<rparr>) = all_slots I k"
  "all_slots I (k\<lparr>ticks := u\<rparr>) = all_slots I k"
  "all_slots I (k\<lparr>initproc := ip\<rparr>) = all_slots I k"
  by (simp_all add: all_slots_def)

lemma keeps_enqueue [keeps]: "all_slots I k \<Longrightarrow> all_slots I (enqueue cfg i k)"
  using all_slots_upd [of I k "\<lambda>p. p\<lparr>enq_time := mlfq_seq k\<rparr>" i] stamp
  by (auto simp: enqueue_def mlfq_enqueue_def all_slots_def)

lemma keeps_state [keeps]: "all_slots I k \<Longrightarrow> all_slots I (upd i (\<lambda>p. p\<lparr>state := s\<rparr>) k)"
  by (rule all_slots_upd) (simp_all add: state)

lemma keeps_note [keeps]: "all_slots I k \<Longrightarrow> all_slots I (note_dispatch i k)"
  by (auto simp: note_dispatch_def intro!: all_slots_upd first_run)

lemma keeps_sched_step: "all_slots I k \<Longrightarrow> all_slots I (sched_step cfg c k)"
  by (auto simp: sched_step_def dispatch_def keeps split: sched_pc.split option.split)

lemma keeps_freeproc: "all_slots I k \<Longrightarrow> all_slots I (freeproc cfg i k)"
  by (auto simp: freeproc_def Let_def keeps intro!: all_slots_upd freed)

lemma keeps_wakeup: "all_slots I k \<Longrightarrow> all_slots I (wakeup cfg me ch k)"
proof -
  assume k: "all_slots I k"
  have "all_slots I (wakeup_slot cfg me ch i k)" if "all_slots I k" for i k
    using that by (simp add: wakeup_slot_def keeps)
  then have "all_slots I (fold (wakeup_slot cfg me ch) xs k)" for xs
    using k by (induction xs arbitrary: k) simp_all
  then show ?thesis by (simp add: wakeup_def)
qed

lemma keeps_reparent: "all_slots I k \<Longrightarrow> all_slots I (reparent cfg i k)"
proof -
  assume k: "all_slots I k"
  have "all_slots I (reparent_slot cfg i j k)" if "all_slots I k" for j k
    using that by (auto simp: reparent_slot_def intro!: keeps_wakeup all_slots_upd orphan)
  then have "all_slots I (fold (reparent_slot cfg i) xs k)" for xs
    using k by (induction xs arbitrary: k) simp_all
  then show ?thesis by (simp add: reparent_def)
qed

lemma keeps_allocproc:
  assumes "all_slots I k" "allocproc cfg tf pt k = (k', r)"
  shows "all_slots I k'"
  using assms
  by (auto simp: allocproc_def allocpid_def Let_def keeps split: option.splits if_splits
      intro!: keeps_freeproc all_slots_upd alloc pagetable fresh)

lemma keeps_userinit:
  assumes "userinit cfg tf pt root procinit = Some k"
  shows "all_slots I k"
proof -
  have "all_slots I procinit"
    by (simp add: all_slots_def procinit_def list_all_length free)
  with assms show ?thesis
    by (auto simp: userinit_def keeps split: prod.splits option.splits
        intro!: keeps_enqueue all_slots_upd rootcwd dest: keeps_allocproc)
qed

lemma keeps_sched:
  "sched h n b cfg c i k = Inr k' \<Longrightarrow> all_slots I k \<Longrightarrow> all_slots I k'"
  by (auto simp: sched_def keeps split: if_splits)

lemma keeps_yield: "yield cfg c i k = Inr k' \<Longrightarrow> all_slots I k \<Longrightarrow> all_slots I k'"
  by (auto simp: yield_def keeps dest: keeps_sched)

lemma keeps_sleep: "sleep cfg c i ch k = Inr k' \<Longrightarrow> all_slots I k \<Longrightarrow> all_slots I k'"
  unfolding sleep_def
  by (erule keeps_sched) (auto simp: Let_def intro!: all_slots_upd reset asleep)

lemma keeps_clockintr: "all_slots I k \<Longrightarrow> all_slots I (clockintr cfg c k)"
proof -
  assume k: "all_slots I k"
  have b: "all_slots I (if cfg = USE_MLFQ \<and> B then mlfq_boost k else k)"
    if "all_slots I k" for k B
    using that by (auto simp: mlfq_boost_def all_slots_def list_all_length boost)
  have u: "all_slots I (update_times k)" if "all_slots I k" for k
    using that by (auto simp: update_times_def all_slots_def list_all_length rtick wtick)
  have "all_slots I (wakeup cfg me ch (k\<lparr>ticks := t\<rparr>))" for me ch t
    by (rule keeps_wakeup) (simp add: keeps k)
  then show ?thesis
    unfolding clockintr_def Let_def by (cases "c = 0") (simp_all only: simp_thms if_True if_False u b k)
qed

lemma keeps_timer:
  assumes "all_slots I k" "timer_trap cfg c k = Inr k'"
  shows "all_slots I k'"
proof -
  have t: "all_slots I k'" if "mlfq_tick c i k = Inr k'" "all_slots I k" "cfg = USE_MLFQ" for i k
  proof -
    from that have "all_slots I (upd i mlfq_charge k)"
      by (auto intro!: all_slots_upd charge)
    then have "all_slots I k'" if "yield USE_MLFQ c i (upd i mlfq_charge k) = Inr k'" for k'
      using keeps_yield that \<open>cfg = USE_MLFQ\<close> by simp
    with that \<open>all_slots I (upd i mlfq_charge k)\<close> show ?thesis
      by (auto simp: mlfq_tick_def Let_def split: if_splits)
  qed
  from keeps_clockintr [OF assms(1), of c] assms(2) show ?thesis
    by (auto simp: timer_trap_def Let_def split: option.splits if_splits dest: keeps_yield t)
qed

lemma keeps_kill: "kkill cfg n k = (k', r) \<Longrightarrow> all_slots I k \<Longrightarrow> all_slots I k'"
  by (auto simp: kkill_def Let_def split: option.splits if_splits
      intro!: keeps_enqueue keeps_state all_slots_upd kill)

lemma keeps_fork:
  assumes "kfork cfg tf pt uvm i k = Inr (k', r)" "all_slots I k" "i < length (ptable k)"
  shows "all_slots I k'"
proof -
  obtain k1 r1 where a: "allocproc cfg tf pt k = (k1, r1)" by fastforce
  from keeps_allocproc [OF assms(2) a] have k1: "all_slots I k1" .
  have "length (ptable k1) = length (ptable k)"
    using a by (auto simp: allocproc_def allocpid_def Let_def split: option.splits if_splits)
  with assms(3) k1 have "I (proc_at k1 i)" by (simp add: all_slots_nth)
  with assms(1) a k1 show ?thesis
    by (auto simp: kfork_def bindR_Inr Let_def keeps split: option.splits if_splits
        intro!: keeps_enqueue keeps_freeproc all_slots_upd forked)
qed

lemma keeps_exit: "kexit cfg c i st k = Inr k' \<Longrightarrow> all_slots I k \<Longrightarrow> all_slots I k'"
  unfolding kexit_def exit_zombie_def exit_release_def
  by (auto simp: bindR_Inr Let_def keeps split: if_splits
      intro!: keeps_wakeup keeps_reparent all_slots_upd zombie setcwd nofiles elim!: keeps_sched)

lemma keeps_wait: "kwait cfg c i addr ok k = Inr (k', w) \<Longrightarrow> all_slots I k \<Longrightarrow> all_slots I k'"
  by (auto simp: kwait_def bindR_Inr split: option.splits if_splits
      intro!: keeps_freeproc elim!: keeps_sleep)

lemma keeps_fdalloc: "fdalloc i f k = Some (k', fd) \<Longrightarrow> all_slots I k \<Longrightarrow> all_slots I k'"
  by (auto simp: fdalloc_def split: option.splits intro!: all_slots_upd setfile)

lemma keeps_clear_fd: "all_slots I k \<Longrightarrow> all_slots I (clear_fd i fd k)"
  by (auto simp: clear_fd_def intro!: all_slots_upd setfile)

lemma keeps_kfile:
  "kfiledup f k = Inr k' \<Longrightarrow> all_slots I k' = all_slots I k"
  "kfileclose f k = Inr k' \<Longrightarrow> all_slots I k' = all_slots I k"
  by (auto simp: kfiledup_def kfileclose_def bindR_Inr keeps)

lemma keeps_dup: "sys_dup i fd k = Inr (k', r) \<Longrightarrow> all_slots I k \<Longrightarrow> all_slots I k'"
  by (auto simp: sys_dup_def bindR_Inr keeps_kfile split: option.splits elim!: keeps_fdalloc)

lemma keeps_close: "sys_close i fd k = Inr (k', r) \<Longrightarrow> all_slots I k \<Longrightarrow> all_slots I k'"
  by (auto simp: sys_close_def bindR_Inr keeps_kfile keeps_clear_fd split: option.splits)

lemma keeps_open: "sys_open i path omode ino k = Inr (k', r) \<Longrightarrow> all_slots I k \<Longrightarrow> all_slots I k'"
  by (auto simp: sys_open_def open_fail_def bindR_Inr Let_def keeps keeps_kfile
      split: option.splits if_splits dest!: keeps_fdalloc)

lemma keeps_pipealloc: "pipealloc page k = Inr (k', r) \<Longrightarrow> all_slots I k' = all_slots I k"
  by (auto simp: pipealloc_def bindR_Inr keeps keeps_kfile split: option.splits)

lemma keeps_close_both: "close_both f g k = Inr (k', r) \<Longrightarrow> all_slots I k' = all_slots I k"
  by (auto simp: close_both_def bindR_Inr keeps_kfile)

lemma keeps_pipe:
  assumes "sys_pipe i page copied k = Inr (k', r)" "all_slots I k"
  shows "all_slots I k'"
proof -
  from assms(1) obtain k1 ends where p: "pipealloc page k = Inr (k1, ends)"
    by (auto simp: sys_pipe_def bindR_Inr)
  with assms(2) have "all_slots I k1" by (simp add: keeps_pipealloc)
  with assms(1) p show ?thesis
    by (auto simp: sys_pipe_def keeps_clear_fd
        split: option.splits prod.splits if_splits dest!: keeps_fdalloc keeps_close_both)
qed

lemma keeps_chdir: "sys_chdir i path dir k = (k', r) \<Longrightarrow> all_slots I k \<Longrightarrow> all_slots I k'"
  by (auto simp: sys_chdir_def Let_def keeps split: option.splits if_splits
      intro!: all_slots_upd setcwd)

lemmas keeps_ops =
  keeps_sched_step keeps_timer keeps_wakeup keeps_sleep keeps_kill keeps_exit keeps_wait
  keeps_dup keeps_close keeps_open keeps_pipe keeps_chdir

end

end
