(* ===== verification/Cpu_Inv.thy ===== *)
theory Cpu_Inv
  imports Kernel_Steps
begin

text \<open>
  Who runs where.  In every reachable state a CPU that has switched to a
  process holds a slot in state RUNNING, no slot is on two CPUs, every RUNNING
  slot is on some CPU, and the scheduler loop of an idle CPU remembers only
  valid slots.  The second half lifts the slot contracts of \<open>Kernel_Steps\<close> to
  reachable states.
\<close>

section \<open>The invariant\<close>

definition pc_ok :: "nat \<Rightarrow> sched_pc \<Rightarrow> bool" where
  "pc_ok n pc = (case pc of
      SScan _ best \<Rightarrow> (case best of None \<Rightarrow> True | Some (b, _, _) \<Rightarrow> b < n)
    | SDispatch b \<Rightarrow> b < n
    | SRun _ \<Rightarrow> False)"

definition cpu_inv :: "kernel \<Rightarrow> bool" where
  "cpu_inv k \<longleftrightarrow>
     (\<forall>c i. running k c i \<longrightarrow>
        i < length (ptable k) \<and> state (proc_at k i) = RUNNING \<and> spc (cpus k ! c) = SRun i)
   \<and> (\<forall>c < length (cpus k). cproc (cpus k ! c) = None \<longrightarrow> pc_ok (length (ptable k)) (spc (cpus k ! c)))
   \<and> (\<forall>c c' i. running k c i \<and> running k c' i \<longrightarrow> c = c')
   \<and> (\<forall>i < length (ptable k). state (proc_at k i) = RUNNING \<longrightarrow> (\<exists>c. running k c i))"

lemma cpu_inv_running:
  assumes "cpu_inv k" "running k c i"
  shows "c < length (cpus k)" "i < length (ptable k)" "state (proc_at k i) = RUNNING"
    "spc (cpus k ! c) = SRun i"
  using assms by (auto simp: cpu_inv_def running_def)

lemma cpu_inv_frame:
  assumes "cpu_inv k" "cpus k' = cpus k" "length (ptable k') = length (ptable k)"
    "\<And>j. j < length (ptable k) \<Longrightarrow> state (proc_at k' j) = RUNNING \<longleftrightarrow> state (proc_at k j) = RUNNING"
  shows "cpu_inv k'"
proof -
  have "running k' = running k" by (intro ext) (simp add: running_def assms(2))
  moreover have "running k c i \<Longrightarrow> state (proc_at k' i) = RUNNING" for c i
    using assms(4) [of i] cpu_inv_running [OF assms(1), of c i] by simp
  ultimately show ?thesis
    using assms(1,4) by (auto simp: cpu_inv_def assms(2,3))
qed

lemma running_set_cpu:
  assumes "c < length (cpus k)"
  shows "running (set_cpu c s k) c' i \<longleftrightarrow> (if c' = c then cproc s = Some i else running k c' i)"
  using assms by (auto simp: running_def)

lemma cpu_inv_idle:
  assumes "cpu_inv k" "c < length (cpus k)" "cproc (cpus k ! c) = None" "pc_ok (length (ptable k)) pc"
  shows "cpu_inv (set_cpu c \<lparr>cproc = None, spc = pc\<rparr> k)"
proof -
  have r: "running (set_cpu c \<lparr>cproc = None, spc = pc\<rparr> k) = running k"
    using assms(2,3) by (intro ext) (auto simp: running_def nth_list_update)
  show ?thesis
    using assms unfolding cpu_inv_def r by (auto simp: nth_list_update running_def)
qed

lemma cpu_inv_dispatch:
  assumes inv: "cpu_inv k" and c: "c < length (cpus k)" "cproc (cpus k ! c) = None"
    and b: "b < length (ptable k)" "state (proc_at k b) = RUNNABLE"
  shows "cpu_inv (dispatch c b k)"
proof -
  have r: "running (dispatch c b k) c' i \<longleftrightarrow> (if c' = c then i = b else running k c' i)" for c' i
    using c by (auto simp: running_def nth_list_update)
  have s: "state (proc_at (dispatch c b k) i) = (if i = b then RUNNING else state (proc_at k i))" for i
    using b by (simp add: dispatch_slot)
  have nb: "\<not> running k c' b" for c'
    using cpu_inv_running [OF inv, of c' b] b by auto
  have nc: "\<not> running k c i" for i using c by (simp add: running_def)
  show ?thesis
    unfolding cpu_inv_def r s using inv b c nb nc
    by (auto simp: cpu_inv_def nth_list_update split: if_splits) metis+
qed

text \<open>
  Leaving the CPU: the process on CPU \<open>c\<close> has given up the state RUNNING and
  nothing else has changed; \<open>sched\<close> then succeeds and restores the invariant.
\<close>

definition left_by :: "kernel \<Rightarrow> nat \<Rightarrow> kernel \<Rightarrow> bool" where
  "left_by k i k1 \<longleftrightarrow> cpus k1 = cpus k \<and> length (ptable k1) = length (ptable k)
     \<and> state (proc_at k1 i) \<noteq> RUNNING
     \<and> (\<forall>j < length (ptable k). j \<noteq> i \<longrightarrow>
          (state (proc_at k1 j) = RUNNING \<longleftrightarrow> state (proc_at k j) = RUNNING))"

lemma sched_locked_Inr:
  "sched_locked cfg c i k1 = Inr k' \<longleftrightarrow>
     state (proc_at k1 i) \<noteq> RUNNING \<and>
     k' = set_cpu c \<lparr>cproc = None,
            spc = (case spc (cpus k1 ! c) of
                     SRun j \<Rightarrow> (if cfg = USE_RR then SScan (Suc j) None else SScan 0 None)
                   | pc \<Rightarrow> pc)\<rparr> k1"
  by (auto simp: sched_def)

lemma cpu_inv_sched:
  assumes inv: "cpu_inv k" and run: "running k c i" and left: "left_by k i k1"
    and s: "sched_locked cfg c i k1 = Inr k'"
  shows "cpu_inv k'"
proof -
  note r = cpu_inv_running [OF inv run]
  from left have l: "cpus k1 = cpus k" "length (ptable k1) = length (ptable k)"
    "state (proc_at k1 i) \<noteq> RUNNING"
    "\<And>j. j < length (ptable k) \<Longrightarrow> j \<noteq> i \<Longrightarrow>
       (state (proc_at k1 j) = RUNNING \<longleftrightarrow> state (proc_at k j) = RUNNING)"
    by (auto simp: left_by_def)
  let ?pc = "if cfg = USE_RR then SScan (Suc i) None else SScan 0 None"
  have pc: "pc_ok (length (ptable k)) ?pc" by (simp add: pc_ok_def)
  have k': "k' = set_cpu c \<lparr>cproc = None, spc = ?pc\<rparr> k1"
    using s r l by (simp add: sched_locked_Inr)
  have rn: "running k' c' j \<longleftrightarrow> c' \<noteq> c \<and> running k c' j" for c' j
    using r l by (auto simp: k' running_def nth_list_update)
  have "running k c' i \<Longrightarrow> c' = c" for c' using inv run unfolding cpu_inv_def by blast
  then have 1: "c' \<noteq> c \<and> running k c' j \<Longrightarrow> j \<noteq> i" for c' j by auto
  have 2: "running k c j \<Longrightarrow> j = i" for j using run by (auto simp: running_def)
  show ?thesis
    unfolding cpu_inv_def rn
  proof (intro conjI allI impI)
    fix c' j assume "c' \<noteq> c \<and> running k c' j"
    with 1 [OF this] cpu_inv_running [OF inv, of c' j] l
    show "j < length (ptable k')" "state (proc_at k' j) = RUNNING" "spc (cpus k' ! c') = SRun j"
      by (auto simp: k')
  next
    fix c' assume "c' < length (cpus k')" "cproc (cpus k' ! c') = None"
    with inv pc r l show "pc_ok (length (ptable k')) (spc (cpus k' ! c'))"
      by (cases "c' = c") (auto simp: k' cpu_inv_def)
  next
    fix c1 c2 j assume "(c1 \<noteq> c \<and> running k c1 j) \<and> c2 \<noteq> c \<and> running k c2 j"
    with inv show "c1 = c2" unfolding cpu_inv_def by blast
  next
    fix j assume "j < length (ptable k')" "state (proc_at k' j) = RUNNING"
    with r l have j: "j < length (ptable k)" "j \<noteq> i" "state (proc_at k j) = RUNNING"
      by (auto simp: k')
    with inv obtain c' where "running k c' j" by (auto simp: cpu_inv_def)
    with 2 j(2) show "\<exists>c'. c' \<noteq> c \<and> running k c' j" by (intro exI [of _ c']) auto
  qed
qed

section \<open>Every operation keeps it\<close>

lemma cpu_inv_boot: "userinit cfg tf pt root procinit = Some k \<Longrightarrow> cpu_inv k"
proof -
  assume a: "userinit cfg tf pt root procinit = Some k"
  have n: "ptable procinit = replicate NPROC free_proc"
    "cpus procinit = replicate NCPU \<lparr>cproc = None, spc = SScan 0 None\<rparr>"
    by (simp_all add: procinit_def)
  have "cpu_inv procinit"
    by (auto simp: cpu_inv_def running_def n pc_ok_def free_proc_def)
  then show ?thesis
    by (rule cpu_inv_frame)
      (use a in \<open>auto simp: userinit_def allocproc_def allocpid_def Let_def n enqueue_slot nth_modify_any
        fresh_fields_def free_proc_def split: option.splits if_splits\<close>)
qed

lemma cpu_inv_sched_step:
  assumes inv: "cpu_inv k" and c: "c < length (cpus k)" "cproc (cpus k ! c) = None"
  shows "cpu_inv (sched_step cfg c k)"
proof (cases "spc (cpus k ! c)")
  case (SScan i best)
  have "pc_ok (length (ptable k)) (SScan i best)"
    using inv c SScan by (auto simp: cpu_inv_def)
  then show ?thesis
    using SScan inv c
    by (auto simp: sched_step_def scan_slot_def pc_ok_def Let_def
        intro!: cpu_inv_idle cpu_inv_dispatch split: option.splits)
next
  case (SDispatch b)
  then have "b < length (ptable k)"
    using inv c by (auto simp: cpu_inv_def pc_ok_def)
  then show ?thesis
    using SDispatch inv c
    by (auto simp: sched_step_def pc_ok_def intro!: cpu_inv_idle cpu_inv_dispatch)
next
  case (SRun i)
  then show ?thesis using inv by (simp add: sched_step_def)
qed

lemma wakeup_RUNNING [simp]:
  "state (proc_at (wakeup cfg me ch k) j) = RUNNING \<longleftrightarrow> state (proc_at k j) = RUNNING"
  by (auto simp: wakeup_state sleeps_on_def)

lemma reparent_RUNNING [simp]:
  "state (proc_at (reparent cfg i k) j) = RUNNING \<longleftrightarrow> state (proc_at k j) = RUNNING"
  using reparent_state [of cfg i k j] by auto

lemma mlfq_boost_fields [simp]:
  "nextpid (mlfq_boost k) = nextpid k" "ticks (mlfq_boost k) = ticks k"
  "initproc (mlfq_boost k) = initproc k" "cpus (mlfq_boost k) = cpus k"
  "ftable (mlfq_boost k) = ftable k" "length (ptable (mlfq_boost k)) = length (ptable k)"
  by (simp_all add: mlfq_boost_def)

lemma update_times_fields [simp]:
  "nextpid (update_times k) = nextpid k" "ticks (update_times k) = ticks k"
  "initproc (update_times k) = initproc k" "cpus (update_times k) = cpus k"
  "ftable (update_times k) = ftable k" "length (ptable (update_times k)) = length (ptable k)"
  by (simp_all add: update_times_def)

lemma tick_slot [simp]:
  assumes "j < length (ptable k)"
  shows "state (proc_at (mlfq_boost k) j) = state (proc_at k j)"
    "pid (proc_at (mlfq_boost k) j) = pid (proc_at k j)"
    "parent (proc_at (mlfq_boost k) j) = parent (proc_at k j)"
    "ofile (proc_at (mlfq_boost k) j) = ofile (proc_at k j)"
    "killed (proc_at (mlfq_boost k) j) = killed (proc_at k j)"
    "state (proc_at (update_times k) j) = state (proc_at k j)"
    "pid (proc_at (update_times k) j) = pid (proc_at k j)"
    "parent (proc_at (update_times k) j) = parent (proc_at k j)"
    "ofile (proc_at (update_times k) j) = ofile (proc_at k j)"
    "killed (proc_at (update_times k) j) = killed (proc_at k j)"
  using assms by (simp_all add: mlfq_boost_def update_times_def)

lemma clockintr_fields [simp]:
  "nextpid (clockintr cfg c k) = nextpid k" "initproc (clockintr cfg c k) = initproc k"
  "cpus (clockintr cfg c k) = cpus k" "ftable (clockintr cfg c k) = ftable k"
  "length (ptable (clockintr cfg c k)) = length (ptable k)"
  by (simp_all add: clockintr_def Let_def)

lemma clockintr_slot:
  assumes "j < length (ptable k)"
  shows "pid (proc_at (clockintr cfg c k) j) = pid (proc_at k j)"
    "parent (proc_at (clockintr cfg c k) j) = parent (proc_at k j)"
    "ofile (proc_at (clockintr cfg c k) j) = ofile (proc_at k j)"
    "killed (proc_at (clockintr cfg c k) j) = killed (proc_at k j)"
    "state (proc_at (clockintr cfg c k) j) =
       (if c = 0 then state (proc_at (wakeup cfg (cproc (cpus k ! c)) (Some ChanTicks)
          (k\<lparr>ticks := ticks k + 1\<rparr>)) j) else state (proc_at k j))"
  using assms by (simp_all add: clockintr_def Let_def)

lemma cpu_inv_clockintr:
  assumes "cpu_inv k" shows "cpu_inv (clockintr cfg c k)"
  by (rule cpu_inv_frame [OF assms]) (simp_all add: clockintr_slot)

lemma running_clockintr [simp]: "running (clockintr cfg c k) = running k"
  by (intro ext) (simp add: running_def)

lemma cpu_inv_yield:
  assumes "cpu_inv k" "running k c i" "yield cfg c i k = Inr k'"
  shows "cpu_inv k'"
  by (rule cpu_inv_sched [OF assms(1,2) _ assms(3) [unfolded yield_def]])
    (use cpu_inv_running [OF assms(1,2)] in \<open>auto simp: left_by_def enqueue_slot\<close>)

lemma cpu_inv_timer:
  assumes "cpu_inv k" "c < length (cpus k)" "timer_trap cfg c k = Inr k'"
  shows "cpu_inv k'"
proof -
  let ?k = "clockintr cfg c k"
  have inv: "cpu_inv ?k" by (rule cpu_inv_clockintr [OF assms(1)])
  show ?thesis
  proof (cases "cproc (cpus k ! c)")
    case None
    with assms(3) inv show ?thesis by (simp add: timer_trap_def)
  next
    case (Some i)
    with assms(2) have run: "running ?k c i" by (simp add: running_def)
    have inv': "cpu_inv (upd i mlfq_charge ?k)"
      by (rule cpu_inv_frame [OF inv]) auto
    have run': "running (upd i mlfq_charge ?k) c i"
      using run by (simp add: running_def)
    show ?thesis
      using assms(3) Some cpu_inv_yield [OF inv run] cpu_inv_yield [OF inv' run'] inv'
      by (auto simp: timer_trap_def mlfq_tick_def Let_def split: if_splits)
  qed
qed

lemma cpu_inv_sleep:
  assumes "cpu_inv k" "running k c i" "sleep cfg c i ch k = Inr k'"
  shows "cpu_inv k'"
  by (rule cpu_inv_sched [OF assms(1,2) _ assms(3) [unfolded sleep_def]])
    (use cpu_inv_running [OF assms(1,2)] in \<open>auto simp: left_by_def Let_def\<close>)

lemma cpu_inv_kill:
  assumes "cpu_inv k" "kkill cfg n k = (k', r)"
  shows "cpu_inv k'"
  by (rule cpu_inv_frame [OF assms(1)])
    (use assms(2) in \<open>auto simp: kkill_def Let_def enqueue_slot split: option.splits if_splits\<close>)

lemma allocproc_cases:
  assumes "allocproc cfg tf pt k = (k', r)"
  obtains "k' = k" "r = None"
  | i f where "i < length (ptable k)" "state (proc_at k i) = UNUSED" "r = None"
      "nextpid k' = nextpid k + 1" "cpus k' = cpus k" "ftable k' = ftable k" "initproc k' = initproc k"
      "ptable k' = modify i (\<lambda>p. freeproc_fields cfg (f p)) (ptable k)" "\<And>p. ofile (f p) = ofile p"
  | i f where "i < length (ptable k)" "state (proc_at k i) = UNUSED" "r = Some i"
      "nextpid k' = nextpid k + 1" "cpus k' = cpus k" "ftable k' = ftable k" "initproc k' = initproc k"
      "ptable k' = modify i f (ptable k)" "\<And>p. state (f p) = USED" "\<And>p. pid (f p) = nextpid k"
      "\<And>p. parent (f p) = parent p" "\<And>p. ofile (f p) = ofile p" "\<And>p. killed (f p) = killed p"
proof (cases "find_idx (\<lambda>p. state p = UNUSED) (ptable k)")
  case None
  with assms that(1) show ?thesis by (simp add: allocproc_def)
next
  case (Some i)
  note i = find_idx_SomeD(1,2) [OF Some]
  have mm: "modify i f (modify i g xs) = modify i (\<lambda>x. f (g x)) xs" for f g and xs :: "proc list"
    by (rule nth_equalityI) auto
  let ?f = "\<lambda>p. p\<lparr>pid := nextpid k, state := USED, p_trapframe := tf\<rparr>"
  show ?thesis
  proof (cases "tf = None \<or> pt = 0")
    case True
    then show ?thesis
      using assms Some i
        that(2) [of i "if tf = None then ?f else (\<lambda>p. (?f p)\<lparr>pagetable := pt\<rparr>)"]
      by (auto simp: allocproc_def allocpid_def Let_def mm split: if_splits)
  next
    case False
    then show ?thesis
      using assms Some i
        that(3) [of i "\<lambda>p. fresh_fields cfg (ticks k) ((?f p)\<lparr>pagetable := pt\<rparr>)"]
      by (auto simp: allocproc_def allocpid_def Let_def mm)
  qed
qed

lemma cpu_inv_fork:
  assumes "cpu_inv k" "kfork cfg tf pt uvm i k = Inr (k', r)"
  shows "cpu_inv k'"
proof -
  obtain k1 r1 where a: "allocproc cfg tf pt k = (k1, r1)" by fastforce
  from a have k1: "cpu_inv k1 \<and> (\<forall>j. r1 = Some j \<longrightarrow> j < length (ptable k1) \<and> state (proc_at k1 j) = USED)"
    by (cases rule: allocproc_cases)
      (use assms(1) in \<open>auto intro!: cpu_inv_frame [OF assms(1)] split: if_splits\<close>)
  show ?thesis
    by (rule cpu_inv_frame [OF conjunct1 [OF k1]])
      (use assms(2) a k1 in \<open>auto simp: kfork_def bindR_Inr Let_def enqueue_slot fork_fields_def
        split: option.splits if_splits\<close>)
qed

lemma cpu_inv_exit:
  assumes "cpu_inv k" "running k c i" "kexit cfg c i st k = Inr k'"
  shows "cpu_inv k'"
proof -
  note r = cpu_inv_running [OF assms(1,2)]
  have "left_by k i (exit_zombie cfg i st (exit_release i ft ops k))" for ft ops
    unfolding left_by_def
  proof (intro conjI allI impI)
    fix j assume "j < length (ptable k)" "j \<noteq> i"
    then show "state (proc_at (exit_zombie cfg i st (exit_release i ft ops k)) j) = RUNNING
        \<longleftrightarrow> state (proc_at k j) = RUNNING"
      using exit_zombie_state(2) [of i "exit_release i ft ops k" j cfg st] r by auto
  qed (use r in \<open>simp_all add: exit_zombie_state\<close>)
  with assms show ?thesis
    by (auto simp: kexit_def bindR_Inr split: if_splits intro: cpu_inv_sched)
qed

lemma cpu_inv_freeproc_zombie:
  assumes "cpu_inv k" "state (proc_at k j) = ZOMBIE"
  shows "cpu_inv (freeproc cfg j k)"
  by (rule cpu_inv_frame [OF assms(1)]) (use assms(2) in auto)

lemma cpu_inv_wait:
  assumes "cpu_inv k" "running k c i" "kwait cfg c i addr ok k = Inr (k', w)"
  shows "cpu_inv k'"
proof (cases "find_idx (\<lambda>p. parent p = Some i \<and> state p = ZOMBIE) (ptable k)")
  case None
  with assms show ?thesis
    by (auto simp: kwait_def bindR_Inr split: if_splits elim: cpu_inv_sleep)
next
  case (Some j)
  with find_idx_SomeD(2) [OF Some] assms show ?thesis
    by (auto simp: kwait_def split: if_splits intro: cpu_inv_freeproc_zombie)
qed

section \<open>Calls that change only files\<close>

definition no_files :: "proc \<Rightarrow> proc" where
  "no_files p = p\<lparr>ofile := [], cwd := None\<rparr>"

definition sans_files :: "kernel \<Rightarrow> kernel" where
  "sans_files k = k\<lparr>ptable := map no_files (ptable k), ftable := [], kops := []\<rparr>"

lemma no_files_fields [simp]:
  "state (no_files p) = state p" "pid (no_files p) = pid p" "parent (no_files p) = parent p"
  "killed (no_files p) = killed p"
  by (simp_all add: no_files_def)

lemma sans_files_fields:
  assumes "sans_files k' = sans_files k"
  shows "cpus k' = cpus k" "nextpid k' = nextpid k" "initproc k' = initproc k"
    "length (ptable k') = length (ptable k)"
    "j < length (ptable k) \<Longrightarrow> state (proc_at k' j) = state (proc_at k j)"
    "j < length (ptable k) \<Longrightarrow> pid (proc_at k' j) = pid (proc_at k j)"
    "j < length (ptable k) \<Longrightarrow> parent (proc_at k' j) = parent (proc_at k j)"
proof -
  from assms have eq: "map no_files (ptable k') = map no_files (ptable k)"
    "cpus k' = cpus k" "nextpid k' = nextpid k" "initproc k' = initproc k"
    by (auto simp: sans_files_def dest: arg_cong [where f = cpus] arg_cong [where f = nextpid]
        arg_cong [where f = initproc] arg_cong [where f = ptable])
  from eq show "cpus k' = cpus k" "nextpid k' = nextpid k" "initproc k' = initproc k" by simp_all
  from eq(1) show len: "length (ptable k') = length (ptable k)" by (rule map_eq_imp_length_eq)
  assume j: "j < length (ptable k)"
  with eq(1) len have "no_files (proc_at k' j) = no_files (proc_at k j)" by (metis nth_map)
  then show "state (proc_at k' j) = state (proc_at k j)" "pid (proc_at k' j) = pid (proc_at k j)"
    "parent (proc_at k' j) = parent (proc_at k j)"
    by (metis no_files_fields)+
qed

lemma sans_files_upd:
  "(\<And>p. no_files (f p) = no_files p) \<Longrightarrow> sans_files (upd i f k) = sans_files k"
  by (simp add: sans_files_def upd_def map_modify_frame)

lemma sans_files_prims [simp]:
  "sans_files (log_kops ops k) = sans_files k" "sans_files (k\<lparr>ftable := ft\<rparr>) = sans_files k"
  "sans_files (upd i (\<lambda>p. p\<lparr>cwd := d\<rparr>) k) = sans_files k"
  "sans_files (clear_fd i fd k) = sans_files k"
  by (simp_all add: clear_fd_def sans_files_upd no_files_def)
    (simp_all add: sans_files_def log_kops_def)

lemma sans_files_kfile:
  "kfiledup f k = Inr k1 \<Longrightarrow> sans_files k1 = sans_files k"
  "kfileclose f k = Inr k1 \<Longrightarrow> sans_files k1 = sans_files k"
  "fdalloc i f k = Some (k1, fd') \<Longrightarrow> sans_files k1 = sans_files k"
  "close_both f g k = Inr (k1, r) \<Longrightarrow> sans_files k1 = sans_files k"
  by (auto simp: kfiledup_def kfileclose_def fdalloc_def close_both_def bindR_Inr sans_files_upd
      no_files_def split: option.splits)

lemma sans_files_dup: "sys_dup i fd k = Inr (k', r) \<Longrightarrow> sans_files k' = sans_files k"
  by (auto simp: sys_dup_def bindR_Inr split: option.splits dest!: sans_files_kfile)

lemma sans_files_close: "sys_close i fd k = Inr (k', r) \<Longrightarrow> sans_files k' = sans_files k"
  by (auto simp: sys_close_def bindR_Inr split: option.splits dest!: sans_files_kfile)

lemma sans_files_chdir: "sys_chdir i path dir k = (k', r) \<Longrightarrow> sans_files k' = sans_files k"
  by (auto simp: sys_chdir_def Let_def split: option.splits if_splits)

lemma sans_files_open: "sys_open i path omode ino k = Inr (k', r) \<Longrightarrow> sans_files k' = sans_files k"
  by (auto simp: sys_open_def open_fail_def bindR_Inr Let_def split: option.splits if_splits
      dest!: sans_files_kfile)

lemma sans_files_pipe:
  assumes "sys_pipe i page copied k = Inr (k', r)"
  shows "sans_files k' = sans_files k"
proof -
  from assms obtain k1 ends where p: "pipealloc page k = Inr (k1, ends)"
    by (auto simp: sys_pipe_def bindR_Inr)
  then have "sans_files k1 = sans_files k"
    by (auto simp: pipealloc_def bindR_Inr split: option.splits dest!: sans_files_kfile)
  with assms p show ?thesis
    by (auto simp: sys_pipe_def split: option.splits prod.splits if_splits dest!: sans_files_kfile)
qed

lemmas sans_files_calls =
  sans_files_dup sans_files_close sans_files_chdir sans_files_open sans_files_pipe

lemma cpu_inv_files:
  assumes "cpu_inv k" "sans_files k' = sans_files k"
  shows "cpu_inv k'"
  by (rule cpu_inv_frame [OF assms(1)]) (simp_all add: sans_files_fields [OF assms(2)])

section \<open>Reachable states\<close>

lemma cpu_inv_step:
  assumes "kstep cfg k k'" "cpu_inv k" shows "cpu_inv k'"
  using assms
proof (cases rule: kstep.cases)
  case (k_wakeup c ch)
  then show ?thesis using assms(2) by (auto intro: cpu_inv_frame [where k = k])
next
  case (k_resume c i)
  then show ?thesis using assms(2) by (auto simp: sleep_resume_def intro!: cpu_inv_frame [where k = k] split: if_splits)
next
  case (k_setkilled c i)
  then show ?thesis using assms(2) by (auto simp: setkilled_def intro!: cpu_inv_frame [where k = k] split: if_splits)
qed (auto intro: cpu_inv_sched_step cpu_inv_timer cpu_inv_sleep cpu_inv_kill cpu_inv_fork
    cpu_inv_exit cpu_inv_wait cpu_inv_files dest: sans_files_calls)

lemma reachable_cpu_inv: "reachable cfg k \<Longrightarrow> cpu_inv k"
  by (induction rule: reachable.induct) (auto intro: cpu_inv_boot cpu_inv_step)

context slot_contract
begin

lemma keeps_step:
  assumes "kstep cfg k k'" "cpu_inv k" "all_slots I k"
  shows "all_slots I k'"
  using assms(1)
proof (cases rule: kstep.cases)
  case (k_resume c i)
  then show ?thesis using assms(3) by (auto simp: sleep_resume_def intro!: all_slots_upd awake)
next
  case (k_setkilled c i)
  then show ?thesis using assms(3) by (auto simp: setkilled_def intro!: all_slots_upd kill)
next
  case (k_fork c i tf pt uvm r)
  then show ?thesis using assms(2,3) by (auto intro: keeps_fork dest: cpu_inv_running)
qed (use assms(3) in \<open>auto intro: keeps_ops\<close>)

theorem reachable_slots: "reachable cfg k \<Longrightarrow> all_slots I k"
  by (induction rule: reachable.induct)
    (auto intro: keeps_userinit keeps_step reachable_cpu_inv)

end

section \<open>Properties\<close>

text \<open>
  C3: in every reachable state of every build, the processes in state RUNNING
  are exactly the ones some CPU has switched to, and each of them is on one CPU
  only: no process ever runs twice at the same time.
\<close>

theorem running_on_exactly_one_cpu:
  assumes "reachable cfg k" "i < length (ptable k)"
  shows "state (proc_at k i) = RUNNING \<longleftrightarrow> (\<exists>!c. c < length (cpus k) \<and> cproc (cpus k ! c) = Some i)"
proof -
  note inv = reachable_cpu_inv [OF assms(1)]
  have "state (proc_at k i) = RUNNING \<longleftrightarrow> (\<exists>!c. running k c i)"
    using inv assms(2) unfolding cpu_inv_def by blast
  then show ?thesis by (simp add: running_def)
qed

lemma reachable_boot_kernel: "reachable cfg (boot_kernel cfg)"
proof -
  have "\<exists>tf. userinit cfg tf 1 0 procinit = Some (boot_kernel cfg)"
    by (auto simp: boot_kernel_def userinit_def allocproc_procinit)
  then show ?thesis by (auto intro: reachable.r_boot)
qed

theorem running_on_exactly_one_cpu_witness:
  "reachable USE_MLFQ (boot_kernel USE_MLFQ) \<and> 0 < length (ptable (boot_kernel USE_MLFQ))
   \<and> \<not> (\<exists>!c. c < length (cpus (boot_kernel USE_MLFQ)) \<and> cproc (cpus (boot_kernel USE_MLFQ) ! c) = Some 0)"
  using running_on_exactly_one_cpu [of USE_MLFQ "boot_kernel USE_MLFQ" 0]
  by (simp add: reachable_boot_kernel boot_kernel_state)

text \<open>
  the checks in \<open>sched()\<close> never fail on the way out of a timer interrupt,
  \<open>sleep\<close> or \<open>yield\<close>: from every reachable state these operations return.
\<close>

theorem timer_and_sleep_never_panic:
  assumes "reachable cfg k" "c < length (cpus k)"
  shows "(\<exists>k'. timer_trap cfg c k = Inr k')
    \<and> (\<forall>i ch. cproc (cpus k ! c) = Some i \<longrightarrow> (\<exists>k'. sleep cfg c i ch k = Inr k')
         \<and> (\<exists>k'. yield cfg c i k = Inr k'))"
proof -
  have y: "\<exists>k'. yield cfg c i k1 = Inr k'" if "i < length (ptable k1)" for cfg i k1
    using that by (auto simp: yield_def sched_locked_Inr enqueue_slot)
  have r: "i < length (ptable k)" if "cproc (cpus k ! c) = Some i" for i
    using cpu_inv_running(2) [OF reachable_cpu_inv [OF assms(1)], of c i] that assms(2)
    by (simp add: running_def)
  have "\<exists>k'. sleep cfg c i ch k = Inr k'" if "cproc (cpus k ! c) = Some i" for i ch
    using r [OF that] by (auto simp: sleep_def sched_locked_Inr Let_def)
  moreover have "\<exists>k'. timer_trap cfg c k = Inr k'"
    using r y by (auto simp: timer_trap_def mlfq_tick_def Let_def split: option.split)
  ultimately show ?thesis using r y by blast
qed

theorem timer_and_sleep_never_panic_witness:
  "reachable USE_FCFS (boot_kernel USE_FCFS) \<and> 0 < length (cpus (boot_kernel USE_FCFS))
   \<and> (\<exists>k'. timer_trap USE_FCFS 0 (boot_kernel USE_FCFS) = Inr k')"
  using timer_and_sleep_never_panic [of USE_FCFS "boot_kernel USE_FCFS" 0]
  by (simp add: reachable_boot_kernel boot_kernel_state)

section \<open>A kernel that runs its first process\<close>

lemma reachable_scan_dispatch:
  assumes r: "reachable cfg k" and "cfg \<noteq> USE_RR" "c < length (cpus k)" "spc (cpus k ! c) = SScan 0 None"
    "cproc (cpus k ! c) = None"
    and best: "fold (scan_slot cfg k) [0..<length (ptable k)] None = Some (b, x, y)"
    and run: "runnable k b"
  shows "reachable cfg (dispatch c b k)"
proof -
  let ?n = "length (ptable k)"
  let ?it = "\<lambda>n. (sched_step cfg c ^^ n) k"
  note pre = sched_scan_prefix [OF assms(2-5)]
  have step: "reachable cfg (sched_step cfg c k1)"
    if "reachable cfg k1" "cproc (cpus k1 ! c) = None" "length (cpus k1) = length (cpus k)" for k1
    using that assms(3) by (intro reachable.r_step [OF that(1)] kstep.k_sched) simp_all
  have it: "reachable cfg (?it n)" if "n \<le> ?n" for n
    using that
  proof (induction n)
    case (Suc n)
    then show ?case using pre [of n] assms(3) step [of "?it n"] by simp
  qed (simp add: r)
  have 1: "reachable cfg (sched_step cfg c (?it ?n))"
    using step [OF it [OF order_refl]] pre [OF order_refl] assms(3) by simp
  have "sched_step cfg c (?it ?n) = set_cpu c \<lparr>cproc = None, spc = SDispatch b\<rparr> k"
    using pre [OF order_refl] best assms(3) by (simp add: sched_step_def)
  then have "reachable cfg (sched_step cfg c (sched_step cfg c (?it ?n)))"
    using step [OF 1] assms(3) by simp
  then show ?thesis
    using sched_scan_dispatch [OF assms(2-5) best run] by simp
qed

definition run_kernel :: "sched_cfg \<Rightarrow> kernel" where
  "run_kernel cfg = dispatch 0 0 (boot_kernel cfg)"

lemma boot_kernel_runnable:
  assumes "j < 64" shows "runnable (boot_kernel cfg) j \<longleftrightarrow> j = 0"
proof -
  have "state (ptable procinit ! j) = UNUSED"
    using assms by (simp add: procinit_def NPROC_def free_proc_def)
  with assms show ?thesis
    by (auto simp: runnable_def boot_kernel_def userinit_def allocproc_procinit enqueue_slot nth_modify_any)
      (simp_all add: procinit_def NPROC_def)
qed

lemma reachable_run_kernel: "reachable USE_MLFQ (run_kernel USE_MLFQ)"
proof -
  let ?k = "boot_kernel USE_MLFQ"
  have 0: "runnable ?k 0" by (simp add: boot_kernel_runnable)
  obtain b where scan: "fold (scan_slot USE_MLFQ ?k) [0..<length (ptable ?k)] None = Some (candidate ?k b)"
    and "mlfq_scan.first_least ?k (length (ptable ?k)) b"
    by (rule mlfq_scan.scan_picks [of 0 "length (ptable ?k)" ?k]) (simp_all add: 0 boot_kernel_state)
  then have "b = 0"
    using boot_kernel_runnable [of b USE_MLFQ]
    by (auto simp: mlfq_scan.first_least_def boot_kernel_state)
  then show ?thesis
    unfolding run_kernel_def using scan 0
    by (intro reachable_scan_dispatch [OF reachable_boot_kernel])
      (auto simp: boot_kernel_state candidate_def)
qed

lemma run_kernel_state:
  "length (cpus (run_kernel cfg)) = 8" "length (ptable (run_kernel cfg)) = 64"
  "cproc (cpus (run_kernel cfg) ! 0) = Some 0" "running (run_kernel cfg) 0 0"
  by (simp_all add: run_kernel_def boot_kernel_state running_def)

end
