(* ===== verification/Kernel_Trace.thy ===== *)
theory Kernel_Trace
  imports Cpu_Inv
begin

text \<open>
  A concrete run of the round-robin kernel: init is dispatched, forks a child,
  waits for it, and the child is dispatched.  The states of the run are the
  concrete inputs at which the properties of the following theories are applied.
\<close>

definition tf0 :: trapframe where
  "tf0 = \<lparr>tf_epc = 0, tf_sp = 4096, tf_a0 = 0, tf_a1 = 0, tf_a2 = 0, tf_a7 = 0, tf_rest = []\<rparr>"

definition init_proc :: proc where
  "init_proc = free_proc\<lparr>pid := 1, state := RUNNING, p_trapframe := Some tf0, pagetable := 1, ctime := 0,
     first_run_time := 0, etime := -1, rtime := 0, wtime := 0, cwd := Some 0\<rparr>"

definition child_proc :: proc where
  "child_proc = free_proc\<lparr>pid := 2, state := RUNNABLE, p_trapframe := Some tf0, pagetable := 1, ctime := 0,
     first_run_time := -1, etime := -1, rtime := 0, wtime := 0, cwd := Some 0, parent := Some 0\<rparr>"

definition trace_run :: kernel where
  "trace_run = dispatch 0 0 (boot_kernel USE_RR)"

definition trace_fork :: kernel where
  "trace_fork = trace_run\<lparr>ptable := init_proc # child_proc # replicate 62 free_proc, nextpid := 3,
     kops := [OpIdup 0]\<rparr>"

definition trace_wait :: kernel where
  "trace_wait = set_cpu 0 \<lparr>cproc = None, spc = SScan 1 None\<rparr>
     (trace_fork\<lparr>ptable := init_proc\<lparr>chan := Some (ChanProc 0), state := SLEEPING\<rparr>
        # child_proc # replicate 62 free_proc\<rparr>)"

definition trace_child :: kernel where
  "trace_child = dispatch 0 1 trace_wait"

lemma table_split: "replicate 64 x = x # x # replicate 62 x"
  by (simp add: numeral_eq_Suc)

lemma boot_rr_table:
  "ptable (boot_kernel USE_RR) = init_proc\<lparr>state := RUNNABLE, first_run_time := -1\<rparr> # replicate 63 free_proc"
proof -
  have *: "replicate 64 x = x # replicate 63 x" for x :: proc
    by (simp add: numeral_eq_Suc)
  show ?thesis
    unfolding boot_kernel_def userinit_def allocproc_procinit
    by (simp add: enqueue_def procinit_def NPROC_def * modify_def init_proc_def fresh_fields_def tf0_def)
qed

lemma boot_rr_fields:
  "nextpid (boot_kernel USE_RR) = 2" "initproc (boot_kernel USE_RR) = Some 0" "ticks (boot_kernel USE_RR) = 0"
  "kops (boot_kernel USE_RR) = []"
  unfolding boot_kernel_def userinit_def allocproc_procinit
  by (simp_all add: enqueue_def procinit_def upd_def)

lemma trace_run_table: "ptable trace_run = init_proc # free_proc # replicate 62 free_proc"
proof -
  have "replicate 63 x = x # replicate 62 x" for x :: proc by (simp add: numeral_eq_Suc)
  then show ?thesis
    by (simp add: trace_run_def dispatch_def note_dispatch_def boot_rr_table modify_def boot_rr_fields
        init_proc_def free_proc_def)
qed

lemma trace_run_fields:
  "nextpid trace_run = 2" "initproc trace_run = Some 0" "ticks trace_run = 0" "kops trace_run = []"
  "cpus trace_run ! 0 = \<lparr>cproc = Some 0, spc = SRun 0\<rparr>" "length (cpus trace_run) = 8"
  by (simp_all add: trace_run_def boot_rr_fields boot_kernel_state)
    (simp_all add: dispatch_def note_dispatch_def set_cpu_def upd_def boot_rr_fields)

lemma reachable_trace_run: "reachable USE_RR trace_run"
proof -
  have "trace_run = sched_step USE_RR 0 (boot_kernel USE_RR)"
    by (simp add: trace_run_def sched_step_def boot_kernel_state)
  then show ?thesis
    using reachable.r_step [OF reachable_boot_kernel kstep.k_sched [of 0 "boot_kernel USE_RR" USE_RR]]
    by (simp add: boot_kernel_state)
qed

lemma trace_procs [simp]:
  "state init_proc = RUNNING" "state child_proc = RUNNABLE" "state free_proc = UNUSED"
  "parent init_proc = None" "parent child_proc = Some 0" "parent free_proc = None"
  "killed init_proc = 0" "pid init_proc = 1" "pid child_proc = 2" "pid free_proc = 0"
  "ofile init_proc = replicate 16 None" "ofile child_proc = replicate 16 None"
  "cwd init_proc = Some 0" "first_run_time child_proc = -1"
  by (simp_all add: init_proc_def child_proc_def free_proc_def NOFILE_def)

lemma dup_no_files: "dup_files (replicate n None) ft = Inr ft"
  by (induction n) simp_all

lemma child_proc_forked:
  "fork_fields init_proc 0 (fresh_fields USE_RR 0
     (free_proc\<lparr>pid := 2, state := USED, p_trapframe := Some tf0, pagetable := 1\<rparr>)) = child_proc"
  by (simp add: fork_fields_def fresh_fields_def child_proc_def init_proc_def free_proc_def tf0_def
      child_trapframe_def merge_ofile_def safestrcpy_name_def Let_def NOFILE_def numeral_eq_Suc)

lemma kfork_trace_run: "kfork USE_RR (Some tf0) 1 0 0 trace_run = Inr (trace_fork, 2)"
proof -
  let ?p = "fresh_fields USE_RR 0
     (free_proc\<lparr>pid := 2, state := USED, p_trapframe := Some tf0, pagetable := 1\<rparr>)"
  have a: "allocproc USE_RR (Some tf0) 1 trace_run =
      (trace_run\<lparr>nextpid := 3, ptable := init_proc # ?p # replicate 62 free_proc\<rparr>, Some 1)"
    by (simp add: allocproc_def trace_run_table trace_run_fields allocpid_def upd_def modify_def)
  show ?thesis
    by (simp add: kfork_def a dup_no_files bindR_def enqueue_def upd_def modify_def child_proc_forked
        trace_fork_def trace_run_fields)
qed

lemma trace_fork_fields:
  "cpus trace_fork = cpus trace_run" "initproc trace_fork = Some 0" "nextpid trace_fork = 3"
  "ticks trace_fork = 0" "ptable trace_fork = init_proc # child_proc # replicate 62 free_proc"
  by (simp_all add: trace_fork_def trace_run_fields)

lemma running_trace_run: "running trace_run 0 0"
  by (simp add: running_def trace_run_fields)

lemma reachable_trace_fork: "reachable USE_RR trace_fork"
  using reachable_trace_run kstep.k_fork [OF running_trace_run kfork_trace_run]
  by (rule reachable.r_step)

lemma kwait_trace_fork: "kwait USE_RR 0 0 0 True trace_fork = Inr (trace_wait, WaitSleep)"
proof -
  have "find_idx (\<lambda>p. parent p = Some 0 \<and> state p = ZOMBIE) (ptable trace_fork) = None"
    by (simp add: find_idx_None trace_fork_fields)
  then show ?thesis
    by (simp add: kwait_def trace_fork_fields bindR_def sleep_def sched_def trace_run_fields
        upd_def modify_def trace_wait_def)
qed

lemma reachable_trace_wait: "reachable USE_RR trace_wait"
proof -
  have "running trace_fork 0 0"
    by (simp add: running_def trace_fork_fields trace_run_fields)
  then show ?thesis
    by (rule reachable.r_step [OF reachable_trace_fork kstep.k_wait [OF _ kwait_trace_fork]])
qed

lemma trace_wait_fields:
  "cpus trace_wait ! 0 = \<lparr>cproc = None, spc = SScan 1 None\<rparr>" "length (cpus trace_wait) = 8"
  "initproc trace_wait = Some 0"
  "ptable trace_wait = init_proc\<lparr>chan := Some (ChanProc 0), state := SLEEPING\<rparr>
     # child_proc # replicate 62 free_proc"
  by (simp_all add: trace_wait_def trace_fork_fields trace_run_fields)

lemma reachable_trace_child: "reachable USE_RR trace_child"
proof -
  have "trace_child = sched_step USE_RR 0 trace_wait"
    by (simp add: trace_child_def sched_step_def trace_wait_fields)
  then show ?thesis
    using reachable.r_step [OF reachable_trace_wait kstep.k_sched [of 0 trace_wait USE_RR]]
    by (simp add: trace_wait_fields)
qed

lemma trace_child_state:
  "running trace_child 0 1" "initproc trace_child = Some 0" "length (ptable trace_child) = 64"
  "state (proc_at trace_child 0) = SLEEPING" "chan (proc_at trace_child 0) = Some (ChanProc 0)"
  "state (proc_at trace_child 1) = RUNNING" "parent (proc_at trace_child 1) = Some 0"
  "ofile (proc_at trace_child 1) = replicate 16 None"
  by (simp_all add: trace_child_def running_def trace_wait_fields dispatch_slot)

lemma close_no_files: "close_files (replicate n None) ft = Inr (ft, [])"
  by (induction n) simp_all

lemma kexit_trace_child: "\<exists>k'. kexit USE_RR 0 1 7 trace_child = Inr k'"
  by (auto simp: kexit_def trace_child_state close_no_files sched_locked_Inr exit_zombie_state
      simp del: One_nat_def)

end
