(* ===== verification/Proc_Inv.thy ===== *)
theory Proc_Inv
  imports Kernel_Trace
begin

text \<open>
  Process identity and the process tree: in every reachable state the live
  pids are distinct and the parent of every process is alive, because
  \<open>kexit\<close> hands the children of the exiting process to init.
\<close>

section \<open>The invariant\<close>

definition dead :: "procstate \<Rightarrow> bool" where
  "dead s \<longleftrightarrow> s = UNUSED \<or> s = ZOMBIE"

lemma dead_simps [simp]:
  "dead UNUSED" "dead ZOMBIE" "\<not> dead USED" "\<not> dead SLEEPING" "\<not> dead RUNNABLE" "\<not> dead RUNNING"
  by (simp_all add: dead_def)

definition pid_inv :: "kernel \<Rightarrow> bool" where
  "pid_inv k \<longleftrightarrow> 0 < nextpid k
   \<and> (\<forall>i < length (ptable k).
        if state (proc_at k i) = UNUSED then pid (proc_at k i) = 0
        else 0 < pid (proc_at k i) \<and> pid (proc_at k i) < nextpid k)
   \<and> (\<forall>i < length (ptable k). \<forall>j < length (ptable k).
        state (proc_at k i) \<noteq> UNUSED \<and> pid (proc_at k i) = pid (proc_at k j) \<longrightarrow> i = j)"

definition tree_inv :: "kernel \<Rightarrow> bool" where
  "tree_inv k \<longleftrightarrow>
     (\<exists>r. initproc k = Some r \<and> r < length (ptable k) \<and> \<not> dead (state (proc_at k r))
        \<and> parent (proc_at k r) = None
        \<and> (\<forall>j < length (ptable k). j \<noteq> r \<longrightarrow>
             (state (proc_at k j) = UNUSED \<longleftrightarrow> parent (proc_at k j) = None)))
   \<and> (\<forall>j < length (ptable k). \<forall>i. parent (proc_at k j) = Some i \<longrightarrow>
        i < length (ptable k) \<and> \<not> dead (state (proc_at k i)))"

definition proc_inv :: "kernel \<Rightarrow> bool" where
  "proc_inv k \<longleftrightarrow> pid_inv k \<and> tree_inv k"

text \<open>What the two halves read of a slot.\<close>

definition ident :: "proc \<Rightarrow> int \<times> nat option \<times> bool \<times> bool" where
  "ident p = (pid p, parent p, state p = UNUSED, state p = ZOMBIE)"

lemma proc_inv_frame:
  assumes "proc_inv k" "nextpid k' = nextpid k" "initproc k' = initproc k"
    "length (ptable k') = length (ptable k)"
    "\<And>j. j < length (ptable k) \<Longrightarrow> ident (proc_at k' j) = ident (proc_at k j)"
  shows "proc_inv k'"
proof -
  have s: "pid (proc_at k' j) = pid (proc_at k j)" "parent (proc_at k' j) = parent (proc_at k j)"
    "state (proc_at k' j) = UNUSED \<longleftrightarrow> state (proc_at k j) = UNUSED"
    "dead (state (proc_at k' j)) \<longleftrightarrow> dead (state (proc_at k j))"
    if "j < length (ptable k)" for j
    using assms(5) [OF that] by (auto simp: ident_def dead_def)
  have "pid_inv k'"
    using assms(1) unfolding proc_inv_def pid_inv_def assms(2,4) by (simp add: s)
  moreover have "tree_inv k'"
    using assms(1) unfolding proc_inv_def tree_inv_def assms(3,4) by (auto simp: s)
  ultimately show ?thesis by (simp add: proc_inv_def)
qed

lemma pid_inv_alloc:
  assumes "pid_inv k" "i < length (ptable k)" "state (proc_at k i) = UNUSED"
    "length (ptable k') = length (ptable k)" "nextpid k' = nextpid k + 1"
    "\<And>j. j < length (ptable k) \<Longrightarrow> j \<noteq> i \<Longrightarrow> proc_at k' j = proc_at k j"
    "if state (proc_at k' i) = UNUSED then pid (proc_at k' i) = 0 else pid (proc_at k' i) = nextpid k"
  shows "pid_inv k'"
proof -
  have other: "state (proc_at k j) = UNUSED \<and> pid (proc_at k j) = 0
     \<or> state (proc_at k j) \<noteq> UNUSED \<and> 0 < pid (proc_at k j) \<and> pid (proc_at k j) < nextpid k"
    if "j < length (ptable k)" for j
    using assms(1) that by (auto simp: pid_inv_def split: if_splits)
  have uniq: "a = b" if "a < length (ptable k)" "b < length (ptable k)" "state (proc_at k a) \<noteq> UNUSED"
    "pid (proc_at k a) = pid (proc_at k b)" for a b
    using assms(1) that by (auto simp: pid_inv_def)
  have pos: "0 < nextpid k" using assms(1) by (simp add: pid_inv_def)
  show ?thesis
    unfolding pid_inv_def assms(4)
  proof (intro conjI allI impI)
    show "0 < nextpid k'" using pos assms(5) by simp
  next
    fix j assume j: "j < length (ptable k)"
    show "if state (proc_at k' j) = UNUSED then pid (proc_at k' j) = 0
        else 0 < pid (proc_at k' j) \<and> pid (proc_at k' j) < nextpid k'"
      using other [OF j] assms(5,6,7) j pos by (cases "j = i") (auto split: if_splits)
  next
    fix a b assume ab: "a < length (ptable k)" "b < length (ptable k)"
      "state (proc_at k' a) \<noteq> UNUSED \<and> pid (proc_at k' a) = pid (proc_at k' b)"
    show "a = b"
      using ab assms(6) [of a] assms(6) [of b] assms(7) other [of a] other [of b] uniq [of a b] pos
      by (cases "a = i"; cases "b = i") (auto split: if_splits)
  qed
qed

text \<open>A slot that is not anybody's parent may die or be taken over.\<close>

lemma tree_inv_slot:
  assumes "tree_inv k" "i < length (ptable k)" "initproc k \<noteq> Some i"
    "length (ptable k') = length (ptable k)" "initproc k' = initproc k"
    "\<And>j. j < length (ptable k) \<Longrightarrow> parent (proc_at k j) \<noteq> Some i"
    "\<And>j. j < length (ptable k) \<Longrightarrow> j \<noteq> i \<Longrightarrow> ident (proc_at k' j) = ident (proc_at k j)"
    "state (proc_at k' i) = UNUSED \<longleftrightarrow> parent (proc_at k' i) = None"
    "\<And>q. parent (proc_at k' i) = Some q \<Longrightarrow> q \<noteq> i \<and> q < length (ptable k) \<and> \<not> dead (state (proc_at k q))"
  shows "tree_inv k'"
proof -
  have s: "parent (proc_at k' j) = parent (proc_at k j)"
    "state (proc_at k' j) = UNUSED \<longleftrightarrow> state (proc_at k j) = UNUSED"
    "dead (state (proc_at k' j)) \<longleftrightarrow> dead (state (proc_at k j))"
    if "j < length (ptable k)" "j \<noteq> i" for j
    using assms(7) [OF that] by (auto simp: ident_def dead_def)
  obtain r where r: "initproc k = Some r" "r < length (ptable k)" "\<not> dead (state (proc_at k r))"
    "parent (proc_at k r) = None"
    "\<And>j. j < length (ptable k) \<Longrightarrow> j \<noteq> r \<Longrightarrow> state (proc_at k j) = UNUSED \<longleftrightarrow> parent (proc_at k j) = None"
    using assms(1) by (auto simp: tree_inv_def)
  have par: "q \<noteq> i \<and> q < length (ptable k) \<and> \<not> dead (state (proc_at k q))"
    if "j < length (ptable k)" "parent (proc_at k j) = Some q" for j q
    using assms(1) assms(6) [OF that(1)] that by (auto simp: tree_inv_def)
  have ri: "r \<noteq> i" using r(1) assms(3) by auto
  have "\<not> dead (state (proc_at k' q)) \<and> q < length (ptable k)"
    if "j < length (ptable k)" "parent (proc_at k' j) = Some q" for j q
    using par [of j q] that assms(9) [of q] s by (cases "j = i") auto
  moreover have "state (proc_at k' j) = UNUSED \<longleftrightarrow> parent (proc_at k' j) = None"
    if "j < length (ptable k)" "j \<noteq> r" for j
    using that r(5) [OF that] assms(8) s by (cases "j = i") auto
  ultimately show ?thesis
    unfolding tree_inv_def assms(4,5) using r(1-4) ri s by auto
qed

lemma tree_inv_dead:
  assumes "tree_inv k" "dead (state (proc_at k i))"
  shows "initproc k \<noteq> Some i" "j < length (ptable k) \<Longrightarrow> parent (proc_at k j) \<noteq> Some i"
  using assms by (auto simp: tree_inv_def)

section \<open>Every operation keeps it\<close>

lemma proc_inv_boot: "userinit cfg tf pt root procinit = Some k \<Longrightarrow> proc_inv k"
proof -
  assume a: "userinit cfg tf pt root procinit = Some k"
  have p: "ptable procinit = replicate NPROC free_proc" "nextpid procinit = 1" by (simp_all add: procinit_def)
  have f: "find_idx (\<lambda>p. state p = UNUSED) (replicate NPROC free_proc) = Some 0"
    by (rule find_idx_replicate) (simp_all add: NPROC_def free_proc_def)
  have fp: "state free_proc = UNUSED" "pid free_proc = 0" "parent free_proc = None"
    by (simp_all add: free_proc_def)
  have k: "ident (proc_at k j) = (if j = 0 then (1, None, False, False) else (0, None, True, False))"
    if "j < NPROC" for j
    using a that
    by (auto simp: userinit_def allocproc_def allocpid_def Let_def p f enqueue_slot nth_modify_any
        ident_def fp split: if_splits)
  have n: "nextpid k = 2" "initproc k = Some 0" "length (ptable k) = NPROC"
    using a by (auto simp: userinit_def allocproc_def allocpid_def Let_def p f split: if_splits)
  have s: "pid (proc_at k j) = (if j = 0 then 1 else 0)" "parent (proc_at k j) = None"
    "state (proc_at k j) = UNUSED \<longleftrightarrow> j \<noteq> 0" "dead (state (proc_at k j)) \<longleftrightarrow> j \<noteq> 0" if "j < NPROC" for j
    using k [OF that] by (auto simp: ident_def dead_def split: if_splits)
  have "0 < NPROC" by (simp add: NPROC_def)
  then show ?thesis
    unfolding proc_inv_def pid_inv_def tree_inv_def n by (auto simp: s split: if_splits)
qed

lemma ident_upd:
  assumes "\<And>p. ident (f p) = ident p" shows "ident (proc_at (upd i f k) j) = ident (proc_at k j)"
  using assms by (simp add: nth_modify_any)

lemma ident_wakeup [simp]: "ident (proc_at (wakeup cfg me ch k) j) = ident (proc_at k j)"
  by (auto simp: ident_def wakeup_state sleeps_on_def)

lemma ident_enqueue [simp]: "ident (proc_at (enqueue cfg i k) j) = ident (proc_at k j)"
  by (simp add: enqueue_slot ident_def)

lemma proc_inv_sched_step:
  assumes "proc_inv k" "cpu_inv k" "c < length (cpus k)" "cproc (cpus k ! c) = None"
  shows "proc_inv (sched_step cfg c k)"
proof -
  have d: "proc_inv (dispatch c b k)" if "state (proc_at k b) = RUNNABLE" for b
    by (rule proc_inv_frame [OF assms(1)])
      (use that in \<open>auto simp: dispatch_slot ident_def\<close>)
  have c: "proc_inv (set_cpu c s k)" for s
    by (rule proc_inv_frame [OF assms(1)]) simp_all
  show ?thesis
    using assms(1) by (auto simp: sched_step_def d c split: sched_pc.split option.split)
qed

text \<open>The running process moves to a state that is neither UNUSED nor ZOMBIE.\<close>

lemma proc_inv_sched:
  assumes "proc_inv k" "sched_locked cfg c i k1 = Inr k'" "nextpid k1 = nextpid k"
    "initproc k1 = initproc k" "length (ptable k1) = length (ptable k)"
    "\<And>j. j < length (ptable k) \<Longrightarrow> ident (proc_at k1 j) = ident (proc_at k j)"
  shows "proc_inv k'"
  by (rule proc_inv_frame [OF assms(1)]) (use assms(2-) in \<open>auto simp: sched_locked_Inr\<close>)

lemma proc_inv_yield:
  assumes "proc_inv k" "state (proc_at k i) = RUNNING" "yield cfg c i k = Inr k'"
  shows "proc_inv k'"
  by (rule proc_inv_sched [OF assms(1) assms(3) [unfolded yield_def]])
    (use assms(2) in \<open>auto simp: ident_def nth_modify_any enqueue_slot\<close>)

lemma proc_inv_sleep:
  assumes "proc_inv k" "state (proc_at k i) = RUNNING" "sleep cfg c i ch k = Inr k'"
  shows "proc_inv k'"
  by (rule proc_inv_sched [OF assms(1) assms(3) [unfolded sleep_def]])
    (use assms(2) in \<open>auto simp: ident_def nth_modify_any Let_def\<close>)

lemma proc_inv_timer:
  assumes "proc_inv k" "cpu_inv k" "c < length (cpus k)" "timer_trap cfg c k = Inr k'"
  shows "proc_inv k'"
proof -
  let ?k = "clockintr cfg c k"
  have id: "ident (proc_at ?k j) = ident (proc_at k j)" if "j < length (ptable k)" for j
    using that by (auto simp: ident_def clockintr_slot wakeup_state sleeps_on_def)
  have inv: "proc_inv ?k"
    by (rule proc_inv_frame [OF assms(1)]) (simp_all add: id)
  show ?thesis
  proof (cases "cproc (cpus k ! c)")
    case None
    with assms(4) inv show ?thesis by (simp add: timer_trap_def)
  next
    case (Some i)
    with assms(3) have run: "running ?k c i" by (simp add: running_def)
    have st: "state (proc_at ?k i) = RUNNING"
      using cpu_inv_running [OF cpu_inv_clockintr [OF assms(2)] run] by simp
    have inv': "proc_inv (upd i mlfq_charge ?k)"
      by (rule proc_inv_frame [OF inv]) (auto simp: ident_upd ident_def)
    have st': "state (proc_at (upd i mlfq_charge ?k) i) = RUNNING"
      using st by (simp add: nth_modify_any)
    show ?thesis
      using assms(4) Some proc_inv_yield [OF inv st] proc_inv_yield [OF inv' st'] inv'
      by (auto simp: timer_trap_def mlfq_tick_def Let_def split: if_splits)
  qed
qed

lemma proc_inv_kill:
  assumes "proc_inv k" "kkill cfg n k = (k', r)"
  shows "proc_inv k'"
  by (rule proc_inv_frame [OF assms(1)])
    (use assms(2) in \<open>auto simp: kkill_def Let_def ident_def nth_modify_any enqueue_slot
      split: option.splits if_splits\<close>)

lemma proc_inv_fork:
  assumes inv: "proc_inv k" and live: "i < length (ptable k)" "state (proc_at k i) = RUNNING"
    and f: "kfork cfg tf pt uvm i k = Inr (k', r)"
  shows "proc_inv k'"
proof -
  have pi: "pid_inv k" "tree_inv k" using inv by (simp_all add: proc_inv_def)
  obtain k1 r1 where a: "allocproc cfg tf pt k = (k1, r1)" by fastforce
  from a show ?thesis
  proof (cases rule: allocproc_cases)
    case 1
    then show ?thesis using f a inv by (simp add: kfork_def)
  next
    case (2 j g)
    then have k': "k' = k1" using f a by (simp add: kfork_def)
    have d: "dead (state (proc_at k j))" using 2 by simp
    have "pid_inv k1"
      by (rule pid_inv_alloc [OF pi(1) 2(1,2)]) (use 2 in simp_all)
    moreover have "tree_inv k1"
      by (rule tree_inv_slot [OF pi(2) 2(1) tree_inv_dead(1) [OF pi(2) d]])
        (use 2 tree_inv_dead(2) [OF pi(2) d] in simp_all)
    ultimately show ?thesis by (simp add: k' proc_inv_def)
  next
    case (3 j g)
    have d: "dead (state (proc_at k j))" using 3 by simp
    have ij: "i \<noteq> j" using live 3 by auto
    have k'j: "proc_at k' l = proc_at k l" if "l < length (ptable k)" "l \<noteq> j" for l
      using f a 3 that
      by (auto simp: kfork_def bindR_Inr Let_def enqueue_slot nth_modify_any split: if_splits)
    have fields: "nextpid k' = nextpid k + 1" "initproc k' = initproc k"
      "length (ptable k') = length (ptable k)"
      using f a 3 by (auto simp: kfork_def bindR_Inr Let_def split: if_splits)
    have new: "state (proc_at k' j) = UNUSED \<and> pid (proc_at k' j) = 0 \<and> parent (proc_at k' j) = None
      \<or> state (proc_at k' j) = RUNNABLE \<and> pid (proc_at k' j) = nextpid k \<and> parent (proc_at k' j) = Some i"
      using f a 3
      by (auto simp: kfork_def bindR_Inr Let_def enqueue_slot nth_modify_any fork_fields_def split: if_splits)
    have "pid_inv k'"
      by (rule pid_inv_alloc [OF pi(1) 3(1,2)]) (use fields k'j new in auto)
    moreover have "tree_inv k'"
      by (rule tree_inv_slot [OF pi(2) 3(1) tree_inv_dead(1) [OF pi(2) d]])
        (use fields k'j new live ij tree_inv_dead(2) [OF pi(2) d] in auto)
    ultimately show ?thesis by (simp add: proc_inv_def)
  qed
qed

text \<open>Exit: the children go to init first, then the slot becomes a ZOMBIE.\<close>

lemma pid_inv_frame:
  assumes "pid_inv k" "nextpid k' = nextpid k" "length (ptable k') = length (ptable k)"
    "\<And>j. j < length (ptable k) \<Longrightarrow> pid (proc_at k' j) = pid (proc_at k j)
       \<and> (state (proc_at k' j) = UNUSED \<longleftrightarrow> state (proc_at k j) = UNUSED)"
  shows "pid_inv k'"
  using assms(1) unfolding pid_inv_def assms(2,3) by (simp add: assms(4))

lemma proc_inv_exit:
  assumes inv: "proc_inv k" and i: "i < length (ptable k)" "state (proc_at k i) = RUNNING"
    and e: "kexit cfg c i st k = Inr k'"
  shows "proc_inv k'"
proof -
  have init: "initproc k \<noteq> Some i" using e by (auto simp: kexit_def)
  have p: "pid_inv k" and t: "tree_inv k" using inv by (simp_all add: proc_inv_def)
  from e obtain ft ops where
    s: "sched_locked cfg c i (exit_zombie cfg i st (exit_release i ft ops k)) = Inr k'"
    by (auto simp: kexit_def bindR_Inr split: if_splits)
  then have k': "nextpid k' = nextpid k" "initproc k' = initproc k" "length (ptable k') = length (ptable k)"
    "pid (proc_at k' j) = pid (proc_at k j)"
    "j < length (ptable k) \<Longrightarrow> parent (proc_at k' j) =
      (if parent (proc_at k j) = Some i then initproc k else parent (proc_at k j))" for j
    by (auto simp: sched_locked_Inr exit_zombie_parent)
  have st: "state (proc_at k' i) = ZOMBIE"
    "j \<noteq> i \<Longrightarrow> state (proc_at k' j) = state (proc_at k j)
      \<or> (state (proc_at k j) = SLEEPING \<and> state (proc_at k' j) = RUNNABLE)" for j
    using s exit_zombie_state [where k = "exit_release i ft ops k" and i = i and cfg = cfg and st = st] i
    by (auto simp: sched_locked_Inr)
  have un: "state (proc_at k' j) = UNUSED \<longleftrightarrow> state (proc_at k j) = UNUSED"
    and dd: "j \<noteq> i \<Longrightarrow> dead (state (proc_at k' j)) \<longleftrightarrow> dead (state (proc_at k j))" for j
    using i(2) st(1) st(2) [of j] by (cases "j = i"; auto)+
  have "pid_inv k'"
    by (rule pid_inv_frame [OF p]) (simp_all add: k' un)
  moreover obtain r where r: "initproc k = Some r" "r < length (ptable k)" "\<not> dead (state (proc_at k r))"
    "parent (proc_at k r) = None" "r \<noteq> i"
    "\<And>j. j < length (ptable k) \<Longrightarrow> j \<noteq> r \<Longrightarrow> state (proc_at k j) = UNUSED \<longleftrightarrow> parent (proc_at k j) = None"
    using t init by (auto simp: tree_inv_def)
  have "q < length (ptable k) \<and> \<not> dead (state (proc_at k' q))"
    if "j < length (ptable k)" "parent (proc_at k' j) = Some q" for j q
    using that t r(1-3,5) dd [of q] by (auto simp: k' tree_inv_def split: if_splits)
  then have "tree_inv k'"
    unfolding tree_inv_def k' using r by (auto simp: k' un dd)
  ultimately show ?thesis by (simp add: proc_inv_def)
qed

lemma proc_inv_wait:
  assumes inv: "proc_inv k" and i: "state (proc_at k i) = RUNNING"
    and w: "kwait cfg c i addr ok k = Inr (k', w)"
  shows "proc_inv k'"
proof (cases "find_idx (\<lambda>p. parent p = Some i \<and> state p = ZOMBIE) (ptable k)")
  case None
  with assms show ?thesis
    by (auto simp: kwait_def bindR_Inr split: if_splits elim: proc_inv_sleep)
next
  case (Some j)
  note j = find_idx_SomeD(1,2) [OF Some]
  have t: "tree_inv k" and p: "pid_inv k" using inv by (simp_all add: proc_inv_def)
  have d: "dead (state (proc_at k j))" using j by simp
  have "tree_inv (freeproc cfg j k)"
    by (rule tree_inv_slot [OF t j(1) tree_inv_dead(1) [OF t d]])
      (use tree_inv_dead(2) [OF t d] j in auto)
  moreover have "pid_inv (freeproc cfg j k)"
    using p j unfolding pid_inv_def by (auto simp: nth_modify_any split: if_splits)
  ultimately have "proc_inv (freeproc cfg j k)" by (simp add: proc_inv_def)
  with Some w inv show ?thesis by (auto simp: kwait_def split: if_splits)
qed

lemma proc_inv_files:
  assumes "proc_inv k" "sans_files k' = sans_files k"
  shows "proc_inv k'"
  by (rule proc_inv_frame [OF assms(1)]) (simp_all add: sans_files_fields [OF assms(2)] ident_def)

lemma proc_inv_step:
  assumes "kstep cfg k k'" "cpu_inv k" "proc_inv k" shows "proc_inv k'"
  using assms(1)
proof (cases rule: kstep.cases)
  case (k_wakeup c ch)
  then show ?thesis using assms(3) by (auto intro: proc_inv_frame [where k = k])
next
  case (k_resume c i)
  then show ?thesis using assms(3)
    by (auto simp: sleep_resume_def ident_def nth_modify_any intro: proc_inv_frame [where k = k])
next
  case (k_setkilled c i)
  then show ?thesis using assms(3)
    by (auto simp: setkilled_def ident_def nth_modify_any intro: proc_inv_frame [where k = k])
qed (use assms(2,3) in \<open>auto intro: proc_inv_sched_step proc_inv_timer proc_inv_sleep proc_inv_kill
    proc_inv_fork proc_inv_exit proc_inv_wait proc_inv_files dest: sans_files_calls
    cpu_inv_running(2,3)\<close>)

lemma reachable_proc_inv: "reachable cfg k \<Longrightarrow> proc_inv k"
  by (induction rule: reachable.induct)
    (auto intro: proc_inv_boot proc_inv_step reachable_cpu_inv)

section \<open>Properties\<close>

text \<open>
  in every reachable state two live processes never share a pid, live pids
  are positive and smaller than \<open>nextpid\<close>.
\<close>

theorem live_pids_distinct:
  assumes "reachable cfg k" "i < length (ptable k)" "state (proc_at k i) \<noteq> UNUSED"
  shows "0 < pid (proc_at k i) \<and> pid (proc_at k i) < nextpid k
    \<and> (\<forall>j < length (ptable k). pid (proc_at k j) = pid (proc_at k i) \<longrightarrow> j = i)"
proof -
  have p: "pid_inv k" using reachable_proc_inv [OF assms(1)] by (simp add: proc_inv_def)
  with assms(2,3) have "0 < pid (proc_at k i) \<and> pid (proc_at k i) < nextpid k"
    by (auto simp: pid_inv_def split: if_splits)
  moreover have "j = i" if "j < length (ptable k)" "pid (proc_at k j) = pid (proc_at k i)" for j
    using p assms(2,3) that unfolding pid_inv_def by metis
  ultimately show ?thesis by blast
qed

theorem live_pids_distinct_witness:
  "reachable USE_RR (boot_kernel USE_RR) \<and> 0 < length (ptable (boot_kernel USE_RR))
   \<and> state (proc_at (boot_kernel USE_RR) 0) \<noteq> UNUSED
   \<and> pid (proc_at (boot_kernel USE_RR) 63) \<noteq> pid (proc_at (boot_kernel USE_RR) 0)"
  using live_pids_distinct [of USE_RR "boot_kernel USE_RR" 0]
  by (auto simp: reachable_boot_kernel boot_kernel_state dest: spec [of _ 63])

text \<open>
  no process is orphaned: every process but init has a parent, and that
  parent is alive (it is neither a free slot nor a ZOMBIE).
\<close>

theorem parent_always_alive:
  assumes "reachable cfg k" "j < length (ptable k)" "state (proc_at k j) \<noteq> UNUSED" "initproc k \<noteq> Some j"
  shows "\<exists>i < length (ptable k). parent (proc_at k j) = Some i
    \<and> state (proc_at k i) \<noteq> UNUSED \<and> state (proc_at k i) \<noteq> ZOMBIE"
proof -
  have t: "tree_inv k" using reachable_proc_inv [OF assms(1)] by (simp add: proc_inv_def)
  with assms(2-4) obtain i where i: "parent (proc_at k j) = Some i"
    by (fastforce simp: tree_inv_def)
  with t assms(2) show ?thesis by (fastforce simp: tree_inv_def dead_def)
qed

theorem parent_always_alive_witness:
  "reachable USE_RR trace_child \<and> 1 < length (ptable trace_child)
   \<and> state (proc_at trace_child 1) \<noteq> UNUSED \<and> initproc trace_child \<noteq> Some 1
   \<and> (\<exists>i < length (ptable trace_child). parent (proc_at trace_child 1) = Some i)"
  using parent_always_alive [of USE_RR trace_child 1]
  by (auto simp: reachable_trace_child trace_child_state simp del: One_nat_def)

section \<open>wait finds what exit leaves\<close>

lemma find_idx_child:
  "j < length xs \<Longrightarrow> P (xs ! j) \<Longrightarrow> \<exists>m \<le> j. find_idx P xs = Some m \<and> P (xs ! m)"
  by (metis find_idx_None find_idx_SomeD(2,3) not_None_eq nth_mem leI)

text \<open>
  C4: exit and wait meet.  When the process in slot \<open>i\<close> exits, it becomes a
  ZOMBIE without children, its CPU is free, and a parent asleep in \<open>kwait\<close> is
  RUNNABLE; when the parent runs \<open>kwait\<close> again it does not sleep: it collects a
  ZOMBIE child of its own, frees that slot and returns the child's pid.
\<close>

theorem exit_then_wait:
  assumes "reachable cfg k" "running k c i" "parent (proc_at k i) = Some q"
    "state (proc_at k q) = SLEEPING" "chan (proc_at k q) = Some (ChanProc q)"
    "kexit cfg c i st k = Inr k'"
  shows "state (proc_at k' i) = ZOMBIE \<and> xstate (proc_at k' i) = st \<and> cproc (cpus k' ! c) = None
    \<and> (\<forall>j < length (ptable k'). parent (proc_at k' j) \<noteq> Some i)
    \<and> state (proc_at k' q) = RUNNABLE
    \<and> (\<exists>m \<le> i. parent (proc_at k' m) = Some q \<and> state (proc_at k' m) = ZOMBIE
         \<and> kwait cfg c' q 0 ok k' = Inr (freeproc cfg m k', WaitRet (pid (proc_at k' m)))
         \<and> state (proc_at (freeproc cfg m k') m) = UNUSED)"
proof -
  note inv = reachable_cpu_inv [OF assms(1)]
  note r = cpu_inv_running [OF inv assms(2)]
  have t: "tree_inv k" using reachable_proc_inv [OF assms(1)] by (simp add: proc_inv_def)
  with assms(3) r have q: "q < length (ptable k)" "q \<noteq> i" using assms(4)
    by (auto simp: tree_inv_def)
  have init: "initproc k \<noteq> Some i" using assms(6) by (auto simp: kexit_def)
  from assms(6) obtain ft ops where
    s: "sched_locked cfg c i (exit_zombie cfg i st (exit_release i ft ops k)) = Inr k'"
    by (auto simp: kexit_def bindR_Inr split: if_splits)
  let ?k = "exit_zombie cfg i st (exit_release i ft ops k)"
  have pt: "ptable k' = ptable ?k" "cproc (cpus k' ! c) = None"
    using s r by (auto simp: sched_locked_Inr)
  have z: "state (proc_at k' i) = ZOMBIE" "xstate (proc_at k' i) = st"
    using r by (auto simp: pt exit_zombie_def Let_def nth_modify_any)
  have par: "parent (proc_at k' j) = (if parent (proc_at k j) = Some i then initproc k else parent (proc_at k j))"
    if "j < length (ptable k)" for j
    using that by (simp add: pt exit_zombie_parent)
  have len: "length (ptable k') = length (ptable k)" by (simp add: pt)
  have "chan (proc_at (reparent cfg i k1) j) = chan (proc_at k1 j)" for k1 j
    by (rule reparent_chan)
  moreover have "state (proc_at (reparent cfg i (exit_release i ft ops k)) q) \<in> {SLEEPING, RUNNABLE}"
    using reparent_state [of cfg i "exit_release i ft ops k" q] assms(4) by auto
  ultimately have w: "state (proc_at k' q) = RUNNABLE"
    using q r assms(3-5)
    by (auto simp: pt exit_zombie_def Let_def nth_modify_any wakeup_state sleeps_on_def
        reparent_parent exit_release_slot)
  have pi: "parent (proc_at k' i) = Some q" using par [OF r(2)] assms(3) q by simp
  with z find_idx_child [of i "ptable k'" "\<lambda>p. parent p = Some q \<and> state p = ZOMBIE"] r len
  obtain m where m: "m \<le> i" "find_idx (\<lambda>p. parent p = Some q \<and> state p = ZOMBIE) (ptable k') = Some m"
    "parent (proc_at k' m) = Some q" "state (proc_at k' m) = ZOMBIE"
    by auto
  then have "kwait cfg c' q 0 ok k' = Inr (freeproc cfg m k', WaitRet (pid (proc_at k' m)))"
    "state (proc_at (freeproc cfg m k') m) = UNUSED"
    using r len by (simp_all add: kwait_def)
  with z w m pt(2) par len init show ?thesis by auto
qed

theorem exit_then_wait_witness:
  "\<exists>k'. reachable USE_RR trace_child \<and> running trace_child 0 1 \<and> parent (proc_at trace_child 1) = Some 0
   \<and> state (proc_at trace_child 0) = SLEEPING \<and> chan (proc_at trace_child 0) = Some (ChanProc 0)
   \<and> kexit USE_RR 0 1 7 trace_child = Inr k' \<and> state (proc_at k' 1) = ZOMBIE \<and> xstate (proc_at k' 1) = 7"
proof -
  obtain k' where k': "kexit USE_RR 0 1 7 trace_child = Inr k'" using kexit_trace_child by blast
  show ?thesis
    using exit_then_wait [of USE_RR trace_child 0 1 0 7 k'] k'
    by (auto simp: reachable_trace_child trace_child_state simp del: One_nat_def)
qed

section \<open>A kill that outlives its target\<close>

text \<open>
  C20: \<open>kkill(0)\<close> does not fail.  Free slots have pid 0, so it finds one, marks it
  killed and returns success; \<open>allocproc\<close> does not reset the mark, so the next
  process that is forked into that slot starts out killed.
\<close>

theorem kill_pid_zero_kills_next_child:
  assumes "reachable cfg k" "find_idx (\<lambda>p. state p = UNUSED) (ptable k) = Some j"
    "kfork cfg tf pt uvm i (fst (kkill cfg 0 k)) = Inr (k', r)" "0 < r"
  shows "snd (kkill cfg 0 k) = 0 \<and> pid (proc_at k' j) = r \<and> state (proc_at k' j) = RUNNABLE
    \<and> killed (proc_at k' j) = 1"
proof -
  have p: "pid_inv k" using reachable_proc_inv [OF assms(1)] by (simp add: proc_inv_def)
  note j = find_idx_SomeD [OF assms(2)]
  have u0: "pid (proc_at k l) = 0 \<longleftrightarrow> state (proc_at k l) = UNUSED" if "l < length (ptable k)" for l
    using p that by (auto simp: pid_inv_def split: if_splits)
  have "find_idx (\<lambda>p. pid p = 0) (ptable k) = Some j"
    by (rule find_idx_SomeI) (use j u0 in auto)
  then have kk: "kkill cfg 0 k = (upd j (\<lambda>p. p\<lparr>killed := 1\<rparr>) k, 0)"
    using j by (simp add: kkill_def)
  let ?k = "upd j (\<lambda>p. p\<lparr>killed := 1\<rparr>) k"
  have f: "find_idx (\<lambda>p. state p = UNUSED) (ptable ?k) = Some j"
    by (rule find_idx_SomeI) (use j in auto)
  show ?thesis
    using assms(3,4) j f kk
    by (auto simp: kfork_def allocproc_def allocpid_def Let_def bindR_Inr enqueue_slot nth_modify_any
        fork_fields_def split: if_splits)
qed

theorem kill_pid_zero_kills_next_child_witness:
  "reachable USE_RR trace_run \<and> find_idx (\<lambda>p. state p = UNUSED) (ptable trace_run) = Some 1
   \<and> (\<exists>k'. kfork USE_RR (Some tf0) 1 0 0 (fst (kkill USE_RR 0 trace_run)) = Inr (k', 2)
        \<and> killed (proc_at k' 1) = 1)"
proof -
  have "\<exists>k'. kfork USE_RR (Some tf0) 1 0 0 (fst (kkill USE_RR 0 trace_run)) = Inr (k', 2)"
    by (simp add: kfork_def kkill_def allocproc_def trace_run_table trace_run_fields allocpid_def upd_def
        modify_def dup_no_files bindR_def)
  then show ?thesis
    using kill_pid_zero_kills_next_child [of USE_RR trace_run 1 "Some tf0" 1 0 0]
    by (auto simp: reachable_trace_run trace_run_table)
qed

end
