(* ===== verification/Mlfq.thy ===== *)
theory Mlfq
  imports Cpu_Inv
begin

text \<open>
  The multi-level feedback queue.  The slot contract of \<open>Kernel_Steps\<close> is
  interpreted for the bounds of the queue number and of the used slice, and
  for the size of the table of open files; the properties state what a timer
  tick, the periodic boost and blocking do to a process's place in the queues.
\<close>

section \<open>Bounds of the bookkeeping fields\<close>

definition queue_ok :: "proc \<Rightarrow> bool" where
  "queue_ok p \<longleftrightarrow> 0 \<le> queue p \<and> queue p \<le> 3 \<and> 0 \<le> ticks_used p \<and> ticks_used p < slice_of (queue p)"

lemma slice_of_simps [simp]:
  "slice_of 0 = 1" "slice_of 1 = 4" "slice_of 2 = 8" "slice_of 3 = 16"
  by (simp_all add: slice_of_def time_slice_def)

lemma queue_cases: "0 \<le> q \<Longrightarrow> q \<le> 3 \<Longrightarrow> q = 0 \<or> q = 1 \<or> q = 2 \<or> q = (3::int)"
  by arith

lemma slice_of_pos: "0 \<le> q \<Longrightarrow> q \<le> 3 \<Longrightarrow> 0 < slice_of q"
  by (auto dest: queue_cases)

lemma queue_ok_charge: "queue_ok p \<Longrightarrow> queue_ok (mlfq_charge p)"
proof -
  assume p: "queue_ok p"
  then have "0 < slice_of (if queue p < 3 then queue p + 1 else queue p)"
    by (intro slice_of_pos) (auto simp: queue_ok_def)
  with p show ?thesis by (auto simp: queue_ok_def mlfq_charge_def Let_def)
qed

interpretation mlfq_slots: slot_contract USE_MLFQ queue_ok
proof
  show "queue_ok p \<Longrightarrow> queue_ok (p\<lparr>ticks_used := 0\<rparr>)" for p
    by (auto simp: queue_ok_def slice_of_pos)
  show "queue_ok p \<Longrightarrow> queue_ok (mlfq_charge p)" for p
    by (rule queue_ok_charge)
qed (auto simp: queue_ok_def free_proc_def fresh_fields_def freeproc_fields_def fork_fields_def Let_def)

definition files_ok :: "proc \<Rightarrow> bool" where
  "files_ok p \<longleftrightarrow> length (ofile p) = NOFILE"

interpretation file_slots: slot_contract cfg files_ok for cfg
  by unfold_locales
    (auto simp: files_ok_def free_proc_def fresh_fields_def freeproc_fields_def fork_fields_def
      merge_ofile_def mlfq_charge_def Let_def)

text \<open>
  every slot of a reachable MLFQ kernel is in one of the four queues and has
  used less of its time slice than the queue grants, so \<open>time_slice[p->queue]\<close>
  is always read inside the array.
\<close>

theorem mlfq_queue_in_range:
  assumes "reachable USE_MLFQ k" "p \<in> set (ptable k)"
  shows "0 \<le> queue p \<and> queue p \<le> 3 \<and> nat (queue p) < length time_slice
    \<and> 0 \<le> ticks_used p \<and> ticks_used p < slice_of (queue p)"
  using mlfq_slots.reachable_slots [OF assms(1)] assms(2)
  by (auto simp: all_slots_def list_all_iff queue_ok_def time_slice_def)

theorem mlfq_queue_in_range_witness:
  "reachable USE_MLFQ (boot_kernel USE_MLFQ)
   \<and> proc_at (boot_kernel USE_MLFQ) 0 \<in> set (ptable (boot_kernel USE_MLFQ))
   \<and> queue (proc_at (boot_kernel USE_MLFQ) 0) \<le> 3"
  using mlfq_queue_in_range [of "boot_kernel USE_MLFQ" "proc_at (boot_kernel USE_MLFQ) 0"]
  by (simp add: reachable_boot_kernel boot_kernel_state)

section \<open>Charging a tick\<close>

lemma yield_slot:
  assumes "yield cfg c i k = Inr k'" "i < length (ptable k)"
  shows "proc_at k' j = (if j = i then
      (if cfg = USE_MLFQ then (proc_at k i)\<lparr>state := RUNNABLE, enq_time := mlfq_seq k\<rparr>
       else (proc_at k i)\<lparr>state := RUNNABLE\<rparr>) else proc_at k j)"
    "mlfq_seq k' = (if cfg = USE_MLFQ then mlfq_seq k + 1 else mlfq_seq k)"
    "c < length (cpus k) \<Longrightarrow> cproc (cpus k' ! c) = None"
  using assms
  by (auto simp: yield_def sched_locked_Inr enqueue_slot enqueue_def mlfq_enqueue_def nth_modify_any)

definition next_queue :: "int \<Rightarrow> int" where
  "next_queue q = min 3 (q + 1)"

text \<open>
  C19: what the tick does to the process in slot \<open>i\<close> that runs on CPU \<open>c\<close>.  When
  it completes its slice it goes to the end of the next queue down (of the same
  queue at the bottom) with a fresh slice; otherwise one tick is charged, and it
  leaves the CPU, for the end of its own queue, exactly if a process of a
  higher priority is RUNNABLE.
\<close>

theorem mlfq_tick_behaviour:
  assumes "reachable USE_MLFQ k" "c < length (cpus k)" "cproc (cpus k ! c) = Some i"
  shows "\<exists>k'. mlfq_tick c i k = Inr k' \<and>
    (let p = proc_at k i; p' = proc_at k' i in
     if ticks_used p + 1 = slice_of (queue p) then
       state p' = RUNNABLE \<and> queue p' = next_queue (queue p) \<and> ticks_used p' = 0
       \<and> enq_time p' = mlfq_seq k \<and> mlfq_seq k' = mlfq_seq k + 1 \<and> cproc (cpus k' ! c) = None
     else queue p' = queue p \<and> ticks_used p' = ticks_used p + 1 \<and>
       (if \<exists>j < length (ptable k). state (proc_at k j) = RUNNABLE \<and> queue (proc_at k j) < queue p
        then state p' = RUNNABLE \<and> enq_time p' = mlfq_seq k \<and> mlfq_seq k' = mlfq_seq k + 1
             \<and> cproc (cpus k' ! c) = None
        else k' = upd i (\<lambda>p. p\<lparr>ticks_used := ticks_used p + 1\<rparr>) k))"
proof -
  let ?k1 = "upd i mlfq_charge k"
  have i: "i < length (ptable k)"
    using cpu_inv_running(2) [OF reachable_cpu_inv [OF assms(1)], of c i] assms(2,3)
    by (simp add: running_def)
  have q: "queue_ok (proc_at k i)"
    using mlfq_slots.reachable_slots [OF assms(1)] i by (rule all_slots_nth)
  obtain ky where y: "yield USE_MLFQ c i ?k1 = Inr ky"
    using i by (auto simp: yield_def sched_locked_Inr enqueue_slot)
  note ys = yield_slot [OF y]
  show ?thesis
  proof (cases "slice_used_up (proc_at k i)")
    case True
    moreover have "mlfq_tick c i k = Inr ky"
      using True y by (simp add: mlfq_tick_def)
    ultimately show ?thesis
      using q i assms(2) ys
      by (auto simp: slice_used_up_def queue_ok_def next_queue_def mlfq_charge_def Let_def)
  next
    case False
    then have c1: "mlfq_charge (proc_at k i) = (proc_at k i)\<lparr>ticks_used := ticks_used (proc_at k i) + 1\<rparr>"
      by (simp add: slice_used_up_def mlfq_charge_def)
    then have k1: "?k1 = upd i (\<lambda>p. p\<lparr>ticks_used := ticks_used p + 1\<rparr>) k"
      by (simp add: upd_def modify_def)
    have "higher_waiting i ?k1 \<longleftrightarrow>
      (\<exists>j < length (ptable k). state (proc_at k j) = RUNNABLE \<and> queue (proc_at k j) < queue (proc_at k i))"
      using i by (auto simp: higher_waiting_def list_ex_iff c1 split: if_splits)
    then show ?thesis
      using False y ys i assms(2) c1 k1
      by (auto simp: mlfq_tick_def slice_used_up_def Let_def)
  qed
qed

theorem mlfq_tick_behaviour_witness:
  "reachable USE_MLFQ (run_kernel USE_MLFQ) \<and> 0 < length (cpus (run_kernel USE_MLFQ))
   \<and> cproc (cpus (run_kernel USE_MLFQ) ! 0) = Some 0 \<and> (\<exists>k'. mlfq_tick 0 0 (run_kernel USE_MLFQ) = Inr k')"
  using mlfq_tick_behaviour [of "run_kernel USE_MLFQ" 0 0]
  by (auto simp: reachable_run_kernel run_kernel_state)

section \<open>The boost\<close>

text \<open>
  when the tick counter reaches a multiple of 48, every process is back in
  the highest queue with a fresh slice, and nothing else of it that the
  scheduler reads has changed but for the processes the tick wakes up; at every
  other tick no queue changes.
\<close>

theorem boost_every_48_ticks:
  assumes "j < length (ptable k)"
  shows "let p = proc_at k j; p' = proc_at (clockintr USE_MLFQ 0 k) j in
    (if (ticks k + 1) mod 48 = 0 \<and> state p \<noteq> UNUSED then queue p' = 0 \<and> ticks_used p' = 0
     else queue p' = queue p \<and> ticks_used p' = ticks_used p)
    \<and> (state p' = state p \<and> enq_time p' = enq_time p
       \<or> state p = SLEEPING \<and> chan p = Some ChanTicks \<and> state p' = RUNNABLE)
    \<and> ticks (clockintr USE_MLFQ 0 k) = ticks k + 1"
proof -
  let ?k0 = "k\<lparr>ticks := ticks k + 1\<rparr>"
  let ?k1 = "wakeup USE_MLFQ (cproc (cpus k ! 0)) (Some ChanTicks) ?k0"
  let ?b = "(ticks k + 1) mod 48 = 0"
  have c: "clockintr USE_MLFQ 0 k = update_times (if ?b then mlfq_boost ?k1 else ?k1)"
    by (simp add: clockintr_def Let_def)
  have u: "queue (proc_at (update_times k2) j) = queue (proc_at k2 j)"
    "ticks_used (proc_at (update_times k2) j) = ticks_used (proc_at k2 j)"
    "enq_time (proc_at (update_times k2) j) = enq_time (proc_at k2 j)"
    if "j < length (ptable k2)" for k2
    using that by (simp_all add: update_times_def)
  have b: "queue (proc_at (mlfq_boost k2) j) = (if state (proc_at k2 j) \<noteq> UNUSED then 0 else queue (proc_at k2 j))"
    "ticks_used (proc_at (mlfq_boost k2) j) =
       (if state (proc_at k2 j) \<noteq> UNUSED then 0 else ticks_used (proc_at k2 j))"
    "enq_time (proc_at (mlfq_boost k2) j) = enq_time (proc_at k2 j)"
    if "j < length (ptable k2)" for k2
    using that by (simp_all add: mlfq_boost_def)
  obtain e where w: "proc_at ?k1 j = (if j < length (ptable ?k0) \<and> sleeps_on (cproc (cpus k ! 0)) (Some ChanTicks) ?k0 j
      then (proc_at ?k0 j)\<lparr>state := RUNNABLE, enq_time := e\<rparr> else proc_at ?k0 j)"
    by (rule wakeup_at)
  show ?thesis
    unfolding c Let_def using assms w
    by (cases ?b) (auto simp: u b sleeps_on_def simp del: wakeup_other)
qed

theorem boost_every_48_ticks_witness:
  "0 < length (ptable (boot_kernel USE_MLFQ))
   \<and> ticks (clockintr USE_MLFQ 0 (boot_kernel USE_MLFQ)) = ticks (boot_kernel USE_MLFQ) + 1"
  using boost_every_48_ticks [of 0 "boot_kernel USE_MLFQ"]
  by (simp add: boot_kernel_state Let_def)

section \<open>Blocking\<close>

text \<open>
  a process that blocks keeps its priority: \<open>sleep\<close> frees the CPU and
  leaves it SLEEPING, and a \<open>wakeup\<close> of its channel by anybody else makes it
  RUNNABLE in the queue it had, with a fresh slice.
\<close>

theorem blocking_keeps_queue:
  assumes "i < length (ptable k)" "c < length (cpus k)" "me \<noteq> Some i"
  shows "\<exists>k1. sleep USE_MLFQ c i ch k = Inr k1 \<and> state (proc_at k1 i) = SLEEPING
    \<and> cproc (cpus k1 ! c) = None
    \<and> (let p = proc_at k i; p' = proc_at (wakeup USE_MLFQ me (Some ch) k1) i in
         state p' = RUNNABLE \<and> queue p' = queue p \<and> ticks_used p' = 0)"
  using assms
  by (auto simp: sleep_def sched_locked_Inr Let_def wakeup_state sleeps_on_def)

theorem blocking_keeps_queue_witness:
  "0 < length (ptable (run_kernel USE_MLFQ)) \<and> 0 < length (cpus (run_kernel USE_MLFQ))
   \<and> (None :: nat option) \<noteq> Some 0
   \<and> (\<exists>k1. sleep USE_MLFQ 0 0 ChanTicks (run_kernel USE_MLFQ) = Inr k1
        \<and> state (proc_at (wakeup USE_MLFQ None (Some ChanTicks) k1) 0) = RUNNABLE)"
  using blocking_keeps_queue [of 0 "run_kernel USE_MLFQ" 0 None ChanTicks]
  by (auto simp: run_kernel_state Let_def)

end
