(* ===== verification/File_Inv.thy ===== *)
theory File_Inv
  imports Proc_Inv Mlfq
begin

text \<open>
  Reference counts of open files across whole calls: with every call one step,
  as in \<open>Kernel_Steps\<close>, \<open>f->ref\<close> is the number of descriptors, over all
  processes, that hold \<open>f\<close> (\<open>file_inv\<close>), and the calls return without a panic.
  Inside a call the count is off by what the call itself holds; \<open>File_Steps\<close>
  interleaves the calls section by section and gives the exact count there.
\<close>

section \<open>Counting references\<close>

definition held :: "nat option list \<Rightarrow> nat \<Rightarrow> int" where
  "held fs f = int (count_list fs (Some f))"

definition nrefs :: "proc list \<Rightarrow> nat \<Rightarrow> int" where
  "nrefs ps f = sum_list (map (\<lambda>p. held (ofile p) f) ps)"

lemma held_simps [simp]:
  "held [] f = 0" "held (e # fs) f = (if e = Some f then 1 else 0) + held fs f"
  by (auto simp: held_def)

lemma held_nonneg: "0 \<le> held fs f"
  by (simp add: held_def)

lemma held_pos: "Some f \<in> set fs \<longleftrightarrow> 0 < held fs f"
  using count_list_0_iff [of fs "Some f"] by (auto simp: held_def)

lemma held_update:
  "fd < length fs \<Longrightarrow> held (fs[fd := e]) f =
     held fs f - (if fs ! fd = Some f then 1 else 0) + (if e = Some f then 1 else 0)"
  by (induction fs arbitrary: fd) (auto split: nat.split)

lemma held_None [simp]: "held (map (\<lambda>_. None) fs) f = 0"
  by (induction fs) auto

lemma held_merge:
  assumes "\<forall>e \<in> set cf. e = None" "length pf = length cf"
  shows "held (merge_ofile pf cf) f = held pf f"
  using assms(2,1) by (induction pf cf rule: list_induct2) (auto simp: merge_ofile_def)

lemma nrefs_modify:
  "i < length ps \<Longrightarrow> nrefs (modify i h ps) f =
     nrefs ps f - held (ofile (ps ! i)) f + held (ofile (h (ps ! i))) f"
proof (induction ps arbitrary: i)
  case (Cons p ps)
  then show ?case by (cases i) (auto simp: nrefs_def modify_def)
qed simp

lemma nrefs_nonneg: "0 \<le> nrefs ps f"
  unfolding nrefs_def by (rule sum_list_nonneg) (auto simp: held_nonneg)

lemma nrefs_ge: "i < length ps \<Longrightarrow> held (ofile (ps ! i)) f \<le> nrefs ps f"
proof (induction ps arbitrary: i)
  case (Cons p ps)
  have n: "nrefs (p # ps) f = held (ofile p) f + nrefs ps f" by (simp add: nrefs_def)
  show ?case
  proof (cases i)
    case 0
    then show ?thesis using nrefs_nonneg [of ps f] n by simp
  next
    case (Suc m)
    then have "held (ofile (ps ! m)) f \<le> nrefs ps f" using Cons by simp
    then show ?thesis using Suc n held_nonneg [of "ofile p" f] by simp
  qed
qed simp

lemma nrefs_cong:
  assumes "length ps' = length ps" "\<And>i. i < length ps \<Longrightarrow> ofile (ps' ! i) = ofile (ps ! i)"
  shows "nrefs ps' f = nrefs ps f"
proof -
  have "map (\<lambda>p. held (ofile p) f) ps' = map (\<lambda>p. held (ofile p) f) ps"
    by (rule nth_equalityI) (simp_all add: assms)
  then show ?thesis by (simp add: nrefs_def)
qed

section \<open>Duplicating and closing all files of a process\<close>

lemma dup_files_refs:
  assumes "dup_files fs ft = Inr ft'" "\<And>f. Some f \<in> set fs \<Longrightarrow> f < length ft"
  shows "length ft' = length ft \<and> (\<forall>f. refs ft' f = refs ft f + held fs f)"
  using assms
proof (induction fs ft rule: dup_files.induct)
  case (3 f fs ft)
  from 3(2) obtain ft1 where ft1: "filedup f ft = Inr ft1" "dup_files fs ft1 = Inr ft'"
    by (auto simp: bindR_Inr)
  have "f < length ft" using 3(3) by simp
  from filedup_refs [OF ft1(1) this] 3(1) [of ft1] 3(3) ft1 show ?case by simp
qed simp_all

lemma dup_files_ok:
  assumes "\<And>f. Some f \<in> set fs \<Longrightarrow> f < length ft \<and> 1 \<le> refs ft f"
  shows "\<exists>ft'. dup_files fs ft = Inr ft'"
  using assms
proof (induction fs ft rule: dup_files.induct)
  case (3 f fs ft)
  then obtain ft1 where ft1: "filedup f ft = Inr ft1" using filedup_ok [of f ft] by auto
  have "f < length ft" using 3(2) by simp
  note r = filedup_refs [OF ft1 this]
  have "\<exists>ft'. dup_files fs ft1 = Inr ft'"
  proof (rule 3(1))
    fix g assume "Some g \<in> set fs"
    with 3(2) [of g] r show "g < length ft1 \<and> 1 \<le> refs ft1 g" by auto
  qed
  with ft1 show ?case by simp
qed simp_all

lemma close_files_refs:
  assumes "close_files fs ft = Inr (ft', ops)" "\<And>f. Some f \<in> set fs \<Longrightarrow> f < length ft"
  shows "length ft' = length ft \<and> (\<forall>f. refs ft' f = refs ft f - held fs f)"
  using assms
proof (induction fs arbitrary: ft ft' ops)
  case (Cons e fs)
  show ?case
  proof (cases e)
    case None
    with Cons show ?thesis by simp
  next
    case (Some f)
    from Cons.prems(1) Some obtain ft1 ops1 ops2 where
      ft1: "fileclose f ft = Inr (ft1, ops1)" "close_files fs ft1 = Inr (ft', ops2)"
      by (auto simp: bindR_Inr)
    have "f < length ft" using Cons.prems(2) Some by simp
    from fileclose_refs [OF ft1(1) this] Cons.IH [OF ft1(2)] Cons.prems(2) Some show ?thesis by simp
  qed
qed simp

lemma close_files_ok:
  assumes "\<And>f. held fs f \<le> refs ft f"
  shows "\<exists>ft' ops. close_files fs ft = Inr (ft', ops)"
  using assms
proof (induction fs arbitrary: ft)
  case (Cons e fs)
  show ?case
  proof (cases e)
    case None
    with Cons show ?thesis by simp
  next
    case (Some f)
    have "1 + held fs f \<le> refs ft f" using Cons.prems [of f] Some by simp
    then have r: "1 \<le> refs ft f" using held_nonneg [of fs f] by linarith
    then have f: "f < length ft" by (rule refs_pos_less)
    from fileclose_ok [OF f r] obtain ft1 ops1 where ft1: "fileclose f ft = Inr (ft1, ops1)" by blast
    have "held fs g \<le> refs ft1 g" for g
      using Cons.prems [of g] Some fileclose_refs(2) [OF ft1 f] by (auto split: if_splits)
    from Cons.IH [OF this] obtain ft' ops where "close_files fs ft1 = Inr (ft', ops)" by blast
    with ft1 Some show ?thesis by simp
  qed
qed simp

section \<open>The invariant\<close>

definition file_inv :: "kernel \<Rightarrow> bool" where
  "file_inv k \<longleftrightarrow> (\<forall>f. refs (ftable k) f = nrefs (ptable k) f)
     \<and> (\<forall>i < length (ptable k). dead (state (proc_at k i)) \<longrightarrow> (\<forall>e \<in> set (ofile (proc_at k i)). e = None))"

lemma file_inv_held:
  assumes "file_inv k" "i < length (ptable k)" "Some f \<in> set (ofile (proc_at k i))"
  shows "f < length (ftable k)" "1 \<le> refs (ftable k) f"
proof -
  have "0 < held (ofile (proc_at k i)) f" using assms(3) by (simp only: held_pos)
  moreover have "refs (ftable k) f = nrefs (ptable k) f" using assms(1) by (simp add: file_inv_def)
  ultimately show 1: "1 \<le> refs (ftable k) f" using nrefs_ge [OF assms(2), of f] by linarith
  then show "f < length (ftable k)" by (rule refs_pos_less)
qed

lemma file_inv_frame:
  assumes "file_inv k" "refs (ftable k') = refs (ftable k)" "length (ptable k') = length (ptable k)"
    "\<And>j. j < length (ptable k) \<Longrightarrow> ofile (proc_at k' j) = ofile (proc_at k j)"
    "\<And>j. j < length (ptable k) \<Longrightarrow> dead (state (proc_at k' j)) \<Longrightarrow> dead (state (proc_at k j))"
  shows "file_inv k'"
  using assms(1) nrefs_cong [OF assms(3,4)] assms(2-) by (auto simp: file_inv_def)

text \<open>One slot changes its descriptors, and the counts with it.\<close>

lemma file_inv_slot:
  assumes "file_inv k" "i < length (ptable k)" "length (ptable k') = length (ptable k)"
    "\<And>j. j < length (ptable k) \<Longrightarrow> j \<noteq> i \<Longrightarrow> ofile (proc_at k' j) = ofile (proc_at k j)
       \<and> (dead (state (proc_at k' j)) \<longrightarrow> dead (state (proc_at k j)))"
    "dead (state (proc_at k' i)) \<Longrightarrow> \<forall>e \<in> set (ofile (proc_at k' i)). e = None"
    "\<And>f. refs (ftable k') f = refs (ftable k) f
       - held (ofile (proc_at k i)) f + held (ofile (proc_at k' i)) f"
  shows "file_inv k'"
proof -
  have "nrefs (ptable k') f = nrefs (modify i (\<lambda>_. proc_at k' i) (ptable k)) f" for f
    by (rule nrefs_cong) (use assms(2,3,4) in \<open>auto simp: nth_modify_any\<close>)
  then have "nrefs (ptable k') f = nrefs (ptable k) f - held (ofile (proc_at k i)) f
      + held (ofile (proc_at k' i)) f" for f
    using assms(2) by (simp add: nrefs_modify)
  moreover have "\<forall>e \<in> set (ofile (proc_at k' j)). e = None"
    if "j < length (ptable k)" "dead (state (proc_at k' j))" for j
    using that assms(1,4,5) by (cases "j = i") (auto simp: file_inv_def)
  ultimately show ?thesis
    using assms(1,3,6) by (auto simp: file_inv_def)
qed

section \<open>Process operations keep it\<close>

lemma file_inv_boot: "userinit cfg tf pt root procinit = Some k \<Longrightarrow> file_inv k"
proof -
  assume a: "userinit cfg tf pt root procinit = Some k"
  have "refs (ftable procinit) f = 0" for f
    by (auto simp: refs_def procinit_def)
  moreover have n: "nrefs (replicate m free_proc) f = 0" for m f
    by (induction m) (auto simp: nrefs_def free_proc_def held_def count_list_0_iff)
  ultimately have "file_inv procinit"
    by (auto simp: file_inv_def procinit_def free_proc_def)
  then show ?thesis
    by (rule file_inv_frame)
      (use a in \<open>auto simp: userinit_def allocproc_def allocpid_def Let_def enqueue_slot nth_modify_any
        procinit_def free_proc_def split: option.splits if_splits\<close>)
qed

lemma file_inv_sched_step:
  assumes "file_inv k" shows "file_inv (sched_step cfg c k)"
proof -
  have d: "file_inv (dispatch c b k)" if "state (proc_at k b) = RUNNABLE" for b
    by (rule file_inv_frame [OF assms]) (use that in \<open>auto simp: dispatch_slot split: if_splits\<close>)
  have c: "file_inv (set_cpu c s k)" for s
    by (rule file_inv_frame [OF assms]) simp_all
  show ?thesis
    using assms by (auto simp: sched_step_def d c split: sched_pc.split option.split)
qed

lemma file_inv_sched:
  assumes "file_inv k1" "sched_locked cfg c i k1 = Inr k'" shows "file_inv k'"
  by (rule file_inv_frame [OF assms(1)]) (use assms(2) in \<open>auto simp: sched_locked_Inr\<close>)

lemma file_inv_yield:
  assumes "file_inv k" "yield cfg c i k = Inr k'" shows "file_inv k'"
  by (rule file_inv_sched [OF file_inv_frame [OF assms(1)] assms(2) [unfolded yield_def]])
    (auto simp: enqueue_slot nth_modify_any split: if_splits)

lemma file_inv_sleep:
  assumes "file_inv k" "sleep cfg c i ch k = Inr k'" shows "file_inv k'"
  by (rule file_inv_sched [OF file_inv_frame [OF assms(1)] assms(2) [unfolded sleep_def]])
    (auto simp: nth_modify_any Let_def split: if_splits)

lemma file_inv_timer:
  assumes "file_inv k" "timer_trap cfg c k = Inr k'"
  shows "file_inv k'"
proof -
  let ?k = "clockintr cfg c k"
  have inv: "file_inv ?k"
    by (rule file_inv_frame [OF assms(1)])
      (auto simp: clockintr_slot wakeup_state sleeps_on_def split: if_splits)
  have inv': "file_inv (upd i mlfq_charge ?k)" for i
    by (rule file_inv_frame [OF inv]) (auto split: if_splits)
  show ?thesis
    using assms(2) inv inv'
    by (auto simp: timer_trap_def mlfq_tick_def Let_def split: if_splits option.splits
        elim: file_inv_yield [rotated])
qed

lemma file_inv_kill:
  assumes "file_inv k" "kkill cfg n k = (k', r)"
  shows "file_inv k'"
  by (rule file_inv_frame [OF assms(1)])
    (use assms(2) in \<open>auto simp: kkill_def Let_def nth_modify_any enqueue_slot
      split: option.splits if_splits\<close>)

lemma file_inv_alloc:
  assumes "file_inv k" "allocproc cfg tf pt k = (k1, r)"
  shows "file_inv k1"
  using assms(2)
proof (cases rule: allocproc_cases)
  case 1
  then show ?thesis using assms(1) by simp
next
  case (2 i f)
  then show ?thesis by (intro file_inv_frame [OF assms(1)]) (auto split: if_splits)
next
  case (3 i f)
  then show ?thesis by (intro file_inv_frame [OF assms(1)]) (auto split: if_splits)
qed

lemma file_inv_freeproc:
  assumes "file_inv k" "\<forall>e \<in> set (ofile (proc_at k j)). e = None"
  shows "file_inv (freeproc cfg j k)"
  using assms nrefs_cong [of "ptable (freeproc cfg j k)" "ptable k"]
  by (auto simp: file_inv_def nth_modify_any)

lemma file_inv_fork:
  assumes inv: "file_inv k" and live: "i < length (ptable k)"
    and len: "all_slots files_ok k"
    and f: "kfork cfg tf pt uvm i k = Inr (k', r)"
  shows "file_inv k'"
proof -
  obtain k1 r1 where a: "allocproc cfg tf pt k = (k1, r1)" by fastforce
  note inv1 = file_inv_alloc [OF inv a]
  from a show ?thesis
  proof (cases rule: allocproc_cases)
    case (3 j g)
    have free: "\<forall>e \<in> set (ofile (proc_at k1 j)). e = None"
      using inv 3 by (auto simp: file_inv_def)
    show ?thesis
    proof (cases "uvm < 0")
      case True
      then show ?thesis using f a 3 inv1 free by (auto simp: kfork_def intro: file_inv_freeproc)
    next
      case False
      then obtain ft where ft: "dup_files (ofile (proc_at k1 i)) (ftable k1) = Inr ft"
        and k': "k' = enqueue cfg j (upd j (fork_fields (proc_at k1 i) i)
          (k1\<lparr>ftable := ft, kops := kops k1 @ (case cwd (proc_at k1 i) of None \<Rightarrow> [] | Some d \<Rightarrow> [OpIdup d])\<rparr>))"
        using f a 3 by (auto simp: kfork_def bindR_Inr Let_def)
      have l1: "length (ptable k1) = length (ptable k)" using 3 by simp
      have "files_ok (proc_at k1 i)" "files_ok (proc_at k1 j)"
        using all_slots_nth [OF len] live 3 by (auto simp: files_ok_def)
      then have m: "held (merge_ofile (ofile (proc_at k1 i)) (ofile (proc_at k1 j))) f
          = held (ofile (proc_at k1 i)) f" for f
        using free by (intro held_merge) (auto simp: files_ok_def)
      have z: "held (ofile (proc_at k1 j)) f = 0" for f
        using free by (auto simp: held_def count_list_0_iff)
      have r: "refs ft f = refs (ftable k1) f + held (ofile (proc_at k1 i)) f" for f
        using dup_files_refs [OF ft] file_inv_held(1) [OF inv1] live l1 by auto
      have j1: "j < length (ptable k1)" using 3(1) l1 by simp
      then have "state (proc_at k' j) = RUNNABLE" "\<And>l. l \<noteq> j \<Longrightarrow> proc_at k' l = proc_at k1 l"
        "ofile (proc_at k' j) = merge_ofile (ofile (proc_at k1 i)) (ofile (proc_at k1 j))"
        "length (ptable k') = length (ptable k1)" "ftable k' = ft"
        by (simp_all add: k' enqueue_slot nth_modify_any fork_fields_def)
      then show ?thesis
        by (intro file_inv_slot [OF inv1 j1]) (simp_all add: m z r)
    qed
  qed (use f a inv1 in \<open>auto simp: kfork_def\<close>)
qed

lemma file_inv_exit:
  assumes inv: "file_inv k" and i: "i < length (ptable k)" "state (proc_at k i) = RUNNING"
    and e: "kexit cfg c i st k = Inr k'"
  shows "file_inv k'"
proof -
  from e obtain ft ops where
    c: "close_files (ofile (proc_at k i)) (ftable k) = Inr (ft, ops)"
    and s: "sched_locked cfg c i (exit_zombie cfg i st (exit_release i ft ops k)) = Inr k'"
    by (auto simp: kexit_def bindR_Inr split: if_splits)
  let ?k1 = "exit_release i ft ops k"
  have r: "refs ft f = refs (ftable k) f - held (ofile (proc_at k i)) f" for f
    using close_files_refs [OF c] file_inv_held(1) [OF inv i(1)] by auto
  have "file_inv (exit_zombie cfg i st ?k1)"
  proof (rule file_inv_slot [OF inv i(1)])
    fix j assume "j < length (ptable k)" "j \<noteq> i"
    then show "ofile (proc_at (exit_zombie cfg i st ?k1) j) = ofile (proc_at k j)
      \<and> (dead (state (proc_at (exit_zombie cfg i st ?k1) j)) \<longrightarrow> dead (state (proc_at k j)))"
      using exit_zombie_state(2) [of i ?k1 j cfg st] i by (auto simp: exit_release_slot)
  qed (use i r in \<open>auto simp: exit_release_slot\<close>)
  then show ?thesis using s by (rule file_inv_sched)
qed

lemma file_inv_wait:
  assumes inv: "file_inv k" and w: "kwait cfg c i addr ok k = Inr (k', w)"
  shows "file_inv k'"
proof (cases "find_idx (\<lambda>p. parent p = Some i \<and> state p = ZOMBIE) (ptable k)")
  case None
  with assms show ?thesis
    by (auto simp: kwait_def bindR_Inr split: if_splits elim: file_inv_sleep)
next
  case (Some j)
  then have "\<forall>e \<in> set (ofile (proc_at k j)). e = None"
    using find_idx_SomeD(1,2) [OF Some] inv by (auto simp: file_inv_def)
  with Some w inv show ?thesis
    by (auto simp: kwait_def split: if_splits intro: file_inv_freeproc)
qed

section \<open>System calls keep it and do not panic\<close>

text \<open>
  Inside a call the counts may be off by the references the call itself holds;
  \<open>bal k d\<close> says by how much.
\<close>

definition bal :: "kernel \<Rightarrow> (nat \<Rightarrow> int) \<Rightarrow> bool" where
  "bal k d \<longleftrightarrow> (\<forall>f. refs (ftable k) f = nrefs (ptable k) f + d f)
     \<and> (\<forall>i < length (ptable k). dead (state (proc_at k i)) \<longrightarrow> (\<forall>e \<in> set (ofile (proc_at k i)). e = None))"

lemma bal_file_inv: "file_inv k \<longleftrightarrow> bal k (\<lambda>_. 0)"
  by (simp add: file_inv_def bal_def)

lemma bal_log_kops [simp]: "bal (log_kops ops k) d = bal k d"
  by (simp add: bal_def)

lemma bal_ftable:
  assumes "bal k d" "refs ft = (refs (ftable k))(f := refs (ftable k) f + x)"
  shows "bal (k\<lparr>ftable := ft\<rparr>) (d(f := d f + x))"
  using assms by (auto simp: bal_def)

lemma bal_set_files:
  assumes "bal k d" "i < length (ptable k)" "\<not> dead (state (proc_at k i))" "fd < length (ofile (proc_at k i))"
  shows "bal (upd i (\<lambda>p. p\<lparr>ofile := (ofile p)[fd := e]\<rparr>) k)
    (\<lambda>f. d f + (if ofile (proc_at k i) ! fd = Some f then 1 else 0) - (if e = Some f then 1 else 0))"
  using assms by (auto simp: bal_def nrefs_modify held_update split: if_splits)

lemma fdalloc_bal:
  assumes "bal k d" "i < length (ptable k)" "\<not> dead (state (proc_at k i))"
    "fdalloc i f k = Some (k1, fd)"
  shows "bal k1 (d(f := d f - 1))" "ftable k1 = ftable k" "length (ptable k1) = length (ptable k)"
    "state (proc_at k1 i) = state (proc_at k i)"
    "ofile (proc_at k1 i) = (ofile (proc_at k i))[fd := Some f]" "fd < length (ofile (proc_at k i))"
    "ofile (proc_at k i) ! fd = None"
proof -
  from assms(4) have fd: "find_idx (\<lambda>e. e = None) (ofile (proc_at k i)) = Some fd"
    and k1: "k1 = upd i (\<lambda>p. p\<lparr>ofile := (ofile p)[fd := Some f]\<rparr>) k"
    by (auto simp: fdalloc_def split: option.splits)
  show n: "fd < length (ofile (proc_at k i))" "ofile (proc_at k i) ! fd = None"
    using find_idx_SomeD(1,2) [OF fd] by simp_all
  have "(\<lambda>g. d g + (if ofile (proc_at k i) ! fd = Some g then 1 else 0) - (if Some f = Some g then 1 else 0))
      = d(f := d f - 1)"
    using n by auto
  with bal_set_files [OF assms(1-3) n(1), of "Some f"] show "bal k1 (d(f := d f - 1))"
    by (simp add: k1)
  show "ftable k1 = ftable k" "length (ptable k1) = length (ptable k)"
    "state (proc_at k1 i) = state (proc_at k i)"
    "ofile (proc_at k1 i) = (ofile (proc_at k i))[fd := Some f]"
    using assms(2) by (simp_all add: k1)
qed

lemma clear_fd_bal:
  assumes "bal k d" "i < length (ptable k)" "\<not> dead (state (proc_at k i))"
    "fd < length (ofile (proc_at k i))" "ofile (proc_at k i) ! fd = Some f"
  shows "bal (clear_fd i fd k) (d(f := d f + 1))"
proof -
  have "(\<lambda>g. d g + (if ofile (proc_at k i) ! fd = Some g then 1 else 0) - (if None = Some g then 1 else 0))
      = d(f := d f + 1)"
    using assms(5) by auto
  with bal_set_files [OF assms(1-4), of None] show ?thesis by (simp add: clear_fd_def)
qed

lemma clear_fd_fields [simp]:
  "ftable (clear_fd i fd k) = ftable k" "length (ptable (clear_fd i fd k)) = length (ptable k)"
  "state (proc_at (clear_fd i fd k) j) = state (proc_at k j)"
  "i < length (ptable k) \<Longrightarrow> ofile (proc_at (clear_fd i fd k) i) = (ofile (proc_at k i))[fd := None]"
  by (simp_all add: clear_fd_def nth_modify_any)

lemma bal_pos: "bal k d \<Longrightarrow> 1 \<le> d f \<Longrightarrow> 1 \<le> refs (ftable k) f"
  using nrefs_nonneg [of "ptable k" f] by (simp add: bal_def)

lemma kfileclose_bal:
  assumes "bal k d" "1 \<le> refs (ftable k) f"
  obtains k1 where "kfileclose f k = Inr k1" "bal k1 (d(f := d f - 1))" "ptable k1 = ptable k"
    "length (ftable k1) = length (ftable k)"
proof -
  note l = refs_pos_less [OF assms(2)]
  from fileclose_ok [OF l assms(2)] obtain ft ops where c: "fileclose f (ftable k) = Inr (ft, ops)" by blast
  have "bal (k\<lparr>ftable := ft\<rparr>) (d(f := d f - 1))"
    using bal_ftable [OF assms(1), of ft f "-1"] fileclose_refs [OF c l] by simp
  then show ?thesis
    using that [of "log_kops ops (k\<lparr>ftable := ft\<rparr>)"] c fileclose_refs(1) [OF c l]
    by (simp add: kfileclose_def)
qed

lemma kfiledup_bal:
  assumes "bal k d" "1 \<le> refs (ftable k) f"
  obtains k1 where "kfiledup f k = Inr k1" "bal k1 (d(f := d f + 1))" "ptable k1 = ptable k"
proof -
  note l = refs_pos_less [OF assms(2)]
  from filedup_ok [OF l assms(2)] obtain ft where c: "filedup f (ftable k) = Inr ft" by blast
  have "bal (k\<lparr>ftable := ft\<rparr>) (d(f := d f + 1))"
    using bal_ftable [OF assms(1), of ft f 1] filedup_refs [OF c l] by simp
  then show ?thesis using that [of "k\<lparr>ftable := ft\<rparr>"] c by (simp add: kfiledup_def)
qed

lemma filealloc_bal:
  assumes "bal k d" "filealloc (ftable k) = Some (ft, f)"
  shows "bal (k\<lparr>ftable := ft\<rparr>) (d(f := d f + 1))"
  using bal_ftable [OF assms(1), of ft f 1] filealloc_refs [OF assms(2)] by simp

lemma argfd_Some:
  assumes "argfd i fd k = Some (n, f)" "files_ok (proc_at k i)"
  shows "n < length (ofile (proc_at k i))" "ofile (proc_at k i) ! n = Some f"
  using assms by (auto simp: argfd_def files_ok_def split: if_splits option.splits)

text \<open>What a call can rely on of its caller.\<close>

definition caller_ok :: "kernel \<Rightarrow> nat \<Rightarrow> bool" where
  "caller_ok k i \<longleftrightarrow> file_inv k \<and> i < length (ptable k) \<and> \<not> dead (state (proc_at k i)) \<and> files_ok (proc_at k i)"

lemma sys_dup_ok:
  assumes "caller_ok k i"
  shows "\<exists>k' r. sys_dup i fd k = Inr (k', r) \<and> file_inv k'"
proof -
  have c: "bal k (\<lambda>_. 0)" "i < length (ptable k)" "\<not> dead (state (proc_at k i))" "files_ok (proc_at k i)"
    using assms by (auto simp: caller_ok_def bal_file_inv)
  show ?thesis
  proof (cases "argfd i fd k")
    case None
    then show ?thesis using c by (simp add: sys_dup_def bal_file_inv)
  next
    case (Some nf)
    then obtain n f where nf: "argfd i fd k = Some (n, f)" by (cases nf) auto
    note h = argfd_Some [OF nf c(4)]
    then have "Some f \<in> set (ofile (proc_at k i))" by (metis nth_mem)
    then have r: "1 \<le> refs (ftable k) f" using file_inv_held(2) c by (simp add: bal_file_inv)
    show ?thesis
    proof (cases "fdalloc i f k")
      case None
      then show ?thesis using nf c by (simp add: sys_dup_def bal_file_inv)
    next
      case (Some q)
      then obtain k1 fd' where q: "fdalloc i f k = Some (k1, fd')" by (cases q) auto
      note b = fdalloc_bal [OF c(1-3) q]
      obtain k2 where "kfiledup f k1 = Inr k2" "bal k2 (((\<lambda>_. 0)(f := 0 - 1))(f := ((\<lambda>_. 0)(f := 0 - 1)) f + 1))"
        using kfiledup_bal [OF b(1), of f] b(2) r by auto
      then show ?thesis using nf q by (simp add: sys_dup_def bal_file_inv fun_upd_idem)
    qed
  qed
qed

lemma sys_close_ok:
  assumes "caller_ok k i"
  shows "\<exists>k' r. sys_close i fd k = Inr (k', r) \<and> file_inv k'"
proof -
  have c: "bal k (\<lambda>_. 0)" "i < length (ptable k)" "\<not> dead (state (proc_at k i))" "files_ok (proc_at k i)"
    using assms by (auto simp: caller_ok_def bal_file_inv)
  show ?thesis
  proof (cases "argfd i fd k")
    case None
    then show ?thesis using c by (simp add: sys_close_def bal_file_inv)
  next
    case (Some nf)
    then obtain n f where nf: "argfd i fd k = Some (n, f)" by (cases nf) auto
    note b = clear_fd_bal [OF c(1-3) argfd_Some [OF nf c(4)]]
    have "1 \<le> refs (ftable (clear_fd i n k)) f" by (rule bal_pos [OF b]) simp
    from kfileclose_bal [OF b this] obtain k1 where
      "kfileclose f (clear_fd i n k) = Inr k1"
      "bal k1 (((\<lambda>_. 0)(f := 0 + 1))(f := ((\<lambda>_. 0)(f := 0 + 1)) f - 1))" by metis
    then show ?thesis using nf by (simp add: sys_close_def bal_file_inv fun_upd_idem)
  qed
qed

lemma refs_modify_same: "(\<And>x. f_ref (g x) = f_ref x) \<Longrightarrow> refs (modify i g ft) = refs ft"
  by (auto simp: refs_def nth_modify_any)

lemma f_ref_setters [simp]:
  "f_ref (set_open omode ip ty mj f) = f_ref f" "f_ref (set_pipe_end pi w f) = f_ref f"
  by (simp_all add: set_open_def set_pipe_end_def Let_def)

lemma bal_modify_ftable:
  "(\<And>x. f_ref (g x) = f_ref x) \<Longrightarrow> bal (k\<lparr>ftable := modify i g (ftable k)\<rparr>) d = bal k d"
  by (simp add: bal_def refs_modify_same)

lemma close_own:
  assumes "bal k d" "d f = 1"
  obtains k1 where "kfileclose f k = Inr k1" "bal k1 (d(f := 0))" "ptable k1 = ptable k"
    "length (ftable k1) = length (ftable k)"
proof -
  have "1 \<le> refs (ftable k) f" using bal_pos [OF assms(1), of f] assms(2) by simp
  from kfileclose_bal [OF assms(1) this] obtain k1 where
    "kfileclose f k = Inr k1" "bal k1 (d(f := d f - 1))" "ptable k1 = ptable k"
    "length (ftable k1) = length (ftable k)" by metis
  then show ?thesis using that [of k1] assms(2) by simp
qed

lemma sys_open_ok:
  assumes "caller_ok k i"
  shows "\<exists>k' r. sys_open i path omode ino k = Inr (k', r) \<and> file_inv k'"
proof -
  have c: "bal k (\<lambda>_. 0)" "i < length (ptable k)" "\<not> dead (state (proc_at k i))"
    using assms by (auto simp: caller_ok_def bal_file_inv)
  show ?thesis
  proof (cases "filealloc (ftable k)")
    case None
    then show ?thesis
      using c by (auto simp: sys_open_def open_fail_def bal_file_inv Let_def split: option.split prod.split)
  next
    case (Some q)
    then obtain ft f where q: "filealloc (ftable k) = Some (ft, f)" by (cases q) auto
    define tail where "tail k2 ip ty mj =
      (case fdalloc i f k2 of
         None \<Rightarrow> bindR (kfileclose f k2) (open_fail ip)
       | Some (k3, fd) \<Rightarrow>
           let k4 = k3\<lparr>ftable := modify f (set_open omode ip ty mj) (ftable k3)\<rparr>
           in Inr (log_kops ((if flag omode O_TRUNC \<and> ty = T_FILE then [OpItrunc ip] else [])
                             @ [OpIunlock ip, OpEnd]) k4, int fd))" for k2 ip ty mj
    have t: "\<exists>k' r. tail ((log_kops ops k)\<lparr>ftable := ft\<rparr>) ip ty mj = Inr (k', r) \<and> file_inv k'"
      for ops ip ty mj
    proof -
      let ?k2 = "(log_kops ops k)\<lparr>ftable := ft\<rparr>"
      have b2: "bal ?k2 ((\<lambda>_. 0)(f := 1))"
        using filealloc_bal [of "log_kops ops k" "\<lambda>_. 0" ft f] c(1) q by simp
      show ?thesis
      proof (cases "fdalloc i f ?k2")
        case None
        obtain k1 where "kfileclose f ?k2 = Inr k1" "bal k1 (((\<lambda>_. 0)(f := 1))(f := 0))"
          using close_own [OF b2, of f] by auto
        with None show ?thesis
          by (auto simp: tail_def open_fail_def bal_file_inv fun_upd_idem)
      next
        case (Some p)
        then obtain k3 fd where p: "fdalloc i f ?k2 = Some (k3, fd)" by (cases p) auto
        have "bal k3 (((\<lambda>_. 0)(f := 1))(f := ((\<lambda>_. 0)(f := 1)) f - 1))"
          by (rule fdalloc_bal(1) [OF b2 _ _ p]) (use c in simp_all)
        then show ?thesis
          using p by (auto simp: tail_def bal_file_inv bal_modify_ftable fun_upd_idem Let_def)
      qed
    qed
    have ftl: "ftable (log_kops ops k) = ftable k" for ops by simp
    show ?thesis
    proof (cases "\<exists>s ip ty mj. path = Some s \<and> ino = Some (ip, ty, mj)
        \<and> \<not> (\<not> flag omode O_CREATE \<and> ty = T_DIR \<and> omode \<noteq> O_RDONLY)
        \<and> \<not> (ty = T_DEVICE \<and> (mj < 0 \<or> mj \<ge> NDEV))")
      case True
      then obtain s ip ty mj where "path = Some s" "ino = Some (ip, ty, mj)"
        "\<not> (\<not> flag omode O_CREATE \<and> ty = T_DIR \<and> omode \<noteq> O_RDONLY)"
        "\<not> (ty = T_DEVICE \<and> (mj < 0 \<or> mj \<ge> NDEV))" by blast
      then have "\<exists>ops. sys_open i path omode ino k = tail ((log_kops ops k)\<lparr>ftable := ft\<rparr>) ip ty mj"
        using q by (auto simp: sys_open_def Let_def tail_def log_kops_def simp del: log_kops_fields)
      with t show ?thesis by metis
    next
      case False
      then show ?thesis
        using c(1) by (auto simp: sys_open_def open_fail_def bal_file_inv Let_def split: option.split prod.split)
    qed
  qed
qed

lemma close_both_ok:
  assumes "bal k d" "d f = 1" "d g = 1" "f \<noteq> g" "\<And>h. h \<noteq> f \<Longrightarrow> h \<noteq> g \<Longrightarrow> d h = 0"
  shows "\<exists>k'. close_both f g k = Inr (k', -1) \<and> file_inv k'"
proof -
  obtain k1 where k1: "kfileclose f k = Inr k1" "bal k1 (d(f := 0))"
    using close_own [OF assms(1,2)] by metis
  have "(d(f := 0)) g = 1" using assms by simp
  from close_own [OF k1(2) this] obtain k2 where k2: "kfileclose g k1 = Inr k2" "bal k2 ((d(f := 0))(g := 0))"
    by metis
  moreover have "(d(f := 0))(g := 0) = (\<lambda>_. 0)" using assms(5) by auto
  ultimately show ?thesis using k1(1) by (simp add: close_both_def bal_file_inv)
qed

lemma pipealloc_ok:
  assumes "bal k (\<lambda>_. 0)"
  obtains k1 where "pipealloc page k = Inr (k1, None)" "file_inv k1"
  | k1 f0 f1 where "pipealloc page k = Inr (k1, Some (f0, f1))" "f0 \<noteq> f1" "ptable k1 = ptable k"
      "bal k1 ((\<lambda>_. 0)(f0 := 1, f1 := 1))"
proof (cases "filealloc (ftable k)")
  case None
  then show ?thesis using that(1) assms by (simp add: pipealloc_def bal_file_inv)
next
  case (Some q)
  then obtain ft0 f0 where q: "filealloc (ftable k) = Some (ft0, f0)" by (cases q) auto
  let ?k0 = "k\<lparr>ftable := ft0\<rparr>"
  have b0: "bal ?k0 ((\<lambda>_. 0)(f0 := 1))" using filealloc_bal [OF assms q] by simp
  show ?thesis
  proof (cases "filealloc ft0")
    case None
    obtain k' where "kfileclose f0 ?k0 = Inr k'" "bal k' (((\<lambda>_. 0)(f0 := 1))(f0 := 0))"
      using close_own [OF b0, of f0] by auto
    then show ?thesis using that(1) q None by (simp add: pipealloc_def bal_file_inv fun_upd_idem)
  next
    case (Some r)
    then obtain ft1 f1 where r: "filealloc ft0 = Some (ft1, f1)" by (cases r) auto
    have "refs ft0 f0 = 1" using filealloc_refs(3) [OF q] by simp
    then have ne: "f0 \<noteq> f1" using filealloc_refs(2) [OF r] by auto
    let ?k1 = "k\<lparr>ftable := ft1\<rparr>"
    have "bal (?k0\<lparr>ftable := ft1\<rparr>) (((\<lambda>_. 0)(f0 := 1))(f1 := ((\<lambda>_. 0)(f0 := 1)) f1 + 1))"
      by (rule filealloc_bal [OF b0]) (use r in simp)
    then have b1: "bal ?k1 ((\<lambda>_. 0)(f0 := 1, f1 := 1))" using ne by simp
    show ?thesis
    proof (cases page)
      case None
      have "\<exists>k'. close_both f0 f1 ?k1 = Inr (k', -1) \<and> file_inv k'"
        by (rule close_both_ok [OF b1]) (use ne in auto)
      then show ?thesis
        using that(1) q r None by (auto simp: pipealloc_def close_both_def bindR_Inr)
    next
      case (Some pi)
      let ?k2 = "k\<lparr>ftable := modify f1 (set_pipe_end pi True) (modify f0 (set_pipe_end pi False) ft1)\<rparr>"
      have "bal ?k2 ((\<lambda>_. 0)(f0 := 1, f1 := 1))"
        using b1 by (simp add: bal_def refs_modify_same)
      then show ?thesis
        using that(2) [of ?k2 f0 f1] q r Some ne by (simp add: pipealloc_def)
    qed
  qed
qed

lemma sys_pipe_ok:
  assumes "caller_ok k i"
  shows "\<exists>k' r. sys_pipe i page copied k = Inr (k', r) \<and> file_inv k'"
proof -
  have c: "bal k (\<lambda>_. 0)" "i < length (ptable k)" "\<not> dead (state (proc_at k i))"
    using assms by (auto simp: caller_ok_def bal_file_inv)
  from c(1) show ?thesis
  proof (cases rule: pipealloc_ok [where page = page])
    case (1 k1)
    then show ?thesis by (simp add: sys_pipe_def)
  next
    case (2 k1 f0 f1)
    note b1 = 2(4)
    have c1: "i < length (ptable k1)" "\<not> dead (state (proc_at k1 i))" using c 2(3) by simp_all
    show ?thesis
    proof (cases "fdalloc i f0 k1")
      case None
      have "\<exists>k'. close_both f0 f1 k1 = Inr (k', -1) \<and> file_inv k'"
        by (rule close_both_ok [OF b1]) (use 2(2) in auto)
      then show ?thesis using 2(1) None by (auto simp: sys_pipe_def)
    next
      case (Some q)
      then obtain k2 fd0 where q: "fdalloc i f0 k1 = Some (k2, fd0)" by (cases q) auto
      note a = fdalloc_bal [OF b1 c1 q]
      have b2: "bal k2 ((\<lambda>_. 0)(f1 := 1))"
      proof -
        have "((\<lambda>_. 0)(f0 := 1, f1 := 1))(f0 := ((\<lambda>_. 0)(f0 := 1, f1 := 1)) f0 - 1) = (\<lambda>_. 0)(f1 := (1::int))"
          using 2(2) by auto
        with a(1) show ?thesis by simp
      qed
      have c2: "i < length (ptable k2)" "\<not> dead (state (proc_at k2 i))" using c1 a(3,4) by simp_all
      have h0: "fd0 < length (ofile (proc_at k2 i))" "ofile (proc_at k2 i) ! fd0 = Some f0"
        using a(5,6) by simp_all
      show ?thesis
      proof (cases "fdalloc i f1 k2")
        case None
        have b: "bal (clear_fd i fd0 k2) (((\<lambda>_. 0)(f1 := 1))(f0 := ((\<lambda>_. 0)(f1 := 1)) f0 + 1))"
          by (rule clear_fd_bal [OF b2 c2 h0])
        have "\<exists>k'. close_both f0 f1 (clear_fd i fd0 k2) = Inr (k', -1) \<and> file_inv k'"
          by (rule close_both_ok [OF b]) (use 2(2) in auto)
        then show ?thesis using 2(1) q None by (auto simp: sys_pipe_def)
      next
        case (Some s)
        then obtain k3 fd1 where s: "fdalloc i f1 k2 = Some (k3, fd1)" by (cases s) auto
        note a3 = fdalloc_bal [OF b2 c2 s]
        have b3: "bal k3 (\<lambda>_. 0)" using a3(1) by (simp add: fun_upd_idem)
        have c3: "i < length (ptable k3)" "\<not> dead (state (proc_at k3 i))" using c2 a3(3,4) by simp_all
        have ne: "fd0 \<noteq> fd1" using a3(7) h0(2) by auto
        have h3: "fd0 < length (ofile (proc_at k3 i))" "ofile (proc_at k3 i) ! fd0 = Some f0"
          "fd1 < length (ofile (proc_at k3 i))" "ofile (proc_at k3 i) ! fd1 = Some f1"
          using a3(5,6) h0 ne by simp_all
        let ?k4 = "clear_fd i fd0 k3"
        have b4: "bal ?k4 ((\<lambda>_. 0)(f0 := 0 + 1))" by (rule clear_fd_bal [OF b3 c3 h3(1,2)])
        have "bal (clear_fd i fd1 ?k4) (((\<lambda>_. 0)(f0 := 0 + 1))(f1 := ((\<lambda>_. 0)(f0 := 0 + 1)) f1 + 1))"
          by (rule clear_fd_bal [OF b4]) (use c3 h3 ne in simp_all)
        then have "\<exists>k'. close_both f0 f1 (clear_fd i fd1 ?k4) = Inr (k', -1) \<and> file_inv k'"
          by (rule close_both_ok) (use 2(2) in auto)
        then show ?thesis using 2(1) q s b3 by (auto simp: sys_pipe_def bal_file_inv)
      qed
    qed
  qed
qed

lemma file_inv_chdir:
  assumes "file_inv k" "sys_chdir i path dir k = (k', r)" shows "file_inv k'"
  by (rule file_inv_frame [OF assms(1)])
    (use assms(2) in \<open>auto simp: sys_chdir_def Let_def nth_modify_any split: option.splits if_splits\<close>)

section \<open>Reachable states\<close>

lemma caller_okI:
  assumes "file_inv k" "cpu_inv k" "all_slots files_ok k" "running k c i"
  shows "caller_ok k i"
  using assms cpu_inv_running [OF assms(2,4)] by (auto simp: caller_ok_def all_slots_nth)

lemma file_inv_step:
  assumes "kstep cfg k k'" "cpu_inv k" "all_slots files_ok k" "file_inv k" shows "file_inv k'"
  using assms(1)
proof (cases rule: kstep.cases)
  case (k_wakeup c ch)
  then show ?thesis using assms(4)
    by (auto simp: wakeup_state sleeps_on_def split: if_splits intro!: file_inv_frame [where k = k])
next
  case (k_resume c i)
  then show ?thesis using assms(4)
    by (auto simp: sleep_resume_def split: if_splits intro!: file_inv_frame [where k = k])
next
  case (k_setkilled c i)
  then show ?thesis using assms(4)
    by (auto simp: setkilled_def split: if_splits intro!: file_inv_frame [where k = k])
next
  case (k_dup c i fd r)
  then show ?thesis using sys_dup_ok [OF caller_okI [OF assms(4,2,3)], of c i fd] by auto
next
  case (k_close c i fd r)
  then show ?thesis using sys_close_ok [OF caller_okI [OF assms(4,2,3)], of c i fd] by auto
next
  case (k_open c i path omode ino r)
  then show ?thesis using sys_open_ok [OF caller_okI [OF assms(4,2,3)], of c i path omode ino] by auto
next
  case (k_pipe c i page copied r)
  then show ?thesis using sys_pipe_ok [OF caller_okI [OF assms(4,2,3)], of c i page copied] by auto
qed (use assms(2-4) in \<open>auto intro: file_inv_sched_step file_inv_timer file_inv_sleep file_inv_kill
    file_inv_fork file_inv_exit file_inv_wait file_inv_chdir dest: cpu_inv_running(2,3)\<close>)

lemma reachable_file_inv: "reachable cfg k \<Longrightarrow> file_inv k"
  by (induction rule: reachable.induct)
    (auto intro: file_inv_boot file_inv_step reachable_cpu_inv file_slots.reachable_slots)

text \<open>
  the panics of \<open>filedup\<close> and \<open>fileclose\<close> are unreachable when no call
  interrupts another (\<open>File_Steps\<close> has the calls interleaved): whatever
  arguments a process passes, \<open>dup\<close>, \<open>close\<close>, \<open>open\<close>, \<open>pipe\<close>, \<open>fork\<close> and,
  for a process other than init, \<open>exit\<close> return without a panic.
\<close>

theorem file_calls_never_panic:
  assumes "reachable cfg k" "running k c i"
  shows "(\<exists>r. sys_dup i fd k = Inr r) \<and> (\<exists>r. sys_close i fd k = Inr r)
    \<and> (\<exists>r. sys_open i path omode ino k = Inr r) \<and> (\<exists>r. sys_pipe i page copied k = Inr r)
    \<and> (\<exists>r. kfork cfg tf pt uvm i k = Inr r)
    \<and> (initproc k \<noteq> Some i \<longrightarrow> (\<exists>r. kexit cfg c i st k = Inr r))"
proof -
  note inv = reachable_file_inv [OF assms(1)] and cpu = reachable_cpu_inv [OF assms(1)]
    and fls = file_slots.reachable_slots [OF assms(1)]
  note ok = caller_okI [OF inv cpu fls assms(2)] and r = cpu_inv_running [OF cpu assms(2)]
  have "\<exists>r. kfork cfg tf pt uvm i k = Inr r"
  proof -
    obtain k1 r1 where a: "allocproc cfg tf pt k = (k1, r1)" by fastforce
    have "length (ptable k1) = length (ptable k)"
      using a by (cases rule: allocproc_cases) auto
    then have "\<exists>ft. dup_files (ofile (proc_at k1 i)) (ftable k1) = Inr ft"
      using file_inv_held [OF file_inv_alloc [OF inv a], of i] r(2) by (intro dup_files_ok) auto
    then show ?thesis using a by (auto simp: kfork_def Let_def split: option.split)
  qed
  moreover have "\<exists>r. kexit cfg c i st k = Inr r" if "initproc k \<noteq> Some i"
  proof -
    have "\<exists>ft ops. close_files (ofile (proc_at k i)) (ftable k) = Inr (ft, ops)"
      by (rule close_files_ok) (use nrefs_ge [OF r(2)] inv in \<open>auto simp: file_inv_def\<close>)
    then show ?thesis
      using that r by (auto simp: kexit_def sched_locked_Inr exit_zombie_state)
  qed
  ultimately show ?thesis
    using sys_dup_ok [OF ok] sys_close_ok [OF ok] sys_open_ok [OF ok] sys_pipe_ok [OF ok] by blast
qed

theorem file_calls_never_panic_witness:
  "reachable USE_RR trace_child \<and> running trace_child 0 1 \<and> initproc trace_child \<noteq> Some 1
   \<and> (\<exists>r. sys_dup 1 0 trace_child = Inr r) \<and> (\<exists>r. kexit USE_RR 0 1 0 trace_child = Inr r)"
  using file_calls_never_panic [of USE_RR trace_child 0 1 0]
  by (simp add: reachable_trace_child trace_child_state del: One_nat_def)

end
