(* ===== verification/File_Steps.thy ===== *)
theory File_Steps
  imports File_Inv
begin

text \<open>
  The calls that create, share and drop open files, section by section.

  \<open>Sysfile\<close> and \<open>Proc\<close> give each call as one function.  In the kernel a call is
  a sequence of sections: \<open>filealloc\<close>, \<open>filedup\<close> and \<open>fileclose\<close> each take and
  release \<open>ftable.lock\<close>, \<open>fileclose\<close> may then sleep in \<open>begin_op\<close>, and the
  descriptors are written without that lock.  Between two sections any other
  process may run.  Here the state adds to the kernel, for every process, where
  in such a call it is (\<open>fcall\<close>); \<open>advance\<close> performs the next section, and
  \<open>fstep\<close> interleaves the sections of all processes with the scheduler, timer
  interrupts, sleeping and wakeups, \<open>kill\<close>, \<open>wait\<close> and \<open>chdir\<close>.  The work
  that \<open>fileclose\<close> does after it has released the lock (\<open>pipeclose\<close>, or
  \<open>iput\<close> in a transaction) is recorded in the order of the sections; a process
  may sleep after any section.
\<close>

section \<open>Where a call can be interrupted\<close>

text \<open>
  \<open>Closing fs ops\<close>: \<open>fileclose\<close> of each of \<open>fs\<close>, then \<open>ops\<close>, remain.
  \<open>DupInstalled\<close>: the new descriptor is written, \<open>filedup\<close> remains.
  \<open>OpenAllocated\<close> and \<open>OpenInstalled\<close>: \<open>filealloc\<close>, then \<open>fdalloc\<close> has been
  done.  \<open>PipeHalf\<close>, \<open>PipeBoth\<close>: one or both file structures are allocated;
  \<open>PipeMade\<close>: the pipe too; \<open>PipeReadEnd\<close>, \<open>PipeEnds\<close>: one or both
  descriptors are written.  \<open>ForkLoop j fd\<close> and \<open>ExitLoop st fd\<close>: the loops over
  the descriptors are at \<open>fd\<close>; \<open>ForkDup\<close> and \<open>ExitClosed\<close>: inside an iteration,
  after \<open>filedup\<close> or \<open>fileclose\<close> and before the descriptor is written.
\<close>

datatype fcall =
    InUser
  | DupInstalled nat
  | Closing "nat list" "kop list"
  | OpenAllocated uint32 nat itype int nat
  | OpenInstalled uint32 nat itype int nat
  | PipeHalf nat
  | PipeBoth nat nat
  | PipeMade nat nat
  | PipeReadEnd nat nat nat
  | PipeEnds nat nat nat nat
  | ForkLoop nat nat
  | ForkDup nat nat nat
  | ExitLoop int nat
  | ExitClosed int nat

record fkernel =
  kern :: kernel
  pcs :: "nat \<Rightarrow> fcall"

section \<open>First sections\<close>

definition start_dup :: "nat \<Rightarrow> int \<Rightarrow> kernel \<Rightarrow> kernel \<times> fcall" where
  "start_dup i fd k =
     (case argfd i fd k of
        None \<Rightarrow> (k, InUser)
      | Some (_, f) \<Rightarrow>
          (case fdalloc i f k of None \<Rightarrow> (k, InUser) | Some (k1, _) \<Rightarrow> (k1, DupInstalled f)))"

definition start_close :: "nat \<Rightarrow> int \<Rightarrow> kernel \<Rightarrow> kernel \<times> fcall" where
  "start_close i fd k =
     (case argfd i fd k of
        None \<Rightarrow> (k, InUser) | Some (n, f) \<Rightarrow> (clear_fd i n k, Closing [f] []))"

definition start_open ::
  "string option \<Rightarrow> uint32 \<Rightarrow> (nat \<times> itype \<times> int) option \<Rightarrow> kernel \<Rightarrow> kernel \<times> fcall" where
  "start_open path omode ino k =
     (case path of None \<Rightarrow> (k, InUser) | Some s \<Rightarrow>
        let cr = flag omode O_CREATE;
            k0 = log_kops [OpBegin, (if cr then OpCreate s else OpNamei s)] k
        in case ino of
             None \<Rightarrow> (log_kops [OpEnd] k0, InUser)
           | Some (ip, ty, mj) \<Rightarrow>
               let k1 = (if cr then k0 else log_kops [OpIlock ip] k0);
                   fail = (log_kops [OpIunlockput ip, OpEnd] k1, InUser)
               in if \<not> cr \<and> ty = T_DIR \<and> omode \<noteq> O_RDONLY then fail
                  else if ty = T_DEVICE \<and> (mj < 0 \<or> mj \<ge> NDEV) then fail
                  else (case filealloc (ftable k1) of
                          None \<Rightarrow> fail
                        | Some (ft, f) \<Rightarrow> (k1\<lparr>ftable := ft\<rparr>, OpenAllocated omode ip ty mj f)))"

definition start_pipe :: "kernel \<Rightarrow> kernel \<times> fcall" where
  "start_pipe k =
     (case filealloc (ftable k) of
        None \<Rightarrow> (k, InUser) | Some (ft, f) \<Rightarrow> (k\<lparr>ftable := ft\<rparr>, PipeHalf f))"

text \<open>The slot of the child is claimed by \<open>allocproc\<close>; no other process touches a slot in state USED.\<close>

definition start_fork ::
  "sched_cfg \<Rightarrow> trapframe option \<Rightarrow> uint64 \<Rightarrow> int \<Rightarrow> kernel \<Rightarrow> kernel \<times> fcall" where
  "start_fork cfg tf pt uvm k =
     (case allocproc cfg tf pt k of
        (k1, None) \<Rightarrow> (k1, InUser)
      | (k1, Some j) \<Rightarrow> if uvm < 0 then (freeproc cfg j k1, InUser) else (k1, ForkLoop j 0))"

definition start_exit :: "nat \<Rightarrow> int \<Rightarrow> kernel \<Rightarrow> (kernel \<times> fcall) res" where
  "start_exit i st k = (if initproc k = Some i then Inl ''init exiting'' else Inr (k, ExitLoop st 0))"

section \<open>The next section\<close>

definition fork_rest :: "proc \<Rightarrow> nat \<Rightarrow> proc \<Rightarrow> proc" where
  "fork_rest p i np = np\<lparr>sz := sz p, p_trapframe := child_trapframe p, cwd := cwd p,
     pname := safestrcpy_name (pname p), parent := Some i, state := RUNNABLE\<rparr>"

definition exit_cwd :: "nat \<Rightarrow> kernel \<Rightarrow> kernel" where
  "exit_cwd i k = upd i (\<lambda>p. p\<lparr>cwd := None\<rparr>)
     (log_kops ([OpBegin] @ (case cwd (proc_at k i) of None \<Rightarrow> [] | Some d \<Rightarrow> [OpIput d]) @ [OpEnd]) k)"

definition dup_ref :: "nat \<Rightarrow> kernel \<Rightarrow> (kernel \<times> fcall) res" where
  "dup_ref f k = bindR (kfiledup f k) (\<lambda>k1. Inr (k1, InUser))"

definition close_next :: "nat list \<Rightarrow> kop list \<Rightarrow> kernel \<Rightarrow> (kernel \<times> fcall) res" where
  "close_next fs ops k =
     (case fs of
        [] \<Rightarrow> Inr (log_kops ops k, InUser)
      | f # gs \<Rightarrow> bindR (kfileclose f k) (\<lambda>k1. Inr (k1, Closing gs ops)))"

definition open_fd :: "nat \<Rightarrow> uint32 \<Rightarrow> nat \<Rightarrow> itype \<Rightarrow> int \<Rightarrow> nat \<Rightarrow> kernel \<Rightarrow> (kernel \<times> fcall) res" where
  "open_fd i omode ip ty mj f k =
     (case fdalloc i f k of
        None \<Rightarrow> Inr (k, Closing [f] [OpIunlockput ip, OpEnd])
      | Some (k1, fd) \<Rightarrow> Inr (k1, OpenInstalled omode ip ty mj f))"

definition open_set :: "uint32 \<Rightarrow> nat \<Rightarrow> itype \<Rightarrow> int \<Rightarrow> nat \<Rightarrow> kernel \<Rightarrow> (kernel \<times> fcall) res" where
  "open_set omode ip ty mj f k =
     Inr (log_kops ((if flag omode O_TRUNC \<and> ty = T_FILE then [OpItrunc ip] else []) @ [OpIunlock ip, OpEnd])
            (k\<lparr>ftable := modify f (set_open omode ip ty mj) (ftable k)\<rparr>), InUser)"

definition pipe_second :: "nat \<Rightarrow> kernel \<Rightarrow> (kernel \<times> fcall) res" where
  "pipe_second f0 k =
     (case filealloc (ftable k) of
        None \<Rightarrow> Inr (k, Closing [f0] [])
      | Some (ft, f1) \<Rightarrow> Inr (k\<lparr>ftable := ft\<rparr>, PipeBoth f0 f1))"

definition pipe_make :: "nat option \<Rightarrow> nat \<Rightarrow> nat \<Rightarrow> kernel \<Rightarrow> (kernel \<times> fcall) res" where
  "pipe_make page f0 f1 k =
     (case page of
        None \<Rightarrow> Inr (k, Closing [f0, f1] [])
      | Some pi \<Rightarrow> Inr (k\<lparr>ftable := modify f1 (set_pipe_end pi True)
                                    (modify f0 (set_pipe_end pi False) (ftable k))\<rparr>, PipeMade f0 f1))"

definition pipe_fd0 :: "nat \<Rightarrow> nat \<Rightarrow> nat \<Rightarrow> kernel \<Rightarrow> (kernel \<times> fcall) res" where
  "pipe_fd0 i f0 f1 k =
     (case fdalloc i f0 k of
        None \<Rightarrow> Inr (k, Closing [f0, f1] [])
      | Some (k1, fd0) \<Rightarrow> Inr (k1, PipeReadEnd f0 f1 fd0))"

definition pipe_fd1 :: "nat \<Rightarrow> nat \<Rightarrow> nat \<Rightarrow> nat \<Rightarrow> kernel \<Rightarrow> (kernel \<times> fcall) res" where
  "pipe_fd1 i f0 f1 fd0 k =
     (case fdalloc i f1 k of
        None \<Rightarrow> Inr (clear_fd i fd0 k, Closing [f0, f1] [])
      | Some (k1, fd1) \<Rightarrow> Inr (k1, PipeEnds f0 f1 fd0 fd1))"

definition pipe_copyout :: "nat \<Rightarrow> bool \<Rightarrow> nat \<Rightarrow> nat \<Rightarrow> nat \<Rightarrow> nat \<Rightarrow> kernel \<Rightarrow> (kernel \<times> fcall) res" where
  "pipe_copyout i copied f0 f1 fd0 fd1 k =
     (if copied then Inr (k, InUser)
      else Inr (clear_fd i fd1 (clear_fd i fd0 k), Closing [f0, f1] []))"

definition fork_next :: "sched_cfg \<Rightarrow> nat \<Rightarrow> nat \<Rightarrow> nat \<Rightarrow> kernel \<Rightarrow> (kernel \<times> fcall) res" where
  "fork_next cfg i j fd k =
     (if fd < NOFILE then
        (case ofile (proc_at k i) ! fd of
           None \<Rightarrow> Inr (k, ForkLoop j (Suc fd))
         | Some f \<Rightarrow> bindR (kfiledup f k) (\<lambda>k1. Inr (k1, ForkDup j fd f)))
      else
        (let p = proc_at k i;
             k1 = log_kops (case cwd p of None \<Rightarrow> [] | Some d \<Rightarrow> [OpIdup d]) k
         in Inr (enqueue cfg j (upd j (fork_rest p i) k1), InUser)))"

definition fork_store :: "nat \<Rightarrow> nat \<Rightarrow> nat \<Rightarrow> kernel \<Rightarrow> (kernel \<times> fcall) res" where
  "fork_store j fd f k = Inr (upd j (\<lambda>np. np\<lparr>ofile := (ofile np)[fd := Some f]\<rparr>) k, ForkLoop j (Suc fd))"

definition exit_next :: "sched_cfg \<Rightarrow> nat \<Rightarrow> nat \<Rightarrow> int \<Rightarrow> nat \<Rightarrow> kernel \<Rightarrow> (kernel \<times> fcall) res" where
  "exit_next cfg c i st fd k =
     (if fd < NOFILE then
        (case ofile (proc_at k i) ! fd of
           None \<Rightarrow> Inr (k, ExitLoop st (Suc fd))
         | Some f \<Rightarrow> bindR (kfileclose f k) (\<lambda>k1. Inr (k1, ExitClosed st fd)))
      else
        bindR (sched_locked cfg c i (exit_zombie cfg i st (exit_cwd i k))) (\<lambda>k1. Inr (k1, InUser)))"

definition exit_clear :: "nat \<Rightarrow> int \<Rightarrow> nat \<Rightarrow> kernel \<Rightarrow> (kernel \<times> fcall) res" where
  "exit_clear i st fd k = Inr (clear_fd i fd k, ExitLoop st (Suc fd))"

text \<open>\<open>page\<close> is the answer of \<open>kalloc\<close> and \<open>copied\<close> that of \<open>copyout\<close>, for the sections that ask.\<close>

fun advance ::
  "sched_cfg \<Rightarrow> nat \<Rightarrow> nat \<Rightarrow> nat option \<Rightarrow> bool \<Rightarrow> fcall \<Rightarrow> kernel \<Rightarrow> (kernel \<times> fcall) res" where
  "advance cfg c i page copied InUser k = Inr (k, InUser)"
| "advance cfg c i page copied (DupInstalled f) k = dup_ref f k"
| "advance cfg c i page copied (Closing fs ops) k = close_next fs ops k"
| "advance cfg c i page copied (OpenAllocated omode ip ty mj f) k = open_fd i omode ip ty mj f k"
| "advance cfg c i page copied (OpenInstalled omode ip ty mj f) k = open_set omode ip ty mj f k"
| "advance cfg c i page copied (PipeHalf f0) k = pipe_second f0 k"
| "advance cfg c i page copied (PipeBoth f0 f1) k = pipe_make page f0 f1 k"
| "advance cfg c i page copied (PipeMade f0 f1) k = pipe_fd0 i f0 f1 k"
| "advance cfg c i page copied (PipeReadEnd f0 f1 fd0) k = pipe_fd1 i f0 f1 fd0 k"
| "advance cfg c i page copied (PipeEnds f0 f1 fd0 fd1) k = pipe_copyout i copied f0 f1 fd0 fd1 k"
| "advance cfg c i page copied (ForkLoop j fd) k = fork_next cfg i j fd k"
| "advance cfg c i page copied (ForkDup j fd f) k = fork_store j fd f k"
| "advance cfg c i page copied (ExitLoop st fd) k = exit_next cfg c i st fd k"
| "advance cfg c i page copied (ExitClosed st fd) k = exit_clear i st fd k"

lemmas section_defs [simp] =
  dup_ref_def close_next_def open_fd_def open_set_def pipe_second_def pipe_make_def pipe_fd0_def
  pipe_fd1_def pipe_copyout_def fork_next_def fork_store_def exit_next_def exit_clear_def

section \<open>Interleaving\<close>

definition put_call :: "nat \<Rightarrow> kernel \<times> fcall \<Rightarrow> fkernel \<Rightarrow> fkernel" where
  "put_call i r x = x\<lparr>kern := fst r, pcs := (pcs x)(i := snd r)\<rparr>"

definition idle :: "fkernel \<Rightarrow> nat \<Rightarrow> nat \<Rightarrow> bool" where
  "idle x c i \<longleftrightarrow> running (kern x) c i \<and> pcs x i = InUser"

inductive fstep :: "sched_cfg \<Rightarrow> fkernel \<Rightarrow> fkernel \<Rightarrow> bool" for cfg where
  f_sched: "c < length (cpus (kern x)) \<Longrightarrow> cproc (cpus (kern x) ! c) = None \<Longrightarrow>
    fstep cfg x (x\<lparr>kern := sched_step cfg c (kern x)\<rparr>)"
| f_timer: "c < length (cpus (kern x)) \<Longrightarrow> timer_trap cfg c (kern x) = Inr k \<Longrightarrow> fstep cfg x (x\<lparr>kern := k\<rparr>)"
| f_wakeup: "c < length (cpus (kern x)) \<Longrightarrow>
    fstep cfg x (x\<lparr>kern := wakeup cfg (cproc (cpus (kern x) ! c)) (Some ch) (kern x)\<rparr>)"
| f_sleep: "running (kern x) c i \<Longrightarrow> sleep cfg c i ch (kern x) = Inr k \<Longrightarrow> fstep cfg x (x\<lparr>kern := k\<rparr>)"
| f_resume: "running (kern x) c i \<Longrightarrow> fstep cfg x (x\<lparr>kern := sleep_resume i (kern x)\<rparr>)"
| f_setkilled: "running (kern x) c i \<Longrightarrow> fstep cfg x (x\<lparr>kern := setkilled i (kern x)\<rparr>)"
| f_kill: "idle x c i \<Longrightarrow> kkill cfg n (kern x) = (k, r) \<Longrightarrow> fstep cfg x (x\<lparr>kern := k\<rparr>)"
| f_wait: "idle x c i \<Longrightarrow> kwait cfg c i addr ok (kern x) = Inr (k, w) \<Longrightarrow> fstep cfg x (x\<lparr>kern := k\<rparr>)"
| f_chdir: "idle x c i \<Longrightarrow> sys_chdir i path dir (kern x) = (k, r) \<Longrightarrow> fstep cfg x (x\<lparr>kern := k\<rparr>)"
| f_dup: "idle x c i \<Longrightarrow> fstep cfg x (put_call i (start_dup i fd (kern x)) x)"
| f_close: "idle x c i \<Longrightarrow> fstep cfg x (put_call i (start_close i fd (kern x)) x)"
| f_open: "idle x c i \<Longrightarrow> fstep cfg x (put_call i (start_open path omode ino (kern x)) x)"
| f_pipe: "idle x c i \<Longrightarrow> fstep cfg x (put_call i (start_pipe (kern x)) x)"
| f_fork: "idle x c i \<Longrightarrow> fstep cfg x (put_call i (start_fork cfg tf pt uvm (kern x)) x)"
| f_exit: "idle x c i \<Longrightarrow> start_exit i st (kern x) = Inr r \<Longrightarrow> fstep cfg x (put_call i r x)"
| f_advance: "running (kern x) c i \<Longrightarrow> advance cfg c i page copied (pcs x i) (kern x) = Inr r \<Longrightarrow>
    fstep cfg x (put_call i r x)"

inductive freachable :: "sched_cfg \<Rightarrow> fkernel \<Rightarrow> bool" for cfg where
  fr_boot: "userinit cfg tf pt root procinit = Some k \<Longrightarrow> freachable cfg \<lparr>kern = k, pcs = (\<lambda>_. InUser)\<rparr>"
| fr_step: "freachable cfg x \<Longrightarrow> fstep cfg x y \<Longrightarrow> freachable cfg y"

section \<open>Who holds references\<close>

text \<open>
  The references a call under way holds apart from its descriptors; negative
  for a descriptor that holds no reference, which is the new one of \<open>dup\<close> before
  \<open>filedup\<close> and the one \<open>kexit\<close> has closed and not yet cleared.
\<close>

fun in_flight :: "fcall \<Rightarrow> nat option list \<Rightarrow> nat \<Rightarrow> int" where
  "in_flight (DupInstalled g) fs f = (if g = f then -1 else 0)"
| "in_flight (Closing gs ops) fs f = int (count_list gs f)"
| "in_flight (OpenAllocated omode ip ty mj g) fs f = (if g = f then 1 else 0)"
| "in_flight (PipeHalf g) fs f = (if g = f then 1 else 0)"
| "in_flight (PipeBoth g h) fs f = (if g = f then 1 else 0) + (if h = f then 1 else 0)"
| "in_flight (PipeMade g h) fs f = (if g = f then 1 else 0) + (if h = f then 1 else 0)"
| "in_flight (PipeReadEnd g h fd0) fs f = (if h = f then 1 else 0)"
| "in_flight (ForkDup j fd g) fs f = (if g = f then 1 else 0)"
| "in_flight (ExitClosed st fd) fs f = (if fs ! fd = Some f then -1 else 0)"
| "in_flight _ fs f = 0"

definition owns :: "fcall \<Rightarrow> nat option list \<Rightarrow> nat \<Rightarrow> int" where
  "owns pc fs f = held fs f + in_flight pc fs f"

definition fdtab :: "kernel \<Rightarrow> nat \<Rightarrow> nat option list" where
  "fdtab k i = ofile (proc_at k i)"

fun call_ok :: "fcall \<Rightarrow> kernel \<Rightarrow> nat \<Rightarrow> bool" where
  "call_ok (DupInstalled f) k i \<longleftrightarrow> 2 \<le> held (fdtab k i) f"
| "call_ok (PipeReadEnd f0 f1 fd0) k i \<longleftrightarrow> fd0 < NOFILE \<and> fdtab k i ! fd0 = Some f0"
| "call_ok (PipeEnds f0 f1 fd0 fd1) k i \<longleftrightarrow> fd0 < NOFILE \<and> fdtab k i ! fd0 = Some f0
     \<and> fd1 < NOFILE \<and> fdtab k i ! fd1 = Some f1 \<and> fd0 \<noteq> fd1"
| "call_ok (ForkLoop j fd) k i \<longleftrightarrow> j < length (ptable k) \<and> state (proc_at k j) = USED
     \<and> (\<forall>n. fd \<le> n \<longrightarrow> n < NOFILE \<longrightarrow> fdtab k j ! n = None)"
| "call_ok (ForkDup j fd f) k i \<longleftrightarrow> j < length (ptable k) \<and> state (proc_at k j) = USED
     \<and> fd < NOFILE \<and> (\<forall>n. fd \<le> n \<longrightarrow> n < NOFILE \<longrightarrow> fdtab k j ! n = None)"
| "call_ok (ExitLoop st fd) k i \<longleftrightarrow> (\<forall>n < NOFILE. n < fd \<longrightarrow> fdtab k i ! n = None)"
| "call_ok (ExitClosed st fd) k i \<longleftrightarrow> fd < NOFILE \<and> fdtab k i ! fd \<noteq> None
     \<and> (\<forall>n < NOFILE. n < fd \<longrightarrow> fdtab k i ! n = None)"
| "call_ok _ k i \<longleftrightarrow> True"

fun child_of :: "fcall \<Rightarrow> nat option" where
  "child_of (ForkLoop j fd) = Some j"
| "child_of (ForkDup j fd f) = Some j"
| "child_of _ = None"

lemma call_ok_cong:
  assumes "call_ok pc k i" "length (ptable k') = length (ptable k)" "fdtab k' i = fdtab k i"
    "\<And>j. child_of pc = Some j \<Longrightarrow> j < length (ptable k) \<Longrightarrow> state (proc_at k j) = USED \<Longrightarrow>
       fdtab k' j = fdtab k j \<and> state (proc_at k' j) = USED"
  shows "call_ok pc k' i"
  using assms by (cases pc) auto

definition slots_inv :: "(nat \<Rightarrow> fcall) \<Rightarrow> kernel \<Rightarrow> bool" where
  "slots_inv pc k \<longleftrightarrow> (\<forall>i < length (ptable k).
     length (fdtab k i) = NOFILE \<and> call_ok (pc i) k i
   \<and> (dead (state (proc_at k i)) \<or> state (proc_at k i) = USED \<longrightarrow> pc i = InUser)
   \<and> (dead (state (proc_at k i)) \<longrightarrow> (\<forall>e \<in> set (fdtab k i). e = None)))"

definition lone_children :: "(nat \<Rightarrow> fcall) \<Rightarrow> nat \<Rightarrow> bool" where
  "lone_children pc n \<longleftrightarrow>
     (\<forall>i j c. i < n \<longrightarrow> j < n \<longrightarrow> child_of (pc i) = Some c \<longrightarrow> child_of (pc j) = Some c \<longrightarrow> i = j)"

lemma lone_children_upd:
  assumes "lone_children pc n" "i < n"
    "\<And>l j. child_of p = Some j \<Longrightarrow> l < n \<Longrightarrow> l \<noteq> i \<Longrightarrow> child_of (pc l) \<noteq> Some j"
  shows "lone_children (pc(i := p)) n"
  unfolding lone_children_def
proof (intro allI impI)
  fix a b c assume h: "a < n" "b < n" "child_of ((pc(i := p)) a) = Some c" "child_of ((pc(i := p)) b) = Some c"
  then show "a = b"
    using assms(1) assms(3) [of c a] assms(3) [of c b] unfolding lone_children_def
    by (cases "a = i"; cases "b = i") auto
qed

lemma lone_children_keep:
  assumes "lone_children pc n" "i < n" "child_of p = None \<or> child_of p = child_of (pc i)"
  shows "lone_children (pc(i := p)) n"
proof (rule lone_children_upd [OF assms(1,2)])
  fix l j assume h: "child_of p = Some j" "l < n" "l \<noteq> i"
  then have "child_of (pc i) = Some j" using assms(3) by auto
  with h(2,3) assms(1,2) show "child_of (pc l) \<noteq> Some j" unfolding lone_children_def by blast
qed

definition all_owned :: "(nat \<Rightarrow> fcall) \<Rightarrow> kernel \<Rightarrow> nat \<Rightarrow> int" where
  "all_owned pc k f = (\<Sum>i < length (ptable k). owns (pc i) (fdtab k i) f)"

definition finv :: "fkernel \<Rightarrow> bool" where
  "finv x \<longleftrightarrow> cpu_inv (kern x) \<and> slots_inv (pcs x) (kern x) \<and> lone_children (pcs x) (length (ptable (kern x)))
     \<and> (\<forall>f. refs (ftable (kern x)) f = all_owned (pcs x) (kern x) f)"

lemma owns_nonneg:
  assumes "slots_inv pc k" "i < length (ptable k)"
  shows "0 \<le> owns (pc i) (fdtab k i) f"
proof -
  have c: "call_ok (pc i) k i" "length (fdtab k i) = NOFILE" using assms by (auto simp: slots_inv_def)
  show ?thesis
  proof (cases "pc i")
    case (DupInstalled g)
    then show ?thesis using c held_nonneg [of "fdtab k i" f] by (auto simp: owns_def)
  next
    case (ExitClosed st fd)
    then have "Some g \<in> set (fdtab k i)" if "fdtab k i ! fd = Some g" for g
      using c that by (metis call_ok.simps(7) nth_mem)
    then show ?thesis using ExitClosed held_nonneg [of "fdtab k i" f] by (auto simp: owns_def held_pos)
  qed (use held_nonneg [of "fdtab k i" f] in \<open>auto simp: owns_def\<close>)
qed

lemma owns_le_total:
  assumes "slots_inv pc k" "i < length (ptable k)"
  shows "owns (pc i) (fdtab k i) f \<le> all_owned pc k f"
  unfolding all_owned_def using assms(2) owns_nonneg [OF assms(1)] by (intro member_le_sum) auto

text \<open>What a process that is about to drop or share a reference can rely on.\<close>

lemma owned_ref:
  assumes "finv x" "i < length (ptable (kern x))" "1 \<le> owns (pcs x i) (fdtab (kern x) i) f"
  shows "1 \<le> refs (ftable (kern x)) f"
  using assms owns_le_total [of "pcs x" "kern x" i f] by (simp add: finv_def)

lemma fdtab_slot:
  assumes "slots_inv pc k" "i < length (ptable k)" "fd < NOFILE" "fdtab k i ! fd = Some f"
  shows "1 \<le> held (fdtab k i) f"
proof -
  have "Some f \<in> set (fdtab k i)" using assms by (metis slots_inv_def nth_mem)
  then show ?thesis using held_pos [of f "fdtab k i"] by linarith
qed

section \<open>Steps of one process on its own descriptors\<close>

lemma total_own:
  assumes "length (ptable k') = length (ptable k)" "i < length (ptable k)"
    "\<And>j. j < length (ptable k) \<Longrightarrow> j \<noteq> i \<Longrightarrow> fdtab k' j = fdtab k j"
  shows "all_owned (pc(i := p)) k' f = all_owned pc k f - owns (pc i) (fdtab k i) f + owns p (fdtab k' i) f"
proof -
  have "(\<Sum>j \<in> {..<length (ptable k)} - {i}. owns ((pc(i := p)) j) (fdtab k' j) f)
      = (\<Sum>j \<in> {..<length (ptable k)} - {i}. owns (pc j) (fdtab k j) f)"
    by (rule sum.cong) (use assms(3) in auto)
  then show ?thesis
    using assms(2) by (simp add: all_owned_def assms(1) sum.remove [of "{..<length (ptable k)}" i])
qed

text \<open>The state of other slots and the children under construction are out of reach of such a step.\<close>

lemma finv_own:
  assumes inv: "finv x" and run: "running (kern x) c i" and same: "sans_files k' = sans_files (kern x)"
    and tab: "\<And>j. j < length (ptable (kern x)) \<Longrightarrow> j \<noteq> i \<Longrightarrow> fdtab k' j = fdtab (kern x) j"
    and len: "length (fdtab k' i) = NOFILE"
    and ok: "call_ok p k' i" and ch: "child_of p = None \<or> child_of p = child_of (pcs x i)"
    and refs: "\<And>f. refs (ftable k') f = refs (ftable (kern x)) f
      - owns (pcs x i) (fdtab (kern x) i) f + owns p (fdtab k' i) f"
  shows "finv (put_call i (k', p) x)"
proof -
  let ?k = "kern x" and ?n = "length (ptable (kern x))"
  note s = sans_files_fields [OF same]
  have cpu: "cpu_inv ?k" and sl: "slots_inv (pcs x) ?k" using inv by (simp_all add: finv_def)
  note r = cpu_inv_running [OF cpu run]
  have "cpu_inv k'" by (rule cpu_inv_frame [OF cpu s(1,4)]) (simp add: s(5))
  moreover have "slots_inv ((pcs x)(i := p)) k'"
    unfolding slots_inv_def s(4)
  proof (intro allI impI)
    fix j assume j: "j < ?n"
    have other: "call_ok (pcs x j) k' j" if "j \<noteq> i"
    proof (rule call_ok_cong [of _ ?k])
      fix l assume l: "l < ?n" "state (proc_at ?k l) = USED"
      then have "l \<noteq> i" using r(3) by auto
      with l tab s(5) show "fdtab k' l = fdtab ?k l \<and> state (proc_at k' l) = USED" by auto
    qed (use sl j that s(4) tab in \<open>auto simp: slots_inv_def\<close>)
    show "length (fdtab k' j) = NOFILE \<and> call_ok (((pcs x)(i := p)) j) k' j
      \<and> (dead (state (proc_at k' j)) \<or> state (proc_at k' j) = USED \<longrightarrow> ((pcs x)(i := p)) j = InUser)
      \<and> (dead (state (proc_at k' j)) \<longrightarrow> (\<forall>e \<in> set (fdtab k' j). e = None))"
      using sl j other tab len ok s(5) r(3) by (cases "j = i") (auto simp: slots_inv_def)
  qed
  moreover have "refs (ftable k') f = all_owned ((pcs x)(i := p)) k' f" for f
    using total_own [of k' ?k i "pcs x" p f] s(4) r(2) tab refs [of f] inv by (simp add: finv_def)
  moreover have "lone_children ((pcs x)(i := p)) (length (ptable k'))"
    using lone_children_keep [of "pcs x" ?n i p] inv ch r(2) s(4) by (simp add: finv_def)
  ultimately show ?thesis by (simp add: finv_def put_call_def)
qed

lemma kfileclose_effect:
  assumes "1 \<le> refs (ftable k) f"
  obtains k1 where "kfileclose f k = Inr k1" "fdtab k1 = fdtab k" "sans_files k1 = sans_files k"
    "refs (ftable k1) = (refs (ftable k))(f := refs (ftable k) f - 1)"
proof -
  note l = refs_pos_less [OF assms]
  from fileclose_ok [OF l assms] obtain ft ops where c: "fileclose f (ftable k) = Inr (ft, ops)" by blast
  show ?thesis
    by (rule that [of "log_kops ops (k\<lparr>ftable := ft\<rparr>)"])
      (use c fileclose_refs(2) [OF c l] in \<open>auto simp: kfileclose_def fdtab_def fun_eq_iff\<close>)
qed

lemma kfiledup_effect:
  assumes "1 \<le> refs (ftable k) f"
  obtains k1 where "kfiledup f k = Inr k1" "fdtab k1 = fdtab k" "sans_files k1 = sans_files k"
    "refs (ftable k1) = (refs (ftable k))(f := refs (ftable k) f + 1)"
proof -
  note l = refs_pos_less [OF assms]
  from filedup_ok [OF l assms] obtain ft where c: "filedup f (ftable k) = Inr ft" by blast
  show ?thesis
    by (rule that [of "k\<lparr>ftable := ft\<rparr>"])
      (use c filedup_refs(2) [OF c l] in \<open>auto simp: kfiledup_def fdtab_def fun_eq_iff\<close>)
qed

lemma fdalloc_effect:
  assumes "fdalloc i f k = Some (k1, fd)" "i < length (ptable k)"
  shows "fdtab k1 = (fdtab k)(i := (fdtab k i)[fd := Some f])" "fd < length (fdtab k i)" "fdtab k i ! fd = None"
    "ftable k1 = ftable k" "sans_files k1 = sans_files k"
proof -
  from assms(1) have fd: "find_idx (\<lambda>e. e = None) (fdtab k i) = Some fd"
    and k1: "k1 = upd i (\<lambda>p. p\<lparr>ofile := (ofile p)[fd := Some f]\<rparr>) k"
    by (auto simp: fdalloc_def fdtab_def split: option.splits)
  show "fd < length (fdtab k i)" "fdtab k i ! fd = None" using find_idx_SomeD(1,2) [OF fd] by simp_all
  show "fdtab k1 = (fdtab k)(i := (fdtab k i)[fd := Some f])" "ftable k1 = ftable k"
    using assms(2) by (auto simp: k1 fdtab_def fun_eq_iff nth_modify_any)
  show "sans_files k1 = sans_files k" using assms(1) by (rule sans_files_kfile(3))
qed

lemma clear_fd_table: "i < length (ptable k) \<Longrightarrow> fdtab (clear_fd i fd k) = (fdtab k)(i := (fdtab k i)[fd := None])"
  by (auto simp: fdtab_def clear_fd_def fun_eq_iff nth_modify_any)

lemma fdtab_frame [simp]:
  "fdtab (log_kops ops k) = fdtab k" "fdtab (k\<lparr>ftable := ft\<rparr>) = fdtab k"
  by (simp_all add: fdtab_def fun_eq_iff)

lemma finv_caller:
  assumes "finv x" "running (kern x) c i"
  shows "i < length (ptable (kern x))" "state (proc_at (kern x) i) = RUNNING"
    "length (fdtab (kern x) i) = NOFILE" "call_ok (pcs x i) (kern x) i"
  using cpu_inv_running [OF _ assms(2)] assms(1) by (auto simp: finv_def slots_inv_def)

section \<open>Every section succeeds and keeps the invariant\<close>

definition moves_on :: "sched_cfg \<Rightarrow> nat \<Rightarrow> nat \<Rightarrow> nat option \<Rightarrow> bool \<Rightarrow> fkernel \<Rightarrow> bool" where
  "moves_on cfg c i page copied x \<longleftrightarrow>
     (\<exists>r. advance cfg c i page copied (pcs x i) (kern x) = Inr r \<and> finv (put_call i r x))"

lemma dup_moves_on:
  assumes "finv x" "running (kern x) c i" "pcs x i = DupInstalled f"
  shows "moves_on cfg c i page copied x"
proof -
  note r = finv_caller [OF assms(1,2)]
  have "1 \<le> refs (ftable (kern x)) f"
    by (rule owned_ref [OF assms(1) r(1)]) (use r(4) assms(3) in \<open>simp add: owns_def\<close>)
  then obtain k1 where k1: "kfiledup f (kern x) = Inr k1" "fdtab k1 = fdtab (kern x)"
    "sans_files k1 = sans_files (kern x)"
    "refs (ftable k1) = (refs (ftable (kern x)))(f := refs (ftable (kern x)) f + 1)" by (rule kfiledup_effect)
  have "finv (put_call i (k1, InUser) x)"
    by (rule finv_own [OF assms(1,2) k1(3)]) (use k1 r assms(3) in \<open>auto simp: owns_def\<close>)
  with k1(1) assms(3) show ?thesis by (simp add: moves_on_def)
qed

lemma closing_moves_on:
  assumes "finv x" "running (kern x) c i" "pcs x i = Closing fs ops"
  shows "moves_on cfg c i page copied x"
proof (cases fs)
  case Nil
  have "finv (put_call i (log_kops ops (kern x), InUser) x)"
    by (rule finv_own [OF assms(1,2)]) (use finv_caller [OF assms(1,2)] assms(3) Nil in \<open>auto simp: owns_def\<close>)
  then show ?thesis using assms(3) Nil by (simp add: moves_on_def)
next
  case (Cons f gs)
  note r = finv_caller [OF assms(1,2)]
  have "1 \<le> refs (ftable (kern x)) f"
    by (rule owned_ref [OF assms(1) r(1)])
      (use held_nonneg [of "fdtab (kern x) i" f] assms(3) Cons in \<open>simp add: owns_def\<close>)
  then obtain k1 where k1: "kfileclose f (kern x) = Inr k1" "fdtab k1 = fdtab (kern x)"
    "sans_files k1 = sans_files (kern x)"
    "refs (ftable k1) = (refs (ftable (kern x)))(f := refs (ftable (kern x)) f - 1)" by (rule kfileclose_effect)
  have "finv (put_call i (k1, Closing gs ops) x)"
    by (rule finv_own [OF assms(1,2) k1(3)]) (use k1 r assms(3) Cons in \<open>auto simp: owns_def\<close>)
  with k1(1) assms(3) Cons show ?thesis by (simp add: moves_on_def)
qed

text \<open>Three ways a section moves references between the call and the descriptors.\<close>

lemma finv_relabel:
  assumes "finv x" "running (kern x) c i" "sans_files k' = sans_files (kern x)" "fdtab k' = fdtab (kern x)"
    "refs (ftable k') = refs (ftable (kern x))" "call_ok p k' i" "child_of p = None \<or> child_of p = child_of (pcs x i)"
    "in_flight p (fdtab (kern x) i) = in_flight (pcs x i) (fdtab (kern x) i)"
  shows "finv (put_call i (k', p) x)"
  by (rule finv_own [OF assms(1-3)]) (use assms finv_caller [OF assms(1,2)] in \<open>auto simp: owns_def\<close>)

lemma finv_install:
  assumes "finv x" "running (kern x) c i" "fdalloc i f (kern x) = Some (k', fd)"
    "call_ok p k' i" "child_of p = None"
    "\<And>fs g. in_flight p fs g = in_flight (pcs x i) (fdtab (kern x) i) g - (if f = g then 1 else 0)"
  shows "finv (put_call i (k', p) x)"
proof -
  note r = finv_caller [OF assms(1,2)]
  note e = fdalloc_effect [OF assms(3) r(1)]
  show ?thesis
    by (rule finv_own [OF assms(1,2) e(5)])
      (use e r assms(4,5) in \<open>auto simp: owns_def held_update assms(6)\<close>)
qed

lemma finv_clear:
  assumes "finv x" "running (kern x) c i" "fd < NOFILE" "fdtab (kern x) i ! fd = Some f"
    "call_ok p (clear_fd i fd (kern x)) i" "child_of p = None"
    "\<And>fs g. in_flight p fs g = in_flight (pcs x i) (fdtab (kern x) i) g + (if f = g then 1 else 0)"
  shows "finv (put_call i (clear_fd i fd (kern x), p) x)"
proof -
  note r = finv_caller [OF assms(1,2)]
  show ?thesis
    by (rule finv_own [OF assms(1,2)])
      (use r assms(3-6) clear_fd_table [OF r(1)] in \<open>auto simp: owns_def held_update assms(7)\<close>)
qed

lemma finv_filealloc:
  assumes "finv x" "running (kern x) c i" "filealloc (ftable (kern x)) = Some (ft, f)"
    "child_of p = None" "fdtab k' = fdtab (kern x)" "ftable k' = ft" "sans_files k' = sans_files (kern x)" "call_ok p k' i"
    "\<And>fs g. in_flight p fs g = in_flight (pcs x i) (fdtab (kern x) i) g + (if f = g then 1 else 0)"
  shows "finv (put_call i (k', p) x)"
  by (rule finv_own [OF assms(1,2,7)])
    (use finv_caller [OF assms(1,2)] assms filealloc_refs(2,3) [OF assms(3)] in \<open>auto simp: owns_def assms(9)\<close>)

lemma open_moves_on:
  assumes "finv x" "running (kern x) c i" "pcs x i = OpenAllocated omode ip ty mj f \<or> pcs x i = OpenInstalled omode ip ty mj f"
  shows "moves_on cfg c i page copied x"
  using assms(3)
proof
  assume pc: "pcs x i = OpenAllocated omode ip ty mj f"
  show ?thesis
  proof (cases "fdalloc i f (kern x)")
    case None
    have "finv (put_call i (kern x, Closing [f] [OpIunlockput ip, OpEnd]) x)"
      by (rule finv_relabel [OF assms(1,2)]) (simp_all add: pc fun_eq_iff)
    with None pc show ?thesis by (simp add: moves_on_def)
  next
    case (Some q)
    obtain k1 fd where q: "q = (k1, fd)" by (cases q)
    have "finv (put_call i (k1, OpenInstalled omode ip ty mj f) x)"
      by (rule finv_install [OF assms(1,2) Some [unfolded q]]) (simp_all add: pc)
    with Some q pc show ?thesis by (simp add: moves_on_def)
  qed
next
  assume pc: "pcs x i = OpenInstalled omode ip ty mj f"
  have "finv (put_call i (log_kops ops ((kern x)\<lparr>ftable := modify f (set_open omode ip ty mj) (ftable (kern x))\<rparr>), InUser) x)" for ops
    by (rule finv_relabel [OF assms(1,2)]) (simp_all add: pc fun_eq_iff refs_modify_same)
  with pc show ?thesis by (simp add: moves_on_def)
qed

lemma pipe_alloc_moves_on:
  assumes "finv x" "running (kern x) c i" "pcs x i = PipeHalf f0 \<or> pcs x i = PipeBoth f0 f1"
  shows "moves_on cfg c i page copied x"
  using assms(3)
proof
  assume pc: "pcs x i = PipeHalf f0"
  show ?thesis
  proof (cases "filealloc (ftable (kern x))")
    case None
    have "finv (put_call i (kern x, Closing [f0] []) x)"
      by (rule finv_relabel [OF assms(1,2)]) (simp_all add: pc fun_eq_iff)
    with None pc show ?thesis by (simp add: moves_on_def)
  next
    case (Some q)
    obtain ft f1 where q: "q = (ft, f1)" by (cases q)
    have "finv (put_call i ((kern x)\<lparr>ftable := ft\<rparr>, PipeBoth f0 f1) x)"
      by (rule finv_filealloc [OF assms(1,2) Some [unfolded q]]) (simp_all add: pc)
    with Some q pc show ?thesis by (simp add: moves_on_def)
  qed
next
  assume pc: "pcs x i = PipeBoth f0 f1"
  show ?thesis
  proof (cases page)
    case None
    have "finv (put_call i (kern x, Closing [f0, f1] []) x)"
      by (rule finv_relabel [OF assms(1,2)]) (simp_all add: pc fun_eq_iff)
    with None pc show ?thesis by (simp add: moves_on_def)
  next
    case (Some pi)
    have "finv (put_call i ((kern x)\<lparr>ftable := modify f1 (set_pipe_end pi True)
        (modify f0 (set_pipe_end pi False) (ftable (kern x)))\<rparr>, PipeMade f0 f1) x)"
      by (rule finv_relabel [OF assms(1,2)]) (simp_all add: pc fun_eq_iff refs_modify_same)
    with Some pc show ?thesis by (simp add: moves_on_def)
  qed
qed

lemma pipe_install_moves_on:
  assumes "finv x" "running (kern x) c i" "pcs x i = PipeMade f0 f1 \<or> pcs x i = PipeReadEnd f0 f1 fd0"
  shows "moves_on cfg c i page copied x"
  using assms(3)
proof
  note r = finv_caller [OF assms(1,2)]
  assume pc: "pcs x i = PipeMade f0 f1"
  show ?thesis
  proof (cases "fdalloc i f0 (kern x)")
    case None
    have "finv (put_call i (kern x, Closing [f0, f1] []) x)"
      by (rule finv_relabel [OF assms(1,2)]) (simp_all add: pc fun_eq_iff)
    with None pc show ?thesis by (simp add: moves_on_def)
  next
    case (Some q)
    obtain k1 fd where q: "q = (k1, fd)" by (cases q)
    have "finv (put_call i (k1, PipeReadEnd f0 f1 fd) x)"
      by (rule finv_install [OF assms(1,2) Some [unfolded q]])
        (use fdalloc_effect [OF Some [unfolded q] r(1)] r in \<open>simp_all add: pc\<close>)
    with Some q pc show ?thesis by (simp add: moves_on_def)
  qed
next
  note r = finv_caller [OF assms(1,2)]
  assume pc: "pcs x i = PipeReadEnd f0 f1 fd0"
  then have h: "fd0 < NOFILE" "fdtab (kern x) i ! fd0 = Some f0" using r(4) by simp_all
  show ?thesis
  proof (cases "fdalloc i f1 (kern x)")
    case None
    have "finv (put_call i (clear_fd i fd0 (kern x), Closing [f0, f1] []) x)"
      by (rule finv_clear [OF assms(1,2) h]) (simp_all add: pc)
    with None pc show ?thesis by (simp add: moves_on_def)
  next
    case (Some q)
    obtain k1 fd where q: "q = (k1, fd)" by (cases q)
    have "finv (put_call i (k1, PipeEnds f0 f1 fd0 fd) x)"
      by (rule finv_install [OF assms(1,2) Some [unfolded q]])
        (use fdalloc_effect [OF Some [unfolded q] r(1)] r h in \<open>auto simp: pc nth_list_update\<close>)
    with Some q pc show ?thesis by (simp add: moves_on_def)
  qed
qed

lemma pipe_ends_moves_on:
  assumes "finv x" "running (kern x) c i" "pcs x i = PipeEnds f0 f1 fd0 fd1"
  shows "moves_on cfg c i page copied x"
proof -
  note r = finv_caller [OF assms(1,2)]
  have h: "fd0 < NOFILE" "fdtab (kern x) i ! fd0 = Some f0" "fd1 < NOFILE" "fdtab (kern x) i ! fd1 = Some f1"
    "fd0 \<noteq> fd1" using r(4) assms(3) by simp_all
  have "finv (put_call i (kern x, InUser) x)"
    by (rule finv_relabel [OF assms(1,2)]) (simp_all add: assms(3) fun_eq_iff)
  moreover have "finv (put_call i (clear_fd i fd1 (clear_fd i fd0 (kern x)), Closing [f0, f1] []) x)"
    by (rule finv_own [OF assms(1,2)])
      (use r h in \<open>auto simp: clear_fd_table owns_def held_update assms(3)\<close>)
  ultimately show ?thesis using assms(3) by (simp add: moves_on_def)
qed

lemma exit_loop_moves_on:
  assumes "finv x" "running (kern x) c i" "pcs x i = ExitLoop st fd" "fd < NOFILE"
  shows "moves_on cfg c i page copied x"
proof (cases "fdtab (kern x) i ! fd")
  case None
  have "finv (put_call i (kern x, ExitLoop st (Suc fd)) x)"
    by (rule finv_relabel [OF assms(1,2)])
      (use finv_caller(4) [OF assms(1,2)] assms(3) None in \<open>auto simp: fun_eq_iff less_Suc_eq\<close>)
  then show ?thesis using assms(3,4) None by (simp add: moves_on_def fdtab_def)
next
  case (Some f)
  note r = finv_caller [OF assms(1,2)]
  have sl: "slots_inv (pcs x) (kern x)" using assms(1) by (simp add: finv_def)
  have "1 \<le> refs (ftable (kern x)) f"
    by (rule owned_ref [OF assms(1) r(1)])
      (use fdtab_slot [OF sl r(1) assms(4) Some] assms(3) in \<open>simp add: owns_def\<close>)
  then obtain k1 where k1: "kfileclose f (kern x) = Inr k1" "fdtab k1 = fdtab (kern x)"
    "sans_files k1 = sans_files (kern x)"
    "refs (ftable k1) = (refs (ftable (kern x)))(f := refs (ftable (kern x)) f - 1)" by (rule kfileclose_effect)
  have "finv (put_call i (k1, ExitClosed st fd) x)"
    by (rule finv_own [OF assms(1,2) k1(3)]) (use k1 r assms(3,4) Some in \<open>auto simp: owns_def\<close>)
  with k1(1) assms(3,4) Some show ?thesis by (simp add: moves_on_def fdtab_def)
qed

lemma exit_closed_moves_on:
  assumes "finv x" "running (kern x) c i" "pcs x i = ExitClosed st fd"
  shows "moves_on cfg c i page copied x"
proof -
  note r = finv_caller [OF assms(1,2)]
  from r(4) assms(3) obtain f where h: "fd < NOFILE" "fdtab (kern x) i ! fd = Some f" by auto
  have "finv (put_call i (clear_fd i fd (kern x), ExitLoop st (Suc fd)) x)"
    by (rule finv_clear [OF assms(1,2) h])
      (use r h assms(3) in \<open>auto simp: clear_fd_table nth_list_update less_Suc_eq\<close>)
  with assms(3) show ?thesis by (simp add: moves_on_def)
qed

lemma fork_dup_moves_on:
  assumes "finv x" "running (kern x) c i" "pcs x i = ForkLoop j fd" "fd < NOFILE"
  shows "moves_on cfg c i page copied x"
proof (cases "fdtab (kern x) i ! fd")
  case None
  have "finv (put_call i (kern x, ForkLoop j (Suc fd)) x)"
    by (rule finv_relabel [OF assms(1,2)])
      (use finv_caller(4) [OF assms(1,2)] assms(3) None in \<open>auto simp: fun_eq_iff\<close>)
  then show ?thesis using assms(3,4) None by (simp add: moves_on_def fdtab_def)
next
  case (Some f)
  note r = finv_caller [OF assms(1,2)]
  have sl: "slots_inv (pcs x) (kern x)" using assms(1) by (simp add: finv_def)
  have "1 \<le> refs (ftable (kern x)) f"
    by (rule owned_ref [OF assms(1) r(1)])
      (use fdtab_slot [OF sl r(1) assms(4) Some] assms(3) in \<open>simp add: owns_def\<close>)
  then obtain k1 where k1: "kfiledup f (kern x) = Inr k1" "fdtab k1 = fdtab (kern x)"
    "sans_files k1 = sans_files (kern x)"
    "refs (ftable k1) = (refs (ftable (kern x)))(f := refs (ftable (kern x)) f + 1)" by (rule kfiledup_effect)
  have "finv (put_call i (k1, ForkDup j fd f) x)"
    by (rule finv_own [OF assms(1,2) k1(3)])
      (use k1 r assms(3,4) Some sans_files_fields [OF k1(3)] in \<open>auto simp: owns_def\<close>)
  with k1(1) assms(3,4) Some show ?thesis by (simp add: moves_on_def fdtab_def)
qed

lemma fork_store_moves_on:
  assumes inv: "finv x" and run: "running (kern x) c i" and pc: "pcs x i = ForkDup j fd f"
  shows "moves_on cfg c i page copied x"
proof -
  let ?k = "kern x" and ?n = "length (ptable (kern x))" and ?p = "ForkLoop j (Suc fd)"
  let ?k' = "upd j (\<lambda>np. np\<lparr>ofile := (ofile np)[fd := Some f]\<rparr>) ?k"
  note r = finv_caller [OF inv run]
  have sl: "slots_inv (pcs x) ?k" and lone: "lone_children (pcs x) ?n" and cpu: "cpu_inv ?k"
    using inv by (simp_all add: finv_def)
  have j: "j < ?n" "state (proc_at ?k j) = USED" "fd < NOFILE"
    "\<And>n. fd \<le> n \<Longrightarrow> n < NOFILE \<Longrightarrow> fdtab ?k j ! n = None" using r(4) pc by auto
  have ji: "j \<noteq> i" using j(2) r(2) by auto
  have jpc: "pcs x j = InUser" "length (fdtab ?k j) = NOFILE" using sl j by (auto simp: slots_inv_def)
  have tab: "fdtab ?k' = (fdtab ?k)(j := (fdtab ?k j)[fd := Some f])"
    using j(1) by (auto simp: fdtab_def fun_eq_iff nth_modify_any)
  have st: "state (proc_at ?k' l) = state (proc_at ?k l)" for l by (simp add: nth_modify_any)
  have "cpu_inv ?k'" by (rule cpu_inv_frame [OF cpu]) (simp_all add: st)
  moreover have "slots_inv ((pcs x)(i := ?p)) ?k'"
    unfolding slots_inv_def
  proof (intro allI impI)
    fix l assume "l < length (ptable ?k')"
    then have l: "l < ?n" by simp
    have "call_ok (pcs x l) ?k' l" if "l \<noteq> i" "l \<noteq> j"
    proof (rule call_ok_cong [of _ ?k])
      fix m assume "child_of (pcs x l) = Some m" "state (proc_at ?k m) = USED"
      moreover from this have "m \<noteq> j"
        using lone l r(1) \<open>l \<noteq> i\<close> pc unfolding lone_children_def by fastforce
      ultimately show "fdtab ?k' m = fdtab ?k m \<and> state (proc_at ?k' m) = USED" by (simp add: tab nth_modify_any)
    qed (use sl l that in \<open>auto simp: slots_inv_def tab\<close>)
    moreover have "call_ok ?p ?k' i" using j jpc(2) by (auto simp: tab st)
    ultimately show "length (fdtab ?k' l) = NOFILE \<and> call_ok (((pcs x)(i := ?p)) l) ?k' l
      \<and> (dead (state (proc_at ?k' l)) \<or> state (proc_at ?k' l) = USED \<longrightarrow> ((pcs x)(i := ?p)) l = InUser)
      \<and> (dead (state (proc_at ?k' l)) \<longrightarrow> (\<forall>e \<in> set (fdtab ?k' l). e = None))"
      using sl l jpc j(2) ji r(2) by (auto simp: slots_inv_def tab st)
  qed
  moreover have "refs (ftable ?k') g = all_owned ((pcs x)(i := ?p)) ?k' g" for g
  proof -
    have "all_owned ((pcs x)(i := ?p)) ?k' g = all_owned ((pcs x)(i := ?p)) ?k g
        - owns InUser (fdtab ?k j) g + owns InUser (fdtab ?k' j) g"
      using total_own [of ?k' ?k j "(pcs x)(i := ?p)" InUser g] j(1) ji jpc(1) tab
      by (simp add: fun_upd_idem)
    moreover have "all_owned ((pcs x)(i := ?p)) ?k g = all_owned (pcs x) ?k g
        - owns (ForkDup j fd f) (fdtab ?k i) g + owns ?p (fdtab ?k i) g"
      using total_own [of ?k ?k i "pcs x" ?p g] r(1) pc by simp
    ultimately show ?thesis
      using inv j(3,4) jpc(2) by (simp add: finv_def tab owns_def held_update)
  qed
  moreover have "lone_children ((pcs x)(i := ?p)) (length (ptable ?k'))"
    using lone_children_keep [OF lone r(1), of ?p] pc by simp
  ultimately have "finv (put_call i (?k', ?p) x)" by (simp add: finv_def put_call_def)
  with pc show ?thesis by (simp add: moves_on_def)
qed

section \<open>Steps that leave all descriptors alone\<close>

lemma total_same:
  assumes "length (ptable k') = length (ptable k)"
    "\<And>i. i < length (ptable k) \<Longrightarrow> fdtab k' i = fdtab k i"
    "\<And>i. i < length (ptable k) \<Longrightarrow> in_flight (pc' i) (fdtab k i) = in_flight (pc i) (fdtab k i)"
  shows "all_owned pc' k' f = all_owned pc k f"
  unfolding all_owned_def assms(1) by (rule sum.cong) (use assms(2,3) in \<open>auto simp: owns_def\<close>)

text \<open>
  No descriptor and no reference count changes, slots in state USED stay so, and
  no process becomes USED, UNUSED or a zombie.
\<close>

definition files_quiet_slot :: "proc \<Rightarrow> proc \<Rightarrow> bool" where
  "files_quiet_slot p q \<longleftrightarrow> ofile q = ofile p \<and> (state p = USED \<longleftrightarrow> state q = USED) \<and> (dead (state q) \<longrightarrow> dead (state p))"

definition files_quiet :: "kernel \<Rightarrow> kernel \<Rightarrow> bool" where
  "files_quiet k k' \<longleftrightarrow> refs (ftable k') = refs (ftable k) \<and> length (ptable k') = length (ptable k)
     \<and> (\<forall>j < length (ptable k). files_quiet_slot (proc_at k j) (proc_at k' j))"

lemma files_quiet_slot_trans: "files_quiet_slot p q \<Longrightarrow> files_quiet_slot q r \<Longrightarrow> files_quiet_slot p r"
  unfolding files_quiet_slot_def by metis

lemma finv_quiet:
  assumes "finv x" "files_quiet (kern x) k'" "cpu_inv k'"
  shows "finv (x\<lparr>kern := k'\<rparr>)"
proof -
  let ?k = "kern x"
  have q: "length (ptable k') = length (ptable ?k)" "refs (ftable k') = refs (ftable ?k)"
    "\<And>j. j < length (ptable ?k) \<Longrightarrow> fdtab k' j = fdtab ?k j
      \<and> (state (proc_at ?k j) = USED \<longleftrightarrow> state (proc_at k' j) = USED)
      \<and> (dead (state (proc_at k' j)) \<longrightarrow> dead (state (proc_at ?k j)))"
    using assms(2) by (auto simp: files_quiet_def files_quiet_slot_def fdtab_def)
  have "slots_inv (pcs x) k'"
    unfolding slots_inv_def q(1)
  proof (intro allI impI)
    fix j assume j: "j < length (ptable ?k)"
    have "call_ok (pcs x j) k' j"
      by (rule call_ok_cong [of _ ?k]) (use assms(1) j q in \<open>auto simp: finv_def slots_inv_def\<close>)
    with assms(1) j q(3) [OF j] show "length (fdtab k' j) = NOFILE \<and> call_ok (pcs x j) k' j
      \<and> (dead (state (proc_at k' j)) \<or> state (proc_at k' j) = USED \<longrightarrow> pcs x j = InUser)
      \<and> (dead (state (proc_at k' j)) \<longrightarrow> (\<forall>e \<in> set (fdtab k' j). e = None))"
      by (auto simp: finv_def slots_inv_def)
  qed
  moreover have "all_owned (pcs x) k' f = all_owned (pcs x) ?k f" for f by (rule total_same) (simp_all add: q)
  ultimately show ?thesis using assms(1,3) q(1,2) by (simp add: finv_def)
qed

lemma files_quiet_refl: "files_quiet k k"
  by (simp add: files_quiet_def files_quiet_slot_def)

lemma files_quiet_trans: "files_quiet k k1 \<Longrightarrow> files_quiet k1 k2 \<Longrightarrow> files_quiet k k2"
  unfolding files_quiet_def by (metis files_quiet_slot_trans)

lemma files_quiet_sched_step: "files_quiet k (sched_step cfg c k)"
proof -
  have d: "files_quiet k (dispatch c b k)" if "state (proc_at k b) = RUNNABLE" for b
    using that by (auto simp: files_quiet_def files_quiet_slot_def dispatch_slot split: if_splits)
  have c: "files_quiet k (set_cpu c s k)" for s by (simp add: files_quiet_def files_quiet_slot_def)
  show ?thesis by (auto simp: sched_step_def d c files_quiet_refl split: sched_pc.split option.split)
qed

lemma files_quiet_sched: "sched_locked cfg c i k = Inr k' \<Longrightarrow> files_quiet k k'"
  by (auto simp: files_quiet_def files_quiet_slot_def sched_locked_Inr)

lemma files_quiet_yield:
  assumes "state (proc_at k i) = RUNNING" "yield cfg c i k = Inr k'" shows "files_quiet k k'"
  by (rule files_quiet_trans [OF _ files_quiet_sched [OF assms(2) [unfolded yield_def]]])
    (use assms(1) in \<open>auto simp: files_quiet_def files_quiet_slot_def enqueue_slot nth_modify_any\<close>)

lemma files_quiet_sleep:
  assumes "state (proc_at k i) = RUNNING" "sleep cfg c i ch k = Inr k'" shows "files_quiet k k'"
  by (rule files_quiet_trans [OF _ files_quiet_sched [OF assms(2) [unfolded sleep_def]]])
    (use assms(1) in \<open>auto simp: files_quiet_def files_quiet_slot_def nth_modify_any Let_def\<close>)

lemma files_quiet_timer:
  assumes "cpu_inv k" "c < length (cpus k)" "timer_trap cfg c k = Inr k'"
  shows "files_quiet k k'"
proof -
  let ?k = "clockintr cfg c k"
  have q: "files_quiet k ?k" by (auto simp: files_quiet_def files_quiet_slot_def clockintr_slot wakeup_state sleeps_on_def)
  have q': "files_quiet ?k (upd i mlfq_charge ?k)" for i by (auto simp: files_quiet_def files_quiet_slot_def nth_modify_any)
  have r: "state (proc_at (upd i mlfq_charge ?k) i) = RUNNING" "state (proc_at ?k i) = RUNNING"
    if "cproc (cpus k ! c) = Some i" for i
  proof -
    have "running k c i" using that assms(2) by (simp add: running_def)
    from cpu_inv_running [OF cpu_inv_clockintr [OF assms(1), of cfg c], of c i] this
    show "state (proc_at ?k i) = RUNNING" by simp
    then show "state (proc_at (upd i mlfq_charge ?k) i) = RUNNING" by (simp add: nth_modify_any)
  qed
  show ?thesis
    using assms(3) q q' r
    by (auto simp: timer_trap_def mlfq_tick_def Let_def split: if_splits option.splits
        intro: files_quiet_trans dest!: files_quiet_yield [rotated])
qed

lemma files_quiet_kill: "kkill cfg n k = (k', r) \<Longrightarrow> files_quiet k k'"
  by (auto simp: files_quiet_def files_quiet_slot_def kkill_def Let_def nth_modify_any enqueue_slot split: option.splits if_splits)

lemma files_quiet_wait:
  assumes "state (proc_at k i) = RUNNING" "kwait cfg c i addr ok k = Inr (k', w)"
  shows "files_quiet k k'"
proof (cases "find_idx (\<lambda>p. parent p = Some i \<and> state p = ZOMBIE) (ptable k)")
  case None
  with assms show ?thesis
    by (auto simp: kwait_def bindR_Inr files_quiet_refl split: if_splits elim: files_quiet_sleep)
next
  case (Some j)
  then have "state (proc_at k j) = ZOMBIE" using find_idx_SomeD(2) [OF Some] by simp
  then have "files_quiet k (freeproc cfg j k)" by (auto simp: files_quiet_def files_quiet_slot_def nth_modify_any)
  with Some assms(2) show ?thesis by (auto simp: kwait_def files_quiet_refl split: if_splits)
qed

lemma files_quiet_chdir: "sys_chdir i path dir k = (k', r) \<Longrightarrow> files_quiet k k'"
  by (auto simp: files_quiet_def files_quiet_slot_def sys_chdir_def Let_def nth_modify_any split: option.splits if_splits)

lemma files_quiet_small: "files_quiet k (wakeup cfg me ch k)" "files_quiet k (sleep_resume i k)" "files_quiet k (setkilled i k)"
  by (auto simp: files_quiet_def files_quiet_slot_def wakeup_state sleeps_on_def sleep_resume_def setkilled_def nth_modify_any)

section \<open>Steps that change process states\<close>

lemma finv_states:
  assumes inv: "finv x" and run: "running (kern x) c i" and cpu': "cpu_inv k'"
    and len: "length (ptable k') = length (ptable (kern x))" and refs: "refs (ftable k') = refs (ftable (kern x))"
    and tab: "\<And>l. l < length (ptable (kern x)) \<Longrightarrow> fdtab k' l = fdtab (kern x) l"
    and fl: "in_flight p (fdtab (kern x) i) = in_flight (pcs x i) (fdtab (kern x) i)"
    and used: "\<And>l. l < length (ptable (kern x)) \<Longrightarrow> child_of (pcs x i) \<noteq> Some l \<Longrightarrow>
      state (proc_at (kern x) l) = USED \<Longrightarrow> state (proc_at k' l) = USED"
    and other: "\<And>l. l < length (ptable (kern x)) \<Longrightarrow> l \<noteq> i \<Longrightarrow>
      (dead (state (proc_at k' l)) \<longrightarrow> dead (state (proc_at (kern x) l))) \<and>
      (state (proc_at k' l) = USED \<longrightarrow> state (proc_at (kern x) l) = USED \<or> dead (state (proc_at (kern x) l)))"
    and own: "dead (state (proc_at k' i)) \<Longrightarrow> p = InUser \<and> (\<forall>e \<in> set (fdtab (kern x) i). e = None)"
      "state (proc_at k' i) \<noteq> USED"
    and ok: "call_ok p k' i" and ch: "\<And>j. child_of p = Some j \<Longrightarrow> state (proc_at (kern x) j) = UNUSED"
  shows "finv (put_call i (k', p) x)"
proof -
  let ?k = "kern x" and ?n = "length (ptable (kern x))"
  note r = finv_caller [OF inv run]
  have sl: "slots_inv (pcs x) ?k" and lone: "lone_children (pcs x) ?n" using inv by (simp_all add: finv_def)
  have childused: "state (proc_at ?k m) = USED" if "l < ?n" "child_of (pcs x l) = Some m" for l m
    using sl that by (cases "pcs x l") (auto simp: slots_inv_def)
  have "slots_inv ((pcs x)(i := p)) k'"
    unfolding slots_inv_def len
  proof (intro allI impI)
    fix l assume l: "l < ?n"
    have "call_ok (pcs x l) k' l" if "l \<noteq> i"
    proof (rule call_ok_cong [of _ ?k])
      fix m assume m: "child_of (pcs x l) = Some m" "m < ?n" "state (proc_at ?k m) = USED"
      then have "child_of (pcs x i) \<noteq> Some m" using lone l r(1) that unfolding lone_children_def by blast
      with m used tab show "fdtab k' m = fdtab ?k m \<and> state (proc_at k' m) = USED" by simp
    qed (use sl l len tab in \<open>auto simp: slots_inv_def\<close>)
    with sl l tab [OF l] own ok other [OF l] show "length (fdtab k' l) = NOFILE \<and> call_ok (((pcs x)(i := p)) l) k' l
      \<and> (dead (state (proc_at k' l)) \<or> state (proc_at k' l) = USED \<longrightarrow> ((pcs x)(i := p)) l = InUser)
      \<and> (dead (state (proc_at k' l)) \<longrightarrow> (\<forall>e \<in> set (fdtab k' l). e = None))"
      by (cases "l = i") (auto simp: slots_inv_def)
  qed
  moreover have "all_owned ((pcs x)(i := p)) k' f = all_owned (pcs x) ?k f" for f
    by (rule total_same) (use len tab fl in auto)
  moreover have "lone_children ((pcs x)(i := p)) ?n"
    by (rule lone_children_upd [OF lone r(1)]) (use ch childused in force)
  ultimately show ?thesis using inv cpu' len refs by (simp add: finv_def put_call_def)
qed

lemma fork_end_moves_on:
  assumes inv: "finv x" and run: "running (kern x) c i" and pc: "pcs x i = ForkLoop j fd" "\<not> fd < NOFILE"
  shows "moves_on cfg c i page copied x"
proof -
  let ?k = "kern x"
  let ?k' = "enqueue cfg j (upd j (fork_rest (proc_at ?k i) i)
    (log_kops (case cwd (proc_at ?k i) of None \<Rightarrow> [] | Some d \<Rightarrow> [OpIdup d]) ?k))"
  note r = finv_caller [OF inv run]
  have cpu: "cpu_inv ?k" using inv by (simp add: finv_def)
  have j: "j < length (ptable ?k)" "state (proc_at ?k j) = USED" using r(4) pc by simp_all
  have st: "state (proc_at ?k' l) = (if l = j then RUNNABLE else state (proc_at ?k l))" if "l < length (ptable ?k)" for l
    using that by (simp add: enqueue_slot nth_modify_any fork_rest_def)
  have "finv (put_call i (?k', InUser) x)"
  proof (rule finv_states [OF inv run])
    show "cpu_inv ?k'" by (rule cpu_inv_frame [OF cpu]) (use st j(2) in auto)
    show "fdtab ?k' l = fdtab ?k l" for l
      by (simp add: fdtab_def enqueue_slot nth_modify_any fork_rest_def)
  qed (use st pc j r in \<open>auto simp: fun_eq_iff split: if_splits\<close>)
  with pc show ?thesis by (simp add: moves_on_def Let_def)
qed

lemma exit_cwd_slot [simp]:
  "state (proc_at (exit_cwd i k) j) = state (proc_at k j)" "ofile (proc_at (exit_cwd i k) j) = ofile (proc_at k j)"
  "cpus (exit_cwd i k) = cpus k" "length (ptable (exit_cwd i k)) = length (ptable k)" "ftable (exit_cwd i k) = ftable k"
  by (simp_all add: exit_cwd_def nth_modify_any)

lemma exit_end_moves_on:
  assumes inv: "finv x" and run: "running (kern x) c i" and pc: "pcs x i = ExitLoop st fd" "\<not> fd < NOFILE"
  shows "moves_on cfg c i page copied x"
proof -
  let ?k = "kern x" and ?z = "exit_zombie cfg i st (exit_cwd i (kern x))"
  note r = finv_caller [OF inv run]
  have cpu: "cpu_inv ?k" using inv by (simp add: finv_def)
  have zi: "state (proc_at ?z i) = ZOMBIE" using r(1) by (intro exit_zombie_state) simp
  then obtain k' where k': "sched_locked cfg c i ?z = Inr k'" by (auto simp: sched_def)
  have z: "state (proc_at ?z l) = state (proc_at ?k l) \<or> (state (proc_at ?k l) = SLEEPING \<and> state (proc_at ?z l) = RUNNABLE)"
    if "l \<noteq> i" for l
    using exit_zombie_state(2) [of i "exit_cwd i ?k" l cfg st] that r(1) by simp
  have st: "state (proc_at k' l) = state (proc_at ?z l)" "fdtab k' l = fdtab ?k l" for l
    using k' by (auto simp: sched_locked_Inr fdtab_def)
  have no: "\<forall>e \<in> set (fdtab ?k i). e = None"
    using r(3,4) pc by (auto simp: in_set_conv_nth)
  have "left_by ?k i ?z" using zi z by (fastforce simp: left_by_def)
  then have cpu': "cpu_inv k'" by (rule cpu_inv_sched [OF cpu run _ k'])
  have "finv (put_call i (k', InUser) x)"
  proof (rule finv_states [OF inv run cpu'])
    fix l
    show "state (proc_at ?k l) = USED \<Longrightarrow> state (proc_at k' l) = USED"
      using z [of l] r(2) by (cases "l = i") (auto simp: st(1))
    show "l \<noteq> i \<Longrightarrow> (dead (state (proc_at k' l)) \<longrightarrow> dead (state (proc_at ?k l))) \<and>
      (state (proc_at k' l) = USED \<longrightarrow> state (proc_at ?k l) = USED \<or> dead (state (proc_at ?k l)))"
      using z [of l] by (auto simp: st(1))
  qed (use k' st zi no pc in \<open>auto simp: sched_locked_Inr fun_eq_iff\<close>)
  with pc k' show ?thesis by (simp add: moves_on_def)
qed

lemma advance_moves_on:
  assumes "finv x" "running (kern x) c i"
  shows "moves_on cfg c i page copied x"
proof (cases "pcs x i")
  case InUser
  then have "put_call i (kern x, InUser) x = x" by (simp add: put_call_def fun_upd_idem)
  then show ?thesis using InUser assms(1) by (simp add: moves_on_def)
next
  case (ForkLoop j fd)
  then show ?thesis using assms by (cases "fd < NOFILE") (simp_all add: fork_dup_moves_on fork_end_moves_on)
next
  case (ExitLoop st fd)
  then show ?thesis using assms by (cases "fd < NOFILE") (simp_all add: exit_loop_moves_on exit_end_moves_on)
qed (use assms in \<open>blast intro: dup_moves_on closing_moves_on open_moves_on pipe_alloc_moves_on
      pipe_install_moves_on pipe_ends_moves_on fork_store_moves_on exit_closed_moves_on\<close>)+

section \<open>Beginning a call\<close>

lemma argfd_table:
  assumes "argfd i fd k = Some (n, f)"
  shows "n < NOFILE" "fdtab k i ! n = Some f"
  using assms by (auto simp: argfd_def fdtab_def split: if_splits option.splits)

lemma finv_idle:
  assumes "finv x" "idle x c i" "sans_files k' = sans_files (kern x)" "fdtab k' = fdtab (kern x)"
    "refs (ftable k') = refs (ftable (kern x))"
  shows "finv (put_call i (k', InUser) x)"
  by (rule finv_relabel [OF assms(1) _ assms(3-5)]) (use assms(2) in \<open>auto simp: idle_def fun_eq_iff\<close>)

lemma finv_start_dup:
  assumes "finv x" "idle x c i"
  shows "finv (put_call i (start_dup i fd (kern x)) x)"
proof (cases "argfd i fd (kern x)")
  case None
  then show ?thesis using finv_idle [OF assms] by (simp add: start_dup_def)
next
  case (Some q)
  obtain n f where q: "q = (n, f)" by (cases q)
  have run: "running (kern x) c i" and pc: "pcs x i = InUser" using assms(2) by (simp_all add: idle_def)
  note r = finv_caller [OF assms(1) run]
  have sl: "slots_inv (pcs x) (kern x)" using assms(1) by (simp add: finv_def)
  have h: "1 \<le> held (fdtab (kern x) i) f"
    by (rule fdtab_slot [OF sl r(1) argfd_table [OF Some [unfolded q]]])
  show ?thesis
  proof (cases "fdalloc i f (kern x)")
    case None
    then show ?thesis using Some q finv_idle [OF assms] by (simp add: start_dup_def)
  next
    case (Some a)
    obtain k1 fd' where a: "a = (k1, fd')" by (cases a)
    note e = fdalloc_effect [OF Some [unfolded a] r(1)]
    have "finv (put_call i (k1, DupInstalled f) x)"
      by (rule finv_install [OF assms(1) run Some [unfolded a]]) (use h e pc in \<open>simp_all add: held_update\<close>)
    with Some a q \<open>argfd i fd (kern x) = Some q\<close> show ?thesis by (simp add: start_dup_def)
  qed
qed

lemma finv_start_close:
  assumes "finv x" "idle x c i"
  shows "finv (put_call i (start_close i fd (kern x)) x)"
proof (cases "argfd i fd (kern x)")
  case None
  then show ?thesis using finv_idle [OF assms] by (simp add: start_close_def)
next
  case (Some q)
  obtain n f where q: "q = (n, f)" by (cases q)
  have "finv (put_call i (clear_fd i n (kern x), Closing [f] []) x)"
    by (rule finv_clear [OF assms(1) _ argfd_table [OF Some [unfolded q]]])
      (use assms(2) in \<open>auto simp: idle_def\<close>)
  then show ?thesis using Some q by (simp add: start_close_def)
qed

lemma log_kops_join [simp]: "log_kops [] k = k" "log_kops a (log_kops b k) = log_kops (b @ a) k"
  by (simp_all add: log_kops_def)

lemma finv_start_open:
  assumes "finv x" "idle x c i"
  shows "finv (put_call i (start_open path omode ino (kern x)) x)"
proof -
  have "finv (put_call i (log_kops ops (kern x), InUser) x)" for ops by (rule finv_idle [OF assms]) simp_all
  moreover have "finv (put_call i ((log_kops ops (kern x))\<lparr>ftable := ft\<rparr>, OpenAllocated omode ip ty mj f) x)"
    if "filealloc (ftable (kern x)) = Some (ft, f)" for ops ip ty mj ft f
    by (rule finv_filealloc [OF assms(1) _ that]) (use assms(2) in \<open>auto simp: idle_def\<close>)
  ultimately show ?thesis
    using finv_idle [OF assms]
    by (auto simp: start_open_def Let_def split: option.split)
qed

lemma finv_start_pipe:
  assumes "finv x" "idle x c i"
  shows "finv (put_call i (start_pipe (kern x)) x)"
proof -
  have "finv (put_call i ((kern x)\<lparr>ftable := ft\<rparr>, PipeHalf f) x)"
    if "filealloc (ftable (kern x)) = Some (ft, f)" for ft f
    by (rule finv_filealloc [OF assms(1) _ that]) (use assms(2) in \<open>auto simp: idle_def\<close>)
  then show ?thesis using finv_idle [OF assms] by (auto simp: start_pipe_def split: option.split)
qed

lemma finv_start_exit:
  assumes "finv x" "idle x c i" "start_exit i st (kern x) = Inr r"
  shows "finv (put_call i r x)"
proof -
  have "finv (put_call i (kern x, ExitLoop st 0) x)"
    by (rule finv_relabel [OF assms(1)]) (use assms(2) in \<open>auto simp: idle_def fun_eq_iff\<close>)
  then show ?thesis using assms(3) by (auto simp: start_exit_def split: if_splits)
qed

lemma finv_start_fork:
  assumes inv: "finv x" and idle: "idle x c i"
  shows "finv (put_call i (start_fork cfg tf pt uvm (kern x)) x)"
proof -
  let ?k = "kern x"
  have run: "running ?k c i" and pc: "pcs x i = InUser" using idle by (simp_all add: idle_def)
  note r = finv_caller [OF inv run]
  have cpu: "cpu_inv ?k" and sl: "slots_inv (pcs x) ?k" using inv by (simp_all add: finv_def)
  obtain k1 q where a: "allocproc cfg tf pt ?k = (k1, q)" by fastforce
  from a show ?thesis
  proof (cases rule: allocproc_cases)
    case 1
    then show ?thesis using a finv_idle [OF inv idle] by (simp add: start_fork_def)
  next
    case (2 j h)
    then have ji: "j \<noteq> i" using r(2) by auto
    have st: "state (proc_at k1 l) = state (proc_at ?k l)" "fdtab k1 l = fdtab ?k l" if "l < length (ptable ?k)" for l
      using 2 that by (auto simp: nth_modify_any fdtab_def)
    have "finv (put_call i (k1, InUser) x)"
      by (rule finv_states [OF inv run cpu_inv_frame [OF cpu]]) (use 2 st pc r in \<open>auto simp: fun_eq_iff\<close>)
    then show ?thesis using a 2 by (simp add: start_fork_def)
  next
    case (3 j h)
    then have ji: "j \<noteq> i" using r(2) by auto
    have st: "state (proc_at k1 l) = (if l = j then USED else state (proc_at ?k l))" "fdtab k1 l = fdtab ?k l"
      if "l < length (ptable ?k)" for l
      using 3 that by (auto simp: nth_modify_any fdtab_def)
    have "\<forall>e \<in> set (fdtab ?k j). e = None" "length (fdtab ?k j) = NOFILE"
      using sl 3(1,2) by (auto simp: slots_inv_def)
    then have no: "n < NOFILE \<Longrightarrow> fdtab ?k j ! n = None" for n by (metis nth_mem)
    have k1: "cpu_inv k1" by (rule cpu_inv_frame [OF cpu]) (use 3 st in \<open>auto split: if_splits\<close>)
    have "finv (put_call i (k1, ForkLoop j 0) x)"
      by (rule finv_states [OF inv run k1]) (use 3 st pc r no ji in \<open>auto simp: fun_eq_iff split: if_splits\<close>)
    moreover have "finv (put_call i (freeproc cfg j k1, InUser) x)"
    proof (rule finv_states [OF inv run])
      show "cpu_inv (freeproc cfg j k1)" by (rule cpu_inv_frame [OF k1]) (use 3 st in auto)
    qed (use 3 st pc r ji in \<open>auto simp: fun_eq_iff nth_modify_any fdtab_def split: if_splits\<close>)
    ultimately show ?thesis using a 3 by (simp add: start_fork_def)
  qed
qed

section \<open>Reachable states\<close>

lemma finv_boot:
  assumes "userinit cfg tf pt root procinit = Some k"
  shows "finv \<lparr>kern = k, pcs = (\<lambda>_. InUser)\<rparr>"
proof -
  have inv: "file_inv k" by (rule file_inv_boot [OF assms])
  have "reachable cfg k" using assms by (rule r_boot)
  then have "cpu_inv k" "all_slots files_ok k" by (rule reachable_cpu_inv file_slots.reachable_slots)+
  moreover have "all_owned (\<lambda>_. InUser) k f = nrefs (ptable k) f" for f
    by (simp add: all_owned_def owns_def fdtab_def nrefs_def sum_list_sum_nth atLeast0LessThan)
  ultimately show ?thesis
    using inv all_slots_nth [of files_ok k]
    by (auto simp: finv_def slots_inv_def lone_children_def file_inv_def fdtab_def files_ok_def)
qed

lemma finv_step:
  assumes "fstep cfg x y" "finv x"
  shows "finv y"
proof -
  have cpu: "cpu_inv (kern x)" using assms(2) by (simp add: finv_def)
  have kq: "finv (x\<lparr>kern := k'\<rparr>)" if "kstep cfg (kern x) k'" "files_quiet (kern x) k'" for k'
    using assms(2) that(2) cpu_inv_step [OF that(1) cpu] by (rule finv_quiet)
  note run = cpu_inv_running(3) [OF cpu]
  from assms(1) show ?thesis
  proof (cases rule: fstep.cases)
    case (f_advance c i page copied r)
    then show ?thesis using advance_moves_on [OF assms(2) f_advance(2), of cfg page copied] by (auto simp: moves_on_def)
  qed (use assms(2) cpu run in \<open>auto simp: idle_def intro!: kq intro: kstep.intros files_quiet_sched_step files_quiet_timer
      files_quiet_sleep files_quiet_kill files_quiet_wait files_quiet_chdir files_quiet_small
      finv_start_dup finv_start_close finv_start_open finv_start_pipe finv_start_fork finv_start_exit\<close>)
qed

lemma freachable_finv: "freachable cfg x \<Longrightarrow> finv x"
  by (induction rule: freachable.induct) (auto intro: finv_boot finv_step)

text \<open>A structure with count 0 is in no descriptor but the one an exiting process is about to clear.\<close>

lemma free_file_held:
  assumes "finv x" "refs (ftable (kern x)) f = 0" "i < length (ptable (kern x))" "n < NOFILE"
    "ofile (proc_at (kern x) i) ! n = Some f"
  shows "\<exists>st. pcs x i = ExitClosed st n"
proof -
  let ?fs = "fdtab (kern x) i"
  have sl: "slots_inv (pcs x) (kern x)" using assms(1) by (simp add: finv_def)
  then have ok: "call_ok (pcs x i) (kern x) i" "length ?fs = NOFILE" using assms(3) by (auto simp: slots_inv_def)
  have "owns (pcs x i) ?fs f = 0"
    using owns_nonneg [OF sl assms(3), of f] owns_le_total [OF sl assms(3), of f] assms(1,2) by (simp add: finv_def)
  moreover have h: "1 \<le> held ?fs f" by (rule fdtab_slot [OF sl assms(3,4)]) (use assms(5) in \<open>simp add: fdtab_def\<close>)
  ultimately have neg: "in_flight (pcs x i) ?fs f \<le> -1" "held ?fs f = - in_flight (pcs x i) ?fs f"
    by (simp_all add: owns_def)
  show ?thesis
  proof (cases "pcs x i")
    case (ExitClosed st fd)
    then have fd: "?fs ! fd = Some f" "held ?fs f = 1" "fd < length ?fs" using neg ok by (auto split: if_splits)
    then have "held (?fs[fd := None]) f = 0" by (simp add: held_update)
    then have "Some f \<notin> set (?fs[fd := None])" by (simp add: held_pos)
    then have "n = fd" using assms(4,5) ok(2) by (metis length_list_update nth_list_update_neq nth_mem fdtab_def)
    then show ?thesis using ExitClosed by simp
  qed (use neg ok h in \<open>auto split: if_splits\<close>)
qed

text \<open>
  C2: reference counts of open files, at the granularity of the locks.  The
  descriptor calls of all processes are interleaved section by section, and a
  process may sleep after every section.  In every reachable state the count of
  a file structure is the number of descriptors that hold it plus what the
  calls under way account for (\<open>in_flight\<close>): a structure allocated or duplicated
  and not yet in a descriptor counts once more, a descriptor that \<open>dup\<close> has
  written before \<open>filedup\<close> or that \<open>kexit\<close> has closed and not yet cleared counts
  once less.  A structure that \<open>filealloc\<close> hands out is therefore in no
  descriptor, except that of a process which is in \<open>kexit\<close> and will do nothing
  but clear it; and no section of a call ever panics.
\<close>

theorem file_ref_counts_exact:
  assumes "freachable cfg x"
  shows "(\<forall>f < length (ftable (kern x)). f_ref (ftable (kern x) ! f) =
            (\<Sum>i < length (ptable (kern x)). int (count_list (ofile (proc_at (kern x) i)) (Some f))
               + in_flight (pcs x i) (ofile (proc_at (kern x) i)) f))
    \<and> (\<forall>ft f i n. filealloc (ftable (kern x)) = Some (ft, f) \<longrightarrow> i < length (ptable (kern x)) \<longrightarrow> n < NOFILE \<longrightarrow>
          ofile (proc_at (kern x) i) ! n = Some f \<longrightarrow> (\<exists>st. pcs x i = ExitClosed st n))
    \<and> (\<forall>c i page copied. running (kern x) c i \<longrightarrow>
          (\<exists>r. advance cfg c i page copied (pcs x i) (kern x) = Inr r))"
proof (intro conjI allI impI)
  note inv = freachable_finv [OF assms]
  show "f_ref (ftable (kern x) ! f) = (\<Sum>i < length (ptable (kern x)).
      int (count_list (ofile (proc_at (kern x) i)) (Some f)) + in_flight (pcs x i) (ofile (proc_at (kern x) i)) f)"
    if "f < length (ftable (kern x))" for f
  proof -
    have "refs (ftable (kern x)) f = all_owned (pcs x) (kern x) f" using inv by (simp add: finv_def)
    with that show ?thesis by (simp add: refs_def all_owned_def owns_def held_def fdtab_def)
  qed
  show "\<exists>st. pcs x i = ExitClosed st n"
    if "filealloc (ftable (kern x)) = Some (ft, f)" "i < length (ptable (kern x))" "n < NOFILE"
      "ofile (proc_at (kern x) i) ! n = Some f" for ft f i n
    by (rule free_file_held [OF inv filealloc_refs(2) [OF that(1)] that(2-4)])
  show "\<exists>r. advance cfg c i page copied (pcs x i) (kern x) = Inr r" if "running (kern x) c i" for c i page copied
    using advance_moves_on [OF inv that, of cfg page copied] by (auto simp: moves_on_def)
qed

text \<open>Init is in the middle of \<open>pipe\<close>: one file structure is allocated, no descriptor is written.\<close>

definition pipe_half :: fkernel where
  "pipe_half = put_call 0 (start_pipe trace_run) \<lparr>kern = trace_run, pcs = (\<lambda>_. InUser)\<rparr>"

lemma pipe_half_reachable: "freachable USE_RR pipe_half"
proof -
  let ?b = "\<lparr>kern = boot_kernel USE_RR, pcs = (\<lambda>_. InUser)\<rparr>" and ?x = "\<lparr>kern = trace_run, pcs = (\<lambda>_. InUser)\<rparr>"
  have "\<exists>tf. userinit USE_RR tf 1 0 procinit = Some (boot_kernel USE_RR)"
    by (auto simp: boot_kernel_def userinit_def allocproc_procinit)
  then have "freachable USE_RR ?b" using fr_boot by blast
  moreover have "trace_run = sched_step USE_RR 0 (boot_kernel USE_RR)"
    by (simp add: trace_run_def sched_step_def boot_kernel_state)
  ultimately have "freachable USE_RR ?x"
    using fr_step [OF _ f_sched [of 0 ?b USE_RR]] by (simp add: boot_kernel_state)
  moreover have "fstep USE_RR ?x (put_call 0 (start_pipe (kern ?x)) ?x)"
    by (rule f_pipe [where c = 0]) (simp add: idle_def running_trace_run)
  ultimately show ?thesis unfolding pipe_half_def by (auto intro: fr_step)
qed

lemma pipe_half_fields:
  "0 < length (ftable (kern pipe_half))" "f_ref (ftable (kern pipe_half) ! 0) = 1" "pcs pipe_half 0 = PipeHalf 0"
proof -
  have ft: "ftable trace_run = ftable procinit"
    unfolding trace_run_def boot_kernel_def userinit_def allocproc_procinit by simp
  have f: "find_idx (\<lambda>f. f_ref f = 0) (ftable procinit) = Some 0"
    by (rule find_idx_SomeI) (simp_all add: procinit_def NFILE_def)
  have "0 < length (ftable procinit)" by (simp add: procinit_def NFILE_def)
  with ft f show "0 < length (ftable (kern pipe_half))" "f_ref (ftable (kern pipe_half) ! 0) = 1"
    "pcs pipe_half 0 = PipeHalf 0"
    by (simp_all add: pipe_half_def put_call_def start_pipe_def filealloc_def)
qed

theorem file_ref_counts_exact_witness:
  "freachable USE_RR pipe_half \<and> pcs pipe_half 0 = PipeHalf 0
   \<and> (\<Sum>i < length (ptable (kern pipe_half)). int (count_list (ofile (proc_at (kern pipe_half) i)) (Some 0))
        + in_flight (pcs pipe_half i) (ofile (proc_at (kern pipe_half) i)) 0) = 1"
  using file_ref_counts_exact [OF pipe_half_reachable] pipe_half_fields pipe_half_reachable by auto

section \<open>Sections back to back\<close>

text \<open>
  When nothing runs in between, the sections of a call make up the call as
  \<open>Sysfile\<close> gives it.
\<close>

fun run_call ::
  "nat \<Rightarrow> sched_cfg \<Rightarrow> nat \<Rightarrow> nat \<Rightarrow> nat option \<Rightarrow> bool \<Rightarrow> kernel \<times> fcall \<Rightarrow> (kernel \<times> fcall) res" where
  "run_call 0 cfg c i page copied r = Inr r"
| "run_call (Suc n) cfg c i page copied r =
     bindR (advance cfg c i page copied (snd r) (fst r)) (run_call n cfg c i page copied)"

definition whole :: "(kernel \<times> int) res \<Rightarrow> (kernel \<times> fcall) res" where
  "whole r = bindR r (\<lambda>(k, _). Inr (k, InUser))"

lemma run_call_done: "run_call n cfg c i page copied (k, InUser) = Inr (k, InUser)"
  by (induction n) simp_all

lemma bindR_assoc: "bindR (bindR m f) g = bindR m (\<lambda>a. bindR (f a) g)"
  by (cases m) simp_all

lemma dup_sections: "run_call 1 cfg c i page copied (start_dup i fd k) = whole (sys_dup i fd k)"
  by (simp add: start_dup_def sys_dup_def whole_def bindR_assoc split: option.split prod.split)

lemma close_sections: "run_call 2 cfg c i page copied (start_close i fd k) = whole (sys_close i fd k)"
  by (simp add: start_close_def sys_close_def whole_def bindR_assoc eval_nat_numeral split: option.split prod.split)

lemma open_sections: "run_call 3 cfg c i page copied (start_open path omode ino k) = whole (sys_open i path omode ino k)"
  by (cases path; cases ino; cases "flag omode O_CREATE")
    (auto simp: start_open_def sys_open_def open_fail_def whole_def bindR_assoc eval_nat_numeral Let_def
      split: option.split)

lemma pipe_sections: "run_call 8 cfg c i page copied (start_pipe k) = whole (sys_pipe i page copied k)"
  by (simp add: start_pipe_def sys_pipe_def pipealloc_def close_both_def whole_def bindR_assoc eval_nat_numeral
      split: option.split prod.split)

end
