(* ===== verification/Ring.thy ===== *)
theory Ring
  imports Prelude
begin

text \<open>
  Ring buffers indexed by free-running \<open>uint\<close> counters, the representation that
  \<open>pipe.c\<close> and \<open>console.c\<close> share: the counters only grow, wrap around at
  \<open>2 ^ 32\<close>, and are reduced modulo the buffer size at every access.  Because the
  size divides \<open>2 ^ 32\<close>, the wrap-around is harmless; the interface \<open>ring\<close> states
  this requirement, and its lemmas show that the buffer is a queue.
\<close>

definition ring_contents :: "nat \<Rightarrow> uint32 \<Rightarrow> uint32 \<Rightarrow> 'a list \<Rightarrow> 'a list" where
  "ring_contents N r e buf = map (\<lambda>j. buf ! (unat (r + of_nat j) mod N)) [0..<unat (e - r)]"

definition slot :: "nat \<Rightarrow> uint32 \<Rightarrow> nat" where
  "slot N x = unat x mod N"

lemma length_ring_contents [simp]: "length (ring_contents N r e buf) = unat (e - r)"
  by (simp add: ring_contents_def)

lemma ring_contents_empty [simp]: "ring_contents N r r buf = []"
  by (simp add: ring_contents_def)

lemma ring_contents_eq_Nil: "ring_contents N r e buf = [] \<longleftrightarrow> e = r"
proof -
  have "ring_contents N r e buf = [] \<longleftrightarrow> unat (e - r) = 0"
    by (simp add: ring_contents_def)
  then show ?thesis by (simp add: unat_eq_0)
qed

lemma unat_Suc_diff: "e \<noteq> (r :: uint32) \<Longrightarrow> unat (e - r) = Suc (unat (e - r - 1))"
  by (metis (no_types, lifting) Suc_pred' eq_iff_diff_eq_0 unat_gt_0 unat_minus_one)

locale ring =
  fixes N :: nat
  assumes N_pos: "0 < N" and N_dvd: "N dvd 2 ^ 32" and N_less: "N < 2 ^ 32"
begin

lemma slot_add: "unat (r + of_nat j :: uint32) mod N = (unat r + j) mod N"
proof -
  have "unat (r + of_nat j :: uint32) = (unat r + j) mod 2 ^ 32"
    by (simp add: unat_word_ariths unat_of_nat mod_simps)
  then show ?thesis using N_dvd by (simp only: mod_mod_cancel)
qed

lemma slot_less: "slot N x < N"
  by (simp add: slot_def N_pos)

lemma slot_neq:
  assumes "i < unat (e - r)" "unat (e - r) < N"
  shows "unat (r + of_nat i) mod N \<noteq> slot N e"
proof -
  let ?n = "unat (e - r)"
  have "e = r + of_nat ?n" by simp
  then have "slot N e = (unat r + ?n) mod N"
    unfolding slot_def by (metis slot_add)
  moreover have "(unat r + i) mod N \<noteq> (unat r + ?n) mod N"
  proof
    assume "(unat r + i) mod N = (unat r + ?n) mod N"
    then have "N dvd (unat r + ?n) - (unat r + i)"
      by (metis assms(1) less_or_eq_imp_le mod_eq_dvd_iff_nat nat_add_left_cancel_le)
    then have "N dvd ?n - i" by simp
    then show False using assms dvd_imp_le [of N "?n - i"] by simp
  qed
  ultimately show ?thesis by (simp add: slot_add)
qed

lemma unat_put: "unat (e - r :: uint32) < N \<Longrightarrow> unat (e + 1 - r) = Suc (unat (e - r))"
proof -
  assume "unat (e - r) < N"
  then have "unat (e - r) + 1 < 2 ^ 32" using N_less by simp
  then have "unat (e - r + 1) = Suc (unat (e - r))"
    by (simp add: unat_word_ariths)
  then show ?thesis by (simp add: algebra_simps)
qed

lemma put:
  assumes "unat (e - r) < N" "length buf = N"
  shows "ring_contents N r (e + 1) (buf[slot N e := x]) = ring_contents N r e buf @ [x]"
proof (rule nth_equalityI)
  show "length (ring_contents N r (e + 1) (buf[slot N e := x])) = length (ring_contents N r e buf @ [x])"
    using unat_put [OF assms(1)] by simp
next
  fix i
  assume "i < length (ring_contents N r (e + 1) (buf[slot N e := x]))"
  then have i: "i < Suc (unat (e - r))" using unat_put [OF assms(1)] by simp
  show "ring_contents N r (e + 1) (buf[slot N e := x]) ! i = (ring_contents N r e buf @ [x]) ! i"
  proof (cases "i = unat (e - r)")
    case True
    have "r + of_nat (unat (e - r)) = e" by simp
    then show ?thesis
      using True unat_put [OF assms(1)] slot_less assms(2)
      by (simp add: ring_contents_def nth_append slot_def)
  next
    case False
    with i have i': "i < unat (e - r)" by simp
    then show ?thesis
      using slot_neq [OF i' assms(1), symmetric] unat_put [OF assms(1)]
      by (simp add: ring_contents_def nth_append)
  qed
qed

lemma get:
  assumes "e \<noteq> r"
  shows "ring_contents N r e buf = buf ! slot N r # ring_contents N (r + 1) e buf"
proof -
  have n: "unat (e - r) = Suc (unat (e - (r + 1)))"
    using unat_Suc_diff [OF assms] by (simp add: algebra_simps)
  have "[0..<unat (e - r)] = 0 # map Suc [0..<unat (e - (r + 1))]"
    unfolding n by (simp only: upt_conv_Cons map_Suc_upt zero_less_Suc)
  then show ?thesis
    by (simp add: ring_contents_def slot_def algebra_simps)
qed

lemma unput:
  assumes "e \<noteq> r"
  shows "ring_contents N r (e - 1) buf = butlast (ring_contents N r e buf)"
    "last (ring_contents N r e buf) = buf ! slot N (e - 1)"
proof -
  have n: "unat (e - r) = Suc (unat (e - 1 - r))"
    using unat_Suc_diff [OF assms] by (simp add: algebra_simps)
  have e: "r + of_nat (unat (e - 1 - r)) = e - 1" by simp
  have *: "ring_contents N r e buf = ring_contents N r (e - 1) buf @ [buf ! slot N (e - 1)]"
    unfolding ring_contents_def n upt_Suc using e by (simp add: slot_def)
  show "ring_contents N r (e - 1) buf = butlast (ring_contents N r e buf)"
    "last (ring_contents N r e buf) = buf ! slot N (e - 1)"
    by (simp_all add: *)
qed

lemma split:
  assumes "unat (w - r) \<le> unat (e - r)"
  shows "ring_contents N r w buf = take (unat (w - r)) (ring_contents N r e buf)"
    "ring_contents N w e buf = drop (unat (w - r)) (ring_contents N r e buf)"
    "unat (e - w) = unat (e - r) - unat (w - r)"
proof -
  have "e - w = (e - r) - (w - r)" by simp
  then show n: "unat (e - w) = unat (e - r) - unat (w - r)"
    using assms by (simp only: unat_sub word_le_nat_alt)
  show "ring_contents N r w buf = take (unat (w - r)) (ring_contents N r e buf)"
    using assms by (simp add: ring_contents_def take_map)
  let ?k = "unat (w - r)"
  have "[?k..<unat (e - r)] = map (\<lambda>j. j + ?k) [0..<unat (e - r) - ?k]"
    using assms by (simp add: map_add_upt)
  moreover have "r + of_nat (j + ?k) = w + of_nat j" for j by simp
  ultimately show "ring_contents N w e buf = drop ?k (ring_contents N r e buf)"
    by (simp add: ring_contents_def drop_map n comp_def del: of_nat_add)
qed

end

end
