(* ===== verification/Pipe.thy ===== *)
theory Pipe
  imports Ring
begin

text \<open>
  Pipes (\<open>xv6-riscv/kernel/pipe.c\<close>).  A call runs until it returns or goes to
  sleep; a sleeping writer resumes the loop at the byte it had reached, so the
  index is an argument.  \<open>copyin\<close> of byte \<open>i\<close> is \<open>src i\<close> (\<open>None\<close> when the user
  address is bad) and \<open>copyout\<close> of byte \<open>i\<close> succeeds if \<open>dst i\<close>.  Besides the new
  state a call yields the bytes it moved and the channels it woke.
\<close>

section \<open>State and operations\<close>

definition PIPESIZE :: nat where "PIPESIZE = 512"

record pipe =
  pdata :: "uint8 list"
  nread :: uint32
  nwrite :: uint32
  readopen :: bool
  writeopen :: bool

datatype pwake = WakeNread | WakeNwrite

datatype pipe_result = PRet int | PSleep nat

text \<open>The page of a new pipe is not cleared.\<close>

definition pipe_init :: "uint8 list \<Rightarrow> pipe" where
  "pipe_init page = \<lparr>pdata = page, nread = 0, nwrite = 0, readopen = True, writeopen = True\<rparr>"

text \<open>The last component says whether the page is freed.\<close>

definition pipeclose :: "bool \<Rightarrow> pipe \<Rightarrow> pipe \<times> pwake list \<times> bool" where
  "pipeclose writable p =
     (let (p', w) = (if writable then (p\<lparr>writeopen := False\<rparr>, [WakeNread])
                     else (p\<lparr>readopen := False\<rparr>, [WakeNwrite]))
      in (p', w, \<not> readopen p' \<and> \<not> writeopen p'))"

definition pipe_push :: "uint8 \<Rightarrow> pipe \<Rightarrow> pipe" where
  "pipe_push ch p = p\<lparr>pdata := (pdata p)[slot PIPESIZE (nwrite p) := ch], nwrite := nwrite p + 1\<rparr>"

function pipewrite ::
  "(nat \<Rightarrow> uint8 option) \<Rightarrow> bool \<Rightarrow> int \<Rightarrow> nat \<Rightarrow> pipe \<Rightarrow> pipe \<times> uint8 list \<times> pwake list \<times> pipe_result" where
  "pipewrite src killed n i p =
     (if int i < n then
        if \<not> readopen p \<or> killed then (p, [], [], PRet (-1))
        else if nwrite p = nread p + of_nat PIPESIZE then (p, [], [WakeNread], PSleep i)
        else (case src i of
                None \<Rightarrow> (p, [], [WakeNread], PRet (int i))
              | Some ch \<Rightarrow>
                  let (p', bs, ws, r) = pipewrite src killed n (Suc i) (pipe_push ch p)
                  in (p', ch # bs, ws, r))
      else (p, [], [WakeNread], PRet (int i)))"
  by pat_completeness auto
termination by (relation "measure (\<lambda>(src, killed, n, i, p). nat (n - int i))") auto

function piperead_copy ::
  "(nat \<Rightarrow> bool) \<Rightarrow> int \<Rightarrow> nat \<Rightarrow> pipe \<Rightarrow> pipe \<times> uint8 list \<times> int" where
  "piperead_copy dst n i p =
     (if int i < n then
        if nread p = nwrite p then (p, [], int i)
        else let ch = pdata p ! slot PIPESIZE (nread p) in
             if \<not> dst i then (p, [], if i = 0 then -1 else int i)
             else let (p', bs, r) = piperead_copy dst n (Suc i) (p\<lparr>nread := nread p + 1\<rparr>)
                  in (p', ch # bs, r)
      else (p, [], int i))"
  by pat_completeness auto
termination by (relation "measure (\<lambda>(dst, n, i, p). nat (n - int i))") auto

definition piperead ::
  "(nat \<Rightarrow> bool) \<Rightarrow> bool \<Rightarrow> int \<Rightarrow> pipe \<Rightarrow> pipe \<times> uint8 list \<times> pwake list \<times> pipe_result" where
  "piperead dst killed n p =
     (if nread p = nwrite p \<and> writeopen p
      then (p, [], [], if killed then PRet (-1) else PSleep 0)
      else let (p', bs, r) = piperead_copy dst n 0 p in (p', bs, [WakeNwrite], PRet r))"

declare pipewrite.simps [simp del] piperead_copy.simps [simp del]

section \<open>Refinement to a bounded queue\<close>

interpretation pipe_ring: ring PIPESIZE
  by unfold_locales (simp_all add: PIPESIZE_def)

definition pipe_contents :: "pipe \<Rightarrow> uint8 list" where
  "pipe_contents p = ring_contents PIPESIZE (nread p) (nwrite p) (pdata p)"

definition pipe_ok :: "pipe \<Rightarrow> bool" where
  "pipe_ok p \<longleftrightarrow> length (pdata p) = PIPESIZE \<and> unat (nwrite p - nread p) \<le> PIPESIZE"

lemma pipe_full:
  assumes "pipe_ok p"
  shows "nwrite p = nread p + of_nat PIPESIZE \<longleftrightarrow> length (pipe_contents p) = PIPESIZE"
proof -
  have "nwrite p = nread p + of_nat PIPESIZE \<longleftrightarrow> nwrite p - nread p = of_nat PIPESIZE"
    by (auto simp: algebra_simps)
  also have "\<dots> \<longleftrightarrow> unat (nwrite p - nread p) = unat (of_nat PIPESIZE :: uint32)"
    by (rule word_unat_eq_iff)
  finally show ?thesis by (simp add: pipe_contents_def PIPESIZE_def)
qed

lemma pipe_empty: "nread p = nwrite p \<longleftrightarrow> pipe_contents p = []"
  using ring_contents_eq_Nil [of PIPESIZE "nread p" "nwrite p" "pdata p"]
  by (auto simp: pipe_contents_def)

lemma pipe_push_ok:
  assumes "pipe_ok p" "nwrite p \<noteq> nread p + of_nat PIPESIZE"
  shows "pipe_ok (pipe_push ch p)" "pipe_contents (pipe_push ch p) = pipe_contents p @ [ch]"
    "readopen (pipe_push ch p) = readopen p" "writeopen (pipe_push ch p) = writeopen p"
proof -
  have n: "unat (nwrite p - nread p) < PIPESIZE"
    using pipe_full [OF assms(1)] assms by (simp add: pipe_ok_def pipe_contents_def)
  show "pipe_contents (pipe_push ch p) = pipe_contents p @ [ch]"
    using pipe_ring.put [OF n, of "pdata p" ch] assms(1)
    by (simp add: pipe_contents_def pipe_push_def pipe_ok_def)
  show "pipe_ok (pipe_push ch p)"
    using pipe_ring.unat_put [OF n] n assms(1) by (simp add: pipe_ok_def pipe_push_def)
qed (simp_all add: pipe_push_def)

lemma pipewrite_spec:
  assumes "pipe_ok p" "pipewrite src killed n i p = (p', bs, ws, r)"
  shows "pipe_ok p' \<and> pipe_contents p' = pipe_contents p @ bs
    \<and> map Some bs = map src [i..<i + length bs]
    \<and> (readopen p' = readopen p \<and> writeopen p' = writeopen p)
    \<and> (case r of
         PSleep j \<Rightarrow> j = i + length bs \<and> length (pipe_contents p') = PIPESIZE \<and> int j < n \<and> readopen p
       | PRet v \<Rightarrow> (v = -1 \<and> (\<not> readopen p \<or> killed) \<or> v = int (i + length bs)
                     \<and> (n \<le> v \<or> src (i + length bs) = None)))"
  using assms
proof (induction src killed n i p arbitrary: p' bs ws r rule: pipewrite.induct)
  case (1 src killed n i p)
  show ?case
  proof (cases "int i < n \<and> \<not> (\<not> readopen p \<or> killed) \<and> nwrite p \<noteq> nread p + of_nat PIPESIZE \<and> src i \<noteq> None")
    case True
    then obtain ch where ch: "src i = Some ch" by auto
    obtain p1 bs1 ws1 r1 where rec: "pipewrite src killed n (Suc i) (pipe_push ch p) = (p1, bs1, ws1, r1)"
      by (metis prod_cases4)
    with 1(3) True ch have eqs: "p' = p1" "bs = ch # bs1" "r = r1"
      by (auto simp: pipewrite.simps [of src killed n i p])
    note ok = pipe_push_ok [OF 1(2), of ch]
    have "[i..<i + length bs] = i # [Suc i..<Suc i + length bs1]"
      by (subst upt_conv_Cons) (simp_all add: eqs(2))
    then have "map src [i..<i + length bs] = src i # map src [Suc i..<Suc i + length bs1]"
      by simp
    with 1(1) [of ch p1 bs1 ws1 r1] True ch rec ok eqs show ?thesis
      by (auto split: pipe_result.splits)
  next
    case False
    with 1(2,3) pipe_full [OF 1(2)] show ?thesis
      by (auto simp: pipewrite.simps [of src killed n i p] split: if_splits option.splits)
  qed
qed

lemma pipe_pop_ok:
  assumes "pipe_ok p" "nread p \<noteq> nwrite p"
  shows "pipe_ok (p\<lparr>nread := nread p + 1\<rparr>)"
    "pipe_contents p = pdata p ! slot PIPESIZE (nread p) # pipe_contents (p\<lparr>nread := nread p + 1\<rparr>)"
proof -
  show *: "pipe_contents p = pdata p ! slot PIPESIZE (nread p) # pipe_contents (p\<lparr>nread := nread p + 1\<rparr>)"
    using pipe_ring.get [of "nwrite p" "nread p" "pdata p"] assms(2) by (simp add: pipe_contents_def)
  have "length (pipe_contents p) = Suc (length (pipe_contents (p\<lparr>nread := nread p + 1\<rparr>)))"
    by (subst *) simp
  then show "pipe_ok (p\<lparr>nread := nread p + 1\<rparr>)"
    using assms(1) by (simp add: pipe_ok_def pipe_contents_def)
qed

lemma piperead_copy_spec:
  assumes "pipe_ok p" "piperead_copy dst n i p = (p', bs, v)"
  shows "pipe_ok p' \<and> pipe_contents p = bs @ pipe_contents p'
    \<and> readopen p' = readopen p \<and> writeopen p' = writeopen p \<and> (\<forall>j < length bs. dst (i + j))
    \<and> (v = int (i + length bs) \<or> v = -1 \<and> i + length bs = 0 \<and> \<not> dst i)
    \<and> (n \<le> int (i + length bs) \<or> pipe_contents p' = [] \<or> \<not> dst (i + length bs))"
  using assms
proof (induction dst n i p arbitrary: p' bs v rule: piperead_copy.induct)
  case (1 dst n i p)
  show ?case
  proof (cases "int i < n \<and> nread p \<noteq> nwrite p \<and> dst i")
    case True
    let ?p = "p\<lparr>nread := nread p + 1\<rparr>"
    obtain p1 bs1 v1 where rec: "piperead_copy dst n (Suc i) ?p = (p1, bs1, v1)"
      by (metis prod_cases3)
    with 1(3) True have eqs: "p' = p1" "bs = pdata p ! slot PIPESIZE (nread p) # bs1" "v = v1"
      by (auto simp: piperead_copy.simps [of dst n i p] Let_def)
    note ok = pipe_pop_ok [OF 1(2)]
    have "pipe_ok p1 \<and> pipe_contents ?p = bs1 @ pipe_contents p1
      \<and> readopen p1 = readopen p \<and> writeopen p1 = writeopen p \<and> (\<forall>j < length bs1. dst (Suc i + j))
      \<and> v1 = int (Suc i + length bs1)
      \<and> (n \<le> int (Suc i + length bs1) \<or> pipe_contents p1 = [] \<or> \<not> dst (Suc i + length bs1))"
      using 1(1) [of _ p1 bs1 v1] True rec ok(1) by auto
    with ok(2) True eqs show ?thesis
      by (auto simp: less_Suc_eq_0_disj)
  next
    case False
    with 1(2,3) pipe_empty [of p] show ?thesis
      by (auto simp: piperead_copy.simps [of dst n i p] Let_def split: if_splits)
  qed
qed

section \<open>Runs of a pipe\<close>

text \<open>
  Writers, readers and closers in any order.  The two lists are the bytes all
  writes have stored and the bytes all reads have delivered.
\<close>

inductive pipe_run :: "uint8 list \<Rightarrow> pipe \<Rightarrow> uint8 list \<Rightarrow> uint8 list \<Rightarrow> bool" for page where
  pr_new: "pipe_run page (pipe_init page) [] []"
| pr_write: "pipe_run page p w r \<Longrightarrow> pipewrite src killed n i p = (p', bs, ws, res) \<Longrightarrow>
    pipe_run page p' (w @ bs) r"
| pr_read: "pipe_run page p w r \<Longrightarrow> piperead dst killed n p = (p', bs, ws, res) \<Longrightarrow>
    pipe_run page p' w (r @ bs)"
| pr_close: "pipe_run page p w r \<Longrightarrow> pipeclose wr p = (p', ws, freed) \<Longrightarrow> pipe_run page p' w r"

lemma piperead_keeps:
  assumes "pipe_ok p" "piperead dst killed n p = (p', bs, ws, res)"
  shows "pipe_ok p' \<and> pipe_contents p = bs @ pipe_contents p'"
  using assms piperead_copy_spec [OF assms(1)]
  by (auto simp: piperead_def Let_def split: if_splits prod.splits)

text \<open>
  C21: a pipe delivers the bytes in the order they were written, without loss or
  duplication, whatever the sizes of the calls and however often the 32-bit
  counters wrap around; at most \<open>PIPESIZE\<close> bytes are in flight.
\<close>

theorem pipe_is_fifo:
  assumes "length page = PIPESIZE" "pipe_run page p w r"
  shows "w = r @ pipe_contents p \<and> length (pipe_contents p) \<le> PIPESIZE"
proof -
  from assms(2) have "pipe_ok p \<and> w = r @ pipe_contents p"
  proof induction
    case pr_new
    then show ?case using assms(1) by (simp add: pipe_ok_def pipe_init_def pipe_contents_def)
  next
    case (pr_write p w r src killed n i p' bs ws res)
    then show ?case using pipewrite_spec [of p src killed n i p' bs ws res] by auto
  next
    case (pr_read p w r dst killed n p' bs ws res)
    then show ?case using piperead_keeps [of p dst killed n p' bs ws res] by auto
  next
    case (pr_close p w r wr p' ws freed)
    then show ?case
      by (auto simp: pipeclose_def Let_def pipe_ok_def pipe_contents_def split: if_splits)
  qed
  then show ?thesis by (simp add: pipe_ok_def pipe_contents_def)
qed

theorem pipe_is_fifo_witness:
  "\<exists>p. length (replicate 512 (0 :: uint8)) = PIPESIZE
     \<and> pipe_run (replicate 512 0) p [7] [] \<and> [7] = [] @ pipe_contents p"
proof -
  let ?page = "replicate 512 (0 :: uint8)"
  let ?p = "pipe_push 7 (pipe_init ?page)"
  have l: "length ?page = PIPESIZE" by (simp add: PIPESIZE_def)
  have "pipewrite (\<lambda>_. Some 7) False 1 0 (pipe_init ?page) = (?p, [7], [WakeNread], PRet 1)"
    by (simp add: pipewrite.simps pipe_init_def pipe_push_def PIPESIZE_def)
  from pr_write [OF pr_new this] have run: "pipe_run ?page ?p [7] []" by simp
  from pipe_is_fifo [OF l run] run l show ?thesis by auto
qed

text \<open>
  what a read returns.  It sleeps only on an empty pipe whose write end is
  open; otherwise it delivers a prefix of the contents, as many bytes as were
  asked for unless the pipe runs empty or the user buffer is bad, and it
  returns 0 for a positive request exactly at end of file.
\<close>

theorem piperead_behaviour:
  assumes "pipe_ok p" "piperead dst killed n p = (p', bs, ws, res)"
  shows "if pipe_contents p = [] \<and> writeopen p
    then p' = p \<and> bs = [] \<and> res = (if killed then PRet (-1) else PSleep 0)
    else pipe_contents p = bs @ pipe_contents p' \<and> ws = [WakeNwrite]
      \<and> (n \<le> int (length bs) \<or> pipe_contents p' = [] \<or> \<not> dst (length bs))
      \<and> res = PRet (if 0 < n \<and> pipe_contents p \<noteq> [] \<and> \<not> dst 0 then -1 else int (length bs))
      \<and> (0 < n \<and> res = PRet 0 \<longrightarrow> pipe_contents p = [] \<and> \<not> writeopen p)"
proof (cases "nread p = nwrite p \<and> writeopen p")
  case True
  with assms(2) pipe_empty [of p] show ?thesis by (auto simp: piperead_def)
next
  case False
  obtain p1 bs1 v where c: "piperead_copy dst n 0 p = (p1, bs1, v)" by (metis prod_cases3)
  with False assms(2) have eqs: "p' = p1" "bs = bs1" "res = PRet v" "ws = [WakeNwrite]"
    by (auto simp: piperead_def)
  note spec = piperead_copy_spec [OF assms(1) c]
  have neg: "v = -1 \<longleftrightarrow> 0 < n \<and> pipe_contents p \<noteq> [] \<and> \<not> dst 0"
    using c spec pipe_empty [of p]
    by (auto simp: piperead_copy.simps [of dst n 0 p] Let_def split: if_splits prod.splits)
  show ?thesis
    using False spec neg eqs pipe_empty [of p] by auto
qed

theorem piperead_behaviour_witness:
  "pipe_ok (pipe_push 7 (pipe_init (replicate 512 0)))
   \<and> (\<exists>p'. piperead (\<lambda>_. True) False 5 (pipe_push 7 (pipe_init (replicate 512 0))) = (p', [7], [WakeNwrite], PRet 1)
        \<and> pipe_contents (pipe_push 7 (pipe_init (replicate 512 0))) = [7] @ pipe_contents p')"
proof -
  let ?p = "pipe_push 7 (pipe_init (replicate 512 0))"
  have ok: "pipe_ok ?p"
    by (rule pipe_push_ok) (simp_all add: pipe_ok_def pipe_init_def PIPESIZE_def)
  have c: "pipe_contents ?p = [7]"
    by (subst pipe_push_ok) (simp_all add: pipe_ok_def pipe_init_def PIPESIZE_def pipe_contents_def)
  have "\<exists>p'. piperead (\<lambda>_. True) False 5 ?p = (p', [7], [WakeNwrite], PRet 1)"
    by (simp add: piperead_def piperead_copy.simps pipe_push_def pipe_init_def slot_def PIPESIZE_def)
  then obtain p' where r: "piperead (\<lambda>_. True) False 5 ?p = (p', [7], [WakeNwrite], PRet 1)" by blast
  from piperead_behaviour [OF ok r] ok r c show ?thesis by auto
qed

text \<open>
  what a write does.  It stores a prefix of the user's bytes at the end of
  the contents; it sleeps only on a full pipe with an open read end, remembering
  how far it got, returns the count when everything is stored or the user buffer
  ends, and \<open>-1\<close> only if the read end is closed or the process was killed.
\<close>

theorem pipewrite_behaviour:
  assumes "pipe_ok p" "pipewrite src killed n i p = (p', bs, ws, res)"
  shows "pipe_ok p' \<and> pipe_contents p' = pipe_contents p @ bs
    \<and> map Some bs = map src [i..<i + length bs]
    \<and> (case res of
         PSleep j \<Rightarrow> j = i + length bs \<and> int j < n \<and> length (pipe_contents p') = PIPESIZE \<and> readopen p
       | PRet v \<Rightarrow> v = -1 \<and> (\<not> readopen p \<or> killed)
           \<or> v = int (i + length bs) \<and> (n \<le> v \<or> src (i + length bs) = None))"
  using pipewrite_spec [OF assms] by (auto split: pipe_result.splits)

theorem pipewrite_behaviour_witness:
  "pipe_ok (pipe_init (replicate 512 0))
   \<and> (\<exists>p'. pipewrite (\<lambda>_. Some 7) False 1 0 (pipe_init (replicate 512 0)) = (p', [7], [WakeNread], PRet 1)
        \<and> pipe_contents p' = pipe_contents (pipe_init (replicate 512 0)) @ [7])"
proof -
  let ?p = "pipe_init (replicate 512 0)"
  have ok: "pipe_ok ?p" by (simp add: pipe_ok_def pipe_init_def PIPESIZE_def)
  have w: "pipewrite (\<lambda>_. Some 7) False 1 0 ?p = (pipe_push 7 ?p, [7], [WakeNread], PRet 1)"
    by (simp add: pipewrite.simps pipe_init_def pipe_push_def PIPESIZE_def)
  from pipewrite_behaviour [OF ok w] ok w show ?thesis by auto
qed

end
