(* ===== verification/Console.thy ===== *)
theory Console
  imports Ring
begin

text \<open>
  Console input (\<open>xv6-riscv/kernel/console.c\<close>): the interrupt handler edits the
  current line in the ring between \<open>cons.w\<close> and \<open>cons.e\<close> and commits it to the
  readers, who take bytes between \<open>cons.r\<close> and \<open>cons.w\<close>.  Output to the uart is
  returned; a reader that has to sleep returns how many bytes are still wanted.
  \<open>either_copyout\<close> of the next byte succeeds if \<open>dst\<close> of the count so far.
\<close>

section \<open>State and operations\<close>

definition INPUT_BUF_SIZE :: nat where "INPUT_BUF_SIZE = 128"

record cons =
  cbuf :: "uint8 list"
  cons_r :: uint32
  cons_w :: uint32
  cons_e :: uint32

datatype cons_event = Wakeup | Procdump

datatype cons_result = CRet int | CSleep int

definition consputc_backspace :: "uint8 list" where
  "consputc_backspace = [8, 32, 8]"

function kill_line :: "cons \<Rightarrow> cons \<times> uint8 list" where
  "kill_line s =
     (if cons_e s \<noteq> cons_w s \<and> cbuf s ! slot INPUT_BUF_SIZE (cons_e s - 1) \<noteq> 10
      then let (s', out) = kill_line (s\<lparr>cons_e := cons_e s - 1\<rparr>) in (s', consputc_backspace @ out)
      else (s, []))"
  by pat_completeness auto
termination
proof (relation "measure (\<lambda>s. unat (cons_e s - cons_w s))")
  fix s :: cons
  assume "cons_e s \<noteq> cons_w s \<and> cbuf s ! slot INPUT_BUF_SIZE (cons_e s - 1) \<noteq> 10"
  then have "unat (cons_e s - cons_w s) = Suc (unat (cons_e s - cons_w s - 1))"
    using unat_Suc_diff by blast
  then show "(s\<lparr>cons_e := cons_e s - 1\<rparr>, s) \<in> measure (\<lambda>s. unat (cons_e s - cons_w s))"
    by (simp add: algebra_simps)
qed simp

declare kill_line.simps [simp del]

definition consoleintr :: "uint8 \<Rightarrow> cons \<Rightarrow> cons \<times> uint8 list \<times> cons_event list" where
  "consoleintr c s =
     (if c = 0x10 then (s, [], [Procdump])
      else if c = 0x15 then (let (s', out) = kill_line s in (s', out, []))
      else if c = 0x08 \<or> c = 0x7F then
        if cons_e s \<noteq> cons_w s then (s\<lparr>cons_e := cons_e s - 1\<rparr>, consputc_backspace, []) else (s, [], [])
      else if c \<noteq> 0 \<and> cons_e s - cons_r s < of_nat INPUT_BUF_SIZE then
        let ch = (if c = 13 then 10 else c);
            s1 = s\<lparr>cbuf := (cbuf s)[slot INPUT_BUF_SIZE (cons_e s) := ch], cons_e := cons_e s + 1\<rparr>
        in if ch = 10 \<or> ch = 4 \<or> cons_e s1 - cons_r s1 = of_nat INPUT_BUF_SIZE
           then (s1\<lparr>cons_w := cons_e s1\<rparr>, [ch], [Wakeup]) else (s1, [ch], [])
      else (s, [], []))"

function consoleread ::
  "(int \<Rightarrow> bool) \<Rightarrow> bool \<Rightarrow> int \<Rightarrow> int \<Rightarrow> cons \<Rightarrow> cons \<times> uint8 list \<times> cons_result" where
  "consoleread dst killed target n s =
     (if n > 0 then
        if cons_r s = cons_w s then (s, [], if killed then CRet (-1) else CSleep n)
        else
          let c = cbuf s ! slot INPUT_BUF_SIZE (cons_r s);
              s1 = s\<lparr>cons_r := cons_r s + 1\<rparr>
          in if c = 4 then
               (if n < target then s1\<lparr>cons_r := cons_r s1 - 1\<rparr> else s1, [], CRet (target - n))
             else if \<not> dst (target - n) then (s1, [], CRet (target - n))
             else if c = 10 then (s1, [c], CRet (target - (n - 1)))
             else let (s', bs, res) = consoleread dst killed target (n - 1) s1 in (s', c # bs, res)
      else (s, [], CRet (target - n)))"
  by pat_completeness auto
termination by (relation "measure (\<lambda>(dst, killed, target, n, s). nat n)") auto

declare consoleread.simps [simp del]

section \<open>Committed and edited text\<close>

interpretation cons_ring: ring INPUT_BUF_SIZE
  by unfold_locales (simp_all add: INPUT_BUF_SIZE_def)

definition committed :: "cons \<Rightarrow> uint8 list" where
  "committed s = ring_contents INPUT_BUF_SIZE (cons_r s) (cons_w s) (cbuf s)"

definition editing :: "cons \<Rightarrow> uint8 list" where
  "editing s = ring_contents INPUT_BUF_SIZE (cons_w s) (cons_e s) (cbuf s)"

definition cons_ok :: "cons \<Rightarrow> bool" where
  "cons_ok s \<longleftrightarrow> length (cbuf s) = INPUT_BUF_SIZE
     \<and> unat (cons_w s - cons_r s) \<le> unat (cons_e s - cons_r s)
     \<and> unat (cons_e s - cons_r s) \<le> INPUT_BUF_SIZE
     \<and> 10 \<notin> set (editing s) \<and> 4 \<notin> set (editing s)"

text \<open>The line discipline on the two texts.\<close>

definition line_step :: "uint8 \<Rightarrow> uint8 list \<times> uint8 list \<Rightarrow> uint8 list \<times> uint8 list" where
  "line_step c ce =
     (let (com, ed) = ce in
      if c = 0x10 then (com, ed)
      else if c = 0x15 then (com, [])
      else if c = 0x08 \<or> c = 0x7F then (com, butlast ed)
      else if c \<noteq> 0 \<and> length com + length ed < INPUT_BUF_SIZE then
        let ch = (if c = 13 then 10 else c); ed' = ed @ [ch]
        in if ch = 10 \<or> ch = 4 \<or> length com + length ed' = INPUT_BUF_SIZE
           then (com @ ed', []) else (com, ed')
      else (com, ed))"

lemma cons_lengths:
  assumes "cons_ok s"
  shows "unat (cons_e s - cons_r s) = length (committed s) + length (editing s)"
    "length (committed s) + length (editing s) \<le> INPUT_BUF_SIZE"
    "ring_contents INPUT_BUF_SIZE (cons_r s) (cons_e s) (cbuf s) = committed s @ editing s"
proof -
  have le: "unat (cons_w s - cons_r s) \<le> unat (cons_e s - cons_r s)" using assms by (simp add: cons_ok_def)
  note sp = cons_ring.split [OF le]
  show n: "unat (cons_e s - cons_r s) = length (committed s) + length (editing s)"
    using sp(3) le by (simp add: committed_def editing_def)
  then show "length (committed s) + length (editing s) \<le> INPUT_BUF_SIZE"
    using assms by (simp add: cons_ok_def)
  show "ring_contents INPUT_BUF_SIZE (cons_r s) (cons_e s) (cbuf s) = committed s @ editing s"
    unfolding committed_def editing_def sp(1,2) by simp
qed

lemma kill_line_spec:
  assumes "cons_ok s" "kill_line s = (s', out)"
  shows "s' = s\<lparr>cons_e := cons_w s\<rparr>"
  using assms
proof (induction s arbitrary: s' out rule: kill_line.induct)
  case (1 s)
  show ?case
  proof (cases "cons_e s = cons_w s")
    case True
    then show ?thesis using 1(3) by (simp add: kill_line.simps)
  next
    case False
    let ?s = "s\<lparr>cons_e := cons_e s - 1\<rparr>"
    note u = cons_ring.unput [OF False, of "cbuf s"]
    have ne: "editing s \<noteq> []"
      using False by (simp add: editing_def ring_contents_eq_Nil)
    then have l: "cbuf s ! slot INPUT_BUF_SIZE (cons_e s - 1) \<noteq> 10"
      using 1(2) last_in_set [OF ne] u(2) by (auto simp: cons_ok_def editing_def)
    have ed: "editing ?s = butlast (editing s)"
      using u(1) by (simp add: editing_def)
    have "0 < length (editing s)" using ne by simp
    then have "unat (cons_w s - cons_r s) < unat (cons_e s - cons_r s)"
      using cons_lengths(1) [OF 1(2)] by (simp add: committed_def)
    moreover from this have "cons_e s \<noteq> cons_r s" by auto
    then have "unat (cons_e s - cons_r s) = Suc (unat (cons_e s - 1 - cons_r s))"
      using unat_Suc_diff [of "cons_e s" "cons_r s"] by (simp add: algebra_simps)
    ultimately have "cons_ok ?s"
      using 1(2) ed by (auto simp: cons_ok_def dest: in_set_butlastD)
    obtain s1 out1 where r: "kill_line ?s = (s1, out1)" by fastforce
    with 1(3) False l have "s' = s1" by (auto simp: kill_line.simps [of s])
    with 1(1) [OF _ \<open>cons_ok ?s\<close> r] False l show ?thesis by simp
  qed
qed

text \<open>One more byte at the edit index.\<close>

lemma cons_put:
  fixes s :: cons and ch :: uint8
  assumes "cons_ok s" "length (committed s) + length (editing s) < INPUT_BUF_SIZE"
  defines "s1 \<equiv> s\<lparr>cbuf := (cbuf s)[slot INPUT_BUF_SIZE (cons_e s) := ch], cons_e := cons_e s + 1\<rparr>"
  shows "committed s1 = committed s" "editing s1 = editing s @ [ch]"
    "unat (cons_e s1 - cons_r s1) = Suc (length (committed s) + length (editing s))"
    "unat (cons_w s1 - cons_r s1) \<le> unat (cons_e s1 - cons_r s1)" "length (cbuf s1) = INPUT_BUF_SIZE"
proof -
  let ?buf = "(cbuf s)[slot INPUT_BUF_SIZE (cons_e s) := ch]"
  note len = cons_lengths [OF assms(1)]
  have n: "unat (cons_e s - cons_r s) < INPUT_BUF_SIZE" using assms(2) len(1) by simp
  have b: "length (cbuf s) = INPUT_BUF_SIZE" using assms(1) by (simp add: cons_ok_def)
  have all: "ring_contents INPUT_BUF_SIZE (cons_r s) (cons_e s + 1) ?buf = committed s @ editing s @ [ch]"
    using cons_ring.put [OF n b] len(3) by simp
  show e: "unat (cons_e s1 - cons_r s1) = Suc (length (committed s) + length (editing s))"
    using cons_ring.unat_put [OF n] len(1) by (simp add: s1_def)
  show le: "unat (cons_w s1 - cons_r s1) \<le> unat (cons_e s1 - cons_r s1)"
    using e by (simp add: s1_def committed_def)
  have k: "unat (cons_w s - cons_r s) = length (committed s)" by (simp add: committed_def)
  have le': "unat (cons_w s - cons_r s) \<le> unat (cons_e s + 1 - cons_r s)"
    using le by (simp add: s1_def)
  have "committed s1 = ring_contents INPUT_BUF_SIZE (cons_r s) (cons_w s) ?buf"
    by (simp add: committed_def s1_def)
  also have "\<dots> = take (length (committed s)) (committed s @ editing s @ [ch])"
    by (simp only: cons_ring.split(1) [OF le'] all k)
  finally show "committed s1 = committed s" by simp
  have "editing s1 = ring_contents INPUT_BUF_SIZE (cons_w s) (cons_e s + 1) ?buf"
    by (simp add: editing_def s1_def)
  also have "\<dots> = drop (length (committed s)) (committed s @ editing s @ [ch])"
    by (simp only: cons_ring.split(2) [OF le'] all k)
  finally show "editing s1 = editing s @ [ch]" by simp
  show "length (cbuf s1) = INPUT_BUF_SIZE" by (simp add: s1_def b)
qed

lemma cons_room:
  assumes "cons_ok s"
  shows "cons_e s - cons_r s < of_nat INPUT_BUF_SIZE \<longleftrightarrow>
    length (committed s) + length (editing s) < INPUT_BUF_SIZE"
  using cons_lengths(1) [OF assms] by (simp add: word_less_nat_alt INPUT_BUF_SIZE_def)

text \<open>
  C22: the interrupt handler implements the line discipline: with respect to the
  committed and the edited text, which stay within the ring, every input byte
  has exactly the effect of \<open>line_step\<close>.
\<close>

theorem consoleintr_refines_line_discipline:
  assumes "cons_ok s" "consoleintr c s = (s', out, ev)"
  shows "cons_ok s' \<and> (committed s', editing s') = line_step c (committed s, editing s)"
proof -
  note len = cons_lengths [OF assms(1)]
  consider (dump) "c = 0x10" | (kill) "c = 0x15" | (erase) "c = 0x08 \<or> c = 0x7F"
    | (store) "c \<noteq> 0x10" "c \<noteq> 0x15" "c \<noteq> 0x08" "c \<noteq> 0x7F" "c \<noteq> 0"
        "length (committed s) + length (editing s) < INPUT_BUF_SIZE"
    | (drop) "c \<noteq> 0x10" "c \<noteq> 0x15" "c \<noteq> 0x08" "c \<noteq> 0x7F"
        "\<not> (c \<noteq> 0 \<and> length (committed s) + length (editing s) < INPUT_BUF_SIZE)"
    by blast
  then show ?thesis
  proof cases
    case dump
    then show ?thesis using assms by (simp add: consoleintr_def line_step_def)
  next
    case kill
    obtain s1 o1 where r: "kill_line s = (s1, o1)" by fastforce
    with kill assms kill_line_spec [OF assms(1) r] have "s' = s\<lparr>cons_e := cons_w s\<rparr>"
      by (simp add: consoleintr_def)
    then show ?thesis
      using assms(1) kill by (auto simp: cons_ok_def committed_def editing_def line_step_def)
  next
    case erase
    show ?thesis
    proof (cases "cons_e s = cons_w s")
      case True
      with erase assms show ?thesis
        by (auto simp: consoleintr_def line_step_def editing_def)
    next
      case False
      let ?s = "s\<lparr>cons_e := cons_e s - 1\<rparr>"
      have s': "s' = ?s" using erase assms(2) False by (auto simp: consoleintr_def)
      have ed: "editing ?s = butlast (editing s)"
        using cons_ring.unput(1) [OF False, of "cbuf s"] by (simp add: editing_def)
      have "0 < length (editing s)" using False by (simp add: editing_def ring_contents_eq_Nil unat_gt_0)
      then have lt: "unat (cons_w s - cons_r s) < unat (cons_e s - cons_r s)"
        using len(1) by (simp add: committed_def)
      then have "cons_e s \<noteq> cons_r s" by auto
      then have "unat (cons_e s - cons_r s) = Suc (unat (cons_e s - 1 - cons_r s))"
        using unat_Suc_diff [of "cons_e s" "cons_r s"] by (simp add: algebra_simps)
      with lt have "cons_ok ?s"
        using assms(1) ed by (auto simp: cons_ok_def dest: in_set_butlastD)
      with erase ed s' show ?thesis
        by (auto simp: line_step_def committed_def)
    qed
  next
    case store
    define ch where "ch = (if c = 13 then 10 else c)"
    let ?s1 = "s\<lparr>cbuf := (cbuf s)[slot INPUT_BUF_SIZE (cons_e s) := ch], cons_e := cons_e s + 1\<rparr>"
    note put = cons_put [OF assms(1) store(6), of ch]
    have full: "cons_e ?s1 - cons_r ?s1 = of_nat INPUT_BUF_SIZE \<longleftrightarrow>
        Suc (length (committed s) + length (editing s)) = INPUT_BUF_SIZE"
      using put(3) by (simp add: word_unat_eq_iff INPUT_BUF_SIZE_def)
    let ?c = "ch = 10 \<or> ch = 4 \<or> Suc (length (committed s) + length (editing s)) = INPUT_BUF_SIZE"
    have s': "s' = (if ?c then ?s1\<lparr>cons_w := cons_e ?s1\<rparr> else ?s1)"
      using assms(2) store cons_room [OF assms(1)] full
      by (auto simp: consoleintr_def Let_def ch_def split: if_splits)
    have "committed (?s1\<lparr>cons_w := cons_e ?s1\<rparr>) = committed s @ editing s @ [ch]"
    proof -
      have "committed (?s1\<lparr>cons_w := cons_e ?s1\<rparr>)
          = ring_contents INPUT_BUF_SIZE (cons_r ?s1) (cons_e ?s1) (cbuf ?s1)"
        by (simp add: committed_def)
      also have "\<dots> = committed ?s1 @ editing ?s1"
        unfolding committed_def editing_def cons_ring.split(1,2) [OF put(4)] by simp
      finally show ?thesis using put(1,2) by simp
    qed
    moreover have "editing (?s1\<lparr>cons_w := cons_e ?s1\<rparr>) = []" by (simp add: editing_def)
    moreover have "line_step c (committed s, editing s) =
        (if ?c then (committed s @ editing s @ [ch], []) else (committed s, editing s @ [ch]))"
      using store by (simp add: line_step_def ch_def Let_def)
    moreover have "cons_ok s'"
      using put s' store(6) assms(1)
      by (auto simp: cons_ok_def editing_def [of "_\<lparr>cons_w := _\<rparr>"])
    ultimately show ?thesis
      using s' put(1,2) by simp
  next
    case drop
    then show ?thesis
      using assms cons_room [OF assms(1)] by (auto simp: consoleintr_def line_step_def)
  qed
qed

theorem consoleintr_refines_line_discipline_witness:
  "cons_ok \<lparr>cbuf = replicate 128 0, cons_r = 0, cons_w = 0, cons_e = 0\<rparr>
   \<and> (\<exists>s' out ev. consoleintr 97 \<lparr>cbuf = replicate 128 0, cons_r = 0, cons_w = 0, cons_e = 0\<rparr> = (s', out, ev)
        \<and> (committed s', editing s') = ([], [97]))"
proof -
  let ?s = "\<lparr>cbuf = replicate 128 0, cons_r = 0, cons_w = 0, cons_e = 0\<rparr>"
  have ok: "cons_ok ?s" by (simp add: cons_ok_def editing_def INPUT_BUF_SIZE_def)
  obtain s' out ev where r: "consoleintr 97 ?s = (s', out, ev)" by (metis prod_cases3)
  have "line_step 97 (committed ?s, editing ?s) = ([], [97])"
    by (simp add: line_step_def committed_def editing_def INPUT_BUF_SIZE_def)
  with consoleintr_refines_line_discipline [OF ok r] ok r show ?thesis by auto
qed

section \<open>Reading\<close>

lemma cons_pop:
  assumes "cons_ok s" "cons_r s \<noteq> cons_w s"
  shows "cons_ok (s\<lparr>cons_r := cons_r s + 1\<rparr>)" "editing (s\<lparr>cons_r := cons_r s + 1\<rparr>) = editing s"
    "committed s = cbuf s ! slot INPUT_BUF_SIZE (cons_r s) # committed (s\<lparr>cons_r := cons_r s + 1\<rparr>)"
proof -
  show ed: "editing (s\<lparr>cons_r := cons_r s + 1\<rparr>) = editing s" by (simp add: editing_def)
  show "committed s = cbuf s ! slot INPUT_BUF_SIZE (cons_r s) # committed (s\<lparr>cons_r := cons_r s + 1\<rparr>)"
    using cons_ring.get [of "cons_w s" "cons_r s" "cbuf s"] assms(2) by (simp add: committed_def)
  have w: "unat (cons_w s - cons_r s) = Suc (unat (cons_w s - (cons_r s + 1)))"
    using unat_Suc_diff [of "cons_w s" "cons_r s"] assms(2) by (simp add: algebra_simps)
  then have "cons_e s \<noteq> cons_r s" using assms(1) by (auto simp: cons_ok_def)
  then have "unat (cons_e s - cons_r s) = Suc (unat (cons_e s - (cons_r s + 1)))"
    using unat_Suc_diff [of "cons_e s" "cons_r s"] by (simp add: algebra_simps)
  with w assms(1) ed show "cons_ok (s\<lparr>cons_r := cons_r s + 1\<rparr>)" by (simp add: cons_ok_def)
qed

lemma committed_Nil: "committed s = [] \<longleftrightarrow> cons_r s = cons_w s"
  by (auto simp: committed_def ring_contents_eq_Nil)

text \<open>
  what a read of the console delivers: a prefix of the committed input that
  holds no end-of-file mark and a newline at most as its last byte, never more
  than asked for; nothing committed is lost but an end-of-file mark found first
  and a byte whose copy to the user failed.  The read sleeps only when the
  committed input is used up.
\<close>

theorem consoleread_behaviour:
  assumes "cons_ok s" "0 \<le> n" "n \<le> target" "consoleread dst killed target n s = (s', bs, res)"
  shows "cons_ok s' \<and> editing s' = editing s \<and> 4 \<notin> set bs \<and> 10 \<notin> set (butlast bs) \<and> int (length bs) \<le> n
    \<and> (\<exists>lost. committed s = bs @ lost @ committed s' \<and>
         (lost = [] \<or> lost = [4] \<and> bs = [] \<and> n = target
          \<or> (\<exists>x. lost = [x] \<and> \<not> dst (target - n + int (length bs)))))
    \<and> (case res of
         CRet v \<Rightarrow> v = -1 \<and> killed \<and> committed s' = [] \<or> v = target - n + int (length bs)
       | CSleep m \<Rightarrow> m = n - int (length bs) \<and> 0 < m \<and> committed s' = [])"
  using assms
proof (induction dst killed target n s arbitrary: s' bs res rule: consoleread.induct)
  case (1 dst killed target n s)
  let ?c = "cbuf s ! slot INPUT_BUF_SIZE (cons_r s)"
  let ?s1 = "s\<lparr>cons_r := cons_r s + 1\<rparr>"
  show ?case
  proof (cases "n > 0 \<and> cons_r s \<noteq> cons_w s")
    case False
    then show ?thesis
      using 1(2,3,4,5) committed_Nil [of s]
      by (auto simp: consoleread.simps [of dst killed target n s] split: if_splits)
  next
    case True
    note pop = cons_pop [OF 1(2)]
    show ?thesis
    proof (cases "?c = 4 \<or> \<not> dst (target - n) \<or> ?c = 10")
      case True2: True
      then show ?thesis
        using 1(2,4,5) True pop
        by (auto simp: consoleread.simps [of dst killed target n s] Let_def split: if_splits)
    next
      case False
      obtain s2 bs2 res2 where r: "consoleread dst killed target (n - 1) ?s1 = (s2, bs2, res2)"
        by (metis prod_cases3)
      with 1(5) True False have eqs: "s' = s2" "bs = ?c # bs2" "res = res2"
        by (auto simp: consoleread.simps [of dst killed target n s] Let_def)
      have IH: "cons_ok s2 \<and> editing s2 = editing ?s1 \<and> 4 \<notin> set bs2 \<and> 10 \<notin> set (butlast bs2)
        \<and> int (length bs2) \<le> n - 1
        \<and> (\<exists>lost. committed ?s1 = bs2 @ lost @ committed s2 \<and>
             (lost = [] \<or> lost = [4] \<and> bs2 = [] \<and> n - 1 = target
              \<or> (\<exists>x. lost = [x] \<and> \<not> dst (target - (n - 1) + int (length bs2)))))
        \<and> (case res2 of
             CRet v \<Rightarrow> v = -1 \<and> killed \<and> committed s2 = [] \<or> v = target - (n - 1) + int (length bs2)
           | CSleep m \<Rightarrow> m = n - 1 - int (length bs2) \<and> 0 < m \<and> committed s2 = [])"
        by (rule 1(1) [OF _ _ refl refl _ _ _ _ _ _ r]) (use True False pop(1) 1(4) in auto)
      have a: "target - n + int (length bs) = target - (n - 1) + int (length bs2)"
        by (simp add: eqs(2))
      from IH obtain lost where l: "committed ?s1 = bs2 @ lost @ committed s2"
        "lost = [] \<or> (\<exists>x. lost = [x] \<and> \<not> dst (target - (n - 1) + int (length bs2)))"
        using 1(4) by auto
      have "committed s = bs @ lost @ committed s'" using pop(3) True l(1) eqs by simp
      then have "\<exists>lost. committed s = bs @ lost @ committed s' \<and>
         (lost = [] \<or> lost = [4] \<and> bs = [] \<and> n = target
          \<or> (\<exists>x. lost = [x] \<and> \<not> dst (target - n + int (length bs))))"
        using l(2) a by metis
      with IH pop(2) True False eqs a show ?thesis
        by (auto split: cons_result.splits)
    qed
  qed
qed

theorem consoleread_behaviour_witness:
  "cons_ok \<lparr>cbuf = replicate 128 10, cons_r = 0, cons_w = 1, cons_e = 1\<rparr> \<and> (0 :: int) \<le> 9 \<and> (9 :: int) \<le> 9
   \<and> (\<exists>s' bs res. consoleread (\<lambda>_. True) False 9 9 \<lparr>cbuf = replicate 128 10, cons_r = 0, cons_w = 1, cons_e = 1\<rparr>
          = (s', bs, res) \<and> int (length bs) \<le> 9)"
proof -
  let ?s = "\<lparr>cbuf = replicate 128 10, cons_r = 0, cons_w = 1, cons_e = 1\<rparr>"
  have ok: "cons_ok ?s" by (simp add: cons_ok_def editing_def INPUT_BUF_SIZE_def)
  obtain s' bs res where r: "consoleread (\<lambda>_. True) False 9 9 ?s = (s', bs, res)" by (metis prod_cases3)
  from consoleread_behaviour [OF ok _ _ r] ok r show ?thesis by auto
qed

end
