(* ===== verification/Bytes.thy ===== *)
theory Bytes
  imports Prelude
begin

text \<open>
  Disk blocks as byte lists, and the little-endian 32 bit integers that
  \<open>struct logheader\<close> stores in a block.
\<close>

unbundle bit_operations_syntax

type_synonym block = "uint8 list"

definition BSIZE :: nat where "BSIZE = 1024"

definition le32 :: "uint32 \<Rightarrow> uint8 list" where
  "le32 v = [ucast v, ucast (drop_bit 8 v), ucast (drop_bit 16 v), ucast (drop_bit 24 v)]"

definition of_le32 :: "uint8 list \<Rightarrow> uint32" where
  "of_le32 bs = ucast (bs ! 0) OR push_bit 8 (ucast (bs ! 1)) OR push_bit 16 (ucast (bs ! 2))
     OR push_bit 24 (ucast (bs ! 3))"

text \<open>Element \<open>i\<close> of an array of \<open>int\<close> at the start of the block.\<close>

definition get32 :: "nat \<Rightarrow> block \<Rightarrow> uint32" where
  "get32 i bs = of_le32 (take 4 (drop (4 * i) bs))"

definition put32 :: "nat \<Rightarrow> uint32 \<Rightarrow> block \<Rightarrow> block" where
  "put32 i v bs = take (4 * i) bs @ le32 v @ drop (4 * i + 4) bs"

lemma of_le32_le32 [simp]: "of_le32 (le32 v) = v"
proof (rule bit_word_eqI)
  fix n assume "n < LENGTH(32)"
  then consider "n < 8" | "8 \<le> n" "n < 16" | "16 \<le> n" "n < 24" | "24 \<le> n" "n < 32" by fastforce
  then show "bit (of_le32 (le32 v)) n = bit v n"
    by cases (auto simp: of_le32_def le32_def bit_simps)
qed

lemma length_le32 [simp]: "length (le32 v) = 4"
  by (simp add: le32_def)

lemma length_put32 [simp]: "4 * i + 4 \<le> length bs \<Longrightarrow> length (put32 i v bs) = length bs"
  by (simp add: put32_def)

lemma get32_put32:
  assumes "4 * i + 4 \<le> length bs" "4 * j + 4 \<le> length bs"
  shows "get32 j (put32 i v bs) = (if i = j then v else get32 j bs)"
proof (cases i j rule: linorder_cases)
  case equal
  then show ?thesis using assms by (simp add: get32_def put32_def)
next
  case less
  then have "4 * j = 4 * i + 4 + (4 * j - (4 * i + 4))" by simp
  then obtain d where d: "4 * j = 4 * i + 4 + d" by blast
  show ?thesis using less assms by (simp add: get32_def put32_def d add.commute)
next
  case greater
  then have "4 * j + 4 \<le> 4 * i" "4 \<le> 4 * i - 4 * j" by simp_all
  then show ?thesis using greater assms
    by (simp add: get32_def put32_def drop_take take_take min_def)
qed

section \<open>16 bit integers\<close>

definition le16 :: "uint16 \<Rightarrow> uint8 list" where
  "le16 v = [ucast v, ucast (drop_bit 8 v)]"

definition of_le16 :: "uint8 list \<Rightarrow> uint16" where
  "of_le16 bs = ucast (bs ! 0) OR push_bit 8 (ucast (bs ! 1))"

lemma of_le16_le16 [simp]: "of_le16 (le16 v) = v"
proof (rule bit_word_eqI)
  fix n assume "n < LENGTH(16)"
  then consider "n < 8" | "8 \<le> n" "n < 16" by fastforce
  then show "bit (of_le16 (le16 v)) n = bit v n"
    by cases (auto simp: of_le16_def le16_def bit_simps)
qed

lemma length_le16 [simp]: "length (le16 v) = 2"
  by (simp add: le16_def)

end
