(* ===== verification/Log.thy ===== *)
theory Log
  imports Bytes
begin

text \<open>
  The write-ahead log of the file system (\<open>xv6-riscv/kernel/log.c\<close>).

  \<open>disk\<close> is what survives a crash and \<open>mem\<close> what \<open>bread\<close> returns, the contents of
  the buffer cache: a pinned or freshly written buffer where there is one, the
  disk block otherwise.  \<open>bwrite\<close> is the one operation that reaches the disk;
  it waits for the device, so writes are on disk in program order, and every
  write is also appended to \<open>trace\<close>.  A crash keeps the disk after some prefix of
  the writes.  Block numbers are the 32 bit words of \<open>struct buf\<close>.
\<close>

section \<open>State\<close>

definition MAXOPBLOCKS :: nat where "MAXOPBLOCKS = 10"
definition LOGBLOCKS :: nat where "LOGBLOCKS = MAXOPBLOCKS * 3"

record store =
  disk :: "uint32 \<Rightarrow> block"
  mem :: "uint32 \<Rightarrow> block"
  trace :: "(uint32 \<times> block) list"

text \<open>\<open>lh\<close> is \<open>lh.block[0 .. lh.n)\<close>.\<close>

record log =
  start :: uint32
  outstanding :: int
  committing :: bool
  ncommit :: int
  lh :: "uint32 list"

datatype log_error = LogPanic string

definition bwrite :: "uint32 \<Rightarrow> store \<Rightarrow> store" where
  "bwrite b s = s\<lparr>disk := (disk s)(b := mem s b), trace := trace s @ [(b, mem s b)]\<rparr>"

text \<open>Assigning to the data of a buffer.\<close>

definition set_mem :: "uint32 \<Rightarrow> block \<Rightarrow> store \<Rightarrow> store" where
  "set_mem b v s = s\<lparr>mem := (mem s)(b := v)\<rparr>"

definition log_slot :: "uint32 \<Rightarrow> nat \<Rightarrow> uint32" where
  "log_slot st tail = st + of_nat tail + 1"

section \<open>Operations\<close>

fun install_from :: "uint32 \<Rightarrow> nat \<Rightarrow> uint32 list \<Rightarrow> store \<Rightarrow> store" where
  "install_from st tail [] s = s"
| "install_from st tail (b # bs) s =
     install_from st (Suc tail) bs (bwrite b (set_mem b (mem s (log_slot st tail)) s))"

definition install_trans :: "log \<Rightarrow> store \<Rightarrow> store" where
  "install_trans l s = install_from (start l) 0 (lh l) s"

definition head_blocks :: "block \<Rightarrow> uint32 list" where
  "head_blocks h = map (\<lambda>i. get32 (Suc i) h) [0..<unat (get32 0 h)]"

definition read_head :: "log \<Rightarrow> store \<Rightarrow> log" where
  "read_head l s = l\<lparr>lh := head_blocks (mem s (start l))\<rparr>"

fun put_blocks :: "nat \<Rightarrow> uint32 list \<Rightarrow> block \<Rightarrow> block" where
  "put_blocks i [] h = h"
| "put_blocks i (b # bs) h = put_blocks (Suc i) bs (put32 (Suc i) b h)"

definition write_head :: "log \<Rightarrow> store \<Rightarrow> store" where
  "write_head l s =
     bwrite (start l)
       (set_mem (start l) (put_blocks 0 (lh l) (put32 0 (of_nat (length (lh l))) (mem s (start l)))) s)"

definition recover_from_log :: "log \<Rightarrow> store \<Rightarrow> log \<times> store" where
  "recover_from_log l s =
     (let l1 = read_head l s; s1 = install_trans l1 s; l2 = l1\<lparr>lh := []\<rparr>
      in (l2, write_head l2 s1))"

text \<open>\<open>log\<close> lies in zeroed memory at boot, and the cache is empty.\<close>

definition initlog :: "uint32 \<Rightarrow> (uint32 \<Rightarrow> block) \<Rightarrow> log \<times> store" where
  "initlog logstart d =
     recover_from_log \<lparr>start = logstart, outstanding = 0, committing = False, ncommit = 0, lh = []\<rparr>
       \<lparr>disk = d, mem = d, trace = []\<rparr>"

text \<open>\<open>None\<close>: the caller sleeps and tries again when it is woken.\<close>

definition begin_op :: "log \<Rightarrow> log option" where
  "begin_op l =
     (if committing l then None
      else if int (length (lh l)) + (outstanding l + 1) * int MAXOPBLOCKS > int LOGBLOCKS then None
      else Some (l\<lparr>outstanding := outstanding l + 1\<rparr>))"

fun write_log_from :: "uint32 \<Rightarrow> nat \<Rightarrow> uint32 list \<Rightarrow> store \<Rightarrow> store" where
  "write_log_from st tail [] s = s"
| "write_log_from st tail (b # bs) s =
     write_log_from st (Suc tail) bs
       (bwrite (log_slot st tail) (set_mem (log_slot st tail) (mem s b) s))"

definition write_log :: "log \<Rightarrow> store \<Rightarrow> store" where
  "write_log l s = write_log_from (start l) 0 (lh l) s"

definition commit :: "log \<Rightarrow> store \<Rightarrow> log \<times> store" where
  "commit l s =
     (if lh l \<noteq> [] then
        let s1 = write_log l s; s2 = write_head l s1; s3 = install_trans l s2; l1 = l\<lparr>lh := []\<rparr>
        in (l1, write_head l1 s3)
      else (l, s))"

text \<open>
  The first half of \<open>end_op\<close>, under the lock (the flag says that this caller
  commits), and the part after \<open>commit\<close>.
\<close>

definition end_op_start :: "log \<Rightarrow> log_error + log \<times> bool" where
  "end_op_start l =
     (let l1 = l\<lparr>outstanding := outstanding l - 1\<rparr> in
      if committing l1 then Inl (LogPanic ''log.committing'')
      else if outstanding l1 = 0 then Inr (l1\<lparr>committing := True\<rparr>, True)
      else Inr (l1, False))"

definition end_op_finish :: "log \<Rightarrow> log" where
  "end_op_finish l = l\<lparr>committing := False, ncommit := ncommit l + 1\<rparr>"

definition end_op :: "log \<Rightarrow> store \<Rightarrow> log_error + log \<times> store" where
  "end_op l s =
     (case end_op_start l of
        Inl e \<Rightarrow> Inl e
      | Inr (l1, do_commit) \<Rightarrow>
          if do_commit then (let (l2, s2) = commit l1 s in Inr (end_op_finish l2, s2)) else Inr (l1, s))"

text \<open>The flag says whether the block was pinned.\<close>

definition log_write :: "uint32 \<Rightarrow> log \<Rightarrow> log_error + log \<times> bool" where
  "log_write b l =
     (if length (lh l) \<ge> LOGBLOCKS then Inl (LogPanic ''too big a transaction'')
      else if outstanding l < 1 then Inl (LogPanic ''log_write outside of trans'')
      else case find_idx (\<lambda>x. x = b) (lh l) of
             Some i \<Rightarrow> Inr (l\<lparr>lh := (lh l)[i := b]\<rparr>, False)
           | None \<Rightarrow> Inr (l\<lparr>lh := lh l @ [b]\<rparr>, True))"

text \<open>\<open>sys_sync\<close>: the value \<open>ncommit\<close> has to reach before the call returns.\<close>

definition sys_sync_target :: "log \<Rightarrow> int option" where
  "sys_sync_target l = (if committing l \<or> outstanding l > 0 then Some (ncommit l + 1) else None)"

definition sys_sync_done :: "int option \<Rightarrow> log \<Rightarrow> bool" where
  "sys_sync_done target l = (case target of None \<Rightarrow> True | Some n \<Rightarrow> ncommit l \<ge> n)"

end
