(* ===== verification/Log_Crash.thy ===== *)
theory Log_Crash
  imports Log
begin

text \<open>
  Crash safety of the log.  \<open>apply_writes\<close> replays writes on a disk, so
  \<open>apply_writes (disk s) (take k ws)\<close> is the disk when the machine stops after
  \<open>k\<close> of the writes \<open>ws\<close>.  \<open>recovered\<close> is the disk after the next boot.  A block is
  \<open>home\<close> when it is outside the log area.
\<close>

section \<open>Replaying writes\<close>

definition apply_writes :: "(uint32 \<Rightarrow> block) \<Rightarrow> (uint32 \<times> block) list \<Rightarrow> uint32 \<Rightarrow> block" where
  "apply_writes d ws = fold (\<lambda>(b, v) d. d(b := v)) ws d"

lemma apply_writes_simps [simp]:
  "apply_writes d [] = d" "apply_writes d ((b, v) # ws) = apply_writes (d(b := v)) ws"
  "apply_writes d (ws @ vs) = apply_writes (apply_writes d ws) vs"
  by (simp_all add: apply_writes_def)

lemma apply_writes_other: "b \<notin> fst ` set ws \<Longrightarrow> apply_writes d ws b = d b"
  by (induction ws arbitrary: d) auto

lemma apply_writes_in: "apply_writes d ws b = d b \<or> (b, apply_writes d ws b) \<in> set ws"
proof (induction ws arbitrary: d)
  case (Cons w ws)
  obtain c v where w: "w = (c, v)" by (cases w)
  from Cons.IH [of "d(c := v)"] show ?case by (cases "b = c") (auto simp: w fun_upd_same fun_upd_other simp del: fun_upd_apply)
qed simp

text \<open>Writes of \<open>g\<close> that leave \<open>b\<close> alone or give it the value \<open>g b\<close>.\<close>

lemma apply_writes_fun:
  "\<forall>(b, v) \<in> set ws. v = g b \<Longrightarrow> apply_writes d ws b = (if b \<in> fst ` set ws then g b else d b)"
  by (induction ws arbitrary: d) (auto simp: image_iff split: prod.splits)

section \<open>The log area\<close>

definition log_area :: "uint32 \<Rightarrow> uint32 set" where
  "log_area st = insert st (log_slot st ` {..<LOGBLOCKS})"

definition home :: "uint32 \<Rightarrow> uint32 \<Rightarrow> bool" where
  "home st b \<longleftrightarrow> b \<notin> log_area st"

lemma log_slot_inj: "i < 2 ^ 31 \<Longrightarrow> j < 2 ^ 31 \<Longrightarrow> log_slot st i = log_slot st j \<longleftrightarrow> i = j"
  by (simp add: log_slot_def word_of_nat_eq_iff take_bit_nat_eq_self)

lemma log_slot_start: "i < 2 ^ 31 \<Longrightarrow> log_slot st i \<noteq> st"
proof
  assume i: "i < 2 ^ 31" and "log_slot st i = st"
  then have "of_nat (Suc i) = (0 :: uint32)" by (simp add: log_slot_def add.assoc add.commute)
  then have "2 ^ 32 dvd Suc i" by (simp only: word_of_nat_eq_0_iff) simp
  with i show False by (auto dest: dvd_imp_le)
qed

lemma slot_not_home: "i < LOGBLOCKS \<Longrightarrow> \<not> home st (log_slot st i)"
  by (simp add: home_def log_area_def)

lemma start_not_home: "\<not> home st st"
  by (simp add: home_def log_area_def)

lemma LOGBLOCKS_small: "LOGBLOCKS = 30"
  by (simp add: LOGBLOCKS_def MAXOPBLOCKS_def)

section \<open>The writes of each phase\<close>

definition install_writes :: "uint32 \<Rightarrow> nat \<Rightarrow> uint32 list \<Rightarrow> (uint32 \<Rightarrow> block) \<Rightarrow> (uint32 \<times> block) list" where
  "install_writes st tail bs m = map (\<lambda>i. (bs ! i, m (log_slot st (tail + i)))) [0..<length bs]"

definition log_writes :: "uint32 \<Rightarrow> nat \<Rightarrow> uint32 list \<Rightarrow> (uint32 \<Rightarrow> block) \<Rightarrow> (uint32 \<times> block) list" where
  "log_writes st tail bs m = map (\<lambda>i. (log_slot st (tail + i), m (bs ! i))) [0..<length bs]"

lemma install_writes_Cons:
  "install_writes st tail (b # bs) m = (b, m (log_slot st tail)) # install_writes st (Suc tail) bs m"
  unfolding install_writes_def by (simp add: map_upt_Suc del: upt_Suc)

lemma log_writes_Cons:
  "log_writes st tail (b # bs) m = (log_slot st tail, m b) # log_writes st (Suc tail) bs m"
  unfolding log_writes_def by (simp add: map_upt_Suc del: upt_Suc)

lemma install_from_effect:
  assumes "tail + length bs \<le> LOGBLOCKS" "\<forall>b \<in> set bs. home st b"
  shows "disk (install_from st tail bs s) = apply_writes (disk s) (install_writes st tail bs (mem s))
    \<and> mem (install_from st tail bs s) = apply_writes (mem s) (install_writes st tail bs (mem s))
    \<and> trace (install_from st tail bs s) = trace s @ install_writes st tail bs (mem s)"
  using assms
proof (induction bs arbitrary: tail s)
  case (Cons b bs)
  let ?s1 = "bwrite b (set_mem b (mem s (log_slot st tail)) s)"
  have "install_writes st (Suc tail) bs (mem ?s1) = install_writes st (Suc tail) bs (mem s)"
    using Cons.prems slot_not_home [of _ st] by (auto simp: install_writes_def bwrite_def set_mem_def)
  with Cons.IH [of "Suc tail" ?s1] Cons.prems show ?case
    by (simp add: install_writes_Cons) (simp add: bwrite_def set_mem_def)
qed (simp add: install_writes_def)

lemma write_log_from_effect:
  assumes "tail + length bs \<le> LOGBLOCKS" "\<forall>b \<in> set bs. home st b"
  shows "disk (write_log_from st tail bs s) = apply_writes (disk s) (log_writes st tail bs (mem s))
    \<and> mem (write_log_from st tail bs s) = apply_writes (mem s) (log_writes st tail bs (mem s))
    \<and> trace (write_log_from st tail bs s) = trace s @ log_writes st tail bs (mem s)"
  using assms
proof (induction bs arbitrary: tail s)
  case (Cons b bs)
  let ?s1 = "bwrite (log_slot st tail) (set_mem (log_slot st tail) (mem s b) s)"
  have t: "tail < LOGBLOCKS" using Cons.prems(1) by simp
  have "bs ! i \<noteq> log_slot st tail" if "i < length bs" for i
    using Cons.prems(2) slot_not_home [OF t, of st] that by (metis list.set_intros(2) nth_mem)
  then have "log_writes st (Suc tail) bs (mem ?s1) = log_writes st (Suc tail) bs (mem s)"
    by (auto simp: log_writes_def bwrite_def set_mem_def)
  with Cons.IH [of "Suc tail" ?s1] Cons.prems show ?case
    by (simp add: log_writes_Cons) (simp add: bwrite_def set_mem_def)
qed (simp add: log_writes_def)

section \<open>The header\<close>

lemma length_put_blocks: "4 * (i + length bs) + 4 \<le> length h \<Longrightarrow> length (put_blocks i bs h) = length h"
  by (induction i bs h rule: put_blocks.induct) auto

lemma get_put_blocks:
  "4 * (i + length bs) + 4 \<le> length h \<Longrightarrow> j \<le> i + length bs \<Longrightarrow>
   get32 j (put_blocks i bs h) = (if j \<le> i then get32 j h else bs ! (j - Suc i))"
proof (induction i bs h rule: put_blocks.induct)
  case (2 i b bs h)
  then show ?case
    by (auto simp: get32_put32 nth_Cons' not_less_eq_eq Suc_diff_le)
qed simp

lemma head_blocks_put:
  assumes "length bs \<le> LOGBLOCKS" "length h = BSIZE"
  shows "head_blocks (put_blocks 0 bs (put32 0 (of_nat (length bs)) h)) = bs"
proof -
  let ?h = "put_blocks 0 bs (put32 0 (of_nat (length bs)) h)"
  have l: "length bs \<le> 30" using assms(1) by (simp add: LOGBLOCKS_small)
  have g: "get32 j ?h = (if j \<le> 0 then of_nat (length bs) else bs ! (j - 1))" if "j \<le> length bs" for j
    using get_put_blocks [of 0 bs "put32 0 (of_nat (length bs)) h" j] that l assms(2)
    by (simp add: get32_put32 BSIZE_def)
  have "unat (get32 0 ?h) = length bs"
    using g [of 0] l by (simp add: unat_of_nat take_bit_nat_eq_self)
  then show ?thesis unfolding head_blocks_def using g by (intro nth_equalityI) auto
qed

lemma write_head_effect:
  "disk (write_head l s) = (disk s)(start l := put_blocks 0 (lh l) (put32 0 (of_nat (length (lh l))) (mem s (start l))))"
  "mem (write_head l s) = (mem s)(start l := put_blocks 0 (lh l) (put32 0 (of_nat (length (lh l))) (mem s (start l))))"
  "trace (write_head l s) = trace s @
     [(start l, put_blocks 0 (lh l) (put32 0 (of_nat (length (lh l))) (mem s (start l))))]"
  by (simp_all add: write_head_def bwrite_def set_mem_def)

section \<open>Recovery\<close>

definition recovered :: "uint32 \<Rightarrow> (uint32 \<Rightarrow> block) \<Rightarrow> uint32 \<Rightarrow> block" where
  "recovered st d = disk (snd (initlog st d))"

text \<open>The header names distinct blocks outside the log area, no more than fit.\<close>

definition head_ok :: "uint32 \<Rightarrow> uint32 list \<Rightarrow> bool" where
  "head_ok st bs \<longleftrightarrow> length bs \<le> LOGBLOCKS \<and> distinct bs \<and> (\<forall>b \<in> set bs. home st b)"

definition slot_value :: "uint32 \<Rightarrow> uint32 list \<Rightarrow> (uint32 \<Rightarrow> block) \<Rightarrow> uint32 \<Rightarrow> block" where
  "slot_value st bs d b = (case find_idx (\<lambda>x. x = b) bs of Some i \<Rightarrow> d (log_slot st i) | None \<Rightarrow> d b)"

lemma find_idx_distinct: "distinct bs \<Longrightarrow> i < length bs \<Longrightarrow> find_idx (\<lambda>x. x = bs ! i) bs = Some i"
  by (rule find_idx_SomeI) (auto simp: nth_eq_iff_index_eq)

lemma install_writes_fun:
  "distinct bs \<Longrightarrow> \<forall>(b, v) \<in> set (install_writes st 0 bs m). v = slot_value st bs m b"
  by (auto simp: install_writes_def slot_value_def find_idx_distinct)

lemma install_writes_blocks: "map fst (install_writes st tail bs m) = bs"
  by (simp add: install_writes_def comp_def map_nth)

lemma install_writes_dom: "fst ` set (take k (install_writes st tail bs m)) = set (take k bs)"
  by (metis install_writes_blocks set_map take_map)

lemma find_block_None: "find_idx (\<lambda>x. x = b) bs = None \<longleftrightarrow> b \<notin> set bs"
  by (auto simp: find_idx_None)

lemma slot_value_other [simp]: "b \<notin> set bs \<Longrightarrow> slot_value st bs d b = d b"
  by (simp add: slot_value_def find_block_None [symmetric])

lemma apply_install:
  assumes "distinct bs"
  shows "apply_writes d (take k (install_writes st 0 bs m)) b =
    (if b \<in> set (take k bs) then slot_value st bs m b else d b)"
proof -
  have "\<forall>(b, v) \<in> set (take k (install_writes st 0 bs m)). v = slot_value st bs m b"
    using install_writes_fun [OF assms] by (meson in_set_takeD)
  then show ?thesis by (simp add: apply_writes_fun install_writes_dom)
qed

lemma apply_all_installs:
  "distinct bs \<Longrightarrow> apply_writes d (install_writes st 0 bs d) b = slot_value st bs d b"
  using apply_install [of bs d "length bs" st d b] by (simp add: install_writes_def split: if_splits)

lemma recovered_home:
  assumes "head_ok st (head_blocks (d st))" "home st b"
  shows "recovered st d b = slot_value st (head_blocks (d st)) d b"
proof -
  let ?bs = "head_blocks (d st)"
  let ?s = "\<lparr>disk = d, mem = d, trace = []\<rparr>"
  have "disk (install_from st 0 ?bs ?s) = apply_writes d (install_writes st 0 ?bs d)"
    using install_from_effect [of 0 ?bs st ?s] assms(1) by (simp add: head_ok_def)
  moreover have "apply_writes d (install_writes st 0 ?bs d) b = slot_value st ?bs d b"
    using assms(1) by (simp add: apply_all_installs head_ok_def)
  moreover have "b \<noteq> st" using assms(2) start_not_home by blast
  ultimately show ?thesis
    by (simp add: recovered_def initlog_def recover_from_log_def Let_def write_head_effect read_head_def
        install_trans_def)
qed

text \<open>Two disks with the same log area recover alike if they differ only in logged blocks.\<close>

lemma recovered_same:
  assumes "head_ok st (head_blocks (d st))" "e st = d st"
    "\<And>i. i < LOGBLOCKS \<Longrightarrow> e (log_slot st i) = d (log_slot st i)"
    "\<And>b. home st b \<Longrightarrow> b \<notin> set (head_blocks (d st)) \<Longrightarrow> e b = d b" "home st b"
  shows "recovered st e b = recovered st d b"
proof -
  have "slot_value st (head_blocks (d st)) e b = slot_value st (head_blocks (d st)) d b"
  proof (cases "find_idx (\<lambda>x. x = b) (head_blocks (d st))")
    case None
    then show ?thesis using assms(4,5) by (simp add: find_block_None)
  next
    case (Some i)
    then show ?thesis using find_idx_SomeD(1) [OF Some] assms(1,3) by (simp add: slot_value_def head_ok_def)
  qed
  then show ?thesis using assms(1,2,5) by (simp add: recovered_home)
qed

lemma head_empty: "length h = BSIZE \<Longrightarrow> head_blocks (put32 0 0 h) = []"
  using head_blocks_put [of "[]" h] by simp

lemma head_ok_Nil [simp]: "head_ok st []"
  by (simp add: head_ok_def)

lemma initlog_trace:
  assumes "head_ok st (head_blocks (d st))"
  shows "trace (snd (initlog st d)) = install_writes st 0 (head_blocks (d st)) d @ [(st, put32 0 0 (d st))]"
proof -
  let ?bs = "head_blocks (d st)"
  let ?s = "\<lparr>disk = d, mem = d, trace = []\<rparr>"
  let ?iw = "install_writes st 0 ?bs d"
  let ?s1 = "install_from st 0 ?bs ?s"
  have e: "mem ?s1 = apply_writes d ?iw" "trace ?s1 = ?iw"
    using install_from_effect [of 0 ?bs st ?s] assms by (simp_all add: head_ok_def)
  have "st \<notin> set ?bs" using assms start_not_home by (auto simp: head_ok_def)
  then have "mem ?s1 st = d st" unfolding e(1) using install_writes_dom [of "length ?bs" st 0 ?bs d]
    by (simp add: apply_writes_other install_writes_def)
  then show ?thesis
    using e(2) by (simp add: initlog_def recover_from_log_def Let_def write_head_effect read_head_def install_trans_def)
qed

text \<open>
  recovery can itself be interrupted.  Whatever number of its writes
  reached the disk before another crash, the next recovery gives every block
  outside the log the contents the first one would have given it.
\<close>

theorem recovery_restartable:
  assumes "head_ok st (head_blocks (d st))" "length (d st) = BSIZE" "home st b"
    "ws = trace (snd (initlog st d))"
  shows "recovered st (apply_writes d (take k ws)) b = recovered st d b"
proof -
  let ?bs = "head_blocks (d st)"
  let ?iw = "install_writes st 0 ?bs d"
  have sb: "st \<notin> set ?bs" using assms(1) start_not_home by (auto simp: head_ok_def)
  have ws: "ws = ?iw @ [(st, put32 0 0 (d st))]" using assms(1,4) by (simp add: initlog_trace)
  have li: "length ?iw = length ?bs" by (simp add: install_writes_def)
  show ?thesis
  proof (cases "k \<le> length ?bs")
    case True
    then have t: "take k ws = take k ?iw" by (simp add: ws li)
    have ap: "apply_writes d (take k ws) x = d x" if "x \<notin> set ?bs" for x
      unfolding t using apply_install [of ?bs d k st d x] assms(1) that
      by (auto simp: head_ok_def dest: in_set_takeD)
    have "log_slot st i \<notin> set ?bs" if "i < LOGBLOCKS" for i
      using assms(1) slot_not_home [OF that, of st] by (auto simp: head_ok_def)
    then show ?thesis by (intro recovered_same assms ap sb)
  next
    case False
    then have t: "take k ws = ws" using li by (simp add: ws)
    let ?d = "apply_writes d ws"
    have "?d st = put32 0 0 (d st)" by (simp add: ws)
    then have "recovered st ?d b = ?d b"
      using recovered_home [of st ?d b] assms(2,3) by (simp add: head_empty slot_value_def)
    also have "b \<noteq> st" using assms(3) start_not_home by blast
    then have "?d b = slot_value st ?bs d b"
      using assms(1) by (simp add: ws apply_all_installs head_ok_def)
    also have "\<dots> = recovered st d b" by (rule recovered_home [symmetric]) (use assms in auto)
    finally show ?thesis by (simp only: t)
  qed
qed

section \<open>Commit\<close>

definition log_ok :: "log \<Rightarrow> store \<Rightarrow> bool" where
  "log_ok l s \<longleftrightarrow> head_ok (start l) (lh l)
     \<and> (\<forall>b. home (start l) b \<longrightarrow> b \<notin> set (lh l) \<longrightarrow> mem s b = disk s b)
     \<and> mem s (start l) = disk s (start l) \<and> length (disk s (start l)) = BSIZE
     \<and> head_blocks (disk s (start l)) = []"

definition full_head :: "log \<Rightarrow> store \<Rightarrow> block" where
  "full_head l s = put_blocks 0 (lh l) (put32 0 (of_nat (length (lh l))) (mem s (start l)))"

definition commit_writes :: "log \<Rightarrow> store \<Rightarrow> (uint32 \<times> block) list" where
  "commit_writes l s = log_writes (start l) 0 (lh l) (mem s) @ (start l, full_head l s)
     # map (\<lambda>b. (b, mem s b)) (lh l) @ [(start l, put32 0 0 (full_head l s))]"

lemma log_writes_blocks: "map fst (log_writes st tail bs m) = map (\<lambda>i. log_slot st (tail + i)) [0..<length bs]"
  by (simp add: log_writes_def comp_def)

lemma log_writes_slots:
  assumes "length bs \<le> LOGBLOCKS"
  shows "fst ` set (take k (log_writes st 0 bs m)) \<subseteq> log_slot st ` {..<LOGBLOCKS}"
  using assms by (auto simp: log_writes_def dest!: in_set_takeD)

lemma log_writes_other:
  assumes "length bs \<le> LOGBLOCKS" "home st b \<or> b = st"
  shows "apply_writes d (take k (log_writes st 0 bs m)) b = d b"
proof (rule apply_writes_other)
  have "b \<notin> log_slot st ` {..<LOGBLOCKS}"
    using assms(2) log_slot_start [of _ st] by (auto simp: home_def log_area_def LOGBLOCKS_small)
  with log_writes_slots [OF assms(1)] show "b \<notin> fst ` set (take k (log_writes st 0 bs m))" by blast
qed

lemma log_writes_same_slot:
  assumes "length bs \<le> LOGBLOCKS" "i < length bs"
  shows "apply_writes d (log_writes st 0 bs m) (log_slot st i) = m (bs ! i)"
proof -
  define g where "g = (\<lambda>x. m (bs ! the (find_idx (\<lambda>j. log_slot st j = x) [0..<length bs])))"
  have g: "g (log_slot st j) = m (bs ! j)" if "j < length bs" for j
  proof -
    have "find_idx (\<lambda>k. log_slot st k = log_slot st j) [0..<length bs] = Some j"
      by (rule find_idx_SomeI) (use that assms(1) in \<open>auto simp: log_slot_inj LOGBLOCKS_small\<close>)
    then show ?thesis by (simp add: g_def)
  qed
  have "\<forall>(b, v) \<in> set (log_writes st 0 bs m). v = g b" using g by (auto simp: log_writes_def)
  from apply_writes_fun [OF this, of d "log_slot st i"] show ?thesis
    using g [OF assms(2)] assms(2) by (auto simp: log_writes_def image_iff)
qed

lemma commit_trace:
  assumes "log_ok l s" "lh l \<noteq> []"
  shows "trace (snd (commit l s)) = trace s @ commit_writes l s"
    "disk (snd (commit l s)) = apply_writes (disk s) (commit_writes l s)"
    "home (start l) b \<Longrightarrow> mem (snd (commit l s)) b = mem s b"
    "mem (snd (commit l s)) (start l) = put32 0 0 (full_head l s)"
proof -
  let ?st = "start l" and ?bs = "lh l"
  have h: "head_ok ?st ?bs" using assms(1) by (simp add: log_ok_def)
  then have hb: "0 + length ?bs \<le> LOGBLOCKS" "\<forall>b \<in> set ?bs. home ?st b" "distinct ?bs" by (auto simp: head_ok_def)
  let ?s1 = "write_log_from ?st 0 ?bs s"
  note w = write_log_from_effect [OF hb(1,2), of s]
  have m1: "mem ?s1 b = mem s b" if "home ?st b \<or> b = ?st" for b
    using w log_writes_other [of ?bs ?st b "mem s" "length ?bs" "mem s"] hb(1) that by (simp add: log_writes_def)
  let ?s2 = "write_head l ?s1"
  have fh: "put_blocks 0 ?bs (put32 0 (of_nat (length ?bs)) (mem ?s1 ?st)) = full_head l s"
    by (simp add: full_head_def m1)
  have m2s: "mem ?s2 (log_slot ?st i) = mem s (?bs ! i)" if "i < length ?bs" for i
    using w log_writes_same_slot [of ?bs i "mem s" ?st "mem s"] hb(1) that log_slot_start [of i ?st]
    by (simp add: write_head_effect LOGBLOCKS_small)
  have iw: "install_writes ?st 0 ?bs (mem ?s2) = map (\<lambda>b. (b, mem s b)) ?bs"
    by (rule nth_equalityI) (auto simp: install_writes_def m2s)
  note i = install_from_effect [OF hb(1,2), of ?s2, unfolded iw]
  let ?s3 = "install_from ?st 0 ?bs ?s2"
  have dom: "fst ` set (map (\<lambda>b. (b, mem s b)) ?bs) = set ?bs" by (auto simp: image_iff)
  have m3: "mem ?s3 ?st = full_head l s"
    using i hb(2) start_not_home [of ?st] dom
    by (auto simp: apply_writes_other write_head_effect fh)
  have c: "snd (commit l s) = write_head (l\<lparr>lh := []\<rparr>) ?s3"
    using assms(2) by (simp add: commit_def Let_def write_log_def install_trans_def)
  show "trace (snd (commit l s)) = trace s @ commit_writes l s"
    "disk (snd (commit l s)) = apply_writes (disk s) (commit_writes l s)"
    using conjunct2 [OF conjunct2 [OF i]] conjunct1 [OF i] conjunct2 [OF conjunct2 [OF w]] conjunct1 [OF w]
    by (simp_all add: c write_head_effect(1,3) [of "l\<lparr>lh := []\<rparr>"] m3 write_head_effect [of l ?s1, unfolded fh]
        commit_writes_def)
  show "mem (snd (commit l s)) (start l) = put32 0 0 (full_head l s)"
    by (simp add: c write_head_effect m3)
  assume b: "home ?st b"
  have "apply_writes d (map (\<lambda>b. (b, mem s b)) ?bs) b = (if b \<in> set ?bs then mem s b else d b)" for d
    using apply_writes_fun [of "map (\<lambda>b. (b, mem s b)) ?bs" "mem s" d b] dom by auto
  moreover have "b \<noteq> ?st" using b start_not_home by blast
  ultimately show "mem (snd (commit l s)) b = mem s b"
    using i m1 [of b] b by (auto simp: c write_head_effect)
qed

lemma full_head_props:
  assumes "log_ok l s"
  shows "head_blocks (full_head l s) = lh l" "length (full_head l s) = BSIZE"
proof -
  have l: "length (lh l) \<le> LOGBLOCKS" "length (mem s (start l)) = BSIZE"
    using assms by (auto simp: log_ok_def head_ok_def)
  then show "head_blocks (full_head l s) = lh l" by (simp add: full_head_def head_blocks_put)
  show "length (full_head l s) = BSIZE"
    using l by (simp add: full_head_def length_put_blocks BSIZE_def LOGBLOCKS_small)
qed

lemma apply_self_writes:
  "apply_writes d (take k (map (\<lambda>b. (b, m b)) bs)) b = (if b \<in> set (take k bs) then m b else d b)"
proof -
  have "fst ` set (take k (map (\<lambda>b. (b, m b)) bs)) = set (take k bs)"
    by (simp add: take_map image_image)
  moreover have "\<forall>(b, v) \<in> set (take k (map (\<lambda>b. (b, m b)) bs)). v = m b" by (auto simp: take_map)
  ultimately show ?thesis by (simp add: apply_writes_fun)
qed

lemma recovered_mid_commit:
  assumes ok: "log_ok l s" and b: "home (start l) b"
    and D: "D = apply_writes ((apply_writes (disk s) (log_writes (start l) 0 (lh l) (mem s)))(start l := full_head l s))
      (take j (map (\<lambda>b. (b, mem s b)) (lh l)))"
  shows "recovered (start l) D b = mem s b"
proof -
  let ?st = "start l" and ?bs = "lh l"
  have h: "head_ok ?st ?bs" using ok by (simp add: log_ok_def)
  then have hb: "length ?bs \<le> LOGBLOCKS" "\<forall>b \<in> set ?bs. home ?st b" "distinct ?bs" by (auto simp: head_ok_def)
  have out: "D x = ((apply_writes (disk s) (log_writes ?st 0 ?bs (mem s)))(?st := full_head l s)) x" if "\<not> home ?st x" for x
    using hb(2) that unfolding D apply_self_writes by (auto dest: in_set_takeD)
  have head: "head_blocks (D ?st) = ?bs" using out [OF start_not_home] full_head_props(1) [OF ok] by simp
  have "slot_value ?st ?bs D b = mem s b"
  proof (cases "find_idx (\<lambda>x. x = b) ?bs")
    case None
    have "b \<noteq> ?st" using b start_not_home by blast
    with None b hb have "D b = disk s b"
      using log_writes_other [of ?bs ?st b "disk s" "length ?bs" "mem s"]
      by (auto simp: D apply_self_writes find_block_None log_writes_def dest: in_set_takeD)
    with None b ok show ?thesis by (simp add: find_block_None log_ok_def)
  next
    case (Some i)
    note i = find_idx_SomeD [OF Some]
    then have "i < LOGBLOCKS" using hb(1) by simp
    then have "D (log_slot ?st i) = mem s (?bs ! i)"
      using out [OF slot_not_home] log_writes_same_slot [OF hb(1) i(1)] log_slot_start [of i ?st]
      by (simp add: LOGBLOCKS_small)
    with i(2) Some show ?thesis by (simp add: slot_value_def)
  qed
  then show ?thesis using recovered_home [of ?st D b] head h b by simp
qed

text \<open>
  a commit is atomic.  Let the machine stop after any number \<open>k\<close> of the
  disk writes of \<open>commit\<close>: after recovery every block outside the log has its
  old contents if the header write, number \<open>n + 1\<close> for a transaction of \<open>n\<close>
  blocks, had not happened, and the contents the transaction gave it otherwise.
\<close>

theorem commit_crash_atomic:
  assumes "log_ok l s" "lh l \<noteq> []" "trace (snd (commit l s)) = trace s @ ws" "home (start l) b"
  shows "recovered (start l) (apply_writes (disk s) (take k ws)) b =
    (if k \<le> length (lh l) then disk s b else mem s b)"
proof -
  let ?st = "start l" and ?bs = "lh l"
  let ?lw = "log_writes ?st 0 ?bs (mem s)" and ?iw = "map (\<lambda>b. (b, mem s b)) ?bs"
  have ws: "ws = ?lw @ (?st, full_head l s) # ?iw @ [(?st, put32 0 0 (full_head l s))]"
    using assms(3) commit_trace(1) [OF assms(1,2)] by (simp add: commit_writes_def)
  have ll: "length ?lw = length ?bs" by (simp add: log_writes_def)
  have hb: "length ?bs \<le> LOGBLOCKS" "distinct ?bs" using assms(1) by (auto simp: log_ok_def head_ok_def)
  have bst: "b \<noteq> ?st" using assms(4) start_not_home by blast
  let ?D = "apply_writes (disk s) (take k ws)"
  consider (old) "k \<le> length ?bs" | (mid) "length ?bs < k" "k \<le> 2 * length ?bs + 1" | (all) "2 * length ?bs + 1 < k"
    by linarith
  then show ?thesis
  proof cases
    case old
    then have "take k ws = take k ?lw" by (simp add: ws ll)
    then have "?D ?st = disk s ?st" "?D b = disk s b"
      using log_writes_other [OF hb(1)] assms(4) by simp_all
    then show ?thesis
      using recovered_home [of ?st ?D b] assms(1,4) old by (simp add: log_ok_def)
  next
    case mid
    then obtain j where k: "k = length ?lw + Suc j" "j \<le> length ?bs"
      by (metis ll add.commute add_le_cancel_left less_iff_Suc_add mult_2 add_Suc_right Suc_eq_plus1 add.assoc Suc_le_mono)
    then have "take k ws = ?lw @ (?st, full_head l s) # take j ?iw" by (simp add: ws)
    then have "recovered ?st ?D b = mem s b"
      by (intro recovered_mid_commit [OF assms(1,4), of _ j]) simp
    then show ?thesis using mid by simp
  next
    case all
    then have t: "take k ws = ws" by (simp add: ws ll)
    have D: "?D = apply_writes (disk s) ws" by (simp only: t)
    have "?D ?st = put32 0 0 (full_head l s)" unfolding D by (simp add: ws)
    then have "recovered ?st ?D b = ?D b"
      using recovered_home [of ?st ?D b] assms(4) full_head_props(2) [OF assms(1)] by (simp add: head_empty)
    also have "?D b = mem s b"
      using apply_self_writes [of _ "length ?bs" "mem s" ?bs b] bst assms(1,4)
        log_writes_other [OF hb(1), of ?st b "disk s" "length ?lw" "mem s"]
      unfolding D by (simp add: ws log_ok_def)
    finally show ?thesis using all by simp
  qed
qed

section \<open>A concrete transaction\<close>

text \<open>One block is logged on a blank disk whose log starts at block 2.\<close>

definition zeros :: block where "zeros = replicate BSIZE 0"

definition tx_log :: log where
  "tx_log = \<lparr>start = 2, outstanding = 0, committing = True, ncommit = 0, lh = [50]\<rparr>"

definition tx_store :: store where
  "tx_store = \<lparr>disk = (\<lambda>b. zeros), mem = (\<lambda>b. zeros)(50 := replicate BSIZE 1), trace = []\<rparr>"

lemma zeros_head: "head_blocks zeros = []" "length zeros = BSIZE"
  by (simp_all add: zeros_def head_blocks_def get32_def of_le32_def BSIZE_def)

lemma home_50: "home 2 50"
proof -
  have "log_slot 2 i \<noteq> 50" if "i < 30" for i
  proof
    assume "log_slot 2 i = 50"
    then have "log_slot 2 i = log_slot 2 47" by (simp add: log_slot_def)
    then show False using that by (simp add: log_slot_inj)
  qed
  then show ?thesis by (auto simp: home_def log_area_def LOGBLOCKS_small)
qed

theorem commit_crash_atomic_witness:
  "log_ok tx_log tx_store \<and> lh tx_log \<noteq> []
   \<and> trace (snd (commit tx_log tx_store)) = trace tx_store @ commit_writes tx_log tx_store \<and> home 2 50
   \<and> recovered 2 (apply_writes (disk tx_store) (take 1 (commit_writes tx_log tx_store))) 50 = zeros
   \<and> recovered 2 (apply_writes (disk tx_store) (take 2 (commit_writes tx_log tx_store))) 50 = replicate BSIZE 1"
proof -
  have h: "log_ok tx_log tx_store" "lh tx_log \<noteq> []" "start tx_log = 2"
    using home_50 by (auto simp: log_ok_def head_ok_def tx_log_def tx_store_def zeros_head LOGBLOCKS_small)
  have t: "trace (snd (commit tx_log tx_store)) = trace tx_store @ commit_writes tx_log tx_store"
    by (rule commit_trace [OF h(1,2)])
  have "length (lh tx_log) = 1" "disk tx_store 50 = zeros" "mem tx_store 50 = replicate BSIZE 1"
    by (simp_all add: tx_log_def tx_store_def)
  with commit_crash_atomic [OF h(1,2) t, of 50 1] commit_crash_atomic [OF h(1,2) t, of 50 2] h home_50 t
  show ?thesis by simp
qed

theorem recovery_restartable_witness:
  "head_ok 2 (head_blocks ((\<lambda>b. zeros) 2)) \<and> length ((\<lambda>b. zeros) 2) = BSIZE \<and> home 2 50
   \<and> recovered 2 (apply_writes (\<lambda>b. zeros) (take 1 (trace (snd (initlog 2 (\<lambda>b. zeros)))))) 50
     = recovered 2 (\<lambda>b. zeros) 50"
  using recovery_restartable [where st = 2 and d = "\<lambda>b. zeros" and b = 50 and k = 1, OF _ _ home_50 refl] home_50
  by (simp add: zeros_head)

end
