(* ===== verification/Log_Steps.thy ===== *)
theory Log_Steps
  imports Log_Crash
begin

text \<open>
  The log in use: file system calls begin, write blocks and end in any
  interleaving.  Each running call has a budget of \<open>MAXOPBLOCKS\<close> new blocks,
  which is what \<open>param.h\<close> promises about every file system operation.

  The call that finds itself the last one commits outside the log's lock, one
  disk write at a time: \<open>writing x = Some n\<close> while the first \<open>n\<close> disk writes of
  its \<open>commit\<close> have been made, and other calls may run, or the machine may stop,
  between any two of them.  Nothing but the flag \<open>committing\<close> that the code
  itself sets keeps other calls out meanwhile.  \<open>disk_now\<close> is the disk at that
  moment, and \<open>durable\<close> records what it promises: the contents as of the last
  header write of a commit, which \<open>log.c\<close> calls the real commit.
\<close>

record lstate =
  llog :: log
  lstore :: store
  budget :: "nat list"
  writing :: "nat option"
  durable :: "uint32 \<Rightarrow> block"

definition drop_nth :: "nat \<Rightarrow> 'a list \<Rightarrow> 'a list" where
  "drop_nth i xs = take i xs @ drop (Suc i) xs"

text \<open>The disk writes that \<open>commit\<close> makes, in order.\<close>

definition commit_bwrites :: "lstate \<Rightarrow> (uint32 \<times> block) list" where
  "commit_bwrites x = drop (length (trace (lstore x))) (trace (snd (commit (llog x) (lstore x))))"

definition disk_now :: "lstate \<Rightarrow> uint32 \<Rightarrow> block" where
  "disk_now x = (case writing x of
     None \<Rightarrow> disk (lstore x) | Some n \<Rightarrow> apply_writes (disk (lstore x)) (take n (commit_bwrites x)))"

text \<open>
  A boot whose recovery stops after \<open>j\<close> of its disk writes, and a series of such
  boots.
\<close>

definition cut_recovery :: "uint32 \<Rightarrow> nat \<Rightarrow> (uint32 \<Rightarrow> block) \<Rightarrow> uint32 \<Rightarrow> block" where
  "cut_recovery st j d = apply_writes d (take j (trace (snd (initlog st d))))"

definition cut_recoveries :: "uint32 \<Rightarrow> nat list \<Rightarrow> (uint32 \<Rightarrow> block) \<Rightarrow> uint32 \<Rightarrow> block" where
  "cut_recoveries st js d = fold (cut_recovery st) js d"

definition boot_log :: "uint32 \<Rightarrow> (uint32 \<Rightarrow> block) \<Rightarrow> lstate" where
  "boot_log st d = (let (l, s) = initlog st d in
     \<lparr>llog = l, lstore = s, budget = [], writing = None, durable = disk s\<rparr>)"

inductive log_step :: "lstate \<Rightarrow> lstate \<Rightarrow> bool" where
  ls_begin: "begin_op (llog x) = Some l \<Longrightarrow>
    log_step x (x\<lparr>llog := l, budget := budget x @ [MAXOPBLOCKS]\<rparr>)"
| ls_write: "i < length (budget x) \<Longrightarrow> 0 < budget x ! i \<Longrightarrow> home (start (llog x)) b \<Longrightarrow>
    log_write b (llog x) = Inr (l, pinned) \<Longrightarrow>
    log_step x (x\<lparr>llog := l, lstore := set_mem b v (lstore x),
      budget := (budget x)[i := (if pinned then budget x ! i - 1 else budget x ! i)]\<rparr>)"
| ls_end: "i < length (budget x) \<Longrightarrow> end_op_start (llog x) = Inr (l, do_commit) \<Longrightarrow>
    log_step x (x\<lparr>llog := l, budget := drop_nth i (budget x),
      writing := (if do_commit then Some 0 else writing x)\<rparr>)"
| ls_bwrite: "writing x = Some n \<Longrightarrow> n < length (commit_bwrites x) \<Longrightarrow>
    log_step x (x\<lparr>writing := Some (Suc n),
      durable := (if n = length (lh (llog x)) then mem (lstore x) else durable x)\<rparr>)"
| ls_done: "writing x = Some (length (commit_bwrites x)) \<Longrightarrow> commit (llog x) (lstore x) = (l, s) \<Longrightarrow>
    log_step x (x\<lparr>llog := end_op_finish l, lstore := s, writing := None\<rparr>)"
| ls_crash: "log_step x ((boot_log (start (llog x)) (cut_recoveries (start (llog x)) js (disk_now x)))
    \<lparr>durable := durable x\<rparr>)"

inductive log_reachable :: "uint32 \<Rightarrow> lstate \<Rightarrow> bool" for st where
  lr_boot: "head_ok st (head_blocks (d st)) \<Longrightarrow> length (d st) = BSIZE \<Longrightarrow> log_reachable st (boot_log st d)"
| lr_step: "log_reachable st x \<Longrightarrow> log_step x y \<Longrightarrow> log_reachable st y"

definition promised :: "lstate \<Rightarrow> uint32 \<Rightarrow> block" where
  "promised x = (case writing x of
     None \<Rightarrow> disk (lstore x)
   | Some n \<Rightarrow> if n \<le> length (lh (llog x)) then disk (lstore x) else mem (lstore x))"

definition log_inv :: "uint32 \<Rightarrow> lstate \<Rightarrow> bool" where
  "log_inv st x \<longleftrightarrow> start (llog x) = st \<and> log_ok (llog x) (lstore x)
     \<and> (committing (llog x) \<longleftrightarrow> writing x \<noteq> None)
     \<and> outstanding (llog x) = int (length (budget x)) \<and> (\<forall>n \<in> set (budget x). n \<le> MAXOPBLOCKS)
     \<and> length (lh (llog x)) + sum_list (budget x) \<le> LOGBLOCKS
     \<and> (writing x \<noteq> None \<longrightarrow> budget x = [])
     \<and> (budget x = [] \<longrightarrow> writing x = None \<longrightarrow> lh (llog x) = [])
     \<and> (\<forall>b. home st b \<longrightarrow> durable x b = promised x b)"

lemma sum_list_bounded: "\<forall>n \<in> set ns. n \<le> (k :: nat) \<Longrightarrow> sum_list ns \<le> length ns * k"
  by (induction ns) auto

lemma sum_list_drop_nth: "i < length ns \<Longrightarrow> sum_list (drop_nth i ns) + ns ! i = (sum_list ns :: nat)"
  using id_take_nth_drop [of i ns] by (metis (no_types, lifting) add.assoc add.commute drop_nth_def sum_list.Cons sum_list_append)

lemma sum_list_dec:
  assumes "i < length ns" "0 < ns ! i"
  shows "Suc (sum_list (ns[i := ns ! i - 1])) = (sum_list ns :: nat)"
proof -
  have "ns = take i ns @ ns ! i # drop (Suc i) ns" by (rule id_take_nth_drop [OF assms(1)])
  then have "sum_list ns = sum_list (take i ns) + ns ! i + sum_list (drop (Suc i) ns)"
    by (metis add.assoc sum_list.Cons sum_list_append)
  moreover have "sum_list (ns[i := ns ! i - 1]) = sum_list (take i ns) + (ns ! i - 1) + sum_list (drop (Suc i) ns)"
    using assms(1) by (simp add: upd_conv_take_nth_drop)
  ultimately show ?thesis using assms(2) by simp
qed

lemma commit_ok:
  assumes "log_ok l s"
  shows "log_ok (fst (commit l s)) (snd (commit l s)) \<and> lh (fst (commit l s)) = []
    \<and> (\<forall>b. home (start l) b \<longrightarrow> disk (snd (commit l s)) b = mem s b)
    \<and> start (fst (commit l s)) = start l \<and> outstanding (fst (commit l s)) = outstanding l"
proof (cases "lh l = []")
  case True
  then show ?thesis using assms by (auto simp: commit_def log_ok_def)
next
  case False
  note ct = commit_trace [OF assms False]
  have l1: "fst (commit l s) = l\<lparr>lh := []\<rparr>" using False by (simp add: commit_def Let_def)
  have hb: "length (lh l) \<le> LOGBLOCKS" using assms by (simp add: log_ok_def head_ok_def)
  have d: "disk (snd (commit l s)) b = mem s b" if b: "home (start l) b" for b
  proof -
    have "b \<noteq> start l" using b start_not_home by blast
    then show ?thesis
      using apply_self_writes [of _ "length (lh l)" "mem s" "lh l" b] b assms
        log_writes_other [OF hb, of "start l" b "disk s" "length (lh l)" "mem s"]
      unfolding ct(2) commit_writes_def by (simp add: log_ok_def log_writes_def)
  qed
  have "disk (snd (commit l s)) (start l) = put32 0 0 (full_head l s)"
    unfolding ct(2) commit_writes_def by simp
  with ct(3,4) d l1 full_head_props(2) [OF assms] show ?thesis
    by (simp add: log_ok_def head_empty BSIZE_def)
qed

lemma log_inv_begin:
  assumes "log_inv st x" "begin_op (llog x) = Some l"
  shows "log_inv st (x\<lparr>llog := l, budget := budget x @ [MAXOPBLOCKS]\<rparr>)"
proof -
  have l: "l = (llog x)\<lparr>outstanding := outstanding (llog x) + 1\<rparr>"
    "int (length (lh (llog x))) + (outstanding (llog x) + 1) * int MAXOPBLOCKS \<le> int LOGBLOCKS"
    using assms(2) by (auto simp: begin_op_def split: if_splits)
  have "sum_list (budget x) \<le> length (budget x) * MAXOPBLOCKS"
    using assms(1) by (intro sum_list_bounded) (simp add: log_inv_def)
  moreover have "length (lh (llog x)) + (length (budget x) + 1) * MAXOPBLOCKS \<le> LOGBLOCKS"
    using l(2) assms(1) unfolding log_inv_def by (simp flip: of_nat_mult of_nat_add of_nat_Suc add: algebra_simps)
  ultimately have "length (lh l) + sum_list (budget x @ [MAXOPBLOCKS]) \<le> LOGBLOCKS" by (simp add: l(1))
  moreover have "writing x = None" using assms by (auto simp: log_inv_def begin_op_def split: if_splits)
  ultimately show ?thesis using assms(1) by (auto simp: log_inv_def l(1) log_ok_def promised_def)
qed

lemma log_write_ok:
  assumes "log_ok l s" "log_write b l = Inr (l', p)" "home (start l) b"
  shows "log_ok l' (set_mem b v s)" "start l' = start l" "outstanding l' = outstanding l" "committing l' = committing l"
    "length (lh l') = length (lh l) + (if p then 1 else 0)" "lh l' \<noteq> []"
proof -
  have lim: "length (lh l) < LOGBLOCKS" using assms(2) by (auto simp: log_write_def split: if_splits)
  have bst: "b \<noteq> start l" using assms(3) start_not_home by blast
  have cases: "lh l' = lh l \<and> b \<in> set (lh l) \<and> \<not> p \<or> lh l' = lh l @ [b] \<and> b \<notin> set (lh l) \<and> p"
    and same: "start l' = start l" "outstanding l' = outstanding l" "committing l' = committing l"
  proof -
    consider i where "find_idx (\<lambda>x. x = b) (lh l) = Some i" "l' = l\<lparr>lh := (lh l)[i := b]\<rparr>" "\<not> p"
      | "find_idx (\<lambda>x. x = b) (lh l) = None" "l' = l\<lparr>lh := lh l @ [b]\<rparr>" "p"
      using assms(2) by (auto simp: log_write_def split: if_splits option.splits)
    then have "(lh l' = lh l \<and> b \<in> set (lh l) \<and> \<not> p \<or> lh l' = lh l @ [b] \<and> b \<notin> set (lh l) \<and> p)
      \<and> start l' = start l \<and> outstanding l' = outstanding l \<and> committing l' = committing l"
    proof cases
      case (1 i)
      from find_idx_SomeD [OF 1(1)] have "(lh l)[i := b] = lh l" "b \<in> set (lh l)" by auto
      with 1 show ?thesis by simp
    qed (auto simp: find_block_None)
    then show "lh l' = lh l \<and> b \<in> set (lh l) \<and> \<not> p \<or> lh l' = lh l @ [b] \<and> b \<notin> set (lh l) \<and> p"
      "start l' = start l" "outstanding l' = outstanding l" "committing l' = committing l" by blast+
  qed
  then show "start l' = start l" "outstanding l' = outstanding l" "committing l' = committing l" by blast+
  from cases show "length (lh l') = length (lh l) + (if p then 1 else 0)" "lh l' \<noteq> []" by auto
  from cases show "log_ok l' (set_mem b v s)"
    using assms(1,3) lim bst by (auto simp: log_ok_def head_ok_def same set_mem_def)
qed

lemma log_inv_write:
  assumes "log_inv st x" "i < length (budget x)" "0 < budget x ! i" "home (start (llog x)) b"
    "log_write b (llog x) = Inr (l, p)"
  shows "log_inv st (x\<lparr>llog := l, lstore := set_mem b v (lstore x),
      budget := (budget x)[i := (if p then budget x ! i - 1 else budget x ! i)]\<rparr>)"
proof -
  have ok: "log_ok (llog x) (lstore x)" using assms(1) by (simp add: log_inv_def)
  note w = log_write_ok [OF ok assms(5,4)]
  have "length (lh l) + sum_list ((budget x)[i := (if p then budget x ! i - 1 else budget x ! i)]) \<le> LOGBLOCKS"
    using assms(1) w(5) sum_list_dec [OF assms(2,3)] by (auto simp: log_inv_def)
  moreover have "n \<le> MAXOPBLOCKS" if "n \<in> set ((budget x)[i := (if p then budget x ! i - 1 else budget x ! i)])" for n
  proof -
    have "budget x ! i \<le> MAXOPBLOCKS" using assms(1,2) by (simp add: log_inv_def)
    then show ?thesis using that assms(1) set_update_subset_insert [of "budget x" i]
      by (fastforce simp: log_inv_def split: if_splits)
  qed
  moreover have "writing x = None" using assms(1,2) by (auto simp: log_inv_def)
  ultimately show ?thesis using assms(1,2) w by (auto simp: log_inv_def set_mem_def promised_def)
qed

lemma set_drop_nth: "set (drop_nth i xs) \<subseteq> set xs"
  by (auto simp: drop_nth_def dest: in_set_takeD in_set_dropD)

lemma log_inv_end:
  assumes "log_inv st x" "i < length (budget x)" "end_op_start (llog x) = Inr (l, c)"
  shows "log_inv st (x\<lparr>llog := l, budget := drop_nth i (budget x),
      writing := (if c then Some 0 else writing x)\<rparr>)"
proof -
  let ?l1 = "(llog x)\<lparr>outstanding := outstanding (llog x) - 1\<rparr>"
  have len: "length (drop_nth i (budget x)) = length (budget x) - 1" using assms(2) by (simp add: drop_nth_def)
  have w: "writing x = None" using assms(1,2) by (auto simp: log_inv_def)
  have bud: "\<forall>n \<in> set (drop_nth i (budget x)). n \<le> MAXOPBLOCKS"
    using assms(1) set_drop_nth [of i "budget x"] by (auto simp: log_inv_def)
  have sum: "length (lh (llog x)) + sum_list (drop_nth i (budget x)) \<le> LOGBLOCKS"
    using assms(1) sum_list_drop_nth [OF assms(2)] by (simp add: log_inv_def)
  have c: "c \<longleftrightarrow> length (budget x) = 1" "l = (if c then ?l1\<lparr>committing := True\<rparr> else ?l1)"
    using assms(1,3) by (auto simp: end_op_start_def Let_def log_inv_def split: if_splits)
  show ?thesis
  proof (cases c)
    case True
    then have "drop_nth i (budget x) = []" using len c(1) by simp
    with True assms(1) w c sum show ?thesis by (auto simp: log_inv_def log_ok_def promised_def)
  next
    case False
    then have "drop_nth i (budget x) \<noteq> []" using len assms(2) c(1) by (cases "budget x") (auto simp del: length_greater_0_conv)
    with False assms(1,2) w c(2) len bud sum show ?thesis by (auto simp: log_inv_def log_ok_def promised_def)
  qed
qed

lemma log_inv_boot:
  assumes "head_ok st (head_blocks (d st))" "length (d st) = BSIZE"
  shows "log_inv st (boot_log st d)"
proof -
  let ?bs = "head_blocks (d st)" and ?s = "\<lparr>disk = d, mem = d, trace = []\<rparr>"
  let ?s1 = "install_from st 0 ?bs ?s"
  have e: "disk ?s1 = apply_writes d (install_writes st 0 ?bs d)" "mem ?s1 = apply_writes d (install_writes st 0 ?bs d)"
    using install_from_effect [of 0 ?bs st ?s] assms(1) by (simp_all add: head_ok_def)
  have "st \<notin> set ?bs" using assms(1) start_not_home by (auto simp: head_ok_def)
  then have "apply_writes d (install_writes st 0 ?bs d) st = d st"
    using install_writes_dom [of "length ?bs" st 0 ?bs d] by (simp add: apply_writes_other install_writes_def)
  then show ?thesis
    using assms(2) by (auto simp: boot_log_def initlog_def recover_from_log_def Let_def read_head_def install_trans_def
        log_inv_def log_ok_def promised_def write_head_effect e head_empty BSIZE_def)
qed

lemma commit_bwrites_eq:
  assumes "log_ok (llog x) (lstore x)"
  shows "commit_bwrites x = (if lh (llog x) = [] then [] else commit_writes (llog x) (lstore x))"
  using commit_trace(1) [OF assms] by (auto simp: commit_bwrites_def commit_def)

lemma log_inv_bwrite:
  assumes "log_inv st x" "writing x = Some n" "n < length (commit_bwrites x)"
  shows "log_inv st (x\<lparr>writing := Some (Suc n),
    durable := (if n = length (lh (llog x)) then mem (lstore x) else durable x)\<rparr>)"
  using assms by (auto simp: log_inv_def promised_def)

lemma log_inv_done:
  assumes "log_inv st x" "writing x = Some (length (commit_bwrites x))" "commit (llog x) (lstore x) = (l, s)"
  shows "log_inv st (x\<lparr>llog := end_op_finish l, lstore := s, writing := None\<rparr>)"
proof -
  have ok: "log_ok (llog x) (lstore x)" using assms(1) by (simp add: log_inv_def)
  have "durable x b = mem (lstore x) b" if "home st b" for b
    using that assms(1,2) ok
    by (auto simp: log_inv_def promised_def commit_bwrites_eq commit_writes_def log_writes_def log_ok_def
        split: if_splits)
  with commit_ok [OF ok] assms show ?thesis
    by (auto simp: log_inv_def end_op_finish_def log_ok_def promised_def)
qed

section \<open>Crashes\<close>

text \<open>A disk from which the log can be recovered.\<close>

definition recoverable :: "uint32 \<Rightarrow> (uint32 \<Rightarrow> block) \<Rightarrow> bool" where
  "recoverable st d \<longleftrightarrow> head_ok st (head_blocks (d st)) \<and> length (d st) = BSIZE"

lemma head_after_commit_prefix:
  assumes "log_ok l s"
  shows "apply_writes (disk s) (take k (commit_writes l s)) (start l)
    \<in> {disk s (start l), full_head l s, put32 0 0 (full_head l s)}"
proof -
  have "v \<in> {full_head l s, put32 0 0 (full_head l s)}"
    if "(start l, v) \<in> set (take k (commit_writes l s))" for v
  proof -
    have "log_slot (start l) i \<noteq> start l" if "i < length (lh l)" for i
      using assms that log_slot_start [of i "start l"] by (auto simp: log_ok_def head_ok_def LOGBLOCKS_small)
    moreover have "start l \<notin> set (lh l)"
      using assms start_not_home by (auto simp: log_ok_def head_ok_def)
    ultimately show ?thesis
      using in_set_takeD [OF that] by (auto simp: commit_writes_def log_writes_def) metis
  qed
  with apply_writes_in [of "disk s" "take k (commit_writes l s)" "start l"] show ?thesis by auto
qed

lemma disk_now_recoverable:
  assumes "log_inv st x"
  shows "recoverable st (disk_now x)"
proof -
  have ok: "log_ok (llog x) (lstore x)" and st: "start (llog x) = st" using assms by (simp_all add: log_inv_def)
  have h: "head_ok st (lh (llog x))" using ok st by (auto simp: log_ok_def)
  have "disk_now x st \<in> {disk (lstore x) st, full_head (llog x) (lstore x), put32 0 0 (full_head (llog x) (lstore x))}"
    using head_after_commit_prefix [OF ok] commit_bwrites_eq [OF ok] st
    by (auto simp: disk_now_def split: option.split)
  then show ?thesis
    using ok h full_head_props [OF ok] st
    by (auto simp: recoverable_def log_ok_def head_empty) (simp add: BSIZE_def)
qed

lemma disk_now_recovers:
  assumes "log_inv st x" "home st b"
  shows "recovered st (disk_now x) b = durable x b"
proof -
  have ok: "log_ok (llog x) (lstore x)" and st: "start (llog x) = st"
    and d: "durable x b = promised x b" using assms by (simp_all add: log_inv_def)
  have idle: "recovered st (disk (lstore x)) b = disk (lstore x) b"
    using recovered_home [of st "disk (lstore x)" b] ok st assms(2) by (auto simp: log_ok_def)
  show ?thesis
  proof (cases "writing x")
    case None
    then show ?thesis using idle d by (simp add: disk_now_def promised_def)
  next
    case (Some n)
    note w = commit_bwrites_eq [OF ok]
    show ?thesis
    proof (cases "lh (llog x) = []")
      case True
      then have "mem (lstore x) b = disk (lstore x) b" using ok st assms(2) by (simp add: log_ok_def)
      then show ?thesis using Some True w idle d by (simp add: disk_now_def promised_def)
    next
      case False
      from commit_crash_atomic [OF ok False commit_trace(1) [OF ok False], of b n] show ?thesis
        using Some False w st assms(2) d by (simp add: disk_now_def promised_def)
    qed
  qed
qed

lemma cut_recovery_ok:
  assumes "recoverable st d"
  shows "recoverable st (cut_recovery st j d)"
    and "home st b \<Longrightarrow> recovered st (cut_recovery st j d) b = recovered st d b"
proof -
  have h: "head_ok st (head_blocks (d st))" "length (d st) = BSIZE" using assms by (simp_all add: recoverable_def)
  then show "home st b \<Longrightarrow> recovered st (cut_recovery st j d) b = recovered st d b"
    unfolding cut_recovery_def by (rule recovery_restartable) auto
  have "(st, v) \<in> set (trace (snd (initlog st d))) \<Longrightarrow> v = put32 0 0 (d st)" for v
    using h(1) start_not_home [of st] by (auto simp: initlog_trace install_writes_def head_ok_def) (metis nth_mem)
  then have "cut_recovery st j d st \<in> {d st, put32 0 0 (d st)}"
    using apply_writes_in [of d "take j (trace (snd (initlog st d)))" st]
    unfolding cut_recovery_def by (auto dest: in_set_takeD)
  then show "recoverable st (cut_recovery st j d)"
    using h by (auto simp: recoverable_def head_empty) (simp add: BSIZE_def)
qed

lemma cut_recoveries_ok:
  "recoverable st d \<Longrightarrow> recoverable st (cut_recoveries st js d)
     \<and> (home st b \<longrightarrow> recovered st (cut_recoveries st js d) b = recovered st d b)"
  unfolding cut_recoveries_def
  by (induction js arbitrary: d) (simp_all add: cut_recovery_ok)

lemma log_inv_crash:
  assumes "log_inv st x"
  shows "log_inv st ((boot_log st (cut_recoveries st js (disk_now x)))\<lparr>durable := durable x\<rparr>)"
proof -
  let ?d = "cut_recoveries st js (disk_now x)"
  note c = cut_recoveries_ok [OF disk_now_recoverable [OF assms], of js]
  have "log_inv st (boot_log st ?d)" using c by (intro log_inv_boot) (simp_all add: recoverable_def)
  moreover have "disk (lstore (boot_log st ?d)) b = durable x b" if "home st b" for b
  proof -
    have "disk (lstore (boot_log st ?d)) b = recovered st ?d b"
      by (simp add: boot_log_def recovered_def split: prod.split)
    then show ?thesis using c disk_now_recovers [OF assms that] that by simp
  qed
  moreover have "writing (boot_log st ?d) = None" by (simp add: boot_log_def split: prod.split)
  ultimately show ?thesis by (auto simp: log_inv_def promised_def)
qed

lemma log_reachable_inv: "log_reachable st x \<Longrightarrow> log_inv st x"
proof (induction rule: log_reachable.induct)
  case (lr_step x y)
  have "start (llog x) = st" using lr_step(3) by (simp add: log_inv_def)
  with lr_step(2,3) show ?case
    by (cases rule: log_step.cases)
      (blast intro: log_inv_begin log_inv_write log_inv_end log_inv_bwrite log_inv_done
        dest: log_inv_crash)+
qed (simp add: log_inv_boot)

text \<open>
  C27: a crash loses exactly what was not committed.  File system calls run in
  any interleaving, and the machine may stop between any two steps of any of
  them, in particular between any two disk writes of a commit; the recoveries
  that follow may themselves be cut short after any of their disk writes.  The
  first recovery that completes gives every block outside the log the contents
  as of the last header write of a commit, for all blocks alike.  When no
  call is in progress that is all that was ever written: the contents of the
  buffers.
\<close>

theorem crash_recovers_last_commit:
  assumes "log_reachable st x" "home st b"
  shows "recovered st (cut_recoveries st js (disk_now x)) b = durable x b
    \<and> (budget x = [] \<and> writing x = None \<longrightarrow> durable x b = mem (lstore x) b)"
proof
  have i: "log_inv st x" by (rule log_reachable_inv [OF assms(1)])
  show "recovered st (cut_recoveries st js (disk_now x)) b = durable x b"
    using cut_recoveries_ok [OF disk_now_recoverable [OF i], of js b] disk_now_recovers [OF i assms(2)] assms(2)
    by simp
  show "budget x = [] \<and> writing x = None \<longrightarrow> durable x b = mem (lstore x) b"
    using i assms(2) by (auto simp: log_inv_def log_ok_def promised_def)
qed

text \<open>
  the panics of the log are unreachable.  As long as every file system call
  logs at most \<open>MAXOPBLOCKS\<close> blocks, \<open>log_write\<close> finds room and a running
  transaction, and \<open>end_op\<close> never meets a commit in progress.
\<close>

theorem log_calls_never_panic:
  assumes "log_reachable st x" "i < length (budget x)"
  shows "(0 < budget x ! i \<longrightarrow> (\<exists>r. log_write b (llog x) = Inr r))
    \<and> (\<exists>r. end_op (llog x) (lstore x) = Inr r)"
proof -
  have inv: "log_inv st x" by (rule log_reachable_inv [OF assms(1)])
  have "budget x ! i \<le> sum_list (budget x)" using assms(2) by (simp add: member_le_sum_list)
  with inv have "0 < budget x ! i \<longrightarrow> length (lh (llog x)) < LOGBLOCKS" by (auto simp: log_inv_def)
  moreover have "1 \<le> outstanding (llog x)" using inv assms(2) by (simp add: log_inv_def)
  moreover have "\<not> committing (llog x)" using inv assms(2) by (auto simp: log_inv_def)
  ultimately show ?thesis
    by (auto simp: log_write_def end_op_def end_op_start_def Let_def split: option.split prod.split)
qed

section \<open>A concrete run\<close>

lemma boot_reachable: "log_reachable 2 (boot_log 2 (\<lambda>b. zeros))"
  by (rule lr_boot) (simp_all add: zeros_head)

definition in_op :: lstate where
  "in_op = (boot_log 2 (\<lambda>b. zeros))\<lparr>
     llog := (llog (boot_log 2 (\<lambda>b. zeros)))\<lparr>outstanding := outstanding (llog (boot_log 2 (\<lambda>b. zeros))) + 1\<rparr>,
     budget := budget (boot_log 2 (\<lambda>b. zeros)) @ [MAXOPBLOCKS]\<rparr>"

lemma boot_log_fields:
  "outstanding (llog (boot_log st d)) = 0" "\<not> committing (llog (boot_log st d))" "lh (llog (boot_log st d)) = []"
  "budget (boot_log st d) = []" "start (llog (boot_log st d)) = st"
  by (simp_all add: boot_log_def initlog_def recover_from_log_def Let_def read_head_def)

lemma in_op_reachable: "log_reachable 2 in_op"
  unfolding in_op_def
  by (rule lr_step [OF boot_reachable ls_begin])
    (simp add: begin_op_def boot_log_fields LOGBLOCKS_def MAXOPBLOCKS_def)

text \<open>One call writes block 50 and ends; the commit has made two of its four disk writes.\<close>

definition one_logged :: lstate where
  "one_logged = in_op\<lparr>llog := (llog in_op)\<lparr>lh := [50]\<rparr>, lstore := set_mem 50 (replicate BSIZE 1) (lstore in_op),
     budget := [MAXOPBLOCKS - 1]\<rparr>"

definition mid_commit :: lstate where
  "mid_commit = one_logged\<lparr>llog := (llog one_logged)\<lparr>outstanding := 0, committing := True\<rparr>, budget := [],
     writing := Some 2, durable := mem (lstore one_logged)\<rparr>"

lemma one_logged_reachable: "log_reachable 2 one_logged"
proof -
  have "log_write 50 (llog in_op) = Inr ((llog in_op)\<lparr>lh := [50]\<rparr>, True)"
    by (simp add: log_write_def in_op_def boot_log_fields LOGBLOCKS_small)
  from ls_write [OF _ _ _ this, of 0 "replicate BSIZE 1"] have "log_step in_op one_logged"
    using home_50 by (simp add: one_logged_def in_op_def boot_log_fields MAXOPBLOCKS_def)
  then show ?thesis by (rule lr_step [OF in_op_reachable])
qed

lemma mid_commit_reachable: "log_reachable 2 mid_commit"
proof -
  define y where "y = one_logged\<lparr>llog := (llog one_logged)\<lparr>outstanding := 0, committing := True\<rparr>, budget := [],
     writing := Some 0\<rparr>"
  define z where "z = y\<lparr>writing := Some 1\<rparr>"
  have "end_op_start (llog one_logged) = Inr ((llog one_logged)\<lparr>outstanding := 0, committing := True\<rparr>, True)"
    by (simp add: end_op_start_def one_logged_def in_op_def boot_log_fields)
  from ls_end [OF _ this, of 0] have "log_step one_logged y"
    by (simp add: one_logged_def y_def drop_nth_def)
  then have y: "log_reachable 2 y" by (rule lr_step [OF one_logged_reachable])
  have ly: "length (commit_bwrites y) = 4" "lh (llog y) = [50]"
    using log_reachable_inv [OF y]
    by (simp_all add: log_inv_def commit_bwrites_eq commit_writes_def log_writes_def y_def one_logged_def)
  have wy: "writing y = Some 0" by (simp add: y_def)
  have "log_step y z" using ls_bwrite [OF wy] ly by (simp add: z_def)
  then have z: "log_reachable 2 z" by (rule lr_step [OF y])
  have lz: "length (commit_bwrites z) = 4" "lh (llog z) = [50]" "lstore z = lstore one_logged"
    using ly by (simp_all add: z_def commit_bwrites_def) (simp add: y_def)
  have "writing z = Some 1" "mid_commit = z\<lparr>writing := Some (Suc 1), durable := mem (lstore z)\<rparr>"
    by (simp_all add: z_def y_def mid_commit_def eval_nat_numeral)
  with ls_bwrite [of z 1] lz have "log_step z mid_commit" by simp
  then show ?thesis by (rule lr_step [OF z])
qed

theorem crash_recovers_last_commit_witness:
  "log_reachable 2 mid_commit \<and> home 2 50 \<and> writing mid_commit = Some 2
   \<and> recovered 2 (cut_recoveries 2 [1] (disk_now mid_commit)) 50 = replicate BSIZE 1"
proof -
  have "durable mid_commit 50 = replicate BSIZE 1" "writing mid_commit = Some 2"
    by (simp_all add: mid_commit_def one_logged_def set_mem_def)
  with crash_recovers_last_commit [OF mid_commit_reachable home_50, of "[1]"] mid_commit_reachable home_50
  show ?thesis by simp
qed

theorem log_calls_never_panic_witness:
  "log_reachable 2 in_op \<and> 0 < length (budget in_op) \<and> 0 < budget in_op ! 0
   \<and> (\<exists>r. log_write 50 (llog in_op) = Inr r)"
proof -
  have b: "0 < length (budget in_op)" "0 < budget in_op ! 0" by (simp_all add: in_op_def boot_log_fields MAXOPBLOCKS_def)
  from log_calls_never_panic [OF in_op_reachable b(1)] b in_op_reachable show ?thesis by blast
qed

end
