(* ===== verification/Bio.thy ===== *)
theory Bio
  imports Bytes
begin

text \<open>
  The buffer cache (\<open>xv6-riscv/kernel/bio.c\<close>).  Buffers are named by their index
  in \<open>bcache.buf\<close>; index \<open>NBUF\<close> is \<open>bcache.head\<close>.  \<open>prev\<close> and \<open>next\<close> are the links of
  the circular list in order of use, \<open>owner\<close> is the process that holds the sleep
  lock of the buffer.  The loops over the list take a step bound; running out of
  it is the error \<open>BioLoop\<close>, which is shown not to happen.
\<close>

section \<open>State\<close>

definition NBUF :: nat where "NBUF = 30"

record buf =
  valid :: bool
  dev :: uint32
  blockno :: uint32
  refcnt :: uint32
  owner :: "int option"
  prev :: nat
  "next" :: nat
  data :: block

record bcache =
  bufs :: "buf list"
  bdisk :: "uint32 \<times> uint32 \<Rightarrow> block"

datatype bio_error = BioPanic string | BioLoop

abbreviation head :: nat where "head \<equiv> NBUF"

definition upd :: "nat \<Rightarrow> (buf \<Rightarrow> buf) \<Rightarrow> bcache \<Rightarrow> bcache" where
  "upd b f c = c\<lparr>bufs := modify b f (bufs c)\<rparr>"

definition nx :: "bcache \<Rightarrow> nat \<Rightarrow> nat" where "nx c b = next (bufs c ! b)"
definition pv :: "bcache \<Rightarrow> nat \<Rightarrow> nat" where "pv c b = prev (bufs c ! b)"

section \<open>Operations\<close>

definition link_front :: "nat \<Rightarrow> bcache \<Rightarrow> bcache" where
  "link_front b c =
     (let c1 = upd b (\<lambda>x. x\<lparr>next := nx c head\<rparr>) c;
          c2 = upd b (\<lambda>x. x\<lparr>prev := head\<rparr>) c1;
          c3 = upd (nx c2 head) (\<lambda>x. x\<lparr>prev := b\<rparr>) c2
      in upd head (\<lambda>x. x\<lparr>next := b\<rparr>) c3)"

definition unlink :: "nat \<Rightarrow> bcache \<Rightarrow> bcache" where
  "unlink b c =
     (let c1 = upd (nx c b) (\<lambda>x. x\<lparr>prev := pv c b\<rparr>) c
      in upd (pv c1 b) (\<lambda>x. x\<lparr>next := nx c1 b\<rparr>) c1)"

text \<open>All fields of the cache are zero at boot.\<close>

definition zero_buf :: buf where
  "zero_buf = \<lparr>valid = False, dev = 0, blockno = 0, refcnt = 0, owner = None, prev = 0, next = 0,
     data = replicate BSIZE 0\<rparr>"

definition binit :: "(uint32 \<times> uint32 \<Rightarrow> block) \<Rightarrow> bcache" where
  "binit d =
     fold link_front [0..<NBUF]
       (upd head (\<lambda>x. x\<lparr>next := head\<rparr>) (upd head (\<lambda>x. x\<lparr>prev := head\<rparr>)
         \<lparr>bufs = replicate (Suc NBUF) zero_buf, bdisk = d\<rparr>))"

fun walk :: "(nat \<Rightarrow> nat) \<Rightarrow> (nat \<Rightarrow> bool) \<Rightarrow> nat \<Rightarrow> nat \<Rightarrow> nat option option" where
  "walk step P 0 b = None"
| "walk step P (Suc n) b =
     (if b = head then Some None else if P b then Some (Some b) else walk step P n (step b))"

definition holds_block :: "uint32 \<Rightarrow> uint32 \<Rightarrow> bcache \<Rightarrow> nat \<Rightarrow> bool" where
  "holds_block d n c b = (dev (bufs c ! b) = d \<and> blockno (bufs c ! b) = n)"

text \<open>\<open>bget\<close> up to the point where it has released the cache lock.\<close>

definition bget :: "uint32 \<Rightarrow> uint32 \<Rightarrow> bcache \<Rightarrow> bio_error + nat \<times> bcache" where
  "bget d n c =
     (case walk (nx c) (holds_block d n c) (Suc NBUF) (nx c head) of
        None \<Rightarrow> Inl BioLoop
      | Some (Some b) \<Rightarrow> Inr (b, upd b (\<lambda>x. x\<lparr>refcnt := refcnt x + 1\<rparr>) c)
      | Some None \<Rightarrow>
          (case walk (pv c) (\<lambda>b. refcnt (bufs c ! b) = 0) (Suc NBUF) (pv c head) of
             None \<Rightarrow> Inl BioLoop
           | Some (Some b) \<Rightarrow>
               Inr (b, upd b (\<lambda>x. x\<lparr>dev := d, blockno := n, valid := False, refcnt := 1\<rparr>) c)
           | Some None \<Rightarrow> Inl (BioPanic ''bget: no buffers'')))"

text \<open>\<open>acquiresleep(&b->lock)\<close>: \<open>None\<close> while another process holds it.\<close>

definition lock_buf :: "int \<Rightarrow> nat \<Rightarrow> bcache \<Rightarrow> bcache option" where
  "lock_buf p b c = (if owner (bufs c ! b) = None then Some (upd b (\<lambda>x. x\<lparr>owner := Some p\<rparr>) c) else None)"

text \<open>The part of \<open>bread\<close> that runs with the buffer locked.\<close>

definition bread_fill :: "nat \<Rightarrow> bcache \<Rightarrow> bcache" where
  "bread_fill b c =
     (if \<not> valid (bufs c ! b)
      then upd b (\<lambda>x. x\<lparr>data := bdisk c (dev x, blockno x), valid := True\<rparr>) c else c)"

definition bread :: "int \<Rightarrow> uint32 \<Rightarrow> uint32 \<Rightarrow> bcache \<Rightarrow> bio_error + (nat \<times> bcache) option" where
  "bread p d n c =
     (case bget d n c of
        Inl e \<Rightarrow> Inl e
      | Inr (b, c1) \<Rightarrow> Inr (map_option (\<lambda>c2. (b, bread_fill b c2)) (lock_buf p b c1)))"

definition bwrite :: "int \<Rightarrow> nat \<Rightarrow> bcache \<Rightarrow> bio_error + bcache" where
  "bwrite p b c =
     (if owner (bufs c ! b) \<noteq> Some p then Inl (BioPanic ''bwrite'')
      else Inr (c\<lparr>bdisk := (bdisk c)((dev (bufs c ! b), blockno (bufs c ! b)) := data (bufs c ! b))\<rparr>))"

definition brelse :: "int \<Rightarrow> nat \<Rightarrow> bcache \<Rightarrow> bio_error + bcache" where
  "brelse p b c =
     (if owner (bufs c ! b) \<noteq> Some p then Inl (BioPanic ''brelse'')
      else
        let c1 = upd b (\<lambda>x. x\<lparr>owner := None\<rparr>) c;
            c2 = upd b (\<lambda>x. x\<lparr>refcnt := refcnt x - 1\<rparr>) c1
        in Inr (if refcnt (bufs c2 ! b) = 0 then link_front b (unlink b c2) else c2))"

definition bpin :: "nat \<Rightarrow> bcache \<Rightarrow> bcache" where
  "bpin b c = upd b (\<lambda>x. x\<lparr>refcnt := refcnt x + 1\<rparr>) c"

definition bunpin :: "nat \<Rightarrow> bcache \<Rightarrow> bcache" where
  "bunpin b c = upd b (\<lambda>x. x\<lparr>refcnt := refcnt x - 1\<rparr>) c"

section \<open>Doubly linked lists\<close>

fun chain :: "(nat \<Rightarrow> nat) \<Rightarrow> (nat \<Rightarrow> nat) \<Rightarrow> nat list \<Rightarrow> bool" where
  "chain n p (a # b # l) = (n a = b \<and> p b = a \<and> chain n p (b # l))"
| "chain n p _ = True"

lemma chain_append: "chain n p (xs @ y # ys) \<longleftrightarrow> chain n p (xs @ [y]) \<and> chain n p (y # ys)"
proof (induction xs)
  case (Cons x xs)
  then show ?case by (cases xs) auto
qed simp

lemma chain_cong:
  "\<forall>a \<in> set (butlast l). n a = n' a \<Longrightarrow> \<forall>a \<in> set (tl l). p a = p' a \<Longrightarrow> chain n p l = chain n' p' l"
  by (induction n p l rule: chain.induct) auto

lemma chain_rev: "chain n p (rev l) = chain p n l"
proof (induction p n l rule: chain.induct)
  case (1 p n a b l)
  then show ?case using chain_append [of n p "rev l" b "[a]"] by auto
qed auto

text \<open>Taking an element out and putting one in at the front.\<close>

lemma chain_unlink:
  assumes ch: "chain n p (h # ys @ b # zs @ [h])" and di: "distinct (h # ys @ b # zs)"
  shows "chain (n(p b := n b)) (p(n b := p b)) (h # ys @ zs @ [h])"
    "n b \<noteq> b" "p b \<noteq> b" "n b \<in> set (zs @ [h])" "p b \<in> set (h # ys)"
proof -
  obtain ys' q where y: "h # ys = ys' @ [q]" by (metis append_butlast_last_id list.distinct(1))
  obtain m zs' where z: "zs @ [h] = m # zs'" by (metis append_is_Nil_conv list.exhaust list.distinct(1))
  have l: "h # ys @ b # zs @ [h] = ys' @ q # b # m # zs'"
    by (metis y z append_Cons append.assoc append_Nil)
  have c: "chain n p (ys' @ [q])" "n q = b" "p b = q" "n b = m" "p m = b" "chain n p (m # zs')"
    using ch chain_append [of n p ys' q "b # m # zs'"] by (simp_all add: l)
  have di': "distinct (ys' @ q # b # zs)" using di by (metis y append_Cons append.assoc append_Nil)
  have hz: "distinct (m # zs')" "set (m # zs') = insert h (set zs)" using di by (auto simp flip: z)
  have q: "q \<in> set (h # ys)" by (simp add: y)
  have m: "m \<in> set (zs @ [h])" by (simp add: z)
  show "n b \<noteq> b" "p b \<noteq> b" "n b \<in> set (zs @ [h])" "p b \<in> set (h # ys)"
    using c m q di by auto
  have tl: "tl (ys' @ [q]) = ys" using y by (metis list.sel(3))
  have bl: "butlast (m # zs') = zs" by (metis z butlast_snoc)
  have mys: "m \<notin> set ys" using m di by auto
  have "chain (n(q := m)) (p(m := q)) (ys' @ [q]) = chain n p (ys' @ [q])"
    by (rule chain_cong) (use di' mys in \<open>auto simp: tl\<close>)
  moreover have "chain (n(q := m)) (p(m := q)) (m # zs') = chain n p (m # zs')"
    by (rule chain_cong, unfold bl) (use di' hz(1) in auto)
  moreover have "h # ys @ zs @ [h] = ys' @ q # m # zs'" by (metis y z append_Cons append.assoc append_Nil)
  ultimately show "chain (n(p b := n b)) (p(n b := p b)) (h # ys @ zs @ [h])"
    using c chain_append [of "n(q := m)" "p(m := q)" ys' q "m # zs'"] by simp
qed

lemma chain_link_front:
  assumes ch: "chain n p (h # xs @ [h])" and di: "distinct (h # xs)" and b: "b \<notin> set (h # xs)"
  shows "chain (n(b := n h, h := b)) (p(b := h, n h := b)) (h # b # xs @ [h])" "n h \<in> set (xs @ [h])"
proof -
  obtain m zs where z: "xs @ [h] = m # zs" by (metis append_is_Nil_conv list.exhaust list.distinct(1))
  then have c: "n h = m" "chain n p (m # zs)" using ch by simp_all
  show m: "n h \<in> set (xs @ [h])" by (simp add: z c)
  have "b \<noteq> n h" using m b by auto
  have "distinct (m # zs)" "set (m # zs) = insert h (set xs)" "butlast (m # zs) = xs"
    using di by (simp_all flip: z)
  then have "chain (n(b := m, h := b)) (p(b := h, m := b)) (m # zs) = chain n p (m # zs)"
    using di b by (intro chain_cong) auto
  then show "chain (n(b := n h, h := b)) (p(b := h, n h := b)) (h # b # xs @ [h])"
    using c b z \<open>b \<noteq> n h\<close> by auto
qed

lemma walk_chain:
  "chain n p (xs @ [head]) \<Longrightarrow> head \<notin> set xs \<Longrightarrow> length xs < fuel \<Longrightarrow>
   walk n P fuel (hd (xs @ [head])) = Some (find P xs)"
proof (induction xs arbitrary: fuel)
  case Nil
  then show ?case by (cases fuel) auto
next
  case (Cons x xs)
  obtain k where k: "fuel = Suc k" using Cons.prems(3) by (cases fuel) auto
  have "n x = hd (xs @ [head])" "chain n p (xs @ [head])"
    using Cons.prems(1) by (cases xs; simp)+
  with Cons.IH [of k] Cons.prems(2,3) show ?case by (simp add: k)
qed

section \<open>The list of buffers in order of use\<close>

definition lru :: "bcache \<Rightarrow> nat list \<Rightarrow> bool" where
  "lru c xs \<longleftrightarrow> length (bufs c) = Suc NBUF \<and> distinct xs \<and> set xs \<subseteq> {..<NBUF}
     \<and> chain (nx c) (pv c) (head # xs @ [head])"

lemma lru_head: "lru c xs \<Longrightarrow> head \<notin> set xs"
  by (auto simp: lru_def)

lemma upd_links [simp]:
  "(\<And>x. next (f x) = next x) \<Longrightarrow> nx (upd b f c) = nx c"
  "(\<And>x. prev (f x) = prev x) \<Longrightarrow> pv (upd b f c) = pv c"
  by (auto simp: nx_def pv_def upd_def nth_modify_any fun_eq_iff)

lemma upd_next [simp]:
  "b < length (bufs c) \<Longrightarrow> nx (upd b (\<lambda>x. x\<lparr>next := v\<rparr>) c) = (nx c)(b := v)"
  "b < length (bufs c) \<Longrightarrow> pv (upd b (\<lambda>x. x\<lparr>prev := v\<rparr>) c) = (pv c)(b := v)"
  by (auto simp: nx_def pv_def upd_def nth_modify_any fun_eq_iff)

lemma length_upd [simp]: "length (bufs (upd b f c)) = length (bufs c)"
  by (simp add: upd_def)

lemma lru_link_front:
  assumes "lru c xs" "b < NBUF" "b \<notin> set xs"
  shows "lru (link_front b c) (b # xs)"
proof -
  have l: "length (bufs c) = Suc NBUF" and ch: "chain (nx c) (pv c) (head # xs @ [head])"
    and di: "distinct (head # xs)" using assms(1) lru_head by (auto simp: lru_def)
  have b: "b \<notin> set (head # xs)" using assms(2,3) by auto
  note c = chain_link_front [OF ch di b]
  have n: "nx c head < Suc NBUF" using c(2) assms(1) by (auto simp: lru_def)
  have "nx (link_front b c) = (nx c)(b := nx c head, head := b)"
    "pv (link_front b c) = (pv c)(b := head, nx c head := b)"
    using l n assms(2) by (simp_all add: link_front_def Let_def)
  with c(1) assms l show ?thesis by (simp add: lru_def) (simp add: link_front_def Let_def)
qed

lemma lru_unlink:
  assumes "lru c xs" "b \<in> set xs"
  shows "lru (unlink b c) (remove1 b xs)"
proof -
  from assms(2) obtain ys zs where xs: "xs = ys @ b # zs" "b \<notin> set ys" by (metis split_list_first)
  have r: "remove1 b xs = ys @ zs" using xs by (simp add: remove1_append)
  have l: "length (bufs c) = Suc NBUF" and ch: "chain (nx c) (pv c) (head # ys @ b # zs @ [head])"
    and di: "distinct (head # ys @ b # zs)" using assms(1) lru_head [OF assms(1)] by (auto simp: lru_def xs)
  note c = chain_unlink [OF ch di]
  have n: "nx c b < Suc NBUF" "pv c b < Suc NBUF" using c(4,5) assms(1) by (auto simp: lru_def xs)
  have "nx (unlink b c) = (nx c)(pv c b := nx c b)" "pv (unlink b c) = (pv c)(nx c b := pv c b)"
    using l n c(2,3) by (simp_all add: unlink_def Let_def)
  moreover have "length (bufs (unlink b c)) = Suc NBUF" using l by (simp add: unlink_def Let_def)
  ultimately show ?thesis using c(1) assms(1) di by (auto simp: lru_def r [unfolded xs(1)] xs)
qed

section \<open>Invariant\<close>

definition key :: "bcache \<Rightarrow> nat \<Rightarrow> uint32 \<times> uint32" where
  "key c b = (dev (bufs c ! b), blockno (bufs c ! b))"

definition core :: "buf \<Rightarrow> bool \<times> (uint32 \<times> uint32) \<times> uint32 \<times> int option \<times> block" where
  "core x = (valid x, (dev x, blockno x), refcnt x, owner x, data x)"

text \<open>Buffers that were never used all carry device 0 and block 0.\<close>

definition keys_ok :: "bcache \<Rightarrow> bool" where
  "keys_ok c \<longleftrightarrow> (\<forall>i < NBUF. \<forall>j < NBUF. i \<noteq> j \<longrightarrow> key c i = key c j \<longrightarrow> key c i = (0, 0))"

definition cache_ok :: "bcache \<Rightarrow> bool" where
  "cache_ok c \<longleftrightarrow> (\<exists>xs. lru c xs \<and> set xs = {..<NBUF}) \<and> keys_ok c"

lemma core_upd: "(\<And>x. core (f x) = core x) \<Longrightarrow> core (bufs (upd b f c) ! i) = core (bufs c ! i)"
  by (simp add: upd_def nth_modify_any)

lemma core_link_fields [simp]: "core (x\<lparr>next := v\<rparr>) = core x" "core (x\<lparr>prev := v\<rparr>) = core x"
  by (simp_all add: core_def)

lemma core_links [simp]:
  "core (bufs (link_front b c) ! i) = core (bufs c ! i)" "core (bufs (unlink b c) ! i) = core (bufs c ! i)"
  by (simp_all add: link_front_def unlink_def Let_def core_upd)

lemma bdisk_ops [simp]: "bdisk (upd b f c) = bdisk c" "bdisk (link_front b c) = bdisk c" "bdisk (unlink b c) = bdisk c"
  by (simp_all add: upd_def link_front_def unlink_def Let_def)

lemma key_core: "key c i = fst (snd (core (bufs c ! i)))"
  by (simp add: key_def core_def)

lemma key_links [simp]: "key (link_front b c) i = key c i" "key (unlink b c) i = key c i"
  by (simp_all add: key_core)

lemma key_upd: "(\<And>x. dev (f x) = dev x \<and> blockno (f x) = blockno x) \<Longrightarrow> key (upd b f c) = key c"
  by (auto simp: key_def upd_def nth_modify_any fun_eq_iff)

lemma lru_upd:
  assumes "\<And>x. next (f x) = next x" "\<And>x. prev (f x) = prev x"
  shows "lru (upd b f c) xs = lru c xs"
  by (simp add: lru_def assms)

lemma lru_move_front:
  assumes "lru c xs" "b \<in> set xs"
  shows "lru (link_front b (unlink b c)) (b # remove1 b xs)"
proof (rule lru_link_front [OF lru_unlink [OF assms]])
  show "b < NBUF" "b \<notin> set (remove1 b xs)" using assms by (auto simp: lru_def)
qed

lemma cache_ok_upd:
  assumes "cache_ok c" "\<And>x. next (f x) = next x" "\<And>x. prev (f x) = prev x"
    "\<And>x. dev (f x) = dev x \<and> blockno (f x) = blockno x"
  shows "cache_ok (upd b f c)"
  using assms(1) lru_upd [of f, OF assms(2,3)] key_upd [of f, OF assms(4)] by (simp add: cache_ok_def keys_ok_def)

section \<open>Looking up a block\<close>

lemma walk_lru:
  assumes "lru c xs" "set xs = {..<NBUF}"
  shows "walk (nx c) P (Suc NBUF) (nx c head) = Some (find P xs)"
    "walk (pv c) P (Suc NBUF) (pv c head) = Some (find P (rev xs))"
proof -
  have ch: "chain (nx c) (pv c) (head # xs @ [head])" and d: "distinct xs" using assms(1) by (auto simp: lru_def)
  have len: "length xs < Suc NBUF" using distinct_card [OF d] assms(2) by simp
  have h: "head \<notin> set xs" by (rule lru_head [OF assms(1)])
  have "nx c head = hd (xs @ [head])" "chain (nx c) (pv c) (xs @ [head])" using ch by (cases xs; simp)+
  with walk_chain [of "nx c" "pv c" xs "Suc NBUF" P] h len
  show "walk (nx c) P (Suc NBUF) (nx c head) = Some (find P xs)" by simp
  have "chain (pv c) (nx c) (head # rev xs @ [head])"
    using ch chain_rev [of "pv c" "nx c" "head # xs @ [head]"] by simp
  then have "pv c head = hd (rev xs @ [head])" "chain (pv c) (nx c) (rev xs @ [head])" by (cases "rev xs"; simp)+
  with walk_chain [of "pv c" "nx c" "rev xs" "Suc NBUF" P] h len
  show "walk (pv c) P (Suc NBUF) (pv c head) = Some (find P (rev xs))" by simp
qed

lemma find_last_filter: "find P (rev xs) = (if filter P xs = [] then None else Some (last (filter P xs)))"
proof -
  have "find P ys = (if filter P ys = [] then None else Some (hd (filter P ys)))" for ys by (induction ys) auto
  from this [of "rev xs"] show ?thesis by (simp add: rev_filter [symmetric] hd_rev)
qed

lemma bget_spec:
  assumes "lru c xs" "set xs = {..<NBUF}"
  shows "bget d n c =
    (case find (holds_block d n c) xs of
       Some b \<Rightarrow> Inr (b, upd b (\<lambda>x. x\<lparr>refcnt := refcnt x + 1\<rparr>) c)
     | None \<Rightarrow>
         (let free = filter (\<lambda>b. refcnt (bufs c ! b) = 0) xs in
          if free = [] then Inl (BioPanic ''bget: no buffers'')
          else Inr (last free, upd (last free) (\<lambda>x. x\<lparr>dev := d, blockno := n, valid := False, refcnt := 1\<rparr>) c)))"
  unfolding bget_def walk_lru [OF assms] find_last_filter by (simp add: Let_def split: option.split)

lemma find_SomeD: "find P xs = Some x \<Longrightarrow> x \<in> set xs \<and> P x"
  by (induction xs) (auto split: if_splits)

lemma find_None: "find P xs = None \<longleftrightarrow> (\<forall>x \<in> set xs. \<not> P x)"
  by (induction xs) auto

lemma bget_cases:
  assumes "cache_ok c" "bget d n c = Inr (b, c')"
  obtains (hit) "b < NBUF" "key c b = (d, n)" "c' = upd b (\<lambda>x. x\<lparr>refcnt := refcnt x + 1\<rparr>) c"
    | (miss) "\<forall>i < NBUF. key c i \<noteq> (d, n)" "b < NBUF" "refcnt (bufs c ! b) = 0"
        "c' = upd b (\<lambda>x. x\<lparr>dev := d, blockno := n, valid := False, refcnt := 1\<rparr>) c"
proof -
  obtain xs where xs: "lru c xs" "set xs = {..<NBUF}" using assms(1) by (auto simp: cache_ok_def)
  show thesis
  proof (cases "find (holds_block d n c) xs")
    case None
    let ?f = "filter (\<lambda>b. refcnt (bufs c ! b) = 0) xs"
    have f: "?f \<noteq> []" "b = last ?f" "c' = upd b (\<lambda>x. x\<lparr>dev := d, blockno := n, valid := False, refcnt := 1\<rparr>) c"
      using assms(2) None by (auto simp: bget_spec [OF xs] Let_def split: if_splits)
    then have "b \<in> set ?f" using last_in_set by metis
    with f None xs(2) miss show thesis by (simp add: find_None holds_block_def key_def lessThan_def)
  next
    case (Some i)
    with assms(2) find_SomeD [OF Some] xs(2) hit show thesis
      by (auto simp: bget_spec [OF xs] holds_block_def key_def)
  qed
qed

lemma bget_ok:
  assumes "cache_ok c" "bget d n c = Inr (b, c')"
  shows "cache_ok c'" "b < NBUF" "key c' b = (d, n)" "bdisk c' = bdisk c"
    "\<forall>i < NBUF. i \<noteq> b \<longrightarrow> bufs c' ! i = bufs c ! i"
proof -
  obtain xs where xs: "lru c xs" "set xs = {..<NBUF}" using assms(1) by (auto simp: cache_ok_def)
  have len: "length (bufs c) = Suc NBUF" using xs(1) by (simp add: lru_def)
  from assms have "cache_ok c' \<and> b < NBUF \<and> key c' b = (d, n) \<and> bdisk c' = bdisk c
    \<and> (\<forall>i < NBUF. i \<noteq> b \<longrightarrow> bufs c' ! i = bufs c ! i)"
  proof (cases rule: bget_cases)
    case hit
    have "cache_ok c'" unfolding hit(3) by (rule cache_ok_upd [OF assms(1)]) simp_all
    moreover have "key c' = key c" unfolding hit(3) by (rule key_upd) simp
    ultimately show ?thesis using hit by (auto simp: upd_def nth_modify_any)
  next
    case miss
    note b = miss(2)
    have k: "key c' i = (if i = b then (d, n) else key c i)" for i
      using b len by (auto simp: miss(4) key_def upd_def nth_modify_any)
    have "lru c' xs" unfolding miss(4) using xs(1) by (simp add: lru_upd)
    moreover have "keys_ok c'"
      using assms(1) miss(1) by (auto simp: cache_ok_def keys_ok_def k)
    ultimately show ?thesis using b k xs(2) by (auto simp: cache_ok_def miss(4) upd_def nth_modify_any)
  qed
  then show "cache_ok c'" "b < NBUF" "key c' b = (d, n)" "bdisk c' = bdisk c"
    "\<forall>i < NBUF. i \<noteq> b \<longrightarrow> bufs c' ! i = bufs c ! i" by blast+
qed

section \<open>Use of the cache\<close>

text \<open>
  What processes do with the cache, in any interleaving.  \<open>b_modify\<close> is a
  client that holds the buffer and assigns to its data.
\<close>

inductive bio_step :: "bcache \<Rightarrow> bcache \<Rightarrow> bool" where
  b_get: "bget d n c = Inr (b, c') \<Longrightarrow> bio_step c c'"
| b_lock: "b < NBUF \<Longrightarrow> lock_buf p b c = Some c' \<Longrightarrow> bio_step c c'"
| b_fill: "b < NBUF \<Longrightarrow> owner (bufs c ! b) = Some p \<Longrightarrow> bio_step c (bread_fill b c)"
| b_modify: "b < NBUF \<Longrightarrow> owner (bufs c ! b) = Some p \<Longrightarrow> bio_step c (upd b (\<lambda>x. x\<lparr>data := v\<rparr>) c)"
| b_write: "b < NBUF \<Longrightarrow> bwrite p b c = Inr c' \<Longrightarrow> bio_step c c'"
| b_relse: "b < NBUF \<Longrightarrow> brelse p b c = Inr c' \<Longrightarrow> bio_step c c'"
| b_pin: "b < NBUF \<Longrightarrow> bio_step c (bpin b c)"
| b_unpin: "b < NBUF \<Longrightarrow> bio_step c (bunpin b c)"

inductive bio_reachable :: "bcache \<Rightarrow> bool" where
  br_init: "bio_reachable (binit d)"
| br_step: "bio_reachable c \<Longrightarrow> bio_step c c' \<Longrightarrow> bio_reachable c'"

lemma brelse_lru:
  assumes "lru c xs" "b \<in> set xs" "brelse p b c = Inr c'"
  shows "lru c' (if refcnt (bufs c ! b) = 1 then b # remove1 b xs else xs)" "key c' = key c"
proof -
  let ?c2 = "upd b (\<lambda>x. x\<lparr>refcnt := refcnt x - 1\<rparr>) (upd b (\<lambda>x. x\<lparr>owner := None\<rparr>) c)"
  have "b < length (bufs c)" using assms(1,2) by (auto simp: lru_def)
  then have r: "refcnt (bufs ?c2 ! b) = 0 \<longleftrightarrow> refcnt (bufs c ! b) = 1" by (simp add: upd_def)
  have c': "c' = (if refcnt (bufs c ! b) = 1 then link_front b (unlink b ?c2) else ?c2)"
    using assms(3) r by (simp add: brelse_def Let_def split: if_splits)
  have l2: "lru ?c2 xs" using assms(1) by (simp add: lru_upd)
  then show "lru c' (if refcnt (bufs c ! b) = 1 then b # remove1 b xs else xs)"
    unfolding c' using lru_move_front [OF l2 assms(2)] by simp
  have "key ?c2 = key c" by (simp add: key_upd)
  then show "key c' = key c" unfolding c' by (auto simp: fun_eq_iff)
qed

lemma bio_step_ok: "bio_step c c' \<Longrightarrow> cache_ok c \<Longrightarrow> cache_ok c'"
proof (induction rule: bio_step.induct)
  case (b_get d n c b c')
  then show ?case by (simp add: bget_ok)
next
  case (b_lock b p c c')
  then show ?case by (auto simp: lock_buf_def intro: cache_ok_upd split: if_splits)
next
  case (b_fill b c p)
  then show ?case by (auto simp: bread_fill_def intro: cache_ok_upd)
next
  case (b_modify b c p v)
  then show ?case by (auto intro: cache_ok_upd)
next
  case (b_write b p c c')
  then have "c' = c\<lparr>bdisk := bdisk c'\<rparr>" by (auto simp: bwrite_def split: if_splits)
  then have "nx c' = nx c" "pv c' = pv c" "key c' = key c" "bufs c' = bufs c"
    by (auto simp: nx_def pv_def key_def fun_eq_iff) (metis bcache.select_convs(1) bcache.surjective bcache.update_convs(2))+
  with b_write(3) show ?case by (simp add: cache_ok_def keys_ok_def lru_def)
next
  case (b_relse b p c c')
  from b_relse(3) obtain xs where xs: "lru c xs" "set xs = {..<NBUF}" by (auto simp: cache_ok_def)
  then have "b \<in> set xs" using b_relse(1) by simp
  note r = brelse_lru [OF xs(1) this b_relse(2)]
  have "set (b # remove1 b xs) = set xs" using \<open>b \<in> set xs\<close> xs(1) by (auto simp: lru_def)
  with r xs(2) b_relse(3) show ?case by (auto simp: cache_ok_def keys_ok_def split: if_splits)
next
  case (b_pin b c)
  then show ?case by (auto simp: bpin_def intro: cache_ok_upd)
next
  case (b_unpin b c)
  then show ?case by (auto simp: bunpin_def intro: cache_ok_upd)
qed

lemma binit_links:
  assumes "k \<le> NBUF" "c = upd head (\<lambda>x. x\<lparr>next := head\<rparr>) (upd head (\<lambda>x. x\<lparr>prev := head\<rparr>)
         \<lparr>bufs = replicate (Suc NBUF) zero_buf, bdisk = d\<rparr>)"
  shows "lru (fold link_front [0..<k] c) (rev [0..<k]) \<and> (\<forall>i. key (fold link_front [0..<k] c) i = key c i)"
  using assms(1)
proof (induction k)
  case 0
  have "nx c head = head" "pv c head = head" by (simp_all add: assms(2))
  then show ?case by (simp add: lru_def assms(2))
next
  case (Suc k)
  then show ?case using lru_link_front [of "fold link_front [0..<k] c" "rev [0..<k]" k] by simp
qed

lemma binit_ok: "cache_ok (binit d)"
proof -
  let ?c = "upd head (\<lambda>x. x\<lparr>next := head\<rparr>) (upd head (\<lambda>x. x\<lparr>prev := head\<rparr>)
         \<lparr>bufs = replicate (Suc NBUF) zero_buf, bdisk = d\<rparr>)"
  have k: "key ?c i = (0, 0)" if "i < NBUF" for i
    using that by (simp add: key_def upd_def zero_buf_def nth_modify_any nth_Cons' split: nat.split)
  note b = binit_links [OF order_refl, of ?c d, OF refl]
  have "lru (binit d) (rev [0..<NBUF])" "key (binit d) i = key ?c i" for i
    using b unfolding binit_def by blast+
  moreover have "set (rev [0..<NBUF]) = {..<NBUF}" by auto
  ultimately show ?thesis unfolding cache_ok_def keys_ok_def using k by metis
qed

lemma bio_reachable_ok: "bio_reachable c \<Longrightarrow> cache_ok c"
  by (induction rule: bio_reachable.induct) (simp_all add: binit_ok bio_step_ok)

text \<open>
  in every reachable state the links form one circular list through all
  buffers, and no block is cached twice: two buffers never carry the same device
  and block number, apart from the mark of unused buffers.
\<close>

theorem block_cached_once:
  assumes "bio_reachable c"
  shows "(\<exists>xs. distinct xs \<and> set xs = {..<NBUF} \<and> chain (nx c) (pv c) (head # xs @ [head]))
    \<and> (\<forall>i < NBUF. \<forall>j < NBUF. key c i = key c j \<and> key c i \<noteq> (0, 0) \<longrightarrow> i = j)"
  using bio_reachable_ok [OF assms] unfolding cache_ok_def keys_ok_def lru_def by blast

theorem block_cached_once_witness:
  "bio_reachable (binit (\<lambda>k. [])) \<and> (\<exists>xs. distinct xs \<and> set xs = {..<NBUF}
     \<and> chain (nx (binit (\<lambda>k. []))) (pv (binit (\<lambda>k. []))) (head # xs @ [head]))"
  using block_cached_once [OF br_init] br_init by blast

text \<open>
  C28: replacement is least recently used.  There is a list of all buffers in
  order of use, most recent first, such that a hit returns the buffer of the
  block with one more reference, a miss recycles the last unreferenced buffer
  of the list, and \<open>bget\<close> panics only if every buffer is referenced.  A
  buffer whose last reference is released moves to the front; nothing else
  changes the order, and the loops always end.
\<close>

theorem lru_replacement:
  assumes "bio_reachable c"
  shows "\<exists>xs. lru c xs \<and> set xs = {..<NBUF}
    \<and> bget d n c =
      (case find (holds_block d n c) xs of
         Some b \<Rightarrow> Inr (b, upd b (\<lambda>x. x\<lparr>refcnt := refcnt x + 1\<rparr>) c)
       | None \<Rightarrow>
           (let free = filter (\<lambda>b. refcnt (bufs c ! b) = 0) xs in
            if free = [] then Inl (BioPanic ''bget: no buffers'')
            else Inr (last free, upd (last free) (\<lambda>x. x\<lparr>dev := d, blockno := n, valid := False, refcnt := 1\<rparr>) c)))
    \<and> (\<forall>p b c'. b < NBUF \<longrightarrow> brelse p b c = Inr c' \<longrightarrow>
         lru c' (if refcnt (bufs c ! b) = 1 then b # remove1 b xs else xs))"
proof -
  obtain xs where xs: "lru c xs" "set xs = {..<NBUF}"
    using bio_reachable_ok [OF assms] by (auto simp: cache_ok_def)
  have "lru c' (if refcnt (bufs c ! b) = 1 then b # remove1 b xs else xs)"
    if "b < NBUF" "brelse p b c = Inr c'" for p b c'
    by (rule brelse_lru(1) [OF xs(1) _ that(2)]) (use that(1) xs(2) in simp)
  then show ?thesis using xs bget_spec [OF xs] by blast
qed

theorem lru_replacement_witness:
  "bio_reachable (binit (\<lambda>k. [])) \<and> (\<exists>xs. lru (binit (\<lambda>k. [])) xs \<and> set xs = {..<NBUF})"
  using lru_replacement [OF br_init] br_init by blast

section \<open>What a reader sees\<close>

definition view :: "bcache \<Rightarrow> uint32 \<times> uint32 \<Rightarrow> block" where
  "view c k = (case find (\<lambda>i. key c i = k \<and> valid (bufs c ! i)) [0..<NBUF] of
     Some i \<Rightarrow> data (bufs c ! i) | None \<Rightarrow> bdisk c k)"

text \<open>Unreferenced buffers agree with the disk.\<close>

definition clean :: "bcache \<Rightarrow> bool" where
  "clean c \<longleftrightarrow> (\<forall>i < NBUF. refcnt (bufs c ! i) = 0 \<longrightarrow> valid (bufs c ! i) \<longrightarrow> data (bufs c ! i) = bdisk c (key c i))"

lemma view_eq:
  assumes "\<And>i. i < NBUF \<Longrightarrow> key c i = k \<Longrightarrow> valid (bufs c ! i) \<Longrightarrow> data (bufs c ! i) = v"
    "\<forall>i < NBUF. \<not> (key c i = k \<and> valid (bufs c ! i)) \<Longrightarrow> bdisk c k = v"
  shows "view c k = v"
proof (cases "find (\<lambda>i. key c i = k \<and> valid (bufs c ! i)) [0..<NBUF]")
  case None
  then have "bdisk c k = v" by (intro assms(2)) (auto simp: find_None)
  with None show ?thesis by (simp add: view_def)
next
  case (Some i)
  with find_SomeD [OF Some] assms(1) show ?thesis by (simp add: view_def)
qed

lemma view_hit:
  assumes "cache_ok c" "i < NBUF" "key c i = k" "k \<noteq> (0, 0)" "valid (bufs c ! i)"
  shows "view c k = data (bufs c ! i)"
  by (rule view_eq) (use assms in \<open>auto simp: cache_ok_def keys_ok_def\<close>)

lemma view_miss: "\<forall>i < NBUF. key c i = k \<longrightarrow> \<not> valid (bufs c ! i) \<Longrightarrow> view c k = bdisk c k"
  by (rule view_eq) auto

text \<open>
  \<open>bread\<close> returns a locked, valid buffer with the contents of the block: the
  cached data if the block is cached, the disk block otherwise.  As long as
  unreferenced buffers agree with the disk, recycling one changes the contents
  that later readers see of no block.
\<close>

theorem bread_returns_current_contents:
  assumes "bio_reachable c" "clean c" "(d, n) \<noteq> (0, 0)" "bread p d n c = Inr (Some (b, c'))"
  shows "b < NBUF \<and> key c' b = (d, n) \<and> owner (bufs c' ! b) = Some p \<and> valid (bufs c' ! b)
    \<and> data (bufs c' ! b) = view c (d, n) \<and> (\<forall>k. k \<noteq> (0, 0) \<longrightarrow> view c' k = view c k)"
proof -
  have ok: "cache_ok c" by (rule bio_reachable_ok [OF assms(1)])
  from assms(4) obtain c1 c2 where g: "bget d n c = Inr (b, c1)" and l: "lock_buf p b c1 = Some c2"
    and f: "c' = bread_fill b c2" by (auto simp: bread_def split: sum.splits)
  note gk = bget_ok [OF ok g]
  have len: "length (bufs c1) = Suc NBUF" using gk(1) by (auto simp: cache_ok_def lru_def)
  have c2: "c2 = upd b (\<lambda>x. x\<lparr>owner := Some p\<rparr>) c1" using l by (simp add: lock_buf_def split: if_splits)
  have oth: "bufs c' ! i = bufs c ! i" if "i < NBUF" "i \<noteq> b" for i
    using gk(5) that by (auto simp: f bread_fill_def c2 upd_def nth_modify_any)
  have key': "key c' i = key c1 i" for i by (simp add: f bread_fill_def c2 key_def upd_def nth_modify_any)
  have disk: "bdisk c' = bdisk c" using gk(4) by (simp add: f bread_fill_def c2)
  have here: "owner (bufs c' ! b) = Some p" "valid (bufs c' ! b)"
    "data (bufs c' ! b) = (if valid (bufs c1 ! b) then data (bufs c1 ! b) else bdisk c (d, n))"
    using gk(2-4) len by (auto simp: f bread_fill_def c2 upd_def key_def)
  have ok': "cache_ok c'"
    using gk(1) by (auto simp: f bread_fill_def c2 intro!: cache_ok_upd)
  have kb: "key c' b = (d, n)" using gk(3) key' by simp
  have ok_key: "key c i = key c' i" if "i < NBUF" "i \<noteq> b" for i using oth [OF that] by (simp add: key_def)
  from ok g have main: "data (bufs c' ! b) = view c (d, n)
      \<and> (\<forall>k. k \<noteq> (0, 0) \<longrightarrow> k \<noteq> (d, n) \<longrightarrow> view c' k = view c k)"
  proof (cases rule: bget_cases)
    case hit
    have vb: "valid (bufs c1 ! b) = valid (bufs c ! b)" "data (bufs c1 ! b) = data (bufs c ! b)"
      using hit(1) len by (simp_all add: hit(3) upd_def nth_modify_any)
    have "data (bufs c' ! b) = view c (d, n)"
    proof (cases "valid (bufs c ! b)")
      case True
      with view_hit [OF ok hit(1,2) assms(3)] here(3) vb show ?thesis by simp
    next
      case False
      have "view c (d, n) = bdisk c (d, n)"
        using ok hit(1,2) assms(3) False unfolding cache_ok_def keys_ok_def by (intro view_miss) metis
      with False here(3) vb show ?thesis by simp
    qed
    moreover have "view c' k = view c k" if "k \<noteq> (d, n)" for k
    proof -
      have "(key c' i = k \<and> valid (bufs c' ! i)) = (key c i = k \<and> valid (bufs c ! i))" if "i < NBUF" for i
        using oth [OF that] ok_key [OF that] kb hit(2) \<open>k \<noteq> (d, n)\<close> by (cases "i = b") auto
      then have "find (\<lambda>i. key c' i = k \<and> valid (bufs c' ! i)) [0..<NBUF] = find (\<lambda>i. key c i = k \<and> valid (bufs c ! i)) [0..<NBUF]"
        by (intro find_cong) auto
      moreover have "data (bufs c' ! i) = data (bufs c ! i)"
        if "find (\<lambda>i. key c i = k \<and> valid (bufs c ! i)) [0..<NBUF] = Some i" for i
      proof -
        from find_SomeD [OF that] have "i < NBUF" "i \<noteq> b" using hit(2) \<open>k \<noteq> (d, n)\<close> by auto
        then show ?thesis by (simp add: oth)
      qed
      ultimately show ?thesis using disk by (simp add: view_def split: option.split)
    qed
    ultimately show ?thesis by blast
  next
    case miss
    have "\<not> valid (bufs c1 ! b)" using miss(2) len by (simp add: miss(4) upd_def)
    moreover have "view c (d, n) = bdisk c (d, n)" by (rule view_miss) (use miss(1) in blast)
    moreover have "view c' k = view c k" if k: "k \<noteq> (0, 0)" "k \<noteq> (d, n)" for k
    proof (rule view_eq)
      fix i assume i: "i < NBUF" "key c' i = k" "valid (bufs c' ! i)"
      then have "i \<noteq> b" using kb k(2) by auto
      with i view_hit [OF ok i(1), of k] k(1) oth ok_key show "data (bufs c' ! i) = view c k" by simp
    next
      assume none: "\<forall>i < NBUF. \<not> (key c' i = k \<and> valid (bufs c' ! i))"
      have "view c k = bdisk c k"
      proof (rule view_eq)
        fix i assume i: "i < NBUF" "key c i = k" "valid (bufs c ! i)"
        then have "i = b" using none oth ok_key by metis
        with i assms(2) miss(3) show "data (bufs c ! i) = bdisk c k" by (auto simp: clean_def)
      qed simp
      then show "bdisk c' k = view c k" using disk by simp
    qed
    ultimately show ?thesis using here(3) by simp
  qed
  moreover have "view c' (d, n) = data (bufs c' ! b)" by (rule view_hit [OF ok' gk(2) kb assms(3) here(2)])
  ultimately show ?thesis using gk(2) kb here by metis
qed

theorem bread_returns_current_contents_witness:
  "bio_reachable (binit (\<lambda>k. [])) \<and> clean (binit (\<lambda>k. [])) \<and> (1 :: uint32, 7 :: uint32) \<noteq> (0, 0)
   \<and> (\<exists>b c'. bread 5 1 7 (binit (\<lambda>k. [])) = Inr (Some (b, c')) \<and> data (bufs c' ! b) = view (binit (\<lambda>k. [])) (1, 7))"
proof -
  let ?c = "binit (\<lambda>k. []) :: bcache"
  have core0: "core (bufs ?c ! i) = core zero_buf" if "i < NBUF" for i
  proof -
    have "core (bufs (fold link_front ks c) ! i) = core (bufs c ! i)" for ks c
      by (induction ks arbitrary: c) simp_all
    then have "core (bufs ?c ! i) = core (replicate (Suc NBUF) zero_buf ! i)"
      unfolding binit_def by (simp only: core_upd core_link_fields bcache.select_convs)
    then show ?thesis using that by (simp only: nth_replicate less_SucI)
  qed
  then have z: "refcnt (bufs ?c ! i) = 0" "\<not> valid (bufs ?c ! i)" "key ?c i = (0, 0)" "owner (bufs ?c ! i) = None" if "i < NBUF" for i
    using core0 [OF that] by (simp_all add: core_def zero_buf_def key_def)
  have clean: "clean ?c" using z by (auto simp: clean_def)
  obtain xs where xs: "lru ?c xs" "set xs = {..<NBUF}" using binit_ok by (auto simp: cache_ok_def)
  then have "find (holds_block 1 7 ?c) xs = None" using z(3) by (auto simp: find_None holds_block_def key_def)
  moreover have f: "filter (\<lambda>b. refcnt (bufs ?c ! b) = 0) xs = xs" using z(1) xs(2) by (auto simp: filter_id_conv)
  moreover have "0 \<in> set xs" by (simp add: xs(2) NBUF_def)
  then have "xs \<noteq> []" by (cases xs) simp_all
  ultimately have g: "bget 1 7 ?c = Inr (last xs, upd (last xs) (\<lambda>x. x\<lparr>dev := 1, blockno := 7, valid := False, refcnt := 1\<rparr>) ?c)"
    by (simp add: bget_spec [OF xs])
  have "last xs < NBUF" using \<open>xs \<noteq> []\<close> xs(2) last_in_set by blast
  then have "\<exists>c'. bread 5 1 7 ?c = Inr (Some (last xs, c'))"
    using z(4) by (simp add: bread_def g lock_buf_def upd_def nth_modify_any)
  then obtain c' where b: "bread 5 1 7 ?c = Inr (Some (last xs, c'))" by blast
  have "(1 :: uint32, 7 :: uint32) \<noteq> (0, 0)" by simp
  from bread_returns_current_contents [OF br_init clean this b] b clean br_init show ?thesis by auto
qed

end
