(* ===== verification/Allocator.thy ===== *)
theory Allocator
  imports Prelude
begin

text \<open>
  What the two allocators of the kernel promise, the page allocator of \<open>kalloc.c\<close>
  and the block allocator of \<open>fs.c\<close>: an object that is handed out was not in use,
  and an object that is in use can be given back.  A client that gives back only
  what it got never gets the same object twice and never meets a panic.
\<close>

datatype 'a request = Get | Give 'a

locale allocator =
  fixes ok :: "'s \<Rightarrow> bool"
    and taken :: "'s \<Rightarrow> 'a set"
    and alloc :: "'s \<Rightarrow> ('a \<times> 's) option"
    and free :: "'a \<Rightarrow> 's \<Rightarrow> 'e + 's"
  assumes alloc_some: "ok s \<Longrightarrow> alloc s = Some (x, s') \<Longrightarrow> ok s' \<and> x \<notin> taken s \<and> taken s' = insert x (taken s)"
    and free_taken: "ok s \<Longrightarrow> x \<in> taken s \<Longrightarrow> \<exists>s'. free x s = Inr s' \<and> ok s' \<and> taken s' = taken s - {x}"
begin

text \<open>
  The requests of a client that holds the objects \<open>own\<close>; requests to give back
  something else are not made.
\<close>

fun serve :: "'a request list \<Rightarrow> 'a list \<Rightarrow> 's \<Rightarrow> 'e + 'a list \<times> 's" where
  "serve [] own s = Inr (own, s)"
| "serve (Get # rs) own s =
     (case alloc s of None \<Rightarrow> serve rs own s | Some (x, s') \<Rightarrow> serve rs (x # own) s')"
| "serve (Give x # rs) own s =
     (if x \<in> set own then bindR (free x s) (serve rs (remove1 x own)) else serve rs own s)"

lemma serve_safe:
  assumes "ok s" "distinct own" "set own \<subseteq> taken s"
  shows "\<exists>own' s'. serve rs own s = Inr (own', s') \<and> ok s' \<and> distinct own' \<and> set own' \<subseteq> taken s'
    \<and> taken s' - set own' = taken s - set own"
  using assms
proof (induction rs own s rule: serve.induct)
  case (2 rs own s)
  show ?case
  proof (cases "alloc s")
    case None
    with 2 show ?thesis by simp
  next
    case (Some a)
    obtain x s' where a: "a = (x, s')" by (cases a)
    have x: "ok s'" "x \<notin> taken s" "taken s' = insert x (taken s)" using alloc_some 2(3) Some a by auto
    have "distinct (x # own)" "set (x # own) \<subseteq> taken s'" using x 2(4,5) by auto
    from 2(2) [OF Some a [symmetric] x(1) this] show ?thesis using Some a x by auto
  qed
next
  case (3 x rs own s)
  show ?case
  proof (cases "x \<in> set own")
    case True
    then obtain s' where f: "free x s = Inr s'" "ok s'" "taken s' = taken s - {x}"
      using free_taken [of s x] 3(3,5) by auto
    have "distinct (remove1 x own)" "set (remove1 x own) \<subseteq> taken s'" using f 3(4,5) by (auto simp: set_remove1_eq)
    from 3(1) [OF True f(2) this] show ?thesis using f True 3(4) by (auto simp: set_remove1_eq)
  next
    case False
    with 3 show ?thesis by simp
  qed
qed auto

end

end
