(* ===== verification/Fs_Block.thy ===== *)
theory Fs_Block
  imports Bytes Allocator
begin

text \<open>
  The state of the file system code and its lowest layer, the allocator of disk
  blocks (\<open>xv6-riscv/kernel/fs.c\<close>: \<open>readsb\<close>, \<open>bzero\<close>, \<open>balloc\<close>, \<open>bfree\<close>).

  \<open>blk\<close> gives for each block number the bytes that \<open>bread\<close> returns, and a block
  that is changed and passed to \<open>log_write\<close> is appended to \<open>logged\<close>.  Theory \<open>Bio\<close>
  shows that \<open>bread\<close> returns the last contents written, theory \<open>Log_Steps\<close> that a
  transaction is atomic.  \<open>struct superblock\<close> and \<open>struct inode\<close> have their C
  fields; block numbers, sizes and offsets are natural numbers, and sums that can
  exceed 32 bits are reduced where the code computes them.
\<close>

section \<open>State\<close>

record superblock =
  sb_magic :: nat
  sb_size :: nat
  sb_nblocks :: nat
  sb_ninodes :: nat
  sb_nlog :: nat
  sb_logstart :: nat
  sb_inodestart :: nat
  sb_bmapstart :: nat

record inode =
  i_dev :: nat
  i_inum :: nat
  i_ref :: int
  i_owner :: "int option"
  i_valid :: bool
  i_type :: uint16
  i_major :: uint16
  i_minor :: uint16
  i_nlink :: uint16
  i_size :: nat
  i_addrs :: "nat list"

record fsys =
  sb :: superblock
  blk :: "nat \<Rightarrow> block"
  logged :: "nat list"
  itable :: "inode list"

text \<open>A call ends the kernel with a panic, or waits for a lock that another process holds.\<close>

datatype fs_error = FsPanic string | FsWaits

definition NINODE :: nat where "NINODE = 50"
definition FSMAGIC :: nat where "FSMAGIC = 0x10203040"
definition BPB :: nat where "BPB = BSIZE * 8"

definition NDIRECT :: nat where "NDIRECT = 12"
definition NINDIRECT :: nat where "NINDIRECT = BSIZE div 4"
definition MAXFILE :: nat where "MAXFILE = NDIRECT + NINDIRECT"
definition IPB :: nat where "IPB = BSIZE div 64"

definition IBLOCK :: "nat \<Rightarrow> fsys \<Rightarrow> nat" where
  "IBLOCK i s = i div IPB + sb_inodestart (sb s)"

definition BBLOCK :: "nat \<Rightarrow> fsys \<Rightarrow> nat" where
  "BBLOCK b s = b div BPB + sb_bmapstart (sb s)"

text \<open>Changing the data of a buffer and handing it to \<open>log_write\<close>.\<close>

definition put_blk :: "nat \<Rightarrow> block \<Rightarrow> fsys \<Rightarrow> fsys" where
  "put_blk b v s = s\<lparr>blk := (blk s)(b := v)\<rparr>"

definition log_blk :: "nat \<Rightarrow> fsys \<Rightarrow> fsys" where
  "log_blk b s = s\<lparr>logged := logged s @ [b]\<rparr>"

lemma put_blk_simps [simp]:
  "sb (put_blk b v s) = sb s" "blk (put_blk b v s) = (blk s)(b := v)"
  "logged (put_blk b v s) = logged s" "itable (put_blk b v s) = itable s"
  by (simp_all add: put_blk_def)

lemma log_blk_simps [simp]:
  "sb (log_blk b s) = sb s" "blk (log_blk b s) = blk s"
  "logged (log_blk b s) = logged s @ [b]" "itable (log_blk b s) = itable s"
  by (simp_all add: log_blk_def)

section \<open>Operations\<close>

definition get_sb :: "block \<Rightarrow> superblock" where
  "get_sb d =
     \<lparr>sb_magic = unat (get32 0 d), sb_size = unat (get32 1 d), sb_nblocks = unat (get32 2 d),
      sb_ninodes = unat (get32 3 d), sb_nlog = unat (get32 4 d), sb_logstart = unat (get32 5 d),
      sb_inodestart = unat (get32 6 d), sb_bmapstart = unat (get32 7 d)\<rparr>"

definition readsb :: "fsys \<Rightarrow> fsys" where
  "readsb s = s\<lparr>sb := get_sb (blk s 1)\<rparr>"

definition bzero :: "nat \<Rightarrow> fsys \<Rightarrow> fsys" where
  "bzero b s = log_blk b (put_blk b (replicate BSIZE 0) s)"

text \<open>\<open>m = 1 << (bi % 8)\<close> and the test, set and clear of the bit in \<open>bp->data[bi / 8]\<close>.\<close>

definition mask :: "nat \<Rightarrow> uint8" where "mask bi = push_bit (bi mod 8) 1"

definition bit_free :: "block \<Rightarrow> nat \<Rightarrow> bool" where
  "bit_free d bi = (d ! (bi div 8) AND mask bi = 0)"

definition bit_on :: "block \<Rightarrow> nat \<Rightarrow> block" where
  "bit_on d bi = d[bi div 8 := d ! (bi div 8) OR mask bi]"

definition bit_off :: "block \<Rightarrow> nat \<Rightarrow> block" where
  "bit_off d bi = d[bi div 8 := d ! (bi div 8) AND NOT (mask bi)]"

text \<open>The inner loop of \<open>balloc\<close> over one bitmap block, and the outer loop.\<close>

function balloc_bits :: "block \<Rightarrow> nat \<Rightarrow> nat \<Rightarrow> nat \<Rightarrow> nat option" where
  "balloc_bits d sz b bi =
     (if bi < BPB \<and> b + bi < sz then
        if bit_free d bi then Some bi else balloc_bits d sz b (bi + 1)
      else None)"
  by pat_completeness auto
termination by (relation "measure (\<lambda>(d, sz, b, bi). BPB - bi)") auto

function balloc_from :: "nat \<Rightarrow> fsys \<Rightarrow> nat \<times> fsys" where
  "balloc_from b s =
     (if b < sb_size (sb s) then
        let d = blk s (BBLOCK b s) in
        case balloc_bits d (sb_size (sb s)) b 0 of
          Some bi \<Rightarrow> (b + bi, bzero (b + bi) (log_blk (BBLOCK b s) (put_blk (BBLOCK b s) (bit_on d bi) s)))
        | None \<Rightarrow> balloc_from (b + BPB) s
      else (0, s))"
  by pat_completeness auto
termination by (relation "measure (\<lambda>(b, s). sb_size (sb s) - b)") (auto simp: BPB_def BSIZE_def)

declare balloc_bits.simps [simp del] balloc_from.simps [simp del]

definition balloc :: "fsys \<Rightarrow> nat \<times> fsys" where
  "balloc s = balloc_from 0 s"

definition bfree :: "nat \<Rightarrow> fsys \<Rightarrow> fs_error + fsys" where
  "bfree b s =
     (let bb = BBLOCK b s; d = blk s bb; bi = b mod BPB in
      if bit_free d bi then Inl (FsPanic ''freeing free block'')
      else Inr (log_blk bb (put_blk bb (bit_off d bi) s)))"

section \<open>The set of blocks in use\<close>

definition used :: "fsys \<Rightarrow> nat \<Rightarrow> bool" where
  "used s b = (\<not> bit_free (blk s (BBLOCK b s)) (b mod BPB))"

definition bitmap_blocks :: "fsys \<Rightarrow> nat set" where
  "bitmap_blocks s = {BBLOCK b s | b. b < sb_size (sb s)}"

definition datastart :: "fsys \<Rightarrow> nat" where
  "datastart s = sb_bmapstart (sb s) + sb_size (sb s) div BPB + 1"

text \<open>
  What \<open>mkfs\<close> establishes: blocks have \<open>BSIZE\<close> bytes, and the blocks in front of the
  data blocks (boot block, super block, log, inodes, bitmap) are marked in use.
\<close>

definition fs_ok :: "fsys \<Rightarrow> bool" where
  "fs_ok s \<longleftrightarrow> (\<forall>b. length (blk s b) = BSIZE) \<and> datastart s \<le> sb_size (sb s) \<and> sb_size (sb s) < 2 ^ 31
     \<and> sb_inodestart (sb s) + sb_ninodes (sb s) div IPB < sb_bmapstart (sb s)
     \<and> (\<forall>b < datastart s. used s b)"

lemma mask_bit: "bit (mask bi) k \<longleftrightarrow> k = bi mod 8"
  by (auto simp: mask_def bit_exp_iff possible_bit_def)

lemma bit_free_iff: "bit_free d bi \<longleftrightarrow> \<not> bit (d ! (bi div 8)) (bi mod 8)"
proof -
  have "bit (d ! (bi div 8) AND mask bi) k \<longleftrightarrow> k = bi mod 8 \<and> bit (d ! (bi div 8)) k" for k
    by (auto simp: bit_and_iff mask_bit)
  then show ?thesis unfolding bit_free_def by (metis bit_eq_iff bit_0_eq bot_apply bot_bool_def)
qed

lemma same_bit: "(i div 8 = j div 8 \<and> i mod 8 = j mod 8) \<longleftrightarrow> i = (j::nat)"
  by (metis div_mult_mod_eq)

lemma bit_free_on:
  assumes "bi < BPB" "length d = BSIZE"
  shows "bit_free (bit_on d bi) j \<longleftrightarrow> j \<noteq> bi \<and> bit_free d j"
proof -
  have "bi div 8 < length d" using assms by (simp add: BPB_def BSIZE_def)
  then show ?thesis using same_bit [of j bi]
    by (auto simp: bit_free_iff bit_on_def nth_list_update bit_or_iff mask_bit)
qed

lemma bit_free_off:
  assumes "bi < BPB" "length d = BSIZE"
  shows "bit_free (bit_off d bi) j \<longleftrightarrow> j = bi \<or> bit_free d j"
proof -
  have "bi div 8 < length d" using assms by (simp add: BPB_def BSIZE_def)
  then show ?thesis using same_bit [of j bi]
    by (auto simp: bit_free_iff bit_off_def nth_list_update bit_and_iff bit_not_iff mask_bit possible_bit_def)
qed

lemma length_bit_on_off [simp]: "length (bit_on d bi) = length d" "length (bit_off d bi) = length d"
  by (simp_all add: bit_on_def bit_off_def)

lemma same_block_bit: "(b div BPB = x div BPB \<and> b mod BPB = x mod BPB) \<longleftrightarrow> b = (x::nat)"
  by (metis div_mult_mod_eq)

lemma BPB_pos [simp]: "0 < BPB" by (simp add: BPB_def BSIZE_def)

section \<open>Correctness of the allocator\<close>

lemma balloc_bits_Some:
  "balloc_bits d sz b bi = Some k \<Longrightarrow>
   bi \<le> k \<and> k < BPB \<and> b + k < sz \<and> bit_free d k \<and> (\<forall>j. bi \<le> j \<and> j < k \<longrightarrow> \<not> bit_free d j)"
proof (induction d sz b bi rule: balloc_bits.induct)
  case (1 d sz b bi)
  show ?case
  proof (cases "bit_free d bi")
    case True
    with 1(2) show ?thesis by (auto simp: balloc_bits.simps [of d sz b bi] split: if_splits)
  next
    case False
    with 1(2) have c: "bi < BPB \<and> b + bi < sz" "balloc_bits d sz b (bi + 1) = Some k"
      by (auto simp: balloc_bits.simps [of d sz b bi] split: if_splits)
    from 1(1) [OF c(1) False c(2)] False show ?thesis by (metis Suc_eq_plus1 Suc_leD le_neq_implies_less Suc_leI)
  qed
qed

lemma balloc_bits_None:
  "balloc_bits d sz b bi = None \<Longrightarrow> bi \<le> j \<Longrightarrow> j < BPB \<Longrightarrow> b + j < sz \<Longrightarrow> \<not> bit_free d j"
proof (induction d sz b bi rule: balloc_bits.induct)
  case (1 d sz b bi)
  then have c: "bi < BPB \<and> b + bi < sz" "\<not> bit_free d bi" "balloc_bits d sz b (bi + 1) = None"
    by (auto simp: balloc_bits.simps [of d sz b bi] split: if_splits)
  from 1(1) [OF c] c(2) 1(3-5) show ?case by (cases "j = bi") auto
qed

lemma BBLOCK_put [simp]: "BBLOCK b (put_blk x v s) = BBLOCK b s" "BBLOCK b (log_blk x s) = BBLOCK b s"
  by (simp_all add: BBLOCK_def)

lemma bzero_simps [simp]:
  "sb (bzero b s) = sb s" "blk (bzero b s) = (blk s)(b := replicate BSIZE 0)"
  "logged (bzero b s) = logged s @ [b]" "itable (bzero b s) = itable s"
  by (simp_all add: bzero_def)

lemma BBLOCK_small: "b < sb_size (sb s) \<Longrightarrow> BBLOCK b s < datastart s"
  using div_le_mono [of b "sb_size (sb s)" BPB] by (simp add: BBLOCK_def datastart_def)

text \<open>Setting or clearing one bit changes the use of one block.\<close>

lemma used_put_bitmap:
  assumes "length (blk s (BBLOCK b s)) = BSIZE"
  shows "used (put_blk (BBLOCK b s) (bit_on (blk s (BBLOCK b s)) (b mod BPB)) s) x \<longleftrightarrow> x = b \<or> used s x"
    "used (put_blk (BBLOCK b s) (bit_off (blk s (BBLOCK b s)) (b mod BPB)) s) x \<longleftrightarrow> x \<noteq> b \<and> used s x"
proof -
  have e: "BBLOCK x s = BBLOCK b s \<longleftrightarrow> x div BPB = b div BPB" by (simp add: BBLOCK_def)
  have b: "b mod BPB < BPB" by simp
  show "used (put_blk (BBLOCK b s) (bit_on (blk s (BBLOCK b s)) (b mod BPB)) s) x \<longleftrightarrow> x = b \<or> used s x"
    using same_block_bit [of x b] e by (auto simp: used_def bit_free_on [OF b assms])
  show "used (put_blk (BBLOCK b s) (bit_off (blk s (BBLOCK b s)) (b mod BPB)) s) x \<longleftrightarrow> x \<noteq> b \<and> used s x"
    using same_block_bit [of x b] e by (auto simp: used_def bit_free_off [OF b assms])
qed

lemma used_log [simp]: "used (log_blk b s) x = used s x"
  by (simp add: used_def)

lemma used_other:
  assumes "b \<noteq> BBLOCK x s"
  shows "used (put_blk b v s) x = used s x"
  using assms by (simp add: used_def)

lemma datastart_put [simp]: "datastart (put_blk b v s) = datastart s" "datastart (log_blk b s) = datastart s"
  by (simp_all add: datastart_def)

definition take_block :: "nat \<Rightarrow> fsys \<Rightarrow> fsys" where
  "take_block b s =
     bzero b (log_blk (BBLOCK b s) (put_blk (BBLOCK b s) (bit_on (blk s (BBLOCK b s)) (b mod BPB)) s))"

lemma balloc_from_spec:
  assumes "fs_ok s" "b mod BPB = 0" "\<forall>x < b. used s x"
  shows "(\<forall>x < sb_size (sb s). used s x) \<and> balloc_from b s = (0, s)
    \<or> (\<exists>r < sb_size (sb s). r \<noteq> 0 \<and> \<not> used s r \<and> (\<forall>x < r. used s x) \<and> balloc_from b s = (r, take_block r s))"
  using assms
proof (induction b s rule: balloc_from.induct)
  case (1 b s)
  have step: "used s (b + j) \<longleftrightarrow> \<not> bit_free (blk s (BBLOCK b s)) j" if "j < BPB" for j
  proof -
    have "(b + j) div BPB = b div BPB" "(b + j) mod BPB = j"
      using that 1(3) by (simp_all add: div_add1_eq mod_add_eq [symmetric])
    then show ?thesis by (simp add: used_def BBLOCK_def)
  qed
  have low: "used s x" if "\<forall>j < k. \<not> bit_free (blk s (BBLOCK b s)) j" "k \<le> BPB" "x < b + k" for x k
    using that 1(4) step [of "x - b"] by (cases "x < b") auto
  show ?case
  proof (cases "b < sb_size (sb s)")
    case False
    then show ?thesis using 1(4) by (auto simp: balloc_from.simps [of b s])
  next
    case True
    show ?thesis
    proof (cases "balloc_bits (blk s (BBLOCK b s)) (sb_size (sb s)) b 0")
      case None
      have "\<not> bit_free (blk s (BBLOCK b s)) j" if "j < BPB" "b + j < sb_size (sb s)" for j
        using balloc_bits_None [OF None] that by simp
      then have all: "used s x" if "x < b + BPB" "x < sb_size (sb s)" for x
        using that 1(4) step [of "x - b"] by (cases "x < b") auto
      show ?thesis
      proof (cases "b + BPB \<le> sb_size (sb s)")
        case t: True
        then show ?thesis using 1(1) [OF True refl None 1(2)] 1(3) all True None
          by (simp add: balloc_from.simps [of b s] Let_def)
      next
        case False
        then show ?thesis using all True None
          by (simp add: balloc_from.simps [of b s] balloc_from.simps [of "b + BPB" s] Let_def)
      qed
    next
      case (Some k)
      from balloc_bits_Some [OF Some] have k: "k < BPB" "b + k < sb_size (sb s)" "bit_free (blk s (BBLOCK b s)) k"
        "\<forall>j < k. \<not> bit_free (blk s (BBLOCK b s)) j" by auto
      have n: "\<not> used s (b + k)" using step k by simp
      have "0 < datastart s" by (simp add: datastart_def)
      with n 1(2) have "b + k \<noteq> 0" unfolding fs_ok_def by metis
      moreover have "(b + k) mod BPB = k" "BBLOCK (b + k) s = BBLOCK b s"
        using k(1) 1(3) by (simp_all add: BBLOCK_def div_add1_eq mod_add_eq [symmetric])
      ultimately show ?thesis using Some True n k low [OF k(4)]
        by (auto simp: balloc_from.simps [of b s] take_block_def Let_def)
    qed
  qed
qed

lemma used_take_block:
  assumes "fs_ok s" "b < sb_size (sb s)" "datastart s \<le> b" "x < sb_size (sb s)"
  shows "used (take_block b s) x \<longleftrightarrow> x = b \<or> used s x"
proof -
  have "BBLOCK x s \<noteq> b" using BBLOCK_small [OF assms(4)] assms(3) by simp
  then have "used (take_block b s) x
      = used (put_blk (BBLOCK b s) (bit_on (blk s (BBLOCK b s)) (b mod BPB)) s) x"
    by (simp add: take_block_def bzero_def used_other)
  then show ?thesis using used_put_bitmap(1) assms(1) by (simp add: fs_ok_def)
qed

lemma take_block_simps [simp]:
  "sb (take_block b s) = sb s" "itable (take_block b s) = itable s"
  "logged (take_block b s) = logged s @ [BBLOCK b s, b]" "blk (take_block b s) b = replicate BSIZE 0"
  "x \<noteq> b \<Longrightarrow> x \<noteq> BBLOCK b s \<Longrightarrow> blk (take_block b s) x = blk s x"
  by (simp_all add: take_block_def)

lemma datastart_take [simp]: "datastart (take_block b s) = datastart s"
  by (simp add: datastart_def)

lemma take_block_ok:
  assumes "fs_ok s" "b < sb_size (sb s)" "datastart s \<le> b"
  shows "fs_ok (take_block b s)"
proof -
  have "length (blk (take_block b s) x) = BSIZE" for x using assms(1) by (simp add: take_block_def fs_ok_def)
  then show ?thesis using assms used_take_block [OF assms] by (simp add: fs_ok_def)
qed

lemma balloc_cases:
  assumes "fs_ok s"
  obtains (full) "balloc s = (0, s)" "\<forall>x < sb_size (sb s). used s x"
  | (found) r where "balloc s = (r, take_block r s)" "r \<noteq> 0" "datastart s \<le> r" "r < sb_size (sb s)" "\<not> used s r"
      "\<forall>x < r. used s x"
proof -
  have "datastart s \<le> r" if "\<not> used s r" for r using that assms unfolding fs_ok_def by (metis not_le)
  with balloc_from_spec [OF assms, of 0] full found show ?thesis by (auto simp: balloc_def)
qed

text \<open>
  \<open>balloc\<close> answers 0 only when no block is free; otherwise it returns the
  lowest free block, which lies among the data blocks, fills it with zeros, marks
  it and no other block as in use, and changes no other block than it and its
  bitmap block.
\<close>

theorem balloc_lowest_free_block:
  assumes "fs_ok s" "balloc s = (b, s')"
  shows "b = 0 \<and> s' = s \<and> (\<forall>x < sb_size (sb s). used s x)
    \<or> datastart s \<le> b \<and> b < sb_size (sb s) \<and> \<not> used s b \<and> (\<forall>x < b. used s x) \<and> fs_ok s'
      \<and> (\<forall>x < sb_size (sb s). used s' x \<longleftrightarrow> x = b \<or> used s x)
      \<and> blk s' b = replicate BSIZE 0 \<and> (\<forall>x. x \<noteq> b \<and> x \<noteq> BBLOCK b s \<longrightarrow> blk s' x = blk s x)"
  using assms(1)
proof (cases rule: balloc_cases)
  case full
  with assms(2) show ?thesis by simp
next
  case (found r)
  with assms show ?thesis by (auto simp: used_take_block take_block_ok)
qed

section \<open>Freeing a block\<close>

definition drop_block :: "nat \<Rightarrow> fsys \<Rightarrow> fsys" where
  "drop_block b s = log_blk (BBLOCK b s) (put_blk (BBLOCK b s) (bit_off (blk s (BBLOCK b s)) (b mod BPB)) s)"

lemma bfree_eq: "bfree b s = (if used s b then Inr (drop_block b s) else Inl (FsPanic ''freeing free block''))"
  by (simp add: bfree_def used_def drop_block_def Let_def)

lemma drop_block_simps [simp]:
  "sb (drop_block b s) = sb s" "itable (drop_block b s) = itable s"
  "logged (drop_block b s) = logged s @ [BBLOCK b s]" "x \<noteq> BBLOCK b s \<Longrightarrow> blk (drop_block b s) x = blk s x"
  "datastart (drop_block b s) = datastart s"
  by (simp_all add: drop_block_def)

lemma used_drop_block: "fs_ok s \<Longrightarrow> used (drop_block b s) x \<longleftrightarrow> x \<noteq> b \<and> used s x"
  using used_put_bitmap(2) by (simp add: fs_ok_def drop_block_def)

lemma drop_block_ok:
  assumes "fs_ok s" "datastart s \<le> b"
  shows "fs_ok (drop_block b s)"
proof -
  have "length (blk (drop_block b s) x) = BSIZE" for x using assms(1) by (simp add: drop_block_def fs_ok_def)
  then show ?thesis using assms used_drop_block [OF assms(1)] by (auto simp: fs_ok_def)
qed

definition data_used :: "fsys \<Rightarrow> nat set" where
  "data_used s = {b. datastart s \<le> b \<and> b < sb_size (sb s) \<and> used s b}"

definition balloc_opt :: "fsys \<Rightarrow> (nat \<times> fsys) option" where
  "balloc_opt s = (let (b, s') = balloc s in if b = 0 then None else Some (b, s'))"

interpretation blocks: allocator fs_ok data_used balloc_opt bfree
proof (unfold_locales, goal_cases)
  case (1 s x s')
  from 1(1) show ?case
  proof (cases rule: balloc_cases)
    case full
    with 1(2) show ?thesis by (simp add: balloc_opt_def)
  next
    case (found r)
    with 1 show ?thesis
      by (auto simp: balloc_opt_def data_used_def used_take_block take_block_ok)
  qed
next
  case (2 s x)
  then show ?case by (auto simp: bfree_eq data_used_def used_drop_block drop_block_ok)
qed

section \<open>A small file system\<close>

text \<open>Forty blocks, the inodes in block 4, the bitmap in block 6, two empty files in the table.\<close>

definition mini_ino :: "nat \<Rightarrow> inode" where
  "mini_ino n =
     \<lparr>i_dev = 1, i_inum = n, i_ref = 1, i_owner = None, i_valid = True, i_type = 2, i_major = 0, i_minor = 0,
      i_nlink = 1, i_size = 0, i_addrs = replicate 13 0\<rparr>"

definition mini_fs :: fsys where
  "mini_fs =
     \<lparr>sb = \<lparr>sb_magic = FSMAGIC, sb_size = 40, sb_nblocks = 33, sb_ninodes = 16, sb_nlog = 2, sb_logstart = 2,
        sb_inodestart = 4, sb_bmapstart = 6\<rparr>,
      blk = (\<lambda>b. if b = 6 then 0x7F # replicate 1023 0 else replicate 1024 0),
      logged = [], itable = [mini_ino 1, mini_ino 2]\<rparr>"

lemma used_mini: "b < 7 \<Longrightarrow> used mini_fs b"
proof -
  assume "b < 7"
  then have "b = 0 \<or> b = 1 \<or> b = 2 \<or> b = 3 \<or> b = 4 \<or> b = 5 \<or> b = 6" by linarith
  then show ?thesis by (auto simp: used_def BBLOCK_def mini_fs_def bit_free_def mask_def BPB_def BSIZE_def)
qed

lemma mini_fs_ok: "fs_ok mini_fs"
proof -
  have "datastart mini_fs = 7" by (simp add: datastart_def mini_fs_def BPB_def BSIZE_def)
  then show ?thesis using used_mini
    by (simp add: fs_ok_def) (simp add: mini_fs_def IPB_def BSIZE_def)
qed

theorem balloc_lowest_free_block_witness:
  "fst (balloc mini_fs) = 7 \<and> \<not> used mini_fs 7 \<and> used (snd (balloc mini_fs)) 7"
proof -
  have u: "\<not> used mini_fs 7"
    by (simp add: used_def BBLOCK_def mini_fs_def bit_free_def mask_def BPB_def BSIZE_def)
  have d: "datastart mini_fs = 7" by (simp add: datastart_def mini_fs_def BPB_def BSIZE_def)
  have z: "sb_size (sb mini_fs) = 40" by (simp add: mini_fs_def)
  from balloc_lowest_free_block [OF mini_fs_ok, of "fst (balloc mini_fs)" "snd (balloc mini_fs)"] u d z
  show ?thesis by (auto simp: not_less dest!: spec [of _ 7] intro: ccontr)
qed

text \<open>
  no disk block is handed out twice.  For every sequence of allocations and of
  frees of blocks obtained before, the blocks held are distinct, each is a data
  block marked in use, and the panic of \<open>bfree\<close> is not reached.
\<close>

theorem blocks_never_shared:
  assumes "fs_ok s"
  shows "\<exists>own s'. allocator.serve balloc_opt bfree rs [] s = Inr (own, s')
    \<and> distinct own \<and> set own \<subseteq> data_used s' \<and> set own \<inter> data_used s = {} \<and> fs_ok s'"
proof -
  obtain own s' where "allocator.serve balloc_opt bfree rs [] s = Inr (own, s')" "fs_ok s'" "distinct own"
    "set own \<subseteq> data_used s'" "data_used s' - set own = data_used s"
    using blocks.serve_safe [OF assms, of "[]" rs] by auto
  then show ?thesis by blast
qed

theorem blocks_never_shared_witness:
  "\<exists>own s'. allocator.serve balloc_opt bfree [Get, Get, Give 7, Get] [] mini_fs = Inr (own, s') \<and> distinct own"
  using blocks_never_shared [OF mini_fs_ok, of "[Get, Get, Give 7, Get]"] by blast

end
