(* ===== verification/Fs_Inode.thy ===== *)
theory Fs_Inode
  imports Fs_Block
begin

text \<open>
  The inode layer (\<open>xv6-riscv/kernel/fs.c\<close>, \<open>ialloc\<close> to \<open>writei\<close>).  An inode pointer
  is an index of \<open>itable\<close>; \<open>i_owner\<close> is the process that holds the sleep lock, and
  \<open>me\<close> the calling process.  The copies to and from a caller's buffer are the
  argument \<open>cp\<close>: \<open>cp tot m\<close> is \<open>None\<close> if the copy of \<open>m\<close> bytes at position \<open>tot\<close>
  succeeds and \<open>Some k\<close> if it fails after \<open>k\<close> bytes; a copy between kernel addresses
  never fails.  Results of calls that wait for a lock or panic are left summands.
\<close>

declare bindR_cong [fundef_cong]

section \<open>Inodes on disk\<close>

abbreviation ino :: "fsys \<Rightarrow> nat \<Rightarrow> inode" where "ino s i \<equiv> itable s ! i"

definition upd_ino :: "nat \<Rightarrow> (inode \<Rightarrow> inode) \<Rightarrow> fsys \<Rightarrow> fsys" where
  "upd_ino i f s = s\<lparr>itable := modify i f (itable s)\<rparr>"

text \<open>The 64 bytes of \<open>struct dinode\<close>.\<close>

definition enc_dinode :: "inode \<Rightarrow> uint8 list" where
  "enc_dinode p =
     le16 (i_type p) @ le16 (i_major p) @ le16 (i_minor p) @ le16 (i_nlink p) @ le32 (of_nat (i_size p))
     @ concat (map (\<lambda>a. le32 (of_nat a)) (i_addrs p))"

definition get_dinode :: "block \<Rightarrow> nat \<Rightarrow> uint8 list" where
  "get_dinode d k = take 64 (drop (64 * k) d)"

definition put_dinode :: "nat \<Rightarrow> uint8 list \<Rightarrow> block \<Rightarrow> block" where
  "put_dinode k v d = take (64 * k) d @ v @ drop (64 * k + 64) d"

definition d_type :: "uint8 list \<Rightarrow> uint16" where "d_type v = of_le16 (take 2 v)"
definition d_nlink :: "uint8 list \<Rightarrow> uint16" where "d_nlink v = of_le16 (take 2 (drop 6 v))"

definition load_dinode :: "uint8 list \<Rightarrow> inode \<Rightarrow> inode" where
  "load_dinode v p =
     p\<lparr>i_type := d_type v, i_major := of_le16 (take 2 (drop 2 v)), i_minor := of_le16 (take 2 (drop 4 v)),
       i_nlink := d_nlink v, i_size := unat (get32 2 v),
       i_addrs := map (\<lambda>j. unat (get32 (3 + j) v)) [0..<NDIRECT + 1]\<rparr>"

definition dinode_at :: "nat \<Rightarrow> fsys \<Rightarrow> uint8 list" where
  "dinode_at inum s = get_dinode (blk s (IBLOCK inum s)) (inum mod IPB)"

definition write_dinode :: "nat \<Rightarrow> uint8 list \<Rightarrow> fsys \<Rightarrow> fsys" where
  "write_dinode inum v s =
     log_blk (IBLOCK inum s)
       (put_blk (IBLOCK inum s) (put_dinode (inum mod IPB) v (blk s (IBLOCK inum s))) s)"

section \<open>The inode table\<close>

definition iget :: "nat \<Rightarrow> nat \<Rightarrow> fsys \<Rightarrow> fs_error + nat \<times> fsys" where
  "iget dev inum s =
     (case find_idx (\<lambda>p. i_ref p > 0 \<and> i_dev p = dev \<and> i_inum p = inum) (itable s) of
        Some i \<Rightarrow> Inr (i, upd_ino i (\<lambda>p. p\<lparr>i_ref := i_ref p + 1\<rparr>) s)
      | None \<Rightarrow>
          (case find_idx (\<lambda>p. i_ref p = 0) (itable s) of
             None \<Rightarrow> Inl (FsPanic ''iget: no inodes'')
           | Some i \<Rightarrow>
               Inr (i, upd_ino i (\<lambda>p. p\<lparr>i_dev := dev, i_inum := inum, i_ref := 1, i_valid := False\<rparr>) s)))"

definition idup :: "nat \<Rightarrow> fsys \<Rightarrow> fsys" where
  "idup i s = upd_ino i (\<lambda>p. p\<lparr>i_ref := i_ref p + 1\<rparr>) s"

function ialloc_from :: "nat \<Rightarrow> nat \<Rightarrow> uint16 \<Rightarrow> fsys \<Rightarrow> fs_error + nat option \<times> fsys" where
  "ialloc_from inum dev ty s =
     (if inum < sb_ninodes (sb s) then
        if d_type (dinode_at inum s) = 0 then
          bindR (iget dev inum (write_dinode inum (le16 ty @ replicate 62 0) s)) (\<lambda>(i, s'). Inr (Some i, s'))
        else ialloc_from (inum + 1) dev ty s
      else Inr (None, s))"
  by pat_completeness auto
termination by (relation "measure (\<lambda>(inum, dev, ty, s). sb_ninodes (sb s) - inum)") auto

declare ialloc_from.simps [simp del]

definition ialloc :: "nat \<Rightarrow> uint16 \<Rightarrow> fsys \<Rightarrow> fs_error + nat option \<times> fsys" where
  "ialloc dev ty s = ialloc_from 1 dev ty s"

definition iupdate :: "nat \<Rightarrow> fsys \<Rightarrow> fsys" where
  "iupdate i s = write_dinode (i_inum (ino s i)) (enc_dinode (ino s i)) s"

definition acquiresleep :: "int \<Rightarrow> nat \<Rightarrow> fsys \<Rightarrow> fs_error + fsys" where
  "acquiresleep me i s =
     (if i_owner (ino s i) = None then Inr (upd_ino i (\<lambda>p. p\<lparr>i_owner := Some me\<rparr>) s) else Inl FsWaits)"

definition ilock :: "int \<Rightarrow> nat \<Rightarrow> fsys \<Rightarrow> fs_error + fsys" where
  "ilock me i s =
     (if i_ref (ino s i) < 1 then Inl (FsPanic ''ilock'')
      else bindR (acquiresleep me i s) (\<lambda>s1.
        if \<not> i_valid (ino s1 i) then
          let s2 = upd_ino i (\<lambda>p. (load_dinode (dinode_at (i_inum p) s1) p)\<lparr>i_valid := True\<rparr>) s1
          in if i_type (ino s2 i) = 0 then Inl (FsPanic ''ilock: no type'') else Inr s2
        else Inr s1))"

definition iunlock :: "int \<Rightarrow> nat \<Rightarrow> fsys \<Rightarrow> fs_error + fsys" where
  "iunlock me i s =
     (if i_owner (ino s i) \<noteq> Some me \<or> i_ref (ino s i) < 1 then Inl (FsPanic ''iunlock'')
      else Inr (upd_ino i (\<lambda>p. p\<lparr>i_owner := None\<rparr>) s))"

section \<open>Blocks of a file\<close>

definition bmap :: "nat \<Rightarrow> nat \<Rightarrow> fsys \<Rightarrow> fs_error + nat \<times> fsys" where
  "bmap i bn s =
     (if bn < NDIRECT then
        let addr = i_addrs (ino s i) ! bn in
        if addr = 0 then
          let (addr, s1) = balloc s in
          if addr = 0 then Inr (0, s1)
          else Inr (addr, upd_ino i (\<lambda>p. p\<lparr>i_addrs := (i_addrs p)[bn := addr]\<rparr>) s1)
        else Inr (addr, s)
      else
        let bn = bn - NDIRECT in
        if bn < NINDIRECT then
          let addr = i_addrs (ino s i) ! NDIRECT;
              (addr, s1) =
                (if addr = 0 then
                   let (addr, s1) = balloc s in
                   if addr = 0 then (0, s1)
                   else (addr, upd_ino i (\<lambda>p. p\<lparr>i_addrs := (i_addrs p)[NDIRECT := addr]\<rparr>) s1)
                 else (addr, s))
          in if addr = 0 then Inr (0, s1)
             else
               let ind = addr; addr = unat (get32 bn (blk s1 ind)) in
               if addr = 0 then
                 let (addr, s2) = balloc s1 in
                 if addr \<noteq> 0 then
                   Inr (addr, log_blk ind (put_blk ind (put32 bn (of_nat addr) (blk s2 ind)) s2))
                 else Inr (0, s2)
               else Inr (addr, s1)
        else Inl (FsPanic ''bmap: out of range''))"

text \<open>The two loops of \<open>itrunc\<close>.\<close>

primrec itrunc_direct :: "nat \<Rightarrow> nat list \<Rightarrow> fsys \<Rightarrow> fs_error + fsys" where
  "itrunc_direct i [] s = Inr s"
| "itrunc_direct i (k # ks) s =
     (let addr = i_addrs (ino s i) ! k in
      if addr \<noteq> 0 then
        bindR (bfree addr s) (\<lambda>s1.
          itrunc_direct i ks (upd_ino i (\<lambda>p. p\<lparr>i_addrs := (i_addrs p)[k := 0]\<rparr>) s1))
      else itrunc_direct i ks s)"

primrec itrunc_indirect :: "nat \<Rightarrow> nat list \<Rightarrow> fsys \<Rightarrow> fs_error + fsys" where
  "itrunc_indirect ind [] s = Inr s"
| "itrunc_indirect ind (j # js) s =
     (let addr = unat (get32 j (blk s ind)) in
      if addr \<noteq> 0 then bindR (bfree addr s) (itrunc_indirect ind js) else itrunc_indirect ind js s)"

definition itrunc :: "nat \<Rightarrow> fsys \<Rightarrow> fs_error + fsys" where
  "itrunc i s =
     bindR (itrunc_direct i [0..<NDIRECT] s) (\<lambda>s1.
     bindR
       (let ind = i_addrs (ino s1 i) ! NDIRECT in
        if ind \<noteq> 0 then
          bindR (itrunc_indirect ind [0..<NINDIRECT] s1) (\<lambda>s2.
          bindR (bfree ind s2) (\<lambda>s3.
            Inr (upd_ino i (\<lambda>p. p\<lparr>i_addrs := (i_addrs p)[NDIRECT := 0]\<rparr>) s3)))
        else Inr s1) (\<lambda>s4.
     Inr (iupdate i (upd_ino i (\<lambda>p. p\<lparr>i_size := 0\<rparr>) s4))))"

definition iput :: "int \<Rightarrow> nat \<Rightarrow> fsys \<Rightarrow> fs_error + fsys" where
  "iput me i s =
     bindR
       (if i_ref (ino s i) = 1 \<and> i_valid (ino s i) \<and> i_nlink (ino s i) = 0 then
          bindR (acquiresleep me i s) (\<lambda>s1.
          bindR (itrunc i s1) (\<lambda>s2.
            let s3 = iupdate i (upd_ino i (\<lambda>p. p\<lparr>i_type := 0\<rparr>) s2)
            in Inr (upd_ino i (\<lambda>p. p\<lparr>i_valid := False, i_owner := None\<rparr>) s3)))
        else Inr s) (\<lambda>s4.
     Inr (upd_ino i (\<lambda>p. p\<lparr>i_ref := i_ref p - 1\<rparr>) s4))"

definition iunlockput :: "int \<Rightarrow> nat \<Rightarrow> fsys \<Rightarrow> fs_error + fsys" where
  "iunlockput me i s = bindR (iunlock me i s) (iput me i)"

primrec ireclaim_loop :: "int \<Rightarrow> nat \<Rightarrow> nat list \<Rightarrow> fsys \<Rightarrow> fs_error + fsys" where
  "ireclaim_loop me dev [] s = Inr s"
| "ireclaim_loop me dev (inum # is) s =
     (let v = dinode_at inum s in
      if d_type v \<noteq> 0 \<and> d_nlink v = 0 then
        bindR (iget dev inum s) (\<lambda>(i, s1).
        bindR (ilock me i s1) (\<lambda>s2.
        bindR (iunlock me i s2) (\<lambda>s3.
        bindR (iput me i s3) (ireclaim_loop me dev is))))
      else ireclaim_loop me dev is s)"

definition ireclaim :: "int \<Rightarrow> nat \<Rightarrow> fsys \<Rightarrow> fs_error + fsys" where
  "ireclaim me dev s = ireclaim_loop me dev [1..<sb_ninodes (sb s)] s"

definition fsinit :: "int \<Rightarrow> nat \<Rightarrow> fsys \<Rightarrow> fs_error + fsys" where
  "fsinit me dev s =
     (let s1 = readsb s in
      if sb_magic (sb s1) \<noteq> FSMAGIC then Inl (FsPanic ''invalid file system'') else ireclaim me dev s1)"

section \<open>Reading and writing\<close>

record stat =
  st_dev :: nat
  st_ino :: nat
  st_type :: uint16
  st_nlink :: uint16
  st_size :: nat

definition stati :: "nat \<Rightarrow> fsys \<Rightarrow> stat" where
  "stati i s =
     \<lparr>st_dev = i_dev (ino s i), st_ino = i_inum (ino s i), st_type = i_type (ino s i),
      st_nlink = i_nlink (ino s i), st_size = i_size (ino s i)\<rparr>"

type_synonym copy = "nat \<Rightarrow> nat \<Rightarrow> nat option"

text \<open>Past the tests at the start, \<open>off + n\<close> is below \<open>2 ^ 32\<close>: no sum in the loops wraps.\<close>

definition chunk :: "nat \<Rightarrow> nat \<Rightarrow> nat \<Rightarrow> nat" where
  "chunk n tot off = min (n - tot) (BSIZE - off mod BSIZE)"

lemma chunk_pos: "tot < n \<Longrightarrow> 0 < chunk n tot off"
  by (simp add: chunk_def BSIZE_def)

lemma chunk_less: "tot < n \<Longrightarrow> n - (tot + chunk n tot off) < n - tot"
  using chunk_pos [of tot n off] by simp

function readi_loop ::
  "nat \<Rightarrow> copy \<Rightarrow> nat \<Rightarrow> nat \<Rightarrow> nat \<Rightarrow> uint8 list \<Rightarrow> fsys \<Rightarrow> fs_error + int \<times> uint8 list \<times> fsys" where
  "readi_loop i cp n tot off dst s =
     (if tot < n then
        bindR (bmap i (off div BSIZE) s) (\<lambda>(addr, s1).
          if addr = 0 then Inr (int tot, dst, s1)
          else
            let m = chunk n tot off; bs = take m (drop (off mod BSIZE) (blk s1 addr)) in
            case cp tot m of
              Some k \<Rightarrow> Inr (-1, dst @ take k bs, s1)
            | None \<Rightarrow> readi_loop i cp n (tot + m) (off + m) (dst @ bs) s1)
      else Inr (int tot, dst, s))"
  by pat_completeness auto
termination
  by (relation "measure (\<lambda>(i, cp, n, tot, off, dst, s). n - tot)") (simp_all add: chunk_less)

definition readi :: "nat \<Rightarrow> copy \<Rightarrow> nat \<Rightarrow> nat \<Rightarrow> fsys \<Rightarrow> fs_error + int \<times> uint8 list \<times> fsys" where
  "readi i cp off n s =
     (if off > i_size (ino s i) \<or> (off + n) mod 2 ^ 32 < off then Inr (0, [], s)
      else
        readi_loop i cp (if (off + n) mod 2 ^ 32 > i_size (ino s i) then i_size (ino s i) - off else n)
          0 off [] s)"

definition patch :: "nat \<Rightarrow> 'a list \<Rightarrow> 'a list \<Rightarrow> 'a list" where
  "patch k v d = take k d @ v @ drop (k + length v) d"

function writei_loop ::
  "nat \<Rightarrow> copy \<Rightarrow> uint8 list \<Rightarrow> nat \<Rightarrow> nat \<Rightarrow> nat \<Rightarrow> fsys \<Rightarrow> fs_error + nat \<times> nat \<times> fsys" where
  "writei_loop i cp src n tot off s =
     (if tot < n then
        bindR (bmap i (off div BSIZE) s) (\<lambda>(addr, s1).
          if addr = 0 then Inr (tot, off, s1)
          else
            let m = chunk n tot off; bs = take m (drop tot src) in
            case cp tot m of
              Some k \<Rightarrow> Inr (tot, off, put_blk addr (patch (off mod BSIZE) (take k bs) (blk s1 addr)) s1)
            | None \<Rightarrow>
                writei_loop i cp src n (tot + m) (off + m)
                  (log_blk addr (put_blk addr (patch (off mod BSIZE) bs (blk s1 addr)) s1)))
      else Inr (tot, off, s))"
  by pat_completeness auto
termination
  by (relation "measure (\<lambda>(i, cp, src, n, tot, off, s). n - tot)") (simp_all add: chunk_less)

declare readi_loop.simps [simp del] writei_loop.simps [simp del]

text \<open>\<open>src\<close> holds the \<open>n\<close> bytes of the caller's buffer.\<close>

definition writei :: "nat \<Rightarrow> copy \<Rightarrow> uint8 list \<Rightarrow> nat \<Rightarrow> nat \<Rightarrow> fsys \<Rightarrow> fs_error + int \<times> fsys" where
  "writei i cp src off n s =
     (if off > i_size (ino s i) \<or> (off + n) mod 2 ^ 32 < off then Inr (-1, s)
      else if (off + n) mod 2 ^ 32 > MAXFILE * BSIZE then Inr (-1, s)
      else
        bindR (writei_loop i cp src n 0 off s) (\<lambda>(tot, off', s1).
          let s2 = (if off' > i_size (ino s1 i) then upd_ino i (\<lambda>p. p\<lparr>i_size := off'\<rparr>) s1 else s1)
          in Inr (int tot, iupdate i s2)))"

end
