(* ===== verification/Fs_File.thy ===== *)
theory Fs_File
  imports Fs_Inode
begin

text \<open>
  A file as an array of bytes.  \<open>slot\<close> is the block address in each of the places an
  inode has for one (the direct addresses, the indirect block, the entries of the
  indirect block), \<open>byte_at\<close> the byte of the file at an offset, and \<open>contents\<close> the whole
  file.  The invariant \<open>file_ok\<close> says that the blocks of a file are allocated and
  distinct and that the file has no holes.  \<open>bmap\<close>, \<open>readi\<close> and \<open>writei\<close> are shown to
  implement reading and overwriting a byte array, and to leave every other
  allocated block alone.
\<close>

section \<open>Block addresses of an inode\<close>

definition NSLOT :: nat where "NSLOT = NDIRECT + 1 + NINDIRECT"

definition slot :: "fsys \<Rightarrow> nat \<Rightarrow> nat \<Rightarrow> nat" where
  "slot s i k =
     (if k \<le> NDIRECT then i_addrs (ino s i) ! k
      else let ind = i_addrs (ino s i) ! NDIRECT in
        if ind = 0 then 0 else unat (get32 (k - NDIRECT - 1) (blk s ind)))"

definition slot_of :: "nat \<Rightarrow> nat" where
  "slot_of bn = (if bn < NDIRECT then bn else bn + 1)"

definition byte_at :: "fsys \<Rightarrow> nat \<Rightarrow> nat \<Rightarrow> uint8" where
  "byte_at s i off =
     (let a = slot s i (slot_of (off div BSIZE)) in if a = 0 then 0 else blk s a ! (off mod BSIZE))"

definition contents :: "fsys \<Rightarrow> nat \<Rightarrow> uint8 list" where
  "contents s i = map (byte_at s i) [0..<i_size (ino s i)]"

definition data_block :: "fsys \<Rightarrow> nat \<Rightarrow> bool" where
  "data_block s b \<longleftrightarrow> datastart s \<le> b \<and> b < sb_size (sb s) \<and> used s b"

definition map_ok :: "fsys \<Rightarrow> nat \<Rightarrow> bool" where
  "map_ok s i \<longleftrightarrow> i < length (itable s) \<and> length (i_addrs (ino s i)) = NDIRECT + 1
     \<and> (\<forall>k < NSLOT. slot s i k \<noteq> 0 \<longrightarrow> data_block s (slot s i k))
     \<and> (\<forall>j < NSLOT. \<forall>k < NSLOT. slot s i j = slot s i k \<longrightarrow> slot s i j \<noteq> 0 \<longrightarrow> j = k)"

definition file_ok :: "fsys \<Rightarrow> nat \<Rightarrow> bool" where
  "file_ok s i \<longleftrightarrow> map_ok s i \<and> i_inum (ino s i) < sb_ninodes (sb s) \<and> i_size (ino s i) \<le> MAXFILE * BSIZE
     \<and> (\<forall>off < i_size (ino s i). slot s i (slot_of (off div BSIZE)) \<noteq> 0)"

text \<open>The blocks a file occupies.\<close>

definition slots :: "fsys \<Rightarrow> nat \<Rightarrow> nat set" where
  "slots s i = slot s i ` {..<NSLOT} - {0}"

lemmas fs_consts = NSLOT_def NDIRECT_def NINDIRECT_def MAXFILE_def BSIZE_def

lemma slot_of_less: "bn < MAXFILE \<Longrightarrow> slot_of bn < NSLOT"
  by (simp add: slot_of_def fs_consts)

lemma slot_of_neq_ind: "slot_of bn \<noteq> NDIRECT"
  by (simp add: slot_of_def)

lemma off_less: "off < MAXFILE * BSIZE \<Longrightarrow> off div BSIZE < MAXFILE"
  by (simp add: less_mult_imp_div_less)

lemma upd_ino_simps [simp]:
  "sb (upd_ino i f s) = sb s" "blk (upd_ino i f s) = blk s" "logged (upd_ino i f s) = logged s"
  "itable (upd_ino i f s) = modify i f (itable s)"
  by (simp_all add: upd_ino_def)

lemma upd_ino_derived [simp]:
  "used (upd_ino i f s) x = used s x" "datastart (upd_ino i f s) = datastart s" "fs_ok (upd_ino i f s) = fs_ok s"
  "BBLOCK b (upd_ino i f s) = BBLOCK b s" "IBLOCK b (upd_ino i f s) = IBLOCK b s"
  by (simp_all add: used_def BBLOCK_def IBLOCK_def datastart_def fs_ok_def)

section \<open>Filling one slot\<close>

text \<open>
  What one allocation of \<open>bmap\<close> does: slot \<open>k\<close>, empty before, holds the fresh zeroed
  block \<open>r\<close>; no other slot changes.
\<close>

definition fills :: "nat \<Rightarrow> nat \<Rightarrow> nat \<Rightarrow> fsys \<Rightarrow> fsys \<Rightarrow> bool" where
  "fills i k r s s' \<longleftrightarrow>
     slot s i k = 0 \<and> slot s' i k = r \<and> (\<forall>j < NSLOT. j \<noteq> k \<longrightarrow> slot s' i j = slot s i j)
     \<and> datastart s \<le> r \<and> r < sb_size (sb s) \<and> \<not> used s r \<and> fs_ok s' \<and> sb s' = sb s
     \<and> (\<exists>ad. length ad = NDIRECT + 1 \<and> itable s' = modify i (\<lambda>p. p\<lparr>i_addrs := ad\<rparr>) (itable s))
     \<and> (\<forall>x < sb_size (sb s). used s' x \<longleftrightarrow> x = r \<or> used s x)
     \<and> blk s' r = replicate BSIZE 0
     \<and> (\<forall>x < sb_bmapstart (sb s). blk s' x = blk s x)
     \<and> (\<forall>x \<ge> datastart s. x \<noteq> r \<longrightarrow> x \<noteq> slot s i NDIRECT \<longrightarrow> blk s' x = blk s x)"

lemma datastart_cong: "sb s' = sb s \<Longrightarrow> datastart s' = datastart s"
  by (simp add: datastart_def)

lemma BBLOCK_bounds: "sb_bmapstart (sb s) \<le> BBLOCK b s" "b < sb_size (sb s) \<Longrightarrow> BBLOCK b s < datastart s"
  by (simp add: BBLOCK_def) (rule BBLOCK_small)

lemma zero_block_slot: "bn < NINDIRECT \<Longrightarrow> get32 bn (replicate BSIZE 0) = 0"
  by (simp add: get32_def of_le32_def fs_consts nth_append)

lemma slot_direct: "k \<le> NDIRECT \<Longrightarrow> slot s i k = i_addrs (ino s i) ! k"
  by (simp add: slot_def)

lemma slot_indirect:
  "NDIRECT < k \<Longrightarrow> slot s i k = (if slot s i NDIRECT = 0 then 0 else unat (get32 (k - NDIRECT - 1) (blk s (slot s i NDIRECT))))"
  by (simp add: slot_def)

text \<open>An allocation for one of the addresses in the inode.\<close>

lemma fills_direct:
  assumes ok: "fs_ok s" "map_ok s i" and k: "k \<le> NDIRECT" "slot s i k = 0"
    and r: "datastart s \<le> r" "r < sb_size (sb s)" "\<not> used s r"
  shows "fills i k r s (upd_ino i (\<lambda>p. p\<lparr>i_addrs := (i_addrs p)[k := r]\<rparr>) (take_block r s))"
    (is "fills i k r s ?s'")
proof -
  have i: "i < length (itable s)" "length (i_addrs (ino s i)) = NDIRECT + 1" using ok(2) by (auto simp: map_ok_def)
  have bb: "BBLOCK r s < datastart s" "sb_bmapstart (sb s) \<le> BBLOCK r s" using BBLOCK_bounds r(2) by auto
  have sm: "sb_bmapstart (sb s) \<le> datastart s" by (simp add: datastart_def)
  have addrs: "i_addrs (ino ?s' i) = (i_addrs (ino s i))[k := r]" using i by simp
  have blk: "blk ?s' x = blk s x" if "x \<noteq> r" "x \<noteq> BBLOCK r s" for x using that by simp
  have slots: "slot ?s' i j = slot s i j" if "j < NSLOT" "j \<noteq> k" for j
  proof (cases "j \<le> NDIRECT")
    case True
    then show ?thesis using that addrs by (simp add: slot_direct)
  next
    case False
    show ?thesis
    proof (cases "k = NDIRECT")
      case True
      have "slot ?s' i NDIRECT = r" using True i addrs by (simp add: slot_direct)
      moreover have "j - NDIRECT - 1 < NINDIRECT" using that(1) by (simp add: fs_consts)
      ultimately show ?thesis using False k True by (simp add: slot_indirect zero_block_slot)
    next
      case nk: False
      then have e: "slot ?s' i NDIRECT = slot s i NDIRECT" using addrs k by (simp add: slot_direct)
      have "blk ?s' (slot s i NDIRECT) = blk s (slot s i NDIRECT)" if "slot s i NDIRECT \<noteq> 0"
      proof (rule blk)
        have "data_block s (slot s i NDIRECT)" using ok(2) that by (simp add: map_ok_def fs_consts)
        then show "slot s i NDIRECT \<noteq> r" "slot s i NDIRECT \<noteq> BBLOCK r s"
          using r(3) bb by (auto simp: data_block_def)
      qed
      with e False show ?thesis by (simp add: slot_indirect)
    qed
  qed
  have "itable ?s' = modify i (\<lambda>p. p\<lparr>i_addrs := (i_addrs (ino s i))[k := r]\<rparr>) (itable s)"
    by (simp add: modify_def)
  then have "\<exists>ad. length ad = NDIRECT + 1 \<and> itable ?s' = modify i (\<lambda>p. p\<lparr>i_addrs := ad\<rparr>) (itable s)"
    using i(2) by (intro exI [of _ "(i_addrs (ino s i))[k := r]"]) simp
  moreover have "slot ?s' i k = r" using addrs i k by (simp add: slot_direct)
  ultimately show ?thesis
    using slots k r bb sm ok(1) blk unfolding fills_def
    by (simp add: take_block_ok used_take_block)
qed

text \<open>An allocation for an entry of the indirect block.\<close>

lemma fills_indirect:
  assumes ok: "fs_ok s" "map_ok s i" and bn: "bn < NINDIRECT" "slot s i (NDIRECT + 1 + bn) = 0"
    and ind: "slot s i NDIRECT = ind" "ind \<noteq> 0"
    and r: "datastart s \<le> r" "r < sb_size (sb s)" "\<not> used s r"
  shows "fills i (NDIRECT + 1 + bn) r s
    (log_blk ind (put_blk ind (put32 bn (of_nat r) (blk (take_block r s) ind)) (take_block r s)))"
    (is "fills i ?k r s ?s'")
proof -
  have i: "i < length (itable s)" "length (i_addrs (ino s i)) = NDIRECT + 1" using ok(2) by (auto simp: map_ok_def)
  have bb: "BBLOCK r s < datastart s" "sb_bmapstart (sb s) \<le> BBLOCK r s" using BBLOCK_bounds r(2) by auto
  have sm: "sb_bmapstart (sb s) \<le> datastart s" by (simp add: datastart_def)
  have ib: "data_block s ind" using ok(2) ind by (auto simp: map_ok_def fs_consts)
  then have id: "ind \<noteq> r" "ind \<noteq> BBLOCK r s" "datastart s \<le> ind" "ind < sb_size (sb s)" using r(3) bb by (auto simp: data_block_def)
  have len: "length (blk s ind) = BSIZE" using ok(1) by (simp add: fs_ok_def)
  have nind: "slot ?s' i NDIRECT = ind" using ind by (simp add: slot_direct)
  have get: "get32 j (blk ?s' ind) = (if j = bn then of_nat r else get32 j (blk s ind))" if "j < NINDIRECT" for j
    using that bn(1) id len by (simp add: get32_put32 fs_consts)
  have "r < 2 ^ 32" using r(2) ok(1) by (simp add: fs_ok_def)
  then have ur: "unat (of_nat r :: uint32) = r" by (simp add: unat_of_nat)
  have slots: "slot ?s' i j = (if j = ?k then r else slot s i j)" if "j < NSLOT" for j
  proof (cases "j \<le> NDIRECT")
    case True
    then show ?thesis by (simp add: slot_direct)
  next
    case False
    then have "j - NDIRECT - 1 < NINDIRECT" "j - NDIRECT - 1 = bn \<longleftrightarrow> j = ?k" using that by (auto simp: fs_consts)
    with False nind ind get ur show ?thesis by (simp add: slot_indirect [of j])
  qed
  have k: "?k < NSLOT" using bn(1) by (simp add: fs_consts)
  have fs: "fs_ok (take_block r s)" using take_block_ok ok(1) r by simp
  have us: "used ?s' x = used (take_block r s) x" if "x < sb_size (sb s)" for x
  proof -
    have "BBLOCK x (take_block r s) \<noteq> ind" using BBLOCK_bounds(2) [OF that] id by (simp add: BBLOCK_def)
    then show ?thesis by (simp add: used_other)
  qed
  have "fs_ok ?s'" using fs us bn(1) unfolding fs_ok_def by (simp add: fs_consts)
  moreover have "itable ?s' = modify i (\<lambda>p. p\<lparr>i_addrs := i_addrs (ino s i)\<rparr>) (itable s)"
    by (simp add: modify_def)
  then have "\<exists>ad. length ad = NDIRECT + 1 \<and> itable ?s' = modify i (\<lambda>p. p\<lparr>i_addrs := ad\<rparr>) (itable s)"
    using i(2) by blast
  ultimately show ?thesis
    using slots [OF k] slots r bb sm id bn(2) ind(1) ok(1) us
    unfolding fills_def by (simp add: used_take_block)
qed

section \<open>What an allocation keeps\<close>

text \<open>
  \<open>extends i s s'\<close>: the blocks of file \<open>i\<close> may have grown, but every allocated block
  outside the file, every inode block and every other inode is as before.
\<close>

definition extends :: "nat \<Rightarrow> fsys \<Rightarrow> fsys \<Rightarrow> bool" where
  "extends i s s' \<longleftrightarrow> fs_ok s' \<and> map_ok s' i \<and> sb s' = sb s
     \<and> (\<exists>ad. itable s' = modify i (\<lambda>p. p\<lparr>i_addrs := ad\<rparr>) (itable s))
     \<and> (\<forall>k < NSLOT. slot s i k \<noteq> 0 \<longrightarrow> slot s' i k = slot s i k)
     \<and> (\<forall>x < sb_size (sb s). used s x \<longrightarrow> used s' x)
     \<and> (\<forall>x < sb_bmapstart (sb s). blk s' x = blk s x)
     \<and> (\<forall>x. data_block s x \<and> x \<notin> slots s i \<longrightarrow> blk s' x = blk s x \<and> x \<notin> slots s' i)"

lemma extends_refl: "fs_ok s \<Longrightarrow> map_ok s i \<Longrightarrow> extends i s s"
proof -
  assume "fs_ok s" "map_ok s i"
  moreover have "itable s = modify i (\<lambda>p. p\<lparr>i_addrs := i_addrs (ino s i)\<rparr>) (itable s)" by (simp add: modify_def)
  ultimately show ?thesis unfolding extends_def by blast
qed

lemma data_block_mono:
  assumes "extends i s s'" "data_block s x"
  shows "data_block s' x"
  using assms datastart_cong [of s' s] by (auto simp: extends_def data_block_def)

lemma extends_trans:
  assumes e: "extends i s s'" "extends i s' s''"
  shows "extends i s s''"
proof -
  have sb: "sb s' = sb s" "sb s'' = sb s" using e by (auto simp: extends_def)
  from e obtain a b where "itable s' = modify i (\<lambda>p. p\<lparr>i_addrs := a\<rparr>) (itable s)"
    "itable s'' = modify i (\<lambda>p. p\<lparr>i_addrs := b\<rparr>) (itable s')" by (auto simp: extends_def)
  then have "itable s'' = modify i (\<lambda>p. p\<lparr>i_addrs := b\<rparr>) (itable s)"
    by (intro nth_equalityI) (auto simp: nth_modify_any)
  moreover have "blk s'' x = blk s x \<and> x \<notin> slots s'' i" if "data_block s x" "x \<notin> slots s i" for x
    using that data_block_mono [OF e(1) that(1)] e unfolding extends_def by metis
  moreover have "slot s'' i k = slot s i k" if "k < NSLOT" "slot s i k \<noteq> 0" for k
    using that e unfolding extends_def by metis
  moreover have "fs_ok s''" "map_ok s'' i" using e(2) by (auto simp: extends_def)
  moreover have "used s'' x" if "x < sb_size (sb s)" "used s x" for x
    using that e sb unfolding extends_def by metis
  moreover have "blk s'' x = blk s x" if "x < sb_bmapstart (sb s)" for x
    using that e sb unfolding extends_def by metis
  ultimately show ?thesis using sb unfolding extends_def by blast
qed

lemma fills_extends:
  assumes ok: "map_ok s i" and f: "fills i k r s s'" and k: "k < NSLOT"
  shows "extends i s s'"
proof -
  have ds: "datastart s' = datastart s" "sb s' = sb s" using f datastart_cong [of s' s] by (auto simp: fills_def)
  have sl: "slot s' i j = (if j = k then r else slot s i j)" if "j < NSLOT" for j using that f by (auto simp: fills_def)
  obtain ad where ad: "length ad = NDIRECT + 1" "itable s' = modify i (\<lambda>p. p\<lparr>i_addrs := ad\<rparr>) (itable s)"
    using f by (auto simp: fills_def)
  have r: "datastart s \<le> r" "r < sb_size (sb s)" "\<not> used s r" using f by (auto simp: fills_def)
  have us: "used s' x \<longleftrightarrow> x = r \<or> used s x" if "x < sb_size (sb s)" for x using f that by (auto simp: fills_def)
  have db: "data_block s (slot s i j)" if "j < NSLOT" "slot s i j \<noteq> 0" for j using ok that by (simp add: map_ok_def)
  have nr: "slot s i j \<noteq> r" if "j < NSLOT" "slot s i j \<noteq> 0" for j using db [OF that] r(3) by (auto simp: data_block_def)
  have "data_block s' (slot s' i j)" if "j < NSLOT" "slot s' i j \<noteq> 0" for j
    using that db [of j] sl [of j] us r ds by (auto simp: data_block_def)
  moreover have "j = j'" if "j < NSLOT" "j' < NSLOT" "slot s' i j = slot s' i j'" "slot s' i j \<noteq> 0" for j j'
    using that sl nr [of j] nr [of j'] ok unfolding map_ok_def by metis
  moreover have "i < length (itable s')" "length (i_addrs (ino s' i)) = NDIRECT + 1"
    using ad ok by (simp_all add: map_ok_def)
  ultimately have m: "map_ok s' i" by (simp add: map_ok_def)
  have "blk s' x = blk s x \<and> x \<notin> slots s' i" if x: "data_block s x" "x \<notin> slots s i" for x
  proof
    have "x \<noteq> 0" using x(1) by (simp add: data_block_def datastart_def)
    then have "x \<noteq> slot s i NDIRECT" using x(2) by (auto simp: slots_def fs_consts)
    moreover have "x \<noteq> r" "datastart s \<le> x" using x(1) r by (auto simp: data_block_def)
    ultimately show "blk s' x = blk s x" using f by (simp add: fills_def)
    show "x \<notin> slots s' i" using x \<open>x \<noteq> r\<close> sl by (auto simp: slots_def split: if_splits)
  qed
  then show ?thesis using m ad f us sl unfolding extends_def by (auto simp: fills_def)
qed

lemma map_ok_distinct:
  "map_ok s i \<Longrightarrow> j < NSLOT \<Longrightarrow> k < NSLOT \<Longrightarrow> slot s i j = slot s i k \<Longrightarrow> slot s i j \<noteq> 0 \<Longrightarrow> j = k"
  unfolding map_ok_def by blast

lemma fills_byte_at:
  assumes ok: "map_ok s i" and f: "fills i k r s s'" and off: "off < MAXFILE * BSIZE"
  shows "byte_at s' i off = byte_at s i off"
proof -
  let ?j = "slot_of (off div BSIZE)"
  have j: "?j < NSLOT" by (intro slot_of_less off_less off)
  have m: "off mod BSIZE < BSIZE" by (simp add: BSIZE_def)
  show ?thesis
  proof (cases "?j = k")
    case True
    with f m show ?thesis by (simp add: byte_at_def fills_def)
  next
    case False
    have "blk s' (slot s i ?j) = blk s (slot s i ?j)" if nz: "slot s i ?j \<noteq> 0"
    proof -
      have "data_block s (slot s i ?j)" using ok nz j by (simp add: map_ok_def)
      moreover have "slot s i ?j \<noteq> slot s i NDIRECT"
        using map_ok_distinct [OF ok j _ _ nz, of NDIRECT] slot_of_neq_ind by (auto simp: fs_consts)
      ultimately show ?thesis using f by (auto simp: fills_def data_block_def)
    qed
    moreover have "slot s' i ?j = slot s i ?j" using f j False by (simp add: fills_def)
    ultimately show ?thesis by (simp add: byte_at_def Let_def)
  qed
qed

text \<open>
  Growing a file without changing its bytes.  A block that is not there reads as
  zeros, as the fresh block does.
\<close>

definition grows :: "nat \<Rightarrow> fsys \<Rightarrow> fsys \<Rightarrow> bool" where
  "grows i s s' \<longleftrightarrow> extends i s s' \<and> (\<forall>off < MAXFILE * BSIZE. byte_at s' i off = byte_at s i off)"

lemma grows_fills:
  "map_ok s i \<Longrightarrow> fills i k r s s' \<Longrightarrow> k < NSLOT \<Longrightarrow> grows i s s'"
  by (simp add: grows_def fills_extends fills_byte_at)

lemma grows_refl: "fs_ok s \<Longrightarrow> map_ok s i \<Longrightarrow> grows i s s"
  by (simp add: grows_def extends_refl)

lemma grows_trans: "grows i s s' \<Longrightarrow> grows i s' s'' \<Longrightarrow> grows i s s''"
  using extends_trans by (auto simp: grows_def)

lemma grows_ok: "grows i s s' \<Longrightarrow> fs_ok s' \<and> map_ok s' i"
  by (simp add: grows_def extends_def)

definition full :: "fsys \<Rightarrow> bool" where
  "full s \<longleftrightarrow> (\<forall>x < sb_size (sb s). used s x)"

lemma bmap_direct:
  assumes ok: "fs_ok s" "map_ok s i" and bn: "bn < NDIRECT"
  shows "\<exists>a s'. bmap i bn s = Inr (a, s') \<and> grows i s s' \<and> (if a = 0 then full s' else slot s' i (slot_of bn) = a)
    \<and> (slot s i (slot_of bn) \<noteq> 0 \<longrightarrow> s' = s \<and> a = slot s i (slot_of bn))"
proof -
  have k: "slot_of bn = bn" "bn \<le> NDIRECT" "bn < NSLOT" using bn by (simp_all add: slot_of_def fs_consts)
  show ?thesis
  proof (cases "slot s i bn = 0")
    case False
    then show ?thesis using bn k ok by (simp add: bmap_def slot_direct Let_def grows_refl)
  next
    case True
    have z: "i_addrs (ino s i) ! bn = 0" using True k(2) by (simp add: slot_direct)
    from ok(1) show ?thesis
    proof (cases rule: balloc_cases)
      case full
      then show ?thesis using bn z k True ok by (simp add: bmap_def grows_refl full_def)
    next
      case (found r)
      have f: "fills i bn r s (upd_ino i (\<lambda>p. p\<lparr>i_addrs := (i_addrs p)[bn := r]\<rparr>) (take_block r s))"
        by (rule fills_direct) (use ok k True found in auto)
      then have "slot (upd_ino i (\<lambda>p. p\<lparr>i_addrs := (i_addrs p)[bn := r]\<rparr>) (take_block r s)) i bn = r"
        by (simp add: fills_def)
      then show ?thesis using bn z k True found grows_fills [OF ok(2) f k(3)] by (simp add: bmap_def)
    qed
  qed
qed

text \<open>Loading the indirect block, allocating it if necessary.\<close>

definition load_indirect :: "nat \<Rightarrow> fsys \<Rightarrow> nat \<times> fsys" where
  "load_indirect i s =
     (let addr = i_addrs (ino s i) ! NDIRECT in
      if addr = 0 then
        let (addr, s1) = balloc s in
        if addr = 0 then (0, s1) else (addr, upd_ino i (\<lambda>p. p\<lparr>i_addrs := (i_addrs p)[NDIRECT := addr]\<rparr>) s1)
      else (addr, s))"

lemma load_indirect_spec:
  assumes ok: "fs_ok s" "map_ok s i"
  shows "\<exists>a s'. load_indirect i s = (a, s') \<and> grows i s s' \<and> (if a = 0 then full s' else slot s' i NDIRECT = a)
    \<and> (slot s i NDIRECT \<noteq> 0 \<longrightarrow> s' = s)"
proof (cases "slot s i NDIRECT = 0")
  case False
  then show ?thesis using ok by (simp add: load_indirect_def slot_direct Let_def grows_refl)
next
  case True
  have z: "i_addrs (ino s i) ! NDIRECT = 0" using True by (simp add: slot_direct)
  have k: "NDIRECT < NSLOT" by (simp add: fs_consts)
  from ok(1) show ?thesis
  proof (cases rule: balloc_cases)
    case full
    then show ?thesis using z True ok by (simp add: load_indirect_def grows_refl full_def)
  next
    case (found r)
    have f: "fills i NDIRECT r s (upd_ino i (\<lambda>p. p\<lparr>i_addrs := (i_addrs p)[NDIRECT := r]\<rparr>) (take_block r s))"
      by (rule fills_direct) (use ok True found in auto)
    then have "slot (upd_ino i (\<lambda>p. p\<lparr>i_addrs := (i_addrs p)[NDIRECT := r]\<rparr>) (take_block r s)) i NDIRECT = r"
      by (simp add: fills_def)
    then show ?thesis using z True found grows_fills [OF ok(2) f k] by (simp add: load_indirect_def)
  qed
qed

lemma bmap_indirect_eq:
  assumes "bn < NINDIRECT"
  shows "bmap i (NDIRECT + bn) s =
    (let (ind, s1) = load_indirect i s in
     if ind = 0 then Inr (0, s1)
     else if unat (get32 bn (blk s1 ind)) = 0 then
       let (addr, s2) = balloc s1 in
       if addr \<noteq> 0 then Inr (addr, log_blk ind (put_blk ind (put32 bn (of_nat addr) (blk s2 ind)) s2))
       else Inr (0, s2)
     else Inr (unat (get32 bn (blk s1 ind)), s1))"
  using assms by (simp add: bmap_def load_indirect_def Let_def split: prod.split)

lemma bmap_spec:
  assumes ok: "fs_ok s" "map_ok s i" and bn: "bn < MAXFILE"
  shows "\<exists>a s'. bmap i bn s = Inr (a, s') \<and> grows i s s' \<and> (if a = 0 then full s' else slot s' i (slot_of bn) = a)
    \<and> (slot s i (slot_of bn) \<noteq> 0 \<longrightarrow> s' = s \<and> a = slot s i (slot_of bn))"
proof (cases "bn < NDIRECT")
  case True
  with bmap_direct ok show ?thesis by blast
next
  case False
  define n where "n = bn - NDIRECT"
  have n: "bn = NDIRECT + n" "n < NINDIRECT" "slot_of bn = NDIRECT + 1 + n" using False bn
    by (simp_all add: n_def MAXFILE_def slot_of_def)
  have k: "NDIRECT + 1 + n < NSLOT" using n by (simp add: NSLOT_def)
  obtain ind s1 where l: "load_indirect i s = (ind, s1)" "grows i s s1" "if ind = 0 then full s1 else slot s1 i NDIRECT = ind"
    "slot s i NDIRECT \<noteq> 0 \<longrightarrow> s1 = s" using load_indirect_spec [OF ok] by blast
  have ok1: "fs_ok s1" "map_ok s1 i" using l(2) grows_ok by auto
  have keep: "slot s i NDIRECT \<noteq> 0" if "slot s i (slot_of bn) \<noteq> 0" using that n(3) by (auto simp: slot_indirect split: if_splits)
  show ?thesis
  proof (cases "ind = 0")
    case True
    have "slot s i (slot_of bn) = 0"
      using keep l True by (cases "slot s i NDIRECT = 0") (auto simp: load_indirect_def slot_direct)
    with True l n show ?thesis by (simp add: bmap_indirect_eq)
  next
    case False
    then have sl: "slot s1 i (NDIRECT + 1 + n) = unat (get32 n (blk s1 ind))" using l(3) by (simp add: slot_indirect)
    show ?thesis
    proof (cases "slot s1 i (NDIRECT + 1 + n) = 0")
      case False
      have "slot s i (slot_of bn) \<noteq> 0 \<longrightarrow> s1 = s" using keep l(4) by blast
      with False show ?thesis using \<open>ind \<noteq> 0\<close> l(1-3) n sl by (auto simp: bmap_indirect_eq)
    next
      case True
      have z: "unat (get32 n (blk s1 ind)) = 0" using True sl by simp
      have zero: "slot s i (slot_of bn) = 0"
      proof (rule ccontr)
        assume "slot s i (slot_of bn) \<noteq> 0"
        then show False using keep l(4) True n by simp
      qed
      from ok1(1) show ?thesis
      proof (cases rule: balloc_cases)
        case full
        then show ?thesis using \<open>ind \<noteq> 0\<close> l n z zero by (simp add: bmap_indirect_eq full_def)
      next
        case (found r)
        let ?s = "log_blk ind (put_blk ind (put32 n (of_nat r) (blk (take_block r s1) ind)) (take_block r s1))"
        have f: "fills i (NDIRECT + 1 + n) r s1 ?s"
          by (rule fills_indirect) (use ok1 n True l(3) \<open>ind \<noteq> 0\<close> found in auto)
        then have "slot ?s i (slot_of bn) = r" using n by (simp add: fills_def)
        moreover have "grows i s ?s" using grows_trans l(2) grows_fills [OF ok1(2) f k] by blast
        ultimately show ?thesis using \<open>ind \<noteq> 0\<close> l n z zero found by (simp add: bmap_indirect_eq)
      qed
    qed
  qed
qed

section \<open>Reading\<close>

lemma BSIZE_pos [simp]: "0 < BSIZE"
  by (simp add: BSIZE_def)

text \<open>Offsets within one block.\<close>

lemma in_block:
  assumes "j < BSIZE - off mod BSIZE"
  shows "(off + j) div BSIZE = off div BSIZE" "(off + j) mod BSIZE = off mod BSIZE + j"
proof -
  have "off mod BSIZE + j < BSIZE" using assms by simp
  then show "(off + j) mod BSIZE = off mod BSIZE + j" using mod_add_left_eq [of off BSIZE j] by simp
  moreover have "(off + j) div BSIZE * BSIZE + (off + j) mod BSIZE = off div BSIZE * BSIZE + off mod BSIZE + j"
    by (simp only: div_mult_mod_eq)
  ultimately have "(off + j) div BSIZE * BSIZE + off mod BSIZE = off div BSIZE * BSIZE + off mod BSIZE" by simp
  then show "(off + j) div BSIZE = off div BSIZE" by (metis BSIZE_pos add_right_cancel less_irrefl mult_right_cancel)
qed

lemma block_bytes:
  assumes "fs_ok s" "slot s i (slot_of (off div BSIZE)) = a" "a \<noteq> 0" "m \<le> BSIZE - off mod BSIZE"
  shows "take m (drop (off mod BSIZE) (blk s a)) = map (byte_at s i) [off..<off + m]"
proof (rule nth_equalityI)
  have len: "length (blk s a) = BSIZE" using assms(1) by (simp add: fs_ok_def)
  show "length (take m (drop (off mod BSIZE) (blk s a))) = length (map (byte_at s i) [off..<off + m])"
    using assms(4) len by simp
  fix j assume "j < length (take m (drop (off mod BSIZE) (blk s a)))"
  then have j: "j < m" "j < BSIZE - off mod BSIZE" using assms(4) by auto
  then show "take m (drop (off mod BSIZE) (blk s a)) ! j = map (byte_at s i) [off..<off + m] ! j"
    using assms(2,3) len by (simp add: byte_at_def in_block [OF j(2)])
qed

lemma bmap_present:
  assumes "fs_ok s" "file_ok s i" "off < i_size (ino s i)"
  shows "\<exists>a. bmap i (off div BSIZE) s = Inr (a, s) \<and> a \<noteq> 0 \<and> slot s i (slot_of (off div BSIZE)) = a"
proof -
  have "off div BSIZE < MAXFILE" using assms(2,3) by (intro off_less) (simp add: file_ok_def)
  moreover have "slot s i (slot_of (off div BSIZE)) \<noteq> 0" "map_ok s i" using assms(2,3) by (auto simp: file_ok_def)
  ultimately show ?thesis using bmap_spec [OF assms(1)] by metis
qed

lemma map_upt_split: "m \<le> n \<Longrightarrow> map f [off..<off + n] = map f [off..<off + m] @ map f [off + m..<off + n]"
  using upt_add_eq_append [of off "off + m" "n - m"] by simp

lemma readi_loop_spec:
  assumes "fs_ok s" "file_ok s i" "tot \<le> n" "off + (n - tot) \<le> i_size (ino s i)"
  shows "\<exists>r l. readi_loop i cp n tot off dst s = Inr (r, dst @ take l (map (byte_at s i) [off..<off + (n - tot)]), s)
    \<and> (r = int n \<and> l = n - tot \<or> r = -1 \<and> (\<exists>t m k. cp t m = Some k))"
  using assms(3,4)
proof (induction "n - tot" arbitrary: tot off dst rule: less_induct)
  case less
  show ?case
  proof (cases "tot < n")
    case False
    with less.prems show ?thesis by (simp add: readi_loop.simps [of i cp n n])
  next
    case True
    define m where "m = chunk n tot off"
    have m: "0 < m" "m \<le> n - tot" "m \<le> BSIZE - off mod BSIZE"
      using chunk_pos True by (auto simp: m_def chunk_def)
    have "off < i_size (ino s i)" using less.prems True by simp
    then obtain a where a: "bmap i (off div BSIZE) s = Inr (a, s)" "a \<noteq> 0" "slot s i (slot_of (off div BSIZE)) = a"
      using bmap_present assms by blast
    have bs: "take m (drop (off mod BSIZE) (blk s a)) = map (byte_at s i) [off..<off + m]"
      by (rule block_bytes) (use a m assms in auto)
    have split: "map (byte_at s i) [off..<off + (n - tot)]
        = map (byte_at s i) [off..<off + m] @ map (byte_at s i) [off + m..<off + (n - tot)]"
      using m(2) by (rule map_upt_split)
    have rec: "readi_loop i cp n tot off dst s =
        (case cp tot m of Some k \<Rightarrow> Inr (-1, dst @ take k (map (byte_at s i) [off..<off + m]), s)
         | None \<Rightarrow> readi_loop i cp n (tot + m) (off + m) (dst @ map (byte_at s i) [off..<off + m]) s)"
      using True a by (subst readi_loop.simps) (simp add: bs Let_def m_def [symmetric] split: option.split)
    show ?thesis
    proof (cases "cp tot m")
      case (Some k)
      have "take k (map (byte_at s i) [off..<off + m]) = take (min k m) (map (byte_at s i) [off..<off + (n - tot)])"
        unfolding split by (simp add: min_def)
      with Some rec show ?thesis by auto
    next
      case None
      have "n - (tot + m) < n - tot" "tot + m \<le> n" "off + m + (n - (tot + m)) \<le> i_size (ino s i)"
        using m True less.prems by auto
      from less.hyps [OF this, of "dst @ map (byte_at s i) [off..<off + m]"] obtain r l where
        "readi_loop i cp n (tot + m) (off + m) (dst @ map (byte_at s i) [off..<off + m]) s = Inr (r, (dst @ map (byte_at s i) [off..<off + m]) @
           take l (map (byte_at s i) [off + m..<off + m + (n - (tot + m))]), s)"
        and r: "r = int n \<and> l = n - (tot + m) \<or> r = -1 \<and> (\<exists>t m k. cp t m = Some k)"
        by blast
      moreover have "off + m + (n - (tot + m)) = off + (n - tot)" using m by simp
      ultimately have "readi_loop i cp n tot off dst s = Inr (r, dst @ map (byte_at s i) [off..<off + m] @
           take l (map (byte_at s i) [off + m..<off + (n - tot)]), s)"
        using rec None by simp
      moreover have "map (byte_at s i) [off..<off + m] @ take l (map (byte_at s i) [off + m..<off + (n - tot)])
          = take (m + l) (map (byte_at s i) [off..<off + (n - tot)])" for l
        unfolding split by simp
      moreover have "m + (n - (tot + m)) = n - tot" using m by simp
      ultimately show ?thesis using r by metis
    qed
  qed
qed

lemma readi_spec:
  assumes "fs_ok s" "file_ok s i" "off < 2 ^ 32" "n < 2 ^ 32"
  shows "\<exists>r bs. readi i cp off n s = Inr (r, bs, s)
    \<and> (let want = (if off + n < 2 ^ 32 then take n (drop off (contents s i)) else []) in
       r = int (length bs) \<and> bs = want
       \<or> r = -1 \<and> (\<exists>l. bs = take l want) \<and> (\<exists>t m k. cp t m = Some k))"
proof -
  let ?size = "i_size (ino s i)"
  have small: "?size < 2 ^ 32" using assms(2) by (simp add: file_ok_def fs_consts)
  have wrap: "(off + n) mod 2 ^ 32 < off \<longleftrightarrow> \<not> off + n < 2 ^ 32"
  proof (cases "off + n < 2 ^ 32")
    case False
    then have "(off + n) mod 2 ^ 32 = off + n - 2 ^ 32" using assms(3,4) by (simp add: mod_if)
    with False assms(4) show ?thesis by simp
  qed simp
  show ?thesis
  proof (cases "off > ?size \<or> \<not> off + n < 2 ^ 32")
    case True
    then have "readi i cp off n s = Inr (0, [], s)" using wrap by (auto simp: readi_def)
    with True show ?thesis by (auto simp: contents_def)
  next
    case False
    define k where "k = min n (?size - off)"
    have k: "k = (if (off + n) mod 2 ^ 32 > ?size then ?size - off else n)" using False by (auto simp: k_def)
    have "off + (k - 0) \<le> ?size" using False by (auto simp: k_def)
    from readi_loop_spec [OF assms(1,2) _ this, of cp "[]"]
    have "\<exists>r l. readi_loop i cp k 0 off [] s = Inr (r, take l (map (byte_at s i) [off..<off + k]), s)
        \<and> (r = int k \<and> l = k \<or> r = -1 \<and> (\<exists>t m k. cp t m = Some k))" by simp
    then obtain r l where
      "readi_loop i cp k 0 off [] s = Inr (r, take l (map (byte_at s i) [off..<off + k]), s)"
      and r: "r = int k \<and> l = k \<or> r = -1 \<and> (\<exists>t m k. cp t m = Some k)" by blast
    then have e: "readi i cp off n s = Inr (r, take l (map (byte_at s i) [off..<off + k]), s)"
      using False wrap unfolding readi_def k [symmetric] by auto
    have "take n (drop off (contents s i)) = map (byte_at s i) [off..<off + k]"
      using False by (intro nth_equalityI) (auto simp: contents_def k_def)
    then show ?thesis using e r False by (auto simp: Let_def)
  qed
qed

text \<open>
  C5: \<open>readi\<close> reads the file as an array of bytes and changes nothing: it returns
  the bytes from \<open>off\<close> up to \<open>off + n\<close> or the end of the file, whichever comes first,
  and their number; a request past the end, or one whose end does not fit in 32
  bits, yields no bytes.  If copying to the caller fails it returns \<open>-1\<close>, and what has
  been copied is a prefix of those bytes.
\<close>

theorem readi_reads_byte_array:
  assumes "fs_ok s" "file_ok s i" "off < 2 ^ 32" "n < 2 ^ 32"
  shows "\<exists>r bs. readi i cp off n s = Inr (r, bs, s)
    \<and> (let want = (if off + n < 2 ^ 32 then take n (drop off (contents s i)) else []) in
       r = int (length bs) \<and> bs = want
       \<or> r = -1 \<and> (\<exists>l. bs = take l want) \<and> (\<exists>t m k. cp t m = Some k))"
  using assms by (rule readi_spec)

section \<open>A small file\<close>

text \<open>The first file of the small file system with three bytes in block 7.\<close>

definition mini_file :: fsys where
  "mini_file = mini_fs\<lparr>
     blk := (blk mini_fs)(6 := 0xFF # replicate 1023 0, 7 := [10, 20, 30] @ replicate 1021 0),
     itable := [(mini_ino 1)\<lparr>i_size := 3, i_addrs := 7 # replicate 12 0\<rparr>, mini_ino 2]\<rparr>"

lemma mini_file_ok: "fs_ok mini_file"
proof -
  have d: "datastart mini_file = 7" by (simp add: datastart_def mini_file_def mini_fs_def BPB_def BSIZE_def)
  have "used mini_file b" if "b < 7" for b
  proof -
    from that have "b = 0 \<or> b = 1 \<or> b = 2 \<or> b = 3 \<or> b = 4 \<or> b = 5 \<or> b = 6" by linarith
    then show ?thesis
      by (auto simp: used_def BBLOCK_def mini_file_def mini_fs_def bit_free_def mask_def BPB_def BSIZE_def)
  qed
  with d show ?thesis by (simp add: fs_ok_def) (simp add: mini_file_def mini_fs_def IPB_def BSIZE_def)
qed

lemma mini_slot:
  "k < NSLOT \<Longrightarrow> slot mini_file 0 k = (if k = 0 then 7 else 0)"
  "k < NSLOT \<Longrightarrow> slot mini_file 1 k = 0" "k < NSLOT \<Longrightarrow> slot mini_fs 0 k = 0"
  by (cases k; simp add: slot_def mini_file_def mini_fs_def mini_ino_def fs_consts nth_Cons' flip: numeral_eq_Suc)+

lemma mini_file_ok_0: "file_ok mini_file 0"
proof -
  have "used mini_file 7"
    by (simp add: used_def BBLOCK_def mini_file_def mini_fs_def bit_free_def mask_def BPB_def BSIZE_def)
  then have "data_block mini_file 7"
    by (simp add: data_block_def datastart_def) (simp add: mini_file_def mini_fs_def BPB_def BSIZE_def)
  then have "map_ok mini_file 0"
    by (simp add: map_ok_def mini_slot) (simp add: mini_file_def mini_fs_def fs_consts)
  moreover have "slot mini_file 0 (slot_of (off div BSIZE)) \<noteq> 0" if "off < 3" for off
    using that mini_slot(1) [of 0] by (simp add: slot_of_def fs_consts)
  ultimately show ?thesis by (simp add: file_ok_def) (simp add: mini_file_def mini_fs_def mini_ino_def fs_consts)
qed

theorem readi_reads_byte_array_witness:
  "\<exists>r bs. readi 0 (\<lambda>t m. None) 1 100 mini_file = Inr (r, bs, mini_file) \<and> bs = [20, 30] \<and> r = 2"
proof -
  have "contents mini_file 0 = [10, 20, 30]"
    using mini_slot(1) [of 0]
    by (simp add: contents_def byte_at_def slot_of_def mini_file_def mini_ino_def fs_consts upt_rec numeral_2_eq_2)
  with readi_reads_byte_array [OF mini_file_ok mini_file_ok_0, of 1 100 "\<lambda>t m. None"] show ?thesis
    by (auto simp: Let_def)
qed

end
