(* ===== verification/Fs_Write.thy ===== *)
theory Fs_Write
  imports Fs_File
begin

text \<open>
  Writing to a file: \<open>writei\<close> implements overwriting and extending a byte array, keeps
  the invariants, and does not touch the blocks of any other file.
\<close>

section \<open>Changing the bytes of one block\<close>

lemma length_patch [simp]: "k + length v \<le> length d \<Longrightarrow> length (patch k v d) = length d"
  by (simp add: patch_def)

lemma nth_patch:
  assumes "k + length v \<le> length d" "j < length d"
  shows "patch k v d ! j = (if k \<le> j \<and> j < k + length v then v ! (j - k) else d ! j)"
  using assms by (auto simp: patch_def nth_append min_def)

lemma log_blk_views [simp]:
  "slot (log_blk b s) i k = slot s i k" "byte_at (log_blk b s) i x = byte_at s i x"
  "fs_ok (log_blk b s) = fs_ok s" "data_block (log_blk b s) x = data_block s x"
  "slots (log_blk b s) i = slots s i" "map_ok (log_blk b s) i = map_ok s i"
proof -
  have s: "slot (log_blk b s) i k = slot s i k" for k by (simp add: slot_def Let_def)
  then show "slot (log_blk b s) i k = slot s i k" "byte_at (log_blk b s) i x = byte_at s i x"
    "slots (log_blk b s) i = slots s i" by (simp_all add: byte_at_def slots_def Let_def)
  show d: "data_block (log_blk b s) x = data_block s x" for x by (simp add: data_block_def)
  show "fs_ok (log_blk b s) = fs_ok s" by (simp add: fs_ok_def)
  show "map_ok (log_blk b s) i = map_ok s i" by (simp add: map_ok_def s d)
qed

lemma extends_log: "extends i s s' \<Longrightarrow> extends i s (log_blk b s')"
  by (simp add: extends_def)

lemma write_block:
  assumes ok: "fs_ok s" "map_ok s i" and a: "slot s i (slot_of (off div BSIZE)) = a" "a \<noteq> 0"
    and off: "off < MAXFILE * BSIZE" and len: "length bs \<le> BSIZE - off mod BSIZE"
    and s': "s' = put_blk a (patch (off mod BSIZE) bs (blk s a)) s"
  shows "extends i s s'" "\<forall>k < NSLOT. slot s' i k = slot s i k"
    "\<forall>x < MAXFILE * BSIZE. byte_at s' i x =
       (if off \<le> x \<and> x < off + length bs then bs ! (x - off) else byte_at s i x)"
proof -
  let ?j = "slot_of (off div BSIZE)"
  have j: "?j < NSLOT" by (intro slot_of_less off_less off)
  have db: "data_block s a" using ok(2) a j by (auto simp: map_ok_def)
  have la: "length (blk s a) = BSIZE" using ok(1) by (simp add: fs_ok_def)
  have om: "off mod BSIZE + length bs \<le> BSIZE" using len by (metis BSIZE_pos le_diff_conv2 add.commute less_imp_le mod_less_divisor)
  have ne: "slot s i k \<noteq> a" if "k < NSLOT" "k \<noteq> ?j" for k
    using map_ok_distinct [OF ok(2) that(1) j] a that(2) by auto
  have sl: "slot s' i k = slot s i k" for k
  proof (cases "k \<le> NDIRECT")
    case False
    have "slot s i NDIRECT \<noteq> a" using ne [of NDIRECT] slot_of_neq_ind [of "off div BSIZE"] by (simp add: fs_consts)
    moreover have "slot s' i NDIRECT = slot s i NDIRECT" by (simp add: s' slot_direct)
    ultimately show ?thesis using False by (simp add: slot_indirect s')
  qed (simp add: slot_direct s')
  then show "\<forall>k < NSLOT. slot s' i k = slot s i k" by simp
  have us: "used s' x = used s x" if "x < sb_size (sb s)" for x
    using BBLOCK_bounds(2) [OF that] db by (simp add: s' used_other data_block_def)
  have "fs_ok s'" using ok(1) us la om by (auto simp: fs_ok_def s')
  moreover have "data_block s' x = data_block s x" for x using us by (auto simp: data_block_def s')
  with ok(2) sl have "map_ok s' i" by (simp add: map_ok_def s')
  moreover have "itable s' = modify i (\<lambda>p. p\<lparr>i_addrs := i_addrs (ino s i)\<rparr>) (itable s)" by (simp add: modify_def s')
  moreover have "a \<in> slots s i" using j a by (auto simp: slots_def)
  moreover have "slots s' i = slots s i" using sl by (simp add: slots_def)
  moreover have "a \<ge> sb_bmapstart (sb s)" using db by (simp add: data_block_def datastart_def)
  ultimately show "extends i s s'" using us sl unfolding extends_def by (auto simp: s')
  show "\<forall>x < MAXFILE * BSIZE. byte_at s' i x =
      (if off \<le> x \<and> x < off + length bs then bs ! (x - off) else byte_at s i x)"
  proof (intro allI impI)
    fix x assume x: "x < MAXFILE * BSIZE"
    show "byte_at s' i x = (if off \<le> x \<and> x < off + length bs then bs ! (x - off) else byte_at s i x)"
    proof (cases "x div BSIZE = off div BSIZE")
      case True
      then have e: "x = off div BSIZE * BSIZE + x mod BSIZE" "off = off div BSIZE * BSIZE + off mod BSIZE"
        by (metis div_mult_mod_eq)+
      have in_range: "(off \<le> x \<and> x < off + length bs) \<longleftrightarrow> (off mod BSIZE \<le> x mod BSIZE \<and> x mod BSIZE < off mod BSIZE + length bs)"
        and "x - off = x mod BSIZE - off mod BSIZE" using e by linarith+
      with True a om la sl show ?thesis by (simp add: byte_at_def s' nth_patch)
    next
      case False
      have "slot_of (x div BSIZE) \<noteq> ?j" using False by (auto simp: slot_of_def split: if_splits)
      then have "slot s i (slot_of (x div BSIZE)) \<noteq> a" using ne slot_of_less off_less x by blast
      moreover have "\<not> (off \<le> x \<and> x < off + length bs)"
      proof
        assume c: "off \<le> x \<and> x < off + length bs"
        then have "x - off < BSIZE - off mod BSIZE" using len by linarith
        from in_block(1) [OF this] c False show False by simp
      qed
      ultimately show ?thesis using sl by (auto simp: byte_at_def s' Let_def)
    qed
  qed
qed

section \<open>The loop of writei\<close>

lemma slot_mono: "extends i s s' \<Longrightarrow> k < NSLOT \<Longrightarrow> slot s i k \<noteq> 0 \<Longrightarrow> slot s' i k \<noteq> 0"
  by (simp add: extends_def)

definition copy_fails :: "copy \<Rightarrow> bool" where
  "copy_fails cp \<longleftrightarrow> (\<exists>t m k. cp t m = Some k)"

text \<open>
  The result of the loop: \<open>tot' - tot\<close> bytes are written and counted, and after a
  failed copy up to \<open>e\<close> more have reached the last block.
\<close>

definition loop_result :: "nat \<Rightarrow> copy \<Rightarrow> uint8 list \<Rightarrow> nat \<Rightarrow> nat \<Rightarrow> fsys \<Rightarrow> nat \<Rightarrow> nat \<Rightarrow> fsys \<Rightarrow> bool" where
  "loop_result i cp src tot off s tot' e s' \<longleftrightarrow>
     tot \<le> tot' \<and> tot' + e \<le> length src \<and> extends i s s'
     \<and> (\<forall>x < MAXFILE * BSIZE. byte_at s' i x =
          (if off \<le> x \<and> x < off + (tot' - tot) + e then src ! (tot + (x - off)) else byte_at s i x))
     \<and> (\<forall>x. off \<le> x \<and> x < off + (tot' - tot) \<longrightarrow> slot s' i (slot_of (x div BSIZE)) \<noteq> 0)
     \<and> (e = 0 \<and> (tot' = length src \<or> full s') \<or> copy_fails cp)"

lemma loop_result_step:
  assumes g: "grows i s s1" and w: "extends i s1 s2"
    "\<forall>x < MAXFILE * BSIZE. byte_at s2 i x =
       (if off \<le> x \<and> x < off + m then src ! (tot + (x - off)) else byte_at s1 i x)"
    and slot: "\<forall>x. off \<le> x \<and> x < off + m \<longrightarrow> slot s2 i (slot_of (x div BSIZE)) \<noteq> 0"
    and bound: "off + m \<le> MAXFILE * BSIZE"
    and r: "loop_result i cp src (tot + m) (off + m) s2 tot' e s'"
  shows "loop_result i cp src tot off s tot' e s'"
proof -
  have t: "tot + m \<le> tot'" and e: "extends i s2 s'"
    and b: "\<And>x. x < MAXFILE * BSIZE \<Longrightarrow> byte_at s' i x =
      (if off + m \<le> x \<and> x < off + m + (tot' - (tot + m)) + e then src ! (tot + m + (x - (off + m))) else byte_at s2 i x)"
    and sl: "\<And>x. off + m \<le> x \<Longrightarrow> x < off + m + (tot' - (tot + m)) \<Longrightarrow> slot s' i (slot_of (x div BSIZE)) \<noteq> 0"
    using r by (auto simp: loop_result_def)
  have len: "off + m + (tot' - (tot + m)) = off + (tot' - tot)" using t by simp
  have "extends i s s'" using g w(1) e extends_trans unfolding grows_def by blast
  moreover have "byte_at s' i x = (if off \<le> x \<and> x < off + (tot' - tot) + e then src ! (tot + (x - off)) else byte_at s i x)"
    if "x < MAXFILE * BSIZE" for x
  proof (cases "off + m \<le> x")
    case True
    then have "tot + m + (x - (off + m)) = tot + (x - off)" by simp
    with True b [OF that] w(2) g that show ?thesis unfolding len grows_def by simp
  next
    case False
    with b [OF that] w(2) g that t show ?thesis unfolding grows_def by auto
  qed
  moreover have "slot s' i (slot_of (x div BSIZE)) \<noteq> 0" if "off \<le> x" "x < off + (tot' - tot)" for x
  proof (cases "off + m \<le> x")
    case True
    with sl that len show ?thesis by simp
  next
    case False
    then have "slot_of (x div BSIZE) < NSLOT" using bound by (intro slot_of_less off_less) simp
    then show ?thesis using slot_mono [OF e] slot that False by simp
  qed
  ultimately show ?thesis using r t unfolding loop_result_def by auto
qed

lemma loop_result_stop:
  assumes "grows i s s1" "tot' = tot" "tot + e \<le> length src"
    "extends i s1 s2" "e = 0 \<and> (tot = length src \<or> full s2) \<or> copy_fails cp"
    "\<forall>x < MAXFILE * BSIZE. byte_at s2 i x =
       (if off \<le> x \<and> x < off + e then src ! (tot + (x - off)) else byte_at s1 i x)"
  shows "loop_result i cp src tot off s tot' e s2"
  using assms extends_trans unfolding loop_result_def grows_def by (simp; blast)

lemma writei_loop_spec:
  assumes "fs_ok s" "map_ok s i" "tot \<le> n" "off + (n - tot) \<le> MAXFILE * BSIZE" "length src = n"
  shows "\<exists>tot' e s'. writei_loop i cp src n tot off s = Inr (tot', off + (tot' - tot), s')
    \<and> loop_result i cp src tot off s tot' e s'"
  using assms(1-4)
proof (induction "n - tot" arbitrary: tot off s rule: less_induct)
  case less
  show ?case
  proof (cases "tot < n")
    case False
    then have "loop_result i cp src tot off s tot 0 s"
      using less.prems assms(5) grows_refl extends_refl by (intro loop_result_stop) auto
    moreover have "writei_loop i cp src n tot off s = Inr (tot, off + (tot - tot), s)"
      using False by (subst writei_loop.simps) simp
    ultimately show ?thesis by blast
  next
    case True
    define m where "m = chunk n tot off"
    have m: "0 < m" "m \<le> n - tot" "m \<le> BSIZE - off mod BSIZE"
      using chunk_pos True by (auto simp: m_def chunk_def)
    have off: "off < MAXFILE * BSIZE" "off + m \<le> MAXFILE * BSIZE" using less.prems(4) True m by simp_all
    obtain a s1 where b: "bmap i (off div BSIZE) s = Inr (a, s1)" "grows i s s1"
      "if a = 0 then full s1 else slot s1 i (slot_of (off div BSIZE)) = a"
      using bmap_spec [OF less.prems(1,2) off_less [OF off(1)]] by blast
    have ok1: "fs_ok s1" "map_ok s1 i" using grows_ok [OF b(2)] by auto
    define bs where "bs = take m (drop tot src)"
    have bs: "length bs = m" "\<And>j. j < m \<Longrightarrow> bs ! j = src ! (tot + j)" using m assms(5) by (auto simp: bs_def)
    show ?thesis
    proof (cases "a = 0")
      case True
      then have "loop_result i cp src tot off s tot 0 s1"
        using b(3) b(2) extends_refl [OF ok1] less.prems(3) assms(5) by (intro loop_result_stop) auto
      moreover have "writei_loop i cp src n tot off s = Inr (tot, off + (tot - tot), s1)"
        using True \<open>tot < n\<close> b(1) by (subst writei_loop.simps) simp
      ultimately show ?thesis by blast
    next
      case False
      then have a: "slot s1 i (slot_of (off div BSIZE)) = a" using b(3) by simp
      note w = write_block [OF ok1 a False off(1) _ refl]
      have rec: "writei_loop i cp src n tot off s =
          (case cp tot m of
             Some k \<Rightarrow> Inr (tot, off, put_blk a (patch (off mod BSIZE) (take k bs) (blk s1 a)) s1)
           | None \<Rightarrow> writei_loop i cp src n (tot + m) (off + m)
               (log_blk a (put_blk a (patch (off mod BSIZE) bs (blk s1 a)) s1)))"
        using True False b(1) by (subst writei_loop.simps) (simp add: Let_def bs_def [symmetric] m_def [symmetric] split: option.split)
      show ?thesis
      proof (cases "cp tot m")
        case (Some k)
        have l: "length (take k bs) = min k m" "length (take k bs) \<le> BSIZE - off mod BSIZE" using bs m by auto
        have "loop_result i cp src tot off s tot (min k m) (put_blk a (patch (off mod BSIZE) (take k bs) (blk s1 a)) s1)"
          using w(1) [OF l(2)] w(3) [OF l(2)] b(2) Some m bs l assms(5) True
          by (intro loop_result_stop) (auto simp: copy_fails_def)
        with Some rec show ?thesis by (intro exI [of _ tot] exI [of _ "min k m"]) simp
      next
        case None
        define s2 where "s2 = log_blk a (put_blk a (patch (off mod BSIZE) bs (blk s1 a)) s1)"
        have l: "length bs \<le> BSIZE - off mod BSIZE" using bs m by simp
        have e2: "extends i s1 s2" unfolding s2_def by (rule extends_log) (rule w(1) [OF l])
        have sl2: "\<forall>k < NSLOT. slot s2 i k = slot s1 i k" using w(2) [OF l] by (simp add: s2_def)
        have by2: "\<forall>x < MAXFILE * BSIZE. byte_at s2 i x =
            (if off \<le> x \<and> x < off + m then src ! (tot + (x - off)) else byte_at s1 i x)"
          using w(3) [OF l] bs by (auto simp: s2_def)
        have "slot s2 i (slot_of (x div BSIZE)) \<noteq> 0" if "off \<le> x \<and> x < off + m" for x
        proof -
          have "x div BSIZE = off div BSIZE" using that m(3) in_block(1) [of "x - off" off] by force
          then show ?thesis using sl2 a False slot_of_less [OF off_less [OF off(1)]] by simp
        qed
        then have sl: "\<forall>x. off \<le> x \<and> x < off + m \<longrightarrow> slot s2 i (slot_of (x div BSIZE)) \<noteq> 0" by blast
        have ok2: "fs_ok s2" "map_ok s2 i" using e2 by (auto simp: extends_def)
        have "n - (tot + m) < n - tot" "tot + m \<le> n" "off + m + (n - (tot + m)) \<le> MAXFILE * BSIZE"
          using m True less.prems(4) by auto
        from less.hyps [OF this(1) ok2 this(2,3)] obtain tot' e s' where
          r: "writei_loop i cp src n (tot + m) (off + m) s2 = Inr (tot', off + m + (tot' - (tot + m)), s')"
             "loop_result i cp src (tot + m) (off + m) s2 tot' e s'" by blast
        have "loop_result i cp src tot off s tot' e s'"
          by (rule loop_result_step [OF b(2) e2 by2 sl off(2) r(2)])
        moreover have "off + m + (tot' - (tot + m)) = off + (tot' - tot)" using r(2) by (simp add: loop_result_def)
        ultimately show ?thesis using r(1) rec None by (auto simp: s2_def)
      qed
    qed
  qed
qed

section \<open>Writing the inode back\<close>

text \<open>A change of the inode that keeps its addresses keeps the bytes of every file.\<close>

lemma upd_ino_views:
  assumes "\<And>p. i_addrs (f p) = i_addrs p"
  shows "slot (upd_ino i f s) j k = slot s j k" "byte_at (upd_ino i f s) j x = byte_at s j x"
    "slots (upd_ino i f s) j = slots s j" "map_ok (upd_ino i f s) j = map_ok s j"
proof -
  have a: "i_addrs (ino (upd_ino i f s) j) = i_addrs (ino s j)" by (simp add: nth_modify_any assms)
  then have sl: "slot (upd_ino i f s) j k = slot s j k" for k by (simp add: slot_def Let_def)
  then show "slot (upd_ino i f s) j k = slot s j k" "byte_at (upd_ino i f s) j x = byte_at s j x"
    "slots (upd_ino i f s) j = slots s j" by (simp_all add: byte_at_def slots_def Let_def)
  show "map_ok (upd_ino i f s) j = map_ok s j"
    unfolding map_ok_def sl a by (simp add: data_block_def)
qed

text \<open>Nor does a change of a block in front of the bitmap matter to them.\<close>

lemma meta_write:
  assumes ok: "fs_ok s" and b: "b < sb_bmapstart (sb s)" "length v = BSIZE"
  shows "fs_ok (put_blk b v s)" "used (put_blk b v s) x = used s x" "data_block (put_blk b v s) x = data_block s x"
    "map_ok s j \<Longrightarrow> k < NSLOT \<Longrightarrow> slot (put_blk b v s) j k = slot s j k"
    "map_ok s j \<Longrightarrow> y < MAXFILE * BSIZE \<Longrightarrow> byte_at (put_blk b v s) j y = byte_at s j y"
    "map_ok s j \<Longrightarrow> map_ok (put_blk b v s) j"
    "map_ok s j \<Longrightarrow> slots (put_blk b v s) j = slots s j"
proof -
  have u: "used (put_blk b v s) x = used s x" for x
    using BBLOCK_bounds(1) [of s x] b by (intro used_other) simp
  then show "used (put_blk b v s) x = used s x" .
  show f: "fs_ok (put_blk b v s)" using ok b u by (simp add: fs_ok_def)
  have d: "data_block (put_blk b v s) x = data_block s x" for x using u by (simp add: data_block_def)
  then show "data_block (put_blk b v s) x = data_block s x" .
  have nb: "x \<noteq> b" if "data_block s x" for x using that b by (auto simp: data_block_def datastart_def)
  have sl: "slot (put_blk b v s) j k = slot s j k" if m: "map_ok s j" and k: "k < NSLOT" for k
  proof (cases "k \<le> NDIRECT")
    case False
    have "slot s j NDIRECT \<noteq> b" if "slot s j NDIRECT \<noteq> 0"
      using nb m that by (simp add: map_ok_def fs_consts)
    with False show ?thesis by (simp add: slot_indirect slot_direct)
  qed (simp add: slot_direct)
  then show "map_ok s j \<Longrightarrow> k < NSLOT \<Longrightarrow> slot (put_blk b v s) j k = slot s j k" by blast
  show "byte_at (put_blk b v s) j y = byte_at s j y" if m: "map_ok s j" and y: "y < MAXFILE * BSIZE"
  proof -
    let ?k = "slot_of (y div BSIZE)"
    have k: "?k < NSLOT" by (intro slot_of_less off_less y)
    have "slot s j ?k \<noteq> b" if "slot s j ?k \<noteq> 0" using nb m k that by (simp add: map_ok_def)
    then show ?thesis using sl [OF m k] by (auto simp: byte_at_def Let_def)
  qed
  show "map_ok (put_blk b v s) j" if m: "map_ok s j"
    using m sl [OF m] d unfolding map_ok_def by auto
  show "slots (put_blk b v s) j = slots s j" if m: "map_ok s j"
    using sl [OF m] by (simp add: slots_def)
qed

lemma length_concat_le32: "length (concat (map (\<lambda>a. le32 (of_nat a)) xs)) = 4 * length xs"
  by (induction xs) auto

lemma length_enc_dinode: "length (i_addrs p) = NDIRECT + 1 \<Longrightarrow> length (enc_dinode p) = 64"
  by (simp add: enc_dinode_def length_concat_le32 NDIRECT_def)

lemma length_put_dinode: "length d = BSIZE \<Longrightarrow> length v = 64 \<Longrightarrow> length (put_dinode (k mod IPB) v d) = BSIZE"
proof -
  assume "length d = BSIZE" "length v = 64"
  moreover have "k mod IPB < 16" by (simp add: IPB_def BSIZE_def)
  ultimately show ?thesis by (simp add: put_dinode_def BSIZE_def)
qed

lemma IBLOCK_less: "fs_ok s \<Longrightarrow> n < sb_ninodes (sb s) \<Longrightarrow> IBLOCK n s < sb_bmapstart (sb s)"
  using div_le_mono [of n "sb_ninodes (sb s)" IPB] by (simp add: IBLOCK_def fs_ok_def)

lemma iupdate_views:
  assumes ok: "fs_ok s" and m: "map_ok s i" "i_inum (ino s i) < sb_ninodes (sb s)"
  shows "fs_ok (iupdate i s)" "sb (iupdate i s) = sb s" "itable (iupdate i s) = itable s"
    "used (iupdate i s) x = used s x"
    "map_ok s j \<Longrightarrow> k < NSLOT \<Longrightarrow> slot (iupdate i s) j k = slot s j k"
    "map_ok s j \<Longrightarrow> y < MAXFILE * BSIZE \<Longrightarrow> byte_at (iupdate i s) j y = byte_at s j y"
    "map_ok s j \<Longrightarrow> map_ok (iupdate i s) j" "map_ok s j \<Longrightarrow> slots (iupdate i s) j = slots s j"
    "datastart s \<le> x \<Longrightarrow> blk (iupdate i s) x = blk s x"
proof -
  let ?b = "IBLOCK (i_inum (ino s i)) s"
  let ?v = "put_dinode (i_inum (ino s i) mod IPB) (enc_dinode (ino s i)) (blk s ?b)"
  have e: "iupdate i s = log_blk ?b (put_blk ?b ?v s)" by (simp add: iupdate_def write_dinode_def)
  have b: "?b < sb_bmapstart (sb s)" using IBLOCK_less ok m(2) by simp
  have v: "length ?v = BSIZE" using m(1) ok by (intro length_put_dinode) (auto simp: length_enc_dinode map_ok_def fs_ok_def)
  note w = meta_write [OF ok b v]
  show "fs_ok (iupdate i s)" "sb (iupdate i s) = sb s" "itable (iupdate i s) = itable s"
    "used (iupdate i s) x = used s x" using w by (simp_all add: e)
  show "map_ok s j \<Longrightarrow> k < NSLOT \<Longrightarrow> slot (iupdate i s) j k = slot s j k"
    "map_ok s j \<Longrightarrow> y < MAXFILE * BSIZE \<Longrightarrow> byte_at (iupdate i s) j y = byte_at s j y"
    "map_ok s j \<Longrightarrow> map_ok (iupdate i s) j" "map_ok s j \<Longrightarrow> slots (iupdate i s) j = slots s j"
    using w by (simp_all add: e)
  show "datastart s \<le> x \<Longrightarrow> blk (iupdate i s) x = blk s x" using b by (simp add: e datastart_def)
qed

section \<open>Correctness of writei\<close>

lemma patch_as_map:
  assumes "off \<le> length d"
  shows "patch off v d = map (\<lambda>x. if off \<le> x \<and> x < off + length v then v ! (x - off) else d ! x)
    [0..<max (length d) (off + length v)]"
  using assms by (intro nth_equalityI) (auto simp: patch_def nth_append)

definition set_size :: "nat \<Rightarrow> nat \<Rightarrow> fsys \<Rightarrow> fsys" where
  "set_size i off s = (if off > i_size (ino s i) then upd_ino i (\<lambda>p. p\<lparr>i_size := off\<rparr>) s else s)"

lemma set_size_views:
  "slot (set_size i z s) j k = slot s j k" "byte_at (set_size i z s) j x = byte_at s j x"
  "slots (set_size i z s) j = slots s j" "map_ok (set_size i z s) j = map_ok s j"
  "fs_ok (set_size i z s) = fs_ok s" "sb (set_size i z s) = sb s" "blk (set_size i z s) = blk s"
  "i_inum (ino (set_size i z s) i) = i_inum (ino s i)" "length (itable (set_size i z s)) = length (itable s)"
  "used (set_size i z s) x = used s x"
  by (simp_all add: set_size_def upd_ino_views nth_modify_any)

lemma extends_ino:
  assumes "extends i s s'" "i < length (itable s)"
  shows "i_size (ino s' i) = i_size (ino s i)" "i_inum (ino s' i) = i_inum (ino s i)"
    "j \<noteq> i \<Longrightarrow> ino s' j = ino s j" "length (itable s') = length (itable s)"
  using assms by (auto simp: extends_def nth_modify_any)

text \<open>A write request that passes the tests is the loop, the new size and \<open>iupdate\<close>.\<close>

lemma writei_effect:
  assumes ok: "fs_ok s" "file_ok s i" and off: "off \<le> i_size (ino s i)" "off + length src \<le> MAXFILE * BSIZE"
  obtains tot e s1 where
    "writei i cp src off (length src) s = Inr (int tot, iupdate i (set_size i (off + tot) s1))"
    "loop_result i cp src 0 off s tot e s1"
proof -
  have "map_ok s i" using ok(2) by (simp add: file_ok_def)
  from writei_loop_spec [OF ok(1) this, of 0 "length src" off src cp] off obtain tot e s1 where
    l: "writei_loop i cp src (length src) 0 off s = Inr (tot, off + tot, s1)" "loop_result i cp src 0 off s tot e s1"
    by auto
  have "MAXFILE * BSIZE < 2 ^ 32" by (simp add: fs_consts)
  then have "(off + length src) mod 2 ^ 32 = off + length src" using off(2) by simp
  then have "writei i cp src off (length src) s = Inr (int tot, iupdate i (set_size i (off + tot) s1))"
    using off l(1) by (simp add: writei_def set_size_def Let_def)
  with l(2) that show thesis by blast
qed

lemma file_ok_after_write:
  assumes ok: "file_ok s i" and off: "off \<le> i_size (ino s i)" "off + length src \<le> MAXFILE * BSIZE"
    and r: "loop_result i cp src 0 off s tot e s1" and s': "s' = iupdate i (set_size i (off + tot) s1)"
  shows "fs_ok s' \<and> file_ok s' i \<and> i_size (ino s' i) = max (i_size (ino s i)) (off + tot)
    \<and> (\<forall>x < MAXFILE * BSIZE. byte_at s' i x = byte_at s1 i x) \<and> (full s1 \<longrightarrow> full s')"
proof -
  let ?t = "set_size i (off + tot) s1"
  have e: "extends i s s1" "tot + e \<le> length src" using r by (auto simp: loop_result_def)
  have il: "i < length (itable s)" "i_inum (ino s i) < sb_ninodes (sb s)" using ok by (auto simp: file_ok_def map_ok_def)
  note f = extends_ino [OF e(1) il(1)]
  have t: "fs_ok ?t" "map_ok ?t i" "i_inum (ino ?t i) < sb_ninodes (sb ?t)"
    using e(1) f il by (auto simp: set_size_views extends_def)
  have size: "i_size (ino ?t i) = max (i_size (ino s i)) (off + tot)"
    using f il by (simp add: set_size_def nth_modify_any)
  note v = iupdate_views [OF t]
  have "slot s' i (slot_of (x div BSIZE)) \<noteq> 0" if x: "x < max (i_size (ino s i)) (off + tot)" for x
  proof -
    have "x < MAXFILE * BSIZE" using x ok off e(2) by (auto simp: file_ok_def)
    then have k: "slot_of (x div BSIZE) < NSLOT" by (intro slot_of_less off_less)
    have "slot s1 i (slot_of (x div BSIZE)) \<noteq> 0"
    proof (cases "x < i_size (ino s i)")
      case True
      then show ?thesis using ok slot_mono [OF e(1) k] by (simp add: file_ok_def)
    next
      case False
      then show ?thesis using x off(1) r by (simp add: loop_result_def)
    qed
    then show ?thesis using v(5) [OF t(2) k] by (simp add: s' set_size_views)
  qed
  moreover have "max (i_size (ino s i)) (off + tot) \<le> MAXFILE * BSIZE" using ok off e(2) by (simp add: file_ok_def)
  moreover have "full s1 \<longrightarrow> full s'" using v(2,4) by (simp add: full_def s' set_size_views)
  ultimately show ?thesis
    using t v size by (simp add: file_ok_def s' set_size_views)
qed

lemma writei_spec:
  assumes "fs_ok s" "file_ok s i" "off < 2 ^ 32" "length src < 2 ^ 32"
  shows "if off > i_size (ino s i) \<or> off + length src > MAXFILE * BSIZE
    then writei i cp src off (length src) s = Inr (-1, s)
    else \<exists>tot e s'. writei i cp src off (length src) s = Inr (int tot, s') \<and> fs_ok s' \<and> file_ok s' i
      \<and> contents s' i = take (max (i_size (ino s i)) (off + tot)) (patch off (take (tot + e) src) (contents s i))
      \<and> tot + e \<le> length src \<and> (e = 0 \<and> (tot = length src \<or> full s') \<or> copy_fails cp)"
proof (cases "off > i_size (ino s i) \<or> off + length src > MAXFILE * BSIZE")
  case True
  have "(off + length src) mod 2 ^ 32 < off \<or> (off + length src) mod 2 ^ 32 = off + length src"
    using assms(3,4) by (cases "off + length src < 2 ^ 32") (auto simp: mod_if)
  then have "writei i cp src off (length src) s = Inr (-1, s)" using True unfolding writei_def by force
  with True show ?thesis by simp
next
  case False
  then have off: "off \<le> i_size (ino s i)" "off + length src \<le> MAXFILE * BSIZE" by auto
  obtain tot e s1 where w: "writei i cp src off (length src) s = Inr (int tot, iupdate i (set_size i (off + tot) s1))"
    and r: "loop_result i cp src 0 off s tot e s1" using writei_effect [OF assms(1,2) off] by metis
  define s' where "s' = iupdate i (set_size i (off + tot) s1)"
  note f = file_ok_after_write [OF assms(2) off r s'_def]
  have te: "tot + e \<le> length src" using r by (simp add: loop_result_def)
  have "contents s' i = take (max (i_size (ino s i)) (off + tot)) (patch off (take (tot + e) src) (contents s i))"
  proof (rule nth_equalityI)
    show len: "length (contents s' i)
        = length (take (max (i_size (ino s i)) (off + tot)) (patch off (take (tot + e) src) (contents s i)))"
      using f off te by (simp add: contents_def patch_as_map)
    fix x assume "x < length (contents s' i)"
    then have x: "x < max (i_size (ino s i)) (off + tot)" using f by (simp add: contents_def)
    then have "x < MAXFILE * BSIZE" using off te assms(2) by (auto simp: file_ok_def)
    then show "contents s' i ! x
        = take (max (i_size (ino s i)) (off + tot)) (patch off (take (tot + e) src) (contents s i)) ! x"
      using x f r off te by (auto simp: contents_def patch_as_map loop_result_def)
  qed
  then have "writei i cp src off (length src) s = Inr (int tot, s') \<and> fs_ok s' \<and> file_ok s' i
      \<and> contents s' i = take (max (i_size (ino s i)) (off + tot)) (patch off (take (tot + e) src) (contents s i))
      \<and> tot + e \<le> length src \<and> (e = 0 \<and> (tot = length src \<or> full s') \<or> copy_fails cp)"
    using w r f te by (auto simp: s'_def loop_result_def)
  with False show ?thesis by auto
qed

text \<open>
  C6: \<open>writei\<close> writes the file as an array of bytes.  A request that starts behind
  the end of the file or would make it longer than 268 blocks is refused without
  a change.  Otherwise it returns the number \<open>tot\<close> of bytes written; the file then
  has those bytes at \<open>off\<close>, grown if they go past its end, and is unchanged
  elsewhere, and the invariants hold again.  Fewer bytes than asked for are written
  only if the disk is full or copying from the caller fails; in the second case a
  part \<open>e\<close> of the bytes after \<open>tot\<close> may be in the file too, though not counted.
\<close>

theorem writei_writes_byte_array:
  assumes "fs_ok s" "file_ok s i" "off < 2 ^ 32" "length src < 2 ^ 32"
  shows "if off > i_size (ino s i) \<or> off + length src > MAXFILE * BSIZE
    then writei i cp src off (length src) s = Inr (-1, s)
    else \<exists>tot e s'. writei i cp src off (length src) s = Inr (int tot, s') \<and> fs_ok s' \<and> file_ok s' i
      \<and> contents s' i = take (max (i_size (ino s i)) (off + tot)) (patch off (take (tot + e) src) (contents s i))
      \<and> tot + e \<le> length src \<and> (e = 0 \<and> (tot = length src \<or> full s') \<or> copy_fails cp)"
  using assms by (rule writei_spec)

theorem writei_writes_byte_array_witness:
  "\<exists>tot s'. writei 0 (\<lambda>t m. None) [99, 98] 2 2 mini_file = Inr (int tot, s') \<and> file_ok s' 0
     \<and> (tot = 2 \<and> contents s' 0 = patch 2 [99, 98] (contents mini_file 0) \<or> full s')"
proof -
  have z: "i_size (ino mini_file 0) = 3" "length (contents mini_file 0) = 3"
    by (simp_all add: mini_file_def mini_ino_def contents_def)
  have n: "\<not> copy_fails (\<lambda>t m. None)" by (simp add: copy_fails_def)
  have l: "length [99 :: uint8, 98] = 2" by simp
  have c: "\<not> (2 > i_size (ino mini_file 0) \<or> 2 + 2 > MAXFILE * BSIZE)" using z by (simp add: fs_consts)
  from writei_writes_byte_array [OF mini_file_ok mini_file_ok_0, of 2 "[99, 98]" "\<lambda>t m. None", unfolded l if_not_P [OF c]] n
  obtain tot s' where w: "writei 0 (\<lambda>t m. None) [99, 98] 2 2 mini_file = Inr (int tot, s')" "file_ok s' 0"
    "contents s' 0 = take (max (i_size (ino mini_file 0)) (2 + tot)) (patch 2 (take tot [99, 98]) (contents mini_file 0))"
    "tot = 2 \<or> full s'" by auto
  moreover have "take 4 (patch 2 [99, 98] (contents mini_file 0)) = patch 2 [99, 98] (contents mini_file 0)"
    using z by (intro take_all) (simp add: patch_def)
  ultimately show ?thesis using z by auto
qed

section \<open>Other files\<close>

lemma get_put_dinode:
  assumes "length d = BSIZE" "length v = 64" "k < IPB" "k' < IPB"
  shows "get_dinode (put_dinode k v d) k' = (if k' = k then v else get_dinode d k')"
proof (cases k k' rule: linorder_cases)
  case equal
  then show ?thesis using assms by (simp add: get_dinode_def put_dinode_def IPB_def BSIZE_def)
next
  case less
  then have "64 * k' = 64 * k + 64 + (64 * k' - (64 * k + 64))" by simp
  then obtain x where x: "64 * k' = 64 * k + 64 + x" by blast
  show ?thesis using less assms by (simp add: get_dinode_def put_dinode_def x IPB_def BSIZE_def add.commute)
next
  case greater
  then have "64 * k' + 64 \<le> 64 * k" "64 \<le> 64 * k - 64 * k'" by simp_all
  then show ?thesis using greater assms
    by (simp add: get_dinode_def put_dinode_def drop_take take_take min_def IPB_def BSIZE_def)
qed

lemma dinode_at_write:
  assumes "fs_ok s" "length v = 64"
  shows "dinode_at n (write_dinode inum v s) = (if n = inum then v else dinode_at n s)"
proof -
  have "n mod IPB < IPB" "inum mod IPB < IPB" by (simp_all add: IPB_def BSIZE_def)
  moreover have "length (blk s (IBLOCK inum s)) = BSIZE" using assms(1) by (simp add: fs_ok_def)
  moreover have "n = inum \<longleftrightarrow> n div IPB = inum div IPB \<and> n mod IPB = inum mod IPB" by (metis div_mult_mod_eq)
  ultimately show ?thesis using assms(2)
    by (simp add: dinode_at_def write_dinode_def IBLOCK_def get_put_dinode)
qed

lemma extends_other:
  assumes e: "extends i s s'" and j: "map_ok s j" "j \<noteq> i" "i < length (itable s)" and d: "slots s i \<inter> slots s j = {}"
  shows "\<forall>k < NSLOT. slot s' j k = slot s j k" "map_ok s' j" "slots s' j = slots s j" "slots s' i \<inter> slots s' j = {}"
    "\<forall>x < MAXFILE * BSIZE. byte_at s' j x = byte_at s j x"
proof -
  note f = extends_ino [OF e j(3)]
  have same: "blk s' (slot s j k) = blk s (slot s j k) \<and> slot s j k \<notin> slots s' i"
    if "k < NSLOT" "slot s j k \<noteq> 0" for k
  proof -
    have "data_block s (slot s j k)" "slot s j k \<in> slots s j" using that j(1) by (auto simp: map_ok_def slots_def)
    then show ?thesis using e d unfolding extends_def by blast
  qed
  have sl: "slot s' j k = slot s j k" if "k < NSLOT" for k
  proof (cases "k \<le> NDIRECT")
    case False
    have "slot s' j NDIRECT = slot s j NDIRECT" using f j by (simp add: slot_direct)
    moreover have "NDIRECT < NSLOT" by (simp add: fs_consts)
    ultimately show ?thesis using False same [of NDIRECT] by (simp add: slot_indirect)
  qed (use f j in \<open>simp add: slot_direct\<close>)
  then show "\<forall>k < NSLOT. slot s' j k = slot s j k" by blast
  show sls: "slots s' j = slots s j" using sl by (simp add: slots_def)
  have "x \<notin> slots s' i" if "x \<in> slots s j" for x using that same by (auto simp: slots_def [of s j])
  then show "slots s' i \<inter> slots s' j = {}" unfolding sls by blast
  show "map_ok s' j" using j sl f data_block_mono [OF e] unfolding map_ok_def by auto
  show "\<forall>x < MAXFILE * BSIZE. byte_at s' j x = byte_at s j x"
  proof (intro allI impI)
    fix x assume "x < MAXFILE * BSIZE"
    then have "slot_of (x div BSIZE) < NSLOT" by (intro slot_of_less off_less)
    then show "byte_at s' j x = byte_at s j x" using sl same by (simp add: byte_at_def Let_def)
  qed
qed

text \<open>
  C7: files do not interfere: writing to one file leaves the bytes, the size and the
  invariant of every other file as they were, the two files still share no block,
  and no other inode on disk changes.
\<close>

theorem writei_keeps_other_files:
  assumes "fs_ok s" "file_ok s i" "off < 2 ^ 32" "length src < 2 ^ 32"
    and "file_ok s j" "j \<noteq> i" "slots s i \<inter> slots s j = {}"
    and "writei i cp src off (length src) s = Inr (r, s')"
  shows "contents s' j = contents s j \<and> file_ok s' j \<and> slots s' i \<inter> slots s' j = {}
    \<and> ino s' j = ino s j \<and> (\<forall>n. n \<noteq> i_inum (ino s i) \<longrightarrow> n < sb_ninodes (sb s) \<longrightarrow> dinode_at n s' = dinode_at n s)"
proof (cases "off > i_size (ino s i) \<or> off + length src > MAXFILE * BSIZE")
  case True
  have "(off + length src) mod 2 ^ 32 < off \<or> (off + length src) mod 2 ^ 32 = off + length src"
    using assms(3,4) by (cases "off + length src < 2 ^ 32") (auto simp: mod_if)
  then have "s' = s" using True assms(8) unfolding writei_def by (auto split: if_splits)
  with assms show ?thesis by simp
next
  case False
  then have off: "off \<le> i_size (ino s i)" "off + length src \<le> MAXFILE * BSIZE" by auto
  obtain tot e s1 where s': "s' = iupdate i (set_size i (off + tot) s1)"
    and r: "loop_result i cp src 0 off s tot e s1" using writei_effect [OF assms(1,2) off] assms(8)
    by (metis sum.inject(2) prod.inject)
  let ?t = "set_size i (off + tot) s1"
  have e: "extends i s s1" using r by (simp add: loop_result_def)
  have il: "i < length (itable s)" "map_ok s i" "i_inum (ino s i) < sb_ninodes (sb s)" "map_ok s j"
    using assms(2,5) by (auto simp: file_ok_def map_ok_def)
  note f = extends_ino [OF e il(1)]
  note o = extends_other [OF e il(4) assms(6) il(1) assms(7)]
  have t: "fs_ok ?t" "map_ok ?t i" "i_inum (ino ?t i) < sb_ninodes (sb ?t)" "map_ok ?t j"
    using e f il o by (auto simp: set_size_views extends_def)
  note v = iupdate_views [OF t(1-3)]
  have ino: "ino s' j = ino s j" using f assms(6) v(3) by (simp add: s' set_size_def nth_modify_any)
  have sl: "slot s' j k = slot s j k" if "k < NSLOT" for k using that v(5) [OF t(4) that] o by (simp add: s' set_size_views)
  have bytes: "byte_at s' j x = byte_at s j x" if "x < MAXFILE * BSIZE" for x
    using that v(6) [OF t(4) that] o by (simp add: s' set_size_views)
  have sz: "i_size (ino s j) \<le> MAXFILE * BSIZE" using assms(5) by (simp add: file_ok_def)
  have "contents s' j = contents s j" using bytes sz ino by (simp add: contents_def)
  moreover have "file_ok s' j"
    unfolding file_ok_def ino
  proof (intro conjI)
    show "map_ok s' j" using v(7) [OF t(4)] by (simp add: s')
    show "\<forall>off < i_size (ino s j). slot s' j (slot_of (off div BSIZE)) \<noteq> 0"
      using assms(5) sl sz slot_of_less off_less by (auto simp: file_ok_def)
    show "i_inum (ino s j) < sb_ninodes (sb s')"
      using assms(5) e v(2) by (simp add: file_ok_def s' set_size_views extends_def)
  qed (rule sz)
  moreover have "slots s' i \<inter> slots s' j = {}" using o v(8) t by (simp add: s' set_size_views)
  moreover have "dinode_at n s' = dinode_at n s" if n: "n \<noteq> i_inum (ino s i)" "n < sb_ninodes (sb s)" for n
  proof -
    have "length (enc_dinode (ino ?t i)) = 64" using t(2) by (simp add: length_enc_dinode map_ok_def)
    then have "dinode_at n s' = dinode_at n ?t"
      using n(1) f t(1) by (simp add: s' iupdate_def dinode_at_write set_size_views)
    moreover have "IBLOCK n s1 = IBLOCK n s" using e by (simp add: IBLOCK_def extends_def)
    ultimately show ?thesis
      using e IBLOCK_less [OF assms(1) n(2)] by (simp add: dinode_at_def set_size_views IBLOCK_def extends_def)
  qed
  ultimately show ?thesis using ino by blast
qed

theorem writei_keeps_other_files_witness:
  "\<exists>r s'. writei 0 (\<lambda>t m. None) [99, 98] 2 2 mini_file = Inr (r, s') \<and> file_ok mini_file 1
     \<and> contents s' 1 = contents mini_file 1"
proof -
  have j: "file_ok mini_file 1"
    unfolding file_ok_def map_ok_def
    by (simp add: mini_slot del: One_nat_def) (simp add: mini_file_def mini_fs_def mini_ino_def fs_consts)
  have d: "slots mini_file 0 \<inter> slots mini_file 1 = {}" by (auto simp: slots_def mini_slot simp del: One_nat_def)
  have z: "2 \<le> i_size (ino mini_file 0)" "2 + length [99, 98] \<le> MAXFILE * BSIZE"
    by (simp_all add: mini_file_def mini_ino_def fs_consts)
  obtain r s' where w: "writei 0 (\<lambda>t m. None) [99, 98] 2 (length [99 :: uint8, 98]) mini_file = Inr (r, s')"
    using writei_effect [OF mini_file_ok mini_file_ok_0 z, of "\<lambda>t m. None"] by metis
  have l: "length [99 :: uint8, 98] = 2" by simp
  have "contents s' 1 = contents mini_file 1"
    using writei_keeps_other_files [OF mini_file_ok mini_file_ok_0 _ _ j _ d w] by simp
  with w [unfolded l] j show ?thesis by blast
qed

end
