(* ===== verification/Fs_Trans.thy ===== *)
theory Fs_Trans
  imports Fs_Write Log
begin

text \<open>
  How many blocks a write puts into the log.  \<open>filewrite\<close> (\<open>kernel/file.c\<close>) cuts a write
  into pieces so that each piece fits into one transaction; here it is shown that
  on a disk with one bitmap block a piece logs at most seven different blocks, below the
  limit \<open>MAXOPBLOCKS\<close> that theory \<open>Log_Steps\<close> asks of every call.
\<close>

section \<open>What bmap logs\<close>

definition logs :: "nat set \<Rightarrow> fsys \<Rightarrow> fsys \<Rightarrow> bool" where
  "logs B s s' \<longleftrightarrow> (\<exists>L. logged s' = logged s @ L \<and> set L \<subseteq> B)"

lemma logs_refl: "logs B s s"
  by (simp add: logs_def)

lemma logs_trans: "logs B s s' \<Longrightarrow> logs B s' s'' \<Longrightarrow> logs B s s''"
  unfolding logs_def by fastforce

lemma logs_mono: "logs A s s' \<Longrightarrow> A \<subseteq> B \<Longrightarrow> logs B s s'"
  unfolding logs_def by blast

definition bitmap_block :: "fsys \<Rightarrow> nat" where "bitmap_block s = sb_bmapstart (sb s)"

lemma bitmap_nonzero: "fs_ok s \<Longrightarrow> bitmap_block s \<noteq> 0"
  by (simp add: fs_ok_def bitmap_block_def)

lemma one_bitmap: "sb_size (sb s) \<le> BPB \<Longrightarrow> b < sb_size (sb s) \<Longrightarrow> BBLOCK b s = bitmap_block s"
  by (simp add: BBLOCK_def bitmap_block_def)

lemma bmap_logs:
  assumes ok: "fs_ok s" "map_ok s i" and one: "sb_size (sb s) \<le> BPB"
    and b: "bmap i bn s = Inr (a, s')" and bn: "bn < MAXFILE"
  shows "logs ({bitmap_block s, slot s' i NDIRECT, slot s' i (slot_of bn)} - {0}) s s'"
proof (cases "bn < NDIRECT")
  case True
  then have k: "slot_of bn = bn" by (simp add: slot_of_def)
  show ?thesis
  proof (cases "i_addrs (ino s i) ! bn = 0")
    case False
    then show ?thesis using b True by (simp add: bmap_def Let_def logs_refl)
  next
    case z: True
    from ok(1) show ?thesis
    proof (cases rule: balloc_cases)
      case full
      then show ?thesis using b True z by (simp add: bmap_def logs_refl)
    next
      case (found r)
      have s': "s' = upd_ino i (\<lambda>p. p\<lparr>i_addrs := (i_addrs p)[bn := r]\<rparr>) (take_block r s)"
        using b True z found by (auto simp: bmap_def)
      have "slot s' i bn = r" using ok(2) True by (simp add: s' slot_direct map_ok_def)
      then show ?thesis using one_bitmap [OF one found(4)] k found(2) bitmap_nonzero [OF ok(1)] by (simp add: s' logs_def)
    qed
  qed
next
  case False
  note bnz = bitmap_nonzero [OF ok(1)]
  define n where "n = bn - NDIRECT"
  have n: "bn = NDIRECT + n" "n < NINDIRECT" "slot_of bn = NDIRECT + 1 + n" using False bn
    by (simp_all add: n_def MAXFILE_def slot_of_def)
  obtain ind s1 where l: "load_indirect i s = (ind, s1)" by (cases "load_indirect i s")
  have sb: "sb s1 = sb s" and ok1: "fs_ok s1" "map_ok s1 i" and ind: "ind \<noteq> 0 \<Longrightarrow> slot s1 i NDIRECT = ind"
    using load_indirect_spec [OF ok] l by (auto simp: grows_def extends_def)
  have l1: "logs {bitmap_block s, ind} s s1"
  proof (cases "i_addrs (ino s i) ! NDIRECT = 0")
    case False
    then show ?thesis using l by (simp add: load_indirect_def Let_def logs_refl)
  next
    case z: True
    from ok(1) show ?thesis
    proof (cases rule: balloc_cases)
      case full
      then show ?thesis using l z by (simp add: load_indirect_def logs_refl)
    next
      case (found r)
      then show ?thesis using l z one_bitmap [OF one found(4)] by (auto simp: load_indirect_def logs_def)
    qed
  qed
  note bb = b [unfolded n(1) bmap_indirect_eq [OF n(2)] l]
  show ?thesis
  proof (cases "ind = 0")
    case True
    then have "s' = s1" using bb by simp
    moreover have "logs {bitmap_block s} s s1"
    proof -
      have "i_addrs (ino s i) ! NDIRECT = 0" using l True by (auto simp: load_indirect_def Let_def split: if_splits prod.splits)
      then have "s1 = snd (balloc s)" "fst (balloc s) = 0"
        using l True by (auto simp: load_indirect_def Let_def split: if_splits prod.splits)
      with ok(1) show ?thesis by (cases rule: balloc_cases) (simp_all add: logs_refl)
    qed
    ultimately show ?thesis using bnz by (auto intro: logs_mono)
  next
    case nz: False
    show ?thesis
    proof (cases "unat (get32 n (blk s1 ind)) = 0")
      case False
      then have "s' = s1" using bb nz by simp
      show ?thesis unfolding \<open>s' = s1\<close> by (rule logs_mono [OF l1]) (use ind nz bnz in auto)
    next
      case z: True
      from ok1(1) show ?thesis
      proof (cases rule: balloc_cases)
        case full
        then have "s' = s1" using bb nz z by simp
        show ?thesis unfolding \<open>s' = s1\<close> by (rule logs_mono [OF l1]) (use ind nz bnz in auto)
      next
        case (found r)
        let ?s = "log_blk ind (put_blk ind (put32 n (of_nat r) (blk (take_block r s1) ind)) (take_block r s1))"
        have s': "s' = ?s" using bb nz z found by auto
        have "slot s1 i (NDIRECT + 1 + n) = 0" using z ind [OF nz] nz by (simp add: slot_indirect)
        then have f: "fills i (NDIRECT + 1 + n) r s1 ?s"
          by (intro fills_indirect) (use ok1 n ind nz found in auto)
        then have sl: "slot s' i (slot_of bn) = r" "slot s' i NDIRECT = ind"
          using n ind nz by (auto simp: s' fills_def fs_consts)
        have "BBLOCK r s1 = bitmap_block s" using one_bitmap [of s1 r] one found(4) sb by (simp add: bitmap_block_def)
        then have "logs {bitmap_block s, ind, r} s1 s'" by (simp add: s' logs_def)
        moreover have "logs {bitmap_block s, ind, r} s s1" using l1 by (rule logs_mono) auto
        ultimately have "logs {bitmap_block s, ind, r} s s'" using logs_trans by blast
        then show ?thesis by (rule logs_mono) (use sl nz found(2) bnz in auto)
      qed
    qed
  qed
qed

section \<open>What writei logs\<close>

definition touched :: "fsys \<Rightarrow> nat \<Rightarrow> nat \<Rightarrow> nat \<Rightarrow> nat set" where
  "touched s i off len =
     {bitmap_block s, slot s i NDIRECT} \<union> (\<lambda>bn. slot s i (slot_of bn)) ` {bn. off div BSIZE \<le> bn \<and> bn * BSIZE < off + len}"

lemma div_times_le: "off div BSIZE * BSIZE \<le> (off :: nat)"
  by simp

lemma touched_mono:
  assumes e: "extends i s s'" and b: "\<forall>bn. bn * BSIZE < off + len \<longrightarrow> bn < MAXFILE"
    and r: "off div BSIZE \<le> off' div BSIZE" "off' + len' \<le> off + len"
  shows "touched s i off' len' - {0} \<subseteq> touched s' i off len - {0}"
proof
  fix x assume "x \<in> touched s i off' len' - {0}"
  then consider "x = bitmap_block s" "x \<noteq> 0" | "x = slot s i NDIRECT" "x \<noteq> 0"
    | bn where "x = slot s i (slot_of bn)" "off' div BSIZE \<le> bn" "bn * BSIZE < off' + len'" "x \<noteq> 0"
    by (auto simp: touched_def)
  then show "x \<in> touched s' i off len - {0}"
  proof cases
    case 1
    then show ?thesis using e by (simp add: touched_def bitmap_block_def extends_def)
  next
    case 2
    then have "slot s' i NDIRECT = x" using e by (simp add: extends_def fs_consts)
    with 2 show ?thesis by (auto simp: touched_def)
  next
    case (3 bn)
    then have bn: "bn < MAXFILE" "off div BSIZE \<le> bn" "bn * BSIZE < off + len" using b r by auto
    then have "slot s' i (slot_of bn) = x" using e 3 slot_of_less [OF bn(1)] by (simp add: extends_def)
    then have "x \<in> (\<lambda>bn. slot s' i (slot_of bn)) ` {bn. off div BSIZE \<le> bn \<and> bn * BSIZE < off + len}"
      using bn by blast
    with 3 show ?thesis by (simp add: touched_def)
  qed
qed

lemma writei_loop_logs:
  assumes "fs_ok s" "map_ok s i" "sb_size (sb s) \<le> BPB" "tot \<le> n" "off + (n - tot) \<le> MAXFILE * BSIZE" "length src = n"
    "writei_loop i cp src n tot off s = Inr (tot', off', s')"
  shows "logs (touched s' i off (n - tot) - {0}) s s'"
  using assms(1-5,7)
proof (induction "n - tot" arbitrary: tot off s rule: less_induct)
  case less
  show ?case
  proof (cases "tot < n")
    case False
    then have "s' = s" using less.prems(6) by (subst (asm) writei_loop.simps) simp
    then show ?thesis by (simp add: logs_refl)
  next
    case True
    define m where "m = chunk n tot off"
    have m: "0 < m" "m \<le> n - tot" "m \<le> BSIZE - off mod BSIZE"
      using chunk_pos True by (auto simp: m_def chunk_def)
    have off: "off < MAXFILE * BSIZE" using less.prems(5) True by simp
    have bnd: "\<forall>bn. bn * BSIZE < off + (n - tot) \<longrightarrow> bn < MAXFILE"
    proof (intro allI impI)
      fix bn assume "bn * BSIZE < off + (n - tot)"
      then have "bn * BSIZE < MAXFILE * BSIZE" using less.prems(5) by linarith
      then show "bn < MAXFILE" by (rule mult_less_cancel2 [THEN iffD1, THEN conjunct2])
    qed
    obtain a s1 where b: "bmap i (off div BSIZE) s = Inr (a, s1)" "grows i s s1"
      "if a = 0 then full s1 else slot s1 i (slot_of (off div BSIZE)) = a"
      using bmap_spec [OF less.prems(1,2) off_less [OF off]] by blast
    have ok1: "fs_ok s1" "map_ok s1 i" "sb s1 = sb s" using b(2) by (auto simp: grows_def extends_def)
    let ?T = "touched s1 i off 1"
    have l0: "logs (?T - {0}) s s1"
    proof (rule logs_mono [OF bmap_logs [OF less.prems(1-3) b(1) off_less [OF off]]])
      have "off div BSIZE * BSIZE < off + 1" using div_times_le [of off] by linarith
      with ok1(3) show "{bitmap_block s, slot s1 i NDIRECT, slot s1 i (slot_of (off div BSIZE))} - {0} \<subseteq> ?T - {0}"
        unfolding touched_def bitmap_block_def by fastforce
    qed
    have sub: "?T - {0} \<subseteq> touched t i off (n - tot) - {0}" if "extends i s1 t" for t
      by (rule touched_mono [OF that bnd]) (use True in simp_all)
    have l1: "logs (touched t i off (n - tot) - {0}) s s1" if "extends i s1 t" for t
      using l0 sub [OF that] by (rule logs_mono)
    show ?thesis
    proof (cases "a = 0 \<or> cp tot m \<noteq> None")
      case stop: True
      have a1: "a \<noteq> 0 \<Longrightarrow> slot s1 i (slot_of (off div BSIZE)) = a" using b(3) by simp
      show ?thesis
      proof (cases "a = 0")
        case a0: True
        then have "s' = s1" using less.prems(6) True b(1) by (subst (asm) writei_loop.simps) simp
        then show ?thesis using l1 [OF extends_refl] ok1 by simp
      next
        case False
        then obtain k where "cp tot m = Some k" using stop by auto
        then have s': "s' = put_blk a (patch (off mod BSIZE) (take k (take m (drop tot src))) (blk s1 a)) s1"
          using less.prems(6) True b(1) False
          by (subst (asm) writei_loop.simps) (auto simp: Let_def m_def [symmetric])
        have "extends i s1 s'"
          by (rule write_block(1) [OF ok1(1,2) a1 [OF False] False off _ s']) (use m in auto)
        from l1 [OF this] show ?thesis by (simp add: s' logs_def)
      qed
    next
      case False
      then have a: "a \<noteq> 0" "cp tot m = None" "slot s1 i (slot_of (off div BSIZE)) = a" using b(3) by auto
      let ?p = "put_blk a (patch (off mod BSIZE) (take m (drop tot src)) (blk s1 a)) s1"
      define s2 where "s2 = log_blk a ?p"
      have rec: "writei_loop i cp src n (tot + m) (off + m) s2 = Inr (tot', off', s')"
        using less.prems(6) True b(1) a
        by (subst (asm) writei_loop.simps) (simp add: Let_def s2_def m_def [symmetric])
      have "extends i s1 ?p" by (rule write_block(1) [OF ok1(1,2) a(3,1) off _ refl]) (use m in auto)
      then have e2: "extends i s1 s2" unfolding s2_def by (rule extends_log)
      have ok2: "fs_ok s2" "map_ok s2 i" "sb_size (sb s2) \<le> BPB" using e2 less.prems(3) ok1(3) by (auto simp: extends_def)
      have bnds: "n - (tot + m) < n - tot" "tot + m \<le> n" "off + m + (n - (tot + m)) \<le> MAXFILE * BSIZE"
        using m True less.prems(5) by auto
      have e3: "extends i s2 s'"
        using writei_loop_spec [OF ok2(1,2) bnds(2,3) assms(6), of cp] rec by (auto simp: loop_result_def)
      have "logs (touched s' i (off + m) (n - (tot + m)) - {0}) s2 s'"
        by (rule less.hyps [OF bnds(1) ok2 bnds(2,3) rec])
      moreover have "touched s' i (off + m) (n - (tot + m)) \<subseteq> touched s' i off (n - tot)"
        using m(2) div_le_mono [of off "off + m" BSIZE] by (auto simp: touched_def)
      ultimately have l3: "logs (touched s' i off (n - tot) - {0}) s2 s'" by (auto intro: logs_mono)
      have e: "extends i s1 s'" using extends_trans e2 e3 by blast
      have "a \<in> ?T - {0}"
      proof -
        have "off div BSIZE * BSIZE < off + 1" using div_times_le [of off] by linarith
        then show ?thesis using a by (auto simp: touched_def)
      qed
      then have "a \<in> touched s' i off (n - tot) - {0}"
        using sub [OF e] by blast
      then have "logs (touched s' i off (n - tot) - {0}) s1 s2" by (simp add: s2_def logs_def)
      with l1 [OF e] l3 show ?thesis using logs_trans by blast
    qed
  qed
qed

definition WRITE_MAX :: nat where "WRITE_MAX = ((MAXOPBLOCKS - 1 - 1 - 2) div 2) * BSIZE"

lemma card_touched:
  assumes "len \<le> WRITE_MAX"
  shows "finite (touched s i off len) \<and> card (touched s i off len) \<le> 6"
proof -
  let ?B = "{bn. off div BSIZE \<le> bn \<and> bn * BSIZE < off + len}"
  let ?I = "{off div BSIZE..<off div BSIZE + 4}"
  have "bn < off div BSIZE + 4" if "bn * BSIZE < off + len" for bn
  proof -
    have "off < (off div BSIZE + 1) * BSIZE" using dividend_less_div_times [OF BSIZE_pos, of off]
      by (simp add: algebra_simps)
    moreover have "len \<le> 3 * BSIZE" using assms by (simp add: WRITE_MAX_def MAXOPBLOCKS_def)
    ultimately have "bn * BSIZE < (off div BSIZE + 4) * BSIZE" using that by (simp add: algebra_simps)
    then show ?thesis by (rule mult_less_cancel2 [THEN iffD1, THEN conjunct2])
  qed
  then have sub: "?B \<subseteq> ?I" by auto
  then have fB: "finite ?B" by (rule finite_subset) simp
  have "card ?B \<le> card ?I" using sub by (intro card_mono) simp_all
  then have "card ((\<lambda>bn. slot s i (slot_of bn)) ` ?B) \<le> 4" using card_image_le [OF fB, of "\<lambda>bn. slot s i (slot_of bn)"] by simp
  moreover have "card {bitmap_block s, slot s i NDIRECT} \<le> 2" by (simp add: card_insert_if)
  ultimately show ?thesis
    using fB card_Un_le [of "{bitmap_block s, slot s i NDIRECT}" "(\<lambda>bn. slot s i (slot_of bn)) ` ?B"]
    by (simp add: touched_def)
qed

lemma writei_block_range:
  assumes "fs_ok s" "file_ok s i" "extends i s s1" "off + len \<le> MAXFILE * BSIZE"
    and b: "b \<in> touched s1 i off len - {0} \<or> b = IBLOCK (i_inum (ino (set_size i off' s1) i)) (set_size i off' s1)"
  shows "sb_inodestart (sb s) \<le> b \<and> b < sb_size (sb s)"
proof -
  have sb: "sb s1 = sb s" and m1: "map_ok s1 i" using assms(3) by (auto simp: extends_def)
  have lay: "sb_inodestart (sb s) + sb_ninodes (sb s) div IPB < sb_bmapstart (sb s)" "datastart s \<le> sb_size (sb s)"
    using assms(1) by (auto simp: fs_ok_def)
  have bm: "sb_bmapstart (sb s) < datastart s" by (simp add: datastart_def)
  have slot: "sb_inodestart (sb s) \<le> slot s1 i k \<and> slot s1 i k < sb_size (sb s)" if "k < NSLOT" "slot s1 i k \<noteq> 0" for k
    using m1 that lay bm sb by (auto simp: map_ok_def data_block_def datastart_def)
  have mx: "bn < MAXFILE" if "bn * BSIZE < off + len" for bn
  proof -
    have "bn * BSIZE < MAXFILE * BSIZE" using that assms(4) by linarith
    then show ?thesis by (rule mult_less_cancel2 [THEN iffD1, THEN conjunct2])
  qed
  from b show ?thesis
  proof
    assume "b \<in> touched s1 i off len - {0}"
    then consider "b = bitmap_block s1" | "b = slot s1 i NDIRECT" "b \<noteq> 0"
      | bn where "b = slot s1 i (slot_of bn)" "bn * BSIZE < off + len" "b \<noteq> 0"
      by (auto simp: touched_def)
    then show ?thesis
    proof cases
      case 1
      then show ?thesis using lay bm sb by (simp add: bitmap_block_def)
    next
      case 2
      then show ?thesis using slot [of NDIRECT] by (simp add: fs_consts)
    next
      case (3 bn)
      then show ?thesis using slot [OF slot_of_less [OF mx]] by simp
    qed
  next
    assume b: "b = IBLOCK (i_inum (ino (set_size i off' s1) i)) (set_size i off' s1)"
    have "i < length (itable s)" using assms(2) by (simp add: file_ok_def map_ok_def)
    then have "i_inum (ino (set_size i off' s1) i) = i_inum (ino s i)"
      using assms(3) by (auto simp: extends_def set_size_def)
    then have "i_inum (ino (set_size i off' s1) i) < sb_ninodes (sb s)"
      using assms(2) by (simp add: file_ok_def)
    then have "i_inum (ino (set_size i off' s1) i) div IPB \<le> sb_ninodes (sb s) div IPB"
      by (intro div_le_mono) simp
    moreover have "sb (set_size i off' s1) = sb s" using sb by (simp add: set_size_def)
    ultimately show ?thesis using b lay bm by (simp add: IBLOCK_def)
  qed
qed

lemma writei_logged_blocks:
  assumes "fs_ok s" "file_ok s i" "sb_size (sb s) \<le> BPB" "off < 2 ^ 32" "length src \<le> WRITE_MAX"
    and "writei i cp src off (length src) s = Inr (r, s')"
  shows "\<exists>L. logged s' = logged s @ L \<and> card (set L) \<le> 7 \<and>
    (\<forall>b \<in> set L. sb_inodestart (sb s) \<le> b \<and> b < sb_size (sb s))"
proof (cases "off > i_size (ino s i) \<or> off + length src > MAXFILE * BSIZE")
  case True
  have "length src < 2 ^ 32" using assms(5) by (simp add: WRITE_MAX_def MAXOPBLOCKS_def fs_consts)
  then have "s' = s" using writei_spec [OF assms(1,2,4), of src cp] True assms(6) by auto
  then show ?thesis by simp
next
  case False
  have m: "map_ok s i" using assms(2) by (simp add: file_ok_def)
  have off: "off + (length src - 0) \<le> MAXFILE * BSIZE" using False by simp
  have "MAXFILE * BSIZE < 2 ^ 32" by (simp add: fs_consts)
  then have md: "(off + length src) mod 2 ^ 32 = off + length src" using False by simp
  then obtain tot off' s1 where l: "writei_loop i cp src (length src) 0 off s = Inr (tot, off', s1)"
    and s': "s' = iupdate i (set_size i off' s1)"
    using False assms(6) by (auto simp: writei_def bindR_Inr set_size_def Let_def split: if_splits)
  from writei_loop_logs [OF assms(1) m assms(3) _ off refl l]
  obtain L where L: "logged s1 = logged s @ L" "set L \<subseteq> touched s1 i off (length src) - {0}" by (auto simp: logs_def)
  have e: "extends i s s1"
    using writei_loop_spec [OF assms(1) m _ off refl, of cp] l by (auto simp: loop_result_def)
  let ?b = "IBLOCK (i_inum (ino (set_size i off' s1) i)) (set_size i off' s1)"
  have "logged s' = logged s @ (L @ [?b])"
    using L(1) by (simp add: s' iupdate_def write_dinode_def set_size_def)
  moreover have "card (set L) \<le> 6"
    using card_touched [OF assms(5), of s1 i off] L(2) by (meson card_mono le_trans Diff_subset subset_trans)
  then have "card (set (L @ [?b])) \<le> 7" by (simp add: card_insert_if)
  moreover have "sb_inodestart (sb s) \<le> b \<and> b < sb_size (sb s)" if "b \<in> set (L @ [?b])" for b
    using that L(2) e False assms(1,2) by (intro writei_block_range [OF assms(1,2) e]) auto
  ultimately show ?thesis by (intro exI [of _ "L @ [?b]"]) blast
qed

text \<open>
  C11: a piece of a write fits into a transaction: on a disk whose bitmap is one block,
  \<open>writei\<close> of at most as many bytes as \<open>filewrite\<close> puts into one piece logs at most
  seven different blocks, four data blocks, the indirect block, the bitmap block and the inode
  block, so it keeps within \<open>MAXOPBLOCKS\<close>.
\<close>

theorem writei_fits_transaction:
  assumes "fs_ok s" "file_ok s i" "sb_size (sb s) \<le> BPB" "off < 2 ^ 32" "length src \<le> WRITE_MAX"
    and "writei i cp src off (length src) s = Inr (r, s')"
  shows "\<exists>L. logged s' = logged s @ L \<and> card (set L) \<le> 7 \<and> card (set L) \<le> MAXOPBLOCKS"
  using writei_logged_blocks [OF assms] by (fastforce simp: MAXOPBLOCKS_def)

theorem writei_fits_transaction_witness:
  "\<exists>r s' L. writei 0 (\<lambda>t m. None) [99, 98] 2 (length [99 :: uint8, 98]) mini_file = Inr (r, s')
     \<and> logged s' = logged mini_file @ L \<and> card (set L) \<le> 7"
proof -
  have z: "2 \<le> i_size (ino mini_file 0)" "2 + length [99, 98] \<le> MAXFILE * BSIZE"
    by (simp_all add: mini_file_def mini_ino_def fs_consts)
  obtain r s' where w: "writei 0 (\<lambda>t m. None) [99, 98] 2 (length [99 :: uint8, 98]) mini_file = Inr (r, s')"
    using writei_effect [OF mini_file_ok mini_file_ok_0 z, of "\<lambda>t m. None"] by metis
  have c: "sb_size (sb mini_file) \<le> BPB" "length [99 :: uint8, 98] \<le> WRITE_MAX"
    by (simp_all add: mini_file_def mini_fs_def BPB_def BSIZE_def WRITE_MAX_def MAXOPBLOCKS_def)
  from writei_fits_transaction [OF mini_file_ok mini_file_ok_0 c(1) _ c(2) w] w show ?thesis by auto
qed

end
