(* ===== verification/File_Io.thy ===== *)
theory File_Io
  imports Fs_Trans Ftable
begin

text \<open>
  Reading and writing through an open file (\<open>xv6-riscv/kernel/file.c\<close>: \<open>filestat\<close>,
  \<open>fileread\<close>, \<open>filewrite\<close>).  The inode branch is followed into the file system; what
  \<open>piperead\<close> or \<open>pipewrite\<close> answers is the argument \<open>pr\<close>, what a device driver answers
  is \<open>dr\<close>, \<open>None\<close> if the device has no such operation.  \<open>cps i\<close> is the copy from the caller's buffer at
  position \<open>i\<close>.
\<close>

definition NDEV :: int where "NDEV = 10"

definition filestat :: "int \<Rightarrow> bool \<Rightarrow> struct_file \<Rightarrow> fsys \<Rightarrow> fs_error + int \<times> stat option \<times> fsys" where
  "filestat me copy_ok f s =
     (if f_type f = FD_INODE \<or> f_type f = FD_DEVICE then
        bindR (ilock me (f_ip f) s) (\<lambda>s1.
          let st = stati (f_ip f) s1 in
          bindR (iunlock me (f_ip f) s1) (\<lambda>s2.
            if copy_ok then Inr (0, Some st, s2) else Inr (-1, None, s2)))
      else Inr (-1, None, s))"

definition fileread ::
  "int \<Rightarrow> int \<Rightarrow> int option \<Rightarrow> copy \<Rightarrow> struct_file \<Rightarrow> int \<Rightarrow> fsys \<Rightarrow> fs_error + int \<times> uint8 list \<times> struct_file \<times> fsys" where
  "fileread me pr dr cp f n s =
     (if \<not> f_readable f then Inr (-1, [], f, s)
      else case f_type f of
        FD_PIPE \<Rightarrow> Inr (pr, [], f, s)
      | FD_DEVICE \<Rightarrow>
          if f_major f < 0 \<or> f_major f \<ge> NDEV then Inr (-1, [], f, s)
          else (case dr of None \<Rightarrow> Inr (-1, [], f, s) | Some r \<Rightarrow> Inr (r, [], f, s))
      | FD_INODE \<Rightarrow>
          bindR (ilock me (f_ip f) s) (\<lambda>s1.
          bindR (readi (f_ip f) cp (unat (f_off f)) (nat (n mod 2 ^ 32)) s1) (\<lambda>(r, bs, s2).
            let f1 = (if r > 0 then f\<lparr>f_off := f_off f + of_int r\<rparr> else f) in
            bindR (iunlock me (f_ip f) s2) (\<lambda>s3. Inr (r, bs, f1, s3))))
      | FD_NONE \<Rightarrow> Inl (FsPanic ''fileread''))"

text \<open>The loop of \<open>filewrite\<close>, with the position \<open>i\<close> in the \<open>n\<close> bytes \<open>src\<close>.\<close>

function filewrite_loop ::
  "int \<Rightarrow> (nat \<Rightarrow> copy) \<Rightarrow> uint8 list \<Rightarrow> nat \<Rightarrow> struct_file \<Rightarrow> fsys \<Rightarrow> fs_error + nat \<times> struct_file \<times> fsys" where
  "filewrite_loop me cps src i f s =
     (if i < length src then
        let n1 = min (length src - i) WRITE_MAX in
        bindR (ilock me (f_ip f) s) (\<lambda>s1.
        bindR (writei (f_ip f) (cps i) (take n1 (drop i src)) (unat (f_off f)) n1 s1) (\<lambda>(r, s2).
          let f1 = (if r > 0 then f\<lparr>f_off := f_off f + of_int r\<rparr> else f) in
          bindR (iunlock me (f_ip f) s2) (\<lambda>s3.
            if r \<noteq> int n1 then Inr (i, f1, s3)
            else filewrite_loop me cps src (i + nat r) f1 s3)))
      else Inr (i, f, s))"
  by pat_completeness auto
termination
  by (relation "measure (\<lambda>(me, cps, src, i, f, s). length src - i)")
    (auto simp: WRITE_MAX_def MAXOPBLOCKS_def BSIZE_def)

declare filewrite_loop.simps [simp del]

text \<open>\<open>src\<close> are the bytes of the caller if \<open>n\<close> is positive.\<close>

definition filewrite ::
  "int \<Rightarrow> int \<Rightarrow> int option \<Rightarrow> (nat \<Rightarrow> copy) \<Rightarrow> struct_file \<Rightarrow> uint8 list \<Rightarrow> int \<Rightarrow> fsys \<Rightarrow> fs_error + int \<times> struct_file \<times> fsys" where
  "filewrite me pr dr cps f src n s =
     (if \<not> f_writable f then Inr (-1, f, s)
      else case f_type f of
        FD_PIPE \<Rightarrow> Inr (pr, f, s)
      | FD_DEVICE \<Rightarrow>
          if f_major f < 0 \<or> f_major f \<ge> NDEV then Inr (-1, f, s)
          else (case dr of None \<Rightarrow> Inr (-1, f, s) | Some r \<Rightarrow> Inr (r, f, s))
      | FD_INODE \<Rightarrow>
          bindR (filewrite_loop me cps (take (nat n) src) 0 f s) (\<lambda>(i, f1, s1).
            Inr (if int i = n then n else -1, f1, s1))
      | FD_NONE \<Rightarrow> Inl (FsPanic ''filewrite''))"

section \<open>Writing through a descriptor\<close>

lemma patch_patch:
  assumes "off \<le> length c" "a + length v \<le> length w" "v = take (length v) (drop a w)"
  shows "patch (off + a) v (patch off (take a w) c) = patch off (take (a + length v) w) c"
proof (rule nth_equalityI)
  have l: "length (take a w) = a" "length (take (a + length v) w) = a + length v" using assms(2) by simp_all
  then show len: "length (patch (off + a) v (patch off (take a w) c)) = length (patch off (take (a + length v) w) c)"
    using assms(1) by (simp add: patch_def)
  fix j assume "j < length (patch (off + a) v (patch off (take a w) c))"
  have v: "v ! k = w ! (a + k)" if "k < length v" for k
    using that assms(2,3) by (metis nth_drop nth_take add_leD1)
  show "patch (off + a) v (patch off (take a w) c) ! j = patch off (take (a + length v) w) c ! j"
    using assms(1,2) l v by (auto simp: patch_def nth_append ac_simps)
qed

text \<open>An inode that a call can lock and find loaded.\<close>

definition ready :: "fsys \<Rightarrow> nat \<Rightarrow> bool" where
  "ready s i \<longleftrightarrow> fs_ok s \<and> file_ok s i \<and> i_owner (ino s i) = None \<and> i_valid (ino s i) \<and> 0 < i_ref (ino s i)"

abbreviation owned :: "int option \<Rightarrow> nat \<Rightarrow> fsys \<Rightarrow> fsys" where
  "owned w i s \<equiv> upd_ino i (\<lambda>p. p\<lparr>i_owner := w\<rparr>) s"

lemma owned_views:
  assumes "i < length (itable s)"
  shows "file_ok (owned w i s) i = file_ok s i" "contents (owned w i s) i = contents s i"
    "i_size (ino (owned w i s) i) = i_size (ino s i)" "full (owned w i s) = full s"
proof -
  have v: "slot (owned w i s) i k = slot s i k" "byte_at (owned w i s) i x = byte_at s i x"
    "map_ok (owned w i s) i = map_ok s i" for k x by (simp_all add: upd_ino_views)
  show sz: "i_size (ino (owned w i s) i) = i_size (ino s i)" using assms by simp
  show "file_ok (owned w i s) i = file_ok s i" using assms by (simp add: file_ok_def v)
  show "contents (owned w i s) i = contents s i" unfolding contents_def sz using v(2) by simp
  show "full (owned w i s) = full s" by (simp add: full_def)
qed

lemma writei_ino:
  assumes ok: "fs_ok s" "file_ok s i" and off: "off \<le> i_size (ino s i)" "off + length src \<le> MAXFILE * BSIZE"
    and w: "writei i cp src off (length src) s = Inr (r, s')"
  shows "i_owner (ino s' i) = i_owner (ino s i)" "i_valid (ino s' i) = i_valid (ino s i)" "i_ref (ino s' i) = i_ref (ino s i)"
    "length (itable s') = length (itable s)"
proof -
  have il: "i < length (itable s)" using ok(2) by (simp add: file_ok_def map_ok_def)
  obtain tot e s1 where s': "s' = iupdate i (set_size i (off + tot) s1)" and e: "extends i s s1"
    using writei_effect [OF ok off, of cp] w by (auto simp: loop_result_def) (metis sum.inject(2) prod.inject)
  from e obtain ad where "itable s1 = modify i (\<lambda>p. p\<lparr>i_addrs := ad\<rparr>) (itable s)" by (auto simp: extends_def)
  with il show "i_owner (ino s' i) = i_owner (ino s i)" "i_valid (ino s' i) = i_valid (ino s i)"
    "i_ref (ino s' i) = i_ref (ino s i)" "length (itable s') = length (itable s)"
    by (simp_all add: s' iupdate_def write_dinode_def set_size_def)
qed

text \<open>One piece of a write.\<close>

lemma write_piece:
  assumes r: "ready s i" and off: "off \<le> i_size (ino s i)" "off + length v \<le> MAXFILE * BSIZE"
  obtains tot s2 where "ilock me i s = Inr (owned (Some me) i s)"
    "writei i (\<lambda>t m. None) v off (length v) (owned (Some me) i s) = Inr (int tot, s2)"
    "iunlock me i s2 = Inr (owned None i s2)" "ready (owned None i s2) i"
    "contents (owned None i s2) i = patch off (take tot v) (contents s i)" "tot \<le> length v"
    "tot = length v \<or> full (owned None i s2)"
proof -
  let ?t = "owned (Some me) i s"
  have il: "i < length (itable s)" using r by (simp add: ready_def file_ok_def map_ok_def)
  have t: "fs_ok ?t" "file_ok ?t i" "i_size (ino ?t i) = i_size (ino s i)" "contents ?t i = contents s i"
    using r owned_views [OF il] by (simp_all add: ready_def)
  have off': "off \<le> i_size (ino ?t i)" using off t(3) by simp
  have "MAXFILE * BSIZE < 2 ^ 32" by (simp add: fs_consts)
  then have sm: "off < 2 ^ 32" "length v < 2 ^ 32 \<or> length v = 2 ^ 32" using off(2) by linarith+
  then have sm2: "length v < 2 ^ 32" using off(2) by (simp add: fs_consts)
  have nf: "\<not> copy_fails (\<lambda>t m. None)" by (simp add: copy_fails_def)
  have c: "\<not> (off > i_size (ino ?t i) \<or> off + length v > MAXFILE * BSIZE)" using off off' by simp
  from writei_spec [OF t(1,2) sm(1) sm2, of "\<lambda>t m. None", unfolded if_not_P [OF c]] nf
  obtain tot s2 where w: "writei i (\<lambda>t m. None) v off (length v) ?t = Inr (int tot, s2)" "fs_ok s2" "file_ok s2 i"
    "contents s2 i = take (max (i_size (ino ?t i)) (off + tot)) (patch off (take tot v) (contents ?t i))"
    "tot \<le> length v" "tot = length v \<or> full s2" by auto
  note f = writei_ino [OF t(1,2) off' off(2) w(1)]
  have il2: "i < length (itable s2)" using f(4) il by simp
  have o2: "i_owner (ino s2 i) = Some me" "i_ref (ino s2 i) = i_ref (ino s i)" "i_valid (ino s2 i)"
    using f il r by (simp_all add: ready_def)
  have "ilock me i s = Inr ?t" using r il by (simp add: ilock_def acquiresleep_def ready_def)
  moreover have "iunlock me i s2 = Inr (owned None i s2)" using o2 r by (simp add: iunlock_def ready_def)
  moreover have "ready (owned None i s2) i"
    using w(2,3) o2 r owned_views(1) [OF il2] il2 by (simp add: ready_def)
  moreover have "length (patch off (take tot v) (contents s i)) \<le> max (i_size (ino s i)) (off + tot)"
    using off w(5) by (simp add: patch_def contents_def)
  then have "contents (owned None i s2) i = patch off (take tot v) (contents s i)"
    using w(4) t(3,4) owned_views(2) [OF il2] by simp
  moreover have "tot = length v \<or> full (owned None i s2)" using w(6) owned_views(4) [OF il2] by simp
  ultimately show thesis using that w(1,5) by blast
qed

lemma off_add:
  assumes "unat (x :: uint32) + n < 2 ^ 32"
  shows "unat (x + of_int (int n)) = unat x + n"
proof -
  have "unat (of_nat n :: uint32) = n" using assms by (simp add: unat_of_nat)
  then show ?thesis using assms by (simp add: unat_word_ariths)
qed

lemma filewrite_loop_spec:
  assumes "ready s (f_ip f)" "i \<le> length src" "unat (f_off f) = b + i" "b \<le> length c" "b + length src \<le> MAXFILE * BSIZE"
    "contents s (f_ip f) = patch b (take i src) c"
  shows "\<exists>i' k f' s'. filewrite_loop me (\<lambda>i t m. None) src i f s = Inr (i', f', s') \<and> ready s' (f_ip f)
    \<and> contents s' (f_ip f) = patch b (take k src) c \<and> unat (f_off f') = b + k
    \<and> (i' = length src \<and> k = length src \<or> i' < length src \<and> k < length src \<and> full s')"
  using assms(1-3,6)
proof (induction "length src - i" arbitrary: i f s rule: less_induct)
  case less
  let ?ip = "f_ip f"
  show ?case
  proof (cases "i < length src")
    case False
    then show ?thesis using less.prems by (subst filewrite_loop.simps) auto
  next
    case True
    define n1 where "n1 = min (length src - i) WRITE_MAX"
    have n1: "0 < n1" "i + n1 \<le> length src" using True by (auto simp: n1_def WRITE_MAX_def MAXOPBLOCKS_def BSIZE_def)
    define v where "v = take n1 (drop i src)"
    have lv: "length v = n1" using n1 by (simp add: v_def)
    have "length (contents s ?ip) = length (patch b (take i src) c)" using less.prems(4) by simp
    then have "b + i \<le> i_size (ino s ?ip)" using assms(4) True by (simp add: contents_def patch_def)
    then have off: "unat (f_off f) \<le> i_size (ino s ?ip)" "unat (f_off f) + length v \<le> MAXFILE * BSIZE"
      using less.prems(3) lv n1 assms(5) by simp_all
    obtain tot s2 where p: "ilock me ?ip s = Inr (owned (Some me) ?ip s)"
      "writei ?ip (\<lambda>t m. None) v (unat (f_off f)) (length v) (owned (Some me) ?ip s) = Inr (int tot, s2)"
      "iunlock me ?ip s2 = Inr (owned None ?ip s2)" "ready (owned None ?ip s2) ?ip"
      "contents (owned None ?ip s2) ?ip = patch (unat (f_off f)) (take tot v) (contents s ?ip)" "tot \<le> length v"
      "tot = length v \<or> full (owned None ?ip s2)"
      using write_piece [OF less.prems(1) off] by blast
    define f1 where "f1 = (if int tot > 0 then f\<lparr>f_off := f_off f + of_int (int tot)\<rparr> else f)"
    have "MAXFILE * BSIZE < 2 ^ 32" by (simp add: fs_consts)
    then have "unat (f_off f) + tot < 2 ^ 32" using off(2) p(6) by linarith
    then have fo: "unat (f_off f1) = b + (i + tot)" using off_add less.prems(3) by (simp add: f1_def)
    have fip: "f_ip f1 = ?ip" by (simp add: f1_def)
    have step: "filewrite_loop me (\<lambda>i t m. None) src i f s =
        (if int tot \<noteq> int n1 then Inr (i, f1, owned None ?ip s2)
         else filewrite_loop me (\<lambda>i t m. None) src (i + nat (int tot)) f1 (owned None ?ip s2))"
      using True p(1-3) lv
      by (subst filewrite_loop.simps) (simp add: n1_def [symmetric] v_def [symmetric] f1_def Let_def)
    have tv: "take tot v = take (length (take tot v)) (drop i src)" "length (take tot v) = tot" using p(6) lv n1 by (auto simp: v_def min_def)
    have "patch (b + i) (take tot v) (patch b (take i src) c) = patch b (take (i + length (take tot v)) src) c"
      by (rule patch_patch) (use assms(4) tv n1 p(6) lv in auto)
    then have con: "contents (owned None ?ip s2) ?ip = patch b (take (i + tot) src) c"
      using p(5) less.prems(3,4) tv(2) by simp
    show ?thesis
    proof (cases "tot = n1")
      case False
      then have "filewrite_loop me (\<lambda>i t m. None) src i f s = Inr (i, f1, owned None ?ip s2)" "i + tot < length src"
        "full (owned None ?ip s2)" using step p(6,7) lv n1 by auto
      with con p(4) fo True show ?thesis by blast
    next
      case eq: True
      have "length src - (i + tot) < length src - i" "i + tot \<le> length src" using eq n1 True by auto
      from less.hyps [OF this(1), of "owned None ?ip s2" f1, unfolded fip, OF p(4) this(2) fo con] obtain i' k f' s' where
        "filewrite_loop me (\<lambda>i t m. None) src (i + tot) f1 (owned None ?ip s2) = Inr (i', f', s')" "ready s' ?ip"
        "contents s' ?ip = patch b (take k src) c" "unat (f_off f') = b + k"
        "i' = length src \<and> k = length src \<or> i' < length src \<and> k < length src \<and> full s'" by blast
      then show ?thesis using step eq by auto
    qed
  qed
qed

text \<open>
  C12: writing through a descriptor.  For a writable descriptor of a file whose inode
  can be locked and a caller whose buffer can be read, \<open>filewrite\<close> puts a prefix of
  the bytes at the descriptor's offset, however many pieces it takes, and moves the
  offset behind what was written; it returns the number of bytes if all were
  written and \<open>-1\<close> otherwise, which happens only when the disk is full.
\<close>

theorem filewrite_writes_prefix:
  assumes "ready s (f_ip f)" "f_writable f" "f_type f = FD_INODE"
    and "unat (f_off f) \<le> i_size (ino s (f_ip f))" "unat (f_off f) + length src \<le> MAXFILE * BSIZE"
  shows "\<exists>r k f' s'. filewrite me pr dr (\<lambda>i t m. None) f src (int (length src)) s = Inr (r, f', s') \<and> ready s' (f_ip f)
    \<and> contents s' (f_ip f) = patch (unat (f_off f)) (take k src) (contents s (f_ip f))
    \<and> unat (f_off f') = unat (f_off f) + k
    \<and> (r = int (length src) \<and> k = length src \<or> r = -1 \<and> k < length src \<and> full s')"
proof -
  have len: "unat (f_off f) \<le> length (contents s (f_ip f))" using assms(4) by (simp add: contents_def)
  have p0: "contents s (f_ip f) = patch (unat (f_off f)) (take 0 src) (contents s (f_ip f))" by (simp add: patch_def)
  obtain i' k f' s' where l: "filewrite_loop me (\<lambda>i t m. None) src 0 f s = Inr (i', f', s')" "ready s' (f_ip f)"
    "contents s' (f_ip f) = patch (unat (f_off f)) (take k src) (contents s (f_ip f))" "unat (f_off f') = unat (f_off f) + k"
    "i' = length src \<and> k = length src \<or> i' < length src \<and> k < length src \<and> full s'"
    using filewrite_loop_spec [OF assms(1) _ _ len assms(5) p0, of me] by auto
  then have "filewrite me pr dr (\<lambda>i t m. None) f src (int (length src)) s
      = Inr (if i' = length src then int (length src) else -1, f', s')"
    using assms(2,3) by (simp add: filewrite_def)
  with l(2-5) show ?thesis by fastforce
qed

text \<open>A descriptor at the end of the three byte file.\<close>

definition mini_fd :: struct_file where
  "mini_fd = \<lparr>f_type = FD_INODE, f_ref = 1, f_readable = True, f_writable = True, f_pipe = 0, f_ip = 0, f_off = 3, f_major = 0\<rparr>"

theorem filewrite_writes_prefix_witness:
  "\<exists>r k f' s'. filewrite 1 0 None (\<lambda>i t m. None) mini_fd [1, 2] 2 mini_file = Inr (r, f', s')
     \<and> contents s' 0 = patch 3 (take k [1, 2]) (contents mini_file 0)"
proof -
  have r: "ready mini_file (f_ip mini_fd)"
    using mini_file_ok mini_file_ok_0 by (simp add: ready_def mini_fd_def) (simp add: mini_file_def mini_ino_def)
  have f: "f_writable mini_fd" "f_type mini_fd = FD_INODE" "f_ip mini_fd = 0" "unat (f_off mini_fd) = 3"
    by (simp_all add: mini_fd_def)
  have z: "unat (f_off mini_fd) \<le> i_size (ino mini_file (f_ip mini_fd))"
    "unat (f_off mini_fd) + length [1 :: uint8, 2] \<le> MAXFILE * BSIZE"
    unfolding f by (simp_all add: mini_file_def mini_ino_def fs_consts)
  have l: "int (length [1 :: uint8, 2]) = 2" by simp
  from filewrite_writes_prefix [OF r f(1,2) z, of 1 0 None, unfolded l f] show ?thesis by blast
qed

end
