(* ===== verification/Fs_Trunc.thy ===== *)
theory Fs_Trunc
  imports Fs_Write
begin

text \<open>
  Discarding the contents of a file: \<open>itrunc\<close> gives back exactly the blocks of the
  file, never one that is already free, and leaves every other block alone.
\<close>

section \<open>Freeing a list of blocks\<close>

primrec free_all :: "nat list \<Rightarrow> fsys \<Rightarrow> fs_error + fsys" where
  "free_all [] s = Inr s"
| "free_all (a # as) s = bindR (bfree a s) (free_all as)"

lemma free_all_append: "free_all (xs @ ys) s = bindR (free_all xs s) (free_all ys)"
  by (induction xs arbitrary: s) (auto simp: bindR_def split: sum.split)

lemma drop_block_data:
  assumes "fs_ok s" "data_block s a"
  shows "bfree a s = Inr (drop_block a s)" "fs_ok (drop_block a s)"
    "data_block (drop_block a s) x \<longleftrightarrow> x \<noteq> a \<and> data_block s x"
    "datastart s \<le> x \<Longrightarrow> blk (drop_block a s) x = blk s x"
proof -
  show "bfree a s = Inr (drop_block a s)" using assms(2) by (simp add: bfree_eq data_block_def)
  show "fs_ok (drop_block a s)" using assms by (simp add: drop_block_ok data_block_def)
  show "data_block (drop_block a s) x \<longleftrightarrow> x \<noteq> a \<and> data_block s x"
    using used_drop_block [OF assms(1)] by (auto simp: data_block_def)
  have "BBLOCK a s < datastart s" using BBLOCK_small assms(2) by (simp add: data_block_def)
  then show "datastart s \<le> x \<Longrightarrow> blk (drop_block a s) x = blk s x" by simp
qed

lemma free_all_spec:
  assumes "fs_ok s" "distinct as" "\<forall>a \<in> set as. data_block s a"
  shows "\<exists>s'. free_all as s = Inr s' \<and> fs_ok s' \<and> sb s' = sb s \<and> itable s' = itable s
    \<and> (\<forall>x. data_block s' x \<longleftrightarrow> data_block s x \<and> x \<notin> set as)
    \<and> (\<forall>x \<ge> datastart s. blk s' x = blk s x) \<and> (\<forall>x < sb_bmapstart (sb s). blk s' x = blk s x)"
  using assms
proof (induction as arbitrary: s)
  case (Cons a as)
  have a: "data_block s a" using Cons.prems by simp
  note d = drop_block_data [OF Cons.prems(1) a]
  have "BBLOCK a s \<ge> sb_bmapstart (sb s)" by (rule BBLOCK_bounds)
  then have low: "\<forall>x < sb_bmapstart (sb s). blk (drop_block a s) x = blk s x" by simp
  have "distinct as" "\<forall>x \<in> set as. data_block (drop_block a s) x" using Cons.prems d(3) by auto
  from Cons.IH [OF d(2) this] d low show ?case by auto
qed simp

lemma upd_ino_free_all:
  "free_all as (upd_ino i f s) = map_sum id (upd_ino i f) (free_all as s)"
proof (induction as arbitrary: s)
  case (Cons a as)
  have u: "used (upd_ino i f s) a = used s a" by simp
  have d: "drop_block a (upd_ino i f s) = upd_ino i f (drop_block a s)"
    by (simp add: drop_block_def put_blk_def log_blk_def upd_ino_def BBLOCK_def)
  show ?case by (simp add: bfree_eq u d Cons.IH)
qed simp

section \<open>The loops of itrunc\<close>

definition zero_at :: "nat list \<Rightarrow> nat list \<Rightarrow> nat list" where
  "zero_at ks ad = fold (\<lambda>k ad. ad[k := 0]) ks ad"

definition nonzero :: "nat list \<Rightarrow> nat list" where
  "nonzero xs = filter (\<lambda>a. a \<noteq> 0) xs"

lemma length_zero_at [simp]: "length (zero_at ks ad) = length ad"
  unfolding zero_at_def by (induction ks arbitrary: ad) auto

lemma zero_at_nth: "j < length ad \<Longrightarrow> zero_at ks ad ! j = (if j \<in> set ks then 0 else ad ! j)"
  unfolding zero_at_def by (induction ks arbitrary: ad) (auto simp: nth_list_update)

lemma upd_ino_upd_ino: "upd_ino i f (upd_ino i g s) = upd_ino i (\<lambda>p. f (g p)) s"
proof -
  have "modify i f (modify i g xs) = modify i (\<lambda>p. f (g p)) xs" for xs :: "inode list"
    by (rule nth_equalityI) auto
  then show ?thesis by (simp add: upd_ino_def)
qed

lemma map_sum_bindR: "map_sum id f (bindR r g) = bindR r (\<lambda>x. map_sum id f (g x))"
  by (cases r) auto

lemma itrunc_direct_eq:
  assumes "distinct ks" "i < length (itable s)"
  shows "itrunc_direct i ks s =
    map_sum id (upd_ino i (\<lambda>p. p\<lparr>i_addrs := zero_at ks (i_addrs p)\<rparr>))
      (free_all (nonzero (map (\<lambda>k. i_addrs (ino s i) ! k) ks)) s)"
  using assms
proof (induction ks arbitrary: s)
  case Nil
  have "modify i (\<lambda>p. p\<lparr>i_addrs := i_addrs p\<rparr>) (itable s) = itable s" by (simp add: modify_def)
  then show ?case by (simp add: nonzero_def zero_at_def upd_ino_def)
next
  case (Cons k ks)
  let ?f = "\<lambda>p. p\<lparr>i_addrs := (i_addrs p)[k := 0]\<rparr>" and ?g = "\<lambda>ks p. p\<lparr>i_addrs := zero_at ks (i_addrs p)\<rparr>"
  let ?a = "i_addrs (ino s i) ! k"
  have fg: "upd_ino i (?g ks) (upd_ino i ?f t) = upd_ino i (?g (k # ks)) t" for t
    by (simp add: upd_ino_upd_ino zero_at_def)
  show ?case
  proof (cases "?a = 0")
    case True
    have "upd_ino i (?g (k # ks)) t = upd_ino i (?g ks) t" if "ino t i = ino s i" for t
      using True that by (simp add: upd_ino_def modify_def zero_at_def list_update_same_conv) (metis list_update_id)
    then have sum: "map_sum id (upd_ino i (?g (k # ks))) (free_all as t) = map_sum id (upd_ino i (?g ks)) (free_all as t)"
      if "ino t i = ino s i" for as t
      using that
    proof (induction as arbitrary: t)
      case Nil
      then show ?case by simp
    next
      case (Cons a as)
      then show ?case by (cases "used t a") (simp_all add: bfree_eq)
    qed
    have nz: "nonzero (map (\<lambda>k. i_addrs (ino s i) ! k) (k # ks)) = nonzero (map (\<lambda>k. i_addrs (ino s i) ! k) ks)"
      using True by (simp add: nonzero_def)
    have "itrunc_direct i (k # ks) s = itrunc_direct i ks s" using True by simp
    also have "\<dots> = map_sum id (upd_ino i (?g ks)) (free_all (nonzero (map (\<lambda>k. i_addrs (ino s i) ! k) ks)) s)"
      by (rule Cons.IH) (use Cons.prems in auto)
    finally show ?thesis unfolding nz sum [OF refl] .
  next
    case False
    have "itrunc_direct i ks (upd_ino i ?f s1) =
        map_sum id (upd_ino i (?g (k # ks))) (free_all (nonzero (map (\<lambda>k. i_addrs (ino s i) ! k) ks)) s1)"
      if s1: "itable s1 = itable s" for s1
    proof -
      have i: "i < length (itable (upd_ino i ?f s1))" using Cons.prems s1 by simp
      have m: "map (\<lambda>k. i_addrs (ino (upd_ino i ?f s1) i) ! k) ks = map (\<lambda>k. i_addrs (ino s i) ! k) ks"
        using Cons.prems s1 by auto (metis nth_list_update_neq)
      have "distinct ks" using Cons.prems by simp
      from Cons.IH [OF this i] show ?thesis
        unfolding m upd_ino_free_all
        by (cases "free_all (nonzero (map (\<lambda>k. i_addrs (ino s i) ! k) ks)) s1") (simp_all add: fg)
    qed
    with False show ?thesis by (cases "used s ?a") (simp_all add: nonzero_def bfree_eq Let_def id_def)
  qed
qed

lemma itrunc_indirect_eq:
  assumes "fs_ok s" "datastart s \<le> ind"
    "distinct (nonzero (map (\<lambda>j. unat (get32 j (blk s ind))) js))"
    "\<forall>a \<in> set (nonzero (map (\<lambda>j. unat (get32 j (blk s ind))) js)). data_block s a"
  shows "itrunc_indirect ind js s = free_all (nonzero (map (\<lambda>j. unat (get32 j (blk s ind))) js)) s"
  using assms
proof (induction js arbitrary: s)
  case (Cons j js)
  let ?a = "unat (get32 j (blk s ind))"
  show ?case
  proof (cases "?a = 0")
    case True
    with Cons show ?thesis by (simp add: nonzero_def)
  next
    case False
    then have "data_block s ?a" using Cons.prems(4) by (simp add: nonzero_def)
    note d = drop_block_data [OF Cons.prems(1) this]
    have e: "blk (drop_block ?a s) ind = blk s ind" using d(4) Cons.prems(2) by simp
    have "itrunc_indirect ind js (drop_block ?a s) = free_all (nonzero (map (\<lambda>j. unat (get32 j (blk s ind))) js)) (drop_block ?a s)"
      using Cons.IH [of "drop_block ?a s", unfolded e] d Cons.prems False by (auto simp: nonzero_def)
    with False d(1) show ?thesis by (simp add: nonzero_def)
  qed
qed (simp add: nonzero_def)

section \<open>Correctness of itrunc\<close>

definition freed :: "nat set \<Rightarrow> fsys \<Rightarrow> fsys \<Rightarrow> bool" where
  "freed A s s' \<longleftrightarrow> fs_ok s' \<and> sb s' = sb s \<and> (\<forall>x. data_block s' x \<longleftrightarrow> data_block s x \<and> x \<notin> A)
     \<and> (\<forall>x \<ge> datastart s. blk s' x = blk s x) \<and> (\<forall>x < sb_bmapstart (sb s). blk s' x = blk s x)"

lemma freed_trans: "freed A s s' \<Longrightarrow> freed B s' s'' \<Longrightarrow> freed (A \<union> B) s s''"
  using datastart_cong [of s' s] by (auto simp: freed_def)

lemma freed_upd_ino [simp]: "freed A s (upd_ino i f s') = freed A s s'"
  by (simp add: freed_def data_block_def)

lemma free_all_freed:
  assumes "fs_ok s" "distinct as" "\<forall>a \<in> set as. data_block s a"
  shows "\<exists>s'. free_all as s = Inr s' \<and> freed (set as) s s' \<and> itable s' = itable s"
  using free_all_spec [OF assms] by (auto simp: freed_def)

lemma distinct_nonzero:
  "distinct ks \<Longrightarrow> (\<And>j k. j \<in> set ks \<Longrightarrow> k \<in> set ks \<Longrightarrow> f j = f k \<Longrightarrow> f j \<noteq> 0 \<Longrightarrow> j = k) \<Longrightarrow> distinct (nonzero (map f ks))"
proof (induction ks)
  case (Cons k ks)
  have "distinct (nonzero (map f ks))" using Cons by simp
  moreover have "f k \<noteq> f j" if "j \<in> set ks" "f k \<noteq> 0" for j using Cons.prems that by fastforce
  ultimately show ?case by (auto simp: nonzero_def)
qed (simp add: nonzero_def)

lemma slots_split:
  "slots s i = set (nonzero (map (slot s i) [0..<NDIRECT])) \<union> ({slot s i NDIRECT} - {0})
     \<union> set (nonzero (map (\<lambda>j. slot s i (NDIRECT + 1 + j)) [0..<NINDIRECT]))"
proof -
  have "k < NSLOT \<longleftrightarrow> k < NDIRECT \<or> k = NDIRECT \<or> (\<exists>j < NINDIRECT. k = NDIRECT + 1 + j)" for k
    by (auto simp: NSLOT_def) presburger
  then have "{..<NSLOT} = {..<NDIRECT} \<union> {NDIRECT} \<union> (\<lambda>j. NDIRECT + 1 + j) ` {..<NINDIRECT}" by auto
  then show ?thesis by (auto simp: slots_def nonzero_def)
qed

lemma itrunc_blocks:
  assumes ok: "fs_ok s" "map_ok s i"
  shows "\<exists>s'. itrunc i s = Inr (iupdate i (upd_ino i (\<lambda>p. p\<lparr>i_size := 0\<rparr>) s')) \<and> freed (slots s i) s s'
    \<and> itable s' = modify i (\<lambda>p. p\<lparr>i_addrs := replicate (NDIRECT + 1) 0\<rparr>) (itable s)"
proof -
  let ?D = "nonzero (map (\<lambda>k. i_addrs (ino s i) ! k) [0..<NDIRECT])"
  let ?ind = "slot s i NDIRECT"
  let ?E = "nonzero (map (\<lambda>j. unat (get32 j (blk s ?ind))) [0..<NINDIRECT])"
  have i: "i < length (itable s)" "length (i_addrs (ino s i)) = NDIRECT + 1" using ok(2) by (auto simp: map_ok_def)
  have db: "data_block s (slot s i k)" if "k < NSLOT" "slot s i k \<noteq> 0" for k using ok(2) that by (simp add: map_ok_def)
  have inj: "j = k" if "slot s i j = slot s i k" "slot s i j \<noteq> 0" "j < NSLOT" "k < NSLOT" for j k
    using map_ok_distinct [OF ok(2)] that by blast
  have "map (\<lambda>k. i_addrs (ino s i) ! k) [0..<NDIRECT] = map (slot s i) [0..<NDIRECT]" by (auto simp: slot_direct)
  then have D: "?D = nonzero (map (slot s i) [0..<NDIRECT])" by (rule arg_cong)
  have dD: "distinct ?D" unfolding D by (rule distinct_nonzero) (auto intro!: inj simp: NSLOT_def)
  have bD: "\<forall>a \<in> set ?D. data_block s a" unfolding D using db by (auto simp: nonzero_def NSLOT_def)
  obtain t1 where t1: "free_all ?D s = Inr t1" "freed (set ?D) s t1" "itable t1 = itable s"
    using free_all_freed [OF ok(1) dD bD] by blast
  define s1 where "s1 = upd_ino i (\<lambda>p. p\<lparr>i_addrs := zero_at [0..<NDIRECT] (i_addrs p)\<rparr>) t1"
  have dir: "itrunc_direct i [0..<NDIRECT] s = Inr s1" using t1 i by (simp add: itrunc_direct_eq s1_def)
  have a1: "i_addrs (ino s1 i) = zero_at [0..<NDIRECT] (i_addrs (ino s i))" using t1 i by (simp add: s1_def)
  then have ind1: "i_addrs (ino s1 i) ! NDIRECT = ?ind" using i by (simp add: zero_at_nth slot_direct)
  have f1: "freed (set ?D) s s1" using t1 by (simp add: s1_def)
  have z: "(zero_at [0..<NDIRECT] (i_addrs (ino s i)))[NDIRECT := 0] = replicate (NDIRECT + 1) 0"
    using i by (intro nth_equalityI) (auto simp: nth_list_update zero_at_nth less_Suc_eq nth_replicate simp del: replicate_Suc)
  have it1: "itable s1 = modify i (\<lambda>p. p\<lparr>i_addrs := zero_at [0..<NDIRECT] (i_addrs p)\<rparr>) (itable s)"
    using t1 by (simp add: s1_def)
  show ?thesis
  proof (cases "?ind = 0")
    case True
    have "zero_at [0..<NDIRECT] (i_addrs (ino s i)) = replicate (NDIRECT + 1) 0"
      unfolding z [symmetric] using True i ind1 a1 by (metis list_update_id)
    then have "itable s1 = modify i (\<lambda>p. p\<lparr>i_addrs := replicate (NDIRECT + 1) 0\<rparr>) (itable s)"
      using it1 by (simp add: modify_def)
    moreover have "slots s i = set ?D" using True unfolding slots_split D by (auto simp: nonzero_def slot_indirect)
    ultimately show ?thesis using dir ind1 True f1 by (auto simp: itrunc_def)
  next
    case False
    have E: "?E = nonzero (map (\<lambda>j. slot s i (NDIRECT + 1 + j)) [0..<NINDIRECT])" using False by (simp add: slot_indirect)
    have "j = k" if "j < NINDIRECT" "k < NINDIRECT" "slot s i (NDIRECT + 1 + j) = slot s i (NDIRECT + 1 + k)"
      "slot s i (NDIRECT + 1 + j) \<noteq> 0" for j k
      using inj [of "NDIRECT + 1 + j" "NDIRECT + 1 + k"] that by (simp add: NSLOT_def)
    then have dE: "distinct ?E" unfolding E by (intro distinct_nonzero) auto
    have ib: "data_block s ?ind" using db False by (simp add: NSLOT_def)
    have eb: "blk s1 ?ind = blk s ?ind" using f1 ib by (simp add: freed_def data_block_def)
    have nD: "slot s i k \<notin> set ?D" if "NDIRECT \<le> k" "k < NSLOT" for k
    proof
      assume "slot s i k \<in> set ?D"
      then obtain x where "x < NDIRECT" "slot s i x = slot s i k" "slot s i x \<noteq> 0" unfolding D by (auto simp: nonzero_def)
      with inj [of x k] that show False by (simp add: NSLOT_def)
    qed
    have "data_block s1 (slot s i (NDIRECT + 1 + j))" if "j < NINDIRECT" "slot s i (NDIRECT + 1 + j) \<noteq> 0" for j
    proof -
      have "NDIRECT + 1 + j < NSLOT" using that by (simp add: NSLOT_def)
      with db nD that f1 show ?thesis by (simp add: freed_def)
    qed
    then have bE: "\<forall>a \<in> set ?E. data_block s1 a" unfolding E by (auto simp: nonzero_def)
    have ds: "datastart s1 = datastart s" using f1 by (intro datastart_cong) (simp add: freed_def)
    have ok1: "fs_ok s1" using f1 by (simp add: freed_def)
    have "datastart s1 \<le> ?ind" using ib ds by (simp add: data_block_def)
    from itrunc_indirect_eq [OF ok1 this, of "[0..<NINDIRECT]", unfolded eb, OF dE bE]
    have ind: "itrunc_indirect ?ind [0..<NINDIRECT] s1 = free_all ?E s1" .
    obtain s2 where s2: "free_all ?E s1 = Inr s2" "freed (set ?E) s1 s2" "itable s2 = itable s1"
      using free_all_freed [OF ok1 dE bE] by blast
    have f2: "freed (set ?D \<union> set ?E) s s2" using freed_trans f1 s2(2) by blast
    have "?ind \<notin> set ?E"
    proof
      assume "?ind \<in> set ?E"
      then obtain j where "j < NINDIRECT" "?ind = slot s i (NDIRECT + 1 + j)" unfolding E by (auto simp: nonzero_def)
      with inj [of NDIRECT "NDIRECT + 1 + j"] False show False by (simp add: NSLOT_def)
    qed
    moreover have "?ind \<notin> set ?D" using nD by (simp add: NSLOT_def)
    ultimately have b2: "data_block s2 ?ind" "fs_ok s2" using f2 ib by (auto simp: freed_def)
    note d = drop_block_data [OF b2(2,1)]
    have f3: "freed {?ind} s2 (drop_block ?ind s2)"
      using d BBLOCK_bounds(1) [of s2 ?ind] by (auto simp: freed_def)
    define s4 where "s4 = upd_ino i (\<lambda>p. p\<lparr>i_addrs := (i_addrs p)[NDIRECT := 0]\<rparr>) (drop_block ?ind s2)"
    have "freed (set ?D \<union> set ?E \<union> {?ind}) s s4" using freed_trans [OF f2 f3] by (simp add: s4_def)
    moreover have "slots s i = set ?D \<union> set ?E \<union> {?ind}" unfolding slots_split D E using False by auto
    moreover have "itable s4 = modify i (\<lambda>p. p\<lparr>i_addrs := replicate (NDIRECT + 1) 0\<rparr>) (itable s)"
      using s2(3) it1 z i(1) by (simp add: s4_def modify_def)
    moreover have "itrunc i s = Inr (iupdate i (upd_ino i (\<lambda>p. p\<lparr>i_size := 0\<rparr>) s4))"
      using dir ind1 False ind s2(1) d(1) by (simp add: itrunc_def s4_def Let_def)
    ultimately show ?thesis by metis
  qed
qed

lemma empty_slots:
  assumes "i_addrs (ino s i) = replicate (NDIRECT + 1) 0"
  shows "k < NSLOT \<Longrightarrow> slot s i k = 0" "slots s i = {}"
proof -
  have z: "slot s i k = 0" if "k < NSLOT" for k
    using assms that by (auto simp: slot_def nth_replicate less_Suc_eq_le simp del: replicate_Suc)
  then show "k < NSLOT \<Longrightarrow> slot s i k = 0" .
  show "slots s i = {}" using z by (auto simp: slots_def)
qed

text \<open>
  C8: \<open>itrunc\<close> gives back exactly the blocks of the file: it never frees a block
  twice, so the panic of \<open>bfree\<close> is not reached; afterwards the file is empty and
  without blocks, the data blocks in use are those of before minus the blocks of
  the file, and no data block has changed.
\<close>

theorem itrunc_frees_exactly_its_blocks:
  assumes "fs_ok s" "file_ok s i"
  shows "\<exists>s'. itrunc i s = Inr s' \<and> fs_ok s' \<and> file_ok s' i \<and> contents s' i = [] \<and> slots s' i = {}
    \<and> (\<forall>x. data_block s' x \<longleftrightarrow> data_block s x \<and> x \<notin> slots s i)
    \<and> (\<forall>x \<ge> datastart s. blk s' x = blk s x)"
proof -
  have m: "map_ok s i" "i < length (itable s)" "i_inum (ino s i) < sb_ninodes (sb s)"
    using assms(2) by (auto simp: file_ok_def map_ok_def)
  obtain t where t: "itrunc i s = Inr (iupdate i (upd_ino i (\<lambda>p. p\<lparr>i_size := 0\<rparr>) t))" "freed (slots s i) s t"
    "itable t = modify i (\<lambda>p. p\<lparr>i_addrs := replicate (NDIRECT + 1) 0\<rparr>) (itable s)"
    using itrunc_blocks [OF assms(1) m(1)] by blast
  define u where "u = upd_ino i (\<lambda>p. p\<lparr>i_size := 0\<rparr>) t"
  have ui: "i_addrs (ino u i) = replicate (NDIRECT + 1) 0" "i_size (ino u i) = 0" "i_inum (ino u i) < sb_ninodes (sb u)"
    "i < length (itable u)" using t m by (simp_all add: u_def freed_def)
  have f: "freed (slots s i) s u" using t(2) by (simp add: u_def)
  then have fu: "fs_ok u" by (simp add: freed_def)
  have mu: "map_ok u i" using empty_slots(1) [OF ui(1)] ui by (simp add: map_ok_def)
  note v = iupdate_views [OF fu mu ui(3)]
  have ds: "datastart u = datastart s" "sb u = sb s" using f datastart_cong [of u s] by (auto simp: freed_def)
  have "data_block (iupdate i u) x \<longleftrightarrow> data_block s x \<and> x \<notin> slots s i" for x
    using f v(2,4) ds datastart_cong [of "iupdate i u" u] by (auto simp: freed_def data_block_def)
  moreover have "file_ok (iupdate i u) i" using v ui mu by (simp add: file_ok_def)
  moreover have "contents (iupdate i u) i = []" using v(3) ui by (simp add: contents_def)
  moreover have "blk (iupdate i u) x = blk s x" if "datastart s \<le> x" for x
    using that v(9) ds f by (simp add: freed_def)
  moreover have "slots (iupdate i u) i = {}" using v(8) [OF mu] empty_slots(2) [OF ui(1)] by simp
  ultimately show ?thesis using t(1) v(1) unfolding u_def by blast
qed

theorem itrunc_frees_exactly_its_blocks_witness:
  "\<exists>s'. itrunc 0 mini_file = Inr s' \<and> contents s' 0 = [] \<and> data_block mini_file 7 \<and> \<not> data_block s' 7"
proof -
  have "7 \<in> slots mini_file 0" using mini_slot(1) [of 0] unfolding slots_def by (force simp: NSLOT_def)
  moreover have "data_block mini_file 7"
    using mini_file_ok_0 mini_slot(1) [of 0] by (auto simp: file_ok_def map_ok_def NSLOT_def dest!: spec [of _ 0])
  ultimately show ?thesis
    using itrunc_frees_exactly_its_blocks [OF mini_file_ok mini_file_ok_0] by blast
qed

section \<open>Inodes on disk and in memory\<close>

lemma get32_dinode:
  assumes "j < length (i_addrs p)"
  shows "get32 (3 + j) (enc_dinode p) = of_nat (i_addrs p ! j)"
proof -
  have c: "take 4 (drop (4 * j) (concat (map (\<lambda>a. le32 (of_nat a)) xs))) = le32 (of_nat (xs ! j) :: uint32)" if "j < length xs" for xs
    using that
  proof (induction xs arbitrary: j)
    case (Cons x xs)
    then show ?case by (cases j) (simp_all add: drop_append)
  qed simp
  have e: "4 * (3 + j) = 12 + 4 * j" by simp
  show ?thesis unfolding get32_def e using c [OF assms] by (simp add: enc_dinode_def drop_append)
qed

text \<open>
  what \<open>iupdate\<close> writes, \<open>ilock\<close> reads: after an update, locking an inode that is
  not valid in memory loads the same type, device numbers, link count, size and
  block addresses, for every inode in the table with that number.
\<close>

theorem iupdate_ilock_round_trip:
  assumes "fs_ok s" "file_ok s i" "\<forall>a \<in> set (i_addrs (ino s i)). a < 2 ^ 32"
    and "j < length (itable s)" "i_inum (ino s j) = i_inum (ino s i)" "\<not> i_valid (ino s j)" "0 < i_ref (ino s j)"
    and "i_owner (ino s j) = None" "i_type (ino s i) \<noteq> 0"
  shows "\<exists>s'. ilock me j (iupdate i s) = Inr s' \<and> i_valid (ino s' j) \<and> i_owner (ino s' j) = Some me
    \<and> i_type (ino s' j) = i_type (ino s i) \<and> i_major (ino s' j) = i_major (ino s i) \<and> i_minor (ino s' j) = i_minor (ino s i)
    \<and> i_nlink (ino s' j) = i_nlink (ino s i) \<and> i_size (ino s' j) = i_size (ino s i) \<and> i_addrs (ino s' j) = i_addrs (ino s i)"
proof -
  let ?v = "enc_dinode (ino s i)"
  have len: "length (i_addrs (ino s i)) = NDIRECT + 1" using assms(2) by (simp add: file_ok_def map_ok_def)
  have d: "dinode_at (i_inum (ino s j)) (iupdate i s) = ?v"
    using assms(1,5) len by (simp add: iupdate_def dinode_at_write length_enc_dinode)
  have it: "itable (iupdate i s) = itable s" by (simp add: iupdate_def write_dinode_def)
  have "i_size (ino s i) < 2 ^ 32" using assms(2) by (simp add: file_ok_def fs_consts)
  then have size: "unat (get32 2 ?v) = i_size (ino s i)"
    by (simp add: get32_def enc_dinode_def unat_of_nat)
  have a: "unat (get32 (3 + k) ?v) = i_addrs (ino s i) ! k" if "k < NDIRECT + 1" for k
    using that get32_dinode [of k "ino s i"] len assms(3) by (simp add: unat_of_nat)
  then have addrs: "map (\<lambda>k. unat (get32 (3 + k) ?v)) [0..<NDIRECT + 1] = i_addrs (ino s i)"
    using len by (intro nth_equalityI) (simp_all del: upt_Suc)
  have shorts: "d_type ?v = i_type (ino s i)" "of_le16 (take 2 (drop 2 ?v)) = i_major (ino s i)"
    "of_le16 (take 2 (drop 4 ?v)) = i_minor (ino s i)" "d_nlink ?v = i_nlink (ino s i)"
    by (simp_all add: d_type_def d_nlink_def enc_dinode_def)
  have at: "dinode_at n (upd_ino j f (iupdate i s)) = dinode_at n (iupdate i s)" for n f
    by (simp add: dinode_at_def)
  show ?thesis
    using assms(4-9) it d size addrs shorts
    by (simp add: ilock_def acquiresleep_def at load_dinode_def Let_def)
qed

theorem iupdate_ilock_round_trip_witness:
  "\<exists>s'. ilock 5 0 (iupdate 0 (upd_ino 0 (\<lambda>p. p\<lparr>i_valid := False\<rparr>) mini_file)) = Inr s'
     \<and> i_size (ino s' 0) = 3 \<and> i_addrs (ino s' 0) = 7 # replicate 12 0"
proof -
  let ?s = "upd_ino 0 (\<lambda>p. p\<lparr>i_valid := False\<rparr>) mini_file"
  have v: "slot ?s 0 k = slot mini_file 0 k" "map_ok ?s 0 = map_ok mini_file 0" for k by (simp_all add: upd_ino_views)
  have n: "itable mini_file \<noteq> []" by (simp add: mini_file_def)
  have f: "file_ok ?s 0" using mini_file_ok_0 n unfolding file_ok_def v by (simp add: nth_modify_any)
  have s: "fs_ok ?s" using mini_file_ok by simp
  have i: "ino ?s 0 = (mini_ino 1)\<lparr>i_size := 3, i_addrs := 7 # replicate 12 0, i_valid := False\<rparr>"
    "0 < length (itable ?s)" by (simp_all add: mini_file_def nth_modify_any)
  have "\<forall>a \<in> set (i_addrs (ino ?s 0)). a < 2 ^ 32" unfolding i by (simp add: mini_ino_def)
  from iupdate_ilock_round_trip [OF s f this i(2) refl, of 5] i show ?thesis by (auto simp: mini_ino_def)
qed

end
