(* ===== verification/Fs_Dir.thy ===== *)
theory Fs_Dir
  imports Fs_Trunc
begin

text \<open>
  Directories and path names (\<open>xv6-riscv/kernel/fs.c\<close>: \<open>namecmp\<close> to \<open>nameiparent\<close>, with
  \<open>strncmp\<close> and \<open>strncpy\<close> of \<open>kernel/string.c\<close>).  A C string is the list of its bytes
  without the terminator, and bytes behind the end of a list read as NUL.  A
  directory entry has 16 bytes, the inode number and a name of up to 14 bytes.
\<close>

section \<open>Strings\<close>

type_synonym bytes = "uint8 list"

definition hd0 :: "bytes \<Rightarrow> uint8" where
  "hd0 p = (case p of [] \<Rightarrow> 0 | c # _ \<Rightarrow> c)"

fun strncmp :: "bytes \<Rightarrow> bytes \<Rightarrow> nat \<Rightarrow> int" where
  "strncmp p q 0 = 0"
| "strncmp p q (Suc n) =
     (if hd0 p \<noteq> 0 \<and> hd0 p = hd0 q then strncmp (tl p) (tl q) n else uint (hd0 p) - uint (hd0 q))"

text \<open>The \<open>n\<close> bytes that \<open>strncpy\<close> stores.\<close>

fun strncpy :: "bytes \<Rightarrow> nat \<Rightarrow> bytes" where
  "strncpy t 0 = []"
| "strncpy t (Suc n) = (if hd0 t \<noteq> 0 then hd0 t # strncpy (tl t) n else 0 # replicate n 0)"

definition DIRSIZ :: nat where "DIRSIZ = 14"

definition namecmp :: "bytes \<Rightarrow> bytes \<Rightarrow> int" where
  "namecmp s t = strncmp s t DIRSIZ"

section \<open>Directory entries\<close>

record dirent =
  de_inum :: nat
  de_name :: bytes

definition dirent_of :: "bytes \<Rightarrow> dirent" where
  "dirent_of v = \<lparr>de_inum = unat (of_le16 (take 2 v)), de_name = drop 2 v\<rparr>"

definition dirent_bytes :: "dirent \<Rightarrow> bytes" where
  "dirent_bytes d = le16 (of_nat (de_inum d)) @ de_name d"

abbreviation kernel_copy :: copy where "kernel_copy \<equiv> \<lambda>t m. None"

text \<open>Reading changes no size, so the loops over a directory end.\<close>

lemma balloc_itable: "itable (snd (balloc_from b s)) = itable s"
  by (induction b s rule: balloc_from.induct) (subst balloc_from.simps, simp add: Let_def split: option.split)

definition addrs_only :: "nat \<Rightarrow> fsys \<Rightarrow> fsys \<Rightarrow> bool" where
  "addrs_only i s s' \<longleftrightarrow>
     (\<exists>f. (\<forall>p. (f p)\<lparr>i_addrs := []\<rparr> = p\<lparr>i_addrs := []\<rparr>) \<and> itable s' = modify i f (itable s))"

lemma addrs_only_refl: "itable s' = itable s \<Longrightarrow> addrs_only i s s'"
  unfolding addrs_only_def by (rule exI [of _ "\<lambda>p. p"]) (simp add: modify_def)

lemma addrs_only_upd: "itable s' = modify i (\<lambda>p. p\<lparr>i_addrs := g p\<rparr>) (itable s) \<Longrightarrow> addrs_only i s s'"
  unfolding addrs_only_def by (rule exI [of _ "\<lambda>p. p\<lparr>i_addrs := g p\<rparr>"]) simp

lemma modify_modify: "modify i f (modify i g xs) = modify i (\<lambda>p. f (g p)) xs"
  by (rule nth_equalityI) auto

lemma addrs_only_trans:
  assumes "addrs_only i s s'" "addrs_only i s' s''"
  shows "addrs_only i s s''"
proof -
  obtain f g where "\<And>p. (f p)\<lparr>i_addrs := []\<rparr> = p\<lparr>i_addrs := []\<rparr>" "itable s' = modify i f (itable s)"
    "\<And>p. (g p)\<lparr>i_addrs := []\<rparr> = p\<lparr>i_addrs := []\<rparr>" "itable s'' = modify i g (itable s')"
    using assms unfolding addrs_only_def by blast
  then show ?thesis
    unfolding addrs_only_def by (intro exI [of _ "\<lambda>p. g (f p)"] conjI allI) (metis, simp only: modify_modify)
qed

lemma addrs_only_fields:
  assumes "addrs_only i s s'"
  shows "i_size (ino s' j) = i_size (ino s j)" "i_type (ino s' j) = i_type (ino s j)" "i_dev (ino s' j) = i_dev (ino s j)"
    "length (itable s') = length (itable s)" "map i_ref (itable s') = map i_ref (itable s)"
    "map i_owner (itable s') = map i_owner (itable s)"
proof -
  obtain f where f: "\<And>p. (f p)\<lparr>i_addrs := []\<rparr> = p\<lparr>i_addrs := []\<rparr>" "itable s' = modify i f (itable s)"
    using assms unfolding addrs_only_def by blast
  have g: "h (f p) = h p" if "\<And>p. h (p\<lparr>i_addrs := []\<rparr>) = h p" for h :: "inode \<Rightarrow> 'b" and p
    using that f(1) by metis
  show "i_size (ino s' j) = i_size (ino s j)" "i_type (ino s' j) = i_type (ino s j)" "i_dev (ino s' j) = i_dev (ino s j)"
    by (simp_all add: f(2) nth_modify_any g)
  show "length (itable s') = length (itable s)" "map i_ref (itable s') = map i_ref (itable s)"
    "map i_owner (itable s') = map i_owner (itable s)"
    by (simp_all add: f(2) map_modify_frame g)
qed

lemma bmap_addrs_only:
  assumes "bmap i bn s = Inr (a, s')"
  shows "addrs_only i s s'"
proof -
  have b: "balloc t = (x, u) \<Longrightarrow> itable u = itable t" for t x u
    using balloc_itable [of 0 t] by (simp add: balloc_def)
  show ?thesis
    using assms unfolding bmap_def Let_def
    by (auto split: if_splits prod.splits dest!: b intro: addrs_only_refl addrs_only_upd)
qed

lemma readi_loop_addrs_only:
  "readi_loop i cp n tot off dst s = Inr (r, bs, s') \<Longrightarrow> addrs_only i s s'"
proof (induction i cp n tot off dst s rule: readi_loop.induct)
  case (1 i cp n tot off dst s)
  show ?case
  proof (cases "tot < n")
    case False
    with 1(2) show ?thesis by (subst (asm) readi_loop.simps) (simp add: addrs_only_refl)
  next
    case True
    with 1(2) obtain a s1 where b: "bmap i (off div BSIZE) s = Inr (a, s1)"
      by (subst (asm) readi_loop.simps) (auto simp: bindR_Inr)
    show ?thesis
    proof (cases "a = 0 \<or> cp tot (chunk n tot off) \<noteq> None")
      case stop: True
      with 1(2) True b have "s' = s1"
        by (subst (asm) readi_loop.simps) (auto simp: Let_def split: if_splits option.splits)
      with bmap_addrs_only [OF b] show ?thesis by simp
    next
      case False
      then have a: "a \<noteq> 0" "cp tot (chunk n tot off) = None" by auto
      have "readi_loop i cp n (tot + chunk n tot off) (off + chunk n tot off)
          (dst @ take (chunk n tot off) (drop (off mod BSIZE) (blk s1 a))) s1 = Inr (r, bs, s')"
        using 1(2) True b a by (subst (asm) readi_loop.simps) (simp add: Let_def)
      from 1(1) [OF True b refl a(1) refl refl a(2) this] bmap_addrs_only [OF b] show ?thesis
        by (rule addrs_only_trans [rotated])
    qed
  qed
qed

lemma readi_addrs_only: "readi i cp off n s = Inr (r, bs, s') \<Longrightarrow> addrs_only i s s'"
  by (auto simp: readi_def addrs_only_refl split: if_splits intro: readi_loop_addrs_only)

section \<open>Operations\<close>

definition T_DIR :: uint16 where "T_DIR = 1"
definition ROOTDEV :: nat where "ROOTDEV = 1"
definition ROOTINO :: nat where "ROOTINO = 1"

text \<open>The loop of \<open>dirlookup\<close>: the inode and the offset of the entry.\<close>

function dirlookup_from :: "nat \<Rightarrow> bytes \<Rightarrow> nat \<Rightarrow> fsys \<Rightarrow> fs_error + (nat \<times> nat) option \<times> fsys" where
  "dirlookup_from dp name off s =
     (if off < i_size (ino s dp) then
        bindR (readi dp kernel_copy off 16 s) (\<lambda>(r, v, s1).
          if r \<noteq> 16 then Inl (FsPanic ''dirlookup read'')
          else
            let de = dirent_of v in
            if de_inum de = 0 then dirlookup_from dp name (off + 16) s1
            else if namecmp name (de_name de) = 0 then
              bindR (iget (i_dev (ino s1 dp)) (de_inum de) s1) (\<lambda>(ip, s2). Inr (Some (ip, off), s2))
            else dirlookup_from dp name (off + 16) s1)
      else Inr (None, s))"
  by pat_completeness auto
termination
  by (relation "measure (\<lambda>(dp, name, off, s). i_size (ino s dp) - off)")
    (auto dest!: readi_addrs_only simp: addrs_only_fields)

definition dirlookup :: "nat \<Rightarrow> bytes \<Rightarrow> fsys \<Rightarrow> fs_error + (nat \<times> nat) option \<times> fsys" where
  "dirlookup dp name s =
     (if i_type (ino s dp) \<noteq> T_DIR then Inl (FsPanic ''dirlookup not DIR'') else dirlookup_from dp name 0 s)"

text \<open>The loop of \<open>dirlink\<close> that looks for an empty entry.\<close>

function empty_dirent :: "nat \<Rightarrow> nat \<Rightarrow> fsys \<Rightarrow> fs_error + nat \<times> fsys" where
  "empty_dirent dp off s =
     (if off < i_size (ino s dp) then
        bindR (readi dp kernel_copy off 16 s) (\<lambda>(r, v, s1).
          if r \<noteq> 16 then Inl (FsPanic ''dirlink read'')
          else if de_inum (dirent_of v) = 0 then Inr (off, s1)
          else empty_dirent dp (off + 16) s1)
      else Inr (off, s))"
  by pat_completeness auto
termination
  by (relation "measure (\<lambda>(dp, off, s). i_size (ino s dp) - off)")
    (auto dest!: readi_addrs_only simp: addrs_only_fields)

declare dirlookup_from.simps [simp del] empty_dirent.simps [simp del]

definition dirlink :: "int \<Rightarrow> nat \<Rightarrow> bytes \<Rightarrow> nat \<Rightarrow> fsys \<Rightarrow> fs_error + int \<times> fsys" where
  "dirlink me dp name inum s =
     bindR (dirlookup dp name s) (\<lambda>(r, s1).
       case r of
         Some (ip, _) \<Rightarrow> bindR (iput me ip s1) (\<lambda>s2. Inr (-1, s2))
       | None \<Rightarrow>
           bindR (empty_dirent dp 0 s1) (\<lambda>(off, s2).
             let de = \<lparr>de_inum = inum, de_name = strncpy name DIRSIZ\<rparr> in
             bindR (writei dp kernel_copy (dirent_bytes de) off 16 s2) (\<lambda>(r, s3).
               Inr (if r \<noteq> 16 then -1 else 0, s3))))"

text \<open>The rest of the path and the element in front of it, cut to \<open>DIRSIZ\<close> bytes.\<close>

definition skipelem :: "bytes \<Rightarrow> (bytes \<times> bytes) option" where
  "skipelem path =
     (let p = dropWhile (\<lambda>c. c = 47) path in
      if p = [] then None
      else
        let s = takeWhile (\<lambda>c. c \<noteq> 47) p; rest = dropWhile (\<lambda>c. c \<noteq> 47) p
        in Some (dropWhile (\<lambda>c. c = 47) rest, take DIRSIZ s))"

lemma skipelem_less: "skipelem path = Some (rest, name) \<Longrightarrow> length rest < length path"
proof -
  assume a: "skipelem path = Some (rest, name)"
  let ?p = "dropWhile (\<lambda>c. c = 47) path"
  have p: "?p \<noteq> []" "rest = dropWhile (\<lambda>c. c = 47) (dropWhile (\<lambda>c. c \<noteq> 47) ?p)"
    using a by (auto simp: skipelem_def Let_def split: if_splits)
  have "hd ?p \<noteq> 47" using hd_dropWhile [OF p(1)] .
  then have "length (dropWhile (\<lambda>c. c \<noteq> 47) ?p) < length ?p"
    using p(1) length_dropWhile_le [of "\<lambda>c. c \<noteq> 47" "tl ?p"] by (cases ?p) auto
  then show ?thesis
    unfolding p(2) using length_dropWhile_le [of "\<lambda>c. c = 47" "dropWhile (\<lambda>c. c \<noteq> 47) ?p"]
      length_dropWhile_le [of "\<lambda>c. c = 47" path] by linarith
qed

text \<open>The loop of \<open>namex\<close>; the name of the last element is returned for the parent form.\<close>

function namex_from :: "int \<Rightarrow> bool \<Rightarrow> nat \<Rightarrow> bytes \<Rightarrow> bytes \<Rightarrow> fsys \<Rightarrow> fs_error + (nat \<times> bytes) option \<times> fsys" where
  "namex_from me parent ip path name s =
     (case skipelem path of
        None \<Rightarrow>
          if parent then bindR (iput me ip s) (\<lambda>s1. Inr (None, s1)) else Inr (Some (ip, name), s)
      | Some (path1, name1) \<Rightarrow>
          bindR (ilock me ip s) (\<lambda>s1.
            if i_type (ino s1 ip) \<noteq> T_DIR then bindR (iunlockput me ip s1) (\<lambda>s2. Inr (None, s2))
            else if parent \<and> path1 = [] then
              bindR (iunlock me ip s1) (\<lambda>s2. Inr (Some (ip, name1), s2))
            else
              bindR (dirlookup ip name1 s1) (\<lambda>(r, s2).
                case r of
                  None \<Rightarrow> bindR (iunlockput me ip s2) (\<lambda>s3. Inr (None, s3))
                | Some (ip1, _) \<Rightarrow>
                    bindR (iunlockput me ip s2) (\<lambda>s3. namex_from me parent ip1 path1 name1 s3))))"
  by pat_completeness auto
termination
  by (relation "measure (\<lambda>(me, parent, ip, path, name, s). length path)") (auto dest: skipelem_less)

declare namex_from.simps [simp del]

text \<open>\<open>cwd\<close> is the current directory of the calling process.\<close>

definition namex :: "int \<Rightarrow> nat \<Rightarrow> bytes \<Rightarrow> bool \<Rightarrow> fsys \<Rightarrow> fs_error + (nat \<times> bytes) option \<times> fsys" where
  "namex me cwd path parent s =
     (if path \<noteq> [] \<and> hd path = 47 then
        bindR (iget ROOTDEV ROOTINO s) (\<lambda>(ip, s1). namex_from me parent ip path [] s1)
      else namex_from me parent cwd path [] (idup cwd s))"

definition namei :: "int \<Rightarrow> nat \<Rightarrow> bytes \<Rightarrow> fsys \<Rightarrow> fs_error + (nat \<times> bytes) option \<times> fsys" where
  "namei me cwd path s = namex me cwd path False s"

definition nameiparent :: "int \<Rightarrow> nat \<Rightarrow> bytes \<Rightarrow> fsys \<Rightarrow> fs_error + (nat \<times> bytes) option \<times> fsys" where
  "nameiparent me cwd path s = namex me cwd path True s"

end
