(* ===== verification/Fs_Names.thy ===== *)
theory Fs_Names
  imports Fs_Dir
begin

text \<open>
  What directories and path names mean.  A directory is the list of its entries;
  \<open>dir_lookup\<close> is the entry a name stands for.  \<open>dirlookup\<close> and \<open>dirlink\<close> are shown to
  look up and add entries, \<open>skipelem\<close> to cut a path at its slashes, and \<open>namex\<close> to
  balance the reference counts and locks of the inodes it visits.
\<close>

section \<open>Names\<close>

definition cname :: "bytes \<Rightarrow> bytes" where
  "cname xs = takeWhile (\<lambda>c. c \<noteq> 0) (take DIRSIZ xs)"

lemma strncmp_zero:
  "strncmp p q n = 0 \<longleftrightarrow> takeWhile (\<lambda>c. c \<noteq> 0) (take n p) = takeWhile (\<lambda>c. c \<noteq> 0) (take n q)"
proof (induction p q n rule: strncmp.induct)
  case (2 p q n)
  have u: "uint a = uint b \<longleftrightarrow> a = b" "uint a = 0 \<longleftrightarrow> a = 0" for a b :: uint8
    by (simp_all add: word_uint_eq_iff)
  show ?case using 2 by (cases p; cases q) (auto simp: hd0_def u)
qed simp

lemma namecmp_zero: "namecmp p q = 0 \<longleftrightarrow> cname p = cname q"
  by (simp add: namecmp_def cname_def strncmp_zero)

lemma length_strncpy [simp]: "length (strncpy t n) = n"
  by (induction t n rule: strncpy.induct) auto

lemma cname_strncpy: "cname (strncpy t DIRSIZ) = cname t"
proof -
  have "takeWhile (\<lambda>c. c \<noteq> 0) (take n (strncpy t n)) = takeWhile (\<lambda>c. c \<noteq> 0) (take n t)" for n
  proof (induction t n rule: strncpy.induct)
    case (2 t n)
    then show ?case by (cases t) (auto simp: hd0_def)
  qed simp
  then show ?thesis by (simp add: cname_def)
qed

section \<open>Directories as lists of entries\<close>

definition dents :: "fsys \<Rightarrow> nat \<Rightarrow> dirent list" where
  "dents s i = map (\<lambda>k. dirent_of (take 16 (drop (16 * k) (contents s i)))) [0..<i_size (ino s i) div 16]"

definition dir_ok :: "fsys \<Rightarrow> nat \<Rightarrow> bool" where
  "dir_ok s i \<longleftrightarrow> fs_ok s \<and> file_ok s i \<and> i_type (ino s i) = T_DIR \<and> i_size (ino s i) mod 16 = 0"

definition entry_is :: "bytes \<Rightarrow> dirent \<Rightarrow> bool" where
  "entry_is name d \<longleftrightarrow> de_inum d \<noteq> 0 \<and> cname (de_name d) = cname name"

definition dir_lookup :: "fsys \<Rightarrow> nat \<Rightarrow> bytes \<Rightarrow> nat option" where
  "dir_lookup s i name = map_option de_inum (find (entry_is name) (dents s i))"

lemma length_contents [simp]: "length (contents s i) = i_size (ino s i)"
  by (simp add: contents_def)

lemma readi_entry:
  assumes "dir_ok s dp" "k < length (dents s dp)"
  shows "\<exists>v. readi dp kernel_copy (16 * k) 16 s = Inr (16, v, s) \<and> dirent_of v = dents s dp ! k"
proof -
  have size: "16 * k + 16 \<le> i_size (ino s dp)" using assms(2) by (simp add: dents_def)
  have small: "i_size (ino s dp) < 2 ^ 32" using assms(1) by (simp add: dir_ok_def file_ok_def fs_consts)
  have "16 * k < 2 ^ 32" "(16::nat) < 2 ^ 32" "16 * k + 16 < 2 ^ 32" using size small by simp_all
  with assms(1) size readi_spec [of s dp "16 * k" 16 kernel_copy]
  have "readi dp kernel_copy (16 * k) 16 s = Inr (16, take 16 (drop (16 * k) (contents s dp)), s)"
    by (auto simp: dir_ok_def)
  then show ?thesis using assms(2) by (simp add: dents_def)
qed

lemma dir_off: "dir_ok s dp \<Longrightarrow> 16 * k < i_size (ino s dp) \<longleftrightarrow> k < length (dents s dp)"
  by (auto simp: dir_ok_def dents_def)

lemma dirlookup_from_spec:
  assumes "dir_ok s dp"
  shows "dirlookup_from dp name (16 * k) s =
    (case find_idx (entry_is name) (drop k (dents s dp)) of
       None \<Rightarrow> Inr (None, s)
     | Some j \<Rightarrow> bindR (iget (i_dev (ino s dp)) (de_inum (dents s dp ! (k + j))) s)
                  (\<lambda>(ip, s2). Inr (Some (ip, 16 * (k + j)), s2)))"
proof (induction "length (dents s dp) - k" arbitrary: k rule: less_induct)
  case less
  show ?case
  proof (cases "k < length (dents s dp)")
    case False
    then show ?thesis using dir_off [OF assms, of k] by (subst dirlookup_from.simps) simp
  next
    case True
    obtain v where v: "readi dp kernel_copy (16 * k) 16 s = Inr (16, v, s)" "dirent_of v = dents s dp ! k"
      using readi_entry [OF assms True] by blast
    have d: "drop k (dents s dp) = dents s dp ! k # drop (Suc k) (dents s dp)" using True by (simp add: Cons_nth_drop_Suc)
    have nxt: "dirlookup_from dp name (16 * k + 16) s = dirlookup_from dp name (16 * Suc k) s" by (simp add: add.commute)
    have IH: "dirlookup_from dp name (16 * Suc k) s =
      (case find_idx (entry_is name) (drop (Suc k) (dents s dp)) of
         None \<Rightarrow> Inr (None, s)
       | Some j \<Rightarrow> bindR (iget (i_dev (ino s dp)) (de_inum (dents s dp ! (Suc k + j))) s)
                    (\<lambda>(ip, s2). Inr (Some (ip, 16 * (Suc k + j)), s2)))"
      using True by (intro less) simp
    show ?thesis
    proof (cases "entry_is name (dents s dp ! k)")
      case hit: True
      then have "de_inum (dents s dp ! k) \<noteq> 0" "namecmp name (de_name (dents s dp ! k)) = 0"
        by (auto simp: entry_is_def namecmp_zero)
      then show ?thesis using True hit v d dir_off [OF assms, of k]
        by (subst dirlookup_from.simps) (simp add: Let_def)
    next
      case miss: False
      then have "dirlookup_from dp name (16 * k) s = dirlookup_from dp name (16 * Suc k) s"
        using True v dir_off [OF assms, of k] nxt
        by (subst dirlookup_from.simps) (auto simp: Let_def entry_is_def namecmp_zero)
      with IH d miss show ?thesis by (auto simp: ac_simps split: option.split)
    qed
  qed
qed

text \<open>
  \<open>dirlookup\<close> finds the first entry in use with the name, compared on its first 14
  bytes, and returns a reference to its inode and the offset of the entry; if
  there is none it changes nothing.
\<close>

theorem dirlookup_first_entry:
  assumes "dir_ok s dp"
  shows "dirlookup dp name s =
    (case find_idx (entry_is name) (dents s dp) of
       None \<Rightarrow> Inr (None, s)
     | Some j \<Rightarrow> bindR (iget (i_dev (ino s dp)) (de_inum (dents s dp ! j)) s) (\<lambda>(ip, s2). Inr (Some (ip, 16 * j), s2)))"
  using dirlookup_from_spec [OF assms, of name 0] assms by (simp add: dirlookup_def dir_ok_def split: option.split)

text \<open>A directory with one entry, the name \<open>a\<close> for inode 2.\<close>

definition mini_dir :: fsys where
  "mini_dir = upd_ino 0 (\<lambda>p. p\<lparr>i_size := 16, i_type := T_DIR\<rparr>) (put_blk 7 (patch 0 [2, 0, 97] (blk mini_file 7)) mini_file)"

lemma mini_dir_ok: "dir_ok mini_dir 0" "dents mini_dir 0 = [\<lparr>de_inum = 2, de_name = 97 # replicate 13 0\<rparr>]"
proof -
  let ?t = "put_blk 7 (patch 0 [2, 0, 97] (blk mini_file 7)) mini_file"
  have m: "map_ok mini_file 0" using mini_file_ok_0 by (simp add: file_ok_def)
  have s: "slot mini_file 0 (slot_of (0 div BSIZE)) = 7" using mini_slot(1) [of 0] by (simp add: slot_of_def fs_consts)
  have w: "extends 0 mini_file ?t" "\<forall>k < NSLOT. slot ?t 0 k = slot mini_file 0 k"
    "\<forall>x < MAXFILE * BSIZE. byte_at ?t 0 x = (if x < 3 then [2, 0, 97] ! x else byte_at mini_file 0 x)"
    using write_block [OF mini_file_ok m s, of "[2, 0, 97]" ?t] by (simp_all add: fs_consts)
  have v: "slot mini_dir 0 k = slot ?t 0 k" "byte_at mini_dir 0 x = byte_at ?t 0 x" "map_ok mini_dir 0 = map_ok ?t 0" for k x
    by (simp_all add: mini_dir_def upd_ino_views)
  have i: "i_size (ino mini_dir 0) = 16" "i_type (ino mini_dir 0) = T_DIR" "i_inum (ino mini_dir 0) < sb_ninodes (sb mini_dir)"
    by (simp_all add: mini_dir_def mini_file_def mini_fs_def mini_ino_def)
  have "slot_of (off div BSIZE) = 0" if "off < 16" for off using that by (simp add: slot_of_def fs_consts)
  then have "file_ok mini_dir 0"
    using w(1,2) mini_slot(1) [of 0] i unfolding file_ok_def v by (simp add: fs_consts extends_def)
  moreover have "fs_ok mini_dir" using w(1) by (simp add: mini_dir_def extends_def)
  ultimately show "dir_ok mini_dir 0" using i by (simp add: dir_ok_def)
  have z: "byte_at mini_file 0 x = 0" if "3 \<le> x" "x < 16" for x
    using that mini_slot(1) [of 0]
    by (simp add: byte_at_def slot_of_def fs_consts) (simp add: mini_file_def nth_Cons')
  have "contents mini_dir 0 = map (\<lambda>x. if x < 3 then [2, 0, 97] ! x else 0) [0..<16]"
    unfolding contents_def i v using w(3) z by (auto simp: fs_consts)
  also have "\<dots> = [2, 0, 97] @ replicate 13 0" by (simp add: upt_rec numeral_eq_Suc)
  finally show "dents mini_dir 0 = [\<lparr>de_inum = 2, de_name = 97 # replicate 13 0\<rparr>]"
    using i by (simp add: dents_def dirent_of_def of_le16_def)
qed

theorem dirlookup_first_entry_witness:
  "\<exists>s'. dirlookup 0 [97] mini_dir = Inr (Some (1, 0), s')"
proof -
  have "find_idx (entry_is [97]) (dents mini_dir 0) = Some 0"
    by (simp add: mini_dir_ok entry_is_def cname_def DIRSIZ_def)
  then show ?thesis using dirlookup_first_entry [OF mini_dir_ok(1), of "[97]"]
    by (simp add: mini_dir_ok) (simp add: iget_def mini_dir_def mini_file_def mini_ino_def mini_fs_def modify_def)
qed

section \<open>Adding an entry\<close>

definition free_entry :: "fsys \<Rightarrow> nat \<Rightarrow> nat" where
  "free_entry s dp =
     (case find_idx (\<lambda>d. de_inum d = 0) (dents s dp) of None \<Rightarrow> length (dents s dp) | Some j \<Rightarrow> j)"

lemma empty_dirent_from:
  assumes "dir_ok s dp" "k \<le> length (dents s dp)"
  shows "empty_dirent dp (16 * k) s =
    Inr (16 * (case find_idx (\<lambda>d. de_inum d = 0) (drop k (dents s dp)) of None \<Rightarrow> length (dents s dp) | Some j \<Rightarrow> k + j), s)"
  using assms(2)
proof (induction "length (dents s dp) - k" arbitrary: k rule: less_induct)
  case less
  show ?case
  proof (cases "k < length (dents s dp)")
    case False
    then have "k = length (dents s dp)" using less.prems by simp
    then show ?thesis using dir_off [OF assms(1), of k] by (subst empty_dirent.simps) simp
  next
    case True
    obtain v where v: "readi dp kernel_copy (16 * k) 16 s = Inr (16, v, s)" "dirent_of v = dents s dp ! k"
      using readi_entry [OF assms(1) True] by blast
    have d: "drop k (dents s dp) = dents s dp ! k # drop (Suc k) (dents s dp)" using True by (simp add: Cons_nth_drop_Suc)
    have e: "empty_dirent dp (16 * k) s =
        (if de_inum (dents s dp ! k) = 0 then Inr (16 * k, s) else empty_dirent dp (16 * Suc k) s)"
      using True v dir_off [OF assms(1), of k] by (subst empty_dirent.simps) (simp add: add.commute)
    have "empty_dirent dp (16 * Suc k) s = Inr (16 * (case find_idx (\<lambda>d. de_inum d = 0) (drop (Suc k) (dents s dp)) of
        None \<Rightarrow> length (dents s dp) | Some j \<Rightarrow> Suc k + j), s)"
      using True by (intro less) simp_all
    with e d show ?thesis by (auto split: option.split)
  qed
qed

lemma empty_dirent_spec: "dir_ok s dp \<Longrightarrow> empty_dirent dp 0 s = Inr (16 * free_entry s dp, s)"
  using empty_dirent_from [of s dp 0] by (simp add: free_entry_def split: option.split)

lemma free_entry_le: "free_entry s dp \<le> length (dents s dp)"
  by (auto simp: free_entry_def split: option.split dest: find_idx_SomeD(1) [THEN less_imp_le])

lemma entry_patch:
  assumes "length v = 16" "16 * j \<le> length c"
  shows "take 16 (drop (16 * k) (patch (16 * j) v c)) = (if k = j then v else take 16 (drop (16 * k) c))"
proof (cases j k rule: linorder_cases)
  case equal
  then show ?thesis using assms by (simp add: patch_def)
next
  case less
  then have "16 * k = 16 * j + 16 + (16 * k - (16 * j + 16))" by simp
  then obtain x where x: "16 * k = 16 * j + 16 + x" by blast
  show ?thesis using less assms by (simp add: patch_def x add.commute)
next
  case greater
  then have "16 * k + 16 \<le> 16 * j" "16 \<le> 16 * j - 16 * k" "16 \<le> length c - 16 * k" using assms(2) by simp_all
  then show ?thesis using greater assms by (simp add: patch_def drop_take take_take min_def)
qed

text \<open>An entry lies in one block, so it is written whole or not at all.\<close>

lemma writei_loop_entry:
  assumes "writei_loop i kernel_copy src 16 0 (16 * j) s = Inr (tot, off', s')"
  shows "tot = 0 \<or> tot = 16"
proof -
  have "16 * j mod BSIZE = 16 * (j mod 64)" by (simp add: BSIZE_def mult_mod_right)
  moreover have "j mod 64 < 64" by simp
  ultimately have m: "chunk 16 0 (16 * j) = 16" by (simp add: chunk_def BSIZE_def min_def)
  show ?thesis using assms
    by (subst (asm) writei_loop.simps)
      (auto simp: bindR_Inr m Let_def writei_loop.simps [of i kernel_copy src 16 16] split: if_splits)
qed

lemma writei_fields:
  assumes ok: "fs_ok s" "file_ok s i" and off: "off \<le> i_size (ino s i)" "off + length src \<le> MAXFILE * BSIZE"
    and w: "writei i cp src off (length src) s = Inr (r, s')"
  shows "i_type (ino s' i) = i_type (ino s i)" "\<exists>tot s1. r = int tot \<and> writei_loop i cp src (length src) 0 off s = Inr (tot, off + tot, s1)
    \<and> i_size (ino s' i) = max (i_size (ino s i)) (off + tot)"
proof -
  have "map_ok s i" and il: "i < length (itable s)" using ok(2) by (auto simp: file_ok_def map_ok_def)
  from writei_loop_spec [OF ok(1) this(1), of 0 "length src" off src cp] off obtain tot e s1 where
    l: "writei_loop i cp src (length src) 0 off s = Inr (tot, off + tot, s1)" "loop_result i cp src 0 off s tot e s1"
    by auto
  have "MAXFILE * BSIZE < 2 ^ 32" by (simp add: fs_consts)
  then have "(off + length src) mod 2 ^ 32 = off + length src" using off(2) by simp
  then have s': "s' = iupdate i (set_size i (off + tot) s1)" and r: "r = int tot"
    using off l(1) w by (simp_all add: writei_def set_size_def Let_def)
  have e: "extends i s s1" using l(2) by (simp add: loop_result_def)
  then have t1: "i_type (ino s1 i) = i_type (ino s i)" "i_size (ino s1 i) = i_size (ino s i)" "i < length (itable s1)"
    using il by (auto simp: extends_def)
  have it: "itable s' = itable (set_size i (off + tot) s1)" by (simp add: s' iupdate_def write_dinode_def)
  show "i_type (ino s' i) = i_type (ino s i)" using t1 by (simp add: it set_size_def)
  have "i_size (ino s' i) = max (i_size (ino s i)) (off + tot)" using t1 by (simp add: it set_size_def)
  with l(1) r show "\<exists>tot s1. r = int tot \<and> writei_loop i cp src (length src) 0 off s = Inr (tot, off + tot, s1)
      \<and> i_size (ino s' i) = max (i_size (ino s i)) (off + tot)" by blast
qed

definition put_entry :: "nat \<Rightarrow> 'a \<Rightarrow> 'a list \<Rightarrow> 'a list" where
  "put_entry j d ds = (if j < length ds then ds[j := d] else ds @ [d])"

lemma find_update: "\<not> P (xs ! j) \<Longrightarrow> \<not> P y \<Longrightarrow> j < length xs \<Longrightarrow> find P (xs[j := y]) = find P xs"
  by (induction xs arbitrary: j) (auto simp: nth_Cons' split: nat.split)

lemma find_only: "y \<in> set xs \<Longrightarrow> P y \<Longrightarrow> (\<And>x. x \<in> set xs \<Longrightarrow> P x \<Longrightarrow> x = y) \<Longrightarrow> find P xs = Some y"
proof (induction xs)
  case (Cons x xs)
  show ?case
  proof (cases "P x")
    case True
    then have "x = y" using Cons.prems(3) [of x] by simp
    with True show ?thesis by simp
  next
    case False
    with Cons.prems(1,2) have "y \<in> set xs" by auto
    then have "find P xs = Some y"
      by (rule Cons.IH [OF _ Cons.prems(2)]) (rule Cons.prems(3), simp_all)
    with False show ?thesis by simp
  qed
qed simp

lemma find_snoc: "find P (xs @ [y]) = (case find P xs of None \<Rightarrow> if P y then Some y else None | Some z \<Rightarrow> Some z)"
  by (induction xs) auto

lemma find_put_entry:
  assumes absent: "find (entry_is name) ds = None" and d: "de_inum d \<noteq> 0" "cname (de_name d) = cname name"
    and j: "j < length ds \<longrightarrow> de_inum (ds ! j) = 0"
  shows "find (entry_is n) (put_entry j d ds) = (if cname n = cname name then Some d else find (entry_is n) ds)"
proof (cases "cname n = cname name")
  case True
  have "\<not> entry_is n x" if "x \<in> set ds" for x
    using absent that True by (auto simp: find_None_iff entry_is_def)
  moreover have mem: "x \<in> set (put_entry j d ds) \<Longrightarrow> x = d \<or> x \<in> set ds" for x
    using set_update_subset_insert [of ds j d] by (auto simp: put_entry_def split: if_splits)
  ultimately have only: "x = d" if "x \<in> set (put_entry j d ds)" "entry_is n x" for x using that by blast
  have "d \<in> set (put_entry j d ds)" by (auto simp: put_entry_def set_update_memI)
  moreover have "entry_is n d" using d True by (simp add: entry_is_def)
  ultimately have "find (entry_is n) (put_entry j d ds) = Some d" using only by (rule find_only)
  with True show ?thesis by simp
next
  case False
  then have "\<not> entry_is n d" using d by (simp add: entry_is_def)
  moreover have "\<not> entry_is n (ds ! j)" if "j < length ds" using j that by (simp add: entry_is_def)
  ultimately show ?thesis using False by (auto simp: put_entry_def find_update find_snoc split: option.split)
qed

lemma dirent_of_bytes:
  assumes "de_inum d < 2 ^ 16"
  shows "dirent_of (dirent_bytes d) = d"
  using assms by (cases d) (simp add: dirent_of_def dirent_bytes_def unat_of_nat)

lemma dents_after:
  assumes c: "contents s' dp = patch (16 * j) v (contents s dp)" "length v = 16"
    and j: "j \<le> length (dents s dp)" and ok: "dir_ok s dp"
    and size: "i_size (ino s' dp) = max (i_size (ino s dp)) (16 * j + 16)"
  shows "dents s' dp = put_entry j (dirent_of v) (dents s dp)" "i_size (ino s' dp) mod 16 = 0"
proof -
  obtain n where n: "i_size (ino s dp) = 16 * n" using ok by (auto simp: dir_ok_def)
  have ld: "length (dents s dp) = n" using n by (simp add: dents_def)
  have sz: "i_size (ino s' dp) = 16 * max n (Suc j)" using size n by (simp add: max_def)
  then show "i_size (ino s' dp) mod 16 = 0" by simp
  have ld': "length (dents s' dp) = max n (Suc j)" using sz by (simp add: dents_def)
  show "dents s' dp = put_entry j (dirent_of v) (dents s dp)"
  proof (rule nth_equalityI)
    show "length (dents s' dp) = length (put_entry j (dirent_of v) (dents s dp))"
      using ld ld' j by (simp add: put_entry_def)
    fix k assume k: "k < length (dents s' dp)"
    have "16 * j \<le> length (contents s dp)" using j ld n by simp
    then have "dents s' dp ! k = dirent_of (if k = j then v else take 16 (drop (16 * k) (contents s dp)))"
      using k c sz ld' by (simp add: dents_def entry_patch)
    moreover have "put_entry j (dirent_of v) (dents s dp) ! k = (if k = j then dirent_of v else dents s dp ! k)"
      using k ld ld' j by (auto simp: put_entry_def nth_append)
    moreover have "dents s dp ! k = dirent_of (take 16 (drop (16 * k) (contents s dp)))" if "k \<noteq> j"
      using that k ld ld' j n by (simp add: dents_def)
    ultimately show "dents s' dp ! k = put_entry j (dirent_of v) (dents s dp) ! k" by simp
  qed
qed

text \<open>
  C9: \<open>dirlink\<close> adds an entry.  If the name is not in the directory, the call returns
  without a panic: with 0, after which looking up the name gives the new inode
  number and every other name gives what it gave before; or with \<open>-1\<close> and an
  unchanged directory, when the disk is full or the directory has its maximal size.
\<close>

theorem dirlink_adds_entry:
  assumes "dir_ok s dp" "0 < inum" "inum < 2 ^ 16" "dir_lookup s dp name = None"
  shows "\<exists>r s'. dirlink me dp name inum s = Inr (r, s') \<and> dir_ok s' dp
    \<and> (r = 0 \<and> (\<forall>n. dir_lookup s' dp n = (if cname n = cname name then Some inum else dir_lookup s dp n))
       \<or> r = -1 \<and> (\<forall>n. dir_lookup s' dp n = dir_lookup s dp n)
         \<and> (full s' \<or> i_size (ino s dp) + 16 > MAXFILE * BSIZE))"
proof -
  have ok: "fs_ok s" "file_ok s dp" "i_type (ino s dp) = T_DIR" using assms(1) by (auto simp: dir_ok_def)
  have absent: "find (entry_is name) (dents s dp) = None" using assms(4) by (simp add: dir_lookup_def)
  then have "find_idx (entry_is name) (dents s dp) = None" by (auto simp: find_None_iff find_idx_None)
  then have look: "dirlookup dp name s = Inr (None, s)"
    using dirlookup_from_spec [OF assms(1), of name 0] ok(3) by (simp add: dirlookup_def)
  define d where "d = \<lparr>de_inum = inum, de_name = strncpy name DIRSIZ\<rparr>"
  define j where "j = free_entry s dp"
  let ?v = "dirent_bytes d"
  have v: "length ?v = 16" by (simp add: dirent_bytes_def d_def DIRSIZ_def)
  have jl: "j \<le> length (dents s dp)" by (simp add: j_def free_entry_le)
  have off: "16 * j \<le> i_size (ino s dp)" using jl by (simp add: dents_def)
  have link: "dirlink me dp name inum s =
      bindR (writei dp kernel_copy ?v (16 * j) (length ?v) s) (\<lambda>(r, s3). Inr (if r \<noteq> 16 then -1 else 0, s3))"
    using look empty_dirent_spec [OF assms(1)] v by (simp add: dirlink_def Let_def d_def j_def)
  have small: "16 * j < 2 ^ 32" "length ?v < 2 ^ 32" using off ok(2) v by (simp_all add: file_ok_def fs_consts)
  note w = writei_spec [OF ok(1,2) small, of kernel_copy]
  show ?thesis
  proof (cases "16 * j + length ?v > MAXFILE * BSIZE")
    case True
    then have "dirlink me dp name inum s = Inr (-1, s)" using w link by simp
    then show ?thesis using assms(1) True off v by (intro exI [of _ "-1"] exI [of _ s]) simp
  next
    case False
    then have c: "\<not> (16 * j > i_size (ino s dp) \<or> 16 * j + length ?v > MAXFILE * BSIZE)" using off by simp
    have nf: "\<not> copy_fails kernel_copy" by (simp add: copy_fails_def)
    from w [unfolded if_not_P [OF c]] nf obtain tot e s' where
      wr: "writei dp kernel_copy ?v (16 * j) (length ?v) s = Inr (int tot, s')" "fs_ok s'" "file_ok s' dp"
      "contents s' dp = take (max (i_size (ino s dp)) (16 * j + tot)) (patch (16 * j) (take (tot + e) ?v) (contents s dp))"
      "e = 0" "tot = length ?v \<or> full s'" by blast
    have "16 * j + length ?v \<le> MAXFILE * BSIZE" using False by simp
    note f = writei_fields [OF ok(1,2) off this wr(1)]
    from f(2) obtain s1 where l: "writei_loop dp kernel_copy ?v (length ?v) 0 (16 * j) s = Inr (tot, 16 * j + tot, s1)"
      and size: "i_size (ino s' dp) = max (i_size (ino s dp)) (16 * j + tot)" by auto
    have t: "tot = 0 \<or> tot = 16" using writei_loop_entry [OF l [unfolded v]] .
    show ?thesis
    proof (cases "tot = 0")
      case True
      then have same: "contents s' dp = contents s dp" "i_size (ino s' dp) = i_size (ino s dp)"
        using wr(4,5) size off by (simp_all add: patch_def)
      then have "dents s' dp = dents s dp" by (simp add: dents_def)
      moreover have "dir_ok s' dp" using wr f(1) ok same assms(1) by (simp add: dir_ok_def)
      moreover have "full s'" using wr(6) True v by simp
      moreover have "dirlink me dp name inum s = Inr (-1, s')" using link wr(1) True by simp
      ultimately show ?thesis by (auto simp: dir_lookup_def)
    next
      case False
      then have t16: "tot = 16" using t by simp
      have "length (patch (16 * j) ?v (contents s dp)) \<le> max (i_size (ino s dp)) (16 * j + 16)"
        using off v by (simp add: patch_def)
      then have con: "contents s' dp = patch (16 * j) ?v (contents s dp)" using wr(4,5) t16 v by simp
      note da = dents_after [OF con v jl assms(1) size [unfolded t16]]
      have du: "dirent_of ?v = d" using assms(3) by (intro dirent_of_bytes) (simp add: d_def)
      have free: "j < length (dents s dp) \<longrightarrow> de_inum (dents s dp ! j) = 0"
        using find_idx_SomeD(2) [of "\<lambda>d. de_inum d = 0"] by (auto simp: j_def free_entry_def split: option.splits)
      have "dir_lookup s' dp n = (if cname n = cname name then Some inum else dir_lookup s dp n)" for n
        using find_put_entry [OF absent _ _ free, of d n] assms(2)
        by (simp add: dir_lookup_def da(1) du) (simp add: d_def cname_strncpy)
      moreover have "dir_ok s' dp" using wr f(1) ok da(2) by (simp add: dir_ok_def)
      moreover have "dirlink me dp name inum s = Inr (0, s')" using link wr(1) t16 by simp
      ultimately show ?thesis by auto
    qed
  qed
qed

theorem dirlink_adds_entry_witness:
  "\<exists>r s'. dirlink 3 0 [97] 2 (upd_ino 0 (\<lambda>p. p\<lparr>i_type := T_DIR\<rparr>) mini_fs) = Inr (r, s')
     \<and> (r = 0 \<and> dir_lookup s' 0 [97] = Some 2 \<or> full s')"
proof -
  let ?s = "upd_ino 0 (\<lambda>p. p\<lparr>i_type := T_DIR\<rparr>) mini_fs"
  have v: "slot ?s 0 k = slot mini_fs 0 k" "map_ok ?s 0 = map_ok mini_fs 0" for k by (simp_all add: upd_ino_views)
  have m: "map_ok mini_fs 0" by (simp add: map_ok_def mini_slot) (simp add: mini_fs_def mini_ino_def NDIRECT_def)
  have i: "i_size (ino ?s 0) = 0" "i_type (ino ?s 0) = T_DIR" "i_inum (ino ?s 0) < sb_ninodes (sb ?s)"
    by (simp_all add: mini_fs_def mini_ino_def)
  have f: "file_ok ?s 0" unfolding file_ok_def v using m i by simp
  have d: "dir_ok ?s 0" using f i mini_fs_ok by (simp add: dir_ok_def)
  have "dir_lookup ?s 0 [97] = None" using i by (simp add: dir_lookup_def dents_def)
  from dirlink_adds_entry [OF d _ _ this, of 2 3] i show ?thesis by (fastforce simp: fs_consts)
qed

section \<open>Path elements\<close>

function path_elems :: "bytes \<Rightarrow> bytes list" where
  "path_elems p = (case skipelem p of None \<Rightarrow> [] | Some (rest, name) \<Rightarrow> name # path_elems rest)"
  by pat_completeness auto
termination by (relation "measure length") (auto dest: skipelem_less)

declare path_elems.simps [simp del]

fun split_slash :: "bytes \<Rightarrow> bytes list" where
  "split_slash [] = [[]]"
| "split_slash (c # cs) =
     (if c = 47 then [] # split_slash cs else (c # hd (split_slash cs)) # tl (split_slash cs))"

lemma split_slash_word: "47 \<notin> set w \<Longrightarrow> split_slash w = [w]"
  by (induction w) auto

lemma split_slash_append: "47 \<notin> set w \<Longrightarrow> split_slash (w @ 47 # r) = w # split_slash r"
  by (induction w) auto

lemma split_slash_skip:
  "filter (\<lambda>e. e \<noteq> []) (split_slash (dropWhile (\<lambda>c. c = 47) p)) = filter (\<lambda>e. e \<noteq> []) (split_slash p)"
  by (induction p) auto

lemma split_slash_first:
  assumes "w @ r = q" "w \<noteq> []" "47 \<notin> set w" "r = [] \<or> hd r = 47"
  shows "filter (\<lambda>e. e \<noteq> []) (split_slash q) = w # filter (\<lambda>e. e \<noteq> []) (split_slash r)"
proof (cases r)
  case Nil
  then show ?thesis using assms split_slash_word [OF assms(3)] by auto
next
  case (Cons c r')
  then have "q = w @ 47 # r'" "r = 47 # r'" using assms by auto
  then show ?thesis using split_slash_append [OF assms(3)] assms(2) by simp
qed

text \<open>
  \<open>skipelem\<close> takes a path apart at its slashes: the elements it yields, one call
  after the other, are the non-empty pieces between slashes, each cut to 14 bytes,
  and the calls come to an end.
\<close>

theorem path_elems_split:
  "path_elems p = map (take DIRSIZ) (filter (\<lambda>e. e \<noteq> []) (split_slash p))"
proof (induction p rule: path_elems.induct)
  case (1 p)
  let ?q = "dropWhile (\<lambda>c. c = 47) p"
  show ?case
  proof (cases "?q = []")
    case True
    then have "path_elems p = []" by (subst path_elems.simps) (simp add: skipelem_def)
    moreover have "filter (\<lambda>e. e \<noteq> []) (split_slash p) = []"
      using split_slash_skip [of p] True by simp
    ultimately show ?thesis by simp
  next
    case False
    let ?w = "takeWhile (\<lambda>c. c \<noteq> 47) ?q" and ?r = "dropWhile (\<lambda>c. c \<noteq> 47) ?q"
    have sk: "skipelem p = Some (dropWhile (\<lambda>c. c = 47) ?r, take DIRSIZ ?w)"
      using False by (simp add: skipelem_def Let_def)
    have w: "47 \<notin> set ?w" using set_takeWhileD by fastforce
    have hd: "hd ?q \<noteq> 47" using hd_dropWhile [OF False] .
    have nw: "?w \<noteq> []" using False hd by (cases ?q) auto
    have e: "path_elems p = take DIRSIZ ?w # path_elems (dropWhile (\<lambda>c. c = 47) ?r)"
      using sk by (subst path_elems.simps) simp
    have IH: "path_elems (dropWhile (\<lambda>c. c = 47) ?r) = map (take DIRSIZ) (filter (\<lambda>e. e \<noteq> []) (split_slash ?r))"
      using 1 [OF sk refl] split_slash_skip [of ?r] by simp
    have "?r = [] \<or> hd ?r = 47" using hd_dropWhile [of "\<lambda>c. c \<noteq> 47" ?q] by blast
    from split_slash_first [OF takeWhile_dropWhile_id nw w this]
    have "filter (\<lambda>e. e \<noteq> []) (split_slash ?q) = ?w # filter (\<lambda>e. e \<noteq> []) (split_slash ?r)" .
    from e [unfolded IH] this [unfolded split_slash_skip] show ?thesis by (simp only: list.map)
  qed
qed

end
