(* ===== verification/Fs_Balance.thy ===== *)
theory Fs_Balance
  imports Fs_Names
begin

text \<open>
  The bookkeeping of the inode table.  Each operation changes the reference counts
  and the lock holders in a fixed way, whatever else it does to the disk; adding
  this up along \<open>namex\<close> shows that path lookup leaks neither references nor locks.
\<close>

definition refs :: "fsys \<Rightarrow> int list" where "refs s = map i_ref (itable s)"
definition owners :: "fsys \<Rightarrow> int option list" where "owners s = map i_owner (itable s)"

definition inc :: "nat \<Rightarrow> int list \<Rightarrow> int list" where "inc i rs = modify i (\<lambda>x. x + 1) rs"
definition dec :: "nat \<Rightarrow> int list \<Rightarrow> int list" where "dec i rs = modify i (\<lambda>x. x - 1) rs"

lemma inc_dec: "dec i (inc j rs) = inc j (dec i rs)" "inc i (dec i rs) = rs"
  by (rule nth_equalityI; simp add: inc_def dec_def nth_modify_any)+

lemma length_refs [simp]: "length (refs s) = length (itable s)" "length (owners s) = length (itable s)"
  "length (inc i rs) = length rs" "length (dec i rs) = length rs"
  by (simp_all add: refs_def owners_def inc_def dec_def)

lemma map_modify: "(\<And>x. g (f x) = h (g x)) \<Longrightarrow> map g (modify i f xs) = modify i h (map g xs)"
  by (rule nth_equalityI) auto

lemma upd_ino_fields:
  "(\<And>p. i_ref (f p) = i_ref p) \<Longrightarrow> refs (upd_ino i f s) = refs s"
  "(\<And>p. i_owner (f p) = i_owner p) \<Longrightarrow> owners (upd_ino i f s) = owners s"
  by (simp_all add: refs_def owners_def map_modify_frame)

lemma put_log_fields [simp]:
  "refs (put_blk b v s) = refs s" "refs (log_blk b s) = refs s" "owners (put_blk b v s) = owners s"
  "owners (log_blk b s) = owners s" "refs (drop_block b s) = refs s" "owners (drop_block b s) = owners s"
  by (simp_all add: refs_def owners_def)

lemma iupdate_fields [simp]: "refs (iupdate i s) = refs s" "owners (iupdate i s) = owners s"
  "itable (iupdate i s) = itable s"
  by (simp_all add: iupdate_def write_dinode_def refs_def owners_def)

section \<open>The operations\<close>

lemma iget_balance:
  assumes "iget dev inum s = Inr (i, s')"
  shows "refs s' = inc i (refs s)" "owners s' = owners s" "i < length (itable s)"
proof -
  have c: "i < length (itable s) \<and> (s' = upd_ino i (\<lambda>p. p\<lparr>i_ref := i_ref p + 1\<rparr>) s
      \<or> i_ref (ino s i) = 0 \<and> s' = upd_ino i (\<lambda>p. p\<lparr>i_dev := dev, i_inum := inum, i_ref := 1, i_valid := False\<rparr>) s)"
    using assms by (auto simp: iget_def split: option.splits dest: find_idx_SomeD(1,2))
  then show "i < length (itable s)" by simp
  show "owners s' = owners s" using c by (auto simp: upd_ino_fields)
  have "map i_ref (modify i (\<lambda>p. p\<lparr>i_ref := i_ref p + 1\<rparr>) xs) = inc i (map i_ref xs)" for xs
    by (rule nth_equalityI) (auto simp: inc_def)
  moreover have "map i_ref (modify i (\<lambda>p. p\<lparr>i_dev := dev, i_inum := inum, i_ref := 1, i_valid := False\<rparr>) (itable s))
      = inc i (map i_ref (itable s))" if "i_ref (ino s i) = 0"
    using that by (intro nth_equalityI) (auto simp: inc_def)
  ultimately show "refs s' = inc i (refs s)" using c by (auto simp: refs_def)
qed

lemma idup_balance: "refs (idup i s) = inc i (refs s)" "owners (idup i s) = owners s"
proof -
  have "map i_ref (modify i (\<lambda>p. p\<lparr>i_ref := i_ref p + 1\<rparr>) xs) = inc i (map i_ref xs)" for xs
    by (rule nth_equalityI) (auto simp: inc_def)
  then show "refs (idup i s) = inc i (refs s)" by (simp add: idup_def refs_def)
  show "owners (idup i s) = owners s" by (simp add: idup_def upd_ino_fields)
qed

lemma owner_update:
  assumes "i < length (itable s)" "\<And>p. i_owner (f p) = v"
  shows "owners (upd_ino i f s) = (owners s)[i := v]"
  using assms by (intro nth_equalityI) (auto simp: owners_def nth_list_update)

lemma ilock_balance:
  assumes "ilock me i s = Inr s'" "i < length (itable s)"
  shows "refs s' = refs s" "owners s' = (owners s)[i := Some me]" "owners s ! i = None" "length (itable s') = length (itable s)"
proof -
  let ?s1 = "upd_ino i (\<lambda>p. p\<lparr>i_owner := Some me\<rparr>) s"
  let ?f = "\<lambda>p. (load_dinode (dinode_at (i_inum p) ?s1) p)\<lparr>i_valid := True\<rparr>"
  have c: "i_owner (ino s i) = None" "s' = ?s1 \<or> s' = upd_ino i ?f ?s1"
    using assms(1) by (auto simp: ilock_def acquiresleep_def Let_def split: if_splits)
  have f: "i_ref (?f p) = i_ref p" "i_owner (?f p) = i_owner p" for p by (simp_all add: load_dinode_def)
  have o1: "owners ?s1 = (owners s)[i := Some me]" using assms(2) by (intro owner_update) simp_all
  have r1: "refs ?s1 = refs s" by (rule upd_ino_fields) simp
  have "owners (upd_ino i ?f ?s1) = owners ?s1" "refs (upd_ino i ?f ?s1) = refs ?s1" using f by (simp_all add: upd_ino_fields)
  with c o1 r1 show "refs s' = refs s" "owners s' = (owners s)[i := Some me]" by auto
  show "owners s ! i = None" using c(1) assms(2) by (simp add: owners_def)
  show "length (itable s') = length (itable s)" using c(2) by auto
qed

lemma iunlock_balance:
  assumes "iunlock me i s = Inr s'" "i < length (itable s)"
  shows "refs s' = refs s" "owners s' = (owners s)[i := None]" "length (itable s') = length (itable s)"
  using assms by (auto simp: iunlock_def upd_ino_fields owner_update split: if_splits)

lemma bfree_itable: "bfree b s = Inr s' \<Longrightarrow> itable s' = itable s"
  by (auto simp: bfree_eq split: if_splits)

lemma itrunc_direct_balance:
  "itrunc_direct i ks s = Inr s' \<Longrightarrow> refs s' = refs s \<and> owners s' = owners s"
proof (induction ks arbitrary: s)
  case (Cons k ks)
  have u: "refs (upd_ino i (\<lambda>p. p\<lparr>i_addrs := g p\<rparr>) t) = refs t" "owners (upd_ino i (\<lambda>p. p\<lparr>i_addrs := g p\<rparr>) t) = owners t" for g t
    by (simp_all add: upd_ino_fields)
  have b: "bfree a s = Inr t \<Longrightarrow> refs t = refs s \<and> owners t = owners s" for a t
    using bfree_itable by (simp add: refs_def owners_def)
  show ?case using Cons.prems
    by (auto simp: Let_def bindR_Inr split: if_splits dest!: Cons.IH b simp: u)
qed simp

lemma itrunc_indirect_balance:
  "itrunc_indirect ind js s = Inr s' \<Longrightarrow> itable s' = itable s"
  by (induction js arbitrary: s) (auto simp: Let_def bindR_Inr split: if_splits dest!: bfree_itable)

lemma itrunc_balance:
  assumes "itrunc i s = Inr s'"
  shows "refs s' = refs s \<and> owners s' = owners s"
proof -
  have u: "refs (upd_ino i (\<lambda>p. p\<lparr>i_addrs := g p\<rparr>) t) = refs t" "owners (upd_ino i (\<lambda>p. p\<lparr>i_addrs := g p\<rparr>) t) = owners t"
    "refs (upd_ino i (\<lambda>p. p\<lparr>i_size := n\<rparr>) t) = refs t" "owners (upd_ino i (\<lambda>p. p\<lparr>i_size := n\<rparr>) t) = owners t" for g t n
    by (simp_all add: upd_ino_fields)
  obtain s1 where d: "itrunc_direct i [0..<NDIRECT] s = Inr s1" using assms by (auto simp: itrunc_def bindR_Inr)
  show ?thesis
  proof (cases "i_addrs (ino s1 i) ! NDIRECT = 0")
    case True
    then have "s' = iupdate i (upd_ino i (\<lambda>p. p\<lparr>i_size := 0\<rparr>) s1)" using assms d by (simp add: itrunc_def)
    with itrunc_direct_balance [OF d] show ?thesis by (simp add: u)
  next
    case False
    then obtain s2 s3 where s: "itrunc_indirect (i_addrs (ino s1 i) ! NDIRECT) [0..<NINDIRECT] s1 = Inr s2"
      "bfree (i_addrs (ino s1 i) ! NDIRECT) s2 = Inr s3"
      "s' = iupdate i (upd_ino i (\<lambda>p. p\<lparr>i_size := 0\<rparr>) (upd_ino i (\<lambda>p. p\<lparr>i_addrs := (i_addrs p)[NDIRECT := 0]\<rparr>) s3))"
      using assms d by (auto simp: itrunc_def bindR_Inr Let_def)
    then have "itable s3 = itable s1" using itrunc_indirect_balance bfree_itable by metis
    then have "refs s3 = refs s1" "owners s3 = owners s1" by (simp_all add: refs_def owners_def)
    with itrunc_direct_balance [OF d] s(3) show ?thesis by (simp add: u)
  qed
qed

lemma iput_balance:
  assumes "iput me i s = Inr s'" "i < length (itable s)"
  shows "refs s' = dec i (refs s)" "owners s' = owners s" "length (itable s') = length (itable s)"
proof -
  have d: "refs (upd_ino i (\<lambda>p. p\<lparr>i_ref := i_ref p - 1\<rparr>) t) = dec i (refs t)"
    "owners (upd_ino i (\<lambda>p. p\<lparr>i_ref := i_ref p - 1\<rparr>) t) = owners t" for t
    by (auto simp: refs_def dec_def upd_ino_fields intro: map_modify)
  have "refs s' = dec i (refs s) \<and> owners s' = owners s"
  proof (cases "i_ref (ino s i) = 1 \<and> i_valid (ino s i) \<and> i_nlink (ino s i) = 0")
    case False
    then show ?thesis using assms(1) d by (auto simp: iput_def)
  next
    case True
    let ?s1 = "upd_ino i (\<lambda>p. p\<lparr>i_owner := Some me\<rparr>) s"
    obtain s2 where o: "i_owner (ino s i) = None" and s2: "itrunc i ?s1 = Inr s2"
      and s': "s' = upd_ino i (\<lambda>p. p\<lparr>i_ref := i_ref p - 1\<rparr>) (upd_ino i (\<lambda>p. p\<lparr>i_valid := False, i_owner := None\<rparr>)
        (iupdate i (upd_ino i (\<lambda>p. p\<lparr>i_type := 0\<rparr>) s2)))" (is "_ = upd_ino i _ ?s4")
      using assms(1) True by (auto simp: iput_def acquiresleep_def bindR_Inr Let_def split: if_splits)
    have o1: "owners ?s1 = (owners s)[i := Some me]" "refs ?s1 = refs s"
      using assms(2) by (simp_all add: owner_update upd_ino_fields)
    have b2: "refs s2 = refs s" "owners s2 = (owners s)[i := Some me]" using itrunc_balance [OF s2] o1 by auto
    have i2: "i < length (itable s2)" using b2(1) assms(2) by (metis length_refs(1))
    have ow: "owners (upd_ino i (\<lambda>p. p\<lparr>i_valid := False, i_owner := None\<rparr>) t) = (owners t)[i := None]"
      if "i < length (itable t)" for t using that by (intro owner_update) simp_all
    have "refs ?s4 = refs s" using b2 by (simp add: upd_ino_fields)
    moreover have "owners ?s4 = (owners s)[i := None]" using b2 i2 by (simp add: ow upd_ino_fields)
    moreover have "(owners s)[i := None] = owners s" using o assms(2) by (simp add: owners_def list_update_same_conv)
    ultimately show ?thesis using d by (simp add: s')
  qed
  then show "refs s' = dec i (refs s)" "owners s' = owners s" by auto
  then show "length (itable s') = length (itable s)" by (metis length_refs(1,4))
qed

lemma iunlockput_balance:
  assumes "iunlockput me i s = Inr s'" "i < length (itable s)"
  shows "refs s' = dec i (refs s)" "owners s' = (owners s)[i := None]" "length (itable s') = length (itable s)"
proof -
  obtain t where t: "iunlock me i s = Inr t" "iput me i t = Inr s'" using assms(1) by (auto simp: iunlockput_def bindR_Inr)
  note u = iunlock_balance [OF t(1) assms(2)]
  note p = iput_balance [OF t(2)]
  show "refs s' = dec i (refs s)" "owners s' = (owners s)[i := None]" "length (itable s') = length (itable s)"
    using u p assms(2) by simp_all
qed

lemma dirlookup_from_balance:
  "dirlookup_from dp name off s = Inr (r, s') \<Longrightarrow>
   owners s' = owners s \<and> (case r of None \<Rightarrow> refs s' = refs s | Some (ip, _) \<Rightarrow> refs s' = inc ip (refs s) \<and> ip < length (itable s))"
proof (induction dp name off s rule: dirlookup_from.induct)
  case (1 dp name off s)
  show ?case
  proof (cases "off < i_size (ino s dp)")
    case False
    with 1(3) show ?thesis by (subst (asm) dirlookup_from.simps) auto
  next
    case True
    with 1(3) obtain v s1 where rd: "readi dp kernel_copy off 16 s = Inr (16, v, s1)"
      by (subst (asm) dirlookup_from.simps) (auto simp: bindR_Inr split: if_splits)
    have a: "refs s1 = refs s" "owners s1 = owners s" "length (itable s1) = length (itable s)"
      using addrs_only_fields [OF readi_addrs_only [OF rd]] by (simp_all add: refs_def owners_def)
    note IH = 1(1) [OF True rd refl refl, simplified] 1(2) [OF True rd refl refl, simplified]
    show ?thesis using 1(3) True rd a IH
      by (subst (asm) dirlookup_from.simps)
        (auto simp: Let_def bindR_Inr split: if_splits option.splits dest: iget_balance)
  qed
qed

section \<open>Path lookup\<close>

definition settled :: "nat \<Rightarrow> (nat \<times> bytes) option \<Rightarrow> fsys \<Rightarrow> fsys \<Rightarrow> bool" where
  "settled ip r s s' \<longleftrightarrow> owners s' = owners s
     \<and> (case r of None \<Rightarrow> refs s' = dec ip (refs s)
        | Some (q, _) \<Rightarrow> refs s' = inc q (dec ip (refs s)) \<and> q < length (itable s))"

lemma settled_step:
  assumes "refs s1 = dec ip (inc q (refs s))" "owners s1 = owners s" "settled q r s1 s'"
  shows "settled ip r s s'"
proof -
  have "dec q (refs s1) = dec ip (refs s)" by (simp add: assms(1) inc_dec)
  moreover have "length (itable s1) = length (itable s)" using assms(2) by (metis length_refs(2))
  ultimately show ?thesis using assms(2,3) by (auto simp: settled_def split: option.splits)
qed

lemma namex_from_balance:
  "namex_from me parent ip path name s = Inr (r, s') \<Longrightarrow> ip < length (itable s) \<Longrightarrow> settled ip r s s'"
proof (induction me parent ip path name s rule: namex_from.induct)
  case (1 me parent ip path name s)
  show ?case
  proof (cases "skipelem path")
    case None
    have inv: "inc ip (dec ip (refs s)) = refs s" by (rule inc_dec)
    show ?thesis using 1(2,3) None inv
      by (subst (asm) namex_from.simps) (auto simp: bindR_Inr settled_def dest: iput_balance split: if_splits)
  next
    case (Some pn)
    obtain path1 name1 where pn: "pn = (path1, name1)" by (cases pn)
    from 1(2) Some pn obtain s1 where l: "ilock me ip s = Inr s1"
      by (subst (asm) namex_from.simps) (auto simp: bindR_Inr)
    note L = ilock_balance [OF l 1(3)]
    have i1: "ip < length (itable s1)" using L 1(3) by simp
    have undo: "(owners s1)[ip := None] = owners s"
      using L(2,3) 1(3) by (metis length_refs(2) list_update_id list_update_overwrite)
    show ?thesis
    proof (cases "i_type (ino s1 ip) = T_DIR")
      case False
      then have u: "iunlockput me ip s1 = Inr s'" and r: "r = None" using 1(2) Some pn l
        by (subst (asm) namex_from.simps, auto simp: bindR_Inr)+
      show ?thesis using iunlockput_balance [OF u i1] r L undo by (simp add: settled_def)
    next
      case dir: True
      show ?thesis
      proof (cases "parent \<and> path1 = []")
        case True
        have inv: "inc ip (dec ip (refs s)) = refs s" by (rule inc_dec)
        from True have u: "iunlock me ip s1 = Inr s'" and r: "r = Some (ip, name1)" using 1(2) Some pn l dir
          by (subst (asm) namex_from.simps, auto simp: bindR_Inr)+
        show ?thesis using iunlock_balance [OF u i1] r L undo inv 1(3) by (simp add: settled_def)
      next
        case False
        with 1(2) Some pn l dir obtain q s2 where dl: "dirlookup ip name1 s1 = Inr (q, s2)"
          by (subst (asm) namex_from.simps) (auto simp: bindR_Inr)
        then have D: "owners s2 = owners s1"
          "case q of None \<Rightarrow> refs s2 = refs s1 | Some (n, _) \<Rightarrow> refs s2 = inc n (refs s1) \<and> n < length (itable s1)"
          using dirlookup_from_balance [of ip name1 0 s1 q s2] dir by (auto simp: dirlookup_def)
        have i2: "ip < length (itable s2)" using D(1) i1 by (metis length_refs(2))
        from 1(2) Some pn l dir False dl obtain s3 where u: "iunlockput me ip s2 = Inr s3"
          by (subst (asm) namex_from.simps) (auto simp: bindR_Inr split: option.splits)
        note U = iunlockput_balance [OF u i2]
        show ?thesis
        proof (cases q)
          case None
          then have "r = None" "s' = s3" using 1(2) Some pn l dir False dl u
            by (subst (asm) namex_from.simps, simp)+
          then show ?thesis using U D None L undo by (simp add: settled_def)
        next
          case (Some nq)
          obtain n o' where nq: "nq = (n, o')" by (cases nq)
          have rec: "namex_from me parent n path1 name1 s3 = Inr (r, s')"
            using 1(2) \<open>skipelem path = Some pn\<close> pn l dir False dl u Some nq
            by (subst (asm) namex_from.simps) simp
          have "n < length (itable s1)" using D(2) Some nq by simp
          moreover have "length (itable s2) = length (itable s1)" using arg_cong [OF D(1), of length] by simp
          ultimately have "n < length (itable s3)" using U(3) by simp
          from 1(1) [OF \<open>skipelem path = Some pn\<close> pn [symmetric] l _ False dl refl Some nq [symmetric] u rec this] dir
          have "settled n r s3 s'" by simp
          moreover have "refs s3 = dec ip (inc n (refs s))" using U D(2) Some nq L by simp
          moreover have "owners s3 = owners s" using U D(1) undo by simp
          ultimately show ?thesis using settled_step by blast
        qed
      qed
    qed
  qed
qed

text \<open>
  C10: path lookup is balanced.  Whenever \<open>namei\<close> or \<open>nameiparent\<close> returns, no lock is
  held that was not held before; if it returns an inode, that inode has exactly one
  reference more than before and every other count is as before; if it fails, no
  count has changed.
\<close>

theorem namex_balanced:
  assumes "namex me cwd path parent s = Inr (r, s')" "cwd < length (itable s)"
  shows "owners s' = owners s
    \<and> refs s' = (case r of None \<Rightarrow> refs s | Some (q, _) \<Rightarrow> inc q (refs s))
    \<and> (case r of None \<Rightarrow> True | Some (q, _) \<Rightarrow> q < length (itable s))"
proof -
  obtain ip s1 where s1: "refs s1 = inc ip (refs s)" "owners s1 = owners s" "ip < length (itable s)"
    and n: "namex_from me parent ip path [] s1 = Inr (r, s')"
    using assms idup_balance [of cwd s] by (auto simp: namex_def bindR_Inr split: if_splits dest: iget_balance)
  have l: "length (itable s1) = length (itable s)" using s1(2) by (metis length_refs(2))
  from namex_from_balance [OF n] s1 l show ?thesis
    by (auto simp: settled_def inc_dec split: option.splits)
qed

theorem namex_balanced_witness:
  "\<exists>s'. namex 3 1 [47, 97] False (upd_ino 0 (\<lambda>p. p\<lparr>i_type := T_DIR\<rparr>) mini_fs) = Inr (None, s') \<and> refs s' = [1, 1]"
proof -
  let ?s = "upd_ino 0 (\<lambda>p. p\<lparr>i_type := T_DIR\<rparr>) mini_fs"
  have "\<exists>s'. namex 3 1 [47, 97] False ?s = Inr (None, s')"
    by (simp add: namex_def iget_def namex_from.simps skipelem_def ilock_def acquiresleep_def dirlookup_def
        dirlookup_from.simps iunlockput_def iunlock_def iput_def upd_ino_def modify_def mini_fs_def mini_ino_def
        ROOTDEV_def ROOTINO_def)
  then obtain s' where n: "namex 3 1 [47, 97] False ?s = Inr (None, s')" by blast
  have "refs ?s = [1, 1]" by (simp add: refs_def mini_fs_def mini_ino_def modify_def)
  with namex_balanced [OF n] n show ?thesis by (auto simp: mini_fs_def)
qed

end
