(* ===== verification/Fs_Calls.thy ===== *)
theory Fs_Calls
  imports Fs_Balance
begin

text \<open>
  The system calls that change directories (\<open>xv6-riscv/kernel/sysfile.c\<close>: \<open>sys_link\<close>,
  \<open>isdirempty\<close>, \<open>sys_unlink\<close>, \<open>create\<close>, \<open>sys_mkdir\<close>, \<open>sys_mknod\<close>), from the point where
  the path names have been fetched.  A call is a function on the file system state;
  \<open>cwd\<close> is the caller's current directory.
\<close>

section \<open>Operations\<close>

definition T_FILE :: uint16 where "T_FILE = 2"
definition T_DEVICE :: uint16 where "T_DEVICE = 3"

definition dot :: bytes where "dot = [46]"
definition dotdot :: bytes where "dotdot = [46, 46]"

definition link_bad :: "int \<Rightarrow> nat \<Rightarrow> fsys \<Rightarrow> fs_error + int \<times> fsys" where
  "link_bad me ip s =
     bindR (ilock me ip s) (\<lambda>s1.
       let s2 = iupdate ip (upd_ino ip (\<lambda>p. p\<lparr>i_nlink := i_nlink p - 1\<rparr>) s1) in
       bindR (iunlockput me ip s2) (\<lambda>s3. Inr (-1, s3)))"

text \<open>\<open>sys_link\<close> after the first \<open>iunlock\<close>.\<close>

definition link_new :: "int \<Rightarrow> nat \<Rightarrow> nat \<Rightarrow> bytes \<Rightarrow> fsys \<Rightarrow> fs_error + int \<times> fsys" where
  "link_new me cwd ip new s =
     bindR (nameiparent me cwd new s) (\<lambda>(r, s1).
       case r of
         None \<Rightarrow> link_bad me ip s1
       | Some (dp, name) \<Rightarrow>
           bindR (ilock me dp s1) (\<lambda>s2.
           bindR (if i_dev (ino s2 dp) \<noteq> i_dev (ino s2 ip) then Inr (-1, s2)
                  else dirlink me dp name (i_inum (ino s2 ip)) s2) (\<lambda>(r, s3).
             if r < 0 then bindR (iunlockput me dp s3) (link_bad me ip)
             else
               bindR (iunlockput me dp s3) (\<lambda>s4.
               bindR (iput me ip s4) (\<lambda>s5. Inr (0, s5))))))"

definition sys_link :: "int \<Rightarrow> nat \<Rightarrow> bytes \<Rightarrow> bytes \<Rightarrow> fsys \<Rightarrow> fs_error + int \<times> fsys" where
  "sys_link me cwd old new s =
     bindR (namei me cwd old s) (\<lambda>(r, s1).
       case r of
         None \<Rightarrow> Inr (-1, s1)
       | Some (ip, _) \<Rightarrow>
           bindR (ilock me ip s1) (\<lambda>s2.
             if i_type (ino s2 ip) = T_DIR then bindR (iunlockput me ip s2) (\<lambda>s3. Inr (-1, s3))
             else
               let s3 = iupdate ip (upd_ino ip (\<lambda>p. p\<lparr>i_nlink := i_nlink p + 1\<rparr>) s2) in
               bindR (iunlock me ip s3) (link_new me cwd ip new)))"

function isdirempty_from :: "nat \<Rightarrow> nat \<Rightarrow> fsys \<Rightarrow> fs_error + bool \<times> fsys" where
  "isdirempty_from dp off s =
     (if off < i_size (ino s dp) then
        bindR (readi dp kernel_copy off 16 s) (\<lambda>(r, v, s1).
          if r \<noteq> 16 then Inl (FsPanic ''isdirempty: readi'')
          else if de_inum (dirent_of v) \<noteq> 0 then Inr (False, s1)
          else isdirempty_from dp (off + 16) s1)
      else Inr (True, s))"
  by pat_completeness auto
termination
  by (relation "measure (\<lambda>(dp, off, s). i_size (ino s dp) - off)")
    (auto dest!: readi_addrs_only simp: addrs_only_fields)

declare isdirempty_from.simps [simp del]

definition isdirempty :: "nat \<Rightarrow> fsys \<Rightarrow> fs_error + bool \<times> fsys" where
  "isdirempty dp s = isdirempty_from dp 32 s"

definition unlink_bad :: "int \<Rightarrow> nat \<Rightarrow> fsys \<Rightarrow> fs_error + int \<times> fsys" where
  "unlink_bad me dp s = bindR (iunlockput me dp s) (\<lambda>s1. Inr (-1, s1))"

text \<open>\<open>sys_unlink\<close> once the entry at \<open>off\<close> is known to be removable.\<close>

definition unlink_entry :: "int \<Rightarrow> nat \<Rightarrow> nat \<Rightarrow> nat \<Rightarrow> fsys \<Rightarrow> fs_error + int \<times> fsys" where
  "unlink_entry me dp ip off s =
     bindR (writei dp kernel_copy (replicate 16 0) off 16 s) (\<lambda>(r, s1).
       if r \<noteq> 16 then Inl (FsPanic ''unlink: writei'')
       else
         let s2 = (if i_type (ino s1 ip) = T_DIR
                   then iupdate dp (upd_ino dp (\<lambda>p. p\<lparr>i_nlink := i_nlink p - 1\<rparr>) s1) else s1) in
         bindR (iunlockput me dp s2) (\<lambda>s3.
           let s4 = iupdate ip (upd_ino ip (\<lambda>p. p\<lparr>i_nlink := i_nlink p - 1\<rparr>) s3) in
           bindR (iunlockput me ip s4) (\<lambda>s5. Inr (0, s5))))"

definition sys_unlink :: "int \<Rightarrow> nat \<Rightarrow> bytes \<Rightarrow> fsys \<Rightarrow> fs_error + int \<times> fsys" where
  "sys_unlink me cwd path s =
     bindR (nameiparent me cwd path s) (\<lambda>(r, s1).
       case r of
         None \<Rightarrow> Inr (-1, s1)
       | Some (dp, name) \<Rightarrow>
           bindR (ilock me dp s1) (\<lambda>s2.
             if namecmp name dot = 0 \<or> namecmp name dotdot = 0 then unlink_bad me dp s2
             else
               bindR (dirlookup dp name s2) (\<lambda>(r, s3).
                 case r of
                   None \<Rightarrow> unlink_bad me dp s3
                 | Some (ip, off) \<Rightarrow>
                     bindR (ilock me ip s3) (\<lambda>s4.
                       if sint (i_nlink (ino s4 ip)) < 1 then Inl (FsPanic ''unlink: nlink < 1'')
                       else
                         bindR (if i_type (ino s4 ip) = T_DIR then isdirempty ip s4 else Inr (True, s4)) (\<lambda>(e, s5).
                           if \<not> e then bindR (iunlockput me ip s5) (unlink_bad me dp)
                           else unlink_entry me dp ip off s5)))))"

definition create_fail :: "int \<Rightarrow> nat \<Rightarrow> nat \<Rightarrow> fsys \<Rightarrow> fs_error + nat option \<times> fsys" where
  "create_fail me dp ip s =
     (let s1 = iupdate ip (upd_ino ip (\<lambda>p. p\<lparr>i_nlink := 0\<rparr>) s) in
      bindR (iunlockput me ip s1) (\<lambda>s2. bindR (iunlockput me dp s2) (\<lambda>s3. Inr (None, s3))))"

text \<open>The entries \<open>.\<close> and \<open>..\<close> of a new directory; the second is not tried if the first fails.\<close>

definition link_dots :: "int \<Rightarrow> nat \<Rightarrow> nat \<Rightarrow> fsys \<Rightarrow> fs_error + bool \<times> fsys" where
  "link_dots me dp ip s =
     bindR (dirlink me ip dot (i_inum (ino s ip)) s) (\<lambda>(r, s1).
       if r < 0 then Inr (False, s1)
       else bindR (dirlink me ip dotdot (i_inum (ino s1 dp)) s1) (\<lambda>(r, s2). Inr (\<not> r < 0, s2)))"

definition create :: "int \<Rightarrow> nat \<Rightarrow> bytes \<Rightarrow> uint16 \<Rightarrow> uint16 \<Rightarrow> uint16 \<Rightarrow> fsys \<Rightarrow> fs_error + nat option \<times> fsys" where
  "create me cwd path ty maj mnr s =
     bindR (nameiparent me cwd path s) (\<lambda>(r, s1).
       case r of
         None \<Rightarrow> Inr (None, s1)
       | Some (dp, name) \<Rightarrow>
           bindR (ilock me dp s1) (\<lambda>s2.
           bindR (dirlookup dp name s2) (\<lambda>(r, s3).
             case r of
               Some (ip, _) \<Rightarrow>
                 bindR (iunlockput me dp s3) (\<lambda>s4.
                 bindR (ilock me ip s4) (\<lambda>s5.
                   if ty = T_FILE \<and> (i_type (ino s5 ip) = T_FILE \<or> i_type (ino s5 ip) = T_DEVICE) then Inr (Some ip, s5)
                   else bindR (iunlockput me ip s5) (\<lambda>s6. Inr (None, s6))))
             | None \<Rightarrow>
                 bindR (ialloc (i_dev (ino s3 dp)) ty s3) (\<lambda>(r, s4).
                   case r of
                     None \<Rightarrow> bindR (iunlockput me dp s4) (\<lambda>s5. Inr (None, s5))
                   | Some ip \<Rightarrow>
                       bindR (ilock me ip s4) (\<lambda>s5.
                         let s6 = iupdate ip (upd_ino ip (\<lambda>p. p\<lparr>i_major := maj, i_minor := mnr, i_nlink := 1\<rparr>) s5) in
                         bindR (if ty = T_DIR then link_dots me dp ip s6 else Inr (True, s6)) (\<lambda>(ok, s7).
                           if \<not> ok then create_fail me dp ip s7
                           else
                             bindR (dirlink me dp name (i_inum (ino s7 ip)) s7) (\<lambda>(r, s8).
                               if r < 0 then create_fail me dp ip s8
                               else
                                 let s9 = (if ty = T_DIR
                                           then iupdate dp (upd_ino dp (\<lambda>p. p\<lparr>i_nlink := i_nlink p + 1\<rparr>) s8) else s8)
                                 in bindR (iunlockput me dp s9) (\<lambda>s10. Inr (Some ip, s10)))))))))"

definition sys_mkdir :: "int \<Rightarrow> nat \<Rightarrow> bytes \<Rightarrow> fsys \<Rightarrow> fs_error + int \<times> fsys" where
  "sys_mkdir me cwd path s =
     bindR (create me cwd path T_DIR 0 0 s) (\<lambda>(r, s1).
       case r of None \<Rightarrow> Inr (-1, s1) | Some ip \<Rightarrow> bindR (iunlockput me ip s1) (\<lambda>s2. Inr (0, s2)))"

definition sys_mknod :: "int \<Rightarrow> nat \<Rightarrow> bytes \<Rightarrow> int \<Rightarrow> int \<Rightarrow> fsys \<Rightarrow> fs_error + int \<times> fsys" where
  "sys_mknod me cwd path maj mnr s =
     bindR (create me cwd path T_DEVICE (of_int maj) (of_int mnr) s) (\<lambda>(r, s1).
       case r of None \<Rightarrow> Inr (-1, s1) | Some ip \<Rightarrow> bindR (iunlockput me ip s1) (\<lambda>s2. Inr (0, s2)))"

section \<open>Bookkeeping of the parts\<close>

lemma addrs_only_balance: "addrs_only i s s' \<Longrightarrow> refs s' = refs s \<and> owners s' = owners s"
  by (simp add: refs_def owners_def addrs_only_fields)

lemma writei_loop_balance:
  "writei_loop i cp src n tot off s = Inr (t, o', s') \<Longrightarrow> refs s' = refs s \<and> owners s' = owners s"
proof (induction i cp src n tot off s rule: writei_loop.induct)
  case (1 i cp src n tot off s)
  show ?case
  proof (cases "tot < n")
    case False
    with 1(2) show ?thesis by (subst (asm) writei_loop.simps) simp
  next
    case True
    with 1(2) obtain a s1 where b: "bmap i (off div BSIZE) s = Inr (a, s1)"
      by (subst (asm) writei_loop.simps) (auto simp: bindR_Inr)
    note B = addrs_only_balance [OF bmap_addrs_only [OF b]]
    show ?thesis
    proof (cases "a = 0 \<or> cp tot (chunk n tot off) \<noteq> None")
      case stop: True
      with 1(2) True b B show ?thesis
        by (subst (asm) writei_loop.simps) (auto simp: Let_def split: if_splits option.splits)
    next
      case False
      then have a: "a \<noteq> 0" "cp tot (chunk n tot off) = None" by auto
      let ?s2 = "log_blk a (put_blk a (patch (off mod BSIZE) (take (chunk n tot off) (drop tot src)) (blk s1 a)) s1)"
      have "writei_loop i cp src n (tot + chunk n tot off) (off + chunk n tot off) ?s2 = Inr (t, o', s')"
        using 1(2) True b a by (subst (asm) writei_loop.simps) (simp add: Let_def)
      from 1(1) [OF True b refl a(1) refl refl a(2) this] B show ?thesis by simp
    qed
  qed
qed

lemma writei_balance:
  assumes "writei i cp src off n s = Inr (r, s')"
  shows "refs s' = refs s" "owners s' = owners s"
proof -
  have u: "refs (upd_ino i (\<lambda>p. p\<lparr>i_size := z\<rparr>) t) = refs t" "owners (upd_ino i (\<lambda>p. p\<lparr>i_size := z\<rparr>) t) = owners t" for z t
    by (simp_all add: upd_ino_fields)
  show "refs s' = refs s" "owners s' = owners s"
    using assms by (auto simp: writei_def bindR_Inr Let_def u split: if_splits dest!: writei_loop_balance)
qed

lemma empty_dirent_balance:
  "empty_dirent dp off s = Inr (o', s') \<Longrightarrow> refs s' = refs s \<and> owners s' = owners s"
proof (induction dp off s rule: empty_dirent.induct)
  case (1 dp off s)
  show ?case
  proof (cases "off < i_size (ino s dp)")
    case False
    with 1(2) show ?thesis by (subst (asm) empty_dirent.simps) simp
  next
    case True
    with 1(2) obtain v s1 where rd: "readi dp kernel_copy off 16 s = Inr (16, v, s1)"
      by (subst (asm) empty_dirent.simps) (auto simp: bindR_Inr split: if_splits)
    note a = addrs_only_balance [OF readi_addrs_only [OF rd]]
    note IH = 1(1) [OF True rd refl refl, simplified]
    show ?thesis using 1(2) True rd a IH
      by (subst (asm) empty_dirent.simps) (auto split: if_splits)
  qed
qed

lemma isdirempty_balance:
  "isdirempty_from dp off s = Inr (o', s') \<Longrightarrow> refs s' = refs s \<and> owners s' = owners s"
proof (induction dp off s rule: isdirempty_from.induct)
  case (1 dp off s)
  show ?case
  proof (cases "off < i_size (ino s dp)")
    case False
    with 1(2) show ?thesis by (subst (asm) isdirempty_from.simps) simp
  next
    case True
    with 1(2) obtain v s1 where rd: "readi dp kernel_copy off 16 s = Inr (16, v, s1)"
      by (subst (asm) isdirempty_from.simps) (auto simp: bindR_Inr split: if_splits)
    note a = addrs_only_balance [OF readi_addrs_only [OF rd]]
    note IH = 1(1) [OF True rd refl refl, simplified]
    show ?thesis using 1(2) True rd a IH
      by (subst (asm) isdirempty_from.simps) (auto split: if_splits)
  qed
qed

lemma dirlookup_balance:
  assumes "dirlookup dp name s = Inr (r, s')"
  shows "owners s' = owners s" "r = None \<Longrightarrow> refs s' = refs s"
    "r = Some (ip, off) \<Longrightarrow> refs s' = inc ip (refs s) \<and> ip < length (itable s)"
  using assms dirlookup_from_balance [of dp name 0 s r s'] by (auto simp: dirlookup_def split: if_splits)

lemma same_length: "owners s' = owners s \<Longrightarrow> length (itable s') = length (itable s)"
  by (metis length_refs(2))

lemma dec_inc: "dec i (inc i rs) = rs"
  by (simp add: inc_dec)

lemma dirlink_balance:
  assumes "dirlink me dp name inum s = Inr (r, s')"
  shows "refs s' = refs s" "owners s' = owners s"
proof -
  obtain q s1 where d: "dirlookup dp name s = Inr (q, s1)" using assms by (auto simp: dirlink_def bindR_Inr)
  note D = dirlookup_balance [OF d]
  have "refs s' = refs s \<and> owners s' = owners s"
  proof (cases q)
    case (Some a)
    obtain ip off where a: "a = (ip, off)" by (cases a)
    then have p: "iput me ip s1 = Inr s'" using assms d Some by (auto simp: dirlink_def bindR_Inr)
    have "ip < length (itable s1)" using D(3) [of ip off] Some a same_length [OF D(1)] by simp
    from iput_balance [OF p this] D(1,3) Some a show ?thesis by (simp add: dec_inc)
  next
    case None
    then obtain off s2 where "empty_dirent dp 0 s1 = Inr (off, s2)"
      "\<exists>r. writei dp kernel_copy (dirent_bytes \<lparr>de_inum = inum, de_name = strncpy name DIRSIZ\<rparr>) off 16 s2 = Inr (r, s')"
      using assms d by (auto simp: dirlink_def bindR_Inr Let_def)
    with D(1,2) None show ?thesis using empty_dirent_balance writei_balance by metis
  qed
  then show "refs s' = refs s" "owners s' = owners s" by auto
qed

lemma ialloc_balance:
  "ialloc_from inum dev ty s = Inr (r, s') \<Longrightarrow>
   owners s' = owners s \<and> (case r of None \<Rightarrow> refs s' = refs s | Some i \<Rightarrow> refs s' = inc i (refs s) \<and> i < length (itable s))"
proof (induction inum dev ty s rule: ialloc_from.induct)
  case (1 inum dev ty s)
  have w: "refs (write_dinode n v s) = refs s" "owners (write_dinode n v s) = owners s" "itable (write_dinode n v s) = itable s" for n v
    by (simp_all add: write_dinode_def refs_def owners_def)
  show ?case using 1(2) [unfolded ialloc_from.simps [of inum dev ty s]] 1(1) w
      iget_balance [of dev inum "write_dinode inum (le16 ty @ replicate 62 0) s"]
    by (auto simp: bindR_Inr split: if_splits)
qed

section \<open>The calls are balanced\<close>

lemma upd_nlink [simp]:
  "refs (upd_ino i (\<lambda>p. p\<lparr>i_nlink := g p\<rparr>) s) = refs s" "owners (upd_ino i (\<lambda>p. p\<lparr>i_nlink := g p\<rparr>) s) = owners s"
  "refs (upd_ino i (\<lambda>p. p\<lparr>i_major := m, i_minor := n, i_nlink := 1\<rparr>) s) = refs s"
  "owners (upd_ino i (\<lambda>p. p\<lparr>i_major := m, i_minor := n, i_nlink := 1\<rparr>) s) = owners s"
  by (simp_all add: upd_ino_fields)

lemma relock: "os ! d = None \<Longrightarrow> os[d := None] = os"
  by (metis list_update_id)

lemma relock2: "os ! d = None \<Longrightarrow> d \<noteq> i \<Longrightarrow> os[d := x, i := y, d := None] = os[i := y]"
  by (metis list_update_id list_update_overwrite list_update_swap)

lemma link_bad_balance:
  assumes "link_bad me ip s = Inr (r, s')" "ip < length (itable s)"
  shows "refs s' = dec ip (refs s)" "owners s' = owners s"
proof -
  obtain s1 where l: "ilock me ip s = Inr s1"
    and u: "iunlockput me ip (iupdate ip (upd_ino ip (\<lambda>p. p\<lparr>i_nlink := i_nlink p - 1\<rparr>) s1)) = Inr s'"
    using assms(1) by (auto simp: link_bad_def bindR_Inr Let_def)
  note L = ilock_balance [OF l assms(2)]
  have "ip < length (itable (iupdate ip (upd_ino ip (\<lambda>p. p\<lparr>i_nlink := i_nlink p - 1\<rparr>) s1)))" using L assms(2) by simp
  from iunlockput_balance [OF u this] L show "refs s' = dec ip (refs s)" "owners s' = owners s" by (simp_all add: relock)
qed

lemma namei_balance:
  assumes "namex me cwd path parent s = Inr (r, s')" "cwd < length (itable s)"
  shows "owners s' = owners s" "r = None \<Longrightarrow> refs s' = refs s"
    "r = Some (q, nm) \<Longrightarrow> refs s' = inc q (refs s) \<and> q < length (itable s)" "length (itable s') = length (itable s)"
proof -
  obtain ip s1 where s1: "refs s1 = inc ip (refs s)" "owners s1 = owners s" "ip < length (itable s)"
    and n: "namex_from me parent ip path [] s1 = Inr (r, s')"
    using assms idup_balance [of cwd s] by (auto simp: namex_def bindR_Inr split: if_splits dest: iget_balance)
  have l: "length (itable s1) = length (itable s)" using s1(2) by (rule same_length)
  from namex_from_balance [OF n] s1 l
  show o: "owners s' = owners s" and "r = None \<Longrightarrow> refs s' = refs s"
    "r = Some (q, nm) \<Longrightarrow> refs s' = inc q (refs s) \<and> q < length (itable s)"
    by (auto simp: settled_def inc_dec split: option.splits)
  from o show "length (itable s') = length (itable s)" by (rule same_length)
qed

lemma link_new_balance:
  assumes "link_new me cwd ip new s = Inr (r, s')" "cwd < length (itable s)" "ip < length (itable s)"
  shows "refs s' = dec ip (refs s)" "owners s' = owners s"
proof -
  obtain q s1 where n: "namex me cwd new True s = Inr (q, s1)"
    using assms(1) by (auto simp: link_new_def bindR_Inr nameiparent_def)
  note N = namei_balance [OF n assms(2)]
  have "refs s' = dec ip (refs s) \<and> owners s' = owners s"
  proof (cases q)
    case None
    then have "link_bad me ip s1 = Inr (r, s')" using assms(1) n by (simp add: link_new_def nameiparent_def)
    from link_bad_balance [OF this] N assms(3) None show ?thesis by simp
  next
    case (Some a)
    obtain dp name where a: "a = (dp, name)" by (cases a)
    then obtain s2 where l: "ilock me dp s1 = Inr s2"
      using assms(1) n Some by (auto simp: link_new_def nameiparent_def bindR_Inr)
    let ?d = "if i_dev (ino s2 dp) \<noteq> i_dev (ino s2 ip) then Inr (-1, s2) else dirlink me dp name (i_inum (ino s2 ip)) s2"
    obtain r3 s3 where d: "?d = Inr (r3, s3)" and k: "(if r3 < 0 then bindR (iunlockput me dp s3) (link_bad me ip)
        else bindR (iunlockput me dp s3) (\<lambda>s4. bindR (iput me ip s4) (\<lambda>s5. Inr (0, s5)))) = Inr (r, s')"
    proof -
      have "bindR ?d (\<lambda>(r, s3). if r < 0 then bindR (iunlockput me dp s3) (link_bad me ip)
          else bindR (iunlockput me dp s3) (\<lambda>s4. bindR (iput me ip s4) (\<lambda>s5. Inr (0, s5)))) = Inr (r, s')"
        using assms(1) n Some a l by (simp add: link_new_def nameiparent_def)
      then show thesis using that by (cases ?d) auto
    qed
    obtain s4 where u: "iunlockput me dp s3 = Inr s4" and e: "link_bad me ip s4 = Inr (r, s') \<or> iput me ip s4 = Inr s'"
      using k by (cases "r3 < 0") (auto simp: bindR_Inr)
    have dl: "dp < length (itable s1)" using N(3,4) Some a by simp
    note L = ilock_balance [OF l dl]
    have D: "refs s3 = refs s2" "owners s3 = owners s2" using d dirlink_balance by (auto split: if_splits)
    have "dp < length (itable s3)" using D(2) L(4) dl same_length by metis
    note U = iunlockput_balance [OF u this]
    have r4: "refs s4 = refs s" "owners s4 = owners s" using U D L N Some a by (simp_all add: dec_inc relock)
    have "ip < length (itable s4)" using r4(2) assms(3) same_length by metis
    with e r4 show ?thesis using link_bad_balance iput_balance by metis
  qed
  then show "refs s' = dec ip (refs s)" "owners s' = owners s" by auto
qed

lemma sys_link_balance:
  assumes "sys_link me cwd old new s = Inr (r, s')" "cwd < length (itable s)"
  shows "refs s' = refs s" "owners s' = owners s"
proof -
  obtain q s1 where n: "namex me cwd old False s = Inr (q, s1)"
    using assms(1) by (auto simp: sys_link_def bindR_Inr namei_def)
  note N = namei_balance [OF n assms(2)]
  have "refs s' = refs s \<and> owners s' = owners s"
  proof (cases q)
    case None
    then show ?thesis using assms(1) n N by (simp add: sys_link_def namei_def)
  next
    case (Some a)
    obtain ip nm where a: "a = (ip, nm)" by (cases a)
    then obtain s2 where l: "ilock me ip s1 = Inr s2" using assms(1) n Some by (auto simp: sys_link_def namei_def bindR_Inr)
    have il: "ip < length (itable s1)" using N(3,4) Some a by simp
    note L = ilock_balance [OF l il]
    show ?thesis
    proof (cases "i_type (ino s2 ip) = T_DIR")
      case True
      then have u: "iunlockput me ip s2 = Inr s'"
        using assms(1) n Some a l by (auto simp: sys_link_def namei_def bindR_Inr)
      have "ip < length (itable s2)" using L(4) il by simp
      from iunlockput_balance [OF u this] L N Some a show ?thesis by (simp add: dec_inc relock)
    next
      case False
      let ?s3 = "iupdate ip (upd_ino ip (\<lambda>p. p\<lparr>i_nlink := i_nlink p + 1\<rparr>) s2)"
      obtain s4 where u: "iunlock me ip ?s3 = Inr s4" and k: "link_new me cwd ip new s4 = Inr (r, s')"
        using assms(1) n Some a l False by (auto simp: sys_link_def namei_def bindR_Inr Let_def)
      have "ip < length (itable ?s3)" using L(4) il by simp
      note U = iunlock_balance [OF u this]
      have r4: "refs s4 = inc ip (refs s)" "owners s4 = owners s" using U L N Some a by (simp_all add: relock)
      have "cwd < length (itable s4)" "ip < length (itable s4)" using r4(2) assms(2) il N(4) same_length by metis+
      from link_new_balance [OF k this] r4 show ?thesis by (simp add: dec_inc)
    qed
  qed
  then show "refs s' = refs s" "owners s' = owners s" by auto
qed

lemma bindR_InrE:
  assumes "bindR r f = Inr b"
  obtains a where "r = Inr a" "f a = Inr b"
  using assms by (auto simp: bindR_Inr)

lemma unlink_bad_balance:
  assumes "unlink_bad me dp s = Inr (r, s')" "dp < length (itable s)"
  shows "refs s' = dec dp (refs s)" "owners s' = (owners s)[dp := None]"
proof -
  have u: "iunlockput me dp s = Inr s'" using assms(1) by (auto simp: unlink_bad_def bindR_Inr)
  show "refs s' = dec dp (refs s)" "owners s' = (owners s)[dp := None]" using iunlockput_balance [OF u assms(2)] by auto
qed

lemma unlink_entry_balance:
  assumes "unlink_entry me dp ip off s = Inr (r, s')" "dp < length (itable s)" "ip < length (itable s)"
  shows "refs s' = dec ip (dec dp (refs s))" "owners s' = (owners s)[dp := None, ip := None]"
proof -
  obtain q s1 where w: "writei dp kernel_copy (replicate 16 0) off 16 s = Inr (q, s1)"
    using assms(1) by (auto simp: unlink_entry_def bindR_Inr)
  note W = writei_balance [OF w]
  define s2 where "s2 = (if i_type (ino s1 ip) = T_DIR
      then iupdate dp (upd_ino dp (\<lambda>p. p\<lparr>i_nlink := i_nlink p - 1\<rparr>) s1) else s1)"
  have s2: "refs s2 = refs s" "owners s2 = owners s" using W by (auto simp: s2_def)
  obtain s3 where u: "iunlockput me dp s2 = Inr s3"
    and v: "iunlockput me ip (iupdate ip (upd_ino ip (\<lambda>p. p\<lparr>i_nlink := i_nlink p - 1\<rparr>) s3)) = Inr s'"
    using assms(1) w unfolding unlink_entry_def Let_def
    by (auto simp: bindR_Inr s2_def [symmetric] split: if_split_asm)
  have "dp < length (itable s2)" using assms(2) same_length [OF s2(2)] by simp
  note U = iunlockput_balance [OF u this]
  have "ip < length (itable (iupdate ip (upd_ino ip (\<lambda>p. p\<lparr>i_nlink := i_nlink p - 1\<rparr>) s3)))"
    using assms(3) U(3) same_length [OF s2(2)] by simp
  from iunlockput_balance [OF v this] U s2
  show "refs s' = dec ip (dec dp (refs s))" "owners s' = (owners s)[dp := None, ip := None]" by simp_all
qed

lemma dec2: "dec a (dec b (inc b (inc a rs))) = rs" "dec a (dec b (inc a (inc b rs))) = rs"
  by (rule nth_equalityI; simp add: inc_def dec_def nth_modify_any)+

lemma sys_unlink_balance:
  assumes "sys_unlink me cwd path s = Inr (r, s')" "cwd < length (itable s)"
  shows "refs s' = refs s" "owners s' = owners s"
proof -
  obtain q s1 where n: "namex me cwd path True s = Inr (q, s1)"
    using assms(1) by (auto simp: sys_unlink_def bindR_Inr nameiparent_def)
  note N = namei_balance [OF n assms(2)]
  have "refs s' = refs s \<and> owners s' = owners s"
  proof (cases q)
    case None
    then show ?thesis using assms(1) n N by (simp add: sys_unlink_def nameiparent_def)
  next
    case (Some a)
    obtain dp name where a: "a = (dp, name)" by (cases a)
    then obtain s2 where l: "ilock me dp s1 = Inr s2"
      using assms(1) n Some by (auto simp: sys_unlink_def nameiparent_def bindR_Inr)
    have dl: "dp < length (itable s1)" using N(3,4) Some a by simp
    note L = ilock_balance [OF l dl]
    have bad: ?thesis if "unlink_bad me dp t = Inr (r, s')" "refs t = refs s2" "owners t = owners s2" for t
    proof -
      have "dp < length (itable t)" using that(3) L(4) dl same_length by metis
      from unlink_bad_balance [OF that(1) this] that L N Some a show ?thesis by (simp add: dec_inc relock)
    qed
    show ?thesis
    proof (cases "namecmp name dot = 0 \<or> namecmp name dotdot = 0")
      case True
      then have "unlink_bad me dp s2 = Inr (r, s')" using assms(1) n Some a l by (simp add: sys_unlink_def nameiparent_def)
      then show ?thesis by (rule bad) simp_all
    next
      case nd: False
      obtain q3 s3 where d: "dirlookup dp name s2 = Inr (q3, s3)"
        using assms(1) n Some a l nd by (auto simp: sys_unlink_def nameiparent_def bindR_Inr)
      note D = dirlookup_balance [OF d]
      show ?thesis
      proof (cases q3)
        case None
        then have "unlink_bad me dp s3 = Inr (r, s')" using assms(1) n Some a l nd d by (simp add: sys_unlink_def nameiparent_def)
        then show ?thesis by (rule bad) (use D None in simp_all)
      next
        case e: (Some b)
        obtain ip off where b: "b = (ip, off)" by (cases b)
        obtain s4 where l4: "ilock me ip s3 = Inr s4"
          using assms(1) n Some a l nd d e b by (auto simp: sys_unlink_def nameiparent_def bindR_Inr)
        have il: "ip < length (itable s3)" using D(1,3) e b same_length by metis
        note L4 = ilock_balance [OF l4 il]
        have ne: "ip \<noteq> dp" using L(2) L4(3) D(1) dl by (auto simp: nth_list_update)
        let ?e = "if i_type (ino s4 ip) = T_DIR then isdirempty ip s4 else Inr (True, s4)"
        have main: "bindR ?e (\<lambda>(e, s5). if \<not> e then bindR (iunlockput me ip s5) (unlink_bad me dp)
            else unlink_entry me dp ip off s5) = Inr (r, s')"
          using assms(1) n Some a l nd d e b l4 by (simp add: sys_unlink_def nameiparent_def split: if_splits)
        then obtain em s5 where em: "?e = Inr (em, s5)" by (cases ?e) auto
        have s5: "refs s5 = refs s4" "owners s5 = owners s4"
          using em isdirempty_balance by (auto simp: isdirempty_def split: if_splits)
        have len: "length (itable s5) = length (itable s)"
          using s5(2) L4(4) D(1) L(4) N(4) same_length by metis
        have i5: "dp < length (itable s5)" "ip < length (itable s5)" using len dl il D(1) L(4) N(4) same_length by metis+
        have r5: "refs s5 = inc ip (inc dp (refs s))" "owners s5 = (owners s)[dp := Some me, ip := Some me]"
          "owners s ! dp = None" "owners s ! ip = None"
          using s5 L4 D e b L N Some a ne by simp_all
        show ?thesis
        proof (cases em)
          case True
          then have k: "unlink_entry me dp ip off s5 = Inr (r, s')" using main em by simp
          have "(owners s)[dp := Some me, ip := Some me, dp := None, ip := None] = owners s"
            using relock2 [OF r5(3)] ne r5(4) relock by simp
          with unlink_entry_balance [OF k i5] r5 show ?thesis by (simp add: dec2)
        next
          case False
          then obtain s6 where u: "iunlockput me ip s5 = Inr s6" and k: "unlink_bad me dp s6 = Inr (r, s')"
            using main em by (auto simp: bindR_Inr)
          note U = iunlockput_balance [OF u i5(2)]
          have "dp < length (itable s6)" using U(3) i5 by simp
          from unlink_bad_balance [OF k this] U r5 show ?thesis
            using ne relock [OF r5(3)] relock [OF r5(4)] by (simp add: dec2 list_update_swap)
        qed
      qed
    qed
  qed
  then show "refs s' = refs s" "owners s' = owners s" by auto
qed

lemma create_fail_balance:
  assumes "create_fail me dp ip s = Inr (r, s')" "dp < length (itable s)" "ip < length (itable s)"
  shows "r = None" "refs s' = dec dp (dec ip (refs s))" "owners s' = (owners s)[ip := None, dp := None]"
proof -
  let ?s1 = "iupdate ip (upd_ino ip (\<lambda>p. p\<lparr>i_nlink := 0\<rparr>) s)"
  obtain s2 where u: "iunlockput me ip ?s1 = Inr s2" and v: "iunlockput me dp s2 = Inr s'" and r: "r = None"
    using assms(1) by (auto simp: create_fail_def bindR_Inr Let_def)
  show "r = None" by (rule r)
  have "ip < length (itable ?s1)" using assms(3) by simp
  note U = iunlockput_balance [OF u this]
  have "dp < length (itable s2)" using U(3) assms(2) by simp
  from iunlockput_balance [OF v this] U
  show "refs s' = dec dp (dec ip (refs s))" "owners s' = (owners s)[ip := None, dp := None]" by simp_all
qed

lemma link_dots_balance:
  assumes "link_dots me dp ip s = Inr (b, s')"
  shows "refs s' = refs s" "owners s' = owners s"
proof -
  obtain r s1 where d: "dirlink me ip dot (i_inum (ino s ip)) s = Inr (r, s1)"
    and k: "s' = s1 \<or> (\<exists>q. dirlink me ip dotdot (i_inum (ino s1 dp)) s1 = Inr (q, s'))"
    using assms by (auto simp: link_dots_def bindR_Inr split: if_splits)
  show "refs s' = refs s" "owners s' = owners s" using k dirlink_balance [OF d] by (auto dest: dirlink_balance)
qed

text \<open>\<open>create\<close> once the new inode \<open>ip\<close> is allocated and locked.\<close>

definition create_new :: "int \<Rightarrow> nat \<Rightarrow> bytes \<Rightarrow> nat \<Rightarrow> uint16 \<Rightarrow> uint16 \<Rightarrow> uint16 \<Rightarrow> fsys \<Rightarrow> fs_error + nat option \<times> fsys" where
  "create_new me dp name ip ty maj mnr s5 =
     (let s6 = iupdate ip (upd_ino ip (\<lambda>p. p\<lparr>i_major := maj, i_minor := mnr, i_nlink := 1\<rparr>) s5) in
      bindR (if ty = T_DIR then link_dots me dp ip s6 else Inr (True, s6)) (\<lambda>(ok, s7).
        if \<not> ok then create_fail me dp ip s7
        else
          bindR (dirlink me dp name (i_inum (ino s7 ip)) s7) (\<lambda>(r, s8).
            if r < 0 then create_fail me dp ip s8
            else
              let s9 = (if ty = T_DIR
                        then iupdate dp (upd_ino dp (\<lambda>p. p\<lparr>i_nlink := i_nlink p + 1\<rparr>) s8) else s8)
              in bindR (iunlockput me dp s9) (\<lambda>s10. Inr (Some ip, s10)))))"

lemma create_new_balance:
  assumes "create_new me dp name ip ty maj mnr s = Inr (r, s')" "dp < length (itable s)" "ip < length (itable s)"
  shows "r = None \<and> refs s' = dec dp (dec ip (refs s)) \<and> owners s' = (owners s)[ip := None, dp := None]
    \<or> r = Some ip \<and> refs s' = dec dp (refs s) \<and> owners s' = (owners s)[dp := None]"
proof -
  define s6 where "s6 = iupdate ip (upd_ino ip (\<lambda>p. p\<lparr>i_major := maj, i_minor := mnr, i_nlink := 1\<rparr>) s)"
  have s6: "refs s6 = refs s" "owners s6 = owners s" by (simp_all add: s6_def)
  let ?d = "if ty = T_DIR then link_dots me dp ip s6 else Inr (True, s6)"
  have main: "bindR ?d (\<lambda>(ok, s7). if \<not> ok then create_fail me dp ip s7 else
      bindR (dirlink me dp name (i_inum (ino s7 ip)) s7) (\<lambda>(r, s8).
        if r < 0 then create_fail me dp ip s8
        else let s9 = (if ty = T_DIR then iupdate dp (upd_ino dp (\<lambda>p. p\<lparr>i_nlink := i_nlink p + 1\<rparr>) s8) else s8)
          in bindR (iunlockput me dp s9) (\<lambda>s10. Inr (Some ip, s10)))) = Inr (r, s')"
    using assms(1) unfolding create_new_def s6_def Let_def .
  then obtain okd s7 where d: "?d = Inr (okd, s7)" by (cases ?d) auto
  have s7: "refs s7 = refs s" "owners s7 = owners s" using d s6 link_dots_balance by (auto split: if_splits)
  have fail: ?thesis if "create_fail me dp ip t = Inr (r, s')" "refs t = refs s" "owners t = owners s" for t
  proof -
    have "dp < length (itable t)" "ip < length (itable t)" using assms(2,3) same_length [OF that(3)] by simp_all
    from create_fail_balance [OF that(1) this] that show ?thesis by simp
  qed
  show ?thesis
  proof (cases okd)
    case False
    then show ?thesis using main d s7 by (intro fail [of s7]) auto
  next
    case True
    then obtain q s8 where l: "dirlink me dp name (i_inum (ino s7 ip)) s7 = Inr (q, s8)"
      using main d by (auto simp: bindR_Inr)
    have s8: "refs s8 = refs s" "owners s8 = owners s" using dirlink_balance [OF l] s7 by simp_all
    show ?thesis
    proof (cases "q < 0")
      case neg: True
      then show ?thesis using main d True l s8 by (intro fail [of s8]) auto
    next
      case False
      define s9 where "s9 = (if ty = T_DIR then iupdate dp (upd_ino dp (\<lambda>p. p\<lparr>i_nlink := i_nlink p + 1\<rparr>) s8) else s8)"
      have s9: "refs s9 = refs s" "owners s9 = owners s" using s8 by (auto simp: s9_def)
      have u: "iunlockput me dp s9 = Inr s'" "r = Some ip"
        using main d True l False by (auto simp: bindR_Inr Let_def s9_def [symmetric])
      have "dp < length (itable s9)" using assms(2) same_length [OF s9(2)] by simp
      from iunlockput_balance [OF u(1) this] u(2) s9 show ?thesis by simp
    qed
  qed
qed

lemma create_balance:
  assumes "create me cwd path ty maj mnr s = Inr (r, s')" "cwd < length (itable s)"
  shows "r = None \<and> refs s' = refs s \<and> owners s' = owners s
    \<or> (\<exists>ip < length (itable s). r = Some ip \<and> refs s' = inc ip (refs s) \<and> owners s' = (owners s)[ip := Some me] \<and> owners s ! ip = None)"
proof -
  obtain q s1 where n: "namex me cwd path True s = Inr (q, s1)"
    using assms(1) by (auto simp: create_def bindR_Inr nameiparent_def)
  note N = namei_balance [OF n assms(2)]
  show ?thesis
  proof (cases q)
    case None
    then show ?thesis using assms(1) n N by (simp add: create_def nameiparent_def)
  next
    case (Some a)
    obtain dp name where a: "a = (dp, name)" by (cases a)
    then obtain s2 where l: "ilock me dp s1 = Inr s2"
      using assms(1) n Some by (auto simp: create_def nameiparent_def bindR_Inr)
    have dl: "dp < length (itable s1)" using N(3,4) Some a by simp
    note L = ilock_balance [OF l dl]
    obtain q3 s3 where d: "dirlookup dp name s2 = Inr (q3, s3)"
      using assms(1) n Some a l by (auto simp: create_def nameiparent_def bindR_Inr)
    note D = dirlookup_balance [OF d]
    have len3: "length (itable s3) = length (itable s)" using D(1) L(4) N(4) same_length by metis
    have od: "owners s ! dp = None" "owners s3 = (owners s)[dp := Some me]" "dp < length (itable s)"
      using L N D(1) dl by simp_all
    show ?thesis
    proof (cases q3)
      case e: (Some b)
      obtain ip off where b: "b = (ip, off)" by (cases b)
      obtain s4 s5 where u: "iunlockput me dp s3 = Inr s4" and l5: "ilock me ip s4 = Inr s5"
        and k: "r = Some ip \<and> s' = s5 \<or> r = None \<and> iunlockput me ip s5 = Inr s'"
        using assms(1) n Some a l d e b by (auto simp: create_def nameiparent_def bindR_Inr split: if_splits)
      have "dp < length (itable s3)" using len3 od(3) by simp
      note U = iunlockput_balance [OF u this]
      have il: "ip < length (itable s)" using D(3) e b L(4) N(4) by simp
      then have "ip < length (itable s4)" using U(3) len3 by simp
      note L5 = ilock_balance [OF l5 this]
      have r4: "refs s4 = inc ip (refs s)" "owners s4 = owners s"
        using U D e b L N Some a od by (simp_all add: inc_dec relock)
      have "ip < length (itable s5)" using L5(4) U(3) len3 il by simp
      then show ?thesis
        using k L5 r4 il iunlockput_balance [of me ip s5 s'] by (auto simp: dec_inc relock)
    next
      case None
      then obtain q4 s4 where i: "ialloc (i_dev (ino s3 dp)) ty s3 = Inr (q4, s4)"
        using assms(1) n Some a l d by (auto simp: create_def nameiparent_def bindR_Inr)
      have I: "owners s4 = owners s3" "case q4 of None \<Rightarrow> refs s4 = refs s3 | Some i \<Rightarrow> refs s4 = inc i (refs s3) \<and> i < length (itable s3)"
        using ialloc_balance i by (auto simp: ialloc_def)
      have r3: "refs s3 = inc dp (refs s)" using D(2) None L N Some a by simp
      have d4: "dp < length (itable s4)" using same_length [OF I(1)] len3 od(3) by simp
      show ?thesis
      proof (cases q4)
        case q: None
        then have u: "iunlockput me dp s4 = Inr s'" "r = None"
          using assms(1) n Some a l d None i by (auto simp: create_def nameiparent_def bindR_Inr)
        from iunlockput_balance [OF u(1) d4] u(2) I q r3 od show ?thesis by (simp add: dec_inc relock)
      next
        case q: (Some ip)
        obtain s5 where l5: "ilock me ip s4 = Inr s5" and k: "create_new me dp name ip ty maj mnr s5 = Inr (r, s')"
          using assms(1) n Some a l d None i q
          by (auto simp: create_def nameiparent_def create_new_def elim!: bindR_InrE)
        have i4: "ip < length (itable s4)" "ip < length (itable s)" using I q same_length [OF I(1)] len3 by simp_all
        note L5 = ilock_balance [OF l5 i4(1)]
        have ne: "ip \<noteq> dp" using L5(3) I(1) od(2,3) by (auto simp: nth_list_update)
        have oi: "owners s ! ip = None" using L5(3) I(1) od(2) ne by simp
        have r5: "refs s5 = inc ip (inc dp (refs s))" "owners s5 = (owners s)[dp := Some me, ip := Some me]"
          using L5 I q r3 od by simp_all
        have "dp < length (itable s5)" "ip < length (itable s5)" using L5(4) d4 i4 by simp_all
        from create_new_balance [OF k this]
        consider "r = None" "refs s' = dec dp (dec ip (refs s5))" "owners s' = (owners s5)[ip := None, dp := None]"
          | "r = Some ip" "refs s' = dec dp (refs s5)" "owners s' = (owners s5)[dp := None]" by blast
        then show ?thesis
        proof cases
          case 1
          moreover have "(owners s)[dp := Some me, ip := None, dp := None] = owners s"
            using relock2 [OF od(1), of ip] ne relock [OF oi] by simp
          ultimately show ?thesis using r5 by (simp add: dec2)
        next
          case 2
          moreover have "(owners s)[dp := Some me, ip := Some me, dp := None] = (owners s)[ip := Some me]"
            using relock2 [OF od(1), of ip] ne by simp
          moreover have "dec dp (inc ip (inc dp (refs s))) = inc ip (refs s)" by (simp add: inc_dec)
          ultimately show ?thesis using r5 i4 oi by simp
        qed
      qed
    qed
  qed
qed

lemma create_released:
  assumes "create me cwd path ty a b s = Inr (q, s1)" "cwd < length (itable s)"
    "case q of None \<Rightarrow> t = s1 | Some ip \<Rightarrow> iunlockput me ip s1 = Inr t"
  shows "refs t = refs s \<and> owners t = owners s"
proof (cases q)
  case None
  then show ?thesis using create_balance [OF assms(1,2)] assms(3) by auto
next
  case (Some ip)
  with create_balance [OF assms(1,2)] have c: "ip < length (itable s)" "refs s1 = inc ip (refs s)"
    "owners s1 = (owners s)[ip := Some me]" "owners s ! ip = None" by auto
  have "length (itable s1) = length (itable s)" using arg_cong [OF c(3), of length] by simp
  then have l: "ip < length (itable s1)" using c(1) by simp
  have "iunlockput me ip s1 = Inr t" using assms(3) Some by simp
  from iunlockput_balance [OF this l] c show ?thesis by (simp add: dec_inc relock)
qed

lemma sys_mkdir_created:
  assumes "sys_mkdir me cwd path s = Inr (r, t)"
  obtains q s1 where "create me cwd path T_DIR 0 0 s = Inr (q, s1)"
    "case q of None \<Rightarrow> t = s1 | Some ip \<Rightarrow> iunlockput me ip s1 = Inr t"
  using assms by (auto simp: sys_mkdir_def bindR_Inr split: option.splits)

lemma sys_mknod_created:
  assumes "sys_mknod me cwd path maj mnr s = Inr (r, t)"
  obtains q s1 where "create me cwd path T_DEVICE (of_int maj) (of_int mnr) s = Inr (q, s1)"
    "case q of None \<Rightarrow> t = s1 | Some ip \<Rightarrow> iunlockput me ip s1 = Inr t"
  using assms by (auto simp: sys_mknod_def bindR_Inr split: option.splits)

text \<open>
  the directory calls leak nothing.  Whenever \<open>link\<close>, \<open>unlink\<close>, \<open>mkdir\<close> or \<open>mknod\<close>
  returns, on success or on failure, every inode in the table has the reference
  count and the lock holder it had before the call.
\<close>

theorem directory_calls_balanced:
  assumes "cwd < length (itable s)"
    "sys_link me cwd old path s = Inr (r, s') \<or> sys_unlink me cwd path s = Inr (r, s')
     \<or> sys_mkdir me cwd path s = Inr (r, s') \<or> sys_mknod me cwd path maj mnr s = Inr (r, s')"
  shows "refs s' = refs s \<and> owners s' = owners s"
  using assms(2)
proof (elim disjE)
  assume "sys_link me cwd old path s = Inr (r, s')"
  then show ?thesis using sys_link_balance assms(1) by blast
next
  assume "sys_unlink me cwd path s = Inr (r, s')"
  then show ?thesis using sys_unlink_balance assms(1) by blast
next
  assume "sys_mkdir me cwd path s = Inr (r, s')"
  then show ?thesis by (rule sys_mkdir_created) (rule create_released [OF _ assms(1)])
next
  assume "sys_mknod me cwd path maj mnr s = Inr (r, s')"
  then show ?thesis by (rule sys_mknod_created) (rule create_released [OF _ assms(1)])
qed

theorem directory_calls_balanced_witness:
  "\<exists>s'. sys_unlink 3 1 [47, 97] (upd_ino 0 (\<lambda>p. p\<lparr>i_type := T_DIR\<rparr>) mini_fs) = Inr (-1, s') \<and> refs s' = [1, 1]"
proof -
  let ?s = "upd_ino 0 (\<lambda>p. p\<lparr>i_type := T_DIR\<rparr>) mini_fs"
  have "\<exists>s'. sys_unlink 3 1 [47, 97] ?s = Inr (-1, s')"
    by (simp add: sys_unlink_def nameiparent_def unlink_bad_def namecmp_def dot_def dotdot_def namex_def iget_def
        namex_from.simps skipelem_def ilock_def acquiresleep_def dirlookup_def
        dirlookup_from.simps iunlockput_def iunlock_def iput_def upd_ino_def modify_def mini_fs_def mini_ino_def
        ROOTDEV_def ROOTINO_def)
  then obtain s' where n: "sys_unlink 3 1 [47, 97] ?s = Inr (-1, s')" by blast
  have "refs ?s = [1, 1]" by (simp add: refs_def mini_fs_def mini_ino_def modify_def)
  with directory_calls_balanced [of 1 ?s 3 _ "[47, 97]" "-1" s'] n show ?thesis by (auto simp: mini_fs_def)
qed

end
