(* ===== verification/Fs_Discipline.thy ===== *)
theory Fs_Discipline
  imports Fs_Calls
begin

text \<open>
  Every change to a disk block goes through the log.  The file system operations
  touch the disk only by changing a buffer and handing it to \<open>log_write\<close>; the
  locale \<open>discipline\<close> carries any property that is closed under such a pair and
  under changes of the inode table through all operations, from \<open>balloc\<close> to the
  system calls.  It is interpreted for the relation that every changed block has
  been logged, which is what the log needs to make a call atomic, and for the
  super block staying as it is.

  The exception is a write whose copy from user memory fails: \<open>writei\<close> then has
  changed a buffer without logging it.  The lemmas on \<open>writei\<close> ask for copies that
  succeed, as those from kernel memory do.
\<close>

section \<open>Results that keep a relation\<close>

definition keeps :: "(fsys \<Rightarrow> bool) \<Rightarrow> ('a \<Rightarrow> fsys) \<Rightarrow> fs_error + 'a \<Rightarrow> bool" where
  "keeps P g r \<longleftrightarrow> (\<forall>v. r = Inr v \<longrightarrow> P (g v))"

lemma keepsD: "keeps P g r \<Longrightarrow> r = Inr v \<Longrightarrow> P (g v)"
  by (simp add: keeps_def)

lemma keeps_Inl: "keeps P g (Inl e)"
  by (simp add: keeps_def)

lemma keeps_Inr: "P (g v) \<Longrightarrow> keeps P g (Inr v)"
  by (simp add: keeps_def)

lemma keeps_Inr_pair: "P t \<Longrightarrow> keeps P snd (Inr (a, t))" "P t \<Longrightarrow> keeps P id (Inr t)"
  "P t \<Longrightarrow> keeps P (\<lambda>v. snd (snd v)) (Inr (a, b, t))"
  by (simp_all add: keeps_def)

lemma keeps_bind: "keeps P id m \<Longrightarrow> (\<And>t. P t \<Longrightarrow> keeps P g (k t)) \<Longrightarrow> keeps P g (bindR m k)"
  by (cases m) (simp_all add: keeps_def)

lemma keeps_bind2:
  "keeps P snd m \<Longrightarrow> (\<And>a t. P t \<Longrightarrow> keeps P g (k a t)) \<Longrightarrow> keeps P g (bindR m (\<lambda>(a, t). k a t))"
  by (cases m) (auto simp: keeps_def)

lemma keeps_bind3:
  "keeps P (\<lambda>v. snd (snd v)) m \<Longrightarrow> (\<And>a b t. P t \<Longrightarrow> keeps P g (k a b t)) \<Longrightarrow>
   keeps P g (bindR m (\<lambda>(a, b, t). k a b t))"
  by (cases m) (auto simp: keeps_def)

lemma keeps_if: "(Q \<Longrightarrow> keeps P g a) \<Longrightarrow> (\<not> Q \<Longrightarrow> keeps P g b) \<Longrightarrow> keeps P g (if Q then a else b)"
  by simp

lemma keeps_option:
  "keeps P g a \<Longrightarrow> (\<And>x. keeps P g (f x)) \<Longrightarrow> keeps P g (case r of None \<Rightarrow> a | Some x \<Rightarrow> f x)"
  by (cases r) simp_all

lemma keeps_prod: "(\<And>a b. keeps P g (f a b)) \<Longrightarrow> keeps P g (case p of (a, b) \<Rightarrow> f a b)"
  by (cases p) simp

lemmas keeps_intros =
  keeps_bind3 keeps_bind2 keeps_bind keeps_if keeps_option keeps_prod keeps_Inl keeps_Inr_pair

section \<open>The discipline\<close>

locale discipline =
  fixes P :: "fsys \<Rightarrow> bool"
  assumes logged_put: "P s \<Longrightarrow> P (log_blk b (put_blk b v s))"
    and table: "P s \<Longrightarrow> P (upd_ino i f s)"
begin

lemma balloc_from_keeps: "P s \<Longrightarrow> P (snd (balloc_from b s))"
  by (induction b s rule: balloc_from.induct)
    (subst balloc_from.simps, simp add: Let_def bzero_def logged_put split: option.split)

lemma balloc_keeps: "P s \<Longrightarrow> balloc s = (a, t) \<Longrightarrow> P t"
  using balloc_from_keeps [of s 0] by (simp add: balloc_def)

lemma bfree_keeps: "P s \<Longrightarrow> keeps P id (bfree b s)"
  by (simp add: bfree_def Let_def keeps_def logged_put)

lemma write_dinode_keeps: "P s \<Longrightarrow> P (write_dinode n v s)"
  by (simp add: write_dinode_def logged_put)

lemma iupdate_keeps: "P s \<Longrightarrow> P (iupdate i s)"
  by (simp add: iupdate_def write_dinode_keeps)

lemma idup_keeps: "P s \<Longrightarrow> P (idup i s)"
  by (simp add: idup_def table)

lemma iget_keeps: "P s \<Longrightarrow> keeps P snd (iget dev n s)"
  unfolding iget_def by (intro keeps_intros table)

lemma ialloc_from_keeps: "P s \<Longrightarrow> keeps P snd (ialloc_from n dev ty s)"
proof (induction n dev ty s rule: ialloc_from.induct)
  case (1 n dev ty s)
  show ?case
    by (subst ialloc_from.simps)
      (intro keeps_intros iget_keeps write_dinode_keeps 1; assumption)
qed

lemma ialloc_keeps: "P s \<Longrightarrow> keeps P snd (ialloc dev ty s)"
  unfolding ialloc_def by (rule ialloc_from_keeps)

lemma acquiresleep_keeps: "P s \<Longrightarrow> keeps P id (acquiresleep me i s)"
  unfolding acquiresleep_def by (intro keeps_intros table)

lemma ilock_keeps: "P s \<Longrightarrow> keeps P id (ilock me i s)"
  unfolding ilock_def Let_def by (intro keeps_intros acquiresleep_keeps table)

lemma iunlock_keeps: "P s \<Longrightarrow> keeps P id (iunlock me i s)"
  unfolding iunlock_def by (intro keeps_intros table)

lemma balloc_again: "balloc (upd_ino i f t) = (b, u) \<Longrightarrow> balloc s = (a, t) \<Longrightarrow> P s \<Longrightarrow> P u"
  using balloc_keeps table by blast

lemma bmap_keeps:
  assumes "P s"
  shows "keeps P snd (bmap i bn s)"
  unfolding keeps_def bmap_def Let_def using assms
  by (auto split: if_splits prod.splits dest: balloc_keeps balloc_again intro!: logged_put table)

lemma readi_loop_keeps: "P s \<Longrightarrow> keeps P (\<lambda>v. snd (snd v)) (readi_loop i cp n tot off dst s)"
proof (induction i cp n tot off dst s rule: readi_loop.induct)
  case (1 i cp n tot off dst s)
  show ?case
  proof (cases "bmap i (off div BSIZE) s")
    case (Inr v)
    obtain a t where v: "v = (a, t)" by (cases v)
    have t: "P t" using bmap_keeps [OF 1(2), of i "off div BSIZE"] Inr v by (simp add: keeps_def)
    show ?thesis
      using 1(1) [OF _ Inr v [symmetric] _ refl refl _ t] 1(2) Inr v t
      by (subst readi_loop.simps) (auto simp: keeps_def Let_def split: option.split)
  qed (use 1(2) in \<open>subst readi_loop.simps, simp add: keeps_def\<close>)
qed

lemma readi_keeps: "P s \<Longrightarrow> keeps P (\<lambda>v. snd (snd v)) (readi i cp off n s)"
  using readi_loop_keeps by (auto simp: readi_def keeps_def split: if_splits)

lemma writei_loop_keeps:
  "P s \<Longrightarrow> cp = kernel_copy \<Longrightarrow> keeps P (\<lambda>v. snd (snd v)) (writei_loop i cp src n tot off s)"
proof (induction i cp src n tot off s rule: writei_loop.induct)
  case (1 i cp src n tot off s)
  show ?case
  proof (cases "bmap i (off div BSIZE) s")
    case (Inr v)
    obtain a t where v: "v = (a, t)" by (cases v)
    have t: "P t" using bmap_keeps [OF 1(2), of i "off div BSIZE"] Inr v by (simp add: keeps_def)
    show ?thesis
      using 1(1) [OF _ Inr v [symmetric] _ refl refl _ logged_put [OF t] 1(3)] 1(2,3) Inr v t
      by (subst writei_loop.simps) (auto simp: keeps_def Let_def)
  qed (use 1(2) in \<open>subst writei_loop.simps, simp add: keeps_def\<close>)
qed

lemma writei_keeps:
  assumes "P s" "\<And>t m. cp t m = None"
  shows "keeps P snd (writei i cp src off n s)"
  unfolding writei_def Let_def
  by (intro keeps_intros writei_loop_keeps iupdate_keeps assms) (auto simp: table assms(2) fun_eq_iff)

lemma itrunc_direct_keeps: "P s \<Longrightarrow> keeps P id (itrunc_direct i ks s)"
proof (induction ks arbitrary: s)
  case (Cons k ks)
  show ?case
    unfolding itrunc_direct.simps Let_def by (intro keeps_intros bfree_keeps Cons table)
qed (simp add: keeps_def)

lemma itrunc_indirect_keeps: "P s \<Longrightarrow> keeps P id (itrunc_indirect ind js s)"
proof (induction js arbitrary: s)
  case (Cons j js)
  show ?case
    unfolding itrunc_indirect.simps Let_def by (intro keeps_intros bfree_keeps Cons)
qed (simp add: keeps_def)

lemma itrunc_keeps: "P s \<Longrightarrow> keeps P id (itrunc i s)"
  unfolding itrunc_def Let_def
  by (intro keeps_intros itrunc_direct_keeps itrunc_indirect_keeps bfree_keeps iupdate_keeps table)

lemma iput_keeps: "P s \<Longrightarrow> keeps P id (iput me i s)"
  unfolding iput_def Let_def
  by (intro keeps_intros itrunc_keeps acquiresleep_keeps iupdate_keeps table)

lemma iunlockput_keeps: "P s \<Longrightarrow> keeps P id (iunlockput me i s)"
  unfolding iunlockput_def by (intro keeps_intros iunlock_keeps iput_keeps)

lemma dirlookup_from_keeps: "P s \<Longrightarrow> keeps P snd (dirlookup_from dp name off s)"
proof (induction dp name off s rule: dirlookup_from.induct)
  case (1 dp name off s)
  show ?case
  proof (cases "readi dp kernel_copy off 16 s")
    case (Inr v)
    obtain r bs t where v: "v = (r, bs, t)" by (cases v)
    have t: "P t" using readi_keeps [OF 1(3), of dp kernel_copy off 16] Inr v by (simp add: keeps_def)
    have "keeps P snd (dirlookup_from dp name (off + 16) t)" if "off < i_size (ino s dp)" "r = 16"
      "de_inum (dirent_of bs) = 0 \<or> namecmp name (de_name (dirent_of bs)) \<noteq> 0"
      using 1(1) [OF that(1) Inr v [symmetric] refl _ refl _ t] 1(2) [OF that(1) Inr v [symmetric] refl _ refl _ _ t]
        that(2,3) by (cases "de_inum (dirent_of bs) = 0") auto
    then show ?thesis
      using Inr v t iget_keeps [OF t] 1(3)
      by (subst dirlookup_from.simps) (auto simp: Let_def intro!: keeps_intros)
  qed (use 1(3) in \<open>subst dirlookup_from.simps, simp add: keeps_def\<close>)
qed

lemma dirlookup_keeps: "P s \<Longrightarrow> keeps P snd (dirlookup dp name s)"
  unfolding dirlookup_def by (intro keeps_intros dirlookup_from_keeps)

lemma empty_dirent_keeps: "P s \<Longrightarrow> keeps P snd (empty_dirent dp off s)"
proof (induction dp off s rule: empty_dirent.induct)
  case (1 dp off s)
  show ?case
  proof (cases "readi dp kernel_copy off 16 s")
    case (Inr v)
    obtain r bs t where v: "v = (r, bs, t)" by (cases v)
    have t: "P t" using readi_keeps [OF 1(2), of dp kernel_copy off 16] Inr v by (simp add: keeps_def)
    show ?thesis
      using 1(1) [OF _ Inr v [symmetric] refl _ _ t] Inr v t 1(2)
      by (subst empty_dirent.simps) (auto intro!: keeps_intros)
  qed (use 1(2) in \<open>subst empty_dirent.simps, simp add: keeps_def\<close>)
qed

lemma isdirempty_from_keeps: "P s \<Longrightarrow> keeps P snd (isdirempty_from dp off s)"
proof (induction dp off s rule: isdirempty_from.induct)
  case (1 dp off s)
  show ?case
  proof (cases "readi dp kernel_copy off 16 s")
    case (Inr v)
    obtain r bs t where v: "v = (r, bs, t)" by (cases v)
    have t: "P t" using readi_keeps [OF 1(2), of dp kernel_copy off 16] Inr v by (simp add: keeps_def)
    show ?thesis
      using 1(1) [OF _ Inr v [symmetric] refl _ _ t] Inr v t 1(2)
      by (subst isdirempty_from.simps) (auto intro!: keeps_intros)
  qed (use 1(2) in \<open>subst isdirempty_from.simps, simp add: keeps_def\<close>)
qed

lemma dirlink_keeps: "P s \<Longrightarrow> keeps P snd (dirlink me dp name inum s)"
  unfolding dirlink_def Let_def
  by (intro keeps_intros dirlookup_keeps iput_keeps empty_dirent_keeps writei_keeps) simp_all

lemma namex_from_keeps: "P s \<Longrightarrow> keeps P snd (namex_from me p ip path name s)"
proof (induction "length path" arbitrary: ip path name s rule: less_induct)
  case less
  show ?case
  proof (cases "skipelem path")
    case None
    then show ?thesis
      by (subst namex_from.simps) (simp, intro conjI impI keeps_intros iput_keeps less)
  next
    case (Some e)
    obtain path1 name1 where e: "e = (path1, name1)" by (cases e)
    have IH: "P t \<Longrightarrow> keeps P snd (namex_from me p ip1 path1 name1 t)" for ip1 t
      using less(1) skipelem_less Some e by blast
    show ?thesis
      unfolding namex_from.simps [of me p ip path name s] Some e option.case prod.case
      by (intro keeps_intros ilock_keeps iunlockput_keeps iunlock_keeps dirlookup_keeps IH less(2))
  qed
qed

lemma namex_keeps: "P s \<Longrightarrow> keeps P snd (namex me cwd path p s)"
  unfolding namex_def by (intro keeps_intros namex_from_keeps iget_keeps idup_keeps)

lemma namei_keeps:
  "P s \<Longrightarrow> keeps P snd (namei me cwd path s)" "P s \<Longrightarrow> keeps P snd (nameiparent me cwd path s)"
  by (simp_all add: namei_def nameiparent_def namex_keeps)

lemmas call_keeps =
  namei_keeps
  ilock_keeps iunlock_keeps iput_keeps iunlockput_keeps iupdate_keeps table dirlookup_keeps dirlink_keeps
  ialloc_keeps isdirempty_from_keeps writei_keeps

lemma link_bad_keeps: "P s \<Longrightarrow> keeps P snd (link_bad me ip s)"
  unfolding link_bad_def Let_def by (intro keeps_intros call_keeps)

lemma sys_link_keeps: "P s \<Longrightarrow> keeps P snd (sys_link me cwd old new s)"
  unfolding sys_link_def link_new_def Let_def by (intro keeps_intros link_bad_keeps call_keeps)

lemma unlink_bad_keeps: "P s \<Longrightarrow> keeps P snd (unlink_bad me dp s)"
  unfolding unlink_bad_def by (intro keeps_intros call_keeps)

lemma unlink_entry_keeps: "P s \<Longrightarrow> keeps P snd (unlink_entry me dp ip off s)"
  unfolding unlink_entry_def Let_def by (intro keeps_intros call_keeps) (auto intro!: call_keeps)

lemma sys_unlink_keeps: "P s \<Longrightarrow> keeps P snd (sys_unlink me cwd path s)"
  unfolding sys_unlink_def isdirempty_def
  by (intro keeps_intros unlink_bad_keeps unlink_entry_keeps call_keeps)

lemma create_fail_keeps: "P s \<Longrightarrow> keeps P snd (create_fail me dp ip s)"
  unfolding create_fail_def Let_def by (intro keeps_intros call_keeps)

lemma link_dots_keeps: "P s \<Longrightarrow> keeps P snd (link_dots me dp ip s)"
  unfolding link_dots_def by (intro keeps_intros call_keeps)

lemma create_keeps: "P s \<Longrightarrow> keeps P snd (create me cwd path ty maj mnr s)"
  unfolding create_def Let_def
  by (intro keeps_intros create_fail_keeps link_dots_keeps call_keeps) (auto intro!: call_keeps)

lemma sys_mkdir_keeps: "P s \<Longrightarrow> keeps P snd (sys_mkdir me cwd path s)"
  unfolding sys_mkdir_def by (intro keeps_intros create_keeps call_keeps)

lemma sys_mknod_keeps: "P s \<Longrightarrow> keeps P snd (sys_mknod me cwd path maj mnr s)"
  unfolding sys_mknod_def by (intro keeps_intros create_keeps call_keeps)

end

section \<open>Every changed block is logged\<close>

definition recorded :: "fsys \<Rightarrow> fsys \<Rightarrow> bool" where
  "recorded s s' \<longleftrightarrow> (\<exists>L. logged s' = logged s @ L \<and> (\<forall>b. b \<notin> set L \<longrightarrow> blk s' b = blk s b))"

lemma recorded_refl: "recorded s s"
  by (simp add: recorded_def)

interpretation recorded: discipline "recorded s" for s
proof
  show "recorded s (log_blk b (put_blk b v t))" if "recorded s t" for t b v
    using that unfolding recorded_def by force
  show "recorded s (upd_ino i f t)" if "recorded s t" for t i f
    using that by (simp add: recorded_def upd_ino_def)
qed

interpretation same_sb: discipline "\<lambda>t. sb t = sb s \<and> length (itable t) = length (itable s)" for s
  by unfold_locales (simp_all add: upd_ino_def)

text \<open>
  C18: write-ahead discipline: a call of link, unlink, mkdir or mknod, whether it
  succeeds or fails, changes no disk block that it does not hand to the log, and
  leaves the super block alone.
\<close>
theorem calls_log_every_change:
  assumes "sys_link me cwd old new s = Inr (r, s') \<or> sys_unlink me cwd path s = Inr (r, s')
    \<or> sys_mkdir me cwd path s = Inr (r, s') \<or> sys_mknod me cwd path maj mnr s = Inr (r, s')"
  shows "(\<exists>L. logged s' = logged s @ L \<and> (\<forall>b. b \<notin> set L \<longrightarrow> blk s' b = blk s b)) \<and> sb s' = sb s"
proof
  note r = recorded.sys_link_keeps [OF recorded_refl] recorded.sys_unlink_keeps [OF recorded_refl]
    recorded.sys_mkdir_keeps [OF recorded_refl] recorded.sys_mknod_keeps [OF recorded_refl]
  show "\<exists>L. logged s' = logged s @ L \<and> (\<forall>b. b \<notin> set L \<longrightarrow> blk s' b = blk s b)"
    unfolding recorded_def [symmetric] using assms r [THEN keepsD] by fastforce
  note q = same_sb.sys_link_keeps [of s s] same_sb.sys_unlink_keeps [of s s]
    same_sb.sys_mkdir_keeps [of s s] same_sb.sys_mknod_keeps [of s s]
  show "sb s' = sb s"
    using assms q [THEN keepsD, OF conjI [OF refl refl]] by fastforce
qed

theorem calls_log_every_change_witness:
  "\<exists>s' L. sys_unlink 3 1 [47, 97] (upd_ino 0 (\<lambda>p. p\<lparr>i_type := T_DIR\<rparr>) mini_fs) = Inr (-1, s')
     \<and> logged s' = logged mini_fs @ L \<and> (\<forall>b. b \<notin> set L \<longrightarrow> blk s' b = blk mini_fs b)"
proof -
  let ?s = "upd_ino 0 (\<lambda>p. p\<lparr>i_type := T_DIR\<rparr>) mini_fs"
  have "\<exists>s'. sys_unlink 3 1 [47, 97] ?s = Inr (-1, s')"
    by (simp add: sys_unlink_def nameiparent_def unlink_bad_def namecmp_def dot_def dotdot_def namex_def iget_def
        namex_from.simps skipelem_def ilock_def acquiresleep_def dirlookup_def
        dirlookup_from.simps iunlockput_def iunlock_def iput_def upd_ino_def modify_def mini_fs_def mini_ino_def
        ROOTDEV_def ROOTINO_def)
  then obtain s' where n: "sys_unlink 3 1 [47, 97] ?s = Inr (-1, s')" by blast
  have e: "blk ?s = blk mini_fs" "logged ?s = logged mini_fs"
    by (simp_all add: upd_ino_def)
  from calls_log_every_change [of 3 1 _ _ ?s "-1" s' "[47, 97]"] n show ?thesis
    unfolding e by blast
qed

end
