(* ===== verification/Fs_Atomic.thy ===== *)
theory Fs_Atomic
  imports Fs_Discipline Fs_Trans Log_Steps
begin

text \<open>
  File system and log together.  A file system operation runs between \<open>begin_op\<close>
  and \<open>end_op\<close> of \<open>Log\<close>: the blocks it hands to the log are those of \<open>logged\<close>,
  their contents are the file system state it ends in.  The locale
  \<open>logged_operation\<close> says what the log needs of an operation, and shows that such
  an operation happens as a whole or not at all when the machine stops at any
  moment of the commit.  It is interpreted for \<open>writei\<close> with the pieces that
  \<open>filewrite\<close> gives it.
\<close>

section \<open>A transaction\<close>

primrec log_all :: "nat list \<Rightarrow> log \<Rightarrow> log_error + log" where
  "log_all [] l = Inr l"
| "log_all (b # bs) l = bindR (log_write (of_nat b) l) (\<lambda>(l1, _). log_all bs l1)"

definition cached :: "uint32 \<Rightarrow> fsys \<Rightarrow> store \<Rightarrow> store" where
  "cached st s d = d\<lparr>mem := (\<lambda>b. if home st b then blk s (unat b) else mem d b)\<rparr>"

text \<open>The operation takes the file system from \<open>s\<close> to \<open>s'\<close>; \<open>None\<close> if \<open>begin_op\<close> waits.\<close>

definition transaction :: "fsys \<Rightarrow> fsys \<Rightarrow> log \<Rightarrow> store \<Rightarrow> (log_error + log \<times> store) option" where
  "transaction s s' l d =
     (case begin_op l of
        None \<Rightarrow> None
      | Some l1 \<Rightarrow>
          Some (bindR (log_all (drop (length (logged s)) (logged s')) l1) (\<lambda>l2.
            end_op l2 (cached (start l) s' d))))"

text \<open>The log is idle, and the cache holds the blocks of the file system.\<close>

definition mounted :: "fsys \<Rightarrow> log \<Rightarrow> store \<Rightarrow> bool" where
  "mounted s l d \<longleftrightarrow> log_ok l d \<and> lh l = [] \<and> outstanding l = 0 \<and> \<not> committing l
     \<and> start l = of_nat (sb_logstart (sb s)) \<and> (\<forall>b. home (start l) b \<longrightarrow> mem d b = blk s (unat b))"

lemma log_all_effect:
  assumes "distinct (lh l)" "1 \<le> outstanding l" "card (set (lh l) \<union> of_nat ` set bs) \<le> MAXOPBLOCKS"
  shows "\<exists>hs. log_all bs l = Inr (l\<lparr>lh := hs\<rparr>) \<and> distinct hs \<and> set hs = set (lh l) \<union> of_nat ` set bs"
  using assms
proof (induction bs arbitrary: l)
  case Nil
  then show ?case by (intro exI [of _ "lh l"]) simp
next
  case (Cons b bs)
  have "length (lh l) \<le> card (set (lh l) \<union> of_nat ` set (b # bs))"
    using distinct_card [OF Cons.prems(1)] by (metis card_mono List.finite_set finite_Un finite_imageI sup_ge1)
  then have len: "length (lh l) < LOGBLOCKS"
    using Cons.prems(3) by (simp add: LOGBLOCKS_def MAXOPBLOCKS_def)
  obtain gs p where g: "log_write (of_nat b) l = Inr (l\<lparr>lh := gs\<rparr>, p)" "distinct gs" "set gs = insert (of_nat b) (set (lh l))"
  proof (cases "find_idx (\<lambda>x. x = of_nat b) (lh l)")
    case None
    then have "of_nat b \<notin> set (lh l)"
      by (auto simp: find_idx_None)
    then show ?thesis
      using that [of "lh l @ [of_nat b]"] None len Cons.prems(1,2) by (simp add: log_write_def)
  next
    case (Some i)
    note i = find_idx_SomeD [OF Some]
    then have same: "(lh l)[i := of_nat b] = lh l" by (metis list_update_id)
    moreover have "of_nat b \<in> set (lh l)" using i by (metis nth_mem)
    ultimately show ?thesis
      using that [of "lh l" False] Some len Cons.prems(1,2) by (simp add: log_write_def insert_absorb)
  qed
  have "set gs \<union> of_nat ` set bs = set (lh l) \<union> of_nat ` set (b # bs)"
    using g(3) by auto
  with Cons.IH [of "l\<lparr>lh := gs\<rparr>"] Cons.prems g show ?case by simp
qed

lemma begin_op_idle: "mounted s l d \<Longrightarrow> begin_op l = Some (l\<lparr>outstanding := 1\<rparr>)"
  by (simp add: mounted_def begin_op_def LOGBLOCKS_def MAXOPBLOCKS_def)

lemma cached_simps [simp]:
  "disk (cached st s d) = disk d" "trace (cached st s d) = trace d"
  "home st b \<Longrightarrow> mem (cached st s d) b = blk s (unat b)" "\<not> home st b \<Longrightarrow> mem (cached st s d) b = mem d b"
  by (simp_all add: cached_def)

text \<open>What a crash after \<open>k\<close> of the disk writes \<open>ws\<close> leaves: one of the two states.\<close>

definition all_or_nothing :: "fsys \<Rightarrow> fsys \<Rightarrow> uint32 \<Rightarrow> (uint32 \<Rightarrow> block) \<Rightarrow> (uint32 \<times> block) list \<Rightarrow> bool" where
  "all_or_nothing s s' st d ws \<longleftrightarrow>
     (\<forall>k. (\<forall>b. home st b \<longrightarrow> recovered st (apply_writes d (take k ws)) b = blk s (unat b)) \<or>
          (\<forall>b. home st b \<longrightarrow> recovered st (apply_writes d (take k ws)) b = blk s' (unat b))) \<and>
     (\<forall>b. home st b \<longrightarrow> recovered st (apply_writes d ws) b = blk s' (unat b))"

lemma committed_transaction:
  assumes m: "mounted s l d" and L: "logged s' = logged s @ L" "\<And>b. b \<notin> set L \<Longrightarrow> blk s' b = blk s b"
    and sb: "sb s' = sb s" and hs: "distinct hs" "set hs = of_nat ` set L" "length hs \<le> LOGBLOCKS"
    and hm: "\<And>b. b \<in> set L \<Longrightarrow> home (start l) (of_nat b)"
  defines "l2 \<equiv> l\<lparr>lh := hs, outstanding := 0, committing := True\<rparr>"
  shows "log_ok l2 (cached (start l) s' d)"
    and "\<exists>ws. trace (snd (commit l2 (cached (start l) s' d))) = trace d @ ws \<and>
          all_or_nothing s s' (start l) (disk d) ws"
proof -
  let ?d = "cached (start l) s' d"
  have st: "start l2 = start l" "lh l2 = hs" by (simp_all add: l2_def)
  have dd: "disk d b = blk s (unat b)" if "home (start l) b" for b
    using m that by (auto simp: mounted_def log_ok_def)
  have same: "blk s' (unat b) = blk s (unat b)" if "b \<notin> set hs" for b
  proof -
    have "unat b \<notin> set L"
    proof
      assume "unat b \<in> set L"
      then have "of_nat (unat b) \<in> set hs"
        using hs(2) by blast
      with that show False by simp
    qed
    then show ?thesis by (rule L(2))
  qed
  have hd_ok: "mem d (start l) = disk d (start l)" "length (disk d (start l)) = BSIZE"
    "head_blocks (disk d (start l)) = []"
    using m unfolding mounted_def log_ok_def by blast+
  have nst: "\<not> home (start l) (start l)"
    using start_not_home by blast
  show ok: "log_ok l2 ?d"
    unfolding log_ok_def st
  proof (intro conjI allI impI)
    have "home (start l) b" if "b \<in> set hs" for b
      using that hm unfolding hs(2) by (elim imageE) simp
    with hs(1,3) show "head_ok (start l) hs"
      unfolding head_ok_def by simp
    show "mem ?d b = disk ?d b" if "home (start l) b" "b \<notin> set hs" for b
      using that dd [OF that(1)] same [OF that(2)] by simp
    show "mem ?d (start l) = disk ?d (start l)" "length (disk ?d (start l)) = BSIZE"
      "head_blocks (disk ?d (start l)) = []"
      using hd_ok nst by simp_all
  qed
  show "\<exists>ws. trace (snd (commit l2 ?d)) = trace d @ ws \<and> all_or_nothing s s' (start l) (disk d) ws"
  proof (cases "hs = []")
    case True
    have "recovered (start l) (disk d) b = blk s (unat b)" if "home (start l) b" for b
      using recovered_home [of "start l" "disk d" b] that hd_ok(3) dd [OF that] by simp
    moreover have "blk s' (unat b) = blk s (unat b)" for b :: uint32
      using same True by simp
    ultimately show ?thesis
      using True by (intro exI [of _ "[]"]) (auto simp: all_or_nothing_def commit_def st apply_writes_def)
  next
    case False
    have ws: "trace (snd (commit l2 ?d)) = trace ?d @ commit_writes l2 ?d"
      by (rule commit_trace [OF ok]) (simp add: st False)
    have c: "recovered (start l) (apply_writes (disk d) (take k (commit_writes l2 ?d))) b =
        (if k \<le> length hs then blk s (unat b) else blk s' (unat b))" if "home (start l) b" for k b
      using commit_crash_atomic [OF ok _ ws, of b k] False that dd [OF that] by (simp add: st)
    have "length hs < length (commit_writes l2 ?d)"
      by (simp add: commit_writes_def st log_writes_def)
    then have "all_or_nothing s s' (start l) (disk d) (commit_writes l2 ?d)"
      unfolding all_or_nothing_def using c c [of _ "length (commit_writes l2 ?d)"] by auto
    with ws show ?thesis by auto
  qed
qed

section \<open>Operations that keep to the log\<close>

definition log_before_inodes :: "fsys \<Rightarrow> bool" where
  "log_before_inodes s \<longleftrightarrow> sb_logstart (sb s) + LOGBLOCKS < sb_inodestart (sb s) \<and> sb_size (sb s) < 2 ^ 31"

lemma home_after_log:
  assumes "log_before_inodes s" "sb_inodestart (sb s) \<le> b" "b < sb_size (sb s)"
  shows "home (of_nat (sb_logstart (sb s))) (of_nat b)"
proof -
  let ?st = "sb_logstart (sb s)"
  have lt: "?st + LOGBLOCKS < b" "b < 2 ^ 31"
    using assms by (auto simp: log_before_inodes_def)
  have ne: "(of_nat (?st + k) :: uint32) \<noteq> of_nat b" if "k \<le> LOGBLOCKS" for k
  proof
    assume "(of_nat (?st + k) :: uint32) = of_nat b"
    then have "?st + k = b"
      using lt that by (simp add: word_of_nat_eq_iff take_bit_nat_eq_self del: of_nat_add)
    with lt(1) that show False by simp
  qed
  have "log_slot (of_nat ?st) i \<noteq> (of_nat b :: uint32)" if "i < LOGBLOCKS" for i
    using ne [of "i + 1"] that by (simp add: log_slot_def ac_simps)
  then have "of_nat b \<notin> log_slot (of_nat ?st) ` {..<LOGBLOCKS}"
    by (metis imageE lessThan_iff)
  with ne [of 0] show ?thesis
    by (auto simp: home_def log_area_def)
qed

locale logged_operation =
  fixes pre :: "fsys \<Rightarrow> bool" and op :: "fsys \<Rightarrow> fs_error + 'a \<times> fsys"
  assumes op_recorded: "pre s \<Longrightarrow> op s = Inr (r, s') \<Longrightarrow> recorded s s' \<and> sb s' = sb s"
    and op_bound: "pre s \<Longrightarrow> op s = Inr (r, s') \<Longrightarrow>
      card (set (drop (length (logged s)) (logged s'))) \<le> MAXOPBLOCKS"
    and op_range: "pre s \<Longrightarrow> op s = Inr (r, s') \<Longrightarrow> b \<in> set (drop (length (logged s)) (logged s')) \<Longrightarrow>
      sb_inodestart (sb s) \<le> b \<and> b < sb_size (sb s)"
begin

lemma atomic:
  assumes "pre s" "op s = Inr (r, s')" "mounted s l d" "log_before_inodes s"
  shows "\<exists>l' d' ws. transaction s s' l d = Some (Inr (l', d')) \<and> mounted s' l' d' \<and>
    trace d' = trace d @ ws \<and> all_or_nothing s s' (start l) (disk d) ws"
proof -
  obtain L where L: "logged s' = logged s @ L" "\<And>b. b \<notin> set L \<Longrightarrow> blk s' b = blk s b" and sb: "sb s' = sb s"
    using op_recorded [OF assms(1,2)] unfolding recorded_def by blast
  have drop: "drop (length (logged s)) (logged s') = L"
    by (simp add: L(1))
  have st: "start l = of_nat (sb_logstart (sb s))" "lh l = []" "\<not> committing l" "outstanding l = 0"
    using assms(3) by (auto simp: mounted_def)
  have hm: "home (start l) (of_nat b)" if "b \<in> set L" for b
    using op_range [OF assms(1,2), of b] that home_after_log [OF assms(4), of b] st(1) drop by simp
  have card: "card (of_nat ` set L :: uint32 set) \<le> MAXOPBLOCKS"
    using op_bound [OF assms(1,2)] card_image_le [of "set L" "of_nat :: nat \<Rightarrow> uint32"] drop by simp
  obtain hs where hs: "log_all L (l\<lparr>outstanding := 1\<rparr>) = Inr (l\<lparr>outstanding := 1, lh := hs\<rparr>)"
    "distinct hs" "set hs = of_nat ` set L"
    using log_all_effect [of "l\<lparr>outstanding := 1\<rparr>" L] card st(2) by auto
  have len: "length hs \<le> LOGBLOCKS"
    using card hs(2,3) distinct_card [OF hs(2)] by (simp add: LOGBLOCKS_def)
  let ?d = "cached (start l) s' d" and ?l2 = "l\<lparr>lh := hs, outstanding := 0, committing := True\<rparr>"
  note c = committed_transaction [OF assms(3) L sb hs(2,3) len hm]
  obtain ws where ws: "trace (snd (commit ?l2 ?d)) = trace d @ ws" "all_or_nothing s s' (start l) (disk d) ws"
    using c(2) by blast
  obtain l3 d3 where cm: "commit ?l2 ?d = (l3, d3)"
    by (cases "commit ?l2 ?d")
  have end': "end_op (l\<lparr>outstanding := 1, lh := hs\<rparr>) ?d = Inr (end_op_finish l3, d3)"
    using cm st(3) by (simp add: end_op_def end_op_start_def Let_def)
  have tr: "transaction s s' l d = Some (Inr (end_op_finish l3, d3))"
    using begin_op_idle [OF assms(3)] hs(1) end' by (simp add: transaction_def drop)
  note k = commit_ok [OF c(1)]
  have memd: "mem d3 b = blk s' (unat b)" if "home (start l) b" for b
  proof -
    have "log_ok l3 d3" "lh l3 = []" "start l3 = start l" "disk d3 b = blk s' (unat b)"
      using k cm that by auto
    then show ?thesis
      using that by (simp add: log_ok_def)
  qed
  have "mounted s' (end_op_finish l3) d3"
    using k cm memd st(1) sb by (auto simp: mounted_def end_op_finish_def log_ok_def)
  with tr ws cm show ?thesis by auto
qed

end

section \<open>A piece of a write\<close>

definition write_pre :: "nat \<Rightarrow> uint8 list \<Rightarrow> nat \<Rightarrow> fsys \<Rightarrow> bool" where
  "write_pre i src off s \<longleftrightarrow> fs_ok s \<and> file_ok s i \<and> sb_size (sb s) \<le> BPB \<and> off < 2 ^ 32 \<and> length src \<le> WRITE_MAX"

interpretation write_piece: logged_operation "write_pre i src off" "writei i kernel_copy src off (length src)" for i src off
proof
  fix s s' :: fsys and r
  assume pre: "write_pre i src off s" and w: "writei i kernel_copy src off (length src) s = Inr (r, s')"
  note p = pre [unfolded write_pre_def]
  show "recorded s s' \<and> sb s' = sb s"
    using recorded.writei_keeps [OF recorded_refl [of s], THEN keepsD, OF _ w]
      same_sb.writei_keeps [of s s, THEN keepsD, OF _ _ w] by simp
  obtain L where L: "logged s' = logged s @ L" "card (set L) \<le> 7"
    "\<forall>b \<in> set L. sb_inodestart (sb s) \<le> b \<and> b < sb_size (sb s)"
    using writei_logged_blocks [of s i off src kernel_copy r s'] p w by blast
  then show "card (set (drop (length (logged s)) (logged s'))) \<le> MAXOPBLOCKS"
    by (simp add: MAXOPBLOCKS_def)
  show "sb_inodestart (sb s) \<le> b \<and> b < sb_size (sb s)" if "b \<in> set (drop (length (logged s)) (logged s'))" for b
    using L that by simp
qed

text \<open>
  C17: a piece of a write to a file is atomic across crashes.  On an idle, mounted
  disk whose bitmap is one block and whose log lies in front of the inodes,
  \<open>begin_op\<close>, \<open>writei\<close> and \<open>end_op\<close> run without a panic and leave the disk mounted
  with the new contents; and if the machine stops after any number of the disk
  writes, recovery yields every block of the state before or every block of the
  state after the write, never a mixture.  The copies of the data into the
  buffers are taken to succeed (\<open>kernel_copy\<close>): when a copy from user memory fails
  half way, \<open>writei\<close> leaves the bytes copied so far in a buffer it does not log.
\<close>
theorem write_piece_crash_atomic:
  assumes "fs_ok s" "file_ok s i" "sb_size (sb s) \<le> BPB" "off < 2 ^ 32" "length src \<le> WRITE_MAX"
    "log_before_inodes s" "mounted s l d" "writei i kernel_copy src off (length src) s = Inr (r, s')"
  shows "\<exists>l' d' ws. transaction s s' l d = Some (Inr (l', d')) \<and> mounted s' l' d' \<and>
    trace d' = trace d @ ws \<and> all_or_nothing s s' (start l) (disk d) ws"
  using write_piece.atomic [OF _ assms(8,7,6)] assms(1-5) by (simp add: write_pre_def)

text \<open>A full disk with a file of three bytes in block 37.\<close>

definition full_file :: fsys where
  "full_file = mini_fs\<lparr>
     sb := \<lparr>sb_magic = FSMAGIC, sb_size = 80, sb_nblocks = 43, sb_ninodes = 16, sb_nlog = 31, sb_logstart = 2,
       sb_inodestart = 33, sb_bmapstart = 36\<rparr>,
     blk := (\<lambda>b. if b = 36 then replicate 1024 0xFF else zeros),
     itable := [(mini_ino 1)\<lparr>i_size := 3, i_addrs := 37 # replicate 12 0\<rparr>]\<rparr>"

definition idle_log :: log where
  "idle_log = \<lparr>start = 2, outstanding = 0, committing = False, ncommit = 0, lh = []\<rparr>"

definition full_store :: store where
  "full_store = \<lparr>disk = (\<lambda>b. blk full_file (unat b)), mem = (\<lambda>b. blk full_file (unat b)), trace = []\<rparr>"

lemma full_used: "used full_file b" if "b < 80"
proof -
  have "b mod BPB = b" "b div BPB = 0" "b div 8 < 1024"
    using that by (simp_all add: BPB_def BSIZE_def)
  moreover have "bit (0xFF :: 8 word) (b mod 8)"
  proof -
    have "b mod 8 \<in> {0, 1, 2, 3, 4, 5, 6, 7}" by auto
    then show ?thesis by auto
  qed
  ultimately show ?thesis
    by (simp add: used_def bit_free_iff BBLOCK_def full_file_def)
qed

lemma full_file_ok: "fs_ok full_file"
proof -
  have d: "datastart full_file = 37"
    by (simp add: datastart_def full_file_def BPB_def BSIZE_def)
  have "length (blk full_file b) = BSIZE" for b
    by (simp add: full_file_def zeros_def BSIZE_def)
  moreover have "\<forall>b < datastart full_file. used full_file b"
    unfolding d using full_used by simp
  ultimately show ?thesis
    unfolding fs_ok_def d by (simp add: full_file_def IPB_def BSIZE_def)
qed

lemma full_slot: "k < NSLOT \<Longrightarrow> slot full_file 0 k = (if k = 0 then 37 else 0)"
  by (cases k) (simp_all add: slot_def full_file_def mini_ino_def fs_consts nth_Cons' flip: numeral_eq_Suc)

lemma full_file_ok_0: "file_ok full_file 0"
proof -
  have "data_block full_file 37"
    using full_used [of 37]
    by (simp add: data_block_def datastart_def) (simp add: full_file_def BPB_def BSIZE_def)
  then have "map_ok full_file 0"
    by (simp add: map_ok_def full_slot) (simp add: full_file_def fs_consts)
  moreover have "slot full_file 0 (slot_of (off div BSIZE)) \<noteq> 0" if "off < 3" for off
    using that full_slot [of 0] by (simp add: slot_of_def fs_consts)
  ultimately show ?thesis
    by (simp add: file_ok_def) (simp add: full_file_def mini_ino_def fs_consts)
qed

lemma full_mounted: "mounted full_file idle_log full_store"
proof -
  have "blk full_file (unat (2 :: uint32)) = zeros"
    by (simp add: full_file_def)
  then show ?thesis
    by (simp add: mounted_def log_ok_def head_ok_def idle_log_def full_store_def zeros_head)
       (simp add: full_file_def)
qed

theorem write_piece_crash_atomic_witness:
  "\<exists>r s' l' d'. writei 0 kernel_copy [99, 98] 1 2 full_file = Inr (r, s') \<and>
     transaction full_file s' idle_log full_store = Some (Inr (l', d')) \<and> mounted s' l' d'"
proof -
  have z: "1 \<le> i_size (ino full_file 0)" "1 + length [99, 98] \<le> MAXFILE * BSIZE"
    by (simp_all add: full_file_def mini_ino_def fs_consts)
  obtain r s' where w: "writei 0 kernel_copy [99, 98] 1 (length [99 :: uint8, 98]) full_file = Inr (r, s')"
    using writei_effect [OF full_file_ok full_file_ok_0 z, of kernel_copy] by metis
  have c: "sb_size (sb full_file) \<le> BPB" "length [99 :: uint8, 98] \<le> WRITE_MAX" "log_before_inodes full_file"
    by (simp_all add: full_file_def BPB_def BSIZE_def WRITE_MAX_def MAXOPBLOCKS_def log_before_inodes_def LOGBLOCKS_def)
  have o: "(1 :: nat) < 2 ^ 32" by simp
  obtain l' d' where "transaction full_file s' idle_log full_store = Some (Inr (l', d'))" "mounted s' l' d'"
    using write_piece_crash_atomic [OF full_file_ok full_file_ok_0 c(1) o c(2,3) full_mounted w] by blast
  moreover have "length [99 :: uint8, 98] = 2" by simp
  ultimately show ?thesis using w by metis
qed

end
