(* ===== verification/Kstring.thy ===== *)
theory Kstring
  imports Bytes
begin

text \<open>
  Physical memory as a function from addresses to bytes, its 64 bit words, and the
  memory and string routines of \<open>xv6-riscv/kernel/string.c\<close>.  Addresses are natural
  numbers: the kernel computes none beyond the range of \<open>uint64\<close>.  The string routines
  whose operands live in different objects (\<open>memcmp\<close>, \<open>safestrcpy\<close>, \<open>strlen\<close>) are on byte
  lists; \<open>strncmp\<close> and \<open>strncpy\<close> are in \<open>Fs_Dir\<close>.
\<close>

section \<open>Words in memory\<close>

type_synonym ram = "nat \<Rightarrow> uint8"

definition read64 :: "nat \<Rightarrow> ram \<Rightarrow> uint64" where
  "read64 a r = foldr (\<lambda>k w. push_bit 8 w OR ucast (r (a + k))) [0..<8] 0"

definition write64 :: "nat \<Rightarrow> uint64 \<Rightarrow> ram \<Rightarrow> ram" where
  "write64 a v r = (\<lambda>x. if a \<le> x \<and> x < a + 8 then ucast (drop_bit (8 * (x - a)) v) else r x)"

lemma bit_bytes:
  "bit (foldr (\<lambda>k w. push_bit 8 w OR ucast (f k)) [i..<i + m] 0 :: uint64) n \<longleftrightarrow>
   n < 64 \<and> n < 8 * m \<and> bit (f (i + n div 8) :: uint8) (n mod 8)"
proof (induction m arbitrary: i n)
  case (Suc m)
  let ?w = "foldr (\<lambda>k w. push_bit 8 w OR ucast (f k)) [Suc i..<Suc i + m] 0 :: uint64"
  have s: "foldr (\<lambda>k w. push_bit 8 w OR ucast (f k)) [i..<i + Suc m] 0 = push_bit 8 ?w OR ucast (f i)"
    by (simp add: upt_conv_Cons del: upt_Suc)
  have b: "bit (f i) n \<Longrightarrow> n < 8" by (auto dest: bit_imp_le_length)
  show ?case
  proof (cases "n < 8")
    case True
    then show ?thesis unfolding s by (simp add: bit_simps)
  next
    case False
    then obtain q where q: "n = q + 8" by (metis le_Suc_ex add.commute not_less)
    have "bit (push_bit 8 ?w OR ucast (f i)) n \<longleftrightarrow> n < 64 \<and> bit ?w q" using False b q by (auto simp: bit_simps)
    moreover have "n div 8 = Suc (q div 8)" by (simp add: q)
    ultimately show ?thesis unfolding s Suc.IH using q by auto
  qed
qed simp

lemma bit_read64: "bit (read64 a r) n \<longleftrightarrow> n < 64 \<and> bit (r (a + n div 8)) (n mod 8)"
  using bit_bytes [of "\<lambda>k. r (a + k)" 0 8 n] by (simp add: read64_def)

lemma read_write64 [simp]: "read64 a (write64 a v r) = v"
proof (rule bit_word_eqI)
  fix n assume n: "n < LENGTH(64)"
  then have "n div 8 < 8" by simp
  then show "bit (read64 a (write64 a v r)) n = bit v n"
    using n by (simp add: bit_read64 write64_def bit_simps)
qed

lemma read64_cong: "(\<And>k. k < 8 \<Longrightarrow> r (a + k) = r' (a + k)) \<Longrightarrow> read64 a r = read64 a r'"
  by (rule bit_word_eqI) (auto simp: bit_read64)

lemma read_write64_other: "a + 8 \<le> b \<or> b + 8 \<le> a \<Longrightarrow> read64 a (write64 b v r) = read64 a r"
  by (rule read64_cong) (auto simp: write64_def)

lemma write64_outside: "x < a \<or> a + 8 \<le> x \<Longrightarrow> write64 a v r x = r x"
  by (auto simp: write64_def)

lemma read64_zero: "(\<And>k. k < 8 \<Longrightarrow> r (a + k) = 0) \<Longrightarrow> read64 a r = 0"
  by (rule bit_word_eqI) (simp add: bit_read64)

section \<open>string.c\<close>

primrec memset :: "nat \<Rightarrow> uint8 \<Rightarrow> nat \<Rightarrow> ram \<Rightarrow> ram" where
  "memset dst c 0 r = r"
| "memset dst c (Suc n) r = memset (Suc dst) c n (r(dst := c))"

primrec copy_up :: "nat \<Rightarrow> nat \<Rightarrow> nat \<Rightarrow> ram \<Rightarrow> ram" where
  "copy_up d s 0 r = r"
| "copy_up d s (Suc n) r = copy_up (Suc d) (Suc s) n (r(d := r s))"

text \<open>The pointers are decremented before each copy, so \<open>d\<close> and \<open>s\<close> are the starts of the areas.\<close>

primrec copy_down :: "nat \<Rightarrow> nat \<Rightarrow> nat \<Rightarrow> ram \<Rightarrow> ram" where
  "copy_down d s 0 r = r"
| "copy_down d s (Suc n) r = copy_down d s n (r(d + n := r (s + n)))"

definition memmove :: "nat \<Rightarrow> nat \<Rightarrow> nat \<Rightarrow> ram \<Rightarrow> ram" where
  "memmove d s n r =
     (if n = 0 then r
      else if s < d \<and> s + n > d then copy_down d s n r
      else copy_up d s n r)"

fun memcmp :: "uint8 list \<Rightarrow> uint8 list \<Rightarrow> nat \<Rightarrow> int" where
  "memcmp v1 v2 0 = 0"
| "memcmp v1 v2 (Suc n) =
     (if hd v1 \<noteq> hd v2 then uint (hd v1) - uint (hd v2) else memcmp (tl v1) (tl v2) n)"

text \<open>The bytes that \<open>safestrcpy\<close> writes to its destination; \<open>t\<close> ends with a zero.\<close>

fun safestrcpy_loop :: "uint8 list \<Rightarrow> nat \<Rightarrow> uint8 list" where
  "safestrcpy_loop t 0 = [0]"
| "safestrcpy_loop t (Suc n) = (if hd t = 0 then [0, 0] else hd t # safestrcpy_loop (tl t) n)"

definition safestrcpy :: "uint8 list \<Rightarrow> int \<Rightarrow> uint8 list" where
  "safestrcpy t n = (if n \<le> 0 then [] else safestrcpy_loop t (nat n - 1))"

section \<open>What they do\<close>

lemma memset_eq: "memset dst c n r x = (if dst \<le> x \<and> x < dst + n then c else r x)"
  by (induction n arbitrary: dst r) auto

lemma copy_up_eq:
  "d \<le> s \<or> s + n \<le> d \<Longrightarrow> copy_up d s n r x = (if d \<le> x \<and> x < d + n then r (s + (x - d)) else r x)"
proof (induction n arbitrary: d s r x)
  case (Suc n)
  show ?case
  proof (cases "x = d")
    case True
    have "copy_up (Suc d) (Suc s) n (r(d := r s)) d = r s" using Suc.prems by (subst Suc.IH) auto
    then show ?thesis using True by simp
  next
    case False
    have "copy_up (Suc d) (Suc s) n (r(d := r s)) x
      = (if Suc d \<le> x \<and> x < Suc d + n then (r(d := r s)) (Suc s + (x - Suc d)) else (r(d := r s)) x)"
      using Suc.prems by (intro Suc.IH) auto
    then show ?thesis using False Suc.prems by (auto simp: Suc_diff_Suc intro!: arg_cong [of _ _ r])
  qed
qed auto

lemma copy_down_eq:
  "s < d \<Longrightarrow> copy_down d s n r x = (if d \<le> x \<and> x < d + n then r (s + (x - d)) else r x)"
  by (induction n arbitrary: r) auto

lemma memmove_eq: "memmove d s n r x = (if d \<le> x \<and> x < d + n then r (s + (x - d)) else r x)"
proof (cases "s < d \<and> s + n > d")
  case True
  then show ?thesis by (simp add: memmove_def copy_down_eq)
next
  case False
  then show ?thesis by (auto simp: memmove_def copy_up_eq)
qed

text \<open>
  \<open>memmove\<close> copies also between overlapping areas: afterwards the destination
  holds the bytes that the source had before, and every other byte is unchanged.
\<close>

theorem memmove_overlap:
  "map (memmove d s n r) [d..<d + n] = map r [s..<s + n] \<and> (\<forall>x. x < d \<or> d + n \<le> x \<longrightarrow> memmove d s n r x = r x)"
  by (auto simp: memmove_eq intro: nth_equalityI)

theorem memmove_overlap_witness:
  "map (memmove 3 2 4 (\<lambda>x. of_nat x)) [3..<3 + 4] = [2, 3, 4, 5]"
proof -
  have "map (memmove 3 2 4 (\<lambda>x. of_nat x)) [3..<3 + 4] = map (\<lambda>x. of_nat x) [2..<2 + 4]"
    using memmove_overlap [of 3 2 4 "\<lambda>x. of_nat x"] by blast
  also have "\<dots> = [2, 3, 4, 5]" by (simp add: upt_rec)
  finally show ?thesis .
qed

lemma safestrcpy_loop_bytes:
  "0 \<in> set t \<Longrightarrow> safestrcpy_loop t n = take n (takeWhile (\<lambda>c. c \<noteq> 0) t) @ (if length (takeWhile (\<lambda>c. c \<noteq> 0) t) < n then [0, 0] else [0])"
proof (induction t n rule: safestrcpy_loop.induct)
  case (2 t n)
  then show ?case by (cases t) auto
qed simp

text \<open>
  \<open>safestrcpy\<close> writes at most \<open>n\<close> bytes: the string or as much of it as leaves room
  for the final zero, and that zero.
\<close>

lemma safestrcpy_bytes:
  assumes "0 \<in> set t" "0 < n"
  defines "w \<equiv> take (nat n - 1) (takeWhile (\<lambda>c. c \<noteq> 0) t)"
  shows "length (safestrcpy t n) \<le> nat n" "takeWhile (\<lambda>c. c \<noteq> 0) (safestrcpy t n) = w" "last (safestrcpy t n) = 0"
proof -
  let ?v = "takeWhile (\<lambda>c. c \<noteq> 0) t"
  have e: "safestrcpy t n = w @ (if length ?v < nat n - 1 then [0, 0] else [0])"
    using assms(1,2) by (simp add: safestrcpy_def safestrcpy_loop_bytes w_def)
  have "\<forall>c \<in> set w. c \<noteq> 0" by (auto simp: w_def dest!: in_set_takeD set_takeWhileD)
  then show "takeWhile (\<lambda>c. c \<noteq> 0) (safestrcpy t n) = w" by (simp add: e takeWhile_append2)
  show "length (safestrcpy t n) \<le> nat n" using assms(2) by (auto simp: e w_def)
  show "last (safestrcpy t n) = 0" by (simp add: e)
qed

lemma memcmp_zero:
  "n \<le> length u \<Longrightarrow> n \<le> length v \<Longrightarrow> memcmp u v n = 0 \<longleftrightarrow> take n u = take n v"
proof (induction u v n rule: memcmp.induct)
  case (2 u v n)
  then show ?case by (cases u; cases v) (auto simp: word_uint_eq_iff)
qed simp

end
