(* ===== verification/Kalloc.thy ===== *)
theory Kalloc
  imports Kstring Allocator
begin

text \<open>
  The allocator of physical pages (\<open>xv6-riscv/kernel/kalloc.c\<close>): the free pages form a
  list that is linked through their own first words.  The state is the memory, the
  head of the list and the linker's symbol \<open>end\<close>, the first address after the kernel.
  Each call is one step: it runs under \<open>kmem.lock\<close> wherever it touches the list.
\<close>

section \<open>Operations\<close>

definition PGSIZE :: nat where "PGSIZE = 4096"
definition KERNBASE :: nat where "KERNBASE = 0x80000000"
definition PHYSTOP :: nat where "PHYSTOP = KERNBASE + 128 * 1024 * 1024"

definition PGROUNDUP :: "nat \<Rightarrow> nat" where
  "PGROUNDUP sz = ((sz + PGSIZE - 1) mod 2 ^ 64) div PGSIZE * PGSIZE"

definition PGROUNDDOWN :: "nat \<Rightarrow> nat" where
  "PGROUNDDOWN a = a div PGSIZE * PGSIZE"

record phys =
  ram :: ram
  freelist :: nat
  kend :: nat

datatype vm_error = VmPanic string | VmNullPte | VmTooDeep

definition store_page :: "nat \<Rightarrow> uint8 \<Rightarrow> phys \<Rightarrow> phys" where
  "store_page p c s = s\<lparr>ram := memset p c PGSIZE (ram s)\<rparr>"

definition kfree :: "nat \<Rightarrow> phys \<Rightarrow> vm_error + phys" where
  "kfree pa s =
     (if pa mod PGSIZE \<noteq> 0 \<or> pa < kend s \<or> pa \<ge> PHYSTOP then Inl (VmPanic ''kfree'')
      else
        let s1 = store_page pa 1 s
        in Inr (s1\<lparr>ram := write64 pa (of_nat (freelist s1)) (ram s1), freelist := pa\<rparr>))"

definition kalloc :: "phys \<Rightarrow> nat \<times> phys" where
  "kalloc s =
     (let r = freelist s in
      if r = 0 then (0, s)
      else (r, store_page r 5 (s\<lparr>freelist := unat (read64 r (ram s))\<rparr>)))"

function freerange_from :: "nat \<Rightarrow> nat \<Rightarrow> phys \<Rightarrow> vm_error + phys" where
  "freerange_from p pa_end s =
     (if p + PGSIZE \<le> pa_end then bindR (kfree p s) (freerange_from (p + PGSIZE) pa_end) else Inr s)"
  by pat_completeness auto
termination
  by (relation "measure (\<lambda>(p, e, s). e - p)") (auto simp: PGSIZE_def)

declare freerange_from.simps [simp del]

definition freerange :: "nat \<Rightarrow> nat \<Rightarrow> phys \<Rightarrow> vm_error + phys" where
  "freerange pa_start pa_end s = freerange_from (PGROUNDUP pa_start) pa_end s"

definition kinit :: "phys \<Rightarrow> vm_error + phys" where
  "kinit s = freerange (kend s) PHYSTOP s"

section \<open>The free list\<close>

definition managed :: "phys \<Rightarrow> nat \<Rightarrow> bool" where
  "managed s p \<longleftrightarrow> p mod PGSIZE = 0 \<and> kend s \<le> p \<and> p < PHYSTOP"

fun chain :: "ram \<Rightarrow> nat \<Rightarrow> nat list \<Rightarrow> bool" where
  "chain r p [] \<longleftrightarrow> p = 0"
| "chain r p (x # xs) \<longleftrightarrow> p = x \<and> p \<noteq> 0 \<and> chain r (unat (read64 p r)) xs"

definition free_list :: "phys \<Rightarrow> nat list \<Rightarrow> bool" where
  "free_list s ps \<longleftrightarrow> chain (ram s) (freelist s) ps \<and> distinct ps \<and> (\<forall>p \<in> set ps. managed s p)"

definition free_pages :: "phys \<Rightarrow> nat set" where
  "free_pages s = {p. \<exists>ps. chain (ram s) (freelist s) ps \<and> p \<in> set ps}"

definition kmem_ok :: "phys \<Rightarrow> bool" where
  "kmem_ok s \<longleftrightarrow> 0 < kend s \<and> (\<exists>ps. free_list s ps)"

lemma chain_unique: "chain r p xs \<Longrightarrow> chain r p ys \<Longrightarrow> xs = ys"
proof (induction xs arbitrary: p ys)
  case Nil
  then show ?case by (cases ys) auto
next
  case (Cons x xs)
  then show ?case by (cases ys) auto
qed

lemma free_chain_cong: "chain r p xs \<Longrightarrow> (\<And>x. x \<in> set xs \<Longrightarrow> read64 x r' = read64 x r) \<Longrightarrow> chain r' p xs"
  by (induction xs arbitrary: p) auto

lemma free_list_pages: "free_list s ps \<Longrightarrow> free_pages s = set ps"
  by (auto simp: free_list_def free_pages_def dest: chain_unique)

lemma managed_page:
  assumes "managed s p" "0 < kend s"
  shows "p mod PGSIZE = 0" "0 < p" "p + PGSIZE \<le> PHYSTOP"
  using assms by (auto simp: managed_def PGSIZE_def PHYSTOP_def KERNBASE_def)

lemma kfree_ok: "managed s p \<Longrightarrow> \<exists>s'. kfree p s = Inr s'"
  by (simp add: kfree_def managed_def Let_def)

lemma page_disjoint:
  assumes "p mod PGSIZE = 0" "q mod PGSIZE = 0" "p \<noteq> q"
  shows "p + PGSIZE \<le> q \<or> q + PGSIZE \<le> p"
proof -
  obtain i j where "p = PGSIZE * i" "q = PGSIZE * j" using assms(1,2) by (metis mod_0_imp_dvd dvdE)
  then show ?thesis using assms(3) by (cases i j rule: linorder_cases) (auto simp: PGSIZE_def)
qed

text \<open>What a step leaves alone: every byte outside one page.\<close>

definition same_outside :: "nat set \<Rightarrow> phys \<Rightarrow> phys \<Rightarrow> bool" where
  "same_outside F s s' \<longleftrightarrow> (\<forall>x. PGROUNDDOWN x \<notin> F \<longrightarrow> ram s' x = ram s x)"

lemma page_of: "p mod PGSIZE = 0 \<Longrightarrow> p \<le> x \<Longrightarrow> x < p + PGSIZE \<Longrightarrow> PGROUNDDOWN x = p"
  by (auto simp: PGROUNDDOWN_def PGSIZE_def)

lemma in_page: "PGROUNDDOWN x = p \<Longrightarrow> p \<le> x \<and> x < p + PGSIZE"
  by (auto simp: PGROUNDDOWN_def PGSIZE_def)

lemma word_page: "p mod PGSIZE = 0 \<Longrightarrow> PGROUNDDOWN x = p \<Longrightarrow> x mod 8 = 0 \<Longrightarrow> k < 8 \<Longrightarrow> PGROUNDDOWN (x + k) = p"
  by (auto simp: PGROUNDDOWN_def PGSIZE_def)

lemma read64_outside:
  assumes "same_outside F s s'" "PGROUNDDOWN a \<notin> F" "a mod 8 = 0"
  shows "read64 a (ram s') = read64 a (ram s)"
proof (rule read64_cong)
  fix k :: nat assume "k < 8"
  have "PGROUNDDOWN a mod PGSIZE = 0" by (simp add: PGROUNDDOWN_def)
  from word_page [OF this refl assms(3) \<open>k < 8\<close>] have "PGROUNDDOWN (a + k) = PGROUNDDOWN a" .
  with assms(1,2) show "ram s' (a + k) = ram s (a + k)" by (simp add: same_outside_def)
qed

lemma page_self: "p mod PGSIZE = 0 \<Longrightarrow> PGROUNDDOWN p = p"
  by (auto simp: PGROUNDDOWN_def)

lemma same_outside_refl: "same_outside F s s"
  by (simp add: same_outside_def)

lemma same_outside_trans: "same_outside F s t \<Longrightarrow> same_outside G t u \<Longrightarrow> same_outside (F \<union> G) s u"
  by (auto simp: same_outside_def)

lemma same_outside_mono: "same_outside F s t \<Longrightarrow> F \<subseteq> G \<Longrightarrow> same_outside G s t"
  by (auto simp: same_outside_def)

lemma store_page_outside: "p mod PGSIZE = 0 \<Longrightarrow> same_outside {p} s (store_page p c s)"
  by (auto simp: same_outside_def store_page_def memset_eq page_of)

lemma kfree_outside:
  assumes "kfree p s = Inr s'"
  shows "same_outside {p} s s'"
proof -
  have p: "p mod PGSIZE = 0" and s': "ram s' = write64 p (of_nat (freelist s)) (memset p 1 PGSIZE (ram s))"
    using assms by (auto simp: kfree_def store_page_def Let_def split: if_splits)
  have "PGROUNDDOWN x = p" if "p \<le> x" "x < p + 8 \<or> x < p + PGSIZE" for x
    using that by (intro page_of [OF p]) (auto simp: PGSIZE_def)
  then show ?thesis by (auto simp: same_outside_def s' write64_def memset_eq)
qed

lemma chain_outside:
  assumes "chain (ram s) p ps" "same_outside F s s'" "\<forall>x \<in> set ps. x mod PGSIZE = 0 \<and> x \<notin> F"
  shows "chain (ram s') p ps"
  using assms(1)
proof (rule free_chain_cong)
  fix x assume "x \<in> set ps"
  with assms(3) have x: "x mod PGSIZE = 0" "x \<notin> F" by auto
  then have "x mod 8 = 0" by (auto simp: PGSIZE_def)
  with x show "read64 x (ram s') = read64 x (ram s)" by (intro read64_outside [OF assms(2)]) (auto simp: page_self)
qed

lemma kfree_list:
  assumes "free_list s ps" "0 < kend s" "managed s p" "p \<notin> set ps" "kfree p s = Inr s'"
  shows "free_list s' (p # ps)" "kend s' = kend s"
proof -
  note pg = managed_page [OF assms(3,2)]
  have s': "freelist s' = p" "ram s' = write64 p (of_nat (freelist s)) (memset p 1 PGSIZE (ram s))" "kend s' = kend s"
    using assms(5) by (auto simp: kfree_def store_page_def Let_def split: if_splits)
  have m: "managed s' q = managed s q" for q by (simp add: managed_def s')
  have ps: "\<forall>q \<in> set ps. managed s q" "chain (ram s) (freelist s) ps" "distinct ps"
    using assms(1) by (auto simp: free_list_def)
  have "freelist s < 2 ^ 64"
  proof (cases ps)
    case Nil
    with ps(2) show ?thesis by simp
  next
    case (Cons q qs)
    with ps(1,2) show ?thesis by (auto simp: managed_def PHYSTOP_def KERNBASE_def)
  qed
  then have h: "unat (read64 p (ram s')) = freelist s" by (simp add: s' unat_of_nat take_bit_nat_eq_self)
  have "chain (ram s') (freelist s) ps"
    using ps assms(4) by (intro chain_outside [OF ps(2) kfree_outside [OF assms(5)]]) (auto simp: managed_def)
  with h ps pg assms(3,4) m show "free_list s' (p # ps)" by (simp add: free_list_def s'(1))
  show "kend s' = kend s" by (rule s')
qed

lemma kalloc_list:
  assumes "free_list s ps" "0 < kend s" "kalloc s = (r, s')"
  shows "if r = 0 then ps = [] \<and> s' = s
    else \<exists>qs. ps = r # qs \<and> free_list s' qs \<and> kend s' = kend s \<and> same_outside {r} s s'
      \<and> (\<forall>x. r \<le> x \<and> x < r + PGSIZE \<longrightarrow> ram s' x = 5)"
proof (cases "freelist s = 0")
  case True
  then have "ps = []" using assms(1) by (cases ps) (auto simp: free_list_def)
  then show ?thesis using True assms(3) by (simp add: kalloc_def)
next
  case False
  then have r: "r = freelist s" "r \<noteq> 0" and s': "s' = store_page r 5 (s\<lparr>freelist := unat (read64 r (ram s))\<rparr>)"
    using assms(3) by (auto simp: kalloc_def Let_def)
  obtain qs where ps: "ps = r # qs" using assms(1) r by (cases ps) (auto simp: free_list_def)
  with assms(1) have f: "chain (ram s) (unat (read64 r (ram s))) qs" "managed s r" "r \<notin> set qs" "distinct qs"
    "\<forall>q \<in> set qs. managed s q" by (auto simp: free_list_def)
  let ?t = "s\<lparr>freelist := unat (read64 r (ram s))\<rparr>"
  have o: "same_outside {r} s s'"
    using store_page_outside [of r ?t 5] f(2) by (simp add: s' same_outside_def managed_def)
  have "chain (ram s') (unat (read64 r (ram s))) qs"
    using f by (intro chain_outside [OF f(1) o]) (auto simp: managed_def)
  then have "free_list s' qs" using f by (simp add: free_list_def s' store_page_def managed_def)
  moreover have "kend s' = kend s" "\<forall>x. r \<le> x \<and> x < r + PGSIZE \<longrightarrow> ram s' x = 5"
    by (simp_all add: s' store_page_def memset_eq)
  ultimately show ?thesis using r ps o by auto
qed

lemma managed_kend: "kend s' = kend s \<Longrightarrow> managed s' p = managed s p"
  by (simp add: managed_def)


section \<open>The pages in use\<close>

definition taken_pages :: "phys \<Rightarrow> nat set" where
  "taken_pages s = {p. managed s p} - free_pages s"

definition kalloc_page :: "phys \<Rightarrow> (nat \<times> phys) option" where
  "kalloc_page s = (let (r, s') = kalloc s in if r = 0 then None else Some (r, s'))"

lemma kalloc_spec:
  assumes "kmem_ok s" "kalloc s = (r, s')" "r \<noteq> 0"
  shows "kmem_ok s'" "r \<in> free_pages s" "free_pages s' = free_pages s - {r}" "managed s r" "kend s' = kend s"
    "same_outside {r} s s'" "r mod PGSIZE = 0"
proof -
  obtain ps where ps: "free_list s ps" "0 < kend s" using assms(1) by (auto simp: kmem_ok_def)
  from kalloc_list [OF ps assms(2)] assms(3) obtain qs where q: "ps = r # qs" "free_list s' qs" "kend s' = kend s" "same_outside {r} s s'"
    by auto
  have m: "managed s r" "r \<notin> set qs" using ps(1) q(1) by (auto simp: free_list_def)
  show "kmem_ok s'" using q ps(2) by (auto simp: kmem_ok_def)
  show "r \<in> free_pages s" "free_pages s' = free_pages s - {r}"
    using free_list_pages [OF ps(1)] free_list_pages [OF q(2)] q(1) m(2) by auto
  show "managed s r" by (rule m)
  then show "r mod PGSIZE = 0" by (simp add: managed_def)
  show "kend s' = kend s" "same_outside {r} s s'" by (rule q)+
qed

lemma kalloc_none:
  assumes "kmem_ok s" "kalloc s = (0, s')"
  shows "s' = s" "free_pages s = {}"
proof -
  obtain ps where ps: "free_list s ps" "0 < kend s" using assms(1) by (auto simp: kmem_ok_def)
  from kalloc_list [OF ps assms(2)] show "s' = s" "free_pages s = {}" using free_list_pages [OF ps(1)] by auto
qed

lemma kfree_spec:
  assumes "kmem_ok s" "managed s p" "p \<notin> free_pages s"
  shows "\<exists>s'. kfree p s = Inr s' \<and> kmem_ok s' \<and> free_pages s' = insert p (free_pages s) \<and> kend s' = kend s
    \<and> same_outside {p} s s'"
proof -
  obtain ps where ps: "free_list s ps" "0 < kend s" using assms(1) by (auto simp: kmem_ok_def)
  obtain s' where k: "kfree p s = Inr s'" using kfree_ok [OF assms(2)] by blast
  have "p \<notin> set ps" using assms(3) free_list_pages [OF ps(1)] by simp
  from kfree_list [OF ps assms(2) this k] have f: "free_list s' (p # ps)" "kend s' = kend s" by auto
  from f ps(2) k kfree_outside [OF k] show ?thesis
    using free_list_pages [OF ps(1)] free_list_pages [OF f(1)] by (auto simp: kmem_ok_def)
qed

interpretation pages: allocator kmem_ok taken_pages kalloc_page kfree
proof
  fix s x s'
  assume ok: "kmem_ok s" and "kalloc_page s = Some (x, s')"
  then have k: "kalloc s = (x, s')" "x \<noteq> 0" by (auto simp: kalloc_page_def split: prod.splits if_splits)
  note K = kalloc_spec [OF ok k]
  show "kmem_ok s' \<and> x \<notin> taken_pages s \<and> taken_pages s' = insert x (taken_pages s)"
    using K managed_kend [OF K(5)] by (auto simp: taken_pages_def)
next
  fix s x
  assume ok: "kmem_ok s" and x: "x \<in> taken_pages s"
  then obtain s' where k: "kfree x s = Inr s'" "kmem_ok s'" "free_pages s' = insert x (free_pages s)" "kend s' = kend s"
    using kfree_spec [OF ok] by (auto simp: taken_pages_def)
  then show "\<exists>s'. kfree x s = Inr s' \<and> kmem_ok s' \<and> taken_pages s' = taken_pages s - {x}"
    using managed_kend [OF k(4)] by (auto simp: taken_pages_def)
qed

section \<open>Boot\<close>

lemma kend_freelist_ok: "0 < kend s \<Longrightarrow> freelist s = 0 \<Longrightarrow> kmem_ok s \<and> free_pages s = {}"
proof -
  assume "0 < kend s" "freelist s = 0"
  then have "free_list s []" "0 < kend s" by (simp_all add: free_list_def)
  then show ?thesis using free_list_pages by (fastforce simp: kmem_ok_def)
qed

lemma freerange_from_frees:
  assumes "kmem_ok s" "p mod PGSIZE = 0" "kend s \<le> p" "\<forall>q \<in> free_pages s. q < p"
  shows "\<exists>s'. freerange_from p PHYSTOP s = Inr s' \<and> kmem_ok s' \<and> kend s' = kend s
    \<and> free_pages s' = free_pages s \<union> {q. q mod PGSIZE = 0 \<and> p \<le> q \<and> q < PHYSTOP}"
  using assms
proof (induction "PHYSTOP - p" arbitrary: p s rule: less_induct)
  case less
  have al: "p + PGSIZE \<le> PHYSTOP \<longleftrightarrow> p < PHYSTOP"
    using less.prems(2) by (auto simp: PGSIZE_def PHYSTOP_def KERNBASE_def)
  show ?case
  proof (cases "p < PHYSTOP")
    case False
    then show ?thesis using less.prems al by (subst freerange_from.simps) auto
  next
    case True
    then have m: "managed s p" "p \<notin> free_pages s" using less.prems by (auto simp: managed_def)
    from kfree_spec [OF less.prems(1) m] obtain s1 where
      s1: "kfree p s = Inr s1" "kmem_ok s1" "free_pages s1 = insert p (free_pages s)" "kend s1 = kend s" by blast
    have rest: "\<exists>s'. freerange_from (p + PGSIZE) PHYSTOP s1 = Inr s' \<and> kmem_ok s' \<and> kend s' = kend s1
      \<and> free_pages s' = free_pages s1 \<union> {q. q mod PGSIZE = 0 \<and> p + PGSIZE \<le> q \<and> q < PHYSTOP}"
      using less.prems s1 True by (intro less.hyps) (auto simp: PGSIZE_def)
    have ins: "insert p {q. q mod PGSIZE = 0 \<and> p + PGSIZE \<le> q \<and> q < PHYSTOP} = {q. q mod PGSIZE = 0 \<and> p \<le> q \<and> q < PHYSTOP}"
      (is "?A = ?B")
    proof (rule set_eqI)
      fix q
      show "q \<in> ?A \<longleftrightarrow> q \<in> ?B"
      proof (cases "q \<noteq> p \<and> q mod PGSIZE = 0")
        case q: True
        then have "p + PGSIZE \<le> q \<or> q + PGSIZE \<le> p" using page_disjoint [OF less.prems(2), of q] by auto
        then have "p + PGSIZE \<le> q \<longleftrightarrow> p \<le> q" by (auto simp: PGSIZE_def)
        then show ?thesis using q by simp
      next
        case False
        then show ?thesis using True less.prems(2) by auto
      qed
    qed
    have step: "freerange_from p PHYSTOP s = freerange_from (p + PGSIZE) PHYSTOP s1"
      using True al s1(1) by (subst freerange_from.simps) simp
    from rest obtain s' where s': "freerange_from (p + PGSIZE) PHYSTOP s1 = Inr s'" "kmem_ok s'" "kend s' = kend s1"
      "free_pages s' = free_pages s1 \<union> {q. q mod PGSIZE = 0 \<and> p + PGSIZE \<le> q \<and> q < PHYSTOP}" by blast
    have "free_pages s' = free_pages s \<union> insert p {q. q mod PGSIZE = 0 \<and> p + PGSIZE \<le> q \<and> q < PHYSTOP}"
      unfolding s'(4) s1(3) by simp
    then show ?thesis unfolding ins step using s'(1-3) s1(4) by simp
  qed
qed

text \<open>
  after \<open>kinit\<close> the free list is well formed and holds exactly the pages between
  the end of the kernel and \<open>PHYSTOP\<close>.
\<close>

theorem kinit_frees_all_pages:
  assumes "0 < kend s" "kend s < PHYSTOP" "freelist s = 0"
  shows "\<exists>s'. kinit s = Inr s' \<and> kmem_ok s' \<and> free_pages s' = {p. managed s p}"
proof -
  note k = kend_freelist_ok [OF assms(1,3)]
  let ?p = "PGROUNDUP (kend s)"
  have c: "kend s + 4095 < 2 ^ 64" using assms(2) by (simp add: PHYSTOP_def KERNBASE_def)
  have p: "?p mod PGSIZE = 0" "kend s \<le> ?p" "?p < kend s + PGSIZE"
    using c by (auto simp: PGROUNDUP_def PGSIZE_def)
  have "q mod PGSIZE = 0 \<Longrightarrow> ?p \<le> q \<longleftrightarrow> kend s \<le> q" for q
    using page_disjoint [OF p(1), of q] p(2,3) by (cases "?p = q") (auto simp: PGSIZE_def)
  then have "{q. q mod PGSIZE = 0 \<and> ?p \<le> q \<and> q < PHYSTOP} = {q. managed s q}" by (auto simp: managed_def)
  with freerange_from_frees [of s ?p] k p show ?thesis by (auto simp: kinit_def freerange_def)
qed

theorem kinit_frees_all_pages_witness:
  "\<exists>s'. kinit \<lparr>ram = (\<lambda>x. 0), freelist = 0, kend = 0x87FFE001\<rparr> = Inr s' \<and> kmem_ok s' \<and> free_pages s' = {0x87FFF000}"
proof -
  let ?s = "\<lparr>ram = (\<lambda>x. 0), freelist = 0, kend = 0x87FFE001\<rparr>"
  have "{p. managed ?s p} = {0x87FFF000}" by (auto simp: managed_def PGSIZE_def PHYSTOP_def KERNBASE_def)
  then show ?thesis using kinit_frees_all_pages [of ?s] by (simp add: PHYSTOP_def KERNBASE_def)
qed

text \<open>
  C14: a page is never handed out twice: whatever sequence of requests clients make, as
  long as they give back only pages they hold, \<open>kfree\<close> never panics and the pages
  they hold are distinct and not on the free list.
\<close>

theorem pages_never_shared:
  assumes "kmem_ok s"
  shows "\<exists>own s'. pages.serve rs [] s = Inr (own, s') \<and> kmem_ok s' \<and> distinct own \<and> set own \<inter> free_pages s' = {}"
  using pages.serve_safe [of s "[]" rs] assms by (auto simp: taken_pages_def)

theorem pages_never_shared_witness:
  "\<exists>s own s'. kinit \<lparr>ram = (\<lambda>x. 0), freelist = 0, kend = 0x87FFE001\<rparr> = Inr s \<and> free_pages s = {0x87FFF000}
     \<and> pages.serve [Get, Get] [] s = Inr (own, s') \<and> distinct own \<and> set own \<inter> free_pages s' = {}"
proof -
  obtain s where s: "kinit \<lparr>ram = (\<lambda>x. 0), freelist = 0, kend = 0x87FFE001\<rparr> = Inr s" "kmem_ok s" "free_pages s = {0x87FFF000}"
    using kinit_frees_all_pages_witness by blast
  from pages_never_shared [OF s(2), of "[Get, Get]"] s show ?thesis by blast
qed

end
