(* ===== verification/Vm.thy ===== *)
theory Vm
  imports Kalloc
begin

text \<open>
  Page tables and user memory (\<open>xv6-riscv/kernel/vm.c\<close>, the page table macros of
  \<open>riscv.h\<close>, and the functions of \<open>proc.c\<close> that build and free address spaces).  A page
  table is the address of its top page; entries are 64 bit words in memory, virtual
  addresses are natural numbers below \<open>2 ^ 64\<close>.  Buffers of the kernel that a user copy
  reads or fills are lists of bytes.  A panic is a result, and so is the use of the
  null pointer that \<open>walk\<close> may return.
\<close>

declare bindR_cong [fundef_cong]

section \<open>Page table entries\<close>

definition MAXVA :: nat where "MAXVA = 2 ^ (9 + 9 + 9 + 12 - 1)"
definition TRAMPOLINE :: nat where "TRAMPOLINE = MAXVA - PGSIZE"
definition TRAPFRAME :: nat where "TRAPFRAME = TRAMPOLINE - PGSIZE"
definition KSTACK :: "nat \<Rightarrow> nat" where "KSTACK p = TRAMPOLINE - (p + 1) * 2 * PGSIZE"

definition PTE_V :: uint64 where "PTE_V = 1"
definition PTE_R :: uint64 where "PTE_R = 2"
definition PTE_W :: uint64 where "PTE_W = 4"
definition PTE_X :: uint64 where "PTE_X = 8"
definition PTE_U :: uint64 where "PTE_U = 16"

definition PA2PTE :: "nat \<Rightarrow> uint64" where
  "PA2PTE pa = push_bit 10 (drop_bit 12 (of_nat pa))"

definition PTE2PA :: "uint64 \<Rightarrow> nat" where
  "PTE2PA pte = unat (push_bit 12 (drop_bit 10 pte))"

definition PTE_FLAGS :: "uint64 \<Rightarrow> uint64" where
  "PTE_FLAGS pte = pte AND 0x3FF"

definition PX :: "nat \<Rightarrow> nat \<Rightarrow> nat" where
  "PX level va = va div 2 ^ (12 + 9 * level) mod 512"

definition has :: "uint64 \<Rightarrow> uint64 \<Rightarrow> bool" where
  "has pte flag \<longleftrightarrow> pte AND flag \<noteq> 0"

definition get_pte :: "nat \<Rightarrow> phys \<Rightarrow> uint64" where
  "get_pte a s = read64 a (ram s)"

definition set_pte :: "nat \<Rightarrow> uint64 \<Rightarrow> phys \<Rightarrow> phys" where
  "set_pte a v s = s\<lparr>ram := write64 a v (ram s)\<rparr>"

section \<open>Walking and mapping\<close>

fun walk_from :: "nat \<Rightarrow> nat \<Rightarrow> nat \<Rightarrow> bool \<Rightarrow> phys \<Rightarrow> nat option \<times> phys" where
  "walk_from 0 pagetable va alloc s = (Some (pagetable + 8 * PX 0 va), s)"
| "walk_from (Suc l) pagetable va alloc s =
     (let pte = pagetable + 8 * PX (Suc l) va in
      if has (get_pte pte s) PTE_V then walk_from l (PTE2PA (get_pte pte s)) va alloc s
      else if \<not> alloc then (None, s)
      else
        let (page, s1) = kalloc s in
        if page = 0 then (None, s1)
        else walk_from l page va alloc (set_pte pte (PA2PTE page OR PTE_V) (store_page page 0 s1)))"

definition walk :: "nat \<Rightarrow> nat \<Rightarrow> bool \<Rightarrow> phys \<Rightarrow> vm_error + nat option \<times> phys" where
  "walk pagetable va alloc s =
     (if va \<ge> MAXVA then Inl (VmPanic ''walk'') else Inr (walk_from 2 pagetable va alloc s))"

text \<open>Without allocation \<open>walk\<close> changes nothing; this is the entry it finds.\<close>

definition walkaddr :: "nat \<Rightarrow> nat \<Rightarrow> phys \<Rightarrow> nat" where
  "walkaddr pagetable va s =
     (if va \<ge> MAXVA then 0
      else case fst (walk_from 2 pagetable va False s) of
        None \<Rightarrow> 0
      | Some pte \<Rightarrow>
          if \<not> has (get_pte pte s) PTE_V then 0
          else if \<not> has (get_pte pte s) PTE_U then 0
          else PTE2PA (get_pte pte s))"

lemma walk_below: "walk pagetable va alloc s = Inr r \<Longrightarrow> va < MAXVA"
  by (auto simp: walk_def split: if_splits)

function mappages_from :: "nat \<Rightarrow> nat \<Rightarrow> nat \<Rightarrow> nat \<Rightarrow> uint64 \<Rightarrow> phys \<Rightarrow> vm_error + int \<times> phys" where
  "mappages_from pagetable a final pa perm s =
     bindR (walk pagetable a True s) (\<lambda>(r, s1).
       case r of
         None \<Rightarrow> Inr (-1, s1)
       | Some pte \<Rightarrow>
           if has (get_pte pte s1) PTE_V then Inl (VmPanic ''mappages: remap'')
           else
             let s2 = set_pte pte (PA2PTE pa OR perm OR PTE_V) s1 in
             if a = final then Inr (0, s2)
             else mappages_from pagetable (a + PGSIZE) final (pa + PGSIZE) perm s2)"
  by pat_completeness auto
termination
  by (relation "measure (\<lambda>(pt, a, final, pa, perm, s). MAXVA - a)")
    (auto dest!: walk_below simp: PGSIZE_def)

declare mappages_from.simps [simp del]

definition mappages :: "nat \<Rightarrow> nat \<Rightarrow> nat \<Rightarrow> nat \<Rightarrow> uint64 \<Rightarrow> phys \<Rightarrow> vm_error + int \<times> phys" where
  "mappages pagetable va sz pa perm s =
     (if va mod PGSIZE \<noteq> 0 then Inl (VmPanic ''mappages: va not aligned'')
      else if sz mod PGSIZE \<noteq> 0 then Inl (VmPanic ''mappages: size not aligned'')
      else if sz = 0 then Inl (VmPanic ''mappages: size'')
      else mappages_from pagetable va ((va + sz - PGSIZE) mod 2 ^ 64) pa perm s)"

definition kvmmap :: "nat \<Rightarrow> nat \<Rightarrow> nat \<Rightarrow> nat \<Rightarrow> uint64 \<Rightarrow> phys \<Rightarrow> vm_error + phys" where
  "kvmmap kpgtbl va pa sz perm s =
     bindR (mappages kpgtbl va sz pa perm s) (\<lambda>(r, s1).
       if r \<noteq> 0 then Inl (VmPanic ''kvmmap'') else Inr s1)"

definition uvmcreate :: "phys \<Rightarrow> nat \<times> phys" where
  "uvmcreate s = (let (pagetable, s1) = kalloc s in if pagetable = 0 then (0, s1) else (pagetable, store_page pagetable 0 s1))"

section \<open>Unmapping and freeing\<close>

definition uvmunmap_page :: "nat \<Rightarrow> nat \<Rightarrow> bool \<Rightarrow> phys \<Rightarrow> vm_error + phys" where
  "uvmunmap_page pagetable a do_free s =
     bindR (walk pagetable a False s) (\<lambda>(r, s1).
       case r of
         None \<Rightarrow> Inr s1
       | Some pte \<Rightarrow>
           if \<not> has (get_pte pte s1) PTE_V then Inr s1
           else bindR (if do_free then kfree (PTE2PA (get_pte pte s1)) s1 else Inr s1) (\<lambda>s2. Inr (set_pte pte 0 s2)))"

function uvmunmap_from :: "nat \<Rightarrow> nat \<Rightarrow> nat \<Rightarrow> bool \<Rightarrow> phys \<Rightarrow> vm_error + phys" where
  "uvmunmap_from pagetable a stop do_free s =
     (if a < stop then bindR (uvmunmap_page pagetable a do_free s) (uvmunmap_from pagetable (a + PGSIZE) stop do_free)
      else Inr s)"
  by pat_completeness auto
termination
  by (relation "measure (\<lambda>(pt, a, stop, f, s). stop - a)") (auto simp: PGSIZE_def)

declare uvmunmap_from.simps [simp del]

definition uvmunmap :: "nat \<Rightarrow> nat \<Rightarrow> nat \<Rightarrow> bool \<Rightarrow> phys \<Rightarrow> vm_error + phys" where
  "uvmunmap pagetable va npages do_free s =
     (if va mod PGSIZE \<noteq> 0 then Inl (VmPanic ''uvmunmap: not aligned'')
      else uvmunmap_from pagetable va ((va + npages * PGSIZE) mod 2 ^ 64) do_free s)"

text \<open>The page count goes through an \<open>int\<close>.\<close>

definition uvmdealloc :: "nat \<Rightarrow> nat \<Rightarrow> nat \<Rightarrow> phys \<Rightarrow> vm_error + nat \<times> phys" where
  "uvmdealloc pagetable oldsz newsz s =
     (if newsz \<ge> oldsz then Inr (oldsz, s)
      else if PGROUNDUP newsz < PGROUNDUP oldsz then
        let npages = unat (signed_take_bit 31 (of_nat ((PGROUNDUP oldsz - PGROUNDUP newsz) div PGSIZE) :: uint64))
        in bindR (uvmunmap pagetable (PGROUNDUP newsz) npages True s) (\<lambda>s1. Inr (newsz, s1))
      else Inr (newsz, s))"

function uvmalloc_from :: "nat \<Rightarrow> nat \<Rightarrow> nat \<Rightarrow> nat \<Rightarrow> uint64 \<Rightarrow> phys \<Rightarrow> vm_error + nat \<times> phys" where
  "uvmalloc_from pagetable oldsz a newsz xperm s =
     (if a < newsz then
        let (page, s1) = kalloc s in
        if page = 0 then bindR (uvmdealloc pagetable a oldsz s1) (\<lambda>(_, s2). Inr (0, s2))
        else
          bindR (mappages pagetable a PGSIZE page (PTE_R OR PTE_U OR xperm) (store_page page 0 s1)) (\<lambda>(r, s2).
            if r \<noteq> 0 then
              bindR (kfree page s2) (\<lambda>s3. bindR (uvmdealloc pagetable a oldsz s3) (\<lambda>(_, s4). Inr (0, s4)))
            else uvmalloc_from pagetable oldsz (a + PGSIZE) newsz xperm s2)
      else Inr (newsz, s))"
  by pat_completeness auto
termination
  by (relation "measure (\<lambda>(pt, oldsz, a, newsz, x, s). newsz - a)") (auto simp: PGSIZE_def)

declare uvmalloc_from.simps [simp del]

definition uvmalloc :: "nat \<Rightarrow> nat \<Rightarrow> nat \<Rightarrow> uint64 \<Rightarrow> phys \<Rightarrow> vm_error + nat \<times> phys" where
  "uvmalloc pagetable oldsz newsz xperm s =
     (if newsz < oldsz then Inr (oldsz, s)
      else uvmalloc_from pagetable (PGROUNDUP oldsz) (PGROUNDUP oldsz) newsz xperm s)"

text \<open>
  \<open>freewalk\<close> calls itself for each lower table; the first argument bounds the depth.
  The entries are taken from the first to the last, \<open>n\<close> of them to go.
\<close>

primrec freewalk_entries :: "(nat \<Rightarrow> phys \<Rightarrow> vm_error + phys) \<Rightarrow> nat \<Rightarrow> nat \<Rightarrow> phys \<Rightarrow> vm_error + phys" where
  "freewalk_entries rec pagetable 0 s = Inr s"
| "freewalk_entries rec pagetable (Suc n) s =
     (let a = pagetable + 8 * (511 - n); pte = get_pte a s in
      if has pte PTE_V \<and> \<not> has pte (PTE_R OR PTE_W OR PTE_X) then
        bindR (rec (PTE2PA pte) s) (\<lambda>s1. freewalk_entries rec pagetable n (set_pte a 0 s1))
      else if has pte PTE_V then Inl (VmPanic ''freewalk: leaf'')
      else freewalk_entries rec pagetable n s)"

primrec freewalk :: "nat \<Rightarrow> nat \<Rightarrow> phys \<Rightarrow> vm_error + phys" where
  "freewalk 0 pagetable s = Inl VmTooDeep"
| "freewalk (Suc d) pagetable s =
     bindR (freewalk_entries (freewalk d) pagetable 512 s) (kfree pagetable)"

definition uvmfree :: "nat \<Rightarrow> nat \<Rightarrow> nat \<Rightarrow> phys \<Rightarrow> vm_error + phys" where
  "uvmfree d pagetable sz s =
     bindR (if sz > 0 then uvmunmap pagetable 0 (PGROUNDUP sz div PGSIZE) True s else Inr s) (freewalk d pagetable)"

section \<open>Copying an address space\<close>

function uvmcopy_from :: "nat \<Rightarrow> nat \<Rightarrow> nat \<Rightarrow> nat \<Rightarrow> phys \<Rightarrow> vm_error + int \<times> phys" where
  "uvmcopy_from old new i sz s =
     (if i < sz then
        bindR (walk old i False s) (\<lambda>(r, s1).
          case r of
            None \<Rightarrow> uvmcopy_from old new (i + PGSIZE) sz s1
          | Some pte \<Rightarrow>
              if \<not> has (get_pte pte s1) PTE_V then uvmcopy_from old new (i + PGSIZE) sz s1
              else
                let pa = PTE2PA (get_pte pte s1); flags = PTE_FLAGS (get_pte pte s1); (page, s2) = kalloc s1 in
                if page = 0 then bindR (uvmunmap new 0 (i div PGSIZE) True s2) (\<lambda>s3. Inr (-1, s3))
                else
                  bindR (mappages new i PGSIZE page flags (s2\<lparr>ram := memmove page pa PGSIZE (ram s2)\<rparr>)) (\<lambda>(r, s3).
                    if r \<noteq> 0 then
                      bindR (kfree page s3) (\<lambda>s4. bindR (uvmunmap new 0 (i div PGSIZE) True s4) (\<lambda>s5. Inr (-1, s5)))
                    else uvmcopy_from old new (i + PGSIZE) sz s3))
      else Inr (0, s))"
  by pat_completeness auto
termination
  by (relation "measure (\<lambda>(old, new, i, sz, s). sz - i)") (auto simp: PGSIZE_def)

declare uvmcopy_from.simps [simp del]

definition uvmcopy :: "nat \<Rightarrow> nat \<Rightarrow> nat \<Rightarrow> phys \<Rightarrow> vm_error + int \<times> phys" where
  "uvmcopy old new sz s = uvmcopy_from old new 0 sz s"

definition uvmclear :: "nat \<Rightarrow> nat \<Rightarrow> phys \<Rightarrow> vm_error + phys" where
  "uvmclear pagetable va s =
     bindR (walk pagetable va False s) (\<lambda>(r, s1).
       case r of
         None \<Rightarrow> Inl (VmPanic ''uvmclear'')
       | Some pte \<Rightarrow> Inr (set_pte pte (get_pte pte s1 AND NOT PTE_U) s1))"

section \<open>User memory\<close>

definition ismapped :: "nat \<Rightarrow> nat \<Rightarrow> phys \<Rightarrow> vm_error + bool" where
  "ismapped pagetable va s =
     bindR (walk pagetable va False s) (\<lambda>(r, s1).
       Inr (case r of None \<Rightarrow> False | Some pte \<Rightarrow> has (get_pte pte s1) PTE_V))"

text \<open>\<open>psz\<close> and \<open>ppt\<close> are the size and the page table of the running process.\<close>

definition vmfault :: "nat \<Rightarrow> nat \<Rightarrow> nat \<Rightarrow> nat \<Rightarrow> phys \<Rightarrow> vm_error + nat \<times> phys" where
  "vmfault psz ppt pagetable va s =
     (if va \<ge> psz then Inr (0, s)
      else
        let va1 = PGROUNDDOWN va in
        bindR (ismapped pagetable va1 s) (\<lambda>m.
          if m then Inr (0, s)
          else
            let (page, s1) = kalloc s in
            if page = 0 then Inr (0, s1)
            else
              bindR (mappages ppt va1 PGSIZE page (PTE_W OR PTE_U OR PTE_R) (store_page page 0 s1)) (\<lambda>(r, s2).
                if r \<noteq> 0 then bindR (kfree page s2) (\<lambda>s3. Inr (0, s3)) else Inr (page, s2))))"

text \<open>The physical page for a user address, faulted in if it is not mapped; 0 if there is none.\<close>

definition user_page :: "nat \<Rightarrow> nat \<Rightarrow> nat \<Rightarrow> nat \<Rightarrow> phys \<Rightarrow> vm_error + nat \<times> phys" where
  "user_page psz ppt pagetable va0 s =
     (let pa0 = walkaddr pagetable va0 s in
      if pa0 = 0 then vmfault psz ppt pagetable va0 s else Inr (pa0, s))"

definition store_bytes :: "nat \<Rightarrow> uint8 list \<Rightarrow> phys \<Rightarrow> phys" where
  "store_bytes a bs s = s\<lparr>ram := (\<lambda>x. if a \<le> x \<and> x < a + length bs then bs ! (x - a) else ram s x)\<rparr>"

definition load_bytes :: "nat \<Rightarrow> nat \<Rightarrow> phys \<Rightarrow> uint8 list" where
  "load_bytes a n s = map (ram s) [a..<a + n]"

function copyout :: "nat \<Rightarrow> nat \<Rightarrow> nat \<Rightarrow> nat \<Rightarrow> uint8 list \<Rightarrow> phys \<Rightarrow> vm_error + int \<times> phys" where
  "copyout psz ppt pagetable dstva src s =
     (if src \<noteq> [] then
        let va0 = PGROUNDDOWN dstva in
        if va0 \<ge> MAXVA then Inr (-1, s)
        else
          bindR (user_page psz ppt pagetable va0 s) (\<lambda>(pa0, s1).
            if pa0 = 0 then Inr (-1, s1)
            else
              bindR (walk pagetable va0 False s1) (\<lambda>(r, s2).
                case r of
                  None \<Rightarrow> Inl VmNullPte
                | Some pte \<Rightarrow>
                    if \<not> has (get_pte pte s2) PTE_W then Inr (-1, s2)
                    else
                      let n = min (PGSIZE - (dstva - va0)) (length src)
                      in copyout psz ppt pagetable (va0 + PGSIZE) (drop n src)
                           (store_bytes (pa0 + (dstva - va0)) (take n src) s2)))
      else Inr (0, s))"
  by pat_completeness auto
termination
  by (relation "measure (\<lambda>(psz, ppt, pt, dstva, src, s). length src)")
    (auto simp: PGSIZE_def PGROUNDDOWN_def min_def)

declare copyout.simps [simp del]

text \<open>The second component is what has been written to \<open>dst\<close>.\<close>

function copyin :: "nat \<Rightarrow> nat \<Rightarrow> nat \<Rightarrow> uint8 list \<Rightarrow> nat \<Rightarrow> nat \<Rightarrow> phys \<Rightarrow> vm_error + int \<times> uint8 list \<times> phys" where
  "copyin psz ppt pagetable dst srcva len s =
     (if len > 0 then
        let va0 = PGROUNDDOWN srcva in
        bindR (user_page psz ppt pagetable va0 s) (\<lambda>(pa0, s1).
          if pa0 = 0 then Inr (-1, dst, s1)
          else
            let n = min (PGSIZE - (srcva - va0)) len
            in copyin psz ppt pagetable (dst @ load_bytes (pa0 + (srcva - va0)) n s1) (va0 + PGSIZE) (len - n) s1)
      else Inr (0, dst, s))"
  by pat_completeness auto
termination
  by (relation "measure (\<lambda>(psz, ppt, pt, dst, srcva, len, s). len)")
    (auto simp: PGSIZE_def PGROUNDDOWN_def min_def)

declare copyin.simps [simp del]

text \<open>
  The inner loop of \<open>copyinstr\<close>: it stores bytes up to the terminating zero, which the flag
  reports, or \<open>n\<close> bytes.
\<close>

primrec copyinstr_page :: "nat \<Rightarrow> nat \<Rightarrow> phys \<Rightarrow> bool \<times> uint8 list" where
  "copyinstr_page p 0 s = (False, [])"
| "copyinstr_page p (Suc n) s =
     (if ram s p = 0 then (True, [0])
      else let (got, bs) = copyinstr_page (Suc p) n s in (got, ram s p # bs))"

function copyinstr :: "nat \<Rightarrow> uint8 list \<Rightarrow> nat \<Rightarrow> nat \<Rightarrow> phys \<Rightarrow> int \<times> uint8 list" where
  "copyinstr pagetable dst srcva mx s =
     (if mx > 0 then
        let va0 = PGROUNDDOWN srcva; pa0 = walkaddr pagetable va0 s in
        if pa0 = 0 then (-1, dst)
        else
          let n = min (PGSIZE - (srcva - va0)) mx;
              (got, bs) = copyinstr_page (pa0 + (srcva - va0)) n s
          in if got then (0, dst @ bs) else copyinstr pagetable (dst @ bs) (va0 + PGSIZE) (mx - n) s
      else (-1, dst))"
  by pat_completeness auto
termination
  by (relation "measure (\<lambda>(pt, dst, srcva, mx, s). mx)")
    (auto simp: PGSIZE_def PGROUNDDOWN_def min_def)

declare copyinstr.simps [simp del]

section \<open>Address spaces\<close>

text \<open>\<open>trampoline\<close> and \<open>etext\<close> are symbols of the linker.\<close>

definition proc_pagetable :: "nat \<Rightarrow> nat \<Rightarrow> nat \<Rightarrow> phys \<Rightarrow> vm_error + nat \<times> phys" where
  "proc_pagetable d trampoline trapframe s =
     (let (pagetable, s1) = uvmcreate s in
      if pagetable = 0 then Inr (0, s1)
      else
        bindR (mappages pagetable TRAMPOLINE PGSIZE trampoline (PTE_R OR PTE_X) s1) (\<lambda>(r, s2).
          if r < 0 then bindR (uvmfree d pagetable 0 s2) (\<lambda>s3. Inr (0, s3))
          else
            bindR (mappages pagetable TRAPFRAME PGSIZE trapframe (PTE_R OR PTE_W) s2) (\<lambda>(r, s3).
              if r < 0 then
                bindR (uvmunmap pagetable TRAMPOLINE 1 False s3) (\<lambda>s4.
                bindR (uvmfree d pagetable 0 s4) (\<lambda>s5. Inr (0, s5)))
              else Inr (pagetable, s3))))"

definition proc_freepagetable :: "nat \<Rightarrow> nat \<Rightarrow> nat \<Rightarrow> phys \<Rightarrow> vm_error + phys" where
  "proc_freepagetable d pagetable sz s =
     bindR (uvmunmap pagetable TRAMPOLINE 1 False s) (\<lambda>s1.
     bindR (uvmunmap pagetable TRAPFRAME 1 False s1) (\<lambda>s2.
     uvmfree d pagetable sz s2))"

text \<open>\<open>growproc\<close> answers with the new size of the process.\<close>

definition growproc :: "nat \<Rightarrow> nat \<Rightarrow> int \<Rightarrow> phys \<Rightarrow> vm_error + int \<times> nat \<times> phys" where
  "growproc pagetable sz n s =
     (let sz1 = nat ((int sz + n) mod 2 ^ 64) in
      if n > 0 then
        if sz1 > TRAPFRAME then Inr (-1, sz, s)
        else
          bindR (uvmalloc pagetable sz sz1 PTE_W s) (\<lambda>(r, s1).
            if r = 0 then Inr (-1, sz, s1) else Inr (0, r, s1))
      else if n < 0 then bindR (uvmdealloc pagetable sz sz1 s) (\<lambda>(r, s1). Inr (0, r, s1))
      else Inr (0, sz, s))"

definition sys_sbrk :: "nat \<Rightarrow> nat \<Rightarrow> bool \<Rightarrow> int \<Rightarrow> phys \<Rightarrow> vm_error + int \<times> nat \<times> phys" where
  "sys_sbrk pagetable sz eager n s =
     (if eager \<or> n < 0 then
        bindR (growproc pagetable sz n s) (\<lambda>(r, sz1, s1). Inr (if r < 0 then -1 else int sz, sz1, s1))
      else
        let sz1 = nat ((int sz + n) mod 2 ^ 64) in
        if sz1 < sz then Inr (-1, sz, s)
        else if sz1 > TRAPFRAME then Inr (-1, sz, s)
        else Inr (int sz, sz1, s))"

primrec proc_mapstacks_from :: "nat \<Rightarrow> nat \<Rightarrow> nat \<Rightarrow> phys \<Rightarrow> vm_error + phys" where
  "proc_mapstacks_from kpgtbl p 0 s = Inr s"
| "proc_mapstacks_from kpgtbl p (Suc n) s =
     (let (pa, s1) = kalloc s in
      if pa = 0 then Inl (VmPanic ''kalloc'')
      else bindR (kvmmap kpgtbl (KSTACK p) pa PGSIZE (PTE_R OR PTE_W) s1) (proc_mapstacks_from kpgtbl (Suc p) n))"

definition proc_mapstacks :: "nat \<Rightarrow> phys \<Rightarrow> vm_error + phys" where
  "proc_mapstacks kpgtbl s = proc_mapstacks_from kpgtbl 0 64 s"

definition kvmmake :: "nat \<Rightarrow> nat \<Rightarrow> phys \<Rightarrow> vm_error + nat \<times> phys" where
  "kvmmake etext trampoline s =
     (let (kpgtbl, s0) = kalloc s; s1 = store_page kpgtbl 0 s0 in
      bindR (kvmmap kpgtbl 0x10000000 0x10000000 PGSIZE (PTE_R OR PTE_W) s1) (\<lambda>s2.
      bindR (kvmmap kpgtbl 0x10001000 0x10001000 PGSIZE (PTE_R OR PTE_W) s2) (\<lambda>s3.
      bindR (kvmmap kpgtbl 0x0C000000 0x0C000000 0x4000000 (PTE_R OR PTE_W) s3) (\<lambda>s4.
      bindR (kvmmap kpgtbl KERNBASE KERNBASE (etext - KERNBASE) (PTE_R OR PTE_X) s4) (\<lambda>s5.
      bindR (kvmmap kpgtbl etext etext (PHYSTOP - etext) (PTE_R OR PTE_W) s5) (\<lambda>s6.
      bindR (kvmmap kpgtbl TRAMPOLINE trampoline PGSIZE (PTE_R OR PTE_X) s6) (\<lambda>s7.
      bindR (proc_mapstacks kpgtbl s7) (\<lambda>s8. Inr (kpgtbl, s8)))))))))"

end
