(* ===== verification/Vm_Tree.thy ===== *)
theory Vm_Tree
  imports Vm "HOL-Library.Sublist"
begin

text \<open>
  A page table as a tree.  A path lists the indices from the deepest level up to the
  top, so \<open>vpath va\<close> is the path of a virtual address.  \<open>table s pt p\<close> is the page-table page
  that the path \<open>p\<close> of at most two indices leads to and \<open>leaf s pt q\<close> the valid entry at a path of three.
  The invariant says that the pages of the tree are distinct and in use; under
  it, \<open>walk\<close> extends the tree and keeps every mapping.
\<close>

section \<open>Flags\<close>

lemma flag_bits:
  "has e PTE_V \<longleftrightarrow> bit e 0" "has e PTE_R \<longleftrightarrow> bit e 1" "has e PTE_W \<longleftrightarrow> bit e 2" "has e PTE_X \<longleftrightarrow> bit e 3" "has e PTE_U \<longleftrightarrow> bit e 4"
proof -
  have b: "e AND 2 ^ n \<noteq> 0 \<longleftrightarrow> bit e n" if "n < 64" for n
    using that by (simp add: and_exp_eq_0_iff_not_bit)
  show "has e PTE_V \<longleftrightarrow> bit e 0" "has e PTE_R \<longleftrightarrow> bit e 1" "has e PTE_W \<longleftrightarrow> bit e 2" "has e PTE_X \<longleftrightarrow> bit e 3" "has e PTE_U \<longleftrightarrow> bit e 4"
    using b [of 0] b [of 1] b [of 2] b [of 3] b [of 4]
    by (simp_all add: has_def PTE_V_def PTE_R_def PTE_W_def PTE_X_def PTE_U_def)
qed

lemma has_or: "has e (f OR g) \<longleftrightarrow> has e f \<or> has e g"
  by (auto simp: has_def bit_eq_iff bit_simps)

lemma has_zero [simp]: "\<not> has 0 f"
  by (simp add: has_def)

lemma PTE_consts_bit: "bit PTE_V n \<longleftrightarrow> n = 0" "bit PTE_R n \<longleftrightarrow> n = 1" "bit PTE_W n \<longleftrightarrow> n = 2" "bit PTE_X n \<longleftrightarrow> n = 3" "bit PTE_U n \<longleftrightarrow> n = 4"
proof -
  have b: "bit (2 ^ k :: uint64) n \<longleftrightarrow> n = k" if "k < 64" for k using that by (auto simp: bit_exp_iff possible_bit_def)
  show "bit PTE_V n \<longleftrightarrow> n = 0" "bit PTE_R n \<longleftrightarrow> n = 1" "bit PTE_W n \<longleftrightarrow> n = 2" "bit PTE_X n \<longleftrightarrow> n = 3" "bit PTE_U n \<longleftrightarrow> n = 4"
    using b [of 0] b [of 1] b [of 2] b [of 3] b [of 4]
    by (simp_all add: PTE_V_def PTE_R_def PTE_W_def PTE_X_def PTE_U_def)
qed

lemma bit_PA2PTE: "bit (PA2PTE pa) n \<longleftrightarrow> 10 \<le> n \<and> n < 62 \<and> bit pa (n + 2)"
  by (auto simp: PA2PTE_def bit_simps)

lemma bit_PTE2PA: "bit (PTE2PA e) (m + 12) \<longleftrightarrow> m + 12 < 64 \<and> bit e (m + 10)"
  by (auto simp: PTE2PA_def bit_unsigned_iff bit_push_bit_iff bit_drop_bit_eq add.commute)

text \<open>The address survives in an entry, whatever the low ten bits are.\<close>

lemma PTE2PA_entry:
  assumes "pa mod PGSIZE = 0" "pa < 2 ^ 56" "\<forall>n \<ge> 10. \<not> bit f n"
  shows "PTE2PA (PA2PTE pa OR f) = pa"
proof -
  have low: "\<not> bit pa n" if "n < 12" for n
  proof -
    have "pa = push_bit 12 (pa div 4096)" using assms(1) by (simp add: push_bit_eq_mult PGSIZE_def dvd_mult_div_cancel mod_0_imp_dvd mult.commute)
    then show ?thesis using that by (metis bit_push_bit_iff not_le)
  qed
  have high: "\<not> bit pa n" if "56 \<le> n" for n
    using assms(2) that by (metis bit_take_bit_iff not_le take_bit_nat_eq_self)
  have "bit (PTE2PA (PA2PTE pa OR f)) n \<longleftrightarrow> bit pa n" for n
  proof (cases "n < 12")
    case True
    then show ?thesis using low by (simp add: PTE2PA_def bit_simps)
  next
    case False
    then obtain m where m: "n = m + 12" by (metis le_Suc_ex add.commute not_less)
    have "bit (PA2PTE pa OR f) (m + 10) \<longleftrightarrow> m + 10 < 62 \<and> bit pa (m + 12)"
      using assms(3) by (simp add: bit_or_iff bit_PA2PTE add.commute)
    moreover have "bit (PTE2PA (PA2PTE pa OR f)) n \<longleftrightarrow> n < 64 \<and> bit (PA2PTE pa OR f) (m + 10)"
      by (simp add: m bit_PTE2PA)
    ultimately show ?thesis using high [of n] by (auto simp: m)
  qed
  then show ?thesis by (simp add: bit_eq_iff)
qed

section \<open>Paths\<close>

type_synonym path = "nat list"

definition path :: "nat \<Rightarrow> path \<Rightarrow> bool" where
  "path n p \<longleftrightarrow> length p \<le> n \<and> (\<forall>i \<in> set p. i < 512)"

definition leaf_path :: "path \<Rightarrow> bool" where
  "leaf_path p \<longleftrightarrow> length p = 3 \<and> (\<forall>i \<in> set p. i < 512)"

definition vpath :: "nat \<Rightarrow> path" where
  "vpath va = [PX 0 va, PX 1 va, PX 2 va]"

definition entry :: "phys \<Rightarrow> nat \<Rightarrow> nat \<Rightarrow> uint64" where
  "entry s t i = get_pte (t + 8 * i) s"

fun table :: "phys \<Rightarrow> nat \<Rightarrow> path \<Rightarrow> nat option" where
  "table s pt [] = Some pt"
| "table s pt (i # p) =
     (case table s pt p of None \<Rightarrow> None
      | Some t \<Rightarrow> if has (entry s t i) PTE_V then Some (PTE2PA (entry s t i)) else None)"

definition tables :: "phys \<Rightarrow> nat \<Rightarrow> nat set" where
  "tables s pt = {t. \<exists>p. path 2 p \<and> table s pt p = Some t}"

definition leaf :: "phys \<Rightarrow> nat \<Rightarrow> path \<Rightarrow> uint64 option" where
  "leaf s pt q =
     (case table s pt (tl q) of None \<Rightarrow> None
      | Some t \<Rightarrow> if has (entry s t (hd q)) PTE_V then Some (entry s t (hd q)) else None)"

definition frames :: "phys \<Rightarrow> nat \<Rightarrow> nat set" where
  "frames s pt = {PTE2PA e | q e. leaf_path q \<and> leaf s pt q = Some e}"

text \<open>
  The pages of the tree are in use, each is reached by one path, and the entries above
  the last level carry no permissions.
\<close>

definition pt_ok :: "phys \<Rightarrow> nat \<Rightarrow> bool" where
  "pt_ok s pt \<longleftrightarrow>
     (\<forall>p t. path 2 p \<longrightarrow> table s pt p = Some t \<longrightarrow> managed s t \<and> t \<notin> free_pages s)
     \<and> (\<forall>p q t. path 2 p \<longrightarrow> path 2 q \<longrightarrow> table s pt p = Some t \<longrightarrow> table s pt q = Some t \<longrightarrow> p = q)
     \<and> (\<forall>p t i. path 1 p \<longrightarrow> table s pt p = Some t \<longrightarrow> i < 512 \<longrightarrow> has (entry s t i) PTE_V \<longrightarrow>
          \<not> has (entry s t i) (PTE_R OR PTE_W OR PTE_X))"

lemma pt_okD:
  assumes "pt_ok s pt"
  shows "path 2 p \<Longrightarrow> table s pt p = Some t \<Longrightarrow> managed s t"
    and "path 2 p \<Longrightarrow> table s pt p = Some t \<Longrightarrow> t \<notin> free_pages s"
    and "path 2 p \<Longrightarrow> table s pt p = Some t \<Longrightarrow> t mod PGSIZE = 0"
    and "path 2 p \<Longrightarrow> path 2 q \<Longrightarrow> table s pt p = Some t \<Longrightarrow> table s pt q = Some t \<Longrightarrow> p = q"
  using assms by (auto simp: pt_ok_def managed_def)

lemma path_Cons: "path n (i # p) \<longleftrightarrow> 0 < n \<and> i < 512 \<and> path (n - 1) p"
  by (cases n) (auto simp: path_def)

lemma path_mono: "path n p \<Longrightarrow> n \<le> m \<Longrightarrow> path m p"
  by (simp add: path_def)

lemma leaf_path_Cons: "leaf_path (k # p) \<longleftrightarrow> k < 512 \<and> length p = 2 \<and> path 2 p"
  by (auto simp: leaf_path_def path_def)

lemma leaf_path_split:
  assumes "leaf_path q" obtains k p where "q = k # p" "k < 512" "length p = 2" "path 2 p"
  using assms by (cases q) (auto simp: leaf_path_Cons leaf_path_def [of "[]"])

lemma leaf_Cons: "leaf s pt (k # p) =
     (case table s pt p of None \<Rightarrow> None
      | Some t \<Rightarrow> if has (entry s t k) PTE_V then Some (entry s t k) else None)"
  by (simp add: leaf_def split: option.split)

lemma PX_less: "PX l va < 512"
  by (simp add: PX_def)

lemma vpath_leaf: "leaf_path (vpath va)" "path 2 (tl (vpath va))"
  by (auto simp: leaf_path_def vpath_def PX_less path_def)

text \<open>Different pages below \<open>MAXVA\<close> have different paths.\<close>

lemma vpath_inj:
  assumes "vpath a = vpath b" "a < MAXVA" "b < MAXVA"
  shows "a div PGSIZE = b div PGSIZE"
proof -
  have r: "x div PGSIZE = PX 0 x + 512 * (PX 1 x + 512 * PX 2 x)" if "x < MAXVA" for x
  proof -
    have q: "x div PGSIZE < 2 ^ 26" using that by (simp add: MAXVA_def PGSIZE_def div_less_iff_less_mult)
    define y where "y = x div PGSIZE"
    have p: "PX 0 x = y mod 512" "PX 1 x = y div 512 mod 512" "PX 2 x = y div 512 div 512 mod 512"
      by (simp_all add: PX_def y_def PGSIZE_def div_mult2_eq [symmetric])
    have "y div 512 div 512 < 512" using q by (simp add: y_def [symmetric] div_less_iff_less_mult)
    then have "PX 2 x = y div 512 div 512" by (simp add: p)
    moreover have "y div 512 = y div 512 mod 512 + 512 * (y div 512 div 512)" "y = y mod 512 + 512 * (y div 512)" by simp_all
    ultimately show ?thesis unfolding y_def [symmetric] p(1,2) by metis
  qed
  from assms show ?thesis by (simp add: r vpath_def)
qed

section \<open>Changing memory elsewhere\<close>

lemma entry_page:
  assumes "t mod PGSIZE = 0" "i < 512"
  shows "PGROUNDDOWN (t + 8 * i) = t" "(t + 8 * i) mod 8 = 0"
proof -
  show "PGROUNDDOWN (t + 8 * i) = t" using assms by (intro page_of) (auto simp: PGSIZE_def)
  have "t mod 8 = 0" using assms(1) by (auto simp: PGSIZE_def)
  then show "(t + 8 * i) mod 8 = 0" by simp
qed

lemma entry_frame:
  assumes "same_outside F s s'" "t \<notin> F" "t mod PGSIZE = 0" "i < 512"
  shows "entry s' t i = entry s t i"
  unfolding entry_def get_pte_def
  using entry_page [OF assms(3,4)] assms(2) by (intro read64_outside [OF assms(1)]) auto

lemma tablesI: "path 2 p \<Longrightarrow> table s pt p = Some t \<Longrightarrow> t \<in> tables s pt"
  by (auto simp: tables_def)

lemma table_frame:
  assumes "pt_ok s pt" "same_outside F s s'" "F \<inter> tables s pt = {}"
  shows "path 2 p \<Longrightarrow> table s' pt p = table s pt p"
proof (induction p)
  case (Cons i p)
  then have p: "path 2 p" "i < 512" by (auto simp: path_def)
  show ?case
  proof (cases "table s pt p")
    case (Some t)
    then have "entry s' t i = entry s t i"
      using assms(3) tablesI [OF p(1) Some] pt_okD(3) [OF assms(1) p(1) Some]
      by (intro entry_frame [OF assms(2) _ _ p(2)]) auto
    then show ?thesis using Some Cons.IH [OF p(1)] by simp
  qed (use Cons.IH [OF p(1)] in simp)
qed simp

lemma leaf_frame:
  assumes "pt_ok s pt" "same_outside F s s'" "F \<inter> tables s pt = {}" "leaf_path q"
  shows "leaf s' pt q = leaf s pt q"
proof -
  obtain k p where q: "q = k # p" "k < 512" "path 2 p" using assms(4) by (rule leaf_path_split)
  note T = table_frame [OF assms(1-3) q(3)]
  show ?thesis
  proof (cases "table s pt p")
    case (Some t)
    then have "entry s' t k = entry s t k"
      using assms(3) tablesI [OF q(3) Some] pt_okD(3) [OF assms(1) q(3) Some]
      by (intro entry_frame [OF assms(2) _ _ q(2)]) auto
    then show ?thesis using Some T by (simp add: q(1) leaf_Cons)
  qed (use T in \<open>simp add: q(1) leaf_Cons\<close>)
qed

lemma tables_cong: "(\<And>p. path 2 p \<Longrightarrow> table s' pt p = table s pt p) \<Longrightarrow> tables s' pt = tables s pt"
  by (auto simp: tables_def)

lemma frames_cong: "(\<And>q. leaf_path q \<Longrightarrow> leaf s' pt q = leaf s pt q) \<Longrightarrow> frames s' pt = frames s pt"
  unfolding frames_def by (intro Collect_cong ex_cong1 conj_cong refl) auto

lemma free_frame:
  assumes "kmem_ok s" "same_outside F s s'" "F \<inter> free_pages s = {}" "freelist s' = freelist s" "kend s' = kend s"
  shows "kmem_ok s'" "free_pages s' = free_pages s"
proof -
  obtain ps where ps: "free_list s ps" using assms(1) by (auto simp: kmem_ok_def)
  have "chain (ram s') (freelist s') ps"
    using ps assms(3,4) free_list_pages [OF ps]
    by (intro chain_outside [OF _ assms(2)]) (auto simp: free_list_def managed_def)
  then have "free_list s' ps" using ps assms(5) by (simp add: free_list_def managed_def)
  then show "kmem_ok s'" "free_pages s' = free_pages s"
    using assms(1,5) free_list_pages ps by (auto simp: kmem_ok_def)
qed

lemma pt_ok_frame:
  assumes "pt_ok s pt" "same_outside F s s'" "F \<inter> tables s pt = {}" "free_pages s' \<inter> tables s pt = {}" "kend s' = kend s"
  shows "pt_ok s' pt"
proof -
  note T = table_frame [OF assms(1-3)]
  have e: "entry s' t i = entry s t i" if "path 1 p" "table s pt p = Some t" "i < 512" for p t i
  proof -
    have "path 2 p" using that(1) by (rule path_mono) simp
    then show ?thesis using assms(3) tablesI [OF _ that(2)] pt_okD(3) [OF assms(1) _ that(2)]
      by (intro entry_frame [OF assms(2) _ _ that(3)]) auto
  qed
  have p1: "path 1 p \<Longrightarrow> path 2 p" for p by (erule path_mono) simp
  show ?thesis unfolding pt_ok_def
  proof (intro conjI allI impI)
    fix p t assume p: "path 2 p" "table s' pt p = Some t"
    then have t: "table s pt p = Some t" using T by simp
    show "managed s' t" using pt_okD(1) [OF assms(1) p(1) t] managed_kend [OF assms(5)] by simp
    show "t \<notin> free_pages s'" using tablesI [OF p(1) t] assms(4) by blast
  next
    fix p q t assume "path 2 p" "path 2 q" "table s' pt p = Some t" "table s' pt q = Some t"
    then show "p = q" using T pt_okD(4) [OF assms(1)] by simp
  next
    fix p t i assume p: "path 1 p" "table s' pt p = Some t" "i < 512" "has (entry s' t i) PTE_V"
    then have "table s pt p = Some t" using T [OF p1] by simp
    then show "\<not> has (entry s' t i) (PTE_R OR PTE_W OR PTE_X)"
      using p e assms(1) unfolding pt_ok_def by metis
  qed
qed

section \<open>Writing an entry\<close>

lemma set_pte_fields [simp]:
  "freelist (set_pte a v s) = freelist s" "kend (set_pte a v s) = kend s"
  "freelist (store_page p c s) = freelist s" "kend (store_page p c s) = kend s"
  by (simp_all add: set_pte_def store_page_def)

lemma set_pte_outside:
  assumes "t mod PGSIZE = 0" "i < 512"
  shows "same_outside {t} s (set_pte (t + 8 * i) v s)"
proof -
  have "PGROUNDDOWN x = t" if "t + 8 * i \<le> x" "x < t + 8 * i + 8" for x
    using that assms(2) by (intro page_of [OF assms(1)]) (auto simp: PGSIZE_def)
  then show ?thesis by (auto simp: same_outside_def set_pte_def write64_def)
qed

lemma entry_set:
  assumes "t mod PGSIZE = 0" "u mod PGSIZE = 0" "i < 512" "j < 512"
  shows "entry (set_pte (t + 8 * i) v s) u j = (if u = t \<and> j = i then v else entry s u j)"
proof (cases "u = t")
  case True
  have "i \<noteq> j \<Longrightarrow> t + 8 * j + 8 \<le> t + 8 * i \<or> t + 8 * i + 8 \<le> t + 8 * j" by linarith
  then show ?thesis using True by (auto simp: entry_def get_pte_def set_pte_def read_write64_other)
next
  case False
  then show ?thesis using entry_frame [OF set_pte_outside [OF assms(1,3)], of u j] assms(2,4) by simp
qed

lemma table_set:
  assumes ok: "pt_ok s pt" and p: "path 2 p" "table s pt p = Some t" "i < 512"
  shows "path 2 q \<Longrightarrow> \<not> suffix (i # p) q \<Longrightarrow> table (set_pte (t + 8 * i) v s) pt q = table s pt q"
proof (induction q)
  case (Cons j q)
  have q: "path 2 q" "j < 512" "\<not> suffix (i # p) q" using Cons.prems by (auto simp: path_def suffix_Cons)
  note IH = Cons.IH [OF q(1,3)]
  show ?case
  proof (cases "table s pt q")
    case (Some u)
    have "\<not> (u = t \<and> j = i)" using pt_okD(4) [OF ok q(1) p(1) Some] p(2) Cons.prems(2) by auto
    then have "entry (set_pte (t + 8 * i) v s) u j = entry s u j"
      using pt_okD(3) [OF ok q(1) Some] pt_okD(3) [OF ok p(1,2)] p(3) q(2) by (subst entry_set) auto
    then show ?thesis using IH Some by simp
  qed (use IH in simp)
qed simp

lemma no_long_suffix: "length p = 2 \<Longrightarrow> path 2 q \<Longrightarrow> \<not> suffix (i # p) q"
  using suffix_length_le [of "i # p" q] by (auto simp: path_def)

text \<open>Changing an entry of the last level changes one mapping and nothing else.\<close>

lemma set_leaf:
  fixes v :: uint64 and q :: path
  assumes ok: "kmem_ok s" "pt_ok s pt" and p: "length p = 2" "path 2 p" "table s pt p = Some t" "k < 512"
  defines "s' \<equiv> set_pte (t + 8 * k) v s"
  shows "kmem_ok s'" "free_pages s' = free_pages s" "pt_ok s' pt" "\<And>q. path 2 q \<Longrightarrow> table s' pt q = table s pt q"
    "leaf_path q \<Longrightarrow> leaf s' pt q = (if q = k # p then if has v PTE_V then Some v else None else leaf s pt q)"
    "same_outside {t} s s'"
proof -
  note T = pt_okD(1-3) [OF ok(2) p(2,3)]
  have o: "same_outside {t} s s'" unfolding s'_def by (rule set_pte_outside [OF T(3) p(4)])
  show f: "kmem_ok s'" "free_pages s' = free_pages s"
    using T(2) by (intro free_frame [OF ok(1) o]; simp add: s'_def)+
  show tab: "table s' pt q = table s pt q" if "path 2 q" for q
    unfolding s'_def using that p by (intro table_set [OF ok(2)] no_long_suffix) auto
  have e: "entry s' u j = (if u = t \<and> j = k then v else entry s u j)" if "u mod PGSIZE = 0" "j < 512" for u j
    unfolding s'_def using entry_set [OF T(3) that(1) p(4) that(2)] .
  show "pt_ok s' pt" unfolding pt_ok_def
  proof (intro conjI allI impI)
    fix q u assume q: "path 2 q" "table s' pt q = Some u"
    then show "managed s' u" "u \<notin> free_pages s'" using tab pt_okD(1,2) [OF ok(2) q(1)] f(2) by (simp_all add: s'_def managed_def)
  next
    fix q r u assume "path 2 q" "path 2 r" "table s' pt q = Some u" "table s' pt r = Some u"
    then show "q = r" using tab pt_okD(4) [OF ok(2)] by simp
  next
    fix q u i assume q: "path 1 q" "table s' pt q = Some u" "i < 512" "has (entry s' u i) PTE_V"
    have q2: "path 2 q" using q(1) by (rule path_mono) simp
    have u: "table s pt q = Some u" using q tab [OF q2] by simp
    have "u \<noteq> t" using pt_okD(4) [OF ok(2) q2 p(2) u] p(1,3) q(1) by (auto simp: path_def)
    then have "entry s' u i = entry s u i" using e q(3) pt_okD(3) [OF ok(2) q2 u] by simp
    then show "\<not> has (entry s' u i) (PTE_R OR PTE_W OR PTE_X)"
      using ok(2) q(1,3,4) u unfolding pt_ok_def by metis
  qed
  show "leaf s' pt q = (if q = k # p then if has v PTE_V then Some v else None else leaf s pt q)" if lp: "leaf_path q"
  proof -
    obtain j r where q: "q = j # r" "j < 512" "path 2 r" using lp by (rule leaf_path_split)
    show ?thesis
    proof (cases "table s pt r")
      case (Some u)
      have "u = t \<longleftrightarrow> r = p" using pt_okD(4) [OF ok(2) q(3) p(2) Some] Some p(3) by auto
      then show ?thesis using Some tab [OF q(3)] e [of u j] pt_okD(3) [OF ok(2) q(3) Some] q by (auto simp: leaf_Cons)
    next
      case None
      then have "r \<noteq> p" using p(3) by auto
      then show ?thesis using None tab [OF q(3)] by (simp add: q(1) leaf_Cons)
    qed
  qed
  show "same_outside {t} s s'" by (rule o)
qed

section \<open>Adding a page to the tree\<close>

text \<open>The tree may have grown, by pages that were free; mappings and other pages are unchanged.\<close>

definition grown :: "nat \<Rightarrow> phys \<Rightarrow> phys \<Rightarrow> bool" where
  "grown pt s s' \<longleftrightarrow> kmem_ok s' \<and> kend s' = kend s \<and> pt_ok s' pt
     \<and> (\<forall>q t. path 2 q \<longrightarrow> table s pt q = Some t \<longrightarrow> table s' pt q = Some t)
     \<and> (\<forall>q. leaf_path q \<longrightarrow> leaf s' pt q = leaf s pt q)
     \<and> free_pages s' \<subseteq> free_pages s \<and> tables s' pt \<union> free_pages s' = tables s pt \<union> free_pages s
     \<and> same_outside (tables s pt \<union> free_pages s) s s'"

lemma grown_refl: "kmem_ok s \<Longrightarrow> pt_ok s pt \<Longrightarrow> grown pt s s"
  by (simp add: grown_def same_outside_refl)

lemma grown_trans: "grown pt s s' \<Longrightarrow> grown pt s' s'' \<Longrightarrow> grown pt s s''"
  unfolding grown_def by (auto dest: same_outside_trans)

lemma page_bound: "managed s p \<Longrightarrow> p < 2 ^ 56"
  by (simp add: managed_def PHYSTOP_def KERNBASE_def)

lemma new_entry:
  assumes "managed s pg"
  shows "has (PA2PTE pg OR PTE_V) PTE_V" "PTE2PA (PA2PTE pg OR PTE_V) = pg"
    "\<not> has (PA2PTE pg OR PTE_V) (PTE_R OR PTE_W OR PTE_X)"
proof -
  show "PTE2PA (PA2PTE pg OR PTE_V) = pg"
    using assms page_bound [OF assms] by (intro PTE2PA_entry) (auto simp: managed_def PTE_consts_bit)
  show "has (PA2PTE pg OR PTE_V) PTE_V" "\<not> has (PA2PTE pg OR PTE_V) (PTE_R OR PTE_W OR PTE_X)"
    by (simp_all add: has_or flag_bits bit_or_iff bit_PA2PTE PTE_consts_bit)
qed

lemma entry_zeroed:
  assumes "pg mod PGSIZE = 0" "j < 512"
  shows "entry (store_page pg 0 s) pg j = 0"
  unfolding entry_def get_pte_def using assms by (intro read64_zero) (auto simp: store_page_def memset_eq PGSIZE_def)

text \<open>A free page is zeroed and entered at index \<open>i\<close> of the table \<open>t\<close>.\<close>

definition add_table :: "nat \<Rightarrow> nat \<Rightarrow> nat \<Rightarrow> phys \<Rightarrow> phys" where
  "add_table t i pg s1 = set_pte (t + 8 * i) (PA2PTE pg OR PTE_V) (store_page pg 0 s1)"

lemma add_table_entries:
  assumes ok: "kmem_ok s" "pt_ok s pt" and p: "path 1 p" "table s pt p = Some t" "i < 512"
    and k: "kalloc s = (pg, s1)" "pg \<noteq> 0"
  defines "s' \<equiv> add_table t i pg s1"
  shows "kmem_ok s'" "free_pages s' = free_pages s - {pg}" "kend s' = kend s" "same_outside {t, pg} s s'"
    and "\<And>u j. u mod PGSIZE = 0 \<Longrightarrow> j < 512 \<Longrightarrow>
      entry s' u j = (if u = t \<and> j = i then PA2PTE pg OR PTE_V else if u = pg then 0 else entry s u j)"
    and "t \<noteq> pg" "pg \<notin> tables s pt" "managed s pg" "pg mod PGSIZE = 0"
proof -
  note K = kalloc_spec [OF ok(1) k]
  let ?s2 = "store_page pg 0 s1"
  have p2: "path 2 p" using p(1) by (rule path_mono) simp
  note T = pt_okD(1-3) [OF ok(2) p2 p(2)]
  have o2: "same_outside {pg} s ?s2" using same_outside_trans [OF K(6) store_page_outside [OF K(7)]] by simp
  have o: "same_outside {t} ?s2 s'" unfolding s'_def add_table_def by (rule set_pte_outside [OF T(3) p(3)])
  have f2: "kmem_ok ?s2" "free_pages ?s2 = free_pages s - {pg}"
    using free_frame [OF K(1) store_page_outside [OF K(7), of s1 0]] K(3) by simp_all
  have "{t} \<inter> free_pages ?s2 = {}" using T(2) f2(2) by auto
  then show "kmem_ok s'" "free_pages s' = free_pages s - {pg}"
    using free_frame [OF f2(1) o] f2(2) by (auto simp: s'_def add_table_def)
  show "kend s' = kend s" using K(5) by (simp add: s'_def add_table_def)
  show "same_outside {t, pg} s s'" using same_outside_trans [OF o2 o] by (simp add: insert_commute)
  show tpg: "t \<noteq> pg" using T(2) K(2) by auto
  show "pg \<notin> tables s pt" using K(2) ok(2) by (auto simp: tables_def pt_ok_def)
  show "managed s pg" "pg mod PGSIZE = 0" by (rule K)+
  fix u j assume u: "u mod PGSIZE = 0" "j < (512 :: nat)"
  have "u \<noteq> pg \<Longrightarrow> entry ?s2 u j = entry s u j" using u by (intro entry_frame [OF o2]) auto
  then show "entry s' u j = (if u = t \<and> j = i then PA2PTE pg OR PTE_V else if u = pg then 0 else entry s u j)"
    unfolding s'_def add_table_def entry_set [OF T(3) u(1) p(3) u(2)] using entry_zeroed [OF K(7) u(2)] tpg by auto
qed

lemma add_table_tree:
  assumes ok: "kmem_ok s" "pt_ok s pt" and p: "path 1 p" "table s pt p = Some t" "i < 512" "\<not> has (entry s t i) PTE_V"
    and k: "kalloc s = (pg, s1)" "pg \<noteq> 0" and q: "path 2 q"
  shows "table (add_table t i pg s1) pt q = (if q = i # p then Some pg else table s pt q)"
  using q
proof (induction q)
  case Nil
  then show ?case by simp
next
  case (Cons j q)
  note A = add_table_entries [OF ok p(1-3) k]
  have q: "path 2 q" "j < 512" "length q < 2" using Cons.prems by (auto simp: path_def)
  note IH = Cons.IH [OF q(1)]
  have p2: "path 2 p" using p(1) by (rule path_mono) simp
  show ?case
  proof (cases "q = i # p")
    case True
    have "table s pt (j # q) = None" using p(2,4) True by simp
    moreover have "entry (add_table t i pg s1) pg j = 0" using A(5) [OF A(9) q(2)] A(6) by simp
    ultimately show ?thesis using IH True by simp
  next
    case False
    show ?thesis
    proof (cases "table s pt q")
      case None
      then show ?thesis using IH False p(2) by auto
    next
      case (Some u)
      have u: "u mod PGSIZE = 0" "u \<noteq> pg" using pt_okD(3) [OF ok(2) q(1) Some] tablesI [OF q(1) Some] A(7) by auto
      have "u = t \<longleftrightarrow> q = p" using pt_okD(4) [OF ok(2) q(1) p2 Some] p(2) Some by auto
      then show ?thesis using IH False Some A(5) [OF u(1) q(2)] u(2) new_entry [OF A(8)] by auto
    qed
  qed
qed

lemma add_table_leaf:
  assumes ok: "kmem_ok s" "pt_ok s pt" and p: "path 1 p" "table s pt p = Some t" "i < 512" "\<not> has (entry s t i) PTE_V"
    and k: "kalloc s = (pg, s1)" "pg \<noteq> 0" and lp: "leaf_path q"
  shows "leaf (add_table t i pg s1) pt q = leaf s pt q"
proof -
  obtain j r where q: "q = j # r" "j < 512" "length r = 2" "path 2 r" using lp by (rule leaf_path_split)
  note A = add_table_entries [OF ok p(1-3) k]
  note tab = add_table_tree [OF ok p k q(4)]
  have p2: "path 2 p" using p(1) by (rule path_mono) simp
  show ?thesis
  proof (cases "r = i # p")
    case True
    then have "table s pt r = None" using p(2,4) by simp
    moreover have "entry (add_table t i pg s1) pg j = 0" using A(5) [OF A(9) q(2)] A(6) by simp
    ultimately show ?thesis using True tab by (simp add: q(1) leaf_Cons)
  next
    case False
    show ?thesis
    proof (cases "table s pt r")
      case (Some u)
      have u: "u mod PGSIZE = 0" "u \<noteq> pg" using pt_okD(3) [OF ok(2) q(4) Some] tablesI [OF q(4) Some] A(7) by auto
      have "u \<noteq> t" using pt_okD(4) [OF ok(2) q(4) p2 Some] p(1,2) q(3) by (auto simp: path_def)
      then show ?thesis using False Some tab A(5) [OF u(1) q(2)] u(2) by (simp add: q(1) leaf_Cons)
    qed (use tab False in \<open>simp add: q(1) leaf_Cons\<close>)
  qed
qed

lemma add_table_pt_ok:
  assumes ok: "kmem_ok s" "pt_ok s pt" and p: "path 1 p" "table s pt p = Some t" "i < 512" "\<not> has (entry s t i) PTE_V"
    and k: "kalloc s = (pg, s1)" "pg \<noteq> 0"
  shows "pt_ok (add_table t i pg s1) pt"
proof -
  let ?s = "add_table t i pg s1"
  note A = add_table_entries [OF ok p(1-3) k]
  note tab = add_table_tree [OF ok p k]
  have old: "u = pg \<and> q = i # p \<or> table s pt q = Some u \<and> u \<noteq> pg" if "path 2 q" "table ?s pt q = Some u" for q u
    using that tab [OF that(1)] A(7) tablesI [OF that(1), of s pt u] by (auto split: if_splits)
  show ?thesis unfolding pt_ok_def
  proof (intro conjI allI impI)
    fix q u assume q: "path 2 q" "table ?s pt q = Some u"
    show "managed ?s u" using old [OF q] pt_okD(1) [OF ok(2) q(1)] A(3,8) by (auto simp: managed_def)
    show "u \<notin> free_pages ?s" using old [OF q] pt_okD(2) [OF ok(2) q(1)] A(2) by auto
  next
    fix q r u assume q: "path 2 q" "path 2 r" "table ?s pt q = Some u" "table ?s pt r = Some u"
    show "q = r" using old [OF q(1,3)] old [OF q(2,4)] pt_okD(4) [OF ok(2) q(1,2)] by auto
  next
    fix q u j assume q: "path 1 q" "table ?s pt q = Some u" "j < 512" "has (entry ?s u j) PTE_V"
    have q2: "path 2 q" using q(1) by (rule path_mono) simp
    have u: "u mod PGSIZE = 0" using old [OF q2 q(2)] pt_okD(3) [OF ok(2) q2] A(9) by auto
    show "\<not> has (entry ?s u j) (PTE_R OR PTE_W OR PTE_X)"
    proof (cases "u = t \<and> j = i")
      case True
      then show ?thesis using A(5) [OF u q(3)] new_entry [OF A(8)] by simp
    next
      case False
      then have e: "entry ?s u j = entry s u j" "table s pt q = Some u"
        using A(5) [OF u q(3)] q(4) old [OF q2 q(2)] by (auto split: if_splits)
      then show ?thesis using ok(2) q(1,3,4) unfolding pt_ok_def by metis
    qed
  qed
qed

lemma new_table:
  assumes ok: "kmem_ok s" "pt_ok s pt" and p: "path 1 p" "table s pt p = Some t" "i < 512" "\<not> has (entry s t i) PTE_V"
    and k: "kalloc s = (pg, s1)" "pg \<noteq> 0"
  shows "grown pt s (add_table t i pg s1)" "table (add_table t i pg s1) pt (i # p) = Some pg"
proof -
  let ?s = "add_table t i pg s1"
  note A = add_table_entries [OF ok p(1-3) k]
  note tab = add_table_tree [OF ok p k]
  have p2: "path 2 p" "path 2 (i # p)" using p(1,3) path_mono [of 1 p 2] by (simp_all add: path_Cons)
  show here: "table ?s pt (i # p) = Some pg" using tab [OF p2(2)] by simp
  have none: "table s pt (i # p) = None" using p(2,4) by simp
  have keep: "table ?s pt q = Some u" if "path 2 q" "table s pt q = Some u" for q u
    using tab [OF that(1)] that(2) none by (cases "q = i # p") auto
  have tabs: "tables ?s pt = insert pg (tables s pt)"
  proof (intro set_eqI iffI)
    fix u assume "u \<in> tables ?s pt"
    then obtain q where "path 2 q" "table ?s pt q = Some u" by (auto simp: tables_def)
    then show "u \<in> insert pg (tables s pt)" using tab [of q] by (auto simp: tables_def split: if_splits)
  next
    fix u assume "u \<in> insert pg (tables s pt)"
    then show "u \<in> tables ?s pt" using here p2(2) keep by (auto simp: tables_def)
  qed
  have pf: "pg \<in> free_pages s" using kalloc_spec(2) [OF ok(1) k] .
  have "same_outside (tables s pt \<union> free_pages s) s ?s"
    using same_outside_mono [OF A(4)] pf tablesI [OF p2(1) p(2)] by auto
  then show "grown pt s ?s"
    unfolding grown_def using A(1-3) add_table_pt_ok [OF ok p k] keep add_table_leaf [OF ok p k] tabs pf by auto
qed

section \<open>Walking\<close>

lemma walk_no_alloc:
  "walk_from 2 pt va False s = (map_option (\<lambda>t. t + 8 * PX 0 va) (table s pt [PX 1 va, PX 2 va]), s)"
  by (simp add: numeral_2_eq_2 entry_def Let_def)

lemma walk_step_alloc:
  assumes ok: "kmem_ok s" "pt_ok s pt" and p: "path 1 p" "table s pt p = Some t"
  obtains "walk_from (Suc l) t va True s = (None, s)" "free_pages s = {}"
  | u s' where "walk_from (Suc l) t va True s = walk_from l u va True s'" "grown pt s s'" "table s' pt (PX (Suc l) va # p) = Some u"
proof (cases "has (entry s t (PX (Suc l) va)) PTE_V")
  case True
  then have "walk_from (Suc l) t va True s = walk_from l (PTE2PA (entry s t (PX (Suc l) va))) va True s"
    by (simp add: entry_def Let_def)
  with that(2) grown_refl [OF ok] p(2) True show thesis by simp
next
  case False
  obtain pg s1 where k: "kalloc s = (pg, s1)" by (cases "kalloc s")
  show thesis
  proof (cases "pg = 0")
    case True
    then have "walk_from (Suc l) t va True s = (None, s)" "free_pages s = {}"
      using False k kalloc_none [OF ok(1), of s1] by (simp_all add: entry_def Let_def)
    then show thesis by (rule that(1))
  next
    case pg: False
    then have "walk_from (Suc l) t va True s = walk_from l pg va True (add_table t (PX (Suc l) va) pg s1)"
      using False k by (simp add: entry_def Let_def add_table_def)
    with that(2) new_table [OF ok p PX_less False k pg] show thesis by blast
  qed
qed

text \<open>
  With allocation, \<open>walk\<close> gives the place of the entry in a grown tree, or nothing if
  the memory is used up.
\<close>

lemma walk_alloc:
  assumes ok: "kmem_ok s" "pt_ok s pt"
  obtains s' where "walk_from 2 pt va True s = (None, s')" "grown pt s s'" "free_pages s' = {}"
  | t s' where "walk_from 2 pt va True s = (Some (t + 8 * PX 0 va), s')" "grown pt s s'" "table s' pt [PX 1 va, PX 2 va] = Some t"
proof -
  have "path 1 []" "table s pt [] = Some pt" by (simp_all add: path_def)
  from walk_step_alloc [OF ok this, of 1 va] show thesis
  proof cases
    case 1
    then show thesis using that(1) [of s] grown_refl [OF ok] by (simp add: numeral_2_eq_2)
  next
    case (2 u s1)
    have g: "kmem_ok s1" "pt_ok s1 pt" using 2(2) by (auto simp: grown_def)
    have "path 1 [PX 2 va]" "table s1 pt [PX 2 va] = Some u" using 2(3) by (simp_all add: path_def PX_less numeral_2_eq_2)
    from walk_step_alloc [OF g this, of 0 va] show thesis
    proof cases
      case 1
      then show thesis using that(1) [of s1] 2(1,2) by (simp add: numeral_2_eq_2)
    next
      case w: (2 t s2)
      then show thesis using that(2) [of t s2] 2(1) grown_trans [OF 2(2) w(2)] by (simp add: numeral_2_eq_2)
    qed
  qed
qed

end
