(* ===== verification/Vm_Map.thy ===== *)
theory Vm_Map
  imports Vm_Tree
begin

text \<open>
  What \<open>mappages\<close> does to a page table: it enters a mapping for every page of the
  range and leaves every other mapping alone, or it runs out of memory half way.
\<close>

definition lookup :: "phys \<Rightarrow> nat \<Rightarrow> nat \<Rightarrow> uint64 option" where
  "lookup s pt va = leaf s pt (vpath va)"

lemma walk_lookup:
  assumes "va < MAXVA"
  shows "lookup s pt va = Some e \<longleftrightarrow> (\<exists>pte. fst (walk_from 2 pt va False s) = Some pte \<and> get_pte pte s = e \<and> has e PTE_V)"
    and "lookup s pt va = None \<longleftrightarrow> (\<forall>pte. fst (walk_from 2 pt va False s) = Some pte \<longrightarrow> \<not> has (get_pte pte s) PTE_V)"
    and "walk pt va False s = Inr (fst (walk_from 2 pt va False s), s)"
  using assms by (auto simp: lookup_def vpath_def leaf_Cons walk_no_alloc walk_def entry_def split: option.splits if_splits)

definition pte_of :: "nat \<Rightarrow> uint64 \<Rightarrow> uint64" where
  "pte_of pa perm = PA2PTE pa OR perm OR PTE_V"

lemma pte_of_valid [simp]: "has (pte_of pa perm) PTE_V"
  by (simp add: pte_of_def flag_bits bit_or_iff PTE_consts_bit)

text \<open>The valid entries of \<open>pt\<close> are now \<open>m\<close>; the tree may have grown by free pages.\<close>

definition remapped :: "nat \<Rightarrow> (path \<Rightarrow> uint64 option) \<Rightarrow> phys \<Rightarrow> phys \<Rightarrow> bool" where
  "remapped pt m s s' \<longleftrightarrow> kmem_ok s' \<and> kend s' = kend s \<and> pt_ok s' pt
     \<and> (\<forall>q. leaf_path q \<longrightarrow> leaf s' pt q = m q)
     \<and> free_pages s' \<subseteq> free_pages s \<and> tables s' pt \<union> free_pages s' = tables s pt \<union> free_pages s
     \<and> same_outside (tables s pt \<union> free_pages s) s s'"

lemma remapped_ok: "remapped pt m s s' \<Longrightarrow> kmem_ok s' \<and> pt_ok s' pt"
  by (simp add: remapped_def)

lemma grown_remapped: "grown pt s s' \<Longrightarrow> remapped pt (leaf s pt) s s'"
  by (simp add: grown_def remapped_def)

lemma remapped_trans: "remapped pt m s s' \<Longrightarrow> remapped pt m' s' s'' \<Longrightarrow> remapped pt m' s s''"
  unfolding remapped_def by (auto dest: same_outside_trans)

lemma remapped_cong: "remapped pt m s s' \<Longrightarrow> (\<And>q. leaf_path q \<Longrightarrow> m q = m' q) \<Longrightarrow> remapped pt m' s s'"
  by (simp add: remapped_def)

lemma set_leaf_remapped:
  assumes ok: "kmem_ok s" "pt_ok s pt" and t: "table s pt [PX 1 va, PX 2 va] = Some t"
  shows "remapped pt ((leaf s pt)(vpath va := if has v PTE_V then Some v else None)) s (set_pte (t + 8 * PX 0 va) v s)"
proof -
  have p: "length [PX 1 va, PX 2 va] = 2" "path 2 [PX 1 va, PX 2 va]" by (simp_all add: path_def PX_less)
  note L = set_leaf [OF ok p t PX_less [of 0 va], where v = v]
  have "tables (set_pte (t + 8 * PX 0 va) v s) pt = tables s pt" by (rule tables_cong) (rule L(4))
  moreover have "same_outside (tables s pt \<union> free_pages s) s (set_pte (t + 8 * PX 0 va) v s)"
    using L(6) tablesI [OF p(2) t] by (auto intro: same_outside_mono)
  ultimately show ?thesis using L(1-3,5) by (simp add: remapped_def vpath_def)
qed

text \<open>One round of the loop.\<close>

lemma map_round:
  assumes ok: "kmem_ok s" "pt_ok s pt" and va: "va < MAXVA" "lookup s pt va = None" and v: "has v PTE_V"
  obtains s' where "walk pt va True s = Inr (None, s')" "remapped pt (leaf s pt) s s'" "free_pages s' = {}"
  | pte s1 where "walk pt va True s = Inr (Some pte, s1)" "\<not> has (get_pte pte s1) PTE_V"
      "remapped pt ((leaf s pt)(vpath va \<mapsto> v)) s (set_pte pte v s1)"
  using ok
proof (cases rule: walk_alloc [where va = va])
  case (1 s')
  then show thesis using that(1) [of s'] va(1) by (simp add: walk_def grown_remapped)
next
  case (2 t s1)
  have g: "kmem_ok s1" "pt_ok s1 pt" "\<And>q. leaf_path q \<Longrightarrow> leaf s1 pt q = leaf s pt q"
    using 2(2) by (auto simp: grown_def)
  have "leaf s1 pt (vpath va) = None" using g(3) [OF vpath_leaf(1), of va] va(2) by (simp add: lookup_def)
  then have nv: "\<not> has (get_pte (t + 8 * PX 0 va) s1) PTE_V"
    using 2(3) by (auto simp: vpath_def leaf_Cons entry_def split: if_splits)
  have "remapped pt ((leaf s1 pt)(vpath va \<mapsto> v)) s1 (set_pte (t + 8 * PX 0 va) v s1)"
    using set_leaf_remapped [OF g(1,2) 2(3), of v] v by simp
  then have "remapped pt ((leaf s pt)(vpath va \<mapsto> v)) s (set_pte (t + 8 * PX 0 va) v s1)"
    using remapped_cong [OF remapped_trans [OF grown_remapped [OF 2(2)]]] g(3) by fastforce
  then show thesis using that(2) [OF _ nv] 2(1) va(1) by (simp add: walk_def)
qed

text \<open>The mappings after \<open>k\<close> rounds from \<open>a\<close> and \<open>pa\<close>.\<close>

fun map_range :: "nat \<Rightarrow> nat \<Rightarrow> uint64 \<Rightarrow> nat \<Rightarrow> (path \<Rightarrow> uint64 option) \<Rightarrow> path \<Rightarrow> uint64 option" where
  "map_range a pa perm 0 m = m"
| "map_range a pa perm (Suc k) m = map_range (a + PGSIZE) (pa + PGSIZE) perm k (m(vpath a \<mapsto> pte_of pa perm))"

lemma map_range_cong:
  "(\<And>q. leaf_path q \<Longrightarrow> m q = m' q) \<Longrightarrow> leaf_path q \<Longrightarrow> map_range a pa perm k m q = map_range a pa perm k m' q"
proof (induction k arbitrary: a pa m m')
  case (Suc k)
  show ?case unfolding map_range.simps using Suc.prems by (intro Suc.IH) auto
qed simp

lemma vpath_page: "vpath (PGROUNDDOWN v) = vpath v"
proof -
  have "PX l (PGROUNDDOWN v) = PX l v" for l
  proof -
    have "PGROUNDDOWN v div 2 ^ 12 = v div 2 ^ 12" by (simp add: PGROUNDDOWN_def PGSIZE_def)
    then show ?thesis unfolding PX_def power_add div_mult2_eq by simp
  qed
  then show ?thesis by (simp add: vpath_def)
qed

lemma vpath_eq:
  assumes "a < MAXVA" "v < MAXVA" "a mod PGSIZE = 0"
  shows "vpath v = vpath a \<longleftrightarrow> PGROUNDDOWN v = a"
proof
  assume "vpath v = vpath a"
  from vpath_inj [OF this assms(2,1)] show "PGROUNDDOWN v = a"
    using assms(3) by (metis PGROUNDDOWN_def page_self)
next
  assume "PGROUNDDOWN v = a"
  then show "vpath v = vpath a" using vpath_page [of v] by simp
qed

lemma map_range_lookup:
  assumes "a mod PGSIZE = 0" "a + k * PGSIZE \<le> MAXVA" "v < MAXVA"
  shows "map_range a pa perm k m (vpath v) =
    (if a \<le> v \<and> v < a + k * PGSIZE then Some (pte_of (pa + (PGROUNDDOWN v - a)) perm) else m (vpath v))"
  using assms
proof (induction k arbitrary: a pa m)
  case (Suc k)
  let ?d = "PGROUNDDOWN v"
  have d: "?d \<le> v" "v < ?d + PGSIZE" "?d mod PGSIZE = 0" using in_page [of v ?d] by (simp_all add: PGROUNDDOWN_def)
  have a: "(a + PGSIZE) mod PGSIZE = 0" "a + PGSIZE + k * PGSIZE \<le> MAXVA" "a < MAXVA"
    using Suc.prems by (simp_all add: PGSIZE_def)
  note IH = Suc.IH [OF a(1,2) Suc.prems(3), of "pa + PGSIZE" "m(vpath a \<mapsto> pte_of pa perm)"]
  note eq = vpath_eq [OF a(3) Suc.prems(3,1)]
  consider "?d = a" | "?d + PGSIZE \<le> a" | "a + PGSIZE \<le> ?d" using page_disjoint [OF d(3) Suc.prems(1)] by blast
  then show ?case
  proof cases
    case 1
    then have "\<not> a + PGSIZE \<le> v" "a \<le> v" "v < a + Suc k * PGSIZE" using d by (auto simp: PGSIZE_def)
    then show ?thesis unfolding map_range.simps IH using eq 1 by simp
  next
    case 2
    then have "?d \<noteq> a" "\<not> a \<le> v" "\<not> a + PGSIZE \<le> v" using d by (auto simp: PGSIZE_def)
    then show ?thesis unfolding map_range.simps IH using eq by simp
  next
    case 3
    then have "?d \<noteq> a" "a + PGSIZE \<le> v" "pa + PGSIZE + (?d - (a + PGSIZE)) = pa + (?d - a)" using d by (auto simp: PGSIZE_def)
    then show ?thesis unfolding map_range.simps IH using eq by (simp add: add.assoc)
  qed
qed auto

lemma mappages_from_spec:
  assumes "kmem_ok s" "pt_ok s pt" "a mod PGSIZE = 0" "a + n * PGSIZE < MAXVA"
    and "\<And>i. i \<le> n \<Longrightarrow> lookup s pt (a + i * PGSIZE) = None"
  shows "\<exists>r s' k. mappages_from pt a (a + n * PGSIZE) pa perm s = Inr (r, s') \<and> remapped pt (map_range a pa perm k (leaf s pt)) s s'
    \<and> (r = 0 \<and> k = Suc n \<or> r = -1 \<and> k \<le> n \<and> free_pages s' = {})"
  using assms
proof (induction n arbitrary: a pa s)
  case 0
  have "lookup s pt a = None" "a < MAXVA" using 0(5) [of 0] 0(4) by simp_all
  from map_round [OF 0(1,2) this(2,1) pte_of_valid [of pa perm]] show ?case
  proof cases
    case (1 s')
    then show ?thesis by (subst mappages_from.simps) (auto intro!: exI [of _ 0])
  next
    case (2 pte s1)
    then show ?thesis by (subst mappages_from.simps) (auto simp: Let_def pte_of_def [symmetric] intro!: exI [of _ "Suc 0"])
  qed
next
  case (Suc n)
  have a: "lookup s pt a = None" "a < MAXVA" using Suc.prems(5) [of 0] Suc.prems(4) by simp_all
  from map_round [OF Suc.prems(1,2) this(2,1) pte_of_valid [of pa perm]] show ?case
  proof cases
    case (1 s')
    then show ?thesis by (subst mappages_from.simps) (auto intro!: exI [of _ 0])
  next
    case (2 pte s1)
    let ?s2 = "set_pte pte (pte_of pa perm) s1"
    have b: "(a + PGSIZE) mod PGSIZE = 0" "a + PGSIZE + n * PGSIZE < MAXVA" using Suc.prems(3,4) by simp_all
    have l: "lookup ?s2 pt (a + PGSIZE + i * PGSIZE) = None" if "i \<le> n" for i
    proof -
      let ?v = "a + PGSIZE + i * PGSIZE"
      have "i * PGSIZE \<le> n * PGSIZE" using that by simp
      then have v: "?v < MAXVA" using b(2) by linarith
      have "?v mod PGSIZE = 0" using b(1) by simp
      then have "vpath ?v \<noteq> vpath a" using vpath_eq [OF a(2) v Suc.prems(3)] page_self by (auto simp: PGSIZE_def)
      moreover have "lookup s pt ?v = None" using Suc.prems(5) [of "Suc i"] that by (simp add: algebra_simps)
      ultimately show ?thesis using 2(3) vpath_leaf(1) by (simp add: lookup_def remapped_def)
    qed
    note ok2 = remapped_ok [OF 2(3)]
    from Suc.IH [OF conjunct1 [OF ok2] conjunct2 [OF ok2] b l, of "pa + PGSIZE"]
    obtain r s' k where i: "mappages_from pt (a + PGSIZE) (a + PGSIZE + n * PGSIZE) (pa + PGSIZE) perm ?s2 = Inr (r, s')"
      "remapped pt (map_range (a + PGSIZE) (pa + PGSIZE) perm k (leaf ?s2 pt)) ?s2 s'"
      "r = 0 \<and> k = Suc n \<or> r = -1 \<and> k \<le> n \<and> free_pages s' = {}" by blast
    have "remapped pt (map_range a pa perm (Suc k) (leaf s pt)) s s'"
      unfolding map_range.simps
      by (rule remapped_cong [OF remapped_trans [OF 2(3) i(2)]], rule map_range_cong) (use 2(3) in \<open>auto simp: remapped_def\<close>)
    moreover have "mappages_from pt a (a + Suc n * PGSIZE) pa perm s = Inr (r, s')"
      using 2(1,2) i(1) by (subst mappages_from.simps) (simp add: Let_def pte_of_def [symmetric] PGSIZE_def algebra_simps)
    ultimately show ?thesis using i(3) by (intro exI [of _ r] exI [of _ s'] exI [of _ "Suc k"]) auto
  qed
qed

text \<open>
  \<open>mappages\<close> on a well formed page table with an unmapped, aligned range never
  panics.  If it returns 0, every address of the range is mapped to its physical page with
  the given permissions and every other address is mapped as before; if it returns
  -1 the free memory is used up and a part of the range, from its start, has been mapped.
\<close>

theorem mappages_maps_range:
  assumes "kmem_ok s" "pt_ok s pt" "va mod PGSIZE = 0" "sz mod PGSIZE = 0" "0 < sz" "va + sz \<le> MAXVA"
    and "\<forall>v. va \<le> v \<and> v < va + sz \<longrightarrow> lookup s pt v = None"
  shows "\<exists>r s' n. mappages pt va sz pa perm s = Inr (r, s') \<and> kmem_ok s' \<and> pt_ok s' pt
    \<and> (\<forall>v < MAXVA. lookup s' pt v =
         (if va \<le> v \<and> v < va + n then Some (pte_of (pa + (PGROUNDDOWN v - va)) perm) else lookup s pt v))
    \<and> (r = 0 \<and> n = sz \<or> r = -1 \<and> n < sz \<and> free_pages s' = {})"
proof -
  obtain k where k: "sz = Suc k * PGSIZE"
    using assms(4,5) by (metis dvdE mod_0_imp_dvd mult.commute mult_0_right neq0_conv old.nat.exhaust)
  have f: "(va + sz - PGSIZE) mod 2 ^ 64 = va + k * PGSIZE"
    using assms(6) by (simp add: k MAXVA_def PGSIZE_def)
  have r: "lookup s pt (va + i * PGSIZE) = None" if "i \<le> k" for i
  proof -
    have "i * PGSIZE \<le> k * PGSIZE" using that by simp
    then have "va + i * PGSIZE < va + sz" by (simp add: k PGSIZE_def)
    then show ?thesis using assms(7) by auto
  qed
  have top: "va + k * PGSIZE < MAXVA" using assms(6) by (simp add: k PGSIZE_def)
  from mappages_from_spec [OF assms(1-3) top r, of pa perm]
  obtain r s' j where m: "mappages_from pt va (va + k * PGSIZE) pa perm s = Inr (r, s')"
    "remapped pt (map_range va pa perm j (leaf s pt)) s s'" "r = 0 \<and> j = Suc k \<or> r = -1 \<and> j \<le> k \<and> free_pages s' = {}" by blast
  have "j * PGSIZE \<le> sz" using m(3) unfolding k by (intro mult_le_mono1) auto
  then have "va + j * PGSIZE \<le> MAXVA" using assms(6) by simp
  then have "lookup s' pt v = (if va \<le> v \<and> v < va + j * PGSIZE then Some (pte_of (pa + (PGROUNDDOWN v - va)) perm) else lookup s pt v)"
    if "v < MAXVA" for v
    using m(2) vpath_leaf(1) [of v] map_range_lookup [OF assms(3) _ that] by (simp add: lookup_def remapped_def)
  moreover have "mappages pt va sz pa perm s = Inr (r, s')"
    using m(1) f assms(3-5) by (simp add: mappages_def)
  moreover have "r = 0 \<and> j * PGSIZE = sz \<or> r = -1 \<and> j * PGSIZE < sz \<and> free_pages s' = {}"
    using m(3) by (auto simp: k PGSIZE_def)
  ultimately show ?thesis using remapped_ok [OF m(2)] by blast
qed

section \<open>An empty page table\<close>

lemma fresh_table:
  assumes "managed s pt" "pt \<notin> free_pages s" "\<And>i. i < 512 \<Longrightarrow> entry s pt i = 0"
  shows "pt_ok s pt" "tables s pt = {pt}" "leaf_path q \<Longrightarrow> leaf s pt q = None"
proof -
  have t: "table s pt p = (if p = [] then Some pt else None)" if "path 2 p" for p
    using that by (induction p) (auto simp: path_def assms(3))
  show "tables s pt = {pt}" using t t [of "[]"] by (auto simp: tables_def path_def split: if_splits intro: exI [of _ "[]"])
  show "leaf s pt q = None" if "leaf_path q"
    using that by (rule leaf_path_split) (auto simp: leaf_Cons t)
  have "path 1 p \<Longrightarrow> path 2 p" for p by (erule path_mono) simp
  then show "pt_ok s pt" unfolding pt_ok_def using t assms by (auto split: if_splits)
qed

text \<open>A memory with an empty page table and two free pages.\<close>

definition mini_phys :: phys where
  "mini_phys = \<lparr>ram = write64 0x80001000 0x80002000 (\<lambda>x. 0), freelist = 0x80001000, kend = 0x80000000\<rparr>"

lemma mini_phys_ok: "kmem_ok mini_phys" "free_pages mini_phys = {0x80001000, 0x80002000}" "pt_ok mini_phys 0x80000000"
  "lookup mini_phys 0x80000000 v = None" "tables mini_phys 0x80000000 = {0x80000000}"
proof -
  have z: "read64 a (write64 0x80001000 0x80002000 (\<lambda>x. 0)) = 0" if "a + 8 \<le> 0x80001000 \<or> 0x80001008 \<le> a" for a
    using that by (subst read_write64_other) (auto intro: read64_zero)
  have f: "free_list mini_phys [0x80001000, 0x80002000]"
    by (simp add: free_list_def mini_phys_def managed_def PGSIZE_def PHYSTOP_def KERNBASE_def z)
  then show "kmem_ok mini_phys" by (auto simp: kmem_ok_def mini_phys_def)
  show fp: "free_pages mini_phys = {0x80001000, 0x80002000}" using free_list_pages [OF f] by simp
  have m: "managed mini_phys 0x80000000" by (simp add: managed_def mini_phys_def PGSIZE_def PHYSTOP_def KERNBASE_def)
  have e: "entry mini_phys 0x80000000 i = 0" if "i < 512" for i
    using that by (simp add: entry_def get_pte_def mini_phys_def z)
  have n: "0x80000000 \<notin> free_pages mini_phys" by (simp add: fp)
  note F = fresh_table [OF m n e]
  show "pt_ok mini_phys 0x80000000" "tables mini_phys 0x80000000 = {0x80000000}" using F(1,2) by auto
  show "lookup mini_phys 0x80000000 v = None" unfolding lookup_def by (rule F(3)) (auto simp: vpath_leaf)
qed

theorem mappages_maps_range_witness:
  "\<exists>r s'. mappages 0x80000000 0x2000 0x1000 0x87000000 PTE_R mini_phys = Inr (r, s')
     \<and> (r = 0 \<longrightarrow> lookup s' 0x80000000 0x2345 = Some (pte_of 0x87000000 PTE_R)) \<and> lookup s' 0x80000000 0x5000 = None"
proof -
  have c: "0x2000 mod PGSIZE = 0" "0x1000 mod PGSIZE = 0" "0 < (0x1000 :: nat)" "0x2000 + 0x1000 \<le> MAXVA"
    "PGROUNDDOWN 0x2345 = 0x2000" "0x2345 < MAXVA" "0x5000 < MAXVA"
    by (simp_all add: PGSIZE_def MAXVA_def PGROUNDDOWN_def)
  have "\<forall>v. 0x2000 \<le> v \<and> v < 0x2000 + 0x1000 \<longrightarrow> lookup mini_phys 0x80000000 v = None" using mini_phys_ok(4) by simp
  from mappages_maps_range [OF mini_phys_ok(1,3) c(1-4) this, where pa = "0x87000000" and perm = PTE_R]
  obtain r s' n where m: "mappages 0x80000000 0x2000 0x1000 0x87000000 PTE_R mini_phys = Inr (r, s')"
    "\<forall>v < MAXVA. lookup s' 0x80000000 v = (if 0x2000 \<le> v \<and> v < 0x2000 + n
       then Some (pte_of (0x87000000 + (PGROUNDDOWN v - 0x2000)) PTE_R) else lookup mini_phys 0x80000000 v)"
    "r = 0 \<and> n = 0x1000 \<or> r = -1 \<and> n < 0x1000 \<and> free_pages s' = {}" by blast
  then show ?thesis using c(5-7) mini_phys_ok(4) by auto
qed

end
