(* ===== verification/Vm_Space.thy ===== *)
theory Vm_Space
  imports Vm_Map
begin

text \<open>
  Address spaces: a page table together with the pages it maps.  The pages of the
  tree, the mapped pages and the free pages are kept apart, and the operations only
  move pages between the three, so no page is lost and none is used twice.
\<close>

definition as_ok :: "phys \<Rightarrow> nat \<Rightarrow> bool" where
  "as_ok s pt \<longleftrightarrow> kmem_ok s \<and> pt_ok s pt \<and> frames s pt \<inter> (tables s pt \<union> free_pages s) = {}
     \<and> (\<forall>q r e f. leaf_path q \<longrightarrow> leaf_path r \<longrightarrow> leaf s pt q = Some e \<longrightarrow> leaf s pt r = Some f \<longrightarrow>
          PTE2PA e = PTE2PA f \<longrightarrow> q = r)"

definition total :: "phys \<Rightarrow> nat \<Rightarrow> nat set" where
  "total s pt = tables s pt \<union> frames s pt \<union> free_pages s"

text \<open>A change of one address space that leaves the contents of the pages \<open>K\<close> alone.\<close>

definition space_step :: "nat \<Rightarrow> nat set \<Rightarrow> phys \<Rightarrow> phys \<Rightarrow> bool" where
  "space_step pt K s s' \<longleftrightarrow> as_ok s' pt \<and> kend s' = kend s \<and> total s' pt = total s pt
     \<and> same_outside (total s pt - K) s s'"

lemma space_step_refl: "as_ok s pt \<Longrightarrow> space_step pt K s s"
  by (simp add: space_step_def same_outside_refl)

lemma space_step_trans: "space_step pt K s t \<Longrightarrow> space_step pt K t u \<Longrightarrow> space_step pt K s u"
  unfolding space_step_def by (auto dest: same_outside_trans)

lemma space_step_mono: "space_step pt K s t \<Longrightarrow> L \<subseteq> K \<Longrightarrow> space_step pt L s t"
  unfolding space_step_def by (auto intro: same_outside_mono)

lemma PTE2PA_aligned: "PTE2PA e mod PGSIZE = 0"
proof -
  have "PTE2PA e = push_bit 12 (drop_bit 12 (PTE2PA e))"
  proof (rule bit_eqI)
    fix n
    have "n < 12 \<Longrightarrow> \<not> bit (PTE2PA e) n" by (simp add: PTE2PA_def bit_unsigned_iff bit_push_bit_iff)
    then show "bit (PTE2PA e) n \<longleftrightarrow> bit (push_bit 12 (drop_bit 12 (PTE2PA e))) n"
      by (cases "n < 12") (simp_all add: bit_push_bit_iff bit_drop_bit_eq)
  qed
  then have "PTE2PA e = drop_bit 12 (PTE2PA e) * PGSIZE" by (simp add: push_bit_eq_mult PGSIZE_def)
  then show ?thesis by (metis mod_mult_self2_is_0)
qed

lemma frame_aligned: "p \<in> frames s pt \<Longrightarrow> p mod PGSIZE = 0"
  by (auto simp: frames_def PTE2PA_aligned)

lemma framesI: "leaf_path q \<Longrightarrow> leaf s pt q = Some e \<Longrightarrow> PTE2PA e \<in> frames s pt"
  by (auto simp: frames_def)

definition perm_ok :: "uint64 \<Rightarrow> bool" where
  "perm_ok f \<longleftrightarrow> (\<forall>n \<ge> 10. \<not> bit f n)"

lemma PTE2PA_pte_of: "managed s p \<Longrightarrow> perm_ok f \<Longrightarrow> PTE2PA (pte_of p f) = p"
  unfolding pte_of_def using page_bound [of s p]
  by (intro PTE2PA_entry) (auto simp: managed_def perm_ok_def bit_or_iff PTE_consts_bit)

text \<open>When the tables, the free pages and the frames change together as stated, the space stays well formed.\<close>

lemma as_okI:
  assumes "kmem_ok s" "pt_ok s pt"
    and "\<And>q e. leaf_path q \<Longrightarrow> leaf s pt q = Some e \<Longrightarrow> PTE2PA e \<notin> tables s pt \<and> PTE2PA e \<notin> free_pages s"
    and "\<And>q r e f. leaf_path q \<Longrightarrow> leaf_path r \<Longrightarrow> leaf s pt q = Some e \<Longrightarrow> leaf s pt r = Some f \<Longrightarrow> PTE2PA e = PTE2PA f \<Longrightarrow> q = r"
  shows "as_ok s pt"
  unfolding as_ok_def using assms by (auto simp: frames_def)

lemma as_okD:
  assumes "as_ok s pt"
  shows "kmem_ok s" "pt_ok s pt" "leaf_path q \<Longrightarrow> leaf s pt q = Some e \<Longrightarrow> PTE2PA e \<notin> tables s pt"
    "leaf_path q \<Longrightarrow> leaf s pt q = Some e \<Longrightarrow> PTE2PA e \<notin> free_pages s"
    "leaf_path q \<Longrightarrow> leaf_path r \<Longrightarrow> leaf s pt q = Some e \<Longrightarrow> leaf s pt r = Some f \<Longrightarrow> PTE2PA e = PTE2PA f \<Longrightarrow> q = r"
  using assms unfolding as_ok_def by (auto simp: frames_def)

lemma tables_not_free: "pt_ok s pt \<Longrightarrow> tables s pt \<inter> free_pages s = {}"
  by (auto simp: tables_def dest: pt_okD(2))

lemma frames_remove:
  assumes "as_ok s pt" "leaf_path v" "leaf s pt v = Some e"
    and lf: "\<And>q. leaf_path q \<Longrightarrow> leaf s' pt q = (if q = v then None else leaf s pt q)"
  shows "frames s' pt = frames s pt - {PTE2PA e}"
proof (intro set_eqI iffI)
  fix p assume "p \<in> frames s' pt"
  then obtain q f where q: "leaf_path q" "leaf s' pt q = Some f" "p = PTE2PA f" by (auto simp: frames_def)
  then have "q \<noteq> v" "leaf s pt q = Some f" using lf [OF q(1)] by (auto split: if_splits)
  then show "p \<in> frames s pt - {PTE2PA e}" using q framesI as_okD(5) [OF assms(1) q(1) assms(2) _ assms(3)] by auto
next
  fix p assume "p \<in> frames s pt - {PTE2PA e}"
  then obtain q f where q: "leaf_path q" "leaf s pt q = Some f" "p = PTE2PA f" "p \<noteq> PTE2PA e" by (auto simp: frames_def)
  then have "leaf s' pt q = Some f" using lf [OF q(1)] assms(3) by auto
  then show "p \<in> frames s' pt" using q framesI by auto
qed

lemma frames_add:
  assumes "leaf_path v" "leaf s pt v = None"
    and lf: "\<And>q. leaf_path q \<Longrightarrow> leaf s' pt q = (if q = v then Some e else leaf s pt q)"
  shows "frames s' pt = insert (PTE2PA e) (frames s pt)"
proof (intro set_eqI iffI)
  fix p assume "p \<in> frames s' pt"
  then obtain q f where q: "leaf_path q" "leaf s' pt q = Some f" "p = PTE2PA f" by (auto simp: frames_def)
  then show "p \<in> insert (PTE2PA e) (frames s pt)" using lf [OF q(1)] framesI by (auto split: if_splits)
next
  fix p assume "p \<in> insert (PTE2PA e) (frames s pt)"
  moreover have "PTE2PA e \<in> frames s' pt" using lf [OF assms(1)] framesI [OF assms(1)] by simp
  moreover have "p \<in> frames s' pt" if "leaf_path q" "leaf s pt q = Some f" "p = PTE2PA f" for q f
    using lf [OF that(1)] that assms(2) framesI [OF that(1)] by (cases "q = v") auto
  ultimately show "p \<in> frames s' pt" by (auto simp: frames_def [of s])
qed

lemma as_ok_add:
  assumes "as_ok s pt" "kmem_ok s'" "pt_ok s' pt"
    and lf: "\<And>q. leaf_path q \<Longrightarrow> leaf s' pt q = (if q = v then Some e else leaf s pt q)"
    and "frames s' pt \<inter> (tables s' pt \<union> free_pages s') = {}" "PTE2PA e \<notin> frames s pt"
  shows "as_ok s' pt"
proof (rule as_okI [OF assms(2,3)])
  show "PTE2PA f \<notin> tables s' pt \<and> PTE2PA f \<notin> free_pages s'" if "leaf_path q" "leaf s' pt q = Some f" for q f
    using framesI [OF that] assms(5) by auto
  show "q = r" if q: "leaf_path q" "leaf_path r" "leaf s' pt q = Some f" "leaf s' pt r = Some g" "PTE2PA f = PTE2PA g" for q r f g
  proof (cases "q = v \<or> r = v")
    case True
    then show ?thesis using q lf [OF q(1)] lf [OF q(2)] framesI [OF q(1), of s pt f] framesI [OF q(2), of s pt g] assms(6)
      by (auto split: if_splits)
  next
    case False
    then show ?thesis using q lf as_okD(5) [OF assms(1) q(1,2) _ _ q(5)] by simp
  qed
qed

section \<open>Giving a page away\<close>

definition frame_of :: "phys \<Rightarrow> nat \<Rightarrow> nat \<Rightarrow> nat set" where
  "frame_of s pt va = (case lookup s pt va of None \<Rightarrow> {} | Some e \<Rightarrow> {PTE2PA e})"

lemma frames_unmapped:
  assumes "as_ok s pt" and lf: "\<And>q. leaf_path q \<Longrightarrow> leaf s' pt q = (if q = vpath a then None else leaf s pt q)"
  shows "frames s' pt = frames s pt - frame_of s pt a"
proof (cases "lookup s pt a")
  case None
  then have "leaf s' pt q = leaf s pt q" if "leaf_path q" for q using lf [OF that] by (auto simp: lookup_def)
  then show ?thesis using None frames_cong [of s' pt s] by (simp add: frame_of_def)
next
  case (Some e)
  then show ?thesis using frames_remove [OF assms(1) vpath_leaf(1) _ lf] by (simp add: frame_of_def lookup_def)
qed

lemma unmapped_walk:
  assumes "a < MAXVA"
  shows "lookup s pt a = None \<Longrightarrow> uvmunmap_page pt a do_free s = Inr s"
    and "lookup s pt a = Some e \<Longrightarrow> \<exists>t. table s pt [PX 1 a, PX 2 a] = Some t \<and> get_pte (t + 8 * PX 0 a) s = e \<and> has e PTE_V
      \<and> uvmunmap_page pt a do_free s =
          bindR (if do_free then kfree (PTE2PA e) s else Inr s) (\<lambda>s2. Inr (set_pte (t + 8 * PX 0 a) 0 s2))"
  using assms
  by (auto simp: uvmunmap_page_def walk_def walk_no_alloc lookup_def vpath_def leaf_Cons entry_def split: option.splits if_splits)

lemma uvmunmap_page_frees:
  assumes ok: "as_ok s pt" and a: "a < MAXVA" and m: "\<forall>p \<in> frame_of s pt a. managed s p"
  shows "\<exists>s'. uvmunmap_page pt a True s = Inr s' \<and> space_step pt (frames s pt - frame_of s pt a) s s'
    \<and> (\<forall>q. leaf_path q \<longrightarrow> leaf s' pt q = (if q = vpath a then None else leaf s pt q))
    \<and> tables s' pt = tables s pt \<and> free_pages s' = free_pages s \<union> frame_of s pt a"
proof (cases "lookup s pt a")
  case None
  then show ?thesis using unmapped_walk(1) [OF a None] space_step_refl [OF ok] by (auto simp: frame_of_def lookup_def)
next
  case (Some e)
  note A = as_okD [OF ok]
  let ?p = "PTE2PA e"
  have l: "leaf s pt (vpath a) = Some e" using Some by (simp add: lookup_def)
  have fo: "frame_of s pt a = {?p}" using Some by (simp add: frame_of_def)
  obtain t where t: "table s pt [PX 1 a, PX 2 a] = Some t"
    "uvmunmap_page pt a True s = bindR (kfree ?p s) (\<lambda>s2. Inr (set_pte (t + 8 * PX 0 a) 0 s2))"
    using unmapped_walk(2) [OF a Some, of True] by auto
  have p: "?p \<notin> tables s pt" "?p \<notin> free_pages s" using A(3,4) [OF vpath_leaf(1) l] by auto
  obtain s1 where s1: "kfree ?p s = Inr s1" "kmem_ok s1" "free_pages s1 = insert ?p (free_pages s)" "kend s1 = kend s" "same_outside {?p} s s1"
    using kfree_spec [OF A(1) _ p(2)] m fo by auto
  have d: "{?p} \<inter> tables s pt = {}" "free_pages s1 \<inter> tables s pt = {}" using p(1) s1(3) tables_not_free [OF A(2)] by auto
  have ok1: "pt_ok s1 pt" by (rule pt_ok_frame [OF A(2) s1(5) d s1(4)])
  have tab1: "table s1 pt q = table s pt q" if "path 2 q" for q by (rule table_frame [OF A(2) s1(5) d(1) that])
  have lf1: "leaf s1 pt q = leaf s pt q" if "leaf_path q" for q by (rule leaf_frame [OF A(2) s1(5) d(1) that])
  have P: "length [PX 1 a, PX 2 a] = 2" "path 2 [PX 1 a, PX 2 a]" by (simp_all add: path_def PX_less)
  have t1: "table s1 pt [PX 1 a, PX 2 a] = Some t" using tab1 [OF P(2)] t(1) by simp
  let ?s2 = "set_pte (t + 8 * PX 0 a) 0 s1"
  note L = set_leaf [OF s1(2) ok1 P t1 PX_less [of 0 a], where v = 0]
  have lf: "leaf ?s2 pt q = (if q = vpath a then None else leaf s pt q)" if "leaf_path q" for q
    using L(5) [OF that] lf1 [OF that] by (simp add: vpath_def)
  have tabs: "tables ?s2 pt = tables s pt" by (rule tables_cong) (simp add: L(4) tab1)
  have fr: "frames ?s2 pt = frames s pt - {?p}" by (rule frames_remove [OF ok vpath_leaf(1) l lf])
  have free: "free_pages ?s2 = insert ?p (free_pages s)" using L(2) s1(3) by simp
  have "as_ok ?s2 pt"
  proof (rule as_okI [OF L(1,3)])
    show "PTE2PA f \<notin> tables ?s2 pt \<and> PTE2PA f \<notin> free_pages ?s2" if "leaf_path q" "leaf ?s2 pt q = Some f" for q f
    proof -
      have q: "q \<noteq> vpath a" "leaf s pt q = Some f" using that lf [OF that(1)] by (auto split: if_splits)
      then have "PTE2PA f \<noteq> ?p" using A(5) [OF that(1) vpath_leaf(1) q(2) l] by blast
      then show ?thesis using A(3,4) [OF that(1) q(2)] unfolding tabs free by simp
    qed
    show "q = r" if "leaf_path q" "leaf_path r" "leaf ?s2 pt q = Some f" "leaf ?s2 pt r = Some g" "PTE2PA f = PTE2PA g" for q r f g
      using that(3,4) lf [OF that(1)] lf [OF that(2)] A(5) [OF that(1,2) _ _ that(5)] by (simp split: if_splits)
  qed
  moreover have "t \<in> tables s pt" using tablesI [OF P(2) t(1)] .
  then have "{?p} \<union> {t} \<subseteq> total s pt - (frames s pt - {?p})"
    using ok framesI [OF vpath_leaf(1) l] by (auto simp: total_def as_ok_def)
  then have "same_outside (total s pt - (frames s pt - {?p})) s ?s2"
    by (rule same_outside_mono [OF same_outside_trans [OF s1(5) L(6)]])
  moreover have "total ?s2 pt = total s pt"
    using framesI [OF vpath_leaf(1) l] by (auto simp: total_def tabs fr free)
  ultimately have "space_step pt (frames s pt - frame_of s pt a) s ?s2" using s1(4) by (simp add: space_step_def fo)
  then show ?thesis using t(2) s1(1) lf tabs free fo by auto
qed

text \<open>The paths and the mapped pages of \<open>n\<close> pages from \<open>a\<close>.\<close>

definition in_range :: "nat \<Rightarrow> nat \<Rightarrow> path \<Rightarrow> bool" where
  "in_range a n q \<longleftrightarrow> (\<exists>i < n. q = vpath (a + i * PGSIZE))"

definition range_frames :: "phys \<Rightarrow> nat \<Rightarrow> nat \<Rightarrow> nat \<Rightarrow> nat set" where
  "range_frames s pt a n = (\<Union>i < n. frame_of s pt (a + i * PGSIZE))"

lemma in_range_Suc: "in_range a (Suc n) q \<longleftrightarrow> q = vpath a \<or> in_range (a + PGSIZE) n q"
proof -
  have "a + PGSIZE + i * PGSIZE = a + Suc i * PGSIZE" for i by simp
  then show ?thesis unfolding in_range_def using less_Suc_eq_0_disj by (metis add.right_neutral mult_0)
qed

lemma range_frames_Suc: "range_frames s pt a (Suc n) = frame_of s pt a \<union> range_frames s pt (a + PGSIZE) n"
proof -
  have "{..<Suc n} = insert 0 (Suc ` {..<n})" by (auto simp: less_Suc_eq_0_disj image_iff)
  then show ?thesis by (simp add: range_frames_def algebra_simps)
qed

lemma frame_of_frames: "frame_of s pt a \<subseteq> frames s pt"
  using framesI [OF vpath_leaf(1)] by (auto simp: frame_of_def lookup_def split: option.splits)

lemma range_frames_frames: "range_frames s pt a n \<subseteq> frames s pt"
  unfolding range_frames_def using frame_of_frames by fast

lemma frame_of_cong: "(\<And>q. leaf_path q \<Longrightarrow> leaf s' pt q = leaf s pt q) \<Longrightarrow> frame_of s' pt a = frame_of s pt a"
  by (simp add: frame_of_def lookup_def vpath_leaf)

lemma range_frames_cong: "(\<And>q. leaf_path q \<Longrightarrow> leaf s' pt q = leaf s pt q) \<Longrightarrow> range_frames s' pt a n = range_frames s pt a n"
  unfolding range_frames_def using frame_of_cong [of s' pt s] by simp

lemma space_step_managed: "space_step pt K s s' \<Longrightarrow> managed s' p = managed s p"
  by (simp add: space_step_def managed_def)

lemma vpath_step:
  assumes "a mod PGSIZE = 0" "a + Suc n * PGSIZE \<le> MAXVA" "i < n"
  shows "vpath (a + PGSIZE + i * PGSIZE) \<noteq> vpath a"
proof -
  have "i * PGSIZE < n * PGSIZE" using assms(3) by (simp add: PGSIZE_def)
  then have b: "a + PGSIZE + i * PGSIZE < MAXVA" "a < MAXVA" using assms(2) by (auto simp: PGSIZE_def)
  have "(a + PGSIZE + i * PGSIZE) mod PGSIZE = 0" using assms(1) by simp
  then show ?thesis using vpath_eq [OF b(2,1) assms(1)] page_self by (auto simp: PGSIZE_def)
qed

lemma uvmunmap_from_frees:
  assumes "as_ok s pt" "a mod PGSIZE = 0" "a + n * PGSIZE \<le> MAXVA" "\<forall>p \<in> range_frames s pt a n. managed s p"
  shows "\<exists>s'. uvmunmap_from pt a (a + n * PGSIZE) True s = Inr s' \<and> space_step pt (frames s pt - range_frames s pt a n) s s'
    \<and> (\<forall>q. leaf_path q \<longrightarrow> leaf s' pt q = (if in_range a n q then None else leaf s pt q))
    \<and> tables s' pt = tables s pt \<and> free_pages s' = free_pages s \<union> range_frames s pt a n"
  using assms
proof (induction n arbitrary: a s)
  case 0
  then show ?case using space_step_refl by (subst uvmunmap_from.simps) (auto simp: in_range_def range_frames_def)
next
  case (Suc n)
  have a: "a < MAXVA" using Suc.prems(3) by (simp add: PGSIZE_def)
  have "\<forall>p \<in> frame_of s pt a. managed s p" using Suc.prems(4) by (simp add: range_frames_Suc)
  from uvmunmap_page_frees [OF Suc.prems(1) a this] obtain s1 where
    s1: "uvmunmap_page pt a True s = Inr s1" "space_step pt (frames s pt - frame_of s pt a) s s1"
      "\<And>q. leaf_path q \<Longrightarrow> leaf s1 pt q = (if q = vpath a then None else leaf s pt q)"
      "tables s1 pt = tables s pt" "free_pages s1 = free_pages s \<union> frame_of s pt a" by blast
  have r: "range_frames s1 pt (a + PGSIZE) n = range_frames s pt (a + PGSIZE) n"
    unfolding range_frames_def frame_of_def lookup_def
    using s1(3) [OF vpath_leaf(1)] vpath_step [OF Suc.prems(2,3)] by (intro SUP_cong) auto
  have ok1: "as_ok s1 pt" using s1(2) by (simp add: space_step_def)
  have "(a + PGSIZE) mod PGSIZE = 0" "a + PGSIZE + n * PGSIZE \<le> MAXVA" "\<forall>p \<in> range_frames s1 pt (a + PGSIZE) n. managed s1 p"
    using Suc.prems(2-4) r space_step_managed [OF s1(2)] by (simp_all add: range_frames_Suc)
  from Suc.IH [OF ok1 this] obtain s' where
    s': "uvmunmap_from pt (a + PGSIZE) (a + PGSIZE + n * PGSIZE) True s1 = Inr s'"
      "space_step pt (frames s1 pt - range_frames s1 pt (a + PGSIZE) n) s1 s'"
      "\<And>q. leaf_path q \<Longrightarrow> leaf s' pt q = (if in_range (a + PGSIZE) n q then None else leaf s1 pt q)"
      "tables s' pt = tables s1 pt" "free_pages s' = free_pages s1 \<union> range_frames s1 pt (a + PGSIZE) n" by blast
  let ?K = "frames s pt - range_frames s pt a (Suc n)"
  have f1: "frames s1 pt = frames s pt - frame_of s pt a" by (rule frames_unmapped [OF Suc.prems(1) s1(3)])
  have "space_step pt ?K s s1" using s1(2) by (rule space_step_mono) (auto simp: range_frames_Suc)
  moreover have "space_step pt ?K s1 s'" using s'(2) by (rule space_step_mono) (auto simp: range_frames_Suc f1 r)
  ultimately have "space_step pt ?K s s'" by (rule space_step_trans)
  moreover have "uvmunmap_from pt a (a + Suc n * PGSIZE) True s = Inr s'"
    using s1(1) s'(1) by (subst uvmunmap_from.simps) (simp add: PGSIZE_def algebra_simps)
  moreover have "\<forall>q. leaf_path q \<longrightarrow> leaf s' pt q = (if in_range a (Suc n) q then None else leaf s pt q)"
    using s'(3) s1(3) by (simp add: in_range_Suc)
  ultimately show ?case using s1(4,5) s'(4,5) r by (auto simp: range_frames_Suc)
qed

lemma in_range_vpath:
  assumes "a mod PGSIZE = 0" "a + n * PGSIZE \<le> MAXVA" "v < MAXVA"
  shows "in_range a n (vpath v) \<longleftrightarrow> a \<le> v \<and> v < a + n * PGSIZE"
  using assms
proof (induction n arbitrary: a)
  case (Suc n)
  let ?d = "PGROUNDDOWN v"
  have d: "?d \<le> v" "v < ?d + PGSIZE" "?d mod PGSIZE = 0" using in_page [of v ?d] by (simp_all add: PGROUNDDOWN_def)
  have a: "a < MAXVA" using Suc.prems(2) by (simp add: PGSIZE_def)
  have "in_range (a + PGSIZE) n (vpath v) \<longleftrightarrow> a + PGSIZE \<le> v \<and> v < a + PGSIZE + n * PGSIZE"
    using Suc.prems by (intro Suc.IH) simp_all
  moreover have "vpath v = vpath a \<longleftrightarrow> a \<le> v \<and> v < a + PGSIZE"
    using vpath_eq [OF a Suc.prems(3,1)] d page_of [OF Suc.prems(1), of v] by auto
  ultimately show ?case by (auto simp: in_range_Suc PGSIZE_def)
qed (auto simp: in_range_def)

text \<open>
  unmapping with \<open>do_free\<close> never panics when the pages mapped in the range came
  from the allocator: afterwards exactly the range is unmapped, the pages it mapped are
  free, once each, and the contents of every other mapped page are as before.
\<close>

theorem uvmunmap_frees_range:
  assumes "as_ok s pt" "va mod PGSIZE = 0" "va + n * PGSIZE \<le> MAXVA" "\<forall>p \<in> range_frames s pt va n. managed s p"
  shows "\<exists>s'. uvmunmap pt va n True s = Inr s' \<and> as_ok s' pt
    \<and> (\<forall>v < MAXVA. lookup s' pt v = (if va \<le> v \<and> v < va + n * PGSIZE then None else lookup s pt v))
    \<and> free_pages s' = free_pages s \<union> range_frames s pt va n \<and> range_frames s pt va n \<inter> free_pages s = {}
    \<and> (\<forall>x. PGROUNDDOWN x \<in> frames s' pt \<longrightarrow> ram s' x = ram s x)"
proof -
  from uvmunmap_from_frees [OF assms] obtain s' where
    s': "uvmunmap_from pt va (va + n * PGSIZE) True s = Inr s'" "space_step pt (frames s pt - range_frames s pt va n) s s'"
      "\<And>q. leaf_path q \<Longrightarrow> leaf s' pt q = (if in_range va n q then None else leaf s pt q)"
      "tables s' pt = tables s pt" "free_pages s' = free_pages s \<union> range_frames s pt va n" by blast
  have m: "(va + n * PGSIZE) mod 2 ^ 64 = va + n * PGSIZE" using assms(3) by (simp add: MAXVA_def)
  have l: "lookup s' pt v = (if va \<le> v \<and> v < va + n * PGSIZE then None else lookup s pt v)" if "v < MAXVA" for v
    using s'(3) [OF vpath_leaf(1)] in_range_vpath [OF assms(2,3) that] by (simp add: lookup_def)
  have ok': "as_ok s' pt" using s'(2) by (simp add: space_step_def)
  have "frames s' pt \<inter> free_pages s' = {}" using ok' by (auto simp: as_ok_def)
  then have d: "frames s' pt \<inter> range_frames s pt va n = {}" using s'(5) by auto
  have "frames s' pt \<subseteq> frames s pt" using s'(3) framesI by (fastforce simp: frames_def [of s'] split: if_splits)
  then have "ram s' x = ram s x" if "PGROUNDDOWN x \<in> frames s' pt" for x
    using s'(2) that d by (auto simp: space_step_def same_outside_def)
  moreover have "range_frames s pt va n \<inter> free_pages s = {}"
    using assms(1) range_frames_frames [of s pt va n] by (auto simp: as_ok_def)
  ultimately show ?thesis using s'(1,5) m l ok' assms(2) by (auto simp: uvmunmap_def)
qed

lemma mini_phys_space: "as_ok mini_phys 0x80000000" "frames mini_phys 0x80000000 = {}"
  "total mini_phys 0x80000000 = {0x80000000, 0x80001000, 0x80002000}"
proof -
  have none: "leaf mini_phys 0x80000000 q = None" if "leaf_path q" for q
  proof -
    have "entry mini_phys 0x80000000 i = 0" if "i < 512" for i
      using that unfolding entry_def get_pte_def mini_phys_def by (simp add: read_write64_other read64_zero)
    then show ?thesis using that mini_phys_ok(2) by (intro fresh_table(3)) (auto simp: managed_def mini_phys_def PGSIZE_def PHYSTOP_def KERNBASE_def)
  qed
  then show f: "frames mini_phys 0x80000000 = {}" by (auto simp: frames_def)
  show "as_ok mini_phys 0x80000000" using mini_phys_ok(1,3) none by (intro as_okI) auto
  show "total mini_phys 0x80000000 = {0x80000000, 0x80001000, 0x80002000}" using mini_phys_ok(2,5) f by (auto simp: total_def)
qed

theorem uvmunmap_frees_range_witness:
  "\<exists>s'. uvmunmap 0x80000000 0x3000 2 True mini_phys = Inr s' \<and> as_ok s' 0x80000000 \<and> free_pages s' = {0x80001000, 0x80002000}"
proof -
  have r: "range_frames mini_phys 0x80000000 0x3000 2 = {}" using range_frames_frames [of mini_phys "0x80000000"] mini_phys_space(2) by auto
  have "0x3000 mod PGSIZE = 0" "0x3000 + 2 * PGSIZE \<le> MAXVA" by (simp_all add: PGSIZE_def MAXVA_def)
  from uvmunmap_frees_range [OF mini_phys_space(1) this] r mini_phys_ok(2) show ?thesis by auto
qed

section \<open>Adding a page\<close>

text \<open>
  A page from the allocator, filled (\<open>s2\<close>), is mapped at the unmapped address \<open>a\<close>; if there is
  no memory for the tables it goes back.
\<close>

lemma alloc_fill:
  assumes ok: "as_ok s pt" and k: "kalloc s = (page, s1)" "page \<noteq> 0"
    and s2: "same_outside {page} s1 s2" "freelist s2 = freelist s1" "kend s2 = kend s1"
  shows "kmem_ok s2" "free_pages s2 = free_pages s - {page}" "kend s2 = kend s" "pt_ok s2 pt" "tables s2 pt = tables s pt"
    "\<And>q. leaf_path q \<Longrightarrow> leaf s2 pt q = leaf s pt q" "same_outside {page} s s2"
    "page \<notin> tables s pt" "page \<notin> frames s pt" "page \<in> free_pages s" "managed s page"
proof -
  note A = as_okD [OF ok]
  note K = kalloc_spec [OF A(1) k]
  have pt: "{page} \<inter> tables s pt = {}" using K(2) tables_not_free [OF A(2)] by auto
  show "page \<notin> tables s pt" "page \<notin> frames s pt" "page \<in> free_pages s" "managed s page"
    using pt K(2,4) ok by (auto simp: as_ok_def)
  show o2: "same_outside {page} s s2" using same_outside_trans [OF K(6) s2(1)] by simp
  show f2: "kmem_ok s2" "free_pages s2 = free_pages s - {page}"
    using free_frame [OF K(1) s2(1) _ s2(2,3)] K(3) by auto
  show e2: "kend s2 = kend s" using s2(3) K(5) by simp
  show "pt_ok s2 pt" using pt_ok_frame [OF A(2) o2 pt _ e2] f2(2) tables_not_free [OF A(2)] by auto
  show "tables s2 pt = tables s pt" by (rule tables_cong) (rule table_frame [OF A(2) o2 pt])
  show "\<And>q. leaf_path q \<Longrightarrow> leaf s2 pt q = leaf s pt q" by (rule leaf_frame [OF A(2) o2 pt])
qed

text \<open>The tables did not get the memory: the page goes back.\<close>

lemma alloc_undo:
  assumes ok: "as_ok s pt" and R: "kmem_ok s3" "pt_ok s3 pt" "kend s3 = kend s"
    and lf3: "\<And>q. leaf_path q \<Longrightarrow> leaf s3 pt q = leaf s pt q"
    and tf: "tables s3 pt \<union> free_pages s3 = tables s pt \<union> (free_pages s - {page})"
    and o3: "same_outside (total s pt - frames s pt) s s3"
    and page: "managed s page" "page \<in> free_pages s" "page \<notin> tables s pt"
  shows "\<exists>s4. kfree page s3 = Inr s4 \<and> space_step pt (frames s pt) s s4 \<and> (\<forall>q. leaf_path q \<longrightarrow> leaf s4 pt q = leaf s pt q)"
proof -
  have notin: "page \<notin> tables s3 pt" "page \<notin> free_pages s3" using tf page(3) by auto
  have "managed s3 page" using page(1) R(3) by (simp add: managed_def)
  from kfree_spec [OF R(1) this notin(2)] obtain s4 where s4: "kfree page s3 = Inr s4" "kmem_ok s4"
    "free_pages s4 = insert page (free_pages s3)" "kend s4 = kend s3" "same_outside {page} s3 s4" by blast
  have p4: "{page} \<inter> tables s3 pt = {}" "free_pages s4 \<inter> tables s3 pt = {}" using notin s4(3) tables_not_free [OF R(2)] by auto
  have ok4: "pt_ok s4 pt" by (rule pt_ok_frame [OF R(2) s4(5) p4 s4(4)])
  have lf: "\<And>q. leaf_path q \<Longrightarrow> leaf s4 pt q = leaf s pt q" using leaf_frame [OF R(2) s4(5) p4(1)] lf3 by simp
  have tab4: "tables s4 pt = tables s3 pt" by (intro tables_cong) (rule table_frame [OF R(2) s4(5) p4(1)])
  have fr4: "frames s4 pt = frames s pt" by (rule frames_cong [OF lf])
  have tot: "tables s4 pt \<union> free_pages s4 = tables s pt \<union> free_pages s" using tf tab4 s4(3) page(2) by auto
  have "as_ok s4 pt" unfolding as_ok_def fr4 tot using s4(2) ok4 ok lf by (simp add: as_ok_def)
  moreover have "(total s pt - frames s pt) \<union> {page} \<subseteq> total s pt - frames s pt" using page(2) ok by (auto simp: total_def as_ok_def)
  then have "same_outside (total s pt - frames s pt) s s4" by (rule same_outside_mono [OF same_outside_trans [OF o3 s4(5)]])
  moreover have "total s4 pt = total s pt" using tot fr4 by (auto simp: total_def)
  ultimately have "space_step pt (frames s pt) s s4" using R(3) s4(4) by (simp add: space_step_def)
  then show ?thesis using s4(1) lf by blast
qed

lemma alloc_map:
  assumes ok: "as_ok s pt" and a: "a mod PGSIZE = 0" "a < MAXVA" "lookup s pt a = None" and perm: "perm_ok perm"
    and k: "kalloc s = (page, s1)" "page \<noteq> 0"
    and s2: "same_outside {page} s1 s2" "freelist s2 = freelist s1" "kend s2 = kend s1"
  obtains s3 where "mappages pt a PGSIZE page perm s2 = Inr (0, s3)" "space_step pt (frames s pt) s s3"
      "\<And>q. leaf_path q \<Longrightarrow> leaf s3 pt q = (if q = vpath a then Some (pte_of page perm) else leaf s pt q)"
      "\<And>x. PGROUNDDOWN x = page \<Longrightarrow> ram s3 x = ram s2 x" "frames s3 pt = insert page (frames s pt)"
      "free_pages s3 \<subseteq> free_pages s"
  | s3 s4 where "mappages pt a PGSIZE page perm s2 = Inr (-1, s3)" "kfree page s3 = Inr s4" "space_step pt (frames s pt) s s4"
      "\<And>q. leaf_path q \<Longrightarrow> leaf s4 pt q = leaf s pt q"
proof -
  note F = alloc_fill [OF ok k s2]
  have "lookup s2 pt (a + i * PGSIZE) = None" if "i \<le> 0" for i using that a(3) F(6) [OF vpath_leaf(1)] by (simp add: lookup_def)
  from mappages_from_spec [OF F(1,4) a(1) _ this, where n = 0 and pa = page and perm = perm] a(2)
  obtain r s3 j where m: "mappages_from pt a a page perm s2 = Inr (r, s3)" "remapped pt (map_range a page perm j (leaf s2 pt)) s2 s3"
    "r = 0 \<and> j = Suc 0 \<or> r = -1 \<and> j = 0" by auto
  have mp: "mappages pt a PGSIZE page perm s2 = Inr (r, s3)"
    using m(1) a(1,2) by (simp add: mappages_def PGSIZE_def MAXVA_def)
  note R = m(2) [unfolded remapped_def F(2,3,5)]
  have "{page} \<union> (tables s pt \<union> (free_pages s - {page})) \<subseteq> total s pt - frames s pt" using F(10) ok by (auto simp: total_def as_ok_def)
  moreover have "same_outside (tables s pt \<union> (free_pages s - {page})) s2 s3" using R by simp
  ultimately have o3: "same_outside (total s pt - frames s pt) s s3"
    by (intro same_outside_mono [OF same_outside_trans [OF F(7)]])
  show thesis
  proof (cases "r = 0")
    case True
    then have lf: "leaf s3 pt q = (if q = vpath a then Some (pte_of page perm) else leaf s pt q)" if "leaf_path q" for q
      using R m(3) that F(6) [OF that] by auto
    have v: "PTE2PA (pte_of page perm) = page" by (rule PTE2PA_pte_of [OF F(11) perm])
    have fr: "frames s3 pt = insert page (frames s pt)"
      using frames_add [OF vpath_leaf(1) _ lf] a(3) v by (simp add: lookup_def)
    have "frames s pt \<inter> (tables s pt \<union> free_pages s) = {}" using ok by (simp add: as_ok_def)
    then have "frames s3 pt \<inter> (tables s3 pt \<union> free_pages s3) = {}" using R F(8) unfolding fr by auto
    then have "as_ok s3 pt" using R F(9) v by (intro as_ok_add [OF ok _ _ lf]) auto
    moreover have "total s3 pt = total s pt" using R F(10) by (auto simp: total_def fr)
    ultimately have st: "space_step pt (frames s pt) s s3" using o3 R by (simp add: space_step_def)
    have "ram s3 x = ram s2 x" if "PGROUNDDOWN x = page" for x using R that F(8) by (auto simp: same_outside_def)
    moreover have "free_pages s3 \<subseteq> free_pages s" using R by auto
    ultimately show thesis using that(1) [OF _ st lf _ fr] mp True by simp
  next
    case False
    then have r: "r = -1" "j = 0" using m(3) by auto
    have "\<And>q. leaf_path q \<Longrightarrow> leaf s3 pt q = leaf s pt q" using R F(6) r(2) by simp
    from alloc_undo [OF ok _ _ _ this _ o3 F(11,10,8)] R obtain s4 where
      "kfree page s3 = Inr s4" "space_step pt (frames s pt) s s4" "\<And>q. leaf_path q \<Longrightarrow> leaf s4 pt q = leaf s pt q" by auto
    then show thesis using that(2) mp r by simp
  qed
qed

end
