(* ===== verification/Vm_Grow.thy ===== *)
theory Vm_Grow
  imports Vm_Space
begin

text \<open>
  Growing and shrinking a process (\<open>uvmalloc\<close>, \<open>uvmdealloc\<close>, \<open>growproc\<close>): growing adds
  zeroed pages or, if the memory runs out, takes back what it had added.
\<close>

section \<open>Shrinking\<close>

lemma PGROUNDUP_aligned: "a mod PGSIZE = 0 \<Longrightarrow> a \<le> MAXVA \<Longrightarrow> PGROUNDUP a = a"
  by (auto simp: PGROUNDUP_def PGSIZE_def MAXVA_def)

lemma int_npages: "n < 2 ^ 31 \<Longrightarrow> unat (signed_take_bit 31 (of_nat n :: uint64)) = n"
proof -
  assume n: "n < 2 ^ 31"
  have "\<not> bit n 31" using n by (metis bit_take_bit_iff less_irrefl take_bit_nat_eq_self)
  then have "\<not> bit (of_nat n :: uint64) 31" by (simp add: bit_of_nat_iff)
  then have "signed_take_bit 31 (of_nat n :: uint64) = take_bit 31 (of_nat n)" by (rule signed_take_bit_eq_if_positive)
  also have "\<dots> = of_nat n" using n by (simp add: take_bit_of_nat take_bit_nat_eq_self)
  finally show ?thesis using n by (simp add: unat_of_nat take_bit_nat_eq_self)
qed

lemma uvmdealloc_frees:
  assumes ok: "as_ok s pt" and b: "b mod PGSIZE = 0" "b + i * PGSIZE \<le> MAXVA" and m: "\<forall>p \<in> range_frames s pt b i. managed s p"
  shows "\<exists>r s'. uvmdealloc pt (b + i * PGSIZE) b s = Inr (r, s') \<and> space_step pt (frames s pt - range_frames s pt b i) s s'
    \<and> (\<forall>q. leaf_path q \<longrightarrow> leaf s' pt q = (if in_range b i q then None else leaf s pt q))"
proof (cases "i = 0")
  case True
  then show ?thesis using space_step_refl [OF ok] by (auto simp: uvmdealloc_def in_range_def)
next
  case False
  from uvmunmap_from_frees [OF ok b m] obtain s' where
    s': "uvmunmap_from pt b (b + i * PGSIZE) True s = Inr s'" "space_step pt (frames s pt - range_frames s pt b i) s s'"
      "\<forall>q. leaf_path q \<longrightarrow> leaf s' pt q = (if in_range b i q then None else leaf s pt q)" by blast
  have al: "(b + i * PGSIZE) mod PGSIZE = 0" using b(1) by simp
  have r: "PGROUNDUP b = b" "PGROUNDUP (b + i * PGSIZE) = b + i * PGSIZE"
    using PGROUNDUP_aligned [OF al b(2)] PGROUNDUP_aligned [OF b(1)] b(2) by simp_all
  have "i < 2 ^ 31" using b(2) by (simp add: MAXVA_def PGSIZE_def)
  then have n: "unat (signed_take_bit 31 (of_nat ((b + i * PGSIZE - b) div PGSIZE) :: uint64)) = i"
    using int_npages by (simp add: PGSIZE_def)
  have "(b + i * PGSIZE) mod 2 ^ 64 = b + i * PGSIZE" using b(2) by (simp add: MAXVA_def)
  then have "uvmdealloc pt (b + i * PGSIZE) b s = Inr (b, s')"
    using False r n s'(1) b(1) by (simp add: uvmdealloc_def uvmunmap_def Let_def PGSIZE_def)
  then show ?thesis using s' by blast
qed

section \<open>Growing\<close>

definition zero_page :: "phys \<Rightarrow> nat \<Rightarrow> bool" where
  "zero_page s p \<longleftrightarrow> (\<forall>x. PGROUNDDOWN x = p \<longrightarrow> ram s x = 0)"

lemma space_step_zero:
  assumes "space_step pt K s s'" "p \<in> K" "zero_page s p"
  shows "zero_page s' p"
  using assms by (auto simp: zero_page_def space_step_def same_outside_def)

text \<open>Pages \<open>i\<close> to \<open>n\<close> from \<open>b\<close> have been added, the others are as before.\<close>

definition added :: "nat \<Rightarrow> nat \<Rightarrow> nat \<Rightarrow> nat \<Rightarrow> uint64 \<Rightarrow> phys \<Rightarrow> phys \<Rightarrow> bool" where
  "added pt b i n perm s s' \<longleftrightarrow> space_step pt (frames s pt) s s'
     \<and> (\<forall>q. leaf_path q \<longrightarrow> \<not> in_range (b + i * PGSIZE) (n - i) q \<longrightarrow> leaf s' pt q = leaf s pt q)
     \<and> (\<forall>q. in_range (b + i * PGSIZE) (n - i) q \<longrightarrow>
          (\<exists>page. page \<in> free_pages s \<and> leaf s' pt q = Some (pte_of page perm) \<and> zero_page s' page))"

definition restored :: "nat \<Rightarrow> nat \<Rightarrow> nat \<Rightarrow> phys \<Rightarrow> phys \<Rightarrow> bool" where
  "restored pt b i s s' \<longleftrightarrow> space_step pt (frames s pt - range_frames s pt b i) s s'
     \<and> (\<forall>q. leaf_path q \<longrightarrow> leaf s' pt q = (if in_range b i q then None else leaf s pt q))"

lemma uvmdealloc_restored:
  assumes "as_ok s pt" "space_step pt (frames s pt) s t" "\<And>q. leaf_path q \<Longrightarrow> leaf t pt q = leaf s pt q"
    and b: "b mod PGSIZE = 0" "b + i * PGSIZE \<le> MAXVA" and m: "\<forall>p \<in> range_frames s pt b i. managed s p"
  shows "\<exists>r s'. uvmdealloc pt (b + i * PGSIZE) b t = Inr (r, s') \<and> restored pt b i s s'"
proof -
  have r: "range_frames t pt b i = range_frames s pt b i" "frames t pt = frames s pt"
    using range_frames_cong frames_cong assms(3) by blast+
  have t: "as_ok t pt" "\<forall>p \<in> range_frames t pt b i. managed t p"
    using assms(2) m r space_step_managed [OF assms(2)] by (auto simp: space_step_def)
  from uvmdealloc_frees [OF t(1) b t(2)] obtain k s' where
    u: "uvmdealloc pt (b + i * PGSIZE) b t = Inr (k, s')" "space_step pt (frames s pt - range_frames s pt b i) t s'"
      "\<forall>q. leaf_path q \<longrightarrow> leaf s' pt q = (if in_range b i q then None else leaf t pt q)" unfolding r by blast
  have "space_step pt (frames s pt - range_frames s pt b i) s s'"
    by (rule space_step_trans [OF space_step_mono [OF assms(2)] u(2)]) auto
  then show ?thesis using u(1,3) assms(3) by (auto simp: restored_def)
qed

lemma range_frames_snoc: "range_frames s pt b (Suc i) = range_frames s pt b i \<union> frame_of s pt (b + i * PGSIZE)"
  by (auto simp: range_frames_def lessThan_Suc)

lemma in_range_snoc: "in_range b (Suc i) q \<longleftrightarrow> in_range b i q \<or> q = vpath (b + i * PGSIZE)"
  by (auto simp: in_range_def less_Suc_eq)

lemma page_paths:
  assumes "b mod PGSIZE = 0" "b + i * PGSIZE < MAXVA" "b + j * PGSIZE < MAXVA" "i \<noteq> j"
  shows "vpath (b + j * PGSIZE) \<noteq> vpath (b + i * PGSIZE)"
proof -
  have "(b + i * PGSIZE) mod PGSIZE = 0" "(b + j * PGSIZE) mod PGSIZE = 0" using assms(1) by simp_all
  then show ?thesis using vpath_eq [OF assms(2,3)] page_self assms(4) by (auto simp: PGSIZE_def)
qed

text \<open>The state after one more page.\<close>

lemma added_one:
  assumes b: "b mod PGSIZE = 0" and far: "\<And>j. j < n \<Longrightarrow> b + j * PGSIZE < MAXVA" and i: "i < n"
    and st: "space_step pt (frames s pt) s s3" and fr: "frames s3 pt = insert page (frames s pt)" and free: "free_pages s3 \<subseteq> free_pages s"
    and lf: "\<And>q. leaf_path q \<Longrightarrow> leaf s3 pt q = (if q = vpath (b + i * PGSIZE) then Some (pte_of page perm) else leaf s pt q)"
    and pg: "page \<in> free_pages s" "zero_page s3 page"
    and ad: "added pt b (Suc i) n perm s3 s'"
  shows "added pt b i n perm s s'"
proof -
  let ?a = "b + i * PGSIZE"
  have n: "n - i = Suc (n - Suc i)" using i by simp
  have r: "in_range ?a (n - i) q \<longleftrightarrow> q = vpath ?a \<or> in_range (b + Suc i * PGSIZE) (n - Suc i) q" for q
    unfolding n in_range_Suc by (simp add: algebra_simps)
  have na: "\<not> in_range (b + Suc i * PGSIZE) (n - Suc i) (vpath ?a)"
  proof
    assume "in_range (b + Suc i * PGSIZE) (n - Suc i) (vpath ?a)"
    then obtain j where j: "j < n - Suc i" "vpath ?a = vpath (b + (Suc i + j) * PGSIZE)" by (auto simp: in_range_def algebra_simps)
    then have "Suc i + j < n" by simp
    with j(2) show False using page_paths [OF b far [OF i] far [of "Suc i + j"]] by simp
  qed
  have st': "space_step pt (frames s3 pt) s3 s'" using ad by (simp add: added_def)
  have "space_step pt (frames s pt) s s'"
    using space_step_trans [OF st space_step_mono [OF st']] fr by blast
  moreover have "leaf s' pt q = leaf s pt q" if "leaf_path q" "\<not> in_range ?a (n - i) q" for q
    using that ad lf [OF that(1)] r by (auto simp: added_def)
  moreover have "\<exists>p. p \<in> free_pages s \<and> leaf s' pt q = Some (pte_of p perm) \<and> zero_page s' p" if "in_range ?a (n - i) q" for q
  proof (cases "q = vpath ?a")
    case True
    then have "leaf s' pt q = Some (pte_of page perm)" using ad na lf [OF vpath_leaf(1)] vpath_leaf(1) by (simp add: added_def)
    then show ?thesis using pg space_step_zero [OF st' _ pg(2)] fr by auto
  next
    case False
    then have "in_range (b + Suc i * PGSIZE) (n - Suc i) q" using that r by simp
    with ad obtain p where "p \<in> free_pages s3" "leaf s' pt q = Some (pte_of p perm)" "zero_page s' p" unfolding added_def by blast
    then show ?thesis using free by blast
  qed
  ultimately show ?thesis by (simp add: added_def)
qed

lemma restored_one:
  assumes none: "lookup s pt (b + i * PGSIZE) = None"
    and st: "space_step pt (frames s pt) s s3" and fr: "frames s3 pt = insert page (frames s pt)" and pg: "page \<notin> frames s pt"
    and lf: "\<And>q. leaf_path q \<Longrightarrow> leaf s3 pt q = (if q = vpath (b + i * PGSIZE) then Some e else leaf s pt q)"
    and rf: "range_frames s3 pt b (Suc i) = insert page (range_frames s pt b i)"
    and re: "restored pt b (Suc i) s3 s'"
  shows "restored pt b i s s'"
proof -
  have "frames s pt - range_frames s pt b i \<subseteq> frames s3 pt - range_frames s3 pt b (Suc i)" using fr pg rf by auto
  moreover have "space_step pt (frames s3 pt - range_frames s3 pt b (Suc i)) s3 s'" using re by (simp add: restored_def)
  ultimately have "space_step pt (frames s pt - range_frames s pt b i) s s'"
    using space_step_trans [OF space_step_mono [OF st] space_step_mono] by blast
  then show ?thesis using re lf none by (auto simp: restored_def in_range_snoc lookup_def)
qed

lemma uvmalloc_from_spec:
  assumes "as_ok s pt" "b mod PGSIZE = 0" "n * PGSIZE < newsz - b + PGSIZE" "newsz - b \<le> n * PGSIZE" "b \<le> newsz" "newsz \<le> MAXVA"
    and "i \<le> n" "\<forall>j. i \<le> j \<and> j < n \<longrightarrow> lookup s pt (b + j * PGSIZE) = None"
    and "\<forall>p \<in> range_frames s pt b i. managed s p" and perm: "perm_ok xperm"
  shows "\<exists>r s'. uvmalloc_from pt b (b + i * PGSIZE) newsz xperm s = Inr (r, s')
    \<and> (r = newsz \<and> added pt b i n (PTE_R OR PTE_U OR xperm) s s' \<or> r = 0 \<and> restored pt b i s s')"
  using assms
proof (induction "n - i" arbitrary: i s)
  case 0
  then have "i = n" by simp
  then have "\<not> b + i * PGSIZE < newsz" using 0(5) by simp
  then have "uvmalloc_from pt b (b + i * PGSIZE) newsz xperm s = Inr (newsz, s)" by (subst uvmalloc_from.simps) simp
  then show ?case using 0 space_step_refl by (auto simp: added_def in_range_def)
next
  case (Suc k)
  let ?a = "b + i * PGSIZE" and ?perm = "PTE_R OR PTE_U OR xperm"
  have i: "i < n" using Suc.hyps(2) by simp
  then have "Suc i * PGSIZE \<le> n * PGSIZE" by (intro mult_le_mono1) simp
  then have lt: "?a < newsz" using Suc.prems(3,4,5) by (simp add: PGSIZE_def)
  have a: "?a mod PGSIZE = 0" "?a < MAXVA" "lookup s pt ?a = None" using Suc.prems(2,6,8) i lt by auto
  have perm': "perm_ok ?perm" using perm by (auto simp: perm_ok_def bit_or_iff PTE_consts_bit)
  obtain page s1 where k: "kalloc s = (page, s1)" by (cases "kalloc s")
  have undo: "\<exists>r s'. uvmdealloc pt ?a b t = Inr (r, s') \<and> restored pt b i s s'"
    if "space_step pt (frames s pt) s t" "\<And>q. leaf_path q \<Longrightarrow> leaf t pt q = leaf s pt q" for t
    using uvmdealloc_restored [OF Suc.prems(1) that Suc.prems(2) _ Suc.prems(9)] a(2) by simp
  show ?case
  proof (cases "page = 0")
    case True
    then have "s1 = s" using kalloc_none(1) [OF as_okD(1) [OF Suc.prems(1)]] k by simp
    then show ?thesis using undo [OF space_step_refl [OF Suc.prems(1)]] lt k True by (subst uvmalloc_from.simps) auto
  next
    case False
    have s2: "same_outside {page} s1 (store_page page 0 s1)"
      by (rule store_page_outside [OF kalloc_spec(7) [OF as_okD(1) [OF Suc.prems(1)] k False]])
    from alloc_map [OF Suc.prems(1) a perm' k False s2 set_pte_fields(3,4)] show ?thesis
    proof cases
      case (2 s3 s4)
      then show ?thesis using undo [OF 2(3,4)] lt k False by (subst uvmalloc_from.simps) auto
    next
      case (1 s3)
      have pg: "page \<in> free_pages s" "zero_page s3 page"
        using kalloc_spec(2) [OF as_okD(1) [OF Suc.prems(1)] k False] 1(4) in_page
        by (auto simp: zero_page_def store_page_def memset_eq)
      have step: "uvmalloc_from pt b ?a newsz xperm s = uvmalloc_from pt b (b + Suc i * PGSIZE) newsz xperm s3"
        using 1(1) lt k False by (subst uvmalloc_from.simps) (simp add: algebra_simps)
      have far: "b + j * PGSIZE < MAXVA" if "j < n" for j
      proof -
        have "Suc j * PGSIZE \<le> n * PGSIZE" using that by (intro mult_le_mono1) simp
        then show ?thesis using Suc.prems(3,5,6) by (simp add: PGSIZE_def)
      qed
      have other: "lookup s3 pt (b + j * PGSIZE) = lookup s pt (b + j * PGSIZE)" if "j < n" "j \<noteq> i" for j
        using 1(3) [OF vpath_leaf(1)] page_paths [OF Suc.prems(2) far [OF i] far [OF that(1)]] that(2) by (simp add: lookup_def)
      have fo: "frame_of s3 pt ?a = {page}" "\<And>j. j < i \<Longrightarrow> frame_of s3 pt (b + j * PGSIZE) = frame_of s pt (b + j * PGSIZE)"
        using 1(3) [OF vpath_leaf(1)] PTE2PA_pte_of [OF kalloc_spec(4) [OF as_okD(1) [OF Suc.prems(1)] k False] perm'] other i
        by (simp_all add: frame_of_def lookup_def)
      have rf: "range_frames s3 pt b (Suc i) = insert page (range_frames s pt b i)"
        unfolding range_frames_snoc fo(1) using fo(2) by (simp add: range_frames_def)
      have "\<forall>p \<in> range_frames s3 pt b (Suc i). managed s3 p"
        using Suc.prems(9) kalloc_spec(4) [OF as_okD(1) [OF Suc.prems(1)] k False] space_step_managed [OF 1(2)] by (simp add: rf)
      moreover have kk: "k = n - Suc i" using Suc.hyps(2) by simp
      moreover have "as_ok s3 pt" using 1(2) by (simp add: space_step_def)
      moreover have "\<forall>j. Suc i \<le> j \<and> j < n \<longrightarrow> lookup s3 pt (b + j * PGSIZE) = None" using other Suc.prems(8) by simp
      ultimately obtain r s' where u: "uvmalloc_from pt b (b + Suc i * PGSIZE) newsz xperm s3 = Inr (r, s')"
        "r = newsz \<and> added pt b (Suc i) n ?perm s3 s' \<or> r = 0 \<and> restored pt b (Suc i) s3 s'"
        using Suc.hyps(1) [OF kk _ Suc.prems(2-6) _ _ _ perm, of s3] i by auto
      have nf: "page \<notin> frames s pt" using pg(1) Suc.prems(1) by (auto simp: as_ok_def)
      show ?thesis using u step added_one [OF Suc.prems(2) far i 1(2,5,6,3) pg] restored_one [OF a(3) 1(2,5) nf 1(3) rf] by auto
    qed
  qed
qed

text \<open>
  growing a process either succeeds or has no effect.  If \<open>uvmalloc\<close> returns the new size,
  every page between the old and the new size is mapped with the permissions asked for, to a page that was free and is zeroed; if it returns
  0 no address has changed its mapping.  In both cases every page that was mapped
  before keeps its contents and no page is lost: the tables, the mapped pages and the free pages
  together are the same set.
\<close>

theorem uvmalloc_all_or_nothing:
  assumes "as_ok s pt" "oldsz \<le> newsz" "newsz \<le> TRAPFRAME" "0 < newsz" "perm_ok xperm"
    and "\<forall>v. PGROUNDUP oldsz \<le> v \<and> v < PGROUNDUP newsz \<longrightarrow> lookup s pt v = None"
  shows "\<exists>r s'. uvmalloc pt oldsz newsz xperm s = Inr (r, s') \<and> as_ok s' pt \<and> total s' pt = total s pt
    \<and> (\<forall>x. PGROUNDDOWN x \<in> frames s pt \<longrightarrow> ram s' x = ram s x)
    \<and> (r = newsz \<and> (\<forall>v < MAXVA. if PGROUNDUP oldsz \<le> v \<and> v < PGROUNDUP newsz
          then \<exists>page. page \<in> free_pages s \<and> lookup s' pt v = Some (pte_of page (PTE_R OR PTE_U OR xperm)) \<and> zero_page s' page
          else lookup s' pt v = lookup s pt v)
       \<or> r = 0 \<and> (\<forall>v < MAXVA. lookup s' pt v = lookup s pt v))"
proof -
  let ?b = "PGROUNDUP oldsz" and ?e = "PGROUNDUP newsz"
  define n where "n = (?e - ?b) div PGSIZE"
  have c: "newsz + 4095 < 2 ^ 64" "oldsz + 4095 < 2 ^ 64" "newsz \<le> MAXVA - 8192"
    using assms(2,3) by (simp_all add: TRAPFRAME_def TRAMPOLINE_def MAXVA_def PGSIZE_def)
  have b: "?b = (oldsz + 4095) div 4096 * 4096" "?e = (newsz + 4095) div 4096 * 4096"
    using c by (simp_all add: PGROUNDUP_def PGSIZE_def)
  define x y where xy: "x = (oldsz + 4095) div 4096" "y = (newsz + 4095) div 4096"
  have "x \<le> y" unfolding xy using assms(2) by (intro div_le_mono) simp
  moreover have bx: "?b = x * 4096" "?e = y * 4096" using b by (simp_all add: xy)
  ultimately have be: "?b \<le> ?e" "?e = ?b + n * PGSIZE"
    unfolding n_def PGSIZE_def by (simp_all add: diff_mult_distrib [symmetric] add_mult_distrib [symmetric])
  have "y * 4096 + (newsz + 4095) mod 4096 = newsz + 4095" "(newsz + 4095) mod 4096 < 4096" unfolding xy by simp_all
  then have r: "newsz \<le> ?e" "?e < newsz + PGSIZE" "?b mod PGSIZE = 0" unfolding bx PGSIZE_def by (linarith, linarith, simp)
  have top: "?e \<le> MAXVA" using r(2) c(3) by (simp add: PGSIZE_def MAXVA_def)
  have none: "\<forall>j. 0 \<le> j \<and> j < n \<longrightarrow> lookup s pt (?b + j * PGSIZE) = None"
    using assms(6) be(2) by (auto simp: PGSIZE_def)
  show ?thesis
  proof (cases "?b \<le> newsz")
    case True
    have "\<exists>r s'. uvmalloc_from pt ?b (?b + 0 * PGSIZE) newsz xperm s = Inr (r, s')
      \<and> (r = newsz \<and> added pt ?b 0 n (PTE_R OR PTE_U OR xperm) s s' \<or> r = 0 \<and> restored pt ?b 0 s s')"
      using r be True top c(3) none assms(1,5) by (intro uvmalloc_from_spec) (auto simp: range_frames_def)
    then obtain k s' where u: "uvmalloc pt oldsz newsz xperm s = Inr (k, s')"
      "k = newsz \<and> added pt ?b 0 n (PTE_R OR PTE_U OR xperm) s s' \<or> k = 0 \<and> restored pt ?b 0 s s'"
      using assms(2) by (auto simp: uvmalloc_def)
    then have st: "space_step pt (frames s pt) s s'" by (auto simp: added_def restored_def range_frames_def)
    have rng: "in_range ?b n (vpath v) \<longleftrightarrow> ?b \<le> v \<and> v < ?e" if "v < MAXVA" for v
      using in_range_vpath [OF r(3) _ that, of n] top be(2) by simp
    have "ram s' x = ram s x" if "PGROUNDDOWN x \<in> frames s pt" for x using st that by (auto simp: space_step_def same_outside_def)
    moreover have "k = newsz \<and> (\<forall>v < MAXVA. if ?b \<le> v \<and> v < ?e
          then \<exists>page. page \<in> free_pages s \<and> lookup s' pt v = Some (pte_of page (PTE_R OR PTE_U OR xperm)) \<and> zero_page s' page
          else lookup s' pt v = lookup s pt v) \<or> k = 0 \<and> (\<forall>v < MAXVA. lookup s' pt v = lookup s pt v)"
      using u(2) rng vpath_leaf(1) by (auto simp: added_def restored_def lookup_def in_range_def [of _ 0])
    ultimately show ?thesis using u(1) st by (auto simp: space_step_def)
  next
    case False
    then have "n = 0" "?b = ?e" using be r(2) by (auto simp: PGSIZE_def)
    moreover have "uvmalloc pt oldsz newsz xperm s = Inr (newsz, s)"
      using False assms(2) by (simp add: uvmalloc_def) (subst uvmalloc_from.simps, simp)
    ultimately show ?thesis using assms(1) by auto
  qed
qed

theorem uvmalloc_all_or_nothing_witness:
  "\<exists>r s'. uvmalloc 0x80000000 0 100 PTE_W mini_phys = Inr (r, s') \<and> as_ok s' 0x80000000
     \<and> total s' 0x80000000 = {0x80000000, 0x80001000, 0x80002000} \<and> (r = 100 \<or> r = 0 \<and> lookup s' 0x80000000 0 = None)"
proof -
  have c: "0 \<le> (100 :: nat)" "100 \<le> TRAPFRAME" "0 < (100 :: nat)" "perm_ok PTE_W" "0 < MAXVA"
    by (simp_all add: TRAPFRAME_def TRAMPOLINE_def MAXVA_def PGSIZE_def perm_ok_def PTE_consts_bit)
  have "\<forall>v. PGROUNDUP 0 \<le> v \<and> v < PGROUNDUP 100 \<longrightarrow> lookup mini_phys 0x80000000 v = None" using mini_phys_ok(4) by simp
  from uvmalloc_all_or_nothing [OF mini_phys_space(1) c(1-4) this] mini_phys_ok(4) mini_phys_space(3) c(5) show ?thesis by metis
qed

end
