(* ===== verification/Vm_Free.thy ===== *)
theory Vm_Free
  imports Vm_Grow
begin

text \<open>
  Freeing an address space (\<open>freewalk\<close>, \<open>uvmfree\<close>, \<open>proc_freepagetable\<close>): three levels
  of recursion are enough, and every page of the tree and of the user's memory goes back to
  the allocator.
\<close>

section \<open>Subtrees\<close>

definition valid_at :: "phys \<Rightarrow> nat \<Rightarrow> nat set" where
  "valid_at s t = {i. i < 512 \<and> has (entry s t i) PTE_V}"

abbreviation child :: "phys \<Rightarrow> nat \<Rightarrow> nat \<Rightarrow> nat" where
  "child s t i \<equiv> PTE2PA (entry s t i)"

primrec sub_pages :: "nat \<Rightarrow> phys \<Rightarrow> nat \<Rightarrow> nat set" where
  "sub_pages 0 s t = {t}"
| "sub_pages (Suc d) s t = insert t (\<Union>i \<in> valid_at s t. sub_pages d s (child s t i))"

text \<open>A subtree of \<open>d\<close> levels below \<open>t\<close> without mappings.\<close>

primrec sub_ok :: "nat \<Rightarrow> phys \<Rightarrow> nat \<Rightarrow> bool" where
  "sub_ok 0 s t \<longleftrightarrow> managed s t \<and> t \<notin> free_pages s \<and> valid_at s t = {}"
| "sub_ok (Suc d) s t \<longleftrightarrow> managed s t \<and> t \<notin> free_pages s
     \<and> (\<forall>i \<in> valid_at s t. \<not> has (entry s t i) (PTE_R OR PTE_W OR PTE_X) \<and> sub_ok d s (child s t i) \<and> t \<notin> sub_pages d s (child s t i))
     \<and> (\<forall>i \<in> valid_at s t. \<forall>j \<in> valid_at s t. i \<noteq> j \<longrightarrow> sub_pages d s (child s t i) \<inter> sub_pages d s (child s t j) = {})"

lemma sub_ok_root: "sub_ok d s t \<Longrightarrow> managed s t \<and> t \<notin> free_pages s" "t \<in> sub_pages d s t"
  by (cases d; simp)+

lemma sub_ok_free: "sub_ok d s t \<Longrightarrow> sub_pages d s t \<inter> free_pages s = {}"
  by (induction d arbitrary: t) auto

lemma valid_frame:
  assumes "same_outside F s s'" "t \<notin> F" "t mod PGSIZE = 0"
  shows "valid_at s' t = valid_at s t" "i < 512 \<Longrightarrow> entry s' t i = entry s t i"
  using entry_frame [OF assms] by (auto simp: valid_at_def)

lemma sub_frame:
  assumes "sub_ok d s t" "same_outside F s s'" "F \<inter> sub_pages d s t = {}" "free_pages s' \<inter> sub_pages d s t = {}" "kend s' = kend s"
  shows "sub_ok d s' t \<and> sub_pages d s' t = sub_pages d s t"
  using assms(1,3,4)
proof (induction d arbitrary: t)
  case 0
  then have "t mod PGSIZE = 0" "t \<notin> F" by (auto simp: managed_def)
  then show ?case using 0 valid_frame [OF assms(2)] managed_kend [OF assms(5)] by auto
next
  case (Suc d)
  have t: "t mod PGSIZE = 0" "t \<notin> F" using Suc.prems by (auto simp: managed_def)
  note V = valid_frame [OF assms(2) t(2,1)]
  have e: "entry s' t i = entry s t i" if "i \<in> valid_at s t" for i using V(2) that by (simp add: valid_at_def)
  have IH: "sub_ok d s' (child s t i) \<and> sub_pages d s' (child s t i) = sub_pages d s (child s t i)" if "i \<in> valid_at s t" for i
    using Suc.prems that by (intro Suc.IH) auto
  have "sub_pages (Suc d) s' t = sub_pages (Suc d) s t" using IH e V(1) by simp
  moreover have "t \<notin> free_pages s'" using Suc.prems(3) by auto
  ultimately show ?case using Suc.prems(1) IH e V(1) managed_kend [OF assms(5)] by simp
qed

section \<open>The loop over the entries\<close>

definition frees :: "(nat \<Rightarrow> phys \<Rightarrow> vm_error + phys) \<Rightarrow> nat \<Rightarrow> bool" where
  "frees f d \<longleftrightarrow> (\<forall>s t. kmem_ok s \<longrightarrow> sub_ok d s t \<longrightarrow>
     (\<exists>s'. f t s = Inr s' \<and> kmem_ok s' \<and> kend s' = kend s \<and> free_pages s' = free_pages s \<union> sub_pages d s t
        \<and> same_outside (sub_pages d s t) s s'))"

text \<open>The indices that are left when \<open>n\<close> entries are to go.\<close>

definition later :: "phys \<Rightarrow> nat \<Rightarrow> nat \<Rightarrow> nat set" where
  "later s t n = {i \<in> valid_at s t. 512 - n \<le> i}"

lemma later_Suc:
  assumes "n < 512"
  shows "later s t (Suc n) = (if has (entry s t (511 - n)) PTE_V then {511 - n} else {}) \<union> later s t n"
proof (rule set_eqI)
  fix i
  have "512 - Suc n \<le> i \<longleftrightarrow> i = 511 - n \<or> 512 - n \<le> i" using assms by arith
  then show "i \<in> later s t (Suc n) \<longleftrightarrow> i \<in> (if has (entry s t (511 - n)) PTE_V then {511 - n} else {}) \<union> later s t n"
    by (auto simp: later_def valid_at_def)
qed

lemma freewalk_entries_frees:
  assumes f: "frees f d" and "n \<le> 512" "kmem_ok s" "managed s t" "t \<notin> free_pages s"
    and "\<forall>i \<in> later s t n. \<not> has (entry s t i) (PTE_R OR PTE_W OR PTE_X) \<and> sub_ok d s (child s t i) \<and> t \<notin> sub_pages d s (child s t i)"
    and "\<forall>i \<in> later s t n. \<forall>j \<in> later s t n. i \<noteq> j \<longrightarrow> sub_pages d s (child s t i) \<inter> sub_pages d s (child s t j) = {}"
  shows "\<exists>s'. freewalk_entries f t n s = Inr s' \<and> kmem_ok s' \<and> kend s' = kend s
    \<and> free_pages s' = free_pages s \<union> (\<Union>i \<in> later s t n. sub_pages d s (child s t i))
    \<and> same_outside (insert t (\<Union>i \<in> later s t n. sub_pages d s (child s t i))) s s'"
  using assms(2-)
proof (induction n arbitrary: s)
  case 0
  have "later s t 0 = {}" by (auto simp: later_def valid_at_def)
  then show ?case using 0 by (simp add: same_outside_refl)
next
  case (Suc n)
  let ?i = "511 - n"
  have i: "?i < 512" "n < 512" "n \<le> 512" using Suc.prems(1) by auto
  have t: "t mod PGSIZE = 0" using Suc.prems(3) by (simp add: managed_def)
  have en: "get_pte (t + 8 * (511 - n)) s = entry s t ?i" by (simp add: entry_def)
  show ?case
  proof (cases "has (entry s t ?i) PTE_V")
    case False
    then have l: "later s t (Suc n) = later s t n" using later_Suc [OF i(2)] by simp
    have "freewalk_entries f t (Suc n) s = freewalk_entries f t n s" using False en by (simp add: Let_def)
    then show ?thesis using Suc.IH [OF i(3) Suc.prems(2-4)] Suc.prems(5,6) unfolding l by simp
  next
    case True
    then have l: "later s t (Suc n) = insert ?i (later s t n)" using later_Suc [OF i(2)] by simp
    have nin: "?i \<notin> later s t n" using i(2) by (auto simp: later_def)
    let ?P = "\<lambda>j. sub_pages d s (child s t j)"
    have c: "sub_ok d s (child s t ?i)" "t \<notin> ?P ?i" "\<not> has (entry s t ?i) (PTE_R OR PTE_W OR PTE_X)" using Suc.prems(5) l by auto
    from f c(1) Suc.prems(2) obtain s1 where s1: "f (child s t ?i) s = Inr s1" "kmem_ok s1" "kend s1 = kend s"
      "free_pages s1 = free_pages s \<union> ?P ?i" "same_outside (?P ?i) s s1" unfolding frees_def by blast
    let ?s2 = "set_pte (t + 8 * ?i) 0 s1"
    have o: "same_outside {t} s1 ?s2" by (rule set_pte_outside [OF t i(1)])
    have tf: "t \<notin> free_pages s1" using s1(4) c(2) Suc.prems(4) by simp
    have f2: "kmem_ok ?s2" "free_pages ?s2 = free_pages s1" using free_frame [OF s1(2) o] tf by simp_all
    have o2: "same_outside (?P ?i \<union> {t}) s ?s2" by (rule same_outside_trans [OF s1(5) o])
    have e1: "entry s1 t j = entry s t j" if "j < 512" for j using valid_frame(2) [OF s1(5) c(2) t that] .
    have e2: "entry ?s2 t j = (if j = ?i then 0 else entry s t j)" if "j < 512" for j
      using entry_set [OF t t i(1) that] e1 [OF that] by simp
    have lat: "later ?s2 t n = later s t n" using e2 nin by (auto simp: later_def valid_at_def split: if_splits)
    have ej: "entry ?s2 t j = entry s t j" if "j \<in> later s t n" for j using that e2 nin by (auto simp: later_def valid_at_def)
    have sub: "sub_ok d ?s2 (child s t j) \<and> sub_pages d ?s2 (child s t j) = ?P j" if j: "j \<in> later s t n" for j
    proof -
      have "j \<noteq> ?i" using j nin by auto
      then have d: "?P j \<inter> ?P ?i = {}" "t \<notin> ?P j" "sub_ok d s (child s t j)" using Suc.prems(5,6) j unfolding l by auto
      have "?P j \<inter> free_pages s = {}" using sub_ok_free [OF d(3)] .
      then show ?thesis using d f2(2) s1(3,4) by (intro sub_frame [OF d(3) o2]) auto
    qed
    have A: "\<forall>i \<in> later ?s2 t n. \<not> has (entry ?s2 t i) (PTE_R OR PTE_W OR PTE_X) \<and> sub_ok d ?s2 (child ?s2 t i) \<and> t \<notin> sub_pages d ?s2 (child ?s2 t i)"
      unfolding lat using sub ej Suc.prems(5) l by simp
    have B: "\<forall>i \<in> later ?s2 t n. \<forall>j \<in> later ?s2 t n. i \<noteq> j \<longrightarrow> sub_pages d ?s2 (child ?s2 t i) \<inter> sub_pages d ?s2 (child ?s2 t j) = {}"
      unfolding lat using sub ej Suc.prems(6) l by simp
    have m2: "managed ?s2 t" "t \<notin> free_pages ?s2" using Suc.prems(3) s1(3) f2(2) tf by (simp_all add: managed_def)
    note Suc.IH [OF i(3) f2(1) m2 A B]
    moreover have "(\<Union>i \<in> later ?s2 t n. sub_pages d ?s2 (child ?s2 t i)) = (\<Union>i \<in> later s t n. ?P i)"
      unfolding lat using sub ej by simp
    ultimately obtain s' where s': "freewalk_entries f t n ?s2 = Inr s'" "kmem_ok s'" "kend s' = kend ?s2"
      "free_pages s' = free_pages ?s2 \<union> (\<Union>i \<in> later s t n. ?P i)" "same_outside (insert t (\<Union>i \<in> later s t n. ?P i)) ?s2 s'" by auto
    have "freewalk_entries f t (Suc n) s = Inr s'" using True c(3) s1(1) s'(1) en by (simp add: Let_def)
    moreover have "same_outside (insert t (\<Union>i \<in> later s t (Suc n). ?P i)) s s'"
      by (rule same_outside_mono [OF same_outside_trans [OF o2 s'(5)]]) (auto simp: l)
    ultimately show ?thesis using s' s1(3,4) f2(2) by (auto simp: l)
  qed
qed

lemma freewalk_entries_empty: "valid_at s t = {} \<Longrightarrow> n \<le> 512 \<Longrightarrow> freewalk_entries f t n s = Inr s"
proof (induction n)
  case (Suc n)
  then have "511 - n \<notin> valid_at s t" by simp
  then show ?case using Suc by (simp add: Let_def valid_at_def entry_def)
qed simp

lemma freewalk_frees: "frees (freewalk (Suc d)) d"
proof (induction d)
  case 0
  have "\<exists>s'. freewalk 1 t s = Inr s' \<and> kmem_ok s' \<and> kend s' = kend s \<and> free_pages s' = free_pages s \<union> {t} \<and> same_outside {t} s s'"
    if "kmem_ok s" "sub_ok 0 s t" for s t
    using kfree_spec [OF that(1), of t] that(2) freewalk_entries_empty [of s t 512 "freewalk 0"] by auto
  then show ?case by (simp add: frees_def)
next
  case (Suc d)
  show ?case unfolding frees_def
  proof (intro allI impI)
    fix s t assume ok: "kmem_ok s" "sub_ok (Suc d) s t"
    have l: "later s t 512 = valid_at s t" by (auto simp: later_def valid_at_def)
    let ?U = "\<Union>i \<in> valid_at s t. sub_pages d s (child s t i)"
    obtain s1 where s1: "freewalk_entries (freewalk (Suc d)) t 512 s = Inr s1" "kmem_ok s1" "kend s1 = kend s"
      "free_pages s1 = free_pages s \<union> ?U" "same_outside (insert t ?U) s s1"
      using freewalk_entries_frees [OF Suc, of 512 s t] ok unfolding l by (auto simp del: freewalk.simps)
    have "t \<notin> free_pages s1" "managed s1 t" using s1(3,4) ok(2) by (auto simp: managed_def)
    from kfree_spec [OF s1(2) this(2,1)] obtain s' where s': "kfree t s1 = Inr s'" "kmem_ok s'"
      "free_pages s' = insert t (free_pages s1)" "kend s' = kend s1" "same_outside {t} s1 s'" by blast
    have "same_outside (insert t ?U) s s'" using same_outside_trans [OF s1(5) s'(5)] by simp
    then show "\<exists>s'. freewalk (Suc (Suc d)) t s = Inr s' \<and> kmem_ok s' \<and> kend s' = kend s
      \<and> free_pages s' = free_pages s \<union> sub_pages (Suc d) s t \<and> same_outside (sub_pages (Suc d) s t) s s'"
      using s1 s' by auto
  qed
qed

section \<open>The tree of an address space\<close>

lemma table_defined: "table s pt (r @ p) = Some u \<Longrightarrow> table s pt p \<noteq> None"
  by (induction r arbitrary: u) (auto split: option.splits if_splits)

lemma sub_pages_paths:
  assumes "table s pt p = Some t"
  shows "sub_pages d s t = {u. \<exists>r. length r \<le> d \<and> (\<forall>i \<in> set r. i < 512) \<and> table s pt (r @ p) = Some u}"
  using assms
proof (induction d arbitrary: p t)
  case 0
  then show ?case by auto
next
  case (Suc d)
  have ch: "table s pt (i # p) = (if i \<in> valid_at s t then Some (child s t i) else None)" if "i < 512" for i
    using Suc.prems that by (simp add: valid_at_def)
  have IH: "sub_pages d s (child s t i) = {u. \<exists>r. length r \<le> d \<and> (\<forall>i \<in> set r. i < 512) \<and> table s pt (r @ i # p) = Some u}"
    if "i \<in> valid_at s t" for i
    using that ch [of i] by (intro Suc.IH) (simp add: valid_at_def)
  show ?case (is "?A = ?B")
  proof (intro set_eqI iffI)
    fix u assume "u \<in> ?A"
    then consider "u = t" | i where "i \<in> valid_at s t" "u \<in> sub_pages d s (child s t i)" by auto
    then show "u \<in> ?B"
    proof cases
      case 1
      then show ?thesis using Suc.prems by (auto intro!: exI [of _ "[]"])
    next
      case (2 i)
      then obtain r where "length r \<le> d" "\<forall>i \<in> set r. i < 512" "table s pt (r @ i # p) = Some u" using IH by auto
      then show ?thesis using 2(1) by (auto intro!: exI [of _ "r @ [i]"] simp: valid_at_def)
    qed
  next
    fix u assume "u \<in> ?B"
    then obtain r where r: "length r \<le> Suc d" "\<forall>i \<in> set r. i < 512" "table s pt (r @ p) = Some u" by auto
    show "u \<in> ?A"
    proof (cases r rule: rev_cases)
      case Nil
      then show ?thesis using r(3) Suc.prems by simp
    next
      case (snoc r' i)
      have "table s pt (i # p) \<noteq> None" using table_defined [of s pt r' "i # p" u] r(3) snoc by simp
      then have "i \<in> valid_at s t" using ch [of i] r(2) snoc by (auto split: if_splits)
      moreover have "u \<in> sub_pages d s (child s t i)" using IH [OF calculation] r snoc by auto
      ultimately show ?thesis by auto
    qed
  qed
qed

lemma sub_pages_tables: "sub_pages 2 s pt = tables s pt"
  using sub_pages_paths [of s pt "[]" pt 2] by (simp add: tables_def path_def conj_assoc)

lemma sub_ok_tree:
  assumes ok: "pt_ok s pt" and leaves: "\<And>q. leaf_path q \<Longrightarrow> leaf s pt q = None"
  shows "table s pt p = Some t \<Longrightarrow> path 2 p \<Longrightarrow> length p + d = 2 \<Longrightarrow> sub_ok d s t"
proof (induction d arbitrary: p t)
  case 0
  have "i \<notin> valid_at s t" for i
    using leaves [of "i # p"] 0 by (auto simp: leaf_path_Cons leaf_Cons valid_at_def split: if_splits)
  then show ?case using pt_okD(1,2) [OF ok 0(2,1)] by auto
next
  case (Suc d)
  have p1: "path 1 p" using Suc.prems(2,3) by (simp add: path_def)
  have ch: "table s pt (i # p) = Some (child s t i)" "path 2 (i # p)" if "i \<in> valid_at s t" for i
    using Suc.prems that by (auto simp: valid_at_def path_def)
  have paths: "\<exists>r. path 2 (r @ i # p) \<and> table s pt (r @ i # p) = Some u" if i: "i \<in> valid_at s t" and u: "u \<in> sub_pages d s (child s t i)" for i u
  proof -
    obtain r where r: "length r \<le> d" "\<forall>i \<in> set r. i < 512" "table s pt (r @ i # p) = Some u"
      using u sub_pages_paths [OF ch(1) [OF i], of d] by auto
    then have "path 2 (r @ i # p)" using ch(2) [OF i] Suc.prems(3) by (auto simp: path_def)
    then show ?thesis using r(3) by blast
  qed
  have "t \<notin> sub_pages d s (child s t i)" if "i \<in> valid_at s t" for i
    using paths [OF that, of t] pt_okD(4) [OF ok Suc.prems(2) _ Suc.prems(1)] by fastforce
  moreover have "sub_pages d s (child s t i) \<inter> sub_pages d s (child s t j) = {}" if ij: "i \<in> valid_at s t" "j \<in> valid_at s t" "i \<noteq> j" for i j
  proof (rule ccontr)
    assume "sub_pages d s (child s t i) \<inter> sub_pages d s (child s t j) \<noteq> {}"
    then obtain u r r' where "path 2 (r @ i # p)" "table s pt (r @ i # p) = Some u" "path 2 (r' @ j # p)" "table s pt (r' @ j # p) = Some u"
      using paths [OF ij(1)] paths [OF ij(2)] by blast
    then have "r @ i # p = r' @ j # p" using pt_okD(4) [OF ok] by blast
    then have "(r @ [i]) @ p = (r' @ [j]) @ p" by simp
    then show False using ij(3) by (simp only: append_same_eq) simp
  qed
  moreover have "sub_ok d s (child s t i)" if "i \<in> valid_at s t" for i
    using ch [OF that] Suc.prems(3) by (intro Suc.IH) auto
  moreover have "\<not> has (entry s t i) (PTE_R OR PTE_W OR PTE_X)" if "i \<in> valid_at s t" for i
    using ok p1 Suc.prems(1) that unfolding pt_ok_def valid_at_def by blast
  ultimately show ?case using pt_okD(1,2) [OF ok Suc.prems(2,1)] by simp
qed

section \<open>Freeing the address space\<close>

text \<open>Unmapping one page without freeing it.\<close>

lemma uvmunmap_page_keeps:
  assumes ok: "as_ok s pt" and a: "a < MAXVA"
  shows "\<exists>s'. uvmunmap_page pt a False s = Inr s' \<and> as_ok s' pt \<and> kend s' = kend s
    \<and> (\<forall>q. leaf_path q \<longrightarrow> leaf s' pt q = (if q = vpath a then None else leaf s pt q))
    \<and> tables s' pt = tables s pt \<and> free_pages s' = free_pages s \<and> same_outside (tables s pt) s s'"
proof (cases "lookup s pt a")
  case None
  then show ?thesis using unmapped_walk(1) [OF a None] ok same_outside_refl by (auto simp: lookup_def)
next
  case (Some e)
  note A = as_okD [OF ok]
  obtain t where t: "table s pt [PX 1 a, PX 2 a] = Some t" "uvmunmap_page pt a False s = Inr (set_pte (t + 8 * PX 0 a) 0 s)"
    using unmapped_walk(2) [OF a Some, of False] by auto
  have P: "length [PX 1 a, PX 2 a] = 2" "path 2 [PX 1 a, PX 2 a]" by (simp_all add: path_def PX_less)
  let ?s2 = "set_pte (t + 8 * PX 0 a) 0 s"
  note L = set_leaf [OF A(1,2) P t(1) PX_less [of 0 a], where v = 0]
  have lf: "leaf ?s2 pt q = (if q = vpath a then None else leaf s pt q)" if "leaf_path q" for q
    using L(5) [OF that] by (simp add: vpath_def)
  have tabs: "tables ?s2 pt = tables s pt" by (rule tables_cong) (rule L(4))
  have "as_ok ?s2 pt"
  proof (rule as_okI [OF L(1,3)])
    show "PTE2PA f \<notin> tables ?s2 pt \<and> PTE2PA f \<notin> free_pages ?s2" if "leaf_path q" "leaf ?s2 pt q = Some f" for q f
      using that lf [OF that(1)] A(3,4) [OF that(1)] tabs L(2) by (auto split: if_splits)
    show "q = r" if "leaf_path q" "leaf_path r" "leaf ?s2 pt q = Some f" "leaf ?s2 pt r = Some g" "PTE2PA f = PTE2PA g" for q r f g
      using that(3,4) lf [OF that(1)] lf [OF that(2)] A(5) [OF that(1,2) _ _ that(5)] by (simp split: if_splits)
  qed
  moreover have "same_outside (tables s pt) s ?s2" using same_outside_mono [OF L(6)] tablesI [OF P(2) t(1)] by simp
  ultimately show ?thesis using t(2) lf tabs L(2) by auto
qed

lemma uvmunmap_one:
  assumes "a mod PGSIZE = 0" "a < MAXVA"
  shows "uvmunmap pt a 1 do_free s = uvmunmap_page pt a do_free s"
proof -
  have "(a + 1 * PGSIZE) mod 2 ^ 64 = a + PGSIZE" using assms(2) by (simp add: MAXVA_def PGSIZE_def)
  moreover have "uvmunmap_from pt a (a + PGSIZE) do_free s = bindR (uvmunmap_page pt a do_free s) Inr"
  proof -
    have "uvmunmap_from pt (a + PGSIZE) (a + PGSIZE) do_free = Inr" by (rule ext) (subst uvmunmap_from.simps, simp)
    then show ?thesis by (subst uvmunmap_from.simps) (simp add: PGSIZE_def)
  qed
  ultimately show ?thesis using assms(1) by (cases "uvmunmap_page pt a do_free s") (simp_all add: uvmunmap_def)
qed

lemma uvmfree_frees:
  assumes ok: "as_ok s pt" and sz: "sz \<le> TRAPFRAME" and m: "\<forall>p \<in> frames s pt. managed s p"
    and low: "\<And>q. leaf_path q \<Longrightarrow> leaf s pt q \<noteq> None \<Longrightarrow> in_range 0 (PGROUNDUP sz div PGSIZE) q"
  shows "\<exists>s'. uvmfree 3 pt sz s = Inr s' \<and> kmem_ok s' \<and> free_pages s' = total s pt \<and> kend s' = kend s
    \<and> same_outside (total s pt) s s'"
proof -
  let ?n = "PGROUNDUP sz div PGSIZE"
  have c: "0 + ?n * PGSIZE \<le> MAXVA" "?n * PGSIZE \<le> MAXVA"
    using sz by (auto simp: PGROUNDUP_def PGSIZE_def TRAPFRAME_def TRAMPOLINE_def MAXVA_def)
  have rf: "range_frames s pt 0 ?n \<subseteq> frames s pt" by (rule range_frames_frames)
  obtain s1 where s1: "(if sz > 0 then uvmunmap pt 0 ?n True s else Inr s) = Inr s1" "as_ok s1 pt" "total s1 pt = total s pt"
    "\<And>q. leaf_path q \<Longrightarrow> leaf s1 pt q = None" "kend s1 = kend s" "same_outside (total s pt) s s1"
  proof (cases "sz > 0")
    case False
    then have "PGROUNDUP sz = 0" by (simp add: PGROUNDUP_def PGSIZE_def)
    then have "leaf s pt q = None" if "leaf_path q" for q using low [OF that] by (cases "leaf s pt q") (auto simp: in_range_def)
    then show ?thesis using that [of s] ok False by (simp add: same_outside_refl)
  next
    case True
    have mr: "\<forall>p \<in> range_frames s pt 0 ?n. managed s p" using m rf by auto
    obtain s1 where u: "uvmunmap_from pt 0 (0 + ?n * PGSIZE) True s = Inr s1"
      "space_step pt (frames s pt - range_frames s pt 0 ?n) s s1"
      "\<forall>q. leaf_path q \<longrightarrow> leaf s1 pt q = (if in_range 0 ?n q then None else leaf s pt q)"
      using uvmunmap_from_frees [OF ok _ c(1) mr] by auto
    have "(0 + ?n * PGSIZE) mod 2 ^ 64 = ?n * PGSIZE" using c(2) by (simp add: MAXVA_def)
    then have "uvmunmap pt 0 ?n True s = Inr s1" using u(1) by (simp add: uvmunmap_def)
    moreover have "leaf s1 pt q = None" if "leaf_path q" for q using u(3) that low [OF that] by (cases "leaf s pt q") auto
    moreover have "same_outside (total s pt) s s1" using u(2) by (auto simp: space_step_def intro: same_outside_mono)
    ultimately show ?thesis using that [of s1] True u(2) by (simp add: space_step_def)
  qed
  note A = as_okD [OF s1(2)]
  have "sub_ok 2 s1 pt" using sub_ok_tree [OF A(2) s1(4), of "[]" pt 2] by (simp add: path_def)
  with freewalk_frees [of 2] A(1) obtain s' where "freewalk (Suc 2) pt s1 = Inr s'" "kmem_ok s'" "free_pages s' = free_pages s1 \<union> sub_pages 2 s1 pt"
      "kend s' = kend s1" "same_outside (sub_pages 2 s1 pt) s1 s'"
    unfolding frees_def by blast
  moreover have "frames s1 pt = {}" using s1(4) by (auto simp: frames_def)
  moreover have "freewalk (Suc 2) = freewalk 3" by (simp only: eval_nat_numeral)
  ultimately have f: "freewalk 3 pt s1 = Inr s'" "kmem_ok s'" "free_pages s' = total s pt"
      "kend s' = kend s" "same_outside (tables s1 pt) s1 s'"
    using s1(3,5) sub_pages_tables [of s1 pt] by (simp_all add: total_def Un_commute)
  have "total s pt \<union> tables s1 pt = total s pt" using s1(3) by (auto simp: total_def)
  with same_outside_trans [OF s1(6) f(5)] have "same_outside (total s pt) s s'" by simp
  then show ?thesis unfolding uvmfree_def s1(1) using f by simp
qed

lemma proc_freepagetable_frees:
  assumes "as_ok s pt" "sz \<le> TRAPFRAME"
    and "\<forall>q. leaf_path q \<longrightarrow> leaf s pt q \<noteq> None \<longrightarrow>
      q = vpath TRAMPOLINE \<or> q = vpath TRAPFRAME \<or> in_range 0 (PGROUNDUP sz div PGSIZE) q"
    and "\<forall>q e. leaf_path q \<longrightarrow> q \<noteq> vpath TRAMPOLINE \<longrightarrow> q \<noteq> vpath TRAPFRAME \<longrightarrow> leaf s pt q = Some e \<longrightarrow> managed s (PTE2PA e)"
  shows "\<exists>s'. proc_freepagetable 3 pt sz s = Inr s' \<and> kmem_ok s'
    \<and> free_pages s' = free_pages s \<union> tables s pt \<union> (frames s pt - frame_of s pt TRAMPOLINE - frame_of s pt TRAPFRAME)
    \<and> kend s' = kend s \<and> same_outside (total s pt - frame_of s pt TRAMPOLINE - frame_of s pt TRAPFRAME) s s'"
proof -
  have t: "TRAMPOLINE mod PGSIZE = 0" "TRAMPOLINE < MAXVA" "TRAPFRAME mod PGSIZE = 0" "TRAPFRAME < MAXVA" "TRAPFRAME \<noteq> TRAMPOLINE"
    by (simp_all add: TRAMPOLINE_def TRAPFRAME_def MAXVA_def PGSIZE_def)
  have ne: "vpath TRAPFRAME \<noteq> vpath TRAMPOLINE" using vpath_eq [OF t(2,4,1)] page_self [OF t(3)] t(5) by auto
  from uvmunmap_page_keeps [OF assms(1) t(2)] obtain s1 where s1: "uvmunmap_page pt TRAMPOLINE False s = Inr s1" "as_ok s1 pt" "kend s1 = kend s"
    "\<And>q. leaf_path q \<Longrightarrow> leaf s1 pt q = (if q = vpath TRAMPOLINE then None else leaf s pt q)"
    "tables s1 pt = tables s pt" "free_pages s1 = free_pages s" "same_outside (tables s pt) s s1" by blast
  from uvmunmap_page_keeps [OF s1(2) t(4)] obtain s2 where s2: "uvmunmap_page pt TRAPFRAME False s1 = Inr s2" "as_ok s2 pt" "kend s2 = kend s1"
    "\<And>q. leaf_path q \<Longrightarrow> leaf s2 pt q = (if q = vpath TRAPFRAME then None else leaf s1 pt q)"
    "tables s2 pt = tables s1 pt" "free_pages s2 = free_pages s1" "same_outside (tables s1 pt) s1 s2" by blast
  have f1: "frames s1 pt = frames s pt - frame_of s pt TRAMPOLINE" by (rule frames_unmapped [OF assms(1) s1(4)])
  have "frames s2 pt = frames s1 pt - frame_of s1 pt TRAPFRAME" by (rule frames_unmapped [OF s1(2) s2(4)])
  moreover have "frame_of s1 pt TRAPFRAME = frame_of s pt TRAPFRAME" using s1(4) [OF vpath_leaf(1)] ne by (simp add: frame_of_def lookup_def)
  ultimately have f2: "frames s2 pt = frames s pt - frame_of s pt TRAMPOLINE - frame_of s pt TRAPFRAME" using f1 by simp
  have lf: "q \<noteq> vpath TRAMPOLINE \<and> q \<noteq> vpath TRAPFRAME \<and> leaf s pt q = Some e" if "leaf_path q" "leaf s2 pt q = Some e" for q e
    using that s1(4) [OF that(1)] s2(4) [OF that(1)] by (auto split: if_splits)
  have "\<forall>p \<in> frames s2 pt. managed s2 p"
    using lf assms(4) s1(3) s2(3) by (auto simp: frames_def managed_def)
  moreover have "in_range 0 (PGROUNDUP sz div PGSIZE) q" if "leaf_path q" "leaf s2 pt q \<noteq> None" for q
    using lf [OF that(1)] that assms(3) by auto
  ultimately obtain s' where u: "uvmfree 3 pt sz s2 = Inr s'" "kmem_ok s'" "free_pages s' = total s2 pt" "kend s' = kend s2"
      "same_outside (total s2 pt) s2 s'"
    using uvmfree_frees [OF s2(2) assms(2)] by blast
  let ?K = "frame_of s pt TRAMPOLINE \<union> frame_of s pt TRAPFRAME"
  have "?K \<subseteq> frames s pt" using frame_of_frames by blast
  then have K: "?K \<inter> (tables s pt \<union> free_pages s) = {}" using assms(1) by (auto simp: as_ok_def)
  have tot: "total s2 pt = total s pt - ?K" using K by (auto simp: total_def f2 s1(5,6) s2(5,6))
  have "tables s pt \<union> tables s1 pt \<union> total s2 pt = total s pt - ?K" using K s1(5) unfolding tot by (auto simp: total_def)
  with same_outside_trans [OF same_outside_trans [OF s1(7) s2(7)] u(5)]
  have "same_outside (total s pt - ?K) s s'" by simp
  moreover have "total s pt - ?K = total s pt - frame_of s pt TRAMPOLINE - frame_of s pt TRAPFRAME" by auto
  ultimately show ?thesis using u s1(1,3,5,6) s2(1,3,5,6) f2 uvmunmap_one t
    by (auto simp: proc_freepagetable_def total_def)
qed

text \<open>
  freeing an address space loses no page.  For a process whose mappings are the
  trampoline, the trap frame and pages of user memory that came from the allocator,
  \<open>proc_freepagetable\<close> with a recursion of three levels never panics; afterwards the free pages are
  the old ones, all pages of the tree and all pages of user memory.
\<close>

theorem proc_freepagetable_frees_all:
  assumes "as_ok s pt" "sz \<le> TRAPFRAME"
    and "\<forall>q. leaf_path q \<longrightarrow> leaf s pt q \<noteq> None \<longrightarrow>
      q = vpath TRAMPOLINE \<or> q = vpath TRAPFRAME \<or> in_range 0 (PGROUNDUP sz div PGSIZE) q"
    and "\<forall>q e. leaf_path q \<longrightarrow> q \<noteq> vpath TRAMPOLINE \<longrightarrow> q \<noteq> vpath TRAPFRAME \<longrightarrow> leaf s pt q = Some e \<longrightarrow> managed s (PTE2PA e)"
  shows "\<exists>s'. proc_freepagetable 3 pt sz s = Inr s' \<and> kmem_ok s'
    \<and> free_pages s' = free_pages s \<union> tables s pt \<union> (frames s pt - frame_of s pt TRAMPOLINE - frame_of s pt TRAPFRAME)"
  using proc_freepagetable_frees [OF assms] by blast

theorem proc_freepagetable_frees_all_witness:
  "\<exists>s'. proc_freepagetable 3 0x80000000 5000 mini_phys = Inr s' \<and> kmem_ok s'
     \<and> free_pages s' = {0x80000000, 0x80001000, 0x80002000}"
proof -
  have n: "leaf mini_phys 0x80000000 q = None" if "leaf_path q" for q
    using mini_phys_space(2) framesI [OF that] by (cases "leaf mini_phys 0x80000000 q") auto
  have "5000 \<le> TRAPFRAME" by (simp add: TRAPFRAME_def TRAMPOLINE_def MAXVA_def PGSIZE_def)
  from proc_freepagetable_frees_all [OF mini_phys_space(1) this] n mini_phys_ok(2,5) mini_phys_space(2) show ?thesis
    by (auto simp: insert_commute)
qed

end
