(* ===== verification/Vm_User.thy ===== *)
theory Vm_User
  imports Vm_Grow
begin

text \<open>
  User memory as an array of bytes.  \<open>uview\<close> is what a process may read at an address:
  the byte of the page mapped there for users, and 0 where the page has been promised by
  \<open>sbrk\<close> but is not allocated yet.  The copying functions read and write this array; the
  pages that \<open>vmfault\<close> adds on the way cannot be observed through it.
\<close>

definition uview :: "nat \<Rightarrow> phys \<Rightarrow> nat \<Rightarrow> nat \<Rightarrow> uint8 option" where
  "uview psz s pt va =
     (if va \<ge> MAXVA then None
      else case lookup s pt va of
        Some e \<Rightarrow> if has e PTE_U then Some (ram s (PTE2PA e + va mod PGSIZE)) else None
      | None \<Rightarrow> if PGROUNDDOWN va < psz then Some 0 else None)"

definition us_ok :: "nat \<Rightarrow> phys \<Rightarrow> nat \<Rightarrow> bool" where
  "us_ok psz s pt \<longleftrightarrow> as_ok s pt \<and> psz \<le> MAXVA
     \<and> (\<forall>q e. leaf_path q \<longrightarrow> leaf s pt q = Some e \<longrightarrow> has e PTE_U \<longrightarrow> managed s (PTE2PA e))"

text \<open>The page of \<open>va\<close> is mapped for users.\<close>

definition user_mapped :: "phys \<Rightarrow> nat \<Rightarrow> nat \<Rightarrow> bool" where
  "user_mapped s pt va \<longleftrightarrow> va < MAXVA \<and> (\<exists>e. lookup s pt va = Some e \<and> has e PTE_U)"

lemma lookup_page: "lookup s pt (PGROUNDDOWN va) = lookup s pt va"
  by (simp add: lookup_def vpath_page)

lemma lookup_valid: "va < MAXVA \<Longrightarrow> lookup s pt va = Some e \<Longrightarrow> has e PTE_V"
  using walk_lookup(1) by blast

lemma walkaddr_lookup:
  "walkaddr pt va s = (if va \<ge> MAXVA then 0 else case lookup s pt va of None \<Rightarrow> 0 | Some e \<Rightarrow> if has e PTE_U then PTE2PA e else 0)"
  by (auto simp: walkaddr_def lookup_def vpath_def leaf_Cons walk_no_alloc entry_def split: option.splits)

lemma ismapped_lookup: "va < MAXVA \<Longrightarrow> ismapped pt va s = Inr (lookup s pt va \<noteq> None)"
  by (auto simp: ismapped_def walk_def lookup_def vpath_def leaf_Cons walk_no_alloc entry_def split: option.splits)

lemma frame_nonzero: "us_ok psz s pt \<Longrightarrow> lookup s pt va = Some e \<Longrightarrow> has e PTE_U \<Longrightarrow> PTE2PA e \<noteq> 0"
  using managed_page(2) vpath_leaf(1) unfolding us_ok_def lookup_def as_ok_def kmem_ok_def by blast

section \<open>Faulting in a page\<close>

lemma page_perm: "perm_ok (PTE_W OR PTE_U OR PTE_R)" "has (pte_of p (PTE_W OR PTE_U OR PTE_R)) PTE_U"
  "has (pte_of p (PTE_W OR PTE_U OR PTE_R)) PTE_W"
  by (simp_all add: perm_ok_def pte_of_def flag_bits bit_or_iff PTE_consts_bit)

text \<open>What a fault may do: add a zero page at an unmapped address below the size.\<close>

definition faulted :: "nat \<Rightarrow> nat \<Rightarrow> phys \<Rightarrow> phys \<Rightarrow> bool" where
  "faulted psz pt s s' \<longleftrightarrow> us_ok psz s' pt \<and> space_step pt (frames s pt) s s' \<and> (\<forall>va. uview psz s' pt va = uview psz s pt va)
     \<and> (\<forall>q e. leaf_path q \<longrightarrow> leaf s pt q = Some e \<longrightarrow> leaf s' pt q = Some e)
     \<and> (\<forall>q e. leaf_path q \<longrightarrow> leaf s' pt q = Some e \<longrightarrow>
          leaf s pt q = Some e \<or> has e PTE_U \<and> (\<exists>va < psz. va mod PGSIZE = 0 \<and> q = vpath va))"

lemma faulted_refl: "us_ok psz s pt \<Longrightarrow> faulted psz pt s s"
  using space_step_refl by (auto simp: faulted_def us_ok_def)

lemma uview_unchanged:
  assumes "as_ok s pt" "space_step pt (frames s pt) s s'" "va < MAXVA" "lookup s' pt va = lookup s pt va"
  shows "uview psz s' pt va = uview psz s pt va"
proof (cases "lookup s pt va")
  case (Some e)
  then have "PTE2PA e \<in> frames s pt" using framesI [OF vpath_leaf(1)] by (simp add: lookup_def)
  moreover have "PGROUNDDOWN (PTE2PA e + va mod PGSIZE) = PTE2PA e"
    by (rule page_of [OF PTE2PA_aligned]) (simp_all add: PGSIZE_def)
  ultimately have "ram s' (PTE2PA e + va mod PGSIZE) = ram s (PTE2PA e + va mod PGSIZE)"
    using assms(2) by (auto simp: space_step_def same_outside_def)
  then show ?thesis using Some assms(4) by (simp add: uview_def)
qed (use assms(4) in \<open>simp add: uview_def\<close>)

lemma us_ok_same:
  assumes "us_ok psz s pt" "space_step pt K s s'" "\<And>q. leaf_path q \<Longrightarrow> leaf s' pt q = leaf s pt q"
  shows "us_ok psz s' pt"
  using assms space_step_managed [OF assms(2)] by (auto simp: us_ok_def space_step_def)

lemma faulted_same:
  assumes "us_ok psz s pt" "space_step pt (frames s pt) s s'" "\<And>q. leaf_path q \<Longrightarrow> leaf s' pt q = leaf s pt q"
  shows "faulted psz pt s s'"
proof -
  have l: "lookup s' pt va = lookup s pt va" for va using assms(3) [OF vpath_leaf(1)] by (simp add: lookup_def)
  have "uview psz s' pt va = uview psz s pt va" for va
    using uview_unchanged [OF _ assms(2) _ l] assms(1) by (cases "va < MAXVA") (auto simp: us_ok_def uview_def)
  then show ?thesis using us_ok_same [OF assms] assms(2,3) by (simp add: faulted_def)
qed

lemma vmfault_spec:
  assumes ok: "us_ok psz s pt" and va: "va mod PGSIZE = 0"
  obtains pa s' where "vmfault psz pt pt va s = Inr (pa, s')" "faulted psz pt s s'"
    "pa = 0 \<or> va < MAXVA \<and> (\<exists>e. lookup s' pt va = Some e \<and> has e PTE_U \<and> PTE2PA e = pa)"
proof (cases "va < psz \<and> lookup s pt va = None")
  case False
  then have "vmfault psz pt pt va s = Inr (0, s)"
    using ok ismapped_lookup [of va pt s] page_self [OF va] by (auto simp: vmfault_def us_ok_def Let_def)
  then show thesis using that faulted_refl [OF ok] by blast
next
  case True
  have A: "as_ok s pt" "va < MAXVA" using ok True by (auto simp: us_ok_def)
  have im: "ismapped pt va s = Inr False" using ismapped_lookup [OF A(2)] True by simp
  obtain page s1 where k: "kalloc s = (page, s1)" by (cases "kalloc s")
  show thesis
  proof (cases "page = 0")
    case p: True
    then have "s1 = s" using kalloc_none(1) [OF as_okD(1) [OF A(1)]] k by simp
    then show thesis using that [of 0 s] faulted_refl [OF ok] True p k im page_self [OF va] by (simp add: vmfault_def Let_def)
  next
    case False
    note K = kalloc_spec [OF as_okD(1) [OF A(1)] k False]
    have lu: "lookup s pt va = None" using True by simp
    from alloc_map [OF A(1) va A(2) lu page_perm(1) k False store_page_outside [OF K(7), of s1 0] set_pte_fields(3,4)] show thesis
    proof cases
      case (2 s3 s4)
      have "vmfault psz pt pt va s = Inr (0, s4)"
        using True k False 2(1,2) im page_self [OF va] by (simp add: vmfault_def Let_def)
      then show thesis using that faulted_same [OF ok 2(3,4)] by blast
    next
      case (1 s3)
      let ?e = "pte_of page (PTE_W OR PTE_U OR PTE_R)"
      have e: "PTE2PA ?e = page" by (rule PTE2PA_pte_of [OF K(4) page_perm(1)])
      have v: "vmfault psz pt pt va s = Inr (page, s3)"
        using True k False 1(1) im page_self [OF va] by (simp add: vmfault_def Let_def)
      have zero: "ram s3 x = 0" if "PGROUNDDOWN x = page" for x
        using 1(4) [OF that] in_page [OF that] by (simp add: store_page_def memset_eq)
      have l3: "lookup s3 pt x = (if PGROUNDDOWN x = va then Some ?e else lookup s pt x)" if "x < MAXVA" for x
        using 1(3) [OF vpath_leaf(1)] vpath_eq [OF A(2) that va] by (simp add: lookup_def)
      have u: "uview psz s3 pt x = uview psz s pt x" for x
      proof (cases "x < MAXVA \<and> PGROUNDDOWN x = va")
        case here: True
        have "PGROUNDDOWN (page + x mod PGSIZE) = page" by (rule page_of [OF K(7)]) (simp_all add: PGSIZE_def)
        then have "ram s3 (page + x mod PGSIZE) = 0" by (rule zero)
        moreover have "lookup s pt x = None" using lu here lookup_page [of s pt x] by simp
        ultimately show ?thesis using here True e l3 page_perm(2) by (simp add: uview_def)
      next
        case no: False
        then show ?thesis
          using uview_unchanged [OF A(1) 1(2), of x psz] l3 [of x] by (cases "x < MAXVA") (auto simp: uview_def)
      qed
      have mg: "managed s3 p = managed s p" for p by (rule space_step_managed [OF 1(2)])
      have "us_ok psz s3 pt"
        unfolding us_ok_def
      proof (intro conjI allI impI)
        show "as_ok s3 pt" using 1(2) by (simp add: space_step_def)
        show "psz \<le> MAXVA" using ok by (simp add: us_ok_def)
        fix q f assume "leaf_path q" "leaf s3 pt q = Some f" "has f PTE_U"
        then show "managed s3 (PTE2PA f)" using 1(3) ok e K(4) mg by (auto simp: us_ok_def split: if_splits)
      qed
      moreover have "leaf s3 pt q = Some f" if "leaf_path q" "leaf s pt q = Some f" for q f
        using 1(3) [OF that(1)] that(2) lu by (auto simp: lookup_def)
      moreover have "leaf s pt q = Some f \<or> has f PTE_U \<and> (\<exists>va < psz. va mod PGSIZE = 0 \<and> q = vpath va)"
        if "leaf_path q" "leaf s3 pt q = Some f" for q f
        using 1(3) [OF that(1)] that(2) True va page_perm(2) by (auto split: if_splits)
      ultimately have "faulted psz pt s s3" using 1(2) u by (simp add: faulted_def)
      moreover have "lookup s3 pt va = Some ?e" using l3 [OF A(2)] page_self [OF va] by simp
      ultimately show thesis using that [OF v] e page_perm(2) A(2) by blast
    qed
  qed
qed

lemma user_page_spec:
  assumes ok: "us_ok psz s pt" and va: "va mod PGSIZE = 0"
  obtains pa s' where "user_page psz pt pt va s = Inr (pa, s')" "faulted psz pt s s'"
    "pa = 0 \<or> va < MAXVA \<and> (\<exists>e. lookup s' pt va = Some e \<and> has e PTE_U \<and> PTE2PA e = pa)"
    "user_mapped s pt va \<Longrightarrow> pa \<noteq> 0 \<and> s' = s"
proof (cases "user_mapped s pt va")
  case True
  then obtain e where e: "va < MAXVA" "lookup s pt va = Some e" "has e PTE_U" by (auto simp: user_mapped_def)
  then have w: "walkaddr pt va s = PTE2PA e" "PTE2PA e \<noteq> 0" using frame_nonzero [OF ok e(2,3)] by (simp_all add: walkaddr_lookup)
  then have "user_page psz pt pt va s = Inr (PTE2PA e, s)" by (simp add: user_page_def Let_def)
  then show thesis using that [of "PTE2PA e" s] faulted_refl [OF ok] e w(2) by blast
next
  case False
  then have "walkaddr pt va s = 0" by (auto simp: walkaddr_lookup user_mapped_def split: option.splits)
  then have u: "user_page psz pt pt va s = vmfault psz pt pt va s" by (simp add: user_page_def)
  from vmfault_spec [OF ok va] obtain pa s' where "vmfault psz pt pt va s = Inr (pa, s')" "faulted psz pt s s'"
    "pa = 0 \<or> va < MAXVA \<and> (\<exists>e. lookup s' pt va = Some e \<and> has e PTE_U \<and> PTE2PA e = pa)" .
  then show thesis using that [of pa s'] u False by simp
qed

lemma faulted_frames: "faulted psz pt s s' \<Longrightarrow> frames s pt \<subseteq> frames s' pt"
  using framesI by (fastforce simp: faulted_def frames_def [of s])

lemma faulted_trans:
  assumes a: "faulted psz pt s t" and b: "faulted psz pt t u"
  shows "faulted psz pt s u"
proof -
  have "space_step pt (frames s pt) s u"
    using a b faulted_frames [OF a] space_step_trans [OF _ space_step_mono] unfolding faulted_def by metis
  moreover have "leaf s pt q = Some e \<or> has e PTE_U \<and> (\<exists>va < psz. va mod PGSIZE = 0 \<and> q = vpath va)"
    if "leaf_path q" "leaf u pt q = Some e" for q e using a b that unfolding faulted_def by blast
  ultimately show ?thesis using a b by (simp add: faulted_def)
qed

lemma faulted_mapped: "faulted psz pt s s' \<Longrightarrow> user_mapped s pt va \<Longrightarrow> user_mapped s' pt va"
  using vpath_leaf(1) by (auto simp: faulted_def user_mapped_def lookup_def)

section \<open>Pages and offsets\<close>

lemma in_same_page:
  assumes "va + k < PGROUNDDOWN va + PGSIZE"
  shows "PGROUNDDOWN (va + k) = PGROUNDDOWN va" "(va + k) mod PGSIZE = va - PGROUNDDOWN va + k"
proof -
  have d: "PGROUNDDOWN va \<le> va" "PGROUNDDOWN va mod PGSIZE = 0" using in_page [of va] by (auto simp: PGROUNDDOWN_def)
  show p: "PGROUNDDOWN (va + k) = PGROUNDDOWN va" by (rule page_of [OF d(2)]) (use d(1) assms in auto)
  have "(va + k) mod PGSIZE = va + k - PGROUNDDOWN (va + k)" by (simp add: PGROUNDDOWN_def minus_div_mult_eq_mod)
  then show "(va + k) mod PGSIZE = va - PGROUNDDOWN va + k" using p d(1) by simp
qed

lemma page_below: "a mod PGSIZE = 0 \<Longrightarrow> a < MAXVA \<Longrightarrow> a + PGSIZE \<le> MAXVA"
  by (auto simp: PGSIZE_def MAXVA_def)

lemma page_bytes:
  assumes e: "lookup s pt (PGROUNDDOWN va) = Some e" "has e PTE_U" "PGROUNDDOWN va < MAXVA" and k: "va + k < PGROUNDDOWN va + PGSIZE"
  shows "uview psz s pt (va + k) = Some (ram s (PTE2PA e + (va - PGROUNDDOWN va) + k))" "user_mapped s pt (va + k)"
proof -
  have "PGROUNDDOWN va mod PGSIZE = 0" by (simp add: PGROUNDDOWN_def)
  from page_below [OF this e(3)] k have b: "va + k < MAXVA" by linarith
  have l: "lookup s pt (va + k) = Some e" using lookup_page [of s pt "va + k"] in_same_page(1) [OF k] e(1) by simp
  show "uview psz s pt (va + k) = Some (ram s (PTE2PA e + (va - PGROUNDDOWN va) + k))"
    using b l e(2) in_same_page(2) [OF k] by (simp add: uview_def add.assoc)
  show "user_mapped s pt (va + k)" using b l e(2) by (simp add: user_mapped_def)
qed

section \<open>Copying in\<close>

lemma copyin_spec:
  assumes "us_ok psz s pt"
  shows "\<exists>r bs s'. copyin psz pt pt dst srcva len s = Inr (r, dst @ bs, s') \<and> faulted psz pt s s'
    \<and> (r = 0 \<and> map Some bs = map (uview psz s pt) [srcva..<srcva + len] \<or> r = -1)
    \<and> ((\<forall>k < len. user_mapped s pt (srcva + k)) \<longrightarrow> r = 0)"
  using assms
proof (induction len arbitrary: dst srcva s rule: less_induct)
  case (less len)
  show ?case
  proof (cases "len = 0")
    case True
    then show ?thesis using faulted_refl [OF less.prems] by (subst copyin.simps) auto
  next
    case False
    let ?va0 = "PGROUNDDOWN srcva"
    define n where "n = min (PGSIZE - (srcva - ?va0)) len"
    have d: "?va0 \<le> srcva" "srcva < ?va0 + PGSIZE" "?va0 mod PGSIZE = 0" using in_page [of srcva] by (auto simp: PGROUNDDOWN_def)
    have n: "0 < n" "n \<le> len" using False d by (auto simp: n_def)
    from user_page_spec [OF less.prems d(3)] obtain pa s1 where
      up: "user_page psz pt pt ?va0 s = Inr (pa, s1)" "faulted psz pt s s1"
        "pa = 0 \<or> ?va0 < MAXVA \<and> (\<exists>e. lookup s1 pt ?va0 = Some e \<and> has e PTE_U \<and> PTE2PA e = pa)"
        "user_mapped s pt ?va0 \<Longrightarrow> pa \<noteq> 0 \<and> s1 = s" by blast
    show ?thesis
    proof (cases "pa = 0")
      case True
      have "\<not> user_mapped s pt (srcva + 0)"
        using up(4) True d lookup_page [of s pt srcva] by (auto simp: user_mapped_def)
      then show ?thesis using False up(1,2) True by (subst copyin.simps) (auto simp: Let_def intro!: exI [of _ 0])
    next
      case pa: False
      then obtain e where e: "?va0 < MAXVA" "lookup s1 pt ?va0 = Some e" "has e PTE_U" "PTE2PA e = pa" using up(3) by blast
      let ?bs = "load_bytes (pa + (srcva - ?va0)) n s1"
      have bytes: "map Some ?bs = map (uview psz s pt) [srcva..<srcva + n]"
      proof (rule nth_equalityI)
        fix k assume "k < length (map Some ?bs)"
        then have k: "k < n" by (simp add: load_bytes_def)
        then have "srcva + k < ?va0 + PGSIZE" using d by (auto simp: n_def)
        from page_bytes(1) [OF e(2,3,1) this, of psz] up(2)
        show "map Some ?bs ! k = map (uview psz s pt) [srcva..<srcva + n] ! k"
          using k e(4) by (simp add: load_bytes_def faulted_def add.assoc)
      qed (simp add: load_bytes_def)
      have us1: "us_ok psz s1 pt" using up(2) by (simp add: faulted_def)
      have lt: "len - n < len" using n by simp
      from less.IH [OF lt us1, of "dst @ ?bs" "?va0 + PGSIZE"] obtain r bs s' where
        c: "copyin psz pt pt (dst @ ?bs) (?va0 + PGSIZE) (len - n) s1 = Inr (r, (dst @ ?bs) @ bs, s')" "faulted psz pt s1 s'"
          "r = 0 \<and> map Some bs = map (uview psz s1 pt) [?va0 + PGSIZE..<?va0 + PGSIZE + (len - n)] \<or> r = -1"
          "(\<forall>k < len - n. user_mapped s1 pt (?va0 + PGSIZE + k)) \<longrightarrow> r = 0" by blast
      have eq: "copyin psz pt pt dst srcva len s = Inr (r, dst @ ?bs @ bs, s')"
        using False pa up(1) c(1) by (subst copyin.simps) (simp add: Let_def n_def)
      have next_page: "len - n = 0 \<or> ?va0 + PGSIZE = srcva + n" using d by (auto simp: n_def)
      have "r = 0 \<Longrightarrow> map Some (?bs @ bs) = map (uview psz s pt) [srcva..<srcva + len]"
      proof -
        assume "r = 0"
        have "map (uview psz s1 pt) [?va0 + PGSIZE..<?va0 + PGSIZE + (len - n)] = map (uview psz s pt) [srcva + n..<srcva + len]"
          using next_page up(2) n(2) by (auto simp: faulted_def)
        then have "map Some (?bs @ bs) = map (uview psz s pt) ([srcva..<srcva + n] @ [srcva + n..<srcva + len])"
          using bytes c(3) \<open>r = 0\<close> by simp
        then show ?thesis using n(2) by (metis le_add1 upt_add_eq_append ordered_cancel_comm_monoid_diff_class.add_diff_inverse add.assoc)
      qed
      moreover have "r = 0" if m: "\<forall>k < len. user_mapped s pt (srcva + k)"
      proof -
        have "user_mapped s1 pt (?va0 + PGSIZE + k)" if "k < len - n" for k
        proof -
          have "user_mapped s pt (srcva + (n + k))" using m that by simp
          moreover have "?va0 + PGSIZE + k = srcva + (n + k)" using next_page that by auto
          ultimately show ?thesis using faulted_mapped [OF up(2), of "srcva + (n + k)"] by (simp add: add.assoc)
        qed
        then show ?thesis using c(4) by blast
      qed
      ultimately show ?thesis using eq faulted_trans [OF up(2) c(2)] c(3) by (intro exI [of _ r] exI [of _ "?bs @ bs"] exI [of _ s']) auto
    qed
  qed
qed

text \<open>
  \<open>copyin\<close> reads user memory.  It never panics and leaves the memory of the process as it
  is seen through \<open>uview\<close>; when it returns 0, the bytes it delivers are those of the user's addresses in order, zeros
  for pages not allocated yet; it does return 0 when all the pages are mapped for users.
\<close>

theorem copyin_reads_user_memory:
  assumes "us_ok psz s pt"
  shows "\<exists>r bs s'. copyin psz pt pt [] srcva len s = Inr (r, bs, s') \<and> us_ok psz s' pt
    \<and> (\<forall>va. uview psz s' pt va = uview psz s pt va)
    \<and> (r = 0 \<and> map Some bs = map (uview psz s pt) [srcva..<srcva + len] \<or> r = -1)
    \<and> ((\<forall>k < len. user_mapped s pt (srcva + k)) \<longrightarrow> r = 0)"
  using copyin_spec [OF assms, of "[]" srcva len] by (auto simp: faulted_def)

section \<open>Copying out\<close>

text \<open>A store into a mapped page touches only that page.\<close>

lemma store_space:
  assumes ok: "as_ok s pt" and e: "lookup s pt va = Some e" and fit: "off + length bs \<le> PGSIZE"
  defines "s' \<equiv> store_bytes (PTE2PA e + off) bs s"
  shows "space_step pt (frames s pt - {PTE2PA e}) s s'" "\<And>q. leaf_path q \<Longrightarrow> leaf s' pt q = leaf s pt q"
    "same_outside {PTE2PA e} s s'"
proof -
  let ?p = "PTE2PA e"
  note D = as_okD [OF ok]
  have l: "leaf s pt (vpath va) = Some e" using e by (simp add: lookup_def)
  have p: "?p \<notin> tables s pt" "?p \<notin> free_pages s" using D(3,4) [OF vpath_leaf(1) l] by auto
  have "PGROUNDDOWN y = ?p" if "?p + off \<le> y" "y < ?p + off + length bs" for y
    using that fit by (intro page_of [OF PTE2PA_aligned]) auto
  then show o: "same_outside {?p} s s'" by (auto simp: same_outside_def s'_def store_bytes_def)
  have f: "freelist s' = freelist s" "kend s' = kend s" by (simp_all add: s'_def store_bytes_def)
  have K: "kmem_ok s'" "free_pages s' = free_pages s" using free_frame [OF D(1) o _ f] p(2) by auto
  have pt: "{?p} \<inter> tables s pt = {}" "free_pages s' \<inter> tables s pt = {}" using p(1) K(2) tables_not_free [OF D(2)] by auto
  show lf: "\<And>q. leaf_path q \<Longrightarrow> leaf s' pt q = leaf s pt q" by (rule leaf_frame [OF D(2) o pt(1)])
  have tab: "tables s' pt = tables s pt" by (rule tables_cong) (rule table_frame [OF D(2) o pt(1)])
  have as: "as_ok s' pt" using K(1) pt_ok_frame [OF D(2) o pt f(2)] D(3-5) tab K(2) lf by (intro as_okI) auto
  have tot: "total s' pt = total s pt" using tab K(2) frames_cong [OF lf] by (simp add: total_def)
  have "?p \<in> total s pt - (frames s pt - {?p})" using framesI [OF vpath_leaf(1) l] by (simp add: total_def)
  then have "same_outside (total s pt - (frames s pt - {?p})) s s'" using o by (auto intro: same_outside_mono)
  then show "space_step pt (frames s pt - {?p}) s s'" using as tot f(2) by (simp add: space_step_def)
qed

lemma store_user:
  assumes ok: "us_ok psz s pt" and e: "lookup s pt va = Some e" "has e PTE_U" "va < MAXVA" "va mod PGSIZE = 0"
    and fit: "off + length bs \<le> PGSIZE"
  defines "s' \<equiv> store_bytes (PTE2PA e + off) bs s"
  shows "us_ok psz s' pt" "\<And>q. leaf_path q \<Longrightarrow> leaf s' pt q = leaf s pt q"
    "uview psz s' pt x = (if va + off \<le> x \<and> x < va + off + length bs then Some (bs ! (x - (va + off))) else uview psz s pt x)"
proof -
  let ?p = "PTE2PA e"
  have A: "as_ok s pt" using ok by (simp add: us_ok_def)
  note D = as_okD [OF A]
  have l: "leaf s pt (vpath va) = Some e" using e(1) by (simp add: lookup_def)
  note S = store_space [OF A e(1) fit, folded s'_def]
  note o = S(3)
  show lf: "\<And>q. leaf_path q \<Longrightarrow> leaf s' pt q = leaf s pt q" by (rule S(2))
  show "us_ok psz s' pt" using us_ok_same [OF ok S(1) lf] .
  have lu: "lookup s' pt x = lookup s pt x" using lf [OF vpath_leaf(1)] by (simp add: lookup_def)
  show "uview psz s' pt x = (if va + off \<le> x \<and> x < va + off + length bs then Some (bs ! (x - (va + off))) else uview psz s pt x)"
  proof (cases "x < MAXVA \<and> PGROUNDDOWN x = va")
    case True
    then have x: "lookup s pt x = Some e" "x mod PGSIZE = x - va" "va \<le> x"
      using e(1) lookup_page [of s pt x] in_page [of x va] by (auto simp: PGROUNDDOWN_def minus_div_mult_eq_mod [symmetric])
    then have "uview psz s' pt x = Some (ram s' (?p + (x - va)))" "uview psz s pt x = Some (ram s (?p + (x - va)))"
      using True e(2) lu by (simp_all add: uview_def)
    then show ?thesis using x(3) by (auto simp: s'_def store_bytes_def intro!: arg_cong [of _ _ "(!) bs"])
  next
    case False
    have far: "\<not> (va + off \<le> x \<and> x < va + off + length bs)"
      using False page_of [OF e(4), of x] page_below [OF e(4,3)] fit by auto
    have "uview psz s' pt x = uview psz s pt x"
    proof (cases "x < MAXVA")
      case x: True
      then have "vpath x \<noteq> vpath va" using False vpath_eq [OF e(3) x e(4)] by simp
      then have "ram s' (PTE2PA g + x mod PGSIZE) = ram s (PTE2PA g + x mod PGSIZE)" if g: "lookup s pt x = Some g" for g
      proof -
        have "PTE2PA g \<noteq> ?p" using D(5) [OF vpath_leaf(1) vpath_leaf(1) _ l] g \<open>vpath x \<noteq> vpath va\<close> unfolding lookup_def by blast
        moreover have "PGROUNDDOWN (PTE2PA g + x mod PGSIZE) = PTE2PA g" by (rule page_of [OF PTE2PA_aligned]) (simp_all add: PGSIZE_def)
        ultimately show ?thesis using o by (simp add: same_outside_def)
      qed
      then show ?thesis by (auto simp: uview_def lu split: option.splits)
    qed (simp add: uview_def)
    then show ?thesis using far by auto
  qed
qed

text \<open>The bytes \<open>bs\<close> are now at \<open>va\<close>, and nothing else has changed for the user.\<close>

definition written :: "nat \<Rightarrow> nat \<Rightarrow> nat \<Rightarrow> uint8 list \<Rightarrow> phys \<Rightarrow> phys \<Rightarrow> bool" where
  "written psz pt va bs s s' \<longleftrightarrow> us_ok psz s' pt
     \<and> (\<forall>x. uview psz s' pt x = (if va \<le> x \<and> x < va + length bs then Some (bs ! (x - va)) else uview psz s pt x))
     \<and> (\<forall>k < length bs. user_mapped s' pt (va + k))
     \<and> (\<forall>q e. leaf_path q \<longrightarrow> leaf s pt q = Some e \<longrightarrow> leaf s' pt q = Some e)"

lemma written_nil: "faulted psz pt s s' \<Longrightarrow> written psz pt va [] s s'"
  by (auto simp: written_def faulted_def)

lemma written_nothing: "written psz pt va [] s s' \<Longrightarrow> written psz pt va' [] s s'"
  unfolding written_def by (simp add: not_less [symmetric])

lemma written_append:
  assumes "written psz pt va bs s t" "written psz pt (va + length bs) cs t u"
  shows "written psz pt va (bs @ cs) s u"
proof -
  have m: "user_mapped u pt x" if "user_mapped t pt x" for x
    using that assms(2) vpath_leaf(1) by (auto simp: written_def user_mapped_def lookup_def)
  have "user_mapped u pt (va + k)" if "k < length (bs @ cs)" for k
  proof (cases "k < length bs")
    case True
    then show ?thesis using m assms(1) by (simp add: written_def)
  next
    case False
    then have "k - length bs < length cs" "va + length bs + (k - length bs) = va + k" using that by auto
    then show ?thesis using assms(2) unfolding written_def by metis
  qed
  then show ?thesis using assms by (auto simp: written_def nth_append diff_diff_eq)
qed

lemma copyout_spec:
  assumes "us_ok psz s pt"
  shows "\<exists>r k s'. copyout psz pt pt dstva src s = Inr (r, s') \<and> written psz pt dstva (take k src) s s' \<and> k \<le> length src
    \<and> (r = 0 \<and> k = length src \<or> r = -1 \<and> k < length src)"
  using assms
proof (induction "length src" arbitrary: dstva src s rule: less_induct)
  case less
  show ?case
  proof (cases "src = []")
    case True
    then show ?thesis using written_nil [OF faulted_refl [OF less.prems]] by (subst copyout.simps) auto
  next
    case False
    let ?va0 = "PGROUNDDOWN dstva"
    define n where "n = min (PGSIZE - (dstva - ?va0)) (length src)"
    have d: "?va0 \<le> dstva" "dstva < ?va0 + PGSIZE" "?va0 mod PGSIZE = 0" using in_page [of dstva] by (auto simp: PGROUNDDOWN_def)
    have n: "0 < n" "n \<le> length src" using False d by (auto simp: n_def)
    have fail: "written psz pt dstva (take 0 src) s t" "0 < length src" if "faulted psz pt s t" for t
      using written_nil [OF that] False by simp_all
    from user_page_spec [OF less.prems d(3)] obtain pa s1 where
      up: "user_page psz pt pt ?va0 s = Inr (pa, s1)" "faulted psz pt s s1"
        "pa = 0 \<or> ?va0 < MAXVA \<and> (\<exists>e. lookup s1 pt ?va0 = Some e \<and> has e PTE_U \<and> PTE2PA e = pa)" by blast
    show ?thesis
    proof (cases "?va0 \<ge> MAXVA \<or> pa = 0")
      case True
      then have "\<exists>t. copyout psz pt pt dstva src s = Inr (-1, t) \<and> faulted psz pt s t"
        using False up(1,2) faulted_refl [OF less.prems] by (subst copyout.simps) (auto simp: Let_def)
      then show ?thesis using fail by blast
    next
      case go: False
      then obtain e where e: "?va0 < MAXVA" "lookup s1 pt ?va0 = Some e" "has e PTE_U" "PTE2PA e = pa" using up(3) by auto
      from walk_lookup(1) [OF e(1), THEN iffD1, OF e(2)] obtain pte where pte: "fst (walk_from 2 pt ?va0 False s1) = Some pte" "get_pte pte s1 = e" by blast
      show ?thesis
      proof (cases "has e PTE_W")
        case w: False
        then have "copyout psz pt pt dstva src s = Inr (-1, s1)"
          using False go up(1) walk_lookup(3) [OF e(1)] pte by (subst copyout.simps) (simp add: Let_def)
        then show ?thesis using fail [OF up(2)] by blast
      next
        case w: True
        let ?bs = "take n src" and ?s2 = "store_bytes (pa + (dstva - ?va0)) (take n src) s1"
        have us1: "us_ok psz s1 pt" using up(2) by (simp add: faulted_def)
        have fit: "dstva - ?va0 + length ?bs \<le> PGSIZE" using d n by (auto simp: n_def)
        note S = store_user [OF us1 e(2,3,1) d(3) fit, unfolded e(4)]
        have va: "?va0 + (dstva - ?va0) = dstva" using d(1) by simp
        have wr: "written psz pt dstva ?bs s ?s2"
        proof -
          have "user_mapped ?s2 pt (dstva + k)" if "k < length ?bs" for k
          proof -
            have "dstva + k < ?va0 + PGSIZE" using that fit d(1) by linarith
            from page_bytes(2) [OF e(2,3,1) this] have "user_mapped s1 pt (dstva + k)" .
            then show ?thesis using S(2) [OF vpath_leaf(1)] by (simp add: user_mapped_def lookup_def)
          qed
          moreover have "leaf ?s2 pt q = Some f" if "leaf_path q" "leaf s pt q = Some f" for q f
            using up(2) that S(2) [OF that(1)] by (auto simp: faulted_def)
          ultimately show ?thesis using S(1,3) up(2) unfolding va by (simp add: written_def faulted_def)
        qed
        have lt: "length (drop n src) < length src" using n by simp
        from less.hyps [OF lt S(1), of "?va0 + PGSIZE"] obtain r k s' where
          c: "copyout psz pt pt (?va0 + PGSIZE) (drop n src) ?s2 = Inr (r, s')" "written psz pt (?va0 + PGSIZE) (take k (drop n src)) ?s2 s'"
            "k \<le> length (drop n src)" "r = 0 \<and> k = length (drop n src) \<or> r = -1 \<and> k < length (drop n src)" by blast
        have "copyout psz pt pt dstva src s = Inr (r, s')"
          using False go up(1) walk_lookup(3) [OF e(1)] pte w c(1) by (subst copyout.simps) (simp add: Let_def n_def)
        moreover have "written psz pt dstva (take (n + k) src) s s'"
        proof (cases "k = 0")
          case True
          have "written psz pt (dstva + length ?bs) [] ?s2 s'" using c(2) True written_nothing by simp
          from written_append [OF wr this] True show ?thesis by simp
        next
          case k: False
          then have "?va0 + PGSIZE = dstva + length ?bs" using c(3) d by (auto simp: n_def)
          then have "written psz pt (dstva + length ?bs) (take k (drop n src)) ?s2 s'" using c(2) by simp
          from written_append [OF wr this] show ?thesis by (simp add: take_add)
        qed
        ultimately show ?thesis using c(3,4) n by (intro exI [of _ r] exI [of _ "n + k"] exI [of _ s']) auto
      qed
    qed
  qed
qed

text \<open>
  C16: what \<open>copyout\<close> writes, \<open>copyin\<close> reads back.  \<open>copyout\<close> never panics; if it returns 0, user memory holds
  the bytes and is otherwise unchanged, and a \<open>copyin\<close> from the same address returns 0 and exactly
  these bytes; if it returns -1 a proper prefix has been written.
\<close>

theorem copyout_copyin_round_trip:
  assumes "us_ok psz s pt"
  shows "\<exists>r k s'. copyout psz pt pt dstva src s = Inr (r, s') \<and> us_ok psz s' pt
    \<and> (\<forall>x. uview psz s' pt x = (if dstva \<le> x \<and> x < dstva + k then Some (src ! (x - dstva)) else uview psz s pt x))
    \<and> (r = 0 \<and> k = length src \<and> (\<exists>s''. copyin psz pt pt [] dstva (length src) s' = Inr (0, src, s''))
       \<or> r = -1 \<and> k < length src)"
proof -
  from copyout_spec [OF assms, of dstva src] obtain r k s' where
    c: "copyout psz pt pt dstva src s = Inr (r, s')" "written psz pt dstva (take k src) s s'" "k \<le> length src"
      "r = 0 \<and> k = length src \<or> r = -1 \<and> k < length src" by blast
  have u: "uview psz s' pt x = (if dstva \<le> x \<and> x < dstva + k then Some (src ! (x - dstva)) else uview psz s pt x)" for x
    using c(2,3) by (auto simp: written_def)
  have us: "us_ok psz s' pt" using c(2) by (simp add: written_def)
  have "\<exists>s''. copyin psz pt pt [] dstva (length src) s' = Inr (0, src, s'')" if "r = 0"
  proof -
    have k: "k = length src" using c(4) that by auto
    then have m: "\<forall>j < length src. user_mapped s' pt (dstva + j)" using c(2) by (simp add: written_def)
    from copyin_spec [OF us, of "[]" dstva "length src"] m obtain bs s'' where
      b: "copyin psz pt pt [] dstva (length src) s' = Inr (0, bs, s'')" "map Some bs = map (uview psz s' pt) [dstva..<dstva + length src]" by auto
    have "map (uview psz s' pt) [dstva..<dstva + length src] = map Some src" by (rule nth_equalityI) (simp_all add: u k)
    then show ?thesis using b by (simp add: inj_map_eq_map)
  qed
  then show ?thesis using c(1,4) u us by blast
qed

section \<open>A concrete address space\<close>

lemma mini_user: "us_ok 0x5000 mini_phys 0x80000000"
proof -
  have "leaf mini_phys 0x80000000 q = None" if "leaf_path q" for q
    using mini_phys_space(2) framesI [OF that] by (cases "leaf mini_phys 0x80000000 q") auto
  then show ?thesis using mini_phys_space(1) by (simp add: us_ok_def MAXVA_def)
qed

theorem copyin_reads_user_memory_witness:
  "\<exists>r bs s'. copyin 0x5000 0x80000000 0x80000000 [] 0x1000 2 mini_phys = Inr (r, bs, s') \<and> us_ok 0x5000 s' 0x80000000
     \<and> (r = 0 \<and> bs = [0, 0] \<or> r = -1)"
proof -
  have "map (uview 0x5000 mini_phys 0x80000000) [0x1000..<0x1000 + 2] = map Some [0, 0]"
    by (simp add: uview_def mini_phys_ok(4) MAXVA_def PGROUNDDOWN_def PGSIZE_def upt_rec)
  with copyin_reads_user_memory [OF mini_user, of "0x1000" 2] show ?thesis by (auto simp: inj_map_eq_map simp del: list.map)
qed

theorem copyout_copyin_round_trip_witness:
  "\<exists>r s'. copyout 0x5000 0x80000000 0x80000000 0x1000 [7, 8] mini_phys = Inr (r, s')
     \<and> (r = 0 \<and> (\<exists>s''. copyin 0x5000 0x80000000 0x80000000 [] 0x1000 2 s' = Inr (0, [7, 8], s'')) \<or> r = -1)"
  using copyout_copyin_round_trip [OF mini_user, of "0x1000" "[7, 8]"] by (auto simp: numeral_2_eq_2)

end
