(* ===== verification/Vm_Fork.thy ===== *)
theory Vm_Fork
  imports Vm_Grow
begin

text \<open>
  \<open>uvmcopy\<close>, the part of \<open>fork\<close> that copies the parent's memory: the child gets its own
  copy of every page, with the parent's permissions, and the parent's memory is not changed.
\<close>

section \<open>Two address spaces\<close>

text \<open>The tables and the first \<open>n\<close> user pages of \<open>old\<close> are no pages of \<open>new\<close> and not free.\<close>

definition apart :: "nat \<Rightarrow> nat \<Rightarrow> nat \<Rightarrow> phys \<Rightarrow> bool" where
  "apart n old new s \<longleftrightarrow> pt_ok s old \<and> (tables s old \<union> range_frames s old 0 n) \<inter> total s new = {}"

lemma apart_step:
  assumes "apart n old new s" "space_step new K s s'"
  shows "apart n old new s'" "leaf_path q \<Longrightarrow> leaf s' old q = leaf s old q"
    "\<And>x. PGROUNDDOWN x \<in> range_frames s old 0 n \<Longrightarrow> ram s' x = ram s x"
proof -
  let ?F = "total s new - K"
  have o: "same_outside ?F s s'" and t: "total s' new = total s new" and e: "kend s' = kend s"
    using assms(2) by (auto simp: space_step_def)
  have p: "pt_ok s old" and d: "?F \<inter> tables s old = {}" using assms(1) by (auto simp: apart_def)
  have "free_pages s' \<inter> tables s old = {}" using assms(1) t by (auto simp: apart_def total_def)
  then have p': "pt_ok s' old" by (rule pt_ok_frame [OF p o d _ e])
  have lf: "\<And>q. leaf_path q \<Longrightarrow> leaf s' old q = leaf s old q" by (rule leaf_frame [OF p o d])
  show "leaf_path q \<Longrightarrow> leaf s' old q = leaf s old q" by (rule lf)
  have "tables s' old = tables s old" by (rule tables_cong) (rule table_frame [OF p o d])
  then show "apart n old new s'" using assms(1) p' t range_frames_cong [OF lf] by (simp add: apart_def)
  show "ram s' x = ram s x" if "PGROUNDDOWN x \<in> range_frames s old 0 n" for x
    using o that assms(1) by (auto simp: same_outside_def apart_def)
qed

section \<open>The copy\<close>

fun copy_of :: "phys \<Rightarrow> phys \<Rightarrow> uint64 option \<Rightarrow> uint64 option \<Rightarrow> bool" where
  "copy_of s s' None y \<longleftrightarrow> y = None"
| "copy_of s s' (Some e) y \<longleftrightarrow>
     (\<exists>f. y = Some f \<and> PTE_FLAGS f = PTE_FLAGS e \<and> (\<forall>k < PGSIZE. ram s' (PTE2PA f + k) = ram s (PTE2PA e + k)))"

definition copied :: "nat \<Rightarrow> nat \<Rightarrow> nat \<Rightarrow> nat \<Rightarrow> phys \<Rightarrow> phys \<Rightarrow> bool" where
  "copied old new j n s s' \<longleftrightarrow> space_step new (frames s new) s s'
     \<and> (\<forall>q. leaf_path q \<longrightarrow> \<not> in_range (j * PGSIZE) (n - j) q \<longrightarrow> leaf s' new q = leaf s new q)
     \<and> (\<forall>i. j \<le> i \<and> i < n \<longrightarrow> copy_of s s' (lookup s old (i * PGSIZE)) (lookup s' new (i * PGSIZE)))"

lemma page_paths0:
  assumes "i * PGSIZE < MAXVA" "j * PGSIZE < MAXVA" "i \<noteq> j"
  shows "vpath (j * PGSIZE) \<noteq> vpath (i * PGSIZE)"
  using page_paths [of 0 i j] assms by simp

lemma in_range0:
  assumes "\<And>j. j < n \<Longrightarrow> j * PGSIZE < MAXVA" "i < n" "i < j"
  shows "\<not> in_range (j * PGSIZE) (n - j) (vpath (i * PGSIZE))"
proof
  assume "in_range (j * PGSIZE) (n - j) (vpath (i * PGSIZE))"
  then obtain k where k: "k < n - j" "vpath (i * PGSIZE) = vpath ((j + k) * PGSIZE)" by (auto simp: in_range_def algebra_simps)
  then show False using page_paths0 [OF assms(1) [of "j + k"] assms(1) [OF assms(2)]] assms(3) by auto
qed

lemma frame_bytes: "k < PGSIZE \<Longrightarrow> PGROUNDDOWN (PTE2PA e + k) = PTE2PA e"
  by (rule page_of [OF PTE2PA_aligned]) auto

lemma range_frame: "i < n \<Longrightarrow> lookup s pt (i * PGSIZE) = Some e \<Longrightarrow> PTE2PA e \<in> range_frames s pt 0 n"
  by (auto simp: range_frames_def frame_of_def intro!: bexI [of _ i])

text \<open>Page \<open>j\<close> has been dealt with, giving \<open>s3\<close>.\<close>

lemma copied_one:
  assumes far: "\<And>j. j < n \<Longrightarrow> j * PGSIZE < MAXVA" and j: "j < n" and ap: "apart n old new s"
    and st: "space_step new (frames s new) s s3"
    and lf: "\<And>q. leaf_path q \<Longrightarrow> q \<noteq> vpath (j * PGSIZE) \<Longrightarrow> leaf s3 new q = leaf s new q"
    and here: "copy_of s s3 (lookup s old (j * PGSIZE)) (lookup s3 new (j * PGSIZE))"
    and fr: "frames s new \<subseteq> frames s3 new"
    and co: "copied old new (Suc j) n s3 s'"
  shows "copied old new j n s s'"
proof -
  note AS = apart_step [OF ap st]
  have st': "space_step new (frames s3 new) s3 s'" using co by (simp add: copied_def)
  have n: "n - j = Suc (n - Suc j)" using j by simp
  have r: "in_range (j * PGSIZE) (n - j) q \<longleftrightarrow> q = vpath (j * PGSIZE) \<or> in_range (Suc j * PGSIZE) (n - Suc j) q" for q
    unfolding n in_range_Suc by (simp add: algebra_simps)
  have "space_step new (frames s new) s s'" using space_step_trans [OF st space_step_mono [OF st' fr]] .
  moreover have "leaf s' new q = leaf s new q" if "leaf_path q" "\<not> in_range (j * PGSIZE) (n - j) q" for q
    using that co lf [OF that(1)] r by (auto simp: copied_def)
  moreover have "copy_of s s' (lookup s old (i * PGSIZE)) (lookup s' new (i * PGSIZE))" if i: "j \<le> i" "i < n" for i
  proof (cases "i = j")
    case True
    have l: "lookup s' new (i * PGSIZE) = lookup s3 new (i * PGSIZE)"
      using co in_range0 [of n i "Suc i"] far i(2) True vpath_leaf(1) by (simp add: copied_def lookup_def)
    show ?thesis
    proof (cases "lookup s old (i * PGSIZE)")
      case None
      then show ?thesis using here l True by simp
    next
      case (Some e)
      then obtain f where p: "lookup s3 new (i * PGSIZE) = Some f" "PTE_FLAGS f = PTE_FLAGS e"
        "\<forall>k < PGSIZE. ram s3 (PTE2PA f + k) = ram s (PTE2PA e + k)" using here True by auto
      have "PTE2PA f \<in> frames s3 new" using p(1) framesI [OF vpath_leaf(1)] by (simp add: lookup_def)
      then have "\<forall>k < PGSIZE. ram s' (PTE2PA f + k) = ram s3 (PTE2PA f + k)"
        using st' frame_bytes by (auto simp: space_step_def same_outside_def)
      then show ?thesis using l p Some by simp
    qed
  next
    case False
    then have "copy_of s3 s' (lookup s3 old (i * PGSIZE)) (lookup s' new (i * PGSIZE))" using co i by (simp add: copied_def)
    moreover have lo: "lookup s3 old (i * PGSIZE) = lookup s old (i * PGSIZE)" using AS(2) [OF vpath_leaf(1)] by (simp add: lookup_def)
    ultimately show ?thesis
      using AS(3) frame_bytes range_frame [OF i(2)] by (cases "lookup s old (i * PGSIZE)") auto
  qed
  ultimately show ?thesis by (simp add: copied_def)
qed

lemma flags_copied:
  assumes "has e PTE_V"
  shows "perm_ok (PTE_FLAGS e)" "PTE_FLAGS (pte_of page (PTE_FLAGS e)) = PTE_FLAGS e"
proof -
  have m: "bit (0x3FF :: uint64) n \<longleftrightarrow> n < 10" for n
  proof -
    have "(0x3FF :: uint64) = mask 10" by (simp add: mask_eq_exp_minus_1)
    then show ?thesis unfolding \<open>(0x3FF :: uint64) = mask 10\<close> by (auto simp: bit_mask_iff possible_bit_def)
  qed
  have fl: "bit (PTE_FLAGS x) n \<longleftrightarrow> bit x n \<and> n < 10" for x n unfolding PTE_FLAGS_def bit_and_iff m ..
  show "perm_ok (PTE_FLAGS e)" by (simp add: perm_ok_def fl)
  show "PTE_FLAGS (pte_of page (PTE_FLAGS e)) = PTE_FLAGS e"
    using assms by (intro bit_word_eqI) (auto simp: fl pte_of_def bit_or_iff bit_PA2PTE PTE_consts_bit flag_bits)
qed

lemma unmap_restored:
  assumes "as_ok s pt" "space_step pt (frames s pt) s t" "\<And>q. leaf_path q \<Longrightarrow> leaf t pt q = leaf s pt q"
    and i: "i * PGSIZE \<le> MAXVA" and m: "\<forall>p \<in> range_frames s pt 0 i. managed s p"
  shows "\<exists>s'. uvmunmap pt 0 i True t = Inr s' \<and> restored pt 0 i s s'"
proof -
  have r: "range_frames t pt 0 i = range_frames s pt 0 i" "frames t pt = frames s pt"
    using range_frames_cong frames_cong assms(3) by blast+
  have t: "as_ok t pt" "\<forall>p \<in> range_frames t pt 0 i. managed t p" "0 + i * PGSIZE \<le> MAXVA"
    using assms(2) m r space_step_managed [OF assms(2)] i by (auto simp: space_step_def)
  from uvmunmap_from_frees [OF t(1) _ t(3,2)] obtain s' where
    u: "uvmunmap_from pt 0 (i * PGSIZE) True t = Inr s'" "space_step pt (frames s pt - range_frames s pt 0 i) t s'"
      "\<forall>q. leaf_path q \<longrightarrow> leaf s' pt q = (if in_range 0 i q then None else leaf t pt q)" unfolding r by auto
  have "i * PGSIZE mod 2 ^ 64 = i * PGSIZE" using i by (simp add: MAXVA_def)
  then have "uvmunmap pt 0 i True t = Inr s'" using u(1) by (simp add: uvmunmap_def)
  moreover have "space_step pt (frames s pt - range_frames s pt 0 i) s s'"
    by (rule space_step_trans [OF space_step_mono [OF assms(2)] u(2)]) auto
  ultimately show ?thesis using u(3) assms(3) by (auto simp: restored_def)
qed

text \<open>The state after a page has been copied and mapped.\<close>

lemma copy_round:
  assumes ap: "apart n old new s" and fm: "\<And>i. i < n \<Longrightarrow> i * PGSIZE < MAXVA" and j: "j < n"
    and e: "lookup s old (j * PGSIZE) = Some e" "has e PTE_V"
    and pg: "page \<in> free_pages s" "managed s page" "same_outside {page} s s1" "page mod PGSIZE = 0"
    and lf: "\<And>q. leaf_path q \<Longrightarrow> leaf s3 new q = (if q = vpath (j * PGSIZE) then Some (pte_of page (PTE_FLAGS e)) else leaf s new q)"
    and ram: "\<And>x. PGROUNDDOWN x = page \<Longrightarrow> ram s3 x = ram (s1\<lparr>ram := memmove page (PTE2PA e) PGSIZE (ram s1)\<rparr>) x"
  shows "\<And>i. i < n \<Longrightarrow> i \<noteq> j \<Longrightarrow> lookup s3 new (i * PGSIZE) = lookup s new (i * PGSIZE)"
    "range_frames s3 new 0 (Suc j) = insert page (range_frames s new 0 j)"
    "copy_of s s3 (lookup s old (j * PGSIZE)) (lookup s3 new (j * PGSIZE))"
proof -
  note FL = flags_copied [OF e(2)]
  have vp: "PTE2PA (pte_of page (PTE_FLAGS e)) = page" by (rule PTE2PA_pte_of [OF pg(2) FL(1)])
  have l3: "lookup s3 new (j * PGSIZE) = Some (pte_of page (PTE_FLAGS e))" using lf [OF vpath_leaf(1)] by (simp add: lookup_def)
  show other: "lookup s3 new (i * PGSIZE) = lookup s new (i * PGSIZE)" if "i < n" "i \<noteq> j" for i
    using lf [OF vpath_leaf(1)] page_paths0 [OF fm [OF j] fm [OF that(1)]] that(2) by (simp add: lookup_def)
  have fo: "frame_of s3 new (i * PGSIZE) = frame_of s new (i * PGSIZE)" if "i < j" for i
    using other [of i] that j by (simp add: frame_of_def)
  show "range_frames s3 new 0 (Suc j) = insert page (range_frames s new 0 j)"
    unfolding range_frames_snoc using fo l3 vp by (simp add: range_frames_def frame_of_def [of s3 new "j * PGSIZE"])
  have pn: "PTE2PA e \<noteq> page" using range_frame [OF j e(1)] ap pg(1) by (auto simp: apart_def total_def)
  have "ram s3 (page + x) = ram s (PTE2PA e + x)" if "x < PGSIZE" for x
    using ram [of "page + x"] page_of [OF pg(4), of "page + x"] that pg(3) frame_bytes [OF that, of e] pn
    by (simp add: memmove_eq same_outside_def)
  then show "copy_of s s3 (lookup s old (j * PGSIZE)) (lookup s3 new (j * PGSIZE))" using e(1) l3 FL(2) vp by simp
qed

lemma uvmcopy_from_spec:
  assumes far: "\<And>i. i < n \<Longrightarrow> i * PGSIZE < sz" and sz: "sz \<le> n * PGSIZE" "n * PGSIZE \<le> MAXVA"
  shows "as_ok s new \<Longrightarrow> apart n old new s \<Longrightarrow> j \<le> n \<Longrightarrow> \<forall>i. j \<le> i \<and> i < n \<longrightarrow> lookup s new (i * PGSIZE) = None \<Longrightarrow>
    \<forall>p \<in> range_frames s new 0 j. managed s p \<Longrightarrow>
    \<exists>r s'. uvmcopy_from old new (j * PGSIZE) sz s = Inr (r, s')
      \<and> (r = 0 \<and> copied old new j n s s' \<or> r = -1 \<and> restored new 0 j s s')"
proof (induction "n - j" arbitrary: j s)
  case 0
  then have "j = n" by simp
  then have "\<not> j * PGSIZE < sz" using sz(1) by simp
  then have "uvmcopy_from old new (j * PGSIZE) sz s = Inr (0, s)" by (subst uvmcopy_from.simps) simp
  then show ?case using 0 space_step_refl [OF 0(2)] \<open>j = n\<close> by (auto simp: copied_def)
next
  case (Suc d)
  have j: "j < n" "d = n - Suc j" using Suc.hyps(2) by auto
  have fm: "i * PGSIZE < MAXVA" if "i < n" for i using far [OF that] sz by simp
  have a: "j * PGSIZE < sz" "j * PGSIZE < MAXVA" "(j * PGSIZE) mod PGSIZE = 0" "lookup s new (j * PGSIZE) = None"
    using far [OF j(1)] fm [OF j(1)] Suc.prems(4) j(1) by auto
  have tail: "\<exists>r s'. uvmcopy_from old new (Suc j * PGSIZE) sz t = Inr (r, s')
      \<and> (r = 0 \<and> copied old new (Suc j) n t s' \<or> r = -1 \<and> restored new 0 (Suc j) t s')"
    if "as_ok t new" "apart n old new t" "\<forall>i. Suc j \<le> i \<and> i < n \<longrightarrow> lookup t new (i * PGSIZE) = None" "\<forall>p \<in> range_frames t new 0 (Suc j). managed t p" for t
    using that j(1) by (intro Suc.hyps(1) [OF j(2)]) auto
  note wk = walk_lookup(3) [OF a(2), of old s]
  have nx: "j * PGSIZE + PGSIZE = Suc j * PGSIZE" by simp
  show ?case
  proof (cases "lookup s old (j * PGSIZE)")
    case None
    have "uvmcopy_from old new (j * PGSIZE) sz s = uvmcopy_from old new (Suc j * PGSIZE) sz s"
      using a(1) wk walk_lookup(2) [OF a(2), of s old] None
      by (subst uvmcopy_from.simps) (auto simp: add.commute split: option.split)
    moreover have "range_frames s new 0 (Suc j) = range_frames s new 0 j" using a(4) by (simp add: range_frames_snoc frame_of_def)
    moreover have "restored new 0 j s s'" if "restored new 0 (Suc j) s s'" for s'
      using that a(4) calculation(2) by (auto simp: restored_def in_range_snoc lookup_def)
    moreover have "copied old new j n s s'" if "copied old new (Suc j) n s s'" for s'
      using copied_one [OF fm j(1) Suc.prems(2) space_step_refl [OF Suc.prems(1)] _ _ _ that] None a(4) by simp
    ultimately show ?thesis using tail [OF Suc.prems(1,2)] Suc.prems(4,5) by auto
  next
    case (Some e)
    from walk_lookup(1) [OF a(2), THEN iffD1, OF Some] obtain pte where
      pte: "fst (walk_from 2 old (j * PGSIZE) False s) = Some pte" "get_pte pte s = e" "has e PTE_V" by blast
    note FL = flags_copied [OF pte(3)]
    obtain page s1 where k: "kalloc s = (page, s1)" by (cases "kalloc s")
    have undo: "\<exists>s'. uvmunmap new 0 (j * PGSIZE div PGSIZE) True t = Inr s' \<and> restored new 0 j s s'"
      if "space_step new (frames s new) s t" "\<And>q. leaf_path q \<Longrightarrow> leaf t new q = leaf s new q" for t
      using unmap_restored [OF Suc.prems(1) that _ Suc.prems(5)] a(2) by (simp add: PGSIZE_def)
    show ?thesis
    proof (cases "page = 0")
      case True
      then have "s1 = s" using kalloc_none(1) [OF as_okD(1) [OF Suc.prems(1)]] k by simp
      then show ?thesis using undo [OF space_step_refl [OF Suc.prems(1)]] a(1) wk pte k True
        by (subst uvmcopy_from.simps) (auto simp: Let_def)
    next
      case False
      note K = kalloc_spec [OF as_okD(1) [OF Suc.prems(1)] k False]
      let ?s2 = "s1\<lparr>ram := memmove page (PTE2PA e) PGSIZE (ram s1)\<rparr>"
      have s2: "same_outside {page} s1 ?s2" "freelist ?s2 = freelist s1" "kend ?s2 = kend s1"
        using page_of [OF K(7)] by (auto simp: same_outside_def memmove_eq)
      have step: "uvmcopy_from old new (j * PGSIZE) sz s =
        bindR (mappages new (j * PGSIZE) PGSIZE page (PTE_FLAGS e) ?s2) (\<lambda>(r, s3).
          if r \<noteq> 0 then bindR (kfree page s3) (\<lambda>s4. bindR (uvmunmap new 0 (j * PGSIZE div PGSIZE) True s4) (\<lambda>s5. Inr (-1, s5)))
          else uvmcopy_from old new (j * PGSIZE + PGSIZE) sz s3)"
        using a(1) wk pte k False by (subst uvmcopy_from.simps) (simp add: Let_def)
      from alloc_map [OF Suc.prems(1) a(3,2,4) FL(1) k False s2] show ?thesis
      proof cases
        case (2 s3 s4)
        then show ?thesis using undo [OF 2(3,4)] unfolding step by auto
      next
        case (1 s3)
        note R = copy_round [OF Suc.prems(2) fm j(1) Some pte(3) K(2,4,6,7) 1(3,4)]
        have nf: "page \<notin> frames s new" using K(2) Suc.prems(1) by (auto simp: as_ok_def)
        have none: "lookup s new (0 + j * PGSIZE) = None" using a(4) by simp
        have ok3: "as_ok s3 new" using 1(2) by (simp add: space_step_def)
        have m3: "\<forall>p \<in> range_frames s3 new 0 (Suc j). managed s3 p"
          using Suc.prems(5) K(4) space_step_managed [OF 1(2)] by (simp add: R(2))
        from tail [OF ok3 apart_step(1) [OF Suc.prems(2) 1(2)] _ m3] R(1) Suc.prems(4) obtain r s' where
          u: "uvmcopy_from old new (Suc j * PGSIZE) sz s3 = Inr (r, s')"
            "r = 0 \<and> copied old new (Suc j) n s3 s' \<or> r = -1 \<and> restored new 0 (Suc j) s3 s'" by auto
        have "uvmcopy_from old new (j * PGSIZE) sz s = Inr (r, s')" unfolding step nx using 1(1) u(1) by simp
        moreover have "copied old new (Suc j) n s3 s' \<Longrightarrow> copied old new j n s s'"
          using copied_one [OF fm j(1) Suc.prems(2) 1(2) _ R(3)] 1(3,5) by auto
        moreover have "restored new 0 (Suc j) s3 s' \<Longrightarrow> restored new 0 j s s'"
          using restored_one [OF none 1(2,5) nf _ R(2)] 1(3) by auto
        ultimately show ?thesis using u(2) by auto
      qed
    qed
  qed
qed

text \<open>
  C15: \<open>uvmcopy\<close> gives the child a copy of the parent's memory or nothing.  It never
  panics and changes no mapping and no byte of the parent.  If it returns 0, an address below the size is mapped in the
  child exactly if it is in the parent, with the same permissions and to a page with the
  same contents; if it returns -1, the child has the mappings it had before.  No page is
  lost in either case.
\<close>

theorem uvmcopy_copies_memory:
  assumes "as_ok s new" "sz \<le> TRAPFRAME" "apart (PGROUNDUP sz div PGSIZE) old new s"
    and "\<forall>i < PGROUNDUP sz div PGSIZE. lookup s new (i * PGSIZE) = None"
  shows "\<exists>r s'. uvmcopy old new sz s = Inr (r, s') \<and> as_ok s' new \<and> total s' new = total s new
    \<and> (\<forall>v. lookup s' old v = lookup s old v)
    \<and> (\<forall>x. PGROUNDDOWN x \<in> range_frames s old 0 (PGROUNDUP sz div PGSIZE) \<longrightarrow> ram s' x = ram s x)
    \<and> (r = 0 \<and> (\<forall>i < PGROUNDUP sz div PGSIZE. copy_of s s' (lookup s old (i * PGSIZE)) (lookup s' new (i * PGSIZE)))
       \<or> r = -1 \<and> (\<forall>v. lookup s' new v = lookup s new v))"
proof -
  define n where "n = PGROUNDUP sz div PGSIZE"
  have c: "sz + 4095 < 2 ^ 64" "sz \<le> MAXVA - 8192"
    using assms(2) by (simp_all add: TRAPFRAME_def TRAMPOLINE_def MAXVA_def PGSIZE_def)
  have n: "n = (sz + 4095) div 4096" using c(1) by (simp add: n_def PGROUNDUP_def PGSIZE_def)
  have "n * 4096 + (sz + 4095) mod 4096 = sz + 4095" "(sz + 4095) mod 4096 < 4096" unfolding n by simp_all
  then have b: "sz \<le> n * PGSIZE" "n * PGSIZE < sz + PGSIZE" unfolding PGSIZE_def by linarith+
  have far: "i * PGSIZE < sz" if "i < n" for i
  proof -
    have "Suc i * PGSIZE \<le> n * PGSIZE" using that by (intro mult_le_mono1) simp
    then show ?thesis using b(2) by simp
  qed
  have top: "n * PGSIZE \<le> MAXVA" using b(2) c(2) by (simp add: PGSIZE_def MAXVA_def)
  have "\<exists>r s'. uvmcopy_from old new (0 * PGSIZE) sz s = Inr (r, s')
      \<and> (r = 0 \<and> copied old new 0 n s s' \<or> r = -1 \<and> restored new 0 0 s s')"
    using assms by (intro uvmcopy_from_spec [OF far b(1) top]) (auto simp: n_def range_frames_def)
  then obtain r s' where u: "uvmcopy old new sz s = Inr (r, s')" "r = 0 \<and> copied old new 0 n s s' \<or> r = -1 \<and> restored new 0 0 s s'"
    by (auto simp: uvmcopy_def)
  then have st: "space_step new (frames s new) s s'" by (auto simp: copied_def restored_def range_frames_def)
  note AS = apart_step [OF assms(3) st]
  have "\<forall>v. lookup s' old v = lookup s old v" using AS(2) [OF vpath_leaf(1)] by (simp add: lookup_def)
  moreover have "r = 0 \<and> (\<forall>i < n. copy_of s s' (lookup s old (i * PGSIZE)) (lookup s' new (i * PGSIZE)))
      \<or> r = -1 \<and> (\<forall>v. lookup s' new v = lookup s new v)"
    using u(2) vpath_leaf(1) by (auto simp: copied_def restored_def lookup_def in_range_def [of _ 0])
  ultimately show ?thesis using u(1) st AS(3) by (auto simp: space_step_def n_def)
qed

theorem uvmcopy_copies_memory_witness:
  "\<exists>r s'. uvmcopy 0x80003000 0x80000000 5000 mini_phys = Inr (r, s') \<and> as_ok s' 0x80000000
     \<and> lookup s' 0x80003000 0 = None \<and> lookup s' 0x80000000 0 = None"
proof -
  have e: "entry mini_phys 0x80003000 i = 0" if "i < 512" for i
    using that unfolding entry_def get_pte_def mini_phys_def by (simp add: read_write64_other read64_zero)
  have m: "managed mini_phys 0x80003000" "0x80003000 \<notin> free_pages mini_phys"
    by (simp_all add: managed_def mini_phys_def PGSIZE_def PHYSTOP_def KERNBASE_def mini_phys_ok(2) [unfolded mini_phys_def])
  note F = fresh_table [OF m e]
  have l: "lookup mini_phys 0x80003000 v = None" for v unfolding lookup_def by (rule F(3)) (auto simp: vpath_leaf)
  have "frame_of mini_phys 0x80003000 v = {}" for v using l by (simp add: frame_of_def)
  then have ap: "apart (PGROUNDUP 5000 div PGSIZE) 0x80003000 0x80000000 mini_phys"
    using F(1,2) mini_phys_space(3) by (simp add: apart_def range_frames_def)
  have n: "PGROUNDUP 5000 div PGSIZE = 2" "5000 \<le> TRAPFRAME"
    by (simp_all add: PGROUNDUP_def PGSIZE_def TRAPFRAME_def TRAMPOLINE_def MAXVA_def)
  have "\<forall>i < PGROUNDUP 5000 div PGSIZE. lookup mini_phys 0x80000000 (i * PGSIZE) = None" using mini_phys_ok(4) by simp
  from uvmcopy_copies_memory [OF mini_phys_space(1) n(2) ap this] obtain r s' where
    u: "uvmcopy 0x80003000 0x80000000 5000 mini_phys = Inr (r, s')" "as_ok s' 0x80000000" "\<forall>v. lookup s' 0x80003000 v = lookup mini_phys 0x80003000 v"
      "r = 0 \<and> (\<forall>i < 2. copy_of mini_phys s' (lookup mini_phys 0x80003000 (i * PGSIZE)) (lookup s' 0x80000000 (i * PGSIZE)))
       \<or> r = -1 \<and> (\<forall>v. lookup s' 0x80000000 v = lookup mini_phys 0x80000000 v)" unfolding n(1) by blast
  then have "lookup s' 0x80000000 (0 * PGSIZE) = None" using l mini_phys_ok(4) by (elim disjE conjE) (auto dest: spec [of _ 0])
  then show ?thesis using u(1-3) l by auto
qed

end
