(* ===== verification/User_Grep.thy ===== *)
theory User_Grep
  imports Prelude
begin

text \<open>
  The user program \<open>grep\<close> (\<open>xv6-riscv/user/grep.c\<close>): the Kernighan and Pike
  matcher and the loop that reads a file through a buffer of 1024 bytes.  A C
  string is a list without its terminator.  How many bytes a call of \<open>read\<close>
  returns is chosen by a list of numbers.
\<close>

section \<open>The matcher\<close>

function matchhere :: "string \<Rightarrow> string \<Rightarrow> bool"
  and matchstar :: "char \<Rightarrow> string \<Rightarrow> string \<Rightarrow> bool" where
  "matchhere re tx =
     (case re of
        [] \<Rightarrow> True
      | c # re1 \<Rightarrow>
          if re1 \<noteq> [] \<and> hd re1 = CHR ''*'' then matchstar c (tl re1) tx
          else if c = CHR ''$'' \<and> re1 = [] then tx = []
          else if tx \<noteq> [] \<and> (c = CHR ''.'' \<or> c = hd tx) then matchhere re1 (tl tx)
          else False)"
| "matchstar c re tx =
     (if matchhere re tx then True
      else if tx \<noteq> [] \<and> (hd tx = c \<or> c = CHR ''.'') then matchstar c re (tl tx)
      else False)"
  by pat_completeness auto
termination
  by (relation "measures [\<lambda>x. case x of Inl (re, t) \<Rightarrow> length re | Inr (c, re, t) \<Rightarrow> length re,
      \<lambda>x. case x of Inl (re, t) \<Rightarrow> length t | Inr (c, re, t) \<Rightarrow> length t,
      \<lambda>x. case x of Inl _ \<Rightarrow> 0 | Inr _ \<Rightarrow> 1]") auto

declare matchhere.simps [simp del] matchstar.simps [simp del]

fun match_from :: "string \<Rightarrow> string \<Rightarrow> bool" where
  "match_from re [] = matchhere re []"
| "match_from re (c # tx) = (matchhere re (c # tx) \<or> match_from re tx)"

definition match :: "string \<Rightarrow> string \<Rightarrow> bool" where
  "match re tx =
     (if re \<noteq> [] \<and> hd re = CHR ''^'' then matchhere (tl re) tx else match_from re tx)"

section \<open>What a pattern means\<close>

definition fits :: "char \<Rightarrow> char \<Rightarrow> bool" where
  "fits c x = (c = CHR ''.'' \<or> c = x)"

inductive accepts :: "string \<Rightarrow> string \<Rightarrow> bool" where
  acc_end: "accepts [] t"
| acc_star: "list_all (fits c) s \<Longrightarrow> accepts re t \<Longrightarrow> accepts (c # CHR ''*'' # re) (s @ t)"
| acc_dollar: "accepts ''$'' []"
| acc_char: "re = [] \<or> hd re \<noteq> CHR ''*'' \<Longrightarrow> \<not> (c = CHR ''$'' \<and> re = []) \<Longrightarrow> fits c x \<Longrightarrow> accepts re t
    \<Longrightarrow> accepts (c # re) (x # t)"

inductive_cases accepts_ConsE: "accepts (c # re) t"

lemma matchhere_sound: "matchhere re t \<Longrightarrow> accepts re t"
  and matchstar_sound: "matchstar c re t \<Longrightarrow> \<exists>s t'. t = s @ t' \<and> list_all (fits c) s \<and> accepts re t'"
proof (induction re t and c re t rule: matchhere_matchstar.induct)
  case (1 re tx)
  show ?case
  proof (cases re)
    case Nil
    then show ?thesis by (simp add: acc_end)
  next
    case (Cons c re1)
    show ?thesis
    proof (cases "re1 \<noteq> [] \<and> hd re1 = CHR ''*''")
      case True
      then have "matchstar c (tl re1) tx" using 1(3) Cons by (simp add: matchhere.simps [of "c # re1"])
      from 1(1) [OF Cons True this] obtain s t' where "tx = s @ t'" "list_all (fits c) s" "accepts (tl re1) t'" by blast
      moreover have "re = c # CHR ''*'' # tl re1" using True Cons by (cases re1) auto
      ultimately show ?thesis by (simp add: acc_star)
    next
      case False
      show ?thesis
      proof (cases "c = CHR ''$'' \<and> re1 = []")
        case True
        then have "tx = []" using 1(3) Cons False by (simp add: matchhere.simps [of "''$''"])
        with True Cons show ?thesis by (simp add: acc_dollar)
      next
        case nd: False
        have m: "tx \<noteq> [] \<and> (c = CHR ''.'' \<or> c = hd tx)" "matchhere re1 (tl tx)"
          using 1(3) Cons False nd by (auto simp: matchhere.simps [of "c # re1"] split: if_splits)
        from 1(2) [OF Cons False nd m(1) m(2)] have "accepts re1 (tl tx)" .
        moreover obtain x t where "tx = x # t" using m(1) by (cases tx) auto
        ultimately show ?thesis using m(1) False nd Cons by (auto simp: fits_def intro: acc_char)
      qed
    qed
  qed
next
  case (2 c re tx)
  show ?case
  proof (cases "matchhere re tx")
    case True
    with 2(1) have "accepts re tx" by blast
    then have "tx = [] @ tx \<and> list_all (fits c) [] \<and> accepts re tx" by simp
    then show ?thesis by blast
  next
    case False
    then have m: "tx \<noteq> [] \<and> (hd tx = c \<or> c = CHR ''.'')" "matchstar c re (tl tx)"
      using 2(3) by (auto simp: matchstar.simps [of c re tx] split: if_splits)
    from 2(2) [OF False m(1,2)] obtain s t' where "tl tx = s @ t'" "list_all (fits c) s" "accepts re t'" by blast
    with m(1) have "tx = (hd tx # s) @ t' \<and> list_all (fits c) (hd tx # s) \<and> accepts re t'"
      by (cases tx) (auto simp: fits_def)
    then show ?thesis by blast
  qed
qed

lemma matchstar_complete:
  assumes "list_all (fits c) s" "matchhere re t"
  shows "matchstar c re (s @ t)"
  using assms(1)
proof (induction s)
  case Nil
  then show ?case using assms(2) by (simp add: matchstar.simps [of c re t])
next
  case (Cons x s)
  then show ?case by (auto simp: matchstar.simps [of c re "x # s @ t"] fits_def)
qed

lemma matchhere_complete: "accepts re t \<Longrightarrow> matchhere re t"
proof (induction rule: accepts.induct)
  case (acc_end t)
  show ?case by (simp add: matchhere.simps)
next
  case (acc_star c s re t)
  then show ?case by (simp add: matchhere.simps [of "c # CHR ''*'' # re"] matchstar_complete)
next
  case acc_dollar
  show ?case by (simp add: matchhere.simps)
next
  case (acc_char re c x t)
  then show ?case by (auto simp: matchhere.simps [of "c # re"] fits_def)
qed

lemma match_from_iff: "match_from re t \<longleftrightarrow> (\<exists>i \<le> length t. matchhere re (drop i t))"
proof (induction t)
  case (Cons c t)
  have "(\<exists>i \<le> length (c # t). matchhere re (drop i (c # t))) \<longleftrightarrow>
      matchhere re (c # t) \<or> (\<exists>i \<le> length t. matchhere re (drop i t))"
    by (metis (no_types, opaque_lifting) Suc_le_mono drop0 drop_Suc_Cons le0 length_Cons not0_implies_Suc)
  with Cons show ?case by simp
qed simp

text \<open>
  C31: the matcher is right: \<open>match\<close> holds exactly if the text has a place where
  the pattern fits, and for a pattern with a caret if it fits at the start.  Both
  functions always terminate.
\<close>

theorem match_correct:
  "match re tx \<longleftrightarrow>
     (if re \<noteq> [] \<and> hd re = CHR ''^'' then accepts (tl re) tx
      else \<exists>i. i \<le> length tx \<and> accepts re (drop i tx))"
proof -
  have "matchhere re t = accepts re t" for re t using matchhere_sound matchhere_complete by blast
  then show ?thesis by (simp add: match_def match_from_iff)
qed

section \<open>Reading a file\<close>

definition NL :: char where "NL = CHR 0x0A"
definition NUL :: char where "NUL = CHR 0x00"
definition BUFLEN :: nat where "BUFLEN = 1024"

text \<open>
  The inner loop: the lines that are complete in the buffer, up to a terminator,
  and what is left after them.
\<close>

function grep_lines :: "string \<Rightarrow> string \<Rightarrow> string \<times> string" where
  "grep_lines pat p =
     (let l = takeWhile (\<lambda>c. c \<noteq> NL \<and> c \<noteq> NUL) p; rest = drop (length l) p in
      if rest \<noteq> [] \<and> hd rest = NL then
        let (out, left) = grep_lines pat (tl rest) in ((if match pat l then l @ [NL] else []) @ out, left)
      else ([], p))"
  by pat_completeness auto
termination
proof (relation "measure (\<lambda>(pat, p). length p)", goal_cases)
  case (2 pat p l rest)
  from 2(3) have "length (tl rest) < length rest" by simp
  also from 2(2) have "length rest \<le> length p" by simp
  finally show ?case by simp
qed simp

declare grep_lines.simps [simp del]

text \<open>
  \<open>cur\<close> is what is left in the buffer and \<open>file\<close> what has not been read; each
  number \<open>k\<close> lets one call of \<open>read\<close> return at most \<open>k + 1\<close> bytes.
\<close>

primrec grep :: "string \<Rightarrow> nat list \<Rightarrow> string \<Rightarrow> string \<Rightarrow> string option" where
  "grep pat [] cur left = None"
| "grep pat (k # ks) cur left =
     (let n = min (Suc k) (min (BUFLEN - length cur - 1) (length left)) in
      if n = 0 then Some []
      else let (out, rest) = grep_lines pat (cur @ take n left)
           in map_option ((@) out) (grep pat ks rest (drop n left)))"

fun matching_lines :: "string \<Rightarrow> string list \<Rightarrow> string" where
  "matching_lines pat [] = []"
| "matching_lines pat (l # ls) = (if match pat l then l @ [NL] else []) @ matching_lines pat ls"

definition file_of :: "string list \<Rightarrow> string" where
  "file_of ls = concat (map (\<lambda>l. l @ [NL]) ls)"

definition line_ok :: "string \<Rightarrow> bool" where
  "line_ok l = (NL \<notin> set l \<and> NUL \<notin> set l \<and> length l < BUFLEN - 1)"

lemma grep_lines_line:
  assumes "NL \<notin> set l" "NUL \<notin> set l"
  shows "grep_lines pat (l @ NL # p) =
    (let (out, left) = grep_lines pat p in ((if match pat l then l @ [NL] else []) @ out, left))"
proof -
  have "takeWhile (\<lambda>c. c \<noteq> NL \<and> c \<noteq> NUL) (l @ NL # p) = l"
    using assms by (induction l) auto
  then show ?thesis by (simp add: grep_lines.simps [of pat "l @ NL # p"] Let_def)
qed

lemma grep_lines_partial:
  assumes "NL \<notin> set l"
  shows "grep_lines pat l = ([], l)"
proof -
  define w where "w = length (takeWhile (\<lambda>c. c \<noteq> NL \<and> c \<noteq> NUL) l)"
  have "set (drop w l) \<subseteq> set l" by (rule set_drop_subset)
  then have "\<not> (drop w l \<noteq> [] \<and> hd (drop w l) = NL)" using assms by (metis hd_in_set subsetD)
  then show ?thesis by (subst grep_lines.simps) (simp only: Let_def w_def [symmetric] if_False)
qed

text \<open>A prefix of a file is some whole lines and a part of the next one.\<close>

lemma prefix_of_file:
  assumes "cur @ left = file_of ls" "\<forall>l \<in> set ls. line_ok l"
  shows "\<exists>whole rest part. ls = whole @ rest \<and> cur = file_of whole @ part \<and> part @ left = file_of rest
    \<and> NL \<notin> set part \<and> (rest \<noteq> [] \<longrightarrow> length part \<le> length (hd rest)) \<and> (rest = [] \<longrightarrow> part = [])"
  using assms
proof (induction ls arbitrary: cur)
  case Nil
  then show ?case by (auto simp: file_of_def intro: exI [of _ "[]"])
next
  case (Cons l ls)
  have l: "NL \<notin> set l" using Cons.prems(2) by (simp add: line_ok_def)
  show ?case
  proof (cases "length cur \<le> length l")
    case True
    have "cur = take (length cur) (cur @ left)" by simp
    also have "\<dots> = take (length cur) l" using Cons.prems(1) True by (simp add: file_of_def)
    finally have c: "cur = take (length cur) l" .
    then have "NL \<notin> set cur" using l by (metis in_set_takeD)
    then show ?thesis
      using True Cons.prems(1) by (intro exI [of _ "[]"] exI [of _ "l # ls"] exI [of _ cur]) (simp add: file_of_def)
  next
    case False
    have e: "cur @ left = (l @ [NL]) @ file_of ls" using Cons.prems(1) by (simp add: file_of_def)
    have len: "length (l @ [NL]) \<le> length cur" using False by simp
    obtain cur' where cur: "cur = (l @ [NL]) @ cur'"
      using e len by (metis append_eq_append_conv_if append_take_drop_id)
    with e have "cur' @ left = file_of ls" by simp
    from Cons.IH [OF this] Cons.prems(2) obtain d r p where
      "ls = d @ r" "cur' = file_of d @ p" "p @ left = file_of r" "NL \<notin> set p"
      "r \<noteq> [] \<longrightarrow> length p \<le> length (hd r)" "r = [] \<longrightarrow> p = []" by auto
    then show ?thesis
      by (intro exI [of _ "l # d"] exI [of _ r] exI [of _ p]) (auto simp: cur file_of_def)
  qed
qed

lemma grep_lines_file:
  "\<forall>l \<in> set ls. line_ok l \<Longrightarrow> NL \<notin> set part \<Longrightarrow>
   grep_lines pat (file_of ls @ part) = (matching_lines pat ls, part)"
proof (induction ls)
  case Nil
  then show ?case by (simp add: file_of_def grep_lines_partial)
next
  case (Cons l ls)
  then have "grep_lines pat (l @ NL # (file_of ls @ part)) =
      ((if match pat l then l @ [NL] else []) @ matching_lines pat ls, part)"
    by (simp add: grep_lines_line line_ok_def)
  then show ?case by (simp add: file_of_def)
qed

lemma matching_lines_append: "matching_lines pat (ls @ ms) = matching_lines pat ls @ matching_lines pat ms"
  by (induction ls) simp_all

lemma grep_invariant:
  assumes "length left < length ks" "part @ left = file_of ls" "\<forall>l \<in> set ls. line_ok l"
    "NL \<notin> set part" "ls \<noteq> [] \<longrightarrow> length part \<le> length (hd ls)" "ls = [] \<longrightarrow> part = []"
  shows "grep pat ks part left = Some (matching_lines pat ls)"
  using assms
proof (induction ks arbitrary: part left ls)
  case (Cons k ks)
  define n where "n = min (Suc k) (min (BUFLEN - length part - 1) (length left))"
  show ?case
  proof (cases "left = []")
    case True
    then have "ls = []" using Cons.prems(2,4) by (cases ls) (auto simp: file_of_def)
    with True show ?thesis by simp
  next
    case False
    have "ls \<noteq> []" using Cons.prems(2) False by (auto simp: file_of_def)
    moreover from this have "line_ok (hd ls)" using Cons.prems(3) by simp
    ultimately have "length part < BUFLEN - 1" using Cons.prems(5) by (simp add: line_ok_def)
    then have n: "0 < n" "n \<le> length left" using False unfolding n_def by (simp_all add: BUFLEN_def)
    have "(part @ take n left) @ drop n left = file_of ls" using Cons.prems(2) by simp
    from prefix_of_file [OF this Cons.prems(3)] obtain d r p where f: "ls = d @ r" "part @ take n left = file_of d @ p"
      "p @ drop n left = file_of r" "NL \<notin> set p" "r \<noteq> [] \<longrightarrow> length p \<le> length (hd r)" "r = [] \<longrightarrow> p = []" by blast
    have ok: "\<forall>l \<in> set d. line_ok l" "\<forall>l \<in> set r. line_ok l" using Cons.prems(3) f(1) by simp_all
    have "length (drop n left) < length ks" using Cons.prems(1) n by simp
    from Cons.IH [OF this f(3) ok(2) f(4-6)]
    have "grep pat ks p (drop n left) = Some (matching_lines pat r)" .
    moreover have "grep_lines pat (part @ take n left) = (matching_lines pat d, p)"
      unfolding f(2) using ok(1) f(4) by (rule grep_lines_file)
    ultimately show ?thesis using n
      unfolding grep.simps n_def [symmetric] Let_def by (simp add: f(1) matching_lines_append)
  qed
qed simp

text \<open>
  \<open>grep\<close> prints exactly the matching lines of a file, in order, however the
  bytes arrive, if every line ends in a newline and is shorter than 1023 bytes.
\<close>

theorem grep_prints_matching_lines:
  assumes "\<forall>l \<in> set ls. line_ok l" "length (file_of ls) < length ks"
  shows "grep pat ks [] (file_of ls) = Some (matching_lines pat ls)"
  by (rule grep_invariant) (use assms in auto)

theorem grep_prints_matching_lines_witness:
  "grep ''b'' (replicate 9 1) [] (file_of [''abc'', ''x'']) = Some (matching_lines ''b'' [''abc'', ''x''])"
  using grep_prints_matching_lines [of "[''abc'', ''x'']" "replicate 9 1" "''b''"]
  by (simp add: line_ok_def NL_def NUL_def BUFLEN_def file_of_def)

text \<open>
  a line that does not fit the buffer ends the search: once 1023 bytes without
  a newline have been read, \<open>grep\<close> asks for no more bytes, takes the empty answer
  for the end of the file, and ignores the rest.
\<close>

theorem grep_stops_at_long_line:
  assumes "NL \<notin> set part" "length part = BUFLEN - 1"
  shows "grep pat (k # ks) part left = Some []"
  using assms by (simp add: BUFLEN_def Let_def)

theorem grep_stops_at_long_line_witness:
  "length (replicate (BUFLEN - 1) CHR ''a'') = BUFLEN - 1
   \<and> grep ''b'' [5, 5] (replicate (BUFLEN - 1) CHR ''a'') (NL # ''b'' @ [NL]) = Some []"
  using grep_stops_at_long_line [of "replicate (BUFLEN - 1) CHR ''a''" "''b''" 5 "[5]" "NL # ''b'' @ [NL]"]
  by (simp add: NL_def BUFLEN_def)

end
