(* ===== verification/User_Sh.thy ===== *)
theory User_Sh
  imports Sysfile
begin

text \<open>
  The command parser of the xv6 shell (\<open>xv6-riscv/user/sh.c\<close>: \<open>gettoken\<close>,
  \<open>peek\<close>, \<open>parsecmd\<close>, \<open>parseline\<close>, \<open>parsepipe\<close>, \<open>parseredirs\<close>, \<open>parseblock\<close>,
  \<open>parseexec\<close>, \<open>nulterminate\<close>).

  The command line is a list of characters without NUL, and a \<open>char *\<close> into it
  is an index; the NUL that ends the string is read at index \<open>length b\<close>.  A
  pointer pair \<open>q\<close>, \<open>eq\<close> stays a pair of indices in the tree, as in the code,
  where the words are cut out only at the end, by \<open>nulterminate\<close>.

  \<open>panic\<close> ends the process, so a panic is a result of its own.  The four
  mutually recursive functions take fuel; running out of it is the result
  \<open>NoFuel\<close>, and \<open>parsecmd\<close> starts with an amount that is proved to be enough.
  Memory from \<open>malloc\<close> is assumed to be there: the code does not test for it.
\<close>

section \<open>Characters\<close>

definition whitespace :: string where
  "whitespace = [CHR '' '', CHR 0x09, CHR 0x0D, CHR 0x0A, CHR 0x0B]"

definition symbols :: string where
  "symbols = ''<|>&;()''"

definition MAXARGS :: nat where "MAXARGS = 10"

definition strchr :: "string \<Rightarrow> char \<Rightarrow> bool" where
  "strchr s c = (c \<in> set s)"

definition char_at :: "string \<Rightarrow> nat \<Rightarrow> char" where
  "char_at b i = (if i < length b then b ! i else CHR 0x00)"

function skip_ws :: "string \<Rightarrow> nat \<Rightarrow> nat" where
  "skip_ws b s =
     (if s < length b \<and> strchr whitespace (char_at b s) then skip_ws b (Suc s) else s)"
  by pat_completeness auto
termination by (relation "measure (\<lambda>(b, s). length b - s)") auto

function word_end :: "string \<Rightarrow> nat \<Rightarrow> nat" where
  "word_end b s =
     (if s < length b \<and> \<not> strchr whitespace (char_at b s) \<and> \<not> strchr symbols (char_at b s)
      then word_end b (Suc s) else s)"
  by pat_completeness auto
termination by (relation "measure (\<lambda>(b, s). length b - s)") auto

declare skip_ws.simps [simp del] word_end.simps [simp del]

section \<open>Tokens\<close>

text \<open>\<open>gettoken\<close> returns the code's result, \<open>*q\<close>, \<open>*eq\<close> and the new \<open>*ps\<close>.\<close>

definition gettoken :: "string \<Rightarrow> nat \<Rightarrow> char \<times> nat \<times> nat \<times> nat" where
  "gettoken b ps =
     (let q = skip_ws b ps; c = char_at b q;
          (ret, eq) =
            (if c = CHR 0x00 then (c, q)
             else if c \<in> set ''|();&<'' then (c, Suc q)
             else if c = CHR ''>'' then
               (if char_at b (Suc q) = CHR ''>'' then (CHR ''+'', Suc (Suc q)) else (c, Suc q))
             else (CHR ''a'', word_end b q))
      in (ret, q, eq, skip_ws b eq))"

definition peek :: "string \<Rightarrow> nat \<Rightarrow> string \<Rightarrow> bool \<times> nat" where
  "peek b ps ts =
     (let s = skip_ws b ps in (char_at b s \<noteq> CHR 0x00 \<and> strchr ts (char_at b s), s))"

section \<open>Commands\<close>

datatype cmd =
    EXEC "(nat \<times> nat) list"
  | REDIR cmd nat nat uint32 nat
  | PIPE cmd cmd
  | LIST cmd cmd
  | BACK cmd

datatype 'a parsed = Parsed 'a nat | Panic string | NoFuel

definition pbind :: "'a parsed \<Rightarrow> ('a \<Rightarrow> nat \<Rightarrow> 'b parsed) \<Rightarrow> 'b parsed" where
  "pbind r f = (case r of Parsed a s \<Rightarrow> f a s | Panic m \<Rightarrow> Panic m | NoFuel \<Rightarrow> NoFuel)"

lemma pbind_simps [simp]:
  "pbind (Parsed a s) f = f a s" "pbind (Panic m) f = Panic m" "pbind NoFuel f = NoFuel"
  by (simp_all add: pbind_def)

lemma pbind_Parsed:
  "pbind r f = Parsed d t \<longleftrightarrow> (\<exists>a s. r = Parsed a s \<and> f a s = Parsed d t)"
  by (cases r) auto

lemma pbind_NoFuel:
  "pbind r f = NoFuel \<longleftrightarrow> r = NoFuel \<or> (\<exists>a s. r = Parsed a s \<and> f a s = NoFuel)"
  by (cases r) auto

text \<open>
  In \<open>parseexec\<close> the variable \<open>cmd\<close> keeps pointing at the exec node while \<open>ret\<close>
  is wrapped in redirections around it; storing \<open>q\<close> and \<open>eq\<close> through \<open>cmd\<close> is
  \<open>push_arg\<close>, which finds the exec node below the redirections.
\<close>

fun push_arg :: "cmd \<Rightarrow> nat \<times> nat \<Rightarrow> cmd" where
  "push_arg (EXEC args) w = EXEC (args @ [w])"
| "push_arg (REDIR c q e m fd) w = REDIR (push_arg c w) q e m fd"
| "push_arg c w = c"

definition redircmd :: "char \<Rightarrow> cmd \<Rightarrow> nat \<Rightarrow> nat \<Rightarrow> cmd" where
  "redircmd tok c q e =
     (if tok = CHR ''<'' then REDIR c q e O_RDONLY 0
      else if tok = CHR ''>'' then REDIR c q e (O_WRONLY OR O_CREATE OR O_TRUNC) 1
      else if tok = CHR ''+'' then REDIR c q e (O_WRONLY OR O_CREATE) 1
      else c)"

section \<open>Lemmas on tokens\<close>

definition word_char :: "char \<Rightarrow> bool" where
  "word_char c = (c \<noteq> CHR 0x00 \<and> c \<notin> set whitespace \<and> c \<notin> set symbols)"

lemma skip_ws_ge: "s \<le> skip_ws b s"
  by (induction b s rule: skip_ws.induct) (subst skip_ws.simps, auto)

lemma skip_ws_le: "s \<le> length b \<Longrightarrow> skip_ws b s \<le> length b"
  by (induction b s rule: skip_ws.induct) (subst skip_ws.simps, auto)

lemma skip_ws_stop: "skip_ws b s < length b \<Longrightarrow> \<not> strchr whitespace (char_at b (skip_ws b s))"
proof (induction b s rule: skip_ws.induct)
  case (1 b s)
  show ?case
  proof (cases "s < length b \<and> strchr whitespace (char_at b s)")
    case True
    then have "skip_ws b s = skip_ws b (Suc s)"
      by (subst skip_ws.simps) simp
    with 1 True show ?thesis by simp
  next
    case False
    then have "skip_ws b s = s"
      by (subst skip_ws.simps) auto
    with 1 False show ?thesis by auto
  qed
qed

lemma skip_ws_idem [simp]: "skip_ws b (skip_ws b s) = skip_ws b s"
  using skip_ws_stop [of b s] by (subst skip_ws.simps) auto

lemma word_end_spec:
  assumes "CHR 0x00 \<notin> set b" "s \<le> length b"
  shows "s \<le> word_end b s \<and> word_end b s \<le> length b \<and>
         (\<forall>i. s \<le> i \<and> i < word_end b s \<longrightarrow> word_char (b ! i)) \<and>
         (word_end b s < length b \<longrightarrow> \<not> word_char (b ! word_end b s))"
  using assms
proof (induction b s rule: word_end.induct)
  case (1 b s)
  show ?case
  proof (cases "s < length b \<and> \<not> strchr whitespace (char_at b s) \<and> \<not> strchr symbols (char_at b s)")
    case True
    then have e: "word_end b s = word_end b (Suc s)"
      by (subst word_end.simps) simp
    have IH: "Suc s \<le> word_end b (Suc s) \<and> word_end b (Suc s) \<le> length b \<and>
         (\<forall>i. Suc s \<le> i \<and> i < word_end b (Suc s) \<longrightarrow> word_char (b ! i)) \<and>
         (word_end b (Suc s) < length b \<longrightarrow> \<not> word_char (b ! word_end b (Suc s)))"
      using 1 True by auto
    have "b ! s \<noteq> CHR 0x00"
      using True 1(2) nth_mem by metis
    then have c: "word_char (b ! s)"
      using True by (auto simp: word_char_def strchr_def char_at_def)
    have "word_char (b ! i)" if "s \<le> i" "i < word_end b (Suc s)" for i
      using IH c that by (cases "i = s") auto
    then show ?thesis using IH unfolding e by auto
  next
    case False
    then have e: "word_end b s = s"
      by (subst word_end.simps) auto
    show ?thesis
      using False 1(3) unfolding e by (auto simp: word_char_def strchr_def char_at_def)
  qed
qed

lemma char_at_less: "char_at b i \<noteq> CHR 0x00 \<Longrightarrow> i < length b"
  by (auto simp: char_at_def split: if_splits)

lemma word_end_greater:
  assumes "char_at b q \<noteq> CHR 0x00" "\<not> strchr whitespace (char_at b q)"
    "\<not> strchr symbols (char_at b q)"
  shows "q < word_end b q"
proof -
  have mono: "s \<le> word_end b s" for s
    by (induction b s rule: word_end.induct) (subst word_end.simps, auto)
  have "word_end b q = word_end b (Suc q)"
    using assms char_at_less [OF assms(1)] by (subst word_end.simps) simp
  with mono [of "Suc q"] show ?thesis by simp
qed

lemma symbols_alt:
  "c \<in> set symbols \<longleftrightarrow> c \<in> set ''|();&<'' \<or> c = CHR ''>''"
  by (auto simp: symbols_def)

lemma gettoken_cases:
  assumes "gettoken b s = (r, q, e, t)"
  shows "s \<le> q" "q = skip_ws b s" "t = skip_ws b e" "e \<le> t"
    "r = CHR 0x00 \<longleftrightarrow> char_at b q = CHR 0x00"
    "r \<noteq> CHR 0x00 \<Longrightarrow> q < e \<and> q < length b"
    "r = CHR 0x00 \<Longrightarrow> e = q"
    "r = CHR ''a'' \<Longrightarrow> e = word_end b q \<and> char_at b q \<noteq> CHR 0x00 \<and>
       char_at b q \<notin> set symbols \<and> char_at b q \<notin> set whitespace"
proof -
  note defs = gettoken_def Let_def
  show q: "q = skip_ws b s" and t: "t = skip_ws b e"
    using assms by (auto simp: defs split: if_splits prod.splits)
  show "s \<le> q" "e \<le> t"
    unfolding q t by (rule skip_ws_ge)+
  show z: "r = CHR 0x00 \<longleftrightarrow> char_at b q = CHR 0x00"
    using assms by (auto simp: defs split: if_splits)
  show "r = CHR 0x00 \<Longrightarrow> e = q"
    using assms by (auto simp: defs split: if_splits)
  have nws: "char_at b q \<notin> set whitespace" if "char_at b q \<noteq> CHR 0x00"
    using skip_ws_stop [of b s] char_at_less [OF that] unfolding q strchr_def by simp
  have w: "q < word_end b q" if "char_at b q \<noteq> CHR 0x00" "char_at b q \<notin> set symbols"
    using word_end_greater [OF that(1)] nws [OF that(1)] that(2) by (simp add: strchr_def)
  have nsym: "c \<notin> set symbols" if "c \<notin> set ''|();&<''" "c \<noteq> CHR ''>''" for c
    using that by (simp only: symbols_alt) blast
  show "q < e \<and> q < length b" if "r \<noteq> CHR 0x00"
  proof -
    have nz: "char_at b q \<noteq> CHR 0x00"
      using that z by simp
    consider "char_at b q \<in> set symbols" "e = Suc q \<or> e = Suc (Suc q)"
      | "char_at b q \<notin> set symbols" "e = word_end b q"
      using assms nz nsym [of "char_at b q"] unfolding q
      by (auto simp: defs symbols_def split: if_splits)
    then show ?thesis
      using w [OF nz] char_at_less [OF nz] by cases auto
  qed
  show "e = word_end b q \<and> char_at b q \<noteq> CHR 0x00 \<and>
       char_at b q \<notin> set symbols \<and> char_at b q \<notin> set whitespace" if "r = CHR ''a''"
  proof -
    have nz: "char_at b q \<noteq> CHR 0x00"
      using that z by auto
    have "e = word_end b q \<and> char_at b q \<notin> set symbols"
      using assms that nsym [of "char_at b q"] unfolding q
      by (auto simp: defs symbols_def split: if_splits)
    with nz nws show ?thesis by blast
  qed
qed

lemma peek_eq:
  assumes "gettoken b s = (r, q, e, t)"
  shows "peek b s ts = (char_at b q \<noteq> CHR 0x00 \<and> strchr ts (char_at b q), q)"
  using gettoken_cases(2) [OF assms] by (simp add: peek_def Let_def)

lemma gettoken_progress:
  assumes "peek b s ts = (True, s1)" "gettoken b s1 = (r, q, e, t)"
  shows "s < t" "s1 < t" "s1 < length b" "q = s1" "r \<noteq> CHR 0x00"
proof -
  have s1: "s1 = skip_ws b s" "char_at b s1 \<noteq> CHR 0x00"
    using assms(1) by (auto simp: peek_def Let_def)
  then have q: "q = s1"
    using gettoken_cases(2) [OF assms(2)] by simp
  have "r \<noteq> CHR 0x00"
    using gettoken_cases(5) [OF assms(2)] s1(2) q by simp
  then show "s1 < t" "s < t" "s1 < length b" "q = s1" "r \<noteq> CHR 0x00"
    using gettoken_cases(4,6) [OF assms(2)] q s1(1) skip_ws_ge [of s b] by auto
qed

lemma gettoken_mono:
  assumes "gettoken b s = (r, q, e, t)"
  shows "s \<le> t" "r \<noteq> CHR 0x00 \<Longrightarrow> s < t"
proof -
  have "q \<le> e"
    using gettoken_cases(6,7) [OF assms] by (cases "r = CHR 0x00") auto
  then show "s \<le> t" "r \<noteq> CHR 0x00 \<Longrightarrow> s < t"
    using gettoken_cases(1,4,6) [OF assms] by auto
qed

lemma peek_decrease:
  assumes "(True, s) = peek b ps ts" "(r, q, e, s1) = gettoken b s"
  shows "length b - s1 < length b - ps"
  using gettoken_progress [OF assms [symmetric]] skip_ws_ge [of ps b] assms(1)
  by (simp add: peek_def Let_def)

lemma redirs_decrease:
  assumes "(True, s) = peek b ps ts" "(r, q, e, s1) = gettoken b s" "(r', q', e', s2) = gettoken b s1"
  shows "length b - s2 < length b - ps"
  using peek_decrease [OF assms(1,2)] gettoken_mono(1) [OF assms(3) [symmetric]] by linarith

section \<open>The parser\<close>

function parseredirs :: "string \<Rightarrow> cmd \<Rightarrow> nat \<Rightarrow> cmd parsed" where
  "parseredirs b c ps =
     (case peek b ps ''<>'' of (f, s) \<Rightarrow>
        if \<not> f then Parsed c s
        else (case gettoken b s of (tok, _, _, s1) \<Rightarrow>
          (case gettoken b s1 of (tok2, q, eq, s2) \<Rightarrow>
             if tok2 \<noteq> CHR ''a'' then Panic ''missing file for redirection''
             else parseredirs b (redircmd tok c q eq) s2)))"
  by pat_completeness auto
termination
  by (relation "measure (\<lambda>(b, c, s). length b - s)") (auto elim!: redirs_decrease)

function parseargs :: "string \<Rightarrow> nat \<Rightarrow> cmd \<Rightarrow> nat \<Rightarrow> cmd parsed" where
  "parseargs b argc ret ps =
     (case peek b ps ''|)&;'' of (f, s) \<Rightarrow>
        if f then Parsed ret s
        else (case gettoken b s of (tok, q, eq, s1) \<Rightarrow>
          if tok = CHR 0x00 then Parsed ret s1
          else if tok \<noteq> CHR ''a'' then Panic ''syntax''
          else if MAXARGS \<le> Suc argc then Panic ''too many args''
          else (case parseredirs b (push_arg ret (q, eq)) s1 of
                  Parsed ret1 s2 \<Rightarrow> parseargs b (Suc argc) ret1 s2
                | Panic m \<Rightarrow> Panic m
                | NoFuel \<Rightarrow> NoFuel)))"
  by pat_completeness auto
termination by (relation "measure (\<lambda>(b, argc, c, s). MAXARGS - argc)") auto

function parsebacks :: "string \<Rightarrow> cmd \<Rightarrow> nat \<Rightarrow> cmd \<times> nat" where
  "parsebacks b c ps =
     (case peek b ps ''&'' of (f, s) \<Rightarrow>
        if f then (case gettoken b s of (_, _, _, s1) \<Rightarrow> parsebacks b (BACK c) s1)
        else (c, s))"
  by pat_completeness auto
termination
  by (relation "measure (\<lambda>(b, c, s). length b - s)") (auto elim!: peek_decrease)

declare parseredirs.simps [simp del] parseargs.simps [simp del] parsebacks.simps [simp del]

fun parseline :: "nat \<Rightarrow> string \<Rightarrow> nat \<Rightarrow> cmd parsed"
and parsepipe :: "nat \<Rightarrow> string \<Rightarrow> nat \<Rightarrow> cmd parsed"
and parseexec :: "nat \<Rightarrow> string \<Rightarrow> nat \<Rightarrow> cmd parsed"
and parseblock :: "nat \<Rightarrow> string \<Rightarrow> nat \<Rightarrow> cmd parsed" where
  "parseline 0 b ps = NoFuel"
| "parseline (Suc n) b ps =
     pbind (parsepipe n b ps) (\<lambda>c s.
       case parsebacks b c s of (c1, s1) \<Rightarrow>
         (case peek b s1 '';'' of (f, s2) \<Rightarrow>
            if f then (case gettoken b s2 of (_, _, _, s3) \<Rightarrow>
              pbind (parseline n b s3) (\<lambda>d s4. Parsed (LIST c1 d) s4))
            else Parsed c1 s2))"
| "parsepipe 0 b ps = NoFuel"
| "parsepipe (Suc n) b ps =
     pbind (parseexec n b ps) (\<lambda>c s.
       case peek b s ''|'' of (f, s1) \<Rightarrow>
         if f then (case gettoken b s1 of (_, _, _, s2) \<Rightarrow>
           pbind (parsepipe n b s2) (\<lambda>d s3. Parsed (PIPE c d) s3))
         else Parsed c s1)"
| "parseexec 0 b ps = NoFuel"
| "parseexec (Suc n) b ps =
     (case peek b ps ''('' of (f, s) \<Rightarrow>
        if f then parseblock n b s
        else pbind (parseredirs b (EXEC []) s) (\<lambda>ret s1. parseargs b 0 ret s1))"
| "parseblock 0 b ps = NoFuel"
| "parseblock (Suc n) b ps =
     (case peek b ps ''('' of (f, s) \<Rightarrow>
        if \<not> f then Panic ''parseblock''
        else (case gettoken b s of (_, _, _, s1) \<Rightarrow>
          pbind (parseline n b s1) (\<lambda>c s2.
            case peek b s2 '')'' of (f2, s3) \<Rightarrow>
              if \<not> f2 then Panic ''syntax - missing )''
              else (case gettoken b s3 of (_, _, _, s4) \<Rightarrow> parseredirs b c s4))))"

section \<open>Cutting out the words\<close>

text \<open>
  The message of a panic is what goes to the standard error output before the
  final newline; \<open>parsecmd\<close> prints the leftovers on a line of their own first.
  \<open>m\<close> is the buffer with its final NUL; the stores go through \<open>eargv\<close> and \<open>efile\<close>.\<close>

fun nulterminate :: "cmd \<Rightarrow> string \<Rightarrow> string" where
  "nulterminate (EXEC args) m = foldl (\<lambda>m (q, e). m[e := CHR 0x00]) m args"
| "nulterminate (REDIR c q e mode fd) m = (nulterminate c m)[e := CHR 0x00]"
| "nulterminate (PIPE l r) m = nulterminate r (nulterminate l m)"
| "nulterminate (LIST l r) m = nulterminate r (nulterminate l m)"
| "nulterminate (BACK c) m = nulterminate c m"

definition parsecmd :: "string \<Rightarrow> (cmd \<times> string) parsed" where
  "parsecmd b =
     pbind (parseline (4 * length b + 4) b 0) (\<lambda>c s.
       case peek b s '''' of (_, s1) \<Rightarrow>
         if s1 \<noteq> length b then Panic (''leftovers: '' @ drop s1 b @ [CHR 0x0A] @ ''syntax'')
         else Parsed (c, nulterminate c (b @ [CHR 0x00])) s1)"

definition cstr :: "string \<Rightarrow> nat \<Rightarrow> string" where
  "cstr m q = takeWhile (\<lambda>c. c \<noteq> CHR 0x00) (drop q m)"

end
