(* ===== verification/User_Sh_Grammar.thy ===== *)
theory User_Sh_Grammar
  imports User_Sh
begin

text \<open>
  What the parser of \<open>User_Sh\<close> accepts.  \<open>toks b s\<close> is the list of tokens of the
  text from index \<open>s\<close> on, and an inductive grammar says which token lists are a
  line, a pipeline, a block in parentheses or a simple command, with the tree
  each stands for.  The parser returns a tree exactly when the grammar has it,
  the fuel always suffices, and \<open>nulterminate\<close> turns every pointer of the tree
  into a C string that is exactly its word.
\<close>

section \<open>The tokens of a text\<close>

type_synonym token = "char \<times> nat \<times> nat"

lemma gettoken_decrease:
  assumes "(r, q, e, t) = gettoken b s" "r \<noteq> CHR 0x00"
  shows "length b - t < length b - s"
  using gettoken_cases(1,4,6) [OF assms(1) [symmetric]] assms(2) by auto

function toks :: "string \<Rightarrow> nat \<Rightarrow> token list" where
  "toks b s =
     (case gettoken b s of (r, q, e, t) \<Rightarrow> if r = CHR 0x00 then [] else (r, q, e) # toks b t)"
  by pat_completeness auto

termination
  by (relation "measure (\<lambda>(b, s). length b - s)") (auto intro!: gettoken_decrease)

declare toks.simps [simp del]

definition starts :: "string \<Rightarrow> token list \<Rightarrow> bool" where
  "starts ts us = (case us of [] \<Rightarrow> False | (r, _) # _ \<Rightarrow> (if r = CHR ''+'' then CHR ''>'' else r) \<in> set ts)"

lemma starts_simps [simp]:
  "\<not> starts ts []"
  "starts ts ((r, x) # us) \<longleftrightarrow> (if r = CHR ''+'' then CHR ''>'' else r) \<in> set ts"
  by (simp_all add: starts_def)

lemma gettoken_skip: "gettoken b (skip_ws b s) = gettoken b s"
  by (simp add: gettoken_def)

lemma toks_skip [simp]: "toks b (skip_ws b s) = toks b s"
  by (subst (1 2) toks.simps) (simp add: gettoken_skip)

lemma toks_gettoken:
  "gettoken b s = (r, q, e, t) \<Longrightarrow> toks b s = (if r = CHR 0x00 then [] else (r, q, e) # toks b t)"
  by (subst toks.simps) simp

lemma token_char:
  assumes "gettoken b s = (r, q, e, t)" "r \<noteq> CHR 0x00"
  shows "(if r = CHR ''+'' then CHR ''>'' else r) =
         (if char_at b q \<in> set symbols then char_at b q else CHR ''a'')"
  using assms gettoken_cases(2) [OF assms(1)]
  by (auto simp: gettoken_def Let_def symbols_def split: if_splits)

lemma peek_starts:
  assumes "set ts \<subseteq> set symbols"
  shows "peek b s ts = (starts ts (toks b s), skip_ws b s)"
proof -
  obtain r q e t where g: "gettoken b s = (r, q, e, t)"
    by (metis prod_cases4)
  have "CHR ''a'' \<notin> set ts" "CHR 0x00 \<notin> set ts"
    using assms by (auto simp: symbols_def)
  then show ?thesis
    using token_char [OF g] gettoken_cases(2,5) [OF g] assms
    by (auto simp: peek_eq [OF g] toks_gettoken [OF g] strchr_def split: if_splits)
qed

lemmas peek_symbols =
  peek_starts [of "''<>''"] peek_starts [of "''|)&;''"] peek_starts [of "''&''"]
  peek_starts [of "'';''"] peek_starts [of "''|''"] peek_starts [of "''(''"] peek_starts [of "'')''"]

lemma peeks [simp]:
  "peek b s ''<>'' = (starts ''<>'' (toks b s), skip_ws b s)"
  "peek b s ''|)&;'' = (starts ''|)&;'' (toks b s), skip_ws b s)"
  "peek b s ''&'' = (starts ''&'' (toks b s), skip_ws b s)"
  "peek b s '';'' = (starts '';'' (toks b s), skip_ws b s)"
  "peek b s ''|'' = (starts ''|'' (toks b s), skip_ws b s)"
  "peek b s ''('' = (starts ''('' (toks b s), skip_ws b s)"
  "peek b s '')'' = (starts '')'' (toks b s), skip_ws b s)"
  by (rule peek_symbols, simp add: symbols_def)+

lemma gettoken_Cons:
  assumes "toks b s = (r, q, e) # us"
  shows "\<exists>t. gettoken b s = (r, q, e, t) \<and> toks b t = us \<and> r \<noteq> CHR 0x00"
proof -
  obtain r' q' e' t where g: "gettoken b s = (r', q', e', t)"
    by (metis prod_cases4)
  then show ?thesis
    using assms toks_gettoken [OF g] by (auto split: if_splits)
qed

lemma gettoken_Nil:
  assumes "toks b s = []"
  shows "gettoken b s = (CHR 0x00, skip_ws b s, skip_ws b s, skip_ws b s)"
proof -
  obtain r q e t where g: "gettoken b s = (r, q, e, t)"
    by (metis prod_cases4)
  then have "r = CHR 0x00"
    using assms toks_gettoken [OF g] by (auto split: if_splits)
  then show ?thesis
    using gettoken_cases(2,3,7) [OF g] g by simp
qed

section \<open>The grammar\<close>

abbreviation Word :: "nat \<Rightarrow> nat \<Rightarrow> token" where
  "Word q e \<equiv> (CHR ''a'', q, e)"

fun nargs :: "cmd \<Rightarrow> nat" where
  "nargs (EXEC args) = length args"
| "nargs (REDIR c q e m fd) = nargs c"
| "nargs c = 0"

inductive gsimple :: "token list \<Rightarrow> cmd \<Rightarrow> bool" where
  empty: "gsimple [] (EXEC [])"
| arg: "gsimple ts c \<Longrightarrow> Suc (nargs c) < MAXARGS \<Longrightarrow>
        gsimple (ts @ [Word q e]) (push_arg c (q, e))"
| redir: "gsimple ts c \<Longrightarrow> tok \<in> set ''<>+'' \<Longrightarrow>
        gsimple (ts @ [(tok, x), Word q e]) (redircmd tok c q e)"

inductive gline :: "token list \<Rightarrow> cmd \<Rightarrow> bool"
and gback :: "token list \<Rightarrow> cmd \<Rightarrow> bool"
and gpipe :: "token list \<Rightarrow> cmd \<Rightarrow> bool"
and gexec :: "token list \<Rightarrow> cmd \<Rightarrow> bool"
and gblock :: "token list \<Rightarrow> cmd \<Rightarrow> bool" where
  line: "gback ts c \<Longrightarrow> gline ts c"
| seq: "gback ts c \<Longrightarrow> gline us d \<Longrightarrow> gline (ts @ (CHR '';'', x) # us) (LIST c d)"
| nobg: "gpipe ts c \<Longrightarrow> gback ts c"
| bg: "gback ts c \<Longrightarrow> gback (ts @ [(CHR ''&'', x)]) (BACK c)"
| one: "gexec ts c \<Longrightarrow> gpipe ts c"
| pipe: "gexec ts c \<Longrightarrow> gpipe us d \<Longrightarrow> gpipe (ts @ (CHR ''|'', x) # us) (PIPE c d)"
| simple: "gsimple ts c \<Longrightarrow> gexec ts c"
| block: "gblock ts c \<Longrightarrow> gexec ts c"
| paren: "gline ts c \<Longrightarrow> gblock ((CHR ''('', x) # ts @ [(CHR '')'', y)]) c"
| predir: "gblock ts c \<Longrightarrow> tok \<in> set ''<>+'' \<Longrightarrow>
        gblock (ts @ [(tok, x), Word q e]) (redircmd tok c q e)"

section \<open>The loops of the parser\<close>

lemma parseredirs_step:
  assumes "toks b s = (tok, x) # Word q e # us" "tok \<in> set ''<>+''"
  shows "\<exists>s'. toks b s' = us \<and> parseredirs b c s = parseredirs b (redircmd tok c q e) s'"
proof -
  obtain i j where x: "x = (i, j)" by (cases x)
  obtain t where t: "gettoken b s = (tok, i, j, t)" "toks b t = Word q e # us"
    using gettoken_Cons [of b s tok i j] assms(1) unfolding x by blast
  obtain u where u: "gettoken b t = (CHR ''a'', q, e, u)" "toks b u = us"
    using gettoken_Cons [OF t(2)] by blast
  have "parseredirs b c s = parseredirs b (redircmd tok c q e) u"
    using assms t u by (subst parseredirs.simps) (auto simp: gettoken_skip)
  with u(2) show ?thesis by blast
qed

lemma parseredirs_stop:
  "\<not> starts ''<>'' (toks b s) \<Longrightarrow> parseredirs b c s = Parsed c (skip_ws b s)"
  by (subst parseredirs.simps) simp

lemma nargs_redircmd [simp]: "nargs (redircmd tok c q e) = nargs c"
  by (simp add: redircmd_def)

lemma parseredirs_elim:
  assumes "parseredirs b c s = Parsed c' s'" "P [] c"
    and closed: "\<And>ts c tok x q e. P ts c \<Longrightarrow> tok \<in> set ''<>+'' \<Longrightarrow>
                   P (ts @ [(tok, x), Word q e]) (redircmd tok c q e)"
  shows "\<exists>ts. toks b s = ts @ toks b s' \<and> P ts c' \<and> nargs c' = nargs c \<and> s \<le> s' \<and>
              \<not> starts ''<>'' (toks b s')"
proof -
  have "\<exists>ts. toks b s = ts @ toks b s' \<and> P (ts0 @ ts) c' \<and> nargs c' = nargs c \<and> s \<le> s' \<and>
             \<not> starts ''<>'' (toks b s')"
    if "parseredirs b c s = Parsed c' s'" "P ts0 c" for ts0
    using that
  proof (induction "length b - s" arbitrary: c s ts0 rule: less_induct)
    case (less s c)
    show ?case
    proof (cases "starts ''<>'' (toks b s)")
      case False
      then show ?thesis
        using less(2,3) skip_ws_ge [of s b] by (auto simp: parseredirs_stop)
    next
      case True
      obtain tok i j t where t: "gettoken b s = (tok, i, j, t)"
        by (metis prod_cases4)
      obtain tok2 q e u where u: "gettoken b t = (tok2, q, e, u)"
        by (metis prod_cases4)
      have tok: "toks b s = (tok, i, j) # toks b t" "tok \<in> set ''<>+''"
        using True toks_gettoken [OF t] by (auto split: if_splits)
      have eq: "tok2 = CHR ''a''" "parseredirs b (redircmd tok c q e) u = Parsed c' s'"
        using less(2) True t u by (auto simp: parseredirs.simps [of b c s] gettoken_skip split: if_splits)
      have w: "toks b t = Word q e # toks b u"
        using toks_gettoken [OF u] eq(1) by simp
      have "P (ts0 @ [(tok, i, j), Word q e]) (redircmd tok c q e)"
        by (rule closed [OF less(3) tok(2)])
      moreover have "s \<le> u" "length b - u < length b - s"
        using gettoken_mono(1) [OF t] gettoken_mono(1) [OF u] gettoken_decrease [OF t [symmetric]] tok(2)
        by auto
      ultimately show ?thesis
        using less(1) [OF _ eq(2)] tok(1) w by fastforce
    qed
  qed
  from this [OF assms(1), of "[]"] show ?thesis
    using assms(2) by simp
qed

fun is_simple :: "cmd \<Rightarrow> bool" where
  "is_simple (EXEC args) = True"
| "is_simple (REDIR c q e m fd) = is_simple c"
| "is_simple c = False"

lemma is_simple_redircmd: "is_simple c \<Longrightarrow> is_simple (redircmd tok c q e)"
  by (simp add: redircmd_def)

lemma is_simple_push_arg: "is_simple c \<Longrightarrow> is_simple (push_arg c w) \<and> nargs (push_arg c w) = Suc (nargs c)"
  by (induction c) auto

lemma gsimple_is_simple: "gsimple ts c \<Longrightarrow> is_simple c"
  by (induction rule: gsimple.induct) (auto simp: is_simple_redircmd is_simple_push_arg)

text \<open>
  The loop of \<open>parseexec\<close> at the point where the redirections after the last
  word are still to be read.
\<close>

definition args_loop :: "string \<Rightarrow> cmd \<Rightarrow> nat \<Rightarrow> cmd parsed" where
  "args_loop b c s = pbind (parseredirs b c s) (\<lambda>ret s1. parseargs b (nargs c) ret s1)"

lemma args_loop_redir:
  assumes "toks b s = (tok, x) # Word q e # us" "tok \<in> set ''<>+''"
  shows "\<exists>s'. toks b s' = us \<and> args_loop b c s = args_loop b (redircmd tok c q e) s'"
  using parseredirs_step [OF assms, of c] by (auto simp: args_loop_def)

lemma args_loop_arg:
  assumes "toks b s = Word q e # us" "is_simple c" "Suc (nargs c) < MAXARGS"
  shows "\<exists>s'. toks b s' = us \<and> args_loop b c s = args_loop b (push_arg c (q, e)) s'"
proof -
  obtain t where t: "gettoken b s = (CHR ''a'', q, e, t)" "toks b t = us"
    using gettoken_Cons [OF assms(1)] by blast
  have "args_loop b c s = parseargs b (nargs c) c (skip_ws b s)"
    using assms(1) by (simp add: args_loop_def parseredirs_stop)
  also have "\<dots> = args_loop b (push_arg c (q, e)) t"
    using assms t is_simple_push_arg [OF assms(2)]
    by (subst parseargs.simps) (auto simp: gettoken_skip args_loop_def pbind_def)
  finally show ?thesis using t(2) by blast
qed

lemma args_loop_stop:
  assumes "us = [] \<or> starts ''|)&;'' us" "toks b s = us"
  shows "\<exists>s'. args_loop b c s = Parsed c s' \<and> toks b s' = us"
proof -
  have "\<not> starts ''<>'' (toks b s)"
    using assms by (cases us) (auto split: if_splits)
  then have "args_loop b c s = parseargs b (nargs c) c (skip_ws b s)"
    by (simp add: args_loop_def parseredirs_stop)
  also have "\<dots> = Parsed c (skip_ws b s)"
    using assms by (subst parseargs.simps) (auto simp: gettoken_Nil gettoken_skip)
  finally show ?thesis using assms(2) by simp
qed

lemma gsimple_complete:
  assumes "gsimple ts c" "toks b s = ts @ us"
  shows "\<exists>s'. toks b s' = us \<and> args_loop b (EXEC []) s = args_loop b c s'"
  using assms
proof (induction arbitrary: us rule: gsimple.induct)
  case empty
  then show ?case by auto
next
  case (arg ts c q e)
  obtain s1 where s1: "toks b s1 = Word q e # us" "args_loop b (EXEC []) s = args_loop b c s1"
    using arg.IH [of "Word q e # us"] arg.prems by auto
  show ?case
    using args_loop_arg [OF s1(1) gsimple_is_simple [OF arg.hyps(1)] arg.hyps(2)] s1(2) by auto
next
  case (redir ts c tok x q e)
  obtain s1 where s1: "toks b s1 = (tok, x) # Word q e # us" "args_loop b (EXEC []) s = args_loop b c s1"
    using redir.IH [of "(tok, x) # Word q e # us"] redir.prems by auto
  show ?case
    using args_loop_redir [OF s1(1) redir.hyps(2), of c] s1(2) by auto
qed

lemma parseargs_sound:
  assumes "parseargs b (nargs c) c s = Parsed c' s'" "gsimple ts0 c" "\<not> starts ''<>'' (toks b s)"
  shows "\<exists>ts. toks b s = ts @ toks b s' \<and> gsimple (ts0 @ ts) c' \<and> s \<le> s'"
  using assms
proof (induction "MAXARGS - nargs c" arbitrary: c s ts0 rule: less_induct)
  case less
  obtain tok q e t where t: "gettoken b s = (tok, q, e, t)"
    by (metis prod_cases4)
  show ?case
  proof (cases "starts ''|)&;'' (toks b s) \<or> tok = CHR 0x00")
    case True
    then have "c' = c \<and> toks b s' = toks b s \<and> s \<le> s'"
      using less(2) toks_gettoken [OF t] gettoken_cases(2,3,7) [OF t] t skip_ws_ge [of s b]
      by (subst (asm) parseargs.simps) (auto simp: gettoken_skip split: if_splits)
    then show ?thesis using less(3) by auto
  next
    case False
    then have p: "tok = CHR ''a''" "Suc (nargs c) < MAXARGS"
      using less(2) t by (auto simp: gettoken_skip parseargs.simps [of b _ c] split: if_splits)
    have eq: "pbind (parseredirs b (push_arg c (q, e)) t) (\<lambda>r s2. parseargs b (Suc (nargs c)) r s2) = Parsed c' s'"
      using less(2) t False p by (auto simp: gettoken_skip parseargs.simps [of b _ c] pbind_def)
    then obtain r s2 where r: "parseredirs b (push_arg c (q, e)) t = Parsed r s2"
      "parseargs b (Suc (nargs c)) r s2 = Parsed c' s'"
      by (auto simp: pbind_Parsed)
    have g: "gsimple (ts0 @ [Word q e]) (push_arg c (q, e))"
      by (rule gsimple.arg [OF less(3) p(2)])
    obtain ts where ts: "toks b t = ts @ toks b s2" "gsimple ((ts0 @ [Word q e]) @ ts) r"
      "nargs r = nargs (push_arg c (q, e))" "t \<le> s2" "\<not> starts ''<>'' (toks b s2)"
      using parseredirs_elim [OF r(1), of "\<lambda>ts. gsimple ((ts0 @ [Word q e]) @ ts)"]
        g gsimple.redir [of "(ts0 @ [Word q e]) @ _"] by fastforce
    have n: "nargs r = Suc (nargs c)"
      using ts(3) is_simple_push_arg [OF gsimple_is_simple [OF less(3)]] by simp
    obtain us where us: "toks b s2 = us @ toks b s'" "gsimple (((ts0 @ [Word q e]) @ ts) @ us) c'" "s2 \<le> s'"
      using less(1) [of r s2 "(ts0 @ [Word q e]) @ ts"] r(2) ts(2,5) n p(2) diff_less_mono2 [of "nargs c" "nargs r" MAXARGS]
      by auto
    have "toks b s = (Word q e # ts @ us) @ toks b s'"
      using toks_gettoken [OF t] p(1) ts(1) us(1) by simp
    moreover have "s \<le> s'"
      using gettoken_mono(1) [OF t] ts(4) us(3) by simp
    ultimately show ?thesis
      using us(2) by (intro exI [of _ "Word q e # ts @ us"]) simp
  qed
qed

lemma args_loop_sound:
  assumes "args_loop b (EXEC []) s = Parsed c' s'"
  shows "\<exists>ts. toks b s = ts @ toks b s' \<and> gsimple ts c' \<and> s \<le> s'"
proof -
  obtain r s1 where r: "parseredirs b (EXEC []) s = Parsed r s1" "parseargs b 0 r s1 = Parsed c' s'"
    using assms by (auto simp: args_loop_def pbind_Parsed)
  obtain ts where ts: "toks b s = ts @ toks b s1" "gsimple ts r" "nargs r = 0" "s \<le> s1"
    "\<not> starts ''<>'' (toks b s1)"
    using parseredirs_elim [OF r(1) gsimple.empty gsimple.redir] by auto
  then show ?thesis
    using parseargs_sound [of b r s1 c' s' ts] r(2) by fastforce
qed

lemma parsebacks_step:
  assumes "toks b s = (CHR ''&'', x) # us"
  shows "\<exists>s'. toks b s' = us \<and> parsebacks b c s = parsebacks b (BACK c) s'"
proof -
  obtain i j where x: "x = (i, j)" by (cases x)
  obtain t where t: "gettoken b s = (CHR ''&'', i, j, t)" "toks b t = us"
    using gettoken_Cons [of b s "CHR ''&''" i j us] assms unfolding x by blast
  have "parsebacks b c s = parsebacks b (BACK c) t"
    using assms t by (subst parsebacks.simps) (simp add: gettoken_skip)
  with t(2) show ?thesis by blast
qed

lemma parsebacks_stop:
  "\<not> starts ''&'' (toks b s) \<Longrightarrow> parsebacks b c s = (c, skip_ws b s)"
  by (subst parsebacks.simps) simp

lemma parsebacks_sound:
  assumes "parsebacks b c s = (c', s')" "gback ts0 c"
  shows "\<exists>ts. toks b s = ts @ toks b s' \<and> gback (ts0 @ ts) c' \<and> s \<le> s'"
  using assms
proof (induction "length b - s" arbitrary: c s ts0 rule: less_induct)
  case less
  show ?case
  proof (cases "starts ''&'' (toks b s)")
    case False
    then show ?thesis
      using less(2,3) skip_ws_ge [of s b] by (auto simp: parsebacks_stop)
  next
    case True
    obtain tok i j t where t: "gettoken b s = (tok, i, j, t)"
      by (metis prod_cases4)
    have tok: "toks b s = (CHR ''&'', i, j) # toks b t" "tok \<noteq> CHR 0x00"
      using True toks_gettoken [OF t] by (auto split: if_splits)
    have e: "parsebacks b (BACK c) t = (c', s')"
      using less(2) True t by (auto simp: parsebacks.simps [of b c s] gettoken_skip)
    obtain ts where "toks b t = ts @ toks b s'" "gback ((ts0 @ [(CHR ''&'', i, j)]) @ ts) c'" "t \<le> s'"
      using less(1) [OF gettoken_decrease [OF t [symmetric] tok(2)] e gline_gback_gpipe_gexec_gblock.bg [OF less(3)]] by blast
    then show ?thesis
      using tok(1) gettoken_mono(1) [OF t] by (intro exI [of _ "(CHR ''&'', i, j) # ts"]) simp
  qed
qed

section \<open>Fuel\<close>

lemma parseredirs_fuel [simp]: "parseredirs b c s \<noteq> NoFuel"
proof (induction "length b - s" arbitrary: c s rule: less_induct)
  case less
  obtain tok i j t where t: "gettoken b s = (tok, i, j, t)"
    by (metis prod_cases4)
  obtain tok2 q e u where u: "gettoken b t = (tok2, q, e, u)"
    by (metis prod_cases4)
  have "length b - u < length b - s" if "starts ''<>'' (toks b s)"
    using that toks_gettoken [OF t] gettoken_decrease [OF t [symmetric]] gettoken_mono(1) [OF u]
    by (auto split: if_splits)
  with less [of u] show ?case
    using t u by (subst parseredirs.simps) (auto simp: gettoken_skip)
qed

lemma parseargs_fuel [simp]: "parseargs b argc c s \<noteq> NoFuel"
proof (induction "MAXARGS - argc" arbitrary: c s argc rule: less_induct)
  case less
  then show ?case
    by (subst parseargs.simps) (auto split: parsed.split prod.split)
qed

lemma skip_peek: "toks b s = us \<Longrightarrow> starts ts us \<Longrightarrow> gettoken b s = (r, q, e, t) \<Longrightarrow> s < t \<and> s < length b"
  using gettoken_cases(1,6) [of b s r q e t] gettoken_mono(2) [of b s r q e t] toks_gettoken [of b s r q e t]
  by (auto split: if_splits)


section \<open>What is parsed is in the grammar\<close>

definition accepts :: "(token list \<Rightarrow> cmd \<Rightarrow> bool) \<Rightarrow> string \<Rightarrow> nat \<Rightarrow> cmd \<Rightarrow> nat \<Rightarrow> bool" where
  "accepts G b s c s' \<longleftrightarrow> (\<exists>ts. toks b s = ts @ toks b s' \<and> G ts c \<and> s \<le> s')"

lemma accepts_skip: "accepts G b s c s' \<Longrightarrow> accepts G b s c (skip_ws b s')"
  using skip_ws_ge [of s' b] by (fastforce simp: accepts_def)

lemma accepts_comp:
  assumes "accepts G b s c s1" "accepts H b s3 d s4" "toks b s1 = (r, q, e) # toks b s3" "s1 \<le> s3"
    and "\<And>ts us. G ts c \<Longrightarrow> H us d \<Longrightarrow> K (ts @ (r, q, e) # us) (k c d)"
  shows "accepts K b s (k c d) s4"
proof -
  obtain ts us where "toks b s = ts @ toks b s1" "G ts c" "s \<le> s1"
    "toks b s3 = us @ toks b s4" "H us d" "s3 \<le> s4"
    using assms(1,2) by (auto simp: accepts_def)
  with assms(3-5) show ?thesis
    unfolding accepts_def by (intro exI [of _ "ts @ (r, q, e) # us"]) simp
qed

lemma parsepipe_sound:
  assumes "\<And>s c s'. parseexec n b s = Parsed c s' \<Longrightarrow> accepts gexec b s c s'"
    "\<And>s c s'. parsepipe n b s = Parsed c s' \<Longrightarrow> accepts gpipe b s c s'"
    "parsepipe (Suc n) b s = Parsed c s'"
  shows "accepts gpipe b s c s'"
proof -
  obtain c1 s1 where c1: "parseexec n b s = Parsed c1 s1"
    using assms(3) by (auto simp: pbind_Parsed)
  obtain r q e s2 where g: "gettoken b s1 = (r, q, e, s2)"
    by (metis prod_cases4)
  show ?thesis
  proof (cases "starts ''|'' (toks b s1)")
    case True
    obtain d where d: "parsepipe n b s2 = Parsed d s'" "c = PIPE c1 d"
      using assms(3) c1 g True by (auto simp: gettoken_skip pbind_Parsed)
    have t: "toks b s1 = (CHR ''|'', q, e) # toks b s2"
      using True toks_gettoken [OF g] by (auto split: if_splits)
    show ?thesis
      unfolding d(2)
      by (rule accepts_comp [where k = PIPE and K = gpipe, OF assms(1) [OF c1] assms(2) [OF d(1)] t gettoken_mono(1) [OF g]
            gline_gback_gpipe_gexec_gblock.pipe])
  next
    case False
    then show ?thesis
      using assms(3) c1 accepts_skip [OF assms(1) [OF c1]]
      by (auto simp: accepts_def intro: gline_gback_gpipe_gexec_gblock.one)
  qed
qed

lemma parseline_sound:
  assumes "\<And>s c s'. parsepipe n b s = Parsed c s' \<Longrightarrow> accepts gpipe b s c s'"
    "\<And>s c s'. parseline n b s = Parsed c s' \<Longrightarrow> accepts gline b s c s'"
    "parseline (Suc n) b s = Parsed c s'"
  shows "accepts gline b s c s'"
proof -
  obtain c0 s0 where c0: "parsepipe n b s = Parsed c0 s0"
    using assms(3) by (auto simp: pbind_Parsed)
  obtain c1 s1 where c1: "parsebacks b c0 s0 = (c1, s1)"
    by (cases "parsebacks b c0 s0")
  obtain r q e s2 where g: "gettoken b s1 = (r, q, e, s2)"
    by (metis prod_cases4)
  obtain ts where ts: "toks b s = ts @ toks b s0" "gpipe ts c0" "s \<le> s0"
    using assms(1) [OF c0] by (auto simp: accepts_def)
  have "gback ts c0"
    by (rule gline_gback_gpipe_gexec_gblock.nobg [OF ts(2)])
  from parsebacks_sound [OF c1 this] ts have bk: "accepts gback b s c1 s1"
    unfolding accepts_def by fastforce
  show ?thesis
  proof (cases "starts '';'' (toks b s1)")
    case True
    obtain d where d: "parseline n b s2 = Parsed d s'" "c = LIST c1 d"
      using assms(3) c0 c1 g True by (auto simp: gettoken_skip pbind_Parsed)
    have t: "toks b s1 = (CHR '';'', q, e) # toks b s2"
      using True toks_gettoken [OF g] by (auto split: if_splits)
    show ?thesis
      unfolding d(2)
      by (rule accepts_comp [where k = LIST and K = gline, OF bk assms(2) [OF d(1)] t gettoken_mono(1) [OF g]
            gline_gback_gpipe_gexec_gblock.seq])
  next
    case False
    then show ?thesis
      using assms(3) c0 c1 accepts_skip [OF bk]
      by (auto simp: accepts_def intro: gline_gback_gpipe_gexec_gblock.line)
  qed
qed

lemma parseblock_sound:
  assumes "\<And>s c s'. parseline n b s = Parsed c s' \<Longrightarrow> accepts gline b s c s'"
    "parseblock (Suc n) b s = Parsed c s'"
  shows "accepts gblock b s c s'"
proof -
  have st: "starts ''('' (toks b s)"
    using assms(2) by (auto split: if_splits)
  obtain r q e s1 where g: "gettoken b s = (r, q, e, s1)"
    by (metis prod_cases4)
  have t: "toks b s = (CHR ''('', q, e) # toks b s1"
    using st toks_gettoken [OF g] by (auto split: if_splits)
  obtain c1 s2 where c1: "parseline n b s1 = Parsed c1 s2"
    using assms(2) st g by (auto simp: pbind_Parsed gettoken_skip)
  obtain r2 q2 e2 s4 where g2: "gettoken b s2 = (r2, q2, e2, s4)"
    by (metis prod_cases4)
  have st2: "starts '')'' (toks b s2)" and p: "parseredirs b c1 s4 = Parsed c s'"
    using assms(2) st g c1 g2 by (auto simp: gettoken_skip split: if_splits)
  have t2: "toks b s2 = (CHR '')'', q2, e2) # toks b s4"
    using st2 toks_gettoken [OF g2] by (auto split: if_splits)
  obtain ts where ts: "toks b s1 = ts @ toks b s2" "gline ts c1" "s1 \<le> s2"
    using assms(1) [OF c1] by (auto simp: accepts_def)
  let ?ts = "(CHR ''('', q, e) # ts @ [(CHR '')'', q2, e2)]"
  obtain rs where "toks b s4 = rs @ toks b s'" "gblock (?ts @ rs) c" "s4 \<le> s'"
    using parseredirs_elim [OF p, of "\<lambda>rs. gblock (?ts @ rs)"]
      gline_gback_gpipe_gexec_gblock.paren [OF ts(2), of "(q, e)" "(q2, e2)"]
      gline_gback_gpipe_gexec_gblock.predir [of "?ts @ _"] by fastforce
  then show ?thesis
    using t t2 ts gettoken_mono(1) [OF g] gettoken_mono(1) [OF g2]
    unfolding accepts_def by (intro exI [of _ "?ts @ rs"]) simp
qed

lemma parseexec_alt:
  "parseexec (Suc n) b s =
     (if starts ''('' (toks b s) then parseblock n b (skip_ws b s) else args_loop b (EXEC []) (skip_ws b s))"
  by (simp add: args_loop_def)

lemma parser_sound:
  "(\<forall>s c s'. parseline n b s = Parsed c s' \<longrightarrow> accepts gline b s c s') \<and>
   (\<forall>s c s'. parsepipe n b s = Parsed c s' \<longrightarrow> accepts gpipe b s c s') \<and>
   (\<forall>s c s'. parseexec n b s = Parsed c s' \<longrightarrow> accepts gexec b s c s') \<and>
   (\<forall>s c s'. parseblock n b s = Parsed c s' \<longrightarrow> accepts gblock b s c s')"
proof (induction n)
  case (Suc n)
  have "accepts gexec b s c s'" if "parseexec (Suc n) b s = Parsed c s'" for s c s'
  proof (cases "starts ''('' (toks b s)")
    case True
    then have "accepts gblock b (skip_ws b s) c s'"
      using that Suc unfolding parseexec_alt by auto
    then show ?thesis
      using skip_ws_ge [of s b]
      by (auto simp: accepts_def intro: gline_gback_gpipe_gexec_gblock.block)
  next
    case False
    then show ?thesis
      using that args_loop_sound [of b "skip_ws b s" c s'] skip_ws_ge [of s b] unfolding parseexec_alt
      by (auto simp: accepts_def intro: gline_gback_gpipe_gexec_gblock.simple)
  qed
  moreover have "accepts gline b s c s'" if "parseline (Suc n) b s = Parsed c s'" for s c s'
    using parseline_sound [OF _ _ that] Suc by blast
  moreover have "accepts gpipe b s c s'" if "parsepipe (Suc n) b s = Parsed c s'" for s c s'
    using parsepipe_sound [OF _ _ that] Suc by blast
  moreover have "accepts gblock b s c s'" if "parseblock (Suc n) b s = Parsed c s'" for s c s'
    using parseblock_sound [OF _ that] Suc by blast
  ultimately show ?case by blast
qed simp

section \<open>The fuel suffices\<close>

lemma parsed_mono:
  "parseline n b s = Parsed c s' \<Longrightarrow> s \<le> s'"
  "parsepipe n b s = Parsed c s' \<Longrightarrow> s \<le> s'"
  "parseexec n b s = Parsed c s' \<Longrightarrow> s \<le> s'"
  using parser_sound [of n b] unfolding accepts_def by blast+

lemma parsebacks_mono: "parsebacks b c s = (c', s') \<Longrightarrow> s \<le> s'"
proof (induction "length b - s" arbitrary: c s rule: less_induct)
  case less
  obtain tok i j t where t: "gettoken b s = (tok, i, j, t)"
    by (metis prod_cases4)
  show ?case
  proof (cases "starts ''&'' (toks b s)")
    case False
    then show ?thesis
      using less(2) skip_ws_ge [of s b] by (simp add: parsebacks_stop)
  next
    case True
    have "length b - t < length b - s"
      using True toks_gettoken [OF t] gettoken_decrease [OF t [symmetric]] by (auto split: if_splits)
    moreover have "parsebacks b (BACK c) t = (c', s')"
      using less(2) True t by (auto simp: parsebacks.simps [of b c s] gettoken_skip)
    ultimately show ?thesis
      using less(1) gettoken_mono(1) [OF t] by fastforce
  qed
qed

lemma symbol_advance:
  assumes "starts ts (toks b s)" "gettoken b s = (r, q, e, t)"
  shows "s < t" "s < length b"
  using skip_peek [OF refl assms] by simp_all

lemma parser_fuel:
  "(\<forall>s. 4 * (length b - s) + 4 \<le> n \<longrightarrow> parseline n b s \<noteq> NoFuel) \<and>
   (\<forall>s. 4 * (length b - s) + 3 \<le> n \<longrightarrow> parsepipe n b s \<noteq> NoFuel) \<and>
   (\<forall>s. 4 * (length b - s) + 2 \<le> n \<longrightarrow> parseexec n b s \<noteq> NoFuel) \<and>
   (\<forall>s. 4 * (length b - s) + 1 \<le> n \<longrightarrow> parseblock n b s \<noteq> NoFuel)"
proof (induction n)
  case (Suc n)
  have line: "parseline (Suc n) b s \<noteq> NoFuel" if le: "4 * (length b - s) + 4 \<le> Suc n" for s
  proof
    assume a: "parseline (Suc n) b s = NoFuel"
    have "parsepipe n b s \<noteq> NoFuel"
      using Suc le by simp
    then obtain c0 s0 where p: "parsepipe n b s = Parsed c0 s0"
      using a by (cases "parsepipe n b s") auto
    obtain c1 s1 where q: "parsebacks b c0 s0 = (c1, s1)"
      by (cases "parsebacks b c0 s0")
    obtain r i e s2 where g: "gettoken b s1 = (r, i, e, s2)"
      by (metis prod_cases4)
    have st: "starts '';'' (toks b s1)" "parseline n b s2 = NoFuel"
      using a p q g by (auto simp: pbind_NoFuel gettoken_skip split: if_splits)
    have "s \<le> s1" "s1 < s2" "s1 < length b"
      using parsed_mono(2) [OF p] parsebacks_mono [OF q] symbol_advance [OF st(1) g] by auto
    then have "4 * (length b - s2) + 4 \<le> n"
      using le by linarith
    with Suc st(2) show False by blast
  qed
  have pipe: "parsepipe (Suc n) b s \<noteq> NoFuel" if le: "4 * (length b - s) + 3 \<le> Suc n" for s
  proof
    assume a: "parsepipe (Suc n) b s = NoFuel"
    have "parseexec n b s \<noteq> NoFuel"
      using Suc le by simp
    then obtain c0 s1 where p: "parseexec n b s = Parsed c0 s1"
      using a by (cases "parseexec n b s") auto
    obtain r i e s2 where g: "gettoken b s1 = (r, i, e, s2)"
      by (metis prod_cases4)
    have st: "starts ''|'' (toks b s1)" "parsepipe n b s2 = NoFuel"
      using a p g by (auto simp: pbind_NoFuel gettoken_skip split: if_splits)
    have "s \<le> s1" "s1 < s2" "s1 < length b"
      using parsed_mono(3) [OF p] symbol_advance [OF st(1) g] by auto
    then have "4 * (length b - s2) + 3 \<le> n"
      using le by linarith
    with Suc st(2) show False by blast
  qed
  have block: "parseblock (Suc n) b s \<noteq> NoFuel" if le: "4 * (length b - s) + 1 \<le> Suc n" for s
  proof
    assume a: "parseblock (Suc n) b s = NoFuel"
    obtain r q e s1 where g: "gettoken b s = (r, q, e, s1)"
      by (metis prod_cases4)
    have st: "starts ''('' (toks b s)"
      using a by (auto split: if_splits)
    have "parseline n b s1 = NoFuel"
    proof (cases "parseline n b s1")
      case (Parsed c s2)
      obtain r2 q2 e2 s3 where "gettoken b s2 = (r2, q2, e2, s3)"
        by (metis prod_cases4)
      then show ?thesis
        using a g st Parsed by (auto simp: gettoken_skip split: if_splits)
    qed (use a g st in \<open>auto simp: gettoken_skip\<close>)
    moreover have "4 * (length b - s1) + 4 \<le> n"
      using symbol_advance [OF st g] le by linarith
    ultimately show False
      using Suc by blast
  qed
  have "parseexec (Suc n) b s \<noteq> NoFuel" if le: "4 * (length b - s) + 2 \<le> Suc n" for s
  proof -
    have "4 * (length b - skip_ws b s) + 1 \<le> n"
      using skip_ws_ge [of s b] le by linarith
    with Suc show ?thesis
      by (auto simp: parseexec_alt args_loop_def pbind_NoFuel simp del: parseexec.simps)
  qed
  with line pipe block show ?case by blast
qed simp

section \<open>The grammar is parsed\<close>

definition follow :: "string \<Rightarrow> token list \<Rightarrow> bool" where
  "follow ts us \<longleftrightarrow> us = [] \<or> fst (hd us) \<in> set ts"

lemma follow_Cons [simp]: "follow ts ((r, x) # us) \<longleftrightarrow> r \<in> set ts" "follow ts []"
  by (simp_all add: follow_def)

lemma follow_starts:
  "follow '')'' us \<Longrightarrow> \<not> starts ''&'' us \<and> \<not> starts '';'' us \<and> \<not> starts ''|'' us"
  "follow '')&;'' us \<Longrightarrow> \<not> starts ''|'' us"
  "follow ''|)&;'' us \<Longrightarrow> us = [] \<or> starts ''|)&;'' us"
  "follow '')'' us \<Longrightarrow> follow '')&;'' us"
  "follow '')&;'' us \<Longrightarrow> follow ''|)&;'' us"
  by (auto simp: follow_def starts_def split: list.splits if_splits)

lemma starts_append: "starts ts (us @ vs) = (if us = [] then starts ts vs else starts ts us)"
  by (cases us) auto

lemma gsimple_starts: "gsimple ts c \<Longrightarrow> \<not> starts ''('' ts"
  by (induction rule: gsimple.induct) (auto simp: starts_append)

lemma gblock_starts: "gblock ts c \<Longrightarrow> starts ''('' ts"
  by (induction ts c rule: gline_gback_gpipe_gexec_gblock.inducts(5) [where ?P1.0 = "\<lambda>_ _. True"
      and ?P2.0 = "\<lambda>_ _. True" and ?P3.0 = "\<lambda>_ _. True" and ?P4.0 = "\<lambda>_ _. True"])
     (auto simp: starts_def split: list.splits)

lemma skip_ws_toks: "toks b s = us \<Longrightarrow> toks b (skip_ws b s) = us"
  by simp

definition parses :: "(nat \<Rightarrow> string \<Rightarrow> nat \<Rightarrow> cmd parsed) \<Rightarrow> string \<Rightarrow> string \<Rightarrow> token list \<Rightarrow> cmd \<Rightarrow> bool" where
  "parses f fol b ts c \<longleftrightarrow>
     (\<forall>n s us. toks b s = ts @ us \<longrightarrow> follow fol us \<longrightarrow> f n b s \<noteq> NoFuel \<longrightarrow>
        (\<exists>s'. f n b s = Parsed c s' \<and> toks b s' = us))"

lemma parsesD:
  assumes "parses f fol b ts c" "toks b s = ts @ us" "follow fol us" "f n b s \<noteq> NoFuel"
  obtains s' where "f n b s = Parsed c s'" "toks b s' = us"
  using assms unfolding parses_def by blast

lemma pipe_complete:
  assumes "parses parseexec ''|)&;'' b ts c" "parses parsepipe '')&;'' b us d"
  shows "parses parsepipe '')&;'' b (ts @ (CHR ''|'', x) # us) (PIPE c d)"
  unfolding parses_def
proof (intro allI impI)
  fix n s vs
  assume t: "toks b s = (ts @ (CHR ''|'', x) # us) @ vs" and f: "follow '')&;'' vs"
    and nf: "parsepipe n b s \<noteq> NoFuel"
  obtain m where m: "n = Suc m"
    using nf by (cases n) auto
  have "parseexec m b s \<noteq> NoFuel"
    using nf m by auto
  then obtain s1 where s1: "parseexec m b s = Parsed c s1" "toks b s1 = (CHR ''|'', x) # us @ vs"
    using parsesD [OF assms(1), of s "(CHR ''|'', x) # us @ vs" m] t by auto
  obtain s2 where s2: "gettoken b s1 = (CHR ''|'', fst x, snd x, s2)" "toks b s2 = us @ vs"
    using gettoken_Cons [of b s1 "CHR ''|''" "fst x" "snd x"] s1(2) by auto
  have "parsepipe m b s2 \<noteq> NoFuel"
    using nf m s1 s2 by (auto simp: gettoken_skip)
  then obtain s3 where "parsepipe m b s2 = Parsed d s3" "toks b s3 = vs"
    using parsesD [OF assms(2) s2(2) f] by blast
  then show "\<exists>s'. parsepipe n b s = Parsed (PIPE c d) s' \<and> toks b s' = vs"
    using m s1 s2 by (auto simp: gettoken_skip)
qed

lemma one_complete:
  assumes "parses parseexec ''|)&;'' b ts c"
  shows "parses parsepipe '')&;'' b ts c"
  unfolding parses_def
proof (intro allI impI)
  fix n s vs
  assume t: "toks b s = ts @ vs" and f: "follow '')&;'' vs" and nf: "parsepipe n b s \<noteq> NoFuel"
  obtain m where m: "n = Suc m"
    using nf by (cases n) auto
  have "parseexec m b s \<noteq> NoFuel"
    using nf m by auto
  then obtain s1 where s1: "parseexec m b s = Parsed c s1" "toks b s1 = vs"
    using parsesD [OF assms t follow_starts(5) [OF f]] by blast
  then show "\<exists>s'. parsepipe n b s = Parsed c s' \<and> toks b s' = vs"
    using m follow_starts(2) [OF f] by auto
qed

text \<open>A command with its ampersands: the pipeline is parsed and the loop over \<open>&\<close> reaches it.\<close>

definition back_parses :: "string \<Rightarrow> token list \<Rightarrow> cmd \<Rightarrow> bool" where
  "back_parses b ts c \<longleftrightarrow>
     (\<forall>n s us. toks b s = ts @ us \<longrightarrow> follow '')&;'' us \<longrightarrow> parsepipe n b s \<noteq> NoFuel \<longrightarrow>
        (\<exists>c0 s0 s'. parsepipe n b s = Parsed c0 s0 \<and> parsebacks b c0 s0 = parsebacks b c s' \<and>
                    toks b s' = us))"

lemma bg_complete:
  assumes "back_parses b ts c"
  shows "back_parses b (ts @ [(CHR ''&'', x)]) (BACK c)"
  unfolding back_parses_def
proof (intro allI impI)
  fix n s us
  assume t: "toks b s = (ts @ [(CHR ''&'', x)]) @ us" and nf: "parsepipe n b s \<noteq> NoFuel"
  have "toks b s = ts @ (CHR ''&'', x) # us"
    using t by simp
  then obtain c0 s0 s1 where p: "parsepipe n b s = Parsed c0 s0"
    "parsebacks b c0 s0 = parsebacks b c s1" "toks b s1 = (CHR ''&'', x) # us"
    using assms nf unfolding back_parses_def by fastforce
  then show "\<exists>c0 s0 s'. parsepipe n b s = Parsed c0 s0 \<and>
       parsebacks b c0 s0 = parsebacks b (BACK c) s' \<and> toks b s' = us"
    using parsebacks_step [OF p(3), of c] by auto
qed

lemma line_complete:
  assumes "back_parses b ts c"
  shows "parses parseline '')'' b ts c"
  unfolding parses_def
proof (intro allI impI)
  fix n s vs
  assume t: "toks b s = ts @ vs" and f: "follow '')'' vs" and nf: "parseline n b s \<noteq> NoFuel"
  obtain m where m: "n = Suc m"
    using nf by (cases n) auto
  have "parsepipe m b s \<noteq> NoFuel"
    using nf m by auto
  then obtain c0 s0 s1 where p: "parsepipe m b s = Parsed c0 s0"
    "parsebacks b c0 s0 = parsebacks b c s1" "toks b s1 = vs"
    using assms t follow_starts(4) [OF f] unfolding back_parses_def by blast
  have "parsebacks b c s1 = (c, skip_ws b s1)"
    using follow_starts(1) [OF f] p(3) by (simp add: parsebacks_stop)
  then show "\<exists>s'. parseline n b s = Parsed c s' \<and> toks b s' = vs"
    using m p follow_starts(1) [OF f] by auto
qed

lemma seq_complete:
  assumes "back_parses b ts c" "parses parseline '')'' b us d"
  shows "parses parseline '')'' b (ts @ (CHR '';'', x) # us) (LIST c d)"
  unfolding parses_def
proof (intro allI impI)
  fix n s vs
  assume t: "toks b s = (ts @ (CHR '';'', x) # us) @ vs" and f: "follow '')'' vs"
    and nf: "parseline n b s \<noteq> NoFuel"
  obtain m where m: "n = Suc m"
    using nf by (cases n) auto
  have "parsepipe m b s \<noteq> NoFuel"
    using nf m by auto
  moreover have "toks b s = ts @ (CHR '';'', x) # us @ vs" "follow '')&;'' ((CHR '';'', x) # us @ vs)"
    using t by simp_all
  ultimately obtain c0 s0 s1 where p: "parsepipe m b s = Parsed c0 s0"
    "parsebacks b c0 s0 = parsebacks b c s1" "toks b s1 = (CHR '';'', x) # us @ vs"
    using assms(1) unfolding back_parses_def by blast
  have k: "parsebacks b c s1 = (c, skip_ws b s1)"
    using p(3) by (simp add: parsebacks_stop)
  obtain s2 where s2: "gettoken b s1 = (CHR '';'', fst x, snd x, s2)" "toks b s2 = us @ vs"
    using gettoken_Cons [of b s1 "CHR '';''" "fst x" "snd x"] p(3) by auto
  have "parseline m b s2 \<noteq> NoFuel"
    using nf m p k s2 by (auto simp: gettoken_skip)
  then obtain s3 where "parseline m b s2 = Parsed d s3" "toks b s3 = vs"
    using parsesD [OF assms(2) s2(2) f] by blast
  then show "\<exists>s'. parseline n b s = Parsed (LIST c d) s' \<and> toks b s' = vs"
    using m p k s2 by (auto simp: gettoken_skip)
qed

definition block_parses :: "string \<Rightarrow> token list \<Rightarrow> cmd \<Rightarrow> bool" where
  "block_parses b ts c \<longleftrightarrow>
     starts ''('' ts \<and>
     (\<forall>n s us. toks b s = ts @ us \<longrightarrow> parseblock n b s \<noteq> NoFuel \<longrightarrow>
        (\<exists>s'. parseblock n b s = parseredirs b c s' \<and> toks b s' = us))"

lemma paren_complete:
  assumes "parses parseline '')'' b ts c"
  shows "block_parses b ((CHR ''('', x) # ts @ [(CHR '')'', y)]) c"
  unfolding block_parses_def
proof (intro conjI allI impI)
  show "starts ''('' ((CHR ''('', x) # ts @ [(CHR '')'', y)])"
    by simp
  fix n s us
  assume t: "toks b s = ((CHR ''('', x) # ts @ [(CHR '')'', y)]) @ us"
    and nf: "parseblock n b s \<noteq> NoFuel"
  obtain m where m: "n = Suc m"
    using nf by (cases n) auto
  obtain s1 where s1: "gettoken b s = (CHR ''('', fst x, snd x, s1)" "toks b s1 = ts @ (CHR '')'', y) # us"
    using gettoken_Cons [of b s "CHR ''(''" "fst x" "snd x"] t by auto
  have "parseline m b s1 \<noteq> NoFuel"
    using nf m t s1 by (auto simp: gettoken_skip)
  then obtain s2 where s2: "parseline m b s1 = Parsed c s2" "toks b s2 = (CHR '')'', y) # us"
    using parsesD [OF assms s1(2)] by auto
  obtain s3 where s3: "gettoken b s2 = (CHR '')'', fst y, snd y, s3)" "toks b s3 = us"
    using gettoken_Cons [of b s2 "CHR '')''" "fst y" "snd y"] s2(2) by auto
  have "parseblock n b s = parseredirs b c s3"
    using m t s1 s2 s3 by (simp add: gettoken_skip)
  then show "\<exists>s'. parseblock n b s = parseredirs b c s' \<and> toks b s' = us"
    using s3(2) by blast
qed

lemma predir_complete:
  assumes "block_parses b ts c" "tok \<in> set ''<>+''"
  shows "block_parses b (ts @ [(tok, x), Word q e]) (redircmd tok c q e)"
  unfolding block_parses_def
proof (intro conjI allI impI)
  show "starts ''('' (ts @ [(tok, x), Word q e])"
    using assms(1) by (auto simp: block_parses_def starts_append)
  fix n s us
  assume "toks b s = (ts @ [(tok, x), Word q e]) @ us" and nf: "parseblock n b s \<noteq> NoFuel"
  then have "toks b s = ts @ (tok, x) # Word q e # us"
    by simp
  then obtain s1 where s1: "parseblock n b s = parseredirs b c s1" "toks b s1 = (tok, x) # Word q e # us"
    using assms(1) nf unfolding block_parses_def by blast
  then show "\<exists>s'. parseblock n b s = parseredirs b (redircmd tok c q e) s' \<and> toks b s' = us"
    using parseredirs_step [OF s1(2) assms(2), of c] by auto
qed

lemma block_complete:
  assumes "block_parses b ts c"
  shows "parses parseexec ''|)&;'' b ts c"
  unfolding parses_def
proof (intro allI impI)
  fix n s us
  assume t: "toks b s = ts @ us" and f: "follow ''|)&;'' us" and nf: "parseexec n b s \<noteq> NoFuel"
  obtain m where m: "n = Suc m"
    using nf by (cases n) auto
  have st: "starts ''('' (toks b s)"
    using assms t by (cases ts) (auto simp: block_parses_def)
  then have e: "parseexec n b s = parseblock m b (skip_ws b s)"
    unfolding m parseexec_alt by simp
  then have "parseblock m b (skip_ws b s) \<noteq> NoFuel"
    using nf by simp
  then obtain s1 where s1: "parseblock m b (skip_ws b s) = parseredirs b c s1" "toks b s1 = us"
    using assms skip_ws_toks [OF t] unfolding block_parses_def by blast
  have "\<not> starts ''<>'' us"
    using follow_starts(3) [OF f] by (cases us) (auto split: if_splits)
  with s1 e show "\<exists>s'. parseexec n b s = Parsed c s' \<and> toks b s' = us"
    by (auto simp: parseredirs_stop)
qed

lemma simple_complete:
  assumes "gsimple ts c"
  shows "parses parseexec ''|)&;'' b ts c"
  unfolding parses_def
proof (intro allI impI)
  fix n s us
  assume t: "toks b s = ts @ us" and f: "follow ''|)&;'' us" and nf: "parseexec n b s \<noteq> NoFuel"
  obtain m where m: "n = Suc m"
    using nf by (cases n) auto
  have "\<not> starts ''('' (toks b s)"
    using gsimple_starts [OF assms] f unfolding t starts_append
    by (cases us) (auto split: if_splits)
  then have e: "parseexec n b s = args_loop b (EXEC []) (skip_ws b s)"
    unfolding m parseexec_alt by simp
  obtain s1 where s1: "toks b s1 = us" "args_loop b (EXEC []) (skip_ws b s) = args_loop b c s1"
    using gsimple_complete [OF assms skip_ws_toks [OF t]] by blast
  then show "\<exists>s'. parseexec n b s = Parsed c s' \<and> toks b s' = us"
    using args_loop_stop [OF follow_starts(3) [OF f] s1(1), of c] e by auto
qed

lemma grammar_complete:
  shows "gline ts c \<Longrightarrow> parses parseline '')'' b ts c"
    and "gback ts c \<Longrightarrow> back_parses b ts c"
    and "gpipe ts c \<Longrightarrow> parses parsepipe '')&;'' b ts c"
    and "gexec ts c \<Longrightarrow> parses parseexec ''|)&;'' b ts c"
    and "gblock ts c \<Longrightarrow> block_parses b ts c"
proof (induction rule: gline_gback_gpipe_gexec_gblock.inducts)
  case (nobg ts c)
  then show ?case
    unfolding parses_def back_parses_def by blast
qed (rule line_complete seq_complete bg_complete one_complete pipe_complete simple_complete
    block_complete paren_complete predir_complete; assumption)+

section \<open>The parser and the grammar agree\<close>

lemma parseline_fuel: "parseline (4 * length b + 4) b 0 \<noteq> NoFuel"
  using parser_fuel [of b "4 * length b + 4"] by simp

lemma toks_end:
  assumes "CHR 0x00 \<notin> set b" "toks b s = []" "s \<le> length b"
  shows "skip_ws b s = length b"
proof (rule ccontr)
  assume "skip_ws b s \<noteq> length b"
  then have "skip_ws b s < length b"
    using skip_ws_le [OF assms(3)] by simp
  moreover have "char_at b (skip_ws b s) = CHR 0x00"
    using gettoken_cases(5) [OF gettoken_Nil [OF assms(2)]] by simp
  ultimately show False
    using assms(1) by (auto simp: char_at_def dest: nth_mem)
qed

lemma word_end_le: "s \<le> length b \<Longrightarrow> word_end b s \<le> length b"
  by (induction b s rule: word_end.induct) (subst word_end.simps, auto)

lemma gettoken_le:
  assumes "gettoken b s = (r, q, e, t)" "s \<le> length b"
  shows "e \<le> length b" "t \<le> length b"
proof -
  have q: "q \<le> length b"
    using gettoken_cases(2) [OF assms(1)] skip_ws_le [OF assms(2)] by simp
  have "e \<le> Suc q \<or> e = word_end b q \<or> e = Suc (Suc q) \<and> char_at b (Suc q) \<noteq> CHR 0x00"
    using assms(1) gettoken_cases(2) [OF assms(1)] by (auto simp: gettoken_def Let_def split: if_splits)
  then show "e \<le> length b"
    using q word_end_le [OF q] char_at_less [of b "Suc q"] gettoken_cases(6,7) [OF assms(1)]
    by (cases "r = CHR 0x00") auto
  then show "t \<le> length b"
    using gettoken_cases(3) [OF assms(1)] skip_ws_le by simp
qed

lemma parseredirs_le: "parseredirs b c s = Parsed c' s' \<Longrightarrow> s \<le> length b \<Longrightarrow> s' \<le> length b"
proof (induction "length b - s" arbitrary: c s rule: less_induct)
  case less
  obtain tok i j t where t: "gettoken b s = (tok, i, j, t)"
    by (metis prod_cases4)
  obtain tok2 q e u where u: "gettoken b t = (tok2, q, e, u)"
    by (metis prod_cases4)
  show ?case
  proof (cases "starts ''<>'' (toks b s)")
    case True
    then have "parseredirs b (redircmd tok c q e) u = Parsed c' s'"
      using less(2) t u by (auto simp: parseredirs.simps [of b c s] gettoken_skip split: if_splits)
    moreover have "length b - u < length b - s"
      using True toks_gettoken [OF t] gettoken_decrease [OF t [symmetric]] gettoken_mono(1) [OF u]
      by (auto split: if_splits)
    ultimately show ?thesis
      using less(1) gettoken_le(2) [OF u] gettoken_le(2) [OF t less(3)] by blast
  qed (use less(2,3) skip_ws_le in \<open>auto simp: parseredirs_stop\<close>)
qed

lemma parseargs_le: "parseargs b n c s = Parsed c' s' \<Longrightarrow> s \<le> length b \<Longrightarrow> s' \<le> length b"
proof (induction "MAXARGS - n" arbitrary: n c s rule: less_induct)
  case less
  obtain tok q e t where t: "gettoken b s = (tok, q, e, t)"
    by (metis prod_cases4)
  have le: "skip_ws b s \<le> length b" "t \<le> length b"
    using gettoken_le(2) [OF t less(3)] skip_ws_le [OF less(3)] by simp_all
  show ?case
  proof (cases "starts ''|)&;'' (toks b s) \<or> tok = CHR 0x00")
    case True
    then show ?thesis
      using less(2) t le by (auto simp: gettoken_skip parseargs.simps [of b n c s] split: if_splits)
  next
    case False
    then obtain r s2 where "parseredirs b (push_arg c (q, e)) t = Parsed r s2"
      "parseargs b (Suc n) r s2 = Parsed c' s'" "Suc n < MAXARGS"
      using less(2) t by (auto simp: gettoken_skip parseargs.simps [of b n c s] split: if_splits parsed.splits)
    then show ?thesis
      using less(1) [of "Suc n" r s2] parseredirs_le le(2) by simp
  qed
qed

lemma parsebacks_le: "parsebacks b c s = (c', s') \<Longrightarrow> s \<le> length b \<Longrightarrow> s' \<le> length b"
proof (induction "length b - s" arbitrary: c s rule: less_induct)
  case less
  obtain tok i j t where t: "gettoken b s = (tok, i, j, t)"
    by (metis prod_cases4)
  show ?case
  proof (cases "starts ''&'' (toks b s)")
    case True
    have "length b - t < length b - s"
      using True toks_gettoken [OF t] gettoken_decrease [OF t [symmetric]] by (auto split: if_splits)
    moreover have "parsebacks b (BACK c) t = (c', s')"
      using less(2) True t by (auto simp: parsebacks.simps [of b c s] gettoken_skip)
    ultimately show ?thesis
      using less(1) gettoken_le(2) [OF t less(3)] by blast
  qed (use less(2,3) skip_ws_le in \<open>auto simp: parsebacks_stop\<close>)
qed

definition stays :: "(string \<Rightarrow> nat \<Rightarrow> cmd parsed) \<Rightarrow> string \<Rightarrow> bool" where
  "stays f b \<longleftrightarrow> (\<forall>s c s'. f b s = Parsed c s' \<longrightarrow> s \<le> length b \<longrightarrow> s' \<le> length b)"

lemma parser_le:
  "stays (parseline n) b \<and> stays (parsepipe n) b \<and> stays (parseexec n) b \<and> stays (parseblock n) b"
proof (induction n)
  case (Suc n)
  have "stays (parseline (Suc n)) b"
    unfolding stays_def
  proof (intro allI impI)
    fix s c s'
    assume a: "parseline (Suc n) b s = Parsed c s'" "s \<le> length b"
    obtain c0 s0 where p0: "parsepipe n b s = Parsed c0 s0"
      using a(1) by (auto simp: pbind_Parsed)
    obtain c1 s1 where p: "parsepipe n b s = Parsed c0 s0" "parsebacks b c0 s0 = (c1, s1)"
      using p0 by (cases "parsebacks b c0 s0") auto
    obtain r i e s2 where g: "gettoken b s1 = (r, i, e, s2)"
      by (metis prod_cases4)
    have "s1 \<le> length b"
      using Suc p a(2) parsebacks_le unfolding stays_def by blast
    then show "s' \<le> length b"
      using a(1) p g Suc gettoken_le(2) [OF g] skip_ws_le [of s1 b]
      by (auto simp: gettoken_skip pbind_Parsed stays_def split: if_splits)
  qed
  moreover have "stays (parsepipe (Suc n)) b"
    unfolding stays_def
  proof (intro allI impI)
    fix s c s'
    assume a: "parsepipe (Suc n) b s = Parsed c s'" "s \<le> length b"
    obtain c1 s1 where p: "parseexec n b s = Parsed c1 s1"
      using a(1) by (auto simp: pbind_Parsed)
    obtain r i e s2 where g: "gettoken b s1 = (r, i, e, s2)"
      by (metis prod_cases4)
    have "s1 \<le> length b"
      using Suc p a(2) unfolding stays_def by blast
    then show "s' \<le> length b"
      using a(1) p g Suc gettoken_le(2) [OF g] skip_ws_le [of s1 b]
      by (auto simp: gettoken_skip pbind_Parsed stays_def split: if_splits)
  qed
  moreover have "stays (parseexec (Suc n)) b"
    unfolding stays_def
  proof (intro allI impI)
    fix s c s'
    assume a: "parseexec (Suc n) b s = Parsed c s'" "s \<le> length b"
    show "s' \<le> length b"
    proof (cases "starts ''('' (toks b s)")
      case True
      then show ?thesis
        using a Suc skip_ws_le [OF a(2)] unfolding stays_def by (auto simp: parseexec_alt)
    next
      case False
      then obtain r s1 where "parseredirs b (EXEC []) (skip_ws b s) = Parsed r s1" "parseargs b 0 r s1 = Parsed c s'"
        using a(1) unfolding parseexec_alt args_loop_def by (auto simp: pbind_Parsed)
      then show ?thesis
        using parseredirs_le parseargs_le skip_ws_le [OF a(2)] by blast
    qed
  qed
  moreover have "stays (parseblock (Suc n)) b"
    unfolding stays_def
  proof (intro allI impI)
    fix s c s'
    assume a: "parseblock (Suc n) b s = Parsed c s'" "s \<le> length b"
    obtain r i e s1 where g: "gettoken b s = (r, i, e, s1)"
      by (metis prod_cases4)
    obtain c2 s2 where p: "parseline n b s1 = Parsed c2 s2"
      using a(1) g by (auto simp: pbind_Parsed gettoken_skip split: if_splits)
    obtain r2 q2 e2 s4 where g2: "gettoken b s2 = (r2, q2, e2, s4)"
      by (metis prod_cases4)
    have "parseredirs b c2 s4 = Parsed c s'"
      using a(1) g p g2 by (auto simp: gettoken_skip split: if_splits)
    moreover have "s2 \<le> length b"
      using Suc p gettoken_le(2) [OF g a(2)] unfolding stays_def by blast
    ultimately show "s' \<le> length b"
      using parseredirs_le gettoken_le(2) [OF g2] by blast
  qed
  ultimately show ?case by blast
qed (simp add: stays_def)

lemma parsecmd_sound:
  assumes "parsecmd b = Parsed (c, m) s" "CHR 0x00 \<notin> set b"
  shows "gline (toks b 0) c" "m = nulterminate c (b @ [CHR 0x00])"
proof -
  obtain s1 where p: "parseline (4 * length b + 4) b 0 = Parsed c s1" and e: "skip_ws b s1 = length b"
    and m: "m = nulterminate c (b @ [CHR 0x00])"
    using assms(1) by (auto simp: parsecmd_def pbind_Parsed peek_def Let_def split: if_splits)
  have "toks b s1 = toks b (length b)"
    using e toks_skip [of b s1] by simp
  also have "\<dots> = []"
    using skip_ws_le [of "length b" b] skip_ws_ge [of "length b" b]
    by (subst toks.simps) (simp add: gettoken_def Let_def char_at_def)
  finally show "gline (toks b 0) c"
    using parser_sound [of "4 * length b + 4" b] p unfolding accepts_def by fastforce
  show "m = nulterminate c (b @ [CHR 0x00])" by (rule m)
qed

lemma parsecmd_complete:
  assumes "gline (toks b 0) c" "CHR 0x00 \<notin> set b"
  shows "parsecmd b = Parsed (c, nulterminate c (b @ [CHR 0x00])) (length b)"
proof -
  have "toks b 0 = toks b 0 @ []"
    by simp
  from parsesD [OF grammar_complete(1) [OF assms(1)] this _ parseline_fuel]
  obtain s where s: "parseline (4 * length b + 4) b 0 = Parsed c s" "toks b s = []"
    by auto
  then have "s \<le> length b"
    using parser_le [of "4 * length b + 4" b] unfolding stays_def by blast
  then show ?thesis
    using s toks_end [OF assms(2) s(2)] by (simp add: parsecmd_def peek_def Let_def)
qed

text \<open>
  C38: the parser of the shell accepts exactly the command lines of the grammar
  (lists, background commands, pipelines, blocks in parentheses, simple commands
  with at most nine words and redirections anywhere), it returns the tree of the
  derivation, and it always ends: on every other line it panics.
\<close>
theorem sh_parses_exactly_the_grammar:
  assumes "CHR 0x00 \<notin> set b"
  shows "(gline (toks b 0) c \<longleftrightarrow> (\<exists>m s. parsecmd b = Parsed (c, m) s)) \<and>
         (\<nexists>c. gline (toks b 0) c) = (\<exists>msg. parsecmd b = Panic msg)"
proof
  show eq: "gline (toks b 0) c \<longleftrightarrow> (\<exists>m s. parsecmd b = Parsed (c, m) s)" for c
    using parsecmd_sound(1) [OF _ assms] parsecmd_complete [OF _ assms] by blast
  have "parsecmd b \<noteq> NoFuel"
    using parseline_fuel [of b] by (auto simp: parsecmd_def pbind_NoFuel split: prod.splits if_splits)
  then show "(\<nexists>c. gline (toks b 0) c) = (\<exists>msg. parsecmd b = Panic msg)"
    by (cases "parsecmd b") (auto simp: eq)
qed

theorem sh_parses_exactly_the_grammar_witness:
  "(gline (toks ''ls;'' 0) (LIST (EXEC [(0, 2)]) (EXEC [])) \<longleftrightarrow>
     (\<exists>m s. parsecmd ''ls;'' = Parsed (LIST (EXEC [(0, 2)]) (EXEC []), m) s)) \<and>
   (\<nexists>c. gline (toks ''ls;'' 0) c) = (\<exists>msg. parsecmd ''ls;'' = Panic msg)"
  by (rule sh_parses_exactly_the_grammar) simp

section \<open>The words of the tree\<close>

fun words_of :: "cmd \<Rightarrow> (nat \<times> nat) list" where
  "words_of (EXEC args) = args"
| "words_of (REDIR c q e m fd) = words_of c @ [(q, e)]"
| "words_of (PIPE l r) = words_of l @ words_of r"
| "words_of (LIST l r) = words_of l @ words_of r"
| "words_of (BACK c) = words_of c"

lemma words_push_arg: "set (words_of (push_arg c w)) \<subseteq> insert w (set (words_of c))"
  by (induction c w rule: push_arg.induct) auto

lemma words_redircmd: "set (words_of (redircmd tok c q e)) \<subseteq> insert (q, e) (set (words_of c))"
  by (auto simp: redircmd_def)

lemma gsimple_words: "gsimple ts c \<Longrightarrow> set (words_of c) \<subseteq> snd ` {t \<in> set ts. fst t = CHR ''a''}"
proof (induction rule: gsimple.induct)
  case (arg ts c q e)
  then show ?case using words_push_arg [of c "(q, e)"] by force
next
  case (redir ts c tok x q e)
  then show ?case using words_redircmd [of tok c q e] by force
qed simp

definition word_toks :: "token list \<Rightarrow> (nat \<times> nat) set" where
  "word_toks ts = snd ` {t \<in> set ts. fst t = CHR ''a''}"

lemma word_toks_append [simp]:
  "word_toks (ts @ us) = word_toks ts \<union> word_toks us"
  "word_toks ((r, x) # us) = (if r = CHR ''a'' then {x} else {}) \<union> word_toks us"
  "word_toks [] = {}"
  by (auto simp: word_toks_def image_iff)

lemma grammar_words:
  shows "gline ts c \<Longrightarrow> set (words_of c) \<subseteq> word_toks ts"
    and "gback ts c \<Longrightarrow> set (words_of c) \<subseteq> word_toks ts"
    and "gpipe ts c \<Longrightarrow> set (words_of c) \<subseteq> word_toks ts"
    and "gexec ts c \<Longrightarrow> set (words_of c) \<subseteq> word_toks ts"
    and "gblock ts c \<Longrightarrow> set (words_of c) \<subseteq> word_toks ts"
proof (induction rule: gline_gback_gpipe_gexec_gblock.inducts)
  case (simple ts c)
  then show ?case using gsimple_words by (simp add: word_toks_def)
next
  case (predir ts c tok x q e)
  then show ?case using words_redircmd [of tok c q e] by auto
qed auto

definition is_word :: "string \<Rightarrow> nat \<Rightarrow> nat \<Rightarrow> bool" where
  "is_word b q e \<longleftrightarrow> q < e \<and> e \<le> length b \<and> (\<forall>i. q \<le> i \<and> i < e \<longrightarrow> word_char (b ! i)) \<and>
     (e < length b \<longrightarrow> \<not> word_char (b ! e))"

lemma toks_words:
  assumes "CHR 0x00 \<notin> set b" "s \<le> length b" "(q, e) \<in> word_toks (toks b s)"
  shows "is_word b q e"
  using assms(2,3)
proof (induction "length b - s" arbitrary: s rule: less_induct)
  case less
  obtain r q1 e1 t where g: "gettoken b s = (r, q1, e1, t)"
    by (metis prod_cases4)
  have nz: "r \<noteq> CHR 0x00" and mem: "(q, e) \<in> (if r = CHR ''a'' then {(q1, e1)} else {}) \<union> word_toks (toks b t)"
    using less(3) toks_gettoken [OF g] by (auto split: if_splits)
  show ?case
  proof (cases "r = CHR ''a'' \<and> (q, e) = (q1, e1)")
    case True
    then have "e = word_end b q" "q < e" "q < length b"
      using gettoken_cases(6,8) [OF g] by auto
    then show ?thesis
      using word_end_spec [OF assms(1), of q] unfolding is_word_def by simp
  next
    case False
    then have "(q, e) \<in> word_toks (toks b t)"
      using mem by (auto split: if_splits)
    then show ?thesis
      using less(1) [OF gettoken_decrease [OF g [symmetric] nz]] gettoken_le(2) [OF g less(2)] by blast
  qed
qed

lemma nth_store: "i < length m \<Longrightarrow> m[e := x] ! i = (if i = e then x else m ! i)"
  by simp

lemma foldl_zero:
  "length (foldl (\<lambda>m (q, e). m[e := CHR 0x00]) m args) = length m"
  "i < length m \<Longrightarrow> foldl (\<lambda>m (q, e). m[e := CHR 0x00]) m args ! i =
     (if \<exists>q. (q, i) \<in> set args then CHR 0x00 else m ! i)"
  by (induction args arbitrary: m) (auto simp: nth_store)

lemma nulterminate_length [simp]: "length (nulterminate c m) = length m"
  by (induction c m rule: nulterminate.induct) (auto simp: foldl_zero)

lemma nulterminate_nth:
  "i < length m \<Longrightarrow> nulterminate c m ! i = (if \<exists>q. (q, i) \<in> set (words_of c) then CHR 0x00 else m ! i)"
  by (induction c m rule: nulterminate.induct) (auto simp: foldl_zero nth_store)

lemma cstr_word:
  assumes w: "is_word b q e" and m: "length m = Suc (length b)" "m ! e = CHR 0x00"
    and same: "\<And>i. q \<le> i \<Longrightarrow> i < e \<Longrightarrow> m ! i = b ! i"
  shows "cstr m q = take (e - q) (drop q b)"
proof -
  have le: "q < e" "e \<le> length b" and wc: "\<And>i. q \<le> i \<Longrightarrow> i < e \<Longrightarrow> word_char (b ! i)"
    using w by (auto simp: is_word_def)
  have "cstr m q = take (e - q) (drop q m)"
    unfolding cstr_def
  proof (rule takeWhile_eq_take_P_nth)
    show "drop q m ! i \<noteq> CHR 0x00" if "i < e - q" "i < length (drop q m)" for i
      using wc [of "q + i"] same [of "q + i"] that m(1) by (simp add: word_char_def)
    show "\<not> drop q m ! (e - q) \<noteq> CHR 0x00" if "e - q < length (drop q m)"
      using le m by simp
  qed
  also have "\<dots> = take (e - q) (drop q b)"
    using le m(1) same by (intro nth_equalityI) auto
  finally show ?thesis .
qed

text \<open>
  after \<open>parsecmd\<close> every pointer of the tree is a C string that holds exactly
  its word: the characters from \<open>q\<close> to \<open>eq\<close> of the line, none of them blank or a
  symbol, ending where the word ends.  No NUL that \<open>nulterminate\<close> writes for one
  word falls into another.
\<close>
theorem sh_words_are_c_strings:
  assumes "CHR 0x00 \<notin> set b" "parsecmd b = Parsed (c, m) s" "(q, e) \<in> set (words_of c)"
  shows "cstr m q = take (e - q) (drop q b) \<and> is_word b q e"
proof -
  have g: "gline (toks b 0) c" "m = nulterminate c (b @ [CHR 0x00])"
    using parsecmd_sound [OF assms(2,1)] by simp_all
  have words: "is_word b q' e'" if "(q', e') \<in> set (words_of c)" for q' e'
    using toks_words [OF assms(1), of 0] grammar_words(1) [OF g(1)] that by blast
  have nth: "m ! i = (if \<exists>q. (q, i) \<in> set (words_of c) then CHR 0x00 else (b @ [CHR 0x00]) ! i)"
    if "i \<le> length b" for i
    using nulterminate_nth [of i "b @ [CHR 0x00]" c] that unfolding g(2) by simp
  have inside: "\<nexists>q. (q, i) \<in> set (words_of c)" if "q \<le> i" "i < e" for i
    using words [OF assms(3)] words that unfolding is_word_def by fastforce
  have "cstr m q = take (e - q) (drop q b)"
  proof (rule cstr_word [OF words [OF assms(3)]])
    show "length m = Suc (length b)"
      by (simp add: g(2))
    show "m ! e = CHR 0x00"
      using nth [of e] words [OF assms(3)] assms(3) by (auto simp: is_word_def)
    show "m ! i = b ! i" if "q \<le> i" "i < e" for i
      using nth [of i] inside [OF that] words [OF assms(3)] that by (simp add: is_word_def nth_append)
  qed
  with words [OF assms(3)] show ?thesis by blast
qed

theorem sh_words_are_c_strings_witness:
  "cstr (nulterminate (PIPE (EXEC [(0, 2)]) (EXEC [(3, 5)])) (''ls|wc'' @ [CHR 0x00])) 3 = ''wc'' \<and>
   is_word ''ls|wc'' 3 5"
proof -
  have "parsecmd ''ls|wc'' =
    Parsed (PIPE (EXEC [(0, 2)]) (EXEC [(3, 5)]),
      nulterminate (PIPE (EXEC [(0, 2)]) (EXEC [(3, 5)])) (''ls|wc'' @ [CHR 0x00])) 5"
    by code_simp
  from sh_words_are_c_strings [OF _ this, of 3 5] show ?thesis by simp
qed

end
