(* ===== verification/User_Sh_Run.thy ===== *)
theory User_Sh_Run
  imports User_Sh_Grammar
begin

text \<open>
  Running a parsed command (\<open>xv6-riscv/user/sh.c\<close>: \<open>runcmd\<close>, \<open>panic\<close>, \<open>fork1\<close>,
  \<open>getcmd\<close>, \<open>main\<close>, and \<open>gets\<close> of \<open>ulib.c\<close>).

  \<open>runcmd\<close> becomes the tree of system calls it makes, \<open>sh_prog\<close>: a call whose
  answer the code looks at has one continuation per answer, and a fork has a
  child and a parent.  \<open>perform\<close> runs such a tree on a table of descriptors.  A
  table is a list with one entry per descriptor, as \<open>ofile\<close> in the kernel, and a
  new descriptor is the lowest free one, as \<open>fdalloc\<close> of \<open>Sysfile\<close> chooses it.
  Calls that may fail are numbered; \<open>ok\<close> says which of them succeed, so that the
  results hold for every pattern of failures.  The number of a \<open>pipe\<close> call names
  the pipe.  The events of a child are listed before those of its parent after
  the fork; this is an enumeration, not an order in time.
\<close>

section \<open>System calls of the shell\<close>

datatype sh_prog =
    Close nat sh_prog
  | Dup nat sh_prog
  | Open string uint32 "int \<Rightarrow> sh_prog"
  | Pipe "(nat \<times> nat) option \<Rightarrow> sh_prog"
  | Fork sh_prog sh_prog sh_prog
  | Wait sh_prog
  | Exec string "string list" sh_prog
  | Fprintf nat string sh_prog
  | Exit int

definition sh_panic :: "string \<Rightarrow> sh_prog" where
  "sh_panic s = Fprintf 2 (s @ [CHR 0x0A]) (Exit 1)"

text \<open>The last argument of \<open>Fork\<close> is what the parent does when the call fails.\<close>

definition fork1 :: "sh_prog \<Rightarrow> sh_prog \<Rightarrow> sh_prog" where
  "fork1 child rest = Fork child rest (sh_panic ''fork'')"

primrec runcmd :: "string \<Rightarrow> cmd \<Rightarrow> sh_prog" where
  "runcmd m (EXEC args) =
     (case args of
        [] \<Rightarrow> Exit 1
      | (q, _) # _ \<Rightarrow>
          Exec (cstr m q) (map (\<lambda>(q, _). cstr m q) args)
            (Fprintf 2 (''exec '' @ cstr m q @ '' failed'' @ [CHR 0x0A]) (Exit 0)))"
| "runcmd m (REDIR c q e mode fd) =
     Close fd (Open (cstr m q) mode (\<lambda>r.
       if r < 0 then Fprintf 2 (''open '' @ cstr m q @ '' failed'' @ [CHR 0x0A]) (Exit 1)
       else runcmd m c))"
| "runcmd m (LIST l r) = fork1 (runcmd m l) (Wait (runcmd m r))"
| "runcmd m (PIPE l r) =
     Pipe (\<lambda>p. case p of
       None \<Rightarrow> sh_panic ''pipe''
     | Some (p0, p1) \<Rightarrow>
         fork1 (Close 1 (Dup p1 (Close p0 (Close p1 (runcmd m l)))))
           (fork1 (Close 0 (Dup p0 (Close p0 (Close p1 (runcmd m r)))))
             (Close p0 (Close p1 (Wait (Wait (Exit 0)))))))"
| "runcmd m (BACK c) = fork1 (runcmd m c) (Exit 0)"

section \<open>Descriptor tables\<close>

datatype desc = Inherited nat | File string uint32 | PipeRead nat | PipeWrite nat

type_synonym fdt = "desc option list"

locale lowest_free =
  fixes alloc :: "'f option list \<Rightarrow> nat option"
  assumes alloc_Some: "alloc T = Some i \<Longrightarrow> i < length T \<and> T ! i = None \<and> (\<forall>j < i. T ! j \<noteq> None)"
    and alloc_None: "alloc T = None \<Longrightarrow> i < length T \<Longrightarrow> T ! i \<noteq> None"
begin

lemma alloc_free:
  assumes "i < length T" "T ! i = None" "\<And>j. j < i \<Longrightarrow> T ! j \<noteq> None"
  shows "alloc T = Some i"
proof (cases "alloc T")
  case None
  then show ?thesis using alloc_None [OF None assms(1)] assms(2) by simp
next
  case (Some k)
  then have "\<not> k < i" "\<not> i < k"
    using alloc_Some [OF Some] assms by blast+
  with Some show ?thesis by simp
qed

lemma alloc_reopen:
  assumes "i < length T" "\<And>j. j < i \<Longrightarrow> T ! j \<noteq> None"
  shows "alloc (T[i := None]) = Some i"
  using assms by (intro alloc_free) auto

lemma alloc_above:
  assumes "alloc T = Some i" "n \<le> length T" "\<And>j. j < n \<Longrightarrow> T ! j \<noteq> None"
  shows "n \<le> i"
  using alloc_Some [OF assms(1)] assms(3) not_less by blast

end

definition lowest_fd :: "'f option list \<Rightarrow> nat option" where
  "lowest_fd T = find_idx (\<lambda>e. e = None) T"

interpretation fdt: lowest_free lowest_fd
proof
  show "lowest_fd T = Some i \<Longrightarrow> i < length T \<and> T ! i = None \<and> (\<forall>j < i. T ! j \<noteq> None)" for T :: "'f option list" and i
    unfolding lowest_fd_def using find_idx_SomeD [of "\<lambda>e. e = None" T i] by simp
  show "lowest_fd T = None \<Longrightarrow> i < length T \<Longrightarrow> T ! i \<noteq> None" for T :: "'f option list" and i
    unfolding lowest_fd_def by (auto simp: find_idx_None)
qed

text \<open>The kernel's \<open>fdalloc\<close> chooses this descriptor.\<close>

lemma fdalloc_lowest_fd:
  "map_option snd (fdalloc i f k) = lowest_fd (ofile (proc_at k i))"
  by (simp add: fdalloc_def lowest_fd_def split: option.split)

datatype sh_event =
    Execs string "string list" fdt
  | Waits fdt
  | Writes "desc option" string
  | Exits int

primrec perform :: "(nat \<Rightarrow> bool) \<Rightarrow> sh_prog \<Rightarrow> fdt \<Rightarrow> nat \<Rightarrow> nat \<times> sh_event list" where
  "perform ok (Close fd p) T n = perform ok p (T[fd := None]) n"
| "perform ok (Dup fd p) T n =
     perform ok p (case lowest_fd T of None \<Rightarrow> T | Some j \<Rightarrow> if T ! fd = None then T else T[j := T ! fd]) n"
| "perform ok (Open f mode k) T n =
     (case lowest_fd T of
        None \<Rightarrow> perform ok (k (-1)) T (Suc n)
      | Some j \<Rightarrow> if ok n then perform ok (k (int j)) (T[j := Some (File f mode)]) (Suc n)
                  else perform ok (k (-1)) T (Suc n))"
| "perform ok (Pipe k) T n =
     (case lowest_fd T of
        None \<Rightarrow> perform ok (k None) T (Suc n)
      | Some i \<Rightarrow>
          (case lowest_fd (T[i := Some (PipeRead n)]) of
             None \<Rightarrow> perform ok (k None) T (Suc n)
           | Some j \<Rightarrow>
               if ok n then perform ok (k (Some (i, j))) (T[i := Some (PipeRead n), j := Some (PipeWrite n)]) (Suc n)
               else perform ok (k None) T (Suc n)))"
| "perform ok (Fork c p f) T n =
     (if ok n then
        (case perform ok c T (Suc n) of (n1, xs) \<Rightarrow>
           (case perform ok p T n1 of (n2, ys) \<Rightarrow> (n2, xs @ ys)))
      else perform ok f T (Suc n))"
| "perform ok (Wait p) T n = apsnd ((#) (Waits T)) (perform ok p T n)"
| "perform ok (Exec path argv p) T n =
     (if ok n then (Suc n, [Execs path argv T]) else perform ok p T (Suc n))"
| "perform ok (Fprintf fd s p) T n = apsnd ((#) (Writes (T ! fd) s)) (perform ok p T n)"
| "perform ok (Exit st) T n = (n, [Exits st])"

section \<open>How a command should be wired\<close>

text \<open>
  \<open>wired\<close> gives the processes of a command and their tables without any of the
  closing and duplicating: a redirection replaces one entry, a pipeline replaces
  the output of its left side and the input of its right side, and everything
  else is inherited.
\<close>

definition panics :: "fdt \<Rightarrow> string \<Rightarrow> sh_event list" where
  "panics T s = [Writes (T ! 2) (s @ [CHR 0x0A]), Exits 1]"

definition two_free :: "fdt \<Rightarrow> bool" where
  "two_free T = (2 \<le> length (filter (\<lambda>e. e = None) T))"

primrec wired :: "(nat \<Rightarrow> bool) \<Rightarrow> string \<Rightarrow> cmd \<Rightarrow> fdt \<Rightarrow> nat \<Rightarrow> nat \<times> sh_event list" where
  "wired ok m (EXEC args) T n =
     (if args = [] then (n, [Exits 1])
      else let path = cstr m (fst (hd args)) in
        if ok n then (Suc n, [Execs path (map (\<lambda>w. cstr m (fst w)) args) T])
        else (Suc n, [Writes (T ! 2) (''exec '' @ path @ '' failed'' @ [CHR 0x0A]), Exits 0]))"
| "wired ok m (REDIR c q e mode fd) T n =
     (if ok n then wired ok m c (T[fd := Some (File (cstr m q) mode)]) (Suc n)
      else (Suc n, [Writes (T ! 2) (''open '' @ cstr m q @ '' failed'' @ [CHR 0x0A]), Exits 1]))"
| "wired ok m (LIST l r) T n =
     (if ok n then
        (case wired ok m l T (Suc n) of (n1, xs) \<Rightarrow>
           (case wired ok m r T n1 of (n2, ys) \<Rightarrow> (n2, xs @ Waits T # ys)))
      else (Suc n, panics T ''fork''))"
| "wired ok m (PIPE l r) T n =
     (if \<not> two_free T \<or> \<not> ok n then (Suc n, panics T ''pipe'')
      else if \<not> ok (Suc n) then (Suc (Suc n), panics T ''fork'')
      else (case wired ok m l (T[1 := Some (PipeWrite n)]) (Suc (Suc n)) of (n1, xs) \<Rightarrow>
        if \<not> ok n1 then (Suc n1, xs @ panics T ''fork'')
        else (case wired ok m r (T[0 := Some (PipeRead n)]) (Suc n1) of (n2, ys) \<Rightarrow>
          (n2, xs @ ys @ [Waits T, Waits T, Exits 0]))))"
| "wired ok m (BACK c) T n =
     (if ok n then (case wired ok m c T (Suc n) of (n1, xs) \<Rightarrow> (n1, xs @ [Exits 0]))
      else (Suc n, panics T ''fork''))"

definition std_open :: "fdt \<Rightarrow> bool" where
  "std_open T \<longleftrightarrow> 3 \<le> length T \<and> T ! 0 \<noteq> None \<and> T ! 1 \<noteq> None \<and> T ! 2 \<noteq> None"

lemma std_open_update [simp]: "std_open T \<Longrightarrow> std_open (T[i := Some d])"
  unfolding std_open_def by (cases "i < length T") (auto simp: nth_list_update list_update_beyond)

lemma std_below:
  assumes "std_open T" "j < 3"
  shows "T ! j \<noteq> None"
proof -
  have "j = 0 \<or> j = 1 \<or> j = 2"
    using assms(2) by auto
  then show ?thesis
    using assms(1) by (auto simp: std_open_def)
qed

lemma reopen_std:
  assumes "std_open T" "i < 3"
  shows "lowest_fd (T[i := None]) = Some i"
proof (rule fdt.alloc_reopen)
  show "i < length T"
    using assms by (simp add: std_open_def)
  show "T ! j \<noteq> None" if "j < i" for j
    using std_below [OF assms(1), of j] assms(2) that by simp
qed

lemma lowest_above:
  assumes "std_open T" "lowest_fd T = Some i"
  shows "3 \<le> i" "i < length T" "T ! i = None"
proof -
  show "3 \<le> i"
    using fdt.alloc_above [OF assms(2), of 3] std_below [OF assms(1)] assms(1) unfolding std_open_def by blast
  show "i < length T" "T ! i = None"
    using fdt.alloc_Some [OF assms(2)] by simp_all
qed

lemma lowest_fd_None: "lowest_fd T = None \<longleftrightarrow> filter (\<lambda>e. e = None) T = []"
  by (simp add: lowest_fd_def find_idx_None filter_empty_conv)

lemma length_filter_update:
  assumes "i < length T" "T ! i = None"
  shows "length (filter (\<lambda>e. e = None) T) = Suc (length (filter (\<lambda>e. e = None) (T[i := Some d])))"
  using assms
proof (induction T arbitrary: i)
  case (Cons x T)
  then show ?case by (cases i) auto
qed simp

lemma pipe_alloc:
  assumes "std_open T"
  shows "two_free T \<longleftrightarrow> (\<exists>i j. lowest_fd T = Some i \<and> lowest_fd (T[i := Some d]) = Some j)"
proof (cases "lowest_fd T")
  case None
  then show ?thesis by (simp add: two_free_def lowest_fd_None [THEN iffD1, OF None])
next
  case (Some i)
  have "two_free T \<longleftrightarrow> lowest_fd (T[i := Some d]) \<noteq> None"
    using length_filter_update [OF lowest_above(2,3) [OF assms Some], of d]
    by (cases "filter (\<lambda>e. e = None) (T[i := Some d])") (auto simp: two_free_def lowest_fd_None)
  with Some show ?thesis by auto
qed

text \<open>The child of a pipeline: one standard descriptor becomes an end of the pipe, and no other end stays.\<close>

lemma child_table:
  assumes T: "std_open T" and i: "lowest_fd T = Some i" and j: "lowest_fd (T[i := Some a]) = Some j"
    and k: "k < 3" "x = i \<and> d = a \<or> x = j \<and> d = b"
  defines "T1 \<equiv> T[i := Some a, j := Some b]"
  shows "lowest_fd (T1[k := None]) = Some k"
    and "T1[k := None] ! x = Some d"
    and "T1[k := None, k := Some d, i := None, j := None] = T[k := Some d]"
proof -
  have ii: "3 \<le> i" "i < length T" "T ! i = None"
    using lowest_above [OF T i] by simp_all
  have jj: "3 \<le> j" "j < length T" "T[i := Some a] ! j = None"
    using lowest_above [OF _ j] T by simp_all
  then have ij: "i \<noteq> j" "T ! j = None"
    using ii by (auto simp: nth_list_update split: if_splits)
  show "lowest_fd (T1[k := None]) = Some k"
    unfolding T1_def using T k(1) by (intro reopen_std) simp_all
  show "T1[k := None] ! x = Some d"
    unfolding T1_def using ii jj ij k by (auto simp: nth_list_update)
  show "T1[k := None, k := Some d, i := None, j := None] = T[k := Some d]"
    unfolding T1_def using ii jj ij k(1) by (intro nth_equalityI) (auto simp: nth_list_update)
qed

fun redirs_std :: "cmd \<Rightarrow> bool" where
  "redirs_std (EXEC args) = True"
| "redirs_std (REDIR c q e m fd) = (fd \<le> 1 \<and> redirs_std c)"
| "redirs_std (PIPE l r) = (redirs_std l \<and> redirs_std r)"
| "redirs_std (LIST l r) = (redirs_std l \<and> redirs_std r)"
| "redirs_std (BACK c) = redirs_std c"

lemma perform_panic: "perform ok (sh_panic s) T n = (n, panics T s)"
  by (simp add: sh_panic_def panics_def)

lemma perform_pipe:
  assumes T: "std_open T" and "two_free T" "ok n"
    and l: "\<And>T n. std_open T \<Longrightarrow> perform ok (runcmd m l) T n = wired ok m l T n"
    and r: "\<And>T n. std_open T \<Longrightarrow> perform ok (runcmd m r) T n = wired ok m r T n"
  shows "perform ok (runcmd m (PIPE l r)) T n = wired ok m (PIPE l r) T n"
proof -
  obtain i j where ij: "lowest_fd T = Some i" "lowest_fd (T[i := Some (PipeRead n)]) = Some j"
    using assms(2) pipe_alloc [OF T] by blast
  have ge: "3 \<le> i" "3 \<le> j" "i < length T" "j < length T" "T ! i = None"
    using lowest_above [OF T ij(1)] lowest_above [OF _ ij(2)] T by simp_all
  have ne: "i \<noteq> j"
    using fdt.alloc_Some [OF ij(2)] ge by auto
  let ?T = "T[i := Some (PipeRead n), j := Some (PipeWrite n)]"
  note left = child_table [OF T ij, of 1 j "PipeWrite n" "PipeWrite n"]
  note right = child_table [OF T ij, of 0 i "PipeRead n" "PipeWrite n"]
  have "T ! j = None"
    using fdt.alloc_Some [OF ij(2)] ne by simp
  then have fin: "?T[i := None, j := None] = T"
    using ge ne by (intro nth_equalityI) (auto simp: nth_list_update)
  have p2: "?T ! 2 = T ! 2"
    using ge by simp
  show ?thesis
    using assms(2,3) ij left right fin p2 l [of "T[1 := Some (PipeWrite n)]"] r [of "T[0 := Some (PipeRead n)]"] T
    by (auto simp: fork1_def perform_panic panics_def split: prod.split)
qed

lemma perform_runcmd:
  "std_open T \<Longrightarrow> redirs_std c \<Longrightarrow> perform ok (runcmd m c) T n = wired ok m c T n"
proof (induction c arbitrary: T n)
  case (EXEC args)
  then show ?case by (cases args) (auto simp: Let_def split_beta)
next
  case (REDIR c q e mode fd)
  then have fd: "fd < 3"
    by simp
  show ?case
    using REDIR reopen_std [OF REDIR.prems(1) fd] by auto
next
  case (PIPE l r)
  have IH: "\<And>T n. std_open T \<Longrightarrow> perform ok (runcmd m l) T n = wired ok m l T n"
    "\<And>T n. std_open T \<Longrightarrow> perform ok (runcmd m r) T n = wired ok m r T n"
    using PIPE.IH PIPE.prems(2) by simp_all
  show ?case
  proof (cases "two_free T \<and> ok n")
    case True
    then show ?thesis using perform_pipe [OF PIPE.prems(1) _ _ IH] by blast
  next
    case False
    then show ?thesis
      using pipe_alloc [OF PIPE.prems(1), of "PipeRead n"]
      by (auto simp: perform_panic split: option.split)
  qed
qed (auto simp: fork1_def perform_panic split: prod.split)

lemma redircmd_std: "redirs_std c \<Longrightarrow> redirs_std (redircmd tok c q e)"
  by (simp add: redircmd_def)

lemma push_arg_std: "redirs_std c \<Longrightarrow> redirs_std (push_arg c w)"
  by (induction c w rule: push_arg.induct) auto

lemma gsimple_std: "gsimple ts c \<Longrightarrow> redirs_std c"
  by (induction rule: gsimple.induct) (auto simp: redircmd_std push_arg_std)

lemma grammar_std:
  shows "gline ts c \<Longrightarrow> redirs_std c" and "gback ts c \<Longrightarrow> redirs_std c" and "gpipe ts c \<Longrightarrow> redirs_std c"
    and "gexec ts c \<Longrightarrow> redirs_std c" and "gblock ts c \<Longrightarrow> redirs_std c"
  by (induction rule: gline_gback_gpipe_gexec_gblock.inducts) (auto simp: redircmd_std gsimple_std)

section \<open>Who holds the ends of a pipe\<close>

fun ev_table :: "sh_event \<Rightarrow> fdt option" where
  "ev_table (Execs path argv T) = Some T"
| "ev_table (Waits T) = Some T"
| "ev_table _ = None"

definition rewired :: "fdt \<Rightarrow> fdt \<Rightarrow> bool" where
  "rewired T T' \<longleftrightarrow> length T' = length T \<and> (\<forall>fd \<ge> 2. fd < length T \<longrightarrow> T' ! fd = T ! fd) \<and>
     (T' ! 0 = T ! 0 \<or> (\<exists>f md. T' ! 0 = Some (File f md)) \<or> (\<exists>k. T' ! 0 = Some (PipeRead k))) \<and>
     (T' ! 1 = T ! 1 \<or> (\<exists>f md. T' ! 1 = Some (File f md)) \<or> (\<exists>k. T' ! 1 = Some (PipeWrite k)))"

lemma rewired_refl [simp]: "rewired T T"
  by (simp add: rewired_def)

lemma nth_std:
  assumes "2 \<le> length T"
  shows "T[0 := x] ! 0 = x" "T[Suc 0 := x] ! Suc 0 = x"
proof -
  have "0 < length T" "Suc 0 < length T"
    using assms by linarith+
  then show "T[0 := x] ! 0 = x" "T[Suc 0 := x] ! Suc 0 = x"
    by simp_all
qed

lemma rewired_file:
  assumes "rewired (T[fd := Some (File f md)]) T'" "fd \<le> 1" "2 \<le> length T"
  shows "rewired T T'"
proof -
  have "fd = 0 \<or> fd = 1"
    using assms(2) by auto
  then show ?thesis
    using assms(1) nth_std [OF assms(3)] unfolding rewired_def by (elim disjE) auto
qed

lemma rewired_pipe:
  "rewired (T[1 := Some (PipeWrite k)]) T' \<Longrightarrow> 2 \<le> length T \<Longrightarrow> rewired T T'"
  "rewired (T[0 := Some (PipeRead k)]) T' \<Longrightarrow> 2 \<le> length T \<Longrightarrow> rewired T T'"
  unfolding rewired_def by (auto simp: nth_std)

lemma wired_tables:
  assumes "redirs_std c" "ev \<in> set (snd (wired ok m c T n))" "ev_table ev = Some T'" "2 \<le> length T"
  shows "rewired T T'"
  using assms(1,2,4)
proof (induction c arbitrary: T n)
  case (EXEC args)
  then show ?case
    using assms(3) by (auto simp: Let_def split: if_splits)
next
  case (REDIR c q e mode fd)
  show ?case
  proof (cases "ok n")
    case True
    then have "rewired (T[fd := Some (File (cstr m q) mode)]) T'"
      using REDIR by simp
    then show ?thesis
      using REDIR.prems rewired_file by (metis redirs_std.simps(2))
  next
    case False
    then show ?thesis
      using REDIR.prems(2) assms(3) by auto
  qed
next
  case (PIPE l r)
  obtain n1 xs where l: "wired ok m l (T[1 := Some (PipeWrite n)]) (Suc (Suc n)) = (n1, xs)"
    by (rule prod.exhaust)
  obtain n2 ys where r: "wired ok m r (T[0 := Some (PipeRead n)]) (Suc n1) = (n2, ys)"
    by (rule prod.exhaust)
  consider "ev \<in> set xs" | "ev \<in> set ys" | "T' = T"
    using PIPE.prems(2) assms(3) l r by (auto simp: panics_def split: if_splits)
  then show ?case
  proof cases
    case 1
    then show ?thesis
      using PIPE.IH(1) [of "T[1 := Some (PipeWrite n)]" "Suc (Suc n)"] PIPE.prems l rewired_pipe(1) by auto
  next
    case 2
    then show ?thesis
      using PIPE.IH(2) [of "T[0 := Some (PipeRead n)]" "Suc n1"] PIPE.prems r rewired_pipe(2) by auto
  qed simp
next
  case (LIST l r)
  then show ?case
    using assms(3) by (auto simp: panics_def split_beta split: if_splits)
next
  case (BACK c)
  then show ?case
    using assms(3) by (auto simp: panics_def split_beta split: if_splits)
qed

text \<open>
  C39: the shell wires a parsed command as its tree says, whatever calls fail: the
  system calls of \<open>runcmd\<close> start the processes of \<open>wired\<close> with exactly the tables
  given there.
\<close>
theorem sh_runs_as_wired:
  assumes "CHR 0x00 \<notin> set b" "parsecmd b = Parsed (c, m) s" "std_open T"
  shows "perform ok (runcmd m c) T n = wired ok m c T n"
  using perform_runcmd [OF assms(3) grammar_std(1)] parsecmd_sound(1) [OF assms(2,1)] by blast

text \<open>
  \<open>holds d ev\<close>: the process of the event has \<open>d\<close> in its table.  Apart from those of the
  table the command starts with, the ends that show up are those of pipes made on the way, which
  are named by the numbers from \<open>n\<close> on.
\<close>

definition holds :: "desc \<Rightarrow> sh_event \<Rightarrow> bool" where
  "holds d ev = (case ev_table ev of None \<Rightarrow> False | Some T \<Rightarrow> Some d \<in> set T)"

lemma holds_simps [simp]:
  "holds d (Execs path argv T) \<longleftrightarrow> Some d \<in> set T" "holds d (Waits T) \<longleftrightarrow> Some d \<in> set T"
  "\<not> holds d (Writes e t)" "\<not> holds d (Exits st)"
  by (simp_all add: holds_def)

definition ends_from :: "fdt \<Rightarrow> nat \<Rightarrow> nat \<Rightarrow> sh_event list \<Rightarrow> bool" where
  "ends_from T n n' evs \<longleftrightarrow> n \<le> n' \<and> (\<forall>ev \<in> set evs. \<forall>k.
     (holds (PipeWrite k) ev \<longrightarrow> Some (PipeWrite k) \<in> set T \<or> n \<le> k \<and> k < n')
   \<and> (holds (PipeRead k) ev \<longrightarrow> Some (PipeRead k) \<in> set T \<or> n \<le> k \<and> k < n'))"

lemma ends_from_update:
  assumes "ends_from (T[fd := Some d]) (Suc n) n' evs"
    "d = PipeWrite n \<or> d = PipeRead n \<or> (\<exists>f md. d = File f md)"
  shows "ends_from T n n' evs"
proof -
  have "Some e \<in> set T \<or> e = d" if "Some e \<in> set (T[fd := Some d])" for e
    using set_update_subset_insert [of T fd "Some d"] that by auto
  then show ?thesis
    using assms unfolding ends_from_def by (fastforce dest: less_imp_le Suc_leD)
qed

lemma ends_from_append [simp]:
  "ends_from T n n1 xs \<Longrightarrow> ends_from T n1 n' ys \<Longrightarrow> ends_from T n n' (xs @ ys)"
  unfolding ends_from_def by fastforce

lemma ends_from_later: "ends_from T n1 n' xs \<Longrightarrow> n \<le> n1 \<Longrightarrow> ends_from T n n' xs"
  unfolding ends_from_def by fastforce

lemma ends_from_wider: "ends_from T n n1 xs \<Longrightarrow> n1 \<le> n' \<Longrightarrow> ends_from T n n' xs"
  unfolding ends_from_def by fastforce

lemma ends_from_waits [simp]: "ends_from T n n [Waits T]"
  by (simp add: ends_from_def)

lemma wired_ends: "ends_from T n (fst (wired ok m c T n)) (snd (wired ok m c T n))"
proof (induction c arbitrary: T n)
  case (EXEC args)
  then show ?case by (auto simp: ends_from_def Let_def)
next
  case (REDIR c q e mode fd)
  then show ?case
    using ends_from_update [OF REDIR.IH [of "T[fd := Some (File (cstr m q) mode)]" "Suc n"]]
    by (auto simp: ends_from_def)
next
  case (LIST l r)
  obtain n1 xs where l: "wired ok m l T (Suc n) = (n1, xs)" by (rule prod.exhaust)
  obtain n2 ys where r: "wired ok m r T n1 = (n2, ys)" by (rule prod.exhaust)
  have "ends_from T n n2 (xs @ [Waits T] @ ys)"
    using LIST.IH(1) [of T "Suc n"] LIST.IH(2) [of T n1] l r
    by (intro ends_from_append [of T n n1] ends_from_append [of T n1 n1]) (auto intro: ends_from_later)
  then show ?case using l r by (auto simp: panics_def ends_from_def)
next
  case (PIPE l r)
  obtain n1 xs where l: "wired ok m l (T[1 := Some (PipeWrite n)]) (Suc (Suc n)) = (n1, xs)"
    by (rule prod.exhaust)
  obtain n2 ys where r: "wired ok m r (T[0 := Some (PipeRead n)]) (Suc n1) = (n2, ys)"
    by (rule prod.exhaust)
  have x: "ends_from (T[1 := Some (PipeWrite n)]) (Suc n) n1 xs"
    using PIPE.IH(1) [of "T[1 := Some (PipeWrite n)]" "Suc (Suc n)"] l by (auto intro: ends_from_later)
  then have nn: "Suc n \<le> n1" by (simp add: ends_from_def)
  have "ends_from (T[0 := Some (PipeRead n)]) (Suc n1) n2 ys"
    using PIPE.IH(2) [of "T[0 := Some (PipeRead n)]" "Suc n1"] r by simp
  then have y: "ends_from T n n2 ys"
    by (rule ends_from_update [OF ends_from_later]) (use nn in auto)
  have "ends_from T n n1 xs" by (rule ends_from_update [OF x]) simp
  moreover have "n1 \<le> n2" using \<open>ends_from (T[0 := Some (PipeRead n)]) (Suc n1) n2 ys\<close> by (simp add: ends_from_def)
  ultimately have "ends_from T n n2 xs" "ends_from T n (Suc n1) xs" by (auto intro: ends_from_wider)
  then have "ends_from T n n2 (xs @ ys @ [Waits T, Waits T, Exits 0])" "ends_from T n (Suc n1) (xs @ panics T ''fork'')"
    using y by (simp_all add: ends_from_def panics_def ball_Un)
  then show ?case using l r by (simp add: ends_from_def panics_def)
next
  case (BACK c)
  obtain n1 xs where c: "wired ok m c T (Suc n) = (n1, xs)" by (rule prod.exhaust)
  have "ends_from T n n1 xs" using BACK.IH [of T "Suc n"] c by (auto intro: ends_from_later)
  then show ?case using c by (auto simp: panics_def ends_from_def)
qed

definition in_order :: "nat \<Rightarrow> sh_event list \<Rightarrow> bool" where
  "in_order k evs \<longleftrightarrow> sorted_wrt (\<lambda>e e'. \<not> (holds (PipeRead k) e \<and> holds (PipeWrite k) e')) evs
     \<and> (\<forall>e \<in> set evs. \<not> (holds (PipeRead k) e \<and> holds (PipeWrite k) e))"

lemma in_order_append:
  "in_order k (xs @ ys) \<longleftrightarrow> in_order k xs \<and> in_order k ys
     \<and> (\<forall>x \<in> set xs. \<forall>y \<in> set ys. \<not> (holds (PipeRead k) x \<and> holds (PipeWrite k) y))"
  by (auto simp: in_order_def sorted_wrt_append)

lemma in_order_Nil: "in_order k []"
  by (simp add: in_order_def)

lemma in_order_Cons:
  "in_order k (x # ys) \<longleftrightarrow> in_order k ys \<and> (holds (PipeRead k) x \<longrightarrow> (\<forall>y \<in> set (x # ys). \<not> holds (PipeWrite k) y))"
  by (auto simp: in_order_def)

lemma in_order_one_kind:
  "\<forall>e \<in> set evs. \<not> holds (PipeRead k) e \<Longrightarrow> in_order k evs"
  "\<forall>e \<in> set evs. \<not> holds (PipeWrite k) e \<Longrightarrow> in_order k evs"
  by (auto simp: in_order_def intro: sorted_wrt_mono_rel [of _ "\<lambda>_ _. True"])

text \<open>The writers of a pipe come before its readers, and no process has both ends.\<close>

lemma wired_in_order:
  assumes "Some (PipeRead k) \<notin> set T" "Some (PipeWrite k) \<notin> set T"
  shows "in_order k (snd (wired ok m c T n))"
  using assms
proof (induction c arbitrary: T n)
  case (EXEC args)
  then show ?case by (auto simp: in_order_def Let_def)
next
  case (REDIR c q e mode fd)
  have "Some d \<in> set (T[fd := Some (File (cstr m q) mode)]) \<Longrightarrow> Some d \<in> set T \<or> d = File (cstr m q) mode" for d
    using set_update_subset_insert [of T fd "Some (File (cstr m q) mode)"] by auto
  then have "Some (PipeRead k) \<notin> set (T[fd := Some (File (cstr m q) mode)])"
    "Some (PipeWrite k) \<notin> set (T[fd := Some (File (cstr m q) mode)])" using REDIR.prems by blast+
  from REDIR.IH [OF this, of "Suc n"] show ?case by (simp add: in_order_one_kind)
next
  case (LIST l r)
  obtain n1 xs where l: "wired ok m l T (Suc n) = (n1, xs)" by (rule prod.exhaust)
  obtain n2 ys where r: "wired ok m r T n1 = (n2, ys)" by (rule prod.exhaust)
  have e: "ends_from T (Suc n) n1 xs" "ends_from T n1 n2 ys"
    using wired_ends [of T "Suc n" ok m l] wired_ends [of T n1 ok m r] l r by simp_all
  have w: "\<not> holds (PipeRead k) (Waits T)" "\<not> holds (PipeWrite k) (Waits T)" using LIST.prems by simp_all
  have "in_order k xs" "in_order k ys"
    using LIST.IH(1) [of T "Suc n"] LIST.IH(2) [of T n1] LIST.prems l r by simp_all
  moreover have "\<not> (holds (PipeRead k) x \<and> holds (PipeWrite k) y)" if "x \<in> set xs" "y \<in> set ys" for x y
    using e that LIST.prems unfolding ends_from_def by (meson leD)
  ultimately have "in_order k (xs @ [Waits T] @ ys)" using w by (auto simp: in_order_append in_order_Cons)
  then show ?case using l r LIST.prems by (auto simp: panics_def in_order_Cons in_order_Nil)
next
  case (PIPE l r)
  let ?l = "T[1 := Some (PipeWrite n)]" and ?r = "T[0 := Some (PipeRead n)]"
  obtain n1 xs where l: "wired ok m l ?l (Suc (Suc n)) = (n1, xs)" by (rule prod.exhaust)
  obtain n2 ys where r: "wired ok m r ?r (Suc n1) = (n2, ys)" by (rule prod.exhaust)
  have e: "ends_from ?l (Suc (Suc n)) n1 xs" "ends_from ?r (Suc n1) n2 ys"
    using wired_ends [of ?l "Suc (Suc n)" ok m l] wired_ends [of ?r "Suc n1" ok m r] l r by simp_all
  have T: "Some (PipeRead k) \<notin> set ?l" "Some (PipeWrite k) \<notin> set ?r"
    "k \<noteq> n \<Longrightarrow> Some (PipeWrite k) \<notin> set ?l" "k \<noteq> n \<Longrightarrow> Some (PipeRead k) \<notin> set ?r"
    using PIPE.prems set_update_subset_insert [of T 1 "Some (PipeWrite n)"]
      set_update_subset_insert [of T 0 "Some (PipeRead n)"] by auto
  have "in_order k xs \<and> in_order k ys"
  proof (cases "k = n")
    case True
    have "\<forall>x \<in> set xs. \<not> holds (PipeRead k) x" "\<forall>y \<in> set ys. \<not> holds (PipeWrite k) y"
      using e T(1,2) True unfolding ends_from_def by fastforce+
    then show ?thesis by (simp add: in_order_one_kind)
  next
    case False
    then show ?thesis
      using PIPE.IH(1) [of ?l "Suc (Suc n)"] PIPE.IH(2) [of ?r "Suc n1"] T l r by simp
  qed
  moreover have "\<not> (holds (PipeRead k) x \<and> holds (PipeWrite k) y)" if "x \<in> set xs" "y \<in> set ys" for x y
    using e that T(1,2) unfolding ends_from_def by (metis Suc_leD leD)
  moreover have "\<not> holds (PipeRead k) (Waits T)" "\<not> holds (PipeWrite k) (Waits T)"
    using PIPE.prems by simp_all
  ultimately show ?case
    using l r by (auto simp: panics_def in_order_append in_order_Cons in_order_Nil)
next
  case (BACK c)
  then show ?case
    using BACK.IH [of T "Suc n"]
    by (cases "wired ok m c T (Suc n)") (auto simp: panics_def in_order_append in_order_Cons in_order_Nil)
qed

lemma rewired_places:
  assumes "rewired T T'" "Some (PipeRead k) \<notin> set T" "Some (PipeWrite k) \<notin> set T" "fd < length T'" "2 \<le> length T"
  shows "(T' ! fd = Some (PipeWrite k) \<longrightarrow> fd = 1) \<and> (T' ! fd = Some (PipeRead k) \<longrightarrow> fd = 0)"
proof -
  have T: "T ! j \<noteq> Some (PipeRead k)" "T ! j \<noteq> Some (PipeWrite k)" if "j < length T" for j
    using assms(2,3) that by (metis nth_mem)+
  have "fd = 0 \<or> fd = 1 \<or> 2 \<le> fd" by linarith
  then show ?thesis
    using assms(1,4,5) T [of fd] T [of 0] T [of 1] unfolding rewired_def by (elim disjE) auto
qed

text \<open>
  C40: where the ends of a command's pipes are.  Take any process of the command
  that starts a program or waits, with whatever failures before.  Its
  descriptors from 2 on are those the command was started with; it holds a write
  end of a pipe of the command at descriptor 1 only and a read end at descriptor
  0 only; and neither it nor any process that comes later in the order of the
  command line holds the write end of a pipe whose read end it holds.  So
  the write end is held only to the left of every reader, and a reader sees end of
  file when the processes to its left are gone.  (A subshell that waits for part
  of a pipeline does keep the read or write end that this part was given.)
\<close>
theorem sh_pipe_ends_in_place:
  assumes "CHR 0x00 \<notin> set b" "parsecmd b = Parsed (c, m) s" "std_open T"
    "Some (PipeRead k) \<notin> set T" "Some (PipeWrite k) \<notin> set T"
    "evs = snd (perform ok (runcmd m c) T n)" "i < length evs" "ev_table (evs ! i) = Some T'"
  shows "length T' = length T \<and> (\<forall>fd \<ge> 2. fd < length T \<longrightarrow> T' ! fd = T ! fd)
    \<and> (\<forall>fd < length T. (T' ! fd = Some (PipeWrite k) \<longrightarrow> fd = 1) \<and> (T' ! fd = Some (PipeRead k) \<longrightarrow> fd = 0))
    \<and> (Some (PipeRead k) \<in> set T' \<longrightarrow>
        (\<forall>j U. i \<le> j \<longrightarrow> j < length evs \<longrightarrow> ev_table (evs ! j) = Some U \<longrightarrow> Some (PipeWrite k) \<notin> set U))"
proof -
  have std: "redirs_std c"
    using parsecmd_sound(1) [OF assms(2,1)] by (rule grammar_std(1))
  have evs: "evs = snd (wired ok m c T n)"
    using assms(6) perform_runcmd [OF assms(3) std] by simp
  have len: "2 \<le> length T" using assms(3) by (simp add: std_open_def)
  have rw: "rewired T T'"
    using wired_tables [OF std _ assms(8) len] assms(7) evs by (metis nth_mem)
  have ord: "in_order k evs" using wired_in_order [OF assms(4,5)] evs by simp
  have "Some (PipeWrite k) \<notin> set U"
    if "Some (PipeRead k) \<in> set T'" "i \<le> j" "j < length evs" "ev_table (evs ! j) = Some U" for j U
  proof -
    have "holds (PipeRead k) (evs ! i)" using that(1) assms(8) by (simp add: holds_def)
    then have "\<not> holds (PipeWrite k) (evs ! j)"
      using ord that(2,3) assms(7) unfolding in_order_def sorted_wrt_iff_nth_less
      by (cases "i = j") (simp_all add: order_less_le)
    then show ?thesis using that(4) by (simp add: holds_def)
  qed
  moreover have "length T' = length T" "\<forall>fd \<ge> 2. fd < length T \<longrightarrow> T' ! fd = T ! fd"
    using rw by (simp_all add: rewired_def)
  moreover from this(1) have "\<forall>fd < length T. (T' ! fd = Some (PipeWrite k) \<longrightarrow> fd = 1)
      \<and> (T' ! fd = Some (PipeRead k) \<longrightarrow> fd = 0)"
    using rewired_places [OF rw assms(4,5) _ len] by simp
  ultimately show ?thesis by blast
qed

definition sample_table :: fdt where
  "sample_table = [Some (Inherited 0), Some (Inherited 1), Some (Inherited 2), None, None, None]"

lemma sample_line:
  "parsecmd ''ls|wc'' =
    Parsed (PIPE (EXEC [(0, 2)]) (EXEC [(3, 5)]), ''ls'' @ [CHR 0x00] @ ''wc'' @ [CHR 0x00]) 5"
  by code_simp

theorem sh_runs_as_wired_witness:
  "perform (\<lambda>_. True) (runcmd (''ls'' @ [CHR 0x00] @ ''wc'' @ [CHR 0x00]) (PIPE (EXEC [(0, 2)]) (EXEC [(3, 5)])))
     sample_table 0 =
   (5, [Execs ''ls'' [''ls''] (sample_table[1 := Some (PipeWrite 0)]),
        Execs ''wc'' [''wc''] (sample_table[0 := Some (PipeRead 0)]),
        Waits sample_table, Waits sample_table, Exits 0])"
proof -
  have "std_open sample_table"
    by (simp add: std_open_def sample_table_def)
  from sh_runs_as_wired [OF _ sample_line this, of "\<lambda>_. True" 0] show ?thesis
    by (simp add: sample_table_def two_free_def cstr_def)
qed

text \<open>
  Three programs: the second event is that of the middle one, which reads from one pipe and writes
  to the other; the events after it are the right program, the subshell that waits for both, and the
  shell.
\<close>

lemma sample_pipeline:
  "parsecmd ''a|b|c'' = Parsed (PIPE (EXEC [(0, 1)]) (PIPE (EXEC [(2, 3)]) (EXEC [(4, 5)])),
    ''a'' @ [CHR 0x00] @ ''b'' @ [CHR 0x00] @ ''c'' @ [CHR 0x00]) 5"
  by code_simp

theorem sh_pipe_ends_in_place_witness:
  "\<exists>evs T'. evs = snd (perform (\<lambda>_. True) (runcmd (''a'' @ [CHR 0x00] @ ''b'' @ [CHR 0x00] @ ''c'' @ [CHR 0x00])
        (PIPE (EXEC [(0, 1)]) (PIPE (EXEC [(2, 3)]) (EXEC [(4, 5)])))) sample_table 0)
     \<and> ev_table (evs ! 1) = Some T' \<and> T' ! 0 = Some (PipeRead 0)
     \<and> (\<forall>j U. 1 \<le> j \<longrightarrow> j < length evs \<longrightarrow> ev_table (evs ! j) = Some U \<longrightarrow> Some (PipeWrite 0) \<notin> set U)"
proof -
  let ?evs = "snd (perform (\<lambda>_. True) (runcmd (''a'' @ [CHR 0x00] @ ''b'' @ [CHR 0x00] @ ''c'' @ [CHR 0x00])
        (PIPE (EXEC [(0, 1)]) (PIPE (EXEC [(2, 3)]) (EXEC [(4, 5)])))) sample_table 0)"
  let ?T = "sample_table[0 := Some (PipeRead 0), 1 := Some (PipeWrite 4)]"
  have e: "ev_table (?evs ! 1) = Some ?T" "1 < length ?evs" by code_simp+
  have t: "std_open sample_table" "Some (PipeRead 0) \<notin> set sample_table" "Some (PipeWrite 0) \<notin> set sample_table"
    "?T ! 0 = Some (PipeRead 0)" "Some (PipeRead 0) \<in> set ?T"
    by (simp_all add: std_open_def sample_table_def)
  from sh_pipe_ends_in_place [OF _ sample_pipeline t(1-3) refl e(2,1)] e(1) t(4,5)
  show ?thesis by (intro exI [of _ ?evs] exI [of _ ?T]) simp
qed

section \<open>The main loop\<close>

text \<open>
  The loop at the start of \<open>main\<close> opens the console until descriptors 0, 1 and 2
  are in use; \<open>ok\<close> says which of the calls succeed.
\<close>

definition console :: desc where
  "console = File ''console'' O_RDWR"

lemma lowest_fd_decrease:
  "lowest_fd T = Some fd \<Longrightarrow>
   length (filter (\<lambda>e. e = None) (T[fd := Some d])) < length (filter (\<lambda>e. e = None) T)"
  using fdt.alloc_Some [of T fd] length_filter_update [of fd T d] by simp

function open_console :: "(nat \<Rightarrow> bool) \<Rightarrow> fdt \<Rightarrow> nat \<Rightarrow> fdt" where
  "open_console ok T n =
     (case lowest_fd T of
        None \<Rightarrow> T
      | Some fd \<Rightarrow>
          if \<not> ok n then T
          else if 3 \<le> fd then T
          else open_console ok (T[fd := Some console]) (Suc n))"
  by pat_completeness auto

termination
  by (relation "measure (\<lambda>(ok, T, n). length (filter (\<lambda>e. e = None) T))")
     (auto simp: lowest_fd_decrease)

declare open_console.simps [simp del]

lemma open_console_std:
  assumes "3 < length T" "\<And>n. ok n"
  shows "std_open (open_console ok T n) \<and> length (open_console ok T n) = length T \<and>
         (\<forall>fd. fd < length T \<longrightarrow> open_console ok T n ! fd =
           (if fd < 3 \<and> T ! fd = None then Some console else T ! fd))"
  using assms(1)
proof (induction "length (filter (\<lambda>e. e = None) T)" arbitrary: T n rule: less_induct)
  case less
  show ?case
  proof (cases "\<exists>fd. lowest_fd T = Some fd \<and> fd < 3")
    case True
    then obtain fd where fd: "lowest_fd T = Some fd" "fd < 3"
      by blast
    let ?T = "T[fd := Some console]"
    have step: "open_console ok T n = open_console ok ?T (Suc n)"
      using fd assms(2) by (subst open_console.simps) simp
    have "std_open (open_console ok ?T (Suc n)) \<and> length (open_console ok ?T (Suc n)) = length T \<and>
      (\<forall>i. i < length T \<longrightarrow> open_console ok ?T (Suc n) ! i = (if i < 3 \<and> ?T ! i = None then Some console else ?T ! i))"
      using less(1) [of ?T "Suc n"] lowest_fd_decrease [OF fd(1), of console] less(2) by simp
    moreover have "(if i < 3 \<and> ?T ! i = None then Some console else ?T ! i) =
       (if i < 3 \<and> T ! i = None then Some console else T ! i)" if "i < length T" for i
      using fdt.alloc_Some [OF fd(1)] fd(2) that by (cases "i = fd") auto
    ultimately show ?thesis
      unfolding step by simp
  next
    case False
    then have stop: "open_console ok T n = T"
      by (subst open_console.simps) (auto split: option.split)
    have used: "T ! i \<noteq> None" if "i < 3" for i
    proof (cases "lowest_fd T")
      case None
      then show ?thesis
        using fdt.alloc_None [OF None, of i] less(2) that by simp
    next
      case (Some k)
      with False have "i < k"
        using that by auto
      then show ?thesis
        using fdt.alloc_Some [OF Some] by blast
    qed
    then have "std_open T"
      using less(2) by (simp add: std_open_def)
    then show ?thesis
      unfolding stop using used by (auto dest: used)
  qed
qed

text \<open>\<open>gets\<close> on what is left of the input; the end of the list is the end of the file.\<close>

fun gets_loop :: "nat \<Rightarrow> string \<Rightarrow> string \<times> string" where
  "gets_loop 0 inp = ([], inp)"
| "gets_loop (Suc k) [] = ([], [])"
| "gets_loop (Suc k) (c # inp) =
     (if c = CHR 0x0A \<or> c = CHR 0x0D then ([c], inp)
      else (case gets_loop k inp of (l, rest) \<Rightarrow> (c # l, rest)))"

definition gets :: "nat \<Rightarrow> string \<Rightarrow> string \<times> string" where
  "gets nbuf inp = gets_loop (nbuf - 1) inp"

text \<open>\<open>getcmd\<close>: \<open>None\<close> is the result \<open>-1\<close>.\<close>

definition getcmd :: "nat \<Rightarrow> string \<Rightarrow> (string \<times> string) option" where
  "getcmd nbuf inp =
     (case gets nbuf inp of (l, rest) \<Rightarrow>
        if l = [] \<or> hd l = CHR 0x00 then None else Some (cstr l 0, rest))"

text \<open>
  What the loop of \<open>main\<close> does with a line.  The child parses and runs it; its
  parser never runs out of fuel (\<open>parseline_fuel\<close>).
\<close>

datatype sh_action = Blank | Chdir string | Run sh_prog

definition child_prog :: "string \<Rightarrow> sh_prog" where
  "child_prog b =
     (case parsecmd b of
        Parsed (c, m) _ \<Rightarrow> runcmd m c
      | Panic msg \<Rightarrow> sh_panic msg
      | NoFuel \<Rightarrow> Exit 1)"

definition line_action :: "string \<Rightarrow> sh_action" where
  "line_action buf =
     (let cmd = dropWhile (\<lambda>c. c = CHR '' '' \<or> c = CHR 0x09) buf in
      if cmd \<noteq> [] \<and> hd cmd = CHR 0x0A then Blank
      else if take 3 cmd = ''cd '' then Chdir (drop 3 (butlast cmd))
      else Run (child_prog cmd))"

lemma gets_loop_length: "length (snd (gets_loop k inp)) \<le> length inp"
  by (induction k inp rule: gets_loop.induct) (auto split: prod.splits)

lemma gets_loop_append: "fst (gets_loop k inp) @ snd (gets_loop k inp) = inp"
  by (induction k inp rule: gets_loop.induct) (auto split: prod.splits)

lemma getcmd_decrease:
  assumes "getcmd nbuf inp = Some (l, rest)"
  shows "length rest < length inp"
proof -
  have "fst (gets nbuf inp) \<noteq> []" "snd (gets nbuf inp) = rest"
    using assms by (auto simp: getcmd_def split: prod.splits if_splits)
  moreover have "length (fst (gets nbuf inp)) + length (snd (gets nbuf inp)) = length inp"
    unfolding gets_def by (metis gets_loop_append length_append)
  ultimately show ?thesis
    by (cases "fst (gets nbuf inp)") auto
qed

function sh_main :: "string \<Rightarrow> sh_action list" where
  "sh_main inp =
     (case getcmd 100 inp of
        None \<Rightarrow> []
      | Some (buf, rest) \<Rightarrow> line_action buf # sh_main rest)"
  by pat_completeness auto
termination
  by (relation "measure length") (auto dest: getcmd_decrease)

declare sh_main.simps [simp del]

lemma gets_loop_line:
  assumes "length l \<le> k" "CHR 0x0A \<notin> set l" "CHR 0x0D \<notin> set l"
  shows "gets_loop (Suc k) (l @ CHR 0x0A # rest) = (l @ [CHR 0x0A], rest)"
  using assms
proof (induction l arbitrary: k)
  case (Cons c l)
  then obtain k' where "k = Suc k'"
    by (cases k) auto
  with Cons show ?case by auto
qed simp

text \<open>
  the shell runs its input line by line.  When the lines have at most 98
  characters before the newline and no NUL or carriage return, the actions of
  \<open>main\<close> are those of the lines, in order.
\<close>
theorem sh_main_runs_lines:
  assumes "\<forall>l \<in> set ls. length l \<le> 98 \<and> set l \<inter> {CHR 0x0A, CHR 0x0D, CHR 0x00} = {}"
  shows "sh_main (concat (map (\<lambda>l. l @ [CHR 0x0A]) ls)) = map (\<lambda>l. line_action (l @ [CHR 0x0A])) ls"
  using assms
proof (induction ls)
  case Nil
  then show ?case
    by (subst sh_main.simps) (simp add: getcmd_def gets_def numeral_eq_Suc)
next
  case (Cons l ls)
  let ?rest = "concat (map (\<lambda>l. l @ [CHR 0x0A]) ls)"
  have g: "gets 100 (l @ CHR 0x0A # ?rest) = (l @ [CHR 0x0A], ?rest)"
    using gets_loop_line [of l 98 ?rest] Cons.prems by (simp add: gets_def)
  have "CHR 0x00 \<notin> set (l @ [CHR 0x0A])"
    using Cons.prems by auto
  then have "cstr (l @ [CHR 0x0A]) 0 = l @ [CHR 0x0A]" "hd (l @ [CHR 0x0A]) \<noteq> CHR 0x00"
    by (auto simp: cstr_def takeWhile_eq_all_conv hd_append split: if_splits)
       (metis hd_in_set)
  then have "getcmd 100 (l @ CHR 0x0A # ?rest) = Some (l @ [CHR 0x0A], ?rest)"
    using g by (simp add: getcmd_def)
  then show ?case
    using Cons by (subst sh_main.simps) simp
qed

theorem sh_main_runs_lines_witness:
  "sh_main (''cd a'' @ [CHR 0x0A]) = [Chdir ''a'']"
  using sh_main_runs_lines [of "[''cd a'']"] by (simp add: line_action_def Let_def)

end
