(* ===== verification/Lexer.thy ===== *)
theory Lexer
  imports Prelude
begin

text \<open>
  The tokenizer of the shell (\<open>c-shell/src/lexer.c\<close>, \<open>tokenize\<close>).  The input
  is the C string as a list of characters.  A word is collected in a heap buffer
  that starts with 64 bytes and doubles; the model keeps its capacity and treats
  a store outside it as the error \<open>Overflow\<close>, so that the absence of overruns
  is a theorem.  Heap allocation number \<open>n\<close> succeeds if \<open>alloc n\<close>.

  \<open>lex_line\<close> is the same scanner without buffers and allocation; the refinement
  lemmas relate the two, and the round trip is proved through it.
\<close>

section \<open>Tokens\<close>

datatype TokenType =
    TOKEN_WORD | TOKEN_OP_PIPE | TOKEN_OP_AMP | TOKEN_OP_GT | TOKEN_OP_GTGT | TOKEN_OP_LT | TOKEN_OP_SEMI

record Token =
  ttype :: TokenType
  tvalue :: string

datatype lex_error = Syntax | Nomem | Overflow

definition isspace :: "char \<Rightarrow> bool" where
  "isspace c = (c \<in> {CHR 0x20, CHR 0x09, CHR 0x0A, CHR 0x0B, CHR 0x0C, CHR 0x0D})"

definition is_op :: "char \<Rightarrow> bool" where
  "is_op c = (c \<in> {CHR ''|'', CHR ''&'', CHR ''>'', CHR ''<'', CHR '';''})"

section \<open>The word buffer\<close>

record wbuf =
  wtext :: string
  wcap :: nat
  allocs :: nat

definition buf_put :: "(nat \<Rightarrow> bool) \<Rightarrow> char \<Rightarrow> wbuf \<Rightarrow> lex_error + wbuf" where
  "buf_put alloc c b =
     bindR (if length (wtext b) + 1 \<ge> wcap b
            then (if alloc (allocs b) then Inr (b\<lparr>wcap := 2 * wcap b, allocs := allocs b + 1\<rparr>) else Inl Nomem)
            else Inr b)
       (\<lambda>b. if length (wtext b) < wcap b then Inr (b\<lparr>wtext := wtext b @ [c]\<rparr>) else Inl Overflow)"

fun squote :: "(nat \<Rightarrow> bool) \<Rightarrow> string \<Rightarrow> wbuf \<Rightarrow> lex_error + string \<times> wbuf" where
  "squote alloc [] b = Inl Syntax"
| "squote alloc (c # p) b =
     (if c = CHR 0x27 then Inr (p, b) else bindR (buf_put alloc c b) (squote alloc p))"

fun dquote :: "(nat \<Rightarrow> bool) \<Rightarrow> string \<Rightarrow> wbuf \<Rightarrow> lex_error + string \<times> wbuf" where
  "dquote alloc [] b = Inl Syntax"
| "dquote alloc [c] b = (if c = CHR 0x22 then Inr ([], b) else
     if c = CHR 0x5C then Inl Syntax else bindR (buf_put alloc c b) (dquote alloc []))"
| "dquote alloc (c # d # p) b =
     (if c = CHR 0x22 then Inr (d # p, b)
      else if c = CHR 0x5C \<and> (d = CHR 0x22 \<or> d = CHR 0x5C)
        then bindR (buf_put alloc d b) (dquote alloc p)
      else bindR (buf_put alloc c b) (dquote alloc (d # p)))"

lemma squote_shorter: "squote alloc p b = Inr (q, b') \<Longrightarrow> length q < length p"
  by (induction alloc p b rule: squote.induct)
    (auto simp: bindR_Inr intro: less_SucI split: if_splits)

lemma dquote_shorter: "dquote alloc p b = Inr (q, b') \<Longrightarrow> length q < length p"
  by (induction alloc p b rule: dquote.induct) (fastforce simp: bindR_Inr split: if_splits)+

text \<open>
  One round of the loop that collects a word: \<open>None\<close> when the word ends here,
  else an error or the rest of the input and the buffer to go on with.
\<close>

definition word_step :: "(nat \<Rightarrow> bool) \<Rightarrow> string \<Rightarrow> wbuf \<Rightarrow> (lex_error + string \<times> wbuf) option" where
  "word_step alloc p b =
     (case p of
        [] \<Rightarrow> None
      | c # q \<Rightarrow>
          if isspace c \<or> is_op c then None
          else if c = CHR 0x5C then
            Some (case q of [] \<Rightarrow> Inl Syntax | d # q' \<Rightarrow> bindR (buf_put alloc d b) (\<lambda>b'. Inr (q', b')))
          else if c = CHR 0x27 then Some (squote alloc q b)
          else if c = CHR 0x22 then Some (dquote alloc q b)
          else Some (bindR (buf_put alloc c b) (\<lambda>b'. Inr (q, b'))))"

lemma word_step_shorter: "word_step alloc p b = Some (Inr (q, b')) \<Longrightarrow> length q < length p"
  by (auto simp: word_step_def bindR_Inr split: list.splits if_splits
      dest!: squote_shorter dquote_shorter)

function lex_word :: "(nat \<Rightarrow> bool) \<Rightarrow> string \<Rightarrow> wbuf \<Rightarrow> lex_error + string \<times> wbuf" where
  "lex_word alloc p b =
     (case word_step alloc p b of
        None \<Rightarrow> Inr (p, b)
      | Some (Inl e) \<Rightarrow> Inl e
      | Some (Inr (q, b')) \<Rightarrow> lex_word alloc q b')"
  by pat_completeness auto
termination
  by (relation "measure (\<lambda>(alloc, p, b). length p)") (auto dest: word_step_shorter)

declare lex_word.simps [simp del]

lemma lex_word_shorter: "lex_word alloc p b = Inr (q, b') \<Longrightarrow> length q \<le> length p"
proof (induction alloc p b rule: lex_word.induct)
  case (1 alloc p b)
  from 1(2) consider "q = p" | q1 b1 where "word_step alloc p b = Some (Inr (q1, b1))"
      "lex_word alloc q1 b1 = Inr (q, b')"
    by (subst (asm) lex_word.simps) (auto split: option.splits sum.splits)
  then show ?case
  proof cases
    case (2 q1 b1)
    from 1(1) [OF 2(1) refl refl 2(2)] word_step_shorter [OF 2(1)] show ?thesis by simp
  qed simp
qed

lemma lex_word_shorter':
  assumes "lex_word alloc p b = Inr (q, b')" "word_step alloc p b \<noteq> None"
  shows "length q < length p"
  using assms
  by (subst (asm) lex_word.simps)
    (auto split: option.splits sum.splits dest!: word_step_shorter lex_word_shorter)

section \<open>Tokenizing\<close>

text \<open>A token node takes two allocations, the node and the copy of its text.\<close>

definition create_token_node ::
  "(nat \<Rightarrow> bool) \<Rightarrow> TokenType \<Rightarrow> string \<Rightarrow> nat \<Rightarrow> lex_error + Token \<times> nat" where
  "create_token_node alloc ty v n =
     (if \<not> alloc n then Inl Nomem
      else if \<not> alloc (n + 1) then Inl Nomem
      else Inr (\<lparr>ttype = ty, tvalue = v\<rparr>, n + 2))"

definition lex_op :: "char \<Rightarrow> string \<Rightarrow> (TokenType \<times> string) \<times> string" where
  "lex_op c q =
     (if c = CHR ''>'' \<and> q \<noteq> [] \<and> hd q = CHR ''>'' then ((TOKEN_OP_GTGT, ''>>''), tl q)
      else if c = CHR ''>'' then ((TOKEN_OP_GT, ''>''), q)
      else if c = CHR ''<'' then ((TOKEN_OP_LT, ''<''), q)
      else if c = CHR ''|'' then ((TOKEN_OP_PIPE, ''|''), q)
      else if c = CHR ''&'' then ((TOKEN_OP_AMP, ''&''), q)
      else ((TOKEN_OP_SEMI, '';''), q))"

lemma lex_op_shorter: "length (snd (lex_op c q)) \<le> length q"
  by (simp add: lex_op_def)

text \<open>
  The main loop, with the number of allocations made so far.  Text ends at
  the terminator, which is the end of the list.
\<close>

function tokenize_from :: "(nat \<Rightarrow> bool) \<Rightarrow> nat \<Rightarrow> string \<Rightarrow> lex_error + Token list" where
  "tokenize_from alloc n p =
     (case dropWhile isspace p of
        [] \<Rightarrow> Inr []
      | c # q \<Rightarrow>
          if is_op c then
            (let op = lex_op c q in
             bindR (create_token_node alloc (fst (fst op)) (snd (fst op)) n) (\<lambda>tn.
               bindR (tokenize_from alloc (snd tn) (snd op)) (\<lambda>ts. Inr (fst tn # ts))))
          else if \<not> alloc n then Inl Nomem
          else (case lex_word alloc (c # q) \<lparr>wtext = [], wcap = 64, allocs = n + 1\<rparr> of
                  Inl e \<Rightarrow> Inl e
                | Inr (rest, b) \<Rightarrow>
                    if \<not> length (wtext b) < wcap b then Inl Overflow
                    else bindR (create_token_node alloc TOKEN_WORD (wtext b) (allocs b)) (\<lambda>tn.
                      bindR (tokenize_from alloc (snd tn) rest) (\<lambda>ts. Inr (fst tn # ts)))))"
  by pat_completeness auto
termination
proof (relation "measure (\<lambda>(alloc, n, p). length p)", goal_cases)
  case (2 alloc n p c q x tn)
  have "length (dropWhile isspace p) \<le> length p" by (rule length_dropWhile_le)
  with 2 lex_op_shorter [of c q] show ?case by simp
next
  case (3 alloc n p c q x rest b tn)
  have "length (dropWhile isspace p) \<le> length p" by (rule length_dropWhile_le)
  moreover have "word_step alloc (c # q) bb \<noteq> None" for bb
    using 3 hd_dropWhile [of isspace p] by (auto simp: word_step_def)
  ultimately show ?case using 3 lex_word_shorter' [of alloc "c # q"] by fastforce
qed simp

declare tokenize_from.simps [simp del]

definition tokenize :: "(nat \<Rightarrow> bool) \<Rightarrow> string \<Rightarrow> lex_error + Token list" where
  "tokenize alloc input = tokenize_from alloc 0 input"

section \<open>The scanner without buffers\<close>

fun ref_squote :: "string \<Rightarrow> (string \<times> string) option" where
  "ref_squote [] = None"
| "ref_squote (c # p) =
     (if c = CHR 0x27 then Some ([], p) else map_option (\<lambda>(t, q). (c # t, q)) (ref_squote p))"

fun ref_dquote :: "string \<Rightarrow> (string \<times> string) option" where
  "ref_dquote [] = None"
| "ref_dquote [c] = (if c = CHR 0x22 then Some ([], []) else None)"
| "ref_dquote (c # d # p) =
     (if c = CHR 0x22 then Some ([], d # p)
      else if c = CHR 0x5C \<and> (d = CHR 0x22 \<or> d = CHR 0x5C)
        then map_option (\<lambda>(t, q). (d # t, q)) (ref_dquote p)
      else map_option (\<lambda>(t, q). (c # t, q)) (ref_dquote (d # p)))"

definition ref_step :: "string \<Rightarrow> (string \<times> string) option option" where
  "ref_step p =
     (case p of
        [] \<Rightarrow> None
      | c # q \<Rightarrow>
          if isspace c \<or> is_op c then None
          else if c = CHR 0x5C then Some (case q of [] \<Rightarrow> None | d # q' \<Rightarrow> Some ([d], q'))
          else if c = CHR 0x27 then Some (ref_squote q)
          else if c = CHR 0x22 then Some (ref_dquote q)
          else Some (Some ([c], q)))"

lemma ref_squote_shorter: "ref_squote p = Some (t, q) \<Longrightarrow> length q < length p"
  by (induction p arbitrary: t rule: ref_squote.induct) (auto intro: less_SucI split: if_splits)

lemma ref_dquote_shorter: "ref_dquote p = Some (t, q) \<Longrightarrow> length q < length p"
  by (induction p arbitrary: t rule: ref_dquote.induct) (auto intro: less_SucI split: if_splits)

lemma ref_step_shorter: "ref_step p = Some (Some (t, q)) \<Longrightarrow> length q < length p"
  by (auto simp: ref_step_def split: list.splits if_splits dest!: ref_squote_shorter ref_dquote_shorter)

function ref_word :: "string \<Rightarrow> (string \<times> string) option" where
  "ref_word p =
     (case ref_step p of
        None \<Rightarrow> Some ([], p)
      | Some None \<Rightarrow> None
      | Some (Some (t, q)) \<Rightarrow> map_option (\<lambda>(t', r). (t @ t', r)) (ref_word q))"
  by pat_completeness auto
termination by (relation "measure length") (auto dest: ref_step_shorter)

declare ref_word.simps [simp del]

text \<open>What a buffered scanner may return where the reference returns \<open>ref\<close>.\<close>

definition wbuf_ok :: "wbuf \<Rightarrow> bool" where
  "wbuf_ok b \<longleftrightarrow> length (wtext b) < wcap b"

definition agrees ::
  "(nat \<Rightarrow> bool) \<Rightarrow> wbuf \<Rightarrow> lex_error + string \<times> wbuf \<Rightarrow> (string \<times> string) option \<Rightarrow> bool" where
  "agrees alloc b r ref \<longleftrightarrow>
     (case r of
        Inl Nomem \<Rightarrow> \<exists>n. \<not> alloc n
      | Inl Overflow \<Rightarrow> False
      | Inl Syntax \<Rightarrow> ref = None
      | Inr (q, b') \<Rightarrow> wbuf_ok b' \<and> (\<exists>t. ref = Some (t, q) \<and> wtext b' = wtext b @ t))"

lemma buf_put_cases:
  assumes "wbuf_ok b"
  obtains "buf_put alloc c b = Inl Nomem" "\<exists>n. \<not> alloc n"
  | b' where "buf_put alloc c b = Inr b'" "wbuf_ok b'" "wtext b' = wtext b @ [c]"
proof (cases "length (wtext b) + 1 \<ge> wcap b")
  case True
  then show ?thesis
    using that assms by (cases "alloc (allocs b)") (auto simp: buf_put_def wbuf_ok_def)
next
  case False
  then show ?thesis using that(2) assms by (simp add: buf_put_def wbuf_ok_def)
qed

lemma agrees_put:
  assumes "wbuf_ok b" "\<And>b'. wbuf_ok b' \<Longrightarrow> agrees alloc b' (f b') ref"
  shows "agrees alloc b (bindR (buf_put alloc c b) f) (map_option (\<lambda>(t, q). (c # t, q)) ref)"
  using assms(1)
proof (cases rule: buf_put_cases [where alloc = alloc and c = c])
  case 1
  then show ?thesis by (simp add: agrees_def)
next
  case (2 b')
  with assms(2) [of b'] show ?thesis
    by (fastforce simp: agrees_def split: sum.splits lex_error.splits)
qed

lemma squote_agrees: "wbuf_ok b \<Longrightarrow> agrees alloc b (squote alloc p b) (ref_squote p)"
  by (induction p arbitrary: b) (auto simp: agrees_def [of _ _ "Inl Syntax"] agrees_def [of _ _ "Inr _"] intro: agrees_put)

lemma dquote_agrees: "wbuf_ok b \<Longrightarrow> agrees alloc b (dquote alloc p b) (ref_dquote p)"
proof (induction p arbitrary: b rule: ref_dquote.induct)
  case (2 c)
  then show ?case
    using agrees_put [OF 2, of alloc "dquote alloc []" None c]
    by (auto simp: agrees_def [of _ _ "Inl Syntax"] agrees_def [of _ _ "Inr _"])
next
  case (3 c d p)
  then show ?case
    by (auto simp: agrees_def [of _ _ "Inr _"] intro: agrees_put)
qed (simp add: agrees_def)

lemma step_agrees:
  assumes "wbuf_ok b"
  shows "case word_step alloc p b of
      None \<Rightarrow> ref_step p = None
    | Some r \<Rightarrow> (\<exists>ref. ref_step p = Some ref \<and> agrees alloc b r ref)"
proof -
  have one: "agrees alloc b (bindR (buf_put alloc c b) (\<lambda>b'. Inr (q, b'))) (Some ([c], q))" for c q
    using agrees_put [OF assms, of alloc "\<lambda>b'. Inr (q, b')" "Some ([], q)" c]
    by (simp add: agrees_def [of _ _ "Inr _"])
  show ?thesis
    using assms one
    by (auto simp: word_step_def ref_step_def squote_agrees dquote_agrees agrees_def [of _ _ "Inl Syntax"]
        split: list.splits)
qed

lemma word_agrees: "wbuf_ok b \<Longrightarrow> agrees alloc b (lex_word alloc p b) (ref_word p)"
proof (induction alloc p b rule: lex_word.induct)
  case (1 alloc p b)
  note st = step_agrees [OF 1(2), where alloc = alloc and p = p]
  show ?case
  proof (cases "word_step alloc p b")
    case None
    with st show ?thesis
      using 1(2) by (simp add: lex_word.simps ref_word.simps agrees_def)
  next
    case (Some r)
    with st obtain ref where ref: "ref_step p = Some ref" "agrees alloc b r ref" by auto
    show ?thesis
    proof (cases r)
      case (Inl e)
      with Some ref show ?thesis
        by (cases e) (simp_all add: lex_word.simps [of alloc p b] ref_word.simps [of p] agrees_def)
    next
      case (Inr qb)
      then obtain q b' where r: "r = Inr (q, b')" by (cases qb) auto
      with ref(2) obtain t where t: "ref = Some (t, q)" "wbuf_ok b'" "wtext b' = wtext b @ t"
        by (auto simp: agrees_def)
      have "agrees alloc b' (lex_word alloc q b') (ref_word q)"
        using 1(1) [OF Some r refl t(2)] .
      then show ?thesis
        using Some r ref(1) t
        by (fastforce simp: lex_word.simps [of alloc p b] ref_word.simps [of p] agrees_def
            split: sum.splits lex_error.splits)
    qed
  qed
qed

lemma ref_word_shorter: "ref_word p = Some (t, q) \<Longrightarrow> length q \<le> length p"
proof (induction p arbitrary: t rule: ref_word.induct)
  case (1 p)
  from 1(2) consider "q = p" | t1 q1 t2 where "ref_step p = Some (Some (t1, q1))" "ref_word q1 = Some (t2, q)"
    by (subst (asm) ref_word.simps) (auto split: option.splits)
  then show ?case
  proof cases
    case (2 t1 q1 t2)
    from 1(1) [OF 2(1) refl refl 2(2)] ref_step_shorter [OF 2(1)] show ?thesis by simp
  qed simp
qed

lemma ref_word_progress:
  assumes "ref_word p = Some (t, q)" "ref_step p \<noteq> None"
  shows "length q < length p"
  using assms
  by (subst (asm) ref_word.simps)
    (auto split: option.splits dest!: ref_step_shorter ref_word_shorter)

function lex_line :: "string \<Rightarrow> Token list option" where
  "lex_line p =
     (case dropWhile isspace p of
        [] \<Rightarrow> Some []
      | c # q \<Rightarrow>
          if is_op c then
            (let op = lex_op c q in
             map_option (\<lambda>ts. \<lparr>ttype = fst (fst op), tvalue = snd (fst op)\<rparr> # ts) (lex_line (snd op)))
          else (case ref_word (c # q) of
                  None \<Rightarrow> None
                | Some (t, rest) \<Rightarrow> map_option (\<lambda>ts. \<lparr>ttype = TOKEN_WORD, tvalue = t\<rparr> # ts) (lex_line rest)))"
  by pat_completeness auto
termination
proof (relation "measure length", goal_cases)
  case (2 p c q op)
  have "length (dropWhile isspace p) \<le> length p" by (rule length_dropWhile_le)
  with 2 lex_op_shorter [of c q] show ?case by simp
next
  case (3 p c q w t rest)
  have "length (dropWhile isspace p) \<le> length p" by (rule length_dropWhile_le)
  moreover have "ref_step (c # q) \<noteq> None"
    using 3 hd_dropWhile [of isspace p] by (auto simp: ref_step_def)
  ultimately show ?case using 3 ref_word_progress [of "c # q" t rest] by simp
qed simp

declare lex_line.simps [simp del]

lemma create_token_node_cases:
  obtains "create_token_node alloc ty v n = Inl Nomem" "\<exists>m. \<not> alloc m"
  | "create_token_node alloc ty v n = Inr (\<lparr>ttype = ty, tvalue = v\<rparr>, n + 2)"
  using that by (cases "alloc n"; cases "alloc (n + 1)") (auto simp: create_token_node_def)

definition tokens_agree :: "(nat \<Rightarrow> bool) \<Rightarrow> lex_error + Token list \<Rightarrow> Token list option \<Rightarrow> bool" where
  "tokens_agree alloc r ref =
     (case r of
        Inl Nomem \<Rightarrow> \<exists>n. \<not> alloc n
      | Inl Overflow \<Rightarrow> False
      | Inl Syntax \<Rightarrow> ref = None
      | Inr ts \<Rightarrow> ref = Some ts)"

lemma tokens_agree_cons:
  assumes "\<And>n'. tokens_agree alloc (tokenize_from alloc n' rest) ref"
  shows "tokens_agree alloc
      (bindR (create_token_node alloc ty v n) (\<lambda>tn.
         bindR (tokenize_from alloc (snd tn) rest) (\<lambda>ts. Inr (fst tn # ts))))
      (map_option (\<lambda>ts. \<lparr>ttype = ty, tvalue = v\<rparr> # ts) ref)"
proof (cases rule: create_token_node_cases [of alloc ty v n])
  case 1
  then show ?thesis by (simp add: tokens_agree_def)
next
  case 2
  with assms [of "n + 2"] show ?thesis
    by (auto simp: tokens_agree_def bindR_def split: sum.splits lex_error.splits)
qed

lemma tokenize_from_agrees: "tokens_agree alloc (tokenize_from alloc n p) (lex_line p)"
proof (induction p arbitrary: n rule: lex_line.induct)
  case (1 p)
  show ?case
  proof (cases "dropWhile isspace p")
    case Nil
    then show ?thesis
      by (simp add: tokenize_from.simps lex_line.simps tokens_agree_def del: dropWhile_eq_Nil_conv)
  next
    case (Cons c q)
    show ?thesis
    proof (cases "is_op c")
      case True
      have "tokens_agree alloc (tokenize_from alloc n (snd (lex_op c q))) (lex_line (snd (lex_op c q)))" for n
        by (rule 1(1) [OF Cons True refl])
      from tokens_agree_cons [OF this] show ?thesis
        using Cons True by (simp add: tokenize_from.simps [of alloc n p] lex_line.simps [of p] Let_def)
    next
      case False
      let ?b = "\<lparr>wtext = [], wcap = 64, allocs = n + 1\<rparr>"
      have ag: "agrees alloc ?b (lex_word alloc (c # q) ?b) (ref_word (c # q))"
        by (rule word_agrees) (simp add: wbuf_ok_def)
      show ?thesis
      proof (cases "alloc n")
        case a: True
        show ?thesis
        proof (cases "lex_word alloc (c # q) ?b")
          case (Inl e)
          with ag a False Cons show ?thesis
            by (cases e) (simp_all add: tokenize_from.simps [of alloc n p] lex_line.simps [of p] agrees_def tokens_agree_def)
        next
          case (Inr rb)
          then obtain rest b where r: "lex_word alloc (c # q) ?b = Inr (rest, b)" by (cases rb) auto
          with ag have w: "wbuf_ok b" "ref_word (c # q) = Some (wtext b, rest)" by (auto simp: agrees_def)
          have "tokens_agree alloc (tokenize_from alloc n rest) (lex_line rest)" for n
            by (rule 1(2) [OF Cons False w(2) refl])
          from tokens_agree_cons [OF this] show ?thesis
            using Cons False a r w
            by (simp add: tokenize_from.simps [of alloc n p] lex_line.simps [of p] wbuf_ok_def)
        qed
      next
        case a: False
        with False Cons show ?thesis
          by (auto simp: tokenize_from.simps [of alloc n p] tokens_agree_def)
      qed
    qed
  qed
qed

text \<open>
  C23: \<open>tokenize\<close> never writes outside its growing word buffer, fails for want of
  memory only if an allocation failed, and otherwise computes exactly what the
  scanner without buffers computes: its tokens, or a syntax error for a trailing
  backslash or an unclosed quote.
\<close>

theorem tokenize_memory_safe_and_exact:
  "case tokenize alloc s of
     Inl Overflow \<Rightarrow> False
   | Inl Nomem \<Rightarrow> \<exists>n. \<not> alloc n
   | Inl Syntax \<Rightarrow> lex_line s = None
   | Inr ts \<Rightarrow> lex_line s = Some ts"
  using tokenize_from_agrees [of alloc 0 s] by (simp add: tokenize_def tokens_agree_def)

section \<open>Round trip\<close>

text \<open>
  A printer that quotes every word: the inverse that the tokenizer must undo.
\<close>

definition quote_char :: "char \<Rightarrow> string" where
  "quote_char c = (if c = CHR 0x27 then [CHR 0x27, CHR 0x5C, CHR 0x27, CHR 0x27] else [c])"

definition quote_word :: "string \<Rightarrow> string" where
  "quote_word w = CHR 0x27 # concat (map quote_char w) @ [CHR 0x27]"

definition op_string :: "TokenType \<Rightarrow> string" where
  "op_string ty = (case ty of TOKEN_WORD \<Rightarrow> [] | TOKEN_OP_PIPE \<Rightarrow> ''|'' | TOKEN_OP_AMP \<Rightarrow> ''&''
     | TOKEN_OP_GT \<Rightarrow> ''>'' | TOKEN_OP_GTGT \<Rightarrow> ''>>'' | TOKEN_OP_LT \<Rightarrow> ''<'' | TOKEN_OP_SEMI \<Rightarrow> '';'')"

definition print_token :: "Token \<Rightarrow> string" where
  "print_token t = (if ttype t = TOKEN_WORD then quote_word (tvalue t) else op_string (ttype t)) @ [CHR 0x20]"

definition print_line :: "Token list \<Rightarrow> string" where
  "print_line ts = concat (map print_token ts)"

definition token_ok :: "Token \<Rightarrow> bool" where
  "token_ok t \<longleftrightarrow> ttype t = TOKEN_WORD \<or> tvalue t = op_string (ttype t)"

lemma ref_squote_plain: "CHR 0x27 \<notin> set u \<Longrightarrow> ref_squote (u @ CHR 0x27 # x) = Some (u, x)"
  by (induction u) auto

lemma ref_word_open_quote:
  "ref_squote q = Some (t, r) \<Longrightarrow> ref_word (CHR 0x27 # q) = map_option (\<lambda>(t', r'). (t @ t', r')) (ref_word r)"
  by (subst ref_word.simps) (simp add: ref_step_def isspace_def is_op_def)

lemma ref_word_escape:
  "ref_word (CHR 0x5C # c # q) = map_option (\<lambda>(t', r'). (c # t', r')) (ref_word q)"
  by (subst ref_word.simps) (simp add: ref_step_def isspace_def is_op_def)

lemma ref_word_stop: "ref_word (CHR 0x20 # r) = Some ([], CHR 0x20 # r)"
  by (subst ref_word.simps) (simp add: ref_step_def isspace_def)

lemma quote_plain: "CHR 0x27 \<notin> set u \<Longrightarrow> concat (map quote_char u) = u"
  by (induction u) (auto simp: quote_char_def)

lemma ref_word_quoted: "ref_word (quote_word w @ CHR 0x20 # r) = Some (w, CHR 0x20 # r)"
proof (induction w rule: length_induct)
  case (1 w)
  show ?case
  proof (cases "CHR 0x27 \<in> set w")
    case False
    then show ?thesis
      by (simp add: quote_word_def quote_plain ref_word_open_quote [OF ref_squote_plain] ref_word_stop)
  next
    case True
    then obtain u v where w: "w = u @ CHR 0x27 # v" "CHR 0x27 \<notin> set u"
      by (meson split_list_first)
    have "ref_word (CHR 0x5C # CHR 0x27 # quote_word v @ CHR 0x20 # r) = Some (CHR 0x27 # v, CHR 0x20 # r)"
      using 1 w by (simp add: ref_word_escape)
    then show ?thesis
      using ref_word_open_quote [OF ref_squote_plain [OF w(2)]]
      by (simp add: w quote_word_def quote_plain [OF w(2)] quote_char_def)
  qed
qed

lemma lex_print_token:
  assumes "token_ok t"
  shows "lex_line (print_token t @ r) = map_option (\<lambda>ts. t # ts) (lex_line r)"
proof -
  have skip: "lex_line (CHR 0x20 # r) = lex_line r"
    by (simp add: lex_line.simps [of "CHR 0x20 # r"] lex_line.simps [of r] isspace_def)
  show ?thesis
  proof (cases "ttype t = TOKEN_WORD")
    case True
    then obtain v where t: "t = \<lparr>ttype = TOKEN_WORD, tvalue = v\<rparr>" by (cases t) auto
    have "dropWhile isspace (quote_word v @ CHR 0x20 # r) = quote_word v @ CHR 0x20 # r"
      by (simp add: quote_word_def isspace_def)
    then show ?thesis
      using ref_word_quoted [of v r] skip
      by (subst lex_line.simps) (simp add: t print_token_def quote_word_def is_op_def)
  next
    case False
    have "op_string (ttype t) = tvalue t" using assms False by (simp add: token_ok_def)
    then have t: "\<lparr>ttype = ttype t, tvalue = op_string (ttype t)\<rparr> = t" by simp
    have "lex_line (op_string (ttype t) @ CHR 0x20 # r) =
        map_option (\<lambda>ts. \<lparr>ttype = ttype t, tvalue = op_string (ttype t)\<rparr> # ts) (lex_line (CHR 0x20 # r))"
      using False
      by (cases "ttype t"; subst lex_line.simps)
        (simp_all add: op_string_def isspace_def is_op_def lex_op_def Let_def)
    then show ?thesis using False t skip by (simp add: print_token_def)
  qed
qed

text \<open>
  C24: printing a token list with every word quoted and tokenizing the line gives
  the list back, for words with any characters at all, quotes, backslashes,
  blanks and operator characters included, and for every operator.
\<close>

theorem tokenize_print_round_trip:
  assumes "list_all token_ok ts"
  shows "tokenize (\<lambda>_. True) (print_line ts) = Inr ts"
proof -
  have "lex_line (print_line ts) = Some ts"
    using assms
  proof (induction ts)
    case Nil
    then show ?case by (simp add: print_line_def lex_line.simps)
  next
    case (Cons t ts)
    then show ?case
      using lex_print_token [of t "print_line ts"] by (simp add: print_line_def)
  qed
  then show ?thesis
    using tokenize_from_agrees [of "\<lambda>_. True" 0 "print_line ts"]
    by (auto simp: tokenize_def tokens_agree_def split: sum.splits lex_error.splits)
qed

theorem tokenize_print_round_trip_witness:
  "list_all token_ok [\<lparr>ttype = TOKEN_WORD, tvalue = ''a b''\<rparr>, \<lparr>ttype = TOKEN_OP_GTGT, tvalue = ''>>''\<rparr>]
   \<and> tokenize (\<lambda>_. True) (print_line [\<lparr>ttype = TOKEN_WORD, tvalue = ''a b''\<rparr>, \<lparr>ttype = TOKEN_OP_GTGT, tvalue = ''>>''\<rparr>])
     = Inr [\<lparr>ttype = TOKEN_WORD, tvalue = ''a b''\<rparr>, \<lparr>ttype = TOKEN_OP_GTGT, tvalue = ''>>''\<rparr>]"
  using tokenize_print_round_trip
    [of "[\<lparr>ttype = TOKEN_WORD, tvalue = ''a b''\<rparr>, \<lparr>ttype = TOKEN_OP_GTGT, tvalue = ''>>''\<rparr>]"]
  by (simp add: token_ok_def op_string_def)

end
