(* ===== verification/Grammar.thy ===== *)
theory Grammar
  imports Lexer
begin

text \<open>
  The grammar check of the shell (\<open>c-shell/src/lexer.c\<close>,
  \<open>validate_grammar\<close>) and the text of a command group
  (\<open>token_group_to_string\<close>).  The parse functions take the cursor and return the
  code's return value with the cursor they leave behind.  The grammar that the
  header documents is the inductive predicate \<open>derives\<close>; the properties
  relate the two and give the shape of the accepted lines.
\<close>

section \<open>Recursive descent\<close>

fun parse_arg :: "Token list \<Rightarrow> int \<times> Token list"
  and parse_cmd :: "Token list \<Rightarrow> int \<times> Token list"
  and parse_tgt :: "Token list \<Rightarrow> int \<times> Token list"
  and parse_bg :: "Token list \<Rightarrow> int \<times> Token list" where
  "parse_arg [] = (0, [])"
| "parse_arg (t # ts) =
     (case ttype t of
        TOKEN_WORD \<Rightarrow> parse_arg ts
      | TOKEN_OP_LT \<Rightarrow> parse_tgt ts
      | TOKEN_OP_GT \<Rightarrow> parse_tgt ts
      | TOKEN_OP_GTGT \<Rightarrow> parse_tgt ts
      | TOKEN_OP_PIPE \<Rightarrow> parse_cmd ts
      | TOKEN_OP_SEMI \<Rightarrow> parse_cmd ts
      | TOKEN_OP_AMP \<Rightarrow> parse_bg ts)"
| "parse_cmd [] = (-1, [])"
| "parse_cmd (t # ts) = (if ttype t \<noteq> TOKEN_WORD then (-1, t # ts) else parse_arg ts)"
| "parse_tgt [] = (-1, [])"
| "parse_tgt (t # ts) = (if ttype t \<noteq> TOKEN_WORD then (-1, t # ts) else parse_arg ts)"
| "parse_bg [] = (0, [])"
| "parse_bg (t # ts) = (if ttype t = TOKEN_WORD then parse_arg ts else (-1, t # ts))"

definition validate_grammar :: "Token list \<Rightarrow> int" where
  "validate_grammar ts =
     (case ts of [] \<Rightarrow> 0 | t # r \<Rightarrow> if ttype t \<noteq> TOKEN_WORD then -1 else fst (parse_arg r))"

section \<open>The documented grammar\<close>

datatype nonterm = LINE | ARG | CMD | TGT | BG

inductive derives :: "nonterm \<Rightarrow> TokenType list \<Rightarrow> bool" where
  line_eps: "derives LINE []"
| line_word: "derives ARG w \<Longrightarrow> derives LINE (TOKEN_WORD # w)"
| arg_eps: "derives ARG []"
| arg_word: "derives ARG w \<Longrightarrow> derives ARG (TOKEN_WORD # w)"
| arg_lt: "derives TGT w \<Longrightarrow> derives ARG (TOKEN_OP_LT # w)"
| arg_gt: "derives TGT w \<Longrightarrow> derives ARG (TOKEN_OP_GT # w)"
| arg_gtgt: "derives TGT w \<Longrightarrow> derives ARG (TOKEN_OP_GTGT # w)"
| arg_pipe: "derives CMD w \<Longrightarrow> derives ARG (TOKEN_OP_PIPE # w)"
| arg_semi: "derives CMD w \<Longrightarrow> derives ARG (TOKEN_OP_SEMI # w)"
| arg_amp: "derives BG w \<Longrightarrow> derives ARG (TOKEN_OP_AMP # w)"
| cmd_word: "derives ARG w \<Longrightarrow> derives CMD (TOKEN_WORD # w)"
| tgt_word: "derives ARG w \<Longrightarrow> derives TGT (TOKEN_WORD # w)"
| bg_eps: "derives BG []"
| bg_word: "derives ARG w \<Longrightarrow> derives BG (TOKEN_WORD # w)"

inductive_simps derives_simps [simp]:
  "derives LINE []" "derives LINE (x # w)" "derives ARG []" "derives ARG (x # w)"
  "derives CMD []" "derives CMD (x # w)" "derives TGT []" "derives TGT (x # w)"
  "derives BG []" "derives BG (x # w)"

lemma parse_derives:
  "parse_arg ts = (if derives ARG (map ttype ts) then (0, []) else (-1, snd (parse_arg ts)))"
  "parse_cmd ts = (if derives CMD (map ttype ts) then (0, []) else (-1, snd (parse_cmd ts)))"
  "parse_tgt ts = (if derives TGT (map ttype ts) then (0, []) else (-1, snd (parse_tgt ts)))"
  "parse_bg ts = (if derives BG (map ttype ts) then (0, []) else (-1, snd (parse_bg ts)))"
proof (induction ts and ts and ts and ts rule: parse_arg_parse_cmd_parse_tgt_parse_bg.induct)
  case (2 t ts)
  then show ?case by (cases "ttype t") auto
qed auto

lemma parse_arg_result: "fst (parse_arg ts) = (if derives ARG (map ttype ts) then 0 else -1)"
  by (subst parse_derives(1)) simp

lemma validate_derives: "validate_grammar ts = (if derives LINE (map ttype ts) then 0 else -1)"
  by (cases ts) (auto simp: validate_grammar_def parse_arg_result)

text \<open>
  C25: \<open>validate_grammar\<close> accepts exactly the token sequences that the
  documented grammar derives from LINE, and its result is \<open>0\<close> or \<open>-1\<close>.
\<close>

theorem validate_grammar_correct:
  "validate_grammar ts = (if derives LINE (map ttype ts) then 0 else -1)"
  by (rule validate_derives)

section \<open>The shape of accepted lines\<close>

fun ops_followed :: "TokenType list \<Rightarrow> bool" where
  "ops_followed [] = True"
| "ops_followed [x] = (x = TOKEN_WORD \<or> x = TOKEN_OP_AMP)"
| "ops_followed (x # y # w) = ((x = TOKEN_WORD \<or> y = TOKEN_WORD) \<and> ops_followed (y # w))"

lemma derives_shape:
  "derives ARG w \<longleftrightarrow> ops_followed w"
  "derives CMD w \<longleftrightarrow> w \<noteq> [] \<and> hd w = TOKEN_WORD \<and> ops_followed w"
  "derives TGT w \<longleftrightarrow> w \<noteq> [] \<and> hd w = TOKEN_WORD \<and> ops_followed w"
  "derives BG w \<longleftrightarrow> w = [] \<or> hd w = TOKEN_WORD \<and> ops_followed w"
proof (induction w)
  case (Cons x w)
  { case 1 show ?case
      using Cons by (cases x; cases w) auto
  next
    case 2 show ?case using Cons by (cases w) auto
  next
    case 3 show ?case using Cons by (cases w) auto
  next
    case 4 show ?case using Cons by (cases w) auto
  }
qed auto

text \<open>
  an accepted line is empty or starts with a word, and every operator in it
  is directly followed by a word, except that the line may end in an ampersand.
\<close>

theorem accepted_line_shape:
  "validate_grammar ts = 0 \<longleftrightarrow>
     ts = [] \<or> ttype (hd ts) = TOKEN_WORD
       \<and> (\<forall>i < length ts. ttype (ts ! i) \<noteq> TOKEN_WORD \<longrightarrow>
            (Suc i < length ts \<and> ttype (ts ! Suc i) = TOKEN_WORD)
            \<or> (Suc i = length ts \<and> ttype (ts ! i) = TOKEN_OP_AMP))"
proof -
  have shape: "ops_followed (map ttype ts) \<longleftrightarrow>
      (\<forall>i < length ts. ttype (ts ! i) \<noteq> TOKEN_WORD \<longrightarrow>
            (Suc i < length ts \<and> ttype (ts ! Suc i) = TOKEN_WORD)
            \<or> (Suc i = length ts \<and> ttype (ts ! i) = TOKEN_OP_AMP))" for ts :: "Token list"
  proof (induction "map ttype ts" arbitrary: ts rule: ops_followed.induct)
    case (2 x)
    then obtain t where "ts = [t]" "ttype t = x" by (cases ts) auto
    then show ?case by auto
  next
    case (3 x y w)
    then obtain t u r where ts: "ts = t # u # r" "ttype t = x" "ttype u = y" "map ttype r = w"
      by (cases ts; cases "tl ts") auto
    with 3(1) [of "u # r"] show ?case
      by (auto simp: All_less_Suc2 nth_Cons split: nat.splits)
  qed simp
  have "validate_grammar ts = 0 \<longleftrightarrow> derives LINE (map ttype ts)"
    by (simp add: validate_derives)
  also have "\<dots> \<longleftrightarrow> ts = [] \<or> ttype (hd ts) = TOKEN_WORD \<and> ops_followed (map ttype ts)"
  proof (cases ts)
    case (Cons t r)
    have "ttype t = TOKEN_WORD \<Longrightarrow> ops_followed (TOKEN_WORD # map ttype r) \<longleftrightarrow> ops_followed (map ttype r)"
      by (cases r) auto
    with Cons show ?thesis by (auto simp: derives_shape(1))
  qed simp
  finally show ?thesis unfolding shape .
qed

theorem accepted_line_shape_witness:
  "validate_grammar [\<lparr>ttype = TOKEN_WORD, tvalue = ''ls''\<rparr>, \<lparr>ttype = TOKEN_OP_AMP, tvalue = ''&''\<rparr>] = 0"
  by (simp add: accepted_line_shape nth_Cons All_less_Suc2)

section \<open>The text of a command group\<close>

definition op_text :: "TokenType \<Rightarrow> string option" where
  "op_text ty = (case ty of TOKEN_OP_PIPE \<Rightarrow> Some ''|'' | TOKEN_OP_GT \<Rightarrow> Some ''>''
     | TOKEN_OP_GTGT \<Rightarrow> Some ''>>'' | TOKEN_OP_LT \<Rightarrow> Some ''<'' | _ \<Rightarrow> None)"

definition piece :: "Token \<Rightarrow> string option" where
  "piece t = (if ttype t = TOKEN_WORD then Some (tvalue t) else op_text (ttype t))"

fun group_text :: "nat \<Rightarrow> string \<Rightarrow> Token list \<Rightarrow> string" where
  "group_text sz out [] = out"
| "group_text sz out (t # ts) =
     (if ttype t = TOKEN_OP_SEMI \<or> ttype t = TOKEN_OP_AMP then out
      else case piece t of
             None \<Rightarrow> group_text sz out ts
           | Some p \<Rightarrow>
               if length out + length p + (if out \<noteq> [] then 1 else 0) + 1 > sz then out
               else group_text sz ((if out \<noteq> [] then out @ '' '' else out) @ p) ts)"

definition token_group_to_string :: "Token list \<Rightarrow> nat \<Rightarrow> string option" where
  "token_group_to_string start sz = (if sz = 0 then None else Some (group_text sz [] start))"

definition ends_group :: "Token \<Rightarrow> bool" where
  "ends_group t = (ttype t = TOKEN_OP_SEMI \<or> ttype t = TOKEN_OP_AMP)"

definition pieces :: "Token list \<Rightarrow> string list" where
  "pieces ts = map (\<lambda>t. the (piece t)) (takeWhile (\<lambda>t. \<not> ends_group t) ts)"

definition join :: "string \<Rightarrow> string list \<Rightarrow> string" where
  "join out ps = fold (\<lambda>p s. (if s \<noteq> [] then s @ '' '' else s) @ p) ps out"

lemma piece_Some: "\<not> ends_group t \<Longrightarrow> \<exists>p. piece t = Some p"
  by (cases "ttype t") (auto simp: piece_def op_text_def ends_group_def)

lemma join_length: "length out \<le> length (join out ps)"
proof (induction ps arbitrary: out)
  case (Cons p ps)
  show ?case using Cons [of "(if out \<noteq> [] then out @ '' '' else out) @ p"] by (auto simp: join_def)
qed (simp add: join_def)

text \<open>
  \<open>token_group_to_string\<close> stays within its buffer, with room for the
  terminator; the text is made of the leading words and operators of the group,
  joined by blanks, and it is the whole group whenever that fits.
\<close>

theorem group_text_bounded_prefix:
  assumes "0 < sz" "token_group_to_string ts sz = Some s"
  shows "length s < sz \<and> (\<exists>n. s = join [] (take n (pieces ts)))
    \<and> (length (join [] (pieces ts)) < sz \<longrightarrow> s = join [] (pieces ts))"
proof -
  have "length (group_text sz out ts) < sz \<and> (\<exists>n. group_text sz out ts = join out (take n (pieces ts)))
      \<and> (length (join out (pieces ts)) < sz \<longrightarrow> group_text sz out ts = join out (pieces ts))"
    if "length out < sz" for out
    using that
  proof (induction sz out ts rule: group_text.induct)
    case (1 sz out)
    then show ?case by (simp add: pieces_def join_def)
  next
    case (2 sz out t ts)
    show ?case
    proof (cases "ends_group t")
      case True
      with 2(3) show ?thesis by (auto simp: ends_group_def pieces_def join_def)
    next
      case False
      then obtain p where p: "piece t = Some p" using piece_Some by blast
      let ?out = "(if out \<noteq> [] then out @ '' '' else out) @ p"
      have ps: "pieces (t # ts) = p # pieces ts" using False p by (simp add: pieces_def)
      have j: "join out (p # qs) = join ?out qs" for qs by (simp add: join_def)
      have ng: "\<not> (ttype t = TOKEN_OP_SEMI \<or> ttype t = TOKEN_OP_AMP)" using False by (simp add: ends_group_def)
      show ?thesis
      proof (cases "length out + length p + (if out \<noteq> [] then 1 else 0) + 1 > sz")
        case True
        moreover have "length ?out \<le> length (join out (pieces (t # ts)))"
          using join_length [of ?out "pieces ts"] by (simp add: ps j)
        moreover have "\<exists>n. out = join out (take n (pieces (t # ts)))"
          by (rule exI [of _ 0]) (simp add: join_def)
        ultimately show ?thesis using 2(3) ng p by (auto split: if_splits)
      next
        case fits: False
        then have "length ?out < sz" by auto
        note IH = 2(2) [OF ng p fits this]
        then obtain n where "group_text sz ?out ts = join ?out (take n (pieces ts))" by blast
        then have "group_text sz ?out ts = join out (take (Suc n) (pieces (t # ts)))"
          by (simp add: ps j)
        moreover have "group_text sz out (t # ts) = group_text sz ?out ts"
          using ng p fits by simp
        moreover have "join out (pieces (t # ts)) = join ?out (pieces ts)" by (simp only: ps j)
        ultimately show ?thesis using IH by metis
      qed
    qed
  qed
  from this [of "[]"] assms show ?thesis
    by (auto simp: token_group_to_string_def)
qed

theorem group_text_bounded_prefix_witness:
  "(0 :: nat) < 9 \<and> token_group_to_string [\<lparr>ttype = TOKEN_WORD, tvalue = ''ls''\<rparr>, \<lparr>ttype = TOKEN_OP_PIPE, tvalue = ''|''\<rparr>,
      \<lparr>ttype = TOKEN_WORD, tvalue = ''wc''\<rparr>] 9 = Some ''ls | wc'' \<and> length ''ls | wc'' < (9 :: nat)"
proof -
  have r: "token_group_to_string [\<lparr>ttype = TOKEN_WORD, tvalue = ''ls''\<rparr>, \<lparr>ttype = TOKEN_OP_PIPE, tvalue = ''|''\<rparr>,
      \<lparr>ttype = TOKEN_WORD, tvalue = ''wc''\<rparr>] 9 = Some ''ls | wc''"
    by (simp add: token_group_to_string_def piece_def op_text_def)
  show ?thesis using group_text_bounded_prefix [OF _ r] r by simp
qed

end
