(* ===== verification/Jobs.thy ===== *)
theory Jobs
  imports Prelude "HOL-Library.Multiset"
begin

text \<open>
  The job table of the shell (\<open>c-shell/src/bg.c\<close>): the dense array of jobs in
  launch order, the list of pids the SIGCHLD handler watches, and the queue of
  wait statuses the handler hands to the main program.  \<open>n_jobs\<close>, \<open>nprocs\<close> and
  \<open>watch_hi\<close> are the lengths of the lists.  What \<open>waitpid\<close> returns is an
  argument; lines the shell prints and signals it sends are appended to \<open>outs\<close>.
\<close>

section \<open>State\<close>

definition MAX_BG_JOBS :: nat where "MAX_BG_JOBS = 256"
definition MAX_JOB_PROCS :: nat where "MAX_JOB_PROCS = 16"
definition BG_NAME_MAX :: nat where "BG_NAME_MAX = 256"
definition BG_CMD_MAX :: nat where "BG_CMD_MAX = 512"
definition MAX_WATCH :: nat where "MAX_WATCH = MAX_BG_JOBS * MAX_JOB_PROCS"

text \<open>A wait status, as the \<open>WIF...\<close> macros tell them apart.\<close>

datatype wstatus = Exited int | Signaled int | Stopped int | Continued

definition ends_watch :: "wstatus \<Rightarrow> bool" where
  "ends_watch s = (case s of Exited _ \<Rightarrow> True | Signaled _ \<Rightarrow> True | Stopped _ \<Rightarrow> False | Continued \<Rightarrow> False)"

definition is_stop :: "wstatus \<Rightarrow> bool" where
  "is_stop s = (case s of Stopped _ \<Rightarrow> True | _ \<Rightarrow> False)"

record BgProc =
  bp_pid :: int
  command_name :: string
  bp_stopped :: bool

record BgJob =
  job_number :: int
  pgid :: int
  lead_pid :: int
  lead_name :: string
  cmdline :: string
  lead_status :: wstatus
  lead_reaped :: bool
  last_status :: wstatus
  j_stopped :: bool
  procs :: "BgProc list"

datatype out_event =
    OutJobStarted int int
  | OutJobStopped int string
  | OutJobRunning int string
  | OutExitedNormally string int
  | OutExitedAbnormally string int
  | OutSent string string
  | OutJobHeader int int
  | OutProcLine int string bool
  | OutTermGive int
  | OutTermTake
  | OutAlarm int
  | OutLine string
  | OutErr string
  | OutKill int int

record shell =
  bg_jobs :: "BgJob list"
  next_job_number :: int
  watched :: "int list"
  reaped :: "(int \<times> wstatus) list"
  outs :: "out_event list"

definition emit :: "out_event list \<Rightarrow> shell \<Rightarrow> shell" where
  "emit es s = s\<lparr>outs := outs s @ es\<rparr>"

definition init_bg :: shell where
  "init_bg = \<lparr>bg_jobs = [], next_job_number = 0, watched = [], reaped = [], outs = []\<rparr>"

section \<open>The watch list and the handler\<close>

fun reap_loop ::
  "(int \<Rightarrow> wstatus option) \<Rightarrow> int list \<Rightarrow> (int \<times> wstatus) list \<Rightarrow> int list \<times> (int \<times> wstatus) list" where
  "reap_loop wait [] q = ([], q)"
| "reap_loop wait (pid # ps) q =
     (if length q \<ge> MAX_WATCH then (pid # ps, q)
      else if pid \<le> 0 then (let (ps', q') = reap_loop wait ps q in (pid # ps', q'))
      else (case wait pid of
              None \<Rightarrow> (let (ps', q') = reap_loop wait ps q in (pid # ps', q'))
            | Some st \<Rightarrow>
                let (ps', q') = reap_loop wait ps (q @ [(pid, st)])
                in ((if ends_watch st then 0 else pid) # ps', q')))"

definition sigchld_handler :: "(int \<Rightarrow> wstatus option) \<Rightarrow> shell \<Rightarrow> shell" where
  "sigchld_handler wait s =
     (let (ws, q) = reap_loop wait (watched s) (reaped s) in s\<lparr>watched := ws, reaped := q\<rparr>)"

definition bg_watch_pid :: "int \<Rightarrow> shell \<Rightarrow> shell" where
  "bg_watch_pid pid s =
     (if pid \<le> 0 \<or> pid \<in> set (watched s) then s
      else case find_idx (\<lambda>w. w = 0) (watched s) of
             Some slot \<Rightarrow> s\<lparr>watched := (watched s)[slot := pid]\<rparr>
           | None \<Rightarrow> if length (watched s) < MAX_WATCH then s\<lparr>watched := watched s @ [pid]\<rparr> else s)"

definition trim :: "int list \<Rightarrow> int list" where
  "trim ws = rev (dropWhile (\<lambda>w. w = 0) (rev ws))"

definition bg_unwatch_pid :: "int \<Rightarrow> shell \<Rightarrow> shell \<times> bool" where
  "bg_unwatch_pid pid s =
     (s\<lparr>watched := trim (map (\<lambda>w. if w = pid then 0 else w) (watched s))\<rparr>, pid \<in> set (watched s))"

text \<open>SIGHUP or SIGTERM: every watched process is hung up and continued.\<close>

definition SIGHUP :: int where "SIGHUP = 1"
definition SIGTERM :: int where "SIGTERM = 15"
definition SIGCONT :: int where "SIGCONT = 18"

definition hangup_handler :: "bool \<Rightarrow> int \<Rightarrow> shell \<Rightarrow> shell" where
  "hangup_handler is_shell sig s =
     emit (if is_shell then concat (map (\<lambda>p. if p > 0 then [OutKill p SIGHUP, OutKill p SIGCONT] else [])
                                      (watched s)) else []) s"

section \<open>Jobs\<close>

definition sync_job_stopped :: "BgJob \<Rightarrow> BgJob" where
  "sync_job_stopped j = j\<lparr>j_stopped := list_ex bp_stopped (procs j)\<rparr>"

definition add_job ::
  "int \<Rightarrow> int list \<Rightarrow> string list \<Rightarrow> string option \<Rightarrow> shell \<Rightarrow> shell \<times> BgJob option" where
  "add_job pg pids names cl s =
     (if pids = [] then (s, None)
      else if length (bg_jobs s) \<ge> MAX_BG_JOBS
        then (emit [OutErr ''cshell: too many background jobs''] s, None)
      else
        let n = min (length pids) MAX_JOB_PROCS;
            num = next_job_number s + 1;
            lname = take (BG_NAME_MAX - 1) (names ! 0);
            j = \<lparr>job_number = num, pgid = pg, lead_pid = pids ! 0, lead_name = lname,
                 cmdline = take (BG_CMD_MAX - 1) (case cl of None \<Rightarrow> lname | Some c \<Rightarrow> if c = [] then lname else c),
                 lead_status = Exited 0, lead_reaped = False, last_status = Exited 0, j_stopped = False,
                 procs = map (\<lambda>i. \<lparr>bp_pid = pids ! i, command_name = take (BG_NAME_MAX - 1) (names ! i),
                                   bp_stopped = False\<rparr>) [0..<n]\<rparr>
        in (fold bg_watch_pid (take n pids) (s\<lparr>bg_jobs := bg_jobs s @ [j], next_job_number := num\<rparr>), Some j))"

definition register_bg_group ::
  "int \<Rightarrow> int list \<Rightarrow> string list \<Rightarrow> string option \<Rightarrow> shell \<Rightarrow> shell" where
  "register_bg_group pg pids names cl s =
     (case add_job pg pids names cl s of
        (s', None) \<Rightarrow> s'
      | (s', Some j) \<Rightarrow> emit [OutJobStarted (job_number j) (lead_pid j)] s')"

text \<open>The new job is the last one of the table.\<close>

definition stop_all :: "BgJob \<Rightarrow> BgJob" where
  "stop_all j = sync_job_stopped (j\<lparr>procs := map (\<lambda>p. p\<lparr>bp_stopped := True\<rparr>) (procs j)\<rparr>)"

definition register_stopped_job ::
  "int \<Rightarrow> int list \<Rightarrow> string list \<Rightarrow> string option \<Rightarrow> shell \<Rightarrow> shell" where
  "register_stopped_job pg pids names cl s =
     (case add_job pg pids names cl s of
        (s', None) \<Rightarrow> s'
      | (s', Some j) \<Rightarrow>
          emit [OutJobStopped (job_number j) (cmdline j)]
            (s'\<lparr>bg_jobs := modify (length (bg_jobs s') - 1) stop_all (bg_jobs s')\<rparr>))"

definition bg_has_stopped :: "shell \<Rightarrow> bool" where
  "bg_has_stopped s = list_ex j_stopped (bg_jobs s)"

definition bg_hangup_all :: "shell \<Rightarrow> shell" where
  "bg_hangup_all s =
     emit (concat (map (\<lambda>j. if procs j = [] then []
                            else OutKill (- pgid j) SIGHUP # (if j_stopped j then [OutKill (- pgid j) SIGCONT] else []))
                   (bg_jobs s))) s"

definition register_bg_job :: "int \<Rightarrow> string option \<Rightarrow> string option \<Rightarrow> shell \<Rightarrow> shell" where
  "register_bg_job pid nm cl s =
     register_bg_group pid [pid] [take (BG_NAME_MAX - 1) (case nm of None \<Rightarrow> [] | Some n \<Rightarrow> n)] cl s"

section \<open>Status changes\<close>

definition proc_idx :: "int \<Rightarrow> BgJob \<Rightarrow> nat option" where
  "proc_idx pid j = find_idx (\<lambda>p. bp_pid p = pid) (procs j)"

definition delete_at :: "nat \<Rightarrow> 'a list \<Rightarrow> 'a list" where
  "delete_at i xs = take i xs @ drop (Suc i) xs"

text \<open>What the exit of one of its processes does to a job, before it is retired.\<close>

definition job_exit :: "int \<Rightarrow> wstatus \<Rightarrow> nat \<Rightarrow> BgJob \<Rightarrow> BgJob" where
  "job_exit pid st k j =
     (let j1 = (if pid = lead_pid j then j\<lparr>lead_status := st, lead_reaped := True\<rparr> else j)
      in j1\<lparr>last_status := st, procs := delete_at k (procs j)\<rparr>)"

definition completion_message :: "BgJob \<Rightarrow> out_event list" where
  "completion_message j =
     (case (if lead_reaped j then lead_status j else last_status j) of
        Exited _ \<Rightarrow> [OutExitedNormally (lead_name j) (lead_pid j)]
      | Signaled _ \<Rightarrow> [OutExitedAbnormally (lead_name j) (lead_pid j)]
      | _ \<Rightarrow> [])"

definition bg_child_exited :: "int \<Rightarrow> wstatus \<Rightarrow> shell \<Rightarrow> shell \<times> int" where
  "bg_child_exited pid st s =
     (let s1 = fst (bg_unwatch_pid pid s) in
      case find_idx (\<lambda>j. proc_idx pid j \<noteq> None) (bg_jobs s1) of
        None \<Rightarrow> (s1, 0)
      | Some i \<Rightarrow>
          let j = bg_jobs s1 ! i; j1 = job_exit pid st (the (proc_idx pid j)) j
          in if procs j1 = []
             then (emit (completion_message j1) (s1\<lparr>bg_jobs := delete_at i (bg_jobs s1)\<rparr>), 1)
             else (s1\<lparr>bg_jobs := (bg_jobs s1)[i := sync_job_stopped j1]\<rparr>, 0))"

definition set_proc_stopped :: "int \<Rightarrow> bool \<Rightarrow> BgJob \<Rightarrow> BgJob" where
  "set_proc_stopped pid b j =
     sync_job_stopped (case proc_idx pid j of
        None \<Rightarrow> j
      | Some k \<Rightarrow> j\<lparr>procs := modify k (\<lambda>p. p\<lparr>bp_stopped := b\<rparr>) (procs j)\<rparr>)"

definition record_status :: "int \<Rightarrow> wstatus \<Rightarrow> shell \<Rightarrow> shell \<times> int" where
  "record_status pid st s =
     (if ends_watch st then bg_child_exited pid st s
      else case find_idx (\<lambda>j. proc_idx pid j \<noteq> None) (bg_jobs s) of
             None \<Rightarrow> (s, 0)
           | Some i \<Rightarrow>
               (s\<lparr>bg_jobs := modify i (set_proc_stopped pid (is_stop st)) (bg_jobs s)\<rparr>, 0))"

fun record_all :: "(int \<times> wstatus) list \<Rightarrow> shell \<times> int \<Rightarrow> shell \<times> int" where
  "record_all [] sr = sr"
| "record_all ((pid, st) # q) sr =
     (let (s', r) = record_status pid st (fst sr) in record_all q (s', snd sr + r))"

text \<open>\<open>sweep\<close> is what \<open>waitpid(-1)\<close> returns in the second loop.\<close>

definition check_bg_jobs :: "(int \<times> wstatus) list \<Rightarrow> shell \<Rightarrow> shell \<times> int" where
  "check_bg_jobs sweep s = record_all sweep (record_all (reaped s) (s\<lparr>reaped := []\<rparr>, 0))"

section \<open>Lookup and the changes \<open>resume\<close> and \<open>ping\<close> make\<close>

definition bg_live_count :: "shell \<Rightarrow> int" where
  "bg_live_count s = int (length (bg_jobs s))"

definition bg_job_at :: "int \<Rightarrow> shell \<Rightarrow> BgJob option" where
  "bg_job_at idx s = (if idx < 0 \<or> idx \<ge> int (length (bg_jobs s)) then None else Some (bg_jobs s ! nat idx))"

definition find_mutable :: "int \<Rightarrow> shell \<Rightarrow> nat option" where
  "find_mutable num s = find_idx (\<lambda>j. job_number j = num) (bg_jobs s)"

definition bg_find_job :: "int \<Rightarrow> shell \<Rightarrow> BgJob option" where
  "bg_find_job num s = map_option (\<lambda>i. bg_jobs s ! i) (find_mutable num s)"

definition bg_set_running :: "int \<Rightarrow> shell \<Rightarrow> shell" where
  "bg_set_running num s =
     (case find_mutable num s of
        None \<Rightarrow> s
      | Some i \<Rightarrow> s\<lparr>bg_jobs := modify i
          (\<lambda>j. sync_job_stopped (j\<lparr>procs := map (\<lambda>p. p\<lparr>bp_stopped := False\<rparr>) (procs j)\<rparr>)) (bg_jobs s)\<rparr>)"

definition kept_procs :: "int list \<Rightarrow> BgJob \<Rightarrow> BgProc list" where
  "kept_procs pids j =
     concat (map (\<lambda>pid. case proc_idx pid j of None \<Rightarrow> [] | Some k \<Rightarrow> [(procs j ! k)\<lparr>bp_stopped := True\<rparr>]) pids)"

definition bg_set_stopped :: "int \<Rightarrow> int list \<Rightarrow> shell \<Rightarrow> shell" where
  "bg_set_stopped num pids s =
     (case find_mutable num s of
        None \<Rightarrow> s
      | Some i \<Rightarrow>
          let kept = kept_procs (take MAX_JOB_PROCS pids) (bg_jobs s ! i)
          in fold bg_watch_pid (map bp_pid kept)
               (s\<lparr>bg_jobs := modify i (\<lambda>j. sync_job_stopped (j\<lparr>procs := kept\<rparr>)) (bg_jobs s)\<rparr>))"

definition bg_remove_job :: "int \<Rightarrow> shell \<Rightarrow> shell" where
  "bg_remove_job num s =
     (case find_mutable num s of
        None \<Rightarrow> s
      | Some i \<Rightarrow>
          let s1 = fold (\<lambda>p s. fst (bg_unwatch_pid p s)) (map bp_pid (procs (bg_jobs s ! i))) s
          in s1\<lparr>bg_jobs := delete_at i (bg_jobs s)\<rparr>)"

section \<open>The invariant\<close>

definition job_ok :: "BgJob \<Rightarrow> bool" where
  "job_ok j \<longleftrightarrow> length (procs j) \<le> MAX_JOB_PROCS \<and> j_stopped j = list_ex bp_stopped (procs j)"

definition table_ok :: "int \<Rightarrow> BgJob list \<Rightarrow> bool" where
  "table_ok n js \<longleftrightarrow> length js \<le> MAX_BG_JOBS \<and> sorted_wrt (<) (map job_number js)
     \<and> (\<forall>j \<in> set js. 0 < job_number j \<and> job_number j \<le> n \<and> job_ok j)"

definition watch_ok :: "shell \<Rightarrow> bool" where
  "watch_ok s \<longleftrightarrow> length (watched s) \<le> MAX_WATCH \<and> length (reaped s) \<le> MAX_WATCH
     \<and> distinct (filter (\<lambda>w. w \<noteq> 0) (watched s)) \<and> (\<forall>w \<in> set (watched s). 0 \<le> w)"

definition shell_inv :: "shell \<Rightarrow> bool" where
  "shell_inv s \<longleftrightarrow> 0 \<le> next_job_number s \<and> table_ok (next_job_number s) (bg_jobs s) \<and> watch_ok s"

lemma watch_fields [simp]:
  "bg_jobs (bg_watch_pid p s) = bg_jobs s" "next_job_number (bg_watch_pid p s) = next_job_number s"
  "reaped (bg_watch_pid p s) = reaped s" "outs (bg_watch_pid p s) = outs s"
  "bg_jobs (fst (bg_unwatch_pid p s)) = bg_jobs s"
  "next_job_number (fst (bg_unwatch_pid p s)) = next_job_number s"
  "reaped (fst (bg_unwatch_pid p s)) = reaped s" "outs (fst (bg_unwatch_pid p s)) = outs s"
  "bg_jobs (emit es s) = bg_jobs s" "next_job_number (emit es s) = next_job_number s"
  "watched (emit es s) = watched s" "reaped (emit es s) = reaped s" "outs (emit es s) = outs s @ es"
  by (simp_all add: bg_watch_pid_def bg_unwatch_pid_def emit_def split: option.split)

lemma fold_watch_fields [simp]:
  "bg_jobs (fold bg_watch_pid ps s) = bg_jobs s"
  "next_job_number (fold bg_watch_pid ps s) = next_job_number s"
  "outs (fold bg_watch_pid ps s) = outs s"
  by (induction ps arbitrary: s) simp_all

lemma fold_unwatch_fields [simp]:
  "bg_jobs (fold (\<lambda>p s. fst (bg_unwatch_pid p s)) ps s) = bg_jobs s"
  "next_job_number (fold (\<lambda>p s. fst (bg_unwatch_pid p s)) ps s) = next_job_number s"
  "outs (fold (\<lambda>p s. fst (bg_unwatch_pid p s)) ps s) = outs s"
  by (induction ps arbitrary: s) simp_all

lemma watch_ok_emit [simp]: "watch_ok (emit es s) = watch_ok s"
  by (simp add: watch_ok_def)

lemma watch_ok_bg_jobs [simp]:
  "watch_ok (s\<lparr>bg_jobs := js\<rparr>) = watch_ok s" "watch_ok (s\<lparr>bg_jobs := js, next_job_number := n\<rparr>) = watch_ok s"
  by (simp_all add: watch_ok_def)

lemma filter_update_zero:
  "i < length ws \<Longrightarrow> ws ! i = 0 \<Longrightarrow> p \<noteq> (0 :: int) \<Longrightarrow>
   filter (\<lambda>w. w \<noteq> 0) (ws[i := p]) =
     filter (\<lambda>w. w \<noteq> 0) (take i ws) @ p # filter (\<lambda>w. w \<noteq> 0) (drop (Suc i) ws)"
  by (simp add: upd_conv_take_nth_drop)

lemma watch_ok_watch: "watch_ok s \<Longrightarrow> watch_ok (bg_watch_pid p s)"
proof (cases "p \<le> 0 \<or> p \<in> set (watched s)")
  case True
  then show "watch_ok s \<Longrightarrow> ?thesis" by (auto simp: bg_watch_pid_def)
next
  case False
  assume ok: "watch_ok s"
  show ?thesis
  proof (cases "find_idx (\<lambda>w. w = 0) (watched s)")
    case None
    then show ?thesis using False ok by (auto simp: bg_watch_pid_def watch_ok_def)
  next
    case (Some i)
    note i = find_idx_SomeD(1,2) [OF Some]
    let ?ws = "watched s"
    have split: "?ws = take i ?ws @ 0 # drop (Suc i) ?ws"
      using i id_take_nth_drop [of i ?ws] by simp
    have "distinct (filter (\<lambda>w. w \<noteq> 0) (take i ?ws @ 0 # drop (Suc i) ?ws))"
      using ok split by (simp add: watch_ok_def)
    moreover have "p \<notin> set (take i ?ws)" "p \<notin> set (drop (Suc i) ?ws)"
      using False by (auto dest: in_set_takeD in_set_dropD)
    ultimately have "distinct (filter (\<lambda>w. w \<noteq> 0) (?ws[i := p]))"
      using filter_update_zero [OF i, of p] False by auto
    moreover have "\<forall>w \<in> set (?ws[i := p]). 0 \<le> w"
      using ok False set_update_subset_insert [of ?ws i p] by (auto simp: watch_ok_def)
    ultimately show ?thesis using Some False ok by (auto simp: bg_watch_pid_def watch_ok_def)
  qed
qed

lemma trim_prefix: "\<exists>k. ws = trim ws @ replicate k 0"
proof -
  have "rev ws = takeWhile (\<lambda>w. w = 0) (rev ws) @ dropWhile (\<lambda>w. w = 0) (rev ws)" by simp
  then have "ws = rev (dropWhile (\<lambda>w. w = 0) (rev ws)) @ rev (takeWhile (\<lambda>w. w = 0) (rev ws))"
    by (metis rev_append rev_rev_ident)
  moreover have "rev (takeWhile (\<lambda>w. w = 0) (rev ws)) = replicate (length (takeWhile (\<lambda>w. w = 0) (rev ws))) 0"
    by (metis (mono_tags, lifting) length_rev replicate_eqI set_rev set_takeWhileD)
  ultimately show ?thesis by (metis trim_def)
qed

lemma trim_facts:
  "length (trim ws) \<le> length ws" "set (trim ws) \<subseteq> set ws"
  "filter (\<lambda>w. w \<noteq> 0) (trim ws) = filter (\<lambda>w. w \<noteq> 0) ws"
proof -
  obtain k where k: "ws = trim ws @ replicate k 0" using trim_prefix by blast
  show "length (trim ws) \<le> length ws" by (subst (2) k) simp
  show "set (trim ws) \<subseteq> set ws" by (subst (2) k) auto
  show "filter (\<lambda>w. w \<noteq> 0) (trim ws) = filter (\<lambda>w. w \<noteq> 0) ws" by (subst (2) k) simp
qed

lemma filter_unwatch:
  "filter (\<lambda>w. w \<noteq> 0) (map (\<lambda>w. if w = p then 0 else w) ws) = filter (\<lambda>w. w \<noteq> p) (filter (\<lambda>w. w \<noteq> (0::int)) ws)"
  by (induction ws) auto

lemma watch_ok_unwatch: "watch_ok s \<Longrightarrow> watch_ok (fst (bg_unwatch_pid p s))"
proof -
  assume ok: "watch_ok s"
  let ?ws = "map (\<lambda>w. if w = p then 0 else w) (watched s)"
  have f: "filter (\<lambda>w. w \<noteq> 0) ?ws = filter (\<lambda>w. w \<noteq> p) (filter (\<lambda>w. w \<noteq> 0) (watched s))"
    by (rule filter_unwatch)
  have "\<forall>w \<in> set (trim ?ws). 0 \<le> w"
    using ok trim_facts(2) [of ?ws] by (auto simp: watch_ok_def)
  moreover have "distinct (filter (\<lambda>w. w \<noteq> 0) ?ws)"
    unfolding f using ok by (simp only: watch_ok_def distinct_filter)
  ultimately show ?thesis
    using ok trim_facts(1) [of ?ws] by (auto simp: watch_ok_def bg_unwatch_pid_def trim_facts(3))
qed

lemma watch_ok_folds:
  "watch_ok s \<Longrightarrow> watch_ok (fold bg_watch_pid ps s)"
  "watch_ok s \<Longrightarrow> watch_ok (fold (\<lambda>p s. fst (bg_unwatch_pid p s)) ps s)"
  by (induction ps arbitrary: s) (simp_all add: watch_ok_watch watch_ok_unwatch)

lemma reap_loop_spec:
  assumes "reap_loop wait ws q = (ws', q')" "length q \<le> MAX_WATCH"
  shows "length q' \<le> MAX_WATCH \<and> list_all2 (\<lambda>w w'. w' = w \<or> w' = 0) ws ws'
    \<and> (\<exists>new. q' = q @ new \<and> (\<forall>(p, st) \<in> set new. p \<in> set ws \<and> 0 < p \<and> wait p = Some st))"
  using assms
proof (induction wait ws q arbitrary: ws' q' rule: reap_loop.induct)
  case (2 wait pid ps q)
  show ?case
  proof (cases "length q \<ge> MAX_WATCH")
    case True
    then show ?thesis using 2(4,5) by (auto simp: list.rel_refl)
  next
    case room: False
    show ?thesis
    proof (cases "pid \<le> 0 \<or> wait pid = None")
      case True
      obtain ps1 q1 where r: "reap_loop wait ps q = (ps1, q1)" by fastforce
      with True room 2(4) have eqs: "ws' = pid # ps1" "q' = q1" by (auto split: if_splits option.splits)
      have "length q1 \<le> MAX_WATCH \<and> list_all2 (\<lambda>w w'. w' = w \<or> w' = 0) ps ps1
          \<and> (\<exists>new. q1 = q @ new \<and> (\<forall>(p, st) \<in> set new. p \<in> set ps \<and> 0 < p \<and> wait p = Some st))"
        using True room 2(1) [OF _ _ r 2(5)] 2(2) [OF _ _ _ r 2(5)] by (cases "pid \<le> 0") auto
      then show ?thesis by (fastforce simp: eqs)
    next
      case False
      then obtain st where st: "wait pid = Some st" by auto
      obtain ps1 q1 where r: "reap_loop wait ps (q @ [(pid, st)]) = (ps1, q1)" by fastforce
      with False room st 2(4) have eqs: "ws' = (if ends_watch st then 0 else pid) # ps1" "q' = q1"
        by (auto split: if_splits)
      have "length q1 \<le> MAX_WATCH \<and> list_all2 (\<lambda>w w'. w' = w \<or> w' = 0) ps ps1
          \<and> (\<exists>new. q1 = (q @ [(pid, st)]) @ new \<and> (\<forall>(p, st) \<in> set new. p \<in> set ps \<and> 0 < p \<and> wait p = Some st))"
        using False room by (intro 2(3) [OF _ _ st r]) auto
      then show ?thesis using st False by (fastforce simp: eqs)
    qed
  qed
qed simp

lemma zeroed_filter:
  assumes "list_all2 (\<lambda>w w'. w' = w \<or> w' = (0 :: int)) ws ws'"
  shows "set (filter (\<lambda>w. w \<noteq> 0) ws') \<subseteq> set (filter (\<lambda>w. w \<noteq> 0) ws)
    \<and> (distinct (filter (\<lambda>w. w \<noteq> 0) ws) \<longrightarrow> distinct (filter (\<lambda>w. w \<noteq> 0) ws'))
    \<and> ((\<forall>w \<in> set ws. 0 \<le> w) \<longrightarrow> (\<forall>w \<in> set ws'. 0 \<le> w))"
  using assms by (induction rule: list_all2_induct) auto

lemma watch_ok_handler: "watch_ok s \<Longrightarrow> watch_ok (sigchld_handler wait s)"
proof -
  assume ok: "watch_ok s"
  obtain ws q where r: "reap_loop wait (watched s) (reaped s) = (ws, q)" by fastforce
  with reap_loop_spec [OF r] zeroed_filter [of "watched s" ws] ok show ?thesis
    by (auto simp: watch_ok_def sigchld_handler_def list_all2_lengthD)
qed

section \<open>Every operation keeps it\<close>

lemma table_ok_append:
  assumes "table_ok n js" "length js < MAX_BG_JOBS" "job_number j = n + 1" "0 \<le> n" "job_ok j"
  shows "table_ok (n + 1) (js @ [j])"
  using assms by (fastforce simp: table_ok_def sorted_wrt_append)

lemma table_ok_delete: "table_ok n js \<Longrightarrow> table_ok n (delete_at i js)"
proof -
  assume ok: "table_ok n js"
  have "sorted_wrt (<) (map job_number (delete_at i js))"
  proof (cases "i < length js")
    case True
    then have "sorted_wrt (<) (map job_number (take i js @ js ! i # drop (Suc i) js))"
      using ok id_take_nth_drop [OF True] by (simp add: table_ok_def)
    then show ?thesis by (auto simp: delete_at_def sorted_wrt_append)
  next
    case False
    then show ?thesis using ok by (simp add: delete_at_def table_ok_def)
  qed
  moreover have "set (delete_at i js) \<subseteq> set js"
    by (auto simp: delete_at_def dest: in_set_takeD in_set_dropD)
  moreover have "length (delete_at i js) \<le> length js" by (simp add: delete_at_def)
  ultimately show ?thesis using ok by (auto simp: table_ok_def)
qed

lemma table_ok_update:
  assumes "table_ok n js" "\<And>j. j \<in> set js \<Longrightarrow> job_ok j \<Longrightarrow> job_ok (f j)" "\<And>j. job_number (f j) = job_number j"
  shows "table_ok n (modify i f js)"
proof -
  have "map job_number (modify i f js) = map job_number js"
    by (rule map_modify_frame) (rule assms(3))
  moreover have "job_ok j \<and> 0 < job_number j \<and> job_number j \<le> n" if "j \<in> set (modify i f js)" for j
  proof -
    from that obtain k where k: "k < length js" "j = modify i f js ! k" by (auto simp: in_set_conv_nth)
    have "js ! k \<in> set js" using k by simp
    then show ?thesis using assms k by (auto simp: table_ok_def)
  qed
  ultimately show ?thesis using assms(1) by (auto simp: table_ok_def)
qed

lemma add_job_inv:
  assumes "shell_inv s" "add_job pg pids names cl s = (s', r)"
  shows "shell_inv s'"
proof (cases "pids = [] \<or> length (bg_jobs s) \<ge> MAX_BG_JOBS")
  case True
  then show ?thesis using assms by (auto simp: add_job_def shell_inv_def split: if_splits)
next
  case False
  then obtain j n where s': "s' = fold bg_watch_pid (take n pids)
       (s\<lparr>bg_jobs := bg_jobs s @ [j], next_job_number := next_job_number s + 1\<rparr>)"
    and j: "job_number j = next_job_number s + 1" "job_ok j"
    using assms(2) by (auto simp: add_job_def Let_def job_ok_def list_ex_iff)
  have "table_ok (next_job_number s + 1) (bg_jobs s @ [j])"
    using assms(1) False j by (intro table_ok_append) (auto simp: shell_inv_def)
  then show ?thesis using assms(1) by (simp add: s' shell_inv_def watch_ok_folds)
qed

lemma job_ok_sync: "length (procs j) \<le> MAX_JOB_PROCS \<Longrightarrow> job_ok (sync_job_stopped j)"
  by (simp add: job_ok_def sync_job_stopped_def)

lemma job_ok_procs:
  "job_ok j \<Longrightarrow> length ps \<le> length (procs j) \<Longrightarrow> job_ok (sync_job_stopped (j\<lparr>procs := ps\<rparr>))"
  by (rule job_ok_sync) (simp add: job_ok_def)

lemma job_number_sync [simp]: "job_number (sync_job_stopped j) = job_number j"
  by (simp add: sync_job_stopped_def)

lemma stopped_inv:
  assumes "shell_inv s" shows "shell_inv (register_stopped_job pg pids names cl s)"
proof -
  obtain s' r where a: "add_job pg pids names cl s = (s', r)" by fastforce
  from add_job_inv [OF assms a] show ?thesis
    unfolding register_stopped_job_def a
    by (cases r) (auto simp: shell_inv_def stop_all_def intro!: table_ok_update job_ok_procs)
qed

lemma group_inv:
  assumes "shell_inv s" shows "shell_inv (register_bg_group pg pids names cl s)"
proof -
  obtain s' r where a: "add_job pg pids names cl s = (s', r)" by fastforce
  from add_job_inv [OF assms a] show ?thesis
    unfolding register_bg_group_def a by (cases r) (auto simp: shell_inv_def)
qed

lemma proc_idx_Some:
  assumes "proc_idx pid j = Some k"
  shows "k < length (procs j)" "bp_pid (procs j ! k) = pid"
  using find_idx_SomeD(1,2) [OF assms [unfolded proc_idx_def]] .

lemma length_delete_at: "i < length xs \<Longrightarrow> length (delete_at i xs) = length xs - 1"
  by (simp add: delete_at_def)

lemma exited_inv:
  assumes "shell_inv s" shows "shell_inv (fst (bg_child_exited pid st s))"
proof -
  let ?s1 = "fst (bg_unwatch_pid pid s)"
  have inv1: "shell_inv ?s1" using assms by (simp add: shell_inv_def watch_ok_unwatch)
  show ?thesis
  proof (cases "find_idx (\<lambda>j. proc_idx pid j \<noteq> None) (bg_jobs s)")
    case None
    then show ?thesis using inv1 by (simp add: bg_child_exited_def)
  next
    case (Some i)
    let ?j = "bg_jobs s ! i"
    let ?j1 = "job_exit pid st (the (proc_idx pid ?j)) ?j"
    have i: "i < length (bg_jobs s)" using find_idx_SomeD(1) [OF Some] .
    have j1: "job_number ?j1 = job_number ?j" "length (procs ?j1) \<le> length (procs ?j)"
      by (simp_all add: job_exit_def Let_def delete_at_def)
    have "(bg_jobs s)[i := sync_job_stopped ?j1] = modify i (\<lambda>_. sync_job_stopped ?j1) (bg_jobs s)"
      by (simp add: modify_def)
    moreover have "table_ok (next_job_number s) ((bg_jobs s)[i := sync_job_stopped ?j1])"
    proof -
      have ok: "table_ok (next_job_number s) (bg_jobs s)" using assms by (simp add: shell_inv_def)
      then have "job_ok ?j" using i by (auto simp: table_ok_def)
      then have "job_ok (sync_job_stopped ?j1)"
        using j1(2) by (intro job_ok_sync) (simp add: job_ok_def)
      moreover have "map job_number ((bg_jobs s)[i := sync_job_stopped ?j1]) = map job_number (bg_jobs s)"
        using i j1(1) by (simp add: map_update list_update_same_conv)
      moreover have "set ((bg_jobs s)[i := sync_job_stopped ?j1]) \<subseteq> insert (sync_job_stopped ?j1) (set (bg_jobs s))"
        by (rule set_update_subset_insert)
      moreover have "0 < job_number ?j \<and> job_number ?j \<le> next_job_number s" using ok i by (auto simp: table_ok_def)
      ultimately show ?thesis using ok j1(1) by (auto simp: table_ok_def)
    qed
    moreover have "table_ok (next_job_number s) (delete_at i (bg_jobs s))"
      using assms by (simp add: shell_inv_def table_ok_delete)
    ultimately show ?thesis
      using Some inv1 by (simp add: bg_child_exited_def Let_def shell_inv_def)
  qed
qed

lemma record_inv:
  assumes "shell_inv s" shows "shell_inv (fst (record_status pid st s))"
proof -
  have "job_ok (set_proc_stopped pid b j)" if "job_ok j" for b j
  proof -
    have "length (procs j) \<le> MAX_JOB_PROCS" using that by (simp add: job_ok_def)
    then show ?thesis by (auto simp: set_proc_stopped_def split: option.split intro!: job_ok_sync)
  qed
  moreover have "job_number (set_proc_stopped pid b j) = job_number j" for b j
    by (simp add: set_proc_stopped_def split: option.split)
  ultimately show ?thesis
    using assms exited_inv [OF assms]
    by (auto simp: record_status_def shell_inv_def split: option.split intro!: table_ok_update)
qed

lemma record_all_inv: "shell_inv (fst sr) \<Longrightarrow> shell_inv (fst (record_all q sr))"
proof (induction q sr rule: record_all.induct)
  case (2 pid st q sr)
  obtain s' r where r: "record_status pid st (fst sr) = (s', r)" by fastforce
  with record_inv [OF 2(2), of pid st] have "shell_inv s'" by simp
  then have "shell_inv (fst (record_all q (s', snd sr + r)))" using 2(1) [OF r [symmetric] refl] by simp
  then show ?case by (simp add: r)
qed simp

lemma check_inv:
  assumes "shell_inv s" shows "shell_inv (fst (check_bg_jobs sweep s))"
proof -
  have "shell_inv (s\<lparr>reaped := []\<rparr>)" using assms by (simp add: shell_inv_def watch_ok_def)
  then show ?thesis by (simp add: check_bg_jobs_def record_all_inv)
qed

lemma running_inv: "shell_inv s \<Longrightarrow> shell_inv (bg_set_running num s)"
  by (auto simp: bg_set_running_def shell_inv_def split: option.split intro!: table_ok_update job_ok_procs)

lemma length_kept: "length (kept_procs pids j) \<le> length pids"
  by (induction pids) (auto simp: kept_procs_def split: option.split)

lemma set_stopped_inv: "shell_inv s \<Longrightarrow> shell_inv (bg_set_stopped num pids s)"
proof -
  assume inv: "shell_inv s"
  have "length (kept_procs (take MAX_JOB_PROCS pids) j) \<le> MAX_JOB_PROCS" for j
    using length_kept [of "take MAX_JOB_PROCS pids" j] by simp
  then show ?thesis
    using inv by (auto simp: bg_set_stopped_def shell_inv_def Let_def split: option.split
        intro!: table_ok_update job_ok_sync watch_ok_folds)
qed

lemma remove_inv: "shell_inv s \<Longrightarrow> shell_inv (bg_remove_job num s)"
  by (auto simp: bg_remove_job_def shell_inv_def Let_def split: option.split
      intro!: table_ok_delete watch_ok_folds)

section \<open>The shell as a transition system\<close>

inductive shell_step :: "shell \<Rightarrow> shell \<Rightarrow> bool" where
  s_handler: "shell_step s (sigchld_handler wait s)"
| s_launch: "shell_step s (register_bg_group pg pids names cl s)"
| s_stopped: "shell_step s (register_stopped_job pg pids names cl s)"
| s_check: "shell_step s (fst (check_bg_jobs sweep s))"
| s_exited: "shell_step s (fst (bg_child_exited pid st s))"
| s_running: "shell_step s (bg_set_running num s)"
| s_set_stopped: "shell_step s (bg_set_stopped num pids s)"
| s_remove: "shell_step s (bg_remove_job num s)"
| s_watch: "shell_step s (bg_watch_pid pid s)"
| s_unwatch: "shell_step s (fst (bg_unwatch_pid pid s))"
| s_hangup: "shell_step s (bg_hangup_all s)"
| s_emit: "shell_step s (emit es s)"

inductive shell_reachable :: "shell \<Rightarrow> bool" where
  sr_init: "shell_reachable init_bg"
| sr_step: "shell_reachable s \<Longrightarrow> shell_step s s' \<Longrightarrow> shell_reachable s'"

lemma shell_step_inv: "shell_step s s' \<Longrightarrow> shell_inv s \<Longrightarrow> shell_inv s'"
proof (induction rule: shell_step.induct)
  case (s_handler s wait)
  then show ?case
    using watch_ok_handler [of s wait]
    by (auto simp: shell_inv_def sigchld_handler_def split: prod.splits)
next
  case (s_hangup s)
  then show ?case by (simp add: shell_inv_def bg_hangup_all_def)
next
  case (s_emit s es)
  then show ?case by (simp add: shell_inv_def)
next
  case (s_watch s pid)
  then show ?case by (simp add: shell_inv_def watch_ok_watch)
next
  case (s_unwatch s pid)
  then show ?case by (simp add: shell_inv_def watch_ok_unwatch)
qed (simp_all add: group_inv stopped_inv check_inv exited_inv running_inv set_stopped_inv remove_inv)

lemma shell_reachable_inv: "shell_reachable s \<Longrightarrow> shell_inv s"
proof (induction rule: shell_reachable.induct)
  case sr_init
  then show ?case by (simp add: shell_inv_def init_bg_def table_ok_def watch_ok_def)
next
  case (sr_step s s')
  then show ?case by (blast intro: shell_step_inv)
qed

text \<open>
  C26: the job table in every reachable state of the shell: job numbers are
  positive, strictly increasing in launch order and never larger than the last
  one given out, so no number is used twice; the fixed-size arrays are never
  exceeded; a job is marked stopped exactly while one of its processes is; and
  no pid is watched twice.
\<close>

theorem job_table_invariant:
  assumes "shell_reachable s"
  shows "sorted_wrt (<) (map job_number (bg_jobs s))
    \<and> (\<forall>j \<in> set (bg_jobs s). 0 < job_number j \<and> job_number j \<le> next_job_number s
          \<and> length (procs j) \<le> MAX_JOB_PROCS \<and> j_stopped j = list_ex bp_stopped (procs j))
    \<and> length (bg_jobs s) \<le> MAX_BG_JOBS \<and> length (watched s) \<le> MAX_WATCH \<and> length (reaped s) \<le> MAX_WATCH
    \<and> distinct (filter (\<lambda>w. w \<noteq> 0) (watched s))"
  using shell_reachable_inv [OF assms]
  by (auto simp: shell_inv_def table_ok_def job_ok_def watch_ok_def)

theorem job_table_invariant_witness:
  "shell_reachable (register_bg_group 42 [42, 43] [''cat'', ''sort''] None init_bg)
   \<and> sorted_wrt (<) (map job_number (bg_jobs (register_bg_group 42 [42, 43] [''cat'', ''sort''] None init_bg)))"
proof -
  have r: "shell_reachable (register_bg_group 42 [42, 43] [''cat'', ''sort''] None init_bg)"
    by (rule sr_step [OF sr_init s_launch])
  with job_table_invariant [OF r] show ?thesis by blast
qed

section \<open>One completion message per job\<close>

definition final_status :: "(int \<times> wstatus) list \<Rightarrow> BgJob \<Rightarrow> wstatus" where
  "final_status ex j =
     (case map_of ex (lead_pid j) of
        Some st \<Rightarrow> st
      | None \<Rightarrow> if lead_reaped j then lead_status j else snd (last ex))"

definition exit_line :: "wstatus \<Rightarrow> BgJob \<Rightarrow> out_event list" where
  "exit_line st j =
     (case st of Exited _ \<Rightarrow> [OutExitedNormally (lead_name j) (lead_pid j)]
      | Signaled _ \<Rightarrow> [OutExitedAbnormally (lead_name j) (lead_pid j)] | _ \<Rightarrow> [])"

definition own_pids :: "nat \<Rightarrow> BgJob list \<Rightarrow> bool" where
  "own_pids i js \<longleftrightarrow> i < length js \<and> distinct (map bp_pid (procs (js ! i)))
     \<and> (\<forall>m < length js. m \<noteq> i \<longrightarrow>
          set (map bp_pid (procs (js ! m))) \<inter> set (map bp_pid (procs (js ! i))) = {})"

lemma proc_idx_None: "proc_idx pid j = None \<longleftrightarrow> pid \<notin> set (map bp_pid (procs j))"
  by (auto simp: proc_idx_def find_idx_None)

lemma own_pids_find:
  assumes "own_pids i js" "pid \<in> set (map bp_pid (procs (js ! i)))"
  shows "find_idx (\<lambda>j. proc_idx pid j \<noteq> None) js = Some i"
proof (rule find_idx_SomeI)
  show "i < length js" using assms(1) by (simp add: own_pids_def)
  show "proc_idx pid (js ! i) \<noteq> None" using assms(2) by (simp add: proc_idx_None)
  show "\<forall>m < i. \<not> proc_idx pid (js ! m) \<noteq> None"
  proof (intro allI impI)
    fix m assume "m < i"
    then have "set (map bp_pid (procs (js ! m))) \<inter> set (map bp_pid (procs (js ! i))) = {}"
      using assms(1) unfolding own_pids_def by (metis less_trans nat_neq_iff)
    with assms(2) show "\<not> proc_idx pid (js ! m) \<noteq> None" unfolding proc_idx_None not_not by blast
  qed
qed

lemma mset_delete_at: "k < length xs \<Longrightarrow> mset (delete_at k xs) = mset xs - {#xs ! k#}"
proof -
  assume k: "k < length xs"
  have "mset xs = mset (take k xs @ xs ! k # drop (Suc k) xs)"
    using id_take_nth_drop [OF k] by simp
  then show ?thesis by (simp add: delete_at_def)
qed

lemma own_pids_update:
  assumes "own_pids i js" "set (map bp_pid (procs j1)) \<subseteq> set (map bp_pid (procs (js ! i)))"
    "distinct (map bp_pid (procs j1))"
  shows "own_pids i (js[i := j1])"
  using assms by (fastforce simp: own_pids_def nth_list_update)

lemma exits_one_message:
  assumes "own_pids i (bg_jobs s)" "ex \<noteq> []"
    "mset (map fst ex) = mset (map bp_pid (procs (bg_jobs s ! i)))"
    "\<forall>(p, st) \<in> set ex. ends_watch st"
  shows "\<exists>s'. record_all ex (s, r) = (s', r + 1) \<and> bg_jobs s' = delete_at i (bg_jobs s)
    \<and> outs s' = outs s @ exit_line (final_status ex (bg_jobs s ! i)) (bg_jobs s ! i)"
  using assms
proof (induction ex arbitrary: s)
  case (Cons e ex)
  obtain pid st where e: "e = (pid, st)" by (cases e)
  let ?j = "bg_jobs s ! i"
  have pin: "pid \<in> set (map bp_pid (procs ?j))"
    using Cons.prems(3) e by (metis fst_conv list.set_intros(1) list.simps(9) set_mset_mset)
  then obtain k where k: "proc_idx pid ?j = Some k" using proc_idx_None by (metis not_None_eq)
  note kk = proc_idx_Some [OF k]
  let ?j1 = "job_exit pid st k ?j"
  have i: "i < length (bg_jobs s)" using Cons.prems(1) by (simp add: own_pids_def)
  have fi: "find_idx (\<lambda>j. proc_idx pid j \<noteq> None) (bg_jobs s) = Some i"
    by (rule own_pids_find [OF Cons.prems(1) pin])
  have p1: "procs ?j1 = delete_at k (procs ?j)" by (simp add: job_exit_def Let_def)
  have dm: "map bp_pid (delete_at k (procs ?j)) = delete_at k (map bp_pid (procs ?j))"
    by (simp add: delete_at_def take_map drop_map)
  have ms: "mset (map bp_pid (procs ?j1)) = mset (map fst ex)"
    using Cons.prems(3) [symmetric] kk by (simp add: p1 dm mset_delete_at e del: mset_map)
  have st: "ends_watch st" using Cons.prems(4) e by auto
  have dj: "distinct (map bp_pid (procs ?j))" using Cons.prems(1) by (simp add: own_pids_def)
  then have dex: "pid \<notin> set (map fst ex)"
    using Cons.prems(3) e by (metis distinct.simps(2) fst_conv list.simps(9) mset_eq_imp_distinct_iff)
  have rec: "record_status pid st s =
      (if procs ?j1 = [] then (emit (completion_message ?j1) ((fst (bg_unwatch_pid pid s))\<lparr>bg_jobs := delete_at i (bg_jobs s)\<rparr>), 1)
       else ((fst (bg_unwatch_pid pid s))\<lparr>bg_jobs := (bg_jobs s)[i := sync_job_stopped ?j1]\<rparr>, 0))"
    using st fi k by (simp add: record_status_def bg_child_exited_def Let_def)
  show ?case
  proof (cases "ex = []")
    case True
    then have "procs ?j1 = []" using ms by simp
    moreover have "completion_message ?j1 = exit_line (final_status (e # ex) ?j) ?j"
      using True e by (auto simp: completion_message_def exit_line_def final_status_def job_exit_def Let_def split: wstatus.split)
    ultimately show ?thesis using True e rec by simp
  next
    case False
    then have ne: "procs ?j1 \<noteq> []" using ms by auto
    let ?s1 = "(fst (bg_unwatch_pid pid s))\<lparr>bg_jobs := (bg_jobs s)[i := sync_job_stopped ?j1]\<rparr>"
    have jj: "bg_jobs ?s1 ! i = sync_job_stopped ?j1" using i by simp
    have "mset (map bp_pid (procs (sync_job_stopped ?j1))) = mset (map fst ex)"
      using ms by (simp add: sync_job_stopped_def)
    moreover have "set (map bp_pid (procs ?j1)) \<subseteq> set (map bp_pid (procs ?j))"
      by (auto simp: p1 delete_at_def dest: in_set_takeD in_set_dropD)
    moreover have "distinct (map bp_pid (procs ?j1))"
      using mset_eq_imp_distinct_iff [OF ms] mset_eq_imp_distinct_iff [OF Cons.prems(3)] dj by simp
    ultimately have "\<exists>s'. record_all ex (?s1, r) = (s', r + 1) \<and> bg_jobs s' = delete_at i (bg_jobs ?s1)
      \<and> outs s' = outs ?s1 @ exit_line (final_status ex (bg_jobs ?s1 ! i)) (bg_jobs ?s1 ! i)"
      using Cons.prems(1,4) False jj
      by (intro Cons.IH) (auto 0 3 intro!: own_pids_update simp: sync_job_stopped_def image_subset_iff)
    moreover have "delete_at i (bg_jobs ?s1) = delete_at i (bg_jobs s)"
      using i by (simp add: delete_at_def)
    moreover have "map_of ex pid = None" using dex by (simp add: map_of_eq_None_iff)
    then have "final_status ex (sync_job_stopped ?j1) = final_status (e # ex) ?j"
      using False e by (auto simp: final_status_def sync_job_stopped_def job_exit_def Let_def split: option.split)
    moreover have "exit_line x (sync_job_stopped ?j1) = exit_line x ?j" for x
      by (simp add: exit_line_def sync_job_stopped_def job_exit_def Let_def split: wstatus.split)
    ultimately show ?thesis using ne rec e jj by simp
  qed
qed simp

text \<open>
  when all processes of a job exit, in whatever order their statuses are
  collected, exactly one completion line is printed; it names the first command
  of the job, and says \<open>normally\<close> or \<open>abnormally\<close> after the status of that
  command even when it was not the last to exit.  The job disappears from the
  table and no other job changes.
\<close>

theorem one_completion_message_per_job:
  assumes "own_pids i (bg_jobs s)" "ex \<noteq> []"
    "mset (map fst ex) = mset (map bp_pid (procs (bg_jobs s ! i)))"
    "\<forall>(p, st) \<in> set ex. ends_watch st" "lead_pid (bg_jobs s ! i) \<in> set (map fst ex)"
  shows "\<exists>s' st. record_all ex (s, 0) = (s', 1) \<and> bg_jobs s' = delete_at i (bg_jobs s)
    \<and> (lead_pid (bg_jobs s ! i), st) \<in> set ex
    \<and> outs s' = outs s @ [case st of
          Exited _ \<Rightarrow> OutExitedNormally (lead_name (bg_jobs s ! i)) (lead_pid (bg_jobs s ! i))
        | _ \<Rightarrow> OutExitedAbnormally (lead_name (bg_jobs s ! i)) (lead_pid (bg_jobs s ! i))]"
proof -
  let ?j = "bg_jobs s ! i"
  from assms(5) obtain st where m: "map_of ex (lead_pid ?j) = Some st"
    by (metis map_of_eq_None_iff not_None_eq list.set_map)
  then have "(lead_pid ?j, st) \<in> set ex" by (rule map_of_SomeD)
  moreover from this assms(4) have "ends_watch st" by auto
  then have "exit_line (final_status ex ?j) ?j = [case st of
          Exited _ \<Rightarrow> OutExitedNormally (lead_name ?j) (lead_pid ?j)
        | _ \<Rightarrow> OutExitedAbnormally (lead_name ?j) (lead_pid ?j)]"
    using m by (auto simp: final_status_def exit_line_def ends_watch_def split: wstatus.splits)
  ultimately show ?thesis using exits_one_message [OF assms(1-4), of 0] by auto
qed

theorem one_completion_message_per_job_witness:
  "\<exists>s. s = register_bg_group 42 [42, 43] [''cat'', ''sort''] None init_bg \<and> own_pids 0 (bg_jobs s)
   \<and> [(43, Exited 0), (42, Signaled 9)] \<noteq> []
   \<and> mset (map fst [(43, Exited 0), (42, Signaled 9)]) = mset (map bp_pid (procs (bg_jobs s ! 0)))
   \<and> (\<forall>(p, st) \<in> set [(43 :: int, Exited 0), (42, Signaled 9)]. ends_watch st)
   \<and> lead_pid (bg_jobs s ! 0) \<in> set (map fst [(43, Exited 0), (42, Signaled 9)])
   \<and> snd (record_all [(43, Exited 0), (42, Signaled 9)] (s, 0)) = 1"
proof -
  let ?s = "register_bg_group 42 [42, 43] [''cat'', ''sort''] None init_bg"
  let ?ex = "[(43, Exited 0), (42, Signaled 9)]"
  have j: "bg_jobs ?s = [\<lparr>job_number = 1, pgid = 42, lead_pid = 42, lead_name = ''cat'', cmdline = ''cat'',
      lead_status = Exited 0, lead_reaped = False, last_status = Exited 0, j_stopped = False,
      procs = [\<lparr>bp_pid = 42, command_name = ''cat'', bp_stopped = False\<rparr>,
               \<lparr>bp_pid = 43, command_name = ''sort'', bp_stopped = False\<rparr>]\<rparr>]"
    by (simp add: register_bg_group_def add_job_def init_bg_def MAX_BG_JOBS_def MAX_JOB_PROCS_def
        BG_NAME_MAX_def BG_CMD_MAX_def upt_rec Let_def)
  have h: "own_pids 0 (bg_jobs ?s)" "?ex \<noteq> []" "mset (map fst ?ex) = mset (map bp_pid (procs (bg_jobs ?s ! 0)))"
    "\<forall>(p, st) \<in> set ?ex. ends_watch st" "lead_pid (bg_jobs ?s ! 0) \<in> set (map fst ?ex)"
    by (simp_all add: j own_pids_def ends_watch_def)
  from one_completion_message_per_job [OF h] h show ?thesis by auto
qed

end
