(* ===== verification/Job_Commands.thy ===== *)
theory Job_Commands
  imports Jobs
begin

text \<open>
  The built-in commands that act on jobs: \<open>ping\<close> (\<open>c-shell/src/ping.c\<close>),
  \<open>resume\<close> (\<open>resume.c\<close>) and \<open>activities\<close> (\<open>activities.c\<close>).  \<open>argv\<close> is the list of
  words, \<open>argc\<close> its length.  What the operating system answers is an argument:
  whether \<open>kill\<close> fails with \<open>ESRCH\<close>, the successive results of \<open>waitpid\<close>, and the
  state character \<open>/proc\<close> shows for a pid.
\<close>

section \<open>Numbers\<close>

definition digit :: "char \<Rightarrow> int" where
  "digit c = of_char c - of_char CHR ''0''"

definition isdigit :: "char \<Rightarrow> bool" where
  "isdigit c = (0 \<le> digit c \<and> digit c \<le> 9)"

fun parse_signal_from :: "int \<Rightarrow> string \<Rightarrow> int" where
  "parse_signal_from reduced [] = reduced"
| "parse_signal_from reduced (c # p) =
     (if \<not> isdigit c then -1 else parse_signal_from ((reduced * 10 + digit c) mod 64) p)"

definition parse_signal :: "string \<Rightarrow> int" where
  "parse_signal s = (if s = [] then -1 else parse_signal_from 0 s)"

fun parse_positive_from :: "int \<Rightarrow> string \<Rightarrow> int" where
  "parse_positive_from val [] = val"
| "parse_positive_from val (c # p) =
     (if \<not> isdigit c then 0
      else let v = val * 10 + digit c in if v > 0x7fffffff then 0 else parse_positive_from v p)"

definition parse_positive :: "string \<Rightarrow> int" where
  "parse_positive s = (if s = [] then 0 else parse_positive_from 0 s)"

fun parse_job_from :: "int \<Rightarrow> string \<Rightarrow> int" where
  "parse_job_from val [] = val"
| "parse_job_from val (c # p) =
     (if \<not> isdigit c then -1
      else parse_job_from (if val \<le> 1000000 then val * 10 + digit c else val) p)"

definition parse_job_number :: "string \<Rightarrow> int" where
  "parse_job_number s =
     (case s of [] \<Rightarrow> -1 | c # p \<Rightarrow>
        if c \<noteq> CHR ''%'' then -1 else if p = [] then -1 else parse_job_from 0 p)"

fun parse_seconds_from :: "int \<Rightarrow> string \<Rightarrow> int" where
  "parse_seconds_from val [] = val"
| "parse_seconds_from val (c # p) =
     (if \<not> isdigit c then 0
      else let v = val * 10 + digit c in if v > 100000 then 0 else parse_seconds_from v p)"

definition parse_seconds :: "string \<Rightarrow> int" where
  "parse_seconds s = (if s = [] then 0 else parse_seconds_from 0 s)"

section \<open>Ping\<close>

definition find_job_by_pid :: "int \<Rightarrow> shell \<Rightarrow> BgJob option" where
  "find_job_by_pid pid s =
     map_option (\<lambda>i. bg_jobs s ! i) (find_idx (\<lambda>j. list_ex (\<lambda>p. bp_pid p = pid) (procs j)) (bg_jobs s))"

definition is_stop_signal :: "int \<Rightarrow> bool" where
  "is_stop_signal sig = (sig = 19 \<or> sig = 20 \<or> sig = 21 \<or> sig = 22)"

text \<open>The destination of \<open>kill\<close> (0 for none) and the job it belongs to.\<close>

definition ping_target :: "string \<Rightarrow> shell \<Rightarrow> BgJob option \<times> int" where
  "ping_target target s =
     (if target \<noteq> [] \<and> hd target = CHR ''%'' then
        let num = parse_positive (tl target);
            job = (if num > 0 then bg_find_job num s else None)
        in (job, case job of Some j \<Rightarrow> if procs j \<noteq> [] then - pgid j else 0 | None \<Rightarrow> 0)
      else
        let pid = parse_positive target;
            job = (if pid > 0 then find_job_by_pid pid s else None)
        in (job, case job of Some j \<Rightarrow> pid | None \<Rightarrow> 0))"

definition ping_update :: "bool \<Rightarrow> int \<Rightarrow> BgJob \<Rightarrow> shell \<Rightarrow> shell" where
  "ping_update by_job sig job s =
     (if procs job \<noteq> [] \<and> (by_job \<or> length (procs job) = 1) then
        if sig = SIGCONT then bg_set_running (job_number job) s
        else if is_stop_signal sig then bg_set_stopped (job_number job) (map bp_pid (procs job)) s
        else s
      else s)"

definition ping :: "(int \<times> wstatus) list \<Rightarrow> bool \<Rightarrow> string list \<Rightarrow> shell \<Rightarrow> shell" where
  "ping sweep esrch argv s =
     (if length argv \<noteq> 3 then emit [OutErr ''ping: invalid syntax''] s
      else let sig = parse_signal (argv ! 2) in
        if sig < 0 then emit [OutErr ''ping: invalid syntax''] s
        else
          let s1 = fst (check_bg_jobs sweep s);
              target = argv ! 1;
              by_job = (target \<noteq> [] \<and> hd target = CHR ''%'')
          in case ping_target target s1 of
               (None, _) \<Rightarrow> emit [OutErr ''ping: no such process found''] s1
             | (Some job, dest) \<Rightarrow>
                 if dest = 0 then emit [OutErr ''ping: no such process found''] s1
                 else let s2 = emit [OutKill dest sig] s1 in
                   if esrch then emit [OutErr ''ping: no such process found''] s2
                   else emit [OutSent (argv ! 2) target] (ping_update by_job sig job s2))"

section \<open>Resume\<close>

definition resume_bg :: "BgJob \<Rightarrow> shell \<Rightarrow> shell" where
  "resume_bg job s =
     emit [OutKill (- pgid job) SIGCONT,
           OutJobRunning (job_number job) (take (BG_CMD_MAX - 1) (cmdline job))]
       (bg_set_running (job_number job) s)"

text \<open>
  A result of \<open>waitpid\<close> on one process: a status, an interruption (with the
  value \<open>alarm_fired\<close> then has) or another failure.  The list of results is what
  the calls return, in order; \<open>None\<close> says that they are used up while the shell
  still waits.
\<close>

datatype wres = WStatus wstatus | WEintr bool | WFail

datatype fg_result = FStopped | FGone | FTimedOut

fun wait_one :: "bool \<Rightarrow> wres list \<Rightarrow> (fg_result \<times> wres list) option" where
  "wait_one timed [] = None"
| "wait_one timed (WStatus st # r) = Some (if is_stop st then FStopped else FGone, r)"
| "wait_one timed (WEintr fired # r) = (if timed \<and> fired then Some (FTimedOut, r) else wait_one timed r)"
| "wait_one timed (WFail # r) = Some (FGone, r)"

text \<open>The pids left in the array, the stopped ones, and whether the wait timed out.\<close>

fun wait_group :: "bool \<Rightarrow> int list \<Rightarrow> wres list \<Rightarrow> (int list \<times> int list \<times> bool) option" where
  "wait_group timed [] r = Some ([], [], False)"
| "wait_group timed (pid # ps) r =
     (if pid \<le> 0 then map_option (\<lambda>(qs, st, t). (pid # qs, st, t)) (wait_group timed ps r)
      else case wait_one timed r of
             None \<Rightarrow> None
           | Some (FStopped, r') \<Rightarrow> map_option (\<lambda>(qs, st, t). (pid # qs, pid # st, t)) (wait_group timed ps r')
           | Some (FGone, r') \<Rightarrow> map_option (\<lambda>(qs, st, t). (0 # qs, st, t)) (wait_group timed ps r')
           | Some (FTimedOut, r') \<Rightarrow> Some (pid # ps, [], True))"

text \<open>Up to the wait, and after it; \<open>tty\<close> is \<open>term_is_tty()\<close>.\<close>

definition resume_start :: "BgJob \<Rightarrow> int \<Rightarrow> shell \<Rightarrow> shell" where
  "resume_start job timeout_secs s =
     emit ([OutTermGive (pgid job), OutKill (- pgid job) SIGCONT]
           @ (if timeout_secs > 0 then [OutAlarm timeout_secs] else []))
       (bg_set_running (job_number job)
         (emit [OutLine (take (BG_CMD_MAX - 1) (cmdline job))]
           (fold (\<lambda>p s. fst (bg_unwatch_pid p s)) (map bp_pid (procs job)) s)))"

definition resume_finish :: "bool \<Rightarrow> BgJob \<Rightarrow> int \<Rightarrow> int list \<times> int list \<times> bool \<Rightarrow> shell \<Rightarrow> shell" where
  "resume_finish tty job timeout_secs w s =
     (let (pids, stopped, timed_out) = w;
          s1 = emit (if timeout_secs > 0 then [OutAlarm 0] else []) s
      in if timed_out then
           fold bg_watch_pid pids
             (bg_remove_job (job_number job)
               (emit [OutKill (- pgid job) SIGTERM, OutTermTake, OutErr ''resume: job timed out''] s1))
         else if stopped \<noteq> [] then
           emit ((if tty then [OutLine []] else [])
                 @ [OutJobStopped (job_number job) (take (BG_CMD_MAX - 1) (cmdline job))])
             (bg_set_stopped (job_number job) stopped (emit [OutTermTake] s1))
         else bg_remove_job (job_number job) (emit [OutTermTake] s1))"

definition resume_fg :: "bool \<Rightarrow> wres list \<Rightarrow> BgJob \<Rightarrow> int \<Rightarrow> shell \<Rightarrow> shell option" where
  "resume_fg tty ws job timeout_secs s =
     map_option (\<lambda>w. resume_finish tty job timeout_secs w (resume_start job timeout_secs s))
       (wait_group (timeout_secs > 0) (map bp_pid (procs job)) ws)"

definition resume :: "bool \<Rightarrow> wres list \<Rightarrow> string list \<Rightarrow> shell \<Rightarrow> shell option" where
  "resume tty ws argv s =
     (let argc = length argv; bad = Some (emit [OutErr ''resume: invalid syntax''] s) in
      if argc < 3 \<or> argc > 5 then bad
      else let num = parse_job_number (argv ! 1) in
        if num < 0 then bad
        else if argv ! 2 \<noteq> ''fg'' \<and> argv ! 2 \<noteq> ''bg'' then bad
        else let is_fg = (argv ! 2 = ''fg'') in
          if argc > 3 \<and> (\<not> is_fg \<or> argc \<noteq> 5 \<or> argv ! 3 \<noteq> ''--timeout'' \<or> parse_seconds (argv ! 4) \<le> 0) then bad
          else let timeout_secs = (if argc > 3 then parse_seconds (argv ! 4) else 0) in
            case bg_find_job num s of
              None \<Rightarrow> Some (emit [OutErr ''resume: no such job''] s)
            | Some job \<Rightarrow>
                if procs job = [] then Some (emit [OutErr ''resume: no such job''] s)
                else if is_fg then resume_fg tty ws job timeout_secs s
                else Some (resume_bg job s))"

section \<open>Activities\<close>

text \<open>
  \<open>read\<close> of \<open>/proc/<pid>/stat\<close>: \<open>None\<close> when the file cannot be opened, else its
  text.  The state is the first character after the last closing parenthesis.
\<close>

definition proc_state_char :: "string option \<Rightarrow> char option" where
  "proc_state_char contents =
     (case contents of
        None \<Rightarrow> None
      | Some txt \<Rightarrow>
          let buf = take 511 txt in
          if CHR '')'' \<notin> set buf then None
          else (case dropWhile (\<lambda>c. c = CHR '' '') (rev (takeWhile (\<lambda>c. c \<noteq> CHR '')'') (rev buf))) of
                  [] \<Rightarrow> None
                | c # _ \<Rightarrow> Some c))"

text \<open>\<open>procfs\<close> is \<open>None\<close> where \<open>/proc\<close> is not mounted, else what it holds for a pid.\<close>

definition activity_lines :: "(int \<Rightarrow> string option) option \<Rightarrow> BgJob \<Rightarrow> out_event list" where
  "activity_lines procfs j =
     (if procs j = [] then []
      else OutJobHeader (job_number j) (pgid j)
        # concat (map (\<lambda>p. case procfs of
              None \<Rightarrow> [OutProcLine (bp_pid p) (command_name p) (bp_stopped p)]
            | Some f \<Rightarrow> (case proc_state_char (f (bp_pid p)) of
                  None \<Rightarrow> []
                | Some c \<Rightarrow> [OutProcLine (bp_pid p) (command_name p) (c = CHR ''T'' \<or> c = CHR ''t'')]))
            (procs j)))"

definition activities ::
  "(int \<times> wstatus) list \<Rightarrow> (int \<Rightarrow> string option) option \<Rightarrow> string list \<Rightarrow> shell \<Rightarrow> shell" where
  "activities sweep procfs argv s =
     (if length argv \<noteq> 1 then emit [OutErr ''activities: invalid syntax''] s
      else let s1 = fst (check_bg_jobs sweep s) in
        emit (concat (map (activity_lines procfs) (bg_jobs s1))) s1)"

section \<open>The number parsers\<close>

definition decimal :: "string \<Rightarrow> int" where
  "decimal s = foldl (\<lambda>v c. v * 10 + digit c) 0 s"

lemma decimal_snoc: "decimal (s @ [c]) = decimal s * 10 + digit c"
  by (simp add: decimal_def)

lemma foldl_digits_mono:
  "list_all isdigit s \<Longrightarrow> 0 \<le> v \<Longrightarrow> v \<le> foldl (\<lambda>v c. v * 10 + digit c) v s"
proof (induction s arbitrary: v)
  case (Cons c s)
  then have "0 \<le> digit c" by (simp add: isdigit_def)
  with Cons.prems(2) have "v \<le> v * 10 + digit c" "0 \<le> v * 10 + digit c" by simp_all
  with Cons.IH [of "v * 10 + digit c"] Cons.prems(1) show ?case by simp
qed simp

lemma foldl_digits_mod:
  "foldl (\<lambda>v c. v * 10 + digit c) (v mod 64) s mod 64 = foldl (\<lambda>v c. v * 10 + digit c) v s mod 64"
proof (induction s arbitrary: v)
  case (Cons c s)
  have "foldl (\<lambda>v c. v * 10 + digit c) (v mod 64 * 10 + digit c) s mod 64
      = foldl (\<lambda>v c. v * 10 + digit c) ((v mod 64 * 10 + digit c) mod 64) s mod 64"
    by (rule Cons.IH [symmetric])
  also have "(v mod 64 * 10 + digit c) mod 64 = (v * 10 + digit c) mod 64"
    by (metis mod_add_left_eq mod_mult_left_eq)
  finally show ?case using Cons.IH [of "v * 10 + digit c"] by simp
qed simp

lemma parse_signal_from:
  "0 \<le> r \<Longrightarrow> r < 64 \<Longrightarrow> parse_signal_from r s =
     (if list_all isdigit s then foldl (\<lambda>v c. v * 10 + digit c) r s mod 64 else -1)"
proof (induction s arbitrary: r)
  case (Cons c s)
  then show ?case using foldl_digits_mod [of "r * 10 + digit c" s] by simp
qed simp

lemma capped_parse:
  assumes "\<And>v. P v [] = v"
    "\<And>v c p. P v (c # p) = (if \<not> isdigit c then 0 else let v' = v * 10 + digit c in if v' > m then 0 else P v' p)"
  shows "0 \<le> v \<Longrightarrow> v \<le> m \<Longrightarrow> P v s =
     (if list_all isdigit s \<and> foldl (\<lambda>v c. v * 10 + digit c) v s \<le> m
      then foldl (\<lambda>v c. v * 10 + digit c) v s else 0)"
proof (induction s arbitrary: v)
  case (Cons c s)
  show ?case
  proof (cases "isdigit c \<and> v * 10 + digit c \<le> m")
    case True
    then have "0 \<le> v * 10 + digit c" using Cons.prems(1) by (simp add: isdigit_def)
    with True Cons.IH [of "v * 10 + digit c"] show ?thesis by (simp add: assms Let_def)
  next
    case False
    have "v * 10 + digit c \<le> foldl (\<lambda>v c. v * 10 + digit c) (v * 10 + digit c) s"
      if "isdigit c" "list_all isdigit s"
      using that Cons.prems(1) by (intro foldl_digits_mono) (auto simp: isdigit_def)
    with False show ?thesis by (auto simp: assms Let_def)
  qed
qed (simp add: assms)

lemma parse_job_from:
  "0 \<le> v \<Longrightarrow> v \<le> 10000009 \<Longrightarrow> list_all isdigit s \<Longrightarrow>
   \<exists>n. parse_job_from v s = foldl (\<lambda>v c. v * 10 + digit c) v (take n s)
     \<and> 0 \<le> parse_job_from v s \<and> parse_job_from v s \<le> 10000009
     \<and> (foldl (\<lambda>v c. v * 10 + digit c) v s \<le> 10000009 \<longrightarrow> parse_job_from v s = foldl (\<lambda>v c. v * 10 + digit c) v s)
     \<and> (10000009 < foldl (\<lambda>v c. v * 10 + digit c) v s \<longrightarrow> 1000000 < parse_job_from v s)"
proof (induction s arbitrary: v)
  case (Cons c s)
  have d: "0 \<le> digit c" "digit c \<le> 9" "isdigit c" "list_all isdigit s"
    using Cons.prems(3) by simp_all (simp_all add: isdigit_def)
  show ?case
  proof (cases "v \<le> 1000000")
    case True
    then have "0 \<le> v * 10 + digit c" "v * 10 + digit c \<le> 10000009" using d Cons.prems(1) by simp_all
    from Cons.IH [OF this d(4)] obtain n where
      "parse_job_from (v * 10 + digit c) s = foldl (\<lambda>v c. v * 10 + digit c) (v * 10 + digit c) (take n s)
       \<and> 0 \<le> parse_job_from (v * 10 + digit c) s \<and> parse_job_from (v * 10 + digit c) s \<le> 10000009
       \<and> (foldl (\<lambda>v c. v * 10 + digit c) (v * 10 + digit c) s \<le> 10000009 \<longrightarrow>
            parse_job_from (v * 10 + digit c) s = foldl (\<lambda>v c. v * 10 + digit c) (v * 10 + digit c) s)
       \<and> (10000009 < foldl (\<lambda>v c. v * 10 + digit c) (v * 10 + digit c) s \<longrightarrow>
            1000000 < parse_job_from (v * 10 + digit c) s)" by blast
    then show ?thesis using True d by (intro exI [of _ "Suc n"]) auto
  next
    case False
    have stuck: "parse_job_from v t = v" if "list_all isdigit t" for t
      using that False by (induction t) simp_all
    have "v * 10 + digit c \<le> foldl (\<lambda>v c. v * 10 + digit c) v (c # s)"
      using foldl_digits_mono [OF d(4), of "v * 10 + digit c"] d Cons.prems(1) by simp
    moreover have "10000010 \<le> v * 10 + digit c" using False d by simp
    ultimately show ?thesis
      using stuck [of s] d False Cons.prems by (intro exI [of _ 0]) auto
  qed
qed (auto intro: exI [of _ 0])

lemma number_arguments_signal:
  "parse_signal s = (if s \<noteq> [] \<and> list_all isdigit s then decimal s mod 64 else -1)"
  using parse_signal_from [of 0 s] by (simp add: parse_signal_def decimal_def)

text \<open>
  the number arguments of \<open>ping\<close> and \<open>resume\<close>.  A signal is the value of
  the digits modulo 64, however many there are; a pid or a job number of \<open>ping\<close>
  is the value of the digits if it fits an \<open>int\<close> and 0 otherwise; a timeout is at
  most 100000 seconds.  A job number of \<open>resume\<close> is exact up to 10000009; a longer
  one is cut to some of its leading digits but is still above a million, and no
  intermediate value overflows.
\<close>

theorem number_arguments:
  "parse_signal s = (if s \<noteq> [] \<and> list_all isdigit s then decimal s mod 64 else -1)
   \<and> parse_positive s = (if s \<noteq> [] \<and> list_all isdigit s \<and> decimal s \<le> 2 ^ 31 - 1 then decimal s else 0)
   \<and> parse_seconds s = (if s \<noteq> [] \<and> list_all isdigit s \<and> decimal s \<le> 100000 then decimal s else 0)
   \<and> (parse_job_number (CHR ''%'' # s) < 0 \<longleftrightarrow> s = [] \<or> \<not> list_all isdigit s)
   \<and> (s \<noteq> [] \<and> list_all isdigit s \<longrightarrow>
        (if decimal s \<le> 10000009 then parse_job_number (CHR ''%'' # s) = decimal s
         else \<exists>n. parse_job_number (CHR ''%'' # s) = decimal (take n s)
           \<and> 1000000 < decimal (take n s) \<and> decimal (take n s) \<le> 10000009))"
proof (intro conjI)
  show "parse_signal s = (if s \<noteq> [] \<and> list_all isdigit s then decimal s mod 64 else -1)"
    by (rule number_arguments_signal)
  show "parse_positive s = (if s \<noteq> [] \<and> list_all isdigit s \<and> decimal s \<le> 2 ^ 31 - 1 then decimal s else 0)"
    using capped_parse [of parse_positive_from "2 ^ 31 - 1" 0 s]
    by (auto simp: parse_positive_def decimal_def)
  show "parse_seconds s = (if s \<noteq> [] \<and> list_all isdigit s \<and> decimal s \<le> 100000 then decimal s else 0)"
    using capped_parse [of parse_seconds_from 100000 0 s] by (auto simp: parse_seconds_def decimal_def)
  have neg: "parse_job_from v t = -1" if "\<not> list_all isdigit t" for v t
    using that by (induction t arbitrary: v) auto
  then show "parse_job_number (CHR ''%'' # s) < 0 \<longleftrightarrow> s = [] \<or> \<not> list_all isdigit s"
    using parse_job_from [of 0 s] by (auto simp: parse_job_number_def)
  show "s \<noteq> [] \<and> list_all isdigit s \<longrightarrow>
        (if decimal s \<le> 10000009 then parse_job_number (CHR ''%'' # s) = decimal s
         else \<exists>n. parse_job_number (CHR ''%'' # s) = decimal (take n s)
           \<and> 1000000 < decimal (take n s) \<and> decimal (take n s) \<le> 10000009)"
  proof
    assume s: "s \<noteq> [] \<and> list_all isdigit s"
    then have j: "parse_job_number (CHR ''%'' # s) = parse_job_from 0 s" by (simp add: parse_job_number_def)
    obtain n where "parse_job_from 0 s = decimal (take n s) \<and> parse_job_from 0 s \<le> 10000009
        \<and> (decimal s \<le> 10000009 \<longrightarrow> parse_job_from 0 s = decimal s)
        \<and> (10000009 < decimal s \<longrightarrow> 1000000 < parse_job_from 0 s)"
      using parse_job_from [of 0 s] s unfolding decimal_def by auto
    then show "if decimal s \<le> 10000009 then parse_job_number (CHR ''%'' # s) = decimal s
         else \<exists>n. parse_job_number (CHR ''%'' # s) = decimal (take n s)
           \<and> 1000000 < decimal (take n s) \<and> decimal (take n s) \<le> 10000009"
      unfolding j by (auto intro!: exI [of _ n])
  qed
qed

theorem number_arguments_witness:
  "parse_signal ''00000000000000000000073'' = 9 \<and> parse_job_number ''%12'' = 12"
  using number_arguments [of "''00000000000000000000073''"] number_arguments [of "''12''"]
  by (simp add: decimal_def digit_def isdigit_def)

section \<open>What ping does\<close>

lemma find_job_by_pid_Some:
  assumes "find_job_by_pid pid s = Some j"
  shows "j \<in> set (bg_jobs s)" "pid \<in> set (map bp_pid (procs j))"
proof -
  from assms obtain i where "find_idx (\<lambda>j. list_ex (\<lambda>p. bp_pid p = pid) (procs j)) (bg_jobs s) = Some i" "j = bg_jobs s ! i"
    by (auto simp: find_job_by_pid_def)
  with find_idx_SomeD [OF this(1)] show "j \<in> set (bg_jobs s)" "pid \<in> set (map bp_pid (procs j))"
    by (auto simp: list_ex_iff)
qed

lemma bg_find_job_Some:
  assumes "bg_find_job num s = Some j"
  shows "j \<in> set (bg_jobs s)" "job_number j = num"
proof -
  from assms obtain i where "find_idx (\<lambda>j. job_number j = num) (bg_jobs s) = Some i" "j = bg_jobs s ! i"
    by (auto simp: bg_find_job_def find_mutable_def)
  with find_idx_SomeD [OF this(1)] show "j \<in> set (bg_jobs s)" "job_number j = num" by auto
qed

lemma ping_target_tracked:
  assumes "ping_target target s = (Some j, d)" "d \<noteq> 0"
  shows "j \<in> set (bg_jobs s) \<and> procs j \<noteq> [] \<and>
    (if target \<noteq> [] \<and> hd target = CHR ''%'' then d = - pgid j \<and> job_number j = parse_positive (tl target)
     else d \<in> set (map bp_pid (procs j)) \<and> d = parse_positive target)"
proof (cases "target \<noteq> [] \<and> hd target = CHR ''%''")
  case True
  with assms have "bg_find_job (parse_positive (tl target)) s = Some j" "d = - pgid j" "procs j \<noteq> []"
    by (auto simp: ping_target_def Let_def split: if_splits)
  with True bg_find_job_Some show ?thesis by auto
next
  case False
  with assms have f: "find_job_by_pid (parse_positive target) s = Some j" "d = parse_positive target"
    by (simp_all add: ping_target_def Let_def split: if_splits option.splits)
  with False find_job_by_pid_Some [OF f(1)] show ?thesis by auto
qed

lemma reach_ping_update: "shell_reachable s \<Longrightarrow> shell_reachable (ping_update b sig j s)"
  unfolding ping_update_def by (auto intro: sr_step shell_step.intros)

lemma outs_ping_update [simp]: "outs (ping_update b sig j s) = outs s"
  by (simp add: ping_update_def bg_set_running_def bg_set_stopped_def Let_def split: option.split)

lemma reach_emit: "shell_reachable s \<Longrightarrow> shell_reachable (emit es s)"
  by (rule sr_step [OF _ s_emit])

lemma reach_check: "shell_reachable s \<Longrightarrow> shell_reachable (fst (check_bg_jobs sweep s))"
  by (rule sr_step [OF _ s_check])

lemma parse_signal_range: "parse_signal s < 64"
  using number_arguments_signal [of s] by simp

lemma emit_emit [simp]: "emit es (emit fs s) = emit (fs @ es) s"
  by (simp add: emit_def)

text \<open>
  \<open>ping\<close> signals nothing but processes of the job table.  It either prints
  one error line, or, after collecting the processes that have exited, sends one
  signal, the typed number modulo 64: to the group of the job with the typed
  number, which has live processes, or to the one live process with the typed
  pid.  The line it prints repeats the arguments as typed, and the job table
  stays a reachable one.
\<close>

theorem ping_signals_only_tracked:
  assumes "shell_reachable s"
  shows "shell_reachable (ping sweep esrch argv s) \<and>
    ((\<exists>msg. ping sweep esrch argv s = emit [OutErr msg] s)
     \<or> (\<exists>msg. ping sweep esrch argv s = emit [OutErr msg] (fst (check_bg_jobs sweep s)))
     \<or> (\<exists>j \<in> set (bg_jobs (fst (check_bg_jobs sweep s))). \<exists>d. procs j \<noteq> []
          \<and> (argv ! 1 = CHR ''%'' # tl (argv ! 1) \<and> job_number j = parse_positive (tl (argv ! 1)) \<and> d = - pgid j
             \<or> d \<in> set (map bp_pid (procs j)) \<and> d = parse_positive (argv ! 1))
          \<and> list_all isdigit (argv ! 2)
          \<and> outs (ping sweep esrch argv s) = outs (fst (check_bg_jobs sweep s)) @
              [OutKill d (decimal (argv ! 2) mod 64),
               if esrch then OutErr ''ping: no such process found'' else OutSent (argv ! 2) (argv ! 1)]))"
proof -
  let ?s1 = "fst (check_bg_jobs sweep s)" and ?p = "ping sweep esrch argv s"
  consider (bad) "length argv \<noteq> 3 \<or> parse_signal (argv ! 2) < 0"
    | (none) "length argv = 3" "\<not> parse_signal (argv ! 2) < 0" "\<And>j d. ping_target (argv ! 1) ?s1 = (Some j, d) \<Longrightarrow> d = 0"
    | (found) j d where "length argv = 3" "\<not> parse_signal (argv ! 2) < 0" "ping_target (argv ! 1) ?s1 = (Some j, d)" "d \<noteq> 0"
    by blast
  then show ?thesis
  proof cases
    case bad
    then have "?p = emit [OutErr ''ping: invalid syntax''] s" by (auto simp: ping_def)
    then show ?thesis using reach_emit [OF assms] by metis
  next
    case none
    then have "?p = emit [OutErr ''ping: no such process found''] ?s1"
      by (auto simp: ping_def Let_def split: option.split prod.split)
    then show ?thesis using reach_emit [OF reach_check [OF assms]] by metis
  next
    case (found j d)
    let ?sig = "parse_signal (argv ! 2)" and ?t = "argv ! 1"
    let ?b = "?t \<noteq> [] \<and> hd ?t = CHR ''%''"
    have p: "?p = (if esrch then emit [OutErr ''ping: no such process found''] (emit [OutKill d ?sig] ?s1)
        else emit [OutSent (argv ! 2) ?t] (ping_update ?b ?sig j (emit [OutKill d ?sig] ?s1)))"
      using found by (simp add: ping_def Let_def)
    have sg: "list_all isdigit (argv ! 2)" "?sig = decimal (argv ! 2) mod 64"
      using found(2) number_arguments_signal [of "argv ! 2"] by (auto split: if_splits)
    have o: "outs ?p = outs ?s1 @ [OutKill d (decimal (argv ! 2) mod 64),
        if esrch then OutErr ''ping: no such process found'' else OutSent (argv ! 2) ?t]"
      unfolding p sg(2) [symmetric] by simp
    have r: "shell_reachable ?p"
      unfolding p by (auto intro!: reach_emit reach_ping_update reach_check assms simp del: emit_emit)
    from ping_target_tracked [OF found(3,4)] have
      "j \<in> set (bg_jobs ?s1)" "procs j \<noteq> []"
      "?t = CHR ''%'' # tl ?t \<and> job_number j = parse_positive (tl ?t) \<and> d = - pgid j
       \<or> d \<in> set (map bp_pid (procs j)) \<and> d = parse_positive ?t"
      by (cases ?t; auto split: if_splits)+
    then show ?thesis using r sg(1) o by blast
  qed
qed

section \<open>What activities shows\<close>

text \<open>
  the state \<open>activities\<close> shows for a process is the field after the command
  name, even when the name itself holds blanks or parentheses, as long as the
  line fits the buffer up to that field.
\<close>

theorem state_char_of_stat_line:
  assumes "pre = num @ '' ('' @ name @ '') '' @ [c]" "length pre \<le> 511" "CHR '')'' \<notin> set rest" "c \<notin> {CHR '' '', CHR '')''}"
  shows "proc_state_char (Some (pre @ rest)) = Some c"
proof -
  let ?r = "take (511 - length pre) rest"
  let ?h = "num @ '' ('' @ name"
  have b: "take 511 (pre @ rest) = ?h @ CHR '')'' # CHR '' '' # c # ?r"
    using assms(1,2) by (simp add: take_Cons' )
  have "CHR '')'' \<notin> set ?r" using assms(3) by (meson in_set_takeD)
  then have "takeWhile (\<lambda>x. x \<noteq> CHR '')'') (rev ?r @ (c # CHR '' '' # CHR '')'' # rev ?h)) = rev ?r @ [c, CHR '' '']"
    using assms(4) by (subst takeWhile_append2) auto
  then show ?thesis using assms(4) unfolding proc_state_char_def option.case Let_def b by simp
qed

theorem state_char_of_stat_line_witness:
  "proc_state_char (Some ''42 (a) Z b)) T 1 42'') = Some CHR ''T''"
  using state_char_of_stat_line [where num = "''42''" and name = "''a) Z b)''" and c = "CHR ''T''" and rest = "'' 1 42''", OF refl]
  by simp

definition cat_job :: BgJob where
  "cat_job = \<lparr>job_number = 1, pgid = 42, lead_pid = 42, lead_name = ''cat'', cmdline = ''cat'',
     lead_status = Exited 0, lead_reaped = False, last_status = Exited 0, j_stopped = False,
     procs = [\<lparr>bp_pid = 42, command_name = ''cat'', bp_stopped = False\<rparr>]\<rparr>"

definition one_job :: shell where
  "one_job = register_bg_job 42 (Some ''cat'') None init_bg"

lemma one_job_reachable: "shell_reachable one_job"
  unfolding one_job_def register_bg_job_def by (rule sr_step [OF sr_init s_launch])

lemma one_job_eq:
  "one_job = \<lparr>bg_jobs = [cat_job], next_job_number = 1, watched = [42], reaped = [], outs = [OutJobStarted 1 42]\<rparr>"
  by (simp add: one_job_def register_bg_job_def register_bg_group_def add_job_def init_bg_def MAX_BG_JOBS_def
      MAX_JOB_PROCS_def BG_NAME_MAX_def BG_CMD_MAX_def cat_job_def bg_watch_pid_def MAX_WATCH_def emit_def Let_def)

theorem ping_signals_only_tracked_witness:
  "shell_reachable one_job
   \<and> shell_reachable (ping [] False [''ping'', ''%1'', ''73''] one_job)
   \<and> outs (ping [] False [''ping'', ''%1'', ''73''] one_job) =
       [OutJobStarted 1 42, OutKill (-42) 9, OutSent ''73'' ''%1'']"
proof -
  have "outs (ping [] False [''ping'', ''%1'', ''73''] one_job) =
       [OutJobStarted 1 42, OutKill (-42) 9, OutSent ''73'' ''%1'']"
    by (simp add: ping_def ping_target_def parse_signal_def parse_positive_def isdigit_def digit_def one_job_eq
        check_bg_jobs_def bg_find_job_def find_mutable_def cat_job_def Let_def)
  with ping_signals_only_tracked [OF one_job_reachable] one_job_reachable show ?thesis by blast
qed

section \<open>What resume does\<close>

definition definite :: "wres \<Rightarrow> bool" where
  "definite r = (case r of WStatus _ \<Rightarrow> True | WEintr _ \<Rightarrow> False | WFail \<Rightarrow> True)"

lemma wait_one_returns:
  "filter definite ws \<noteq> [] \<Longrightarrow> \<exists>x r. wait_one timed ws = Some (x, r)
     \<and> (x = FTimedOut \<or> length (filter definite r) + 1 = length (filter definite ws))"
  by (induction timed ws rule: wait_one.induct) (auto simp: definite_def)

lemma wait_group_returns:
  "length ps \<le> length (filter definite ws) \<Longrightarrow> \<exists>w. wait_group timed ps ws = Some w"
proof (induction timed ps ws rule: wait_group.induct)
  case (2 timed pid ps r)
  show ?case
  proof (cases "pid \<le> 0")
    case True
    with 2 show ?thesis by fastforce
  next
    case False
    from 2(4) have "filter definite r \<noteq> []" by auto
    from wait_one_returns [OF this, of timed] obtain x r' where w: "wait_one timed r = Some (x, r')"
      and l: "x = FTimedOut \<or> length (filter definite r') + 1 = length (filter definite r)" by blast
    show ?thesis
    proof (cases x)
      case FStopped
      then have "length ps \<le> length (filter definite r')" using l 2(4) by auto
      with 2(2) [OF False w refl FStopped] FStopped w show ?thesis using False by fastforce
    next
      case FGone
      then have "length ps \<le> length (filter definite r')" using l 2(4) by auto
      with 2(3) [OF False w refl FGone] FGone w show ?thesis using False by fastforce
    next
      case FTimedOut
      then show ?thesis using w False by (auto simp: prod_eq_iff)
    qed
  qed
qed (rule exI, rule wait_group.simps(1))

lemma wait_group_stopped:
  "wait_group timed ps ws = Some (qs, st, b) \<Longrightarrow> set st \<subseteq> set ps"
  by (induction timed ps ws arbitrary: qs st b rule: wait_group.induct)
    (fastforce split: if_splits option.splits fg_result.splits)+

lemma outs_table_ops [simp]:
  "outs (bg_set_running n s) = outs s" "outs (bg_set_stopped n ps s) = outs s" "outs (bg_remove_job n s) = outs s"
  by (simp_all add: bg_set_running_def bg_set_stopped_def bg_remove_job_def Let_def split: option.split)

lemma reach_ops:
  assumes "shell_reachable s"
  shows "shell_reachable (bg_set_running n s)" "shell_reachable (bg_set_stopped n ps s)"
    "shell_reachable (bg_remove_job n s)" "shell_reachable (emit es s)"
    "shell_reachable (fold bg_watch_pid ps s)"
    "shell_reachable (fold (\<lambda>p s. fst (bg_unwatch_pid p s)) ps s)"
proof -
  show "shell_reachable (fold bg_watch_pid ps s)"
    using assms by (induction ps arbitrary: s) (auto intro: sr_step s_watch)
  show "shell_reachable (fold (\<lambda>p s. fst (bg_unwatch_pid p s)) ps s)"
    using assms by (induction ps arbitrary: s) (auto intro: sr_step s_unwatch)
qed (auto intro: sr_step [OF assms] shell_step.intros)

lemma reach_resume_start: "shell_reachable s \<Longrightarrow> shell_reachable (resume_start job t s)"
  unfolding resume_start_def by (intro reach_ops)

lemma reach_resume_finish: "shell_reachable s \<Longrightarrow> shell_reachable (resume_finish tty job t w s)"
  unfolding resume_finish_def by (auto split: prod.split simp: Let_def simp del: emit_emit intro!: reach_ops)

lemma find_mutable_numbers:
  "find_mutable num s = find_idx (\<lambda>n. n = num) (map job_number (bg_jobs s))"
proof -
  have "find_idx (\<lambda>j. job_number j = num) js = find_idx (\<lambda>n. n = num) (map job_number js)" for js
    by (induction js) simp_all
  then show ?thesis by (simp add: find_mutable_def)
qed

lemma find_mutable_Some:
  assumes "find_mutable num s = Some i"
  shows "i < length (bg_jobs s)" "job_number (bg_jobs s ! i) = num"
  using find_idx_SomeD [OF assms [unfolded find_mutable_def]] by simp_all

lemma delete_at_gone:
  assumes "distinct xs" "i < length xs"
  shows "xs ! i \<notin> set (delete_at i xs)"
proof -
  have "distinct (take i xs @ xs ! i # drop (Suc i) xs)"
    using id_take_nth_drop [OF assms(2)] assms(1) by metis
  then show ?thesis by (simp add: delete_at_def)
qed

lemma removed_not_found:
  assumes "shell_reachable s"
  shows "bg_find_job num (fold bg_watch_pid ps (bg_remove_job num s)) = None"
proof (cases "find_mutable num s")
  case None
  then show ?thesis by (simp add: bg_find_job_def bg_remove_job_def) (simp add: find_mutable_def)
next
  case (Some i)
  note i = find_mutable_Some [OF Some]
  let ?ns = "map job_number (bg_jobs s)"
  have "distinct ?ns"
    using shell_reachable_inv [OF assms] by (auto simp: shell_inv_def table_ok_def strict_sorted_iff)
  then have "num \<notin> set (delete_at i ?ns)" using delete_at_gone [of ?ns i] i by simp
  then have "num \<notin> set (map job_number (delete_at i (bg_jobs s)))"
    by (simp add: delete_at_def take_map drop_map)
  with Some show ?thesis
    by (simp add: bg_find_job_def bg_remove_job_def Let_def find_mutable_def find_idx_None) auto
qed

lemma running_numbers: "map job_number (bg_jobs (bg_set_running n s)) = map job_number (bg_jobs s)"
  by (auto simp: bg_set_running_def list_eq_iff_nth_eq split: option.split)

lemma running_pids:
  "i < length (bg_jobs s) \<Longrightarrow> map bp_pid (procs (bg_jobs (bg_set_running n s) ! i)) = map bp_pid (procs (bg_jobs s ! i))"
  by (auto simp: bg_set_running_def sync_job_stopped_def comp_def split: option.split)

lemma kept_procs_member:
  "p \<in> set (kept_procs ps j) \<Longrightarrow>
   \<exists>q k. q \<in> set ps \<and> proc_idx q j = Some k \<and> p = (procs j ! k)\<lparr>bp_stopped := True\<rparr>"
proof (induction ps)
  case (Cons a ps)
  show ?case
  proof (cases "p \<in> set (kept_procs ps j)")
    case False
    then obtain k where "proc_idx a j = Some k" "p = (procs j ! k)\<lparr>bp_stopped := True\<rparr>"
      using Cons.prems by (cases "proc_idx a j") (auto simp: kept_procs_def)
    then show ?thesis by auto
  qed (use Cons.IH in auto)
qed (simp add: kept_procs_def)

lemma kept_pids:
  assumes "set ps \<subseteq> set (map bp_pid (procs j))" "ps \<noteq> []"
  shows "kept_procs (take MAX_JOB_PROCS ps) j \<noteq> []"
    "p \<in> set (kept_procs (take MAX_JOB_PROCS ps) j) \<Longrightarrow> bp_stopped p \<and> bp_pid p \<in> set ps"
proof -
  obtain q qs where ps: "ps = q # qs" using assms(2) by (cases ps) auto
  then obtain k where "proc_idx q j = Some k"
    using assms(1) proc_idx_None [of q j] by auto
  then show "kept_procs (take MAX_JOB_PROCS ps) j \<noteq> []"
    by (simp add: kept_procs_def ps MAX_JOB_PROCS_def)
  assume "p \<in> set (kept_procs (take MAX_JOB_PROCS ps) j)"
  then obtain q k where "q \<in> set ps" "proc_idx q j = Some k" "p = (procs j ! k)\<lparr>bp_stopped := True\<rparr>"
    using kept_procs_member in_set_takeD by metis
  with proc_idx_Some [OF this(2)] show "bp_stopped p \<and> bp_pid p \<in> set ps" by simp
qed

lemma stopped_found:
  assumes "find_mutable num s = Some i" "set ps \<subseteq> set (map bp_pid (procs (bg_jobs s ! i)))" "ps \<noteq> []"
  shows "\<exists>j. bg_find_job num (bg_set_stopped num ps s) = Some j \<and> j_stopped j
    \<and> (\<forall>p \<in> set (procs j). bp_stopped p \<and> bp_pid p \<in> set ps)"
proof -
  let ?s = "bg_set_stopped num ps s"
  note i = find_mutable_Some(1) [OF assms(1)]
  have js: "bg_jobs ?s = modify i (\<lambda>j. sync_job_stopped (j\<lparr>procs := kept_procs (take MAX_JOB_PROCS ps) j\<rparr>)) (bg_jobs s)"
    using assms(1) by (simp add: bg_set_stopped_def Let_def modify_def)
  have "map job_number (bg_jobs ?s) = map job_number (bg_jobs s)"
    unfolding js by (auto simp: list_eq_iff_nth_eq)
  then have f: "find_mutable num ?s = Some i" using assms(1) by (simp add: find_mutable_numbers)
  have "kept_procs (take MAX_JOB_PROCS ps) (bg_jobs s ! i) \<noteq> []"
    "\<forall>p \<in> set (kept_procs (take MAX_JOB_PROCS ps) (bg_jobs s ! i)). bp_stopped p \<and> bp_pid p \<in> set ps"
    using kept_pids [OF assms(2,3)] by blast+
  then show ?thesis
    unfolding bg_find_job_def f using i by (auto simp: js sync_job_stopped_def list_ex_iff intro: last_in_set)
qed

definition is_term :: "out_event \<Rightarrow> bool" where
  "is_term e = (case e of OutTermGive _ \<Rightarrow> True | OutTermTake \<Rightarrow> True | _ \<Rightarrow> False)"

definition is_alarm :: "out_event \<Rightarrow> bool" where
  "is_alarm e = (case e of OutAlarm _ \<Rightarrow> True | _ \<Rightarrow> False)"

text \<open>
  C29: a job resumed in the foreground.  If every live process of the job
  eventually yields something other than an interruption, the command returns;
  it has then taken the terminal back after giving it to the job, disarmed the
  timer it armed, and the job is either gone from the table (it ended, or timed
  out and was sent \<open>SIGTERM\<close>) or is a stopped job made of the processes that
  stopped.
\<close>

theorem resume_fg_outcome:
  assumes "shell_reachable s" "bg_find_job num s = Some job"
    "length (procs job) \<le> length (filter definite ws)"
  shows "\<exists>s' pids stopped timed_out evs. resume_fg tty ws job t s = Some s' \<and> shell_reachable s'
    \<and> wait_group (t > 0) (map bp_pid (procs job)) ws = Some (pids, stopped, timed_out)
    \<and> outs s' = outs s @ evs
    \<and> filter is_term evs = [OutTermGive (pgid job), OutTermTake]
    \<and> filter is_alarm evs = (if t > 0 then [OutAlarm t, OutAlarm 0] else [])
    \<and> (if timed_out then bg_find_job num s' = None \<and> OutKill (- pgid job) SIGTERM \<in> set evs
       else if stopped = [] then bg_find_job num s' = None
       else \<exists>j. bg_find_job num s' = Some j \<and> j_stopped j
              \<and> (\<forall>p \<in> set (procs j). bp_stopped p \<and> bp_pid p \<in> set stopped))"
proof -
  from wait_group_returns [of "map bp_pid (procs job)" ws "t > 0"] assms(3)
  obtain pids stopped timed_out where
    w: "wait_group (t > 0) (map bp_pid (procs job)) ws = Some (pids, stopped, timed_out)"
    by (auto simp: prod_eq_iff)
  let ?s1 = "resume_start job t s"
  let ?s' = "resume_finish tty job t (pids, stopped, timed_out) ?s1"
  have num: "job_number job = num" using bg_find_job_Some(2) [OF assms(2)] .
  from assms(2) obtain i where i: "find_mutable num s = Some i" "job = bg_jobs s ! i"
    by (auto simp: bg_find_job_def)
  note il = find_mutable_Some(1) [OF i(1)]
  have r: "shell_reachable ?s1" by (rule reach_resume_start [OF assms(1)])
  have f1: "find_mutable num ?s1 = Some i"
    using i(1) by (simp add: find_mutable_numbers resume_start_def running_numbers)
  have p1: "map bp_pid (procs (bg_jobs ?s1 ! i)) = map bp_pid (procs job)"
    using running_pids il i(2) by (simp add: resume_start_def running_pids)
  have "(if timed_out then bg_find_job num ?s' = None
       else if stopped = [] then bg_find_job num ?s' = None
       else \<exists>j. bg_find_job num ?s' = Some j \<and> j_stopped j
              \<and> (\<forall>p \<in> set (procs j). bp_stopped p \<and> bp_pid p \<in> set stopped))"
  proof -
    have g: "bg_find_job num (bg_remove_job num (emit es ?s1)) = None" for es
      using removed_not_found [OF reach_emit [OF r], of num "[]"] by simp
    have "\<exists>j. bg_find_job num (bg_set_stopped num stopped (emit es ?s1)) = Some j \<and> j_stopped j
        \<and> (\<forall>p \<in> set (procs j). bp_stopped p \<and> bp_pid p \<in> set stopped)" if "stopped \<noteq> []" for es
      using stopped_found [of num "emit es ?s1" i stopped] f1 p1 wait_group_stopped [OF w] that
      by (simp add: find_mutable_def)
    moreover have "bg_find_job num (emit es s) = bg_find_job num s" for es s
      by (simp add: bg_find_job_def find_mutable_def)
    ultimately show ?thesis
      using removed_not_found [OF reach_emit [OF r], of num pids] g
      by (simp add: resume_finish_def Let_def num)
  qed
  moreover have "\<exists>evs. outs ?s' = outs s @ evs
    \<and> filter is_term evs = [OutTermGive (pgid job), OutTermTake]
    \<and> filter is_alarm evs = (if t > 0 then [OutAlarm t, OutAlarm 0] else [])
    \<and> (timed_out \<longrightarrow> OutKill (- pgid job) SIGTERM \<in> set evs)"
    by (auto simp: resume_finish_def resume_start_def Let_def is_term_def is_alarm_def)
  moreover have "resume_fg tty ws job t s = Some ?s'" by (simp add: resume_fg_def w)
  ultimately show ?thesis using w reach_resume_finish [OF r] by (auto split: if_splits)
qed

theorem resume_fg_outcome_witness:
  "shell_reachable one_job \<and> bg_find_job 1 one_job = Some cat_job
   \<and> length (procs cat_job) \<le> length (filter definite [WEintr False, WStatus (Stopped 20)])
   \<and> (\<exists>s'. resume_fg False [WEintr False, WStatus (Stopped 20)] cat_job 5 one_job = Some s' \<and> shell_reachable s')"
proof -
  have h: "bg_find_job 1 one_job = Some cat_job"
    "length (procs cat_job) \<le> length (filter definite [WEintr False, WStatus (Stopped 20)])"
    by (simp_all add: one_job_eq bg_find_job_def find_mutable_def cat_job_def definite_def)
  from resume_fg_outcome [OF one_job_reachable h] h one_job_reachable show ?thesis by blast
qed

end
