(* ===== verification/Shell_Run.thy ===== *)
theory Shell_Run
  imports Grammar Job_Commands
begin

text \<open>
  How the shell runs a line: \<open>c-shell/src/seq.c\<close>, \<open>exec.c\<close> and the launching part
  of \<open>bg.c\<close>.  A command group is the list of tokens from its first word on; a
  segment of a pipeline is the list of its own tokens.  The file system is a
  parameter \<open>opn\<close> with its state, \<open>fork\<close> a function from the stage to the pid it
  returns (negative on failure), and \<open>wait\<close> the status \<open>waitpid\<close> finally gives
  for a child.  Children are not followed into \<open>execve\<close>.
\<close>

section \<open>Words of a command\<close>

definition is_redir :: "Token \<Rightarrow> bool" where
  "is_redir t = (ttype t = TOKEN_OP_LT \<or> ttype t = TOKEN_OP_GT \<or> ttype t = TOKEN_OP_GTGT)"

fun extract_group :: "Token list \<Rightarrow> string list" where
  "extract_group [] = []"
| "extract_group (t # ts) =
     (if ends_group t \<or> is_redir t \<or> ttype t = TOKEN_OP_PIPE then []
      else if ttype t = TOKEN_WORD then tvalue t # extract_group ts else extract_group ts)"

text \<open>The loop of \<open>extract_bg_argv\<close> and \<open>extract_segment_argv\<close>, with \<open>skip_next\<close>.\<close>

fun skip_redirs :: "bool \<Rightarrow> Token list \<Rightarrow> string list" where
  "skip_redirs skip [] = []"
| "skip_redirs skip (t # ts) =
     (if is_redir t then skip_redirs True ts
      else if skip then skip_redirs False ts
      else if ttype t = TOKEN_WORD then tvalue t # skip_redirs False ts
      else skip_redirs False ts)"

definition extract_bg_argv :: "Token list \<Rightarrow> string list" where
  "extract_bg_argv ts = skip_redirs False (takeWhile (\<lambda>t. ttype t \<noteq> TOKEN_OP_AMP) ts)"

definition extract_segment_argv :: "Token list \<Rightarrow> string list" where
  "extract_segment_argv seg = skip_redirs False seg"

section \<open>Redirections\<close>

datatype open_req = OpenIn string | OpenOut string bool

definition is_redir_end :: "Token list \<Rightarrow> bool" where
  "is_redir_end ts = (case ts of [] \<Rightarrow> True | t # _ \<Rightarrow> ends_group t)"

definition output_append :: "TokenType \<Rightarrow> bool" where
  "output_append ty = (ty = TOKEN_OP_GTGT)"

definition redir_req :: "Token \<Rightarrow> string \<Rightarrow> open_req" where
  "redir_req t f = (if ttype t = TOKEN_OP_LT then OpenIn f else OpenOut f (output_append (ttype t)))"

definition redir_error :: "open_req \<Rightarrow> string" where
  "redir_error q = (case q of OpenIn _ \<Rightarrow> ''cshell: no such file or directory''
     | OpenOut _ _ \<Rightarrow> ''cshell: unable to create file for writing'')"

fun redirs_validate ::
  "(open_req \<Rightarrow> 'f \<Rightarrow> bool \<times> 'f) \<Rightarrow> Token list \<Rightarrow> 'f \<Rightarrow> bool \<times> 'f \<times> out_event list" where
  "redirs_validate opn [] fs = (True, fs, [])"
| "redirs_validate opn [t] fs = (if ends_group t then (True, fs, []) else (\<not> is_redir t, fs, []))"
| "redirs_validate opn (t # u # ts) fs =
     (if ends_group t then (True, fs, [])
      else if is_redir t then
        if ends_group u \<or> ttype u \<noteq> TOKEN_WORD then (False, fs, [])
        else let q = redir_req t (tvalue u); (ok, fs') = opn q fs in
          if \<not> ok then (False, fs', [OutErr (redir_error q)]) else redirs_validate opn ts fs'
      else redirs_validate opn (u # ts) fs)"

text \<open>
  The counting loop of \<open>redirs_open\<close>: input files and output files with their
  mode, in order.  The feeder and tee processes walk over the same targets.
\<close>

fun redir_targets :: "Token list \<Rightarrow> string list \<times> (string \<times> bool) list" where
  "redir_targets [] = ([], [])"
| "redir_targets [t] = ([], [])"
| "redir_targets (t # u # ts) =
     (if ends_group t then ([], [])
      else if ttype t = TOKEN_OP_LT then (let (i, out) = redir_targets ts in (tvalue u # i, out))
      else if is_redir t then (let (i, out) = redir_targets ts in (i, (tvalue u, output_append (ttype t)) # out))
      else redir_targets (u # ts))"

datatype in_plan = InNone | InFile string | InFeeder "string list"
datatype out_plan = OutNone | OutFile string bool | OutTee "(string \<times> bool) list"

text \<open>\<open>helper\<close> says whether the helper process of \<open>spawn_feeder\<close> or \<open>spawn_tee\<close> starts.\<close>

definition redirs_open ::
  "(open_req \<Rightarrow> 'f \<Rightarrow> bool \<times> 'f) \<Rightarrow> bool \<times> bool \<Rightarrow> Token list \<Rightarrow> 'f
   \<Rightarrow> (in_plan \<times> out_plan) option \<times> 'f \<times> out_event list" where
  "redirs_open opn helper ts fs =
     (let (ins, outs) = redir_targets ts;
          (in_ok, inp, fs1, ev1) =
            (if ins = [] then (True, InNone, fs, [])
             else if length ins = 1 then
               (let (ok, fs') = opn (OpenIn (last ins)) fs in
                (ok, InFile (last ins), fs', if ok then [] else [OutErr (redir_error (OpenIn (last ins)))]))
             else (fst helper, InFeeder ins, fs, []))
      in if \<not> in_ok then (None, fs1, ev1)
         else
           let (out_ok, outp, fs2, ev2) =
             (if outs = [] then (True, OutNone, fs1, [])
              else if length outs = 1 then
                (let q = OpenOut (fst (last outs)) (snd (last outs)); (ok, fs') = opn q fs1 in
                 (ok, OutFile (fst (last outs)) (snd (last outs)), fs', if ok then [] else [OutErr (redir_error q)]))
              else (snd helper, OutTee outs, fs1, []))
           in if \<not> out_ok then (None, fs2, ev2) else (Some (inp, outp), fs2, ev2))"

section \<open>Finding the program\<close>

definition PATH_MAX :: nat where "PATH_MAX = 4096"

text \<open>\<open>strtok(path, ":")\<close> skips empty fields.\<close>

fun split_path :: "string \<Rightarrow> string \<Rightarrow> string list" where
  "split_path cur [] = (if cur = [] then [] else [cur])"
| "split_path cur (c # s) =
     (if c = CHR '':'' then (if cur = [] then split_path [] s else cur # split_path [] s)
      else split_path (cur @ [c]) s)"

definition join_path :: "string \<Rightarrow> string \<Rightarrow> string" where
  "join_path dir name = dir @ ''/'' @ name"

definition resolve_command ::
  "(string \<Rightarrow> bool) \<Rightarrow> string option \<Rightarrow> string option \<Rightarrow> string \<Rightarrow> string option" where
  "resolve_command check_executable cwd path_env name =
     (if name = [] then None
      else if CHR ''/'' \<in> set name then (if check_executable name then Some name else None)
      else
        let percent_skip = (hd name = CHR ''%'');
            lookup = (if percent_skip then tl name else name);
            here = (case cwd of None \<Rightarrow> None | Some d \<Rightarrow>
              if \<not> percent_skip \<and> length (join_path d lookup) < PATH_MAX \<and> check_executable (join_path d lookup)
              then Some (join_path d lookup) else None)
        in case here of
             Some p \<Rightarrow> Some p
           | None \<Rightarrow>
               (case path_env of
                  None \<Rightarrow> None
                | Some path \<Rightarrow>
                    find check_executable
                      (map (\<lambda>d. take (PATH_MAX - 1) (join_path d lookup)) (split_path [] path))))"

section \<open>Waiting for a foreground job\<close>

text \<open>
  The loop of \<open>fg_wait\<close> moves the survivors to the front of the arrays in place;
  \<open>i\<close> and \<open>sn\<close> are the C variables, \<open>k\<close> the rounds left.
\<close>

fun fg_loop ::
  "(int \<Rightarrow> wstatus) \<Rightarrow> nat \<Rightarrow> nat \<Rightarrow> nat \<Rightarrow> int list \<Rightarrow> string list \<Rightarrow> bool
   \<Rightarrow> nat \<times> int list \<times> string list \<times> bool" where
  "fg_loop wait 0 i sn pids names intr = (sn, pids, names, intr)"
| "fg_loop wait (Suc k) i sn pids names intr =
     (if pids ! i \<le> 0 then fg_loop wait k (Suc i) sn pids names intr
      else case wait (pids ! i) of
             Stopped _ \<Rightarrow>
               fg_loop wait k (Suc i) (Suc sn) (pids[sn := pids ! i])
                 (if sn \<noteq> i then names[sn := names ! i] else names) intr
           | Signaled sig \<Rightarrow> fg_loop wait k (Suc i) sn pids names (intr \<or> sig = 2)
           | _ \<Rightarrow> fg_loop wait k (Suc i) sn pids names intr)"

definition fg_wait ::
  "bool \<Rightarrow> (int \<Rightarrow> wstatus) \<Rightarrow> int \<Rightarrow> int list \<Rightarrow> string list \<Rightarrow> string \<Rightarrow> shell \<Rightarrow> int \<times> shell" where
  "fg_wait tty wait pg pids names cl s =
     (let (sn, pids', names', intr) = fg_loop wait (length pids) 0 0 pids names False;
          s1 = emit (OutTermTake # (if intr \<or> (sn > 0 \<and> tty) then [OutLine []] else [])) s
      in if sn > 0 then (1, register_stopped_job pg (take sn pids') (take sn names') (Some cl) s1)
         else (0, s1))"

section \<open>Single commands\<close>

definition not_found :: "string \<Rightarrow> out_event" where
  "not_found name =
     OutErr (''cshell: command not found ('' @ (if name \<noteq> [] \<and> hd name = CHR ''%'' then tl name else name) @ '')'')"

definition group_cmdline :: "Token list \<Rightarrow> string" where
  "group_cmdline ts = the (token_group_to_string ts BG_CMD_MAX)"

record 'f world =
  fs :: 'f
  sh :: shell
  sigpipe_ignored :: bool

record 'f env =
  opn :: "open_req \<Rightarrow> 'f \<Rightarrow> bool \<times> 'f"
  helpers :: "nat \<Rightarrow> bool \<times> bool"
  resolve :: "string \<Rightarrow> string option"
  fork :: "nat \<Rightarrow> int"
  pipes_ok :: bool
  wait_status :: "int \<Rightarrow> wstatus"
  builtin :: "string list \<Rightarrow> 'f world \<Rightarrow> 'f world"
  is_tty :: bool

definition emit_w :: "out_event list \<Rightarrow> 'f world \<Rightarrow> 'f world" where
  "emit_w es w = w\<lparr>sh := emit es (sh w)\<rparr>"

definition validate_w :: "'f env \<Rightarrow> Token list \<Rightarrow> 'f world \<Rightarrow> bool \<times> 'f world" where
  "validate_w e ts w = (let (ok, fs', ev) = redirs_validate (opn e) ts (fs w) in (ok, emit_w ev (w\<lparr>fs := fs'\<rparr>)))"

definition open_w :: "'f env \<Rightarrow> nat \<Rightarrow> Token list \<Rightarrow> 'f world \<Rightarrow> (in_plan \<times> out_plan) option \<times> 'f world" where
  "open_w e i ts w =
     (let (r, fs', ev) = redirs_open (opn e) (helpers e i) ts (fs w) in (r, emit_w ev (w\<lparr>fs := fs'\<rparr>)))"

definition execute_command :: "'f env \<Rightarrow> string list \<Rightarrow> Token list \<Rightarrow> 'f world \<Rightarrow> int \<times> 'f world" where
  "execute_command e argv start w =
     (if argv = [] then (0, w)
      else
        let (ok, w1) = validate_w e start w in
        if \<not> ok then (0, w1)
        else case resolve e (argv ! 0) of
               None \<Rightarrow> (1, emit_w [not_found (argv ! 0)] w1)
             | Some _ \<Rightarrow>
                 (case open_w e 0 start w1 of
                    (None, w2) \<Rightarrow> (0, w2)
                  | (Some _, w2) \<Rightarrow>
                      let pid = fork e 0 in
                      if pid < 0 then (0, emit_w [OutErr ''fork''] w2)
                      else
                        let s3 = emit [OutTermGive pid] (sh w2)
                        in (0, w2\<lparr>sh := snd (fg_wait (is_tty e) (wait_status e) pid [pid]
                                  [take (BG_NAME_MAX - 1) (argv ! 0)] (group_cmdline start) s3)\<rparr>)))"

section \<open>Pipelines\<close>

fun split_pipe :: "Token list \<Rightarrow> Token list \<Rightarrow> Token list list" where
  "split_pipe cur [] = [cur]"
| "split_pipe cur (t # ts) =
     (if ttype t = TOKEN_OP_PIPE then cur # split_pipe [] ts else split_pipe (cur @ [t]) ts)"

definition fg_segments :: "Token list \<Rightarrow> Token list list" where
  "fg_segments start = split_pipe [] (takeWhile (\<lambda>t. \<not> ends_group t) start)"

definition bg_segments :: "Token list \<Rightarrow> Token list list" where
  "bg_segments start = split_pipe [] (takeWhile (\<lambda>t. ttype t \<noteq> TOKEN_OP_AMP) start)"

fun validate_all :: "'f env \<Rightarrow> Token list list \<Rightarrow> 'f world \<Rightarrow> bool \<times> 'f world" where
  "validate_all e [] w = (True, w)"
| "validate_all e (seg # segs) w =
     (let (ok, w1) = validate_w e seg w in if ok then validate_all e segs w1 else (False, w1))"

definition is_builtin :: "string \<Rightarrow> bool" where
  "is_builtin a = (a \<in> {''peek'', ''reveal'', ''locate'', ''hop'', ''activities'', ''ping'', ''spy'', ''snoop'', ''resume''})"

text \<open>\<open>fork\<close> for stage \<open>i\<close>, with the message of a failure.\<close>

definition fork_stage :: "'f env \<Rightarrow> nat \<Rightarrow> 'f world \<Rightarrow> int \<times> 'f world" where
  "fork_stage e i w = (if fork e i < 0 then (-1, emit_w [OutErr ''fork''] w) else (fork e i, w))"

definition start_stage :: "'f env \<Rightarrow> nat \<Rightarrow> Token list \<Rightarrow> 'f world \<Rightarrow> int \<times> 'f world" where
  "start_stage e i seg w =
     (case extract_segment_argv seg of
        [] \<Rightarrow> fork_stage e i w
      | a # _ \<Rightarrow>
          if \<not> is_builtin a \<and> resolve e a = None then fork_stage e i (emit_w [not_found a] w)
          else (case open_w e i seg w of
                  (None, w1) \<Rightarrow> (-1, w1)
                | (Some _, w1) \<Rightarrow> fork_stage e i w1))"

definition stage_name :: "string \<Rightarrow> Token list \<Rightarrow> string" where
  "stage_name none seg =
     (case extract_segment_argv seg of [] \<Rightarrow> none | a # _ \<Rightarrow> take (BG_NAME_MAX - 1) a)"

text \<open>The pids of all stages and the process group, starting from stage \<open>i\<close> and group \<open>pg\<close>.\<close>

fun launch :: "'f env \<Rightarrow> nat \<Rightarrow> Token list list \<Rightarrow> int \<Rightarrow> 'f world \<Rightarrow> int list \<times> int \<times> 'f world" where
  "launch e i [] pg w = ([], pg, w)"
| "launch e i (seg # segs) pg w =
     (let (pid, w1) = start_stage e i seg w;
          pg' = (if pid \<ge> 0 \<and> pg = 0 then pid else pg);
          (pids, pg'', w2) = launch e (Suc i) segs pg' w1
      in (pid # pids, pg'', w2))"

definition execute_pipeline :: "'f env \<Rightarrow> Token list \<Rightarrow> 'f world \<Rightarrow> int \<times> 'f world" where
  "execute_pipeline e start w =
     (let segs = fg_segments start;
          (ok, w1) = validate_all e segs (w\<lparr>sigpipe_ignored := True\<rparr>)
      in if \<not> ok \<or> \<not> pipes_ok e then (0, w1)
         else
           let (pids, pg, w2) = launch e 0 segs 0 w1;
               s3 = emit [OutTermGive pg] (sh w2);
               s4 = snd (fg_wait (is_tty e) (wait_status e) pg pids (map (stage_name []) segs) (group_cmdline start) s3)
           in (0, w2\<lparr>sh := s4, sigpipe_ignored := sigpipe_ignored w\<rparr>))"

text \<open>The stages that \<open>record_bg_stage\<close> keeps.\<close>

definition recorded :: "int list \<Rightarrow> Token list list \<Rightarrow> (int \<times> string) list" where
  "recorded pids segs =
     take MAX_JOB_PROCS (filter (\<lambda>(p, nm). p \<ge> 0) (zip pids (map (stage_name ''?'') segs)))"

definition execute_pipeline_bg :: "'f env \<Rightarrow> Token list \<Rightarrow> 'f world \<Rightarrow> int \<times> (int \<times> string) list \<times> 'f world" where
  "execute_pipeline_bg e start w =
     (let segs = bg_segments start;
          (ok, w1) = validate_all e segs (w\<lparr>sigpipe_ignored := True\<rparr>)
      in if \<not> ok \<or> \<not> pipes_ok e then (0, [], w1\<lparr>sigpipe_ignored := sigpipe_ignored w\<rparr>)
         else
           let (pids, pg, w2) = launch e 0 segs 0 w1; rec = recorded pids segs
           in (if rec \<noteq> [] then pg else 0, rec, w2\<lparr>sigpipe_ignored := sigpipe_ignored w\<rparr>))"

section \<open>Groups and sequences\<close>

definition has_pipe :: "Token list \<Rightarrow> bool" where
  "has_pipe ts = list_ex (\<lambda>t. ttype t = TOKEN_OP_PIPE) ts"

definition run_bg_group :: "'f env \<Rightarrow> Token list \<Rightarrow> 'f world \<Rightarrow> 'f world" where
  "run_bg_group e start w =
     (if start = [] then w
      else if has_pipe (takeWhile (\<lambda>t. ttype t \<noteq> TOKEN_OP_AMP) start) then
        (let (pg, rec, w1) = execute_pipeline_bg e start w in
         if pg > 0 \<and> rec \<noteq> []
         then w1\<lparr>sh := register_bg_group pg (map fst rec) (map snd rec) (Some (group_cmdline start)) (sh w1)\<rparr> else w1)
      else case extract_bg_argv start of
             [] \<Rightarrow> w
           | a # _ \<Rightarrow>
               if \<not> is_builtin a \<and> resolve e a = None then emit_w [not_found a] w
               else let (pid, w1) = fork_stage e 0 w in
                 if pid < 0 then w1
                 else w1\<lparr>sh := register_bg_job pid (Some a) (Some (group_cmdline start)) (sh w1)\<rparr>)"

definition apply_redirections :: "'f env \<Rightarrow> Token list \<Rightarrow> 'f world \<Rightarrow> bool \<times> 'f world" where
  "apply_redirections e start w =
     (let (ok, w1) = validate_w e start w in
      if \<not> ok then (False, w1)
      else case open_w e 0 start w1 of (None, w2) \<Rightarrow> (False, w2) | (Some _, w2) \<Rightarrow> (True, w2))"

definition run_group :: "'f env \<Rightarrow> Token list \<Rightarrow> 'f world \<Rightarrow> int \<times> 'f world" where
  "run_group e start w =
     (if start = [] then (0, w)
      else if has_pipe (takeWhile (\<lambda>t. \<not> ends_group t) start) then execute_pipeline e start w
      else if ttype (hd start) = TOKEN_WORD \<and> is_builtin (tvalue (hd start)) then
        (let (ok, w1) = apply_redirections e start w in
         (0, if ok then builtin e (extract_group start) w1 else w1))
      else if extract_group start \<noteq> [] then execute_command e (extract_group start) start w
      else (0, w))"

lemma rest_shorter: "dropWhile P xs = y # ys \<Longrightarrow> length ys < length xs"
  using length_dropWhile_le [of P xs] by simp

function run_sequence ::
  "(Token list \<Rightarrow> 'w \<Rightarrow> int \<times> 'w) \<Rightarrow> (Token list \<Rightarrow> 'w \<Rightarrow> 'w) \<Rightarrow> Token list \<Rightarrow> 'w \<Rightarrow> 'w" where
  "run_sequence run_fg run_bg [] w = w"
| "run_sequence run_fg run_bg (t # ts) w =
     (if ttype t \<noteq> TOKEN_WORD then run_sequence run_fg run_bg ts w
      else case dropWhile (\<lambda>t. \<not> ends_group t) (t # ts) of
             [] \<Rightarrow> snd (run_fg (t # ts) w)
           | op # rest \<Rightarrow>
               if ttype op = TOKEN_OP_AMP then run_sequence run_fg run_bg rest (run_bg (t # ts) w)
               else (case run_fg (t # ts) w of
                       (rc, w') \<Rightarrow> if rc \<noteq> 0 then w' else run_sequence run_fg run_bg rest w'))"
  by pat_completeness auto
termination
  by (relation "measure (\<lambda>(f, b, ts, w). length ts)") (auto dest!: rest_shorter split: if_splits)

definition run_line :: "'f env \<Rightarrow> Token list \<Rightarrow> 'f world \<Rightarrow> 'f world" where
  "run_line e = run_sequence (run_group e) (run_bg_group e)"

section \<open>Arguments and redirection targets\<close>

definition plain :: "Token list \<Rightarrow> bool" where
  "plain seg = list_all (\<lambda>t. \<not> ends_group t \<and> ttype t \<noteq> TOKEN_OP_PIPE) seg"

text \<open>Every redirection operator of a segment has a word behind it.\<close>

fun redirs_followed :: "Token list \<Rightarrow> bool" where
  "redirs_followed [] = True"
| "redirs_followed [t] = (\<not> is_redir t)"
| "redirs_followed (t # u # ts) =
     (if is_redir t then ttype u = TOKEN_WORD \<and> redirs_followed ts else redirs_followed (u # ts))"

definition words :: "Token list \<Rightarrow> string list" where
  "words ts = map tvalue (filter (\<lambda>t. ttype t = TOKEN_WORD) ts)"

lemma word_not_redir: "ttype t = TOKEN_WORD \<Longrightarrow> \<not> is_redir t \<and> \<not> ends_group t"
  by (simp add: is_redir_def ends_group_def)

lemma skip_redirs_partition:
  "plain seg \<Longrightarrow> redirs_followed seg \<Longrightarrow>
   mset (words seg) = mset (skip_redirs False seg) + mset (fst (redir_targets seg))
     + mset (map fst (snd (redir_targets seg)))"
proof (induction seg rule: redirs_followed.induct)
  case (2 t)
  then show ?case by (cases "ttype t") (auto simp: plain_def words_def is_redir_def ends_group_def)
next
  case (3 t u ts)
  show ?case
  proof (cases "is_redir t")
    case True
    with 3 have "mset (words ts) = mset (skip_redirs False ts) + mset (fst (redir_targets ts))
        + mset (map fst (snd (redir_targets ts)))" "ttype u = TOKEN_WORD" by (auto simp: plain_def)
    with True word_not_redir [of u] show ?thesis using 3(3)
      by (auto simp: words_def plain_def is_redir_def split: prod.splits)
  next
    case False
    then have "ttype t = TOKEN_WORD" using 3(3) by (cases "ttype t") (auto simp: plain_def is_redir_def ends_group_def)
    with 3 False word_not_redir [of t] show ?thesis by (auto simp: words_def plain_def)
  qed
qed (simp add: words_def)

lemma validate_followed:
  "plain seg \<Longrightarrow> fst (redirs_validate op seg f0) \<Longrightarrow> redirs_followed seg"
proof (induction op seg f0 rule: redirs_validate.induct)
  case (3 op t u ts f0)
  show ?case
  proof (cases "is_redir t")
    case True
    obtain ok fs' where o: "op (redir_req t (tvalue u)) f0 = (ok, fs')" by (cases "op (redir_req t (tvalue u)) f0")
    have "\<not> ends_group t" "\<not> ends_group u" "plain ts" using 3(3) by (auto simp: plain_def)
    moreover from this 3(4) True o have "ttype u = TOKEN_WORD" "ok" "fst (redirs_validate op ts fs')"
      by (auto split: if_splits)
    ultimately show ?thesis using 3(1) [OF _ True _ refl o [symmetric]] True by simp
  next
    case False
    with 3 show ?thesis by (auto simp: plain_def)
  qed
qed (auto simp: plain_def)

text \<open>
  once the redirections of a pipeline segment have been checked, every
  word of the segment is either an argument of the command or the target of
  exactly one redirection: none is lost and none is used twice.
\<close>

theorem segment_words_all_used:
  assumes "plain seg" "fst (redirs_validate op seg f0)"
  shows "mset (words seg) = mset (extract_segment_argv seg) + mset (fst (redir_targets seg))
     + mset (map fst (snd (redir_targets seg)))"
  unfolding extract_segment_argv_def
  by (rule skip_redirs_partition [OF assms(1) validate_followed [OF assms]])

definition tok :: "string \<Rightarrow> Token" where
  "tok w = \<lparr>ttype = TOKEN_WORD, tvalue = w\<rparr>"

definition op_tok :: "TokenType \<Rightarrow> Token" where
  "op_tok ty = \<lparr>ttype = ty, tvalue = []\<rparr>"

lemmas tok_simps = tok_def op_tok_def plain_def is_redir_def ends_group_def

theorem segment_words_all_used_witness:
  "\<exists>seg. seg = [tok ''sort'', op_tok TOKEN_OP_LT, tok ''in'', tok ''-r''] \<and> plain seg
     \<and> fst (redirs_validate (\<lambda>q f. (True, f)) seg ()) \<and> extract_segment_argv seg = [''sort'', ''-r'']
     \<and> mset (words seg) = mset (extract_segment_argv seg) + mset (fst (redir_targets seg))
         + mset (map fst (snd (redir_targets seg)))"
proof -
  let ?seg = "[tok ''sort'', op_tok TOKEN_OP_LT, tok ''in'', tok ''-r'']"
  have h: "plain ?seg" "fst (redirs_validate (\<lambda>q f. (True, f)) ?seg ())" "extract_segment_argv ?seg = [''sort'', ''-r'']"
    by (simp_all add: tok_simps extract_segment_argv_def)
  from segment_words_all_used [OF h(1,2)] h show ?thesis by blast
qed

text \<open>The words in front of the first redirection, pipe or separator.\<close>

lemma extract_group_prefix:
  "extract_group ts = extract_segment_argv (takeWhile (\<lambda>t. \<not> (ends_group t \<or> is_redir t \<or> ttype t = TOKEN_OP_PIPE)) ts)"
  by (induction ts) (auto simp: extract_segment_argv_def)

text \<open>
  C30: a foreground command does not get the words behind its first redirection.
  Put a redirection in front of some arguments of a command: the grammar accepts
  the line, a pipeline stage or a background job gets all the arguments, and the
  foreground command only those in front of the redirection.
\<close>

theorem foreground_loses_words_after_redirection:
  assumes "ws \<noteq> []" "op \<in> {TOKEN_OP_LT, TOKEN_OP_GT, TOKEN_OP_GTGT}"
    "ts = map tok ws @ [op_tok op, tok f] @ map tok vs"
  shows "validate_grammar ts = 0 \<and> extract_segment_argv ts = ws @ vs
    \<and> extract_bg_argv (ts @ [op_tok TOKEN_OP_AMP]) = ws @ vs \<and> extract_group ts = ws"
proof -
  have d: "derives ARG (replicate n TOKEN_WORD @ w) = derives ARG w" for n w by (induction n) simp_all
  have ty: "map ttype (map tok xs) = replicate (length xs) TOKEN_WORD" for xs by (induction xs) (simp_all add: tok_def)
  have sk: "skip_redirs False (map tok xs @ r) = xs @ skip_redirs False r" for xs r
    by (induction xs) (simp_all add: tok_simps)
  have redir: "is_redir (op_tok op)" using assms(2) by (auto simp: tok_simps)
  have "skip_redirs False ts = ws @ skip_redirs False (map tok vs @ [])"
    using redir by (simp add: assms(3) sk) (simp add: tok_simps)
  then have seg: "skip_redirs False ts = ws @ vs" by (simp only: sk) simp
  have "extract_group (map tok xs @ op_tok op # r) = xs" for xs r
    using redir by (induction xs) (auto simp: tok_simps)
  then have grp: "extract_group ts = ws" by (simp add: assms(3))
  have "list_all (\<lambda>t. ttype t \<noteq> TOKEN_OP_AMP) ts"
    using assms(2) by (auto simp: assms(3) tok_def op_tok_def list_all_iff)
  then have tw: "takeWhile (\<lambda>t. ttype t \<noteq> TOKEN_OP_AMP) (ts @ [op_tok TOKEN_OP_AMP]) = ts"
    by (induction ts) (simp_all add: op_tok_def)
  have "derives ARG (map ttype ts)"
  proof -
    have "derives ARG (replicate (length vs) TOKEN_WORD @ [])" by (simp only: d) simp
    then have "derives ARG (op # TOKEN_WORD # replicate (length vs) TOKEN_WORD)" using assms(2) by auto
    moreover have "map ttype ts = replicate (length ws) TOKEN_WORD @ op # TOKEN_WORD # replicate (length vs) TOKEN_WORD"
      unfolding assms(3) map_append ty by (simp add: tok_def op_tok_def)
    ultimately show ?thesis by (simp only: d)
  qed
  moreover obtain a as where "ws = a # as" using assms(1) by (cases ws) auto
  then have "ts = tok a # tl ts" "ttype (tok a) = TOKEN_WORD" by (simp_all add: assms(3) tok_def)
  then obtain r where "map ttype ts = TOKEN_WORD # r" by (metis list.simps(9))
  ultimately have "derives LINE (map ttype ts)" by simp
  then show ?thesis
    using seg grp tw by (simp add: validate_derives extract_segment_argv_def extract_bg_argv_def)
qed

theorem foreground_loses_words_after_redirection_witness:
  "extract_group [tok ''echo'', op_tok TOKEN_OP_GT, tok ''out'', tok ''hello''] = [''echo'']
   \<and> extract_segment_argv [tok ''echo'', op_tok TOKEN_OP_GT, tok ''out'', tok ''hello''] = [''echo'', ''hello'']"
  using foreground_loses_words_after_redirection [of "[''echo'']" TOKEN_OP_GT _ "''out''" "[''hello'']", OF _ _ refl] by simp

end
