(* ===== verification/Shell_Facts.thy ===== *)
theory Shell_Facts
  imports Shell_Run
begin

text \<open>
  Properties of running a line: the order of the groups, the jobs that a wait
  leaves behind, the process group of a pipeline, and the search for a program.
\<close>

section \<open>Waiting compacts the arrays\<close>

definition survivor :: "(int \<Rightarrow> wstatus) \<Rightarrow> int \<times> string \<Rightarrow> bool" where
  "survivor wait pn = (fst pn > 0 \<and> is_stop (wait (fst pn)))"

definition interrupted :: "(int \<Rightarrow> wstatus) \<Rightarrow> int list \<Rightarrow> bool" where
  "interrupted wait pids = list_ex (\<lambda>p. p > 0 \<and> wait p = Signaled 2) pids"

lemma zip_snoc:
  assumes "sn < length pids" "sn < length names"
  shows "zip (take (Suc sn) (pids[sn := p])) (take (Suc sn) (names[sn := q])) =
    zip (take sn pids) (take sn names) @ [(p, q)]"
  using assms by (simp add: take_Suc_conv_app_nth zip_append)

lemma fg_loop_spec:
  assumes "fg_loop wait k i sn pids names intr = (sn', pids', names', intr')"
    "sn \<le> i" "i + k = length pids" "length names = length pids"
  shows "zip (take sn' pids') (take sn' names') =
      zip (take sn pids) (take sn names) @ filter (survivor wait) (zip (drop i pids) (drop i names))
    \<and> sn' \<le> length pids' \<and> length pids' = length pids \<and> length names' = length names
    \<and> sn' = sn + length (filter (survivor wait) (zip (drop i pids) (drop i names)))
    \<and> intr' = (intr \<or> interrupted wait (drop i pids))"
  using assms
proof (induction k arbitrary: i sn pids names intr)
  case 0
  then show ?case by (auto simp: interrupted_def)
next
  case (Suc k)
  have i: "i < length pids" "i < length names" using Suc.prems(3,4) by simp_all
  let ?p = "pids ! i" and ?q = "names ! i"
  have d: "zip (drop i pids) (drop i names) = (?p, ?q) # zip (drop (Suc i) pids) (drop (Suc i) names)"
    using i by (simp flip: Cons_nth_drop_Suc)
  have di: "interrupted wait (drop i pids) = (?p > 0 \<and> wait ?p = Signaled 2 \<or> interrupted wait (drop (Suc i) pids))"
    using i by (simp add: interrupted_def flip: Cons_nth_drop_Suc)
  show ?case
  proof (cases "?p > 0 \<and> is_stop (wait ?p)")
    case True
    let ?pids = "pids[sn := ?p]" and ?names = "names[sn := ?q]"
    from True obtain sig where st: "wait ?p = Stopped sig" by (auto simp: is_stop_def split: wstatus.splits)
    have nn: "(if sn \<noteq> i then names[sn := ?q] else names) = ?names" by simp
    have "fg_loop wait k (Suc i) (Suc sn) ?pids ?names intr = (sn', pids', names', intr')"
      using Suc.prems(1) True st nn by simp
    from Suc.IH [OF this] Suc.prems(2-4) show ?thesis
      using True st i d di zip_snoc [of sn pids names ?p ?q]
      by (elim conjE) (auto simp: survivor_def)
  next
    case False
    have "\<exists>b. fg_loop wait k (Suc i) sn pids names (intr \<or> b) = (sn', pids', names', intr')
        \<and> b = (?p > 0 \<and> wait ?p = Signaled 2)"
      using Suc.prems(1) False by (auto simp: is_stop_def split: if_splits wstatus.splits)
    then have "fg_loop wait k (Suc i) sn pids names (intr \<or> (?p > 0 \<and> wait ?p = Signaled 2)) = (sn', pids', names', intr')"
      by blast
    from Suc.IH [OF this _ _ Suc.prems(4)] Suc.prems(2,3) False show ?thesis
      using d di by (auto simp: survivor_def)
  qed
qed

text \<open>
  what waiting for a foreground job does.  The processes that stopped, and
  no others, become one stopped job, in pipeline order and each with its own
  name, although the loop moves them within the arrays it reads; without any,
  the table does not change.  Either way the terminal is taken back first.
\<close>

theorem fg_wait_keeps_stopped_processes:
  assumes "length names = length pids"
  shows "fg_wait tty wait pg pids names cl s =
    (let st = filter (survivor wait) (zip pids names);
         s1 = emit (OutTermTake # (if interrupted wait pids \<or> (st \<noteq> [] \<and> tty) then [OutLine []] else [])) s
     in if st = [] then (0, s1) else (1, register_stopped_job pg (map fst st) (map snd st) (Some cl) s1))"
proof -
  obtain sn pids' names' intr where f: "fg_loop wait (length pids) 0 0 pids names False = (sn, pids', names', intr)"
    by (metis prod_cases4)
  let ?st = "filter (survivor wait) (zip pids names)"
  note spec = fg_loop_spec [OF f]
  have z: "zip (take sn pids') (take sn names') = ?st" and l: "length pids' = length names'" "sn = length ?st" "sn \<le> length pids'"
    and it: "intr = interrupted wait pids"
    using spec assms by auto
  have "map fst ?st = take sn pids'" "map snd ?st = take sn names'" using l by (simp_all flip: z)
  then show ?thesis using l(2) it by (auto simp: fg_wait_def f Let_def)
qed

theorem fg_wait_keeps_stopped_processes_witness:
  "length [''a'', ''b'', ''c''] = length [(7 :: int), 8, 9]
   \<and> fst (fg_wait True (\<lambda>p. if p = 8 then Exited 0 else Stopped 20) 7 [7, 8, 9] [''a'', ''b'', ''c''] ''a | b | c'' init_bg) = 1"
  using fg_wait_keeps_stopped_processes [of "[''a'', ''b'', ''c'']" "[7, 8, 9]" True
      "\<lambda>p. if p = 8 then Exited 0 else Stopped 20" 7 "''a | b | c''" init_bg]
  by (simp add: survivor_def is_stop_def Let_def)

section \<open>The process group of a pipeline\<close>

lemma fork_stage_pid: "\<forall>i. fork e i \<noteq> 0 \<Longrightarrow> fst (fork_stage e i w) \<noteq> 0"
  by (simp add: fork_stage_def)

lemma start_stage_pid: "\<forall>i. fork e i \<noteq> 0 \<Longrightarrow> fst (start_stage e i seg w) \<noteq> 0"
  by (auto simp: start_stage_def fork_stage_pid split: list.split prod.split option.split)

lemma launch_spec:
  assumes "\<forall>i. fork e i \<noteq> 0" "launch e i segs pg w = (pids, pg', w')"
  shows "length pids = length segs \<and> 0 \<notin> set pids \<and>
    pg' = (if pg \<noteq> 0 then pg else case filter (\<lambda>p. p \<ge> 0) pids of [] \<Rightarrow> 0 | p # _ \<Rightarrow> p)"
  using assms(2)
proof (induction segs arbitrary: i pg w pids pg' w')
  case (Cons seg segs)
  obtain pid w1 where s: "start_stage e i seg w = (pid, w1)" by (cases "start_stage e i seg w")
  obtain ps pg2 w2 where l: "launch e (Suc i) segs (if pid \<ge> 0 \<and> pg = 0 then pid else pg) w1 = (ps, pg2, w2)"
    by (metis prod_cases3)
  have "pid \<noteq> 0" using start_stage_pid [OF assms(1), of i seg w] s by simp
  with Cons.IH [OF l] Cons.prems s l show ?case by (auto split: if_splits)
qed simp

text \<open>
  a background pipeline.  If the shell launches any stage at all, the process
  group it reports is the pid of the first recorded stage, and the recorded
  stages are the first sixteen that were started, in order.
\<close>

theorem bg_pipeline_group_is_first_stage:
  assumes "\<forall>i. fork e i \<noteq> 0" "execute_pipeline_bg e start w = (pg, rec, w')"
  shows "length rec \<le> MAX_JOB_PROCS \<and> (\<forall>(p, nm) \<in> set rec. p > 0)
    \<and> (if rec = [] then pg = 0 else pg = fst (hd rec)) \<and> sigpipe_ignored w' = sigpipe_ignored w"
proof -
  let ?segs = "bg_segments start"
  obtain ok w1 where v: "validate_all e ?segs (w\<lparr>sigpipe_ignored := True\<rparr>) = (ok, w1)"
    by (cases "validate_all e ?segs (w\<lparr>sigpipe_ignored := True\<rparr>)")
  show ?thesis
  proof (cases "ok \<and> pipes_ok e")
    case False
    with assms(2) v show ?thesis by (auto simp: execute_pipeline_bg_def)
  next
    case True
    obtain pids pg1 w2 where l: "launch e 0 ?segs 0 w1 = (pids, pg1, w2)" by (metis prod_cases3)
    note spec = launch_spec [OF assms(1) l]
    have r: "rec = recorded pids ?segs" "pg = (if rec \<noteq> [] then pg1 else 0)" "sigpipe_ignored w' = sigpipe_ignored w"
      using assms(2) v True l by (auto simp: execute_pipeline_bg_def Let_def)
    let ?z = "filter (\<lambda>(p, nm). p \<ge> 0) (zip pids (map (stage_name ''?'') ?segs))"
    have mz: "map fst ?z = filter (\<lambda>p. p \<ge> 0) pids"
    proof -
      have "map fst (filter (\<lambda>(p, nm). p \<ge> 0) (zip ps ns)) = filter (\<lambda>p. p \<ge> 0) ps"
        if "length ps = length ns" for ps :: "int list" and ns :: "string list"
        using that by (induction ps ns rule: list_induct2) auto
      then show ?thesis using spec by simp
    qed
    have "pg1 = fst (hd rec)" if "rec \<noteq> []"
    proof -
      have z: "?z \<noteq> []" "hd rec = hd ?z" using that r(1) by (auto simp: recorded_def MAX_JOB_PROCS_def hd_take)
      then obtain p ps where "filter (\<lambda>p. p \<ge> 0) pids = p # ps" "fst (hd ?z) = p"
        using mz by (metis hd_map list.exhaust list.sel(1) list.simps(8) map_is_Nil_conv)
      with spec z show ?thesis by simp
    qed
    moreover have "p > 0" if "(p, nm) \<in> set rec" for p nm
    proof -
      have "p \<ge> 0" "p \<in> set pids" using that r(1) by (auto simp: recorded_def dest!: in_set_takeD set_zip_leftD)
      with spec show ?thesis by (metis order_le_imp_less_or_eq)
    qed
    ultimately show ?thesis using r by (auto simp: recorded_def)
  qed
qed

lemma validate_w_sigpipe: "validate_w e ts w = (ok, w') \<Longrightarrow> sigpipe_ignored w' = sigpipe_ignored w"
  by (auto simp: validate_w_def emit_w_def split: prod.splits)

lemma validate_all_sigpipe: "validate_all e segs w = (ok, w') \<Longrightarrow> sigpipe_ignored w' = sigpipe_ignored w"
  by (induction segs arbitrary: w) (auto split: prod.splits if_splits dest: validate_w_sigpipe)

text \<open>
  the signal disposition after a pipeline.  A background pipeline always
  restores it; a foreground pipeline that gives up before it starts its stages,
  because a redirection target cannot be opened or no pipe can be made, leaves
  \<open>SIGPIPE\<close> ignored in the shell for good.
\<close>

theorem failed_pipeline_leaves_sigpipe_ignored:
  assumes "\<not> fst (validate_all e (fg_segments start) (w\<lparr>sigpipe_ignored := True\<rparr>)) \<or> \<not> pipes_ok e"
  shows "sigpipe_ignored (snd (execute_pipeline e start w))"
proof -
  obtain ok w1 where v: "validate_all e (fg_segments start) (w\<lparr>sigpipe_ignored := True\<rparr>) = (ok, w1)"
    by (cases "validate_all e (fg_segments start) (w\<lparr>sigpipe_ignored := True\<rparr>)")
  with assms validate_all_sigpipe [OF v] show ?thesis by (auto simp: execute_pipeline_def)
qed

section \<open>Groups in order\<close>

text \<open>A group starts with a word, holds no separator, and its redirections have targets.\<close>

definition group_ok :: "Token list \<Rightarrow> bool" where
  "group_ok g = (g \<noteq> [] \<and> ttype (hd g) = TOKEN_WORD \<and> list_all (\<lambda>t. \<not> ends_group t) g \<and> redirs_followed g)"

lemma cut_group: "list_all (\<lambda>t. \<not> ends_group t) g \<Longrightarrow> ends_group sep \<Longrightarrow>
   takeWhile (\<lambda>t. \<not> ends_group t) (g @ sep # rest) = g \<and> dropWhile (\<lambda>t. \<not> ends_group t) (g @ sep # rest) = sep # rest"
  by (induction g) auto

lemma cut_whole: "list_all (\<lambda>t. \<not> ends_group t) g \<Longrightarrow>
   takeWhile (\<lambda>t. \<not> ends_group t) g = g \<and> dropWhile (\<lambda>t. \<not> ends_group t) g = []"
  by (induction g) auto

lemma validate_cut:
  "list_all (\<lambda>t. \<not> ends_group t) g \<Longrightarrow> ends_group sep \<Longrightarrow>
   redirs_validate op (g @ sep # rest) f0 = redirs_validate op g f0"
proof (induction op g f0 rule: redirs_validate.induct)
  case (1 op f0)
  then show ?case by (cases rest) auto
next
  case (2 op t f0)
  then show ?case by (cases rest) auto
next
  case (3 op t u ts f0)
  then show ?case by (auto simp: Let_def split: prod.split)
qed

lemma targets_cut:
  "list_all (\<lambda>t. \<not> ends_group t) g \<Longrightarrow> redirs_followed g \<Longrightarrow> ends_group sep \<Longrightarrow>
   redir_targets (g @ sep # rest) = redir_targets g"
proof (induction g rule: redir_targets.induct)
  case 1
  then show ?case by (cases rest) auto
next
  case (2 t)
  then show ?case by (cases rest) (auto simp: is_redir_def)
next
  case (3 t u ts)
  then show ?case by (auto simp: is_redir_def split: if_splits)
qed

lemma extract_group_cut:
  "list_all (\<lambda>t. \<not> ends_group t) g \<Longrightarrow> ends_group sep \<Longrightarrow> extract_group (g @ sep # rest) = extract_group g"
  by (induction g) auto

lemma cmdline_cut:
  assumes "list_all (\<lambda>t. \<not> ends_group t) g" "ends_group sep"
  shows "group_cmdline (g @ sep # rest) = group_cmdline g"
proof -
  have "group_text sz out (g @ sep # rest) = group_text sz out g" for sz out
    using assms
  proof (induction g arbitrary: out)
    case Nil
    then show ?case by (simp add: ends_group_def)
  next
    case (Cons t g)
    then show ?case by (simp split: option.split)
  qed
  then show ?thesis by (simp add: group_cmdline_def token_group_to_string_def)
qed

lemma open_cut:
  "list_all (\<lambda>t. \<not> ends_group t) g \<Longrightarrow> redirs_followed g \<Longrightarrow> ends_group sep \<Longrightarrow>
   open_w e i (g @ sep # rest) w = open_w e i g w"
  by (simp add: open_w_def redirs_open_def targets_cut)

lemma run_group_cut:
  assumes "group_ok g" "ends_group sep"
  shows "run_group e (g @ sep # rest) w = run_group e g w"
proof -
  have g: "list_all (\<lambda>t. \<not> ends_group t) g" "redirs_followed g" "g \<noteq> []"
    using assms(1) by (auto simp: group_ok_def)
  note cuts = validate_cut [OF g(1) assms(2)] open_cut [OF g(1,2) assms(2)] extract_group_cut [OF g(1) assms(2)]
    cmdline_cut [OF g(1) assms(2)] conjunct1 [OF cut_group [OF g(1) assms(2)]] conjunct1 [OF cut_whole [OF g(1)]]
  have "execute_pipeline e (g @ sep # rest) w = execute_pipeline e g w"
    unfolding execute_pipeline_def fg_segments_def cuts ..
  moreover have "execute_command e argv (g @ sep # rest) w = execute_command e argv g w" for argv
    unfolding execute_command_def validate_w_def cuts ..
  moreover have "apply_redirections e (g @ sep # rest) w = apply_redirections e g w"
    unfolding apply_redirections_def validate_w_def cuts ..
  ultimately show ?thesis using g(3) unfolding run_group_def cuts by simp
qed

lemma run_bg_group_cut:
  assumes "group_ok g" "ttype sep = TOKEN_OP_AMP"
  shows "run_bg_group e (g @ sep # rest) w = run_bg_group e g w"
proof -
  have es: "ends_group sep" using assms(2) by (simp add: ends_group_def)
  have g: "list_all (\<lambda>t. \<not> ends_group t) g" "g \<noteq> []" using assms(1) by (auto simp: group_ok_def)
  have "list_all (\<lambda>t. ttype t \<noteq> TOKEN_OP_AMP) g" using g(1) by (auto simp: list_all_iff ends_group_def)
  then have tw: "takeWhile (\<lambda>t. ttype t \<noteq> TOKEN_OP_AMP) (g @ sep # rest) = g" "takeWhile (\<lambda>t. ttype t \<noteq> TOKEN_OP_AMP) g = g"
    using assms(2) by (induction g) auto
  have "execute_pipeline_bg e (g @ sep # rest) w = execute_pipeline_bg e g w"
    unfolding execute_pipeline_bg_def bg_segments_def tw ..
  with g(2) show ?thesis
    unfolding run_bg_group_def extract_bg_argv_def tw cmdline_cut [OF g(1) es] by simp
qed

text \<open>The groups of a line with the operator behind each; the line may end without one.\<close>

fun line_of :: "(Token list \<times> bool) list \<Rightarrow> Token list" where
  "line_of [] = []"
| "line_of ((g, bg) # gs) = g @ op_tok (if bg then TOKEN_OP_AMP else TOKEN_OP_SEMI) # line_of gs"

fun run_groups ::
  "(Token list \<Rightarrow> 'w \<Rightarrow> int \<times> 'w) \<Rightarrow> (Token list \<Rightarrow> 'w \<Rightarrow> 'w) \<Rightarrow> (Token list \<times> bool) list \<Rightarrow> 'w \<Rightarrow> int \<times> 'w" where
  "run_groups f b [] w = (0, w)"
| "run_groups f b ((g, True) # gs) w = run_groups f b gs (b g w)"
| "run_groups f b ((g, False) # gs) w =
     (case f g w of (rc, w') \<Rightarrow> if rc \<noteq> 0 then (rc, w') else run_groups f b gs w')"

lemma run_sequence_word:
  assumes "ttype t = TOKEN_WORD"
  shows "dropWhile (\<lambda>t. \<not> ends_group t) (t # ts) = [] \<Longrightarrow> run_sequence f b (t # ts) w = snd (f (t # ts) w)"
    "dropWhile (\<lambda>t. \<not> ends_group t) (t # ts) = op # rest \<Longrightarrow> run_sequence f b (t # ts) w =
       (if ttype op = TOKEN_OP_AMP then run_sequence f b rest (b (t # ts) w)
        else case f (t # ts) w of (rc, w') \<Rightarrow> if rc \<noteq> 0 then w' else run_sequence f b rest w')"
  using assms word_not_redir [OF assms] by (simp_all del: dropWhile_eq_Nil_conv)

lemma run_line_group:
  assumes "group_ok g"
  shows "run_line e g w = snd (run_group e g w)"
proof -
  obtain t r where g: "g = t # r" "ttype t = TOKEN_WORD" using assms by (cases g) (auto simp: group_ok_def)
  have "dropWhile (\<lambda>t. \<not> ends_group t) (t # r) = []" using assms g(1) cut_whole [of g] by (simp add: group_ok_def)
  then show ?thesis using run_sequence_word(1) [OF g(2)] by (simp only: run_line_def g(1))
qed

lemma run_line_step:
  assumes "group_ok g"
  shows "run_line e (g @ op_tok (if bg then TOKEN_OP_AMP else TOKEN_OP_SEMI) # rest) w =
    (if bg then run_line e rest (run_bg_group e g w)
     else case run_group e g w of (rc, w') \<Rightarrow> if rc \<noteq> 0 then w' else run_line e rest w')"
proof -
  let ?sep = "op_tok (if bg then TOKEN_OP_AMP else TOKEN_OP_SEMI)"
  have es: "ends_group ?sep" by (simp add: op_tok_def ends_group_def)
  obtain t r where g: "g = t # r" "ttype t = TOKEN_WORD" using assms by (cases g) (auto simp: group_ok_def)
  have d: "dropWhile (\<lambda>t. \<not> ends_group t) (t # r @ ?sep # rest) = ?sep # rest"
    using assms g(1) cut_group [of g ?sep rest] es by (simp add: group_ok_def)
  have rf: "run_group e (t # r @ ?sep # rest) w = run_group e g w" using run_group_cut [OF assms es, of e rest w] g(1) by simp
  have rb: "bg \<Longrightarrow> run_bg_group e (t # r @ ?sep # rest) w = run_bg_group e g w"
    using run_bg_group_cut [OF assms, of ?sep e rest w] g(1) by (simp add: op_tok_def)
  show ?thesis
    unfolding run_line_def g(1) append_Cons run_sequence_word(2) [OF g(2) d]
    using rf rb by (cases bg) (simp_all add: g(1) op_tok_def)
qed

text \<open>
  a line is run group by group in the order typed.  A group followed by an
  ampersand is started in the background and the line goes on; any other group
  runs in the foreground, and the line stops after the first one whose command
  is not found.  What a group does never depends on the tokens behind its
  separator.
\<close>

theorem line_runs_groups_in_order:
  assumes "\<forall>(g, bg) \<in> set gs. group_ok g" "group_ok g1"
  shows "run_line e (line_of gs) w = snd (run_groups (run_group e) (run_bg_group e) gs w)
    \<and> run_line e (line_of gs @ g1) w = snd (run_groups (run_group e) (run_bg_group e) (gs @ [(g1, False)]) w)"
  using assms(1)
proof (induction gs arbitrary: w)
  case Nil
  show ?case using run_line_group [OF assms(2), of e w] by (auto simp: run_line_def split: prod.split)
next
  case (Cons p gs)
  obtain g bg where p: "p = (g, bg)" by (cases p)
  then have g: "group_ok g" using Cons.prems by auto
  have IH: "run_line e (line_of gs) w = snd (run_groups (run_group e) (run_bg_group e) gs w)"
    "run_line e (line_of gs @ g1) w = snd (run_groups (run_group e) (run_bg_group e) (gs @ [(g1, False)]) w)" for w
    using Cons by auto
  show ?case
    by (cases bg) (simp_all add: p run_line_step [OF g] IH split: prod.split del: if_True if_False)
qed

definition all_ok_env :: "unit env" where
  "all_ok_env = \<lparr>opn = (\<lambda>q f. (True, f)), helpers = (\<lambda>i. (True, True)),
     resolve = (\<lambda>n. if n = ''nope'' then None else Some n), fork = (\<lambda>i. int i + 100),
     pipes_ok = True, wait_status = (\<lambda>p. Exited 0), builtin = (\<lambda>argv w. w), is_tty = False\<rparr>"

definition start_world :: "unit world" where
  "start_world = \<lparr>fs = (), sh = init_bg, sigpipe_ignored = False\<rparr>"

theorem line_runs_groups_in_order_witness:
  "\<exists>gs. gs = [([tok ''nope''], False), ([tok ''ls''], True)] \<and> list_all (\<lambda>(g, bg). group_ok g) gs \<and> group_ok [tok ''pwd'']
   \<and> run_line all_ok_env (line_of gs) start_world = snd (run_groups (run_group all_ok_env) (run_bg_group all_ok_env) gs start_world)"
proof -
  let ?gs = "[([tok ''nope''], False), ([tok ''ls''], True)]"
  have h: "\<forall>(g, bg) \<in> set ?gs. group_ok g" "group_ok [tok ''pwd'']" by (simp_all add: group_ok_def tok_simps)
  from line_runs_groups_in_order [OF h] h show ?thesis by auto
qed

theorem bg_pipeline_group_is_first_stage_witness:
  "\<exists>pg rec w'. execute_pipeline_bg all_ok_env [tok ''ls'', op_tok TOKEN_OP_PIPE, tok ''wc''] start_world = (pg, rec, w')
     \<and> (if rec = [] then pg = 0 else pg = fst (hd rec))"
proof -
  let ?ts = "[tok ''ls'', op_tok TOKEN_OP_PIPE, tok ''wc'']"
  obtain pg rec w' where x: "execute_pipeline_bg all_ok_env ?ts start_world = (pg, rec, w')" by (metis prod_cases3)
  have "\<forall>i. fork all_ok_env i \<noteq> 0" by (simp add: all_ok_env_def)
  from bg_pipeline_group_is_first_stage [OF this x] x show ?thesis by blast
qed

theorem failed_pipeline_leaves_sigpipe_ignored_witness:
  "\<exists>e. e = all_ok_env\<lparr>opn := (\<lambda>q f. (False, f))\<rparr> \<and> \<not> sigpipe_ignored start_world
     \<and> sigpipe_ignored (snd (execute_pipeline e [tok ''wc'', op_tok TOKEN_OP_LT, tok ''x'', op_tok TOKEN_OP_PIPE, tok ''wc''] start_world))"
proof -
  let ?e = "all_ok_env\<lparr>opn := (\<lambda>q f. (False, f))\<rparr>"
  let ?ts = "[tok ''wc'', op_tok TOKEN_OP_LT, tok ''x'', op_tok TOKEN_OP_PIPE, tok ''wc'']"
  have "\<not> fst (validate_all ?e (fg_segments ?ts) (start_world\<lparr>sigpipe_ignored := True\<rparr>))"
    by (simp add: fg_segments_def tok_simps validate_w_def)
  then have "sigpipe_ignored (snd (execute_pipeline ?e ?ts start_world))"
    by (intro failed_pipeline_leaves_sigpipe_ignored disjI1)
  then show ?thesis by (auto simp: start_world_def)
qed

section \<open>Finding the program\<close>

fun colon_list :: "string list \<Rightarrow> string" where
  "colon_list [] = []"
| "colon_list [d] = d"
| "colon_list (d # ds) = d @ '':'' @ colon_list ds"

lemma split_path_field: "CHR '':'' \<notin> set d \<Longrightarrow> split_path cur (d @ s) = split_path (cur @ d) s"
  by (induction d arbitrary: cur) auto

lemma split_colon_list:
  "\<forall>d \<in> set ds. d \<noteq> [] \<and> CHR '':'' \<notin> set d \<Longrightarrow> split_path [] (colon_list ds) = ds"
proof (induction ds rule: colon_list.induct)
  case (2 d)
  then show ?case using split_path_field [of d "[]" "[]"] by simp
next
  case (3 d e ds)
  then show ?case by (simp add: split_path_field)
qed simp

text \<open>
  which program a name without a slash stands for: the first executable one
  among the name in the current directory and the name in each directory of
  \<open>PATH\<close>, in order; a leading percent sign leaves out the current directory.
  Paths are assumed to fit the buffer.
\<close>

theorem resolve_command_first_candidate:
  assumes "name \<noteq> []" "CHR ''/'' \<notin> set name" "\<forall>d \<in> set ds. d \<noteq> [] \<and> CHR '':'' \<notin> set d"
    "\<forall>d \<in> set (cwd # ds). length (join_path d name) < PATH_MAX"
  shows "resolve_command exec (Some cwd) (Some (colon_list ds)) name =
    (if hd name = CHR ''%'' then find exec (map (\<lambda>d. join_path d (tl name)) ds)
     else find exec (map (\<lambda>d. join_path d name) (cwd # ds)))"
proof -
  have "length (join_path d (tl name)) < PATH_MAX" if "d \<in> set (cwd # ds)" for d
    using assms(4) that by (fastforce simp: join_path_def)
  then have m1: "map (\<lambda>d. take (PATH_MAX - 1) (join_path d (tl name))) ds = map (\<lambda>d. join_path d (tl name)) ds"
    by (intro map_cong refl) (fastforce intro!: take_all)
  have m2: "map (\<lambda>d. take (PATH_MAX - 1) (join_path d name)) ds = map (\<lambda>d. join_path d name) ds"
    using assms(4) by (intro map_cong refl) (fastforce intro!: take_all)
  show ?thesis
    using assms by (simp add: resolve_command_def split_colon_list [OF assms(3)] m1 m2 Let_def del: One_nat_def)
qed

theorem resolve_command_first_candidate_witness:
  "resolve_command (\<lambda>p. p = ''/bin/ls'') (Some ''/home'') (Some ''/usr/bin:/bin'') ''ls'' = Some ''/bin/ls''"
  using resolve_command_first_candidate [of "''ls''" "[''/usr/bin'', ''/bin'']" "''/home''" "\<lambda>p. p = ''/bin/ls''"]
  by (simp add: join_path_def PATH_MAX_def)

end
