(* ===== verification/Peek.thy ===== *)
theory Peek
  imports Lexer
begin

text \<open>
  The \<open>peek\<close> command of the shell (\<open>c-shell/src/peek.c\<close>): printing files forward
  or backward, with numbers on the lines that are not blank.

  A stream is the list of characters still to be read.  A regular file does not
  change while it is read, so a read at a position returns the bytes there.  The
  C strings of the code stop at a NUL, which \<open>upto_nul\<close> writes out.  Memory is
  assumed to be there: the code does not look at the results of most allocations.
  Line numbers are mathematical integers.

  The backward reader of regular files works on chunks of 4096 bytes from the end
  and carries the unfinished line over; it is shown to print what the reader that
  holds all lines in memory prints.
\<close>

section \<open>Lines\<close>

abbreviation NLc :: char where "NLc \<equiv> CHR 0x0A"

definition upto_nul :: "string \<Rightarrow> string" where
  "upto_nul s = takeWhile (\<lambda>c. c \<noteq> CHR 0x00) s"

fun digits :: "nat \<Rightarrow> string" where
  "digits n = (if n < 10 then [char_of (48 + n)] else digits (n div 10) @ [char_of (48 + n mod 10)])"

declare digits.simps [simp del]

definition print_int :: "int \<Rightarrow> string" where
  "print_int i = (if i < 0 then ''-'' @ digits (nat (- i)) else digits (nat i))"

definition is_empty_line :: "string \<Rightarrow> bool" where
  "is_empty_line line = list_all isspace (upto_nul line)"

fun take_line :: "string \<Rightarrow> string \<times> string" where
  "take_line [] = ([], [])"
| "take_line (c # cs) =
     (if c = NLc then ([c], cs) else (case take_line cs of (l, r) \<Rightarrow> (c # l, r)))"

definition getline :: "string \<Rightarrow> (string \<times> string) option" where
  "getline inp = (if inp = [] then None else Some (take_line inp))"

lemma take_line_append: "take_line c = (l, r) \<Longrightarrow> l @ r = c"
  by (induction c arbitrary: l r) (auto split: if_splits prod.splits)

lemma take_line_nonempty: "c \<noteq> [] \<Longrightarrow> take_line c = (l, r) \<Longrightarrow> l \<noteq> []"
  by (cases c) (auto split: if_splits prod.splits)

lemma take_line_length: "inp \<noteq> [] \<Longrightarrow> take_line inp = (l, r) \<Longrightarrow> length r < length inp"
  using take_line_append [of inp l r] take_line_nonempty [of inp l r] by (cases l) auto

lemma getline_length: "getline inp = Some (l, r) \<Longrightarrow> length r < length inp"
  using take_line_length by (auto simp: getline_def split: if_splits)

section \<open>Reading forward\<close>

function peek_forward :: "bool \<Rightarrow> int \<Rightarrow> string \<Rightarrow> string \<times> int" where
  "peek_forward n line_num inp =
     (case getline inp of
        None \<Rightarrow> ([], line_num)
      | Some (line, rest) \<Rightarrow>
          let txt = upto_nul line;
              has_nl = (txt \<noteq> [] \<and> last txt = NLc);
              (s, ln1) = (if n \<and> \<not> is_empty_line line then (print_int line_num @ '' '' @ txt, line_num + 1)
                          else (txt, line_num));
              (out, ln2) = peek_forward n ln1 rest
          in (s @ (if has_nl then [] else [NLc]) @ out, ln2))"
  by pat_completeness auto
termination by (relation "measure (\<lambda>(n, ln, inp). length inp)") (auto dest: getline_length)

section \<open>Reading backward with all lines in memory\<close>

text \<open>The forward pass: the lines with their numbers, 0 for none.\<close>

function number_lines :: "bool \<Rightarrow> int \<Rightarrow> string \<Rightarrow> (string \<times> int) list \<times> int" where
  "number_lines n line_num inp =
     (case getline inp of
        None \<Rightarrow> ([], line_num)
      | Some (line, rest) \<Rightarrow>
          let (k, ln1) = (if n \<and> \<not> is_empty_line line then (line_num, line_num + 1) else (0, line_num));
              (ls, ln2) = number_lines n ln1 rest
          in ((upto_nul line, k) # ls, ln2))"
  by pat_completeness auto
termination by (relation "measure (\<lambda>(n, ln, inp). length inp)") (auto dest: getline_length)

declare peek_forward.simps [simp del] number_lines.simps [simp del]

definition print_stored :: "bool \<Rightarrow> string \<times> int \<Rightarrow> string" where
  "print_stored n e =
     (case e of (txt, k) \<Rightarrow>
        (if n \<and> k \<noteq> 0 then print_int k @ '' '' @ txt else txt) @
        (if txt \<noteq> [] \<and> last txt = NLc then [] else [NLc]))"

definition peek_reverse_buffered :: "bool \<Rightarrow> int \<Rightarrow> string \<Rightarrow> string \<times> int" where
  "peek_reverse_buffered n line_num inp =
     (case number_lines n line_num inp of (ls, ln) \<Rightarrow> (concat (map (print_stored n) (rev ls)), ln))"

section \<open>Reading a regular file backward\<close>

definition CHUNK_SIZE :: nat where "CHUNK_SIZE = 4096"

text \<open>The state of the counting loop: \<open>count\<close> and \<open>has_content\<close>.\<close>

fun count_chunk :: "string \<Rightarrow> int \<times> bool \<Rightarrow> int \<times> bool" where
  "count_chunk [] st = st"
| "count_chunk (c # cs) (count, has) =
     count_chunk cs
       (if c = NLc then (count + (if has then 1 else 0), False)
        else if \<not> isspace c then (count, True) else (count, has))"

function count_from :: "string \<Rightarrow> int \<times> bool \<Rightarrow> int" where
  "count_from c st =
     (if c = [] then fst st + (if snd st then 1 else 0)
      else count_from (drop CHUNK_SIZE c) (count_chunk (take CHUNK_SIZE c) st))"
  by pat_completeness auto
termination by (relation "measure (\<lambda>(c, st). length c)") (auto simp: CHUNK_SIZE_def)

declare count_from.simps [simp del]

definition count_nonempty_lines :: "string \<Rightarrow> int" where
  "count_nonempty_lines c = count_from c (0, False)"

definition emit_reverse_line :: "string \<Rightarrow> bool \<Rightarrow> int \<Rightarrow> string \<times> int" where
  "emit_reverse_line txt n next_num =
     (if n \<and> \<not> is_empty_line txt then (print_int next_num @ '' '' @ upto_nul txt @ [NLc], next_num - 1)
      else (upto_nul txt @ [NLc], next_num))"

text \<open>An index \<open>i\<close> of the code, which may be -1, is \<open>k = i + 1\<close> here.\<close>

fun scan_back :: "string \<Rightarrow> nat \<Rightarrow> nat" where
  "scan_back buf 0 = 0"
| "scan_back buf (Suc i) = (if buf ! i = NLc then Suc i else scan_back buf i)"

lemma scan_back_le: "scan_back buf k \<le> k"
  by (induction buf k rule: scan_back.induct) auto

lemma scan_back_less: "0 < scan_back buf k \<Longrightarrow> scan_back buf k - 1 < k"
  using scan_back_le [of buf k] by linarith

function walk_chunk :: "bool \<Rightarrow> string \<Rightarrow> nat \<Rightarrow> string option \<Rightarrow> int \<Rightarrow> string \<times> string option \<times> int" where
  "walk_chunk n buf k leftover next_num =
     (if k = 0 then ([], leftover, next_num)
      else
        let j = scan_back buf k;
            piece = take (k - j) (drop j buf);
            full_line = (case leftover of None \<Rightarrow> piece | Some l \<Rightarrow> upto_nul piece @ upto_nul l)
        in if 0 < j then
             let (s, nn1) = emit_reverse_line full_line n next_num;
                 (out, l2, nn2) = walk_chunk n buf (j - 1) None nn1
             in (s @ out, l2, nn2)
           else ([], Some full_line, next_num))"
  by pat_completeness auto
termination by (relation "measure (\<lambda>(n, buf, k, l, m). k)") (auto dest: scan_back_less)

function reverse_loop :: "bool \<Rightarrow> string \<Rightarrow> nat \<Rightarrow> string option \<Rightarrow> int \<Rightarrow> string \<times> string option \<times> int" where
  "reverse_loop n c pos leftover next_num =
     (if pos = 0 then ([], leftover, next_num)
      else
        let to_read = (if pos > CHUNK_SIZE then CHUNK_SIZE else pos);
            pos1 = pos - to_read;
            buf = take to_read (drop pos1 c);
            k = (if pos1 + to_read = length c \<and> buf ! (to_read - 1) = NLc then to_read - 1 else to_read);
            (out1, l1, nn1) = walk_chunk n buf k leftover next_num;
            (out2, l2, nn2) = reverse_loop n c pos1 l1 nn1
        in (out1 @ out2, l2, nn2))"
  by pat_completeness auto
termination by (relation "measure (\<lambda>(n, c, pos, l, m). pos)") (auto simp: CHUNK_SIZE_def)

declare walk_chunk.simps [simp del] reverse_loop.simps [simp del]

definition peek_reverse_seekable :: "bool \<Rightarrow> int \<Rightarrow> string \<Rightarrow> string \<times> int" where
  "peek_reverse_seekable n line_num c =
     (if c = [] then ([], line_num)
      else
        let total = (if n then count_nonempty_lines c else 0);
            (out, leftover, nn) = reverse_loop n c (length c) None (line_num + total - 1)
        in (out @ fst (emit_reverse_line (case leftover of None \<Rightarrow> [] | Some l \<Rightarrow> l) n nn),
            line_num + total))"

section \<open>The command\<close>

datatype fkind = Directory | Regular | Special

text \<open>What the operating system answers: \<open>stat\<close>, and the contents that an open file has.\<close>

record peek_env =
  pe_stat :: "string \<Rightarrow> fkind option"
  pe_open :: "string \<Rightarrow> string option"

record peek_st =
  p_out :: string
  p_err :: "string list"
  p_num :: int
  p_stdin :: string

definition printed :: "string \<times> int \<Rightarrow> peek_st \<Rightarrow> peek_st" where
  "printed r x = x\<lparr>p_out := p_out x @ fst r, p_num := snd r\<rparr>"

definition complain :: "string \<Rightarrow> peek_st \<Rightarrow> peek_st" where
  "complain m x = x\<lparr>p_err := p_err x @ [m]\<rparr>"

definition process_file :: "peek_env \<Rightarrow> string option \<Rightarrow> bool \<Rightarrow> bool \<Rightarrow> peek_st \<Rightarrow> peek_st" where
  "process_file e name n r x =
     (if name = None \<or> name = Some ''-'' then
        (if r then printed (peek_reverse_buffered n (p_num x) (p_stdin x)) x
         else printed (peek_forward n (p_num x) (p_stdin x)) x)\<lparr>p_stdin := []\<rparr>
      else
        let f = the name in
        case pe_stat e f of
          None \<Rightarrow> complain ''peek: no such file or directory'' x
        | Some Directory \<Rightarrow> complain ''peek: is a directory'' x
        | Some kind \<Rightarrow>
            (case pe_open e f of
               None \<Rightarrow> x
             | Some c \<Rightarrow>
                 if r then
                   if kind = Regular then printed (peek_reverse_seekable n (p_num x) c) x
                   else printed (peek_reverse_buffered n (p_num x) c) x
                 else printed (peek_forward n (p_num x) c) x))"

fun peek_letters :: "string \<Rightarrow> bool \<times> bool \<Rightarrow> (bool \<times> bool) option" where
  "peek_letters [] fl = Some fl"
| "peek_letters (c # cs) (n, r) =
     (if c = CHR ''n'' then peek_letters cs (True, r)
      else if c = CHR ''r'' then peek_letters cs (n, True)
      else None)"

fun peek_flags :: "string list \<Rightarrow> bool \<times> bool \<Rightarrow> ((bool \<times> bool) \<times> string list) option" where
  "peek_flags [] fl = Some (fl, [])"
| "peek_flags (a # as) fl =
     (if a \<noteq> [] \<and> hd a = CHR ''-'' \<and> tl a \<noteq> [] then
        (case peek_letters (tl a) fl of None \<Rightarrow> None | Some fl1 \<Rightarrow> peek_flags as fl1)
      else Some (fl, a # as))"

fun peek_validate :: "peek_env \<Rightarrow> string list \<Rightarrow> bool \<times> string list" where
  "peek_validate e [] = (True, [])"
| "peek_validate e (a # as) =
     (case peek_validate e as of (ok, errs) \<Rightarrow>
        if a = ''-'' then (ok, errs)
        else case pe_stat e a of
               None \<Rightarrow> (False, ''peek: no such file or directory'' # errs)
             | Some Directory \<Rightarrow> (False, ''peek: is a directory'' # errs)
             | Some _ \<Rightarrow> (ok, errs))"

text \<open>\<open>args\<close> are \<open>argv[1]\<close> to \<open>argv[argc - 1]\<close>, and \<open>inp\<close> is the standard input.\<close>

definition peek_start :: "string \<Rightarrow> peek_st" where
  "peek_start inp = \<lparr>p_out = [], p_err = [], p_num = 1, p_stdin = inp\<rparr>"

definition peek :: "peek_env \<Rightarrow> string list \<Rightarrow> string \<Rightarrow> peek_st" where
  "peek e args inp =
     (case peek_flags args (False, False) of
        None \<Rightarrow> complain ''peek: invalid syntax'' (peek_start inp)
      | Some ((n, r), names) \<Rightarrow>
          if names = [] then process_file e None n r (peek_start inp)
          else
            (case peek_validate e names of (all_valid, errs) \<Rightarrow>
               let x = (peek_start inp)\<lparr>p_err := errs\<rparr> in
               if all_valid then foldl (\<lambda>x a. process_file e (Some a) n r x) x names else x))"

section \<open>What should be printed\<close>

primrec split_nl :: "string \<Rightarrow> string list" where
  "split_nl [] = [[]]"
| "split_nl (c # cs) = (if c = NLc then [] # split_nl cs else (c # hd (split_nl cs)) # tl (split_nl cs))"

definition file_lines :: "string \<Rightarrow> string list" where
  "file_lines c = (if c = [] then [] else if last c = NLc then split_nl (butlast c) else split_nl c)"

definition blank :: "string \<Rightarrow> bool" where
  "blank l = list_all isspace l"

fun fmt_lines :: "bool \<Rightarrow> int \<Rightarrow> string list \<Rightarrow> string list" where
  "fmt_lines n ln [] = []"
| "fmt_lines n ln (l # ls) =
     (if n \<and> \<not> blank l then (print_int ln @ '' '' @ l @ [NLc]) # fmt_lines n (ln + 1) ls
      else (l @ [NLc]) # fmt_lines n ln ls)"

definition nonblank :: "string list \<Rightarrow> int" where
  "nonblank ls = int (length (filter (\<lambda>l. \<not> blank l) ls))"

lemma nonblank_simps [simp]:
  "nonblank [] = 0" "nonblank (l # ls) = (if blank l then 0 else 1) + nonblank ls"
  "nonblank (ks @ ls) = nonblank ks + nonblank ls"
  by (simp_all add: nonblank_def)

lemma split_nl_nonempty [simp]: "split_nl c \<noteq> []"
  by (induction c) auto

lemma split_nl_free: "NLc \<notin> set l \<Longrightarrow> split_nl l = [l]"
  by (induction l) auto

lemma split_nl_snoc: "NLc \<notin> set w \<Longrightarrow> split_nl (xs @ NLc # w) = split_nl xs @ [w]"
  by (induction xs) (auto simp: split_nl_free)

lemma split_nl_cons: "NLc \<notin> set l \<Longrightarrow> split_nl (l @ NLc # rest) = l # split_nl rest"
  by (induction l) auto

lemma split_nl_append:
  "split_nl (xs @ ys) = butlast (split_nl xs) @ (last (split_nl xs) @ hd (split_nl ys)) # tl (split_nl ys)"
proof (induction xs)
  case (Cons c xs)
  show ?case
  proof (cases "split_nl xs")
    case (Cons a as)
    then show ?thesis using Cons.IH \<open>split_nl xs = a # as\<close> by (cases as) auto
  qed simp
qed simp

lemma hd_split_nl: "set (hd (split_nl xs)) \<subseteq> set xs - {NLc}"
  by (induction xs) auto

lemma set_split_nl: "l \<in> set (split_nl xs) \<Longrightarrow> set l \<subseteq> set xs - {NLc}"
proof (induction xs arbitrary: l)
  case (Cons c xs)
  show ?case
  proof (cases "c \<noteq> NLc \<and> l = c # hd (split_nl xs)")
    case True
    then have "set l = insert c (set (hd (split_nl xs)))" by simp
    with True hd_split_nl [of xs] show ?thesis by fastforce
  next
    case False
    then have "l = [] \<or> l \<in> set (split_nl xs)"
      using Cons.prems list.set_sel(2) [of "split_nl xs" l] by (auto split: if_splits)
    with Cons.IH [of l] show ?thesis by auto
  qed
qed simp

lemma file_lines_cons: "NLc \<notin> set l \<Longrightarrow> file_lines (l @ NLc # rest) = l # file_lines rest"
  by (cases "rest = []") (auto simp: file_lines_def split_nl_free split_nl_cons butlast_append)

lemma file_lines_free: "NLc \<notin> set c \<Longrightarrow> c \<noteq> [] \<Longrightarrow> file_lines c = [c]"
  using last_in_set by (fastforce simp: file_lines_def split_nl_free)

lemma set_file_lines: "l \<in> set (file_lines c) \<Longrightarrow> set l \<subseteq> set c"
  by (auto simp: file_lines_def dest!: set_split_nl in_set_butlastD split: if_splits)

lemma upto_nul_id: "CHR 0x00 \<notin> set s \<Longrightarrow> upto_nul s = s"
  by (auto simp: upto_nul_def takeWhile_eq_all_conv)

lemma is_empty_line_blank: "CHR 0x00 \<notin> set l \<Longrightarrow> is_empty_line l = blank l"
  by (simp add: is_empty_line_def blank_def upto_nul_id)

lemma blank_snoc [simp]: "blank (l @ [NLc]) = blank l"
  by (simp add: blank_def isspace_def)

section \<open>The readers that take whole lines\<close>

lemma take_line_cases:
  assumes "take_line c = (line, rest)" "c \<noteq> []"
  obtains l where "line = l @ [NLc]" "NLc \<notin> set l" "c = l @ NLc # rest"
  | "line = c" "NLc \<notin> set c" "rest = []"
proof -
  have "(\<exists>l. line = l @ [NLc] \<and> NLc \<notin> set l \<and> c = l @ NLc # rest) \<or> (line = c \<and> NLc \<notin> set c \<and> rest = [])"
    using assms
  proof (induction c arbitrary: line rest)
    case (Cons a c)
    show ?case
    proof (cases "a = NLc \<or> c = []")
      case True
      then show ?thesis using Cons.prems by (auto split: if_splits)
    next
      case False
      obtain l r where t: "take_line c = (l, r)" by (cases "take_line c")
      then have e: "line = a # l" "rest = r" using Cons.prems False by auto
      from Cons.IH [OF t] False show ?thesis
        unfolding e by (metis append_Cons set_ConsD)
    qed
  qed simp
  then show ?thesis using that by blast
qed

lemma peek_forward_lines:
  "CHR 0x00 \<notin> set c \<Longrightarrow>
   peek_forward n ln c = (concat (fmt_lines n ln (file_lines c)), ln + (if n then nonblank (file_lines c) else 0))"
proof (induction "length c" arbitrary: c ln rule: less_induct)
  case less
  show ?case
  proof (cases "c = []")
    case True
    then show ?thesis by (subst peek_forward.simps) (simp add: getline_def file_lines_def)
  next
    case False
    obtain line rest where t: "take_line c = (line, rest)" by (cases "take_line c")
    have g: "getline c = Some (line, rest)" using t False by (simp add: getline_def)
    have nr: "CHR 0x00 \<notin> set rest" "length rest < length c" "CHR 0x00 \<notin> set line"
      using take_line_append [OF t] less(2) getline_length [OF g] by auto
    note IH = less(1) [OF nr(2,1)]
    have up: "upto_nul line = line" "is_empty_line line = blank line"
      using nr(3) by (simp_all add: upto_nul_id is_empty_line_blank)
    from t False show ?thesis
    proof (cases rule: take_line_cases)
      case (1 l)
      then show ?thesis
        using g IH up file_lines_cons [OF 1(2), of rest]
        by (subst peek_forward.simps) (auto simp: Let_def)
    next
      case 2
      then have "last line \<noteq> NLc" using False last_in_set by metis
      then show ?thesis
        using g IH up file_lines_free [OF 2(2) False] 2 False
        by (subst peek_forward.simps) (auto simp: Let_def file_lines_def)
    qed
  qed
qed

lemma number_lines_lines:
  "CHR 0x00 \<notin> set c \<Longrightarrow> 1 \<le> ln \<Longrightarrow>
   map (print_stored n) (fst (number_lines n ln c)) = fmt_lines n ln (file_lines c) \<and>
   snd (number_lines n ln c) = ln + (if n then nonblank (file_lines c) else 0)"
proof (induction "length c" arbitrary: c ln rule: less_induct)
  case less
  show ?case
  proof (cases "c = []")
    case True
    then show ?thesis by (subst (1 2) number_lines.simps) (simp add: getline_def file_lines_def)
  next
    case False
    obtain line rest where t: "take_line c = (line, rest)" by (cases "take_line c")
    have g: "getline c = Some (line, rest)" using t False by (simp add: getline_def)
    have nr: "CHR 0x00 \<notin> set rest" "length rest < length c" "CHR 0x00 \<notin> set line"
      using take_line_append [OF t] less(2) getline_length [OF g] by auto
    note IH = less(1) [OF nr(2,1)]
    have up: "upto_nul line = line" "is_empty_line line = blank line"
      using nr(3) by (simp_all add: upto_nul_id is_empty_line_blank)
    from t False show ?thesis
    proof (cases rule: take_line_cases)
      case (1 l)
      then show ?thesis
        using g IH [of ln] IH [of "ln + 1"] up file_lines_cons [OF 1(2), of rest] less(3)
        by (subst (1 2) number_lines.simps) (auto simp: Let_def print_stored_def split_beta)
    next
      case 2
      then have "last line \<noteq> NLc" using False last_in_set by metis
      then show ?thesis
        using g IH [of ln] IH [of "ln + 1"] up file_lines_free [OF 2(2) False] 2 False less(3)
        by (subst (1 2) number_lines.simps) (auto simp: Let_def print_stored_def split_beta file_lines_def)
    qed
  qed
qed

lemma reverse_buffered_lines:
  assumes "CHR 0x00 \<notin> set c" "1 \<le> ln"
  shows "peek_reverse_buffered n ln c =
    (concat (rev (fmt_lines n ln (file_lines c))), ln + (if n then nonblank (file_lines c) else 0))"
  using number_lines_lines [OF assms, of n]
  by (simp add: peek_reverse_buffered_def split_beta flip: rev_map)

section \<open>The reader that walks backward\<close>

fun emit_all :: "bool \<Rightarrow> int \<Rightarrow> string list \<Rightarrow> string \<times> int" where
  "emit_all n nn [] = ([], nn)"
| "emit_all n nn (l # ls) =
     (case emit_reverse_line l n nn of (s, n1) \<Rightarrow> (case emit_all n n1 ls of (t, n2) \<Rightarrow> (s @ t, n2)))"

lemma emit_all_append:
  "emit_all n nn (ks @ ls) =
     (case emit_all n nn ks of (s, n1) \<Rightarrow> (case emit_all n n1 ls of (t, n2) \<Rightarrow> (s @ t, n2)))"
  by (induction ks arbitrary: nn) (auto split: prod.split)

lemma scan_back_newline: "0 < scan_back buf k \<Longrightarrow> buf ! (scan_back buf k - 1) = NLc"
  by (induction buf k rule: scan_back.induct) (auto split: if_splits)

lemma scan_back_free: "scan_back buf k \<le> i \<Longrightarrow> i < k \<Longrightarrow> buf ! i \<noteq> NLc"
  by (induction buf k rule: scan_back.induct) (auto simp: less_Suc_eq split: if_splits)

lemma scan_back_pieces:
  assumes "k \<le> length buf"
  defines "j \<equiv> scan_back buf k"
  defines "piece \<equiv> take (k - j) (drop j buf)"
  shows "NLc \<notin> set piece" "take k buf = take j buf @ piece"
    "0 < j \<Longrightarrow> take j buf = take (j - 1) buf @ [NLc]"
proof -
  have le: "j \<le> k" unfolding j_def by (rule scan_back_le)
  show "NLc \<notin> set piece"
  proof
    assume "NLc \<in> set piece"
    then obtain i where "i < k - j" "buf ! (j + i) = NLc"
      using assms(1) le by (auto simp: piece_def in_set_conv_nth)
    moreover from this have "j + i < k" by linarith
    ultimately show False
      using scan_back_free [of buf k "j + i"] by (simp add: j_def)
  qed
  show "take k buf = take j buf @ piece"
    unfolding piece_def using le by (metis le_add_diff_inverse take_add)
  show "take j buf = take (j - 1) buf @ [NLc]" if "0 < j"
    using that scan_back_newline [of buf k] le assms(1) take_Suc_conv_app_nth [of "j - 1" buf]
    by (simp add: j_def)
qed

abbreviation pending :: "string option \<Rightarrow> string" where
  "pending l \<equiv> (case l of None \<Rightarrow> [] | Some t \<Rightarrow> t)"

definition plain :: "string \<Rightarrow> bool" where
  "plain s \<longleftrightarrow> NLc \<notin> set s \<and> CHR 0x00 \<notin> set s"

lemma walk_chunk_lines:
  assumes "k \<le> length buf" "CHR 0x00 \<notin> set buf" "plain (pending l)"
    "walk_chunk n buf k l nn = (out, l2, nn2)"
  shows "emit_all n nn (rev (tl (split_nl (take k buf @ pending l)))) = (out, nn2) \<and>
    pending l2 = hd (split_nl (take k buf @ pending l))"
  using assms
proof (induction k arbitrary: l nn out rule: less_induct)
  case (less k)
  show ?case
  proof (cases "k = 0")
    case True
    then show ?thesis
      using less(4,5) by (subst (asm) walk_chunk.simps) (simp add: split_nl_free plain_def)
  next
    case False
    let ?j = "scan_back buf k"
    let ?piece = "take (k - ?j) (drop ?j buf)"
    note pieces = scan_back_pieces [OF less(2)]
    have np: "CHR 0x00 \<notin> set ?piece"
      using less(3) by (meson in_set_dropD in_set_takeD)
    have full: "(case l of None \<Rightarrow> ?piece | Some t \<Rightarrow> upto_nul ?piece @ upto_nul t) = ?piece @ pending l"
      using np less(4) by (cases l) (simp_all add: upto_nul_id plain_def)
    have free: "NLc \<notin> set (?piece @ pending l)"
      using pieces(1) less(4) by (simp add: plain_def)
    show ?thesis
    proof (cases "0 < ?j")
      case True
      obtain s n1 where e: "emit_reverse_line (?piece @ pending l) n nn = (s, n1)"
        by (cases "emit_reverse_line (?piece @ pending l) n nn")
      obtain o2 where w: "walk_chunk n buf (?j - 1) None n1 = (o2, l2, nn2)" "out = s @ o2"
        using less(5) False True full e
        by (subst (asm) walk_chunk.simps) (auto simp: Let_def split: prod.splits)
      have IH: "emit_all n n1 (rev (tl (split_nl (take (?j - 1) buf)))) = (o2, nn2)"
        "pending l2 = hd (split_nl (take (?j - 1) buf))"
        using less(1) [OF scan_back_less [OF True] _ less(3) _ w(1)] scan_back_less [OF True] less(2)
        by (simp_all add: plain_def)
      have "take k buf @ pending l = take (?j - 1) buf @ NLc # (?piece @ pending l)"
        using pieces(2) pieces(3) [OF True] by simp
      then have sp: "split_nl (take k buf @ pending l) = split_nl (take (?j - 1) buf) @ [?piece @ pending l]"
        using split_nl_snoc [OF free] by simp
      show ?thesis
        unfolding sp using IH e w(2) by simp
    next
      case j: False
      then have "take k buf @ pending l = ?piece @ pending l"
        using pieces(2) by simp
      then have sp: "split_nl (take k buf @ pending l) = [?piece @ pending l]"
        using split_nl_free [OF free] by simp
      have "out = [] \<and> l2 = Some (?piece @ pending l) \<and> nn2 = nn"
        using less(5) False j full by (subst (asm) walk_chunk.simps) (auto simp: Let_def)
      then show ?thesis
        unfolding sp by simp
    qed
  qed
qed

text \<open>The end of the text that is still to be printed: a final newline is skipped.\<close>

definition last_end :: "string \<Rightarrow> nat \<Rightarrow> nat" where
  "last_end c pos = (if pos = length c \<and> c \<noteq> [] \<and> last c = NLc then pos - 1 else pos)"

lemma reverse_loop_lines:
  assumes "c \<noteq> []" "pos \<le> length c" "CHR 0x00 \<notin> set c" "plain (pending l)"
    "reverse_loop n c pos l nn = (out, l2, nn2)"
  shows "emit_all n nn (rev (tl (split_nl (take (last_end c pos) c @ pending l)))) = (out, nn2) \<and>
    pending l2 = hd (split_nl (take (last_end c pos) c @ pending l))"
  using assms(2-)
proof (induction pos arbitrary: l nn out rule: less_induct)
  case (less pos)
  show ?case
  proof (cases "pos = 0")
    case True
    then show ?thesis
      using less(4,5) assms(1)
      by (subst (asm) reverse_loop.simps) (simp add: last_end_def split_nl_free plain_def)
  next
    case False
    define m where "m = (if pos > CHUNK_SIZE then CHUNK_SIZE else pos)"
    define pos1 where "pos1 = pos - m"
    define buf where "buf = take m (drop pos1 c)"
    define k where "k = (if pos1 + m = length c \<and> buf ! (m - 1) = NLc then m - 1 else m)"
    have m: "0 < m" "m \<le> pos" using False by (auto simp: m_def CHUNK_SIZE_def)
    have p1: "pos1 + m = pos" "pos1 < pos" "pos1 < length c" using m less(2) by (auto simp: pos1_def)
    have len: "length buf = m" using p1 less(2) by (simp add: buf_def)
    obtain o1 l1 n1 where w: "walk_chunk n buf k l nn = (o1, l1, n1)"
      by (cases "walk_chunk n buf k l nn")
    obtain o2 where r: "reverse_loop n c pos1 l1 n1 = (o2, l2, nn2)" "out = o1 @ o2"
    proof -
      have "reverse_loop n c pos l nn =
        (case walk_chunk n buf k l nn of (o1, l1, n1) \<Rightarrow>
          (case reverse_loop n c pos1 l1 n1 of (o2, l2, n2) \<Rightarrow> (o1 @ o2, l2, n2)))"
        using False unfolding k_def buf_def pos1_def m_def by (subst reverse_loop.simps) (simp add: Let_def)
      then show ?thesis
        using that less(5) w by (auto split: prod.splits)
    qed
    have nb: "CHR 0x00 \<notin> set buf"
      using less(3) by (metis buf_def in_set_dropD in_set_takeD)
    have klen: "k \<le> length buf" using len by (simp add: k_def)
    let ?Q = "split_nl (take k buf @ pending l)"
    note W = walk_chunk_lines [OF klen nb less(4) w]
    have pl1: "plain (pending l1)"
      using W hd_split_nl [of "take k buf @ pending l"] nb less(4) in_set_takeD [of _ k buf]
      unfolding plain_def by auto
    have IH: "emit_all n n1 (rev (tl (split_nl (take pos1 c @ pending l1)))) = (o2, nn2)"
      "pending l2 = hd (split_nl (take pos1 c @ pending l1))"
      using less(1) [OF p1(2) _ less(3) pl1 r(1)] p1(3) by (simp_all add: last_end_def)
    have take: "take (last_end c pos) c = take pos1 c @ take k buf"
    proof -
      have split: "take pos c = take pos1 c @ buf"
        using p1(1) by (metis buf_def take_add)
      have "buf ! (m - 1) = last c" if "pos = length c"
      proof -
        have "c = take pos1 c @ buf" using split that by simp
        then have "last c = last buf" using len m by (metis last_appendR length_greater_0_conv)
        then show ?thesis using len m by (metis last_conv_nth length_greater_0_conv)
      qed
      then have "last_end c pos = pos1 + k"
        using m p1 assms(1) by (auto simp: last_end_def k_def)
      then show ?thesis
        using klen len by (simp add: take_add buf_def)
    qed
    have ne: "?Q \<noteq> []" by simp
    have "split_nl (take (last_end c pos) c @ pending l) = split_nl (take pos1 c @ pending l1) @ tl ?Q"
      using W split_nl_append [of "take pos1 c" "take k buf @ pending l"]
        split_nl_append [of "take pos1 c" "pending l1"] split_nl_free [of "pending l1"] pl1
      by (simp add: take plain_def)
    then show ?thesis
      using W IH r(2) by (simp add: emit_all_append)
  qed
qed

lemma emit_numbers:
  assumes "\<forall>l \<in> set ls. CHR 0x00 \<notin> set l" "n \<Longrightarrow> nn = ln + nonblank ls - 1"
  shows "fst (emit_all n nn (rev ls)) = concat (rev (fmt_lines n ln ls)) \<and>
    (n \<longrightarrow> snd (emit_all n nn (rev ls)) = ln - 1)"
  using assms
proof (induction ls arbitrary: ln)
  case (Cons l ls)
  have l: "is_empty_line l = blank l" "upto_nul l = l"
    using Cons.prems(1) by (simp_all add: is_empty_line_blank upto_nul_id)
  show ?case
  proof (cases "n \<and> \<not> blank l")
    case True
    with Cons.IH [of "ln + 1"] Cons.prems l show ?thesis
      by (auto simp: emit_all_append emit_reverse_line_def split: prod.splits)
  next
    case False
    with Cons.IH [of ln] Cons.prems l show ?thesis
      by (auto simp: emit_all_append emit_reverse_line_def split: prod.splits)
  qed
qed simp

lemma count_chunk_append: "count_chunk (xs @ ys) st = count_chunk ys (count_chunk xs st)"
  by (induction xs st rule: count_chunk.induct) auto

lemma count_from_chunk:
  "count_from c st = (case count_chunk c st of (a, h) \<Rightarrow> a + (if h then 1 else 0))"
proof (induction c st rule: count_from.induct)
  case (1 c st)
  show ?case
  proof (cases "c = []")
    case True
    then show ?thesis by (subst count_from.simps) (simp add: split_beta)
  next
    case False
    then show ?thesis
      using 1 count_chunk_append [of "take CHUNK_SIZE c" "drop CHUNK_SIZE c" st]
      by (subst count_from.simps) simp
  qed
qed

lemma count_chunk_lines:
  "(case count_chunk c (a, h) of (a', h') \<Rightarrow> a' + (if h' then 1 else 0)) =
   a + (if h \<or> \<not> blank (hd (split_nl c)) then 1 else 0) + nonblank (tl (split_nl c))"
proof (induction c arbitrary: a h)
  case Nil
  then show ?case by (simp add: blank_def)
next
  case (Cons x c)
  obtain p ps where p: "split_nl c = p # ps"
    by (cases "split_nl c") auto
  show ?case
    using Cons.IH by (auto simp: p blank_def)
qed

lemma count_nonempty_lines_split: "c \<noteq> [] \<Longrightarrow> count_nonempty_lines c = nonblank (file_lines c)"
proof -
  assume c: "c \<noteq> []"
  have "count_nonempty_lines c = nonblank (split_nl c)"
    unfolding count_nonempty_lines_def count_from_chunk count_chunk_lines
    by (cases "split_nl c") auto
  moreover have "split_nl c = split_nl (butlast c) @ [[]]" if "last c = NLc"
    using split_nl_snoc [of "[]" "butlast c"] that c append_butlast_last_id [OF c] by simp
  ultimately show ?thesis
    using c by (auto simp: file_lines_def blank_def)
qed

lemma reverse_seekable_lines:
  assumes "CHR 0x00 \<notin> set c"
  shows "peek_reverse_seekable n ln c =
    (concat (rev (fmt_lines n ln (file_lines c))), ln + (if n then nonblank (file_lines c) else 0))"
proof (cases "c = []")
  case True
  then show ?thesis by (simp add: peek_reverse_seekable_def file_lines_def)
next
  case False
  let ?total = "if n then count_nonempty_lines c else 0"
  obtain out l nn where r: "reverse_loop n c (length c) None (ln + ?total - 1) = (out, l, nn)"
    by (cases "reverse_loop n c (length c) None (ln + ?total - 1)")
  have lines: "split_nl (take (last_end c (length c)) c) = file_lines c"
    using False by (simp add: last_end_def file_lines_def butlast_conv_take)
  have R: "emit_all n (ln + ?total - 1) (rev (tl (file_lines c))) = (out, nn)" "pending l = hd (file_lines c)"
    using reverse_loop_lines [OF False order_refl assms _ r] lines by (simp_all add: plain_def)
  have ne: "file_lines c \<noteq> []"
    using lines by (metis split_nl_nonempty)
  then have "rev (file_lines c) = rev (tl (file_lines c)) @ [hd (file_lines c)]"
    by (cases "file_lines c") auto
  then have "fst (emit_all n (ln + ?total - 1) (rev (file_lines c))) = out @ fst (emit_reverse_line (pending l) n nn)"
    using R by (simp add: emit_all_append split: prod.split)
  moreover have "\<forall>l \<in> set (file_lines c). CHR 0x00 \<notin> set l"
    using set_file_lines assms by blast
  ultimately have "out @ fst (emit_reverse_line (pending l) n nn) = concat (rev (fmt_lines n ln (file_lines c)))"
    using emit_numbers [of "file_lines c" n "ln + ?total - 1" ln] count_nonempty_lines_split [OF False] by simp
  then show ?thesis
    using False r count_nonempty_lines_split [OF False]
    by (simp add: peek_reverse_seekable_def Let_def)
qed

text \<open>
  C37: the three readers of \<open>peek\<close> agree on what the lines of a text are.  For a text
  without NUL, reading forward prints its lines in order, with the numbers of the
  lines that are not blank; the reader that walks a regular file backward in
  chunks of 4096 bytes prints the same numbered lines in the opposite order, as
  does the reader that keeps them in memory; and all three leave the same number
  for the next file.
\<close>
theorem peek_readers_agree:
  assumes "CHR 0x00 \<notin> set c" "1 \<le> line_num"
  shows "peek_forward n line_num c = (concat (fmt_lines n line_num (file_lines c)),
      line_num + (if n then nonblank (file_lines c) else 0)) \<and>
    peek_reverse_seekable n line_num c = (concat (rev (fmt_lines n line_num (file_lines c))),
      line_num + (if n then nonblank (file_lines c) else 0)) \<and>
    peek_reverse_buffered n line_num c = peek_reverse_seekable n line_num c"
  using peek_forward_lines [OF assms(1)] reverse_seekable_lines [OF assms(1)]
    reverse_buffered_lines [OF assms] by simp

theorem peek_readers_agree_witness:
  "peek_reverse_seekable True 1 (''a'' @ [NLc, NLc] @ ''b'') = (''2 b'' @ [NLc, NLc] @ ''1 a'' @ [NLc], 3)"
proof -
  have "char_of (50 :: nat) = CHR ''2''" "char_of (49 :: nat) = CHR ''1''"
    by code_simp+
  then show ?thesis
    using peek_readers_agree [of "''a'' @ [NLc, NLc] @ ''b''" 1 True]
    by (simp add: file_lines_def nonblank_def blank_def isspace_def print_int_def digits.simps)
qed

end
