(* ===== verification/Virtio.thy ===== *)
theory Virtio
  imports Bytes
begin

text \<open>
  The disk driver (\<open>xv6-riscv/kernel/virtio_disk.c\<close>, \<open>virtio.h\<close>): descriptors, the
  two rings shared with the device, requests and the completion interrupt.

  An array of the driver is a function on indices; the code keeps the indices
  below \<open>NUM\<close>.  Addresses in descriptors are symbolic: the request header, the
  status byte of an entry of \<open>info\<close>, or the data of a buffer.  \<open>virtio_disk_rw\<close> is
  cut where it sleeps: \<open>rw_begin\<close> runs until the caller waits for descriptors or for
  the device, \<open>rw_end\<close> from the wake-up to the return.  Each part holds
  \<open>vdisk_lock\<close>, so it is one step.

  The device is hardware and is not modelled here; \<open>Virtio_Inv\<close> says what the driver
  relies on.
\<close>

section \<open>State\<close>

definition NUM :: nat where "NUM = 8"
definition VRING_DESC_F_NEXT :: uint16 where "VRING_DESC_F_NEXT = 1"
definition VRING_DESC_F_WRITE :: uint16 where "VRING_DESC_F_WRITE = 2"
definition VIRTIO_BLK_T_IN :: uint32 where "VIRTIO_BLK_T_IN = 0"
definition VIRTIO_BLK_T_OUT :: uint32 where "VIRTIO_BLK_T_OUT = 1"

datatype daddr = NullA | OpA nat | DataA nat | StatusA nat

record virtq_desc =
  d_addr :: daddr
  d_len :: uint32
  d_flags :: uint16
  d_next :: uint16

record virtio_blk_req =
  r_type :: uint32
  r_reserved :: uint32
  r_sector :: uint64

record dinfo =
  i_b :: "nat option"
  i_status :: uint8

text \<open>The fields of \<open>struct buf\<close> that the driver uses.\<close>

record vbuf =
  v_blockno :: uint32
  v_data :: block
  v_disk :: bool

record vdisk =
  desc :: "nat \<Rightarrow> virtq_desc"
  avail_ring :: "nat \<Rightarrow> uint16"
  avail_idx :: uint16
  used_ring :: "nat \<Rightarrow> uint32"
  used_no :: uint16
  isfree :: "nat \<Rightarrow> bool"
  used_idx :: uint16
  info :: "nat \<Rightarrow> dinfo"
  ops :: "nat \<Rightarrow> virtio_blk_req"
  bufs :: "nat \<Rightarrow> vbuf"

datatype vd_error = VdPanic string | VdFault

definition no_desc :: virtq_desc where
  "no_desc = \<lparr>d_addr = NullA, d_len = 0, d_flags = 0, d_next = 0\<rparr>"

section \<open>Descriptors\<close>

definition alloc_desc :: "vdisk \<Rightarrow> (nat \<times> vdisk) option" where
  "alloc_desc d =
     (case find_idx (isfree d) [0..<NUM] of
        None \<Rightarrow> None
      | Some i \<Rightarrow> Some (i, d\<lparr>isfree := (isfree d)(i := False)\<rparr>))"

definition free_desc :: "nat \<Rightarrow> vdisk \<Rightarrow> vd_error + vdisk" where
  "free_desc i d =
     (if i \<ge> NUM then Inl (VdPanic ''free_desc 1'')
      else if isfree d i then Inl (VdPanic ''free_desc 2'')
      else Inr (d\<lparr>desc := (desc d)(i := no_desc), isfree := (isfree d)(i := True)\<rparr>))"

lemma free_desc_decrease:
  assumes "free_desc i d = Inr d'"
  shows "card {k. k < NUM \<and> \<not> isfree d' k} < card {k. k < NUM \<and> \<not> isfree d k}"
proof (rule psubset_card_mono)
  have i: "i < NUM" "\<not> isfree d i" and d': "isfree d' = (isfree d)(i := True)"
    using assms by (auto simp: free_desc_def split: if_splits)
  show "{k. k < NUM \<and> \<not> isfree d' k} \<subset> {k. k < NUM \<and> \<not> isfree d k}"
    using i unfolding d' by auto
qed simp

function free_chain :: "nat \<Rightarrow> vdisk \<Rightarrow> vd_error + vdisk" where
  "free_chain i d =
     (let flag = d_flags (desc d i); nxt = d_next (desc d i) in
      case free_desc i d of
        Inl e \<Rightarrow> Inl e
      | Inr d1 \<Rightarrow>
          if flag AND VRING_DESC_F_NEXT \<noteq> 0 then free_chain (unat nxt) d1 else Inr d1)"
  by pat_completeness auto
termination
  by (relation "measure (\<lambda>(i, d). card {k. k < NUM \<and> \<not> isfree d k})") (auto dest: free_desc_decrease)

declare free_chain.simps [simp del]

definition alloc3_desc :: "vdisk \<Rightarrow> vd_error + (nat \<times> nat \<times> nat) option \<times> vdisk" where
  "alloc3_desc d =
     (case alloc_desc d of
        None \<Rightarrow> Inr (None, d)
      | Some (i0, d0) \<Rightarrow>
          (case alloc_desc d0 of
             None \<Rightarrow> bindR (free_desc i0 d0) (\<lambda>d1. Inr (None, d1))
           | Some (i1, d1) \<Rightarrow>
               (case alloc_desc d1 of
                  None \<Rightarrow> bindR (free_desc i0 d1) (\<lambda>d2. bindR (free_desc i1 d2) (\<lambda>d3. Inr (None, d3)))
                | Some (i2, d2) \<Rightarrow> Inr (Some (i0, i1, i2), d2))))"

section \<open>Requests\<close>

text \<open>\<open>b->blockno * (BSIZE / 512)\<close> is computed in 32 bits and then widened.\<close>

definition sector_of :: "uint32 \<Rightarrow> uint64" where
  "sector_of n = ucast (n * of_nat (BSIZE div 512))"

definition format_request :: "nat \<Rightarrow> bool \<Rightarrow> nat \<times> nat \<times> nat \<Rightarrow> vdisk \<Rightarrow> vdisk" where
  "format_request b write idx d =
     (case idx of (i0, i1, i2) \<Rightarrow>
        d\<lparr>ops := (ops d)(i0 := \<lparr>r_type = (if write then VIRTIO_BLK_T_OUT else VIRTIO_BLK_T_IN),
                                r_reserved = 0,
                                r_sector = sector_of (v_blockno (bufs d b))\<rparr>),
          desc := (desc d)
            (i0 := \<lparr>d_addr = OpA i0, d_len = 16, d_flags = VRING_DESC_F_NEXT, d_next = of_nat i1\<rparr>,
             i1 := \<lparr>d_addr = DataA b, d_len = of_nat BSIZE,
                    d_flags = (if write then 0 else VRING_DESC_F_WRITE) OR VRING_DESC_F_NEXT, d_next = of_nat i2\<rparr>,
             i2 := \<lparr>d_addr = StatusA i0, d_len = 1, d_flags = VRING_DESC_F_WRITE, d_next = 0\<rparr>),
          info := (info d)(i0 := \<lparr>i_b = Some b, i_status = 0xff\<rparr>),
          bufs := (bufs d)(b := (bufs d b)\<lparr>v_disk := True\<rparr>)\<rparr>)"

definition publish :: "nat \<Rightarrow> vdisk \<Rightarrow> vdisk" where
  "publish i0 d =
     d\<lparr>avail_ring := (avail_ring d)(unat (avail_idx d) mod NUM := of_nat i0), avail_idx := avail_idx d + 1\<rparr>"

text \<open>\<open>None\<close>: the caller sleeps until a descriptor is freed, and tries again.\<close>

definition rw_begin :: "nat \<Rightarrow> bool \<Rightarrow> vdisk \<Rightarrow> vd_error + (nat \<times> nat \<times> nat) option \<times> vdisk" where
  "rw_begin b write d =
     bindR (alloc3_desc d) (\<lambda>(r, d1).
       case r of
         None \<Rightarrow> Inr (None, d1)
       | Some (i0, i1, i2) \<Rightarrow>
           Inr (Some (i0, i1, i2), publish i0 (format_request b write (i0, i1, i2) d1)))"

text \<open>\<open>None\<close>: the buffer still belongs to the device, and the caller sleeps again.\<close>

definition rw_end :: "nat \<Rightarrow> nat \<Rightarrow> vdisk \<Rightarrow> (vd_error + vdisk) option" where
  "rw_end b i0 d =
     (if v_disk (bufs d b) then None
      else Some (free_chain i0 (d\<lparr>info := (info d)(i0 := (info d i0)\<lparr>i_b := None\<rparr>)\<rparr>)))"

section \<open>The interrupt\<close>

lemma unat_pred: "x \<noteq> (0 :: uint16) \<Longrightarrow> unat (x - 1) < unat x"
  by (metis diff_less unat_gt_0 unat_minus_one zero_less_one)

function virtio_disk_intr :: "vdisk \<Rightarrow> vd_error + vdisk" where
  "virtio_disk_intr d =
     (if used_idx d = used_no d then Inr d
      else
        let i = unat (used_ring d (unat (used_idx d) mod NUM)) in
        if i_status (info d i) \<noteq> 0 then Inl (VdPanic ''virtio_disk_intr status'')
        else case i_b (info d i) of
               None \<Rightarrow> Inl VdFault
             | Some b \<Rightarrow>
                 virtio_disk_intr (d\<lparr>bufs := (bufs d)(b := (bufs d b)\<lparr>v_disk := False\<rparr>),
                                     used_idx := used_idx d + 1\<rparr>))"
  by pat_completeness auto
termination
proof (relation "measure (\<lambda>d. unat (used_no d - used_idx d))", simp, goal_cases)
  case (1 d x b)
  then have "unat (used_no d - used_idx d - 1) < unat (used_no d - used_idx d)"
    by (intro unat_pred) simp
  then show ?case by (simp add: algebra_simps)
qed

declare virtio_disk_intr.simps [simp del]

section \<open>Initialisation\<close>

text \<open>
  \<open>rd\<close> gives the values the device registers have when they are read, \<open>st2\<close> the
  status register when it is read back, and \<open>pages\<close> says whether the three pages
  for the queue could be allocated.  The result lists the register writes.
\<close>

definition clear_bit :: "nat \<Rightarrow> uint32 \<Rightarrow> uint32" where
  "clear_bit k x = x AND NOT (push_bit k 1)"

definition virtio_disk_init ::
  "(nat \<Rightarrow> uint32) \<Rightarrow> uint32 \<Rightarrow> (uint64 \<times> uint64 \<times> uint64) option \<Rightarrow> vdisk \<Rightarrow>
   vd_error + (nat \<times> uint32) list \<times> vdisk" where
  "virtio_disk_init rd st2 pages d =
     (if rd 0x000 \<noteq> 0x74726976 \<or> rd 0x004 \<noteq> 2 \<or> rd 0x008 \<noteq> 2 \<or> rd 0x00c \<noteq> 0x554d4551
      then Inl (VdPanic ''could not find virtio disk'')
      else if st2 AND 8 = 0 then Inl (VdPanic ''virtio disk FEATURES_OK unset'')
      else if rd 0x044 \<noteq> 0 then Inl (VdPanic ''virtio disk should not be ready'')
      else if rd 0x034 = 0 then Inl (VdPanic ''virtio disk has no queue 0'')
      else if rd 0x034 < of_nat NUM then Inl (VdPanic ''virtio disk max queue too short'')
      else case pages of
             None \<Rightarrow> Inl (VdPanic ''virtio disk kalloc'')
           | Some (pd, pa, pu) \<Rightarrow>
               let features = clear_bit 28 (clear_bit 29 (clear_bit 27 (clear_bit 12 (clear_bit 11
                     (clear_bit 7 (clear_bit 5 (rd 0x010))))))) in
               Inr ([(0x070, 0), (0x070, 1), (0x070, 3), (0x020, features), (0x070, 11), (0x030, 0),
                     (0x038, of_nat NUM), (0x080, ucast pd), (0x084, ucast (drop_bit 32 pd)),
                     (0x090, ucast pa), (0x094, ucast (drop_bit 32 pa)),
                     (0x0a0, ucast pu), (0x0a4, ucast (drop_bit 32 pu)),
                     (0x044, 1), (0x070, st2 OR 4)],
                    d\<lparr>desc := (\<lambda>i. no_desc), avail_ring := (\<lambda>i. 0), avail_idx := 0,
                      used_ring := (\<lambda>i. 0), used_no := 0, isfree := (\<lambda>i. i < NUM)\<rparr>))"

end
