(* ===== verification/Virtio_Inv.thy ===== *)
theory Virtio_Inv
  imports Virtio
begin

text \<open>
  The disk driver at work: several calls of \<open>virtio_disk_rw\<close>, the interrupt handler
  and the device interleave in any order.

  What the driver relies on of the device is the protocol of the virtio
  specification, as steps of the environment: it takes the entries of the available
  ring in order, and reports every taken request once, in any order.  Before it reports
  one it may write the memory that the descriptors of the request mark as writable for
  the device, with contents that are left open, and it sets the status byte to 0
  (the request succeeded).

  The invariant ties the descriptors that are not free to the calls in flight, and the
  two rings to the calls that wait.  With it no panic of the driver can be reached, and a
  call returns only after the device has reported its request.
\<close>

section \<open>Windows of the rings\<close>

lemma ring_index: "unat ((s :: uint16) + of_nat k) mod NUM = (unat s + k) mod NUM"
proof -
  have "unat (s + of_nat k) mod 8 = ((unat s + k mod 2 ^ 16) mod 2 ^ 16) mod 8"
    by (simp add: unat_word_ariths unsigned_of_nat take_bit_eq_mod)
  also have "\<dots> = (unat s + k mod 2 ^ 16) mod 8"
    by (rule mod_mod_cancel) simp
  also have "\<dots> = (unat s + (k mod 2 ^ 16) mod 8) mod 8"
    by (simp only: mod_add_right_eq)
  also have "(k mod 2 ^ 16) mod 8 = k mod 8"
    by (rule mod_mod_cancel) simp
  finally show ?thesis by (simp add: NUM_def mod_add_right_eq)
qed

lemma ring_index_neq: "\<lbrakk>k < n; n < NUM\<rbrakk> \<Longrightarrow> (m + k) mod NUM \<noteq> (m + n) mod NUM"
  using mod_eq_dvd_iff_nat [of "m + k" "m + n" NUM] by (auto dest!: dvd_imp_le)

text \<open>The \<open>n\<close> entries of a ring from index \<open>s\<close> on.\<close>

primrec window :: "(nat \<Rightarrow> 'a) \<Rightarrow> uint16 \<Rightarrow> nat \<Rightarrow> 'a list" where
  "window ring s 0 = []"
| "window ring s (Suc n) = window ring s n @ [ring (unat (s + of_nat n) mod NUM)]"

lemma length_window [simp]: "length (window ring s n) = n"
  by (induction n) auto

lemma window_other:
  "(\<forall>k<n. unat (s + of_nat k) mod NUM \<noteq> i) \<Longrightarrow> window (ring(i := x)) s n = window ring s n"
  by (induction n) auto

lemma window_push:
  assumes "n < NUM"
  shows "window (ring(unat (s + of_nat n) mod NUM := x)) s (Suc n) = window ring s n @ [x]"
proof -
  have "\<forall>k<n. unat (s + of_nat k) mod NUM \<noteq> unat (s + of_nat n) mod NUM"
    using assms ring_index_neq by (metis ring_index)
  from window_other [OF this] show ?thesis by simp
qed

lemma window_pop:
  "window ring s (Suc n) = ring (unat s mod NUM) # window ring (s + 1) n"
  by (induction n) (simp_all add: algebra_simps)

text \<open>The entries between two indices of a ring.\<close>

definition entries :: "(nat \<Rightarrow> 'a) \<Rightarrow> uint16 \<Rightarrow> uint16 \<Rightarrow> 'a list" where
  "entries ring s e = window ring s (unat (e - s))"

lemma entries_empty [simp]: "entries ring s s = []"
  by (simp add: entries_def)

lemma unat_succ_diff:
  assumes "unat ((e :: uint16) - s) < NUM"
  shows "unat (e + 1 - s) = Suc (unat (e - s))"
proof -
  have "unat (e - s + 1) = Suc (unat (e - s))"
    using assms by (simp add: NUM_def unat_word_ariths)
  then show ?thesis by (simp add: algebra_simps)
qed

lemma entries_push:
  assumes "length (entries ring s e) < NUM"
  shows "entries (ring(unat e mod NUM := x)) s (e + 1) = entries ring s e @ [x]"
proof -
  have n: "unat (e - s) < NUM" using assms by (simp add: entries_def)
  have "e = s + of_nat (unat (e - s))" by simp
  then show ?thesis
    using window_push [OF n, of ring s x] unat_succ_diff [OF n] by (simp add: entries_def)
qed

lemma entries_pop:
  assumes "s \<noteq> e"
  shows "entries ring s e = ring (unat s mod NUM) # entries ring (s + 1) e"
proof -
  have "Suc (unat (e - (s + 1))) = unat (e - s)"
    using assms unat_pred [of "e - s"] unat_minus_one [of "e - s"]
    by (simp add: algebra_simps)
  then show ?thesis
    unfolding entries_def by (metis window_pop)
qed

section \<open>Descriptors\<close>

lemma alloc_desc_None: "alloc_desc d = None \<longleftrightarrow> (\<forall>i<NUM. \<not> isfree d i)"
  using find_idx_None [of "isfree d" "[0..<NUM]"] by (auto simp: alloc_desc_def split: option.split)

lemma alloc_desc_SomeD:
  assumes "alloc_desc d = Some (i, d')"
  shows "i < NUM" "isfree d i" "d' = d\<lparr>isfree := (isfree d)(i := False)\<rparr>"
proof -
  have f: "find_idx (isfree d) [0..<NUM] = Some i" and "d' = d\<lparr>isfree := (isfree d)(i := False)\<rparr>"
    using assms by (auto simp: alloc_desc_def split: option.splits)
  then show "i < NUM" "isfree d i" "d' = d\<lparr>isfree := (isfree d)(i := False)\<rparr>"
    using find_idx_SomeD(1,2) [OF f] by auto
qed

lemma free_desc_ok:
  "\<lbrakk>i < NUM; \<not> isfree d i\<rbrakk> \<Longrightarrow>
   free_desc i d = Inr (d\<lparr>desc := (desc d)(i := no_desc), isfree := (isfree d)(i := True)\<rparr>)"
  by (simp add: free_desc_def)

definition free_count :: "vdisk \<Rightarrow> nat" where
  "free_count d = card {i. i < NUM \<and> isfree d i}"

lemma free_count_alloc:
  assumes "alloc_desc d = Some (i, d')"
  shows "free_count d = Suc (free_count d')"
proof -
  note i = alloc_desc_SomeD [OF assms]
  have "{k. k < NUM \<and> isfree d k} = insert i {k. k < NUM \<and> isfree d' k}"
    using i by auto
  then show ?thesis
    using i by (simp add: free_count_def)
qed

lemma free_count_0: "alloc_desc d = None \<longleftrightarrow> free_count d = 0"
  by (auto simp: alloc_desc_None free_count_def)

text \<open>\<open>alloc3_desc\<close> gives three descriptors, or leaves the set of free ones as it was.\<close>

lemma alloc3_desc_Some:
  assumes "free_count d \<ge> 3"
  obtains i0 i1 i2 where
    "alloc3_desc d = Inr (Some (i0, i1, i2), d\<lparr>isfree := (isfree d)(i0 := False, i1 := False, i2 := False)\<rparr>)"
    "i0 < NUM" "i1 < NUM" "i2 < NUM" "distinct [i0, i1, i2]"
    "isfree d i0" "isfree d i1" "isfree d i2"
proof -
  obtain i0 d0 where a0: "alloc_desc d = Some (i0, d0)"
    using assms free_count_0 [of d] by (cases "alloc_desc d") auto
  obtain i1 d1 where a1: "alloc_desc d0 = Some (i1, d1)"
    using assms free_count_0 [of d0] free_count_alloc [OF a0] by (cases "alloc_desc d0") auto
  obtain i2 d2 where a2: "alloc_desc d1 = Some (i2, d2)"
    using assms free_count_0 [of d1] free_count_alloc [OF a0] free_count_alloc [OF a1]
    by (cases "alloc_desc d1") auto
  note f = alloc_desc_SomeD [OF a0] alloc_desc_SomeD [OF a1] alloc_desc_SomeD [OF a2]
  have "alloc3_desc d = Inr (Some (i0, i1, i2), d2)"
    by (simp add: alloc3_desc_def a0 a1 a2)
  then show ?thesis
    using f by (intro that [of i0 i1 i2]) (auto split: if_splits)
qed

lemma alloc3_desc_None:
  assumes "free_count d < 3"
  obtains f where "alloc3_desc d = Inr (None, d\<lparr>desc := f\<rparr>)" "\<forall>i<NUM. \<not> isfree d i \<longrightarrow> f i = desc d i"
proof (cases "alloc_desc d")
  case None
  then show ?thesis by (intro that [of "desc d"]) (simp_all add: alloc3_desc_def)
next
  case a0: (Some p)
  obtain i0 d0 where p: "p = (i0, d0)" by (cases p)
  note a0 = a0 [unfolded p] and f0 = alloc_desc_SomeD [OF a0 [unfolded p]]
  show ?thesis
  proof (cases "alloc_desc d0")
    case None
    have "d0\<lparr>desc := (desc d0)(i0 := no_desc), isfree := (isfree d0)(i0 := True)\<rparr>
      = d\<lparr>desc := (desc d)(i0 := no_desc)\<rparr>"
      using f0 by (simp add: fun_upd_idem)
    then show ?thesis
      using None f0 by (intro that [of "(desc d)(i0 := no_desc)"]) (auto simp: alloc3_desc_def a0 free_desc_ok)
  next
    case a1: (Some q)
    obtain i1 d1 where q: "q = (i1, d1)" by (cases q)
    note a1 = a1 [unfolded q] and f1 = alloc_desc_SomeD [OF a1 [unfolded q]]
    have a2: "alloc_desc d1 = None"
      using assms free_count_0 [of d1] free_count_alloc [OF a0] free_count_alloc [OF a1] by simp
    let ?f = "(desc d)(i0 := no_desc, i1 := no_desc)"
    have "i0 \<noteq> i1" "isfree d i0" "isfree d i1" "i0 < NUM" "i1 < NUM"
      and d1: "d1 = d\<lparr>isfree := (isfree d)(i0 := False, i1 := False)\<rparr>"
      using f0 f1 by (auto split: if_splits)
    moreover from this have "(isfree d)(i0 := True, i1 := True) = isfree d"
      by (auto simp: fun_eq_iff)
    ultimately have "bindR (free_desc i0 d1) (free_desc i1) = Inr (d\<lparr>desc := ?f\<rparr>)"
      by (simp add: free_desc_ok fun_upd_twist [of i0 i1])
    then have "alloc3_desc d = Inr (None, d\<lparr>desc := ?f\<rparr>)"
      by (auto simp: alloc3_desc_def a0 a1 a2 bindR_def split: sum.splits)
    then show ?thesis
      using f0 f1 by (intro that [of ?f]) (auto split: if_splits)
  qed
qed

section \<open>Requests in flight\<close>

text \<open>A call that has published its request and has not returned.\<close>

record vcall =
  c_buf :: nat
  c_write :: bool
  c_idx :: "nat \<times> nat \<times> nat"

definition c_head :: "vcall \<Rightarrow> nat" where "c_head c = fst (c_idx c)"
definition c_descs :: "vcall \<Rightarrow> nat list" where
  "c_descs c = (case c_idx c of (i0, i1, i2) \<Rightarrow> [i0, i1, i2])"

text \<open>The chain, the header and the bookkeeping of the request, as the device finds them.\<close>

definition chain_desc :: "vdisk \<Rightarrow> vcall \<Rightarrow> bool" where
  "chain_desc d c =
     (case c_idx c of (i0, i1, i2) \<Rightarrow>
        desc d i0 = \<lparr>d_addr = OpA i0, d_len = 16, d_flags = VRING_DESC_F_NEXT, d_next = of_nat i1\<rparr> \<and>
        desc d i1 = \<lparr>d_addr = DataA (c_buf c), d_len = of_nat BSIZE,
                     d_flags = (if c_write c then 0 else VRING_DESC_F_WRITE) OR VRING_DESC_F_NEXT,
                     d_next = of_nat i2\<rparr> \<and>
        desc d i2 = \<lparr>d_addr = StatusA i0, d_len = 1, d_flags = VRING_DESC_F_WRITE, d_next = 0\<rparr>)"

definition chain_ok :: "vdisk \<Rightarrow> vcall \<Rightarrow> bool" where
  "chain_ok d c =
     (chain_desc d c \<and> i_b (info d (c_head c)) = Some (c_buf c) \<and>
      ops d (c_head c) =
        \<lparr>r_type = (if c_write c then VIRTIO_BLK_T_OUT else VIRTIO_BLK_T_IN), r_reserved = 0,
         r_sector = sector_of (v_blockno (bufs d (c_buf c)))\<rparr>)"

lemma c_descs_head [simp]: "c_head c \<in> set (c_descs c)"
  by (cases "c_idx c") (simp add: c_head_def c_descs_def)

lemma unat_small16: "i < NUM \<Longrightarrow> unat (of_nat i :: uint16) = i"
  by (simp add: NUM_def unsigned_of_nat take_bit_eq_mod)

lemma unat_small32: "i < NUM \<Longrightarrow> unat (of_nat i :: uint32) = i"
  by (simp add: NUM_def unsigned_of_nat take_bit_eq_mod)

text \<open>The chain of a call is freed as a whole, and nothing else is.\<close>

definition free_all :: "nat list \<Rightarrow> vdisk \<Rightarrow> vdisk" where
  "free_all is d =
     d\<lparr>desc := (\<lambda>i. if i \<in> set is then no_desc else desc d i),
       isfree := (\<lambda>i. i \<in> set is \<or> isfree d i)\<rparr>"

lemma free_chain_step:
  assumes "i < NUM" "\<not> isfree d i"
  shows "free_chain i d =
    (if d_flags (desc d i) AND VRING_DESC_F_NEXT \<noteq> 0
     then free_chain (unat (d_next (desc d i))) (free_all [i] d) else Inr (free_all [i] d))"
proof -
  have "free_desc i d = Inr (free_all [i] d)"
    using assms by (simp add: free_desc_ok free_all_def fun_eq_iff)
  then show ?thesis
    by (subst free_chain.simps) (simp add: Let_def)
qed

lemma chain_flags:
  "VRING_DESC_F_NEXT \<noteq> 0"
  "((if w then 0 else VRING_DESC_F_WRITE) OR VRING_DESC_F_NEXT) AND VRING_DESC_F_NEXT \<noteq> 0"
  "((if w then 0 else VRING_DESC_F_WRITE) OR VRING_DESC_F_NEXT) AND VRING_DESC_F_WRITE \<noteq> 0 \<longleftrightarrow> \<not> w"
  "VRING_DESC_F_WRITE AND VRING_DESC_F_NEXT = 0"
  by (simp_all add: VRING_DESC_F_NEXT_def VRING_DESC_F_WRITE_def)

lemma free_chain_call:
  assumes "chain_desc d c" "distinct (c_descs c)" "\<forall>i\<in>set (c_descs c). i < NUM \<and> \<not> isfree d i"
  shows "free_chain (c_head c) d = Inr (free_all (c_descs c) d)"
proof -
  obtain i0 i1 i2 where c: "c_idx c = (i0, i1, i2)" by (cases "c_idx c")
  note facts = assms [unfolded chain_desc_def c_descs_def c, simplified]
  have "free_chain i0 d = free_chain i1 (free_all [i0] d)"
    using facts by (subst free_chain_step) (auto simp: chain_flags unat_small16)
  also have "\<dots> = free_chain i2 (free_all [i1] (free_all [i0] d))"
    using facts by (subst free_chain_step) (auto simp: chain_flags unat_small16 free_all_def)
  also have "\<dots> = Inr (free_all [i2] (free_all [i1] (free_all [i0] d)))"
    using facts by (subst free_chain_step) (auto simp: chain_flags free_all_def)
  also have "free_all [i2] (free_all [i1] (free_all [i0] d)) = free_all (c_descs c) d"
    by (auto intro!: vdisk.equality simp: free_all_def c_descs_def c)
  finally show ?thesis by (simp add: c_head_def c)
qed

section \<open>The system\<close>

text \<open>
  \<open>dv_seen\<close> is how far the device has read the available ring, \<open>dv_taken\<close> the heads it
  has taken and not reported.
\<close>

record vsys =
  drv :: vdisk
  dv_seen :: uint16
  dv_taken :: "nat list"
  calls :: "vcall list"

definition dev_take :: "vsys \<Rightarrow> vsys" where
  "dev_take s =
     s\<lparr>dv_taken := dv_taken s @ [unat (avail_ring (drv s) (unat (dv_seen s) mod NUM))], dv_seen := dv_seen s + 1\<rparr>"

text \<open>The device stores \<open>x\<close> where the chain at \<open>h\<close> lets it, and reports the chain.\<close>

definition dev_store :: "nat \<Rightarrow> block \<Rightarrow> vdisk \<Rightarrow> vdisk" where
  "dev_store h x d =
     (let t1 = desc d (unat (d_next (desc d h))); t2 = desc d (unat (d_next t1)) in
      d\<lparr>bufs := (case d_addr t1 of
                   DataA b \<Rightarrow> if d_flags t1 AND VRING_DESC_F_WRITE \<noteq> 0
                              then (bufs d)(b := (bufs d b)\<lparr>v_data := x\<rparr>) else bufs d
                 | _ \<Rightarrow> bufs d),
        info := (case d_addr t2 of
                   StatusA j \<Rightarrow> (info d)(j := (info d j)\<lparr>i_status := 0\<rparr>)
                 | _ \<Rightarrow> info d)\<rparr>)"

definition dev_report :: "nat \<Rightarrow> block \<Rightarrow> vsys \<Rightarrow> vsys" where
  "dev_report h x s =
     (let d = dev_store h x (drv s) in
      s\<lparr>drv := d\<lparr>used_ring := (used_ring d)(unat (used_no d) mod NUM := of_nat h), used_no := used_no d + 1\<rparr>,
        dv_taken := remove1 h (dv_taken s)\<rparr>)"

text \<open>
  A call starts on a buffer that no other call uses: the buffer cache calls the driver
  with the sleep lock of the buffer held.  \<open>Other\<close> is what the rest of the kernel does to
  the buffers that are not in flight.
\<close>

inductive vstep :: "vsys \<Rightarrow> vsys \<Rightarrow> bool" where
  Begin: "\<lbrakk>b \<notin> c_buf ` set (calls s); rw_begin b w (drv s) = Inr (Some idx, d)\<rbrakk> \<Longrightarrow>
     vstep s (s\<lparr>drv := d, calls := calls s @ [\<lparr>c_buf = b, c_write = w, c_idx = idx\<rparr>]\<rparr>)"
| Wait: "rw_begin b w (drv s) = Inr (None, d) \<Longrightarrow> vstep s (s\<lparr>drv := d\<rparr>)"
| Intr: "virtio_disk_intr (drv s) = Inr d \<Longrightarrow> vstep s (s\<lparr>drv := d\<rparr>)"
| End: "\<lbrakk>c \<in> set (calls s); rw_end (c_buf c) (c_head c) (drv s) = Some (Inr d)\<rbrakk> \<Longrightarrow>
     vstep s (s\<lparr>drv := d, calls := remove1 c (calls s)\<rparr>)"
| Take: "dv_seen s \<noteq> avail_idx (drv s) \<Longrightarrow> vstep s (dev_take s)"
| Report: "h \<in> set (dv_taken s) \<Longrightarrow> vstep s (dev_report h x s)"
| Other: "\<forall>c\<in>set (calls s). f (c_buf c) = bufs (drv s) (c_buf c) \<Longrightarrow>
     vstep s (s\<lparr>drv := (drv s)\<lparr>bufs := f\<rparr>\<rparr>)"

inductive vreach :: "vsys \<Rightarrow> bool" where
  Init: "\<lbrakk>virtio_disk_init rd st2 pages d = Inr (ws, d'); used_idx d = 0\<rbrakk> \<Longrightarrow>
     vreach \<lparr>drv = d', dv_seen = 0, dv_taken = [], calls = []\<rparr>"
| Step: "\<lbrakk>vreach s; vstep s t\<rbrakk> \<Longrightarrow> vreach t"

section \<open>The invariant\<close>

definition offered :: "vsys \<Rightarrow> nat list" where
  "offered s = map unat (entries (avail_ring (drv s)) (dv_seen s) (avail_idx (drv s)))"

definition reported :: "vsys \<Rightarrow> nat list" where
  "reported s = map unat (entries (used_ring (drv s)) (used_idx (drv s)) (used_no (drv s)))"

definition waiting :: "vsys \<Rightarrow> nat list" where
  "waiting s = offered s @ dv_taken s @ reported s"

definition descs_ok :: "vsys \<Rightarrow> bool" where
  "descs_ok s =
     (distinct (concat (map c_descs (calls s))) \<and>
      (\<forall>i\<in>set (concat (map c_descs (calls s))). i < NUM) \<and>
      (\<forall>i<NUM. isfree (drv s) i \<longleftrightarrow> i \<notin> set (concat (map c_descs (calls s)))))"

definition waiting_ok :: "vsys \<Rightarrow> bool" where
  "waiting_ok s =
     (distinct (waiting s) \<and> set (waiting s) \<subseteq> c_head ` set (calls s) \<and>
      (\<forall>h\<in>set (reported s). i_status (info (drv s) h) = 0))"

definition vinv :: "vsys \<Rightarrow> bool" where
  "vinv s =
     (descs_ok s \<and> waiting_ok s \<and> distinct (map c_buf (calls s)) \<and>
      (\<forall>c\<in>set (calls s). chain_ok (drv s) c \<and>
         (v_disk (bufs (drv s) (c_buf c)) \<longleftrightarrow> c_head c \<in> set (waiting s))))"

lemmas vinv_defs = vinv_def descs_ok_def waiting_ok_def waiting_def

lemma concat_owner:
  "\<lbrakk>distinct (concat (map f xs)); a \<in> set xs; b \<in> set xs; x \<in> set (f a); x \<in> set (f b)\<rbrakk> \<Longrightarrow> a = b"
  by (induction xs) (auto simp: Ball_def disjoint_iff)

lemma vinv_owner:
  "\<lbrakk>vinv s; c \<in> set (calls s); c' \<in> set (calls s); i \<in> set (c_descs c); i \<in> set (c_descs c')\<rbrakk> \<Longrightarrow> c = c'"
  by (auto simp: vinv_def descs_ok_def intro: concat_owner)

lemma vinv_head:
  assumes "vinv s" "c \<in> set (calls s)"
  shows "c_head c < NUM" "\<not> isfree (drv s) (c_head c)" "distinct (c_descs c)"
    "\<forall>i\<in>set (c_descs c). i < NUM \<and> \<not> isfree (drv s) i"
proof -
  have "\<forall>i\<in>set (c_descs c). i \<in> set (concat (map c_descs (calls s)))"
    using assms(2) by auto
  then show *: "\<forall>i\<in>set (c_descs c). i < NUM \<and> \<not> isfree (drv s) i"
    using assms(1) by (auto simp: vinv_def descs_ok_def)
  show "c_head c < NUM" "\<not> isfree (drv s) (c_head c)"
    using * c_descs_head [of c] by blast+
  show "distinct (c_descs c)"
    using assms by (auto simp: vinv_def descs_ok_def distinct_concat_iff)
qed

lemma length_c_descs [simp]: "length (c_descs c) = 3"
  by (cases "c_idx c") (simp add: c_descs_def)

lemma length_descs: "length (concat (map c_descs cs)) = 3 * length cs"
  by (induction cs) simp_all

lemma vinv_bound:
  assumes "vinv s"
  shows "length (waiting s) < NUM"
proof -
  let ?D = "concat (map c_descs (calls s))"
  have "length ?D = 3 * length (calls s)"
    by (rule length_descs)
  moreover have "length ?D = card (set ?D)"
    using assms distinct_card [of ?D] by (simp only: vinv_def descs_ok_def)
  moreover have "card (set ?D) \<le> card {..<NUM}"
    using assms by (intro card_mono) (auto simp: vinv_def descs_ok_def)
  moreover have "length (waiting s) = card (set (waiting s))"
    using assms by (auto simp: vinv_def waiting_ok_def distinct_card)
  moreover have "card (set (waiting s)) \<le> card (c_head ` set (calls s))"
    using assms by (intro card_mono) (auto simp: vinv_def waiting_ok_def)
  moreover have "card (c_head ` set (calls s)) \<le> length (calls s)"
    by (metis card_length length_map list.set_map)
  ultimately show ?thesis by (simp add: NUM_def)
qed

lemma chain_ok_cong:
  assumes "\<And>i. i \<in> set (c_descs c) \<Longrightarrow> desc d i = desc d' i"
    "i_b (info d (c_head c)) = i_b (info d' (c_head c))" "ops d (c_head c) = ops d' (c_head c)"
    "v_blockno (bufs d (c_buf c)) = v_blockno (bufs d' (c_buf c))"
  shows "chain_ok d c \<longleftrightarrow> chain_ok d' c"
  using assms by (cases "c_idx c") (simp add: chain_ok_def chain_desc_def c_descs_def c_head_def)

subsection \<open>Every step keeps it\<close>

lemma vinv_init:
  assumes "virtio_disk_init rd st2 pages d = Inr (ws, d')" "used_idx d = 0"
  shows "vinv \<lparr>drv = d', dv_seen = 0, dv_taken = [], calls = []\<rparr>"
proof -
  have "isfree d' = (\<lambda>i. i < NUM)" "avail_idx d' = 0" "used_no d' = 0" "used_idx d' = 0"
    using assms by (auto simp: virtio_disk_init_def Let_def split: if_splits option.splits)
  then show ?thesis by (simp add: vinv_defs offered_def reported_def)
qed

lemma vinv_other:
  assumes "vinv s" "\<forall>c\<in>set (calls s). f (c_buf c) = bufs (drv s) (c_buf c)"
  shows "vinv (s\<lparr>drv := (drv s)\<lparr>bufs := f\<rparr>\<rparr>)"
proof -
  have "chain_ok ((drv s)\<lparr>bufs := f\<rparr>) c \<longleftrightarrow> chain_ok (drv s) c" if "c \<in> set (calls s)" for c
    using assms(2) that by (intro chain_ok_cong) auto
  then show ?thesis
    using assms by (simp add: vinv_defs offered_def reported_def)
qed

lemma vinv_take:
  assumes "vinv s" "dv_seen s \<noteq> avail_idx (drv s)"
  shows "vinv (dev_take s)"
proof -
  let ?h = "unat (avail_ring (drv s) (unat (dv_seen s) mod NUM))"
  have "offered s = ?h # offered (dev_take s)"
    using entries_pop [OF assms(2), of "avail_ring (drv s)"] by (simp add: offered_def dev_take_def)
  moreover have "dv_taken (dev_take s) = dv_taken s @ [?h]" "reported (dev_take s) = reported s"
    "drv (dev_take s) = drv s" "calls (dev_take s) = calls s"
    by (simp_all add: dev_take_def reported_def)
  ultimately show ?thesis
    using assms(1) by (auto simp: vinv_defs)
qed

lemma vinv_wait:
  assumes "vinv s" "rw_begin b w (drv s) = Inr (None, d)"
  shows "vinv (s\<lparr>drv := d\<rparr>)"
proof -
  have "free_count (drv s) < 3"
    using assms(2) alloc3_desc_Some [of "drv s"] by (force simp: rw_begin_def not_less [symmetric])
  then obtain f where "alloc3_desc (drv s) = Inr (None, (drv s)\<lparr>desc := f\<rparr>)"
    and f: "\<forall>i<NUM. \<not> isfree (drv s) i \<longrightarrow> f i = desc (drv s) i"
    by (rule alloc3_desc_None)
  with assms(2) have d: "d = (drv s)\<lparr>desc := f\<rparr>"
    by (simp add: rw_begin_def)
  have "chain_ok d c \<longleftrightarrow> chain_ok (drv s) c" if "c \<in> set (calls s)" for c
    using f vinv_head(4) [OF assms(1) that] unfolding d by (intro chain_ok_cong) auto
  then show ?thesis
    using assms(1) by (simp add: vinv_defs offered_def reported_def d)
qed

lemma vinv_begin:
  assumes "vinv s" "b \<notin> c_buf ` set (calls s)" "rw_begin b w (drv s) = Inr (Some idx, d)"
  shows "vinv (s\<lparr>drv := d, calls := calls s @ [\<lparr>c_buf = b, c_write = w, c_idx = idx\<rparr>]\<rparr>)"
    (is "vinv ?t")
proof -
  have "free_count (drv s) \<ge> 3"
    using assms(3) alloc3_desc_None [of "drv s"] by (force simp: rw_begin_def not_le [symmetric])
  then obtain i0 i1 i2 where a: "alloc3_desc (drv s) =
      Inr (Some (i0, i1, i2), (drv s)\<lparr>isfree := (isfree (drv s))(i0 := False, i1 := False, i2 := False)\<rparr>)"
    and i: "i0 < NUM" "i1 < NUM" "i2 < NUM" "distinct [i0, i1, i2]"
    and f: "isfree (drv s) i0" "isfree (drv s) i1" "isfree (drv s) i2"
    by (rule alloc3_desc_Some)
  let ?c = "\<lparr>c_buf = b, c_write = w, c_idx = (i0, i1, i2)\<rparr>"
  have idx: "idx = (i0, i1, i2)" and d: "d = publish i0 (format_request b w (i0, i1, i2)
      ((drv s)\<lparr>isfree := (isfree (drv s))(i0 := False, i1 := False, i2 := False)\<rparr>))"
    using assms(3) a by (auto simp: rw_begin_def)
  have c: "c_descs ?c = [i0, i1, i2]" "c_head ?c = i0" by (simp_all add: c_descs_def c_head_def)
  have new: "i \<noteq> i0 \<and> i \<noteq> i1 \<and> i \<noteq> i2" if "c \<in> set (calls s)" "i \<in> set (c_descs c)" for c i
    using f vinv_head(4) [OF assms(1) that(1)] that(2) by auto
  have "length (entries (avail_ring (drv s)) (dv_seen s) (avail_idx (drv s))) < NUM"
    using vinv_bound [OF assms(1)] by (simp add: waiting_def offered_def)
  then have w: "offered ?t = offered s @ [i0]" "reported ?t = reported s" "dv_taken ?t = dv_taken s"
    using i by (simp_all add: d publish_def format_request_def offered_def reported_def entries_push unat_small16)
  have head: "c_head c \<noteq> i0" if "c \<in> set (calls s)" for c
    using new [OF that c_descs_head] by simp
  have "i0 \<notin> set (waiting s)"
    using assms(1) head by (auto simp: vinv_def waiting_ok_def)
  note fresh = this [unfolded waiting_def]
  have D: "descs_ok ?t"
    using assms(1) i new by (fastforce simp: vinv_def descs_ok_def idx c d publish_def format_request_def)
  have W: "waiting_ok ?t"
    using assms(1) fresh unfolding vinv_def waiting_ok_def waiting_def w
    by (auto simp: idx c d publish_def format_request_def)
  have "chain_ok d ?c"
    using i by (simp add: chain_ok_def chain_desc_def c_head_def d publish_def format_request_def)
  moreover have "chain_ok d c \<longleftrightarrow> chain_ok (drv s) c" if "c \<in> set (calls s)" for c
    using new [OF that] assms(2) that head [OF that]
    by (intro chain_ok_cong) (auto simp: d publish_def format_request_def)
  moreover have "bufs d = (bufs (drv s))(b := (bufs (drv s) b)\<lparr>v_disk := True\<rparr>)"
    by (simp add: d publish_def format_request_def)
  moreover have "c_buf c \<noteq> b" if "c \<in> set (calls s)" for c
    using assms(2) that by auto
  ultimately show ?thesis
    using assms(1,2) D W head unfolding vinv_def waiting_def w
    by (simp add: idx c)
qed

lemma set_concat_remove1:
  assumes "distinct (concat (map f xs))" "a \<in> set xs" "f a \<noteq> []"
  shows "set (concat (map f (remove1 a xs))) = set (concat (map f xs)) - set (f a)"
    "distinct (concat (map f (remove1 a xs)))"
proof -
  have **: "set (concat (map f xs)) = set (f a @ concat (map f (remove1 a xs)))"
    using assms(2) by (induction xs) auto
  have *: "distinct (f a @ concat (map f (remove1 a xs)))"
    using assms(1,2)
  proof (induction xs)
    case (Cons x xs)
    have "set (concat (map f (remove1 a xs))) \<subseteq> set (concat (map f xs))"
      using set_remove1_subset [of a xs] by auto
    moreover have "a \<in> set xs \<Longrightarrow> set (f a) \<subseteq> set (concat (map f xs))" by auto
    ultimately show ?case using Cons by (auto simp del: set_concat)
  qed simp
  show "distinct (concat (map f (remove1 a xs)))" using * by simp
  show "set (concat (map f (remove1 a xs))) = set (concat (map f xs)) - set (f a)"
    unfolding ** using * by auto
qed

lemma vinv_end:
  assumes "vinv s" "c \<in> set (calls s)" "rw_end (c_buf c) (c_head c) (drv s) = Some r"
  shows "\<exists>d. r = Inr d \<and> (\<forall>i. isfree d i \<longleftrightarrow> isfree (drv s) i \<or> i \<in> set (c_descs c)) \<and>
    vinv (s\<lparr>drv := d, calls := remove1 c (calls s)\<rparr>)"
proof -
  let ?d = "(drv s)\<lparr>info := (info (drv s))(c_head c := (info (drv s) (c_head c))\<lparr>i_b := None\<rparr>)\<rparr>"
  let ?e = "free_all (c_descs c) ?d"
  let ?t = "s\<lparr>drv := ?e, calls := remove1 c (calls s)\<rparr>"
  have v: "\<not> v_disk (bufs (drv s) (c_buf c))" and r: "r = free_chain (c_head c) ?d"
    using assms(3) by (auto simp: rw_end_def split: if_splits)
  have "chain_desc ?d c"
    using assms(1,2) by (simp add: vinv_def chain_ok_def chain_desc_def)
  then have ok: "r = Inr ?e"
    using vinv_head(3,4) [OF assms(1,2)] unfolding r by (intro free_chain_call) simp_all
  have nw: "c_head c \<notin> set (waiting s)" using assms(1,2) v by (auto simp: vinv_def)
  have W: "waiting ?t = waiting s" "reported ?t = reported s"
    by (simp_all add: waiting_def offered_def reported_def free_all_def)
  have "distinct (calls s)" using assms(1) by (simp add: vinv_def distinct_map)
  then have C: "set (remove1 c (calls s)) = set (calls s) - {c}" by (rule set_remove1_eq)
  have "distinct (concat (map c_descs (calls s)))" "c_descs c \<noteq> []"
    using assms(1) length_c_descs [of c] by (auto simp: vinv_def descs_ok_def simp del: length_c_descs)
  note D = set_concat_remove1 [OF this(1) assms(2) this(2)]
  have "descs_ok ?t"
    using assms(1) D by (auto simp: vinv_def descs_ok_def free_all_def simp del: set_concat)
  moreover have "waiting_ok ?t"
    using assms(1) nw unfolding vinv_def waiting_ok_def W
    by (auto simp: C free_all_def)
  moreover have "distinct (map c_buf (remove1 c (calls s)))"
    using assms(1) by (auto simp: vinv_def distinct_map C intro: inj_on_subset)
  moreover have "chain_ok ?e c' \<longleftrightarrow> chain_ok (drv s) c'" if "c' \<in> set (calls s) - {c}" for c'
  proof -
    have "i \<notin> set (c_descs c)" if "i \<in> set (c_descs c')" for i
      using vinv_owner [OF assms(1,2), of c' i] \<open>c' \<in> set (calls s) - {c}\<close> that by auto
    moreover from this have "c_head c' \<noteq> c_head c" by (metis c_descs_head)
    ultimately show ?thesis by (intro chain_ok_cong) (auto simp: free_all_def)
  qed
  moreover have "bufs ?e = bufs (drv s)" by (simp add: free_all_def)
  ultimately have "vinv ?t"
    using assms(1) unfolding vinv_def W by (simp add: C)
  then show ?thesis using ok by (auto simp: free_all_def)
qed

lemma dev_store_call:
  assumes "chain_desc d c" "\<forall>i\<in>set (c_descs c). i < NUM"
  shows "dev_store (c_head c) x d =
    d\<lparr>bufs := (if c_write c then bufs d else (bufs d)(c_buf c := (bufs d (c_buf c))\<lparr>v_data := x\<rparr>)),
      info := (info d)(c_head c := (info d (c_head c))\<lparr>i_status := 0\<rparr>)\<rparr>"
proof -
  obtain i0 i1 i2 where c: "c_idx c = (i0, i1, i2)" by (cases "c_idx c")
  show ?thesis
    using assms chain_flags(3) [of "c_write c"]
    by (simp add: dev_store_def c_head_def c_descs_def chain_desc_def c unat_small16 Let_def)
qed

lemma vinv_report:
  assumes "vinv s" "h \<in> set (dv_taken s)"
  shows "vinv (dev_report h x s)" (is "vinv ?t")
proof -
  obtain c where c: "c \<in> set (calls s)" and h: "h = c_head c"
    using assms by (auto simp: vinv_defs)
  note hd = vinv_head [OF assms(1) c]
  have "chain_desc (drv s) c" using assms(1) c by (simp add: vinv_def chain_ok_def)
  note st = dev_store_call [OF this, of x]
  have drv: "drv ?t = (drv s)
    \<lparr>bufs := (if c_write c then bufs (drv s)
              else (bufs (drv s))(c_buf c := (bufs (drv s) (c_buf c))\<lparr>v_data := x\<rparr>)),
     info := (info (drv s))(h := (info (drv s) h)\<lparr>i_status := 0\<rparr>),
     used_ring := (used_ring (drv s))(unat (used_no (drv s)) mod NUM := of_nat h),
     used_no := used_no (drv s) + 1\<rparr>"
    using hd(4) st by (simp add: dev_report_def h Let_def)
  have "length (entries (used_ring (drv s)) (used_idx (drv s)) (used_no (drv s))) < NUM"
    using vinv_bound [OF assms(1)] by (simp add: waiting_def reported_def)
  then have w: "offered ?t = offered s" "reported ?t = reported s @ [h]" "dv_taken ?t = remove1 h (dv_taken s)"
    "calls ?t = calls s"
    using hd(1) unfolding offered_def reported_def drv
    by (simp_all add: dev_report_def entries_push unat_small32 h Let_def)
  have set_w: "set (waiting ?t) = set (waiting s)"
    using assms unfolding waiting_def w vinv_def waiting_ok_def by (auto simp: set_remove1_eq)
  have "distinct (waiting ?t)"
    using assms unfolding waiting_def w vinv_def waiting_ok_def by (auto simp: set_remove1_eq)
  then have "waiting_ok ?t"
    using assms(1) set_w unfolding vinv_def waiting_ok_def w drv by auto
  moreover have "descs_ok ?t"
    using assms(1) unfolding vinv_def descs_ok_def w by (simp add: drv)
  moreover have "chain_ok (drv ?t) c' \<longleftrightarrow> chain_ok (drv s) c'" for c'
    by (rule chain_ok_cong) (auto simp: drv)
  moreover have "v_disk (bufs (drv ?t) b) = v_disk (bufs (drv s) b)" for b
    by (simp add: drv)
  ultimately show ?thesis
    using assms(1) unfolding vinv_def w set_w by simp
qed

subsection \<open>The interrupt handler\<close>

definition released :: "nat set \<Rightarrow> vdisk \<Rightarrow> vdisk" where
  "released hs d =
     d\<lparr>bufs := (\<lambda>b. (bufs d b)\<lparr>v_disk := v_disk (bufs d b) \<and> Some b \<notin> (\<lambda>h. i_b (info d h)) ` hs\<rparr>),
       used_idx := used_no d\<rparr>"

lemma virtio_disk_intr_releases:
  assumes "\<forall>h\<in>set (map unat (entries (used_ring d) (used_idx d) (used_no d))).
    i_status (info d h) = 0 \<and> i_b (info d h) \<noteq> None"
  shows "virtio_disk_intr d =
    Inr (released (set (map unat (entries (used_ring d) (used_idx d) (used_no d)))) d)"
  using assms
proof (induction d rule: virtio_disk_intr.induct)
  case (1 d)
  show ?case
  proof (cases "used_idx d = used_no d")
    case True
    then show ?thesis
      by (subst virtio_disk_intr.simps) (auto intro!: vdisk.equality vbuf.equality simp: released_def)
  next
    case False
    let ?h = "unat (used_ring d (unat (used_idx d) mod NUM))"
    let ?es = "map unat (entries (used_ring d) (used_idx d + 1) (used_no d))"
    note pop = entries_pop [OF False, of "used_ring d"]
    obtain b where b: "i_b (info d ?h) = Some b" "i_status (info d ?h) = 0"
      using 1(2) pop by auto
    let ?d = "d\<lparr>bufs := (bufs d)(b := (bufs d b)\<lparr>v_disk := False\<rparr>), used_idx := used_idx d + 1\<rparr>"
    have "virtio_disk_intr d = virtio_disk_intr ?d"
      using False b by (subst virtio_disk_intr.simps) (simp add: Let_def)
    also have "\<dots> = Inr (released (set ?es) ?d)"
      using 1(1) [OF False refl _ b(1)] 1(2) b(2) pop by simp
    also have "released (set ?es) ?d = released (set (?h # ?es)) d"
      by (auto intro!: vdisk.equality vbuf.equality simp: released_def fun_eq_iff b)
    finally show ?thesis using pop by simp
  qed
qed

lemma virtio_disk_intr_sys:
  assumes "vinv s"
  shows "virtio_disk_intr (drv s) = Inr (released (set (reported s)) (drv s))"
proof -
  have "i_status (info (drv s) h) = 0 \<and> i_b (info (drv s) h) \<noteq> None" if "h \<in> set (reported s)" for h
  proof -
    obtain c where "c \<in> set (calls s)" "h = c_head c"
      using assms \<open>h \<in> set (reported s)\<close> by (auto simp: vinv_defs)
    then show ?thesis
      using assms \<open>h \<in> set (reported s)\<close> by (auto simp: vinv_defs chain_ok_def)
  qed
  then show ?thesis
    unfolding reported_def by (intro virtio_disk_intr_releases) blast
qed

lemma released_call:
  assumes "vinv s" "c \<in> set (calls s)"
  shows "v_disk (bufs (released (set (reported s)) (drv s)) (c_buf c)) \<longleftrightarrow>
    c_head c \<in> set (offered s) \<union> set (dv_taken s)"
proof -
  have "h = c_head c" if h: "h \<in> set (reported s)" "i_b (info (drv s) h) = Some (c_buf c)" for h
  proof -
    obtain c' where c': "c' \<in> set (calls s)" "h = c_head c'"
      using assms(1) h(1) by (auto simp: vinv_defs)
    then have "c_buf c' = c_buf c"
      using assms(1) h(2) by (auto simp: vinv_def chain_ok_def)
    then have "c' = c"
      using assms c'(1) by (auto simp: vinv_def distinct_map inj_on_def)
    then show ?thesis using c' by simp
  qed
  moreover have "i_b (info (drv s) (c_head c)) = Some (c_buf c)"
    using assms by (auto simp: vinv_def chain_ok_def)
  ultimately have "Some (c_buf c) \<in> (\<lambda>h. i_b (info (drv s) h)) ` set (reported s) \<longleftrightarrow> c_head c \<in> set (reported s)"
    by (auto simp: image_iff) metis+
  then show ?thesis
    using assms by (auto simp: released_def vinv_defs)
qed

lemma vinv_intr:
  assumes "vinv s" "virtio_disk_intr (drv s) = Inr d"
  shows "vinv (s\<lparr>drv := d\<rparr>)" (is "vinv ?t")
proof -
  have d: "d = released (set (reported s)) (drv s)"
    using assms virtio_disk_intr_sys by simp
  have w: "offered ?t = offered s" "reported ?t = []"
    by (simp_all add: offered_def reported_def d released_def)
  have "chain_ok d c \<longleftrightarrow> chain_ok (drv s) c" for c
    unfolding d by (rule chain_ok_cong) (auto simp: released_def)
  moreover have "isfree d = isfree (drv s)" by (simp add: d released_def)
  moreover have "\<forall>c\<in>set (calls s). v_disk (bufs d (c_buf c)) \<longleftrightarrow> c_head c \<in> set (offered s) \<union> set (dv_taken s)"
    using released_call [OF assms(1)] d by simp
  ultimately show ?thesis
    using assms(1) unfolding vinv_def descs_ok_def waiting_ok_def waiting_def w by auto
qed

lemma vinv_step:
  assumes "vstep s t" "vinv s"
  shows "vinv t"
  using assms
proof cases
  case (End c d)
  with vinv_end [OF assms(2) End(2,3)] show ?thesis by auto
qed (auto intro: vinv_begin vinv_wait vinv_intr vinv_take vinv_report vinv_other)

lemma vreach_vinv: "vreach s \<Longrightarrow> vinv s"
  by (induction rule: vreach.induct) (auto intro: vinv_init vinv_step)

section \<open>What the driver guarantees\<close>

lemma rw_begin_total: "rw_begin b w d \<noteq> Inl e"
proof (cases "free_count d < 3")
  case True
  then obtain f where "alloc3_desc d = Inr (None, d\<lparr>desc := f\<rparr>)" by (rule alloc3_desc_None)
  then show ?thesis by (simp add: rw_begin_def)
next
  case False
  then have "3 \<le> free_count d" by simp
  from alloc3_desc_Some [OF this] obtain i0 i1 i2 d1 where "alloc3_desc d = Inr (Some (i0, i1, i2), d1)"
    by metis
  then show ?thesis by (simp add: rw_begin_def)
qed

text \<open>A driver that has been initialised and has one write request in flight.\<close>

definition regs_example :: "nat \<Rightarrow> uint32" where
  "regs_example r =
     (if r = 0x000 then 0x74726976 else if r = 0x004 then 2 else if r = 0x008 then 2
      else if r = 0x00c then 0x554d4551 else if r = 0x034 then 1024 else 0)"

definition disk_example :: vdisk where
  "disk_example =
     \<lparr>desc = (\<lambda>i. no_desc), avail_ring = (\<lambda>i. 0), avail_idx = 0, used_ring = (\<lambda>i. 0), used_no = 0,
      isfree = (\<lambda>i. i < NUM), used_idx = 0, info = (\<lambda>i. \<lparr>i_b = None, i_status = 0\<rparr>),
      ops = (\<lambda>i. \<lparr>r_type = 0, r_reserved = 0, r_sector = 0\<rparr>),
      bufs = (\<lambda>b. \<lparr>v_blockno = 7, v_data = [], v_disk = False\<rparr>)\<rparr>"

definition sys_example :: vsys where
  "sys_example =
     \<lparr>drv = publish 0 (format_request 5 True (0, 1, 2)
        (disk_example\<lparr>isfree := (\<lambda>i. i < NUM)(0 := False, 1 := False, 2 := False)\<rparr>)),
      dv_seen = 0, dv_taken = [], calls = [\<lparr>c_buf = 5, c_write = True, c_idx = (0, 1, 2)\<rparr>]\<rparr>"

lemma vreach_example: "vreach sys_example"
proof -
  have "virtio_disk_init regs_example 8 (Some (0, 0, 0)) disk_example = Inr (w, d) \<Longrightarrow> d = disk_example" for w d
    by (auto simp: virtio_disk_init_def regs_example_def NUM_def disk_example_def Let_def split: if_splits)
  moreover have "\<exists>w d. virtio_disk_init regs_example 8 (Some (0, 0, 0)) disk_example = Inr (w, d)"
    by (simp add: virtio_disk_init_def regs_example_def NUM_def Let_def)
  ultimately obtain w where
    "virtio_disk_init regs_example 8 (Some (0, 0, 0)) disk_example = Inr (w, disk_example)" by metis
  moreover have "used_idx disk_example = 0" by (simp add: disk_example_def)
  ultimately have "vreach \<lparr>drv = disk_example, dv_seen = 0, dv_taken = [], calls = []\<rparr>" (is "vreach ?s")
    by (rule vreach.Init)
  moreover have "rw_begin 5 True disk_example = Inr (Some (0, 1, 2), drv sys_example)"
    by (simp add: rw_begin_def alloc3_desc_def alloc_desc_def disk_example_def sys_example_def NUM_def
        upt_rec fun_upd_def numeral_2_eq_2)
  then have "vstep ?s sys_example"
    using vstep.Begin [of 5 ?s True "(0, 1, 2)"] by (simp add: sys_example_def)
  ultimately show ?thesis by (rule vreach.Step)
qed

text \<open>
  C35: the disk driver never panics.  Whatever the interleaving of calls, interrupts and
  device, the interrupt handler finds a good status and a buffer for every completion it
  reads, a new call gets descriptors or waits, and a returning call frees its chain
  without hitting a descriptor that is free already (the device reporting success).
\<close>

theorem disk_driver_never_panics:
  assumes "vreach s"
  shows "(\<exists>d. virtio_disk_intr (drv s) = Inr d) \<and>
    (\<forall>c\<in>set (calls s). \<forall>e. rw_end (c_buf c) (c_head c) (drv s) \<noteq> Some (Inl e)) \<and>
    (\<forall>b w e. rw_begin b w (drv s) \<noteq> Inl e)"
  using virtio_disk_intr_sys vinv_end vreach_vinv [OF assms] rw_begin_total by fastforce

theorem disk_driver_never_panics_witness:
  "\<exists>d. virtio_disk_intr (drv sys_example) = Inr d"
  using disk_driver_never_panics [OF vreach_example] by blast

text \<open>
  C36: a call of \<open>virtio_disk_rw\<close> sleeps exactly as long as its request is offered to,
  taken by, or reported by the device without the interrupt having seen it; when it
  returns it has given back its three descriptors and no other one.
\<close>

theorem disk_call_returns_after_report:
  assumes "vreach s" "c \<in> set (calls s)"
  shows "if c_head c \<in> set (waiting s) then rw_end (c_buf c) (c_head c) (drv s) = None
    else \<exists>d. rw_end (c_buf c) (c_head c) (drv s) = Some (Inr d) \<and>
      (\<forall>i. isfree d i \<longleftrightarrow> isfree (drv s) i \<or> i \<in> set (c_descs c))"
proof -
  note inv = vreach_vinv [OF assms(1)]
  have "rw_end (c_buf c) (c_head c) (drv s) = None \<longleftrightarrow> c_head c \<in> set (waiting s)"
    using inv assms(2) by (auto simp: rw_end_def vinv_def)
  then show ?thesis
    using vinv_end [OF inv assms(2)] by (cases "rw_end (c_buf c) (c_head c) (drv s)") fastforce+
qed

theorem disk_call_returns_after_report_witness:
  "rw_end 5 0 (drv sys_example) = None"
proof -
  have c: "\<lparr>c_buf = 5, c_write = True, c_idx = (0, 1, 2)\<rparr> \<in> set (calls sys_example)"
    by (simp add: sys_example_def)
  have "0 \<in> set (waiting sys_example)"
    by (simp add: waiting_def offered_def sys_example_def publish_def format_request_def disk_example_def
        entries_def)
  then show ?thesis
    using disk_call_returns_after_report [OF vreach_example c] by (simp add: c_head_def)
qed

text \<open>
  an interrupt ends exactly the requests that the device has reported: afterwards a
  buffer in flight still belongs to the device if and only if its request is offered or
  taken and not reported.  No data of a buffer changes.
\<close>

theorem disk_intr_completes_reported:
  assumes "vreach s" "c \<in> set (calls s)"
  shows "\<exists>d. virtio_disk_intr (drv s) = Inr d \<and>
    (v_disk (bufs d (c_buf c)) \<longleftrightarrow> c_head c \<in> set (offered s) \<union> set (dv_taken s)) \<and>
    (\<forall>b. v_data (bufs d b) = v_data (bufs (drv s) b))"
  using virtio_disk_intr_sys released_call assms vreach_vinv [OF assms(1)] by (simp add: released_def)

theorem disk_intr_completes_reported_witness:
  "\<exists>d. virtio_disk_intr (drv sys_example) = Inr d \<and> v_disk (bufs d 5)"
proof -
  have c: "\<lparr>c_buf = 5, c_write = True, c_idx = (0, 1, 2)\<rparr> \<in> set (calls sys_example)"
    by (simp add: sys_example_def)
  have "0 \<in> set (offered sys_example)"
    by (simp add: offered_def sys_example_def publish_def format_request_def disk_example_def entries_def)
  then show ?thesis
    using disk_intr_completes_reported [OF vreach_example c] by (auto simp: c_head_def)
qed

end
