(* ===== verification/Exec.thy ===== *)
theory Exec
  imports Fs_Calls Vm_User Vm_Free
begin

text \<open>
  \<open>exec\<close> (\<open>xv6-riscv/kernel/exec.c\<close>, \<open>elf.h\<close>): it joins the file system, which it reads the
  program from, with the virtual memory, in which it builds the new address space.

  \<open>begin_op\<close> and \<open>end_op\<close> act on the log only and are left out, as in \<open>Fs_Calls\<close>.  The
  arguments \<open>argv\<close> are the strings without their terminating zeros.  The writes of
  \<open>ustack\<close> past its end and the wrap-around of the counter of \<open>loadseg\<close> are results of
  their own.
\<close>

section \<open>ELF headers\<close>

definition MAXARG :: nat where "MAXARG = 32"
definition USERSTACK :: nat where "USERSTACK = 1"
definition ELF_MAGIC :: uint32 where "ELF_MAGIC = 0x464C457F"
definition ELF_PROG_LOAD :: uint32 where "ELF_PROG_LOAD = 1"

definition of_le64 :: "uint8 list \<Rightarrow> uint64" where
  "of_le64 v = foldr (\<lambda>b w. push_bit 8 w OR ucast b) (take 8 v) 0"

definition le64 :: "uint64 \<Rightarrow> uint8 list" where
  "le64 w = map (\<lambda>k. ucast (drop_bit (8 * k) w)) [0..<8]"

record elfhdr =
  e_magic :: uint32
  e_entry :: uint64
  e_phoff :: uint64
  e_phnum :: uint16

definition elfhdr_of :: "uint8 list \<Rightarrow> elfhdr" where
  "elfhdr_of v =
     \<lparr>e_magic = get32 0 v, e_entry = of_le64 (drop 24 v), e_phoff = of_le64 (drop 32 v),
      e_phnum = of_le16 (take 2 (drop 56 v))\<rparr>"

record proghdr =
  p_type :: uint32
  p_flags :: uint32
  p_off :: uint64
  p_vaddr :: uint64
  p_filesz :: uint64
  p_memsz :: uint64

definition proghdr_of :: "uint8 list \<Rightarrow> proghdr" where
  "proghdr_of v =
     \<lparr>p_type = get32 0 v, p_flags = get32 1 v, p_off = of_le64 (drop 8 v), p_vaddr = of_le64 (drop 16 v),
      p_filesz = of_le64 (drop 32 v), p_memsz = of_le64 (drop 40 v)\<rparr>"

definition flags2perm :: "uint32 \<Rightarrow> uint64" where
  "flags2perm flags = (if flags AND 1 \<noteq> 0 then PTE_X else 0) OR (if flags AND 2 \<noteq> 0 then PTE_W else 0)"

section \<open>Loading\<close>

datatype exec_error = ExFs fs_error | ExVm vm_error | ExPanic string | ExWraps | ExOverflow

definition of_fs :: "fs_error + 'a \<Rightarrow> exec_error + 'a" where
  "of_fs r = map_sum ExFs id r"

definition of_vm :: "vm_error + 'a \<Rightarrow> exec_error + 'a" where
  "of_vm r = map_sum ExVm id r"

lemma of_sum_simps [simp]:
  "of_fs (Inr a) = Inr a" "of_fs (Inl e) = Inl (ExFs e)" "of_vm (Inr b) = Inr b" "of_vm (Inl f) = Inl (ExVm f)"
  by (simp_all add: of_fs_def of_vm_def)

function loadseg_from ::
  "nat \<Rightarrow> nat \<Rightarrow> nat \<Rightarrow> uint32 \<Rightarrow> nat \<Rightarrow> nat \<Rightarrow> fsys \<Rightarrow> phys \<Rightarrow> exec_error + bool \<times> fsys \<times> phys" where
  "loadseg_from pt va ip off sz i f s =
     (if i < sz then
        let pa = walkaddr pt (va + i) s in
        if pa = 0 then Inl (ExPanic ''loadseg: address should exist'')
        else
          let n = (if sz - i < PGSIZE then sz - i else PGSIZE) in
          bindR (of_fs (readi ip kernel_copy (unat (off + of_nat i)) n f)) (\<lambda>(r, v, f1).
            let s1 = store_bytes pa v s in
            if r \<noteq> int n then Inr (False, f1, s1)
            else if i + PGSIZE \<ge> 2 ^ 32 then Inl ExWraps
            else loadseg_from pt va ip off sz (i + PGSIZE) f1 s1)
      else Inr (True, f, s))"
  by pat_completeness auto
termination
  by (relation "measure (\<lambda>(pt, va, ip, off, sz, i, f, s). sz - i)") (auto simp: PGSIZE_def)

declare loadseg_from.simps [simp del]

definition loadseg :: "nat \<Rightarrow> nat \<Rightarrow> nat \<Rightarrow> uint32 \<Rightarrow> uint32 \<Rightarrow> fsys \<Rightarrow> phys \<Rightarrow> exec_error + bool \<times> fsys \<times> phys" where
  "loadseg pt va ip off sz f s = loadseg_from pt va ip off (unat sz) 0 f s"

text \<open>
  One program header that is to be loaded, and the loop over all of them, \<open>n\<close> to go.  The
  flag is \<open>False\<close> where the code jumps to \<open>bad\<close>; the size that comes with it is what \<open>sz\<close>
  holds there.
\<close>

definition load_segment ::
  "nat \<Rightarrow> nat \<Rightarrow> nat \<Rightarrow> proghdr \<Rightarrow> fsys \<Rightarrow> phys \<Rightarrow> exec_error + bool \<times> nat \<times> fsys \<times> phys" where
  "load_segment ip pt sz ph f s =
     (if p_memsz ph < p_filesz ph then Inr (False, sz, f, s)
      else if p_vaddr ph + p_memsz ph < p_vaddr ph then Inr (False, sz, f, s)
      else if unat (p_vaddr ph) mod PGSIZE \<noteq> 0 then Inr (False, sz, f, s)
      else
        bindR (of_vm (uvmalloc pt sz (unat (p_vaddr ph + p_memsz ph)) (flags2perm (p_flags ph)) s)) (\<lambda>(sz1, s1).
          if sz1 = 0 then Inr (False, sz, f, s1)
          else
            bindR (loadseg pt (unat (p_vaddr ph)) ip (ucast (p_off ph)) (ucast (p_filesz ph)) f s1) (\<lambda>(ok, f1, s2).
              Inr (ok, sz1, f1, s2))))"

primrec load_segments ::
  "nat \<Rightarrow> uint32 \<Rightarrow> nat \<Rightarrow> nat \<Rightarrow> nat \<Rightarrow> fsys \<Rightarrow> phys \<Rightarrow> exec_error + bool \<times> nat \<times> fsys \<times> phys" where
  "load_segments 0 off ip pt sz f s = Inr (True, sz, f, s)"
| "load_segments (Suc n) off ip pt sz f s =
     bindR (of_fs (readi ip kernel_copy (unat off) 56 f)) (\<lambda>(r, v, f1).
       if r \<noteq> 56 then Inr (False, sz, f1, s)
       else if p_type (proghdr_of v) \<noteq> ELF_PROG_LOAD then load_segments n (off + 56) ip pt sz f1 s
       else
         bindR (load_segment ip pt sz (proghdr_of v) f1 s) (\<lambda>(ok, sz1, f2, s1).
           if \<not> ok then Inr (False, sz1, f2, s1) else load_segments n (off + 56) ip pt sz1 f2 s1))"

section \<open>The stack\<close>

definition align16 :: "nat \<Rightarrow> nat" where "align16 sp = sp - sp mod 16"

text \<open>\<open>a - b\<close> on 64 bits.\<close>

definition sub64 :: "nat \<Rightarrow> nat \<Rightarrow> nat" where
  "sub64 a b = nat ((int a - int b) mod 2 ^ 64)"

text \<open>\<open>ustack\<close> holds the addresses of the strings pushed so far.\<close>

primrec push_args ::
  "nat \<Rightarrow> nat \<Rightarrow> nat \<Rightarrow> nat \<Rightarrow> uint8 list list \<Rightarrow> nat \<Rightarrow> nat list \<Rightarrow> phys \<Rightarrow>
   exec_error + (nat \<times> nat list) option \<times> phys" where
  "push_args psz ppt pt stackbase [] sp ustack s = Inr (Some (sp, ustack), s)"
| "push_args psz ppt pt stackbase (a # as) sp ustack s =
     (if length ustack \<ge> MAXARG then Inr (None, s)
      else
        let sp1 = align16 (sub64 sp (length a + 1)) in
        if sp1 < stackbase then Inr (None, s)
        else
          bindR (of_vm (copyout psz ppt pt sp1 (a @ [0]) s)) (\<lambda>(r, s1).
            if r < 0 then Inr (None, s1)
            else push_args psz ppt pt stackbase as sp1 (ustack @ [sp1]) s1))"

definition push_pointers ::
  "nat \<Rightarrow> nat \<Rightarrow> nat \<Rightarrow> nat \<Rightarrow> nat \<Rightarrow> nat list \<Rightarrow> phys \<Rightarrow> exec_error + nat option \<times> phys" where
  "push_pointers psz ppt pt stackbase sp ustack s =
     (if length ustack \<ge> MAXARG then Inl ExOverflow
      else
        let sp1 = align16 (sub64 sp ((length ustack + 1) * 8)) in
        if sp1 < stackbase then Inr (None, s)
        else
          bindR (of_vm (copyout psz ppt pt sp1 (concat (map (\<lambda>p. le64 (of_nat p)) (ustack @ [0]))) s)) (\<lambda>(r, s1).
            if r < 0 then Inr (None, s1) else Inr (Some sp1, s1)))"

text \<open>
  The part of \<open>kexec\<close> between the loading and the commit, on a new address space of size
  \<open>sz\<close>: \<open>fill_stack\<close> is what follows the allocation of the two pages.
\<close>

definition fill_stack :: "nat \<Rightarrow> nat \<Rightarrow> nat \<Rightarrow> nat \<Rightarrow> uint8 list list \<Rightarrow> phys \<Rightarrow> exec_error + nat option \<times> phys" where
  "fill_stack psz ppt pt sz argv s =
     bindR (of_vm (uvmclear pt (sub64 sz ((USERSTACK + 1) * PGSIZE)) s)) (\<lambda>s1.
       let stackbase = sub64 sz (USERSTACK * PGSIZE) in
       bindR (push_args psz ppt pt stackbase argv sz [] s1) (\<lambda>(r, s2).
         case r of
           None \<Rightarrow> Inr (None, s2)
         | Some (sp, ustack) \<Rightarrow> push_pointers psz ppt pt stackbase sp ustack s2))"

definition build_stack ::
  "nat \<Rightarrow> nat \<Rightarrow> nat \<Rightarrow> nat \<Rightarrow> uint8 list list \<Rightarrow> phys \<Rightarrow> exec_error + nat option \<times> nat \<times> phys" where
  "build_stack psz ppt pt sz argv s =
     (let sz1 = PGROUNDUP sz in
      bindR (of_vm (uvmalloc pt sz1 ((sz1 + (USERSTACK + 1) * PGSIZE) mod 2 ^ 64) PTE_W s)) (\<lambda>(sz2, s1).
        if sz2 = 0 then Inr (None, sz1, s1)
        else bindR (fill_stack psz ppt pt sz2 argv s1) (\<lambda>(r, s2). Inr (r, sz2, s2))))"

section \<open>The call\<close>

text \<open>The fields of the process that \<open>kexec\<close> sets.\<close>

record image =
  im_pagetable :: nat
  im_sz :: nat
  im_epc :: uint64
  im_sp :: nat
  im_a1 :: nat
  im_name :: "uint8 list"

text \<open>\<open>last\<close>, the part of the path after the last slash.\<close>

definition base_name :: "uint8 list \<Rightarrow> uint8 list" where
  "base_name pn = rev (takeWhile (\<lambda>c. c \<noteq> 47) (rev pn))"

text \<open>\<open>bad\<close> after the page table has been made, with the file still open or not.\<close>

definition exec_bad :: "int \<Rightarrow> nat option \<Rightarrow> nat \<Rightarrow> nat \<Rightarrow> image \<Rightarrow> fsys \<Rightarrow> phys \<Rightarrow> exec_error + int \<times> image \<times> fsys \<times> phys" where
  "exec_bad me ip pt sz im f s =
     bindR (of_vm (if pt \<noteq> 0 then proc_freepagetable 3 pt sz s else Inr s)) (\<lambda>s1.
     bindR (case ip of None \<Rightarrow> Inr f | Some i \<Rightarrow> of_fs (iunlockput me i f)) (\<lambda>f1.
       Inr (-1, im, f1, s1)))"

text \<open>
  The part after the loading, which gives the file back, builds the stack and commits, and that part
  with the loading before it.
\<close>

definition exec_enter ::
  "int \<Rightarrow> nat \<Rightarrow> nat \<Rightarrow> uint64 \<Rightarrow> uint8 list \<Rightarrow> uint8 list list \<Rightarrow> image \<Rightarrow> nat \<Rightarrow> fsys \<Rightarrow> phys \<Rightarrow>
   exec_error + int \<times> image \<times> fsys \<times> phys" where
  "exec_enter me ip pt entr pn argv im sz f s =
     bindR (of_fs (iunlockput me ip f)) (\<lambda>f1.
     bindR (build_stack (im_sz im) (im_pagetable im) pt sz argv s) (\<lambda>(r, sz1, s1).
       case r of
         None \<Rightarrow> exec_bad me None pt sz1 im f1 s1
       | Some sp \<Rightarrow>
           bindR (of_vm (proc_freepagetable 3 (im_pagetable im) (im_sz im) s1)) (\<lambda>s2.
             Inr (int (length argv),
               \<lparr>im_pagetable = pt, im_sz = sz1, im_epc = entr, im_sp = sp, im_a1 = sp,
                im_name = safestrcpy (base_name pn @ [0]) 16\<rparr>, f1, s2))))"

definition exec_load ::
  "int \<Rightarrow> nat \<Rightarrow> nat \<Rightarrow> elfhdr \<Rightarrow> uint8 list \<Rightarrow> uint8 list list \<Rightarrow> image \<Rightarrow> fsys \<Rightarrow> phys \<Rightarrow>
   exec_error + int \<times> image \<times> fsys \<times> phys" where
  "exec_load me ip pt elf pn argv im f s =
     bindR (load_segments (unat (e_phnum elf)) (ucast (e_phoff elf)) ip pt 0 f s) (\<lambda>(ok, sz, f1, s1).
       if ok then exec_enter me ip pt (e_entry elf) pn argv im sz f1 s1
       else exec_bad me (Some ip) pt sz im f1 s1)"

text \<open>The call from the header on, with the file open.\<close>

definition exec_file ::
  "int \<Rightarrow> nat \<Rightarrow> nat \<Rightarrow> nat \<Rightarrow> uint8 list \<Rightarrow> uint8 list list \<Rightarrow> image \<Rightarrow> fsys \<Rightarrow> phys \<Rightarrow>
   exec_error + int \<times> image \<times> fsys \<times> phys" where
  "exec_file me ip trampoline trapframe pn argv im f s =
     bindR (of_fs (readi ip kernel_copy 0 64 f)) (\<lambda>(r, v, f1).
       let elf = elfhdr_of v in
       if r \<noteq> 64 then exec_bad me (Some ip) 0 0 im f1 s
       else if e_magic elf \<noteq> ELF_MAGIC then exec_bad me (Some ip) 0 0 im f1 s
       else
         bindR (of_vm (proc_pagetable 3 trampoline trapframe s)) (\<lambda>(pt, s1).
           if pt = 0 then exec_bad me (Some ip) 0 0 im f1 s1
           else exec_load me ip pt elf pn argv im f1 s1))"

definition kexec ::
  "int \<Rightarrow> nat \<Rightarrow> nat \<Rightarrow> nat \<Rightarrow> uint8 list \<Rightarrow> uint8 list list \<Rightarrow> image \<Rightarrow> fsys \<Rightarrow> phys \<Rightarrow>
   exec_error + int \<times> image \<times> fsys \<times> phys" where
  "kexec me cwd trampoline trapframe pn argv im f s =
     bindR (of_fs (namei me cwd pn f)) (\<lambda>(r, f1).
       case r of
         None \<Rightarrow> Inr (-1, im, f1, s)
       | Some (ip, _) \<Rightarrow>
           bindR (of_fs (ilock me ip f1)) (\<lambda>f2. exec_file me ip trampoline trapframe pn argv im f2 s))"

end
