(* ===== verification/Exec_Space.thy ===== *)
theory Exec_Space
  imports Exec
begin

text \<open>
  The address space that \<open>exec\<close> builds: the trampoline, the trap frame and \<open>n\<close> pages of
  user memory from address 0 on.  Physical memory bounds \<open>n\<close>, so a program header that
  asks for more than there is runs out of pages before it reaches the trap frame, whatever size
  it claims.
\<close>

section \<open>The layout\<close>

text \<open>The pages of \<open>G\<close> are not for the user.\<close>

definition layout :: "nat set \<Rightarrow> nat \<Rightarrow> nat \<Rightarrow> nat \<Rightarrow> nat \<Rightarrow> phys \<Rightarrow> bool" where
  "layout G tp tf pt n s \<longleftrightarrow> as_ok s pt
     \<and> frame_of s pt TRAMPOLINE = {tp} \<and> frame_of s pt TRAPFRAME = {tf}
     \<and> (\<forall>q. leaf_path q \<longrightarrow> leaf s pt q \<noteq> None \<longrightarrow> q = vpath TRAMPOLINE \<or> q = vpath TRAPFRAME \<or> in_range 0 n q)
     \<and> (\<forall>i < n. \<exists>e. lookup s pt (i * PGSIZE) = Some e \<and> managed s (PTE2PA e) \<and> (i \<notin> G \<longrightarrow> has e PTE_U))"

lemma layoutD:
  assumes "layout G tp tf pt n s"
  shows "as_ok s pt" "frame_of s pt TRAMPOLINE = {tp}" "frame_of s pt TRAPFRAME = {tf}"
    "leaf_path q \<Longrightarrow> leaf s pt q \<noteq> None \<Longrightarrow> q = vpath TRAMPOLINE \<or> q = vpath TRAPFRAME \<or> in_range 0 n q"
    "i < n \<Longrightarrow> \<exists>e. lookup s pt (i * PGSIZE) = Some e \<and> managed s (PTE2PA e) \<and> (i \<notin> G \<longrightarrow> has e PTE_U)"
  using assms by (simp_all add: layout_def)

lemma PHYSTOP_TRAPFRAME: "2 * PHYSTOP + 8 * PGSIZE \<le> TRAPFRAME" "PHYSTOP mod PGSIZE = 0" "TRAPFRAME + PGSIZE = TRAMPOLINE"
  "TRAMPOLINE + PGSIZE = MAXVA" "TRAPFRAME mod PGSIZE = 0" "TRAMPOLINE mod PGSIZE = 0"
  by (simp_all add: PHYSTOP_def KERNBASE_def PGSIZE_def TRAPFRAME_def TRAMPOLINE_def MAXVA_def)

lemma PGSIZE_pos [simp]: "0 < PGSIZE" by (simp add: PGSIZE_def)

lemma top_pages: "TRAPFRAME < MAXVA" "TRAMPOLINE < MAXVA" "TRAPFRAME < TRAMPOLINE"
  using PHYSTOP_TRAPFRAME(3,4) by (simp_all add: PGSIZE_def)

text \<open>Distinct pages of the allocator fit into physical memory.\<close>

lemma managed_bound:
  assumes "inj_on f {..<n}" "\<And>i. i < n \<Longrightarrow> managed s (f i)"
  shows "n * PGSIZE \<le> PHYSTOP"
proof -
  have "f ` {..<n} \<subseteq> (\<lambda>k. k * PGSIZE) ` {..<PHYSTOP div PGSIZE}"
  proof (clarify)
    fix i assume "i < n"
    then have m: "f i mod PGSIZE = 0" "f i < PHYSTOP" using assms(2) by (auto simp: managed_def)
    then have "f i = f i div PGSIZE * PGSIZE" by (simp add: mult.commute [of _ PGSIZE] flip: minus_mod_eq_mult_div)
    moreover have "f i div PGSIZE < PHYSTOP div PGSIZE"
      using m PHYSTOP_TRAPFRAME(2) by (simp add: div_less_iff_less_mult flip: minus_mod_eq_div_mult)
    ultimately show "f i \<in> (\<lambda>k. k * PGSIZE) ` {..<PHYSTOP div PGSIZE}" by blast
  qed
  then have "card (f ` {..<n}) \<le> card {..<PHYSTOP div PGSIZE}"
    by (rule surj_card_le [rotated]) simp
  then have "n \<le> PHYSTOP div PGSIZE" using assms(1) by (simp add: card_image)
  then show ?thesis by (simp add: less_eq_div_iff_mult_less_eq)
qed

lemma frames_inj:
  assumes ok: "as_ok s pt" and n: "n * PGSIZE \<le> MAXVA" and m: "\<And>i. i < n \<Longrightarrow> \<exists>e. lookup s pt (i * PGSIZE) = Some e \<and> P (PTE2PA e)"
  obtains f where "inj_on f {..<n}" "\<And>i. i < n \<Longrightarrow> P (f i)"
proof -
  from m obtain e where e: "\<And>i. i < n \<Longrightarrow> lookup s pt (i * PGSIZE) = Some (e i) \<and> P (PTE2PA (e i))" by metis
  have "inj_on (\<lambda>i. PTE2PA (e i)) {..<n}"
  proof (rule inj_onI)
    fix i j assume ij: "i \<in> {..<n}" "j \<in> {..<n}" "PTE2PA (e i) = PTE2PA (e j)"
    have lt: "k * PGSIZE < MAXVA" if "k < n" for k
    proof -
      have "Suc k * PGSIZE \<le> n * PGSIZE" using that by (intro mult_le_mono1) simp
      then show ?thesis using n by (simp add: PGSIZE_def)
    qed
    have "vpath (i * PGSIZE) = vpath (j * PGSIZE)"
      using as_okD(5) [OF ok vpath_leaf(1) vpath_leaf(1)] e ij by (simp add: lookup_def)
    then show "i = j" using page_paths [of 0 j i] lt ij(1,2) by auto
  qed
  then show thesis using that [of "\<lambda>i. PTE2PA (e i)"] e by blast
qed

lemma layout_bound:
  assumes "layout G tp tf pt n s" "n * PGSIZE \<le> TRAPFRAME"
  shows "n * PGSIZE \<le> PHYSTOP"
proof -
  have "n * PGSIZE \<le> MAXVA" using assms(2) top_pages(1) by simp
  moreover have "\<exists>e. lookup s pt (i * PGSIZE) = Some e \<and> managed s (PTE2PA e)" if "i < n" for i
    using layoutD(5) [OF assms(1) that] by blast
  ultimately obtain f where "inj_on f {..<n}" "\<And>i. i < n \<Longrightarrow> managed s (f i)"
    using frames_inj [OF layoutD(1) [OF assms(1)], of n "managed s"] by blast
  then show ?thesis by (rule managed_bound)
qed

lemma layout_unmapped:
  assumes "layout G tp tf pt n s" "n * PGSIZE \<le> v" "v < TRAPFRAME"
  shows "lookup s pt v = None"
proof (rule ccontr)
  assume a: "lookup s pt v \<noteq> None"
  have v: "v < MAXVA" using assms(3) top_pages(1) by simp
  have "n * PGSIZE \<le> MAXVA" using assms(2) v by simp
  then have "\<not> in_range 0 n (vpath v)" using in_range_vpath [of 0 n v] v assms(2) by simp
  moreover have "vpath v \<noteq> vpath TRAMPOLINE" "vpath v \<noteq> vpath TRAPFRAME"
    using vpath_eq [OF top_pages(2) v PHYSTOP_TRAPFRAME(6)] vpath_eq [OF top_pages(1) v PHYSTOP_TRAPFRAME(5)]
      assms(3) in_page [of v "PGROUNDDOWN v"] top_pages(3) by auto
  ultimately show False using layoutD(4) [OF assms(1) vpath_leaf(1), of v] a by (auto simp: lookup_def)
qed

section \<open>Growing\<close>

lemma uvmalloc_larger:
  assumes "uvmalloc_from pt b a m x s = Inr (0, s')" "0 < m" "m \<le> m'"
  shows "uvmalloc_from pt b a m' x s = Inr (0, s')"
  using assms
proof (induction pt b a m x s rule: uvmalloc_from.induct)
  case (1 pt b a m x s)
  have lt: "a < m" using 1(2,3) by (subst (asm) uvmalloc_from.simps) (auto split: if_splits)
  obtain page s1 where k: "kalloc s = (page, s1)" by (cases "kalloc s")
  show ?case
  proof (cases "page = 0")
    case True
    have "uvmalloc_from pt b a m x s = uvmalloc_from pt b a m' x s"
      using lt 1(4) k True by (subst (1 2) uvmalloc_from.simps) simp
    then show ?thesis using 1(2) by simp
  next
    case False
    then obtain r s2 where m: "mappages pt a PGSIZE page (PTE_R OR PTE_U OR x) (store_page page 0 s1) = Inr (r, s2)"
      using 1(2) lt k by (subst (asm) uvmalloc_from.simps) (auto simp: bindR_Inr)
    show ?thesis
    proof (cases "r = 0")
      case True
      have "uvmalloc_from pt b (a + PGSIZE) m x s2 = Inr (0, s')"
        using 1(2) lt k False m True by (subst (asm) uvmalloc_from.simps) simp
      from 1(1) [OF lt k [symmetric] refl False m refl _ this 1(3,4)] True
      show ?thesis using lt 1(4) k False m True by (subst uvmalloc_from.simps) simp
    next
      case r: False
      have "uvmalloc_from pt b a m x s = uvmalloc_from pt b a m' x s"
        using lt 1(4) k False m r by (subst (1 2) uvmalloc_from.simps) simp
      then show ?thesis using 1(2) by simp
    qed
  qed
qed

abbreviation npages :: "nat \<Rightarrow> nat" where "npages sz \<equiv> PGROUNDUP sz div PGSIZE"

lemma npages:
  assumes "sz \<le> TRAPFRAME"
  shows "PGROUNDUP sz = npages sz * PGSIZE" "sz \<le> npages sz * PGSIZE" "npages sz * PGSIZE < sz + PGSIZE"
    "npages sz * PGSIZE \<le> TRAPFRAME"
proof -
  have "sz + 4095 < 2 ^ 64"
    using assms by (simp add: TRAPFRAME_def TRAMPOLINE_def MAXVA_def PGSIZE_def)
  then have r: "PGROUNDUP sz = (sz + 4095) div 4096 * 4096" by (simp add: PGROUNDUP_def PGSIZE_def)
  then show e: "PGROUNDUP sz = npages sz * PGSIZE" by (simp add: PGSIZE_def)
  have "(sz + 4095) div 4096 * 4096 + (sz + 4095) mod 4096 = sz + 4095" "(sz + 4095) mod 4096 < 4096" by simp_all
  then show "sz \<le> npages sz * PGSIZE" "npages sz * PGSIZE < sz + PGSIZE"
    unfolding e [symmetric] unfolding r PGSIZE_def by linarith+
  then have "npages sz * PGSIZE < TRAPFRAME div PGSIZE * PGSIZE + PGSIZE"
    using assms PHYSTOP_TRAPFRAME(5) by (simp flip: minus_mod_eq_div_mult)
  then have "npages sz \<le> TRAPFRAME div PGSIZE"
    by (metis add.commute less_Suc_eq_le mult_Suc mult_less_cancel2)
  then show "npages sz * PGSIZE \<le> TRAPFRAME"
    using PHYSTOP_TRAPFRAME(5) by (simp add: less_eq_div_iff_mult_less_eq)
qed

lemma in_range_append: "in_range 0 (n + k) q \<longleftrightarrow> in_range 0 n q \<or> in_range (n * PGSIZE) k q"
proof -
  have "(\<exists>i < n + k. P i) \<longleftrightarrow> (\<exists>i < n. P i) \<or> (\<exists>i < k. P (n + i))" for P :: "nat \<Rightarrow> bool"
  proof
    assume "\<exists>i < n + k. P i"
    then obtain i where "i < n + k" "P i" by blast
    then show "(\<exists>i < n. P i) \<or> (\<exists>i < k. P (n + i))"
      by (cases "i < n") (auto intro: exI [of _ "i - n"])
  qed (auto intro: trans_less_add1 exI [of _ "n + _"])
  then show ?thesis by (simp add: in_range_def algebra_simps)
qed

lemma frame_of_leaf: "leaf s' pt (vpath v) = leaf s pt (vpath v) \<Longrightarrow> frame_of s' pt v = frame_of s pt v"
  by (simp add: frame_of_def lookup_def)

lemma free_pages_managed: "kmem_ok s \<Longrightarrow> p \<in> free_pages s \<Longrightarrow> managed s p"
  using free_list_pages by (auto simp: kmem_ok_def free_list_def)

text \<open>\<open>added\<close> pages extend the layout.\<close>

lemma layout_added:
  assumes L: "layout {} tp tf pt n s" and a: "added pt (n * PGSIZE) 0 k perm s s'"
    and top: "(n + k) * PGSIZE \<le> TRAPFRAME" and perm: "perm_ok perm" "has perm PTE_U"
  shows "layout {} tp tf pt (n + k) s'"
proof -
  have A: "space_step pt (frames s pt) s s'"
    "\<And>q. leaf_path q \<Longrightarrow> \<not> in_range (n * PGSIZE) k q \<Longrightarrow> leaf s' pt q = leaf s pt q"
    "\<And>q. in_range (n * PGSIZE) k q \<Longrightarrow> \<exists>page. page \<in> free_pages s \<and> leaf s' pt q = Some (pte_of page perm)"
    using a by (auto simp: added_def)
  have nk: "n * PGSIZE + k * PGSIZE \<le> TRAPFRAME" using top by (simp add: algebra_simps)
  have r: "in_range (n * PGSIZE) k (vpath v) \<longleftrightarrow> n * PGSIZE \<le> v \<and> v < n * PGSIZE + k * PGSIZE" if "v < MAXVA" for v
    using in_range_vpath [OF _ _ that] nk top_pages(1) by simp
  have "leaf s' pt (vpath TRAMPOLINE) = leaf s pt (vpath TRAMPOLINE)" "leaf s' pt (vpath TRAPFRAME) = leaf s pt (vpath TRAPFRAME)"
    using A(2) [OF vpath_leaf(1)] r top_pages nk by simp_all
  note fr = this [THEN frame_of_leaf]
  have m: "managed s' p = managed s p" for p by (rule space_step_managed [OF A(1)])
  have "\<exists>e. lookup s' pt (i * PGSIZE) = Some e \<and> managed s' (PTE2PA e) \<and> has e PTE_U" if i: "i < n + k" for i
  proof (cases "i < n")
    case True
    have "Suc i * PGSIZE \<le> n * PGSIZE" using True by (intro mult_le_mono1) simp
    then have "i * PGSIZE < n * PGSIZE" by (simp add: PGSIZE_def)
    then have "i * PGSIZE < MAXVA" "\<not> n * PGSIZE \<le> i * PGSIZE" using nk top_pages(1) by linarith+
    then have "lookup s' pt (i * PGSIZE) = lookup s pt (i * PGSIZE)"
      using A(2) [OF vpath_leaf(1)] r by (simp add: lookup_def)
    then show ?thesis using layoutD(5) [OF L True] m by simp
  next
    case False
    then have "in_range (n * PGSIZE) k (vpath (i * PGSIZE))"
      using i unfolding in_range_def by (intro exI [of _ "i - n"]) (simp add: diff_mult_distrib)
    from A(3) [OF this] obtain page where p: "page \<in> free_pages s" "lookup s' pt (i * PGSIZE) = Some (pte_of page perm)"
      by (auto simp: lookup_def)
    have mp: "managed s page" using free_pages_managed [OF as_okD(1) [OF layoutD(1) [OF L]] p(1)] .
    then show ?thesis using p(2) m PTE2PA_pte_of [OF mp perm(1)] perm(2) by (simp add: pte_of_def flag_bits bit_or_iff)
  qed
  moreover have "q = vpath TRAMPOLINE \<or> q = vpath TRAPFRAME \<or> in_range 0 (n + k) q" if "leaf_path q" "leaf s' pt q \<noteq> None" for q
    using A(2) [OF that(1)] that(2) layoutD(4) [OF L that(1)] unfolding in_range_append by metis
  ultimately show ?thesis
    using A(1) layoutD(2,3) [OF L] fr by (simp add: layout_def space_step_def)
qed

lemma layout_same:
  assumes "layout G tp tf pt n s" "space_step pt K s s'" "\<And>q. leaf_path q \<Longrightarrow> leaf s' pt q = leaf s pt q"
  shows "layout G tp tf pt n s'"
  using assms(1) assms(3) [OF vpath_leaf(1)] space_step_managed [OF assms(2)] assms(2,3) frame_of_leaf [of s' pt _ s]
  by (auto simp: layout_def space_step_def lookup_def)

lemma space_step_keep: "space_step pt K s s' \<Longrightarrow> space_step pt (K \<inter> L) s s'"
  by (erule space_step_mono) simp

text \<open>The loop of \<open>uvmalloc\<close> on a layout, for any size that is asked for.\<close>

lemma uvmalloc_from_layout:
  assumes L: "layout {} tp tf pt n s" and n: "n * PGSIZE \<le> PHYSTOP" and new: "n * PGSIZE < newsz" and x: "perm_ok xperm"
  shows "\<exists>r s'. uvmalloc_from pt (n * PGSIZE) (n * PGSIZE) newsz xperm s = Inr (r, s') \<and> space_step pt (frames s pt) s s'
    \<and> (r = newsz \<and> newsz \<le> PHYSTOP \<and> layout {} tp tf pt (npages newsz) s'
         \<and> (\<forall>i. n \<le> i \<and> i < npages newsz \<longrightarrow> (\<exists>page. lookup s' pt (i * PGSIZE) = Some (pte_of page (PTE_R OR PTE_U OR xperm))))
       \<or> r = 0 \<and> layout {} tp tf pt n s')"
proof -
  let ?b = "n * PGSIZE" and ?perm = "PTE_R OR PTE_U OR xperm"
  define m where "m = min newsz (PHYSTOP + PGSIZE)"
  have m: "?b < m" "m \<le> TRAPFRAME" "0 < m" "m \<le> newsz"
    using new n PHYSTOP_TRAPFRAME(1) by (auto simp: m_def PGSIZE_def)
  note N = npages [OF m(2)]
  have "n < npages m" using m(1) N(2) by (metis le_less_trans less_le_trans mult_less_cancel2 not_le)
  then obtain k where k: "npages m = n + k" by (metis less_imp_le_nat le_Suc_ex)
  have k1: "(n + k) * PGSIZE = ?b + k * PGSIZE" by (simp add: algebra_simps)
  have none: "\<forall>j. 0 \<le> j \<and> j < k \<longrightarrow> lookup s pt (?b + j * PGSIZE) = None"
  proof (intro allI impI, elim conjE)
    fix j assume "j < k"
    then have "Suc j * PGSIZE \<le> k * PGSIZE" by (intro mult_le_mono1) simp
    then have "?b + j * PGSIZE < TRAPFRAME" using N(4) k k1 by (simp add: PGSIZE_def)
    then show "lookup s pt (?b + j * PGSIZE) = None" by (intro layout_unmapped [OF L]) simp_all
  qed
  have perm: "perm_ok ?perm" "has ?perm PTE_U" using x by (auto simp: perm_ok_def flag_bits bit_or_iff PTE_consts_bit)
  have "\<exists>r s'. uvmalloc_from pt ?b (?b + 0 * PGSIZE) m xperm s = Inr (r, s')
    \<and> (r = m \<and> added pt ?b 0 k ?perm s s' \<or> r = 0 \<and> restored pt ?b 0 s s')"
    using N(2,3) k k1 m none layoutD(1) [OF L] x top_pages(1) by (intro uvmalloc_from_spec) (auto simp: range_frames_def)
  then obtain r s' where u: "uvmalloc_from pt ?b ?b m xperm s = Inr (r, s')"
    and c: "r = m \<and> added pt ?b 0 k ?perm s s' \<or> r = 0 \<and> restored pt ?b 0 s s'" by auto
  show ?thesis
  proof (cases "r = 0")
    case True
    then have re: "restored pt ?b 0 s s'" using c m(3) by auto
    then have "space_step pt (frames s pt) s s'" "\<And>q. leaf_path q \<Longrightarrow> leaf s' pt q = leaf s pt q"
      by (auto simp: restored_def range_frames_def in_range_def)
    moreover have "uvmalloc_from pt ?b ?b newsz xperm s = Inr (0, s')"
      using uvmalloc_larger [OF _ m(3,4)] u True by simp
    ultimately show ?thesis using layout_same [OF L] by blast
  next
    case False
    then have a: "r = m" "added pt ?b 0 k ?perm s s'" using c by auto
    have L': "layout {} tp tf pt (n + k) s'" using layout_added [OF L a(2) _ perm] N(4) k by simp
    have "npages m * PGSIZE \<le> PHYSTOP" using layout_bound [OF L'] N(4) k by simp
    then have mm: "m = newsz" "newsz \<le> PHYSTOP" using N(2) by (auto simp: m_def min_def PGSIZE_def split: if_splits)
    have "\<exists>page. lookup s' pt (i * PGSIZE) = Some (pte_of page ?perm)" if "n \<le> i" "i < npages m" for i
    proof -
      have "in_range (n * PGSIZE) k (vpath (i * PGSIZE))"
        using that k unfolding in_range_def by (intro exI [of _ "i - n"]) (simp add: diff_mult_distrib)
      then show ?thesis using a(2) by (auto simp: added_def lookup_def)
    qed
    then show ?thesis using u a L' k mm by (auto simp: added_def)
  qed
qed

lemma npages_mono_eq: "sz \<le> new \<Longrightarrow> new \<le> npages sz * PGSIZE \<Longrightarrow> new \<le> TRAPFRAME \<Longrightarrow> npages new = npages sz"
proof -
  assume a: "sz \<le> new" "new \<le> npages sz * PGSIZE" "new \<le> TRAPFRAME"
  note N = npages [OF a(3)] npages [OF le_trans [OF a(1,3)]]
  have "npages new * PGSIZE < Suc (npages sz) * PGSIZE" "npages sz * PGSIZE < Suc (npages new) * PGSIZE"
    using N a by simp_all
  then show ?thesis by (metis PGSIZE_pos less_antisym mult_less_cancel2 not_less_eq)
qed

text \<open>\<open>uvmalloc\<close> on a layout: the size grows to what was asked for, or nothing happens.\<close>

lemma uvmalloc_layout:
  assumes L: "layout {} tp tf pt (npages sz) s" and sz: "sz \<le> PHYSTOP" and x: "perm_ok xperm"
  shows "\<exists>r s'. uvmalloc pt sz newsz xperm s = Inr (r, s') \<and> space_step pt (frames s pt) s s'
    \<and> (r \<noteq> 0 \<and> r = max sz newsz \<and> r \<le> PHYSTOP \<and> layout {} tp tf pt (npages r) s'
         \<and> (\<forall>i. npages sz \<le> i \<and> i < npages r \<longrightarrow> (\<exists>page. lookup s' pt (i * PGSIZE) = Some (pte_of page (PTE_R OR PTE_U OR xperm))))
       \<or> r = 0 \<and> layout {} tp tf pt (npages sz) s')"
proof -
  have T: "sz \<le> TRAPFRAME" using sz PHYSTOP_TRAPFRAME(1) by simp
  note N = npages [OF T]
  have b: "npages sz * PGSIZE \<le> PHYSTOP" by (rule layout_bound [OF L N(4)])
  have refl: "space_step pt (frames s pt) s s" by (rule space_step_refl [OF layoutD(1) [OF L]])
  consider "newsz < sz" | "sz \<le> newsz" "newsz \<le> npages sz * PGSIZE" | "sz \<le> newsz" "npages sz * PGSIZE < newsz" by linarith
  then show ?thesis
  proof cases
    case 1
    then have "uvmalloc pt sz newsz xperm s = Inr (sz, s)" by (simp add: uvmalloc_def)
    then show ?thesis using 1 L sz refl by auto
  next
    case 2
    then have "uvmalloc pt sz newsz xperm s = Inr (newsz, s)"
      using N(1) by (simp add: uvmalloc_def) (subst uvmalloc_from.simps, simp)
    moreover have "npages newsz = npages sz" "max sz newsz = newsz" "newsz \<le> PHYSTOP"
      using npages_mono_eq [OF 2] 2 N(4) b by simp_all
    ultimately show ?thesis
      using L refl by (intro exI [of _ newsz] exI [of _ s]) (simp, metis gr0I not_le)
  next
    case 3
    moreover have "uvmalloc pt sz newsz xperm s = uvmalloc_from pt (npages sz * PGSIZE) (npages sz * PGSIZE) newsz xperm s"
      using 3(1) N(1) by (simp add: uvmalloc_def)
    moreover have "max sz newsz = newsz" "newsz \<noteq> 0" using 3 by simp_all
    ultimately show ?thesis using uvmalloc_from_layout [OF L b 3(2) x] by auto
  qed
qed

end
