(* ===== verification/Exec_Facts.thy ===== *)
theory Exec_Facts
  imports Exec_Space
begin

text \<open>
  The parts of \<open>exec\<close> on the layout of a new address space: loading the segments, building
  the stack, and the way out when something fails.  \<open>own\<close> says what such a part may do: it
  keeps the layout, moves pages only between the new address space and the free list, and does not
  touch the trampoline, the trap frame and any page of another address space.
\<close>

definition own :: "nat \<Rightarrow> nat \<Rightarrow> nat \<Rightarrow> phys \<Rightarrow> phys \<Rightarrow> bool" where
  "own tp tf pt s s' \<longleftrightarrow> space_step pt {tp, tf} s s'"

lemma own_trans: "own tp tf pt s t \<Longrightarrow> own tp tf pt t u \<Longrightarrow> own tp tf pt s u"
  unfolding own_def by (rule space_step_trans)

lemma own_refl: "layout G tp tf pt n s \<Longrightarrow> own tp tf pt s s"
  unfolding own_def by (intro space_step_refl layoutD(1))

lemma layout_top: "layout G tp tf pt n s \<Longrightarrow> {tp, tf} \<subseteq> frames s pt"
  using frame_of_frames [of s pt TRAMPOLINE] frame_of_frames [of s pt TRAPFRAME] by (simp add: layout_def)

lemma own_grow: "layout G tp tf pt n s \<Longrightarrow> space_step pt (frames s pt) s s' \<Longrightarrow> own tp tf pt s s'"
  unfolding own_def by (rule space_step_mono [OF _ layout_top])

lemma page_index:
  assumes "v < n * PGSIZE"
  shows "v div PGSIZE < n" "lookup s pt v = lookup s pt (v div PGSIZE * PGSIZE)"
  using assms lookup_page [of s pt v] by (simp_all add: div_less_iff_less_mult PGROUNDDOWN_def)

text \<open>A user page of a layout, and a store into it.\<close>

lemma layout_page:
  assumes L: "layout G tp tf pt n s" and n: "n * PGSIZE \<le> TRAPFRAME" and v: "v < n * PGSIZE"
  obtains e where "lookup s pt v = Some e" "managed s (PTE2PA e)" "v div PGSIZE \<notin> G \<Longrightarrow> has e PTE_U" "PTE2PA e \<notin> {tp, tf}"
proof -
  note p = page_index(1) [OF v] page_index(2) [OF v, of s pt]
  from layoutD(5) [OF L p(1)] p(2) obtain e where
    e: "lookup s pt v = Some e" "managed s (PTE2PA e)" "v div PGSIZE \<notin> G \<longrightarrow> has e PTE_U" by auto
  have vm: "v < MAXVA" "v < TRAPFRAME" using v n top_pages(1) by simp_all
  have ne: "vpath v \<noteq> vpath TRAMPOLINE" "vpath v \<noteq> vpath TRAPFRAME"
    using vpath_eq [OF top_pages(2) vm(1) PHYSTOP_TRAPFRAME(6)] vpath_eq [OF top_pages(1) vm(1) PHYSTOP_TRAPFRAME(5)]
      vm(2) in_page [of v "PGROUNDDOWN v"] top_pages(3) by auto
  have "PTE2PA e \<notin> frame_of s pt a" if "vpath v \<noteq> vpath a" for a
    using that e(1) as_okD(5) [OF layoutD(1) [OF L] vpath_leaf(1) vpath_leaf(1), of v e a]
    by (auto simp: frame_of_def lookup_def split: option.splits)
  then have "PTE2PA e \<notin> {tp, tf}" using ne layoutD(2,3) [OF L] by blast
  then show thesis using that e by blast
qed

lemma own_store:
  assumes L: "layout G tp tf pt n s" and n: "n * PGSIZE \<le> TRAPFRAME" and v: "v < n * PGSIZE"
    and e: "lookup s pt v = Some e" and fit: "off + length bs \<le> PGSIZE"
  shows "own tp tf pt s (store_bytes (PTE2PA e + off) bs s)" "layout G tp tf pt n (store_bytes (PTE2PA e + off) bs s)"
proof -
  note S = store_space [OF layoutD(1) [OF L] e fit]
  have "PTE2PA e \<notin> {tp, tf}" by (rule layout_page [OF L n v]) (use e in auto)
  then have "{tp, tf} \<subseteq> frames s pt - {PTE2PA e}" using layout_top [OF L] by blast
  from space_step_mono [OF S(1) this] show "own tp tf pt s (store_bytes (PTE2PA e + off) bs s)" by (simp add: own_def)
  show "layout G tp tf pt n (store_bytes (PTE2PA e + off) bs s)" by (rule layout_same [OF L S(1,2)])
qed

section \<open>Loading\<close>

lemma readi_loop_length:
  "readi_loop i cp n tot off dst s = Inr (r, v, s') \<Longrightarrow> length v \<le> length dst + (n - tot)"
proof (induction i cp n tot off dst s rule: readi_loop.induct)
  case (1 i cp n tot off dst s)
  show ?case
  proof (cases "tot < n")
    case False
    with 1(2) show ?thesis by (subst (asm) readi_loop.simps) auto
  next
    case True
    with 1(2) obtain a s1 where b: "bmap i (off div BSIZE) s = Inr (a, s1)"
      by (subst (asm) readi_loop.simps) (auto simp: bindR_Inr)
    let ?m = "chunk n tot off"
    let ?bs = "take ?m (drop (off mod BSIZE) (blk s1 a))"
    have m: "?m \<le> n - tot" by (simp add: chunk_def)
    show ?thesis
    proof (cases "a = 0 \<or> cp tot ?m \<noteq> None")
      case stop: True
      have "v = dst \<or> (\<exists>k. v = dst @ take k ?bs)" using 1(2) True b stop
        by (subst (asm) readi_loop.simps) (auto simp: Let_def split: if_splits option.splits)
      moreover have "length (take k ?bs) \<le> n - tot" for k using m by simp
      ultimately show ?thesis using m by (metis add_left_mono le_add1 length_append)
    next
      case False
      then have go: "a \<noteq> 0" "cp tot ?m = None" by auto
      have "readi_loop i cp n (tot + ?m) (off + ?m) (dst @ ?bs) s1 = Inr (r, v, s')"
        using 1(2) True b go by (subst (asm) readi_loop.simps) (simp add: Let_def)
      from 1(1) [OF True b refl go(1) refl refl go(2) this] m show ?thesis by simp
    qed
  qed
qed

lemma readi_length: "readi i cp off n s = Inr (r, v, s') \<Longrightarrow> length v \<le> n"
proof -
  assume "readi i cp off n s = Inr (r, v, s')"
  moreover have "i_size (ino s i) - off \<le> n" if "i_size (ino s i) < (off + n) mod 2 ^ 32"
  proof -
    have "(off + n) mod 2 ^ 32 \<le> off + n" by simp
    then show ?thesis using that by linarith
  qed
  ultimately show ?thesis by (auto simp: readi_def split: if_splits dest!: readi_loop_length)
qed

lemma readi_exec:
  obtains e where "of_fs (readi ip cp off n f) = Inl (ExFs e)"
  | r v f' where "of_fs (readi ip cp off n f) = Inr (r, v, f')" "refs f' = refs f" "owners f' = owners f" "length v \<le> n"
proof (cases "readi ip cp off n f")
  case (Inl e)
  then show thesis using that(1) by simp
next
  case (Inr p)
  obtain r v f' where p: "p = (r, v, f')" by (cases p) auto
  then show thesis using that(2) Inr readi_length addrs_only_balance [OF readi_addrs_only] by simp
qed

text \<open>What a stretch of \<open>exec\<close> that reads the file promises.\<close>

definition quiet :: "fsys \<Rightarrow> fsys \<Rightarrow> bool" where
  "quiet f f' \<longleftrightarrow> refs f' = refs f \<and> owners f' = owners f"

lemma quiet_refl: "quiet f f" by (simp add: quiet_def)
lemma quiet_trans: "quiet f g \<Longrightarrow> quiet g h \<Longrightarrow> quiet f h" by (simp add: quiet_def)

fun promise :: "('a \<Rightarrow> bool) \<Rightarrow> exec_error + 'a \<Rightarrow> bool" where
  "promise P (Inl e) \<longleftrightarrow> (\<exists>x. e = ExFs x)"
| "promise P (Inr a) \<longleftrightarrow> P a"

lemma promise_mono: "promise P r \<Longrightarrow> (\<And>a. P a \<Longrightarrow> Q a) \<Longrightarrow> promise Q r"
  by (cases r) auto

lemma promise_bind: "promise P r \<Longrightarrow> (\<And>a. r = Inr a \<Longrightarrow> P a \<Longrightarrow> promise Q (g a)) \<Longrightarrow> promise Q (bindR r g)"
  by (cases r) auto

lemma promise_readi: "promise (\<lambda>(r, v, f'). quiet f f' \<and> length v \<le> n) (of_fs (readi ip cp off n f))"
  by (rule readi_exec [of ip cp off n f]) (auto simp: quiet_def)

lemma loadseg_from_promise:
  assumes "layout {} tp tf pt n s" "n * PGSIZE \<le> PHYSTOP" "va mod PGSIZE = 0" "va + sz \<le> n * PGSIZE" "i mod PGSIZE = 0"
  shows "promise (\<lambda>(ok, f', s'). quiet f f' \<and> own tp tf pt s s' \<and> layout {} tp tf pt n s') (loadseg_from pt va ip off sz i f s)"
  using assms
proof (induction pt va ip off sz i f s rule: loadseg_from.induct)
  case (1 pt va ip off sz i f s)
  show ?case
  proof (cases "i < sz")
    case False
    then show ?thesis using 1(2) own_refl by (subst loadseg_from.simps) (auto simp: quiet_refl)
  next
    case True
    have v: "va + i < n * PGSIZE" "n * PGSIZE \<le> TRAPFRAME" "va + i < MAXVA" "(va + i) mod PGSIZE = 0"
      using True 1(3-6) PHYSTOP_TRAPFRAME(1) top_pages(1) by (auto simp: mod_add_eq [symmetric, of va])
    obtain e where e: "lookup s pt (va + i) = Some e" "managed s (PTE2PA e)" "has e PTE_U"
      using layout_page [OF 1(2) v(2,1)] by blast
    have pa: "walkaddr pt (va + i) s = PTE2PA e" using e v(3) by (simp add: walkaddr_lookup)
    have nz: "PTE2PA e \<noteq> 0"
      using managed_page(2) e(2) as_okD(1) [OF layoutD(1) [OF 1(2)]] unfolding kmem_ok_def by blast
    let ?n = "if sz - i < PGSIZE then sz - i else PGSIZE"
    have wrap: "\<not> i + PGSIZE \<ge> 2 ^ 32" using v(1) 1(3) by (simp add: PHYSTOP_def KERNBASE_def PGSIZE_def)
    have al: "(i + PGSIZE) mod PGSIZE = 0" using 1(6) by simp
    have "promise (\<lambda>(ok, f', s'). quiet f f' \<and> own tp tf pt s s' \<and> layout {} tp tf pt n s')
      (let s1 = store_bytes (PTE2PA e) v s
       in if r \<noteq> int ?n then Inr (False, f1, s1) else if i + PGSIZE \<ge> 2 ^ 32 then Inl ExWraps
          else loadseg_from pt va ip off sz (i + PGSIZE) f1 s1)"
      if rd: "of_fs (readi ip kernel_copy (unat (off + of_nat i)) ?n f) = Inr (r, v, f1)" and v': "quiet f f1" "length v \<le> ?n" for r v f1
    proof -
      let ?s1 = "store_bytes (PTE2PA e) v s"
      have "0 + length v \<le> PGSIZE" using v'(2) by (simp split: if_splits)
      from own_store [OF 1(2) v(2,1) e(1) this] have s1: "own tp tf pt s ?s1" "layout {} tp tf pt n ?s1" by simp_all
      have "promise (\<lambda>(ok, f', s'). quiet f1 f' \<and> own tp tf pt ?s1 s' \<and> layout {} tp tf pt n s')
          (loadseg_from pt va ip off sz (i + PGSIZE) f1 ?s1)" if "r = int ?n"
        using 1(1) [OF True pa [symmetric] nz refl rd refl refl refl _ wrap s1(2) 1(3,4,5) al] that by simp
      then show ?thesis
        using wrap s1 v'(1) by (auto simp: Let_def intro: own_trans quiet_trans elim!: promise_mono)
    qed
    then show ?thesis
      using True nz by (subst loadseg_from.simps) (auto simp: pa Let_def intro!: promise_bind [OF promise_readi])
  qed
qed
lemma promise_vm: "\<exists>a. r = Inr a \<and> P a \<Longrightarrow> promise P (of_vm r)"
  by auto

lemma flags2perm_ok: "perm_ok (flags2perm flags)"
  by (auto simp: flags2perm_def perm_ok_def bit_or_iff PTE_consts_bit)

text \<open>The program loader keeps the size and the layout in step.\<close>

definition sized :: "nat \<Rightarrow> nat \<Rightarrow> nat \<Rightarrow> nat \<Rightarrow> phys \<Rightarrow> bool" where
  "sized tp tf pt sz s \<longleftrightarrow> sz \<le> PHYSTOP \<and> layout {} tp tf pt (npages sz) s"

lemma sized_pages:
  assumes "sized tp tf pt sz s"
  shows "sz \<le> npages sz * PGSIZE" "npages sz * PGSIZE \<le> PHYSTOP"
proof -
  have "sz \<le> TRAPFRAME" using assms PHYSTOP_TRAPFRAME(1) by (simp add: sized_def)
  note N = npages [OF this]
  show "sz \<le> npages sz * PGSIZE" by (rule N(2))
  have "layout {} tp tf pt (npages sz) s" using assms by (simp add: sized_def)
  then show "npages sz * PGSIZE \<le> PHYSTOP" by (rule layout_bound [OF _ N(4)])
qed

lemma uvmalloc_promise:
  assumes "sized tp tf pt sz s" "perm_ok xperm"
  shows "promise (\<lambda>(r, s'). own tp tf pt s s' \<and> (if r = 0 then sized tp tf pt sz s' else sized tp tf pt r s' \<and> newsz \<le> r))
    (of_vm (uvmalloc pt sz newsz xperm s))"
proof (rule promise_vm)
  have L: "layout {} tp tf pt (npages sz) s" "sz \<le> PHYSTOP" using assms(1) by (simp_all add: sized_def)
  from uvmalloc_layout [OF L assms(2), of newsz] obtain r s' where u: "uvmalloc pt sz newsz xperm s = Inr (r, s')"
    "space_step pt (frames s pt) s s'"
    "r \<noteq> 0 \<and> r = max sz newsz \<and> r \<le> PHYSTOP \<and> layout {} tp tf pt (npages r) s' \<or> r = 0 \<and> layout {} tp tf pt (npages sz) s'"
    by blast
  then show "\<exists>a. uvmalloc pt sz newsz xperm s = Inr a \<and> (case a of (r, s') \<Rightarrow>
      own tp tf pt s s' \<and> (if r = 0 then sized tp tf pt sz s' else sized tp tf pt r s' \<and> newsz \<le> r))"
    using own_grow [OF L(1)] L(2) by (auto simp: sized_def)
qed

lemma loadseg_promise:
  assumes "sized tp tf pt sz s" "va mod PGSIZE = 0" "va + unat n \<le> sz"
  shows "promise (\<lambda>(ok, f', s'). quiet f f' \<and> own tp tf pt s s' \<and> sized tp tf pt sz s') (loadseg pt va ip off n f s)"
proof -
  have "promise (\<lambda>(ok, f', s'). quiet f f' \<and> own tp tf pt s s' \<and> layout {} tp tf pt (npages sz) s') (loadseg pt va ip off n f s)"
    unfolding loadseg_def using assms sized_pages [OF assms(1)]
    by (intro loadseg_from_promise) (auto simp: sized_def)
  then show ?thesis using assms(1) by (auto simp: sized_def elim!: promise_mono)
qed

lemma segment_fits:
  fixes va msz fsz :: uint64
  assumes "\<not> msz < fsz" "\<not> va + msz < va" "unat (va + msz) \<le> r"
  shows "unat va + unat (ucast fsz :: uint32) \<le> r"
proof -
  have "unat (va + msz) = unat va + unat msz"
    using assms(2) by (simp add: not_less unat_plus_if_size word_size no_olen_add_nat unat_word_ariths)
  moreover have "unat (ucast fsz :: uint32) \<le> unat fsz"
    by (simp add: unsigned_ucast_eq take_bit_eq_mod)
  moreover have "unat fsz \<le> unat msz" using assms(1) by (simp add: not_less word_le_nat_alt)
  ultimately show ?thesis using assms(3) by linarith
qed

text \<open>The promise of the loader, from a state with the size \<open>sz\<close>.\<close>

definition loads :: "nat \<Rightarrow> nat \<Rightarrow> nat \<Rightarrow> fsys \<Rightarrow> phys \<Rightarrow> exec_error + bool \<times> nat \<times> fsys \<times> phys \<Rightarrow> bool" where
  "loads tp tf pt f s = promise (\<lambda>(ok, sz', f', s'). quiet f f' \<and> own tp tf pt s s' \<and> sized tp tf pt sz' s')"

lemma loads_Inr: "quiet f f' \<Longrightarrow> own tp tf pt s s' \<Longrightarrow> sized tp tf pt sz s' \<Longrightarrow> loads tp tf pt f s (Inr (ok, sz, f', s'))"
  by (simp add: loads_def)

lemma loads_via: "loads tp tf pt f1 s1 r \<Longrightarrow> quiet f f1 \<Longrightarrow> own tp tf pt s s1 \<Longrightarrow> loads tp tf pt f s r"
  by (auto simp: loads_def elim!: promise_mono intro: own_trans quiet_trans)

lemma sized_own: "sized tp tf pt sz s \<Longrightarrow> own tp tf pt s s"
  using own_refl by (auto simp: sized_def)

lemma load_segment_loads:
  assumes "sized tp tf pt sz s"
  shows "loads tp tf pt f s (load_segment ip pt sz ph f s)"
proof (cases "\<not> p_memsz ph < p_filesz ph \<and> \<not> p_vaddr ph + p_memsz ph < p_vaddr ph \<and> unat (p_vaddr ph) mod PGSIZE = 0")
  case False
  then show ?thesis using loads_Inr [OF quiet_refl sized_own assms] assms by (auto simp: load_segment_def)
next
  case True
  let ?new = "unat (p_vaddr ph + p_memsz ph)"
  have "loads tp tf pt f s (bindR (of_vm (uvmalloc pt sz ?new (flags2perm (p_flags ph)) s)) (\<lambda>(sz1, s1).
      if sz1 = 0 then Inr (False, sz, f, s1)
      else bindR (loadseg pt (unat (p_vaddr ph)) ip (ucast (p_off ph)) (ucast (p_filesz ph)) f s1) (\<lambda>(ok, f1, s2).
        Inr (ok, sz1, f1, s2))))" unfolding loads_def
  proof (rule promise_bind [OF uvmalloc_promise [OF assms flags2perm_ok]], fold loads_def, clarify)
    fix sz1 s1
    assume u: "own tp tf pt s s1" "if sz1 = 0 then sized tp tf pt sz s1 else sized tp tf pt sz1 s1 \<and> ?new \<le> sz1"
    have "loads tp tf pt f s1 (bindR (loadseg pt (unat (p_vaddr ph)) ip (ucast (p_off ph)) (ucast (p_filesz ph)) f s1) (\<lambda>(ok, f1, s2).
        Inr (ok, sz1, f1, s2)))" if z: "sized tp tf pt sz1 s1" "?new \<le> sz1" unfolding loads_def
      by (rule promise_bind [OF loadseg_promise [OF z(1) _ segment_fits [OF _ _ z(2)]]]) (use True in auto)
    then show "loads tp tf pt f s (if sz1 = 0 then Inr (False, sz, f, s1)
        else bindR (loadseg pt (unat (p_vaddr ph)) ip (ucast (p_off ph)) (ucast (p_filesz ph)) f s1) (\<lambda>(ok, f1, s2).
          Inr (ok, sz1, f1, s2)))"
      using u loads_via [OF _ quiet_refl u(1)] loads_Inr [OF quiet_refl u(1)] by auto
  qed
  then show ?thesis using True by (simp add: load_segment_def)
qed

lemma load_segments_loads:
  assumes "sized tp tf pt sz s"
  shows "loads tp tf pt f s (load_segments n off ip pt sz f s)"
  using assms
proof (induction n arbitrary: off sz f s)
  case 0
  then show ?case by (simp add: loads_Inr quiet_refl sized_own)
next
  case (Suc n)
  have own: "own tp tf pt s s" by (rule sized_own [OF Suc.prems])
  show ?case unfolding load_segments.simps loads_def
  proof (rule promise_bind [OF promise_readi], fold loads_def, clarify)
    fix r and v :: "uint8 list" and f1 assume f1: "quiet f f1" "length v \<le> 56"
    have "loads tp tf pt f1 s (bindR (load_segment ip pt sz (proghdr_of v) f1 s) (\<lambda>(ok, sz1, f2, s1).
        if \<not> ok then Inr (False, sz1, f2, s1) else load_segments n (off + 56) ip pt sz1 f2 s1))" unfolding loads_def
    proof (rule promise_bind [OF load_segment_loads [OF Suc.prems, unfolded loads_def]], fold loads_def, clarify)
      fix ok sz1 f2 s1 assume "quiet f1 f2" "own tp tf pt s s1" "sized tp tf pt sz1 s1"
      then show "loads tp tf pt f1 s (if \<not> ok then Inr (False, sz1, f2, s1) else load_segments n (off + 56) ip pt sz1 f2 s1)"
        using loads_via [OF Suc.IH] loads_Inr by simp
    qed
    then show "loads tp tf pt f s (if r \<noteq> 56 then Inr (False, sz, f1, s)
        else if p_type (proghdr_of v) \<noteq> ELF_PROG_LOAD then load_segments n (off + 56) ip pt sz f1 s
        else bindR (load_segment ip pt sz (proghdr_of v) f1 s) (\<lambda>(ok, sz1, f2, s1).
          if \<not> ok then Inr (False, sz1, f2, s1) else load_segments n (off + 56) ip pt sz1 f2 s1))"
      using loads_via [OF _ f1(1) own] loads_Inr [OF f1(1) own Suc.prems] Suc.IH [OF Suc.prems] by simp
  qed
qed

end
