(* ===== verification/Exec_Stack.thy ===== *)
theory Exec_Stack
  imports Exec_Facts
begin

text \<open>
  The stack of a new program: one page for the user above a guard page, with the argument
  strings and below them the array of their addresses.
\<close>

section \<open>Copying into one page\<close>

lemma copyout_page:
  assumes "lookup s pt base = Some e" "base mod PGSIZE = 0" "base < MAXVA" "has e PTE_U" "has e PTE_W" "PTE2PA e \<noteq> 0"
    and "src \<noteq> []" "base \<le> dst" "dst + length src \<le> base + PGSIZE"
  shows "copyout psz ppt pt dst src s = Inr (0, store_bytes (PTE2PA e + (dst - base)) src s)"
proof -
  have "dst < base + PGSIZE" using assms(7,9) by (cases src) auto
  then have b: "PGROUNDDOWN dst = base" by (rule page_of [OF assms(2,8)])
  have up: "user_page psz ppt pt base s = Inr (PTE2PA e, s)"
    using assms(1,3,4,6) by (simp add: user_page_def walkaddr_lookup)
  from walk_lookup(1) [OF assms(3), THEN iffD1, OF assms(1)] obtain pte where
    pte: "fst (walk_from 2 pt base False s) = Some pte" "get_pte pte s = e" by blast
  have n: "min (PGSIZE - (dst - base)) (length src) = length src" using assms(8,9) by simp
  show ?thesis
    using assms(3,5,6,7) up pte walk_lookup(3) [OF assms(3), of pt s] n
    by (subst copyout.simps) (simp add: b Let_def, subst copyout.simps, simp)
qed

section \<open>The stack page\<close>

text \<open>\<open>m\<close> pages, the last but one of them the guard page and the last, mapped by \<open>e\<close>, the stack.\<close>

definition stk :: "nat \<Rightarrow> nat \<Rightarrow> nat \<Rightarrow> nat \<Rightarrow> uint64 \<Rightarrow> phys \<Rightarrow> bool" where
  "stk tp tf pt m e s \<longleftrightarrow> layout {m - 2} tp tf pt m s \<and> 2 \<le> m \<and> m * PGSIZE \<le> PHYSTOP
     \<and> lookup s pt ((m - 1) * PGSIZE) = Some e \<and> has e PTE_U \<and> has e PTE_W"

definition bytes_at :: "uint64 \<Rightarrow> nat \<Rightarrow> phys \<Rightarrow> nat \<Rightarrow> uint8 list \<Rightarrow> bool" where
  "bytes_at e base s p bs \<longleftrightarrow> base \<le> p \<and> p + length bs \<le> base + PGSIZE
     \<and> (\<forall>k < length bs. ram s (PTE2PA e + (p - base) + k) = bs ! k)"

lemma bytes_at_other:
  assumes "bytes_at e base s p bs" "base \<le> q" "q + length cs \<le> p"
  shows "bytes_at e base (store_bytes (PTE2PA e + (q - base)) cs s) p bs"
  using assms by (auto simp: bytes_at_def store_bytes_def)

lemma bytes_at_same:
  assumes "base \<le> p" "p + length bs \<le> base + PGSIZE"
  shows "bytes_at e base (store_bytes (PTE2PA e + (p - base)) bs s) p bs"
  using assms by (auto simp: bytes_at_def store_bytes_def)

lemma stk_base:
  assumes "stk tp tf pt m e s"
  shows "(m - 1) * PGSIZE < m * PGSIZE" "m * PGSIZE \<le> TRAPFRAME" "(m - 1) * PGSIZE + PGSIZE = m * PGSIZE"
    "(m - 1) * PGSIZE < MAXVA" "PGSIZE \<le> (m - 1) * PGSIZE" "m * PGSIZE \<le> PHYSTOP" "PTE2PA e \<noteq> 0"
proof -
  have m: "2 \<le> m" "m * PGSIZE \<le> PHYSTOP" using assms by (simp_all add: stk_def)
  then obtain k where k: "m = Suc (Suc k)" by (metis numeral_2_eq_2 le_Suc_ex add_Suc add_0)
  show 1: "(m - 1) * PGSIZE < m * PGSIZE" "(m - 1) * PGSIZE + PGSIZE = m * PGSIZE" "PGSIZE \<le> (m - 1) * PGSIZE"
    using k by simp_all
  show 2: "m * PGSIZE \<le> TRAPFRAME" "m * PGSIZE \<le> PHYSTOP" using m(2) PHYSTOP_TRAPFRAME(1) by simp_all
  show "(m - 1) * PGSIZE < MAXVA" using 1(1) 2(1) top_pages(1) by linarith
  have L: "layout {m - 2} tp tf pt m s" and e: "lookup s pt ((m - 1) * PGSIZE) = Some e" using assms by (simp_all add: stk_def)
  have "managed s (PTE2PA e)" by (rule layout_page [OF L 2(1) 1(1)]) (use e in auto)
  then show "PTE2PA e \<noteq> 0" using managed_page(2) as_okD(1) [OF layoutD(1) [OF L]] unfolding kmem_ok_def by blast
qed

text \<open>One push.\<close>

lemma push_bytes:
  assumes S: "stk tp tf pt m e s" and p: "(m - 1) * PGSIZE \<le> p" "p + length bs \<le> m * PGSIZE" and bs: "bs \<noteq> []"
  defines "s' \<equiv> store_bytes (PTE2PA e + (p - (m - 1) * PGSIZE)) bs s"
  shows "copyout psz ppt pt p bs s = Inr (0, s')" "own tp tf pt s s'" "stk tp tf pt m e s'"
    "bytes_at e ((m - 1) * PGSIZE) s' p bs"
    "bytes_at e ((m - 1) * PGSIZE) s q cs \<Longrightarrow> p + length bs \<le> q \<Longrightarrow> bytes_at e ((m - 1) * PGSIZE) s' q cs"
proof -
  note B = stk_base [OF S]
  have L: "layout {m - 2} tp tf pt m s" and e: "lookup s pt ((m - 1) * PGSIZE) = Some e" "has e PTE_U" "has e PTE_W"
    using S by (simp_all add: stk_def)
  have fit: "p - (m - 1) * PGSIZE + length bs \<le> PGSIZE" "p + length bs \<le> (m - 1) * PGSIZE + PGSIZE" using p B(3) by simp_all
  show "copyout psz ppt pt p bs s = Inr (0, s')"
    unfolding s'_def using e p(1) bs fit(2) B(4,7) by (intro copyout_page) simp_all
  note O = own_store [OF L B(2,1) e(1) fit(1)]
  show "own tp tf pt s s'" using O(1) by (simp add: s'_def)
  have "lookup s' pt ((m - 1) * PGSIZE) = Some e"
    using store_space(2) [OF layoutD(1) [OF L] e(1) fit(1) vpath_leaf(1)] e(1) by (simp add: s'_def lookup_def)
  then show "stk tp tf pt m e s'" using S O(2) by (simp add: stk_def s'_def)
  show "bytes_at e ((m - 1) * PGSIZE) s' p bs" unfolding s'_def by (rule bytes_at_same [OF p(1) fit(2)])
  show "bytes_at e ((m - 1) * PGSIZE) s' q cs" if "bytes_at e ((m - 1) * PGSIZE) s q cs" "p + length bs \<le> q"
    unfolding s'_def by (rule bytes_at_other [OF that(1) p(1) that(2)])
qed

lemma align16: "align16 x \<le> x" "align16 x mod 16 = 0"
  by (simp_all add: align16_def minus_mod_eq_mult_div)

lemma sub64_small: "b \<le> a \<Longrightarrow> a < 2 ^ 64 \<Longrightarrow> sub64 a b = a - b"
  by (simp add: sub64_def flip: of_nat_diff)

lemma stk_small: "stk tp tf pt m e s \<Longrightarrow> m * PGSIZE < 2 ^ 64"
  using stk_base(6) [of tp tf pt m e s] by (simp add: PHYSTOP_def KERNBASE_def)

text \<open>\<open>sp\<close> is inside the stack page and below everything that has been pushed.\<close>

definition pushed :: "nat \<Rightarrow> uint64 \<Rightarrow> phys \<Rightarrow> nat \<Rightarrow> nat list \<Rightarrow> uint8 list list \<Rightarrow> bool" where
  "pushed m e s sp us as \<longleftrightarrow> (m - 1) * PGSIZE \<le> sp \<and> sp \<le> m * PGSIZE
     \<and> list_all2 (\<lambda>p a. sp \<le> p \<and> bytes_at e ((m - 1) * PGSIZE) s p (a @ [0])) us as"

lemma push_args_spec:
  assumes "stk tp tf pt m e s" "pushed m e s sp us ds" "\<forall>a \<in> set argv. length a < PGSIZE"
  shows "\<exists>r s'. push_args psz ppt pt ((m - 1) * PGSIZE) argv sp us s = Inr (r, s') \<and> own tp tf pt s s' \<and> stk tp tf pt m e s'
    \<and> (case r of None \<Rightarrow> True | Some (sp', us') \<Rightarrow> pushed m e s' sp' us' (ds @ argv))"
  using assms
proof (induction argv arbitrary: sp us ds s)
  case Nil
  then show ?case using own_refl by (auto simp: stk_def)
next
  case (Cons a argv)
  let ?base = "(m - 1) * PGSIZE" and ?sp = "align16 (sub64 sp (length a + 1))"
  note B = stk_base [OF Cons.prems(1)]
  have own: "own tp tf pt s s" using Cons.prems(1) own_refl by (auto simp: stk_def)
  show ?case
  proof (cases "length us \<ge> MAXARG \<or> ?sp < ?base")
    case True
    then show ?thesis using Cons.prems(1) own by (auto simp: Let_def)
  next
    case False
    have sp: "?base \<le> sp" "sp \<le> m * PGSIZE" using Cons.prems(2) by (simp_all add: pushed_def)
    have "length a < PGSIZE" using Cons.prems(3) by simp
    then have a: "length a + 1 \<le> sp" "sp < 2 ^ 64"
      using B(5) sp stk_small [OF Cons.prems(1)] by linarith+
    have s1: "?sp + length (a @ [0]) \<le> sp" using align16(1) [of "sub64 sp (length a + 1)"] sub64_small [OF a] a(1) by simp
    have in_page: "?base \<le> ?sp" "?sp + length (a @ [0]) \<le> m * PGSIZE" using False s1 sp(2) by simp_all
    let ?s1 = "store_bytes (PTE2PA e + (?sp - ?base)) (a @ [0]) s"
    have "a @ [0] \<noteq> []" by simp
    note P = push_bytes [OF Cons.prems(1) in_page this]
    have "pushed m e ?s1 ?sp (us @ [?sp]) (ds @ [a])"
      using Cons.prems(2) s1 in_page P(4) P(5)
      by (auto simp: pushed_def intro!: list_all2_appendI elim!: list_all2_mono)
    moreover have "\<forall>a \<in> set argv. length a < PGSIZE" using Cons.prems(3) by simp
    ultimately obtain r s' where
      r: "push_args psz ppt pt ?base argv ?sp (us @ [?sp]) ?s1 = Inr (r, s')" "own tp tf pt ?s1 s'" "stk tp tf pt m e s'"
        "case r of None \<Rightarrow> True | Some (sp', us') \<Rightarrow> pushed m e s' sp' us' (ds @ a # argv)"
      using Cons.IH [OF P(3), of ?sp "us @ [?sp]" "ds @ [a]", unfolded append_assoc append_Cons append_Nil] by blast
    have "push_args psz ppt pt ?base (a # argv) sp us s = Inr (r, s')"
      using False P(1) r(1) by (simp add: Let_def)
    then show ?thesis using r(2-4) own_trans [OF P(2)] by blast
  qed
qed
section \<open>The array of pointers\<close>

lemma length_le64 [simp]: "length (le64 w) = 8"
  by (simp add: le64_def)

lemma length_pointers: "length (concat (map (\<lambda>p. le64 (of_nat p)) ps)) = 8 * length ps"
  by (induction ps) simp_all

text \<open>The argument block as \<open>main\<close> finds it at \<open>sp\<close>.\<close>

definition arguments :: "nat \<Rightarrow> uint64 \<Rightarrow> phys \<Rightarrow> nat \<Rightarrow> uint8 list list \<Rightarrow> bool" where
  "arguments m e s sp argv \<longleftrightarrow> sp mod 16 = 0
     \<and> (\<exists>us. pushed m e s sp us argv \<and> bytes_at e ((m - 1) * PGSIZE) s sp (concat (map (\<lambda>p. le64 (of_nat p)) (us @ [0]))))"

lemma pushed_store:
  assumes "pushed m e s sp us as" "(m - 1) * PGSIZE \<le> q" "q \<le> sp" "sp \<le> m * PGSIZE"
    and "\<And>p cs. bytes_at e ((m - 1) * PGSIZE) s p cs \<Longrightarrow> sp \<le> p \<Longrightarrow> bytes_at e ((m - 1) * PGSIZE) s' p cs"
  shows "pushed m e s' q us as"
  using assms by (auto simp: pushed_def elim!: list_all2_mono)

lemma push_pointers_spec:
  assumes S: "stk tp tf pt m e s" and P: "pushed m e s sp us argv" and n: "length argv < MAXARG"
  shows "\<exists>r s'. push_pointers psz ppt pt ((m - 1) * PGSIZE) sp us s = Inr (r, s') \<and> own tp tf pt s s' \<and> stk tp tf pt m e s'
    \<and> (case r of None \<Rightarrow> True | Some sp' \<Rightarrow> arguments m e s' sp' argv)"
proof -
  let ?base = "(m - 1) * PGSIZE" and ?sp = "align16 (sub64 sp ((length us + 1) * 8))"
  let ?bs = "concat (map (\<lambda>p. le64 (of_nat p)) (us @ [0]))"
  have us: "length us = length argv" "length us < MAXARG" using P n by (auto simp: pushed_def dest: list_all2_lengthD)
  have sp: "?base \<le> sp" "sp \<le> m * PGSIZE" using P by (simp_all add: pushed_def)
  show ?thesis
  proof (cases "?sp < ?base")
    case True
    then show ?thesis using S us own_refl by (auto simp: push_pointers_def Let_def stk_def)
  next
    case False
    have l: "length ?bs = (length us + 1) * 8" using length_pointers [of "us @ [0]"] by simp
    have "(length us + 1) * 8 \<le> PGSIZE" using us(2) by (simp add: MAXARG_def PGSIZE_def)
    then have "(length us + 1) * 8 \<le> sp" "sp < 2 ^ 64" using sp stk_base(5) [OF S] stk_small [OF S] by linarith+
    note sub = sub64_small [OF this]
    have "?bs \<noteq> []" using l by (metis add_is_0 mult_is_0 list.size(3) one_neq_zero zero_neq_numeral)
    moreover have "?sp + length ?bs \<le> sp" "?base \<le> ?sp"
      using align16(1) [of "sub64 sp ((length us + 1) * 8)"] False \<open>(length us + 1) * 8 \<le> sp\<close> unfolding l sub by linarith+
    ultimately have s1: "?sp + length ?bs \<le> sp" "?base \<le> ?sp" "?sp + length ?bs \<le> m * PGSIZE" "?bs \<noteq> []"
      using sp(2) by linarith+
    note B = push_bytes [OF S s1(2,3,4)]
    let ?s' = "store_bytes (PTE2PA e + (?sp - ?base)) ?bs s"
    have "pushed m e ?s' ?sp us argv"
      using s1 sp(2) B(5) by (intro pushed_store [OF P]) auto
    then have "arguments m e ?s' ?sp argv" using B(4) align16(2) unfolding arguments_def by blast
    moreover have "push_pointers psz ppt pt ?base sp us s = Inr (Some ?sp, ?s')"
      using False us(2) B(1) by (simp add: push_pointers_def Let_def)
    ultimately show ?thesis using B(2,3) by auto
  qed
qed

section \<open>The guard page\<close>

lemma remapped_same_frames:
  assumes ok: "as_ok s pt" and r: "remapped pt m s s'"
    and m: "\<And>q. leaf_path q \<Longrightarrow> map_option PTE2PA (m q) = map_option PTE2PA (leaf s pt q)"
  shows "space_step pt (frames s pt) s s'"
proof -
  note R = r [unfolded remapped_def]
  have lf: "map_option PTE2PA (leaf s' pt q) = map_option PTE2PA (leaf s pt q)" if "leaf_path q" for q
    using R m that by simp
  have fr: "frames s' pt = frames s pt"
  proof -
    have "frames t pt = {p. \<exists>q. leaf_path q \<and> map_option PTE2PA (leaf t pt q) = Some p}" for t by (auto simp: frames_def)
    then show ?thesis using lf by (simp only:) metis
  qed
  have "as_ok s' pt"
  proof (rule as_okI)
    show "kmem_ok s'" "pt_ok s' pt" using R by simp_all
    show "PTE2PA e \<notin> tables s' pt \<and> PTE2PA e \<notin> free_pages s'" if "leaf_path q" "leaf s' pt q = Some e" for q e
      using framesI [OF that] R ok unfolding fr as_ok_def by blast
    show "q = q'" if q: "leaf_path q" "leaf_path q'" "leaf s' pt q = Some e" "leaf s' pt q' = Some f" "PTE2PA e = PTE2PA f" for q q' e f
    proof -
      obtain e' f' where "leaf s pt q = Some e'" "leaf s pt q' = Some f'" "PTE2PA e' = PTE2PA e" "PTE2PA f' = PTE2PA f"
        using lf [OF q(1)] lf [OF q(2)] q(3,4) by (cases "leaf s pt q"; cases "leaf s pt q'") auto
      then show ?thesis using as_okD(5) [OF ok q(1,2)] q(5) by simp
    qed
  qed
  moreover have "total s' pt = total s pt" using R fr by (auto simp: total_def)
  moreover have "tables s pt \<union> free_pages s \<subseteq> total s pt - frames s pt" using ok by (auto simp: total_def as_ok_def)
  then have "same_outside (total s pt - frames s pt) s s'" using R by (blast intro: same_outside_mono)
  ultimately show ?thesis using R by (simp add: space_step_def)
qed

lemma clear_user: "PTE2PA (e AND NOT PTE_U) = PTE2PA e" "has (e AND NOT PTE_U) PTE_V = has e PTE_V"
proof -
  have "bit (PTE2PA (e AND NOT PTE_U)) n \<longleftrightarrow> bit (PTE2PA e) n" for n
  proof (cases "n < 12")
    case False
    then obtain k where "n = k + 12" by (metis le_Suc_ex add.commute not_less)
    then show ?thesis by (auto simp add: bit_PTE2PA bit_and_iff bit_not_iff PTE_consts_bit)
  qed (simp add: PTE2PA_def bit_simps)
  then show "PTE2PA (e AND NOT PTE_U) = PTE2PA e" by (simp add: bit_eq_iff)
  show "has (e AND NOT PTE_U) PTE_V = has e PTE_V" by (simp add: flag_bits bit_and_iff bit_not_iff PTE_consts_bit)
qed

text \<open>\<open>uvmclear\<close> takes a page of the layout from the user and changes nothing else.\<close>

lemma uvmclear_layout:
  assumes L: "layout {} tp tf pt n s" and n: "n * PGSIZE \<le> TRAPFRAME" and g: "g < n"
  shows "\<exists>s'. uvmclear pt (g * PGSIZE) s = Inr s' \<and> own tp tf pt s s' \<and> layout {g} tp tf pt n s'
    \<and> (\<forall>i < n. i \<noteq> g \<longrightarrow> lookup s' pt (i * PGSIZE) = lookup s pt (i * PGSIZE))"
proof -
  let ?a = "g * PGSIZE"
  have lt: "i * PGSIZE < MAXVA" if "i < n" for i
  proof -
    have "Suc i * PGSIZE \<le> n * PGSIZE" using that by (intro mult_le_mono1) simp
    then show ?thesis using n top_pages(1) by (simp add: PGSIZE_def)
  qed
  note ok = layoutD(1) [OF L]
  obtain e where e: "lookup s pt ?a = Some e" using layoutD(5) [OF L g] by blast
  obtain t where t: "table s pt [PX 1 ?a, PX 2 ?a] = Some t" "entry s t (PX 0 ?a) = e"
    using e by (auto simp: lookup_def vpath_def leaf_def split: option.splits if_splits)
  have v: "has (e AND NOT PTE_U) PTE_V" using lookup_valid [OF lt [OF g] e] clear_user(2) by simp
  let ?s = "set_pte (t + 8 * PX 0 ?a) (e AND NOT PTE_U) s"
  have "fst (walk_from 2 pt ?a False s) = Some (t + 8 * PX 0 ?a)"
    using t(1) by (auto simp: walk_no_alloc split: option.splits if_splits)
  then have u: "uvmclear pt ?a s = Inr ?s"
    using walk_lookup(3) [OF lt [OF g], of pt s] t(2) by (simp add: uvmclear_def entry_def)
  note R = set_leaf_remapped [OF as_okD(1,2) [OF ok] t(1), of "e AND NOT PTE_U", simplified v if_True]
  have lf: "leaf ?s pt q = (if q = vpath ?a then Some (e AND NOT PTE_U) else leaf s pt q)" if "leaf_path q" for q
    using R that by (simp add: remapped_def)
  have st: "space_step pt (frames s pt) s ?s"
    using e clear_user(1) by (intro remapped_same_frames [OF ok R]) (auto simp: lookup_def)
  have ne: "vpath (i * PGSIZE) \<noteq> vpath ?a" if "i < n" "i \<noteq> g" for i
    using page_paths [of 0 g i] lt [OF g] lt [OF that(1)] that(2) by simp
  have same: "lookup ?s pt (i * PGSIZE) = lookup s pt (i * PGSIZE)" if "i < n" "i \<noteq> g" for i
    using lf [OF vpath_leaf(1)] ne [OF that] by (simp add: lookup_def)
  have "frame_of ?s pt w = frame_of s pt w" for w
    using lf [OF vpath_leaf(1), of w] e clear_user(1) by (auto simp: frame_of_def lookup_def)
  moreover have "\<exists>f. lookup ?s pt (i * PGSIZE) = Some f \<and> managed ?s (PTE2PA f) \<and> (i \<noteq> g \<longrightarrow> has f PTE_U)" if "i < n" for i
    using layoutD(5) [OF L that] same [OF that] lf [OF vpath_leaf(1), of ?a] e clear_user(1) space_step_managed [OF st]
    by (cases "i = g") (auto simp: lookup_def)
  moreover have "leaf s pt q \<noteq> None" if "leaf_path q" "leaf ?s pt q \<noteq> None" for q
    using that lf [OF that(1)] e by (auto simp: lookup_def split: if_splits)
  ultimately have "layout {g} tp tf pt n ?s"
    using L st unfolding layout_def by (auto simp: space_step_def)
  then show ?thesis using u own_grow [OF L st] same by blast
qed

section \<open>The whole stack\<close>

lemma npages_two:
  assumes "sz \<le> PHYSTOP" "npages sz * PGSIZE \<le> PHYSTOP"
  shows "npages (npages sz * PGSIZE + 2 * PGSIZE) = npages sz + 2" "npages (npages sz * PGSIZE) = npages sz"
proof -
  have "(npages sz + 2) * PGSIZE + PGSIZE - 1 < 2 ^ 64"
    using assms(2) by (simp add: PHYSTOP_def KERNBASE_def PGSIZE_def)
  then show "npages (npages sz * PGSIZE + 2 * PGSIZE) = npages sz + 2" "npages (npages sz * PGSIZE) = npages sz"
    unfolding PGROUNDUP_def [of "npages sz * PGSIZE + 2 * PGSIZE"] PGROUNDUP_def [of "npages sz * PGSIZE"]
    by (simp_all add: PGSIZE_def)
qed

lemma user_stack: "(USERSTACK + 1) * PGSIZE = 2 * PGSIZE" "USERSTACK * PGSIZE = PGSIZE"
  by (simp_all add: USERSTACK_def)

lemma fill_stack_spec:
  assumes L: "layout {} tp tf pt m s" and m: "2 \<le> m" "m * PGSIZE \<le> PHYSTOP"
    and e: "lookup s pt ((m - 1) * PGSIZE) = Some e" "has e PTE_U" "has e PTE_W"
    and argv: "\<forall>a \<in> set argv. length a < PGSIZE" "length argv < MAXARG"
  shows "\<exists>r s'. fill_stack psz ppt pt (m * PGSIZE) argv s = Inr (r, s') \<and> own tp tf pt s s' \<and> stk tp tf pt m e s'
    \<and> (case r of None \<Rightarrow> True | Some sp \<Rightarrow> arguments m e s' sp argv)"
proof -
  have T: "m * PGSIZE \<le> TRAPFRAME" "m - 2 < m" using m PHYSTOP_TRAPFRAME(1) by simp_all
  from uvmclear_layout [OF L T] obtain s2 where s2: "uvmclear pt ((m - 2) * PGSIZE) s = Inr s2" "own tp tf pt s s2"
    "layout {m - 2} tp tf pt m s2" "\<forall>i < m. i \<noteq> m - 2 \<longrightarrow> lookup s2 pt (i * PGSIZE) = lookup s pt (i * PGSIZE)" by blast
  have S: "stk tp tf pt m e s2" using s2(3,4) m e by (simp add: stk_def)
  have "pushed m e s2 (m * PGSIZE) [] []" using stk_base(1) [OF S] by (simp add: pushed_def)
  from push_args_spec [OF S this argv(1), of psz ppt, unfolded append_Nil] obtain r s3 where
    r: "push_args psz ppt pt ((m - 1) * PGSIZE) argv (m * PGSIZE) [] s2 = Inr (r, s3)" "own tp tf pt s2 s3" "stk tp tf pt m e s3"
      "case r of None \<Rightarrow> True | Some (sp', us') \<Rightarrow> pushed m e s3 sp' us' argv" by blast
  note o3 = own_trans [OF s2(2) r(2)]
  obtain k where k: "m = k + 2" using m(1) by (metis add.commute le_Suc_ex)
  have sub: "sub64 (m * PGSIZE) (2 * PGSIZE) = (m - 2) * PGSIZE" "sub64 (m * PGSIZE) PGSIZE = (m - 1) * PGSIZE"
    using stk_small [OF S] sub64_small [of "2 * PGSIZE" "m * PGSIZE"] sub64_small [of PGSIZE "m * PGSIZE"] by (simp_all add: k)
  have f: "fill_stack psz ppt pt (m * PGSIZE) argv s = (case r of None \<Rightarrow> Inr (None, s3)
      | Some (sp, us) \<Rightarrow> push_pointers psz ppt pt ((m - 1) * PGSIZE) sp us s3)"
    unfolding fill_stack_def user_stack sub Let_def s2(1) of_sum_simps bindR_simps r(1) by simp
  show ?thesis
  proof (cases r)
    case None
    then show ?thesis using f o3 r(3) by auto
  next
    case (Some p)
    obtain sp us where "p = (sp, us)" by (cases p)
    then show ?thesis
      using push_pointers_spec [OF r(3) _ argv(2), of sp us psz ppt] r(4) Some f own_trans [OF o3] by auto
  qed
qed

text \<open>What \<open>build_stack\<close> leaves: an address space that can be freed, and if all went well the arguments.\<close>

definition built :: "nat \<Rightarrow> nat \<Rightarrow> nat \<Rightarrow> uint8 list list \<Rightarrow> nat option \<Rightarrow> nat \<Rightarrow> phys \<Rightarrow> bool" where
  "built tp tf pt argv r sz s \<longleftrightarrow> sz \<le> PHYSTOP \<and> (\<exists>G. layout G tp tf pt (npages sz) s)
     \<and> (\<forall>sp. r = Some sp \<longrightarrow> sz = npages sz * PGSIZE \<and> (\<exists>e. stk tp tf pt (npages sz) e s \<and> arguments (npages sz) e s sp argv))"

lemma stk_built:
  assumes "stk tp tf pt m e s" "npages (m * PGSIZE) = m" "case r of None \<Rightarrow> True | Some sp \<Rightarrow> arguments m e s sp argv"
  shows "built tp tf pt argv r (m * PGSIZE) s"
  using assms by (auto simp: built_def stk_def)

lemma build_stack_spec:
  assumes z: "sized tp tf pt sz s" and argv: "\<forall>a \<in> set argv. length a < PGSIZE" "length argv < MAXARG"
  shows "\<exists>r sz' s'. build_stack psz ppt pt sz argv s = Inr (r, sz', s') \<and> own tp tf pt s s' \<and> built tp tf pt argv r sz' s'"
proof -
  define n where "n = npages sz"
  have P: "n * PGSIZE \<le> PHYSTOP" "sz \<le> PHYSTOP" using sized_pages [OF z] z by (simp_all add: n_def sized_def)
  have sz1: "PGROUNDUP sz = n * PGSIZE" using npages(1) [of sz] P(2) PHYSTOP_TRAPFRAME(1) by (simp add: n_def)
  have two: "npages (n * PGSIZE + 2 * PGSIZE) = n + 2" "npages (n * PGSIZE) = n" using npages_two [OF P(2)] P(1) by (simp_all add: n_def)
  have L: "layout {} tp tf pt (npages (n * PGSIZE)) s" using z two(2) by (simp add: sized_def n_def)
  let ?new = "n * PGSIZE + 2 * PGSIZE" and ?perm = "PTE_R OR PTE_U OR PTE_W"
  have new: "?new < 2 ^ 64" "?new mod 2 ^ 64 = ?new" "(n + 2) * PGSIZE = ?new" "?new \<noteq> 0"
    using P(1) by (simp_all add: PHYSTOP_def KERNBASE_def PGSIZE_def)
  have "perm_ok PTE_W" by (simp add: perm_ok_def PTE_consts_bit)
  from uvmalloc_layout [OF L P(1) this, of ?new, unfolded two(2)] obtain r s1 where
    u: "uvmalloc pt (n * PGSIZE) ?new PTE_W s = Inr (r, s1)" "space_step pt (frames s pt) s s1"
      "r \<noteq> 0 \<and> r = max (n * PGSIZE) ?new \<and> r \<le> PHYSTOP \<and> layout {} tp tf pt (npages r) s1
         \<and> (\<forall>i. n \<le> i \<and> i < npages r \<longrightarrow> (\<exists>page. lookup s1 pt (i * PGSIZE) = Some (pte_of page ?perm)))
       \<or> r = 0 \<and> layout {} tp tf pt n s1" by blast
  note o1 = own_grow [OF L u(2)]
  have bs: "build_stack psz ppt pt sz argv s = (if r = 0 then Inr (None, n * PGSIZE, s1)
      else bindR (fill_stack psz ppt pt r argv s1) (\<lambda>(q, s2). Inr (q, r, s2)))"
    unfolding build_stack_def user_stack sz1 Let_def new(2) u(1) by simp
  show ?thesis
  proof (cases "r = 0")
    case True
    then show ?thesis using bs u(3) o1 P(1) two(2) by (auto simp: built_def)
  next
    case False
    then have r: "r = (n + 2) * PGSIZE" "(n + 2) * PGSIZE \<le> PHYSTOP" "layout {} tp tf pt (n + 2) s1"
      "\<forall>i. n \<le> i \<and> i < n + 2 \<longrightarrow> (\<exists>page. lookup s1 pt (i * PGSIZE) = Some (pte_of page ?perm))"
      using u(3) two(1) new(3) by (auto simp: max_def)
    have "n \<le> n + 2 - 1 \<and> n + 2 - 1 < n + 2" by simp
    with r(4) obtain page where e: "lookup s1 pt ((n + 2 - 1) * PGSIZE) = Some (pte_of page ?perm)" by blast
    have W: "has (pte_of page ?perm) PTE_U" "has (pte_of page ?perm) PTE_W"
      by (simp_all add: pte_of_def flag_bits bit_or_iff PTE_consts_bit)
    from fill_stack_spec [OF r(3) _ r(2) e W argv, of psz ppt] obtain q s2 where
      b: "fill_stack psz ppt pt r argv s1 = Inr (q, s2)" "own tp tf pt s1 s2" "stk tp tf pt (n + 2) (pte_of page ?perm) s2"
        "case q of None \<Rightarrow> True | Some sp \<Rightarrow> arguments (n + 2) (pte_of page ?perm) s2 sp argv" using r(1) by auto
    have "npages ((n + 2) * PGSIZE) = n + 2" unfolding new(3) by (rule two(1))
    note B = stk_built [OF b(3) this b(4), folded r(1)]
    have "build_stack psz ppt pt sz argv s = Inr (q, r, s2)" using bs False b(1) by simp
    then show ?thesis using own_trans [OF o1 b(2)] B by blast
  qed
qed

end
