(* ===== verification/Exec_Safe.thy ===== *)
theory Exec_Safe
  imports Exec_Stack
begin

text \<open>
  The call as a whole.  Two address spaces are in play, the one the process runs in and
  the new one; each part of \<open>exec\<close> touches pages of one of them and free pages.  Adding this up shows
  that a failing \<open>exec\<close> leaves memory as it was and a successful one exchanges the two without
  losing a page.
\<close>

section \<open>A new page table\<close>

text \<open>Mapping a page that is neither free nor in the address space.\<close>

lemma map_foreign:
  assumes ok: "as_ok s pt" and a: "a mod PGSIZE = 0" "a < MAXVA" "lookup s pt a = None"
    and perm: "perm_ok perm" and pa: "pa mod PGSIZE = 0" "pa < 2 ^ 56" "pa \<notin> total s pt"
  obtains (mapped) s' where "mappages pt a PGSIZE pa perm s = Inr (0, s')" "as_ok s' pt" "kend s' = kend s"
      "\<And>q. leaf_path q \<Longrightarrow> leaf s' pt q = (if q = vpath a then Some (pte_of pa perm) else leaf s pt q)"
      "total s' pt = insert pa (total s pt)" "same_outside (tables s pt \<union> free_pages s) s s'"
      "frames s' pt = insert pa (frames s pt)" "frame_of s' pt a = {pa}"
  | (failed) s' where "mappages pt a PGSIZE pa perm s = Inr (-1, s')" "as_ok s' pt" "kend s' = kend s"
      "\<And>q. leaf_path q \<Longrightarrow> leaf s' pt q = leaf s pt q" "total s' pt = total s pt"
      "same_outside (tables s pt \<union> free_pages s) s s'"
proof -
  note D = as_okD [OF ok]
  have "lookup s pt (a + i * PGSIZE) = None" if "i \<le> 0" for i using that a(3) by simp
  from mappages_from_spec [OF D(1,2) a(1) _ this, where n = 0 and pa = pa and perm = perm] a(2)
  obtain r s' j where m: "mappages_from pt a a pa perm s = Inr (r, s')" "remapped pt (map_range a pa perm j (leaf s pt)) s s'"
    "r = 0 \<and> j = Suc 0 \<or> r = -1 \<and> j = 0" by auto
  have mp: "mappages pt a PGSIZE pa perm s = Inr (r, s')"
    using m(1) a(1,2) by (simp add: mappages_def PGSIZE_def MAXVA_def)
  note R = m(2) [unfolded remapped_def]
  show thesis
  proof (cases "r = 0")
    case True
    then have lf: "leaf s' pt q = (if q = vpath a then Some (pte_of pa perm) else leaf s pt q)" if "leaf_path q" for q
      using R m(3) that by auto
    have v: "PTE2PA (pte_of pa perm) = pa"
      unfolding pte_of_def using pa perm by (intro PTE2PA_entry) (auto simp: perm_ok_def bit_or_iff PTE_consts_bit)
    have fr: "frames s' pt = insert pa (frames s pt)"
      using frames_add [OF vpath_leaf(1) _ lf] a(3) v by (simp add: lookup_def)
    have "frames s pt \<inter> (tables s pt \<union> free_pages s) = {}" "pa \<notin> frames s pt" "pa \<notin> tables s pt \<union> free_pages s"
      using ok pa(3) by (auto simp: as_ok_def total_def)
    then have "frames s' pt \<inter> (tables s' pt \<union> free_pages s') = {}" using R unfolding fr by auto
    then have as: "as_ok s' pt" using R v \<open>pa \<notin> frames s pt\<close> by (intro as_ok_add [OF ok _ _ lf]) auto
    have tot: "total s' pt = insert pa (total s pt)" using R fr by (auto simp: total_def)
    have "frame_of s' pt a = {pa}" using lf [OF vpath_leaf(1), of a] v by (simp add: frame_of_def lookup_def)
    then show thesis using mapped [OF _ as _ lf tot _ fr] mp True R by simp
  next
    case False
    then have r: "r = -1" "j = 0" using m(3) by auto
    have lf: "\<And>q. leaf_path q \<Longrightarrow> leaf s' pt q = leaf s pt q" using R r(2) by simp
    have "space_step pt (frames s pt) s s'" using lf m(2) r(2) by (intro remapped_same_frames [OF ok m(2)]) simp
    then show thesis using failed [OF _ _ _ lf] mp r R by (simp add: space_step_def)
  qed
qed

lemma uvmcreate_spec:
  assumes "kmem_ok s"
  obtains (none) "uvmcreate s = (0, s)"
  | (some) pt s' where "uvmcreate s = (pt, s')" "pt \<noteq> 0" "as_ok s' pt" "\<And>q. leaf_path q \<Longrightarrow> leaf s' pt q = None"
      "total s' pt = free_pages s" "kend s' = kend s" "same_outside (free_pages s) s s'"
proof -
  obtain pt s1 where k: "kalloc s = (pt, s1)" by (cases "kalloc s")
  show thesis
  proof (cases "pt = 0")
    case True
    then show thesis using none kalloc_none(1) [OF assms] k by (simp add: uvmcreate_def)
  next
    case False
    note K = kalloc_spec [OF assms k False]
    let ?s = "store_page pt 0 s1"
    have o: "same_outside {pt} s1 ?s" by (rule store_page_outside [OF K(7)])
    have F: "kmem_ok ?s" "free_pages ?s = free_pages s - {pt}" using free_frame [OF K(1) o] K(3) by (auto simp: store_page_def)
    have m: "managed ?s pt" using K(4,5) by (simp add: managed_def store_page_def)
    have n: "pt \<notin> free_pages ?s" using F(2) by simp
    have z: "entry ?s pt i = 0" if "i < 512" for i using entry_zeroed that K(7) by simp
    note T = fresh_table [OF m n z]
    have lf: "leaf ?s pt q = None" if "leaf_path q" for q using T(3) [OF _ that] by simp
    then have fr: "frames ?s pt = {}" by (auto simp: frames_def)
    have "as_ok ?s pt" using F(1) T(1) lf by (intro as_okI) auto
    moreover have "total ?s pt = free_pages s" using T(2) F(2) K(2) fr by (auto simp: total_def)
    moreover have "same_outside (free_pages s) s ?s"
      using same_outside_trans [OF K(6) o] K(2) by (auto intro: same_outside_mono)
    moreover have "uvmcreate s = (pt, ?s)" using k False by (simp add: uvmcreate_def)
    ultimately show thesis using some [OF _ False _ lf] K(5) by (simp add: store_page_def)
  qed
qed
lemma top_distinct: "vpath TRAPFRAME \<noteq> vpath TRAMPOLINE"
  using vpath_eq [OF top_pages(2,1) PHYSTOP_TRAPFRAME(6)] page_self [OF PHYSTOP_TRAPFRAME(5)] top_pages(3) by auto

text \<open>An address space without mappings is freed at once.\<close>

lemma uvmfree_empty:
  assumes "as_ok s pt" "\<And>q. leaf_path q \<Longrightarrow> leaf s pt q = None"
  shows "\<exists>s'. uvmfree 3 pt 0 s = Inr s' \<and> kmem_ok s' \<and> free_pages s' = total s pt \<and> kend s' = kend s \<and> same_outside (total s pt) s s'"
  using assms by (intro uvmfree_frees) (auto simp: frames_def)

lemma undo_trampoline:
  assumes ok: "as_ok s pt" and lf: "\<And>q. leaf_path q \<Longrightarrow> q \<noteq> vpath TRAMPOLINE \<Longrightarrow> leaf s pt q = None" and fr: "frames s pt = {tp}"
  shows "\<exists>s1 s2. uvmunmap pt TRAMPOLINE 1 False s = Inr s1 \<and> uvmfree 3 pt 0 s1 = Inr s2 \<and> kmem_ok s2
    \<and> free_pages s2 = total s pt - {tp} \<and> kend s2 = kend s \<and> same_outside (total s pt - {tp}) s s2"
proof -
  from uvmunmap_page_keeps [OF ok top_pages(2)] obtain s1 where s1: "uvmunmap_page pt TRAMPOLINE False s = Inr s1" "as_ok s1 pt"
    "kend s1 = kend s" "\<And>q. leaf_path q \<Longrightarrow> leaf s1 pt q = (if q = vpath TRAMPOLINE then None else leaf s pt q)"
    "tables s1 pt = tables s pt" "free_pages s1 = free_pages s" "same_outside (tables s pt) s s1" by blast
  have lf1: "leaf s1 pt q = None" if "leaf_path q" for q using s1(4) lf that by simp
  then have "frames s1 pt = {}" by (auto simp: frames_def)
  then have t1: "total s1 pt = total s pt - {tp}" using s1(5,6) fr ok by (auto simp: total_def as_ok_def)
  from uvmfree_empty [OF s1(2) lf1] obtain s2 where s2: "uvmfree 3 pt 0 s1 = Inr s2" "kmem_ok s2" "free_pages s2 = total s1 pt"
    "kend s2 = kend s1" "same_outside (total s1 pt) s1 s2" by auto
  have "tables s pt \<union> total s1 pt = total s pt - {tp}" using t1 s1(5) by (auto simp: total_def)
  with same_outside_trans [OF s1(7) s2(5)] have "same_outside (total s pt - {tp}) s s2" by simp
  then show ?thesis using s1(1,3) s2 t1 uvmunmap_one [OF PHYSTOP_TRAPFRAME(6) top_pages(2)] by simp
qed

lemma proc_pagetable_spec:
  assumes k: "kmem_ok s" and tp: "tp mod PGSIZE = 0" "tp < 2 ^ 56" "tp \<notin> free_pages s"
    and tf: "tf mod PGSIZE = 0" "tf < 2 ^ 56" "tf \<notin> free_pages s" "tp \<noteq> tf"
  obtains (none) s' where "proc_pagetable 3 tp tf s = Inr (0, s')" "kmem_ok s'" "free_pages s' = free_pages s" "kend s' = kend s"
      "same_outside (free_pages s) s s'"
  | (some) pt s' where "proc_pagetable 3 tp tf s = Inr (pt, s')" "pt \<noteq> 0" "layout {} tp tf pt 0 s'"
      "total s' pt = free_pages s \<union> {tp, tf}" "kend s' = kend s" "same_outside (free_pages s) s s'"
proof (cases rule: uvmcreate_spec [OF k])
  case 1
  then show thesis using that(1) k same_outside_refl by (simp add: proc_pagetable_def)
next
  case c: (2 pt s1)
  have perm: "perm_ok (PTE_R OR PTE_X)" "perm_ok (PTE_R OR PTE_W)" by (auto simp: perm_ok_def bit_or_iff PTE_consts_bit)
  have "lookup s1 pt TRAMPOLINE = None" "tp \<notin> total s1 pt" using c(4) vpath_leaf(1) c(5) tp(3) by (simp_all add: lookup_def)
  from map_foreign [OF c(3) PHYSTOP_TRAPFRAME(6) top_pages(2) this(1) perm(1) tp(1,2) this(2)] show thesis
  proof cases
    case failed: (2 s2)
    have sub: "tables s1 pt \<union> free_pages s1 \<subseteq> free_pages s" using c(5) by (auto simp: total_def)
    have "leaf s2 pt q = None" if "leaf_path q" for q using failed(4) c(4) that by simp
    from uvmfree_empty [OF failed(2) this] obtain s3 where s3: "uvmfree 3 pt 0 s2 = Inr s3" "kmem_ok s3" "free_pages s3 = free_pages s"
      "kend s3 = kend s2" "same_outside (free_pages s) s2 s3" using failed(5) c(5) by auto
    have "same_outside (free_pages s) s s3"
      using same_outside_trans [OF same_outside_trans [OF c(7) same_outside_mono [OF failed(6) sub]] s3(5)] by simp
    then show thesis using that(1) s3 failed c by (simp add: proc_pagetable_def)
  next
    case mapped: (1 s2)
    have sub: "tables s1 pt \<union> free_pages s1 \<subseteq> free_pages s" using c(5) by (auto simp: total_def)
    note o2 = same_outside_trans [OF c(7) same_outside_mono [OF mapped(6) sub], unfolded Un_absorb]
    have t2: "total s2 pt = insert tp (free_pages s)" using mapped(5) c(5) by simp
    have "lookup s2 pt TRAPFRAME = None" "tf \<notin> total s2 pt"
      using mapped(4) [OF vpath_leaf(1)] c(4) [OF vpath_leaf(1)] top_distinct t2 tf(3,4) by (simp_all add: lookup_def)
    from map_foreign [OF mapped(2) PHYSTOP_TRAPFRAME(5) top_pages(1) this(1) perm(2) tf(1,2) this(2)] show thesis
    proof cases
      case f: (2 s3)
      have sub2: "tables s2 pt \<union> free_pages s2 \<subseteq> free_pages s"
        using t2 mapped(2,7) by (auto simp: total_def as_ok_def)
      have "leaf s3 pt q = None" if "leaf_path q" "q \<noteq> vpath TRAMPOLINE" for q using f(4) mapped(4) c(4) that by simp
      moreover have "frames s3 pt = {tp}" using frames_cong [OF f(4)] mapped(7) c(4) by (auto simp: frames_def)
      moreover have t3: "total s3 pt - {tp} = free_pages s" using f(5) t2 tp(3) by auto
      ultimately obtain s4 s5 where s5: "uvmunmap pt TRAMPOLINE 1 False s3 = Inr s4" "uvmfree 3 pt 0 s4 = Inr s5" "kmem_ok s5"
        "free_pages s5 = free_pages s" "kend s5 = kend s3" "same_outside (free_pages s) s3 s5"
        using undo_trampoline [OF f(2), of tp] unfolding t3 by blast
      have "same_outside (free_pages s) s s5"
        using same_outside_trans [OF same_outside_trans [OF o2 same_outside_mono [OF f(6) sub2]] s5(6)] by simp
      then show thesis using that(1) s5 f(1,3) mapped(1,3) c(1,2,6) by (simp add: proc_pagetable_def)
    next
      case m: (1 s3)
      have sub2: "tables s2 pt \<union> free_pages s2 \<subseteq> free_pages s"
        using t2 mapped(2,7) by (auto simp: total_def as_ok_def)
      note o3 = same_outside_trans [OF o2 same_outside_mono [OF m(6) sub2], unfolded Un_absorb]
      have "frame_of s3 pt TRAMPOLINE = frame_of s2 pt TRAMPOLINE"
        using m(4) [OF vpath_leaf(1)] top_distinct by (intro frame_of_leaf) auto
      then have "layout {} tp tf pt 0 s3"
        using m(2,4,8) mapped(4,8) c(4) by (auto simp: layout_def in_range_def)
      then show thesis using that(2) [OF _ c(2) _ _ _ o3] m mapped c t2 by (simp add: proc_pagetable_def insert_commute)
    qed
  qed
qed

section \<open>Two address spaces\<close>

text \<open>
  The address space of a process of size \<open>sz\<close>; unlike a \<open>layout\<close> it may have holes, where memory has
  been promised and not touched.  \<open>pages_of\<close> are the pages that it owns.
\<close>

definition proc_space :: "nat \<Rightarrow> nat \<Rightarrow> nat \<Rightarrow> nat \<Rightarrow> phys \<Rightarrow> bool" where
  "proc_space tp tf pt sz s \<longleftrightarrow> as_ok s pt \<and> sz \<le> TRAPFRAME
     \<and> frame_of s pt TRAMPOLINE = {tp} \<and> frame_of s pt TRAPFRAME = {tf}
     \<and> (\<forall>q. leaf_path q \<longrightarrow> leaf s pt q \<noteq> None \<longrightarrow> q = vpath TRAMPOLINE \<or> q = vpath TRAPFRAME \<or> in_range 0 (npages sz) q)
     \<and> (\<forall>q e. leaf_path q \<longrightarrow> q \<noteq> vpath TRAMPOLINE \<longrightarrow> q \<noteq> vpath TRAPFRAME \<longrightarrow> leaf s pt q = Some e \<longrightarrow> managed s (PTE2PA e))"

definition pages_of :: "nat \<Rightarrow> nat \<Rightarrow> nat \<Rightarrow> phys \<Rightarrow> nat set" where
  "pages_of tp tf pt s = tables s pt \<union> (frames s pt - {tp, tf})"

lemma layout_proc_space:
  assumes L: "layout G tp tf pt (npages sz) s" and sz: "sz \<le> PHYSTOP"
  shows "proc_space tp tf pt sz s"
proof -
  have "managed s (PTE2PA e)" if q: "leaf_path q" "q \<noteq> vpath TRAMPOLINE" "q \<noteq> vpath TRAPFRAME" "leaf s pt q = Some e" for q e
  proof -
    have "in_range 0 (npages sz) q" using layoutD(4) [OF L q(1)] q by simp
    then obtain i where "i < npages sz" "q = vpath (i * PGSIZE)" by (auto simp: in_range_def)
    then show ?thesis using layoutD(5) [OF L] q(4) by (fastforce simp: lookup_def)
  qed
  then show ?thesis using L sz PHYSTOP_TRAPFRAME(1) by (simp add: proc_space_def layout_def)
qed

lemma proc_space_top:
  assumes "proc_space tp tf pt sz s"
  shows "{tp, tf} \<subseteq> frames s pt" "{tp, tf} \<inter> (tables s pt \<union> free_pages s) = {}" "tp \<noteq> tf"
    "total s pt = free_pages s \<union> pages_of tp tf pt s \<union> {tp, tf}" "{tp, tf} \<inter> pages_of tp tf pt s = {}"
    "free_pages s \<inter> pages_of tp tf pt s = {}"
proof -
  have ok: "as_ok s pt" and f: "frame_of s pt TRAMPOLINE = {tp}" "frame_of s pt TRAPFRAME = {tf}"
    using assms by (simp_all add: proc_space_def)
  show t: "{tp, tf} \<subseteq> frames s pt" using frame_of_frames [of s pt TRAMPOLINE] frame_of_frames [of s pt TRAPFRAME] f by simp
  then show n: "{tp, tf} \<inter> (tables s pt \<union> free_pages s) = {}" using ok by (auto simp: as_ok_def)
  obtain e g where "leaf s pt (vpath TRAMPOLINE) = Some e" "PTE2PA e = tp" "leaf s pt (vpath TRAPFRAME) = Some g" "PTE2PA g = tf"
    using f by (auto simp: frame_of_def lookup_def split: option.splits)
  then show "tp \<noteq> tf" using as_okD(5) [OF ok vpath_leaf(1) vpath_leaf(1)] top_distinct by metis
  show "total s pt = free_pages s \<union> pages_of tp tf pt s \<union> {tp, tf}" using t by (auto simp: total_def pages_of_def)
  show "{tp, tf} \<inter> pages_of tp tf pt s = {}" "free_pages s \<inter> pages_of tp tf pt s = {}"
    using n ok tables_not_free [OF as_okD(2) [OF ok]] by (auto simp: pages_of_def as_ok_def)
qed

lemma proc_space_free:
  assumes P: "proc_space tp tf pt sz s"
  shows "\<exists>s'. proc_freepagetable 3 pt sz s = Inr s' \<and> kmem_ok s' \<and> free_pages s' = free_pages s \<union> pages_of tp tf pt s
    \<and> kend s' = kend s \<and> same_outside (free_pages s \<union> pages_of tp tf pt s) s s'"
proof -
  note T = proc_space_top [OF P]
  note D = P [unfolded proc_space_def]
  have f: "frame_of s pt TRAMPOLINE = {tp}" "frame_of s pt TRAPFRAME = {tf}" using D by simp_all
  have "total s pt - {tp} - {tf} = free_pages s \<union> pages_of tp tf pt s" using T(2,4,5) by auto
  moreover have "free_pages s \<union> tables s pt \<union> (frames s pt - {tp} - {tf}) = free_pages s \<union> pages_of tp tf pt s"
    by (auto simp: pages_of_def)
  ultimately show ?thesis using proc_freepagetable_frees [of s pt sz] D unfolding f by auto
qed

text \<open>Changes outside of an address space leave it alone.\<close>

lemma bystander:
  assumes ok: "as_ok s pt" and s': "kmem_ok s'" "kend s' = kend s" "same_outside F s s'"
    and d: "F \<inter> (tables s pt \<union> frames s pt) = {}" "free_pages s' \<inter> (tables s pt \<union> frames s pt) = {}"
  shows "as_ok s' pt" "\<And>q. leaf_path q \<Longrightarrow> leaf s' pt q = leaf s pt q" "tables s' pt = tables s pt" "frames s' pt = frames s pt"
    "\<And>x. PGROUNDDOWN x \<in> frames s pt \<Longrightarrow> ram s' x = ram s x"
proof -
  note D = as_okD [OF ok]
  have t: "F \<inter> tables s pt = {}" "free_pages s' \<inter> tables s pt = {}" using d by auto
  show lf: "\<And>q. leaf_path q \<Longrightarrow> leaf s' pt q = leaf s pt q" by (rule leaf_frame [OF D(2) s'(3) t(1)])
  show tab: "tables s' pt = tables s pt" by (rule tables_cong) (rule table_frame [OF D(2) s'(3) t(1)])
  show fr: "frames s' pt = frames s pt" by (rule frames_cong [OF lf])
  have "pt_ok s' pt" by (rule pt_ok_frame [OF D(2) s'(3) t s'(2)])
  moreover have "frames s' pt \<inter> (tables s' pt \<union> free_pages s') = {}" using ok d(2) unfolding fr tab as_ok_def by auto
  ultimately show "as_ok s' pt" using s'(1) D(5) lf unfolding as_ok_def by simp
  show "ram s' x = ram s x" if "PGROUNDDOWN x \<in> frames s pt" for x
    using s'(3) d(1) that by (auto simp: same_outside_def)
qed

lemma proc_space_cong:
  assumes "proc_space tp tf pt sz s" "as_ok s' pt" "kend s' = kend s" "\<And>q. leaf_path q \<Longrightarrow> leaf s' pt q = leaf s pt q"
  shows "proc_space tp tf pt sz s'"
  using assms frame_of_leaf [of s' pt _ s, OF assms(4) [OF vpath_leaf(1)]] by (auto simp: proc_space_def managed_def)

section \<open>The new space while it is built\<close>

text \<open>The pages of the new space were free in \<open>s\<close>, and no other page has changed since.\<close>

definition building :: "nat \<Rightarrow> nat \<Rightarrow> nat \<Rightarrow> phys \<Rightarrow> phys \<Rightarrow> bool" where
  "building tp tf pt s t \<longleftrightarrow> total t pt = free_pages s \<union> {tp, tf} \<and> kend t = kend s \<and> same_outside (free_pages s) s t"

lemma building_own:
  assumes "building tp tf pt s t" "own tp tf pt t u"
  shows "building tp tf pt s u"
proof -
  have "total t pt - {tp, tf} \<subseteq> free_pages s" using assms(1) by (auto simp: building_def)
  then have "same_outside (free_pages s) t u" using assms(2) by (auto simp: own_def space_step_def intro: same_outside_mono)
  with same_outside_trans [of "free_pages s" s t "free_pages s" u] show ?thesis
    using assms by (simp add: building_def own_def space_step_def)
qed

lemma building_pages:
  assumes "building tp tf pt s t" "proc_space tp tf pt sz t" "tp \<notin> free_pages s" "tf \<notin> free_pages s"
  shows "free_pages t \<union> pages_of tp tf pt t = free_pages s"
  using assms proc_space_top(2,4,5) [OF assms(2)] by (auto simp: building_def)

text \<open>Giving up: the new address space is freed, and memory is what it was before.\<close>

lemma give_up:
  assumes "building tp tf pt s t" "proc_space tp tf pt sz t" "tp \<notin> free_pages s" "tf \<notin> free_pages s"
  shows "\<exists>u. proc_freepagetable 3 pt sz t = Inr u \<and> kmem_ok u \<and> free_pages u = free_pages s \<and> kend u = kend s \<and> same_outside (free_pages s) s u"
proof -
  note P = building_pages [OF assms]
  from proc_space_free [OF assms(2)] obtain u where u: "proc_freepagetable 3 pt sz t = Inr u" "kmem_ok u" "free_pages u = free_pages s"
    "kend u = kend t" "same_outside (free_pages s) t u" unfolding P by blast
  have b: "same_outside (free_pages s) s t" "kend t = kend s" using assms(1) by (simp_all add: building_def)
  from same_outside_trans [OF b(1) u(5)] show ?thesis using u b(2) by auto
qed

text \<open>Switching over: the old address space is freed and the new one stays as it is.\<close>

lemma switch_over:
  assumes old: "proc_space tp tf old osz s" and b: "building tp tf pt s t" and new: "proc_space tp tf pt sz t"
  shows "\<exists>u. proc_freepagetable 3 old osz t = Inr u \<and> kmem_ok u \<and> kend u = kend s \<and> proc_space tp tf pt sz u
    \<and> free_pages u \<union> pages_of tp tf pt u = free_pages s \<union> pages_of tp tf old s
    \<and> (\<forall>q. leaf_path q \<longrightarrow> leaf u pt q = leaf t pt q) \<and> (\<forall>x. PGROUNDDOWN x \<in> frames t pt \<longrightarrow> ram u x = ram t x)"
proof -
  note O = proc_space_top [OF old] and N = proc_space_top [OF new]
  have nf: "tp \<notin> free_pages s" "tf \<notin> free_pages s" using O(2) by auto
  note P = building_pages [OF b new nf]
  have ok: "as_ok s old" "as_ok t pt" using old new by (simp_all add: proc_space_def)
  have bt: "kmem_ok t" "kend t = kend s" "same_outside (free_pages s) s t" "total t pt = free_pages s \<union> {tp, tf}"
    using b as_okD(1) [OF ok(2)] by (simp_all add: building_def)
  have d: "free_pages s \<inter> (tables s old \<union> frames s old) = {}" using ok(1) tables_not_free [OF as_okD(2) [OF ok(1)]] by (auto simp: as_ok_def)
  have "free_pages t \<inter> (tables s old \<union> frames s old) = {}" using d P by blast
  note B = bystander [OF ok(1) bt(1-3) d this]
  have old': "proc_space tp tf old osz t" by (rule proc_space_cong [OF old B(1) bt(2) B(2)])
  have po: "pages_of tp tf old t = pages_of tp tf old s" using B(3,4) by (simp add: pages_of_def)
  from proc_space_free [OF old', unfolded po] obtain u where u: "proc_freepagetable 3 old osz t = Inr u" "kmem_ok u"
    "free_pages u = free_pages t \<union> pages_of tp tf old s" "kend u = kend t"
    "same_outside (free_pages t \<union> pages_of tp tf old s) t u" by blast
  have "pages_of tp tf old s \<inter> total t pt = {}" using O(5,6) unfolding bt(4) by blast
  moreover have "free_pages t \<inter> (tables t pt \<union> frames t pt) = {}" using ok(2) tables_not_free [OF as_okD(2) [OF ok(2)]] by (auto simp: as_ok_def)
  ultimately have d': "(free_pages t \<union> pages_of tp tf old s) \<inter> (tables t pt \<union> frames t pt) = {}" by (auto simp: total_def)
  note C = bystander [OF ok(2) u(2,4,5) d' d' [folded u(3)]]
  have "proc_space tp tf pt sz u" by (rule proc_space_cong [OF new C(1) u(4) C(2)])
  moreover have "free_pages u \<union> pages_of tp tf pt u = free_pages s \<union> pages_of tp tf old s"
    using C(3,4) P unfolding u(3) by (auto simp: pages_of_def)
  ultimately show ?thesis using u(1,2,4) bt(2) C(2,5) by auto
qed

section \<open>The arguments in user memory\<close>

text \<open>The bytes at a user address; \<open>psz\<close> is 0 where memory that has not been touched yet does not count.\<close>

definition user_bytes :: "nat \<Rightarrow> phys \<Rightarrow> nat \<Rightarrow> nat \<Rightarrow> uint8 list \<Rightarrow> bool" where
  "user_bytes psz s pt p bs \<longleftrightarrow> (\<forall>k < length bs. uview psz s pt (p + k) = Some (bs ! k))"

text \<open>At \<open>sp\<close> the addresses of the argument strings and a null pointer, each address with its string.\<close>

definition arg_block :: "phys \<Rightarrow> nat \<Rightarrow> nat \<Rightarrow> uint8 list list \<Rightarrow> bool" where
  "arg_block s pt sp argv \<longleftrightarrow> sp mod 16 = 0
     \<and> (\<exists>us. length us = length argv \<and> user_bytes 0 s pt sp (concat (map (\<lambda>p. le64 (of_nat p)) (us @ [0])))
        \<and> (\<forall>j < length argv. user_bytes 0 s pt (us ! j) (argv ! j @ [0])))"

lemma bytes_user:
  assumes S: "stk tp tf pt m e s" and b: "bytes_at e ((m - 1) * PGSIZE) s p bs"
  shows "user_bytes 0 s pt p bs"
  unfolding user_bytes_def
proof (intro allI impI)
  fix k assume k: "k < length bs"
  let ?base = "(m - 1) * PGSIZE"
  have p: "?base \<le> p + k" "p + k < ?base + PGSIZE" "p + k < MAXVA" "ram s (PTE2PA e + (p - ?base) + k) = bs ! k" "?base \<le> p"
    using b k stk_base(2,3) [OF S] top_pages(1) by (auto simp: bytes_at_def simp del: One_nat_def)
  have d: "PGROUNDDOWN (p + k) = ?base" using p(1,2) by (intro page_of) simp_all
  have "lookup s pt (p + k) = Some e" using S lookup_page [of s pt "p + k"] unfolding d by (simp add: stk_def)
  moreover have "(p + k) mod PGSIZE = p + k - ?base" unfolding d [symmetric] by (simp add: PGROUNDDOWN_def minus_div_mult_eq_mod)
  moreover have "PTE2PA e + (p + k - ?base) = PTE2PA e + (p - ?base) + k" using p(5) by linarith
  ultimately show "uview 0 s pt (p + k) = Some (bs ! k)" using p(3,4) S by (simp add: uview_def stk_def add.assoc)
qed

lemma arguments_block:
  assumes S: "stk tp tf pt m e s" and a: "arguments m e s sp argv"
  shows "arg_block s pt sp argv"
proof -
  obtain us where us: "pushed m e s sp us argv" "bytes_at e ((m - 1) * PGSIZE) s sp (concat (map (\<lambda>p. le64 (of_nat p)) (us @ [0])))"
    using a unfolding arguments_def by blast
  have "length us = length argv" "\<forall>j < length argv. bytes_at e ((m - 1) * PGSIZE) s (us ! j) (argv ! j @ [0])"
    using us(1) by (auto simp: pushed_def list_all2_conv_all_nth)
  then show ?thesis using a bytes_user [OF S] us(2) unfolding arg_block_def arguments_def by blast
qed

text \<open>User memory does not see what happens outside of its pages.\<close>

lemma uview_aside:
  assumes "\<And>q. leaf_path q \<Longrightarrow> leaf s' pt q = leaf s pt q" "\<And>x. PGROUNDDOWN x \<in> frames s pt \<Longrightarrow> ram s' x = ram s x"
  shows "uview psz s' pt v = uview psz s pt v"
proof -
  have l: "lookup s' pt v = lookup s pt v" using assms(1) [OF vpath_leaf(1)] by (simp add: lookup_def)
  have "ram s' (PTE2PA e + v mod PGSIZE) = ram s (PTE2PA e + v mod PGSIZE)" if e: "lookup s pt v = Some e" for e
  proof (rule assms(2))
    have "PGROUNDDOWN (PTE2PA e + v mod PGSIZE) = PTE2PA e" by (rule page_of [OF PTE2PA_aligned]) (simp_all add: PGSIZE_def)
    then show "PGROUNDDOWN (PTE2PA e + v mod PGSIZE) \<in> frames s pt" using e framesI [OF vpath_leaf(1)] by (simp add: lookup_def)
  qed
  then show ?thesis by (simp add: uview_def l split: option.splits)
qed

lemma arg_block_cong:
  assumes "\<And>q. leaf_path q \<Longrightarrow> leaf s' pt q = leaf s pt q" "\<And>x. PGROUNDDOWN x \<in> frames s pt \<Longrightarrow> ram s' x = ram s x"
  shows "arg_block s' pt sp argv = arg_block s pt sp argv"
  using uview_aside [OF assms] by (simp add: arg_block_def user_bytes_def)

section \<open>The file\<close>

text \<open>The file is open and locked, or it has been given back.\<close>

definition holding :: "int \<Rightarrow> nat option \<Rightarrow> fsys \<Rightarrow> fsys \<Rightarrow> bool" where
  "holding me ip f f1 \<longleftrightarrow>
     (case ip of
        None \<Rightarrow> quiet f f1
      | Some i \<Rightarrow> refs f1 = inc i (refs f) \<and> owners f1 = (owners f)[i := Some me] \<and> owners f ! i = None \<and> i < length (itable f1))"

lemma holding_quiet: "holding me ip f f1 \<Longrightarrow> quiet f1 f2 \<Longrightarrow> holding me ip f f2"
  using same_length [of f2 f1] by (auto simp: holding_def quiet_def split: option.splits)

lemma promise_fs: "(\<And>a. r = Inr a \<Longrightarrow> P a) \<Longrightarrow> promise P (of_fs r)"
  by (cases r) auto

lemma holding_close:
  assumes "holding me ip f f1"
  shows "promise (quiet f) (case ip of None \<Rightarrow> Inr f1 | Some i \<Rightarrow> of_fs (iunlockput me i f1))"
proof (cases ip)
  case None
  then show ?thesis using assms by (simp add: holding_def)
next
  case (Some i)
  then have h: "refs f1 = inc i (refs f)" "owners f1 = (owners f)[i := Some me]" "owners f ! i = None" "i < length (itable f1)"
    using assms by (simp_all add: holding_def)
  have "promise (quiet f) (of_fs (iunlockput me i f1))"
  proof (rule promise_fs)
    fix f2 assume u: "iunlockput me i f1 = Inr f2"
    show "quiet f f2" using iunlockput_balance(1,2) [OF u h(4)] h(1-3) by (simp add: quiet_def dec_inc relock)
  qed
  then show ?thesis using Some by simp
qed

lemma open_file:
  assumes "cwd < length (itable f)"
  shows "promise (\<lambda>(r, f1). case r of None \<Rightarrow> quiet f f1
      | Some (i, _) \<Rightarrow> promise (\<lambda>f2. holding me (Some i) f f2) (of_fs (ilock me i f1))) (of_fs (namei me cwd pn f))"
proof (rule promise_fs, clarify)
  fix r f1 assume n: "namei me cwd pn f = Inr (r, f1)"
  note B = namei_balance [OF n [unfolded namei_def] assms]
  show "case r of None \<Rightarrow> quiet f f1 | Some (i, _) \<Rightarrow> promise (\<lambda>f2. holding me (Some i) f f2) (of_fs (ilock me i f1))"
  proof (cases r)
    case None
    then show ?thesis using B(1,2) by (simp add: quiet_def)
  next
    case (Some p)
    obtain i nm where p: "p = (i, nm)" by (cases p)
    have i: "refs f1 = inc i (refs f)" "i < length (itable f1)" using B(3) [of i nm] B(4) Some p by simp_all
    have "promise (\<lambda>f2. holding me (Some i) f f2) (of_fs (ilock me i f1))"
    proof (rule promise_fs)
      fix f2 assume l: "ilock me i f1 = Inr f2"
      note L = ilock_balance [OF l i(2)]
      show "holding me (Some i) f f2" using L i B(1) by (simp add: holding_def)
    qed
    then show ?thesis using Some p by simp
  qed
qed

section \<open>exec\<close>

text \<open>What \<open>exec\<close> promises of its result.\<close>

definition exec_post ::
  "nat \<Rightarrow> nat \<Rightarrow> uint8 list list \<Rightarrow> image \<Rightarrow> fsys \<Rightarrow> phys \<Rightarrow> int \<times> image \<times> fsys \<times> phys \<Rightarrow> bool" where
  "exec_post tp tf argv im f s = (\<lambda>(r, im', f', s').
     refs f' = refs f \<and> owners f' = owners f \<and> kmem_ok s' \<and> kend s' = kend s \<and>
     (if r = -1 then im' = im \<and> free_pages s' = free_pages s \<and> same_outside (free_pages s) s s'
      else r = int (length argv) \<and> proc_space tp tf (im_pagetable im') (im_sz im') s'
        \<and> free_pages s' \<union> pages_of tp tf (im_pagetable im') s' = free_pages s \<union> pages_of tp tf (im_pagetable im) s
        \<and> im_a1 im' = im_sp im' \<and> arg_block s' (im_pagetable im') (im_sp im') argv))"

lemma exec_bad_post:
  assumes h: "holding me ip f f1"
    and p: "\<exists>t'. (if pt \<noteq> 0 then proc_freepagetable 3 pt sz t else Inr t) = Inr t' \<and> kmem_ok t' \<and> kend t' = kend s
      \<and> free_pages t' = free_pages s \<and> same_outside (free_pages s) s t'"
  shows "promise (exec_post tp tf argv im f s) (exec_bad me ip pt sz im f1 t)"
proof -
  obtain t' where t': "(if pt \<noteq> 0 then proc_freepagetable 3 pt sz t else Inr t) = Inr t'" "kmem_ok t'" "kend t' = kend s"
    "free_pages t' = free_pages s" "same_outside (free_pages s) s t'" using p by blast
  show ?thesis unfolding exec_bad_def t'(1) of_sum_simps bindR_simps
    by (rule promise_bind [OF holding_close [OF h]]) (use t' in \<open>auto simp: exec_post_def quiet_def\<close>)
qed

text \<open>The commit, and the way to it once the program is loaded.\<close>

lemma exec_commit:
  assumes old: "proc_space tp tf (im_pagetable im) (im_sz im) s" and q: "quiet f f1"
    and b: "building tp tf pt s t" and built: "built tp tf pt argv (Some sp) sz t"
  shows "promise (exec_post tp tf argv im f s)
    (bindR (of_vm (proc_freepagetable 3 (im_pagetable im) (im_sz im) t)) (\<lambda>t1. Inr (int (length argv),
       \<lparr>im_pagetable = pt, im_sz = sz, im_epc = epc, im_sp = sp, im_a1 = sp, im_name = nm\<rparr>, f1, t1)))"
proof -
  obtain G e where L: "layout G tp tf pt (npages sz) t" "sz \<le> PHYSTOP" and S: "stk tp tf pt (npages sz) e t"
    and A: "arguments (npages sz) e t sp argv" using built unfolding built_def by blast
  from switch_over [OF old b layout_proc_space [OF L]] obtain u where
    u: "proc_freepagetable 3 (im_pagetable im) (im_sz im) t = Inr u" "kmem_ok u" "kend u = kend s" "proc_space tp tf pt sz u"
      "free_pages u \<union> pages_of tp tf pt u = free_pages s \<union> pages_of tp tf (im_pagetable im) s"
      "\<And>q. leaf_path q \<Longrightarrow> leaf u pt q = leaf t pt q" "\<And>x. PGROUNDDOWN x \<in> frames t pt \<Longrightarrow> ram u x = ram t x" by blast
  have "arg_block u pt sp argv"
    using arguments_block [OF S A] arg_block_cong [OF u(6,7)] by simp
  then show ?thesis using u(1-5) q by (simp add: exec_post_def quiet_def)
qed

lemma exec_load_post:
  assumes old: "proc_space tp tf (im_pagetable im) (im_sz im) s"
    and h: "holding me (Some ip) f f1" and b: "building tp tf pt s t" and L: "layout {} tp tf pt 0 t" and pt: "pt \<noteq> 0"
    and argv: "\<forall>a \<in> set argv. length a < PGSIZE" "length argv < MAXARG"
  shows "promise (exec_post tp tf argv im f s) (exec_load me ip pt elf pn argv im f1 t)"
proof -
  have nf: "tp \<notin> free_pages s" "tf \<notin> free_pages s" using proc_space_top(2) [OF old] by auto
  have "npages 0 = 0" by (simp add: PGROUNDUP_def PGSIZE_def)
  then have z: "sized tp tf pt 0 t" using L by (simp add: sized_def)
  have bad: "promise (exec_post tp tf argv im f s) (exec_bad me ipo pt sz im f' t')"
    if "holding me ipo f f'" "building tp tf pt s t'" "layout G tp tf pt (npages sz) t'" "sz \<le> PHYSTOP" for ipo f' t' sz G
    using give_up [OF that(2) layout_proc_space [OF that(3,4)] nf] pt by (intro exec_bad_post [OF that(1)]) auto
  show ?thesis unfolding exec_load_def
  proof (rule promise_bind [OF load_segments_loads [OF z, unfolded loads_def]], clarify)
    fix ok sz f4 s2 assume l: "quiet f1 f4" "own tp tf pt t s2" "sized tp tf pt sz s2"
    note h4 = holding_quiet [OF h l(1)] and b2 = building_own [OF b l(2)]
    have "promise (exec_post tp tf argv im f s) (exec_enter me ip pt (e_entry elf) pn argv im sz f4 s2)"
      unfolding exec_enter_def
    proof (rule promise_bind [OF holding_close [OF h4, simplified]])
      fix f5 assume q: "quiet f f5"
      from build_stack_spec [OF l(3) argv, of "im_sz im" "im_pagetable im"] obtain r sz1 s3 where
        r: "build_stack (im_sz im) (im_pagetable im) pt sz argv s2 = Inr (r, sz1, s3)" "own tp tf pt s2 s3" "built tp tf pt argv r sz1 s3"
        by blast
      note b3 = building_own [OF b2 r(2)]
      obtain G where G: "layout G tp tf pt (npages sz1) s3" "sz1 \<le> PHYSTOP" using r(3) unfolding built_def by blast
      have "promise (exec_post tp tf argv im f s) (exec_bad me None pt sz1 im f5 s3)"
        by (rule bad [OF _ b3 G]) (simp add: holding_def q)
      then show "promise (exec_post tp tf argv im f s) (bindR (build_stack (im_sz im) (im_pagetable im) pt sz argv s2) (\<lambda>(r, sz1, s1).
          case r of
            None \<Rightarrow> exec_bad me None pt sz1 im f5 s1
          | Some sp \<Rightarrow>
              bindR (of_vm (proc_freepagetable 3 (im_pagetable im) (im_sz im) s1)) (\<lambda>s2.
                Inr (int (length argv),
                  \<lparr>im_pagetable = pt, im_sz = sz1, im_epc = e_entry elf, im_sp = sp, im_a1 = sp,
                   im_name = safestrcpy (base_name pn @ [0]) 16\<rparr>, f5, s2))))"
        using r(1,3) exec_commit [OF old q b3] by (cases r) simp_all
    qed
    moreover have "layout {} tp tf pt (npages sz) s2" "sz \<le> PHYSTOP" using l(3) by (simp_all add: sized_def)
    then have "promise (exec_post tp tf argv im f s) (exec_bad me (Some ip) pt sz im f4 s2)" by (rule bad [OF h4 b2])
    ultimately show "promise (exec_post tp tf argv im f s) (if ok then exec_enter me ip pt (e_entry elf) pn argv im sz f4 s2
       else exec_bad me (Some ip) pt sz im f4 s2)" by simp
  qed
qed

lemma exec_post_failed:
  "kmem_ok s \<Longrightarrow> quiet f f1 \<Longrightarrow> exec_post tp tf argv im f s (-1, im, f1, s)"
  by (simp add: exec_post_def quiet_def same_outside_refl)

text \<open>Giving up before there is a new page table.\<close>

lemma exec_bad_early:
  assumes "holding me ip f f1" "kmem_ok t" "free_pages t = free_pages s" "kend t = kend s" "same_outside (free_pages s) s t"
  shows "promise (exec_post tp tf argv im f s) (exec_bad me ip 0 0 im f1 t)"
  using assms by (intro exec_bad_post) simp_all

lemma exec_file_post:
  assumes old: "proc_space tp tf (im_pagetable im) (im_sz im) s" and tp: "tp < 2 ^ 56" and tf: "tf < 2 ^ 56"
    and h: "holding me (Some ip) f f1" and argv: "\<forall>a \<in> set argv. length a < PGSIZE" "length argv < MAXARG"
  shows "promise (exec_post tp tf argv im f s) (exec_file me ip tp tf pn argv im f1 s)"
  unfolding exec_file_def
proof (rule promise_bind [OF promise_readi], clarify)
  note T = proc_space_top [OF old]
  have k: "kmem_ok s" using old as_okD(1) by (auto simp: proc_space_def)
  have al: "tp mod PGSIZE = 0" "tf mod PGSIZE = 0" using T(1) frame_aligned by auto
  fix r v f3 assume "quiet f1 f3"
  then have h: "holding me (Some ip) f f3" by (rule holding_quiet [OF h])
  have early: "promise (exec_post tp tf argv im f s) (exec_bad me (Some ip) 0 0 im f3 s)"
    by (rule exec_bad_early [OF h k refl refl same_outside_refl])
  have "promise (exec_post tp tf argv im f s) (bindR (of_vm (proc_pagetable 3 tp tf s)) (\<lambda>(pt, s1).
      if pt = 0 then exec_bad me (Some ip) 0 0 im f3 s1 else exec_load me ip pt (elfhdr_of v) pn argv im f3 s1))"
  proof (cases rule: proc_pagetable_spec [OF k al(1) tp _ al(2) tf _ T(3)])
    case (3 s1)
    then show ?thesis using exec_bad_early [OF h 3(2-5)] by simp
  next
    case (4 pt s1)
    have "building tp tf pt s s1" using 4 by (simp add: building_def)
    then show ?thesis using exec_load_post [OF old h _ 4(3,2) argv] 4(1,2) by simp
  qed (use T(2) in auto)
  with early show "promise (exec_post tp tf argv im f s) (let elf = elfhdr_of v in
      if r \<noteq> 64 then exec_bad me (Some ip) 0 0 im f3 s
      else if e_magic elf \<noteq> ELF_MAGIC then exec_bad me (Some ip) 0 0 im f3 s
      else bindR (of_vm (proc_pagetable 3 tp tf s)) (\<lambda>(pt, s1).
        if pt = 0 then exec_bad me (Some ip) 0 0 im f3 s1 else exec_load me ip pt elf pn argv im f3 s1))"
    by (simp add: Let_def)
qed

text \<open>
  \<open>exec\<close> is all or nothing, whatever the program file holds.  From a process with a well-formed
  address space and an argument vector as \<open>sys_exec\<close> builds it (fewer than 32 strings, each on a
  page of its own), a file-system error is the only way for the call to stop; no check of the
  page tables fails.  When it returns -1, the process keeps its page table, size, registers and
  name, memory is unchanged outside of the free pages, and exactly the same pages are free.
  When it succeeds, it returns the number of arguments, the process has a new well-formed
  address space, no page is lost or used twice in the exchange of the two, and user memory holds, from the
  16-aligned stack pointer that is also the second argument of \<open>main\<close>, the addresses of the argument
  strings, each with its string and a zero byte, and a null pointer.  In both cases every
  in-memory inode has the reference count and the lock holder it had.
\<close>

lemma kexec_all_or_nothing:
  assumes old: "proc_space tp tf (im_pagetable im) (im_sz im) s" and tp: "tp < 2 ^ 56" and tf: "tf < 2 ^ 56"
    and cwd: "cwd < length (itable f)" and argv: "\<forall>a \<in> set argv. length a < PGSIZE" "length argv < MAXARG"
  shows "promise (exec_post tp tf argv im f s) (kexec me cwd tp tf pn argv im f s)"
  unfolding kexec_def
proof (rule promise_bind [OF open_file [OF cwd, where me = me]], clarify)
  have k: "kmem_ok s" using old as_okD(1) by (auto simp: proc_space_def)
  fix r f1
  assume "case r of None \<Rightarrow> quiet f f1 | Some (i, _) \<Rightarrow> promise (holding me (Some i) f) (of_fs (ilock me i f1))"
  then show "promise (exec_post tp tf argv im f s) (case r of
      None \<Rightarrow> Inr (-1, im, f1, s)
    | Some (ip, _) \<Rightarrow> bindR (of_fs (ilock me ip f1)) (\<lambda>f2. exec_file me ip tp tf pn argv im f2 s))"
    using exec_post_failed [OF k] promise_bind [OF _ exec_file_post [OF old tp tf _ argv]]
    by (cases r) (auto split: option.splits)
qed

section \<open>A small process\<close>

text \<open>A process of size 0 with its three page-table pages, its two pages at the top and one free page.\<close>

definition mini_space :: phys where
  "mini_space = \<lparr>ram = write64 0x800007F8 (PA2PTE 0x80001000 OR PTE_V) (write64 0x80001FF8 (PA2PTE 0x80002000 OR PTE_V)
     (write64 0x80002FF8 (pte_of 0x80003000 (PTE_R OR PTE_X)) (write64 0x80002FF0 (pte_of 0x80004000 (PTE_R OR PTE_W)) (\<lambda>x. 0)))),
     freelist = 0x80005000, kend = 0x80000000\<rparr>"

lemma read_write64_aligned:
  assumes "a mod 8 = 0" "b mod 8 = 0"
  shows "read64 a (write64 b v r) = (if a = b then v else read64 a r)"
proof -
  obtain i j where "a = 8 * i" "b = 8 * j" using assms by (auto elim!: dvdE simp: mod_eq_0_iff_dvd)
  then have "a = b \<or> a + 8 \<le> b \<or> b + 8 \<le> a" by presburger
  then show ?thesis using read_write64_other by auto
qed

lemma read_nothing: "read64 a (\<lambda>x. 0) = 0"
  by (rule read64_zero) simp

lemma mini_space_entry:
  assumes "a mod 8 = 0"
  shows "get_pte a mini_space =
    (if a = 0x800007F8 then PA2PTE 0x80001000 OR PTE_V else if a = 0x80001FF8 then PA2PTE 0x80002000 OR PTE_V
     else if a = 0x80002FF8 then pte_of 0x80003000 (PTE_R OR PTE_X) else if a = 0x80002FF0 then pte_of 0x80004000 (PTE_R OR PTE_W)
     else 0)"
  using assms by (simp add: get_pte_def mini_space_def read_write64_aligned read_nothing)

lemma mini_space_upper:
  assumes "i < 512"
  shows "entry mini_space 0x80000000 i = (if i = 255 then PA2PTE 0x80001000 OR PTE_V else 0)"
    "entry mini_space 0x80001000 i = (if i = 511 then PA2PTE 0x80002000 OR PTE_V else 0)"
  using assms by (auto simp: entry_def mini_space_entry)

lemma mini_space_managed: "managed mini_space 0x80000000" "managed mini_space 0x80001000" "managed mini_space 0x80002000"
    "managed mini_space 0x80003000" "managed mini_space 0x80004000" "managed mini_space 0x80005000"
  by (simp_all add: managed_def mini_space_def PGSIZE_def PHYSTOP_def KERNBASE_def)

lemma mini_space_free: "kmem_ok mini_space" "free_pages mini_space = {0x80005000}"
proof -
  have "read64 0x80005000 (ram mini_space) = 0" using mini_space_entry [of "0x80005000"] by (simp add: get_pte_def)
  then have f: "free_list mini_space [0x80005000]"
    using mini_space_managed(6) by (simp add: free_list_def) (simp add: mini_space_def)
  then show "kmem_ok mini_space" by (auto simp: kmem_ok_def mini_space_def)
  show "free_pages mini_space = {0x80005000}" using free_list_pages [OF f] by simp
qed

lemma mini_space_table:
  assumes "path 2 p"
  shows "table mini_space 0x80000000 p =
    (if p = [] then Some 0x80000000 else if p = [255] then Some 0x80001000 else if p = [511, 255] then Some 0x80002000 else None)"
proof -
  note E = new_entry [OF mini_space_managed(2)] new_entry [OF mini_space_managed(3)]
  consider "p = []" | i where "p = [i]" "i < 512" | j i where "p = [j, i]" "i < 512" "j < 512"
    using assms by (cases p; cases "tl p"; cases "tl (tl p)") (auto simp: path_def)
  then show ?thesis using E by cases (auto simp: mini_space_upper)
qed

lemma mini_space_leaf:
  assumes "leaf_path q"
  shows "leaf mini_space 0x80000000 q =
    (if q = [511, 511, 255] then Some (pte_of 0x80003000 (PTE_R OR PTE_X))
     else if q = [510, 511, 255] then Some (pte_of 0x80004000 (PTE_R OR PTE_W)) else None)"
proof -
  obtain k p where q: "q = k # p" "k < 512" "length p = 2" "path 2 p" using assms by (rule leaf_path_split)
  have "0x80002000 + 8 * k = 0x80002FF8 \<longleftrightarrow> k = 511" "0x80002000 + 8 * k = 0x80002FF0 \<longleftrightarrow> k = 510" by auto
  then show ?thesis using q mini_space_table [OF q(4)] by (auto simp: leaf_def entry_def mini_space_entry)
qed

lemma top_paths: "vpath TRAMPOLINE = [511, 511, 255]" "vpath TRAPFRAME = [510, 511, 255]"
  by (simp_all add: vpath_def PX_def TRAMPOLINE_def TRAPFRAME_def MAXVA_def PGSIZE_def)

lemma mini_space_frames: "PTE2PA (pte_of 0x80003000 (PTE_R OR PTE_X)) = 0x80003000" "PTE2PA (pte_of 0x80004000 (PTE_R OR PTE_W)) = 0x80004000"
  unfolding pte_of_def by (rule PTE2PA_entry; auto simp: bit_or_iff PTE_consts_bit PGSIZE_def)+

lemma mini_space_ok: "proc_space 0x80003000 0x80004000 0x80000000 0 mini_space"
proof -
  note T = mini_space_table and L = mini_space_leaf and F = mini_space_frames
  have t: "tables mini_space 0x80000000 \<subseteq> {0x80000000, 0x80001000, 0x80002000}"
    using T by (auto simp: tables_def split: if_splits)
  have "pt_ok mini_space 0x80000000"
    unfolding pt_ok_def
  proof (intro conjI allI impI)
    fix p t assume "path 2 p" "table mini_space 0x80000000 p = Some t"
    then show "managed mini_space t" "t \<notin> free_pages mini_space"
      using T [of p] mini_space_managed(1-3) by (auto simp: mini_space_free split: if_splits)
  next
    fix p q t assume "path 2 p" "path 2 q" "table mini_space 0x80000000 p = Some t" "table mini_space 0x80000000 q = Some t"
    then show "p = q" using T [of p] T [of q] by (auto split: if_splits)
  next
    fix p t i
    assume p: "path 1 p" "table mini_space 0x80000000 p = Some t" and i: "i < 512" "has (entry mini_space t i) PTE_V"
    have "t = 0x80000000 \<or> t = 0x80001000" using T [OF path_mono [OF p(1)]] p by (auto simp: path_def split: if_splits)
    then show "\<not> has (entry mini_space t i) (PTE_R OR PTE_W OR PTE_X)"
      using new_entry(3) [OF mini_space_managed(2)] new_entry(3) [OF mini_space_managed(3)] i(1)
      by (auto simp: mini_space_upper split: if_splits)
  qed
  then have "as_ok mini_space 0x80000000"
    using t F by (intro as_okI mini_space_free) (auto simp: L mini_space_free split: if_splits)
  moreover have "leaf mini_space 0x80000000 (vpath TRAMPOLINE) = Some (pte_of 0x80003000 (PTE_R OR PTE_X))"
    "leaf mini_space 0x80000000 (vpath TRAPFRAME) = Some (pte_of 0x80004000 (PTE_R OR PTE_W))"
    using L [OF vpath_leaf(1), of TRAMPOLINE] L [OF vpath_leaf(1), of TRAPFRAME] by (simp_all add: top_paths)
  ultimately show ?thesis using F by (auto simp: proc_space_def frame_of_def lookup_def L top_paths split: if_splits)
qed

end
