(* ===== verification/Sys_Exec.thy ===== *)
theory Sys_Exec
  imports Exec_Safe
begin

text \<open>
  \<open>sys_exec\<close> (\<open>xv6-riscv/kernel/sysfile.c\<close>) with the functions of \<open>syscall.c\<close> that fetch its arguments.
  The strings are copied into pages of their own, which hold them until \<open>kexec\<close> has returned;
  \<open>kexec\<close> is given their contents.  Reading user memory may fault pages in.
\<close>

section \<open>The call\<close>

definition MAXPATH :: nat where "MAXPATH = 128"

definition fetchaddr :: "nat \<Rightarrow> nat \<Rightarrow> nat \<Rightarrow> phys \<Rightarrow> vm_error + nat option \<times> phys" where
  "fetchaddr psz pt addr s =
     (if addr \<ge> psz \<or> (addr + 8) mod 2 ^ 64 > psz then Inr (None, s)
      else
        bindR (copyin psz pt pt [] addr 8 s) (\<lambda>(r, bs, s1).
          if r \<noteq> 0 then Inr (None, s1) else Inr (Some (unat (of_le64 bs)), s1)))"

text \<open>The bytes are what ends up in the buffer, also if there is no zero among them.\<close>

definition fetchstr :: "nat \<Rightarrow> nat \<Rightarrow> nat \<Rightarrow> phys \<Rightarrow> uint8 list option \<times> uint8 list" where
  "fetchstr pt addr mx s =
     (let (r, bs) = copyinstr pt [] addr mx s
      in (if r < 0 then None else Some (takeWhile (\<lambda>c. c \<noteq> 0) bs), bs))"

text \<open>The loop over the argument vector at \<open>uargv\<close>: the pages, which are to be freed, and the strings in them.\<close>

function fetch_args ::
  "nat \<Rightarrow> nat \<Rightarrow> nat \<Rightarrow> nat \<Rightarrow> nat list \<Rightarrow> uint8 list list \<Rightarrow> phys \<Rightarrow> vm_error + bool \<times> nat list \<times> uint8 list list \<times> phys" where
  "fetch_args psz pt uargv i pages argv s =
     (if i \<ge> MAXARG then Inr (False, pages, argv, s)
      else
        bindR (fetchaddr psz pt ((uargv + 8 * i) mod 2 ^ 64) s) (\<lambda>(r, s1).
          case r of
            None \<Rightarrow> Inr (False, pages, argv, s1)
          | Some uarg \<Rightarrow>
              if uarg = 0 then Inr (True, pages, argv, s1)
              else
                let (page, s2) = kalloc s1 in
                if page = 0 then Inr (False, pages, argv, s2)
                else
                  let (a, bs) = fetchstr pt uarg PGSIZE s2;
                      s3 = store_bytes page bs s2
                  in case a of
                       None \<Rightarrow> Inr (False, pages @ [page], argv, s3)
                     | Some a \<Rightarrow> fetch_args psz pt uargv (Suc i) (pages @ [page]) (argv @ [a]) s3))"
  by pat_completeness auto
termination
  by (relation "measure (\<lambda>(psz, pt, uargv, i, pages, argv, s). MAXARG - i)") (auto simp: MAXARG_def)

declare fetch_args.simps [simp del]

primrec free_args :: "nat list \<Rightarrow> phys \<Rightarrow> vm_error + phys" where
  "free_args [] s = Inr s"
| "free_args (p # ps) s = bindR (kfree p s) (free_args ps)"

definition sys_exec ::
  "int \<Rightarrow> nat \<Rightarrow> nat \<Rightarrow> nat \<Rightarrow> nat \<Rightarrow> nat \<Rightarrow> image \<Rightarrow> fsys \<Rightarrow> phys \<Rightarrow> exec_error + int \<times> image \<times> fsys \<times> phys" where
  "sys_exec me cwd trampoline trapframe upath uargv im f s =
     (case fst (fetchstr (im_pagetable im) upath MAXPATH s) of
        None \<Rightarrow> Inr (-1, im, f, s)
      | Some pn \<Rightarrow>
          bindR (of_vm (fetch_args (im_sz im) (im_pagetable im) uargv 0 [] [] s)) (\<lambda>(ok, pages, argv, s1).
            if ok then
              bindR (kexec me cwd trampoline trapframe pn argv im f s1) (\<lambda>(ret, im1, f1, s2).
              bindR (of_vm (free_args pages s2)) (\<lambda>s3. Inr (ret, im1, f1, s3)))
            else bindR (of_vm (free_args pages s1)) (\<lambda>s2. Inr (-1, im, f, s2))))"

section \<open>Strings of the user\<close>

lemma copyinstr_page_bytes:
  assumes "copyinstr_page p n s = (got, bs)"
  shows "length bs \<le> n \<and> (\<forall>k < length bs. bs ! k = ram s (p + k)) \<and> (if got then \<exists>t. bs = t @ [0] \<and> 0 \<notin> set t else length bs = n \<and> 0 \<notin> set bs)"
  using assms
proof (induction n arbitrary: p got bs)
  case (Suc n)
  show ?case
  proof (cases "ram s p = 0")
    case True
    then show ?thesis using Suc.prems by (auto intro: exI [of _ "[]"])
  next
    case False
    then obtain cs where c: "copyinstr_page (Suc p) n s = (got, cs)" "bs = ram s p # cs" using Suc.prems by (auto split: prod.splits)
    have "(\<forall>k < length bs. bs ! k = ram s (p + k))" using Suc.IH [OF c(1)] unfolding c(2) by (auto simp: nth_Cons split: nat.splits)
    moreover have "\<exists>t. bs = t @ [0] \<and> 0 \<notin> set t" if "cs = u @ [0]" "0 \<notin> set u" for u
      using that False unfolding c(2) by (intro exI [of _ "ram s p # u"]) simp
    ultimately show ?thesis using Suc.IH [OF c(1)] False unfolding c(2) by (auto split: if_splits)
  qed
qed auto

lemma user_bytes_append:
  "user_bytes psz s pt p xs \<Longrightarrow> user_bytes psz s pt (p + length xs) ys \<Longrightarrow> user_bytes psz s pt p (xs @ ys)"
proof -
  assume x: "user_bytes psz s pt p xs" and y: "user_bytes psz s pt (p + length xs) ys"
  have "uview psz s pt (p + k) = Some ((xs @ ys) ! k)" if "k < length xs + length ys" for k
  proof (cases "k < length xs")
    case False
    then have "k - length xs < length ys" "p + length xs + (k - length xs) = p + k" using that by auto
    then show ?thesis using y False by (auto simp: user_bytes_def nth_append)
  qed (use x in \<open>auto simp: user_bytes_def nth_append\<close>)
  then show ?thesis by (simp add: user_bytes_def)
qed

text \<open>\<open>copyinstr\<close> reads bytes of user memory up to a zero.\<close>

lemma copyinstr_spec:
  assumes "copyinstr pt dst va mx s = (r, out)"
  shows "\<exists>bs. out = dst @ bs \<and> length bs \<le> mx \<and> user_bytes psz s pt va bs \<and> (0 \<le> r \<longrightarrow> (\<exists>t. bs = t @ [0] \<and> 0 \<notin> set t))"
  using assms
proof (induction mx arbitrary: dst va rule: less_induct)
  case (less mx)
  let ?va0 = "PGROUNDDOWN va"
  let ?n = "min (PGSIZE - (va - ?va0)) mx"
  have d: "?va0 \<le> va" "va < ?va0 + PGSIZE" using in_page [of va] by auto
  show ?case
  proof (cases "mx = 0 \<or> walkaddr pt ?va0 s = 0")
    case True
    then show ?thesis using less.prems by (subst (asm) copyinstr.simps) (auto simp: user_bytes_def Let_def split: if_splits)
  next
    case False
    let ?pa = "walkaddr pt ?va0 s"
    obtain e where e: "lookup s pt ?va0 = Some e" "has e PTE_U" "?va0 < MAXVA" "?pa = PTE2PA e"
      using False by (auto simp: walkaddr_lookup split: if_splits option.splits)
    obtain got bs where c: "copyinstr_page (?pa + (va - ?va0)) ?n s = (got, bs)" by (cases "copyinstr_page (?pa + (va - ?va0)) ?n s")
    note B = copyinstr_page_bytes [OF c]
    have u: "user_bytes psz s pt va bs"
      unfolding user_bytes_def
    proof (intro allI impI)
      fix k assume k: "k < length bs"
      then have "va + k < ?va0 + PGSIZE" using B d by (auto split: if_splits)
      from page_bytes(1) [OF e(1-3) this] show "uview psz s pt (va + k) = Some (bs ! k)" using B k e(4) by simp
    qed
    show ?thesis
    proof (cases got)
      case True
      then have "(r, out) = (0, dst @ bs)" using less.prems False c by (subst (asm) copyinstr.simps) (simp add: Let_def)
      then show ?thesis using B u True by auto
    next
      case no: False
      then have rec: "copyinstr pt (dst @ bs) (?va0 + PGSIZE) (mx - ?n) s = (r, out)"
        using less.prems False c by (subst (asm) copyinstr.simps) (simp add: Let_def)
      have lt: "mx - ?n < mx" using False d by auto
      from less.IH [OF lt rec] obtain cs where cs: "out = dst @ bs @ cs" "length cs \<le> mx - ?n" "user_bytes psz s pt (?va0 + PGSIZE) cs"
        "0 \<le> r \<longrightarrow> (\<exists>t. cs = t @ [0] \<and> 0 \<notin> set t)" by auto
      have "cs = [] \<or> ?va0 + PGSIZE = va + length bs" using cs(2) B no d by auto
      then have "user_bytes psz s pt va (bs @ cs)" using u cs(3) user_bytes_append by fastforce
      moreover have "\<exists>t. bs @ cs = t @ [0] \<and> 0 \<notin> set t" if r: "0 \<le> r"
      proof -
        obtain t where "cs = t @ [0]" "0 \<notin> set t" using cs(4) r by blast
        then show ?thesis using B no by (intro exI [of _ "bs @ t"]) simp
      qed
      ultimately show ?thesis using cs(1,2) B no by (intro exI [of _ "bs @ cs"]) auto
    qed
  qed
qed

lemma fetchstr_spec:
  assumes "fetchstr pt addr mx s = (a, bs)"
  shows "length bs \<le> mx" "a = Some t \<Longrightarrow> user_bytes psz s pt addr (t @ [0]) \<and> 0 \<notin> set t \<and> length t < mx"
proof -
  obtain r where r: "copyinstr pt [] addr mx s = (r, bs)" "a = (if r < 0 then None else Some (takeWhile (\<lambda>c. c \<noteq> 0) bs))"
    using assms by (auto simp: fetchstr_def split: prod.splits)
  from copyinstr_spec [OF r(1), of psz] have b: "length bs \<le> mx" "user_bytes psz s pt addr bs"
    "0 \<le> r \<longrightarrow> (\<exists>t. bs = t @ [0] \<and> 0 \<notin> set t)" by auto
  then show "length bs \<le> mx" by simp
  show "user_bytes psz s pt addr (t @ [0]) \<and> 0 \<notin> set t \<and> length t < mx" if a: "a = Some t"
  proof -
    obtain u where u: "bs = u @ [0]" "0 \<notin> set u" using b(3) r(2) a by (auto split: if_splits)
    then have "takeWhile (\<lambda>c. c \<noteq> 0) bs = u" by (auto simp: takeWhile_append)
    then show ?thesis using u b(1,2) r(2) a by (auto split: if_splits)
  qed
qed

section \<open>Pages on the side\<close>

text \<open>
  The process keeps its address space and the call holds the pages \<open>ps\<close> beside it; \<open>U\<close> are all pages
  that are free, of the process or held.
\<close>

definition beside :: "nat \<Rightarrow> nat \<Rightarrow> nat \<Rightarrow> nat \<Rightarrow> nat set \<Rightarrow> nat list \<Rightarrow> phys \<Rightarrow> bool" where
  "beside tp tf pt sz U ps s \<longleftrightarrow> proc_space tp tf pt sz s \<and> distinct ps \<and> (\<forall>p \<in> set ps. managed s p)
     \<and> set ps \<inter> total s pt = {} \<and> free_pages s \<union> pages_of tp tf pt s \<union> set ps = U"

lemma besideD:
  assumes "beside tp tf pt sz U ps s"
  shows "proc_space tp tf pt sz s" "as_ok s pt" "kmem_ok s" "free_pages s \<inter> (tables s pt \<union> frames s pt) = {}"
    "set ps \<inter> (tables s pt \<union> frames s pt \<union> free_pages s) = {}"
proof -
  show P: "proc_space tp tf pt sz s" using assms by (simp add: beside_def)
  then show ok: "as_ok s pt" by (simp add: proc_space_def)
  then show "kmem_ok s" by (rule as_okD(1))
  show "free_pages s \<inter> (tables s pt \<union> frames s pt) = {}" using ok tables_not_free [OF as_okD(2) [OF ok]] by (auto simp: as_ok_def)
  show "set ps \<inter> (tables s pt \<union> frames s pt \<union> free_pages s) = {}" using assms by (simp add: beside_def total_def)
qed

text \<open>A change of free and held pages.\<close>

lemma beside_change:
  assumes B: "beside tp tf pt sz U ps s" and s': "kmem_ok s'" "kend s' = kend s" "same_outside F s s'"
    and F: "F \<subseteq> free_pages s \<union> set ps" and ps': "distinct ps'" "\<forall>p \<in> set ps'. managed s p"
    and d: "set ps' \<inter> free_pages s' = {}" "free_pages s' \<union> set ps' = free_pages s \<union> set ps"
  shows "beside tp tf pt sz U ps' s'" "\<And>q. leaf_path q \<Longrightarrow> leaf s' pt q = leaf s pt q"
    "\<And>x. PGROUNDDOWN x \<in> frames s pt \<Longrightarrow> ram s' x = ram s x"
proof -
  note D = besideD [OF B]
  have dF: "F \<inter> (tables s pt \<union> frames s pt) = {}" "free_pages s' \<inter> (tables s pt \<union> frames s pt) = {}" "set ps' \<inter> (tables s pt \<union> frames s pt) = {}"
    using D(4,5) F d(2) by blast+
  note C = bystander [OF D(2) s' dF(1,2)]
  show "\<And>q. leaf_path q \<Longrightarrow> leaf s' pt q = leaf s pt q" "\<And>x. PGROUNDDOWN x \<in> frames s pt \<Longrightarrow> ram s' x = ram s x" by (fact C(2,5))+
  have "proc_space tp tf pt sz s'" by (rule proc_space_cong [OF D(1) C(1) s'(2) C(2)])
  moreover have "pages_of tp tf pt s' = pages_of tp tf pt s" using C(3,4) by (simp add: pages_of_def)
  moreover have "set ps' \<inter> total s' pt = {}" using C(3,4) dF(3) d(1) by (auto simp: total_def)
  ultimately show "beside tp tf pt sz U ps' s'"
    using ps' d(2) s'(2) B by (auto simp: beside_def managed_def)
qed

lemma beside_kalloc:
  assumes B: "beside tp tf pt sz U ps s" and k: "kalloc s = (page, s')" "page \<noteq> 0"
  shows "beside tp tf pt sz U (ps @ [page]) s'" "\<And>q. leaf_path q \<Longrightarrow> leaf s' pt q = leaf s pt q"
    "\<And>x. PGROUNDDOWN x \<in> frames s pt \<Longrightarrow> ram s' x = ram s x" "managed s' page" "kend s' = kend s"
proof -
  note D = besideD [OF B] and K = kalloc_spec [OF besideD(3) [OF B] k]
  have n: "page \<notin> set ps" using D(5) K(2) by blast
  have d: "distinct (ps @ [page])" "\<forall>p \<in> set (ps @ [page]). managed s p" using B n K(4) by (auto simp: beside_def)
  have e: "set (ps @ [page]) \<inter> free_pages s' = {}" "free_pages s' \<union> set (ps @ [page]) = free_pages s \<union> set ps" using D(5) K(2,3) by auto
  have "{page} \<subseteq> free_pages s \<union> set ps" using K(2) by simp
  note C = beside_change [OF B K(1,5,6) this d e]
  show "beside tp tf pt sz U (ps @ [page]) s'" "\<And>q. leaf_path q \<Longrightarrow> leaf s' pt q = leaf s pt q"
    "\<And>x. PGROUNDDOWN x \<in> frames s pt \<Longrightarrow> ram s' x = ram s x" by (fact C)+
  show "managed s' page" "kend s' = kend s" using K(4,5) by (simp_all add: managed_def)
qed

lemma beside_store:
  assumes B: "beside tp tf pt sz U ps s" and p: "page \<in> set ps" and bs: "length bs \<le> PGSIZE"
  shows "beside tp tf pt sz U ps (store_bytes page bs s)" "\<And>q. leaf_path q \<Longrightarrow> leaf (store_bytes page bs s) pt q = leaf s pt q"
    "\<And>x. PGROUNDDOWN x \<in> frames s pt \<Longrightarrow> ram (store_bytes page bs s) x = ram s x"
proof -
  let ?s = "store_bytes page bs s"
  note D = besideD [OF B]
  have al: "page mod PGSIZE = 0" using B p by (auto simp: beside_def managed_def)
  have "PGROUNDDOWN y = page" if "page \<le> y" "y < page + length bs" for y using that bs by (intro page_of [OF al]) auto
  then have o: "same_outside {page} s ?s" by (auto simp: same_outside_def store_bytes_def)
  have nf: "page \<notin> free_pages s" using D(5) p by blast
  have f: "freelist ?s = freelist s" "kend ?s = kend s" by (simp_all add: store_bytes_def)
  have K: "kmem_ok ?s" "free_pages ?s = free_pages s" using free_frame [OF D(3) o _ f] nf by auto
  have d: "distinct ps" "\<forall>p \<in> set ps. managed s p" "set ps \<inter> free_pages ?s = {}" "free_pages ?s \<union> set ps = free_pages s \<union> set ps"
    using B D(5) K(2) by (auto simp: beside_def)
  have "{page} \<subseteq> free_pages s \<union> set ps" using p by simp
  note C = beside_change [OF B K(1) f(2) o this d]
  show "beside tp tf pt sz U ps ?s" "\<And>q. leaf_path q \<Longrightarrow> leaf ?s pt q = leaf s pt q"
    "\<And>x. PGROUNDDOWN x \<in> frames s pt \<Longrightarrow> ram ?s x = ram s x" by (fact C)+
qed

lemma beside_free:
  assumes "beside tp tf pt sz U ps s"
  shows "\<exists>s'. free_args ps s = Inr s' \<and> beside tp tf pt sz U [] s' \<and> (\<forall>q. leaf_path q \<longrightarrow> leaf s' pt q = leaf s pt q)
    \<and> (\<forall>x. PGROUNDDOWN x \<in> frames s pt \<longrightarrow> ram s' x = ram s x)"
  using assms
proof (induction ps arbitrary: s)
  case (Cons p ps)
  note D = besideD [OF Cons.prems]
  have p: "managed s p" "p \<notin> free_pages s" "p \<notin> set ps" "distinct ps" "\<forall>q \<in> set ps. managed s q"
    using Cons.prems D(5) by (auto simp: beside_def)
  obtain s1 where s1: "kfree p s = Inr s1" "kmem_ok s1" "free_pages s1 = insert p (free_pages s)" "kend s1 = kend s" "same_outside {p} s s1"
    using kfree_spec [OF D(3) p(1,2)] by blast
  have d: "set ps \<inter> free_pages s1 = {}" "free_pages s1 \<union> set ps = free_pages s \<union> set (p # ps)" using D(5) s1(3) p(3) by auto
  have "{p} \<subseteq> free_pages s \<union> set (p # ps)" by simp
  note C = beside_change [OF Cons.prems s1(2,4,5) this p(4,5) d]
  have "frames s1 pt = frames s pt" by (rule frames_cong [OF C(2)])
  with Cons.IH [OF C(1)] C(2,3) s1(1) show ?case by auto
qed (auto simp: beside_def)

section \<open>Fetching the arguments\<close>

definition user_word :: "nat \<Rightarrow> phys \<Rightarrow> nat \<Rightarrow> nat \<Rightarrow> nat \<Rightarrow> bool" where
  "user_word psz s pt a p \<longleftrightarrow> (\<exists>bs. length bs = 8 \<and> user_bytes psz s pt a bs \<and> unat (of_le64 bs) = p)"

text \<open>The argument vector that user memory holds at \<open>uargv\<close>: pointers to strings, and a null pointer at the end.\<close>

definition user_arg :: "nat \<Rightarrow> phys \<Rightarrow> nat \<Rightarrow> nat \<Rightarrow> nat \<Rightarrow> uint8 list \<Rightarrow> bool" where
  "user_arg psz s pt uargv j a \<longleftrightarrow>
     (\<exists>p. p \<noteq> 0 \<and> user_word psz s pt ((uargv + 8 * j) mod 2 ^ 64) p \<and> user_bytes psz s pt p (a @ [0]) \<and> 0 \<notin> set a)"

definition user_argv :: "nat \<Rightarrow> phys \<Rightarrow> nat \<Rightarrow> nat \<Rightarrow> uint8 list list \<Rightarrow> bool" where
  "user_argv psz s pt uargv argv \<longleftrightarrow>
     (\<forall>j < length argv. user_arg psz s pt uargv j (argv ! j)) \<and> user_word psz s pt ((uargv + 8 * length argv) mod 2 ^ 64) 0"

lemma proc_space_rest:
  assumes "proc_space tp tf pt sz s"
  shows "free_pages s \<union> pages_of tp tf pt s = total s pt - {tp, tf}"
proof -
  note T = proc_space_top [OF assms]
  have "{tp, tf} \<inter> (free_pages s \<union> pages_of tp tf pt s) = {}" using T(2,5) by auto
  then show ?thesis unfolding T(4) by auto
qed

lemma faulted_new:
  "faulted psz pt s s' \<Longrightarrow> leaf_path q \<Longrightarrow> leaf s' pt q = Some e \<Longrightarrow>
   leaf s pt q = Some e \<or> has e PTE_U \<and> (\<exists>va < psz. va mod PGSIZE = 0 \<and> q = vpath va)"
  by (simp only: faulted_def)

lemma beside_faulted:
  assumes B: "beside tp tf pt sz U ps s" and f: "faulted sz pt s s'"
  shows "beside tp tf pt sz U ps s'"
proof -
  note F = f [unfolded faulted_def] and D = besideD [OF B] and P = besideD(1) [OF B, unfolded proc_space_def]
  have tot: "total s' pt = total s pt" and ok: "as_ok s' pt" "us_ok sz s' pt" using F by (simp_all add: space_step_def)
  have mg: "managed s' p = managed s p" for p using F space_step_managed by blast
  have keep: "frame_of s' pt va = {x}" if x: "frame_of s pt va = {x}" for va x
  proof -
    obtain e where "leaf s pt (vpath va) = Some e" "PTE2PA e = x" using x by (auto simp: frame_of_def lookup_def split: option.splits)
    then show ?thesis using F vpath_leaf(1) by (auto simp: frame_of_def lookup_def)
  qed
  have rng: "in_range 0 (npages sz) (vpath va)" if va: "va < sz" "va mod PGSIZE = 0" for va
  proof -
    have "va < npages sz * PGSIZE" using npages(2) [of sz] P va(1) by linarith
    then have "va div PGSIZE < npages sz" by (simp add: less_mult_imp_div_less)
    moreover have "vpath va = vpath (0 + va div PGSIZE * PGSIZE)" using va(2) by (simp add: mod_eq_0_iff_dvd)
    ultimately show ?thesis unfolding in_range_def by blast
  qed
  have P1: "q = vpath TRAMPOLINE \<or> q = vpath TRAPFRAME \<or> in_range 0 (npages sz) q" if "leaf_path q" "leaf s pt q \<noteq> None" for q
    using P that by blast
  have P2: "managed s (PTE2PA e)" if "leaf_path q" "q \<noteq> vpath TRAMPOLINE" "q \<noteq> vpath TRAPFRAME" "leaf s pt q = Some e" for q e
    using P that by blast
  have leaves: "(q = vpath TRAMPOLINE \<or> q = vpath TRAPFRAME \<or> in_range 0 (npages sz) q)
      \<and> (q \<noteq> vpath TRAMPOLINE \<longrightarrow> q \<noteq> vpath TRAPFRAME \<longrightarrow> managed s' (PTE2PA e))" if q: "leaf_path q" "leaf s' pt q = Some e" for q e
  proof -
    from faulted_new [OF f q] show ?thesis
    proof (elim disjE conjE exE)
      assume old: "leaf s pt q = Some e"
      then have "leaf s pt q \<noteq> None" by simp
      from P1 [OF q(1) this] P2 [OF q(1) _ _ old] mg show ?thesis by metis
    next
      fix va assume new: "has e PTE_U" "va < sz" "va mod PGSIZE = 0" "q = vpath va"
      have "managed s' (PTE2PA e)" using ok(2) q new(1) by (simp only: us_ok_def)
      then show ?thesis using rng [OF new(2,3)] new(4) by simp
    qed
  qed
  have P': "proc_space tp tf pt sz s'" unfolding proc_space_def
  proof (intro conjI allI impI ok(1))
    show "sz \<le> TRAPFRAME" "frame_of s' pt TRAMPOLINE = {tp}" "frame_of s' pt TRAPFRAME = {tf}" using P keep by blast+
  qed (use leaves in blast)+
  have "free_pages s' \<union> pages_of tp tf pt s' = free_pages s \<union> pages_of tp tf pt s"
    unfolding proc_space_rest [OF P'] proc_space_rest [OF D(1)] tot ..
  then show ?thesis using B P' tot mg unfolding beside_def by simp
qed

lemma fetchaddr_spec:
  assumes ok: "us_ok psz s pt"
  obtains r s' where "fetchaddr psz pt addr s = Inr (r, s')" "faulted psz pt s s'" "\<And>p. r = Some p \<Longrightarrow> user_word psz s pt addr p"
proof (cases "addr \<ge> psz \<or> (addr + 8) mod 2 ^ 64 > psz")
  case True
  then show thesis using that [of None s] faulted_refl [OF ok] by (auto simp: fetchaddr_def)
next
  case False
  from copyin_spec [OF ok, of "[]" addr 8] obtain r bs s' where c: "copyin psz pt pt [] addr 8 s = Inr (r, bs, s')" "faulted psz pt s s'"
    "r = 0 \<and> map Some bs = map (uview psz s pt) [addr..<addr + 8] \<or> r = -1" by auto
  have "user_word psz s pt addr (unat (of_le64 bs))" if r: "r = 0"
  proof -
    have m: "map Some bs = map (uview psz s pt) [addr..<addr + 8]" using c(3) r by simp
    then have l: "length bs = 8" by (metis diff_add_inverse length_map length_upt)
    have "uview psz s pt (addr + k) = Some (bs ! k)" if "k < 8" for k using arg_cong [OF m, of "\<lambda>xs. xs ! k"] that l by simp
    then show ?thesis using l by (auto simp: user_word_def user_bytes_def)
  qed
  then show thesis using that [of "if r = 0 then Some (unat (of_le64 bs)) else None" s'] c(1,2) False
    by (cases "r = 0") (auto simp: fetchaddr_def)
qed

lemma us_ok_aside:
  "us_ok psz s pt \<Longrightarrow> as_ok s' pt \<Longrightarrow> kend s' = kend s \<Longrightarrow> (\<And>q. leaf_path q \<Longrightarrow> leaf s' pt q = leaf s pt q) \<Longrightarrow> us_ok psz s' pt"
  by (simp add: us_ok_def managed_def)

text \<open>What has been fetched after \<open>i\<close> rounds; \<open>s0\<close> is the memory at the start.\<close>

definition fetching ::
  "nat \<Rightarrow> nat \<Rightarrow> nat \<Rightarrow> nat \<Rightarrow> nat set \<Rightarrow> nat \<Rightarrow> phys \<Rightarrow> nat list \<Rightarrow> uint8 list list \<Rightarrow> phys \<Rightarrow> bool" where
  "fetching tp tf pt sz U uargv s0 pages argv s \<longleftrightarrow> us_ok sz s pt \<and> beside tp tf pt sz U pages s
     \<and> (\<forall>v. uview sz s pt v = uview sz s0 pt v) \<and> (\<forall>j < length argv. user_arg sz s0 pt uargv j (argv ! j))
     \<and> (\<forall>a \<in> set argv. length a < PGSIZE)"

lemma user_view_cong:
  assumes "\<forall>v. uview psz s pt v = uview psz s0 pt v"
  shows "user_bytes psz s pt a bs = user_bytes psz s0 pt a bs" "user_word psz s pt a p = user_word psz s0 pt a p"
  using assms by (simp_all add: user_word_def user_bytes_def)

text \<open>One string: a new page beside the others, which the string is copied to.\<close>

lemma fetching_string:
  assumes F: "fetching tp tf pt sz U uargv s0 pages argv s" and k: "kalloc s = (page, s2)" "page \<noteq> 0"
    and a: "fetchstr pt uarg PGSIZE s2 = (a, bs)" and p: "user_word sz s0 pt ((uargv + 8 * length argv) mod 2 ^ 64) uarg" "uarg \<noteq> 0"
  shows "fetching tp tf pt sz U uargv s0 (pages @ [page]) (case a of None \<Rightarrow> argv | Some t \<Rightarrow> argv @ [t]) (store_bytes page bs s2)"
proof -
  note F = F [unfolded fetching_def]
  have B: "beside tp tf pt sz U pages s" using F by simp
  note K = beside_kalloc [OF B k]
  have in_ps: "page \<in> set (pages @ [page])" by simp
  note M = beside_store [OF K(1) in_ps fetchstr_spec(1) [OF a]]
  let ?s = "store_bytes page bs s2"
  have v2: "uview sz s2 pt v = uview sz s0 pt v" for v using uview_aside [OF K(2,3)] F by simp
  have v: "uview sz ?s pt v = uview sz s0 pt v" for v using uview_aside [OF M(2,3)] v2 by simp
  have u: "us_ok sz ?s pt"
    by (rule us_ok_aside [of sz s pt]) (use F K(2,5) M(2) besideD(2) [OF M(1)] in \<open>simp_all add: store_bytes_def\<close>)
  have "user_arg sz s0 pt uargv (length argv) t \<and> length t < PGSIZE" if t: "a = Some t" for t
    using fetchstr_spec(2) [OF a t, of sz] p user_view_cong(1) [of sz s2 pt s0] v2 by (auto simp: user_arg_def)
  then show ?thesis using F u v M(1) by (auto simp: fetching_def nth_append less_Suc_eq split: option.splits)
qed

lemma fetch_args_spec:
  assumes "fetching tp tf pt sz U uargv s0 pages argv s" "length argv = i"
  shows "\<exists>ok pages' argv' s'. fetch_args sz pt uargv i pages argv s = Inr (ok, pages', argv', s')
    \<and> fetching tp tf pt sz U uargv s0 pages' argv' s' \<and> (ok \<longrightarrow> user_argv sz s0 pt uargv argv' \<and> length argv' < MAXARG)"
  using assms
proof (induction "MAXARG - i" arbitrary: i pages argv s rule: less_induct)
  case less
  note F = less.prems(1) [unfolded fetching_def]
  show ?case
  proof (cases "i < MAXARG")
    case False
    then show ?thesis using less.prems by (subst fetch_args.simps) auto
  next
    case True
    obtain r s1 where r: "fetchaddr sz pt ((uargv + 8 * i) mod 2 ^ 64) s = Inr (r, s1)" "faulted sz pt s s1"
      "\<And>p. r = Some p \<Longrightarrow> user_word sz s pt ((uargv + 8 * i) mod 2 ^ 64) p" using fetchaddr_spec [of sz s pt] F by blast
    have F1: "fetching tp tf pt sz U uargv s0 pages argv s1"
      using F r(2) beside_faulted [of tp tf pt sz U pages s s1] by (simp add: fetching_def faulted_def)
    have w: "user_word sz s0 pt ((uargv + 8 * length argv) mod 2 ^ 64) p" if "r = Some p" for p
      using r(3) [OF that] F user_view_cong(2) [of sz s pt s0] less.prems(2) by simp
    consider "r = None" | "r = Some 0" | p where "r = Some p" "p \<noteq> 0" by (cases r) auto
    then show ?thesis
    proof cases
      case 3
      obtain page s2 where k: "kalloc s1 = (page, s2)" by (cases "kalloc s1")
      show ?thesis
      proof (cases "page = 0")
        case none: True
        have "s2 = s1" using kalloc_none(1) [of s1 s2] k none besideD(3) [of tp tf pt sz U pages s1] F1 by (simp add: fetching_def)
        then show ?thesis using True r(1) 3 k none F1 by (subst fetch_args.simps) auto
      next
        case page: False
        obtain a bs where a: "fetchstr pt p PGSIZE s2 = (a, bs)" by (cases "fetchstr pt p PGSIZE s2")
        note G = fetching_string [OF F1 k page a w [OF 3(1)] 3(2)]
        show ?thesis
        proof (cases a)
          case None
          then show ?thesis using True r(1) 3 k page a G by (subst fetch_args.simps) auto
        next
          case (Some t)
          have e: "fetch_args sz pt uargv i pages argv s = fetch_args sz pt uargv (Suc i) (pages @ [page]) (argv @ [t]) (store_bytes page bs s2)"
            using True r(1) 3 k page a Some by (subst fetch_args.simps) simp
          show ?thesis unfolding e using less.hyps [of "Suc i" "pages @ [page]" "argv @ [t]"] G Some True less.prems(2) by simp
        qed
      qed
    qed (use True r(1) F1 w less.prems(2) in \<open>subst fetch_args.simps; force simp: user_argv_def fetching_def\<close>)+
  qed
qed

section \<open>The whole call\<close>

text \<open>What the system call promises.\<close>

definition sys_exec_post ::
  "nat \<Rightarrow> nat \<Rightarrow> nat \<Rightarrow> image \<Rightarrow> fsys \<Rightarrow> phys \<Rightarrow> int \<times> image \<times> fsys \<times> phys \<Rightarrow> bool" where
  "sys_exec_post tp tf uargv im f s = (\<lambda>(r, im', f', s').
     refs f' = refs f \<and> owners f' = owners f \<and> kmem_ok s' \<and> proc_space tp tf (im_pagetable im') (im_sz im') s'
     \<and> free_pages s' \<union> pages_of tp tf (im_pagetable im') s' = free_pages s \<union> pages_of tp tf (im_pagetable im) s
     \<and> (if r = -1 then im' = im \<and> (\<forall>v. uview (im_sz im) s' (im_pagetable im) v = uview (im_sz im) s (im_pagetable im) v)
        else \<exists>argv. user_argv (im_sz im) s (im_pagetable im) uargv argv \<and> r = int (length argv)
          \<and> im_a1 im' = im_sp im' \<and> arg_block s' (im_pagetable im') (im_sp im') argv))"

lemma beside_done:
  assumes "beside tp tf pt sz U [] s"
  shows "kmem_ok s" "proc_space tp tf pt sz s" "free_pages s \<union> pages_of tp tf pt s = U"
  using assms besideD(3) [OF assms] by (simp_all add: beside_def)

text \<open>The way out without a new program: the held pages are freed.\<close>

lemma sys_exec_failed:
  assumes B: "beside tp tf (im_pagetable im) (im_sz im) (free_pages s \<union> pages_of tp tf (im_pagetable im) s) pages s1"
    and v: "\<forall>v. uview (im_sz im) s1 (im_pagetable im) v = uview (im_sz im) s (im_pagetable im) v"
    and f: "refs f1 = refs f" "owners f1 = owners f"
  shows "promise (sys_exec_post tp tf uargv im f s) (bindR (of_vm (free_args pages s1)) (\<lambda>s2. Inr (-1, im, f1, s2)))"
proof -
  obtain s2 where s2: "free_args pages s1 = Inr s2" "beside tp tf (im_pagetable im) (im_sz im) (free_pages s \<union> pages_of tp tf (im_pagetable im) s) [] s2"
    "\<And>q. leaf_path q \<Longrightarrow> leaf s2 (im_pagetable im) q = leaf s1 (im_pagetable im) q"
    "\<And>x. PGROUNDDOWN x \<in> frames s1 (im_pagetable im) \<Longrightarrow> ram s2 x = ram s1 x" using beside_free [OF B] by blast
  show ?thesis using s2(1) beside_done [OF s2(2)] uview_aside [OF s2(3,4)] v f by (simp add: sys_exec_post_def)
qed

text \<open>\<open>kexec\<close> leaves the held pages alone, whether it fails or succeeds.\<close>

lemma beside_kexec:
  assumes B: "beside tp tf (im_pagetable im) (im_sz im) U pages s" and E: "exec_post tp tf argv im f s (r, im', f', s')"
  shows "beside tp tf (im_pagetable im') (im_sz im') U pages s'"
    "r = -1 \<Longrightarrow> uview psz s' (im_pagetable im) v = uview psz s (im_pagetable im) v"
proof -
  note E = E [unfolded exec_post_def, simplified] and D = besideD [OF B]
  have fail: "beside tp tf (im_pagetable im) (im_sz im) U pages s'" "uview psz s' (im_pagetable im) v = uview psz s (im_pagetable im) v"
    if r: "r = -1"
  proof -
    have F: "kmem_ok s'" "kend s' = kend s" "same_outside (free_pages s) s s'" "free_pages s' = free_pages s" using E r by auto
    have d: "distinct pages" "\<forall>p \<in> set pages. managed s p" "set pages \<inter> free_pages s' = {}" "free_pages s' \<union> set pages = free_pages s \<union> set pages"
      using B D(5) F(4) by (auto simp: beside_def)
    note C = beside_change [OF B F(1-3) Un_upper1 d]
    show "beside tp tf (im_pagetable im) (im_sz im) U pages s'" by (fact C(1))
    show "uview psz s' (im_pagetable im) v = uview psz s (im_pagetable im) v" by (rule uview_aside [OF C(2,3)])
  qed
  then show "r = -1 \<Longrightarrow> uview psz s' (im_pagetable im) v = uview psz s (im_pagetable im) v" by blast
  show "beside tp tf (im_pagetable im') (im_sz im') U pages s'"
  proof (cases "r = -1")
    case True
    then show ?thesis using fail(1) E by simp
  next
    case False
    have S: "proc_space tp tf (im_pagetable im') (im_sz im') s'" "kend s' = kend s"
      "free_pages s' \<union> pages_of tp tf (im_pagetable im') s' = free_pages s \<union> pages_of tp tf (im_pagetable im) s" using E False by auto
    have "total s' (im_pagetable im') = total s (im_pagetable im)"
      using proc_space_top(4) [OF S(1)] proc_space_top(4) [OF D(1)] S(3) by simp
    then show ?thesis using S B by (simp add: beside_def managed_def)
  qed
qed

lemma sys_exec_ran:
  assumes B: "beside tp tf (im_pagetable im) (im_sz im) (free_pages s \<union> pages_of tp tf (im_pagetable im) s) pages s1"
    and v: "\<forall>v. uview (im_sz im) s1 (im_pagetable im) v = uview (im_sz im) s (im_pagetable im) v"
    and u: "user_argv (im_sz im) s (im_pagetable im) uargv argv" and E: "exec_post tp tf argv im f s1 (r, im', f', s2)"
  shows "promise (sys_exec_post tp tf uargv im f s) (bindR (of_vm (free_args pages s2)) (\<lambda>s3. Inr (r, im', f', s3)))"
proof (cases "r = -1")
  case True
  note K = beside_kexec [OF B E]
  have "im' = im" "refs f' = refs f" "owners f' = owners f" using E True by (auto simp: exec_post_def)
  then show ?thesis using sys_exec_failed [of tp tf im s pages s2 f' f uargv] K True v by simp
next
  case False
  obtain s3 where s3: "free_args pages s2 = Inr s3" "beside tp tf (im_pagetable im') (im_sz im') (free_pages s \<union> pages_of tp tf (im_pagetable im) s) [] s3"
    "\<And>q. leaf_path q \<Longrightarrow> leaf s3 (im_pagetable im') q = leaf s2 (im_pagetable im') q"
    "\<And>x. PGROUNDDOWN x \<in> frames s2 (im_pagetable im') \<Longrightarrow> ram s3 x = ram s2 x" using beside_free [OF beside_kexec(1) [OF B E]] by blast
  have "arg_block s3 (im_pagetable im') (im_sp im') argv" using E False arg_block_cong [OF s3(3,4)] by (simp add: exec_post_def)
  then have "sys_exec_post tp tf uargv im f s (r, im', f', s3)"
    using E False beside_done [OF s3(2)] u by (auto simp: sys_exec_post_def exec_post_def)
  then show ?thesis using s3(1) by simp
qed

text \<open>
  C34: the system call \<open>exec\<close> carries the arguments from the old program to the new one, or changes
  nothing that the program can see.  Whatever pointers the caller passes, only a file-system error
  stops the call; no check of the page tables or of \<open>kfree\<close> fails.
  When it returns -1, the process keeps its image and every byte of its memory reads as before.
  When it succeeds, the old memory held at \<open>uargv\<close> pointers to strings up to a null
  pointer, the result is their number, and the new memory holds exactly these strings and
  pointers to them where the stack pointer and the second argument of \<open>main\<close> point.  In both cases the
  address space is well formed, the pages that held the strings in between are free again, no page is lost,
  and every in-memory inode has the reference count and lock holder it had.
\<close>

theorem sys_exec_hands_over_arguments:
  assumes us: "us_ok (im_sz im) s (im_pagetable im)" and P: "proc_space tp tf (im_pagetable im) (im_sz im) s"
    and tp: "tp < 2 ^ 56" and tf: "tf < 2 ^ 56" and cwd: "cwd < length (itable f)"
  shows "promise (sys_exec_post tp tf uargv im f s) (sys_exec me cwd tp tf upath uargv im f s)"
proof -
  let ?U = "free_pages s \<union> pages_of tp tf (im_pagetable im) s"
  have B: "beside tp tf (im_pagetable im) (im_sz im) ?U [] s" using P by (simp add: beside_def)
  then have F: "fetching tp tf (im_pagetable im) (im_sz im) ?U uargv s [] [] s" using us by (simp add: fetching_def)
  obtain ok pages argv s1 where A: "fetch_args (im_sz im) (im_pagetable im) uargv 0 [] [] s = Inr (ok, pages, argv, s1)"
    "fetching tp tf (im_pagetable im) (im_sz im) ?U uargv s pages argv s1"
    "ok \<longrightarrow> user_argv (im_sz im) s (im_pagetable im) uargv argv \<and> length argv < MAXARG" using fetch_args_spec [OF F] by auto
  have A2: "beside tp tf (im_pagetable im) (im_sz im) ?U pages s1" "\<forall>v. uview (im_sz im) s1 (im_pagetable im) v = uview (im_sz im) s (im_pagetable im) v"
    "\<forall>a \<in> set argv. length a < PGSIZE" using A(2) by (simp_all add: fetching_def)
  have early: "sys_exec_post tp tf uargv im f s (-1, im, f, s)" using beside_done [OF B] by (simp add: sys_exec_post_def)
  have run: "promise (sys_exec_post tp tf uargv im f s) (bindR (kexec me cwd tp tf pn argv im f s1) (\<lambda>(ret, im1, f1, s2).
      bindR (of_vm (free_args pages s2)) (\<lambda>s3. Inr (ret, im1, f1, s3))))" if ok for pn
    using that A(3) sys_exec_ran [OF A2(1,2)]
    by (intro promise_bind [OF kexec_all_or_nothing [OF besideD(1) [OF A2(1)] tp tf cwd A2(3)]]) auto
  have "promise (sys_exec_post tp tf uargv im f s) (bindR (of_vm (free_args pages s1)) (\<lambda>s2. Inr (-1, im, f, s2)))"
    by (rule sys_exec_failed [OF A2(1,2) refl refl])
  then show ?thesis using early run A(1) by (simp add: sys_exec_def split: option.splits)
qed

theorem sys_exec_hands_over_arguments_witness:
  "let im = \<lparr>im_pagetable = 0x80000000, im_sz = 0, im_epc = 0, im_sp = 0, im_a1 = 0, im_name = []\<rparr> in
     promise (sys_exec_post 0x80003000 0x80004000 8 im mini_file mini_space)
       (sys_exec 1 0 0x80003000 0x80004000 0 8 im mini_file mini_space)"
proof -
  have "0 < length (itable mini_file)" by (simp add: mini_file_def)
  moreover have "us_ok 0 mini_space 0x80000000"
    using mini_space_ok mini_space_managed(4,5) mini_space_frames
    by (auto simp: us_ok_def proc_space_def mini_space_leaf split: if_splits)
  ultimately show ?thesis unfolding Let_def using mini_space_ok
    by (intro sys_exec_hands_over_arguments) simp_all
qed


end
