(* ===== verification/User_Malloc.thy ===== *)
theory User_Malloc
  imports Prelude
begin

text \<open>
  The allocator of user programs (\<open>xv6-riscv/user/umalloc.c\<close>) on the memory that
  \<open>sbrk\<close> gives it.

  Addresses count bytes and a header takes 16 of them; \<open>h_ptr\<close> and \<open>h_size\<close> are the two fields of the
  header at an address.  Addresses stay far below \<open>2 ^ 64\<close>; the sizes are taken modulo \<open>2 ^ 32\<close> as in the
  code.  The loops may run forever on a list that is not a circle, so they are partial
  functions.  \<open>grant brk n\<close> says if the kernel has \<open>n\<close> more bytes for a process of size \<open>brk\<close>.
\<close>

section \<open>State\<close>

record heap =
  h_ptr :: "nat \<Rightarrow> nat"
  h_size :: "nat \<Rightarrow> nat"
  freep :: nat
  brk :: nat

definition HDR :: nat where "HDR = 16"

definition set_ptr :: "nat \<Rightarrow> nat \<Rightarrow> heap \<Rightarrow> heap" where
  "set_ptr p q h = h\<lparr>h_ptr := (h_ptr h)(p := q)\<rparr>"

definition set_size :: "nat \<Rightarrow> nat \<Rightarrow> heap \<Rightarrow> heap" where
  "set_size p n h = h\<lparr>h_size := (h_size h)(p := n mod 2 ^ 32)\<rparr>"

text \<open>\<open>p + p->s.size\<close>.\<close>

definition block_end :: "heap \<Rightarrow> nat \<Rightarrow> nat" where
  "block_end h p = p + HDR * h_size h p"

section \<open>The heap's end\<close>

text \<open>The conversion of a 64-bit number to an \<open>int\<close>.\<close>

definition to_int32 :: "nat \<Rightarrow> int" where
  "to_int32 n = (let m = int n mod 2 ^ 32 in if m < 2 ^ 31 then m else m - 2 ^ 32)"

text \<open>
  \<open>sbrk\<close> as \<open>growproc\<close> has it: it returns the old end, or \<open>SBRK_ERROR\<close>.  A decrease by more than there
  is wraps around, and then nothing is given back.
\<close>

definition sbrk :: "(nat \<Rightarrow> nat \<Rightarrow> bool) \<Rightarrow> int \<Rightarrow> heap \<Rightarrow> nat option \<times> heap" where
  "sbrk grant n h =
     (if n > 0 then
        if grant (brk h) (nat n) then (Some (brk h), h\<lparr>brk := brk h + nat n\<rparr>) else (None, h)
      else
        let new = nat ((int (brk h) + n) mod 2 ^ 64)
        in (Some (brk h), h\<lparr>brk := if new \<ge> brk h then brk h else new\<rparr>))"

section \<open>Giving back\<close>

partial_function (option) free_place :: "heap \<Rightarrow> nat \<Rightarrow> nat \<Rightarrow> nat option" where
  "free_place h bp p =
     (if bp > p \<and> bp < h_ptr h p then Some p
      else if p \<ge> h_ptr h p \<and> (bp > p \<or> bp < h_ptr h p) then Some p
      else free_place h bp (h_ptr h p))"

definition join_next :: "nat \<Rightarrow> nat \<Rightarrow> heap \<Rightarrow> heap" where
  "join_next p bp h =
     (if block_end h bp = h_ptr h p then
        set_ptr bp (h_ptr h (h_ptr h p)) (set_size bp (h_size h bp + h_size h (h_ptr h p)) h)
      else set_ptr bp (h_ptr h p) h)"

definition join_prev :: "nat \<Rightarrow> nat \<Rightarrow> heap \<Rightarrow> heap" where
  "join_prev p bp h =
     (if block_end h p = bp then
        set_ptr p (h_ptr h bp) (set_size p (h_size h p + h_size h bp) h)
      else set_ptr p bp h)"

definition free :: "nat \<Rightarrow> heap \<Rightarrow> heap option" where
  "free ap h =
     (let bp = ap - HDR in
      case free_place h bp (freep h) of
        None \<Rightarrow> None
      | Some p \<Rightarrow> Some ((join_prev p bp (join_next p bp h))\<lparr>freep := p\<rparr>))"

section \<open>Getting memory\<close>

definition morecore :: "(nat \<Rightarrow> nat \<Rightarrow> bool) \<Rightarrow> nat \<Rightarrow> heap \<Rightarrow> (nat \<times> heap) option" where
  "morecore grant nu h =
     (let nu1 = (if nu < 4096 then 4096 else nu);
          (p, h1) = sbrk grant (to_int32 (nu1 * HDR)) h
      in case p of
           None \<Rightarrow> Some (0, h1)
         | Some hp \<Rightarrow>
             (case free (hp + HDR) (set_size hp nu1 h1) of
                None \<Rightarrow> None
              | Some h2 \<Rightarrow> Some (freep h2, h2)))"

text \<open>The block at \<open>p\<close>, behind \<open>prevp\<close>, is large enough: all of it or its end is handed out.\<close>

definition hand_out :: "nat \<Rightarrow> nat \<Rightarrow> nat \<Rightarrow> heap \<Rightarrow> nat \<times> heap" where
  "hand_out nunits prevp p h =
     (if h_size h p = nunits then (p + HDR, (set_ptr prevp (h_ptr h p) h)\<lparr>freep := prevp\<rparr>)
      else
        let h1 = set_size p (h_size h p - nunits) h;
            p1 = block_end h1 p
        in (p1 + HDR, (set_size p1 nunits h1)\<lparr>freep := prevp\<rparr>))"

partial_function (option) malloc_loop ::
  "(nat \<Rightarrow> nat \<Rightarrow> bool) \<Rightarrow> nat \<Rightarrow> nat \<Rightarrow> nat \<Rightarrow> heap \<Rightarrow> (nat \<times> heap) option" where
  "malloc_loop grant nunits prevp p h =
     (if h_size h p \<ge> nunits then Some (hand_out nunits prevp p h)
      else if p = freep h then
        Option.bind (morecore grant nunits h) (\<lambda>(q, h1).
          if q = 0 then Some (0, h1) else malloc_loop grant nunits q (h_ptr h1 q) h1)
      else malloc_loop grant nunits p (h_ptr h p) h)"

definition malloc_units :: "nat \<Rightarrow> nat" where
  "malloc_units nbytes = ((nbytes + HDR - 1) div HDR + 1) mod 2 ^ 32"

text \<open>The first call makes the circle of one empty block, \<open>base\<close>.\<close>

definition malloc_init :: "nat \<Rightarrow> heap \<Rightarrow> heap" where
  "malloc_init base h =
     (if freep h = 0 then (set_size base 0 (set_ptr base base h))\<lparr>freep := base\<rparr> else h)"

definition malloc :: "nat \<Rightarrow> (nat \<Rightarrow> nat \<Rightarrow> bool) \<Rightarrow> nat \<Rightarrow> heap \<Rightarrow> (nat \<times> heap) option" where
  "malloc base grant nbytes h =
     (let h1 = malloc_init base h
      in malloc_loop grant (malloc_units nbytes) (freep h1) (h_ptr h1 (freep h1)) h1)"

end
