(* ===== verification/User_Malloc_Inv.thy ===== *)
theory User_Malloc_Inv
  imports User_Malloc
begin

text \<open>
  The free list is a circle of blocks by increasing addresses, with \<open>base\<close> below all others.  No two free
  blocks touch, and the blocks that the program holds fill the gaps.
  The circle is described by the list of its addresses, with \<open>base\<close> first.
\<close>

section \<open>Circles\<close>

primrec links :: "heap \<Rightarrow> nat list \<Rightarrow> nat \<Rightarrow> bool" where
  "links h [] z \<longleftrightarrow> True"
| "links h (x # xs) z \<longleftrightarrow> h_ptr h x = hd (xs @ [z]) \<and> links h xs z"

lemma links_append: "links h (xs @ ys) z \<longleftrightarrow> links h xs (hd (ys @ [z])) \<and> links h ys z"
proof (induction xs)
  case (Cons x xs)
  then show ?case by (cases xs) auto
qed simp

lemma links_cong: "(\<And>x. x \<in> set xs \<Longrightarrow> h_ptr h' x = h_ptr h x) \<Longrightarrow> links h' xs z = links h xs z"
  by (induction xs) auto

lemma set_simps [simp]:
  "h_ptr (set_ptr p q h) = (h_ptr h)(p := q)" "h_size (set_ptr p q h) = h_size h" "freep (set_ptr p q h) = freep h"
  "brk (set_ptr p q h) = brk h" "h_ptr (set_size p n h) = h_ptr h" "h_size (set_size p n h) = (h_size h)(p := n mod 2 ^ 32)"
  "freep (set_size p n h) = freep h" "brk (set_size p n h) = brk h"
  by (simp_all add: set_ptr_def set_size_def)

lemma links_set [simp]:
  "p \<notin> set xs \<Longrightarrow> links (set_ptr p q h) xs z = links h xs z" "links (set_size p n h) xs z = links h xs z"
  "links (h\<lparr>freep := f\<rparr>) xs z = links h xs z" "links (h\<lparr>brk := n\<rparr>) xs z = links h xs z"
  by (rule links_cong; auto)+

section \<open>The invariant\<close>

abbreviation span :: "heap \<Rightarrow> nat \<Rightarrow> nat set" where
  "span h b \<equiv> {b..<block_end h b}"

abbreviation gaps :: "heap \<Rightarrow> nat list \<Rightarrow> bool" where
  "gaps h xs \<equiv> sorted_wrt (\<lambda>b c. block_end h b < c) xs"

definition covers :: "nat set \<Rightarrow> heap \<Rightarrow> nat set" where
  "covers B h = (\<Union>b \<in> B. span h b)"

text \<open>A block of at least one unit, between \<open>base\<close> and the end of the heap.\<close>

definition block_ok :: "nat \<Rightarrow> heap \<Rightarrow> nat \<Rightarrow> bool" where
  "block_ok base h b \<longleftrightarrow> base + HDR \<le> b \<and> 0 < h_size h b \<and> block_end h b \<le> brk h"

definition circle :: "nat \<Rightarrow> nat list \<Rightarrow> heap \<Rightarrow> bool" where
  "circle base bs h \<longleftrightarrow> 0 < base \<and> base + HDR \<le> brk h \<and> links h (base # bs) base \<and> freep h \<in> set (base # bs) \<and> h_size h base = 0
     \<and> gaps h bs \<and> (\<forall>b \<in> set bs. block_ok base h b) \<and> brk h \<le> 2 ^ 36"

text \<open>\<open>A\<close> are the blocks that the program holds.\<close>

definition heap_ok :: "nat \<Rightarrow> nat list \<Rightarrow> nat set \<Rightarrow> heap \<Rightarrow> bool" where
  "heap_ok base bs A h \<longleftrightarrow> circle base bs h \<and> (\<forall>a \<in> A. block_ok base h a \<and> span h a \<inter> covers (set bs) h = {})
     \<and> (\<forall>a \<in> A. \<forall>b \<in> A. a \<noteq> b \<longrightarrow> span h a \<inter> span h b = {})"

lemma circleD:
  assumes "circle base bs h"
  shows "links h (base # bs) base" "freep h \<in> set (base # bs)" "h_size h base = 0" "gaps h bs"
    "\<And>b. b \<in> set bs \<Longrightarrow> block_ok base h b" "0 < base" "brk h \<le> 2 ^ 36" "base + HDR \<le> brk h"
  using assms by (simp_all add: circle_def)

lemma circle_sorted:
  assumes "circle base bs h"
  shows "sorted_wrt (<) (base # bs)"
proof -
  have "sorted_wrt (<) bs" using circleD(4) [OF assms] by (rule sorted_wrt_mono_rel [rotated]) (auto simp: block_end_def)
  then show ?thesis using circleD(5) [OF assms] by (fastforce simp: block_ok_def HDR_def)
qed

lemma circle_gaps: "circle base bs h \<Longrightarrow> gaps h (base # bs)"
  using circle_sorted [of base bs h] by (auto simp: circle_def block_end_def)

lemma circle_distinct: "circle base bs h \<Longrightarrow> distinct (base # bs)"
  using circle_sorted strict_sorted_iff by blast

lemma block_small:
  assumes "block_ok base h b" "brk h \<le> 2 ^ 36" "0 < base"
  shows "h_size h b < 2 ^ 32"
  using assms by (simp add: block_ok_def block_end_def HDR_def)

section \<open>Where a block belongs\<close>

text \<open>Among the blocks of the circle, \<open>p\<close> is the last one below \<open>bp\<close>.\<close>

lemma free_place_here:
  assumes s: "sorted_wrt (<) (base # bs)" and l: "links h (base # bs) base" and e: "base # bs = us @ p # zs"
    and below: "p < bp" and above: "\<forall>z \<in> set zs. bp < z"
  shows "free_place h bp p = Some p"
proof -
  have n: "h_ptr h p = hd (zs @ [base])" using l unfolding e by (simp add: links_append)
  have "base \<le> p" using s e by (cases us) (auto simp: sorted_wrt_append)
  then show ?thesis using below above n by (subst free_place.simps) (cases zs; auto)
qed

lemma free_place_up:
  assumes s: "sorted_wrt (<) (base # bs)" and l: "links h (base # bs) base" and e: "base # bs = us @ ws @ p # zs"
    and below: "p < bp" and above: "\<forall>z \<in> set zs. bp < z"
  shows "free_place h bp (hd (ws @ [p])) = Some p"
  using e
proof (induction ws arbitrary: us)
  case Nil
  then show ?case using free_place_here [OF s l _ below above] by simp
next
  case (Cons w ws)
  let ?n = "hd (ws @ [p])"
  have n: "h_ptr h w = ?n" using l unfolding Cons.prems by (cases ws) (simp_all add: links_append)
  have "sorted_wrt (<) (us @ (w # ws) @ p # zs)" using s unfolding Cons.prems .
  then have lt: "w < ?n" "?n \<le> p" by (cases ws; auto simp: sorted_wrt_append)+
  have "free_place h bp w = free_place h bp ?n" using lt n below by (subst free_place.simps) auto
  also have "\<dots> = Some p" using Cons.IH [of "us @ [w]"] Cons.prems by simp
  finally show ?case by simp
qed

lemma free_place_round:
  assumes s: "sorted_wrt (<) (base # bs)" and l: "links h (base # bs) base" and e: "base # bs = us @ p # zs @ ws"
    and below: "p < bp" and above: "\<forall>z \<in> set (zs @ ws). bp < z" and ws: "ws \<noteq> []"
  shows "free_place h bp (hd ws) = Some p"
  using e above ws
proof (induction ws arbitrary: zs)
  case (Cons w ws)
  have n: "h_ptr h w = hd (ws @ [base])" using l unfolding Cons.prems(1) by (simp add: links_append)
  have srt: "sorted_wrt (<) (us @ p # zs @ w # ws)" using s unfolding Cons.prems(1) .
  have b: "bp < w" using Cons.prems(2) by simp
  have base: "base < bp" using srt below Cons.prems(1) by (cases us) (auto simp: sorted_wrt_append)
  show ?case
  proof (cases ws)
    case Nil
    have "base # bs = [] @ us @ p # (zs @ [w])" using Cons.prems(1) Nil by simp
    from free_place_up [OF s l this below] Cons.prems(2) Nil have "free_place h bp (hd (us @ [p])) = Some p" by auto
    moreover have "hd (us @ [p]) = base" using Cons.prems(1) by (cases us) auto
    moreover have "free_place h bp w = free_place h bp base" using n b base Nil by (subst free_place.simps) simp
    ultimately show ?thesis by simp
  next
    case c: (Cons x rs)
    have "w < x" using srt c by (auto simp: sorted_wrt_append)
    then have "free_place h bp w = free_place h bp (hd ws)" using n b c by (subst free_place.simps) auto
    also have "\<dots> = Some p" using Cons.IH [of "zs @ [w]"] Cons.prems c by simp
    finally show ?thesis by simp
  qed
qed simp

lemma split_below:
  assumes "sorted_wrt (<) xs" "xs \<noteq> []" "hd xs < bp" "bp \<notin> set xs"
  obtains us p zs where "xs = us @ p # zs" "p < bp" "\<forall>z \<in> set zs. bp < (z :: nat)"
proof -
  let ?t = "takeWhile (\<lambda>x. x < bp) xs" and ?d = "dropWhile (\<lambda>x. x < bp) xs"
  have t: "?t \<noteq> []" using assms(2,3) by (cases xs) auto
  have "bp < z" if "z \<in> set ?d" for z
  proof -
    have "sorted_wrt (<) ?d" using assms(1) by (metis sorted_wrt_append takeWhile_dropWhile_id)
    then have "hd ?d \<le> z" using that by (cases ?d) auto
    moreover have "\<not> hd ?d < bp" using that hd_dropWhile [of "\<lambda>x. x < bp" xs] by fastforce
    moreover have "z \<noteq> bp" using that assms(4) set_dropWhileD by fastforce
    ultimately show ?thesis by simp
  qed
  moreover have "last ?t < bp" using last_in_set [OF t] set_takeWhileD by fastforce
  moreover have "xs = butlast ?t @ last ?t # ?d" using t by (metis append.assoc append_Cons append_Nil append_butlast_last_id takeWhile_dropWhile_id)
  ultimately show thesis using that by blast
qed

lemma free_place_finds:
  assumes c: "circle base bs h" and bp: "base < bp" "bp \<notin> set bs"
  obtains us p zs where "base # bs = us @ p # zs" "p < bp" "\<forall>z \<in> set zs. bp < z" "free_place h bp (freep h) = Some p"
proof -
  note s = circle_sorted [OF c] and l = circleD(1) [OF c]
  obtain us p zs where e: "base # bs = us @ p # zs" and below: "p < bp" and above: "\<forall>z \<in> set zs. bp < z"
    using split_below [OF s, of bp] bp by auto
  have "freep h \<in> set us \<or> freep h = p \<or> freep h \<in> set zs" using circleD(2) [OF c] unfolding e by auto
  then have "free_place h bp (freep h) = Some p"
  proof (elim disjE)
    assume "freep h \<in> set us"
    then obtain vs ws where "us = vs @ freep h # ws" by (meson split_list)
    then show ?thesis using free_place_up [OF s l, of vs "freep h # ws" p zs bp] e below above by simp
  next
    assume "freep h = p"
    then show ?thesis using free_place_here [OF s l e below above] by simp
  next
    assume "freep h \<in> set zs"
    then obtain vs ws where "zs = vs @ freep h # ws" by (meson split_list)
    then show ?thesis using free_place_round [OF s l, of us p vs "freep h # ws" bp] e below above by simp
  qed
  then show thesis using that e below above by blast
qed

section \<open>Giving back\<close>

lemma covers_insert: "covers (insert b B) h = span h b \<union> covers B h"
  by (simp add: covers_def)

lemma covers_Un: "covers (B \<union> C) h = covers B h \<union> covers C h"
  by (auto simp: covers_def)

lemma block_end_cong: "h_size h' b = h_size h b \<Longrightarrow> block_end h' b = block_end h b"
  by (simp add: block_end_def)

lemma covers_cong: "(\<And>b. b \<in> B \<Longrightarrow> h_size h' b = h_size h b) \<Longrightarrow> covers B h' = covers B h"
  by (auto simp: covers_def block_end_def)

lemma gaps_cong: "(\<And>b. b \<in> set xs \<Longrightarrow> h_size h' b = h_size h b) \<Longrightarrow> gaps h' xs = gaps h xs"
  by (induction xs) (auto simp: block_end_def)

lemma join_fields [simp]: "freep (join_next p bp h) = freep h" "brk (join_next p bp h) = brk h" "brk (join_prev p bp h) = brk h"
  by (simp_all add: join_next_def join_prev_def)

lemma join_next_spec:
  assumes l: "links h (p # zs) base" and g: "gaps h zs" and bp: "base < bp" "\<forall>z \<in> set zs. block_end h bp \<le> z"
    and top: "block_end h bp \<le> m" "\<forall>z \<in> set zs. block_end h z \<le> m" "m \<le> 2 ^ 36" and ne: "bp \<notin> set (p # zs)"
  obtains zs' where "set zs' \<subseteq> set zs" "links (join_next p bp h) (bp # zs') base" "gaps (join_next p bp h) (bp # zs')"
    "h_size h bp \<le> h_size (join_next p bp h) bp" "block_end (join_next p bp h) bp \<le> m"
    "\<And>x. x \<noteq> bp \<Longrightarrow> h_size (join_next p bp h) x = h_size h x \<and> h_ptr (join_next p bp h) x = h_ptr h x"
    "covers (insert bp (set zs')) (join_next p bp h) = covers (insert bp (set zs)) h"
proof (cases "block_end h bp = h_ptr h p")
  case False
  have j: "join_next p bp h = set_ptr bp (h_ptr h p) h" using False by (simp add: join_next_def)
  have lt: "\<forall>z \<in> set zs. block_end h bp < z"
  proof (cases zs)
    case (Cons y ys)
    have "block_end h bp < y" using bp(2) False l Cons by (auto simp: le_less)
    moreover have "\<forall>z \<in> set ys. y < z" using g Cons by (auto simp: block_end_def)
    ultimately show ?thesis using Cons by auto
  qed simp
  show thesis
  proof (rule that [of zs])
    show "links (join_next p bp h) (bp # zs) base" using l ne by (auto simp: j)
    show "gaps (join_next p bp h) (bp # zs)" using g lt by (simp add: j block_end_def)
  qed (use top in \<open>simp_all add: j block_end_def covers_def\<close>)
next
  case True
  have "block_end h bp \<noteq> base" using bp(1) by (simp add: block_end_def)
  then obtain y ys where zs: "zs = y # ys" using True l by (cases zs) auto
  then have y: "block_end h bp = y" "h_ptr h p = y" using True l by simp_all
  have sz: "(h_size h bp + h_size h y) mod 4294967296 = h_size h bp + h_size h y"
    using y(1) top zs bp(1) by (intro mod_less) (auto simp: block_end_def HDR_def)
  let ?j = "set_ptr bp (h_ptr h y) (set_size bp (h_size h bp + h_size h y) h)"
  have j: "join_next p bp h = ?j" using True y(2) by (simp add: join_next_def)
  have e: "block_end ?j bp = block_end h y" using y(1) by (simp add: block_end_def sz distrib_left)
  have same: "\<And>x. x \<noteq> bp \<Longrightarrow> h_size ?j x = h_size h x \<and> h_ptr ?j x = h_ptr h x" by simp
  show thesis
  proof (rule that [of ys])
    show "links (join_next p bp h) (bp # ys) base" using l ne zs by (auto simp: j)
    have "gaps ?j ys" using g ne zs by (subst gaps_cong [of ys ?j h]) auto
    then show "gaps (join_next p bp h) (bp # ys)" using g zs e by (simp add: j)
    have "span h bp \<union> span h y = {bp..<block_end h y}" using y(1) by (auto simp: block_end_def)
    moreover have "covers (set ys) ?j = covers (set ys) h" using ne zs by (intro covers_cong) auto
    ultimately show "covers (insert bp (set ys)) (join_next p bp h) = covers (insert bp (set zs)) h"
      using e by (simp add: j zs covers_insert flip: Un_assoc)
  qed (use top zs e same in \<open>auto simp: j sz\<close>)
qed

lemma join_prev_spec:
  assumes l: "links h us p" "links h (bp # zs) base" and g: "gaps h (us @ [p])" "gaps h (bp # zs)"
    and bp: "p < bp" "block_end h p \<le> bp" "block_end h bp \<le> 2 ^ 36" and ne: "bp \<notin> set us" "p \<notin> set (us @ zs)" "bp \<notin> set zs" "0 < p"
  obtains xs' where "xs' = p # zs \<and> block_end h p = bp \<or> xs' = p # bp # zs" "links (join_prev p bp h) (us @ xs') base"
    "gaps (join_prev p bp h) (us @ xs')" "\<exists>b \<in> set xs'. h_size h bp \<le> h_size (join_prev p bp h) b \<and> (b = bp \<or> b = p \<and> block_end h p = bp)"
    "\<And>x. x \<noteq> p \<Longrightarrow> h_size (join_prev p bp h) x = h_size h x" "block_end h p \<noteq> bp \<Longrightarrow> h_size (join_prev p bp h) p = h_size h p"
    "block_end h p = bp \<Longrightarrow> block_end (join_prev p bp h) p = block_end h bp"
    "covers (set xs') (join_prev p bp h) = covers (insert p (insert bp (set zs))) h"
proof (cases "block_end h p = bp")
  case False
  have j: "join_prev p bp h = set_ptr p bp h" using False by (simp add: join_prev_def)
  have lt: "block_end h p < bp" using False bp(2) by simp
  show thesis
  proof (rule that [of "p # bp # zs"])
    have "links (set_ptr p bp h) us p" "links (set_ptr p bp h) (bp # zs) base"
      using l ne bp(1) by auto
    then show "links (join_prev p bp h) (us @ p # bp # zs) base" by (simp add: j links_append)
    show "gaps (join_prev p bp h) (us @ p # bp # zs)" using g lt bp(1) by (fastforce simp: j sorted_wrt_append block_end_def)
  qed (use False in \<open>auto simp: j covers_def block_end_def\<close>)
next
  case True
  let ?j = "set_ptr p (h_ptr h bp) (set_size p (h_size h p + h_size h bp) h)"
  have j: "join_prev p bp h = ?j" using True by (simp add: join_prev_def)
  have sz: "(h_size h p + h_size h bp) mod 4294967296 = h_size h p + h_size h bp"
    using True bp(3) ne(4) by (intro mod_less) (auto simp: block_end_def HDR_def)
  have e: "block_end ?j p = block_end h bp" using True by (simp add: block_end_def sz distrib_left)
  show thesis
  proof (rule that [of "p # zs"])
    have "links ?j us p" "links ?j zs base" using l ne by auto
    then show "links (join_prev p bp h) (us @ p # zs) base" using l(2) bp(1) by (simp add: j links_append)
    have "gaps ?j us" using g ne by (subst gaps_cong [of us ?j h]) (auto simp: sorted_wrt_append)
    moreover have "gaps ?j zs" using g ne by (subst gaps_cong [of zs ?j h]) auto
    moreover have "block_end ?j u < z" if "u \<in> set us" "z \<in> set (p # zs)" for u z
    proof -
      have "block_end h u < p" using g(1) that(1) by (simp add: sorted_wrt_append)
      moreover have "p \<le> z" using that(2) g(2) bp(1) by (fastforce simp: block_end_def)
      moreover have "block_end ?j u = block_end h u" using that(1) ne by (intro block_end_cong) auto
      ultimately show ?thesis by simp
    qed
    ultimately show "gaps (join_prev p bp h) (us @ p # zs)" using g(2) e by (auto simp: j sorted_wrt_append)
    have "span h p \<union> span h bp = {p..<block_end h bp}" using True bp(1) by (auto simp: block_end_def)
    moreover have "covers (set zs) ?j = covers (set zs) h" using ne by (intro covers_cong) auto
    ultimately show "covers (set (p # zs)) (join_prev p bp h) = covers (insert p (insert bp (set zs))) h"
      using e by (simp add: j covers_insert flip: Un_assoc)
  qed (use True e in \<open>auto simp: j sz\<close>)
qed

text \<open>Both joins, between \<open>p\<close> and \<open>zs\<close>: \<open>ys\<close> is what follows \<open>p\<close> afterwards.\<close>

definition joined :: "nat \<Rightarrow> nat \<Rightarrow> nat list \<Rightarrow> nat \<Rightarrow> nat \<Rightarrow> nat list \<Rightarrow> heap \<Rightarrow> nat list \<Rightarrow> heap \<Rightarrow> bool" where
  "joined base m us p bp zs h ys h' \<longleftrightarrow> links h' (us @ p # ys) base \<and> gaps h' (us @ p # ys) \<and> set ys \<subseteq> insert bp (set zs)
     \<and> (\<forall>x. x \<noteq> p \<longrightarrow> x \<noteq> bp \<longrightarrow> h_size h' x = h_size h x) \<and> h_size h p \<le> h_size h' p \<and> h_size h bp \<le> h_size h' bp
     \<and> (h_size h p = 0 \<longrightarrow> h_size h' p = 0) \<and> (\<exists>b \<in> insert p (set ys). h_size h bp \<le> h_size h' b)
     \<and> (\<forall>x \<in> {p, bp}. block_end h' x \<le> m)
     \<and> covers (set (us @ p # ys)) h' = covers (insert bp (set (us @ p # zs))) h"

lemma join_both:
  assumes l: "links h (us @ p # zs) base" and g: "gaps h (us @ p # zs)" and d: "distinct (us @ p # zs)" "bp \<notin> set (us @ p # zs)"
    and bp: "base < bp" "p < bp" "block_end h p \<le> bp" "\<forall>z \<in> set zs. block_end h bp \<le> z" "0 < p"
    and top: "\<forall>x \<in> insert p (insert bp (set zs)). block_end h x \<le> m" "m \<le> 2 ^ 36"
  shows "\<exists>ys. joined base m us p bp zs h ys (join_prev p bp (join_next p bp h))"
proof -
  let ?h1 = "join_next p bp h" and ?h2 = "join_prev p bp (join_next p bp h)"
  have m: "block_end h bp \<le> m" "\<forall>z \<in> set zs. block_end h z \<le> m" "block_end h p \<le> m" using top(1) by simp_all
  have lz: "links h us p" "links h (p # zs) base" and gz: "gaps h zs" "gaps h (us @ [p])"
    using l g by (auto simp: links_append sorted_wrt_append)
  have nz: "bp \<notin> set (p # zs)" "bp \<notin> set us" "bp \<noteq> p" using d(2) by auto
  obtain zs' where J: "set zs' \<subseteq> set zs" "links ?h1 (bp # zs') base" "gaps ?h1 (bp # zs')" "h_size h bp \<le> h_size ?h1 bp" "block_end ?h1 bp \<le> m"
      "\<And>x. x \<noteq> bp \<Longrightarrow> h_size ?h1 x = h_size h x \<and> h_ptr ?h1 x = h_ptr h x" "covers (insert bp (set zs')) ?h1 = covers (insert bp (set zs)) h"
    using join_next_spec [OF lz(2) gz(1) bp(1,4) m(1,2) top(2) nz(1)] by blast
  have ep: "block_end ?h1 p = block_end h p" using J(6) nz(3) by (intro block_end_cong) auto
  have up: "h_size ?h1 x = h_size h x \<and> h_ptr ?h1 x = h_ptr h x" if "x \<in> set (us @ [p])" for x using J(6) [of x] nz that by auto
  have us: "links ?h1 us p" using lz(1) up by (subst links_cong [of us ?h1 h p]) auto
  have gu: "gaps ?h1 (us @ [p])" using gz(2) up by (subst gaps_cong [of "us @ [p]" ?h1 h]) auto
  have le: "block_end ?h1 p \<le> bp" "block_end ?h1 bp \<le> 2 ^ 36" using ep bp(3) J(5) top(2) by simp_all
  have np: "p \<notin> set (us @ zs')" "bp \<notin> set zs'" using d J(1) by auto
  obtain xs where X: "xs = p # zs' \<and> block_end ?h1 p = bp \<or> xs = p # bp # zs'" "links ?h2 (us @ xs) base" "gaps ?h2 (us @ xs)"
      "\<exists>b \<in> set xs. h_size ?h1 bp \<le> h_size ?h2 b \<and> (b = bp \<or> b = p \<and> block_end ?h1 p = bp)"
      "\<And>x. x \<noteq> p \<Longrightarrow> h_size ?h2 x = h_size ?h1 x" "block_end ?h1 p \<noteq> bp \<Longrightarrow> h_size ?h2 p = h_size ?h1 p"
      "block_end ?h1 p = bp \<Longrightarrow> block_end ?h2 p = block_end ?h1 bp" "covers (set xs) ?h2 = covers (insert p (insert bp (set zs'))) ?h1"
    using join_prev_spec [OF us J(2) gu J(3) bp(2) le nz(2) np bp(5)] by blast
  obtain ys where ys: "xs = p # ys" "set ys \<subseteq> insert bp (set zs)" using X(1) subset_insertI2 [OF J(1)] by auto
  have p: "h_size h p \<le> h_size ?h2 p \<and> (h_size h p = 0 \<longrightarrow> h_size ?h2 p = 0) \<and> block_end ?h2 p \<le> m"
  proof (cases "block_end h p = bp")
    case True
    then have "block_end ?h2 p = block_end ?h1 bp" using X(7) ep by simp
    then show ?thesis using True bp(2) J(5) by (auto simp: block_end_def HDR_def)
  next
    case False
    then show ?thesis using X(6) ep J(6) nz(3) m(3) by (simp add: block_end_def)
  qed
  have "h_size ?h2 u = h_size h u" if "u \<in> set us" for u using X(5) [of u] up [of u] np that by auto
  then have "covers (set us) ?h2 = covers (set us) h" by (rule covers_cong)
  moreover have "covers (insert p (insert bp (set zs'))) ?h1 = span h p \<union> covers (insert bp (set zs)) h"
    using ep J(7) by (simp add: covers_insert)
  ultimately have "covers (set (us @ xs)) ?h2 = covers (insert bp (set (us @ p # zs))) h"
    using X(8) by (simp add: covers_Un covers_insert) blast
  moreover have "h_size ?h2 x = h_size h x" if "x \<noteq> p" "x \<noteq> bp" for x using X(5) J(6) that by simp
  moreover have bq: "h_size h bp \<le> h_size ?h2 bp" "block_end ?h2 bp \<le> m"
    using X(5) [of bp] nz(3) J(4,5) by (simp_all add: block_end_def)
  moreover have "\<exists>b \<in> insert p (set ys). h_size h bp \<le> h_size ?h2 b" using X(4) J(4) ys(1) by (auto intro: order_trans)
  ultimately show ?thesis using X(2,3) ys p unfolding joined_def by (intro exI [of _ ys]) simp
qed

lemma held_outside:
  assumes ok: "heap_ok base bs A h" and a: "a \<in> A"
  shows "base < a" "a \<in> span h a" "a \<notin> set (base # bs)" "\<And>b. b \<in> set bs \<Longrightarrow> b < a \<Longrightarrow> block_end h b \<le> a"
    "\<And>b. b \<in> set bs \<Longrightarrow> a < b \<Longrightarrow> block_end h a \<le> b"
proof -
  have o: "block_ok base h a" "span h a \<inter> covers (set bs) h = {}" using ok a by (simp_all add: heap_ok_def)
  show b: "base < a" and s: "a \<in> span h a" using o(1) by (simp_all add: block_ok_def block_end_def HDR_def)
  have out: "b \<notin> span h a \<and> a \<notin> span h b" if "b \<in> set bs" for b
  proof -
    have "b \<in> span h b" using ok that by (simp add: heap_ok_def circle_def block_ok_def block_end_def HDR_def)
    then show ?thesis using o(2) s that unfolding covers_def by blast
  qed
  then show "a \<notin> set (base # bs)" using b s by auto
  show "block_end h b \<le> a" if "b \<in> set bs" "b < a" for b using out [OF that(1)] that(2) by auto
  show "block_end h a \<le> b" if "b \<in> set bs" "a < b" for b using out [OF that(1)] that(2) by auto
qed

lemma heap_ok_returned:
  assumes ok: "heap_ok base bs (insert bp A) h" and A: "bp \<notin> A" and c': "circle base bs' h'"
    and cov: "covers (set bs') h' = covers (insert bp (set bs)) h" and same: "\<And>a. a \<in> A \<Longrightarrow> h_size h' a = h_size h a" "brk h' = brk h"
  shows "heap_ok base bs' A h'"
  unfolding heap_ok_def cov
proof (intro conjI ballI impI c')
  have sp: "span h' a = span h a" if "a \<in> A" for a using same(1) [OF that] by (simp add: block_end_def)
  {
    fix a assume a: "a \<in> A"
    then have "block_ok base h a" "span h a \<inter> covers (set bs) h = {}" "span h a \<inter> span h bp = {}" using ok A by (auto simp: heap_ok_def)
    then show "block_ok base h' a" "span h' a \<inter> covers (insert bp (set bs)) h = {}"
      unfolding sp [OF a] using same a by (auto simp: block_ok_def block_end_def covers_insert)
  }
  fix a b assume "a \<in> A" "b \<in> A" "a \<noteq> b"
  then show "span h' a \<inter> span h' b = {}" using ok sp by (simp add: heap_ok_def)
qed

text \<open>
  Giving back a held block: the same bytes are accounted for, and one of the free blocks is at least
  as large.
\<close>

lemma free_spec:
  assumes ok: "heap_ok base bs (insert bp A) h" and A: "bp \<notin> A"
  obtains h' bs' where "free (bp + HDR) h = Some h'" "heap_ok base bs' A h'" "brk h' = brk h" "\<forall>a \<in> A. h_size h' a = h_size h a"
    "covers (set bs') h' = covers (insert bp (set bs)) h" "\<exists>b \<in> set bs'. h_size h bp \<le> h_size h' b"
proof -
  have c: "circle base bs h" and bpo: "block_ok base h bp" using ok by (simp_all add: heap_ok_def)
  note D = circleD [OF c] and O = held_outside [OF ok insertI1]
  obtain us p zs where e: "base # bs = us @ p # zs" "p < bp" "\<forall>z \<in> set zs. bp < z" and fp: "free_place h bp (freep h) = Some p"
    using free_place_finds [OF c O(1)] O(3) by auto
  have dist: "distinct (us @ p # zs)" "bp \<notin> set (us @ p # zs)" using circle_distinct [OF c] O(3) unfolding e(1) by auto
  have g: "gaps h (us @ p # zs)" using circle_gaps [OF c] unfolding e(1) .
  have pz: "p = base \<or> p \<in> set bs" "set zs \<subseteq> set bs" "p = base \<longleftrightarrow> us = []" using e(1) circle_distinct [OF c] by (cases us; auto)+
  have bz: "block_end h p \<le> bp" "\<forall>z \<in> set zs. block_end h bp \<le> z"
    using pz O(1,4,5) e(2,3) D(3,5) by (auto simp: block_end_def block_ok_def)
  have "0 < p" using pz(1) D(5) [of p] D(6) by (auto simp: block_ok_def)
  note bz = bz this
  have "block_end h p \<le> brk h" using bz(1) bpo by (auto simp: block_ok_def block_end_def)
  then have top: "\<forall>x \<in> insert p (insert bp (set zs)). block_end h x \<le> brk h" using bpo D(5) pz(2) by (auto simp: block_ok_def)
  let ?h' = "join_prev p bp (join_next p bp h)"
  obtain ys where X: "joined base (brk h) us p bp zs h ys ?h'"
    using join_both [OF D(1) [unfolded e(1)] g dist O(1) e(2) bz top D(7)] by blast
  note X = X [unfolded joined_def]
  obtain bs' where b': "us @ p # ys = base # bs'" using e(1) by (cases us) auto
  have sub: "set bs' \<subseteq> insert bp (set bs)" using b' e(1) X by (cases us) auto
  have s0: "h_size ?h' base = 0" using X pz(1) O(1) D(3) by (cases "p = base") auto
  have blocks: "block_ok base ?h' b" if b: "b \<in> set bs'" for b
  proof -
    have "block_ok base h b" using sub b D(5) bpo by auto
    then show ?thesis using X by (cases "b = p \<or> b = bp") (auto simp: block_ok_def block_end_def)
  qed
  have "p \<in> set (base # bs')" unfolding b' [symmetric] by simp
  then have c': "circle base bs' (?h'\<lparr>freep := p\<rparr>)"
    unfolding circle_def using X s0 blocks D(6-8) unfolding b' by (auto simp: block_ok_def block_end_def)
  have cov: "covers (set bs') ?h' = covers (insert bp (set bs)) h"
  proof -
    have "covers (set bs') ?h' = covers (set (base # bs')) ?h'" using s0 by (simp add: covers_insert block_end_def)
    also have "\<dots> = covers (insert bp (set (base # bs))) h" using X unfolding b' e(1) by simp
    also have "\<dots> = covers (insert bp (set bs)) h" using D(3) by (simp add: covers_insert block_end_def)
    finally show ?thesis .
  qed
  have A': "h_size ?h' a = h_size h a" if "a \<in> A" for a
    using X that A held_outside(3) [OF ok, of a] pz(1) by auto
  have cov': "covers (set bs') (?h'\<lparr>freep := p\<rparr>) = covers (insert bp (set bs)) h" using cov by (simp add: covers_def block_end_def)
  have "heap_ok base bs' A (?h'\<lparr>freep := p\<rparr>)" by (rule heap_ok_returned [OF ok A c' cov']) (simp_all add: A')
  moreover obtain b where "b \<in> insert p (set ys)" "h_size h bp \<le> h_size ?h' b" using X by auto
  moreover have "b \<in> set bs'" using calculation(2,3) s0 bpo b' by (cases us) (auto simp: block_ok_def)
  ultimately show thesis using that [of "?h'\<lparr>freep := p\<rparr>" bs'] fp A' cov' by (auto simp: free_def)
qed

section \<open>Handing out\<close>

text \<open>
  A block \<open>a\<close> of \<open>n\<close> units has been taken out of the free list \<open>bs\<close> and joins the held ones.
\<close>

definition handed :: "nat \<Rightarrow> nat list \<Rightarrow> nat set \<Rightarrow> nat \<Rightarrow> heap \<Rightarrow> nat \<Rightarrow> heap \<Rightarrow> bool" where
  "handed base bs A n h a h' \<longleftrightarrow> a \<notin> A \<and> h_size h' a = n \<and> brk h' = brk h \<and> (\<forall>x \<in> A. h_size h' x = h_size h x)
     \<and> (\<exists>bs'. heap_ok base bs' (insert a A) h' \<and> covers (insert a (set bs')) h' = covers (set bs) h)"

lemma handedI:
  assumes ok: "heap_ok base bs A h" and c: "circle base bs' h'" and a: "block_ok base h' a" "span h' a \<inter> covers (set bs') h' = {}"
    and cov: "covers (insert a (set bs')) h' = covers (set bs) h" and same: "\<And>x. x \<in> A \<Longrightarrow> h_size h' x = h_size h x" "brk h' = brk h"
  shows "handed base bs A (h_size h' a) h a h'"
proof -
  have in_a: "a \<in> covers (set bs) h" using a(1) unfolding cov [symmetric] by (simp add: covers_insert block_ok_def block_end_def HDR_def)
  have sp: "span h' x = span h x" if "x \<in> A" for x using same(1) [OF that] by (simp add: block_end_def)
  have A: "block_ok base h x" "span h x \<inter> covers (set bs) h = {}" "x \<in> span h x" if "x \<in> A" for x
    using ok that held_outside(2) [OF ok that] by (simp_all add: heap_ok_def)
  have out: "span h' a \<subseteq> covers (set bs) h" "covers (set bs') h' \<subseteq> covers (set bs) h" using cov by (auto simp: covers_insert)
  have na: "a \<notin> A" using A(2,3) in_a by blast
  have "heap_ok base bs' (insert a A) h'"
    unfolding heap_ok_def
  proof (intro conjI ballI impI c)
    fix x assume "x \<in> insert a A"
    then have "x = a \<or> x \<in> A" by blast
    then show "block_ok base h' x" "span h' x \<inter> covers (set bs') h' = {}"
      using a A(1,2) out sp same by (auto simp: block_ok_def) (force simp: block_end_def)+
  next
    fix x y assume "x \<in> insert a A" "y \<in> insert a A" "x \<noteq> y"
    then show "span h' x \<inter> span h' y = {}" using A(2) out sp ok unfolding heap_ok_def by (metis disjoint_iff insert_iff subsetD)
  qed
  then show ?thesis using na same cov by (auto simp: handed_def)
qed

lemma gaps_apart:
  assumes c: "circle base bs h" and b: "b \<in> set bs" "d \<in> set bs" "b \<noteq> d"
  shows "block_end h b < d \<or> block_end h d < b"
proof -
  obtain us zs where e: "bs = us @ b # zs" using b(1) by (meson split_list)
  then have "d \<in> set us \<or> d \<in> set zs" using b by auto
  then show ?thesis using circleD(4) [OF c] unfolding e by (auto simp: sorted_wrt_append)
qed

text \<open>The block behind \<open>q\<close>, which is not \<open>base\<close>.\<close>

lemma behind:
  assumes c: "circle base bs h" and q: "q \<in> set (base # bs)" "h_ptr h q = p" "0 < h_size h p"
  obtains us zs where "base # bs = us @ q # p # zs" "p \<in> set bs"
proof -
  obtain us rs where e: "base # bs = us @ q # rs" using q(1) by (meson split_list)
  then have "hd (rs @ [base]) = p" using circleD(1) [OF c] q(2) by (auto simp: links_append)
  moreover have "p \<noteq> base" using circleD(3) [OF c] q(3) by auto
  ultimately obtain zs where "rs = p # zs" by (cases rs) auto
  moreover have "p \<in> set bs" using e calculation \<open>p \<noteq> base\<close> by (cases us) auto
  ultimately show thesis using that e by blast
qed

lemma hand_out_whole:
  assumes ok: "heap_ok base bs A h" and q: "q \<in> set (base # bs)" "h_ptr h q = p" "0 < h_size h p"
  shows "handed base bs A (h_size h p) h p ((set_ptr q (h_ptr h p) h)\<lparr>freep := q\<rparr>)"
proof -
  let ?h = "(set_ptr q (h_ptr h p) h)\<lparr>freep := q\<rparr>"
  have c: "circle base bs h" using ok by (simp add: heap_ok_def)
  note D = circleD [OF c]
  obtain us zs where e: "base # bs = us @ q # p # zs" "p \<in> set bs" using behind [OF c q] .
  have d: "distinct (us @ q # p # zs)" using circle_distinct [OF c] unfolding e(1) .
  obtain bs' where b': "us @ q # zs = base # bs'" using e(1) by (cases us) auto
  have sub: "set bs' \<subseteq> set bs" "set bs = insert p (set bs')" "p \<notin> set bs'" using b' e d by (cases us; auto)+
  have "links h (us @ q # p # zs) base" using D(1) unfolding e(1) .
  then have "links ?h (us @ q # zs) base" using d by (simp add: links_append)
  moreover have g: "gaps h (us @ q # p # zs)" using circle_gaps [OF c] unfolding e(1) .
  then have "gaps h (us @ q # zs)" by (simp add: sorted_wrt_append)
  then have "gaps h (base # bs')" unfolding b' .
  moreover have "q \<in> set (base # bs')" unfolding b' [symmetric] by simp
  ultimately have c': "circle base bs' ?h" using D(3,5-8) sub(1) unfolding b' by (auto simp: circle_def block_ok_def block_end_def)
  have "span ?h p \<inter> covers (set bs') ?h = {}"
    using gaps_apart [OF c e(2)] sub by (fastforce simp: covers_def block_end_def)
  moreover have "covers (insert p (set bs')) ?h = covers (set bs) h" using sub(2) by (simp add: covers_def block_end_def)
  ultimately have "handed base bs A (h_size ?h p) h p ?h" using D(5) e(2) by (intro handedI [OF ok c']) (auto simp: block_ok_def block_end_def)
  then show ?thesis by simp
qed

lemma hand_out_end:
  assumes ok: "heap_ok base bs A h" and q: "q \<in> set (base # bs)" "p \<in> set bs" and n: "0 < n" "n < h_size h p"
  defines "h1 \<equiv> set_size p (h_size h p - n) h"
  shows "handed base bs A n h (block_end h1 p) ((set_size (block_end h1 p) n h1)\<lparr>freep := q\<rparr>)"
proof -
  let ?a = "block_end h1 p"
  let ?h = "(set_size ?a n h1)\<lparr>freep := q\<rparr>"
  have c: "circle base bs h" using ok by (simp add: heap_ok_def)
  note D = circleD [OF c]
  have p: "block_ok base h p" "h_size h p < 2 ^ 32" using D(5) q(2) block_small D(6,7) by auto
  have a: "?a = p + HDR * (h_size h p - n)" using p(2) by (simp add: h1_def block_end_def)
  have pa: "p < ?a" "?a < block_end h p" using a n by (auto simp: block_end_def HDR_def)
  have nb: "?a \<notin> set bs" using gaps_apart [OF c q(2), of ?a] pa by (auto simp: block_end_def)
  have sz: "h_size ?h x = (if x = ?a then n else if x = p then h_size h p - n else h_size h x)" for x
    using p(2) n by (simp add: h1_def)
  have "block_end ?h ?a = ?a + HDR * n" "block_end ?h p = p + HDR * (h_size h p - n)" unfolding block_end_def [of ?h] sz using pa by simp_all
  moreover have "?a + HDR * n = block_end h p" unfolding a using n by (simp add: block_end_def HDR_def)
  ultimately have e: "block_end ?h p = ?a" "block_end ?h ?a = block_end h p" using a by simp_all
  have e': "block_end ?h x = block_end h x" if "x \<in> set bs" "x \<noteq> p" for x
  proof -
    have "x \<noteq> ?a" using nb that(1) by blast
    then show ?thesis using that(2) by (intro block_end_cong) (simp only: sz if_False)
  qed
  have le: "block_end ?h b \<le> block_end h b" if "b \<in> set bs" for b using that nb e e' [of b] pa by (cases "b = p") auto
  have "gaps ?h bs" by (rule sorted_wrt_mono_rel [OF _ D(4)]) (rule le_less_trans [OF le])
  moreover have "links ?h (base # bs) base" using D(1) by (simp add: h1_def del: links.simps)
  moreover have "h_size ?h base = 0" using sz [of base] D(3) p pa by (auto simp: block_ok_def)
  moreover have "block_ok base ?h b" if "b \<in> set bs" for b
    using D(5) [OF that] le [OF that] sz [of b] n nb that by (auto simp: block_ok_def h1_def)
  ultimately have c': "circle base bs ?h" using q D(6-8) by (auto simp: circle_def h1_def)
  define R where "R = set bs - {p}"
  have R: "set bs = insert p R" "p \<notin> R" "?a \<notin> R" using q(2) nb by (auto simp: R_def)
  have cR: "covers R ?h = covers R h"
    unfolding covers_def by (rule SUP_cong) (use e' in \<open>auto simp: R_def\<close>)
  have "{p..<?a} \<union> {?a..<block_end h p} = span h p" using pa by auto
  then have cov: "covers (insert ?a (set bs)) ?h = covers (set bs) h" unfolding R(1) covers_insert cR e by blast
  have "span h p \<inter> covers R h = {}" using gaps_apart [OF c q(2)] by (fastforce simp: covers_def R_def)
  moreover have "{?a..<block_end h p} \<subseteq> span h p" "{?a..<block_end h p} \<inter> {p..<?a} = {}" using pa by auto
  ultimately have "span ?h ?a \<inter> covers (set bs) ?h = {}" unfolding R(1) covers_insert cR e by blast
  moreover have "block_ok base ?h ?a" unfolding block_ok_def e using p(1) pa sz [of ?a] n by (simp add: block_ok_def h1_def)
  moreover have "h_size ?h x = h_size h x" if "x \<in> A" for x
  proof -
    have "x \<notin> span h p" "x \<noteq> p" using held_outside [OF ok that] ok that q(2) unfolding heap_ok_def covers_def by blast+
    then show ?thesis using sz [of x] pa by auto
  qed
  ultimately have "handed base bs A (h_size ?h ?a) h ?a ?h" using cov by (intro handedI [OF ok c']) (simp_all add: h1_def)
  then show ?thesis using sz [of ?a] by simp
qed

lemma hand_out_spec:
  assumes ok: "heap_ok base bs A h" and q: "q \<in> set (base # bs)" and n: "0 < n" "n \<le> h_size h (h_ptr h q)"
  shows "\<exists>a h'. hand_out n q (h_ptr h q) h = (a + HDR, h') \<and> handed base bs A n h a h'"
proof (cases "h_size h (h_ptr h q) = n")
  case True
  then show ?thesis using hand_out_whole [OF ok q refl] n by (auto simp: hand_out_def)
next
  case False
  have c: "circle base bs h" using ok by (simp add: heap_ok_def)
  have s: "0 < h_size h (h_ptr h q)" using n by simp
  have "h_ptr h q \<in> set bs" using behind [OF c q refl s] by blast
  from hand_out_end [OF ok q this n(1)] False n show ?thesis by (auto simp: hand_out_def Let_def)
qed

end
