(* ===== verification/User_Malloc_Safe.thy ===== *)
theory User_Malloc_Safe
  imports User_Malloc_Inv
begin

text \<open>
  The search of \<open>malloc\<close>, the growth of the heap, and programs that allocate, write and free
  in any order.
\<close>

section \<open>The search\<close>

text \<open>\<open>q\<close> and \<open>vs\<close> lead to \<open>freep\<close>, where a round ends.\<close>

lemma search_fits:
  assumes "links h (q # vs) (freep h)" "freep h \<notin> set vs" "\<exists>w \<in> insert (freep h) (set vs). n \<le> h_size h w"
  shows "\<exists>q' \<in> insert q (set vs). n \<le> h_size h (h_ptr h q')
    \<and> malloc_loop g n q (hd (vs @ [freep h])) h = Some (hand_out n q' (h_ptr h q') h)"
  using assms
proof (induction vs arbitrary: q)
  case Nil
  then show ?case by (subst malloc_loop.simps) simp
next
  case (Cons v vs)
  show ?case
  proof (cases "n \<le> h_size h v")
    case True
    then show ?thesis using Cons.prems(1) by (subst malloc_loop.simps) auto
  next
    case False
    then have "\<exists>w \<in> insert (freep h) (set vs). n \<le> h_size h w" using Cons.prems(3) by auto
    from Cons.IH [OF _ _ this, of v] Cons.prems(1,2) False show ?thesis by (subst malloc_loop.simps) auto
  qed
qed

lemma search_fails:
  assumes "links h (q # vs) (freep h)" "freep h \<notin> set vs" "\<forall>w \<in> insert (freep h) (set vs). h_size h w < n"
  shows "malloc_loop g n q (hd (vs @ [freep h])) h =
    Option.bind (morecore g n h) (\<lambda>(q, h1). if q = 0 then Some (0, h1) else malloc_loop g n q (h_ptr h1 q) h1)"
  using assms
proof (induction vs arbitrary: q)
  case Nil
  then show ?case by (subst malloc_loop.simps) (simp add: not_le)
next
  case (Cons v vs)
  then show ?case by (subst malloc_loop.simps) (auto simp: not_le)
qed

text \<open>A round from \<open>freep\<close> to itself visits the whole circle.\<close>

lemma circle_round:
  assumes "circle base bs h"
  obtains vs where "links h (freep h # vs) (freep h)" "freep h \<notin> set vs" "set (base # bs) = insert (freep h) (set vs)"
    "h_ptr h (freep h) = hd (vs @ [freep h])"
proof -
  obtain us zs where e: "base # bs = us @ freep h # zs" using circleD(2) [OF assms] by (meson split_list)
  have b: "hd (us @ [freep h]) = base" using e by (cases us) auto
  have l: "links h us (freep h)" "links h (freep h # zs) base" using circleD(1) [OF assms] unfolding e by (auto simp: links_append)
  then have l': "links h (freep h # zs @ us) (freep h)"
    using links_append [of h "freep h # zs" us "freep h"] b by simp
  show thesis
  proof (rule that [OF l'])
    show "freep h \<notin> set (zs @ us)" using circle_distinct [OF assms] unfolding e by auto
    show "set (base # bs) = insert (freep h) (set (zs @ us))" unfolding e by auto
    show "h_ptr h (freep h) = hd ((zs @ us) @ [freep h])" using l' by simp
  qed
qed

section \<open>Growing the heap\<close>

lemma to_int32_small: "n < 2 ^ 31 \<Longrightarrow> to_int32 n = int n"
  by (simp add: to_int32_def)

definition bounded :: "(nat \<Rightarrow> nat \<Rightarrow> bool) \<Rightarrow> bool" where
  "bounded grant \<longleftrightarrow> (\<forall>b n. grant b n \<longrightarrow> b + n \<le> 2 ^ 36)"

lemma heap_grows:
  assumes ok: "heap_ok base bs A h" and nu: "0 < nu" "nu < 2 ^ 32" and b: "brk h + HDR * nu \<le> 2 ^ 36"
  defines "h' \<equiv> set_size (brk h) nu (h\<lparr>brk := brk h + HDR * nu\<rparr>)"
  shows "heap_ok base bs (insert (brk h) A) h'" "brk h \<notin> A" "brk h \<notin> set bs" "h_size h' (brk h) = nu"
    "\<And>x. x \<in> A \<union> set bs \<Longrightarrow> h_size h' x = h_size h x"
proof -
  have c: "circle base bs h" using ok by (simp add: heap_ok_def)
  note D = circleD [OF c]
  have blk: "block_ok base h x" if "x \<in> A \<union> set bs" for x using that ok D(5) by (auto simp: heap_ok_def)
  then have lt: "x < brk h" if "x \<in> A \<union> set bs" for x using that by (fastforce simp: block_ok_def block_end_def HDR_def)
  then show n: "brk h \<notin> A" "brk h \<notin> set bs" by blast+
  have sz: "h_size h' x = (if x = brk h then nu else h_size h x)" for x using nu(2) by (simp add: h'_def)
  then show "h_size h' (brk h) = nu" by simp
  show same: "h_size h' x = h_size h x" if "x \<in> A \<union> set bs" for x using sz lt [OF that] by simp
  have e: "block_end h' x = block_end h x" if "x \<in> A \<union> set bs" for x using same [OF that] by (rule block_end_cong)
  have ok': "block_ok base h' x" if "x \<in> A \<union> set bs" for x
    using blk [OF that] e [OF that] same [OF that] by (simp add: block_ok_def h'_def)
  have "h_size h' base = 0" using sz [of base] D(3,8) by (simp add: HDR_def)
  moreover have "gaps h' bs" using D(4) same by (subst gaps_cong [of bs h' h]) auto
  moreover have "links h' (base # bs) base" using D(1) by (simp add: h'_def del: links.simps)
  ultimately have c': "circle base bs h'" using D(2,6-8) ok' b by (auto simp: circle_def h'_def)
  have cov: "covers (set bs) h' = covers (set bs) h" using same by (intro covers_cong) auto
  have below: "y < brk h" if "x \<in> A \<union> set bs" "y \<in> span h x" for x y using blk [OF that(1)] that(2) by (auto simp: block_ok_def)
  have new: "block_ok base h' (brk h)" "span h' (brk h) \<inter> covers (set bs) h' = {}"
    unfolding cov using nu D(8) sz [of "brk h"] below by (force simp: block_ok_def block_end_def h'_def covers_def)+
  have old: "span h' x = span h x" "span h x \<inter> span h' (brk h) = {}" if "x \<in> A" for x
    using e [of x] below [of x] that by fastforce+
  show "heap_ok base bs (insert (brk h) A) h'"
    unfolding heap_ok_def cov
  proof (intro conjI ballI impI c')
    fix x assume "x \<in> insert (brk h) A"
    then show "block_ok base h' x" "span h' x \<inter> covers (set bs) h = {}"
      using new ok' old(1) ok unfolding cov heap_ok_def by (metis UnI1 insert_iff)+
  next
    fix x y assume "x \<in> insert (brk h) A" "y \<in> insert (brk h) A" "x \<noteq> y"
    then show "span h' x \<inter> span h' y = {}" using old ok unfolding heap_ok_def by (metis Int_commute insert_iff)
  qed
qed

text \<open>
  After a search without success the kernel refuses or the heap has grown, and then some
  block is large enough.
\<close>

lemma morecore_spec:
  assumes ok: "heap_ok base bs A h" and nu: "0 < nu" "HDR * nu < 2 ^ 31" and g: "bounded grant"
  obtains (refused) "morecore grant nu h = Some (0, h)" "\<not> grant (brk h) (HDR * max 4096 nu)"
  | (grown) h' bs' where "morecore grant nu h = Some (freep h', h')" "freep h' \<noteq> 0" "heap_ok base bs' A h'" "brk h \<le> brk h'"
      "\<forall>a \<in> A. h_size h' a = h_size h a" "covers (set bs') h' = covers (set bs) h \<union> {brk h..<brk h'}" "\<exists>b \<in> set bs'. nu \<le> h_size h' b"
proof -
  define m where "m = (if nu < 4096 then 4096 else nu)"
  have m: "0 < m" "m < 2 ^ 32" "nu \<le> m" "m * HDR < 2 ^ 31" using nu by (auto simp: m_def HDR_def)
  have i: "to_int32 (m * HDR) = int (m * HDR)" "nat (int (m * HDR)) = HDR * m" using to_int32_small [OF m(4)] by (simp_all only: nat_int mult.commute)
  show thesis
  proof (cases "grant (brk h) (HDR * m)")
    case False
    moreover have "m = max 4096 nu" by (simp add: m_def)
    ultimately show thesis using refused i m(1) by (simp add: morecore_def sbrk_def Let_def HDR_def flip: m_def)
  next
    case True
    then have "brk h + HDR * m \<le> 2 ^ 36" using g by (simp add: bounded_def)
    note H = heap_grows [OF ok m(1,2) this]
    let ?h1 = "set_size (brk h) m (h\<lparr>brk := brk h + HDR * m\<rparr>)"
    obtain h' bs' where F: "free (brk h + HDR) ?h1 = Some h'" "heap_ok base bs' A h'" "brk h' = brk ?h1" "\<forall>a \<in> A. h_size h' a = h_size ?h1 a"
      "covers (set bs') h' = covers (insert (brk h) (set bs)) ?h1" "\<exists>b \<in> set bs'. h_size ?h1 (brk h) \<le> h_size h' b"
      using free_spec [OF H(1,2)] by blast
    have "morecore grant nu h = Some (freep h', h')"
      using True F(1) i m(1) by (simp add: morecore_def sbrk_def Let_def HDR_def flip: m_def)
    moreover have "freep h' \<noteq> 0" using F(2) circleD(2,5,6) [of base bs' h'] by (fastforce simp: heap_ok_def block_ok_def)
    moreover have "covers (insert (brk h) (set bs)) ?h1 = covers (set bs) h \<union> {brk h..<brk h'}"
    proof -
      have "covers (set bs) ?h1 = covers (set bs) h" using H(5) by (intro covers_cong) auto
      moreover have "block_end ?h1 (brk h) = brk h'" using H(4) F(3) by (simp add: block_end_def)
      ultimately show ?thesis by (auto simp: covers_insert)
    qed
    moreover have "\<exists>b \<in> set bs'. nu \<le> h_size h' b" using F(6) H(4) m(3) by (auto intro: order_trans)
    ultimately show thesis using grown [of h' bs'] F H(5) by simp
  qed
qed

section \<open>malloc\<close>

text \<open>The result of \<open>malloc\<close> for \<open>n\<close> units.\<close>

definition allocated :: "nat \<Rightarrow> nat list \<Rightarrow> nat set \<Rightarrow> nat \<Rightarrow> (nat \<Rightarrow> nat \<Rightarrow> bool) \<Rightarrow> heap \<Rightarrow> nat \<Rightarrow> heap \<Rightarrow> bool" where
  "allocated base bs A n grant h p h' \<longleftrightarrow>
     (if p = 0 then h' = h \<and> \<not> grant (brk h) (HDR * max 4096 n)
      else HDR \<le> p \<and> p - HDR \<notin> A \<and> h_size h' (p - HDR) = n \<and> brk h \<le> brk h' \<and> (\<forall>a \<in> A. h_size h' a = h_size h a)
        \<and> (\<exists>bs'. heap_ok base bs' (insert (p - HDR) A) h'
            \<and> covers (insert (p - HDR) (set bs')) h' = covers (set bs) h \<union> {brk h..<brk h'}))"

lemma handed_allocated:
  "handed base bs A n h a h' \<Longrightarrow> allocated base bs A n grant h (a + HDR) h'"
  by (auto simp: handed_def allocated_def HDR_def)

lemma malloc_loop_spec:
  assumes ok: "heap_ok base bs A h" and n: "0 < n" "HDR * n < 2 ^ 31" and g: "bounded grant"
  shows "\<exists>p h'. malloc_loop grant n (freep h) (h_ptr h (freep h)) h = Some (p, h') \<and> allocated base bs A n grant h p h'"
proof -
  have fits: "\<exists>a h'. malloc_loop grant n (freep k) (h_ptr k (freep k)) k = Some (a + HDR, h') \<and> handed base cs A n k a h'"
    if k: "heap_ok base cs A k" "\<exists>b \<in> set (base # cs). n \<le> h_size k b" for k cs
  proof -
    have "circle base cs k" using k(1) by (simp add: heap_ok_def)
    then obtain vs where v: "links k (freep k # vs) (freep k)" "freep k \<notin> set vs" "set (base # cs) = insert (freep k) (set vs)"
      "h_ptr k (freep k) = hd (vs @ [freep k])" by (rule circle_round)
    from search_fits [OF v(1,2), of n grant] k(2) obtain q where q: "q \<in> set (base # cs)" "n \<le> h_size k (h_ptr k q)"
      "malloc_loop grant n (freep k) (h_ptr k (freep k)) k = Some (hand_out n q (h_ptr k q) k)" unfolding v(3,4) by blast
    from hand_out_spec [OF k(1) q(1) n(1) q(2)] q(3) show ?thesis by fastforce
  qed
  show ?thesis
  proof (cases "\<exists>b \<in> set (base # bs). n \<le> h_size h b")
    case True
    then show ?thesis using fits [OF ok True] handed_allocated by blast
  next
    case False
    have "circle base bs h" using ok by (simp add: heap_ok_def)
    then obtain vs where v: "links h (freep h # vs) (freep h)" "freep h \<notin> set vs" "set (base # bs) = insert (freep h) (set vs)"
      "h_ptr h (freep h) = hd (vs @ [freep h])" by (rule circle_round)
    then have m: "malloc_loop grant n (freep h) (h_ptr h (freep h)) h =
        Option.bind (morecore grant n h) (\<lambda>(q, h1). if q = 0 then Some (0, h1) else malloc_loop grant n q (h_ptr h1 q) h1)"
      using search_fails [OF v(1,2)] False unfolding v(3,4) by (simp add: not_le)
    show ?thesis
    proof (cases rule: morecore_spec [OF ok n g])
      case 1
      then show ?thesis using m ok by (auto simp: allocated_def)
    next
      case (2 h1 bs1)
      then obtain a h' where "malloc_loop grant n (freep h1) (h_ptr h1 (freep h1)) h1 = Some (a + HDR, h')" "handed base bs1 A n h1 a h'"
        using fits [OF 2(3)] by auto
      then show ?thesis using m 2 by (auto simp: allocated_def handed_def HDR_def)
    qed
  qed
qed

section \<open>Programs\<close>

text \<open>
  A program that allocates, frees what it holds, writes into what it holds, and moves the end of its memory up.
  \<open>A\<close> maps the blocks that it holds to the numbers of bytes asked for, and \<open>R\<close> is all memory that \<open>malloc\<close>
  has got from the kernel.
\<close>

inductive runs :: "nat \<Rightarrow> (nat \<rightharpoonup> nat) \<Rightarrow> nat set \<Rightarrow> heap \<Rightarrow> bool" for base :: nat where
  run_start: "0 < base \<Longrightarrow> base + HDR \<le> brk h \<Longrightarrow> brk h \<le> 2 ^ 36 \<Longrightarrow> freep h = 0 \<Longrightarrow> runs base Map.empty {} h"
| run_refused: "runs base A R h \<Longrightarrow> bounded g \<Longrightarrow> n \<le> 2 ^ 31 - 32 \<Longrightarrow> malloc base g n h = Some (0, h') \<Longrightarrow> runs base A R h'"
| run_malloc: "runs base A R h \<Longrightarrow> bounded g \<Longrightarrow> n \<le> 2 ^ 31 - 32 \<Longrightarrow> malloc base g n h = Some (p, h') \<Longrightarrow> p \<noteq> 0 \<Longrightarrow>
    runs base (A(p - HDR \<mapsto> n)) (R \<union> {brk h..<brk h'}) h'"
| run_free: "runs base A R h \<Longrightarrow> A a = Some n \<Longrightarrow> free (a + HDR) h = Some h' \<Longrightarrow> runs base (A(a := None)) R h'"
| run_write: "runs base A R h \<Longrightarrow> A a = Some n \<Longrightarrow>
    (\<And>x. x \<le> a \<or> a + HDR + n \<le> x \<Longrightarrow> f x = h_ptr h x \<and> z x = h_size h x) \<Longrightarrow>
    runs base A R (h\<lparr>h_ptr := f, h_size := z\<rparr>)"
| run_sbrk: "runs base A R h \<Longrightarrow> brk h \<le> b \<Longrightarrow> b \<le> 2 ^ 36 \<Longrightarrow> runs base A R (h\<lparr>brk := b\<rparr>)"

definition prog_ok :: "nat \<Rightarrow> (nat \<rightharpoonup> nat) \<Rightarrow> nat set \<Rightarrow> heap \<Rightarrow> bool" where
  "prog_ok base A R h \<longleftrightarrow> (freep h = 0 \<longrightarrow> A = Map.empty) \<and> (\<forall>a n. A a = Some n \<longrightarrow> HDR + n \<le> HDR * h_size h a)
     \<and> (\<exists>bs. heap_ok base bs (dom A) (malloc_init base h) \<and> covers (set bs \<union> dom A) (malloc_init base h) = R)"

lemma malloc_units_bounds:
  assumes "n \<le> 2 ^ 31 - 32"
  shows "0 < malloc_units n" "HDR * malloc_units n < 2 ^ 31" "HDR + n \<le> HDR * malloc_units n"
proof -
  have "malloc_units n = (n + 15) div 16 + 1" using assms by (simp add: malloc_units_def HDR_def)
  then show "0 < malloc_units n" "HDR * malloc_units n < 2 ^ 31" "HDR + n \<le> HDR * malloc_units n"
    using assms by (simp_all add: HDR_def)
qed

lemma malloc_init_id: "freep h \<noteq> 0 \<Longrightarrow> malloc_init base h = h" "brk (malloc_init base h) = brk h"
  "0 < base \<Longrightarrow> malloc_init base (malloc_init base h) = malloc_init base h" "0 < base \<Longrightarrow> freep (malloc_init base h) \<noteq> 0"
  by (simp_all add: malloc_init_def)

lemma heap_ok_base: "heap_ok base bs A h \<Longrightarrow> 0 < base"
  using circleD(6) by (auto simp: heap_ok_def)

lemma prog_ok_init:
  assumes "prog_ok base A R h"
  obtains bs where "heap_ok base bs (dom A) (malloc_init base h)" "covers (set bs \<union> dom A) (malloc_init base h) = R"
    "\<And>a n. A a = Some n \<Longrightarrow> HDR + n \<le> HDR * h_size (malloc_init base h) a"
proof -
  obtain bs where "heap_ok base bs (dom A) (malloc_init base h)" "covers (set bs \<union> dom A) (malloc_init base h) = R"
    using assms by (auto simp: prog_ok_def)
  moreover have "HDR + n \<le> HDR * h_size (malloc_init base h) a" if "A a = Some n" for a n
    using assms that malloc_init_id(1) [of h base] by (cases "freep h = 0") (auto simp: prog_ok_def)
  ultimately show thesis using that by blast
qed

lemma prog_malloc:
  assumes ok: "prog_ok base A R h" and g: "bounded grant" and n: "n \<le> 2 ^ 31 - 32"
  obtains p h' bs where "malloc base grant n h = Some (p, h')" "heap_ok base bs (dom A) (malloc_init base h)"
    "covers (set bs \<union> dom A) (malloc_init base h) = R" "\<And>a n. A a = Some n \<Longrightarrow> HDR + n \<le> HDR * h_size (malloc_init base h) a"
    "allocated base bs (dom A) (malloc_units n) grant (malloc_init base h) p h'"
proof -
  obtain bs where b: "heap_ok base bs (dom A) (malloc_init base h)" "covers (set bs \<union> dom A) (malloc_init base h) = R"
    "\<And>a n. A a = Some n \<Longrightarrow> HDR + n \<le> HDR * h_size (malloc_init base h) a" using prog_ok_init [OF ok] by blast
  from malloc_loop_spec [OF b(1) malloc_units_bounds(1,2) [OF n] g] show thesis using that b by (auto simp: malloc_def Let_def)
qed

lemma prog_okI:
  assumes "heap_ok base bs (dom A) h" "covers (set bs \<union> dom A) h = R" "\<And>a n. A a = Some n \<Longrightarrow> HDR + n \<le> HDR * h_size h a"
  shows "prog_ok base A R h"
proof -
  have c: "circle base bs h" using assms(1) by (simp add: heap_ok_def)
  have "freep h \<noteq> 0" using circleD(2,6) [OF c] circleD(5) [OF c, of "freep h"] by (auto simp: block_ok_def)
  then show ?thesis using assms malloc_init_id(1) [of h base] by (auto simp: prog_ok_def)
qed

lemma heap_ok_cong:
  assumes ok: "heap_ok base bs A h" and same: "\<And>x. x \<in> set (base # bs) \<union> A \<Longrightarrow> h_ptr h' x = h_ptr h x \<and> h_size h' x = h_size h x"
    and h': "freep h' = freep h" "brk h \<le> brk h'" "brk h' \<le> 2 ^ 36"
  shows "heap_ok base bs A h'" "covers (set bs \<union> A) h' = covers (set bs \<union> A) h"
proof -
  have c: "circle base bs h" using ok by (simp add: heap_ok_def)
  note D = circleD [OF c]
  have e: "block_end h' x = block_end h x" if "x \<in> set (base # bs) \<union> A" for x using same [OF that] by (simp add: block_end_def)
  have blk: "block_ok base h' x" if "x \<in> set bs \<union> A" "block_ok base h x" for x
    using that e [of x] same [of x] h'(2) by (auto simp: block_ok_def)
  have "links h' (base # bs) base" using D(1) same by (subst links_cong [of "base # bs" h' h]) auto
  moreover have "gaps h' bs" using D(4) same by (subst gaps_cong [of bs h' h]) auto
  ultimately have c': "circle base bs h'" using D h' blk same [of base] by (auto simp: circle_def)
  have cov: "covers (set bs) h' = covers (set bs) h" using same by (intro covers_cong) auto
  show "covers (set bs \<union> A) h' = covers (set bs \<union> A) h" using same by (intro covers_cong) auto
  show "heap_ok base bs A h'" unfolding heap_ok_def cov using ok c' blk e by (simp add: heap_ok_def)
qed

lemma prog_write:
  assumes ok: "prog_ok base A R h" and a: "A a = Some n"
    and w: "\<And>x. x \<le> a \<or> a + HDR + n \<le> x \<Longrightarrow> f x = h_ptr h x \<and> z x = h_size h x"
  shows "prog_ok base A R (h\<lparr>h_ptr := f, h_size := z\<rparr>)"
proof -
  have i: "malloc_init base h = h" using ok a malloc_init_id(1) [of h base] by (auto simp: prog_ok_def)
  obtain bs where b: "heap_ok base bs (dom A) h" "covers (set bs \<union> dom A) h = R" "\<And>a n. A a = Some n \<Longrightarrow> HDR + n \<le> HDR * h_size h a"
    using prog_ok_init [OF ok] unfolding i by blast
  have c: "circle base bs h" and ad: "a \<in> dom A" using b(1) a by (auto simp: heap_ok_def)
  have far: "x \<le> a \<or> a + HDR + n \<le> x" if x: "x \<in> set (base # bs) \<union> dom A" for x
  proof (cases "x = base \<or> x = a")
    case True
    then show ?thesis using held_outside(1) [OF b(1) ad] by auto
  next
    case False
    have "a + HDR + n \<le> block_end h a" using b(3) [OF a] by (simp add: block_end_def)
    moreover have "x \<notin> span h a"
    proof (cases "x \<in> dom A")
      case True
      then show ?thesis using b(1) ad False held_outside(2) [OF b(1) True] unfolding heap_ok_def by blast
    next
      case no: False
      then have "x \<in> set bs" using x False by auto
      then show ?thesis using held_outside(5) [OF b(1) ad, of x] held_outside(3) [OF b(1) ad] by (cases "a < x") auto
    qed
    ultimately show ?thesis by auto
  qed
  let ?h = "h\<lparr>h_ptr := f, h_size := z\<rparr>"
  have same: "h_ptr ?h x = h_ptr h x \<and> h_size ?h x = h_size h x" if "x \<in> set (base # bs) \<union> dom A" for x using w [OF far [OF that]] by simp
  note H = heap_ok_cong [OF b(1) same]
  show ?thesis
  proof (rule prog_okI)
    show "heap_ok base bs (dom A) ?h" using H(1) circleD(7) [OF c] by simp
    show "covers (set bs \<union> dom A) ?h = R" using H(2) circleD(7) [OF c] b(2) by simp
    show "HDR + m \<le> HDR * h_size ?h x" if "A x = Some m" for x m using b(3) [OF that] same [of x] that by (simp add: domI)
  qed
qed

lemma prog_free:
  assumes ok: "prog_ok base A R h" and a: "A a = Some n"
  obtains h' where "free (a + HDR) h = Some h'" "prog_ok base (A(a := None)) R h'"
proof -
  have i: "malloc_init base h = h" using ok a malloc_init_id(1) [of h base] by (auto simp: prog_ok_def)
  obtain bs where b: "heap_ok base bs (dom A) h" "covers (set bs \<union> dom A) h = R" "\<And>a n. A a = Some n \<Longrightarrow> HDR + n \<le> HDR * h_size h a"
    using prog_ok_init [OF ok] unfolding i by blast
  let ?B = "dom A - {a}"
  have d: "dom A = insert a ?B" "dom (A(a := None)) = ?B" using a by auto
  have ok': "heap_ok base bs (insert a ?B) h" "a \<notin> ?B" using b(1) unfolding d(1) [symmetric] by simp_all
  obtain h' bs' where F: "free (a + HDR) h = Some h'" "heap_ok base bs' ?B h'" "\<forall>x \<in> ?B. h_size h' x = h_size h x"
    "covers (set bs') h' = covers (insert a (set bs)) h" by (rule free_spec [OF ok'])
  have "covers ?B h' = covers ?B h" using F(3) by (intro covers_cong) auto
  then have "covers (set bs' \<union> ?B) h' = covers (insert a (set bs) \<union> ?B) h" using F(4) by (simp only: covers_Un)
  also have "insert a (set bs) \<union> ?B = set bs \<union> dom A" using d(1) by blast
  finally have "covers (set bs' \<union> ?B) h' = R" using b(2) by simp
  moreover have "HDR + m \<le> HDR * h_size h' x" if "(A(a := None)) x = Some m" for x m
    using F(3) b(3) [of x m] that by (auto split: if_splits simp: domIff)
  ultimately have "prog_ok base (A(a := None)) R h'" using F(2) unfolding d(2) [symmetric] by (intro prog_okI) simp_all
  then show thesis using that F(1) by blast
qed

lemma prog_alloc:
  assumes al: "allocated base bs (dom A) (malloc_units n) grant h1 p h'" and p: "p \<noteq> 0" and n: "n \<le> 2 ^ 31 - 32"
    and sz: "\<And>a n. A a = Some n \<Longrightarrow> HDR + n \<le> HDR * h_size h1 a"
  shows "prog_ok base (A(p - HDR \<mapsto> n)) (covers (set bs \<union> dom A) h1 \<union> {brk h1..<brk h'}) h'"
proof -
  let ?a = "p - HDR"
  obtain bs' where G: "?a \<notin> dom A" "h_size h' ?a = malloc_units n" "\<forall>a \<in> dom A. h_size h' a = h_size h1 a" "heap_ok base bs' (insert ?a (dom A)) h'"
    "covers (insert ?a (set bs')) h' = covers (set bs) h1 \<union> {brk h1..<brk h'}" using al p unfolding allocated_def by auto
  have "covers (dom A) h' = covers (dom A) h1" using G(3) by (intro covers_cong) auto
  then have "covers (set bs' \<union> insert ?a (dom A)) h' = covers (set bs \<union> dom A) h1 \<union> {brk h1..<brk h'}"
    using G(5) by (simp add: covers_Un covers_insert) blast
  then show ?thesis using G sz malloc_units_bounds(3) [OF n] by (intro prog_okI) (auto split: if_splits simp: domIff)
qed

lemma runs_ok: "runs base A R h \<Longrightarrow> prog_ok base A R h"
proof (induction rule: runs.induct)
  case (run_start h)
  have "heap_ok base [] {} (malloc_init base h)" using run_start by (simp add: heap_ok_def circle_def malloc_init_def HDR_def)
  then show ?case by (auto simp: prog_ok_def covers_def)
next
  case (run_refused A R h g n h')
  obtain q k bs where M: "malloc base g n h = Some (q, k)" "heap_ok base bs (dom A) (malloc_init base h)" "covers (set bs \<union> dom A) (malloc_init base h) = R"
    "\<And>a n. A a = Some n \<Longrightarrow> HDR + n \<le> HDR * h_size (malloc_init base h) a" "allocated base bs (dom A) (malloc_units n) g (malloc_init base h) q k"
    using prog_malloc [OF run_refused.IH run_refused.hyps(2,3)] by blast
  have "q = 0" "k = h'" using M(1) run_refused.hyps(4) by simp_all
  then have "h' = malloc_init base h" using M(5) by (simp add: allocated_def)
  then show ?case using prog_okI [OF M(2-4)] by simp
next
  case (run_malloc A R h g n p h')
  obtain q k bs where M: "malloc base g n h = Some (q, k)" "covers (set bs \<union> dom A) (malloc_init base h) = R"
    "\<And>a n. A a = Some n \<Longrightarrow> HDR + n \<le> HDR * h_size (malloc_init base h) a" "allocated base bs (dom A) (malloc_units n) g (malloc_init base h) q k"
    using prog_malloc [OF run_malloc.IH run_malloc.hyps(2,3)] by blast
  have q: "q = p" "k = h'" using M(1) run_malloc.hyps(4) by simp_all
  from prog_alloc [OF M(4) [unfolded q] run_malloc.hyps(5,3) M(3)] show ?case unfolding M(2) malloc_init_id(2) .
next
  case (run_free A R h a n h')
  obtain k where "free (a + HDR) h = Some k" "prog_ok base (A(a := None)) R k" by (rule prog_free [OF run_free.IH run_free.hyps(2)])
  moreover from this(1) have "k = h'" using run_free.hyps(3) by simp
  ultimately show ?case by blast
next
  case (run_write A R h a n f z)
  then show ?case using prog_write by blast
next
  case (run_sbrk A R h b)
  obtain bs where b: "heap_ok base bs (dom A) (malloc_init base h)" "covers (set bs \<union> dom A) (malloc_init base h) = R"
    using prog_ok_init [OF run_sbrk.IH] by blast
  let ?k = "malloc_init base (h\<lparr>brk := b\<rparr>)"
  have k: "h_ptr ?k = h_ptr (malloc_init base h)" "h_size ?k = h_size (malloc_init base h)" "freep ?k = freep (malloc_init base h)" "brk ?k = b"
    by (simp_all add: malloc_init_def)
  have "heap_ok base bs (dom A) ?k" "covers (set bs \<union> dom A) ?k = R"
    using heap_ok_cong [OF b(1), of ?k] b(2) k run_sbrk.hyps(2,3) by (simp_all add: malloc_init_id(2))
  then show ?case using run_sbrk.IH by (auto simp: prog_ok_def)
qed

section \<open>What programs can rely on\<close>

lemma prog_blocks:
  assumes "prog_ok base A R h"
  shows "A a = Some n \<Longrightarrow> {a..<a + HDR + n} \<subseteq> R \<and> a + HDR + n \<le> brk h"
    "A a = Some n \<Longrightarrow> A b = Some m \<Longrightarrow> a \<noteq> b \<Longrightarrow> {a..<a + HDR + n} \<inter> {b..<b + HDR + m} = {}"
proof -
  let ?h = "malloc_init base h"
  obtain bs where B: "heap_ok base bs (dom A) ?h" "covers (set bs \<union> dom A) ?h = R" "\<And>a n. A a = Some n \<Longrightarrow> HDR + n \<le> HDR * h_size ?h a"
    using prog_ok_init [OF assms] by blast
  have sub: "{a..<a + HDR + n} \<subseteq> span ?h a" "a + HDR + n \<le> block_end ?h a" if "A a = Some n" for a n
    using B(3) [OF that] by (auto simp: block_end_def)
  show "{a..<a + HDR + n} \<subseteq> R \<and> a + HDR + n \<le> brk h" if a: "A a = Some n"
  proof
    have "span ?h a \<subseteq> R" using B(2) a by (auto simp: covers_def)
    then show "{a..<a + HDR + n} \<subseteq> R" using sub(1) [OF a] by blast
    have "block_end ?h a \<le> brk ?h" using B(1) domI [of A a n, OF a] by (simp add: heap_ok_def block_ok_def)
    then show "a + HDR + n \<le> brk h" using sub(2) [OF a] malloc_init_id(2) [of base h] by simp
  qed
  show "{a..<a + HDR + n} \<inter> {b..<b + HDR + m} = {}" if "A a = Some n" "A b = Some m" "a \<noteq> b"
  proof -
    have "span ?h a \<inter> span ?h b = {}" using B(1) that unfolding heap_ok_def by (metis domI)
    then show ?thesis using sub(1) [OF that(1)] sub(1) [OF that(2)] by blast
  qed
qed

lemma prog_malloc_result:
  assumes P: "prog_ok base A R h" and g: "bounded grant" and n: "n \<le> 2 ^ 31 - 32"
  shows "\<exists>p h'. malloc base grant n h = Some (p, h')
    \<and> (if p = 0 then \<not> grant (brk h) (HDR * max 4096 (malloc_units n))
       else {p..<p + n} \<subseteq> R \<union> {brk h..<brk h'} \<and> (\<forall>a m. A a = Some m \<longrightarrow> {p..<p + n} \<inter> {a..<a + HDR + m} = {}))"
proof -
  obtain p h' bs where M: "malloc base grant n h = Some (p, h')" "covers (set bs \<union> dom A) (malloc_init base h) = R"
    "\<And>a n. A a = Some n \<Longrightarrow> HDR + n \<le> HDR * h_size (malloc_init base h) a"
    "allocated base bs (dom A) (malloc_units n) grant (malloc_init base h) p h'"
    using prog_malloc [OF P g n] by blast
  show ?thesis
  proof (cases "p = 0")
    case True
    then show ?thesis using M(1,4) by (auto simp: allocated_def malloc_init_id(2))
  next
    case False
    let ?a = "p - HDR" and ?A = "A(p - HDR \<mapsto> n)"
    have Q: "prog_ok base ?A (R \<union> {brk h..<brk h'}) h'" using prog_alloc [OF M(4) False n M(3)] unfolding M(2) malloc_init_id(2) .
    have a: "HDR \<le> p" "?a \<notin> dom A" using M(4) False by (simp_all add: allocated_def)
    then have "{p..<p + n} \<subseteq> {?a..<?a + HDR + n}" by auto
    moreover have "{?a..<?a + HDR + n} \<subseteq> R \<union> {brk h..<brk h'}" using prog_blocks(1) [OF Q, of ?a n] by simp
    moreover have "{?a..<?a + HDR + n} \<inter> {b..<b + HDR + m} = {}" if "A b = Some m" for b m
    proof -
      have "?a \<noteq> b" using a(2) that by auto
      then show ?thesis using prog_blocks(2) [OF Q, of ?a n b m] that by simp
    qed
    ultimately have "{p..<p + n} \<subseteq> R \<union> {brk h..<brk h'} \<and> (\<forall>a m. A a = Some m \<longrightarrow> {p..<p + n} \<inter> {a..<a + HDR + m} = {})" by blast
    then show ?thesis using M(1) False by (intro exI [of _ p] exI [of _ h']) simp
  qed
qed

text \<open>
  C32: programs that use \<open>malloc\<close> and \<open>free\<close> in any order, on blocks they hold, never share memory
  and never lose it.  Whatever the program wrote into its blocks, and whenever it moved the end of
  its memory itself: the blocks it holds, with their headers, lie in the memory that \<open>malloc\<close> has got
  from the kernel and do not overlap; \<open>free\<close> returns on each of them; a request of less than 2 GB
  returns, with null only if the kernel has refused the units asked for (4096 at least), and otherwise
  with as many bytes as asked for, apart from all held blocks; and every byte that \<open>malloc\<close> has ever got is in
  a held block or in a block of the circle of free blocks, of which no two are adjacent.  The memory of
  the process is taken to stay below \<open>2 ^ 36\<close> bytes, so that the sizes of blocks, which are counted in
  units of 16 bytes, fit in 32 bits; the kernel itself would give up to \<open>TRAPFRAME\<close>, close to \<open>2 ^ 38\<close>.
\<close>

theorem malloc_never_shares_or_loses_memory:
  assumes "runs base A R h"
  shows "(\<forall>a n. A a = Some n \<longrightarrow> {a..<a + HDR + n} \<subseteq> R \<and> a + HDR + n \<le> brk h)
    \<and> (\<forall>a b n m. A a = Some n \<longrightarrow> A b = Some m \<longrightarrow> a \<noteq> b \<longrightarrow> {a..<a + HDR + n} \<inter> {b..<b + HDR + m} = {})
    \<and> (\<forall>a n. A a = Some n \<longrightarrow> (\<exists>h'. free (a + HDR) h = Some h'))
    \<and> (\<forall>grant n. bounded grant \<longrightarrow> n \<le> 2 ^ 31 - 32 \<longrightarrow> (\<exists>p h'. malloc base grant n h = Some (p, h')
        \<and> (if p = 0 then \<not> grant (brk h) (HDR * max 4096 (malloc_units n))
           else {p..<p + n} \<subseteq> R \<union> {brk h..<brk h'} \<and> (\<forall>a m. A a = Some m \<longrightarrow> {p..<p + n} \<inter> {a..<a + HDR + m} = {}))))
    \<and> (freep h \<noteq> 0 \<longrightarrow> (\<exists>bs. circle base bs h \<and> covers (set bs) h \<union> covers (dom A) h = R))"
proof (intro conjI)
  note P = runs_ok [OF assms]
  show "\<forall>a n. A a = Some n \<longrightarrow> {a..<a + HDR + n} \<subseteq> R \<and> a + HDR + n \<le> brk h"
    "\<forall>a b n m. A a = Some n \<longrightarrow> A b = Some m \<longrightarrow> a \<noteq> b \<longrightarrow> {a..<a + HDR + n} \<inter> {b..<b + HDR + m} = {}"
    using prog_blocks [OF P] by blast+
  show "\<forall>a n. A a = Some n \<longrightarrow> (\<exists>h'. free (a + HDR) h = Some h')" using prog_free [OF P] by blast
  show "freep h \<noteq> 0 \<longrightarrow> (\<exists>bs. circle base bs h \<and> covers (set bs) h \<union> covers (dom A) h = R)"
    using P malloc_init_id(1) [of h base] by (auto simp: prog_ok_def heap_ok_def covers_Un)
  show "\<forall>grant n. bounded grant \<longrightarrow> n \<le> 2 ^ 31 - 32 \<longrightarrow> (\<exists>p h'. malloc base grant n h = Some (p, h')
      \<and> (if p = 0 then \<not> grant (brk h) (HDR * max 4096 (malloc_units n))
         else {p..<p + n} \<subseteq> R \<union> {brk h..<brk h'} \<and> (\<forall>a m. A a = Some m \<longrightarrow> {p..<p + n} \<inter> {a..<a + HDR + m} = {})))"
    using prog_malloc_result [OF P] by blast
qed

text \<open>A fresh process with its data segment at \<open>0x1000\<close> and 16 KB of memory.\<close>

definition fresh_heap :: heap where
  "fresh_heap = \<lparr>h_ptr = (\<lambda>x. 0), h_size = (\<lambda>x. 0), freep = 0, brk = 0x4000\<rparr>"

theorem malloc_never_shares_or_loses_memory_witness:
  "\<exists>p h'. malloc 0x1000 (\<lambda>b n. b + n \<le> 2 ^ 20) 100 fresh_heap = Some (p, h')
     \<and> (if p = 0 then \<not> brk fresh_heap + HDR * max 4096 (malloc_units 100) \<le> 2 ^ 20 else {p..<p + 100} \<subseteq> {brk fresh_heap..<brk h'})"
proof -
  have r: "runs 0x1000 Map.empty {} fresh_heap" by (rule run_start) (simp_all add: fresh_heap_def HDR_def)
  have b: "bounded (\<lambda>b n. b + n \<le> 2 ^ 20)" "(100 :: nat) \<le> 2 ^ 31 - 32" by (simp_all add: bounded_def)
  note M = malloc_never_shares_or_loses_memory [OF r, THEN conjunct2, THEN conjunct2, THEN conjunct2, THEN conjunct1]
  from M [rule_format, OF b] obtain p h' where m: "malloc 0x1000 (\<lambda>b n. b + n \<le> 2 ^ 20) 100 fresh_heap = Some (p, h')"
    "if p = 0 then \<not> brk fresh_heap + HDR * max 4096 (malloc_units 100) \<le> 2 ^ 20
     else {p..<p + 100} \<subseteq> {} \<union> {brk fresh_heap..<brk h'} \<and> (\<forall>a m. Map.empty a = Some m \<longrightarrow> {p..<p + 100} \<inter> {a..<a + HDR + m} = {})"
    by blast
  then have "if p = 0 then \<not> brk fresh_heap + HDR * max 4096 (malloc_units 100) \<le> 2 ^ 20 else {p..<p + 100} \<subseteq> {brk fresh_heap..<brk h'}" by (cases "p = 0") simp_all
  with m(1) show ?thesis by blast
qed

section \<open>Huge requests\<close>

text \<open>\<open>free\<close> and the search do not look at the end of the heap.\<close>

lemma free_place_ptr:
  "free_place h bp p = Some q \<Longrightarrow> h_ptr k = h_ptr h \<longrightarrow> free_place k bp p = Some q"
proof (induction arbitrary: k rule: free_place.raw_induct [rotated, consumes 1, case_names step])
  case (step fp h bp p q)
  show ?case
  proof
    assume k: "h_ptr k = h_ptr h"
    have "fp h bp (h_ptr h p) = Some q \<Longrightarrow> free_place k bp (h_ptr h p) = Some q" using step(1) k by blast
    with step(2) show "free_place k bp p = Some q" by (subst free_place.simps) (auto simp: k split: if_splits)
  qed
qed

lemma free_brk:
  assumes "free ap h = Some k"
  shows "free ap (h\<lparr>brk := b\<rparr>) = Some (k\<lparr>brk := b\<rparr>)"
proof -
  obtain p where "free_place h (ap - HDR) (freep h) = Some p"
    "k = (join_prev p (ap - HDR) (join_next p (ap - HDR) h))\<lparr>freep := p\<rparr>"
    using assms by (auto simp: free_def Let_def split: option.splits)
  moreover have "(join_prev p bp (join_next p bp (h\<lparr>brk := b\<rparr>)))\<lparr>freep := p\<rparr> =
      (join_prev p bp (join_next p bp h))\<lparr>freep := p, brk := b\<rparr>" for p bp
    by (simp add: join_prev_def join_next_def block_end_def set_ptr_def set_size_def)
  ultimately show ?thesis using free_place_ptr [of h "ap - HDR" "freep h" p] by (simp add: free_def Let_def)
qed

text \<open>A free block that reaches past \<open>x\<close>, where everything from \<open>x\<close> to the end is free, reaches the end.\<close>

lemma last_block_end:
  assumes c: "circle base bs k" and w: "w \<in> set bs" "x \<le> block_end k w" and free: "{x..<brk k} \<subseteq> covers (set bs) k"
  shows "block_end k w = brk k"
proof (rule ccontr)
  assume ne: "block_end k w \<noteq> brk k"
  note D = circleD [OF c]
  have lt: "block_end k w < brk k" using D(5) [OF w(1)] ne by (simp add: block_ok_def)
  then obtain v where v: "v \<in> set bs" "v \<le> block_end k w" "block_end k w < block_end k v"
    using free w(2) by (fastforce simp: covers_def)
  have "v \<noteq> w" using v(3) by auto
  then have "block_end k v < w \<or> block_end k w < v"
    using D(4) v(1) w(1) by (auto simp: sorted_wrt_iff_nth_less in_set_conv_nth) (metis nat_neq_iff)
  moreover have "w \<le> block_end k w" by (simp add: block_end_def)
  ultimately show False using v by linarith
qed

lemma hand_out_tail:
  assumes "h_size k w < 2 ^ 32" "n \<le> h_size k w" "n < 2 ^ 32" "block_end k w = x + HDR * n"
  shows "\<exists>k'. hand_out n q w k = (x + HDR, k') \<and> brk k' = brk k \<and> h_size k' x = n"
proof (cases "h_size k w = n")
  case True
  then have "w = x" using assms(4) by (simp add: block_end_def)
  with True show ?thesis by (simp add: hand_out_def)
next
  case False
  have "w + HDR * (h_size k w - n) = x" using assms(2,4) by (simp add: block_end_def HDR_def)
  then show ?thesis using False assms(1,3) by (simp add: hand_out_def Let_def block_end_def)
qed

lemma huge_morecore:
  assumes ok: "heap_ok base bs A h" and b: "brk h < 2 ^ 32" and g: "grant (brk h) 16" and N: "N = 2 ^ 28 + 1"
  obtains k bs' where "morecore grant N h = Some (freep k, k\<lparr>brk := brk h + 16\<rparr>)" "heap_ok base bs' A k"
    "brk k = brk h + HDR * N" "{brk h..<brk k} \<subseteq> covers (set bs') k" "\<exists>b \<in> set bs'. N \<le> h_size k b" "freep k \<noteq> 0"
proof -
  let ?f = "set_size (brk h) N (h\<lparr>brk := brk h + HDR * N\<rparr>)"
  have n: "0 < N" "N < 2 ^ 32" "brk h + HDR * N \<le> 2 ^ 36" using b by (simp_all add: HDR_def N)
  note H = heap_grows [OF ok n]
  obtain k bs' where F: "free (brk h + HDR) ?f = Some k" "heap_ok base bs' A k" "brk k = brk ?f" "\<forall>a \<in> A. h_size k a = h_size ?f a"
    "covers (set bs') k = covers (insert (brk h) (set bs)) ?f" "\<exists>b \<in> set bs'. h_size ?f (brk h) \<le> h_size k b"
    by (rule free_spec [OF H(1,2)])
  have "sbrk grant (to_int32 (N * HDR)) h = (Some (brk h), h\<lparr>brk := brk h + 16\<rparr>)"
    using g by (simp add: sbrk_def to_int32_def HDR_def N)
  moreover have "set_size (brk h) N (h\<lparr>brk := brk h + 16\<rparr>) = ?f\<lparr>brk := brk h + 16\<rparr>" by (simp add: set_size_def)
  then have "free (brk h + HDR) (set_size (brk h) N (h\<lparr>brk := brk h + 16\<rparr>)) = Some (k\<lparr>brk := brk h + 16\<rparr>)"
    using free_brk [OF F(1), of "brk h + 16"] by (simp only:)
  moreover have "\<not> N < 4096" by (simp add: N)
  ultimately have "morecore grant N h = Some (freep k, k\<lparr>brk := brk h + 16\<rparr>)" by (simp add: morecore_def)
  moreover have "freep k \<noteq> 0" using F(2) circleD(2,5,6) [of base bs' k] by (fastforce simp: heap_ok_def block_ok_def)
  moreover have "{brk h..<brk k} \<subseteq> covers (set bs') k"
    using F(3) H(4) unfolding F(5) by (auto simp: covers_insert block_end_def)
  moreover have "brk k = brk h + HDR * N" "\<exists>b \<in> set bs'. N \<le> h_size k b" using F(3,6) H(4) by simp_all
  ultimately show thesis using that [of k bs'] F(2) by blast
qed

lemma huge_malloc_loop:
  assumes ok: "heap_ok base bs A h" and b: "brk h < 2 ^ 32" and g: "grant (brk h) 16" and N: "N = 2 ^ 28 + 1"
  shows "\<exists>h'. malloc_loop grant N (freep h) (h_ptr h (freep h)) h = Some (brk h + HDR, h')
    \<and> brk h' = brk h + 16 \<and> h_size h' (brk h) = N"
proof -
  have c: "circle base bs h" using ok by (simp add: heap_ok_def)
  then obtain vs where v: "links h (freep h # vs) (freep h)" "freep h \<notin> set vs" "set (base # bs) = insert (freep h) (set vs)"
    "h_ptr h (freep h) = hd (vs @ [freep h])" by (rule circle_round)
  have "h_size h w < N" if "w \<in> set (base # bs)" for w
    using that circleD(3) [OF c] circleD(5) [OF c, of w] b by (auto simp: block_ok_def block_end_def HDR_def N)
  then have m: "malloc_loop grant N (freep h) (h_ptr h (freep h)) h =
      Option.bind (morecore grant N h) (\<lambda>(q, h1). if q = 0 then Some (0, h1) else malloc_loop grant N q (h_ptr h1 q) h1)"
    using search_fails [OF v(1,2)] unfolding v(3,4) by blast
  obtain k bs' where k: "morecore grant N h = Some (freep k, k\<lparr>brk := brk h + 16\<rparr>)" "heap_ok base bs' A k"
    "brk k = brk h + HDR * N" "{brk h..<brk k} \<subseteq> covers (set bs') k" "\<exists>b \<in> set bs'. N \<le> h_size k b" "freep k \<noteq> 0"
    using huge_morecore [OF ok b, of grant N] g N by blast
  let ?k = "k\<lparr>brk := brk h + 16\<rparr>"
  have ck: "circle base bs' k" using k(2) by (simp add: heap_ok_def)
  then obtain ws where w: "links k (freep k # ws) (freep k)" "freep k \<notin> set ws" "set (base # bs') = insert (freep k) (set ws)"
    "h_ptr k (freep k) = hd (ws @ [freep k])" by (rule circle_round)
  have "links ?k (freep ?k # ws) (freep ?k)" "freep ?k \<notin> set ws" using w(1,2) by (simp_all del: links.simps)
  moreover have "\<exists>w \<in> insert (freep k) (set ws). N \<le> h_size k w" using k(5) w(3) by (metis list.set_intros(2))
  ultimately have "\<exists>q \<in> set (base # bs'). N \<le> h_size k (h_ptr k q)
      \<and> malloc_loop grant N (freep k) (h_ptr k (freep k)) ?k = Some (hand_out N q (h_ptr k q) ?k)"
    using search_fits [of ?k "freep k" ws N grant] unfolding w(3,4) by simp
  then obtain q where q: "q \<in> set (base # bs')" "N \<le> h_size k (h_ptr k q)"
    "malloc_loop grant N (freep k) (h_ptr k (freep k)) ?k = Some (hand_out N q (h_ptr k q) ?k)" by blast
  have N0: "0 < h_size k (h_ptr k q)" using q(2) N by simp
  have "h_ptr k q \<in> set bs'" using behind [OF ck q(1) refl N0] by blast
  note wq = this circleD(5) [OF ck this]
  have "brk h \<le> block_end k (h_ptr k q)" using q(2) b by (simp add: block_end_def HDR_def N)
  then have "block_end k (h_ptr k q) = brk h + HDR * N" using last_block_end [OF ck wq(1) _ k(4)] k(3) by simp
  then have "block_end ?k (h_ptr k q) = brk h + HDR * N" by (simp add: block_end_def)
  moreover have "h_size ?k (h_ptr k q) < 2 ^ 32" using block_small [OF wq(2) circleD(7,6) [OF ck]] by simp
  ultimately obtain h' where "hand_out N q (h_ptr k q) ?k = (brk h + HDR, h')" "brk h' = brk ?k" "h_size h' (brk h) = N"
    using hand_out_tail [of ?k "h_ptr k q" N "brk h" q] q(2) N by auto
  then show ?thesis using m k(1,6) q(3) by simp
qed

text \<open>
  the size of a request is not checked before it is rounded up and passed to \<open>sbrk\<close>, which takes
  an \<open>int\<close>.  Whatever a program has done before, and as long as its memory ends below 4 GB: a request for one of the
  15 largest sizes makes the heap grow by 16 bytes only, enough for the header; \<open>malloc\<close>
  then does not fail but returns a pointer to the very end of the memory of the process, with a
  header that says that 4 GB follow.
\<close>

theorem malloc_huge_request_gets_nothing:
  assumes "runs base A R h" "brk h < 2 ^ 32" "2 ^ 32 - 15 \<le> n" "n < 2 ^ 32" "grant (brk h) 16"
  shows "\<exists>h'. malloc base grant n h = Some (brk h', h') \<and> brk h' = brk h + 16
     \<and> h_size h' (brk h' - HDR) = 2 ^ 28 + 1"
proof -
  obtain bs where ok: "heap_ok base bs (dom A) (malloc_init base h)" using prog_ok_init [OF runs_ok [OF assms(1)]] by blast
  have "(n + 15) div 16 = 2 ^ 28" using assms(3,4) by (intro div_nat_eqI) simp_all
  then have "malloc_units n = 2 ^ 28 + 1" by (simp add: malloc_units_def HDR_def)
  with huge_malloc_loop [OF ok _ _ refl, of grant] assms(2,5) show ?thesis
    by (auto simp: malloc_def Let_def malloc_init_id(2) HDR_def)
qed

theorem malloc_huge_request_gets_nothing_witness:
  "\<exists>h'. malloc 0x1000 (\<lambda>b n. b + n \<le> 2 ^ 20) (2 ^ 32 - 1) fresh_heap = Some (brk h', h') \<and> brk h' = brk fresh_heap + 16
     \<and> h_size h' (brk h' - HDR) = 2 ^ 28 + 1"
proof (rule malloc_huge_request_gets_nothing)
  show "runs 0x1000 Map.empty {} fresh_heap" by (rule run_start) (simp_all add: fresh_heap_def HDR_def)
qed (simp_all add: fresh_heap_def)

end
