(* ===== verification/Spec2Isabelle.thy ===== *)
theory Spec2Isabelle
  imports File_Steps Pipe Console Log_Steps Bio File_Io Fs_Calls Fs_Atomic Vm_Free Vm_User Vm_Fork User_Grep User_Sh_Run Shell_Facts Peek Virtio_Inv Sys_Exec User_Malloc_Safe
begin

text \<open>
  \<^bold>\<open>A verification of the shell and the xv6 kernel of this repository.\<close>

  The repository holds two C programs: \<open>c-shell\<close>, a job-control shell, and
  \<open>xv6-riscv\<close>, a teaching kernel extended with FCFS and MLFQ schedulers, with its user
  programs.  They do not call each other.  Each theory models one component as HOL
  functions translated from the source and proves what makes that component correct;
  C arrays are lists, structs are records, \<open>uint\<close> fields are words, panics and
  failing calls are values of a sum or option type, and what the outside world
  answers (\<open>waitpid\<close>, \<open>fork\<close>, \<open>open\<close>, a device) is an argument or a step of the
  environment.

  \<^bold>\<open>Shared ground.\<close> \<open>Prelude\<close> has the integer types, array update, results with
  failures and the loop that searches an array; \<open>Bytes\<close> has disk blocks and
  little-endian integers; \<open>Ring\<close> is the locale of a ring buffer indexed by free-running
  32 bit counters, interpreted by \<open>Pipe\<close> and \<open>Console\<close>; \<open>Allocator\<close> the locale of an
  allocator that hands out what nobody holds, interpreted by the disk blocks
  (\<open>Fs_Block\<close>) and the pages (\<open>Kalloc\<close>).

  \<^bold>\<open>Kernel processes\<close> (\<open>kernel/proc.c\<close>, \<open>proc.h\<close>, \<open>trap.c\<close>, \<open>file.c\<close>, \<open>sysfile.c\<close>).
  \<open>Ftable\<close> is the open file table, \<open>Proc\<close> the process table with its operations
  (\<open>allocproc\<close>, \<open>kfork\<close>, \<open>kexit\<close>, \<open>kwait\<close>, \<open>sleep\<close>, \<open>wakeup\<close>, \<open>kkill\<close>, \<open>yield\<close>,
  \<open>mlfq_tick\<close>, \<open>mlfq_boost\<close>), \<open>Sched\<close> the scheduler loop of each build as a
  program counter per CPU, \<open>Sysfile\<close> the calls on descriptors.  \<open>Kernel_Steps\<close>
  puts them together as a step relation over a kernel state in which any CPU may
  move: the scheduler loops move by one lock section, while each call of a process
  (\<open>kexit\<close>, \<open>kfork\<close>, \<open>allocproc\<close>, \<open>sys_open\<close>, \<open>sys_pipe\<close>, \<open>sys_dup\<close>, a timer interrupt with
  \<open>mlfq_tick\<close>) is one step there, although the source releases and takes locks in between.
  \<open>File_Steps\<close> takes the calls on descriptors apart: there \<open>dup\<close>, \<open>close\<close>, \<open>open\<close>, \<open>pipe\<close>, \<open>fork\<close> and
  \<open>exit\<close> advance by one lock section at a time, interleaved with every other process and
  asleep in between if they like; it counts the references of files against the
  descriptors and the calls under way, and shows that the sections without interruption
  are the calls of \<open>Sysfile\<close>.  \<open>Cpu_Inv\<close>,
  \<open>Mlfq\<close>, \<open>Proc_Inv\<close> and \<open>File_Inv\<close> prove invariants of all reachable states by
  rule induction, with one lemma per operation (\<open>Proc_Facts\<close>), and derive the properties of
  single calls from them; the locale \<open>slot_contract\<close> carries an invariant of one
  process slot through every step and is interpreted for the MLFQ fields and for
  the descriptor tables.  \<open>Kernel_Trace\<close> is a concrete run for the witnesses.

  \<^bold>\<open>Pipes and console\<close> (\<open>kernel/pipe.c\<close>, \<open>console.c\<close>).  \<open>Pipe\<close> shows that a pipe is a
  bounded queue under any interleaving of reads and writes, \<open>Console\<close> that the
  three ring indices implement a line discipline on two lists.

  \<^bold>\<open>Memory\<close> (\<open>kernel/string.c\<close>, \<open>kalloc.c\<close>, \<open>vm.c\<close>, \<open>riscv.h\<close>).  Physical memory is a function
  from addresses to bytes.  \<open>Kstring\<close> has the copying routines and 64 bit words in
  memory, \<open>Kalloc\<close> the free list threaded through the free pages, \<open>Vm\<close> all of \<open>vm.c\<close> and
  the address space functions of \<open>proc.c\<close>.  \<open>Vm_Tree\<close> reads the bytes as a tree of page
  tables, \<open>Vm_Map\<close> and \<open>Vm_Space\<close> give mapping and unmapping on that tree, \<open>Vm_Grow\<close>
  \<open>uvmalloc\<close> and \<open>growproc\<close>, \<open>Vm_Free\<close> the release of an address space, \<open>Vm_Fork\<close>
  the copy for a child, and \<open>Vm_User\<close> user memory as an array of bytes that
  \<open>copyin\<close> and \<open>copyout\<close> read and write.  The accounting is by sets of pages: every
  operation moves pages between the free list, the tree and the mapped pages.

  \<^bold>\<open>Storage\<close> (\<open>kernel/log.c\<close>, \<open>bio.c\<close>, \<open>virtio_disk.c\<close>).  \<open>Log\<close> models the write-ahead log with its
  header as bytes on the disk; the state is the disk, what \<open>bread\<close> returns, and
  the trace of disk writes.  \<open>Log_Crash\<close> shows that a commit is atomic and
  recovery restartable for a crash after any number of writes.  \<open>Log_Steps\<close> interleaves
  the file system calls with a commit that advances by one disk write at a time, and with
  crashes at any moment followed by recoveries that are cut off by further crashes: the
  machine comes up with the last commit whose header write was made.  \<open>Bio\<close> models the buffer cache with its doubly linked list and
  shows that it is a cache with least recently used replacement whose readers
  see current contents; that is what \<open>Log\<close> assumes of \<open>bread\<close>.  \<open>Virtio\<close> models the
  disk driver, and \<open>Virtio_Inv\<close> its calls and interrupts interleaved with a device that
  follows the virtio protocol and reports success for every request, so that the panic on a
  bad status is excluded by that assumption.

  \<^bold>\<open>File system\<close> (\<open>kernel/fs.c\<close>, \<open>file.c\<close>, \<open>sysfile.c\<close>).  \<open>Fs_Block\<close> is the super block and the
  bitmap allocator, \<open>Fs_Inode\<close> the inode layer, \<open>Fs_Dir\<close> directories and path names.
  \<open>Fs_File\<close> and \<open>Fs_Write\<close> show that \<open>readi\<close> and \<open>writei\<close> implement a byte array and leave
  other files alone, \<open>Fs_Trunc\<close> that \<open>itrunc\<close> frees exactly the blocks of the
  file, \<open>Fs_Names\<close> what lookup and linking do to the entries of a directory,
  \<open>Fs_Balance\<close> and \<open>Fs_Calls\<close> (\<open>sys_link\<close>, \<open>sys_unlink\<close>, \<open>create\<close> and their callers) that no
  call leaks a reference or a lock.  \<open>File_Io\<close> has \<open>fileread\<close>, \<open>filewrite\<close> and
  \<open>filestat\<close>.  \<open>Fs_Trans\<close> bounds the blocks of a transaction, \<open>Fs_Discipline\<close> shows that
  every changed block is logged (locale \<open>discipline\<close>, interpreted for the
  block contents and the super block), and \<open>Fs_Atomic\<close> joins the layer with the log:
  a write between \<open>begin_op\<close> and \<open>end_op\<close> survives a crash entirely or not at all (locale
  \<open>logged_operation\<close>).  The functions of the file system theories leave \<open>begin_op\<close> and
  \<open>end_op\<close> to \<open>Fs_Atomic\<close>: these act on the log only.

  \<^bold>\<open>Programs\<close> (\<open>kernel/exec.c\<close>, \<open>elf.h\<close>, \<open>sysfile.c\<close>, \<open>syscall.c\<close>).  \<open>Exec\<close> is \<open>kexec\<close> on the inode layer and the
  memory together.  \<open>Exec_Space\<close> describes the address space while it is built, \<open>Exec_Facts\<close>
  the loading, where nothing is known of the file, \<open>Exec_Stack\<close> the argument block on the
  user stack, and \<open>Exec_Safe\<close> the call as a whole with two address spaces: it fails
  without a trace or exchanges the two.  \<open>Sys_Exec\<close> is \<open>sys_exec\<close>, which reads the arguments from the
  memory of the old program into pages that it holds until \<open>kexec\<close> has returned.

  \<^bold>\<open>User programs\<close> (\<open>xv6-riscv/user\<close>).  \<open>User_Grep\<close> has the matcher of \<open>grep.c\<close>, compared with
  the declarative meaning of patterns, and its reading loop.  \<open>User_Sh\<close> is the parser of \<open>sh.c\<close>,
  \<open>User_Sh_Grammar\<close> compares it with a grammar, and \<open>User_Sh_Run\<close> gives the system calls of
  \<open>runcmd\<close> on a table of descriptors, where pipe ends end up and who holds which; \<open>perform\<close>
  there is the meaning of the system calls, in which \<open>close\<close>, \<open>dup\<close> and \<open>wait\<close> fail only as
  the table of descriptors makes them.  \<open>User_Malloc\<close> is the allocator \<open>umalloc.c\<close>; \<open>User_Malloc_Inv\<close> has the
  circle of free blocks and what \<open>free\<close> and the handing out of a block do to it, \<open>User_Malloc_Safe\<close> the
  search and programs that use the allocator in any order.

  \<^bold>\<open>Shell\<close> (\<open>c-shell/src\<close>).  \<open>Lexer\<close> and \<open>Grammar\<close> model \<open>lexer.c\<close>: the tokenizer with
  its growing buffer and every failing allocation, the recursive descent check,
  and the text of a group; they are compared with a reference lexer, with the
  documented grammar and with a printer.  \<open>Jobs\<close> models the job table and the
  \<open>SIGCHLD\<close> handler of \<open>bg.c\<close>, \<open>Job_Commands\<close> the commands \<open>ping\<close>, \<open>resume\<close> and
  \<open>activities\<close>, \<open>Shell_Run\<close> the running of a line in \<open>seq.c\<close>, \<open>exec.c\<close> and \<open>bg.c\<close>,
  \<open>Shell_Facts\<close> proves what a line does, and \<open>Peek\<close> compares the three readers of
  \<open>peek.c\<close>.

  \<^bold>\<open>Bounds.\<close> Loops are structural recursions or have a termination measure; the two loops of the
  user allocator are partial functions, and that they return is part of what is proved.  These
  models take a bound instead: the walks of \<open>Bio\<close> along the buffer list get
  \<open>NBUF + 1\<close> steps, which the invariant proves enough; \<open>freewalk\<close> gets a depth of 3, the
  height of a page table, which is proved enough; the recursive descent parsers get fuel
  linear in the length of the input, proved enough; and the waits of
  \<open>Job_Commands\<close> consume a list of \<open>waitpid\<close> answers, where enough answers are
  proved to end the wait.  Integers are unbounded where the source relies on a C \<open>int\<close> not
  overflowing: \<open>nextpid\<close> in \<open>Proc\<close> and \<open>next_job_number\<close> in \<open>Jobs\<close>.  The memory that \<open>sbrk\<close> grants
  to a program of \<open>User_Malloc_Safe\<close> ends below \<open>2 ^ 36\<close>, where the unit counts of \<open>umalloc.c\<close> still fit
  32 bits; the kernel's own limit \<open>TRAPFRAME\<close> is higher.

  \<^bold>\<open>Not modelled.\<close> Assembly and start-up, the UART and the interrupt controller (register
  accesses), the dispatch of system calls and the fetching of arguments other than those of \<open>exec\<close>, \<open>printk\<close>,
  the spin locks (each step of a model stands for a stretch of code that holds the locks it
  needs, or for the whole call as said above), the test for \<open>killed\<close> around a timer interrupt; in user space
  \<open>printf\<close>, the test programs and the small utilities; the
  image builder \<open>mkfs\<close>; in the shell the line reader and prompt, \<open>hop\<close>, whose scores are
  floating point numbers, \<open>reveal\<close>, \<open>locate\<close>, \<open>snoop\<close> and \<open>spy\<close>, which print what the
  operating system reports, and the code a child runs between \<open>fork\<close> and \<open>execve\<close>.
\<close>

end
